(* ===== verification/CftPrelude.thy ===== *)
theory CftPrelude
  imports Complex_Main "HOL-Library.Log_Nat"
begin

text \<open>
  The prelude of the development: what every component of the golden model shares.
  Errors as values (the exceptions a Python function of the model raises), Python's
  \<open>int.bit_length\<close>, the bit-level identities that turn the shifts, masks and \<open>OR\<close>s of the
  source into arithmetic, the real powers of two that give an encoding its value, and
  the collections the component proofs hand to the simplifier.
\<close>

unbundle bit_operations_syntax

section \<open>Collections\<close>

named_theorems p2_simps \<open>laws of the real powers of two\<close>
named_theorems bits_arith \<open>bit operations of the source as arithmetic\<close>
named_theorems code_defs \<open>definitions that model source constants, unfolded to evaluate\<close>

section \<open>Errors as values\<close>

text \<open>
  The exceptions the modules raise, Python's own first. \<open>ProgramError\<close> and
  \<open>CharacterSyntaxError\<close> derive from \<open>ValueError\<close>, and so does the language's \<open>Refusal\<close>, which carries the
  name of the refusal; \<open>InternalError\<close> derives from \<open>AssertionError\<close>. Messages are not modelled: a class name,
  and a refusal's name, is what a caller can catch.
\<close>

datatype py_error = ValueError | AssertionError | KeyError | IndexError | TypeError | RuntimeError
  | OverflowError | StructError
  | ScaleOverflow | ProgramError | CharacterSyntaxError
  | AttributeError | ZivEscalation | InternalError | Refusal string

type_synonym 'a result = "py_error + 'a"

text \<open>Sequencing: the first exception ends the computation.\<close>

definition bind_r :: "'e + 'a \<Rightarrow> ('a \<Rightarrow> 'e + 'b) \<Rightarrow> 'e + 'b" where
  "bind_r r f = (case r of Inl e \<Rightarrow> Inl e | Inr x \<Rightarrow> f x)"

lemma bind_r_simps [simp]:
  "bind_r (Inl e) f = Inl e"
  "bind_r (Inr x) f = f x"
  by (simp_all add: bind_r_def)

lemma bind_r_eq_Inr: "bind_r r f = Inr y \<longleftrightarrow> (\<exists>x. r = Inr x \<and> f x = Inr y)"
  by (cases r) auto

lemma bind_r_assoc: "bind_r (bind_r r f) g = bind_r r (\<lambda>x. bind_r (f x) g)"
  by (cases r) auto

text \<open>A recursive call under a sequencing sees the value it is given.\<close>

lemma bind_r_cong [fundef_cong]:
  "r = r' \<Longrightarrow> (\<And>x. r' = Inr x \<Longrightarrow> f x = g x) \<Longrightarrow> bind_r r f = bind_r r' g"
  by (cases r') auto

lemma bind_r_Inr_id [simp]: "bind_r r Inr = r"
  by (cases r) auto

text \<open>A loop that may raise: \<open>for x in xs: s = f(s, x)\<close>.\<close>

fun fold_r :: "('s \<Rightarrow> 'x \<Rightarrow> 'e + 's) \<Rightarrow> 's \<Rightarrow> 'x list \<Rightarrow> 'e + 's" where
  "fold_r f s [] = Inr s"
| "fold_r f s (x # xs) = bind_r (f s x) (\<lambda>s'. fold_r f s' xs)"

lemma fold_r_append: "fold_r f s (xs @ ys) = bind_r (fold_r f s xs) (\<lambda>s'. fold_r f s' ys)"
  by (induction xs arbitrary: s) (simp_all add: bind_r_assoc)

lemma fold_r_cong [fundef_cong]:
  "s = s' \<Longrightarrow> xs = xs' \<Longrightarrow> (\<And>t x. x \<in> set xs' \<Longrightarrow> f t x = g t x) \<Longrightarrow> fold_r f s xs = fold_r g s' xs'"
proof -
  assume "s = s'" "xs = xs'" and e: "\<And>t x. x \<in> set xs' \<Longrightarrow> f t x = g t x"
  have "fold_r f t xs' = fold_r g t xs'" for t
    using e by (induction xs' arbitrary: t) (simp_all cong: bind_r_cong)
  then show ?thesis using \<open>s = s'\<close> \<open>xs = xs'\<close> by simp
qed

lemma fold_r_total:
  "(\<And>s x. x \<in> set xs \<Longrightarrow> f s x = Inr (g s x)) \<Longrightarrow> fold_r f s xs = Inr (foldl g s xs)"
  by (induction xs arbitrary: s) simp_all

text \<open>
  List indexing: a negative index counts from the end, and outside the list the access
  raises.
\<close>

definition py_index :: "'a list \<Rightarrow> int \<Rightarrow> 'a result" where
  "py_index xs i =
    (if 0 \<le> i \<and> i < int (length xs) then Inr (xs ! nat i)
     else if - int (length xs) \<le> i \<and> i < 0 then Inr (xs ! nat (i + int (length xs)))
     else Inl IndexError)"

lemma py_index_nth [simp]: "i < length xs \<Longrightarrow> py_index xs (int i) = Inr (xs ! i)"
  by (simp add: py_index_def)

text \<open>Assignment to a list element, \<open>xs[i] = v\<close>, with the same treatment of the index.\<close>

definition py_set :: "'a list \<Rightarrow> int \<Rightarrow> 'a \<Rightarrow> 'a list result" where
  "py_set xs i v =
    (if 0 \<le> i \<and> i < int (length xs) then Inr (xs[nat i := v])
     else if - int (length xs) \<le> i \<and> i < 0 then Inr (xs[nat (i + int (length xs)) := v])
     else Inl IndexError)"

text \<open>A slice \<open>xs[lo:hi]\<close> of non-negative bounds.\<close>

definition slice :: "'a list \<Rightarrow> nat \<Rightarrow> nat \<Rightarrow> 'a list" where
  "slice xs lo hi = drop lo (take hi xs)"

lemma length_slice [simp]: "length (slice xs lo hi) = min (length xs) hi - lo"
  by (simp add: slice_def)

section \<open>Python integers\<close>

text \<open>\<open>int.bit_length\<close>: the number of bits of the magnitude, 0 for 0.\<close>

definition bit_length :: "int \<Rightarrow> int" where
  "bit_length x = bitlen \<bar>x\<bar>"

lemma bitlen_numeral [simp]:
  "bitlen 1 = 1"
  "bitlen (numeral (Num.Bit0 n)) = bitlen (numeral n) + 1"
  "bitlen (numeral (Num.Bit1 n)) = bitlen (numeral n) + 1"
  by (subst compute_bitlen, simp)+

lemma bit_length_nonneg [simp]: "0 \<le> bit_length x"
  by (simp add: bit_length_def bitlen_nonneg)

lemma bit_length_0 [simp]: "bit_length 0 = 0"
  by (simp add: bit_length_def bitlen_zero)

lemma bit_length_pos: "0 < x \<Longrightarrow> 0 < bit_length x"
  using bitlen_eq_zero_iff [of x] bitlen_nonneg [of x] by (simp add: bit_length_def)

lemma bit_length_bounds:
  assumes "0 < x"
  shows "2 ^ nat (bit_length x - 1) \<le> x" and "x < 2 ^ nat (bit_length x)"
  using bitlen_bounds [OF assms] assms by (simp_all add: bit_length_def)

lemma bit_length_eq_iff:
  assumes "0 < x"
  shows "bit_length x = int n + 1 \<longleftrightarrow> 2 ^ n \<le> x \<and> x < 2 ^ Suc n"
proof
  assume "bit_length x = int n + 1"
  with bit_length_bounds [OF assms] show "2 ^ n \<le> x \<and> x < 2 ^ Suc n"
    by (simp add: nat_add_distrib)
next
  assume b: "2 ^ n \<le> x \<and> x < 2 ^ Suc n"
  then have "bitlen x \<le> int (Suc n)" and "int (Suc n) \<le> bitlen x"
    by (simp_all add: bitlen_le_iff_power bitlen_ge_iff_power del: of_nat_Suc power_Suc)
  with assms show "bit_length x = int n + 1" by (simp add: bit_length_def)
qed

lemma bit_length_le_iff:
  "0 \<le> x \<Longrightarrow> bit_length x \<le> int n \<longleftrightarrow> x < 2 ^ n"
  by (simp add: bit_length_def bitlen_le_iff_power)

lemma bit_length_ge_iff:
  assumes "0 < x" shows "int n < bit_length x \<longleftrightarrow> 2 ^ n \<le> x"
  using bit_length_le_iff [of x n] assms by linarith

text \<open>
  Truth values as the integers the source computes with (\<open>1 if c else 0\<close>) and back
  (an integer used as a condition).
\<close>

abbreviation (input) b2i :: "bool \<Rightarrow> int" where
  "b2i b \<equiv> (if b then 1 else 0)"

abbreviation (input) truthy :: "int \<Rightarrow> bool" where
  "truthy i \<equiv> i \<noteq> 0"

section \<open>Shifts and masks as arithmetic\<close>

lemma and_exp_minus_1 [bits_arith]: "(x::int) AND (2 ^ n - 1) = x mod 2 ^ n"
  by (simp add: take_bit_eq_mask [symmetric] mask_eq_exp_minus_1 [symmetric] take_bit_eq_mod)

lemma div_le_iff_pos:
  fixes x d k :: int
  assumes "0 < d"
  shows "k \<le> x div d \<longleftrightarrow> k * d \<le> x"
proof
  assume "k \<le> x div d"
  then have "k * d \<le> x div d * d" using assms by (simp add: mult_right_mono)
  also have "\<dots> \<le> x" using assms by (simp add: times_div_less_eq_dividend pos_mod_sign minus_mod_eq_div_mult [symmetric])
  finally show "k * d \<le> x" .
next
  assume "k * d \<le> x"
  then show "k \<le> x div d" using zdiv_mono1 [of "k * d" x d] assms by simp
qed

lemma div_less_iff_pos:
  fixes x d k :: int
  shows "0 < d \<Longrightarrow> x div d < k \<longleftrightarrow> x < k * d"
  using div_le_iff_pos [of d k x] by linarith

lemma div_exp_nonneg_iff [simp]: "0 \<le> x div 2 ^ n \<longleftrightarrow> 0 \<le> (x::int)"
  by (simp add: pos_imp_zdiv_nonneg_iff)

lemma div_exp_less_iff: "x div 2 ^ n < k \<longleftrightarrow> x < k * 2 ^ n" for x k :: int
  by (simp add: div_less_iff_pos)

lemma div_exp_le_iff: "k \<le> x div 2 ^ n \<longleftrightarrow> k * 2 ^ n \<le> x" for x k :: int
  by (simp add: div_le_iff_pos)

lemma div_exp_01:
  fixes x :: int
  assumes "0 \<le> x" "x < 2 ^ Suc n"
  shows "x div 2 ^ n = (if 2 ^ n \<le> x then 1 else 0)"
proof (cases "2 ^ n \<le> x")
  case True
  with assms have "(x - 2 ^ n) div 2 ^ n = 0" by (simp add: zdiv_eq_0_iff)
  then have "x div 2 ^ n = 1"
    using div_add_self1 [of "2 ^ n :: int" "x - 2 ^ n"] by simp
  with True show ?thesis by simp
qed (use assms in \<open>simp add: zdiv_eq_0_iff\<close>)

lemma bit_top_iff:
  fixes x :: int
  assumes "0 \<le> x" "x < 2 ^ Suc n"
  shows "bit x n \<longleftrightarrow> 2 ^ n \<le> x"
  by (simp add: bit_iff_odd div_exp_01 [OF assms])

lemma mod_exp_top:
  fixes x :: int
  assumes "0 \<le> x" "x < 2 ^ Suc n"
  shows "x mod 2 ^ n = (if 2 ^ n \<le> x then x - 2 ^ n else x)"
  using div_exp_01 [OF assms] minus_div_mult_eq_mod [of x "2 ^ n"] by (simp split: if_splits)

lemma and_not_top:
  fixes x :: int
  assumes "0 \<le> x" "x < 2 ^ Suc n"
  shows "x AND NOT (2 ^ n) = x mod 2 ^ n"
proof -
  have "x AND NOT (2 ^ n) = unset_bit n x"
    by (simp add: unset_bit_eq_and_not)
  then show ?thesis
    using bit_top_iff [OF assms] mod_exp_top [OF assms] by (simp add: unset_bit_eq)
qed

lemma xor_top:
  fixes x :: int
  assumes "0 \<le> x" "x < 2 ^ Suc n"
  shows "x XOR 2 ^ n = (if 2 ^ n \<le> x then x - 2 ^ n else x + 2 ^ n)"
proof -
  have "x XOR 2 ^ n = flip_bit n x"
    by (simp add: flip_bit_eq_xor)
  then show ?thesis
    using bit_top_iff [OF assms] by (simp add: flip_bit_eq_if unset_bit_eq set_bit_eq)
qed

lemma and_top:
  fixes x :: int
  assumes "0 \<le> x" "x < 2 ^ Suc n"
  shows "x AND 2 ^ n = (if 2 ^ n \<le> x then 2 ^ n else 0)"
proof -
  have "x AND 2 ^ n = of_bool (bit x n) * 2 ^ n"
    by (cases "bit x n") (auto intro!: bit_eqI simp: bit_and_iff bit_exp_iff)
  then show ?thesis using bit_top_iff [OF assms] by simp
qed

lemma or_disjoint:
  fixes a b :: int
  assumes "0 \<le> b" "b < 2 ^ n"
  shows "a * 2 ^ n OR b = a * 2 ^ n + b"
proof -
  have "\<not> bit b m" if "n \<le> m" for m
    using assms that order_less_le_trans [OF assms(2), of "2 ^ m"]
    by (simp add: bit_iff_odd zdiv_eq_0_iff power_increasing)
  then have "push_bit n a AND b = 0"
    by (auto simp: bit_eq_iff bit_simps)
  then have "push_bit n a + b = push_bit n a OR b" by (rule disjunctive_add_eq_or)
  then show ?thesis by (simp add: push_bit_eq_mult)
qed

section \<open>Real powers of two\<close>

text \<open>The weight of a binary place, at any integer position.\<close>

abbreviation p2 :: "int \<Rightarrow> real" where
  "p2 e \<equiv> 2 powi e"

lemma p2_pos [simp]: "0 < p2 e"
  by simp

lemma p2_nz [simp]: "p2 e \<noteq> 0"
  by simp

lemma p2_not_neg [simp]: "\<not> p2 e < 0" "\<not> p2 e \<le> 0"
  using p2_pos [of e] by linarith+

lemma p2_add: "p2 (a + b) = p2 a * p2 b"
  by (simp add: power_int_add)

lemma p2_diff: "p2 (a - b) = p2 a / p2 b"
  by (simp add: power_int_diff)

lemma p2_nat: "0 \<le> e \<Longrightarrow> p2 e = 2 ^ nat e"
  by (simp add: power_int_def)

lemma p2_of_nat [simp]: "p2 (int n) = 2 ^ n"
  by simp

lemma p2_mono_iff [simp]: "p2 a \<le> p2 b \<longleftrightarrow> a \<le> b"
  by (metis linorder_not_le one_less_numeral_iff power_int_strict_increasing power_int_increasing
      one_le_numeral semiring_norm(76))

lemma p2_less_iff [simp]: "p2 a < p2 b \<longleftrightarrow> a < b"
  by (metis linorder_not_le p2_mono_iff)

lemma p2_succ: "p2 (e + 1) = 2 * p2 e"
  by (simp add: p2_add)

lemma p2_pred: "p2 (e - 1) = p2 e / 2"
  by (simp add: p2_diff)

lemma p2_mult_cancel: "p2 a * p2 (b - a) = p2 b"
  by (simp add: p2_add [symmetric])

lemma p2_split_int:
  assumes "a \<le> b"
  shows "p2 b = of_int (2 ^ nat (b - a)) * p2 a"
  using assms by (simp add: p2_diff [of b a] p2_nat [of "b - a", symmetric])

text \<open>Moving a significand to a finer grid, as the source's shifts do.\<close>

lemma shift_value:
  assumes "e0 \<le> e"
  shows "of_int (push_bit (nat (e - e0)) m) * p2 e0 = of_int m * p2 e"
  using p2_split_int [OF assms] by (simp add: push_bit_eq_mult)

section \<open>Floors, logarithms and the binade of a real\<close>

text \<open>The exponent of the binade that holds a positive real.\<close>

definition ilog2 :: "real \<Rightarrow> int" where
  "ilog2 x = \<lfloor>log 2 x\<rfloor>"

lemma ilog2_eq_iff:
  assumes "0 < x"
  shows "ilog2 x = n \<longleftrightarrow> p2 n \<le> x \<and> x < p2 (n + 1)"
  unfolding ilog2_def
  using powr_real_of_int' [of 2 n] powr_real_of_int' [of 2 "n + 1"]
  by (subst floor_log_eq_powr_iff [OF assms]) simp_all

lemma ilog2_bounds:
  assumes "0 < x"
  shows "p2 (ilog2 x) \<le> x" and "x < p2 (ilog2 x + 1)"
  using ilog2_eq_iff [OF assms, of "ilog2 x"] by simp_all

lemma ilog2_ge_iff: "0 < x \<Longrightarrow> n \<le> ilog2 x \<longleftrightarrow> p2 n \<le> x"
proof
  assume x: "0 < x"
  show "p2 n \<le> x" if "n \<le> ilog2 x"
    using that ilog2_bounds(1) [OF x] p2_mono_iff [of n "ilog2 x"] by linarith
  show "n \<le> ilog2 x" if "p2 n \<le> x"
  proof -
    have "p2 n < p2 (ilog2 x + 1)" using that ilog2_bounds(2) [OF x] by linarith
    then show ?thesis by (simp del: power_int_add_1)
  qed
qed

lemma ilog2_mono: "0 < x \<Longrightarrow> x \<le> y \<Longrightarrow> ilog2 x \<le> ilog2 y"
  using ilog2_bounds(1) [of x] ilog2_ge_iff [of y "ilog2 x"] by linarith

lemma ilog2_mult_p2:
  assumes "0 < x"
  shows "ilog2 (x * p2 e) = ilog2 x + e"
proof -
  have "p2 (ilog2 x + e) \<le> x * p2 e" and "x * p2 e < p2 (ilog2 x + e + 1)"
    using ilog2_bounds [OF assms] by (simp_all add: p2_add)
  moreover have "0 < x * p2 e" using assms by simp
  ultimately show ?thesis by (simp add: ilog2_eq_iff)
qed

lemma ilog2_of_int:
  assumes "0 < m"
  shows "ilog2 (of_int m) = bit_length m - 1"
  using assms by (simp add: ilog2_def bit_length_def bitlen_alt_def)

lemma ilog2_value:
  assumes "0 < m"
  shows "ilog2 (of_int m * p2 e) = bit_length m - 1 + e"
  using assms by (simp add: ilog2_mult_p2 ilog2_of_int)

lemma floor_div_p2:
  "\<lfloor>of_int m * p2 (- int n)\<rfloor> = m div 2 ^ n"
proof -
  have "of_int m * p2 (- int n) = of_int m / of_int (2 ^ n)"
    by (simp add: power_int_minus divide_inverse)
  then show ?thesis by (simp only: floor_divide_of_int_eq)
qed

end
