(* ===== verification/Formats.thy ===== *)
theory Formats
  imports CftPrelude
begin

text \<open>
  \<^verbatim>\<open>python/cft_golden/formats.py\<close>: the descriptors of the IEEE 754-2019 binary interchange
  formats, their derived quantities, the four rungs of the precision ladder and the two
  dictionaries that name them. A format is well formed (\<open>wf_fmt\<close>) when both fields have at
  least two bits; \<open>ladder_fmt\<close> adds what only interchange formats satisfy.
\<close>

record fp_format =
  fmt_name :: string
  exp_w :: nat
  man_w :: nat

definition width :: "fp_format \<Rightarrow> nat" where
  "width fmt = 1 + exp_w fmt + man_w fmt"

definition prec :: "fp_format \<Rightarrow> int" where
  "prec fmt = int (man_w fmt) + 1"

definition bias :: "fp_format \<Rightarrow> int" where
  "bias fmt = push_bit (exp_w fmt - 1) 1 - 1"

definition emax :: "fp_format \<Rightarrow> int" where
  "emax fmt = bias fmt"

definition emin :: "fp_format \<Rightarrow> int" where
  "emin fmt = 1 - bias fmt"

definition exp_mask :: "fp_format \<Rightarrow> int" where
  "exp_mask fmt = push_bit (exp_w fmt) 1 - 1"

definition man_mask :: "fp_format \<Rightarrow> int" where
  "man_mask fmt = push_bit (man_w fmt) 1 - 1"

definition sign_mask :: "fp_format \<Rightarrow> int" where
  "sign_mask fmt = push_bit (width fmt - 1) 1"

definition FP32 :: fp_format where
  "FP32 = \<lparr>fmt_name = ''fp32'', exp_w = 8, man_w = 23\<rparr>"

definition FP64 :: fp_format where
  "FP64 = \<lparr>fmt_name = ''fp64'', exp_w = 11, man_w = 52\<rparr>"

definition FP128 :: fp_format where
  "FP128 = \<lparr>fmt_name = ''fp128'', exp_w = 15, man_w = 112\<rparr>"

definition FP256 :: fp_format where
  "FP256 = \<lparr>fmt_name = ''fp256'', exp_w = 19, man_w = 236\<rparr>"

definition FORMATS :: "string \<rightharpoonup> fp_format" where
  "FORMATS = map_of [(''fp32'', FP32), (''fp64'', FP64), (''fp128'', FP128), (''fp256'', FP256)]"

text \<open>The dictionary \<open>PREC_CODE\<close>, and its items in order for the loader that searches them.\<close>

definition PREC_ITEMS :: "(string \<times> int) list" where
  "PREC_ITEMS = [(''fp32'', 0), (''fp64'', 1), (''fp128'', 2), (''fp256'', 3)]"

definition PREC_CODE :: "string \<rightharpoonup> int" where
  "PREC_CODE = map_of PREC_ITEMS"

lemmas fmt_defs [code_defs] =
  width_def prec_def bias_def emax_def emin_def exp_mask_def man_mask_def sign_mask_def

lemmas ladder_defs [code_defs] = FP32_def FP64_def FP128_def FP256_def

section \<open>Well-formed formats\<close>

definition wf_fmt :: "fp_format \<Rightarrow> bool" where
  "wf_fmt fmt \<longleftrightarrow> 2 \<le> exp_w fmt \<and> 2 \<le> man_w fmt"

text \<open>
  What the source's comments attribute to \<open>every ladder format\<close>: room for the seed index,
  an exponent range that reaches past the precision, and a precision that holds every
  exponent.
\<close>

definition ladder_fmt :: "fp_format \<Rightarrow> bool" where
  "ladder_fmt fmt \<longleftrightarrow> wf_fmt fmt \<and> 9 < man_w fmt \<and> 2 * prec fmt \<le> emax fmt
     \<and> exp_w fmt < man_w fmt"

lemma ladder_wf [simp]: "ladder_fmt fmt \<Longrightarrow> wf_fmt fmt"
  by (simp add: ladder_fmt_def)

lemma ladder_fmts [simp]:
  "ladder_fmt FP32" "ladder_fmt FP64" "ladder_fmt FP128" "ladder_fmt FP256"
  by (simp_all add: ladder_fmt_def wf_fmt_def fmt_defs ladder_defs)

lemma wf_fmts [simp]: "wf_fmt FP32" "wf_fmt FP64" "wf_fmt FP128" "wf_fmt FP256"
  by simp_all

lemma wf_man_w: "wf_fmt fmt \<Longrightarrow> 2 \<le> man_w fmt"
  and wf_exp_w: "wf_fmt fmt \<Longrightarrow> 2 \<le> exp_w fmt"
  by (simp_all add: wf_fmt_def)

lemma width_minus_1 [simp]: "width fmt - Suc 0 = exp_w fmt + man_w fmt"
  by (simp add: width_def)

lemma width_eq: "width fmt = Suc (exp_w fmt + man_w fmt)"
  by (simp add: width_def)

lemma exp_mask_eq: "exp_mask fmt = 2 ^ exp_w fmt - 1"
  by (simp add: exp_mask_def)

lemma man_mask_eq: "man_mask fmt = 2 ^ man_w fmt - 1"
  by (simp add: man_mask_def)

lemma sign_mask_eq: "sign_mask fmt = 2 ^ (exp_w fmt + man_w fmt)"
  by (simp add: sign_mask_def)

lemma prec_minus_1 [simp]: "prec fmt - 1 = int (man_w fmt)"
  by (simp add: prec_def)

lemma prec_pos [simp]: "0 < prec fmt"
  by (simp add: prec_def)

lemma exp_w_Suc:
  assumes "wf_fmt fmt"
  shows "(2::int) ^ exp_w fmt = 2 * (bias fmt + 1)"
proof -
  have "exp_w fmt = Suc (exp_w fmt - 1)" using assms by (simp add: wf_fmt_def)
  then show ?thesis by (simp add: bias_def) (metis power_Suc)
qed

lemma bias_pos:
  assumes "wf_fmt fmt"
  shows "1 \<le> bias fmt"
proof -
  have "(2::int) ^ 1 \<le> 2 ^ (exp_w fmt - 1)"
    using assms by (intro power_increasing) (auto simp: wf_fmt_def)
  then show ?thesis by (simp add: bias_def)
qed

lemma exp_mask_bias: "wf_fmt fmt \<Longrightarrow> exp_mask fmt = 2 * bias fmt + 1"
  using exp_w_Suc [of fmt] by (simp add: exp_mask_eq)

lemma exp_mask_ge3: "wf_fmt fmt \<Longrightarrow> 3 \<le> exp_mask fmt"
  using exp_mask_bias [of fmt] bias_pos [of fmt] by simp

lemma emin_le_emax: "wf_fmt fmt \<Longrightarrow> emin fmt \<le> emax fmt"
  using bias_pos [of fmt] by (simp add: emin_def emax_def)

text \<open>The two dictionaries agree on their keys, and a precision code names one format.\<close>

lemma prec_code_formats: "dom PREC_CODE = dom FORMATS"
  by (auto simp: PREC_CODE_def PREC_ITEMS_def FORMATS_def split: if_splits)

lemma prec_code_inj: "PREC_CODE a = Some c \<Longrightarrow> PREC_CODE b = Some c \<Longrightarrow> a = b"
  by (auto simp: PREC_CODE_def PREC_ITEMS_def split: if_splits)

lemma formats_name: "FORMATS n = Some fmt \<Longrightarrow> fmt_name fmt = n \<and> ladder_fmt fmt"
  by (auto simp: FORMATS_def ladder_defs [symmetric] split: if_splits) (simp_all add: ladder_defs)

end
