(* ===== verification/Encoding.thy ===== *)
theory Encoding
  imports Formats
begin

text \<open>
  The encoding half of \<^verbatim>\<open>python/cft_golden/softfloat.py\<close>: the flag bits, the rounding
  attributes, \<open>Unpacked\<close> and \<open>unpack\<close>, and the packed constants. The lemmas give every
  encoding its fields, its class and the real number it stands for, and show that the
  magnitude bits order finite encodings as their values.
\<close>

section \<open>Flags and rounding attributes\<close>

definition FLAG_INVALID :: int where "FLAG_INVALID = push_bit 0 1"
definition FLAG_DIVZERO :: int where "FLAG_DIVZERO = push_bit 1 1"
definition FLAG_OVERFLOW :: int where "FLAG_OVERFLOW = push_bit 2 1"
definition FLAG_UNDERFLOW :: int where "FLAG_UNDERFLOW = push_bit 3 1"
definition FLAG_INEXACT :: int where "FLAG_INEXACT = push_bit 4 1"

lemmas flag_defs [code_defs] =
  FLAG_INVALID_def FLAG_DIVZERO_def FLAG_OVERFLOW_def FLAG_UNDERFLOW_def FLAG_INEXACT_def

definition RND_RNE :: int where "RND_RNE = 0"
definition RND_RTZ :: int where "RND_RTZ = 1"
definition RND_RDN :: int where "RND_RDN = 2"
definition RND_RUP :: int where "RND_RUP = 3"
definition RND_RMM :: int where "RND_RMM = 4"
definition RND_RTTZ :: int where "RND_RTTZ = 16"

definition RND_MODES :: "int list" where
  "RND_MODES = [RND_RNE, RND_RTZ, RND_RDN, RND_RUP, RND_RMM]"

lemmas rnd_defs [code_defs] =
  RND_RNE_def RND_RTZ_def RND_RDN_def RND_RUP_def RND_RMM_def RND_RTTZ_def RND_MODES_def

lemma rnd_distinct [simp]:
  "RND_RNE \<noteq> RND_RTZ" "RND_RNE \<noteq> RND_RDN" "RND_RNE \<noteq> RND_RUP" "RND_RNE \<noteq> RND_RMM"
  "RND_RNE \<noteq> RND_RTTZ" "RND_RTZ \<noteq> RND_RDN" "RND_RTZ \<noteq> RND_RUP" "RND_RTZ \<noteq> RND_RMM"
  "RND_RTZ \<noteq> RND_RTTZ" "RND_RDN \<noteq> RND_RUP" "RND_RDN \<noteq> RND_RMM" "RND_RDN \<noteq> RND_RTTZ"
  "RND_RUP \<noteq> RND_RMM" "RND_RUP \<noteq> RND_RTTZ" "RND_RMM \<noteq> RND_RTTZ"
  by (simp_all add: rnd_defs)

lemmas rnd_distinct_sym [simp] = rnd_distinct [symmetric]

section \<open>Unpacked operands\<close>

datatype fp_kind = KZero | KSub | KNorm | KInf | KNan

record unpacked =
  u_kind :: fp_kind
  u_sign :: int
  u_m :: int
  u_e :: int
  signaling :: bool

text \<open>The constructor with the source's default arguments written out.\<close>

definition mk_unpacked :: "fp_kind \<Rightarrow> int \<Rightarrow> int \<Rightarrow> int \<Rightarrow> bool \<Rightarrow> unpacked" where
  "mk_unpacked k s m e sg = \<lparr>u_kind = k, u_sign = s, u_m = m, u_e = e, signaling = sg\<rparr>"

lemma mk_unpacked_simps [simp]:
  "u_kind (mk_unpacked k s m e sg) = k"
  "u_sign (mk_unpacked k s m e sg) = s"
  "u_m (mk_unpacked k s m e sg) = m"
  "u_e (mk_unpacked k s m e sg) = e"
  "signaling (mk_unpacked k s m e sg) = sg"
  by (simp_all add: mk_unpacked_def)

definition unpack :: "fp_format \<Rightarrow> int \<Rightarrow> unpacked" where
  "unpack fmt bits =
    (let sign = drop_bit (width fmt - 1) bits AND 1;
         ef = drop_bit (man_w fmt) bits AND exp_mask fmt;
         frac = bits AND man_mask fmt
     in if ef = exp_mask fmt then
          (if frac = 0 then mk_unpacked KInf sign 0 0 False
           else let quiet = drop_bit (man_w fmt - 1) frac AND 1
                in mk_unpacked KNan sign 0 0 (\<not> truthy quiet))
        else if ef = 0 then
          (if frac = 0 then mk_unpacked KZero sign 0 0 False
           else mk_unpacked KSub sign frac (emin fmt - int (man_w fmt)) False)
        else mk_unpacked KNorm sign (frac OR push_bit (man_w fmt) 1)
               (ef - bias fmt - int (man_w fmt)) False)"

section \<open>Packed constants\<close>

definition zero_bits :: "fp_format \<Rightarrow> int \<Rightarrow> int" where
  "zero_bits fmt sign = push_bit (width fmt - 1) sign"

definition inf_bits :: "fp_format \<Rightarrow> int \<Rightarrow> int" where
  "inf_bits fmt sign = push_bit (width fmt - 1) sign OR push_bit (man_w fmt) (exp_mask fmt)"

definition qnan_bits :: "fp_format \<Rightarrow> int" where
  "qnan_bits fmt = push_bit (man_w fmt) (exp_mask fmt) OR push_bit (man_w fmt - 1) 1"

definition snan_bits :: "fp_format \<Rightarrow> int \<Rightarrow> int result" where
  "snan_bits fmt payload =
    (if 0 < payload \<and> payload < push_bit (man_w fmt - 1) 1
     then Inr (push_bit (man_w fmt) (exp_mask fmt) OR payload)
     else Inl AssertionError)"

definition one_bits :: "fp_format \<Rightarrow> int \<Rightarrow> int" where
  "one_bits fmt sign = push_bit (width fmt - 1) sign OR push_bit (man_w fmt) (bias fmt)"

definition min_subnormal_bits :: "fp_format \<Rightarrow> int \<Rightarrow> int" where
  "min_subnormal_bits fmt sign = push_bit (width fmt - 1) sign OR 1"

definition max_subnormal_bits :: "fp_format \<Rightarrow> int \<Rightarrow> int" where
  "max_subnormal_bits fmt sign = push_bit (width fmt - 1) sign OR man_mask fmt"

definition min_normal_bits :: "fp_format \<Rightarrow> int \<Rightarrow> int" where
  "min_normal_bits fmt sign = push_bit (width fmt - 1) sign OR push_bit (man_w fmt) 1"

definition max_normal_bits :: "fp_format \<Rightarrow> int \<Rightarrow> int" where
  "max_normal_bits fmt sign =
    push_bit (width fmt - 1) sign OR push_bit (man_w fmt) (exp_mask fmt - 1) OR man_mask fmt"

definition negate :: "fp_format \<Rightarrow> int \<Rightarrow> int" where
  "negate fmt bits = bits XOR sign_mask fmt"

definition is_nan :: "fp_format \<Rightarrow> int \<Rightarrow> bool" where
  "is_nan fmt bits \<longleftrightarrow>
    drop_bit (man_w fmt) bits AND exp_mask fmt = exp_mask fmt \<and> bits AND man_mask fmt \<noteq> 0"

lemmas packed_defs [code_defs] =
  zero_bits_def inf_bits_def qnan_bits_def one_bits_def min_subnormal_bits_def
  max_subnormal_bits_def min_normal_bits_def max_normal_bits_def negate_def

section \<open>The three fields\<close>

text \<open>An encoding that fits the format, its sign and its magnitude bits.\<close>

definition fits :: "fp_format \<Rightarrow> int \<Rightarrow> bool" where
  "fits fmt x \<longleftrightarrow> 0 \<le> x \<and> x < 2 ^ width fmt"

definition sgn_of :: "fp_format \<Rightarrow> int \<Rightarrow> int" where
  "sgn_of fmt x = x div 2 ^ (exp_w fmt + man_w fmt)"

definition mag_of :: "fp_format \<Rightarrow> int \<Rightarrow> int" where
  "mag_of fmt x = x mod 2 ^ (exp_w fmt + man_w fmt)"

definition pack :: "fp_format \<Rightarrow> int \<Rightarrow> int \<Rightarrow> int" where
  "pack fmt s mag = s * 2 ^ (exp_w fmt + man_w fmt) + mag"

definition mag_lim :: "fp_format \<Rightarrow> int" where
  "mag_lim fmt = 2 ^ (exp_w fmt + man_w fmt)"

text \<open>The magnitude bits of an infinity: everything finite lies below, every NaN above.\<close>

definition inf_mag :: "fp_format \<Rightarrow> int" where
  "inf_mag fmt = exp_mask fmt * 2 ^ man_w fmt"

lemma mag_lim_pos [simp]: "0 < mag_lim fmt"
  by (simp add: mag_lim_def)

lemma mag_bounds [simp]: "0 \<le> mag_of fmt x" "mag_of fmt x < mag_lim fmt"
  by (simp_all add: mag_of_def mag_lim_def)

lemma fits_sgn:
  assumes "fits fmt x"
  shows "sgn_of fmt x = 0 \<or> sgn_of fmt x = 1"
  using assms div_exp_01 [of x "exp_w fmt + man_w fmt"]
  by (auto simp: fits_def sgn_of_def width_eq)

lemma pack_fields: "pack fmt (sgn_of fmt x) (mag_of fmt x) = x"
  unfolding pack_def sgn_of_def mag_of_def by (rule div_mult_mod_eq)

lemma sgn_of_pack [simp]: "0 \<le> mag \<Longrightarrow> mag < mag_lim fmt \<Longrightarrow> sgn_of fmt (pack fmt s mag) = s"
  by (simp add: sgn_of_def pack_def mag_lim_def zdiv_eq_0_iff)

lemma mag_of_pack [simp]: "0 \<le> mag \<Longrightarrow> mag < mag_lim fmt \<Longrightarrow> mag_of fmt (pack fmt s mag) = mag"
  by (simp add: mag_of_def pack_def mag_lim_def)

lemma fits_pack [simp]:
  assumes "s = 0 \<or> s = 1" "0 \<le> mag" "mag < mag_lim fmt"
  shows "fits fmt (pack fmt s mag)"
  using assms by (auto simp: fits_def pack_def mag_lim_def width_eq)

lemma pack_0 [simp]: "pack fmt 0 mag = mag"
  by (simp add: pack_def)

lemma mag_lim_inf: "inf_mag fmt + 2 ^ man_w fmt = mag_lim fmt"
  by (simp add: inf_mag_def mag_lim_def exp_mask_eq power_add algebra_simps)

lemma inf_mag_less [simp]: "inf_mag fmt < mag_lim fmt"
  using mag_lim_inf [of fmt] zero_less_power [of "2::int" "man_w fmt"] by linarith

lemma man_le_inf:
  assumes "wf_fmt fmt" shows "3 * 2 ^ man_w fmt \<le> inf_mag fmt"
  unfolding inf_mag_def using exp_mask_ge3 [OF assms] by (intro mult_right_mono) auto

lemma man_less_inf: "wf_fmt fmt \<Longrightarrow> 2 ^ man_w fmt < inf_mag fmt"
  using man_le_inf [of fmt] zero_less_power [of "2::int" "man_w fmt"] by linarith

lemma inf_mag_pos: "wf_fmt fmt \<Longrightarrow> 0 < inf_mag fmt"
  using exp_mask_ge3 [of fmt] by (simp add: inf_mag_def)

section \<open>Decoding in arithmetic form\<close>

definition qmin :: "fp_format \<Rightarrow> int" where
  "qmin fmt = emin fmt - int (man_w fmt)"

definition sig_of :: "fp_format \<Rightarrow> int \<Rightarrow> int" where
  "sig_of fmt mag = (if mag < 2 ^ man_w fmt then mag else mag mod 2 ^ man_w fmt + 2 ^ man_w fmt)"

definition exp_of :: "fp_format \<Rightarrow> int \<Rightarrow> int" where
  "exp_of fmt mag =
    (if mag < 2 ^ man_w fmt then qmin fmt else qmin fmt + mag div 2 ^ man_w fmt - 1)"

definition kind_of :: "fp_format \<Rightarrow> int \<Rightarrow> fp_kind" where
  "kind_of fmt mag =
    (if mag = 0 then KZero else if mag < 2 ^ man_w fmt then KSub
     else if mag < inf_mag fmt then KNorm else if mag = inf_mag fmt then KInf else KNan)"

text \<open>The fields of \<open>pack\<close>ed magnitude bits, as the source's shifts and masks read them.\<close>

lemma raw_fields:
  assumes "0 \<le> mag" "mag < mag_lim fmt" "s = 0 \<or> s = 1"
  shows "drop_bit (width fmt - 1) (pack fmt s mag) AND 1 = s"
    and "drop_bit (man_w fmt) (pack fmt s mag) AND exp_mask fmt = mag div 2 ^ man_w fmt"
    and "pack fmt s mag AND man_mask fmt = mag mod 2 ^ man_w fmt"
proof -
  have "pack fmt s mag div 2 ^ (exp_w fmt + man_w fmt) = s"
    using sgn_of_pack [OF assms(1,2)] by (simp add: sgn_of_def)
  then show "drop_bit (width fmt - 1) (pack fmt s mag) AND 1 = s"
    using assms(3) by (auto simp: drop_bit_eq_div and_one_eq)
  have eq: "pack fmt s mag = mag + (s * 2 ^ exp_w fmt) * 2 ^ man_w fmt"
    by (simp add: pack_def power_add)
  have "pack fmt s mag div 2 ^ man_w fmt = s * 2 ^ exp_w fmt + mag div 2 ^ man_w fmt"
    unfolding eq by simp
  moreover have "0 \<le> mag div 2 ^ man_w fmt" "mag div 2 ^ man_w fmt < 2 ^ exp_w fmt"
    using assms(1,2) by (simp_all add: mag_lim_def power_add div_exp_less_iff)
  ultimately show "drop_bit (man_w fmt) (pack fmt s mag) AND exp_mask fmt = mag div 2 ^ man_w fmt"
    by (simp add: drop_bit_eq_div exp_mask_eq bits_arith)
  show "pack fmt s mag AND man_mask fmt = mag mod 2 ^ man_w fmt"
    unfolding eq by (simp add: man_mask_eq bits_arith)
qed

lemma div_exp_mask_iff:
  assumes "0 \<le> mag" "mag < mag_lim fmt"
  shows "mag div 2 ^ man_w fmt = exp_mask fmt \<longleftrightarrow> inf_mag fmt \<le> mag"
    and "inf_mag fmt \<le> mag \<Longrightarrow> mag mod 2 ^ man_w fmt = mag - inf_mag fmt"
proof -
  have *: "mag div 2 ^ man_w fmt = exp_mask fmt" if "inf_mag fmt \<le> mag"
  proof -
    have "mag - inf_mag fmt < 2 ^ man_w fmt" using assms mag_lim_inf [of fmt] by linarith
    then have "(mag - inf_mag fmt) div 2 ^ man_w fmt = 0"
      using that by (simp add: zdiv_eq_0_iff)
    then show ?thesis
      using div_mult_self1 [of "2 ^ man_w fmt" "mag - inf_mag fmt" "exp_mask fmt"]
      by (simp add: inf_mag_def)
  qed
  show "mag div 2 ^ man_w fmt = exp_mask fmt \<longleftrightarrow> inf_mag fmt \<le> mag"
    using * div_exp_le_iff [of "exp_mask fmt" mag "man_w fmt"] by (auto simp: inf_mag_def)
  show "mag mod 2 ^ man_w fmt = mag - inf_mag fmt" if "inf_mag fmt \<le> mag"
    using * [OF that] minus_div_mult_eq_mod [of mag "2 ^ man_w fmt"] by (simp add: inf_mag_def)
qed

lemma unpack_pack:
  assumes wf: "wf_fmt fmt" and mag: "0 \<le> mag" "mag < mag_lim fmt" and s: "s = 0 \<or> s = 1"
  shows "unpack fmt (pack fmt s mag) =
    mk_unpacked (kind_of fmt mag) s
      (if mag < inf_mag fmt then sig_of fmt mag else 0)
      (if mag = 0 \<or> inf_mag fmt \<le> mag then 0 else exp_of fmt mag)
      (inf_mag fmt < mag \<and> mag - inf_mag fmt < 2 ^ (man_w fmt - 1))"
proof -
  note f = raw_fields [OF mag s] and d = div_exp_mask_iff [OF mag]
  have small: "mag div 2 ^ man_w fmt = 0 \<longleftrightarrow> mag < 2 ^ man_w fmt"
    using mag(1) div_exp_less_iff [of mag "man_w fmt" 1] div_exp_nonneg_iff [of mag "man_w fmt"]
    by linarith
  have le: "mag < 2 ^ man_w fmt \<Longrightarrow> mag < inf_mag fmt"
    using man_less_inf [OF wf] by linarith
  have or1: "mag mod 2 ^ man_w fmt OR 2 ^ man_w fmt = mag mod 2 ^ man_w fmt + 2 ^ man_w fmt"
    using or_disjoint [of "mag mod 2 ^ man_w fmt" "man_w fmt" 1]
    by (simp add: or.commute add.commute)
  have quiet: "drop_bit (man_w fmt - 1) fr AND 1 = b2i (2 ^ (man_w fmt - 1) \<le> fr)"
    if "0 \<le> fr" "fr < 2 ^ man_w fmt" for fr :: int
  proof -
    have "Suc (man_w fmt - 1) = man_w fmt" using wf by (simp add: wf_fmt_def)
    with that show ?thesis
      using div_exp_01 [of fr "man_w fmt - 1"] by (auto simp: drop_bit_eq_div and_one_eq)
  qed
  show ?thesis
  proof (cases "inf_mag fmt \<le> mag")
    case True
    have "mag - inf_mag fmt < 2 ^ man_w fmt" using mag mag_lim_inf [of fmt] by linarith
    with True le show ?thesis
      unfolding unpack_def Let_def f
      using d quiet [of "mag - inf_mag fmt"] inf_mag_pos [OF wf]
      by (auto simp: kind_of_def)
  next
    case False
    then show ?thesis
      unfolding unpack_def Let_def f
      using d small le mag or1
      by (auto simp: kind_of_def sig_of_def exp_of_def qmin_def emin_def)
  qed
qed

lemma unpack_fits:
  assumes wf: "wf_fmt fmt" and x: "fits fmt x"
  shows "unpack fmt x =
    mk_unpacked (kind_of fmt (mag_of fmt x)) (sgn_of fmt x)
      (if mag_of fmt x < inf_mag fmt then sig_of fmt (mag_of fmt x) else 0)
      (if mag_of fmt x = 0 \<or> inf_mag fmt \<le> mag_of fmt x then 0 else exp_of fmt (mag_of fmt x))
      (inf_mag fmt < mag_of fmt x \<and> mag_of fmt x - inf_mag fmt < 2 ^ (man_w fmt - 1))"
  using unpack_pack [OF wf, of "mag_of fmt x" "sgn_of fmt x"] fits_sgn [OF x]
  by (simp add: pack_fields)

text \<open>The accessors, for any encoding that fits.\<close>

lemma u_kind_unpack:
  "wf_fmt fmt \<Longrightarrow> fits fmt x \<Longrightarrow> u_kind (unpack fmt x) = kind_of fmt (mag_of fmt x)"
  by (simp add: unpack_fits)

lemma u_sign_unpack [simp]:
  "wf_fmt fmt \<Longrightarrow> fits fmt x \<Longrightarrow> u_sign (unpack fmt x) = sgn_of fmt x"
  by (simp add: unpack_fits)

lemma kind_of_iff:
  assumes "wf_fmt fmt" "0 \<le> mag"
  shows "kind_of fmt mag = KZero \<longleftrightarrow> mag = 0"
    and "kind_of fmt mag = KSub \<longleftrightarrow> 0 < mag \<and> mag < 2 ^ man_w fmt"
    and "kind_of fmt mag = KNorm \<longleftrightarrow> 2 ^ man_w fmt \<le> mag \<and> mag < inf_mag fmt"
    and "kind_of fmt mag = KInf \<longleftrightarrow> mag = inf_mag fmt"
    and "kind_of fmt mag = KNan \<longleftrightarrow> inf_mag fmt < mag"
  using assms man_less_inf [OF assms(1)] zero_less_power [of "2::int" "man_w fmt"]
    inf_mag_pos [OF assms(1)]
  by (auto simp: kind_of_def)

section \<open>Values\<close>

text \<open>
  The real number a finite encoding stands for: \<open>(-1)\<^sup>s * m * 2\<^sup>e\<close> of its unpacked form.
\<close>

definition sg :: "int \<Rightarrow> real" where
  "sg s = (if truthy s then - 1 else 1)"

definition u_val :: "unpacked \<Rightarrow> real" where
  "u_val u = sg (u_sign u) * of_int (u_m u) * p2 (u_e u)"

definition fval :: "fp_format \<Rightarrow> int \<Rightarrow> real" where
  "fval fmt x = u_val (unpack fmt x)"

definition mag_val :: "fp_format \<Rightarrow> int \<Rightarrow> real" where
  "mag_val fmt mag = of_int (sig_of fmt mag) * p2 (exp_of fmt mag)"

definition is_finite :: "fp_format \<Rightarrow> int \<Rightarrow> bool" where
  "is_finite fmt x \<longleftrightarrow> mag_of fmt x < inf_mag fmt"

lemma sg_simps [simp]: "sg 0 = 1" "sg 1 = - 1" "\<bar>sg s\<bar> = 1" "sg s * sg s = 1"
  by (simp_all add: sg_def)

lemma is_finite_kind:
  assumes "wf_fmt fmt" "fits fmt x"
  shows "is_finite fmt x \<longleftrightarrow> u_kind (unpack fmt x) \<noteq> KInf \<and> u_kind (unpack fmt x) \<noteq> KNan"
  using assms by (auto simp: u_kind_unpack is_finite_def kind_of_iff)

lemma fval_eq:
  assumes "wf_fmt fmt" "fits fmt x" "is_finite fmt x"
  shows "fval fmt x = sg (sgn_of fmt x) * mag_val fmt (mag_of fmt x)"
proof (cases "mag_of fmt x = 0")
  case True
  then show ?thesis using assms
    by (simp add: fval_def u_val_def unpack_fits mag_val_def sig_of_def is_finite_def)
next
  case False
  then show ?thesis using assms
    by (simp add: fval_def u_val_def unpack_fits mag_val_def is_finite_def)
qed

lemma mag_val_0 [simp]: "mag_val fmt 0 = 0"
  by (simp add: mag_val_def sig_of_def)

text \<open>
  Magnitude bits are a mixed-radix number: binade above significand. \<open>place fmt q k\<close> is where
  the value \<open>k * 2\<^sup>q\<close> stands, for any significand \<open>k\<close> of the binade or the power of two that
  closes it.
\<close>

definition place :: "fp_format \<Rightarrow> int \<Rightarrow> int \<Rightarrow> int" where
  "place fmt q k = (q - qmin fmt) * 2 ^ man_w fmt + k"

lemma mag_val_place:
  assumes q: "qmin fmt \<le> q" and k: "0 \<le> k" "k \<le> 2 * 2 ^ man_w fmt"
    and norm: "q = qmin fmt \<or> 2 ^ man_w fmt \<le> k"
  shows "mag_val fmt (place fmt q k) = of_int k * p2 q"
proof -
  let ?P = "2 ^ man_w fmt :: int"
  have P: "0 < ?P" by simp
  have nn: "0 \<le> (q - qmin fmt) * ?P" using q by simp
  consider "k < ?P" | "?P \<le> k" "k < 2 * ?P" | "k = 2 * ?P" using k by linarith
  then show ?thesis
  proof cases
    case 1
    with norm have "q = qmin fmt" by linarith
    with 1 show ?thesis by (simp add: place_def mag_val_def sig_of_def exp_of_def)
  next
    case 2
    have d: "k div ?P = 1" and m: "k mod ?P = k - ?P"
      using 2 div_exp_01 [of k "man_w fmt"] mod_exp_top [of k "man_w fmt"] by simp_all
    have eq: "place fmt q k = k + (q - qmin fmt) * ?P"
      by (simp add: place_def)
    have "place fmt q k div ?P = q - qmin fmt + 1" "place fmt q k mod ?P = k - ?P"
      unfolding eq by (simp_all add: d m)
    moreover have "\<not> place fmt q k < ?P"
      using 2 nn unfolding place_def by linarith
    ultimately show ?thesis by (simp add: mag_val_def sig_of_def exp_of_def)
  next
    case 3
    have eq: "place fmt q k = (q - qmin fmt + 2) * ?P"
      using 3 by (simp add: place_def algebra_simps)
    have "place fmt q k div ?P = q - qmin fmt + 2" "place fmt q k mod ?P = 0"
      unfolding eq by simp_all
    moreover have "\<not> place fmt q k < ?P"
      using 3 nn P unfolding place_def by linarith
    ultimately show ?thesis
      using 3 by (simp add: mag_val_def sig_of_def exp_of_def p2_add)
  qed
qed

lemma place_of_mag:
  assumes "0 \<le> mag"
  shows "place fmt (exp_of fmt mag) (sig_of fmt mag) = mag"
    and "qmin fmt \<le> exp_of fmt mag"
    and "0 \<le> sig_of fmt mag" "sig_of fmt mag < 2 * 2 ^ man_w fmt"
    and "exp_of fmt mag = qmin fmt \<or> 2 ^ man_w fmt \<le> sig_of fmt mag"
proof -
  have m: "0 \<le> mag mod 2 ^ man_w fmt" "mag mod 2 ^ man_w fmt < 2 ^ man_w fmt" by simp_all
  show "place fmt (exp_of fmt mag) (sig_of fmt mag) = mag"
    using div_mult_mod_eq [of mag "2 ^ man_w fmt"]
    by (simp add: place_def exp_of_def sig_of_def algebra_simps)
  show "qmin fmt \<le> exp_of fmt mag"
    using assms div_exp_le_iff [of 1 mag "man_w fmt"] by (auto simp: exp_of_def)
  show "0 \<le> sig_of fmt mag" "sig_of fmt mag < 2 * 2 ^ man_w fmt"
    "exp_of fmt mag = qmin fmt \<or> 2 ^ man_w fmt \<le> sig_of fmt mag"
    using assms m by (auto simp: sig_of_def exp_of_def)
qed

text \<open>One step up the encoding is one unit in the last place up the value.\<close>

lemma mag_val_Suc:
  assumes "0 \<le> mag"
  shows "mag_val fmt (mag + 1) = mag_val fmt mag + p2 (exp_of fmt mag)"
proof -
  note p = place_of_mag [OF assms, of fmt]
  have "place fmt (exp_of fmt mag) (sig_of fmt mag + 1) = mag + 1"
    using p(1) by (simp add: place_def)
  moreover have "mag_val fmt (place fmt (exp_of fmt mag) (sig_of fmt mag + 1)) =
      of_int (sig_of fmt mag + 1) * p2 (exp_of fmt mag)"
    using p by (intro mag_val_place) auto
  ultimately show ?thesis by (simp add: mag_val_def [of fmt mag] algebra_simps)
qed

lemma mag_val_strict_mono:
  assumes "0 \<le> a" "a < b"
  shows "mag_val fmt a < mag_val fmt b"
  using assms(2)
proof (induction b rule: int_gr_induct)
  case base
  show ?case using mag_val_Suc [OF assms(1)] by simp
next
  case (step i)
  have "mag_val fmt (i + 1) = mag_val fmt i + p2 (exp_of fmt i)"
    using step assms(1) by (intro mag_val_Suc) linarith
  then show ?case using step.IH p2_pos [of "exp_of fmt i"] by linarith
qed

lemma mag_val_less_iff:
  "0 \<le> a \<Longrightarrow> 0 \<le> b \<Longrightarrow> mag_val fmt a < mag_val fmt b \<longleftrightarrow> a < b"
  by (metis mag_val_strict_mono linorder_less_linear order_less_asym)

lemma mag_val_le_iff:
  "0 \<le> a \<Longrightarrow> 0 \<le> b \<Longrightarrow> mag_val fmt a \<le> mag_val fmt b \<longleftrightarrow> a \<le> b"
  by (meson mag_val_less_iff linorder_not_le)

lemma mag_val_eq_iff:
  "0 \<le> a \<Longrightarrow> 0 \<le> b \<Longrightarrow> mag_val fmt a = mag_val fmt b \<longleftrightarrow> a = b"
  by (metis mag_val_strict_mono linorder_less_linear order_less_irrefl)

lemma mag_val_nonneg [simp]: "0 \<le> mag \<Longrightarrow> 0 \<le> mag_val fmt mag"
  using mag_val_le_iff [of 0 mag fmt] by simp

lemma mag_val_pos_iff: "0 \<le> mag \<Longrightarrow> 0 < mag_val fmt mag \<longleftrightarrow> 0 < mag"
  using mag_val_less_iff [of 0 mag fmt] by simp

section \<open>The packed constants, field by field\<close>

lemma zero_bits_pack: "zero_bits fmt s = pack fmt s 0"
  by (simp add: zero_bits_def pack_def push_bit_eq_mult)

lemma push_or_pack:
  assumes "0 \<le> mag" "mag < mag_lim fmt"
  shows "push_bit (width fmt - 1) s OR mag = pack fmt s mag"
  using assms or_disjoint [of mag "exp_w fmt + man_w fmt" s]
  by (simp add: pack_def push_bit_eq_mult mag_lim_def)

lemma inf_bits_pack:
  assumes "wf_fmt fmt" shows "inf_bits fmt s = pack fmt s (inf_mag fmt)"
  unfolding inf_bits_def inf_mag_def [symmetric] push_bit_eq_mult [of "man_w fmt"]
  using inf_mag_pos [OF assms] by (intro push_or_pack) auto

lemma qnan_bits_eq:
  assumes "wf_fmt fmt" shows "qnan_bits fmt = inf_mag fmt + 2 ^ (man_w fmt - 1)"
proof -
  have "(2::int) ^ (man_w fmt - 1) < 2 ^ man_w fmt"
    using assms by (intro power_strict_increasing) (auto simp: wf_fmt_def)
  then show ?thesis
    using or_disjoint [of "2 ^ (man_w fmt - 1)" "man_w fmt" "exp_mask fmt"]
    by (simp add: qnan_bits_def push_bit_eq_mult inf_mag_def)
qed

lemma qnan_bits_pack:
  assumes "wf_fmt fmt"
  shows "qnan_bits fmt = pack fmt 0 (inf_mag fmt + 2 ^ (man_w fmt - 1))"
    and "inf_mag fmt + 2 ^ (man_w fmt - 1) < mag_lim fmt"
proof -
  have "(2::int) ^ (man_w fmt - 1) < 2 ^ man_w fmt"
    using assms by (intro power_strict_increasing) (auto simp: wf_fmt_def)
  then show "inf_mag fmt + 2 ^ (man_w fmt - 1) < mag_lim fmt"
    by (simp add: mag_lim_inf [symmetric])
  show "qnan_bits fmt = pack fmt 0 (inf_mag fmt + 2 ^ (man_w fmt - 1))"
    by (simp add: qnan_bits_eq [OF assms])
qed

lemma man_mag_lim:
  assumes "wf_fmt fmt" shows "2 ^ man_w fmt < mag_lim fmt"
  using man_less_inf [OF assms] inf_mag_less [of fmt] by linarith

lemma min_subnormal_pack:
  assumes "wf_fmt fmt" shows "min_subnormal_bits fmt s = pack fmt s 1"
  unfolding min_subnormal_bits_def
  using man_mag_lim [OF assms] zero_less_power [of "2::int" "man_w fmt"]
  by (intro push_or_pack) linarith+

lemma max_subnormal_pack:
  assumes "wf_fmt fmt" shows "max_subnormal_bits fmt s = pack fmt s (2 ^ man_w fmt - 1)"
  unfolding max_subnormal_bits_def man_mask_eq
  using man_mag_lim [OF assms] zero_less_power [of "2::int" "man_w fmt"]
  by (intro push_or_pack) linarith+

lemma min_normal_pack:
  assumes "wf_fmt fmt" shows "min_normal_bits fmt s = pack fmt s (2 ^ man_w fmt)"
  unfolding min_normal_bits_def push_bit_of_1
  using man_mag_lim [OF assms] by (intro push_or_pack) auto

lemma max_normal_pack:
  assumes "wf_fmt fmt" shows "max_normal_bits fmt s = pack fmt s (inf_mag fmt - 1)"
proof -
  have "push_bit (man_w fmt) (exp_mask fmt - 1) OR man_mask fmt = inf_mag fmt - 1"
    using or_disjoint [of "2 ^ man_w fmt - 1" "man_w fmt" "exp_mask fmt - 1"]
    by (simp add: push_bit_eq_mult man_mask_eq inf_mag_def algebra_simps)
  moreover have "0 \<le> inf_mag fmt - 1" "inf_mag fmt - 1 < mag_lim fmt"
    using inf_mag_pos [OF assms] inf_mag_less [of fmt] by linarith+
  ultimately show ?thesis
    using push_or_pack [of "inf_mag fmt - 1" fmt s] by (simp add: max_normal_bits_def or.assoc)
qed

lemma one_bits_pack:
  assumes "wf_fmt fmt" shows "one_bits fmt s = pack fmt s (bias fmt * 2 ^ man_w fmt)"
proof -
  have "bias fmt * 2 ^ man_w fmt \<le> inf_mag fmt"
    unfolding inf_mag_def using exp_mask_bias [OF assms] bias_pos [OF assms]
    by (intro mult_right_mono) auto
  then have "bias fmt * 2 ^ man_w fmt < mag_lim fmt" using inf_mag_less [of fmt] by linarith
  then show ?thesis
    unfolding one_bits_def push_bit_eq_mult [of "man_w fmt"]
    using bias_pos [OF assms] by (intro push_or_pack) auto
qed

lemmas packed = zero_bits_pack inf_bits_pack min_subnormal_pack max_subnormal_pack
  min_normal_pack max_normal_pack one_bits_pack

text \<open>Sign surgery: the three ways the source touches the top bit.\<close>

lemma fits_top: "fits fmt x \<Longrightarrow> 0 \<le> x \<and> x < 2 ^ Suc (exp_w fmt + man_w fmt)"
  by (simp add: fits_def width_eq)

lemma clear_sign: "fits fmt x \<Longrightarrow> x AND NOT (sign_mask fmt) = mag_of fmt x"
  using fits_top [of fmt x] and_not_top [of x "exp_w fmt + man_w fmt"]
  by (simp add: sign_mask_eq mag_of_def)

lemma negate_pack:
  assumes "fits fmt x"
  shows "negate fmt x = pack fmt (1 - sgn_of fmt x) (mag_of fmt x)"
  using fits_top [OF assms] xor_top [of x "exp_w fmt + man_w fmt"]
    div_exp_01 [of x "exp_w fmt + man_w fmt"] mod_exp_top [of x "exp_w fmt + man_w fmt"]
  by (auto simp: negate_def sign_mask_eq pack_def sgn_of_def mag_of_def)

lemma fits_mag [simp]: "fits fmt (mag_of fmt x)"
  using fits_pack [of 0 "mag_of fmt x" fmt] by simp

lemma sgn_mag [simp]: "sgn_of fmt (mag_of fmt x) = 0" "mag_of fmt (mag_of fmt x) = mag_of fmt x"
  using sgn_of_pack [of "mag_of fmt x" fmt 0] mag_of_pack [of "mag_of fmt x" fmt 0] by simp_all

lemma fits_negate [simp]: "fits fmt x \<Longrightarrow> fits fmt (negate fmt x)"
  using fits_sgn [of fmt x] by (auto simp: negate_pack)

lemma sgn_negate [simp]: "fits fmt x \<Longrightarrow> sgn_of fmt (negate fmt x) = 1 - sgn_of fmt x"
  and mag_negate [simp]: "fits fmt x \<Longrightarrow> mag_of fmt (negate fmt x) = mag_of fmt x"
  by (simp_all add: negate_pack)

lemma negate_negate: "fits fmt x \<Longrightarrow> negate fmt (negate fmt x) = x"
  by (simp add: negate_def xor.assoc)

lemma is_nan_mag:
  assumes "wf_fmt fmt" "fits fmt x"
  shows "is_nan fmt x \<longleftrightarrow> inf_mag fmt < mag_of fmt x"
proof -
  have "sgn_of fmt x = 0 \<or> sgn_of fmt x = 1" by (rule fits_sgn [OF assms(2)])
  from raw_fields [OF mag_bounds(1) [of fmt x] mag_bounds(2) this]
    div_exp_mask_iff [OF mag_bounds(1) [of fmt x] mag_bounds(2)]
  show ?thesis by (auto simp: is_nan_def pack_fields)
qed

lemma fval_negate:
  assumes "wf_fmt fmt" "fits fmt x" "is_finite fmt x"
  shows "fval fmt (negate fmt x) = - fval fmt x"
proof -
  have "is_finite fmt (negate fmt x)" using assms by (simp add: is_finite_def)
  with assms fits_sgn [OF assms(2)] show ?thesis by (auto simp: fval_eq)
qed

lemma fval_pack:
  assumes "wf_fmt fmt" "s = 0 \<or> s = 1" "0 \<le> mag" "mag < inf_mag fmt"
  shows "fval fmt (pack fmt s mag) = sg s * mag_val fmt mag"
proof -
  have "mag < mag_lim fmt" using assms(4) inf_mag_less [of fmt] by linarith
  with assms show ?thesis by (subst fval_eq) (simp_all add: is_finite_def)
qed

text \<open>The value of one, and of the edges of the range.\<close>

lemma mag_val_bias:
  assumes "wf_fmt fmt" shows "mag_val fmt (bias fmt * 2 ^ man_w fmt) = 1"
proof -
  have "place fmt (- int (man_w fmt)) (2 ^ man_w fmt) = bias fmt * 2 ^ man_w fmt"
    by (simp add: place_def qmin_def emin_def algebra_simps)
  moreover have "mag_val fmt (place fmt (- int (man_w fmt)) (2 ^ man_w fmt)) =
      of_int (2 ^ man_w fmt) * p2 (- int (man_w fmt))"
    using bias_pos [OF assms] by (intro mag_val_place) (auto simp: qmin_def emin_def)
  ultimately show ?thesis by (simp add: power_int_minus)
qed

lemma mag_val_inf_mag:
  assumes "wf_fmt fmt" shows "mag_val fmt (inf_mag fmt) = p2 (emax fmt + 1)"
proof -
  have "place fmt (emax fmt - int (man_w fmt)) (2 * 2 ^ man_w fmt) = inf_mag fmt"
    using exp_mask_bias [OF assms]
    by (simp add: place_def inf_mag_def qmin_def emin_def emax_def algebra_simps)
  moreover have "mag_val fmt (place fmt (emax fmt - int (man_w fmt)) (2 * 2 ^ man_w fmt)) =
      of_int (2 * 2 ^ man_w fmt) * p2 (emax fmt - int (man_w fmt))"
    using emin_le_emax [OF assms] by (intro mag_val_place) (auto simp: qmin_def)
  ultimately show ?thesis by (simp add: p2_diff p2_add)
qed

lemma mag_val_min_normal:
  assumes "wf_fmt fmt" shows "mag_val fmt (2 ^ man_w fmt) = p2 (emin fmt)"
proof -
  have "mag_val fmt (place fmt (qmin fmt) (2 ^ man_w fmt)) = of_int (2 ^ man_w fmt) * p2 (qmin fmt)"
    by (intro mag_val_place) auto
  then show ?thesis by (simp add: place_def qmin_def p2_diff)
qed

end
