(* ===== verification/RoundSpec.thy ===== *)
theory RoundSpec
  imports Encoding
begin

text \<open>
  The abstract specification of rounding, over the real numbers and independent of the
  shifts, guard and sticky bits of the source: \<open>rint\<close> rounds a real to an integer in one of
  the six directions, by IEEE 754-2019 4.3 and 9.5; \<open>round_real\<close> rounds a positive real
  magnitude into a format and says which exceptions clause 7 signals. The lemmas show that
  \<open>rint\<close> is monotone, exact on integers and nearest where it has to be, and that
  \<open>round_real\<close> delivers the best encodable value in each direction.
\<close>

section \<open>Rounding a real to an integer\<close>

text \<open>
  \<open>s\<close> is the sign of the value whose magnitude \<open>x\<close> is being rounded: the directed
  attributes move a negative value's magnitude the other way.
\<close>

definition rint :: "int \<Rightarrow> int \<Rightarrow> real \<Rightarrow> int" where
  "rint rnd s x =
    (if rnd = RND_RTZ then \<lfloor>x\<rfloor>
     else if rnd = RND_RDN then (if truthy s then \<lceil>x\<rceil> else \<lfloor>x\<rfloor>)
     else if rnd = RND_RUP then (if truthy s then \<lfloor>x\<rfloor> else \<lceil>x\<rceil>)
     else if rnd = RND_RMM then \<lfloor>x + 1/2\<rfloor>
     else if rnd = RND_RTTZ then \<lceil>x - 1/2\<rceil>
     else if x - \<lfloor>x\<rfloor> < 1/2 \<or> x - \<lfloor>x\<rfloor> = 1/2 \<and> even \<lfloor>x\<rfloor> then \<lfloor>x\<rfloor> else \<lfloor>x\<rfloor> + 1)"

lemma rint_modes:
  "rint RND_RTZ s x = \<lfloor>x\<rfloor>"
  "rint RND_RDN s x = (if truthy s then \<lceil>x\<rceil> else \<lfloor>x\<rfloor>)"
  "rint RND_RUP s x = (if truthy s then \<lfloor>x\<rfloor> else \<lceil>x\<rceil>)"
  "rint RND_RMM s x = \<lfloor>x + 1/2\<rfloor>"
  "rint RND_RTTZ s x = \<lceil>x - 1/2\<rceil>"
  "rint RND_RNE s x =
    (if x - \<lfloor>x\<rfloor> < 1/2 \<or> x - \<lfloor>x\<rfloor> = 1/2 \<and> even \<lfloor>x\<rfloor> then \<lfloor>x\<rfloor> else \<lfloor>x\<rfloor> + 1)"
  by (simp_all add: rint_def)

lemma rint_of_int [simp]: "rint rnd s (of_int k) = k"
  unfolding rint_def by (auto simp: floor_eq_iff ceiling_eq_iff)

lemma rint_bounds: "\<lfloor>x\<rfloor> \<le> rint rnd s x" "rint rnd s x \<le> \<lceil>x\<rceil>"
proof -
  have c: "\<lfloor>x\<rfloor> \<le> \<lceil>x\<rceil>" by (rule floor_le_ceiling)
  have f: "\<lfloor>x\<rfloor> \<le> x" "x < \<lfloor>x\<rfloor> + 1" by linarith+
  show "\<lfloor>x\<rfloor> \<le> rint rnd s x"
    unfolding rint_def using c by (auto simp: le_floor_iff le_ceiling_iff) linarith+
  show "rint rnd s x \<le> \<lceil>x\<rceil>"
    unfolding rint_def using c by (auto simp: floor_le_iff ceiling_le_iff le_ceiling_iff) linarith+
qed

lemma rint_cases: "rint rnd s x = \<lfloor>x\<rfloor> \<or> rint rnd s x = \<lceil>x\<rceil>"
  using rint_bounds(1) [of x rnd s] rint_bounds(2) [of rnd s x] by linarith

lemma rint_nonneg: "0 \<le> x \<Longrightarrow> 0 \<le> rint rnd s x"
  using rint_bounds(1) [of x rnd s] by (meson order_trans zero_le_floor)

lemma rint_ge: "of_int k \<le> x \<Longrightarrow> k \<le> rint rnd s x"
  using rint_bounds(1) [of x rnd s] by (meson le_floor_iff order_trans)

lemma rint_le: "x \<le> of_int k \<Longrightarrow> rint rnd s x \<le> k"
  using rint_bounds(2) [of rnd s x] by (meson ceiling_le_iff order_trans)

text \<open>Rounding is monotone.\<close>

lemma rint_mono:
  assumes "x \<le> y"
  shows "rint rnd s x \<le> rint rnd s y"
proof (cases "\<lfloor>x\<rfloor> = \<lfloor>y\<rfloor>")
  case True
  with assms show ?thesis
    unfolding rint_def
    by (auto intro!: floor_mono ceiling_mono)
next
  case False
  then have "\<lfloor>x\<rfloor> + 1 \<le> \<lfloor>y\<rfloor>" using floor_mono [OF assms] by linarith
  moreover have "rint rnd s x \<le> \<lfloor>x\<rfloor> + 1" using rint_bounds(2) [of rnd s x] by linarith
  ultimately show ?thesis using rint_bounds(1) [of y rnd s] by linarith
qed

text \<open>
  Only comparisons against half-integers matter: two reals that stand alike to all of them
  round alike, in every direction. This is what lets one sticky bit stand for everything
  below the last computed bit of a quotient or a root.
\<close>

lemma rint_cong:
  assumes "\<And>j :: int. x < of_int j / 2 \<longleftrightarrow> y < of_int j / 2"
    and "\<And>j :: int. x = of_int j / 2 \<longleftrightarrow> y = of_int j / 2"
  shows "rint rnd s x = rint rnd s y"
proof -
  have lt: "x < of_int k \<longleftrightarrow> y < of_int k" and eq: "x = of_int k \<longleftrightarrow> y = of_int k" for k :: int
    using assms(1) [of "2 * k"] assms(2) [of "2 * k"] by simp_all
  have half: "x < of_int k + 1/2 \<longleftrightarrow> y < of_int k + 1/2"
    and halfe: "x = of_int k + 1/2 \<longleftrightarrow> y = of_int k + 1/2" for k :: int
    using assms(1) [of "2 * k + 1"] assms(2) [of "2 * k + 1"] by (simp_all add: add_divide_distrib)
  have le: "of_int k \<le> x \<longleftrightarrow> of_int k \<le> y" for k :: int using lt [of k] by linarith
  have fl: "\<lfloor>x\<rfloor> = \<lfloor>y\<rfloor>"
    using le [of "\<lfloor>x\<rfloor>"] lt [of "\<lfloor>x\<rfloor> + 1"] by (intro floor_unique [symmetric]) linarith+
  have ce: "\<lceil>x\<rceil> = \<lceil>y\<rceil>"
    using lt [of "\<lceil>x\<rceil>"] eq [of "\<lceil>x\<rceil>"] le [of "\<lceil>x\<rceil> - 1"] eq [of "\<lceil>x\<rceil> - 1"]
    by (intro ceiling_unique [symmetric]) linarith+
  have rmm: "\<lfloor>x + 1/2\<rfloor> = \<lfloor>y + 1/2\<rfloor>"
  proof -
    have "of_int \<lfloor>x + 1/2\<rfloor> \<le> y + 1/2" "y + 1/2 < of_int \<lfloor>x + 1/2\<rfloor> + 1"
      using half [of "\<lfloor>x + 1/2\<rfloor> - 1"] half [of "\<lfloor>x + 1/2\<rfloor>"] by linarith+
    then show ?thesis by (intro floor_unique [symmetric])
  qed
  have rttz: "\<lceil>x - 1/2\<rceil> = \<lceil>y - 1/2\<rceil>"
  proof -
    let ?c = "\<lceil>x - 1/2\<rceil>"
    have "of_int ?c - 1 < y - 1/2" "y - 1/2 \<le> of_int ?c"
      using half [of "?c - 1"] halfe [of "?c - 1"] half [of "?c"] halfe [of "?c"]
      by linarith+
    then show ?thesis by (intro ceiling_unique [symmetric])
  qed
  have "x - \<lfloor>x\<rfloor> < 1/2 \<longleftrightarrow> y - \<lfloor>y\<rfloor> < 1/2" "x - \<lfloor>x\<rfloor> = 1/2 \<longleftrightarrow> y - \<lfloor>y\<rfloor> = 1/2"
    using half [of "\<lfloor>x\<rfloor>"] halfe [of "\<lfloor>x\<rfloor>"] fl by linarith+
  then show ?thesis unfolding rint_def fl ce rmm rttz by simp
qed

text \<open>The three round-to-nearest directions: within half a unit, and the tie rule of each.\<close>

definition to_nearest :: "int \<Rightarrow> bool" where
  "to_nearest rnd \<longleftrightarrow> rnd \<in> {RND_RNE, RND_RMM, RND_RTTZ}"

lemma rint_nearest:
  assumes "to_nearest rnd"
  shows "\<bar>of_int (rint rnd s x) - x\<bar> \<le> 1/2"
proof -
  consider "rnd = RND_RNE" | "rnd = RND_RMM" | "rnd = RND_RTTZ"
    using assms by (auto simp: to_nearest_def)
  then show ?thesis
  proof cases
    case 1
    have "\<bar>of_int \<lfloor>x\<rfloor> - x\<bar> \<le> 1/2" if "x - \<lfloor>x\<rfloor> < 1/2 \<or> x - \<lfloor>x\<rfloor> = 1/2"
      using that by linarith
    moreover have "\<bar>of_int (\<lfloor>x\<rfloor> + 1) - x\<bar> \<le> 1/2" if "\<not> x - \<lfloor>x\<rfloor> < 1/2"
      using that by linarith
    ultimately show ?thesis unfolding 1 rint_modes by (simp only: split: if_split) blast
  next
    case 2
    show ?thesis unfolding 2 rint_modes by linarith
  next
    case 3
    show ?thesis unfolding 3 rint_modes by linarith
  qed
qed

text \<open>Rounding to nearest is at least as close as any other integer.\<close>

lemma rint_closest:
  assumes "to_nearest rnd"
  shows "\<bar>of_int (rint rnd s x) - x\<bar> \<le> \<bar>of_int k - x\<bar>"
proof (cases "k = rint rnd s x")
  case False
  then have "1 \<le> \<bar>k - rint rnd s x\<bar>" by linarith
  then have "1 \<le> \<bar>of_int k - of_int (rint rnd s x) :: real\<bar>"
    by (metis of_int_1_le_iff of_int_abs of_int_diff)
  then show ?thesis using rint_nearest [OF assms, of s x] by linarith
qed simp

lemma rint_tie_even:
  assumes "\<bar>of_int (rint RND_RNE s x) - x\<bar> = 1/2"
  shows "even (rint RND_RNE s x)"
proof (cases "x - \<lfloor>x\<rfloor> = 1/2")
  case True
  then show ?thesis unfolding rint_modes by simp
next
  case False
  have "\<bar>of_int \<lfloor>x\<rfloor> - x\<bar> \<noteq> 1/2" "\<bar>of_int (\<lfloor>x\<rfloor> + 1) - x\<bar> \<noteq> 1/2"
    using False by linarith+
  then have "\<bar>of_int (rint RND_RNE s x) - x\<bar> \<noteq> 1/2"
    unfolding rint_modes by (simp only: split: if_split) blast
  with assms show ?thesis by contradiction
qed

lemma rint_tie_away:
  "\<bar>of_int (rint RND_RMM s x) - x\<bar> = 1/2 \<Longrightarrow> x < of_int (rint RND_RMM s x)"
  unfolding rint_modes by linarith

lemma rint_tie_zero:
  "\<bar>of_int (rint RND_RTTZ s x) - x\<bar> = 1/2 \<Longrightarrow> of_int (rint RND_RTTZ s x) < x"
  unfolding rint_modes by linarith

section \<open>Rounding a positive real into a format\<close>

text \<open>
  The quantum is the unit in the last place of the binade that holds \<open>x\<close>, clamped to the
  smallest subnormal; the significand is \<open>x\<close> in units of it, rounded; and the magnitude
  bits are where that significand stands.
\<close>

definition rq :: "fp_format \<Rightarrow> real \<Rightarrow> int" where
  "rq fmt x = max (ilog2 x) (emin fmt) - int (man_w fmt)"

definition rk :: "fp_format \<Rightarrow> int \<Rightarrow> int \<Rightarrow> real \<Rightarrow> int" where
  "rk fmt rnd s x = rint rnd s (x / p2 (rq fmt x))"

definition rmag :: "fp_format \<Rightarrow> int \<Rightarrow> int \<Rightarrow> real \<Rightarrow> int" where
  "rmag fmt rnd s x = place fmt (rq fmt x) (rk fmt rnd s x)"

text \<open>The values below and above \<open>x\<close> that the format can encode, as magnitude bits.\<close>

definition rlo :: "fp_format \<Rightarrow> real \<Rightarrow> int" where
  "rlo fmt x = place fmt (rq fmt x) \<lfloor>x / p2 (rq fmt x)\<rfloor>"

definition rhi :: "fp_format \<Rightarrow> real \<Rightarrow> int" where
  "rhi fmt x = place fmt (rq fmt x) \<lceil>x / p2 (rq fmt x)\<rceil>"

text \<open>
  Clause 7: an overflow delivers an infinity in the three nearest directions and in the
  directed attribute of its own side (7.4, 9.5); a result is tiny when \<open>x\<close>, rounded as if
  the exponent range were unbounded, lies below the smallest normal (7.5, after rounding).
\<close>

definition overflow_inf :: "int \<Rightarrow> int \<Rightarrow> bool" where
  "overflow_inf rnd s \<longleftrightarrow>
    to_nearest rnd \<or> rnd = RND_RDN \<and> truthy s \<or> rnd = RND_RUP \<and> \<not> truthy s"

definition inexact :: "fp_format \<Rightarrow> real \<Rightarrow> bool" where
  "inexact fmt x \<longleftrightarrow> x / p2 (rq fmt x) \<notin> \<int>"

definition unbounded :: "fp_format \<Rightarrow> int \<Rightarrow> int \<Rightarrow> real \<Rightarrow> real" where
  "unbounded fmt rnd s x =
    of_int (rint rnd s (x / p2 (ilog2 x - int (man_w fmt)))) * p2 (ilog2 x - int (man_w fmt))"

definition tiny :: "fp_format \<Rightarrow> int \<Rightarrow> int \<Rightarrow> real \<Rightarrow> bool" where
  "tiny fmt rnd s x \<longleftrightarrow> unbounded fmt rnd s x < p2 (emin fmt)"

definition round_real :: "fp_format \<Rightarrow> int \<Rightarrow> int \<Rightarrow> real \<Rightarrow> int \<times> int" where
  "round_real fmt rnd s x =
    (if inf_mag fmt \<le> rmag fmt rnd s x
     then (pack fmt s (if overflow_inf rnd s then inf_mag fmt else inf_mag fmt - 1),
           FLAG_OVERFLOW OR FLAG_INEXACT)
     else (pack fmt s (rmag fmt rnd s x),
           (if inexact fmt x then FLAG_INEXACT else 0) OR
           (if tiny fmt rnd s x \<and> inexact fmt x then FLAG_UNDERFLOW else 0)))"

subsection \<open>The significand and its place\<close>

lemma rq_ge_qmin: "qmin fmt \<le> rq fmt x"
  by (simp add: rq_def qmin_def)

lemma scaled_bounds:
  assumes "0 < x"
  shows "0 < x / p2 (rq fmt x)"
    and "x / p2 (rq fmt x) < 2 * 2 ^ man_w fmt"
    and "rq fmt x = qmin fmt \<or> 2 ^ man_w fmt \<le> x / p2 (rq fmt x)"
proof -
  show "0 < x / p2 (rq fmt x)" using assms by simp
  have p: "p2 (rq fmt x + int (man_w fmt)) = 2 ^ man_w fmt * p2 (rq fmt x)"
    by (simp add: p2_add)
  have "p2 (ilog2 x + 1) \<le> p2 (rq fmt x + int (man_w fmt) + 1)" by (simp add: rq_def)
  with ilog2_bounds(2) [OF assms] p
  have "x < 2 * 2 ^ man_w fmt * p2 (rq fmt x)" by (simp add: p2_succ)
  then show "x / p2 (rq fmt x) < 2 * 2 ^ man_w fmt" by (simp add: divide_less_eq)
  show "rq fmt x = qmin fmt \<or> 2 ^ man_w fmt \<le> x / p2 (rq fmt x)"
  proof (cases "emin fmt \<le> ilog2 x")
    case True
    then have "p2 (rq fmt x + int (man_w fmt)) \<le> x"
      using ilog2_bounds(1) [OF assms] by (simp add: rq_def)
    with p show ?thesis by (simp add: le_divide_eq)
  qed (simp add: rq_def qmin_def)
qed

lemma sig_bounds:
  assumes x: "0 < x" and k: "\<lfloor>x / p2 (rq fmt x)\<rfloor> \<le> k" "k \<le> \<lfloor>x / p2 (rq fmt x)\<rfloor> + 1"
  shows "0 \<le> k" and "k \<le> 2 * 2 ^ man_w fmt" and "rq fmt x = qmin fmt \<or> 2 ^ man_w fmt \<le> k"
proof -
  note b = scaled_bounds [OF x, of fmt]
  have "\<lfloor>x / p2 (rq fmt x)\<rfloor> < 2 * 2 ^ man_w fmt"
    using b(2) by (simp add: floor_less_iff)
  then show "k \<le> 2 * 2 ^ man_w fmt" using k(2) by linarith
  show "0 \<le> k" using b(1) k(1) by linarith
  show "rq fmt x = qmin fmt \<or> 2 ^ man_w fmt \<le> k"
  proof (cases "rq fmt x = qmin fmt")
    case False
    with b(3) have "2 ^ man_w fmt \<le> \<lfloor>x / p2 (rq fmt x)\<rfloor>" by (simp add: le_floor_iff)
    with k(1) show ?thesis by linarith
  qed simp
qed

lemma mag_val_sig:
  assumes "0 < x" "\<lfloor>x / p2 (rq fmt x)\<rfloor> \<le> k" "k \<le> \<lfloor>x / p2 (rq fmt x)\<rfloor> + 1"
  shows "mag_val fmt (place fmt (rq fmt x) k) = of_int k * p2 (rq fmt x)"
  using sig_bounds [OF assms] rq_ge_qmin by (intro mag_val_place)

lemma place_nonneg: "qmin fmt \<le> q \<Longrightarrow> 0 \<le> k \<Longrightarrow> 0 \<le> place fmt q k"
  by (simp add: place_def)

lemma rk_bounds:
  "\<lfloor>x / p2 (rq fmt x)\<rfloor> \<le> rk fmt rnd s x" "rk fmt rnd s x \<le> \<lfloor>x / p2 (rq fmt x)\<rfloor> + 1"
  using rint_bounds(1) [of "x / p2 (rq fmt x)" rnd s] rint_bounds(2) [of rnd s "x / p2 (rq fmt x)"]
  unfolding rk_def by linarith+

lemma rmag_nonneg: "0 < x \<Longrightarrow> 0 \<le> rmag fmt rnd s x"
  unfolding rmag_def by (intro place_nonneg rq_ge_qmin sig_bounds [OF _ rk_bounds])

lemma mag_val_rmag: "0 < x \<Longrightarrow> mag_val fmt (rmag fmt rnd s x) = of_int (rk fmt rnd s x) * p2 (rq fmt x)"
  unfolding rmag_def by (intro mag_val_sig rk_bounds)

lemma rlo_nonneg: "0 < x \<Longrightarrow> 0 \<le> rlo fmt x"
  unfolding rlo_def by (intro place_nonneg rq_ge_qmin) simp

lemma mag_le_rlo_iff:
  assumes "0 < x" "0 \<le> mag"
  shows "mag_val fmt mag \<le> x \<longleftrightarrow> mag \<le> rlo fmt x"
proof -
  let ?q = "rq fmt x" let ?k = "\<lfloor>x / p2 ?q\<rfloor>"
  have lo: "mag_val fmt (rlo fmt x) = of_int ?k * p2 ?q"
    unfolding rlo_def by (rule mag_val_sig [OF assms(1)]) auto
  have "rlo fmt x + 1 = place fmt ?q (?k + 1)" by (simp add: rlo_def place_def)
  then have hi: "mag_val fmt (rlo fmt x + 1) = of_int (?k + 1) * p2 ?q"
    by (simp only:) (rule mag_val_sig [OF assms(1)], auto)
  have "of_int ?k \<le> x / p2 ?q" "x / p2 ?q < of_int (?k + 1)" by linarith+
  then have "of_int ?k * p2 ?q \<le> x" "x < of_int (?k + 1) * p2 ?q"
    by (simp_all only: pos_le_divide_eq [OF p2_pos] pos_divide_less_eq [OF p2_pos])
  then have "mag_val fmt (rlo fmt x) \<le> x" "x < mag_val fmt (rlo fmt x + 1)"
    by (simp_all add: lo hi)
  then show ?thesis
    using mag_val_le_iff [of mag "rlo fmt x" fmt] mag_val_le_iff [of "rlo fmt x + 1" mag fmt]
      rlo_nonneg [OF assms(1), of fmt] assms(2) by (cases "mag \<le> rlo fmt x") auto
qed

lemma rhi_ge_iff:
  assumes "0 < x" "0 \<le> mag"
  shows "x \<le> mag_val fmt mag \<longleftrightarrow> rhi fmt x \<le> mag"
proof (cases "x / p2 (rq fmt x) \<in> \<int>")
  case True
  then have eq: "\<lceil>x / p2 (rq fmt x)\<rceil> = \<lfloor>x / p2 (rq fmt x)\<rfloor>"
    by (auto elim!: Ints_cases)
  have "mag_val fmt (rlo fmt x) = of_int \<lfloor>x / p2 (rq fmt x)\<rfloor> * p2 (rq fmt x)"
    unfolding rlo_def by (rule mag_val_sig [OF assms(1)]) auto
  also have "\<dots> = x"
    using True by (auto elim!: Ints_cases simp: field_simps)
  finally have "mag_val fmt (rlo fmt x) = x" .
  moreover have "rhi fmt x = rlo fmt x" by (simp add: rhi_def rlo_def eq)
  ultimately show ?thesis
    using mag_val_le_iff [of "rlo fmt x" mag fmt] rlo_nonneg [OF assms(1), of fmt] assms(2) by simp
next
  case False
  then have "\<lceil>x / p2 (rq fmt x)\<rceil> = \<lfloor>x / p2 (rq fmt x)\<rfloor> + 1"
    by (metis Ints_of_int ceiling_altdef)
  then have eq: "rhi fmt x = rlo fmt x + 1" by (simp add: rhi_def rlo_def place_def)
  have "x \<noteq> mag_val fmt mag"
  proof
    assume *: "x = mag_val fmt mag"
    then have "mag \<le> rlo fmt x" using mag_le_rlo_iff [OF assms, of fmt] by simp
    moreover have "mag_val fmt (rlo fmt x) \<le> x"
      using mag_le_rlo_iff [OF assms(1) rlo_nonneg [OF assms(1)]] by simp
    ultimately have "mag = rlo fmt x"
      using * mag_val_le_iff [of "rlo fmt x" mag fmt] rlo_nonneg [OF assms(1), of fmt] assms(2)
      by auto
    moreover have "mag_val fmt (rlo fmt x) = of_int \<lfloor>x / p2 (rq fmt x)\<rfloor> * p2 (rq fmt x)"
      unfolding rlo_def by (rule mag_val_sig [OF assms(1)]) auto
    ultimately have v: "x = of_int \<lfloor>x / p2 (rq fmt x)\<rfloor> * p2 (rq fmt x)"
      using * by metis
    have "x / p2 (rq fmt x) = of_int \<lfloor>x / p2 (rq fmt x)\<rfloor>"
      by (rule nonzero_divide_eq_eq [OF p2_nz, THEN iffD2, OF v])
    with False show False by (metis Ints_of_int)
  qed
  then show ?thesis using mag_le_rlo_iff [OF assms, of fmt] eq by auto
qed

subsection \<open>The best encodable magnitude\<close>

lemma rmag_between: "rlo fmt x \<le> rmag fmt rnd s x" "rmag fmt rnd s x \<le> rhi fmt x"
  using rint_bounds(1) [of "x / p2 (rq fmt x)" rnd s] rint_bounds(2) [of rnd s "x / p2 (rq fmt x)"]
  by (simp_all add: rmag_def rlo_def rhi_def place_def rk_def)

lemma rmag_nearest:
  assumes "to_nearest rnd" "0 < x" "0 \<le> mag"
  shows "\<bar>mag_val fmt (rmag fmt rnd s x) - x\<bar> \<le> \<bar>mag_val fmt mag - x\<bar>"
proof -
  let ?q = "rq fmt x"
  have val: "mag_val fmt (place fmt ?q k) - x = (of_int k - x / p2 ?q) * p2 ?q"
    if "\<lfloor>x / p2 ?q\<rfloor> \<le> k" "k \<le> \<lfloor>x / p2 ?q\<rfloor> + 1" for k
    by (simp add: mag_val_sig [OF assms(2) that] left_diff_distrib)
  have best: "\<bar>mag_val fmt (rmag fmt rnd s x) - x\<bar> \<le> \<bar>mag_val fmt (place fmt ?q k) - x\<bar>"
    if "\<lfloor>x / p2 ?q\<rfloor> \<le> k" "k \<le> \<lfloor>x / p2 ?q\<rfloor> + 1" for k
    using rint_closest [OF assms(1), of s "x / p2 ?q" k]
    by (simp add: val [OF that] rmag_def val [OF rk_bounds] abs_mult)
       (simp add: rk_def mult_right_mono)
  have lo: "mag_val fmt (rlo fmt x) \<le> x"
    using mag_le_rlo_iff [OF assms(2) rlo_nonneg [OF assms(2)]] by simp
  have "0 \<le> rhi fmt x" using rmag_between(1) [of fmt x rnd s] rmag_between(2) [of fmt rnd s x] rlo_nonneg [OF assms(2), of fmt] by linarith
  then have hi: "x \<le> mag_val fmt (rhi fmt x)" using rhi_ge_iff [OF assms(2)] by simp
  show ?thesis
  proof (cases "mag_val fmt mag \<le> x")
    case True
    then have "mag_val fmt mag \<le> mag_val fmt (rlo fmt x)"
      using mag_le_rlo_iff [OF assms(2,3)] mag_val_le_iff assms(3) rlo_nonneg [OF assms(2)] by simp
    moreover have "\<bar>mag_val fmt (rmag fmt rnd s x) - x\<bar> \<le> \<bar>mag_val fmt (rlo fmt x) - x\<bar>"
      using best [of "\<lfloor>x / p2 ?q\<rfloor>"] by (simp add: rlo_def)
    ultimately show ?thesis using lo by linarith
  next
    case False
    then have "mag_val fmt (rhi fmt x) \<le> mag_val fmt mag"
      using rhi_ge_iff [OF assms(2,3), of fmt] mag_val_le_iff [of "rhi fmt x" mag fmt] assms(3)
        \<open>0 \<le> rhi fmt x\<close> by simp
    moreover have "\<bar>mag_val fmt (rmag fmt rnd s x) - x\<bar> \<le> \<bar>mag_val fmt (rhi fmt x) - x\<bar>"
      using best [of "\<lceil>x / p2 ?q\<rceil>"] by (simp add: rhi_def) linarith
    ultimately show ?thesis using hi False by linarith
  qed
qed

text \<open>What is encodable is its own rounding, and only that is exact.\<close>

lemma rmag_exact:
  assumes "0 \<le> mag" "0 < mag_val fmt mag"
  shows "rmag fmt rnd s (mag_val fmt mag) = mag"
proof -
  have "mag \<le> rlo fmt (mag_val fmt mag)" "rhi fmt (mag_val fmt mag) \<le> mag"
    using mag_le_rlo_iff [OF assms(2,1)] rhi_ge_iff [OF assms(2,1)] by auto
  then show ?thesis
    using rmag_between(1) [of fmt "mag_val fmt mag" rnd s] rmag_between(2) [of fmt rnd s "mag_val fmt mag"]
    by linarith
qed

lemma inexact_iff:
  assumes "0 < x"
  shows "inexact fmt x \<longleftrightarrow> mag_val fmt (rmag fmt rnd s x) \<noteq> x"
proof -
  have "mag_val fmt (rmag fmt rnd s x) = x \<longleftrightarrow> of_int (rk fmt rnd s x) = x / p2 (rq fmt x)"
    by (simp add: mag_val_rmag [OF assms] eq_divide_eq)
  moreover have "of_int (rk fmt rnd s x) = x / p2 (rq fmt x) \<longleftrightarrow> x / p2 (rq fmt x) \<in> \<int>"
    unfolding rk_def by (metis Ints_cases Ints_of_int rint_of_int)
  ultimately show ?thesis by (simp add: inexact_def)
qed

lemma inexact_iff_unencodable:
  assumes "0 < x"
  shows "inexact fmt x \<longleftrightarrow> (\<forall>mag\<ge>0. mag_val fmt mag \<noteq> x)"
  using inexact_iff [OF assms, of fmt RND_RNE 0] rmag_exact [of _ fmt RND_RNE 0]
    rmag_nonneg [OF assms, of fmt RND_RNE 0] assms by metis

lemma rmag_down: "rint rnd s (x / p2 (rq fmt x)) = \<lfloor>x / p2 (rq fmt x)\<rfloor> \<Longrightarrow> rmag fmt rnd s x = rlo fmt x"
  by (simp add: rmag_def rlo_def rk_def)

lemma rmag_up: "rint rnd s (x / p2 (rq fmt x)) = \<lceil>x / p2 (rq fmt x)\<rceil> \<Longrightarrow> rmag fmt rnd s x = rhi fmt x"
  by (simp add: rmag_def rhi_def rk_def)

lemma rmag_directed:
  "rmag fmt RND_RTZ s x = rlo fmt x"
  "rmag fmt RND_RDN s x = (if truthy s then rhi fmt x else rlo fmt x)"
  "rmag fmt RND_RUP s x = (if truthy s then rlo fmt x else rhi fmt x)"
  by (simp_all add: rmag_def rlo_def rhi_def rk_def rint_modes)

subsection \<open>Ties\<close>

lemma even_place:
  assumes "wf_fmt fmt" shows "even (place fmt q k) \<longleftrightarrow> even k"
  using assms by (simp add: place_def wf_fmt_def)

lemma rmag_tie:
  assumes n: "to_nearest rnd" and x: "0 < x" and mag: "0 \<le> mag" "mag \<noteq> rmag fmt rnd s x"
    and eq: "\<bar>mag_val fmt mag - x\<bar> = \<bar>mag_val fmt (rmag fmt rnd s x) - x\<bar>"
  shows "\<bar>of_int (rk fmt rnd s x) - x / p2 (rq fmt x)\<bar> = 1/2"
proof -
  let ?r = "rmag fmt rnd s x" let ?q = "rq fmt x" let ?y = "x / p2 ?q"
  have r0: "0 \<le> ?r" by (rule rmag_nonneg [OF x])
  have l0: "0 \<le> rlo fmt x" by (rule rlo_nonneg [OF x])
  have ne: "mag_val fmt mag \<noteq> mag_val fmt ?r" using mag mag_val_eq_iff r0 by blast
  have rlohi: "rlo fmt x \<le> ?r" "?r \<le> rhi fmt x" by (rule rmag_between)+
  have h0: "0 \<le> rhi fmt x" using rlohi l0 by linarith
  have vlo: "mag_val fmt (rlo fmt x) = of_int \<lfloor>?y\<rfloor> * p2 ?q"
    and vhi: "mag_val fmt (rhi fmt x) = of_int \<lceil>?y\<rceil> * p2 ?q"
    unfolding rlo_def rhi_def by (rule mag_val_sig [OF x]; linarith)+
  have lo: "mag_val fmt (rlo fmt x) \<le> x" and hi: "x \<le> mag_val fmt (rhi fmt x)"
    using mag_le_rlo_iff [OF x l0] rhi_ge_iff [OF x h0] by simp_all
  have "mag_val fmt (rhi fmt x) - x = x - mag_val fmt (rlo fmt x)"
  proof (cases "mag_val fmt mag \<le> x")
    case True
    then have "mag_val fmt mag \<le> mag_val fmt (rlo fmt x)"
      using mag_le_rlo_iff [OF x mag(1)] mag_val_le_iff mag(1) l0 by simp
    moreover have "x < mag_val fmt ?r" using eq ne True by linarith
    then have "mag_val fmt (rhi fmt x) \<le> mag_val fmt ?r"
      using rhi_ge_iff [OF x r0, of fmt] mag_val_le_iff [OF h0 r0] by simp
    ultimately show ?thesis
      using rmag_nearest [OF n x l0, of fmt s] eq True lo hi rlohi mag_val_le_iff [OF r0 h0, of fmt]
      by linarith
  next
    case False
    then have "mag_val fmt (rhi fmt x) \<le> mag_val fmt mag"
      using rhi_ge_iff [OF x mag(1), of fmt] mag_val_le_iff [OF h0 mag(1)] by simp
    moreover have "mag_val fmt ?r < x" using eq ne False by linarith
    then have "mag_val fmt ?r \<le> mag_val fmt (rlo fmt x)"
      using mag_le_rlo_iff [OF x r0, of fmt] mag_val_le_iff [OF r0 l0] by simp
    ultimately show ?thesis
      using rmag_nearest [OF n x h0, of fmt s] eq False lo hi rlohi mag_val_le_iff [OF l0 r0, of fmt]
      by linarith
  qed
  then have "(of_int \<lceil>?y\<rceil> - ?y) * p2 ?q = (?y - of_int \<lfloor>?y\<rfloor>) * p2 ?q"
    by (simp add: vlo vhi left_diff_distrib)
  then have sym: "of_int \<lceil>?y\<rceil> - ?y = ?y - of_int \<lfloor>?y\<rfloor>" by simp
  have "?y \<notin> \<int>"
  proof
    assume "?y \<in> \<int>"
    then have "mag_val fmt ?r = x" using inexact_iff [OF x, of fmt rnd s] by (simp add: inexact_def)
    with eq ne show False by simp
  qed
  then have "\<lceil>?y\<rceil> = \<lfloor>?y\<rfloor> + 1" by (metis Ints_of_int ceiling_altdef)
  then have "of_int \<lceil>?y\<rceil> = of_int \<lfloor>?y\<rfloor> + (1::real)" by simp
  with sym have "?y - of_int \<lfloor>?y\<rfloor> = 1/2" by linarith
  with sym show ?thesis
    using rint_cases [of rnd s ?y] unfolding rk_def by (elim disjE) simp_all
qed

lemma rmag_tie_even:
  assumes "wf_fmt fmt" "0 < x" "0 \<le> mag" "mag \<noteq> rmag fmt RND_RNE s x"
    and "\<bar>mag_val fmt mag - x\<bar> = \<bar>mag_val fmt (rmag fmt RND_RNE s x) - x\<bar>"
  shows "even (rmag fmt RND_RNE s x)"
  using rint_tie_even rmag_tie [OF _ assms(2-5)] assms(1)
  by (simp add: to_nearest_def rmag_def even_place rk_def)

lemma rmag_tie_away:
  assumes "0 < x" "0 \<le> mag" "mag \<noteq> rmag fmt RND_RMM s x"
    and "\<bar>mag_val fmt mag - x\<bar> = \<bar>mag_val fmt (rmag fmt RND_RMM s x) - x\<bar>"
  shows "x < mag_val fmt (rmag fmt RND_RMM s x)"
proof -
  have "\<bar>of_int (rk fmt RND_RMM s x) - x / p2 (rq fmt x)\<bar> = 1/2"
    using rmag_tie [OF _ assms] by (simp add: to_nearest_def)
  then have "x / p2 (rq fmt x) < of_int (rk fmt RND_RMM s x)"
    using rint_tie_away [of s "x / p2 (rq fmt x)"] by (simp add: rk_def)
  then show ?thesis by (simp add: mag_val_rmag [OF assms(1)] pos_divide_less_eq)
qed

lemma rmag_tie_zero:
  assumes "0 < x" "0 \<le> mag" "mag \<noteq> rmag fmt RND_RTTZ s x"
    and "\<bar>mag_val fmt mag - x\<bar> = \<bar>mag_val fmt (rmag fmt RND_RTTZ s x) - x\<bar>"
  shows "mag_val fmt (rmag fmt RND_RTTZ s x) < x"
proof -
  have "\<bar>of_int (rk fmt RND_RTTZ s x) - x / p2 (rq fmt x)\<bar> = 1/2"
    using rmag_tie [OF _ assms] by (simp add: to_nearest_def)
  then have "of_int (rk fmt RND_RTTZ s x) < x / p2 (rq fmt x)"
    using rint_tie_zero [of s "x / p2 (rq fmt x)"] by (simp add: rk_def)
  then show ?thesis by (simp add: mag_val_rmag [OF assms(1)] pos_less_divide_eq)
qed

subsection \<open>Monotonicity\<close>

lemma rlo_mono:
  assumes "0 < x" "x \<le> y"
  shows "rlo fmt x \<le> rlo fmt y"
proof -
  have "mag_val fmt (rlo fmt x) \<le> x"
    using mag_le_rlo_iff [OF assms(1) rlo_nonneg [OF assms(1)]] by simp
  then show ?thesis
    using mag_le_rlo_iff [of y "rlo fmt x" fmt] rlo_nonneg [OF assms(1)] assms by simp
qed

lemma binade_encodable:
  assumes "0 < x" "emin fmt \<le> ilog2 x"
  obtains mag where "0 \<le> mag" "mag_val fmt mag = p2 (ilog2 x)"
proof -
  have "qmin fmt \<le> ilog2 x - int (man_w fmt)" using assms(2) by (simp add: qmin_def)
  then have "mag_val fmt (place fmt (ilog2 x - int (man_w fmt)) (2 ^ man_w fmt)) = p2 (ilog2 x)"
    and "0 \<le> place fmt (ilog2 x - int (man_w fmt)) (2 ^ man_w fmt)"
    by (simp_all add: mag_val_place place_nonneg p2_diff)
  then show thesis by (intro that)
qed

lemma rmag_mono:
  assumes x: "0 < x" and xy: "x \<le> y"
  shows "rmag fmt rnd s x \<le> rmag fmt rnd s y"
proof (cases "rlo fmt x = rlo fmt y")
  case False
  have "rhi fmt x \<le> rlo fmt x + 1" by (simp add: rhi_def rlo_def place_def) linarith
  with False rlo_mono [OF x xy, of fmt] rmag_between(1) [of fmt y rnd s]
    rmag_between(2) [of fmt rnd s x] show ?thesis by linarith
next
  case True
  have y: "0 < y" using x xy by linarith
  have "rq fmt x = rq fmt y"
  proof (cases "emin fmt \<le> ilog2 y")
    case e: True
    obtain mag where m: "0 \<le> mag" "mag_val fmt mag = p2 (ilog2 y)"
      by (rule binade_encodable [OF y e])
    have "mag \<le> rlo fmt y" using mag_le_rlo_iff [OF y m(1), of fmt] ilog2_bounds(1) [OF y] m(2) by simp
    then have "p2 (ilog2 y) \<le> x" using mag_le_rlo_iff [OF x m(1), of fmt] True m(2) by simp
    then have "ilog2 y \<le> ilog2 x" by (simp add: ilog2_ge_iff [OF x])
    then show ?thesis using ilog2_mono [OF x xy] by (simp add: rq_def)
  qed (use ilog2_mono [OF x xy] in \<open>simp add: rq_def\<close>)
  then show ?thesis
    using rint_mono [of "x / p2 (rq fmt y)" "y / p2 (rq fmt y)" rnd s] xy
    by (simp add: rmag_def rk_def place_def divide_right_mono)
qed

subsection \<open>Where overflow begins\<close>

text \<open>
  The threshold of 7.4 and 9.5: the midpoint of the largest finite magnitude and the
  power of two above it.
\<close>

definition overflow_threshold :: "fp_format \<Rightarrow> real" where
  "overflow_threshold fmt = (mag_val fmt (inf_mag fmt - 1) + mag_val fmt (inf_mag fmt)) / 2"

lemma no_overflow_below:
  assumes "wf_fmt fmt" "to_nearest rnd" "0 < x" "x < overflow_threshold fmt"
  shows "rmag fmt rnd s x < inf_mag fmt"
proof (rule ccontr)
  assume "\<not> rmag fmt rnd s x < inf_mag fmt"
  then have "mag_val fmt (inf_mag fmt) \<le> mag_val fmt (rmag fmt rnd s x)"
    using inf_mag_pos [OF assms(1)] rmag_nonneg [OF assms(3)] by (simp add: mag_val_le_iff)
  moreover have "mag_val fmt (inf_mag fmt - 1) < mag_val fmt (inf_mag fmt)"
    using inf_mag_pos [OF assms(1)] by (simp add: mag_val_less_iff)
  moreover have "\<bar>mag_val fmt (rmag fmt rnd s x) - x\<bar> \<le> \<bar>mag_val fmt (inf_mag fmt - 1) - x\<bar>"
    using inf_mag_pos [OF assms(1)] by (intro rmag_nearest assms) simp
  ultimately show False using assms(4) by (simp add: overflow_threshold_def)
qed

lemma overflow_above:
  assumes "wf_fmt fmt" "to_nearest rnd" "0 < x" "overflow_threshold fmt < x"
  shows "inf_mag fmt \<le> rmag fmt rnd s x"
proof (rule ccontr)
  assume "\<not> inf_mag fmt \<le> rmag fmt rnd s x"
  then have "mag_val fmt (rmag fmt rnd s x) \<le> mag_val fmt (inf_mag fmt - 1)"
    using inf_mag_pos [OF assms(1)] rmag_nonneg [OF assms(3)] by (simp add: mag_val_le_iff)
  moreover have "mag_val fmt (inf_mag fmt - 1) < mag_val fmt (inf_mag fmt)"
    using inf_mag_pos [OF assms(1)] by (simp add: mag_val_less_iff)
  moreover have "\<bar>mag_val fmt (rmag fmt rnd s x) - x\<bar> \<le> \<bar>mag_val fmt (inf_mag fmt) - x\<bar>"
    using inf_mag_pos [OF assms(1)] by (intro rmag_nearest assms) simp
  ultimately show False using assms(4) by (simp add: overflow_threshold_def)
qed

subsection \<open>Only the order against a half-unit grid matters\<close>

lemma round_real_cong:
  assumes x: "0 < x" and y: "0 < y"
    and g: "g \<le> ilog2 x - int (man_w fmt) - 1"
    and lt: "\<And>j :: int. x < of_int j * p2 g \<longleftrightarrow> y < of_int j * p2 g"
    and eq: "\<And>j :: int. x = of_int j * p2 g \<longleftrightarrow> y = of_int j * p2 g"
  shows "round_real fmt rnd s x = round_real fmt rnd s y"
proof -
  have coarse: "of_int j * p2 n = of_int (j * 2 ^ nat (n - g)) * p2 g" if "g \<le> n" for j n :: int
    using p2_split_int [OF that] by simp
  have lt': "x < of_int j * p2 n \<longleftrightarrow> y < of_int j * p2 n"
    and eq': "x = of_int j * p2 n \<longleftrightarrow> y = of_int j * p2 n" if "g \<le> n" for j n :: int
    unfolding coarse [OF that] by (rule lt, rule eq)
  have il: "ilog2 y = ilog2 x"
  proof -
    have "p2 (ilog2 x) \<le> y" "y < p2 (ilog2 x + 1)"
      using ilog2_bounds [OF x] g lt' [of "ilog2 x" 1] lt' [of "ilog2 x + 1" 1] by auto
    then show ?thesis by (simp add: ilog2_eq_iff [OF y])
  qed
  have same: "rint rnd s (x / p2 n) = rint rnd s (y / p2 n)" if "g \<le> n - 1" for n
  proof (rule rint_cong)
    fix j :: int
    have "z < of_int j * p2 (n - 1) \<longleftrightarrow> z / p2 n < of_int j / 2"
      and "z = of_int j * p2 (n - 1) \<longleftrightarrow> z / p2 n = of_int j / 2" for z :: real
      by (simp_all add: p2_pred pos_divide_less_eq divide_eq_eq)
    then show "x / p2 n < of_int j / 2 \<longleftrightarrow> y / p2 n < of_int j / 2"
      and "x / p2 n = of_int j / 2 \<longleftrightarrow> y / p2 n = of_int j / 2"
      using lt' [OF that] eq' [OF that] by blast+
  qed
  have q: "rq fmt y = rq fmt x" by (simp add: rq_def il)
  have "rint rnd s (x / p2 (rq fmt x)) = rint rnd s (y / p2 (rq fmt x))"
    using g by (intro same) (simp add: rq_def)
  then have mag: "rmag fmt rnd s y = rmag fmt rnd s x" by (simp add: rmag_def rk_def q)
  have "z / p2 (rq fmt x) \<in> \<int> \<longleftrightarrow> (\<exists>j :: int. z = of_int j * p2 (rq fmt x))" for z :: real
    by (auto elim!: Ints_cases simp: divide_eq_eq)
  moreover have "g \<le> rq fmt x" using g by (simp add: rq_def)
  ultimately have ix: "inexact fmt y \<longleftrightarrow> inexact fmt x"
    using eq' by (simp add: inexact_def q)
  have "rint rnd s (x / p2 (ilog2 x - int (man_w fmt))) = rint rnd s (y / p2 (ilog2 x - int (man_w fmt)))"
    using g by (intro same) simp
  then have "tiny fmt rnd s y \<longleftrightarrow> tiny fmt rnd s x"
    by (simp add: tiny_def unbounded_def il)
  with mag ix show ?thesis by (simp add: round_real_def)
qed

end
