(* ===== verification/Rounding.thy ===== *)
theory Rounding
  imports RoundSpec
begin

text \<open>
  The rounding core of \<^verbatim>\<open>python/cft_golden/softfloat.py\<close> (\<open>_check_mode\<close> to \<open>round_pack\<close>):
  shifts, guard and sticky bits. It refines the real-number specification of
  \<^verbatim>\<open>RoundSpec\<close>: \<open>round_at\<close> is the integer rounding \<open>rint\<close> of the scaled value, and
  \<open>round_pack\<close> is \<open>round_real\<close>, bits and flags.
\<close>

section \<open>The code\<close>

definition check_mode :: "int \<Rightarrow> unit result" where
  "check_mode rnd = (if rnd \<in> set RND_MODES then Inr () else Inl ValueError)"

definition check_round_dir :: "int \<Rightarrow> unit result" where
  "check_round_dir rnd =
    (if rnd \<notin> set RND_MODES \<and> rnd \<noteq> RND_RTTZ then Inl ValueError else Inr ())"

definition round_up :: "int \<Rightarrow> int \<Rightarrow> int \<Rightarrow> int \<Rightarrow> int \<Rightarrow> bool" where
  "round_up rnd sign guard sticky lsb =
    (if rnd = RND_RNE then truthy guard \<and> (truthy sticky \<or> truthy lsb)
     else if rnd = RND_RMM then truthy guard
     else if rnd = RND_RTZ then False
     else if rnd = RND_RTTZ then truthy guard \<and> truthy sticky
     else if rnd = RND_RDN then truthy sign \<and> (truthy guard \<or> truthy sticky)
     else \<not> truthy sign \<and> (truthy guard \<or> truthy sticky))"

definition overflow_gives_inf :: "int \<Rightarrow> int \<Rightarrow> bool" where
  "overflow_gives_inf rnd sign =
    (if rnd \<in> {RND_RNE, RND_RMM, RND_RTTZ} then True
     else if rnd = RND_RTZ then False
     else if rnd = RND_RDN then truthy sign
     else \<not> truthy sign)"

definition zero_sign_for_exact_cancellation :: "int \<Rightarrow> int" where
  "zero_sign_for_exact_cancellation rnd = (if rnd = RND_RDN then 1 else 0)"

definition round_at :: "int \<Rightarrow> int \<Rightarrow> int \<Rightarrow> int \<Rightarrow> int \<Rightarrow> int \<times> bool" where
  "round_at m e q sign rnd =
    (let shift = q - e in
     if shift \<le> 0 then (push_bit (nat (- shift)) m, False)
     else let length = bit_length m in
     if length \<le> shift then
       let guard = b2i (shift = length);
           sticky = b2i (length < shift \<or> m \<noteq> push_bit (nat (length - 1)) 1);
           kept = b2i (round_up rnd sign guard sticky 0)
       in (kept, True)
     else
       let kept = drop_bit (nat shift) m;
           rem = m AND (push_bit (nat shift) 1 - 1)
       in if rem = 0 then (kept, False)
          else let half = push_bit (nat (shift - 1)) 1;
                   guard = b2i (half \<le> rem);
                   sticky = b2i (truthy (rem AND (half - 1)))
               in ((if round_up rnd sign guard sticky (kept AND 1) then kept + 1 else kept), True))"

definition round_pack :: "fp_format \<Rightarrow> int \<Rightarrow> int \<Rightarrow> int \<Rightarrow> int \<Rightarrow> (int \<times> int) result" where
  "round_pack fmt sign m e rnd =
    (if \<not> 0 < m then Inl AssertionError else
     bind_r (check_round_dir rnd) (\<lambda>_.
     let p = prec fmt;
         e_norm = e + bit_length m - 1;
         q_unb = e_norm - (p - 1);
         kept_u = fst (round_at m e q_unb sign rnd);
         e_after_unb = q_unb + bit_length kept_u - 1;
         tiny = e_after_unb < emin fmt;
         q = max e_norm (emin fmt) - (p - 1);
         (kept, inexact) = round_at m e q sign rnd;
         flags = (if inexact then FLAG_INEXACT else 0)
     in if kept = 0 then Inr (zero_bits fmt sign, flags OR FLAG_UNDERFLOW)
        else let e_res = q + bit_length kept - 1 in
        if emax fmt < e_res then
          (if overflow_gives_inf rnd sign
           then Inr (inf_bits fmt sign, flags OR FLAG_OVERFLOW OR FLAG_INEXACT)
           else Inr (max_normal_bits fmt sign, flags OR FLAG_OVERFLOW OR FLAG_INEXACT))
        else let flags = (if tiny \<and> inexact then flags OR FLAG_UNDERFLOW else flags) in
        if e_res < emin fmt then Inr (zero_bits fmt sign OR kept, flags)
        else let kept = (if bit_length kept = p + 1 then drop_bit 1 kept else kept);
                 frac = kept - push_bit (nat (p - 1)) 1;
                 biased = e_res + bias fmt
             in Inr (zero_bits fmt sign OR push_bit (man_w fmt) biased OR frac, flags)))"

section \<open>Valid directions\<close>

definition valid_mode :: "int \<Rightarrow> bool" where
  "valid_mode rnd \<longleftrightarrow> rnd \<in> set RND_MODES"

definition valid_dir :: "int \<Rightarrow> bool" where
  "valid_dir rnd \<longleftrightarrow> valid_mode rnd \<or> rnd = RND_RTTZ"

lemma check_mode_iff [simp]: "check_mode rnd = (if valid_mode rnd then Inr () else Inl ValueError)"
  by (simp add: check_mode_def valid_mode_def)

lemma check_round_dir_iff [simp]:
  "check_round_dir rnd = (if valid_dir rnd then Inr () else Inl ValueError)"
  by (auto simp: check_round_dir_def valid_mode_def valid_dir_def)

lemma valid_modes [simp]:
  "valid_mode RND_RNE" "valid_mode RND_RTZ" "valid_mode RND_RDN" "valid_mode RND_RUP"
  "valid_mode RND_RMM" "\<not> valid_mode RND_RTTZ" "valid_dir RND_RTTZ"
  by (simp_all add: valid_mode_def valid_dir_def RND_MODES_def)

lemma valid_mode_dir [simp]: "valid_mode rnd \<Longrightarrow> valid_dir rnd"
  by (simp add: valid_dir_def)

lemma valid_dir_cases:
  assumes "valid_dir rnd"
  obtains "rnd = RND_RNE" | "rnd = RND_RTZ" | "rnd = RND_RDN" | "rnd = RND_RUP" | "rnd = RND_RMM"
    | "rnd = RND_RTTZ"
  using assms by (auto simp: valid_dir_def valid_mode_def RND_MODES_def)

lemma overflow_gives_inf_iff:
  "valid_dir rnd \<Longrightarrow> overflow_gives_inf rnd s \<longleftrightarrow> overflow_inf rnd s"
  by (erule valid_dir_cases) (simp_all add: overflow_gives_inf_def overflow_inf_def to_nearest_def)

section \<open>The guard and sticky bits decide the rounding\<close>

text \<open>
  \<open>f\<close> is what a shift discards, as a fraction of the last retained place. The guard says
  that it reaches the midpoint, the sticky bit that it is not the midpoint itself.
\<close>

lemma rint_round_up:
  assumes dir: "valid_dir rnd" and f: "0 < f" "f < 1"
    and g: "truthy g \<longleftrightarrow> 1/2 \<le> f" and t: "truthy t \<longleftrightarrow> f \<noteq> 1/2" and l: "truthy l \<longleftrightarrow> odd k"
  shows "rint rnd s (of_int k + f) = (if round_up rnd s g t l then k + 1 else k)"
proof -
  have fl: "\<lfloor>of_int k + f\<rfloor> = k" and ce: "\<lceil>of_int k + f\<rceil> = k + 1"
    using f by linarith+
  have mm: "\<lfloor>of_int k + f + 1/2\<rfloor> = (if 1/2 \<le> f then k + 1 else k)"
    and tz: "\<lceil>of_int k + f - 1/2\<rceil> = (if 1/2 < f then k + 1 else k)"
    using f by (auto simp: floor_eq_iff ceiling_eq_iff)
  have gt: "truthy g \<or> truthy t" using g t by auto
  from dir show ?thesis
    by (cases rule: valid_dir_cases) (use g t l gt in \<open>auto simp: rint_modes round_up_def fl ce mm tz\<close>)
qed

lemma scale_shift:
  assumes "e \<le> q"
  shows "of_int m * p2 (e - q) = of_int m / 2 ^ nat (q - e)"
proof -
  have "p2 (e - q) = 1 / p2 (q - e)" using p2_diff [of 0 "q - e"] by simp
  then show ?thesis using assms p2_nat [of "q - e"] by simp
qed

lemma pow2_split:
  assumes "0 < n"
  shows "(2::'a::comm_semiring_1) ^ n = 2 * 2 ^ (n - 1)"
  using assms by (cases n) simp_all

text \<open>A dyadic fraction below one against one half, in integers.\<close>

lemma dyadic_half:
  fixes r :: int
  assumes "0 < n"
  shows "1/2 \<le> (of_int r / 2 ^ n :: real) \<longleftrightarrow> 2 ^ (n - 1) \<le> r"
    and "of_int r / 2 ^ n = (1/2 :: real) \<longleftrightarrow> r = 2 ^ (n - 1)"
proof -
  have "1/2 \<le> (of_int r / 2 ^ n :: real) \<longleftrightarrow> of_int (2 ^ (n - 1)) \<le> (of_int r :: real)"
    and "of_int r / 2 ^ n = (1/2 :: real) \<longleftrightarrow> (of_int r :: real) = of_int (2 ^ (n - 1))"
    by (auto simp: pow2_split [OF assms] field_simps)
  then show "1/2 \<le> (of_int r / 2 ^ n :: real) \<longleftrightarrow> 2 ^ (n - 1) \<le> r"
    and "of_int r / 2 ^ n = (1/2 :: real) \<longleftrightarrow> r = 2 ^ (n - 1)"
    by (simp_all only: of_int_le_iff of_int_eq_iff)
qed

lemma mod_half_zero:
  fixes r :: int
  assumes "0 < r" "r < 2 ^ n" "0 < n"
  shows "r mod 2 ^ (n - 1) = 0 \<longleftrightarrow> r = 2 ^ (n - 1)"
  using mod_exp_top [of r "n - 1"] assms by (auto simp: pow2_split)

lemma not_Int_between: "0 < f \<Longrightarrow> f < 1 \<Longrightarrow> of_int k + f \<notin> \<int>" for f :: real
proof
  assume f: "0 < f" "f < 1" and "of_int k + f \<in> \<int>"
  then obtain j where "of_int k + f = of_int j" by (auto elim: Ints_cases)
  then have "k < j" "j < k + 1" using f by linarith+
  then show False by simp
qed

lemma round_at_rint:
  assumes m: "0 < m" and dir: "valid_dir rnd"
  shows "round_at m e q s rnd = (rint rnd s (of_int m * p2 (e - q)), of_int m * p2 (e - q) \<notin> \<int>)"
proof (cases "q - e \<le> 0")
  case True
  have "of_int m * p2 (e - q) = of_int (push_bit (nat (e - q)) m)"
    using True by (simp add: push_bit_eq_mult p2_nat)
  then show ?thesis using True by (simp add: round_at_def)
next
  case False
  let ?n = "nat (q - e)" let ?x = "of_int m * p2 (e - q)"
  have n: "0 < ?n" and x: "?x = of_int m / 2 ^ ?n" using False scale_shift [of e q m] by simp_all
  note bl = bit_length_bounds [OF m] bit_length_pos [OF m]
  show ?thesis
  proof (cases "bit_length m \<le> q - e")
    case True
    have lt: "m < 2 ^ ?n" using bit_length_le_iff [of m ?n] m True n by simp
    then have f: "0 < of_int m / (2 ^ ?n :: real)" "of_int m / (2 ^ ?n :: real) < 1"
      using m of_int_less_iff [where 'a = real, of m "2 ^ ?n"] by simp_all
    have g: "q - e = bit_length m \<longleftrightarrow> 2 ^ (?n - 1) \<le> m"
      using bit_length_ge_iff [OF m, of "?n - 1"] n True by (simp add: of_nat_diff) linarith
    have t: "bit_length m < q - e \<or> m \<noteq> 2 ^ nat (bit_length m - 1) \<longleftrightarrow> m \<noteq> 2 ^ (?n - 1)"
    proof (cases "q - e = bit_length m")
      case True
      then show ?thesis using n by (simp add: nat_diff_distrib)
    next
      case False
      then show ?thesis using True g by auto
    qed
    have "rint rnd s (of_int 0 + of_int m / 2 ^ ?n) =
      (if round_up rnd s (b2i (q - e = bit_length m))
        (b2i (bit_length m < q - e \<or> m \<noteq> push_bit (nat (bit_length m - 1)) 1)) 0 then 0 + 1 else 0)"
      by (rule rint_round_up [OF dir f])
         (use dyadic_half [OF n, of m] g t in \<open>simp_all add: push_bit_eq_mult\<close>)
    moreover have "of_int m / (2 ^ ?n :: real) \<notin> \<int>" using not_Int_between [OF f, of 0] by simp
    ultimately show ?thesis using False True by (simp add: round_at_def x Let_def)
  next
    case big: False
    let ?k = "m div 2 ^ ?n" let ?r = "m mod 2 ^ ?n"
    have "m = ?k * 2 ^ ?n + ?r" by (rule div_mult_mod_eq [symmetric])
    then have xk: "?x = of_int ?k + of_int ?r / 2 ^ ?n"
      unfolding x by (metis (no_types, lifting) add_divide_distrib nonzero_mult_div_cancel_right
        of_int_add of_int_mult of_int_numeral of_int_power p2_of_nat p2_nz)
    show ?thesis
    proof (cases "?r = 0")
      case True
      then have "?x = of_int ?k" using xk by simp
      then show ?thesis using False big True
        by (simp add: round_at_def Let_def and_exp_minus_1 drop_bit_eq_div)
    next
      case r: False
      have r0: "0 < ?r" "?r < 2 ^ ?n" using r pos_mod_bound [of "2 ^ ?n" m] pos_mod_sign [of "2 ^ ?n" m]
        by (simp_all add: less_le)
      then have f: "0 < of_int ?r / (2 ^ ?n :: real)" "of_int ?r / (2 ^ ?n :: real) < 1"
        using of_int_less_iff [where 'a = real, of ?r "2 ^ ?n"] by simp_all
      have "rint rnd s (of_int ?k + of_int ?r / 2 ^ ?n) =
        (if round_up rnd s (b2i (2 ^ (?n - 1) \<le> ?r)) (b2i (truthy (?r mod 2 ^ (?n - 1)))) (?k AND 1)
         then ?k + 1 else ?k)"
        by (rule rint_round_up [OF dir f])
           (use dyadic_half [OF n, of ?r] mod_half_zero [OF r0 n] in
             \<open>simp_all add: and_one_eq odd_iff_mod_2_eq_one\<close>)
      moreover have "nat (q - e - 1) = ?n - 1" by simp
      ultimately show ?thesis using False big r not_Int_between [OF f, of ?k]
        by (simp add: round_at_def Let_def and_exp_minus_1 drop_bit_eq_div xk)
    qed
  qed
qed

section \<open>\<open>round_pack\<close> is the rounding of the real value\<close>

lemma round_pack_bits_normal:
  assumes s: "0 \<le> b" "b * 2 ^ man_w fmt + f < mag_lim fmt" and f: "0 \<le> f" "f < 2 ^ man_w fmt"
  shows "zero_bits fmt s OR push_bit (man_w fmt) b OR f = pack fmt s (b * 2 ^ man_w fmt + f)"
proof -
  have "zero_bits fmt s OR push_bit (man_w fmt) b = pack fmt s (b * 2 ^ man_w fmt)"
    using push_or_pack [of "b * 2 ^ man_w fmt" fmt s] s f
    by (simp add: zero_bits_def push_bit_eq_mult)
  also have "\<dots> = (s * 2 ^ exp_w fmt + b) * 2 ^ man_w fmt"
    by (simp add: pack_def power_add algebra_simps)
  finally have "zero_bits fmt s OR push_bit (man_w fmt) b = (s * 2 ^ exp_w fmt + b) * 2 ^ man_w fmt" .
  then have "(zero_bits fmt s OR push_bit (man_w fmt) b) OR f = (s * 2 ^ exp_w fmt + b) * 2 ^ man_w fmt + f"
    using f by (simp add: or_disjoint)
  then show ?thesis by (simp add: pack_def power_add algebra_simps or.assoc)
qed

text \<open>The exponent the code computes for a kept significand is the binade of its value.\<close>

lemma e_res_iff:
  assumes "0 < k"
  shows "n < q + bit_length k - 1 \<longleftrightarrow> p2 (n + 1) \<le> of_int k * p2 q"
    and "q + bit_length k - 1 < n \<longleftrightarrow> of_int k * p2 q < p2 n"
proof -
  have pos: "0 < of_int k * p2 q" using assms by simp
  show "n < q + bit_length k - 1 \<longleftrightarrow> p2 (n + 1) \<le> of_int k * p2 q"
    using ilog2_ge_iff [OF pos, of "n + 1"] ilog2_value [OF assms, of q] by linarith
  show "q + bit_length k - 1 < n \<longleftrightarrow> of_int k * p2 q < p2 n"
    using ilog2_ge_iff [OF pos, of n] ilog2_value [OF assms, of q] by linarith
qed

lemma rint_unb_pos:
  assumes "0 < x"
  shows "0 < rint rnd s (x / p2 (ilog2 x - int n))"
    and "of_int (rint rnd s (x / p2 (ilog2 x - int n))) * p2 (ilog2 x - int n) \<le> p2 (ilog2 x + 1)"
proof -
  have eq: "p2 (ilog2 x - int n) * 2 ^ n = p2 (ilog2 x)" by (simp add: p2_diff)
  have "of_int (2 ^ n) \<le> x / p2 (ilog2 x - int n)"
    using ilog2_bounds(1) [OF assms] eq by (simp add: pos_le_divide_eq mult.commute)
  then have "2 ^ n \<le> rint rnd s (x / p2 (ilog2 x - int n))" by (rule rint_ge)
  then show "0 < rint rnd s (x / p2 (ilog2 x - int n))" by (rule order_less_le_trans [rotated]) simp
  have "x / p2 (ilog2 x - int n) \<le> of_int (2 * 2 ^ n)"
    using ilog2_bounds(2) [OF assms] eq by (simp add: pos_divide_le_eq p2_succ mult_ac)
  then have "rint rnd s (x / p2 (ilog2 x - int n)) \<le> 2 * 2 ^ n" by (rule rint_le)
  then have "of_int (rint rnd s (x / p2 (ilog2 x - int n))) \<le> (of_int (2 * 2 ^ n) :: real)"
    by (simp only: of_int_le_iff)
  then have "of_int (rint rnd s (x / p2 (ilog2 x - int n))) * p2 (ilog2 x - int n)
    \<le> of_int (2 * 2 ^ n) * p2 (ilog2 x - int n)"
    by (rule mult_right_mono) simp
  also have "\<dots> = p2 (ilog2 x + 1)" using eq by (simp add: p2_succ mult_ac)
  finally show "of_int (rint rnd s (x / p2 (ilog2 x - int n))) * p2 (ilog2 x - int n) \<le> p2 (ilog2 x + 1)" .
qed

lemma kept_zero_tiny:
  assumes wf: "wf_fmt fmt" and x: "0 < x" and k: "rk fmt rnd s x = 0"
  shows "rq fmt x = qmin fmt" "inexact fmt x" "tiny fmt rnd s x"
proof -
  show q: "rq fmt x = qmin fmt"
    using sig_bounds(3) [OF x rk_bounds, of fmt rnd s] k by auto
  have f: "\<lfloor>x / p2 (rq fmt x)\<rfloor> \<le> 0" using rk_bounds(1) [of x fmt rnd s] k by simp
  show "inexact fmt x"
  proof (rule ccontr)
    assume "\<not> inexact fmt x"
    then obtain j where j: "x / p2 (rq fmt x) = of_int j" by (auto simp: inexact_def elim: Ints_cases)
    then have "j = 0" using k by (simp add: rk_def)
    with j x show False by simp
  qed
  have "x / p2 (rq fmt x) < 1" using f by linarith
  then have "x < p2 (qmin fmt)" using q by (simp add: pos_divide_less_eq)
  then have "ilog2 x + 1 \<le> qmin fmt" using ilog2_ge_iff [OF x, of "qmin fmt"] by linarith
  then have "p2 (ilog2 x + 1) \<le> p2 (qmin fmt)" by (subst p2_mono_iff)
  moreover have "p2 (qmin fmt) < p2 (emin fmt)"
    using wf_man_w [OF wf] by (subst p2_less_iff) (simp add: qmin_def)
  ultimately show "tiny fmt rnd s x"
    using rint_unb_pos(2) [OF x, of rnd s "man_w fmt"] unfolding tiny_def unbounded_def by linarith
qed

lemma round_pack_refines:
  assumes wf: "wf_fmt fmt" and m: "0 < m" and dir: "valid_dir rnd"
  shows "round_pack fmt s m e rnd = Inr (round_real fmt rnd s (of_int m * p2 e))"
proof -
  let ?x = "of_int m * p2 e"
  define q k where "q = rq fmt ?x" and "k = rk fmt rnd s ?x"
  have x: "0 < ?x" using m by simp
  have en: "e + bit_length m - 1 = ilog2 ?x" using ilog2_value [OF m, of e] by simp
  have at: "round_at m e q' s rnd = (rint rnd s (?x / p2 q'), ?x / p2 q' \<notin> \<int>)" for q'
    using round_at_rint [OF m dir, of e q' s] by (simp add: p2_diff)
  have qd: "max (ilog2 ?x) (emin fmt) - (prec fmt - 1) = q" by (simp add: q_def rq_def)
  have kept: "round_at m e q s rnd = (k, inexact fmt ?x)"
    by (simp add: at k_def rk_def inexact_def q_def)
  have tn: "ilog2 ?x - (prec fmt - 1) + bit_length (fst (round_at m e (ilog2 ?x - (prec fmt - 1)) s rnd)) - 1
      < emin fmt \<longleftrightarrow> tiny fmt rnd s ?x"
    using e_res_iff(2) [OF rint_unb_pos(1) [OF x, of rnd s "man_w fmt"], of "ilog2 ?x - int (man_w fmt)"]
    by (simp add: at tiny_def unbounded_def)
  have mag: "rmag fmt rnd s ?x = place fmt q k" by (simp add: rmag_def q_def k_def)
  have val: "mag_val fmt (place fmt q k) = of_int k * p2 q"
    using mag_val_rmag [OF x, of fmt rnd s] by (simp add: mag q_def k_def)
  have pl0: "0 \<le> place fmt q k" using rmag_nonneg [OF x, of fmt rnd s] by (simp add: mag)
  note kb = sig_bounds [OF x rk_bounds, of fmt rnd s, folded k_def q_def]
  note lim = mag_lim_inf [of fmt]
  let ?fl = "if inexact fmt ?x then FLAG_INEXACT else 0"
  let ?fl' = "if tiny fmt rnd s ?x \<and> inexact fmt ?x then ?fl OR FLAG_UNDERFLOW else ?fl"
  have step: "round_pack fmt s m e rnd =
    (if k = 0 then Inr (zero_bits fmt s, ?fl OR FLAG_UNDERFLOW)
     else if emax fmt < q + bit_length k - 1 then
       (if overflow_gives_inf rnd s then Inr (inf_bits fmt s, ?fl OR FLAG_OVERFLOW OR FLAG_INEXACT)
        else Inr (max_normal_bits fmt s, ?fl OR FLAG_OVERFLOW OR FLAG_INEXACT))
     else if q + bit_length k - 1 < emin fmt then Inr (zero_bits fmt s OR k, ?fl')
     else Inr (zero_bits fmt s OR push_bit (man_w fmt) (q + bit_length k - 1 + bias fmt) OR
       ((if bit_length k = prec fmt + 1 then drop_bit 1 k else k) - push_bit (nat (prec fmt - 1)) 1), ?fl'))"
    using m dir unfolding round_pack_def Let_def en qd kept split_beta fst_conv snd_conv tn by simp
  show ?thesis
  proof (cases "k = 0")
    case True
    note z = kept_zero_tiny [OF wf x, of rnd s, folded k_def q_def, OF True]
    have "place fmt q k = 0" using z(1) True by (simp add: place_def)
    then show ?thesis using m dir True z inf_mag_pos [OF wf]
      by (simp add: step round_real_def mag zero_bits_pack)
  next
    case False
    then have k: "0 < k" using kb(1) by simp
    have ov: "emax fmt < q + bit_length k - 1 \<longleftrightarrow> inf_mag fmt \<le> place fmt q k"
      using e_res_iff(1) [OF k, of "emax fmt" q] mag_val_le_iff [of "inf_mag fmt" "place fmt q k" fmt]
        inf_mag_pos [OF wf] pl0 by (simp add: val mag_val_inf_mag [OF wf])
    have sub: "q + bit_length k - 1 < emin fmt \<longleftrightarrow> place fmt q k < 2 ^ man_w fmt"
      using e_res_iff(2) [OF k, of q "emin fmt"] mag_val_less_iff [of "place fmt q k" "2 ^ man_w fmt" fmt]
        pl0 by (simp add: val mag_val_min_normal [OF wf])
    show ?thesis
    proof (cases "emax fmt < q + bit_length k - 1")
      case True
      then show ?thesis using m dir False ov
        by (simp add: step round_real_def mag overflow_gives_inf_iff packed wf flag_defs)
    next
      case fin: False
      then have lt: "place fmt q k < inf_mag fmt" using ov by simp
      then have ltl: "place fmt q k < mag_lim fmt" using lim zero_less_power [of "2::int" "man_w fmt"] by linarith
      show ?thesis
      proof (cases "q + bit_length k - 1 < emin fmt")
        case True
        then have "place fmt q k < 2 ^ man_w fmt" using sub by simp
        moreover have "0 \<le> (q - qmin fmt) * 2 ^ man_w fmt"
          using rq_ge_qmin [of fmt ?x] by (simp add: q_def)
        ultimately have "q = qmin fmt" using kb(3) by (simp add: place_def)
        then have "place fmt q k = k" by (simp add: place_def)
        then show ?thesis using m dir False True fin ov ltl k push_or_pack [of k fmt s]
          by (simp add: step round_real_def mag zero_bits_def)
      next
        case norm: False
        then have big: "2 ^ man_w fmt \<le> place fmt q k" using sub by simp
        have kn: "2 ^ man_w fmt \<le> k" using kb(3) big by (auto simp: place_def)
        let ?c = "bit_length k = prec fmt + 1"
        have carry: "?c \<longleftrightarrow> k = 2 * 2 ^ man_w fmt"
          using bit_length_eq_iff [OF k, of "Suc (man_w fmt)"] kb(2) by (auto simp: prec_def)
        have bl: "\<not> ?c \<Longrightarrow> bit_length k = prec fmt"
          using bit_length_eq_iff [OF k, of "man_w fmt"] kb(2) kn carry by (auto simp: prec_def)
        define f b where "f = (if ?c then drop_bit 1 k else k) - push_bit (nat (prec fmt - 1)) 1"
          and "b = q + bit_length k - 1 + bias fmt"
        have fb: "b * 2 ^ man_w fmt + f = place fmt q k" and f: "0 \<le> f" "f < 2 ^ man_w fmt"
          using carry bl kb(2) kn
          by (auto simp: f_def b_def place_def qmin_def emin_def prec_def drop_bit_eq_div algebra_simps)
        have "0 \<le> b"
        proof (rule ccontr)
          assume "\<not> 0 \<le> b"
          then have "b * 2 ^ man_w fmt \<le> (- 1) * 2 ^ man_w fmt" by (intro mult_right_mono) auto
          with fb f pl0 show False by linarith
        qed
        then have bits: "zero_bits fmt s OR push_bit (man_w fmt) b OR f = pack fmt s (place fmt q k)"
          using round_pack_bits_normal [of b fmt f s] fb f ltl by simp
        show ?thesis using m dir False norm fin ov bits
          by (simp add: step round_real_def mag f_def b_def)
      qed
    qed
  qed
qed

text \<open>The exceptions: the assertion is checked first.\<close>

lemma round_pack_errors:
  "m \<le> 0 \<Longrightarrow> round_pack fmt s m e rnd = Inl AssertionError"
  "0 < m \<Longrightarrow> \<not> valid_dir rnd \<Longrightarrow> round_pack fmt s m e rnd = Inl ValueError"
  by (simp_all add: round_pack_def)

section \<open>Rounding a signed value\<close>

definition round_signed :: "fp_format \<Rightarrow> int \<Rightarrow> real \<Rightarrow> int \<times> int" where
  "round_signed fmt rnd v = round_real fmt rnd (if v < 0 then 1 else 0) \<bar>v\<bar>"

lemma sg_mult_less_0: "0 < x \<Longrightarrow> s = 0 \<or> s = 1 \<Longrightarrow> (if sg s * x < 0 then 1 else 0) = s"
  by auto

lemma round_pack_signed:
  assumes "wf_fmt fmt" "0 < m" "valid_dir rnd" "s = 0 \<or> s = 1"
  shows "round_pack fmt s m e rnd = Inr (round_signed fmt rnd (sg s * of_int m * p2 e))"
proof -
  have "0 < of_int m * p2 e" using assms(2) by simp
  from sg_mult_less_0 [OF this assms(4)] round_pack_refines [OF assms(1-3), of s e] this
  show ?thesis using assms(2) by (simp add: round_signed_def abs_mult mult.assoc)
qed

lemma round_signed_pos: "0 < x \<Longrightarrow> round_signed fmt rnd x = round_real fmt rnd 0 x"
  by (simp add: round_signed_def)

lemma round_real_exact:
  assumes "0 < mag" "mag < inf_mag fmt"
  shows "round_real fmt rnd s (mag_val fmt mag) = (pack fmt s mag, 0)"
proof -
  have pos: "0 < mag_val fmt mag" using assms(1) by (simp add: mag_val_pos_iff)
  have r: "rmag fmt rnd s (mag_val fmt mag) = mag" using rmag_exact [OF _ pos] assms(1) by simp
  have "\<not> inexact fmt (mag_val fmt mag)"
    using inexact_iff [OF pos, of fmt rnd s] by (simp add: r)
  with r assms(2) show ?thesis by (simp add: round_real_def)
qed

text \<open>A representable value is its own rounding, in every direction, without a flag.\<close>

lemma round_signed_exact:
  assumes wf: "wf_fmt fmt" and x: "fits fmt x" "is_finite fmt x" "fval fmt x \<noteq> 0"
  shows "round_signed fmt rnd (fval fmt x) = (x, 0)"
proof -
  have v: "fval fmt x = sg (sgn_of fmt x) * mag_val fmt (mag_of fmt x)" by (rule fval_eq [OF wf x(1,2)])
  have mag: "0 < mag_of fmt x" using x(3) v mag_bounds(1) [of fmt x] by (auto simp: order_le_less)
  then have pos: "0 < mag_val fmt (mag_of fmt x)" by (simp add: mag_val_pos_iff)
  have "round_signed fmt rnd (fval fmt x) = round_real fmt rnd (sgn_of fmt x) (mag_val fmt (mag_of fmt x))"
    using sg_mult_less_0 [OF pos fits_sgn [OF x(1)]] pos unfolding round_signed_def v
    by (simp add: abs_mult)
  then show ?thesis using round_real_exact [OF mag] x(2) by (simp add: is_finite_def pack_fields)
qed

text \<open>A significand no longer than the precision, in range, is encodable.\<close>

lemma representable:
  assumes wf: "wf_fmt fmt" and k: "0 < k" "k \<le> 2 ^ Suc (man_w fmt)"
    and q: "qmin fmt \<le> q" "of_int k * p2 q < p2 (emax fmt + 1)"
  obtains mag where "0 < mag" "mag < inf_mag fmt" "mag_val fmt mag = of_int k * p2 q"
proof -
  let ?x = "of_int k * p2 q" let ?r = "rmag fmt RND_RNE 0 ?x"
  have x: "0 < ?x" using k(1) by simp
  obtain k' q' where kq: "?x = of_int k' * p2 q'" "0 < k'" "k' < 2 ^ Suc (man_w fmt)" "qmin fmt \<le> q'"
  proof (cases "k = 2 ^ Suc (man_w fmt)")
    case True
    then have "?x = of_int 1 * p2 (q + int (Suc (man_w fmt)))" by (simp add: p2_add power_int_add)
    moreover have "(1::int) < 2 ^ Suc (man_w fmt)" by (rule one_less_power) simp_all
    ultimately show ?thesis
      using that [of 1 "q + int (Suc (man_w fmt))"] q(1) by (simp del: of_nat_Suc power_Suc)
  next
    case False
    then show ?thesis using that [of k q] k q(1) by simp
  qed
  have "bit_length k' \<le> int (Suc (man_w fmt))"
    using bit_length_le_iff [of k' "Suc (man_w fmt)"] kq(2,3) by simp
  then have le: "rq fmt ?x \<le> q'"
    using ilog2_value [OF kq(2), of q'] kq(4) by (simp add: rq_def kq(1) qmin_def)
  define g where "g = rq fmt ?x"
  have pp: "p2 q' = of_int (2 ^ nat (q' - g)) * p2 g" using le by (intro p2_split_int) (simp add: g_def)
  have "?x / p2 g = of_int (k' * 2 ^ nat (q' - g))" unfolding kq(1) pp by simp
  then have "\<not> inexact fmt ?x" by (simp only: inexact_def Ints_of_int not_not g_def)
  then have v: "mag_val fmt ?r = ?x" using inexact_iff [OF x, of fmt RND_RNE 0] by blast
  have r0: "0 \<le> ?r" by (rule rmag_nonneg [OF x])
  show ?thesis
  proof (rule that [OF _ _ v])
    show "0 < ?r" using v x mag_val_pos_iff [OF r0, of fmt] by simp
    show "?r < inf_mag fmt"
      using v q(2) mag_val_less_iff [OF r0, of "inf_mag fmt" fmt] inf_mag_pos [OF wf]
      by (simp add: mag_val_inf_mag [OF wf])
  qed
qed

end
