(* ===== verification/Arith.thy ===== *)
theory Arith
  imports Rounding
begin

text \<open>
  The arithmetic operations of \<^verbatim>\<open>python/cft_golden/softfloat.py\<close>: \<open>fma\<close>, \<open>add\<close>, \<open>sub\<close>,
  \<open>mul\<close>, \<open>div\<close> and \<open>sqrt\<close>, with \<open>_nan_result\<close>, \<open>_fold_sticky\<close> and Python's \<open>math.isqrt\<close>.
  On finite operands each is proved to be the rounding of the exact real result; the two
  assertions of the long division and of the square root never fire.
\<close>

section \<open>The code\<close>

definition nan_result :: "fp_format \<Rightarrow> unpacked list \<Rightarrow> int \<times> int" where
  "nan_result fmt ops =
    (let invalid = list_ex (\<lambda>u. u_kind u = KNan \<and> signaling u) ops
     in (qnan_bits fmt, if invalid then FLAG_INVALID else 0))"

definition fma :: "fp_format \<Rightarrow> int \<Rightarrow> int \<Rightarrow> int \<Rightarrow> int \<Rightarrow> (int \<times> int) result" where
  "fma fmt xa xb xc rnd =
    bind_r (check_mode rnd) (\<lambda>_.
    let ua = unpack fmt xa; ub = unpack fmt xb; uc = unpack fmt xc
    in if u_kind ua = KNan \<or> u_kind ub = KNan \<or> u_kind uc = KNan then Inr (nan_result fmt [ua, ub, uc])
    else let sp = u_sign ua XOR u_sign ub in
    if u_kind ua = KInf \<or> u_kind ub = KInf then
      (if u_kind ua = KZero \<or> u_kind ub = KZero then Inr (qnan_bits fmt, FLAG_INVALID)
       else if u_kind uc = KInf \<and> u_sign uc \<noteq> sp then Inr (qnan_bits fmt, FLAG_INVALID)
       else Inr (inf_bits fmt sp, 0))
    else if u_kind uc = KInf then Inr (inf_bits fmt (u_sign uc), 0)
    else if u_kind ua = KZero \<or> u_kind ub = KZero then
      (if u_kind uc = KZero then
         let rs = (if u_sign uc = sp then u_sign uc else zero_sign_for_exact_cancellation rnd)
         in Inr (zero_bits fmt rs, 0)
       else Inr (xc, 0))
    else let mp = u_m ua * u_m ub; ep = u_e ua + u_e ub in
    if u_kind uc = KZero then round_pack fmt sp mp ep rnd
    else let e0 = min ep (u_e uc);
             t = push_bit (nat (ep - e0)) mp * (if truthy sp then - 1 else 1)
               + push_bit (nat (u_e uc - e0)) (u_m uc) * (if truthy (u_sign uc) then - 1 else 1)
    in if t = 0 then Inr (zero_bits fmt (zero_sign_for_exact_cancellation rnd), 0)
       else round_pack fmt (if t < 0 then 1 else 0) \<bar>t\<bar> e0 rnd)"

definition add :: "fp_format \<Rightarrow> int \<Rightarrow> int \<Rightarrow> int \<Rightarrow> (int \<times> int) result" where
  "add fmt xa xb rnd =
    bind_r (check_mode rnd) (\<lambda>_.
    let ua = unpack fmt xa; ub = unpack fmt xb
    in if u_kind ua = KNan \<or> u_kind ub = KNan then Inr (nan_result fmt [ua, ub])
    else if u_kind ua = KInf then
      (if u_kind ub = KInf \<and> u_sign ub \<noteq> u_sign ua then Inr (qnan_bits fmt, FLAG_INVALID)
       else Inr (inf_bits fmt (u_sign ua), 0))
    else if u_kind ub = KInf then Inr (inf_bits fmt (u_sign ub), 0)
    else if u_kind ua = KZero \<and> u_kind ub = KZero then
      let rs = (if u_sign ua = u_sign ub then u_sign ua else zero_sign_for_exact_cancellation rnd)
      in Inr (zero_bits fmt rs, 0)
    else if u_kind ua = KZero then Inr (xb, 0)
    else if u_kind ub = KZero then Inr (xa, 0)
    else let e0 = min (u_e ua) (u_e ub);
             t = push_bit (nat (u_e ua - e0)) (u_m ua) * (if truthy (u_sign ua) then - 1 else 1)
               + push_bit (nat (u_e ub - e0)) (u_m ub) * (if truthy (u_sign ub) then - 1 else 1)
    in if t = 0 then Inr (zero_bits fmt (zero_sign_for_exact_cancellation rnd), 0)
       else round_pack fmt (if t < 0 then 1 else 0) \<bar>t\<bar> e0 rnd)"

definition sub :: "fp_format \<Rightarrow> int \<Rightarrow> int \<Rightarrow> int \<Rightarrow> (int \<times> int) result" where
  "sub fmt xa xb rnd = add fmt xa (negate fmt xb) rnd"

definition mul :: "fp_format \<Rightarrow> int \<Rightarrow> int \<Rightarrow> int \<Rightarrow> (int \<times> int) result" where
  "mul fmt xa xb rnd =
    bind_r (check_mode rnd) (\<lambda>_.
    let ua = unpack fmt xa; ub = unpack fmt xb
    in if u_kind ua = KNan \<or> u_kind ub = KNan then Inr (nan_result fmt [ua, ub])
    else let sp = u_sign ua XOR u_sign ub in
    if u_kind ua = KInf \<or> u_kind ub = KInf then
      (if u_kind ua = KZero \<or> u_kind ub = KZero then Inr (qnan_bits fmt, FLAG_INVALID)
       else Inr (inf_bits fmt sp, 0))
    else if u_kind ua = KZero \<or> u_kind ub = KZero then Inr (zero_bits fmt sp, 0)
    else round_pack fmt sp (u_m ua * u_m ub) (u_e ua + u_e ub) rnd)"

definition fold_sticky :: "int \<Rightarrow> bool \<Rightarrow> int" where
  "fold_sticky q rem_nonzero = push_bit 1 q OR (if rem_nonzero then 1 else 0)"

definition div_f :: "fp_format \<Rightarrow> int \<Rightarrow> int \<Rightarrow> int \<Rightarrow> (int \<times> int) result" where
  "div_f fmt xa xb rnd =
    bind_r (check_mode rnd) (\<lambda>_.
    let ua = unpack fmt xa; ub = unpack fmt xb
    in if u_kind ua = KNan \<or> u_kind ub = KNan then Inr (nan_result fmt [ua, ub])
    else let sq = u_sign ua XOR u_sign ub in
    if u_kind ua = KInf then
      (if u_kind ub = KInf then Inr (qnan_bits fmt, FLAG_INVALID) else Inr (inf_bits fmt sq, 0))
    else if u_kind ub = KInf then Inr (zero_bits fmt sq, 0)
    else if u_kind ub = KZero then
      (if u_kind ua = KZero then Inr (qnan_bits fmt, FLAG_INVALID)
       else Inr (inf_bits fmt sq, FLAG_DIVZERO))
    else if u_kind ua = KZero then Inr (zero_bits fmt sq, 0)
    else let p = prec fmt;
             k0 = (p + 3) + bit_length (u_m ub) - bit_length (u_m ua) + 1;
             k = (if k0 < 0 then 0 else k0);
             q = push_bit (nat k) (u_m ua) div u_m ub;
             rem = push_bit (nat k) (u_m ua) mod u_m ub
    in if \<not> p + 3 \<le> bit_length q then Inl AssertionError
       else let m = fold_sticky q (rem \<noteq> 0);
                e = (u_e ua - u_e ub) - k - 1
            in round_pack fmt sq m e rnd)"

text \<open>
  Python's \<open>math.isqrt\<close>, the floor of the square root of a non-negative integer: two bits of
  the argument decide one bit of the root.
\<close>

function isqrt :: "int \<Rightarrow> int" where
  "isqrt n =
    (if n \<le> 0 then 0
     else let r = 2 * isqrt (n div 4) in if (r + 1) * (r + 1) \<le> n then r + 1 else r)"
  by pat_completeness auto
termination by (relation "measure nat") auto

declare isqrt.simps [simp del]

definition sqrt_f :: "fp_format \<Rightarrow> int \<Rightarrow> int \<Rightarrow> (int \<times> int) result" where
  "sqrt_f fmt xa rnd =
    bind_r (check_mode rnd) (\<lambda>_.
    let ua = unpack fmt xa
    in if u_kind ua = KNan then Inr (nan_result fmt [ua])
    else if u_kind ua = KZero then Inr (xa, 0)
    else if truthy (u_sign ua) then Inr (qnan_bits fmt, FLAG_INVALID)
    else if u_kind ua = KInf then Inr (xa, 0)
    else let p = prec fmt;
             t0 = 2 * (p + 3) - bit_length (u_m ua);
             t1 = (if t0 < 0 then 0 else t0);
             t = t1 + ((t1 XOR u_e ua) AND 1);
             m = push_bit (nat t) (u_m ua);
             e = u_e ua - t
    in if e AND 1 \<noteq> 0 then Inl AssertionError
       else let r = isqrt m
       in if \<not> p + 3 \<le> bit_length r then Inl AssertionError
          else let mres = fold_sticky r (r * r \<noteq> m);
                   eres = e div 2 - 1
               in round_pack fmt 0 mres eres rnd)"

section \<open>What an unpacked operand provides\<close>

lemma unpack_cases:
  assumes wf: "wf_fmt fmt" and x: "fits fmt x"
  shows "u_sign (unpack fmt x) = 0 \<or> u_sign (unpack fmt x) = 1"
    and "u_kind (unpack fmt x) = KZero \<longleftrightarrow> is_finite fmt x \<and> fval fmt x = 0"
    and "is_finite fmt x \<Longrightarrow> u_kind (unpack fmt x) \<noteq> KZero \<Longrightarrow> 0 < u_m (unpack fmt x)"
    and "is_finite fmt x \<longleftrightarrow> u_kind (unpack fmt x) \<noteq> KInf \<and> u_kind (unpack fmt x) \<noteq> KNan"
proof -
  note k = kind_of_iff [OF wf mag_bounds(1) [of fmt x]]
  note inf = inf_mag_pos [OF wf]
  show "u_sign (unpack fmt x) = 0 \<or> u_sign (unpack fmt x) = 1"
    using fits_sgn [OF x] wf x by simp
  show "is_finite fmt x \<longleftrightarrow> u_kind (unpack fmt x) \<noteq> KInf \<and> u_kind (unpack fmt x) \<noteq> KNan"
    by (rule is_finite_kind [OF wf x])
  have v: "fval fmt x = sg (sgn_of fmt x) * mag_val fmt (mag_of fmt x)" if "is_finite fmt x"
    by (rule fval_eq [OF wf x that])
  have z: "mag_val fmt (mag_of fmt x) = 0 \<longleftrightarrow> mag_of fmt x = 0"
    using mag_val_pos_iff [OF mag_bounds(1) [of fmt x], of fmt] mag_bounds(1) [of fmt x]
      mag_val_nonneg [OF mag_bounds(1) [of fmt x], of fmt]
    by (metis less_le mag_val_0)
  have sgnz: "sg s \<noteq> 0" for s by (simp add: sg_def)
  show "u_kind (unpack fmt x) = KZero \<longleftrightarrow> is_finite fmt x \<and> fval fmt x = 0"
    using k(1) v z inf sgnz by (auto simp: u_kind_unpack [OF wf x] is_finite_def)
  show "0 < u_m (unpack fmt x)" if fin: "is_finite fmt x" and nz: "u_kind (unpack fmt x) \<noteq> KZero"
  proof -
    have "0 < mag_of fmt x"
      using nz k(1) mag_bounds(1) [of fmt x] by (auto simp: u_kind_unpack [OF wf x] less_le)
    then have "0 < mag_val fmt (mag_of fmt x)" by (simp add: mag_val_pos_iff)
    then have "0 < (of_int (sig_of fmt (mag_of fmt x)) :: real)"
      unfolding mag_val_def by (rule zero_less_mult_pos2 [OF _ p2_pos])
    then have "0 < sig_of fmt (mag_of fmt x)" by simp
    then show ?thesis using fin by (simp add: unpack_fits [OF wf x] is_finite_def)
  qed
qed

lemma xor_sign: "s = 0 \<or> s = (1::int) \<Longrightarrow> t = 0 \<or> t = 1 \<Longrightarrow>
  (s XOR t = 0 \<or> s XOR t = 1) \<and> sg (s XOR t) = sg s * sg t \<and> (s XOR t = 0 \<longleftrightarrow> s = t)"
  by auto

text \<open>Two significands on a common grid, signs applied: their sum as a real.\<close>

lemma aligned_sum:
  "of_int (push_bit (nat (ea - min ea eb)) ma * (if truthy sa then - 1 else 1)
     + push_bit (nat (eb - min ea eb)) mb * (if truthy sb then - 1 else 1)) * p2 (min ea eb)
   = sg sa * of_int ma * p2 ea + sg sb * of_int mb * p2 eb"
proof -
  have "of_int (push_bit (nat (ea - min ea eb)) ma) * p2 (min ea eb) = of_int ma * p2 ea"
    and "of_int (push_bit (nat (eb - min ea eb)) mb) * p2 (min ea eb) = of_int mb * p2 eb"
    by (rule shift_value, simp)+
  then show ?thesis by (cases "truthy sa"; cases "truthy sb") (simp_all add: sg_def algebra_simps)
qed

text \<open>
  The exact sum, rounded once. A zero sum keeps a sign both addends share; otherwise the
  attribute decides (6.3).
\<close>

definition sum_result :: "fp_format \<Rightarrow> int \<Rightarrow> int \<Rightarrow> int \<Rightarrow> real \<Rightarrow> int \<times> int" where
  "sum_result fmt rnd s t v =
    (if v = 0 then (zero_bits fmt (if s = t then t else zero_sign_for_exact_cancellation rnd), 0)
     else round_signed fmt rnd v)"

lemma aligned_round_pack:
  assumes wf: "wf_fmt fmt" and rnd: "valid_dir rnd" and t: "of_int t * p2 e0 = v"
    and z: "t = 0 \<Longrightarrow> s \<noteq> s'"
  shows "(if t = 0 then Inr (zero_bits fmt (zero_sign_for_exact_cancellation rnd), 0)
     else round_pack fmt (if t < 0 then 1 else 0) \<bar>t\<bar> e0 rnd) = Inr (sum_result fmt rnd s s' v)"
proof (cases "t = 0")
  case True
  then show ?thesis using t z by (auto simp: sum_result_def)
next
  case False
  have "sg (if t < 0 then 1 else 0) * of_int \<bar>t\<bar> = (of_int t :: real)" by auto
  then have "sg (if t < 0 then 1 else 0) * of_int \<bar>t\<bar> * p2 e0 = v" using t by simp
  moreover have "v \<noteq> 0" using False t by auto
  ultimately show ?thesis
    using False round_pack_signed [OF wf _ rnd, of "\<bar>t\<bar>" "if t < 0 then 1 else 0" e0]
    by (simp add: sum_result_def)
qed

section \<open>Addition, multiplication and the fused operation on finite operands\<close>

lemma fval_unpack: "fval fmt x = sg (u_sign (unpack fmt x)) * of_int (u_m (unpack fmt x)) * p2 (u_e (unpack fmt x))"
  by (simp add: fval_def u_val_def)

lemma sign_sum_zero:
  assumes "s = 0 \<or> s = (1::int)" "t = 0 \<or> t = (1::int)" "0 < x" "0 < y" "sg s * x + sg t * y = 0"
  shows "s \<noteq> t"
  using assms by auto

lemma add_finite:
  assumes wf: "wf_fmt fmt" and a: "fits fmt xa" "is_finite fmt xa" and b: "fits fmt xb" "is_finite fmt xb"
    and rnd: "valid_mode rnd"
  shows "add fmt xa xb rnd =
    Inr (sum_result fmt rnd (sgn_of fmt xa) (sgn_of fmt xb) (fval fmt xa + fval fmt xb))"
proof -
  note ca = unpack_cases [OF wf a(1)] and cb = unpack_cases [OF wf b(1)]
  let ?a = "unpack fmt xa" and ?b = "unpack fmt xb"
  have fin: "u_kind ?a \<noteq> KInf" "u_kind ?a \<noteq> KNan" "u_kind ?b \<noteq> KInf" "u_kind ?b \<noteq> KNan"
    using ca(4) cb(4) a(2) b(2) by simp_all
  show ?thesis
  proof (cases "u_kind ?a = KZero \<or> u_kind ?b = KZero")
    case True
    then show ?thesis using fin rnd ca(2) cb(2) a b
      by (auto simp: add_def sum_result_def round_signed_exact [OF wf] wf)
  next
    case False
    then have pos: "0 < u_m ?a" "0 < u_m ?b" using ca(3) cb(3) a b by simp_all
    let ?e = "min (u_e ?a) (u_e ?b)"
    let ?t = "push_bit (nat (u_e ?a - ?e)) (u_m ?a) * (if truthy (u_sign ?a) then - 1 else 1)
      + push_bit (nat (u_e ?b - ?e)) (u_m ?b) * (if truthy (u_sign ?b) then - 1 else 1)"
    have t: "of_int ?t * p2 ?e = fval fmt xa + fval fmt xb"
      by (simp only: aligned_sum fval_unpack)
    have ne: "u_sign ?a \<noteq> u_sign ?b" if "?t = 0"
      using sign_sum_zero [OF ca(1) cb(1), of "of_int (u_m ?a) * p2 (u_e ?a)" "of_int (u_m ?b) * p2 (u_e ?b)"]
        t that pos by (simp add: fval_unpack mult.assoc)
    have code: "add fmt xa xb rnd =
      (if ?t = 0 then Inr (zero_bits fmt (zero_sign_for_exact_cancellation rnd), 0)
       else round_pack fmt (if ?t < 0 then 1 else 0) \<bar>?t\<bar> ?e rnd)"
      using False fin rnd
      by (simp only: add_def Let_def check_mode_iff if_True bind_r_simps
        simp_thms if_False de_Morgan_disj)
    show ?thesis
      using aligned_round_pack [OF wf valid_mode_dir [OF rnd] t ne] a b wf unfolding code by simp
  qed
qed

lemma mul_finite:
  assumes wf: "wf_fmt fmt" and a: "fits fmt xa" "is_finite fmt xa" and b: "fits fmt xb" "is_finite fmt xb"
    and rnd: "valid_mode rnd"
  shows "mul fmt xa xb rnd =
    Inr (if fval fmt xa * fval fmt xb = 0 then (zero_bits fmt (sgn_of fmt xa XOR sgn_of fmt xb), 0)
         else round_signed fmt rnd (fval fmt xa * fval fmt xb))"
proof -
  note ca = unpack_cases [OF wf a(1)] and cb = unpack_cases [OF wf b(1)]
  let ?a = "unpack fmt xa" and ?b = "unpack fmt xb"
  have fin: "u_kind ?a \<noteq> KInf" "u_kind ?a \<noteq> KNan" "u_kind ?b \<noteq> KInf" "u_kind ?b \<noteq> KNan"
    using ca(4) cb(4) a(2) b(2) by simp_all
  show ?thesis
  proof (cases "u_kind ?a = KZero \<or> u_kind ?b = KZero")
    case True
    then have "fval fmt xa * fval fmt xb = 0" using ca(2) cb(2) by auto
    with True fin rnd a b wf show ?thesis by (auto simp: mul_def)
  next
    case False
    then have nz: "fval fmt xa * fval fmt xb \<noteq> 0" and pos: "0 < u_m ?a * u_m ?b"
      using ca(2,3) cb(2,3) a b by simp_all
    have sp: "u_sign ?a XOR u_sign ?b = 0 \<or> u_sign ?a XOR u_sign ?b = 1"
      and val: "sg (u_sign ?a XOR u_sign ?b) * of_int (u_m ?a * u_m ?b) * p2 (u_e ?a + u_e ?b)
        = fval fmt xa * fval fmt xb"
      using xor_sign [OF ca(1) cb(1)] by (blast, simp add: fval_unpack p2_add)
    have "round_pack fmt (u_sign ?a XOR u_sign ?b) (u_m ?a * u_m ?b) (u_e ?a + u_e ?b) rnd
      = Inr (round_signed fmt rnd (fval fmt xa * fval fmt xb))"
      using round_pack_signed [OF wf pos valid_mode_dir [OF rnd] sp, of "u_e ?a + u_e ?b"]
      unfolding val .
    with False nz fin rnd a b wf show ?thesis by (simp add: mul_def Let_def)
  qed
qed

lemma fma_finite:
  assumes wf: "wf_fmt fmt" and a: "fits fmt xa" "is_finite fmt xa" and b: "fits fmt xb" "is_finite fmt xb"
    and c: "fits fmt xc" "is_finite fmt xc" and rnd: "valid_mode rnd"
  shows "fma fmt xa xb xc rnd =
    Inr (sum_result fmt rnd (sgn_of fmt xa XOR sgn_of fmt xb) (sgn_of fmt xc)
      (fval fmt xa * fval fmt xb + fval fmt xc))"
proof -
  note ca = unpack_cases [OF wf a(1)] and cb = unpack_cases [OF wf b(1)] and cc = unpack_cases [OF wf c(1)]
  let ?a = "unpack fmt xa" and ?b = "unpack fmt xb" and ?c = "unpack fmt xc"
  let ?sp = "u_sign ?a XOR u_sign ?b" and ?mp = "u_m ?a * u_m ?b" and ?ep = "u_e ?a + u_e ?b"
  note sp = xor_sign [OF ca(1) cb(1)]
  have fin: "u_kind ?a \<noteq> KInf" "u_kind ?a \<noteq> KNan" "u_kind ?b \<noteq> KInf" "u_kind ?b \<noteq> KNan"
    "u_kind ?c \<noteq> KInf" "u_kind ?c \<noteq> KNan"
    using ca(4) cb(4) cc(4) a(2) b(2) c(2) by simp_all
  show ?thesis
  proof (cases "u_kind ?a = KZero \<or> u_kind ?b = KZero")
    case True
    then have p0: "fval fmt xa * fval fmt xb = 0" using ca(2) cb(2) by auto
    have code: "fma fmt xa xb xc rnd =
      (if u_kind ?c = KZero then Inr (zero_bits fmt (if u_sign ?c = ?sp then u_sign ?c
         else zero_sign_for_exact_cancellation rnd), 0) else Inr (xc, 0))"
      using True fin rnd by (simp add: fma_def Let_def)
    show ?thesis
    proof (cases "u_kind ?c = KZero")
      case True
      then show ?thesis unfolding code using p0 cc(2) a b c wf by (simp add: sum_result_def)
    next
      case False
      then show ?thesis unfolding code sum_result_def p0
        using cc(2) c round_signed_exact [OF wf c] by simp
    qed
  next
    case False
    then have pos: "0 < ?mp" using ca(3) cb(3) a b by simp
    have val: "sg ?sp * of_int ?mp * p2 ?ep = fval fmt xa * fval fmt xb"
      using sp by (simp add: fval_unpack p2_add)
    have sp01: "?sp = 0 \<or> ?sp = 1" using sp by blast
    show ?thesis
    proof (cases "u_kind ?c = KZero")
      case True
      have "fval fmt xa * fval fmt xb \<noteq> 0" using False ca(2) cb(2) a b by simp
      then show ?thesis
        using True False fin rnd cc(2) val
          round_pack_signed [OF wf pos valid_mode_dir [OF rnd] sp01, of ?ep]
        by (simp add: fma_def sum_result_def Let_def)
    next
      case nz: False
      then have posc: "0 < u_m ?c" using cc(3) c by simp
      let ?e = "min ?ep (u_e ?c)"
      let ?t = "push_bit (nat (?ep - ?e)) ?mp * (if truthy ?sp then - 1 else 1)
        + push_bit (nat (u_e ?c - ?e)) (u_m ?c) * (if truthy (u_sign ?c) then - 1 else 1)"
      have t: "of_int ?t * p2 ?e = fval fmt xa * fval fmt xb + fval fmt xc"
        unfolding aligned_sum val by (simp add: fval_unpack)
      have ne: "?sp \<noteq> u_sign ?c" if "?t = 0"
      proof -
        have "sg ?sp * (of_int ?mp * p2 ?ep) + sg (u_sign ?c) * (of_int (u_m ?c) * p2 (u_e ?c)) = 0"
          using t that val by (simp add: fval_unpack [of fmt xc] mult.assoc)
        moreover have "0 < of_int ?mp * p2 ?ep" "0 < of_int (u_m ?c) * p2 (u_e ?c)"
          using pos posc by (simp_all only: of_int_0_less_iff p2_pos mult_pos_pos)
        ultimately show ?thesis using sp cc(1) sign_sum_zero by blast
      qed
      have code: "fma fmt xa xb xc rnd =
        (if ?t = 0 then Inr (zero_bits fmt (zero_sign_for_exact_cancellation rnd), 0)
         else round_pack fmt (if ?t < 0 then 1 else 0) \<bar>?t\<bar> ?e rnd)"
        using False nz fin rnd
        by (simp only: fma_def Let_def check_mode_iff if_True bind_r_simps
          simp_thms if_False de_Morgan_disj)
      show ?thesis
        using aligned_round_pack [OF wf valid_mode_dir [OF rnd] t ne] a b c wf unfolding code by simp
    qed
  qed
qed

lemma sub_finite:
  assumes "wf_fmt fmt" "fits fmt xa" "is_finite fmt xa" "fits fmt xb" "is_finite fmt xb" "valid_mode rnd"
  shows "sub fmt xa xb rnd =
    Inr (sum_result fmt rnd (sgn_of fmt xa) (1 - sgn_of fmt xb) (fval fmt xa - fval fmt xb))"
  using assms by (simp add: sub_def add_finite fval_negate is_finite_def)

section \<open>Division and square root\<close>

lemma fold_sticky_eq: "fold_sticky q t = 2 * q + (if t then 1 else 0)"
  using or_disjoint [of 1 1 q] by (simp add: fold_sticky_def push_bit_eq_mult mult.commute)

text \<open>
  The sticky fold is faithful: a floor with more bits than the precision, and the fact
  that something was discarded, round as the real number they came from.
\<close>

lemma fold_sticky_round:
  assumes q: "prec fmt + 2 \<le> bit_length q" "0 < q" and f: "0 \<le> f" "f < 1"
  shows "round_real fmt rnd s ((of_int q + f) * p2 g) =
    round_real fmt rnd s (of_int (fold_sticky q (f \<noteq> 0)) * p2 (g - 1))"
proof (rule round_real_cong)
  define h :: real where "h = (if f = 0 then 0 else 1/2)"
  have h: "0 \<le> h" "h < 1" "h = 0 \<longleftrightarrow> f = 0" by (simp_all add: h_def)
  have y: "of_int (fold_sticky q (f \<noteq> 0)) * p2 (g - 1) = (of_int q + h) * p2 g"
    by (simp add: fold_sticky_eq h_def p2_pred distrib_right)
  have q1: "1 \<le> (of_int q :: real)" using q(2) by simp
  show x0: "0 < (of_int q + f) * p2 g" using q1 f by simp
  show "0 < of_int (fold_sticky q (f \<noteq> 0)) * p2 (g - 1)"
    unfolding y using q1 h by simp
  have "of_int q * p2 g \<le> (of_int q + f) * p2 g" using f by (intro mult_right_mono) simp_all
  moreover have "0 < of_int q * p2 g" using q by simp
  ultimately have "bit_length q - 1 + g \<le> ilog2 ((of_int q + f) * p2 g)"
    using ilog2_mono ilog2_value [OF q(2), of g] by metis
  then show "g \<le> ilog2 ((of_int q + f) * p2 g) - int (man_w fmt) - 1"
    using q(1) by (simp add: prec_def)
  fix j :: int
  have lt: "of_int q + f < of_int j \<longleftrightarrow> of_int q + h < (of_int j :: real)"
    and eq: "of_int q + f = of_int j \<longleftrightarrow> of_int q + h = (of_int j :: real)"
  proof -
    have "of_int q + z < of_int j \<longleftrightarrow> q < j" if "0 \<le> z" "z < 1" for z :: real
      using that by linarith
    with f h show "of_int q + f < of_int j \<longleftrightarrow> of_int q + h < (of_int j :: real)" by blast
    have "of_int q + z = of_int j \<longleftrightarrow> q = j \<and> z = 0" if "0 \<le> z" "z < 1" for z :: real
    proof
      assume "of_int q + z = of_int j"
      with that have "q = j" by linarith
      with \<open>of_int q + z = of_int j\<close> show "q = j \<and> z = 0" by simp
    qed simp
    with f h show "of_int q + f = of_int j \<longleftrightarrow> of_int q + h = (of_int j :: real)" by blast
  qed
  show "(of_int q + f) * p2 g < of_int j * p2 g \<longleftrightarrow>
      of_int (fold_sticky q (f \<noteq> 0)) * p2 (g - 1) < of_int j * p2 g"
    unfolding y using lt by (simp add: mult_less_cancel_right)
  show "(of_int q + f) * p2 g = of_int j * p2 g \<longleftrightarrow>
      of_int (fold_sticky q (f \<noteq> 0)) * p2 (g - 1) = of_int j * p2 g"
    unfolding y using eq by simp
qed

text \<open>The quotient of the long division, and that it is long enough.\<close>

lemma quotient_long:
  assumes a: "0 < ma" and b: "0 < mb" and n: "int n + bit_length mb + 1 \<le> int k + bit_length ma"
  shows "2 ^ n \<le> ma * 2 ^ k div mb"
proof -
  let ?la = "nat (bit_length ma)" let ?lb = "nat (bit_length mb)"
  have la: "bit_length ma = int ?la" "0 < ?la" using bit_length_pos [OF a] by simp_all
  have lb: "bit_length mb = int ?lb" using bit_length_pos [OF b] by simp
  have "mb \<le> 2 ^ ?lb" using bit_length_bounds(2) [OF b] by simp
  then have "2 ^ n * mb \<le> 2 ^ n * 2 ^ ?lb" by (rule mult_left_mono) simp
  also have "\<dots> = 2 ^ (n + ?lb)" by (simp add: power_add)
  also have "\<dots> \<le> 2 ^ (?la - 1 + k)"
    using n la lb by (intro power_increasing) linarith+
  also have "\<dots> = 2 ^ (?la - 1) * 2 ^ k" by (simp add: power_add)
  also have "\<dots> \<le> ma * 2 ^ k"
    using bit_length_bounds(1) [OF a] la by (intro mult_right_mono) (simp_all add: nat_diff_distrib)
  finally show ?thesis by (simp add: div_le_iff_pos [OF b])
qed

lemma div_value:
  assumes b: "0 < mb"
  shows "of_int ma * p2 ea / (of_int mb * p2 eb) =
    (of_int (ma * 2 ^ k div mb) + of_int (ma * 2 ^ k mod mb) / of_int mb) * p2 (ea - eb - int k)"
proof -
  have "(of_int (ma * 2 ^ k) :: real) = of_int (ma * 2 ^ k div mb * mb + ma * 2 ^ k mod mb)" by simp
  then have "of_int (ma * 2 ^ k) / of_int mb =
    of_int (ma * 2 ^ k div mb) + of_int (ma * 2 ^ k mod mb) / (of_int mb :: real)"
    using b by (simp only: of_int_add of_int_mult add_divide_distrib) simp
  then have fr: "of_int (ma * 2 ^ k div mb) + of_int (ma * 2 ^ k mod mb) / of_int mb =
    of_int (ma * 2 ^ k) / (of_int mb :: real)" ..
  have "p2 ea / p2 eb = 2 ^ k * p2 (ea - eb - int k)" by (simp add: p2_diff)
  then have "of_int ma / of_int mb * (p2 ea / p2 eb) =
    of_int ma / of_int mb * (2 ^ k * p2 (ea - eb - int k))" by (simp only:)
  then show ?thesis unfolding fr by simp
qed

lemma bit_length_ge_pow: "2 ^ n \<le> q \<Longrightarrow> int n < bit_length q"
  using bit_length_ge_iff [of q n] zero_less_power [of "2::int" n] by linarith

lemma div_finite:
  assumes wf: "wf_fmt fmt" and a: "fits fmt xa" "is_finite fmt xa" and b: "fits fmt xb" "is_finite fmt xb"
    and rnd: "valid_mode rnd" and nz: "fval fmt xa \<noteq> 0" "fval fmt xb \<noteq> 0"
  shows "div_f fmt xa xb rnd = Inr (round_signed fmt rnd (fval fmt xa / fval fmt xb))"
proof -
  note ca = unpack_cases [OF wf a(1)] and cb = unpack_cases [OF wf b(1)]
  let ?a = "unpack fmt xa" and ?b = "unpack fmt xb" let ?s = "u_sign ?a XOR u_sign ?b"
  let ?ma = "u_m ?a" and ?mb = "u_m ?b"
  have fin: "u_kind ?a \<noteq> KInf" "u_kind ?a \<noteq> KNan" "u_kind ?b \<noteq> KInf" "u_kind ?b \<noteq> KNan"
    using ca(4) cb(4) a(2) b(2) by simp_all
  have kz: "u_kind ?a \<noteq> KZero" "u_kind ?b \<noteq> KZero" using nz ca(2) cb(2) by auto
  have pos: "0 < ?ma" "0 < ?mb" using ca(3) cb(3) a b kz by simp_all
  define k0 where "k0 = (prec fmt + 3) + bit_length ?mb - bit_length ?ma + 1"
  define k where "k = nat (if k0 < 0 then 0 else k0)"
  have kk: "(if k0 < 0 then 0 else k0) = int k" by (simp add: k_def)
  let ?q = "?ma * 2 ^ k div ?mb" and ?r = "?ma * 2 ^ k mod ?mb"
  let ?g = "u_e ?a - u_e ?b - int k"
  have len: "int (man_w fmt + 4) + bit_length ?mb + 1 \<le> int k + bit_length ?ma"
    by (simp add: k_def k0_def prec_def)
  have ql: "2 ^ (man_w fmt + 4) \<le> ?q" by (rule quotient_long [OF pos len])
  then have q: "prec fmt + 3 \<le> bit_length ?q" "0 < ?q"
    using bit_length_ge_pow [OF ql] zero_less_power [of "2::int" "man_w fmt + 4"]
    by (simp add: prec_def, linarith)
  have sp: "?s = 0 \<or> ?s = 1" and sgm: "sg ?s = sg (u_sign ?a) * sg (u_sign ?b)"
    using xor_sign [OF ca(1) cb(1)] by blast+
  have code: "div_f fmt xa xb rnd = round_pack fmt ?s (fold_sticky ?q (?r \<noteq> 0)) (?g - 1) rnd"
    using fin kz rnd q
    unfolding div_f_def Let_def k0_def [symmetric] kk push_bit_eq_mult by simp
  have m: "0 < fold_sticky ?q (?r \<noteq> 0)" using q by (simp add: fold_sticky_eq)
  have r: "0 \<le> ?r" "?r < ?mb" using pos by simp_all
  then have f: "0 \<le> of_int ?r / (of_int ?mb :: real)" "of_int ?r / (of_int ?mb :: real) < 1"
    using pos by simp_all
  let ?x = "of_int ?ma * p2 (u_e ?a) / (of_int ?mb * p2 (u_e ?b))"
  have x: "0 < ?x" using pos by simp
  have rr: "round_real fmt rnd ?s ?x = round_real fmt rnd ?s (of_int (fold_sticky ?q (?r \<noteq> 0)) * p2 (?g - 1))"
    unfolding div_value [OF pos(2), of ?ma "u_e ?a" "u_e ?b" k]
    using fold_sticky_round [OF _ q(2) f, of fmt rnd ?s ?g] q(1) pos by simp
  have v: "fval fmt xa / fval fmt xb = sg ?s * ?x"
    by (simp add: fval_unpack sgm) (simp add: sg_def)
  have "round_signed fmt rnd (fval fmt xa / fval fmt xb) = round_real fmt rnd ?s ?x"
    unfolding round_signed_def v sg_mult_less_0 [OF x sp] using x pos by (simp add: abs_mult)
  then show ?thesis
    unfolding code rr using round_pack_refines [OF wf m valid_mode_dir [OF rnd]] by simp
qed

subsection \<open>\<open>math.isqrt\<close>\<close>

lemma isqrt_bounds:
  "0 \<le> n \<Longrightarrow> 0 \<le> isqrt n \<and> isqrt n * isqrt n \<le> n \<and> n < (isqrt n + 1) * (isqrt n + 1)"
proof (induction n rule: isqrt.induct)
  case (1 n)
  show ?case
  proof (cases "n = 0")
    case True
    then show ?thesis by (simp add: isqrt.simps)
  next
    case False
    define r where "r = isqrt (n div 4)"
    have r: "0 \<le> r" "r * r \<le> n div 4" "n div 4 < (r + 1) * (r + 1)"
      using 1 False by (simp_all add: r_def pos_imp_zdiv_nonneg_iff)
    have "4 * (r * r) \<le> n" using r(2) by linarith
    then have lo: "(2 * r) * (2 * r) \<le> n" by simp
    have "n < 4 * ((r + 1) * (r + 1))" using r(3) by linarith
    then have hi: "n < (2 * r + 2) * (2 * r + 2)" by (simp add: algebra_simps)
    have "isqrt n = (if (2 * r + 1) * (2 * r + 1) \<le> n then 2 * r + 1 else 2 * r)"
      using 1(2) False by (subst isqrt.simps) (simp add: r_def Let_def)
    then show ?thesis using r(1) lo hi by (simp add: add.assoc)
  qed
qed

lemma isqrt_ge:
  assumes "0 \<le> n" "0 \<le> k" "k * k \<le> n"
  shows "k \<le> isqrt n"
proof (rule ccontr)
  assume "\<not> k \<le> isqrt n"
  then have "(isqrt n + 1) * (isqrt n + 1) \<le> k * k"
    using isqrt_bounds [OF assms(1)] by (intro mult_mono) auto
  with assms(3) isqrt_bounds [OF assms(1)] show False by linarith
qed

lemma sqrt_isqrt:
  assumes "0 \<le> n"
  shows "0 \<le> sqrt (of_int n) - of_int (isqrt n)" "sqrt (of_int n) - of_int (isqrt n) < 1"
    "sqrt (of_int n) - of_int (isqrt n) \<noteq> 0 \<longleftrightarrow> isqrt n * isqrt n \<noteq> n"
proof -
  note b = isqrt_bounds [OF assms]
  let ?r = "isqrt n"
  have "of_int (?r * ?r) \<le> (of_int n :: real)" "(of_int n :: real) < of_int ((?r + 1) * (?r + 1))"
    using b by (simp_all only: of_int_le_iff of_int_less_iff)
  then have "(of_int ?r)\<^sup>2 \<le> (of_int n :: real)" "(of_int n :: real) < (of_int ?r + 1)\<^sup>2"
    by (simp_all add: power2_eq_square)
  then show "0 \<le> sqrt (of_int n) - of_int ?r" "sqrt (of_int n) - of_int ?r < 1"
    using b real_le_rsqrt [of "of_int ?r" "of_int n"] real_less_lsqrt [of "of_int ?r + 1" "of_int n"]
    by simp_all
  have "sqrt (of_int n) = of_int ?r \<longleftrightarrow> of_int n = (of_int ?r :: real)\<^sup>2"
  proof
    assume "sqrt (of_int n) = of_int ?r"
    moreover have "(sqrt (of_int n))\<^sup>2 = of_int n" using assms by simp
    ultimately show "of_int n = (of_int ?r :: real)\<^sup>2" by simp
  next
    assume "of_int n = (of_int ?r :: real)\<^sup>2"
    then show "sqrt (of_int n) = of_int ?r" using b by (simp add: real_sqrt_unique)
  qed
  also have "\<dots> \<longleftrightarrow> (of_int n :: real) = of_int (?r * ?r)" by (simp add: power2_eq_square)
  also have "\<dots> \<longleftrightarrow> n = ?r * ?r" by (simp only: of_int_eq_iff)
  finally show "sqrt (of_int n) - of_int ?r \<noteq> 0 \<longleftrightarrow> ?r * ?r \<noteq> n" by auto
qed

subsection \<open>The square root\<close>

lemma p2_half: "even e \<Longrightarrow> sqrt (p2 e) = p2 (e div 2)"
proof -
  assume "even e"
  then obtain b where b: "e = 2 * b" by (rule evenE)
  then have "p2 e = p2 b * p2 b" using p2_add [of b b] by simp
  then show ?thesis using b by (simp add: less_imp_le)
qed

lemma sqrt_length:
  "2 * (p + 3) - int l \<le> int t \<Longrightarrow> 0 < l \<Longrightarrow> p = int n + 1 \<Longrightarrow> 2 * n + 6 \<le> l - 1 + t"
  by arith

lemma sqrt_finite:
  assumes wf: "wf_fmt fmt" and a: "fits fmt xa" "is_finite fmt xa" and rnd: "valid_mode rnd"
    and pos: "0 < fval fmt xa"
  shows "sqrt_f fmt xa rnd = Inr (round_real fmt rnd 0 (sqrt (fval fmt xa)))"
proof -
  note ca = unpack_cases [OF wf a(1)]
  let ?a = "unpack fmt xa"
  let ?ma = "u_m ?a"
  have fin: "u_kind ?a \<noteq> KInf" "u_kind ?a \<noteq> KNan" "u_kind ?a \<noteq> KZero"
    using ca(2,4) a(2) pos by auto
  have m0: "0 < ?ma" using ca(3) a fin by simp
  have "0 < of_int ?ma * p2 (u_e ?a)" using m0 by simp
  then have s0: "u_sign ?a = 0" using ca(1) pos by (auto simp: fval_unpack)
  define t1 where "t1 = (if 2 * (prec fmt + 3) - bit_length ?ma < 0 then 0
    else 2 * (prec fmt + 3) - bit_length ?ma)"
  define t where "t = t1 + ((t1 XOR u_e ?a) AND 1)"
  define e where "e = u_e ?a - t"
  have par: "(t1 XOR u_e ?a) AND 1 = (if even (t1 + u_e ?a) then 0 else 1)"
    by (simp add: and_one_eq mod2_eq_if even_xor_iff)
  have t0: "0 \<le> t" "2 * (prec fmt + 3) - bit_length ?ma \<le> t" and ev: "even e"
  proof -
    have t1: "0 \<le> t1" "2 * (prec fmt + 3) - bit_length ?ma \<le> t1" by (simp_all add: t1_def)
    have t: "t = t1 + (if even (t1 + u_e ?a) then 0 else 1)" by (simp only: t_def par)
    show "0 \<le> t" "2 * (prec fmt + 3) - bit_length ?ma \<le> t" using t1 by (simp_all add: t)
    show "even e" by (auto simp: e_def t)
  qed
  let ?m = "?ma * 2 ^ nat t"
  have m: "0 < ?m" using m0 by simp
  let ?r = "isqrt ?m" and ?f = "sqrt (of_int ?m) - of_int (isqrt ?m)"
  note sq = sqrt_isqrt [OF less_imp_le [OF m]]
  let ?la = "nat (bit_length ?ma)"
  have la: "bit_length ?ma = int ?la" "0 < ?la" using bit_length_pos [OF m0] by simp_all
  have "2 ^ (man_w fmt + 3) * 2 ^ (man_w fmt + 3) = (2::int) ^ (2 * man_w fmt + 6)"
    by (simp add: power_add [symmetric])
  also have "\<dots> \<le> 2 ^ (?la - 1 + nat t)"
  proof (rule power_increasing)
    show "2 * man_w fmt + 6 \<le> ?la - 1 + nat t"
      by (rule sqrt_length [OF _ la(2), of "prec fmt"]) (use t0 la in \<open>simp_all add: prec_def\<close>)
  qed simp
  also have "\<dots> = 2 ^ (?la - 1) * 2 ^ nat t" by (simp add: power_add)
  also have "\<dots> \<le> ?m"
    using bit_length_bounds(1) [OF m0] la by (intro mult_right_mono) (simp_all add: nat_diff_distrib)
  finally have rl: "2 ^ (man_w fmt + 3) \<le> ?r" by (intro isqrt_ge) (use m in simp_all)
  then have r: "prec fmt + 3 \<le> bit_length ?r" "0 < ?r"
    using bit_length_ge_pow [OF rl] zero_less_power [of "2::int" "man_w fmt + 3"]
    by (simp add: prec_def, linarith)
  have code: "sqrt_f fmt xa rnd = round_pack fmt 0 (fold_sticky ?r (?r * ?r \<noteq> ?m)) (e div 2 - 1) rnd"
  proof -
    have "e AND 1 = 0" using ev by (simp add: and_one_eq even_iff_mod_2_eq_zero)
    then show ?thesis
      unfolding sqrt_f_def Let_def t1_def [symmetric] t_def [symmetric] push_bit_eq_mult e_def [symmetric]
      using fin rnd s0 r by simp
  qed
  have mf: "0 < fold_sticky ?r (?r * ?r \<noteq> ?m)" using r by (simp add: fold_sticky_eq)
  have "of_int ?m * p2 e = fval fmt xa"
  proof -
    have "2 ^ nat t * p2 e = p2 (u_e ?a)" using t0 by (simp add: e_def p2_diff p2_nat)
    then show ?thesis by (simp add: fval_unpack s0 mult.assoc)
  qed
  then have "sqrt (fval fmt xa) = (of_int ?r + ?f) * p2 (e div 2)"
    using p2_half [OF ev] by (metis add.commute diff_add_cancel real_sqrt_mult)
  then have "round_real fmt rnd 0 (sqrt (fval fmt xa)) =
    round_real fmt rnd 0 (of_int (fold_sticky ?r (?r * ?r \<noteq> ?m)) * p2 (e div 2 - 1))"
    using fold_sticky_round [OF _ r(2) sq(1,2), of fmt rnd 0 "e div 2"] r(1) sq(3) by simp
  then show ?thesis
    unfolding code using round_pack_refines [OF wf mf valid_mode_dir [OF rnd]] by simp
qed

section \<open>Every outcome\<close>

lemma round_real_flags:
  "snd (round_real fmt rnd s x) \<in>
    {0, FLAG_INEXACT, FLAG_INEXACT OR FLAG_UNDERFLOW, FLAG_OVERFLOW OR FLAG_INEXACT}"
  by (auto simp: round_real_def)

lemma round_real_bits:
  assumes wf: "wf_fmt fmt" and x: "0 < x" and s: "s = 0 \<or> s = 1"
  shows "fits fmt (fst (round_real fmt rnd s x))"
    and "mag_of fmt (fst (round_real fmt rnd s x)) \<le> inf_mag fmt"
    and "sgn_of fmt (fst (round_real fmt rnd s x)) = s"
proof -
  obtain mag where mag: "0 \<le> mag" "mag \<le> inf_mag fmt"
    and r: "fst (round_real fmt rnd s x) = pack fmt s mag"
  proof (cases "inf_mag fmt \<le> rmag fmt rnd s x")
    case True
    then show ?thesis using that [of "if overflow_inf rnd s then inf_mag fmt else inf_mag fmt - 1"]
        inf_mag_pos [OF wf] by (auto simp: round_real_def)
  next
    case False
    then show ?thesis using that [of "rmag fmt rnd s x"] rmag_nonneg [OF x, of fmt rnd s]
      by (auto simp: round_real_def)
  qed
  have lt: "mag < mag_lim fmt" using mag(2) inf_mag_less [of fmt] by linarith
  show "fits fmt (fst (round_real fmt rnd s x))"
    and "mag_of fmt (fst (round_real fmt rnd s x)) \<le> inf_mag fmt"
    and "sgn_of fmt (fst (round_real fmt rnd s x)) = s"
    using mag lt s by (simp_all add: r)
qed

text \<open>
  What a caller may rely on in every case: the call returns, the bits fit the format and
  are either no NaN at all or the canonical quiet NaN, and the invalid flag is as told.
\<close>

definition outcome :: "fp_format \<Rightarrow> (int \<times> int) result \<Rightarrow> bool \<Rightarrow> bool \<Rightarrow> bool" where
  "outcome fmt r nan invalid \<longleftrightarrow> (\<exists>bits flags. r = Inr (bits, flags) \<and> fits fmt bits \<and>
    (if nan then bits = qnan_bits fmt else \<not> is_nan fmt bits) \<and>
    (flags AND FLAG_INVALID \<noteq> 0 \<longleftrightarrow> invalid))"

lemma outcome_round_real:
  assumes "wf_fmt fmt" "0 < x" "s = 0 \<or> s = 1"
  shows "outcome fmt (Inr (round_real fmt rnd s x)) False False"
proof -
  obtain b f where e: "round_real fmt rnd s x = (b, f)" by fastforce
  have "f AND FLAG_INVALID = 0"
    using round_real_flags [of fmt rnd s x] by (auto simp: e flag_defs)
  then show ?thesis
    using round_real_bits [OF assms, of rnd] assms(1) by (auto simp: outcome_def e is_nan_mag)
qed

lemma fits_const:
  assumes "wf_fmt fmt"
  shows "fits fmt (qnan_bits fmt)" "is_nan fmt (qnan_bits fmt)"
    and "s = 0 \<or> s = 1 \<Longrightarrow> fits fmt (zero_bits fmt s)" "s = 0 \<or> s = 1 \<Longrightarrow> \<not> is_nan fmt (zero_bits fmt s)"
    and "s = 0 \<or> s = 1 \<Longrightarrow> fits fmt (inf_bits fmt s)" "s = 0 \<or> s = 1 \<Longrightarrow> \<not> is_nan fmt (inf_bits fmt s)"
proof -
  have q: "0 \<le> inf_mag fmt + 2 ^ (man_w fmt - 1)" using inf_mag_pos [OF assms] by simp
  note ql = qnan_bits_pack(2) [OF assms]
  show f: "fits fmt (qnan_bits fmt)" unfolding qnan_bits_pack(1) [OF assms] using q ql
    by (intro fits_pack) simp_all
  show "is_nan fmt (qnan_bits fmt)"
    using mag_of_pack [OF q ql, of 0] is_nan_mag [OF assms f] by (simp add: qnan_bits_eq [OF assms])
  show "s = 0 \<or> s = 1 \<Longrightarrow> fits fmt (zero_bits fmt s)" "s = 0 \<or> s = 1 \<Longrightarrow> fits fmt (inf_bits fmt s)"
    using inf_mag_pos [OF assms] by (simp_all add: packed assms)
  then show "s = 0 \<or> s = 1 \<Longrightarrow> \<not> is_nan fmt (zero_bits fmt s)" "s = 0 \<or> s = 1 \<Longrightarrow> \<not> is_nan fmt (inf_bits fmt s)"
    using inf_mag_pos [OF assms] by (simp_all add: packed assms is_nan_mag)
qed

lemma outcome_const:
  assumes "wf_fmt fmt"
  shows "outcome fmt (Inr (qnan_bits fmt, f)) True (f AND FLAG_INVALID \<noteq> 0)"
    and "s = 0 \<or> s = 1 \<Longrightarrow> outcome fmt (Inr (zero_bits fmt s, f)) False (f AND FLAG_INVALID \<noteq> 0)"
    and "s = 0 \<or> s = 1 \<Longrightarrow> outcome fmt (Inr (inf_bits fmt s, f)) False (f AND FLAG_INVALID \<noteq> 0)"
  using fits_const [OF assms] by (simp_all add: outcome_def)

lemma outcome_nan_result:
  assumes "wf_fmt fmt"
  shows "outcome fmt (Inr (nan_result fmt us)) True (\<exists>u\<in>set us. u_kind u = KNan \<and> signaling u)"
  using fits_const [OF assms] by (auto simp: outcome_def nan_result_def list_ex_iff flag_defs)

lemma cancellation_sign: "zero_sign_for_exact_cancellation rnd = 0 \<or> zero_sign_for_exact_cancellation rnd = 1"
  by (simp add: zero_sign_for_exact_cancellation_def)

lemma outcome_sum_result:
  assumes "wf_fmt fmt" "t = 0 \<or> t = 1"
  shows "outcome fmt (Inr (sum_result fmt rnd s t v)) False False"
proof (cases "v = 0")
  case True
  then show ?thesis using outcome_const(2) [OF assms(1), of _ 0] assms(2) cancellation_sign [of rnd]
    by (simp add: sum_result_def)
next
  case False
  then show ?thesis using outcome_round_real [OF assms(1), of "\<bar>v\<bar>" _ rnd]
    by (simp add: sum_result_def round_signed_def)
qed

definition is_snan :: "fp_format \<Rightarrow> int \<Rightarrow> bool" where
  "is_snan fmt x \<longleftrightarrow> u_kind (unpack fmt x) = KNan \<and> signaling (unpack fmt x)"

definition is_inf :: "fp_format \<Rightarrow> int \<Rightarrow> bool" where
  "is_inf fmt x \<longleftrightarrow> u_kind (unpack fmt x) = KInf"

definition is_zero :: "fp_format \<Rightarrow> int \<Rightarrow> bool" where
  "is_zero fmt x \<longleftrightarrow> u_kind (unpack fmt x) = KZero"

lemma is_nan_kind:
  assumes "wf_fmt fmt" "fits fmt x"
  shows "is_nan fmt x \<longleftrightarrow> u_kind (unpack fmt x) = KNan"
  by (simp add: is_nan_mag [OF assms] u_kind_unpack [OF assms] kind_of_iff [OF assms(1)])

lemma not_finite_kind:
  assumes "wf_fmt fmt" "fits fmt x" "\<not> is_finite fmt x"
  shows "u_kind (unpack fmt x) = KInf \<or> u_kind (unpack fmt x) = KNan"
  using unpack_cases(4) [OF assms(1,2)] assms(3) by blast

lemma fma_outcome:
  assumes wf: "wf_fmt fmt" and f: "fits fmt xa" "fits fmt xb" "fits fmt xc" and rnd: "valid_mode rnd"
  shows "outcome fmt (fma fmt xa xb xc rnd)
    (is_nan fmt xa \<or> is_nan fmt xb \<or> is_nan fmt xc
      \<or> is_inf fmt xa \<and> is_zero fmt xb \<or> is_zero fmt xa \<and> is_inf fmt xb
      \<or> (is_inf fmt xa \<or> is_inf fmt xb) \<and> is_inf fmt xc \<and> sgn_of fmt xc \<noteq> sgn_of fmt xa XOR sgn_of fmt xb)
    (if is_nan fmt xa \<or> is_nan fmt xb \<or> is_nan fmt xc
     then is_snan fmt xa \<or> is_snan fmt xb \<or> is_snan fmt xc
     else is_inf fmt xa \<and> is_zero fmt xb \<or> is_zero fmt xa \<and> is_inf fmt xb
      \<or> (is_inf fmt xa \<or> is_inf fmt xb) \<and> is_inf fmt xc \<and> sgn_of fmt xc \<noteq> sgn_of fmt xa XOR sgn_of fmt xb)"
proof -
  note ca = unpack_cases [OF wf f(1)] and cb = unpack_cases [OF wf f(2)] and cc = unpack_cases [OF wf f(3)]
  note sp = xor_sign [OF fits_sgn [OF f(1)] fits_sgn [OF f(2)], THEN conjunct1]
  note defs = is_nan_kind [OF wf f(1)] is_nan_kind [OF wf f(2)] is_nan_kind [OF wf f(3)]
    is_inf_def is_zero_def is_snan_def
  consider (nan) "is_nan fmt xa \<or> is_nan fmt xb \<or> is_nan fmt xc"
    | (inf) "\<not> (is_nan fmt xa \<or> is_nan fmt xb \<or> is_nan fmt xc)" "is_inf fmt xa \<or> is_inf fmt xb"
    | (addend) "\<not> (is_nan fmt xa \<or> is_nan fmt xb \<or> is_nan fmt xc)" "\<not> (is_inf fmt xa \<or> is_inf fmt xb)"
        "is_inf fmt xc"
    | (fin) "is_finite fmt xa" "is_finite fmt xb" "is_finite fmt xc"
    using not_finite_kind [OF wf f(1)] not_finite_kind [OF wf f(2)] not_finite_kind [OF wf f(3)]
    unfolding defs by blast
  then show ?thesis
  proof cases
    case nan
    then have "fma fmt xa xb xc rnd = Inr (nan_result fmt [unpack fmt xa, unpack fmt xb, unpack fmt xc])"
      using rnd by (simp add: fma_def Let_def defs)
    with nan outcome_nan_result [OF wf, of "[unpack fmt xa, unpack fmt xb, unpack fmt xc]"]
    show ?thesis by (elim disjE) (simp_all add: is_snan_def)
  next
    case inf
    then have "fma fmt xa xb xc rnd =
      (if is_zero fmt xa \<or> is_zero fmt xb \<or> is_inf fmt xc \<and> sgn_of fmt xc \<noteq> sgn_of fmt xa XOR sgn_of fmt xb
       then Inr (qnan_bits fmt, FLAG_INVALID) else Inr (inf_bits fmt (sgn_of fmt xa XOR sgn_of fmt xb), 0))"
      using rnd f wf by (auto simp add: fma_def Let_def defs)
    moreover have "\<not> (is_zero fmt xa \<and> is_inf fmt xa)" "\<not> (is_zero fmt xb \<and> is_inf fmt xb)"
      by (simp_all add: is_zero_def is_inf_def)
    ultimately show ?thesis
      using inf outcome_const(1) [OF wf, of FLAG_INVALID] outcome_const(3) [OF wf sp, of 0]
      by (auto simp: flag_defs)
  next
    case addend
    then have "fma fmt xa xb xc rnd = Inr (inf_bits fmt (sgn_of fmt xc), 0)"
      using rnd f wf by (simp add: fma_def Let_def defs)
    with addend outcome_const(3) [OF wf fits_sgn [OF f(3)], of 0] show ?thesis by simp
  next
    case fin
    then have "\<not> is_nan fmt xa" "\<not> is_nan fmt xb" "\<not> is_nan fmt xc" "\<not> is_inf fmt xa" "\<not> is_inf fmt xb"
      using ca(4) cb(4) cc(4) by (simp_all add: defs)
    with fin outcome_sum_result [OF wf fits_sgn [OF f(3)]] show ?thesis
      by (simp add: fma_finite [OF wf f(1) fin(1) f(2) fin(2) f(3) fin(3) rnd])
  qed
qed

lemma add_outcome:
  assumes wf: "wf_fmt fmt" and f: "fits fmt xa" "fits fmt xb" and rnd: "valid_mode rnd"
  shows "outcome fmt (add fmt xa xb rnd)
    (is_nan fmt xa \<or> is_nan fmt xb \<or> is_inf fmt xa \<and> is_inf fmt xb \<and> sgn_of fmt xb \<noteq> sgn_of fmt xa)
    (if is_nan fmt xa \<or> is_nan fmt xb then is_snan fmt xa \<or> is_snan fmt xb
     else is_inf fmt xa \<and> is_inf fmt xb \<and> sgn_of fmt xb \<noteq> sgn_of fmt xa)"
proof -
  note ca = unpack_cases [OF wf f(1)] and cb = unpack_cases [OF wf f(2)]
  note defs = is_nan_kind [OF wf f(1)] is_nan_kind [OF wf f(2)] is_inf_def is_zero_def is_snan_def
  consider (nan) "is_nan fmt xa \<or> is_nan fmt xb"
    | (inf) "\<not> is_nan fmt xa" "\<not> is_nan fmt xb" "is_inf fmt xa"
    | (inf') "\<not> is_nan fmt xa" "\<not> is_nan fmt xb" "\<not> is_inf fmt xa" "is_inf fmt xb"
    | (fin) "is_finite fmt xa" "is_finite fmt xb"
    using not_finite_kind [OF wf f(1)] not_finite_kind [OF wf f(2)] unfolding defs by blast
  then show ?thesis
  proof cases
    case nan
    then have "add fmt xa xb rnd = Inr (nan_result fmt [unpack fmt xa, unpack fmt xb])"
      using rnd by (simp add: add_def Let_def defs)
    with nan outcome_nan_result [OF wf, of "[unpack fmt xa, unpack fmt xb]"]
    show ?thesis by (elim disjE) (simp_all add: is_snan_def)
  next
    case inf
    then have "add fmt xa xb rnd =
      (if is_inf fmt xb \<and> sgn_of fmt xb \<noteq> sgn_of fmt xa
       then Inr (qnan_bits fmt, FLAG_INVALID) else Inr (inf_bits fmt (sgn_of fmt xa), 0))"
      using rnd f wf by (simp add: add_def Let_def defs)
    then show ?thesis
      using inf outcome_const(1) [OF wf, of FLAG_INVALID] outcome_const(3) [OF wf fits_sgn [OF f(1)], of 0]
      by (auto simp: flag_defs)
  next
    case inf'
    then have "add fmt xa xb rnd = Inr (inf_bits fmt (sgn_of fmt xb), 0)"
      using rnd f wf by (simp add: add_def Let_def defs)
    with inf' outcome_const(3) [OF wf fits_sgn [OF f(2)], of 0] show ?thesis by simp
  next
    case fin
    then have "\<not> is_nan fmt xa" "\<not> is_nan fmt xb" "\<not> is_inf fmt xa"
      using ca(4) cb(4) by (simp_all add: defs)
    with fin outcome_sum_result [OF wf fits_sgn [OF f(2)]] show ?thesis
      by (simp add: add_finite [OF wf f(1) fin(1) f(2) fin(2) rnd])
  qed
qed

lemma mul_outcome:
  assumes wf: "wf_fmt fmt" and f: "fits fmt xa" "fits fmt xb" and rnd: "valid_mode rnd"
  shows "outcome fmt (mul fmt xa xb rnd)
    (is_nan fmt xa \<or> is_nan fmt xb \<or> is_inf fmt xa \<and> is_zero fmt xb \<or> is_zero fmt xa \<and> is_inf fmt xb)
    (if is_nan fmt xa \<or> is_nan fmt xb then is_snan fmt xa \<or> is_snan fmt xb
     else is_inf fmt xa \<and> is_zero fmt xb \<or> is_zero fmt xa \<and> is_inf fmt xb)"
proof -
  note ca = unpack_cases [OF wf f(1)] and cb = unpack_cases [OF wf f(2)]
  note sp = xor_sign [OF fits_sgn [OF f(1)] fits_sgn [OF f(2)], THEN conjunct1]
  note defs = is_nan_kind [OF wf f(1)] is_nan_kind [OF wf f(2)] is_inf_def is_zero_def is_snan_def
  consider (nan) "is_nan fmt xa \<or> is_nan fmt xb"
    | (inf) "\<not> is_nan fmt xa" "\<not> is_nan fmt xb" "is_inf fmt xa \<or> is_inf fmt xb"
    | (fin) "is_finite fmt xa" "is_finite fmt xb"
    using not_finite_kind [OF wf f(1)] not_finite_kind [OF wf f(2)] unfolding defs by blast
  then show ?thesis
  proof cases
    case nan
    then have "mul fmt xa xb rnd = Inr (nan_result fmt [unpack fmt xa, unpack fmt xb])"
      using rnd by (simp add: mul_def Let_def defs)
    with nan outcome_nan_result [OF wf, of "[unpack fmt xa, unpack fmt xb]"]
    show ?thesis by (elim disjE) (simp_all add: is_snan_def)
  next
    case inf
    then have "mul fmt xa xb rnd =
      (if is_zero fmt xa \<or> is_zero fmt xb
       then Inr (qnan_bits fmt, FLAG_INVALID) else Inr (inf_bits fmt (sgn_of fmt xa XOR sgn_of fmt xb), 0))"
      using rnd f wf by (simp add: mul_def Let_def defs)
    moreover have "\<not> (is_zero fmt xa \<and> is_inf fmt xa)" "\<not> (is_zero fmt xb \<and> is_inf fmt xb)"
      by (simp_all add: is_zero_def is_inf_def)
    ultimately show ?thesis
      using inf outcome_const(1) [OF wf, of FLAG_INVALID] outcome_const(3) [OF wf sp, of 0]
      by (auto simp: flag_defs)
  next
    case fin
    then have n: "\<not> is_nan fmt xa" "\<not> is_nan fmt xb" "\<not> is_inf fmt xa" "\<not> is_inf fmt xb"
      using ca(4) cb(4) by (simp_all add: defs)
    show ?thesis
      using fin n outcome_const(2) [OF wf sp, of 0] outcome_round_real [OF wf, of "\<bar>fval fmt xa * fval fmt xb\<bar>" _ rnd]
      by (simp add: mul_finite [OF wf f(1) fin(1) f(2) fin(2) rnd] round_signed_def)
  qed
qed

lemma div_outcome:
  assumes wf: "wf_fmt fmt" and f: "fits fmt xa" "fits fmt xb" and rnd: "valid_mode rnd"
  shows "outcome fmt (div_f fmt xa xb rnd)
    (is_nan fmt xa \<or> is_nan fmt xb \<or> is_inf fmt xa \<and> is_inf fmt xb \<or> is_zero fmt xa \<and> is_zero fmt xb)
    (if is_nan fmt xa \<or> is_nan fmt xb then is_snan fmt xa \<or> is_snan fmt xb
     else is_inf fmt xa \<and> is_inf fmt xb \<or> is_zero fmt xa \<and> is_zero fmt xb)"
proof -
  note ca = unpack_cases [OF wf f(1)] and cb = unpack_cases [OF wf f(2)]
  note sp = xor_sign [OF fits_sgn [OF f(1)] fits_sgn [OF f(2)], THEN conjunct1]
  note defs = is_nan_kind [OF wf f(1)] is_nan_kind [OF wf f(2)] is_inf_def is_zero_def is_snan_def
  consider (nan) "is_nan fmt xa \<or> is_nan fmt xb"
    | (special) "\<not> is_nan fmt xa" "\<not> is_nan fmt xb" "is_inf fmt xa \<or> is_inf fmt xb \<or> is_zero fmt xa \<or> is_zero fmt xb"
    | (fin) "is_finite fmt xa" "is_finite fmt xb" "\<not> is_zero fmt xa" "\<not> is_zero fmt xb"
    using not_finite_kind [OF wf f(1)] not_finite_kind [OF wf f(2)] unfolding defs by blast
  then show ?thesis
  proof cases
    case nan
    then have "div_f fmt xa xb rnd = Inr (nan_result fmt [unpack fmt xa, unpack fmt xb])"
      using rnd by (simp add: div_f_def Let_def defs)
    with nan outcome_nan_result [OF wf, of "[unpack fmt xa, unpack fmt xb]"]
    show ?thesis by (elim disjE) (simp_all add: is_snan_def)
  next
    case special
    let ?s = "sgn_of fmt xa XOR sgn_of fmt xb"
    have ex: "\<not> (is_zero fmt xa \<and> is_inf fmt xa)" "\<not> (is_zero fmt xb \<and> is_inf fmt xb)"
      by (simp_all add: is_zero_def is_inf_def)
    have "div_f fmt xa xb rnd =
      (if is_inf fmt xa \<and> is_inf fmt xb \<or> is_zero fmt xa \<and> is_zero fmt xb
       then Inr (qnan_bits fmt, FLAG_INVALID)
       else if is_inf fmt xa then Inr (inf_bits fmt ?s, 0)
       else if is_zero fmt xb then Inr (inf_bits fmt ?s, FLAG_DIVZERO)
       else Inr (zero_bits fmt ?s, 0))"
      using special(3) special(1,2) rnd f wf unfolding div_f_def Let_def defs
      by (elim disjE) simp_all
    with special(1,2) ex show ?thesis
      using outcome_const(1) [OF wf, of FLAG_INVALID] outcome_const(2,3) [OF wf sp, of 0]
        outcome_const(3) [OF wf sp, of FLAG_DIVZERO]
      by (auto simp: flag_defs)
  next
    case fin
    then have n: "\<not> is_nan fmt xa" "\<not> is_nan fmt xb" "\<not> is_inf fmt xa" "\<not> is_inf fmt xb"
      using ca(4) cb(4) by (simp_all add: defs)
    have nz: "fval fmt xa \<noteq> 0" "fval fmt xb \<noteq> 0"
      using fin ca(2) cb(2) by (simp_all add: is_zero_def)
    show ?thesis
      using fin n nz outcome_round_real [OF wf, of "\<bar>fval fmt xa / fval fmt xb\<bar>" _ rnd]
      by (simp add: div_finite [OF wf f(1) fin(1) f(2) fin(2) rnd nz] round_signed_def)
  qed
qed

lemma sqrt_outcome:
  assumes wf: "wf_fmt fmt" and f: "fits fmt xa" and rnd: "valid_mode rnd"
  shows "outcome fmt (sqrt_f fmt xa rnd)
    (is_nan fmt xa \<or> sgn_of fmt xa = 1 \<and> \<not> is_zero fmt xa)
    (if is_nan fmt xa then is_snan fmt xa else sgn_of fmt xa = 1 \<and> \<not> is_zero fmt xa)"
proof -
  note ca = unpack_cases [OF wf f]
  note defs = is_nan_kind [OF wf f] is_inf_def is_zero_def is_snan_def
  consider (nan) "is_nan fmt xa" | (keep) "\<not> is_nan fmt xa" "is_zero fmt xa \<or> sgn_of fmt xa = 0 \<and> is_inf fmt xa"
    | (neg) "\<not> is_nan fmt xa" "\<not> is_zero fmt xa" "sgn_of fmt xa = 1"
    | (fin) "is_finite fmt xa" "\<not> is_zero fmt xa" "sgn_of fmt xa = 0"
    using not_finite_kind [OF wf f] fits_sgn [OF f] unfolding defs by blast
  then show ?thesis
  proof cases
    case nan
    then have "sqrt_f fmt xa rnd = Inr (nan_result fmt [unpack fmt xa])"
      using rnd by (simp add: sqrt_f_def Let_def defs)
    with nan outcome_nan_result [OF wf, of "[unpack fmt xa]"]
    show ?thesis by (simp add: is_snan_def)
  next
    case keep
    then have "sqrt_f fmt xa rnd = Inr (xa, 0)" "\<not> (sgn_of fmt xa = 1 \<and> \<not> is_zero fmt xa)"
      using rnd f wf by (auto simp: sqrt_f_def Let_def defs)
    with keep f show ?thesis by (auto simp: outcome_def)
  next
    case neg
    then have "sqrt_f fmt xa rnd = Inr (qnan_bits fmt, FLAG_INVALID)"
      using rnd f wf by (simp add: sqrt_f_def Let_def defs)
    with neg outcome_const(1) [OF wf, of FLAG_INVALID] show ?thesis by (simp add: flag_defs)
  next
    case fin
    then have pos: "0 < fval fmt xa"
      using ca(2) fval_eq [OF wf f fin(1)] mag_val_nonneg [OF mag_bounds(1) [of fmt xa], of fmt]
      by (simp add: is_zero_def less_le)
    have "\<not> is_nan fmt xa" using fin ca(4) by (simp add: defs)
    with fin pos outcome_round_real [OF wf, of "sqrt (fval fmt xa)" 0 rnd] show ?thesis
      by (simp add: sqrt_finite [OF wf f fin(1) rnd pos])
  qed
qed

end
