(* ===== verification/Seeds.thy ===== *)
theory Seeds
  imports Arith
begin

text \<open>
  The seed operations of \<^verbatim>\<open>python/cft_golden/softfloat.py\<close>: the two 512-entry tables
  (defined by exact integer arithmetic), \<open>recip_seed\<close> and \<open>rsqrt_seed\<close>. The lemmas give the
  range of the table entries, that each is the nearest integer to what it approximates, and
  the error bound the composed divide and square root start from.
\<close>

section \<open>The code\<close>

definition SEED_INDEX_BITS :: nat where "SEED_INDEX_BITS = 9"
definition SEED_TABLE_SIZE :: int where "SEED_TABLE_SIZE = push_bit SEED_INDEX_BITS 1"

definition seed_recip_entry :: "int \<Rightarrow> int" where
  "seed_recip_entry i =
    (let num = push_bit (18 + 10) 1;
         den = push_bit 10 1 + push_bit 1 i + 1;
         q = num div den;
         r = num mod den
     in if den < 2 * r \<or> 2 * r = den \<and> truthy (q AND 1) then q + 1 else q)"

text \<open>The \<open>while\<close> loop of \<open>_seed_rsqrt_entry\<close>: raise \<open>q\<close> while its successor still fits.\<close>

function seed_rsqrt_climb :: "int \<Rightarrow> int \<Rightarrow> int \<Rightarrow> int" where
  "seed_rsqrt_climb m2 target q =
    (if 0 < m2 \<and> 0 \<le> q \<and> (q + 1) * (q + 1) * m2 \<le> target
     then seed_rsqrt_climb m2 target (q + 1) else q)"
  by pat_completeness auto
termination
proof (relation "measure (\<lambda>(m2, target, q). nat (target + 1 - q))", simp)
  fix m2 target q :: int
  assume a: "0 < m2 \<and> 0 \<le> q \<and> (q + 1) * (q + 1) * m2 \<le> target"
  then have "(q + 1) * 1 \<le> (q + 1) * ((q + 1) * m2)"
    by (intro mult_left_mono) (use zero_less_mult_iff [of "q + 1" m2] in \<open>auto simp: int_one_le_iff_zero_less\<close>)
  then have "q + 1 \<le> (q + 1) * (q + 1) * m2" by (simp only: mult_1_right mult.assoc)
  with a have "q + 1 \<le> target" by linarith
  then show "((m2, target, q + 1), m2, target, q) \<in> measure (\<lambda>(m2, target, q). nat (target + 1 - q))"
    by simp
qed

declare seed_rsqrt_climb.simps [simp del]

definition seed_rsqrt_entry :: "int \<Rightarrow> int" where
  "seed_rsqrt_entry j =
    (let odd = drop_bit SEED_INDEX_BITS j;
         i = j AND (SEED_TABLE_SIZE - 1);
         m2 = push_bit (nat odd) (push_bit 10 1 + push_bit 1 i + 1);
         target = push_bit 44 1;
         q = seed_rsqrt_climb m2 target (isqrt (target div m2))
     in if (2 * q + 1) * (2 * q + 1) * m2 < push_bit 46 1 then q + 1 else q)"

definition seed_pack :: "fp_format \<Rightarrow> int \<Rightarrow> int \<Rightarrow> int \<Rightarrow> int result" where
  "seed_pack fmt sign m e = bind_r (round_pack fmt sign m e RND_RNE) (\<lambda>(bits, _). Inr bits)"

definition recip_seed :: "fp_format \<Rightarrow> int \<Rightarrow> (int \<times> int) result" where
  "recip_seed fmt xa =
    (let ua = unpack fmt xa
     in if u_kind ua = KNan then Inr (qnan_bits fmt, 0)
     else if u_kind ua = KInf then Inr (zero_bits fmt (u_sign ua), 0)
     else let biased = drop_bit (man_w fmt) xa AND exp_mask fmt
     in if biased = 0 then Inr (inf_bits fmt (u_sign ua), 0)
     else let E = biased - bias fmt;
              i = drop_bit (man_w fmt - SEED_INDEX_BITS) xa AND (SEED_TABLE_SIZE - 1);
              r = seed_recip_entry i;
              e_out = - E - 18
     in if emax fmt < e_out + bit_length r - 1 then Inr (inf_bits fmt (u_sign ua), 0)
     else bind_r (seed_pack fmt (u_sign ua) r e_out) (\<lambda>bits. Inr (bits, 0)))"

definition rsqrt_seed :: "fp_format \<Rightarrow> int \<Rightarrow> (int \<times> int) result" where
  "rsqrt_seed fmt xa =
    (let ua = unpack fmt xa
     in if u_kind ua = KNan then Inr (qnan_bits fmt, 0)
     else let biased = drop_bit (man_w fmt) xa AND exp_mask fmt
     in if biased = 0 then Inr (inf_bits fmt (u_sign ua), 0)
     else if truthy (u_sign ua) then Inr (qnan_bits fmt, 0)
     else if u_kind ua = KInf then Inr (zero_bits fmt 0, 0)
     else let E = biased - bias fmt;
              i = drop_bit (man_w fmt - SEED_INDEX_BITS) xa AND (SEED_TABLE_SIZE - 1);
              odd = E AND 1;
              r = seed_rsqrt_entry (push_bit SEED_INDEX_BITS odd OR i);
              e_out = - ((E - odd) div 2) - 17
     in bind_r (seed_pack fmt 0 r e_out) (\<lambda>bits. Inr (bits, 0)))"

section \<open>The tables\<close>

lemma seed_size [simp]: "SEED_TABLE_SIZE = 512"
  by (simp add: SEED_TABLE_SIZE_def SEED_INDEX_BITS_def)

lemma nearest_up: "x = a + d \<Longrightarrow> d \<le> 2 * r \<Longrightarrow> a + r = n \<Longrightarrow> r < d \<Longrightarrow> \<bar>2 * (x - n)\<bar> \<le> d" for x :: int
  by (simp add: abs_le_iff)

lemma nearest_down: "x = a \<Longrightarrow> 2 * r \<le> d \<Longrightarrow> a + r = n \<Longrightarrow> 0 \<le> r \<Longrightarrow> \<bar>2 * (x - n)\<bar> \<le> d"
  for x :: int
  by (simp add: abs_le_iff)

text \<open>Each entry of the reciprocal table is the nearest integer to \<open>2\<^sup>2\<^sup>8 / den\<close>.\<close>

lemma seed_recip_nearest:
  assumes "0 \<le> i" "i < 512"
  shows "\<bar>2 * (seed_recip_entry i * (1025 + 2 * i) - 2 ^ 28)\<bar> \<le> 1025 + 2 * i"
    and "2 ^ 17 < seed_recip_entry i" "seed_recip_entry i < 2 ^ 18"
proof -
  let ?d = "1025 + 2 * i" let ?q = "2 ^ 28 div ?d" and ?r = "2 ^ 28 mod ?d"
  have d: "push_bit 10 1 + push_bit 1 i + 1 = ?d" by (simp add: push_bit_eq_mult)
  have qr: "?q * ?d + ?r = 2 ^ 28" by (rule div_mult_mod_eq)
  have r: "0 \<le> ?r" "?r < ?d" using assms by simp_all
  have e: "seed_recip_entry i = (if ?d < 2 * ?r \<or> 2 * ?r = ?d \<and> truthy (?q AND 1) then ?q + 1 else ?q)"
    unfolding seed_recip_entry_def Let_def d by (simp add: push_bit_eq_mult)
  show n: "\<bar>2 * (seed_recip_entry i * ?d - 2 ^ 28)\<bar> \<le> ?d"
  proof (cases "?d < 2 * ?r \<or> 2 * ?r = ?d \<and> truthy (?q AND 1)")
    case True
    then have "seed_recip_entry i * ?d = ?q * ?d + ?d" unfolding e by (simp add: distrib_right)
    moreover have "?d \<le> 2 * ?r" using True by auto
    ultimately show ?thesis using nearest_up qr r by blast
  next
    case False
    then have "seed_recip_entry i * ?d = ?q * ?d" unfolding e by (simp only: if_False)
    moreover have "2 * ?r \<le> ?d" using False by (simp only: de_Morgan_disj not_less)
    ultimately show ?thesis using nearest_down qr r by blast
  qed
  show "2 ^ 17 < seed_recip_entry i"
  proof (rule ccontr)
    assume "\<not> 2 ^ 17 < seed_recip_entry i"
    then have "seed_recip_entry i * ?d \<le> 2 ^ 17 * ?d" using assms by (intro mult_right_mono) auto
    with n assms show False by simp
  qed
  show "seed_recip_entry i < 2 ^ 18"
  proof (rule ccontr)
    assume "\<not> seed_recip_entry i < 2 ^ 18"
    then have "2 ^ 18 * ?d \<le> seed_recip_entry i * ?d" using assms by (intro mult_right_mono) auto
    with n assms show False by simp
  qed
qed

text \<open>The loop stops at the floor of the square root of \<open>target / m2\<close>.\<close>

lemma seed_rsqrt_climb_floor:
  assumes "0 < m2" "0 \<le> q" "q * q * m2 \<le> target"
  shows "q \<le> seed_rsqrt_climb m2 target q"
    and "seed_rsqrt_climb m2 target q * seed_rsqrt_climb m2 target q * m2 \<le> target"
    and "target < (seed_rsqrt_climb m2 target q + 1) * (seed_rsqrt_climb m2 target q + 1) * m2"
  using assms
proof (induction m2 target q rule: seed_rsqrt_climb.induct)
  case (1 m2 target q)
  {
    case 1
    then show ?case using "1.IH"(1) by (subst seed_rsqrt_climb.simps) auto
  next
    case 2
    then show ?case using "1.IH"(2) by (subst (1 2) seed_rsqrt_climb.simps) auto
  next
    case 3
    then show ?case using "1.IH"(3) by (subst (1 2) seed_rsqrt_climb.simps) auto
  }
qed

lemma seed_rsqrt_nearest:
  assumes "0 \<le> i" "i < 512" "od = 0 \<or> od = (1::int)"
  defines "m2 \<equiv> (1025 + 2 * i) * 2 ^ nat od" and "r \<equiv> seed_rsqrt_entry (od * 512 + i)"
  shows "(2 * r - 1) * (2 * r - 1) * m2 \<le> 2 ^ 46" "2 ^ 46 \<le> (2 * r + 1) * (2 * r + 1) * m2"
    and "2 ^ 16 < r" "r < 2 ^ 17"
proof -
  have m2: "1025 \<le> m2" "m2 \<le> 4094" "0 < m2" using assms(1-3) by (auto simp: m2_def)
  have j: "drop_bit SEED_INDEX_BITS (od * 512 + i) = od" "(od * 512 + i) AND (SEED_TABLE_SIZE - 1) = i"
    using assms(1-3) and_exp_minus_1 [of "od * 512 + i" 9]
    by (auto simp: SEED_INDEX_BITS_def drop_bit_eq_div)
  have m: "push_bit (nat od) (push_bit 10 1 + push_bit 1 i + 1) = m2"
    using assms(3) by (auto simp: m2_def push_bit_eq_mult)
  define q0 where "q0 = isqrt (2 ^ 44 div m2)"
  have t0: "0 \<le> 2 ^ 44 div m2" using m2 by (simp add: pos_imp_zdiv_nonneg_iff)
  have "q0 * q0 \<le> 2 ^ 44 div m2" "0 \<le> q0" using isqrt_bounds [OF t0] by (simp_all add: q0_def)
  then have q0: "0 \<le> q0" "q0 * q0 * m2 \<le> 2 ^ 44" using div_le_iff_pos [OF m2(3)] by blast+
  define q where "q = seed_rsqrt_climb m2 (2 ^ 44) q0"
  note fl = seed_rsqrt_climb_floor [OF m2(3) q0, folded q_def]
  have r: "r = (if (2 * q + 1) * (2 * q + 1) * m2 < 2 ^ 46 then q + 1 else q)"
    unfolding r_def seed_rsqrt_entry_def Let_def j m
    by (simp add: q_def q0_def push_bit_eq_mult)
  have q1: "0 \<le> q" using fl(1) q0 by simp
  have qm: "0 \<le> q * m2" using q1 m2 by simp
  have sq: "(2 * k - 1) * (2 * k - 1) * m2 = 4 * (k * k * m2) - 4 * (k * m2) + m2"
    "(2 * k + 1) * (2 * k + 1) * m2 = 4 * (k * k * m2) + 4 * (k * m2) + m2"
    "(k + 1) * (k + 1) * m2 = k * k * m2 + 2 * (k * m2) + m2" for k
    by (simp_all add: algebra_simps)
  have qpos: "2 ^ 16 \<le> q"
  proof (rule ccontr)
    assume "\<not> 2 ^ 16 \<le> q"
    then have sq2: "(q + 1) * (q + 1) \<le> 2 ^ 16 * 2 ^ 16" using q1 by (intro mult_mono) auto
    have "(q + 1) * (q + 1) * m2 \<le> 2 ^ 16 * 2 ^ 16 * 4094"
      by (rule mult_mono [OF sq2 m2(2)]) (use m2 in simp_all)
    from order.strict_trans2 [OF fl(3) this] show False by simp
  qed
  have mq: "m2 \<le> q * m2" using qpos m2 by simp
  show lo: "(2 * r - 1) * (2 * r - 1) * m2 \<le> 2 ^ 46"
    using fl(2) mq sq(2) [of q] qm unfolding r by (auto simp: sq algebra_simps)
  show up: "2 ^ 46 \<le> (2 * r + 1) * (2 * r + 1) * m2"
    using fl(3) qm m2 unfolding r by (auto simp: sq algebra_simps)
  have r1: "0 \<le> r" using q1 r by simp
  show "2 ^ 16 < r"
  proof (rule ccontr)
    assume "\<not> 2 ^ 16 < r"
    then have sq2: "(2 * r + 1) * (2 * r + 1) \<le> 131073 * 131073" using r1 by (intro mult_mono) auto
    have "(2 * r + 1) * (2 * r + 1) * m2 \<le> 131073 * 131073 * 4094"
      by (rule mult_mono [OF sq2 m2(2)]) (use m2 in simp_all)
    from order.trans [OF up this] show False by simp
  qed
  show "r < 2 ^ 17"
  proof (rule ccontr)
    assume "\<not> r < 2 ^ 17"
    then have sq2: "262143 * 262143 \<le> (2 * r - 1) * (2 * r - 1)" by (intro mult_mono) auto
    have "262143 * 262143 * 1025 \<le> (2 * r - 1) * (2 * r - 1) * m2"
      by (rule mult_mono [OF sq2 m2(1)]) simp_all
    from order.trans [OF this lo] show False by simp
  qed
qed

section \<open>The error bound\<close>

lemma pow_split_9: "9 < n \<Longrightarrow> (2::'a::comm_semiring_1) ^ n = 2 ^ (n - 9) * 512"
  using power_add [of "2::'a" "n - 9" 9] by simp

lemma abs_half: "\<bar>2 * y\<bar> \<le> d \<Longrightarrow> \<bar>y\<bar> \<le> d / 2" for y :: real
  by linarith

lemma abs_sum_le: "x = y + z \<Longrightarrow> \<bar>y\<bar> \<le> a \<Longrightarrow> \<bar>z\<bar> \<le> b \<Longrightarrow> \<bar>x\<bar> \<le> a + b" for x :: real
  by linarith

text \<open>The fields of a normal operand, as the seeds read them.\<close>

lemma seed_fields:
  assumes wf: "wf_fmt fmt" and n: "9 < man_w fmt" and x: "fits fmt xa"
    and norm: "u_kind (unpack fmt xa) = KNorm"
  obtains E i X where
    "drop_bit (man_w fmt) xa AND exp_mask fmt = E + bias fmt" "0 < E + bias fmt" "emin fmt \<le> E" "E \<le> emax fmt"
    "drop_bit (man_w fmt - SEED_INDEX_BITS) xa AND (SEED_TABLE_SIZE - 1) = i" "0 \<le> i" "i < 512"
    "fval fmt xa = sg (sgn_of fmt xa) * (X * p2 E)" "1 + of_int i / 512 \<le> X" "X < 1 + (of_int i + 1) / 512"
proof -
  let ?m = "mag_of fmt xa" let ?n = "man_w fmt"
  have mag: "2 ^ ?n \<le> ?m" "?m < inf_mag fmt"
    using norm kind_of_iff(3) [OF wf mag_bounds(1) [of fmt xa]] by (simp_all add: u_kind_unpack [OF wf x])
  define b where "b = ?m div 2 ^ ?n"
  define fr where "fr = ?m mod 2 ^ ?n"
  have bf: "?m = b * 2 ^ ?n + fr" "0 \<le> fr" "fr < 2 ^ ?n"
    unfolding b_def fr_def by (rule div_mult_mod_eq [symmetric]) simp_all
  have b1: "1 \<le> b" using mag(1) by (simp add: b_def div_exp_le_iff)
  have b2: "b < exp_mask fmt" using mag(2) by (simp add: b_def div_exp_less_iff inf_mag_def)
  have rb: "drop_bit ?n xa AND exp_mask fmt = b"
    using raw_fields(2) [OF mag_bounds(1) [of fmt xa] mag_bounds(2) fits_sgn [OF x]] by (simp add: pack_fields b_def)
  define i where "i = fr div 2 ^ (?n - 9)"
  have pn: "(2::int) ^ ?n = 2 ^ (?n - 9) * 512" by (rule pow_split_9 [OF n])
  have i: "0 \<le> i" "i < 512" using bf(2,3) pn by (simp_all add: i_def div_exp_less_iff mult.commute)
  have ri: "drop_bit (?n - SEED_INDEX_BITS) xa AND (SEED_TABLE_SIZE - 1) = i"
  proof -
    define K where "K = sgn_of fmt xa * 2 ^ exp_w fmt + b"
    define k where "k = K * 512"
    have "xa = (sgn_of fmt xa * 2 ^ exp_w fmt + b) * 2 ^ ?n + fr"
      using pack_fields [of fmt xa] bf(1) by (simp add: pack_def power_add algebra_simps)
    then have xe: "xa = fr + k * 2 ^ (?n - 9)" by (simp add: k_def K_def pn algebra_simps)
    have "xa div 2 ^ (?n - 9) = (fr + k * 2 ^ (?n - 9)) div 2 ^ (?n - 9)"
      by (rule arg_cong [OF xe])
    also have "\<dots> = k + i" by (simp add: i_def)
    finally have "xa div 2 ^ (?n - 9) = K * 512 + i"
      by (simp only: k_def)
    then show ?thesis
      using i and_exp_minus_1 [of "xa div 2 ^ (?n - 9)" 9] by (simp add: drop_bit_eq_div SEED_INDEX_BITS_def)
  qed
  define X where "X = 1 + of_int fr / (2 ^ ?n :: real)"
  have fv: "fval fmt xa = sg (sgn_of fmt xa) * (X * p2 (b - bias fmt))"
  proof -
    have "mag_val fmt ?m = of_int (2 ^ ?n + fr) * p2 (b - bias fmt - int ?n)"
      using mag(1) by (simp add: mag_val_def sig_of_def exp_of_def b_def [symmetric] fr_def [symmetric]
          qmin_def emin_def algebra_simps)
    also have "\<dots> = X * p2 (b - bias fmt)"
      by (simp add: X_def p2_diff [of _ "int ?n"] add_divide_distrib distrib_right)
    finally show ?thesis using fval_eq [OF wf x] mag(2) by (simp add: is_finite_def)
  qed
  have "i * 2 ^ (?n - 9) \<le> fr" "fr < (i + 1) * 2 ^ (?n - 9)"
    using div_exp_le_iff [where k = i and x = fr and n = "?n - 9"]
      div_exp_less_iff [where k = "i + 1" and x = fr and n = "?n - 9"] by (simp_all add: i_def)
  then have "of_int (i * 2 ^ (?n - 9)) \<le> (of_int fr :: real)" "(of_int fr :: real) < of_int ((i + 1) * 2 ^ (?n - 9))"
    by (simp_all only: of_int_le_iff of_int_less_iff)
  moreover have "(2::real) ^ ?n = 2 ^ (?n - 9) * 512" by (rule pow_split_9 [OF n])
  ultimately have "of_int i / 512 \<le> (of_int fr / 2 ^ ?n :: real)" "of_int fr / 2 ^ ?n < ((of_int i + 1) / 512 :: real)"
    by (simp_all add: field_simps)
  then have X: "1 + of_int i / 512 \<le> X" "X < 1 + (of_int i + 1) / 512" by (simp_all add: X_def)
  show ?thesis
    by (rule that [of "b - bias fmt" i X])
       (use rb ri i X fv b1 b2 exp_mask_bias [OF wf] in \<open>simp_all add: emin_def emax_def\<close>)
qed

lemma seed_pack_exact:
  assumes wf: "wf_fmt fmt" and r: "0 < r" "r \<le> 2 ^ Suc (man_w fmt)" and s: "s = 0 \<or> s = 1"
    and e: "qmin fmt \<le> e" "of_int r * p2 e < p2 (emax fmt + 1)"
  obtains bits where "seed_pack fmt s r e = Inr bits" "fits fmt bits" "is_finite fmt bits"
    "fval fmt bits = sg s * (of_int r * p2 e)"
proof -
  obtain mag where mag: "0 < mag" "mag < inf_mag fmt" "mag_val fmt mag = of_int r * p2 e"
    by (rule representable [OF wf r e])
  have lt: "mag < mag_lim fmt" using mag(2) inf_mag_less [of fmt] by linarith
  show ?thesis
  proof (rule that [of "pack fmt s mag"])
    show "seed_pack fmt s r e = Inr (pack fmt s mag)"
      using round_pack_refines [OF wf r(1), of RND_RNE s e] round_real_exact [OF mag(1,2), of RND_RNE s]
      by (simp add: seed_pack_def mag(3))
    show "fits fmt (pack fmt s mag)" "is_finite fmt (pack fmt s mag)"
      using s mag lt by (simp_all add: is_finite_def)
    show "fval fmt (pack fmt s mag) = sg s * (of_int r * p2 e)"
      using fval_pack [OF wf s _ mag(2)] mag(1,3) by simp
  qed
qed

lemma recip_relative_error:
  fixes X :: real
  assumes i: "0 \<le> i" "i < 512" and X: "1 + of_int i / 512 \<le> X" "X < 1 + (of_int i + 1) / 512"
  shows "\<bar>of_int (seed_recip_entry i) / 2 ^ 18 * X - 1\<bar> < 1 / 512"
proof -
  let ?d = "of_int (1025 + 2 * i) :: real" let ?r = "of_int (seed_recip_entry i) :: real"
  have d: "1025 \<le> ?d" using i by simp
  have "\<bar>of_int (2 * (seed_recip_entry i * (1025 + 2 * i) - 2 ^ 28))\<bar> \<le> ?d"
    using seed_recip_nearest(1) [OF i] by (simp only: of_int_abs [symmetric] of_int_le_iff)
  then have n: "\<bar>?r * ?d - 2 ^ 28\<bar> \<le> ?d / 2"
    by (intro abs_half) (simp only: of_int_mult of_int_diff of_int_power of_int_numeral)
  have r: "0 \<le> ?r" "?r \<le> 2 ^ 18" using seed_recip_nearest(2,3) [OF i] by simp_all
  have "1024 + 2 * of_int i \<le> 1024 * X" "1024 * X \<le> 1026 + 2 * of_int i" using X by (simp_all add: field_simps)
  then have "\<bar>1024 * X - ?d\<bar> \<le> 1" by (simp add: abs_le_iff)
  then have "?r * \<bar>1024 * X - ?d\<bar> \<le> 2 ^ 18 * 1" using r by (intro mult_mono) auto
  then have e: "\<bar>?r * (1024 * X - ?d)\<bar> \<le> 2 ^ 18" using r by (simp add: abs_mult)
  have "?r * (1024 * X) - 2 ^ 28 = (?r * ?d - 2 ^ 28) + ?r * (1024 * X - ?d)" by (simp add: algebra_simps)
  note abs_sum_le [OF this n e]
  also have "?d / 2 + 2 ^ 18 \<le> 2 ^ 18 + 2047 / 2" using i by simp
  finally have "\<bar>?r * (1024 * X) - 2 ^ 28\<bar> \<le> 2 ^ 18 + 2047 / 2" .
  then have "\<bar>?r * (1024 * X) - 2 ^ 28\<bar> / 2 ^ 28 \<le> (2 ^ 18 + 2047 / 2) / 2 ^ 28"
    by (rule divide_right_mono) simp
  also have "\<dots> < 1 / 512" by simp
  also have "\<bar>?r * (1024 * X) - 2 ^ 28\<bar> / 2 ^ 28 = \<bar>(?r * (1024 * X) - 2 ^ 28) / 2 ^ 28\<bar>"
    by (simp add: abs_divide)
  also have "(?r * (1024 * X) - 2 ^ 28) / 2 ^ 28 = ?r / 2 ^ 18 * X - 1" by simp
  finally show ?thesis .
qed

lemma recip_seed_bound:
  assumes wf: "wf_fmt fmt" and n: "19 < man_w fmt" and x: "fits fmt xa" "u_kind (unpack fmt xa) = KNorm"
  shows "\<exists>bits. recip_seed fmt xa = Inr (bits, 0) \<and> fits fmt bits \<and> is_finite fmt bits \<and>
    \<bar>fval fmt bits * fval fmt xa - 1\<bar> < 1 / 512"
proof -
  have n9: "9 < man_w fmt" using n by simp
  obtain E i X where f: "drop_bit (man_w fmt) xa AND exp_mask fmt = E + bias fmt" "0 < E + bias fmt"
      "emin fmt \<le> E" "E \<le> emax fmt"
    and i: "drop_bit (man_w fmt - SEED_INDEX_BITS) xa AND (SEED_TABLE_SIZE - 1) = i" "0 \<le> i" "i < 512"
    and v: "fval fmt xa = sg (sgn_of fmt xa) * (X * p2 E)" "1 + of_int i / 512 \<le> X" "X < 1 + (of_int i + 1) / 512"
    by (rule seed_fields [OF wf n9 x])
  let ?r = "seed_recip_entry i" let ?s = "sgn_of fmt xa"
  note r = seed_recip_nearest(2,3) [OF i(2,3)]
  have r0: "0 < ?r" using r by simp
  have "?r \<le> 2 ^ 18" using r by simp
  also have "(2::int) ^ 18 \<le> 2 ^ Suc (man_w fmt)" using n by (intro power_increasing) simp_all
  finally have rm: "?r \<le> 2 ^ Suc (man_w fmt)" .
  have bl: "bit_length ?r = 18" using bit_length_eq_iff [OF r0, of 17] r by simp
  have hi: "of_int ?r * p2 (- E - 18) < p2 (emax fmt + 1)"
  proof -
    have "of_int ?r * p2 (- E - 18) \<le> 2 ^ 18 * p2 (- E - 18)" using r by (intro mult_right_mono) simp_all
    also have "\<dots> = p2 (- E)" by (simp add: p2_diff [of "- E" 18] del: power_int_minus)
    also have "\<dots> < p2 (emax fmt + 1)" using f(3) by (subst p2_less_iff) (simp add: emin_def emax_def)
    finally show ?thesis .
  qed
  have e: "qmin fmt \<le> - E - 18" using f(4) n by (simp add: qmin_def emin_def emax_def)
  obtain bits where b: "seed_pack fmt ?s ?r (- E - 18) = Inr bits" "fits fmt bits" "is_finite fmt bits"
    "fval fmt bits = sg ?s * (of_int ?r * p2 (- E - 18))"
    by (rule seed_pack_exact [OF wf r0 rm fits_sgn [OF x(1)] e hi])
  have "recip_seed fmt xa = Inr (bits, 0)"
    using x f i(1) bl wf b(1) by (simp add: recip_seed_def Let_def emin_def emax_def)
  moreover have v2: "fval fmt bits * fval fmt xa = of_int ?r / 2 ^ 18 * X"
  proof -
    have "p2 (- E - 18) * p2 E = p2 (- 18)" using p2_add [of "- E - 18" E] by simp
    then have pe: "p2 (- E - 18) * p2 E = 1 / 2 ^ 18" by (simp add: power_int_minus)
    have "fval fmt bits * fval fmt xa = (sg ?s * sg ?s) * (of_int ?r * X * (p2 (- E - 18) * p2 E))"
      unfolding b(4) v(1) by (simp only: mult_ac)
    then show ?thesis by (simp only: pe sg_simps) simp
  qed
  ultimately show ?thesis
    using b(2,3) recip_relative_error [OF i(2,3) v(2,3)] by (intro exI [of _ bits] conjI) (simp_all only: v2)
qed

text \<open>The square root seed: \<open>X\<close> carries the operand's fraction and exponent parity.\<close>

lemma rsqrt_relative_error:
  fixes X :: real
  assumes i: "0 \<le> i" "i < 512" and od: "od = 0 \<or> od = (1::int)"
    and X: "1 + of_int i / 512 \<le> X" "X < 1 + (of_int i + 1) / 512"
  shows "\<bar>of_int (seed_rsqrt_entry (od * 512 + i)) / 2 ^ 17 * sqrt (X * 2 ^ nat od) - 1\<bar> < 1 / 512"
proof -
  let ?r = "of_int (seed_rsqrt_entry (od * 512 + i)) :: real"
  define c :: real where "c = 2 ^ nat od"
  define M :: real where "M = (1025 + 2 * of_int i) * c"
  note near = seed_rsqrt_nearest [OF i od]
  have c: "1 \<le> c" "c \<le> 2" using od by (auto simp: c_def)
  have Mi: "M = of_int ((1025 + 2 * i) * 2 ^ nat od)" by (simp add: M_def c_def)
  have r: "2 ^ 16 < ?r" "?r < 2 ^ 17"
    using near(3,4) by (simp_all only: of_int_less_iff [symmetric, where 'a = real] of_int_power of_int_numeral)
  have lo: "(2 * ?r - 1) * (2 * ?r - 1) * M \<le> 2 ^ 46"
    using near(1) unfolding Mi by (simp only: of_int_le_iff [symmetric, where 'a = real] of_int_mult of_int_diff
      of_int_add of_int_power of_int_numeral of_int_1)
  have hi: "2 ^ 46 \<le> (2 * ?r + 1) * (2 * ?r + 1) * M"
    using near(2) unfolding Mi by (simp only: of_int_le_iff [symmetric, where 'a = real] of_int_mult of_int_diff
      of_int_add of_int_power of_int_numeral of_int_1)
  define z where "z = ?r / 2 ^ 17 * sqrt (X * c)"
  have Xp: "1 \<le> X" using X i by simp
  have z0: "0 \<le> z" using r Xp c by (simp add: z_def)
  have "z * z = (?r / 2 ^ 17) * (?r / 2 ^ 17) * (sqrt (X * c) * sqrt (X * c))" by (simp add: z_def)
  also have "sqrt (X * c) * sqrt (X * c) = X * c" using Xp c by simp
  finally have zz: "2 ^ 34 * (z * z) = ?r * ?r * (X * c)" by simp
  have XM: "1024 / 1025 * M \<le> 1024 * (X * c)" "1024 * (X * c) \<le> 1026 / 1025 * M"
  proof -
    have "1024 / 1025 * (1025 + 2 * of_int i) \<le> 1024 * X" "1024 * X \<le> 1026 / 1025 * (1025 + 2 * of_int i)"
      using X i by (simp_all add: field_simps)
    then have "1024 / 1025 * (1025 + 2 * of_int i) * c \<le> 1024 * X * c" "1024 * X * c \<le> 1026 / 1025 * (1025 + 2 * of_int i) * c"
      using c by (simp_all only: mult_right_mono)
    then show "1024 / 1025 * M \<le> 1024 * (X * c)" "1024 * (X * c) \<le> 1026 / 1025 * M"
      by (simp_all add: M_def mult_ac)
  qed
  have zM: "2 ^ 44 * (z * z) = ?r * ?r * (1024 * (X * c))" using zz by simp
  define a b :: real where "a = 1 - 1 / 2 ^ 17" and "b = 1 + 1 / 2 ^ 17"
  have M0: "0 \<le> M" using i c by (simp add: M_def)
  have ra: "0 \<le> 2 * ?r * a" "2 * ?r * a \<le> 2 * ?r - 1" "0 \<le> 2 * ?r + 1" "2 * ?r + 1 \<le> 2 * ?r * b"
    using r by (simp_all add: a_def b_def algebra_simps)
  have "(2 * ?r * a) * (2 * ?r * a) * M \<le> (2 * ?r - 1) * (2 * ?r - 1) * M"
    by (intro mult_right_mono mult_mono M0 ra order.trans [OF ra(1,2)])
  with lo have up: "?r * ?r * M * (a * a) \<le> 2 ^ 44" by (simp add: algebra_simps)
  have "(2 * ?r + 1) * (2 * ?r + 1) * M \<le> (2 * ?r * b) * (2 * ?r * b) * M"
    by (intro mult_right_mono mult_mono M0 ra order.trans [OF ra(3,4)])
  with hi have dn: "2 ^ 44 \<le> ?r * ?r * M * (b * b)" by (simp add: algebra_simps)
  have rr: "0 \<le> ?r * ?r" by simp
  have "?r * ?r * (1024 / 1025 * M) \<le> 2 ^ 44 * (z * z)" "2 ^ 44 * (z * z) \<le> ?r * ?r * (1026 / 1025 * M)"
    unfolding zM using XM rr by (simp_all only: mult_left_mono)
  then have zb: "1024 * (?r * ?r * M) \<le> 1025 * 2 ^ 44 * (z * z)" "1025 * 2 ^ 44 * (z * z) \<le> 1026 * (?r * ?r * M)"
    by (simp_all add: algebra_simps)
  have "z < 513 / 512"
  proof (rule ccontr)
    assume "\<not> z < 513 / 512"
    then have "513 / 512 * (513 / 512) \<le> z * z" by (intro mult_mono) auto
    then have "1025 * 2 ^ 44 * (513 / 512 * (513 / 512)) * (a * a) \<le> 1025 * 2 ^ 44 * (z * z) * (a * a)"
      by (intro mult_right_mono mult_left_mono) simp_all
    also have "\<dots> \<le> 1026 * (?r * ?r * M) * (a * a)" using zb(2) by (rule mult_right_mono) simp
    also have "\<dots> \<le> 1026 * 2 ^ 44" using up by (simp add: mult_ac)
    finally show False by (simp add: a_def)
  qed
  moreover have "511 / 512 < z"
  proof (rule ccontr)
    assume "\<not> 511 / 512 < z"
    then have "z * z \<le> 511 / 512 * (511 / 512)" using z0 by (intro mult_mono) auto
    then have "1025 * 2 ^ 44 * (z * z) * (b * b) \<le> 1025 * 2 ^ 44 * (511 / 512 * (511 / 512)) * (b * b)"
      by (intro mult_right_mono mult_left_mono) simp_all
    moreover have "1024 * (?r * ?r * M) * (b * b) \<le> 1025 * 2 ^ 44 * (z * z) * (b * b)"
      using zb(1) by (rule mult_right_mono) simp
    moreover have "1024 * 2 ^ 44 \<le> 1024 * (?r * ?r * M) * (b * b)" using dn by (simp add: mult_ac)
    ultimately have "1024 * 2 ^ 44 \<le> 1025 * 2 ^ 44 * (511 / 512 * (511 / 512)) * (b * b)" by linarith
    then show False by (simp add: b_def)
  qed
  ultimately have "\<bar>z - 1\<bar> < 1 / 512" by linarith
  then show ?thesis by (simp only: z_def c_def)
qed

lemma rsqrt_seed_bound:
  assumes wf: "wf_fmt fmt" and n: "19 < man_w fmt" and x: "fits fmt xa" "u_kind (unpack fmt xa) = KNorm"
    and pos: "sgn_of fmt xa = 0"
  shows "\<exists>bits. rsqrt_seed fmt xa = Inr (bits, 0) \<and> fits fmt bits \<and> is_finite fmt bits \<and>
    \<bar>fval fmt bits * sqrt (fval fmt xa) - 1\<bar> < 1 / 512"
proof -
  have n9: "9 < man_w fmt" using n by simp
  obtain E i X where f: "drop_bit (man_w fmt) xa AND exp_mask fmt = E + bias fmt" "0 < E + bias fmt"
      "emin fmt \<le> E" "E \<le> emax fmt"
    and i: "drop_bit (man_w fmt - SEED_INDEX_BITS) xa AND (SEED_TABLE_SIZE - 1) = i" "0 \<le> i" "i < 512"
    and v: "fval fmt xa = sg (sgn_of fmt xa) * (X * p2 E)" "1 + of_int i / 512 \<le> X" "X < 1 + (of_int i + 1) / 512"
    by (rule seed_fields [OF wf n9 x])
  define od where "od = E AND 1"
  define h where "h = (E - od) div 2"
  have od: "od = 0 \<or> od = 1" and Eh: "E = 2 * h + od"
    by (simp_all add: od_def h_def and_one_eq mod2_eq_if)
  have ix: "push_bit SEED_INDEX_BITS od OR i = od * 512 + i"
    using or_disjoint [of i 9 od] i by (simp add: push_bit_eq_mult SEED_INDEX_BITS_def)
  have ix2: "push_bit SEED_INDEX_BITS E AND 2 ^ SEED_INDEX_BITS OR i = od * 512 + i"
    using ix by (simp add: od_def)
  let ?r = "seed_rsqrt_entry (od * 512 + i)"
  note r = seed_rsqrt_nearest(3,4) [OF i(2,3) od]
  have r0: "0 < ?r" using r by simp
  have "?r \<le> 2 ^ 17" using r by simp
  also have "(2::int) ^ 17 \<le> 2 ^ Suc (man_w fmt)" using n by (intro power_increasing) simp_all
  finally have rm: "?r \<le> 2 ^ Suc (man_w fmt)" .
  have hi: "of_int ?r * p2 (- h - 17) < p2 (emax fmt + 1)"
  proof -
    have "of_int ?r * p2 (- h - 17) \<le> 2 ^ 17 * p2 (- h - 17)" using r by (intro mult_right_mono) simp_all
    also have "\<dots> = p2 (- h)" by (simp add: p2_diff [of "- h" 17] del: power_int_minus)
    also have "\<dots> < p2 (emax fmt + 1)"
    proof (subst p2_less_iff)
      show "- h < emax fmt + 1" using f(3) Eh od bias_pos [OF wf] unfolding emin_def emax_def by linarith
    qed
    finally show ?thesis .
  qed
  have e: "qmin fmt \<le> - h - 17" using f(4) Eh od n bias_pos [OF wf] by (simp add: qmin_def emin_def emax_def) linarith
  obtain bits where b: "seed_pack fmt 0 ?r (- h - 17) = Inr bits" "fits fmt bits" "is_finite fmt bits"
    "fval fmt bits = sg 0 * (of_int ?r * p2 (- h - 17))"
    by (rule seed_pack_exact [OF wf r0 rm disjI1 [OF refl] e hi])
  have "rsqrt_seed fmt xa = Inr (bits, 0)"
    using x f i(1) wf b(1) pos
    by (simp add: rsqrt_seed_def Let_def od_def [symmetric] ix ix2 h_def [symmetric])
  moreover have v2: "fval fmt bits * sqrt (fval fmt xa) = of_int ?r / 2 ^ 17 * sqrt (X * 2 ^ nat od)"
  proof -
    have "p2 E = 2 ^ nat od * p2 (2 * h)" using od by (auto simp: Eh p2_add)
    then have "fval fmt xa = (X * 2 ^ nat od) * p2 (2 * h)" by (simp add: v(1) pos)
    then have "sqrt (fval fmt xa) = sqrt (X * 2 ^ nat od) * p2 h"
      using p2_half [of "2 * h"] by (simp add: real_sqrt_mult)
    then have "fval fmt bits * sqrt (fval fmt xa) = of_int ?r * sqrt (X * 2 ^ nat od) * (p2 (- h - 17) * p2 h)"
      by (simp add: b(4) mult_ac)
    moreover have "p2 (- h - 17) * p2 h = p2 (- 17)" using p2_add [of "- h - 17" h] by simp
    ultimately show ?thesis by (simp add: power_int_minus)
  qed
  ultimately show ?thesis
    using b(2,3) rsqrt_relative_error [OF i(2,3) od v(2,3)] by (intro exI [of _ bits] conjI) (simp_all only: v2)
qed

end
