(* ===== verification/SimpleOps.thy ===== *)
theory SimpleOps
  imports Seeds
begin

text \<open>
  The operations of \<^verbatim>\<open>python/cft_golden/softfloat.py\<close> that never round: the sign operations,
  minimum and maximum, the quiet comparisons, \<open>select\<close> and the integer group. The order the
  encodings induce (\<open>rank\<close>) is what the comparisons compute, and on finite operands it is the
  order of the reals.
\<close>

section \<open>The code\<close>

definition fabs :: "fp_format \<Rightarrow> int \<Rightarrow> int \<times> int" where
  "fabs fmt xa = (xa AND NOT (sign_mask fmt), 0)"

definition neg :: "fp_format \<Rightarrow> int \<Rightarrow> int \<times> int" where
  "neg fmt xa = (xa XOR sign_mask fmt, 0)"

definition copysign :: "fp_format \<Rightarrow> int \<Rightarrow> int \<Rightarrow> int \<times> int" where
  "copysign fmt xa xb = ((xa AND NOT (sign_mask fmt)) OR (xb AND sign_mask fmt), 0)"

definition numeric_lt :: "fp_format \<Rightarrow> int \<Rightarrow> int \<Rightarrow> bool" where
  "numeric_lt fmt xa xb =
    (let ua = unpack fmt xa; ub = unpack fmt xb
     in if u_kind ua = KZero \<and> u_kind ub = KZero then False
     else if u_sign ua \<noteq> u_sign ub then truthy (u_sign ua)
     else let ma = xa AND NOT (sign_mask fmt); mb = xb AND NOT (sign_mask fmt)
     in if truthy (u_sign ua) then mb < ma else ma < mb)"

definition minmax :: "fp_format \<Rightarrow> int \<Rightarrow> int \<Rightarrow> bool \<Rightarrow> bool \<Rightarrow> int \<times> int" where
  "minmax fmt xa xb want_max number =
    (let ua = unpack fmt xa; ub = unpack fmt xb;
         a_nan = u_kind ua = KNan; b_nan = u_kind ub = KNan;
         flags = (if a_nan \<and> signaling ua \<or> b_nan \<and> signaling ub then FLAG_INVALID else 0)
     in if a_nan \<or> b_nan then
          (if \<not> number \<or> a_nan \<and> b_nan then (qnan_bits fmt, flags)
           else ((if a_nan then xb else xa), flags))
        else if u_kind ua = KZero \<and> u_kind ub = KZero then
          (if u_sign ua = u_sign ub then (xa, flags)
           else let neg_one = (if truthy (u_sign ua) then xa else xb);
                    pos_one = (if truthy (u_sign ua) then xb else xa)
                in ((if want_max then pos_one else neg_one), flags))
        else let a_lt_b = numeric_lt fmt xa xb
        in if want_max then ((if a_lt_b then xb else xa), flags)
        else ((if a_lt_b then xa else xb), flags))"

definition fmin :: "fp_format \<Rightarrow> int \<Rightarrow> int \<Rightarrow> int \<times> int" where
  "fmin fmt xa xb = minmax fmt xa xb False False"

definition fmax :: "fp_format \<Rightarrow> int \<Rightarrow> int \<Rightarrow> int \<times> int" where
  "fmax fmt xa xb = minmax fmt xa xb True False"

definition fminnum :: "fp_format \<Rightarrow> int \<Rightarrow> int \<Rightarrow> int \<times> int" where
  "fminnum fmt xa xb = minmax fmt xa xb False True"

definition fmaxnum :: "fp_format \<Rightarrow> int \<Rightarrow> int \<Rightarrow> int \<times> int" where
  "fmaxnum fmt xa xb = minmax fmt xa xb True True"

text \<open>The three predicates, by the keys of the source's \<open>truth\<close> dictionary.\<close>

datatype cmp_want = WLt | WLe | WEq

definition cmp_truth :: "cmp_want \<Rightarrow> bool \<Rightarrow> bool \<Rightarrow> bool" where
  "cmp_truth want lt eq = (case want of WLt \<Rightarrow> lt | WLe \<Rightarrow> lt \<or> eq | WEq \<Rightarrow> eq)"

definition compare_quiet :: "fp_format \<Rightarrow> int \<Rightarrow> int \<Rightarrow> cmp_want \<Rightarrow> int \<times> int" where
  "compare_quiet fmt xa xb want =
    (let ua = unpack fmt xa; ub = unpack fmt xb;
         a_nan = u_kind ua = KNan; b_nan = u_kind ub = KNan;
         flags = (if a_nan \<and> signaling ua \<or> b_nan \<and> signaling ub then FLAG_INVALID else 0)
     in if a_nan \<or> b_nan then (zero_bits fmt 0, flags)
        else let lt = numeric_lt fmt xa xb;
                 gt = numeric_lt fmt xb xa;
                 eq = (\<not> lt \<and> \<not> gt);
                 truth = cmp_truth want lt eq
             in ((if truth then one_bits fmt 0 else zero_bits fmt 0), flags))"

definition cmplt :: "fp_format \<Rightarrow> int \<Rightarrow> int \<Rightarrow> int \<times> int" where
  "cmplt fmt xa xb = compare_quiet fmt xa xb WLt"

definition cmple :: "fp_format \<Rightarrow> int \<Rightarrow> int \<Rightarrow> int \<times> int" where
  "cmple fmt xa xb = compare_quiet fmt xa xb WLe"

definition cmpeq :: "fp_format \<Rightarrow> int \<Rightarrow> int \<Rightarrow> int \<times> int" where
  "cmpeq fmt xa xb = compare_quiet fmt xa xb WEq"

definition select :: "fp_format \<Rightarrow> int \<Rightarrow> int \<Rightarrow> int \<Rightarrow> int \<times> int" where
  "select fmt xa xb xc = ((if xc AND NOT (sign_mask fmt) \<noteq> 0 then xa else xb), 0)"

definition mask_f :: "fp_format \<Rightarrow> int \<Rightarrow> int" where
  "mask_f fmt v = v AND (push_bit (width fmt) 1 - 1)"

definition shift_amount :: "fp_format \<Rightarrow> int \<Rightarrow> int" where
  "shift_amount fmt xb = xb AND (int (width fmt) - 1)"

definition iand :: "fp_format \<Rightarrow> int \<Rightarrow> int \<Rightarrow> int \<times> int" where
  "iand fmt xa xb = (xa AND xb, 0)"

definition ior :: "fp_format \<Rightarrow> int \<Rightarrow> int \<Rightarrow> int \<times> int" where
  "ior fmt xa xb = (xa OR xb, 0)"

definition ixor :: "fp_format \<Rightarrow> int \<Rightarrow> int \<Rightarrow> int \<times> int" where
  "ixor fmt xa xb = (xa XOR xb, 0)"

definition iadd :: "fp_format \<Rightarrow> int \<Rightarrow> int \<Rightarrow> int \<times> int" where
  "iadd fmt xa xb = (mask_f fmt (xa + xb), 0)"

definition isub :: "fp_format \<Rightarrow> int \<Rightarrow> int \<Rightarrow> int \<times> int" where
  "isub fmt xa xb = (mask_f fmt (xa - xb), 0)"

definition ishl :: "fp_format \<Rightarrow> int \<Rightarrow> int \<Rightarrow> int \<times> int" where
  "ishl fmt xa xb = (mask_f fmt (push_bit (nat (shift_amount fmt xb)) xa), 0)"

definition ishr :: "fp_format \<Rightarrow> int \<Rightarrow> int \<Rightarrow> int \<times> int" where
  "ishr fmt xa xb = (drop_bit (nat (shift_amount fmt xb)) xa, 0)"

definition icmplt :: "fp_format \<Rightarrow> int \<Rightarrow> int \<Rightarrow> int \<times> int" where
  "icmplt fmt xa xb = ((if xa < xb then one_bits fmt 0 else zero_bits fmt 0), 0)"

definition imul :: "fp_format \<Rightarrow> int \<Rightarrow> int \<Rightarrow> int \<times> int" where
  "imul fmt xa xb =
    (let m32 = 0xFFFFFFFF in (((xa AND m32) * (xb AND m32)) AND m32, 0))"

section \<open>The order of the encodings\<close>

text \<open>
  Negative encodings count down from zero, positive ones up: both zeros have rank 0.
\<close>

definition rank :: "fp_format \<Rightarrow> int \<Rightarrow> int" where
  "rank fmt x = (if truthy (sgn_of fmt x) then - mag_of fmt x else mag_of fmt x)"

lemma u_zero_iff: "wf_fmt fmt \<Longrightarrow> fits fmt x \<Longrightarrow> u_kind (unpack fmt x) = KZero \<longleftrightarrow> mag_of fmt x = 0"
  by (simp add: u_kind_unpack kind_of_iff)

lemma signed_less:
  fixes a b s t :: int
  assumes "0 \<le> a" "0 \<le> b" "s = 0 \<or> s = 1" "t = 0 \<or> t = 1"
  shows "(if a = 0 \<and> b = 0 then False else if s \<noteq> t then truthy s else if truthy s then b < a else a < b)
    \<longleftrightarrow> (if truthy s then - a else a) < (if truthy t then - b else b)"
  using assms by auto

lemma numeric_lt_rank:
  assumes wf: "wf_fmt fmt" and x: "fits fmt xa" "fits fmt xb"
  shows "numeric_lt fmt xa xb \<longleftrightarrow> rank fmt xa < rank fmt xb"
proof -
  have code: "numeric_lt fmt xa xb \<longleftrightarrow>
    (if mag_of fmt xa = 0 \<and> mag_of fmt xb = 0 then False
     else if sgn_of fmt xa \<noteq> sgn_of fmt xb then truthy (sgn_of fmt xa)
     else if truthy (sgn_of fmt xa) then mag_of fmt xb < mag_of fmt xa else mag_of fmt xa < mag_of fmt xb)"
    by (simp only: numeric_lt_def Let_def u_zero_iff [OF wf x(1)] u_zero_iff [OF wf x(2)]
      u_sign_unpack [OF wf x(1)] u_sign_unpack [OF wf x(2)] clear_sign [OF x(1)] clear_sign [OF x(2)])
  show ?thesis
    unfolding code rank_def
    by (rule signed_less [OF mag_bounds(1) mag_bounds(1) fits_sgn [OF x(1)] fits_sgn [OF x(2)]])
qed

lemma rank_value:
  assumes wf: "wf_fmt fmt" and x: "fits fmt x" "is_finite fmt x"
  shows "fval fmt x = (if rank fmt x < 0 then - mag_val fmt (- rank fmt x) else mag_val fmt (rank fmt x))"
proof (cases "sgn_of fmt x = 0")
  case True
  then have "rank fmt x = mag_of fmt x" "\<not> mag_of fmt x < 0" by (simp_all add: rank_def not_less)
  then show ?thesis using fval_eq [OF wf x] True by simp
next
  case False
  then have r: "sgn_of fmt x = 1" "rank fmt x = - mag_of fmt x" using fits_sgn [OF x(1)] by (simp_all add: rank_def)
  then show ?thesis using fval_eq [OF wf x] mag_bounds(1) [of fmt x] by (cases "mag_of fmt x = 0") (auto simp: less_le)
qed

lemma rank_less_real:
  assumes wf: "wf_fmt fmt" and a: "fits fmt xa" "is_finite fmt xa" and b: "fits fmt xb" "is_finite fmt xb"
  shows "rank fmt xa < rank fmt xb \<longleftrightarrow> fval fmt xa < fval fmt xb"
proof -
  let ?a = "rank fmt xa" let ?b = "rank fmt xb"
  have nn: "0 \<le> mag_val fmt k" if "0 \<le> k" for k by (rule mag_val_nonneg [OF that])
  have pos: "0 < mag_val fmt k" if "0 < k" for k using that by (simp add: mag_val_pos_iff)
  show ?thesis
  proof (cases "?a < 0")
    case True
    note ap = pos [of "- ?a"]
    show ?thesis
    proof (cases "?b < 0")
      case bn: True
      then show ?thesis
        using True mag_val_less_iff [of "- ?b" "- ?a" fmt] by (simp add: rank_value [OF wf a] rank_value [OF wf b])
    next
      case False
      then have "- mag_val fmt (- ?a) < mag_val fmt ?b" using ap nn [of ?b] True by linarith
      with False True show ?thesis by (simp add: rank_value [OF wf a] rank_value [OF wf b])
    qed
  next
    case an: False
    show ?thesis
    proof (cases "?b < 0")
      case True
      then have "\<not> mag_val fmt ?a < - mag_val fmt (- ?b)" using pos [of "- ?b"] nn [of ?a] an by linarith
      with True an show ?thesis by (simp add: rank_value [OF wf a] rank_value [OF wf b])
    next
      case False
      with an show ?thesis using mag_val_less_iff [of ?a ?b fmt]
        by (simp add: rank_value [OF wf a] rank_value [OF wf b])
    qed
  qed
qed

lemma numeric_lt_real:
  assumes "wf_fmt fmt" "fits fmt xa" "is_finite fmt xa" "fits fmt xb" "is_finite fmt xb"
  shows "numeric_lt fmt xa xb \<longleftrightarrow> fval fmt xa < fval fmt xb"
  using numeric_lt_rank [OF assms(1,2,4)] rank_less_real [OF assms] by simp

lemma rank_inf:
  assumes wf: "wf_fmt fmt" and x: "fits fmt x" "\<not> is_nan fmt x"
  shows "- inf_mag fmt \<le> rank fmt x" "rank fmt x \<le> inf_mag fmt"
    and "is_finite fmt x \<longleftrightarrow> - inf_mag fmt < rank fmt x \<and> rank fmt x < inf_mag fmt"
proof -
  have m: "0 \<le> mag_of fmt x" "mag_of fmt x \<le> inf_mag fmt" using x(2) by (simp_all add: is_nan_mag [OF wf x(1)])
  show "- inf_mag fmt \<le> rank fmt x" "rank fmt x \<le> inf_mag fmt"
    and "is_finite fmt x \<longleftrightarrow> - inf_mag fmt < rank fmt x \<and> rank fmt x < inf_mag fmt"
    using m inf_mag_pos [OF wf] unfolding rank_def is_finite_def by (auto simp only: split: if_splits)
qed

text \<open>Rank and sign together are the encoding.\<close>

lemma rank_sgn_inject:
  assumes "fits fmt xa" "fits fmt xb" "rank fmt xa = rank fmt xb" "sgn_of fmt xa = sgn_of fmt xb"
  shows "xa = xb"
proof -
  have "mag_of fmt xa = mag_of fmt xb" using assms(3,4) by (simp add: rank_def split: if_splits)
  then have "pack fmt (sgn_of fmt xa) (mag_of fmt xa) = pack fmt (sgn_of fmt xb) (mag_of fmt xb)"
    by (simp only: assms(4))
  then show ?thesis by (simp only: pack_fields)
qed

lemma rank_eq_cases:
  assumes "fits fmt xa" "fits fmt xb" "rank fmt xa = rank fmt xb"
  shows "xa = xb \<or> rank fmt xa = 0"
proof (cases "sgn_of fmt xa = sgn_of fmt xb")
  case True
  then show ?thesis using rank_sgn_inject [OF assms] by blast
next
  case False
  have "rank fmt xa \<le> 0 \<and> 0 \<le> rank fmt xb \<or> rank fmt xb \<le> 0 \<and> 0 \<le> rank fmt xa"
    using False fits_sgn [OF assms(1)] fits_sgn [OF assms(2)] by (auto simp: rank_def)
  then show ?thesis using assms(3) by linarith
qed

section \<open>Minimum and maximum\<close>

lemma rank_zero_iff: "fits fmt x \<Longrightarrow> rank fmt x = 0 \<longleftrightarrow> mag_of fmt x = 0"
  by (auto simp: rank_def)

text \<open>Neither the value nor the flags of a minimum or maximum depend on the operand order.\<close>

lemma minmax_commute:
  assumes wf: "wf_fmt fmt" and x: "fits fmt xa" "fits fmt xb"
  shows "minmax fmt xa xb mx num = minmax fmt xb xa mx num"
proof (cases "u_kind (unpack fmt xa) = KNan \<or> u_kind (unpack fmt xb) = KNan")
  case True
  then show ?thesis by (auto simp: minmax_def Let_def)
next
  case nn: False
  show ?thesis
  proof (cases "mag_of fmt xa = 0 \<and> mag_of fmt xb = 0")
    case True
    then show ?thesis
      using nn rank_sgn_inject [OF x] fits_sgn [OF x(1)] fits_sgn [OF x(2)]
      by (auto simp: minmax_def Let_def u_zero_iff [OF wf] x wf rank_def)
  next
    case False
    then have "rank fmt xa \<noteq> 0 \<or> rank fmt xb \<noteq> 0" by (simp add: rank_zero_iff x)
    show ?thesis
    proof (cases "rank fmt xa = rank fmt xb")
      case True
      with \<open>rank fmt xa \<noteq> 0 \<or> rank fmt xb \<noteq> 0\<close> have "xa = xb" using rank_eq_cases [OF x] by auto
      then show ?thesis by simp
    next
      case ne: False
      then have "rank fmt xa < rank fmt xb \<longleftrightarrow> \<not> rank fmt xb < rank fmt xa" by auto
      with nn False show ?thesis
        by (auto simp: minmax_def Let_def u_zero_iff [OF wf] x wf numeric_lt_rank [OF wf])
    qed
  qed
qed

text \<open>
  Without a NaN the result is one of the operands, bounds both, and between the two zeros
  the sign decides; it raises nothing.
\<close>

lemma minmax_result:
  assumes wf: "wf_fmt fmt" and x: "fits fmt xa" "fits fmt xb" and nn: "\<not> is_nan fmt xa" "\<not> is_nan fmt xb"
  shows "minmax fmt xa xb mx num \<in> {(xa, 0), (xb, 0)}"
    and "rank fmt (fst (minmax fmt xa xb mx num)) =
      (if mx then max (rank fmt xa) (rank fmt xb) else min (rank fmt xa) (rank fmt xb))"
    and "rank fmt xa = 0 \<Longrightarrow> rank fmt xb = 0 \<Longrightarrow>
      sgn_of fmt (fst (minmax fmt xa xb mx num)) =
        (if mx then min (sgn_of fmt xa) (sgn_of fmt xb) else max (sgn_of fmt xa) (sgn_of fmt xb))"
proof -
  have m: "minmax fmt xa xb mx num \<in> {(xa, 0), (xb, 0)} \<and>
    rank fmt (fst (minmax fmt xa xb mx num)) =
      (if mx then max (rank fmt xa) (rank fmt xb) else min (rank fmt xa) (rank fmt xb)) \<and>
    (rank fmt xa = 0 \<longrightarrow> rank fmt xb = 0 \<longrightarrow> sgn_of fmt (fst (minmax fmt xa xb mx num)) =
        (if mx then min (sgn_of fmt xa) (sgn_of fmt xb) else max (sgn_of fmt xa) (sgn_of fmt xb)))"
  proof (cases "mag_of fmt xa = 0 \<and> mag_of fmt xb = 0")
    case True
    then have "rank fmt xa = 0" "rank fmt xb = 0" by (simp_all add: rank_def)
    with True nn fits_sgn [OF x(1)] fits_sgn [OF x(2)] show ?thesis
      by (auto simp: is_nan_kind [OF wf] x minmax_def Let_def u_zero_iff [OF wf] wf)
  next
    case False
    then have "\<not> (rank fmt xa = 0 \<and> rank fmt xb = 0)" by (simp add: rank_zero_iff x)
    with False nn show ?thesis
      by (auto simp: is_nan_kind [OF wf] x minmax_def Let_def u_zero_iff [OF wf] wf numeric_lt_rank [OF wf])
  qed
  show "minmax fmt xa xb mx num \<in> {(xa, 0), (xb, 0)}" using m by blast
  show "rank fmt (fst (minmax fmt xa xb mx num)) =
      (if mx then max (rank fmt xa) (rank fmt xb) else min (rank fmt xa) (rank fmt xb))" using m by blast
  show "rank fmt xa = 0 \<Longrightarrow> rank fmt xb = 0 \<Longrightarrow> sgn_of fmt (fst (minmax fmt xa xb mx num)) =
        (if mx then min (sgn_of fmt xa) (sgn_of fmt xb) else max (sgn_of fmt xa) (sgn_of fmt xb))" using m by blast
qed

lemma minmax_nan:
  assumes wf: "wf_fmt fmt" and x: "fits fmt xa" "fits fmt xb"
  shows "is_nan fmt xa \<or> is_nan fmt xb \<Longrightarrow> minmax fmt xa xb mx False =
      (qnan_bits fmt, if is_snan fmt xa \<or> is_snan fmt xb then FLAG_INVALID else 0)"
    and "is_nan fmt xa \<Longrightarrow> \<not> is_nan fmt xb \<Longrightarrow> minmax fmt xa xb mx True =
      (xb, if is_snan fmt xa then FLAG_INVALID else 0)"
  by (auto simp: is_nan_kind [OF wf] x minmax_def Let_def is_snan_def)

section \<open>Comparisons\<close>

lemma one_not_zero: "wf_fmt fmt \<Longrightarrow> one_bits fmt 0 \<noteq> zero_bits fmt 0"
  using bias_pos [of fmt] by (simp add: packed)

lemma compare_quiet_rank:
  assumes wf: "wf_fmt fmt" and x: "fits fmt xa" "fits fmt xb" and nn: "\<not> is_nan fmt xa" "\<not> is_nan fmt xb"
  shows "compare_quiet fmt xa xb want =
    (if cmp_truth want (rank fmt xa < rank fmt xb) (rank fmt xa = rank fmt xb)
     then one_bits fmt 0 else zero_bits fmt 0, 0)"
proof -
  have "rank fmt xa = rank fmt xb \<longleftrightarrow> \<not> rank fmt xa < rank fmt xb \<and> \<not> rank fmt xb < rank fmt xa" by auto
  then show ?thesis
    using nn by (simp add: is_nan_kind [OF wf] x compare_quiet_def Let_def numeric_lt_rank [OF wf] split: if_splits)
qed

lemma compare_quiet_nan:
  assumes wf: "wf_fmt fmt" and x: "fits fmt xa" "fits fmt xb" and nan: "is_nan fmt xa \<or> is_nan fmt xb"
  shows "compare_quiet fmt xa xb want =
    (zero_bits fmt 0, if is_snan fmt xa \<or> is_snan fmt xb then FLAG_INVALID else 0)"
  using nan by (auto simp: is_nan_kind [OF wf] x compare_quiet_def Let_def is_snan_def)

section \<open>Sign surgery and selection\<close>

lemma fabs_pack: "fits fmt xa \<Longrightarrow> fabs fmt xa = (pack fmt 0 (mag_of fmt xa), 0)"
  by (simp add: fabs_def clear_sign)

lemma neg_pack: "fits fmt xa \<Longrightarrow> neg fmt xa = (pack fmt (1 - sgn_of fmt xa) (mag_of fmt xa), 0)"
  using negate_pack [of fmt xa] by (simp add: neg_def negate_def)

lemma and_sign_mask: "fits fmt x \<Longrightarrow> x AND sign_mask fmt = sgn_of fmt x * 2 ^ (exp_w fmt + man_w fmt)"
proof -
  assume x: "fits fmt x"
  note t = fits_top [OF x, THEN conjunct1] fits_top [OF x, THEN conjunct2]
  show ?thesis
    unfolding sign_mask_eq and_top [OF t] sgn_of_def div_exp_01 [OF t] by simp
qed

lemma copysign_pack:
  assumes "fits fmt xa" "fits fmt xb"
  shows "copysign fmt xa xb = (pack fmt (sgn_of fmt xb) (mag_of fmt xa), 0)"
proof -
  have "sgn_of fmt xb * 2 ^ (exp_w fmt + man_w fmt) OR mag_of fmt xa = pack fmt (sgn_of fmt xb) (mag_of fmt xa)"
    using or_disjoint [OF mag_bounds(1) [of fmt xa], of "exp_w fmt + man_w fmt" "sgn_of fmt xb"] mag_bounds(2) [of fmt xa]
    by (simp add: pack_def mag_lim_def)
  then show ?thesis
    by (simp add: copysign_def clear_sign assms and_sign_mask or.commute)
qed

lemma select_zero:
  assumes "wf_fmt fmt" "fits fmt xc"
  shows "select fmt xa xb xc = (if is_zero fmt xc then xb else xa, 0)"
  using assms by (simp add: select_def clear_sign is_zero_def u_zero_iff)

end
