(* ===== verification/IntWords.thy ===== *)
theory IntWords
  imports SimpleOps "HOL-Library.Word"
begin

text \<open>
  The integer group of \<^verbatim>\<open>python/cft_golden/softfloat.py\<close> against fixed-width machine words:
  on encodings of a width-\<open>w\<close> format the opcodes are the operations of \<^typ>\<open>'w word\<close>, wrap-around
  included, and \<open>imul\<close> is the 32-bit product.
\<close>

lemma mask_f_mod: "mask_f fmt v = v mod 2 ^ width fmt"
  by (simp add: mask_f_def and_exp_minus_1)

lemma fits_uint: "LENGTH('w::len) = width fmt \<Longrightarrow> fits fmt (uint (w :: 'w word))"
  using uint_ge_0 [of w] uint_lt2p [of w] by (simp add: fits_def)

lemma bitwise_word:
  fixes a b :: "'w::len word"
  shows "iand fmt (uint a) (uint b) = (uint (a AND b), 0)"
    and "ior fmt (uint a) (uint b) = (uint (a OR b), 0)"
    and "ixor fmt (uint a) (uint b) = (uint (a XOR b), 0)"
  by (simp_all add: iand_def ior_def ixor_def unsigned_and_eq unsigned_or_eq unsigned_xor_eq)

lemma additive_word:
  fixes a b :: "'w::len word"
  assumes "LENGTH('w) = width fmt"
  shows "iadd fmt (uint a) (uint b) = (uint (a + b), 0)"
    and "isub fmt (uint a) (uint b) = (uint (a - b), 0)"
  using assms by (simp_all add: iadd_def isub_def mask_f_mod uint_word_ariths)

text \<open>The count is taken modulo the width, which the source requires to be a power of two.\<close>

lemma shift_amount_mod:
  assumes "width fmt = 2 ^ k"
  shows "shift_amount fmt x = x mod int (width fmt)"
  using assms and_exp_minus_1 [of x k] by (simp add: shift_amount_def)

lemma shift_word:
  fixes a b :: "'w::len word"
  assumes w: "LENGTH('w) = width fmt" and k: "width fmt = 2 ^ k"
  shows "ishl fmt (uint a) (uint b) = (uint (push_bit (unat b mod width fmt) a), 0)"
    and "ishr fmt (uint a) (uint b) = (uint (drop_bit (unat b mod width fmt) a), 0)"
proof -
  have n: "nat (shift_amount fmt (uint b)) = unat b mod width fmt"
    by (simp add: shift_amount_mod [OF k] nat_mod_distrib)
  show "ishl fmt (uint a) (uint b) = (uint (push_bit (unat b mod width fmt) a), 0)"
    using w by (simp add: ishl_def mask_f_mod n unsigned_push_bit_eq take_bit_eq_mod)
  show "ishr fmt (uint a) (uint b) = (uint (drop_bit (unat b mod width fmt) a), 0)"
    by (simp add: ishr_def n unsigned_drop_bit_eq take_bit_int_eq_self)
qed

lemma icmplt_word:
  fixes a b :: "'w::len word"
  shows "icmplt fmt (uint a) (uint b) = (if a < b then one_bits fmt 0 else zero_bits fmt 0, 0)"
  by (simp add: icmplt_def word_less_def)

lemma imul_word:
  "imul fmt xa xb = (uint (word_of_int xa * word_of_int xb :: 32 word), 0)"
proof -
  have m: "0xFFFFFFFF = (2::int) ^ 32 - 1" by simp
  show ?thesis
    unfolding imul_def Let_def m and_exp_minus_1
    by (simp add: uint_word_ariths uint_word_of_int mod_mult_eq)
qed

end
