(* ===== verification/Clause5.thy ===== *)
theory Clause5
  imports SimpleOps
begin

text \<open>
  The remaining clause-5 and clause-9.6 operations of \<^verbatim>\<open>python/cft_golden/softfloat.py\<close>:
  \<open>round_int\<close>, \<open>convert\<close>, \<open>from_int\<close>, \<open>to_int\<close>, \<open>scaleb\<close>, \<open>logb\<close>, \<open>next_up\<close>, \<open>next_down\<close>,
  \<open>classify\<close>, the total order, the signaling comparisons, \<open>remainder\<close> and the magnitude forms
  of minimum and maximum. Every \<open>assert\<close> of the source is a branch; the lemmas show the
  exactness it asserts.
\<close>

section \<open>The code\<close>

definition round_int :: "fp_format \<Rightarrow> int \<Rightarrow> int \<Rightarrow> bool \<Rightarrow> (int \<times> int) result" where
  "round_int fmt xa rnd exact =
    bind_r (check_mode rnd) (\<lambda>_.
    let ua = unpack fmt xa
    in if u_kind ua = KNan then Inr (nan_result fmt [ua])
    else if u_kind ua = KInf \<or> u_kind ua = KZero then Inr (xa, 0)
    else if 0 \<le> u_e ua then Inr (xa, 0)
    else let (kept, inexact) = round_at (u_m ua) (u_e ua) 0 (u_sign ua) rnd;
             flags = (if exact \<and> inexact then FLAG_INEXACT else 0)
    in if kept = 0 then Inr (zero_bits fmt (u_sign ua), flags)
    else bind_r (round_pack fmt (u_sign ua) kept 0 rnd) (\<lambda>(bits, packfl).
      if packfl \<noteq> 0 then Inl AssertionError else Inr (bits, flags)))"

definition convert :: "fp_format \<Rightarrow> fp_format \<Rightarrow> int \<Rightarrow> int \<Rightarrow> (int \<times> int) result" where
  "convert sfmt dfmt xa rnd =
    bind_r (check_mode rnd) (\<lambda>_.
    let ua = unpack sfmt xa
    in if u_kind ua = KNan then Inr (qnan_bits dfmt, if signaling ua then FLAG_INVALID else 0)
    else if u_kind ua = KInf then Inr (inf_bits dfmt (u_sign ua), 0)
    else if u_kind ua = KZero then Inr (zero_bits dfmt (u_sign ua), 0)
    else round_pack dfmt (u_sign ua) (u_m ua) (u_e ua) rnd)"

definition from_int :: "fp_format \<Rightarrow> int \<Rightarrow> int \<Rightarrow> (int \<times> int) result" where
  "from_int fmt v rnd =
    bind_r (check_mode rnd) (\<lambda>_.
    if v = 0 then Inr (zero_bits fmt 0, 0)
    else let sign = (if v < 0 then 1 else 0)
    in round_pack fmt sign (if v < 0 then - v else v) 0 rnd)"

definition to_int :: "fp_format \<Rightarrow> int \<Rightarrow> int \<Rightarrow> bool \<Rightarrow> int \<Rightarrow> bool \<Rightarrow> (int \<times> int) result" where
  "to_int fmt xa w signed rnd exact =
    bind_r (check_mode rnd) (\<lambda>_.
    if \<not> 1 \<le> w then Inl AssertionError
    else let (lo, hi) = (if signed then (- push_bit (nat (w - 1)) 1, push_bit (nat (w - 1)) 1 - 1)
                         else (0, push_bit (nat w) 1 - 1));
             ua = unpack fmt xa
    in if u_kind ua = KNan then Inr (hi, FLAG_INVALID)
    else if u_kind ua = KInf then Inr (if truthy (u_sign ua) then lo else hi, FLAG_INVALID)
    else if u_kind ua = KZero then Inr (0, 0)
    else let (kept, inexact) = round_at (u_m ua) (u_e ua) 0 (u_sign ua) rnd;
             v = (if truthy (u_sign ua) then - kept else kept)
    in if v < lo then Inr (lo, FLAG_INVALID)
    else if hi < v then Inr (hi, FLAG_INVALID)
    else Inr (v, if exact \<and> inexact then FLAG_INEXACT else 0))"

definition scaleb :: "fp_format \<Rightarrow> int \<Rightarrow> int \<Rightarrow> int \<Rightarrow> (int \<times> int) result" where
  "scaleb fmt xa n rnd =
    bind_r (check_mode rnd) (\<lambda>_.
    let ua = unpack fmt xa
    in if u_kind ua = KNan then Inr (nan_result fmt [ua])
    else if u_kind ua = KInf \<or> u_kind ua = KZero then Inr (xa, 0)
    else round_pack fmt (u_sign ua) (u_m ua) (u_e ua + n) rnd)"

definition logb :: "fp_format \<Rightarrow> int \<Rightarrow> (int \<times> int) result" where
  "logb fmt xa =
    (let ua = unpack fmt xa
     in if u_kind ua = KNan then Inr (nan_result fmt [ua])
     else if u_kind ua = KInf then Inr (inf_bits fmt 0, 0)
     else if u_kind ua = KZero then Inr (inf_bits fmt 1, FLAG_DIVZERO)
     else let E = u_e ua + bit_length (u_m ua) - 1
     in if E = 0 then Inr (zero_bits fmt 0, 0)
     else bind_r (round_pack fmt (if E < 0 then 1 else 0) \<bar>E\<bar> 0 RND_RNE) (\<lambda>(bits, packfl).
       if packfl \<noteq> 0 then Inl AssertionError else Inr (bits, 0)))"

definition next_up :: "fp_format \<Rightarrow> int \<Rightarrow> int \<times> int" where
  "next_up fmt xa =
    (let ua = unpack fmt xa
     in if u_kind ua = KNan then nan_result fmt [ua]
     else if u_kind ua = KInf then ((if truthy (u_sign ua) then max_normal_bits fmt 1 else xa), 0)
     else if u_kind ua = KZero then (min_subnormal_bits fmt 0, 0)
     else let mag = xa AND NOT (sign_mask fmt)
     in if truthy (u_sign ua) then
          let mag = mag - 1
          in ((if mag = 0 then zero_bits fmt 1 else sign_mask fmt OR mag), 0)
     else (mag + 1, 0))"

definition next_down :: "fp_format \<Rightarrow> int \<Rightarrow> int \<times> int" where
  "next_down fmt xa =
    (let ua = unpack fmt xa
     in if u_kind ua = KNan then nan_result fmt [ua]
     else let (bits, flags) = next_up fmt (negate fmt xa) in (negate fmt bits, flags))"

definition CLASS_NEG_INF :: int where "CLASS_NEG_INF = 0"
definition CLASS_NEG_NORM :: int where "CLASS_NEG_NORM = 1"
definition CLASS_NEG_SUB :: int where "CLASS_NEG_SUB = 2"
definition CLASS_NEG_ZERO :: int where "CLASS_NEG_ZERO = 3"
definition CLASS_POS_ZERO :: int where "CLASS_POS_ZERO = 4"
definition CLASS_POS_SUB :: int where "CLASS_POS_SUB = 5"
definition CLASS_POS_NORM :: int where "CLASS_POS_NORM = 6"
definition CLASS_POS_INF :: int where "CLASS_POS_INF = 7"
definition CLASS_SNAN :: int where "CLASS_SNAN = 8"
definition CLASS_QNAN :: int where "CLASS_QNAN = 9"

lemmas class_defs [code_defs] = CLASS_NEG_INF_def CLASS_NEG_NORM_def CLASS_NEG_SUB_def
  CLASS_NEG_ZERO_def CLASS_POS_ZERO_def CLASS_POS_SUB_def CLASS_POS_NORM_def CLASS_POS_INF_def
  CLASS_SNAN_def CLASS_QNAN_def

definition classify :: "fp_format \<Rightarrow> int \<Rightarrow> int" where
  "classify fmt xa =
    (let ua = unpack fmt xa
     in if u_kind ua = KNan then (if signaling ua then CLASS_SNAN else CLASS_QNAN)
     else if u_kind ua = KInf then (if truthy (u_sign ua) then CLASS_NEG_INF else CLASS_POS_INF)
     else if u_kind ua = KZero then (if truthy (u_sign ua) then CLASS_NEG_ZERO else CLASS_POS_ZERO)
     else if u_kind ua = KSub then (if truthy (u_sign ua) then CLASS_NEG_SUB else CLASS_POS_SUB)
     else (if truthy (u_sign ua) then CLASS_NEG_NORM else CLASS_POS_NORM))"

definition total_order_key :: "fp_format \<Rightarrow> int \<Rightarrow> int" where
  "total_order_key fmt x =
    (if truthy (x AND sign_mask fmt) then (push_bit (width fmt) 1 - 1) XOR x else x OR sign_mask fmt)"

definition total_order :: "fp_format \<Rightarrow> int \<Rightarrow> int \<Rightarrow> int \<times> int" where
  "total_order fmt xa xb =
    (let a_le = total_order_key fmt xa \<le> total_order_key fmt xb
     in ((if a_le then one_bits fmt 0 else zero_bits fmt 0), 0))"

definition total_order_mag :: "fp_format \<Rightarrow> int \<Rightarrow> int \<Rightarrow> int \<times> int" where
  "total_order_mag fmt xa xb =
    total_order fmt (xa AND NOT (sign_mask fmt)) (xb AND NOT (sign_mask fmt))"

definition compare_sig :: "fp_format \<Rightarrow> int \<Rightarrow> int \<Rightarrow> cmp_want \<Rightarrow> int \<times> int" where
  "compare_sig fmt xa xb want =
    (let ua = unpack fmt xa; ub = unpack fmt xb
     in if u_kind ua = KNan \<or> u_kind ub = KNan then (zero_bits fmt 0, FLAG_INVALID)
        else let lt = numeric_lt fmt xa xb;
                 gt = numeric_lt fmt xb xa;
                 eq = (\<not> lt \<and> \<not> gt);
                 truth = cmp_truth want lt eq
             in ((if truth then one_bits fmt 0 else zero_bits fmt 0), 0))"

definition cmplt_sig :: "fp_format \<Rightarrow> int \<Rightarrow> int \<Rightarrow> int \<times> int" where
  "cmplt_sig fmt xa xb = compare_sig fmt xa xb WLt"

definition cmple_sig :: "fp_format \<Rightarrow> int \<Rightarrow> int \<Rightarrow> int \<times> int" where
  "cmple_sig fmt xa xb = compare_sig fmt xa xb WLe"

definition cmpeq_sig :: "fp_format \<Rightarrow> int \<Rightarrow> int \<Rightarrow> int \<times> int" where
  "cmpeq_sig fmt xa xb = compare_sig fmt xa xb WEq"

definition remainder_f :: "fp_format \<Rightarrow> int \<Rightarrow> int \<Rightarrow> (int \<times> int) result" where
  "remainder_f fmt xa xb =
    (let ua = unpack fmt xa; ub = unpack fmt xb
     in if u_kind ua = KNan \<or> u_kind ub = KNan then Inr (nan_result fmt [ua, ub])
     else if u_kind ua = KInf \<or> u_kind ub = KZero then Inr (qnan_bits fmt, FLAG_INVALID)
     else if u_kind ub = KInf \<or> u_kind ua = KZero then Inr (xa, 0)
     else let e0 = min (u_e ua) (u_e ub);
              X = push_bit (nat (u_e ua - e0)) (u_m ua);
              Y = push_bit (nat (u_e ub - e0)) (u_m ub);
              q = X div Y;
              rem0 = X mod Y;
              rem = (if Y < 2 * rem0 \<or> 2 * rem0 = Y \<and> truthy (q AND 1) then rem0 - Y else rem0)
     in if rem = 0 then Inr (zero_bits fmt (u_sign ua), 0)
     else let sign_r = u_sign ua XOR (if rem < 0 then 1 else 0)
     in bind_r (round_pack fmt sign_r \<bar>rem\<bar> e0 RND_RNE) (\<lambda>(bits, packfl).
       if packfl \<noteq> 0 then Inl AssertionError else Inr (bits, 0)))"

definition magnitude_bits :: "fp_format \<Rightarrow> int \<Rightarrow> int" where
  "magnitude_bits fmt x = x AND NOT (sign_mask fmt)"

definition minmax_mag :: "fp_format \<Rightarrow> int \<Rightarrow> int \<Rightarrow> bool \<Rightarrow> bool \<Rightarrow> int \<times> int" where
  "minmax_mag fmt xa xb want_max number =
    (let ua = unpack fmt xa; ub = unpack fmt xb
     in if u_kind ua = KNan \<or> u_kind ub = KNan then minmax fmt xa xb want_max number
     else let ma = magnitude_bits fmt xa; mb = magnitude_bits fmt xb
     in if ma = mb then minmax fmt xa xb want_max number
     else let a_smaller = ma < mb
     in if want_max then ((if a_smaller then xb else xa), 0)
     else ((if a_smaller then xa else xb), 0))"

definition fminmag :: "fp_format \<Rightarrow> int \<Rightarrow> int \<Rightarrow> int \<times> int" where
  "fminmag fmt xa xb = minmax_mag fmt xa xb False False"

definition fmaxmag :: "fp_format \<Rightarrow> int \<Rightarrow> int \<Rightarrow> int \<times> int" where
  "fmaxmag fmt xa xb = minmax_mag fmt xa xb True False"

definition fminnummag :: "fp_format \<Rightarrow> int \<Rightarrow> int \<Rightarrow> int \<times> int" where
  "fminnummag fmt xa xb = minmax_mag fmt xa xb False True"

definition fmaxnummag :: "fp_format \<Rightarrow> int \<Rightarrow> int \<Rightarrow> int \<times> int" where
  "fmaxnummag fmt xa xb = minmax_mag fmt xa xb True True"

section \<open>Exact packing\<close>

text \<open>What the source asserts of an exact result: encodable, so packed without a flag.\<close>

lemma round_pack_exact:
  assumes wf: "wf_fmt fmt" and k: "0 < k" "k \<le> 2 ^ Suc (man_w fmt)" and s: "s = 0 \<or> s = 1"
    and q: "qmin fmt \<le> q" "of_int k * p2 q < p2 (emax fmt + 1)" and rnd: "valid_dir rnd"
  obtains bits where "round_pack fmt s k q rnd = Inr (bits, 0)" "fits fmt bits" "is_finite fmt bits"
    "fval fmt bits = sg s * (of_int k * p2 q)" "sgn_of fmt bits = s"
proof -
  obtain mag where mag: "0 < mag" "mag < inf_mag fmt" "mag_val fmt mag = of_int k * p2 q"
    by (rule representable [OF wf k q])
  have lt: "mag < mag_lim fmt" using mag(2) inf_mag_less [of fmt] by linarith
  show ?thesis
  proof (rule that [of "pack fmt s mag"])
    show "round_pack fmt s k q rnd = Inr (pack fmt s mag, 0)"
      using round_pack_refines [OF wf k(1) rnd, of s q] round_real_exact [OF mag(1,2), of rnd s] by (simp add: mag(3))
    show "fits fmt (pack fmt s mag)" "is_finite fmt (pack fmt s mag)" "sgn_of fmt (pack fmt s mag) = s"
      using s mag lt by (simp_all add: is_finite_def)
    show "fval fmt (pack fmt s mag) = sg s * (of_int k * p2 q)"
      using fval_pack [OF wf s _ mag(2)] mag(1,3) by simp
  qed
qed

text \<open>The significand, the exponent and the range of a finite nonzero operand.\<close>

lemma unpack_bounds:
  assumes wf: "wf_fmt fmt" and x: "fits fmt x" "is_finite fmt x" "fval fmt x \<noteq> 0"
  shows "0 < u_m (unpack fmt x)" "u_m (unpack fmt x) < 2 ^ Suc (man_w fmt)" "qmin fmt \<le> u_e (unpack fmt x)"
    and "of_int (u_m (unpack fmt x)) * p2 (u_e (unpack fmt x)) < p2 (emax fmt + 1)"
    and "\<bar>fval fmt x\<bar> = of_int (u_m (unpack fmt x)) * p2 (u_e (unpack fmt x))"
    and "fval fmt x = sg (sgn_of fmt x) * (of_int (u_m (unpack fmt x)) * p2 (u_e (unpack fmt x)))"
proof -
  note c = unpack_cases [OF wf x(1)]
  have nz: "u_kind (unpack fmt x) \<noteq> KZero" using c(2) x by simp
  show m: "0 < u_m (unpack fmt x)" using c(3) x(2) nz by simp
  have mag: "mag_of fmt x \<noteq> 0" using nz by (simp add: u_zero_iff [OF wf x(1)])
  have u: "u_m (unpack fmt x) = sig_of fmt (mag_of fmt x)" "u_e (unpack fmt x) = exp_of fmt (mag_of fmt x)"
    using x(2) mag by (simp_all add: unpack_fits [OF wf x(1)] is_finite_def)
  note p = place_of_mag [OF mag_bounds(1) [of fmt x], of fmt]
  show "u_m (unpack fmt x) < 2 ^ Suc (man_w fmt)" "qmin fmt \<le> u_e (unpack fmt x)" using p by (simp_all add: u)
  have "mag_val fmt (mag_of fmt x) < mag_val fmt (inf_mag fmt)"
    using x(2) inf_mag_pos [OF wf] by (simp add: mag_val_less_iff is_finite_def)
  then show "of_int (u_m (unpack fmt x)) * p2 (u_e (unpack fmt x)) < p2 (emax fmt + 1)"
    by (simp only: mag_val_inf_mag [OF wf] u mag_val_def [of fmt "mag_of fmt x"])
  show v: "fval fmt x = sg (sgn_of fmt x) * (of_int (u_m (unpack fmt x)) * p2 (u_e (unpack fmt x)))"
    using wf x(1) by (simp add: fval_unpack)
  have "0 < of_int (u_m (unpack fmt x)) * p2 (u_e (unpack fmt x))" using m by simp
  then show "\<bar>fval fmt x\<bar> = of_int (u_m (unpack fmt x)) * p2 (u_e (unpack fmt x))"
    using m unfolding v abs_mult by simp
qed

lemma unpack_kinds:
  assumes "wf_fmt fmt" "fits fmt x" "is_finite fmt x" "fval fmt x \<noteq> 0"
  shows "u_kind (unpack fmt x) \<noteq> KNan" "u_kind (unpack fmt x) \<noteq> KInf" "u_kind (unpack fmt x) \<noteq> KZero"
  using unpack_cases(2,4) [OF assms(1,2)] assms(3,4) by simp_all

section \<open>Rounding to an integer\<close>

lemma round_int_finite:
  assumes lad: "wf_fmt fmt" "prec fmt \<le> emax fmt" and x: "fits fmt x" "is_finite fmt x" "fval fmt x \<noteq> 0"
    and rnd: "valid_mode rnd"
  shows "\<exists>bits. round_int fmt x rnd exact = Inr (bits, if exact \<and> \<bar>fval fmt x\<bar> \<notin> \<int> then FLAG_INEXACT else 0)
    \<and> fits fmt bits \<and> is_finite fmt bits \<and> sgn_of fmt bits = sgn_of fmt x
    \<and> fval fmt bits = sg (sgn_of fmt x) * of_int (rint rnd (sgn_of fmt x) \<bar>fval fmt x\<bar>)"
proof -
  note wf = lad(1)
  note b = unpack_bounds [OF wf x] and k = unpack_kinds [OF wf x]
  let ?m = "u_m (unpack fmt x)" and ?e = "u_e (unpack fmt x)" and ?s = "sgn_of fmt x"
  have code: "round_int fmt x rnd exact =
    (if 0 \<le> ?e then Inr (x, 0)
     else let (kept, inexact) = round_at ?m ?e 0 ?s rnd; flags = (if exact \<and> inexact then FLAG_INEXACT else 0)
     in if kept = 0 then Inr (zero_bits fmt ?s, flags)
     else bind_r (round_pack fmt ?s kept 0 rnd) (\<lambda>(bits, packfl).
       if packfl \<noteq> 0 then Inl AssertionError else Inr (bits, flags)))"
    unfolding round_int_def Let_def u_sign_unpack [OF wf x(1)] using rnd k by simp
  show ?thesis
  proof (cases "0 \<le> ?e")
    case True
    then have pe: "of_int ?m * p2 ?e = of_int (?m * 2 ^ nat ?e)" by (simp add: p2_nat)
    have i: "\<bar>fval fmt x\<bar> = of_int (?m * 2 ^ nat ?e)" unfolding b(5) pe ..
    have "fval fmt x = sg ?s * of_int (?m * 2 ^ nat ?e)" using b(6) unfolding pe .
    moreover have "rint rnd ?s \<bar>fval fmt x\<bar> = ?m * 2 ^ nat ?e" "\<bar>fval fmt x\<bar> \<in> \<int>"
      unfolding i by (simp_all only: rint_of_int Ints_of_int)
    ultimately show ?thesis using True x(1,2)
      by (intro exI [of _ x] conjI) (simp_all only: code if_True not_True_eq_False simp_thms if_False)
  next
    case False
    let ?v = "\<bar>fval fmt x\<bar>"
    define kept where "kept = rint rnd ?s ?v"
    have ra: "round_at ?m ?e 0 ?s rnd = (kept, ?v \<notin> \<int>)"
      using round_at_rint [OF b(1) valid_mode_dir [OF rnd], of ?e 0 ?s] by (simp add: b(5) kept_def)
    have "?v \<le> of_int (2 ^ man_w fmt)"
    proof -
      have "p2 ?e \<le> p2 (- 1)" using False by (subst p2_mono_iff) simp
      then have "?v \<le> of_int ?m * p2 (- 1)" unfolding b(5) using b(1) by (intro mult_left_mono) simp_all
      also have "\<dots> \<le> of_int (2 ^ Suc (man_w fmt)) * p2 (- 1)"
        using b(2) by (intro mult_right_mono) (simp_all only: of_int_le_iff less_imp_le p2_pos)
      also have "\<dots> = of_int (2 ^ man_w fmt)" by (simp add: power_int_minus)
      finally show ?thesis .
    qed
    then have ku: "kept \<le> 2 ^ man_w fmt" unfolding kept_def by (rule rint_le)
    have k0: "0 \<le> kept" unfolding kept_def by (rule rint_nonneg) simp
    show ?thesis
    proof (cases "kept = 0")
      case True
      have "fits fmt (zero_bits fmt ?s)" "sgn_of fmt (zero_bits fmt ?s) = ?s" "mag_of fmt (zero_bits fmt ?s) = 0"
        using fits_const(3) [OF wf fits_sgn [OF x(1)]] by (simp_all add: zero_bits_pack)
      moreover have "fval fmt (zero_bits fmt ?s) = 0"
        using fval_pack [OF wf fits_sgn [OF x(1)], of 0] inf_mag_pos [OF wf] by (simp add: zero_bits_pack)
      ultimately show ?thesis using False True inf_mag_pos [OF wf]
        by (intro exI [of _ "zero_bits fmt ?s"]) (simp add: code ra is_finite_def kept_def [symmetric])
    next
      case nz: False
      then have kp: "0 < kept" using k0 by simp
      have kb: "kept \<le> 2 ^ Suc (man_w fmt)" using ku by (rule order.trans) simp
      have q0: "qmin fmt \<le> 0" using lad(2) by (simp add: qmin_def emin_def emax_def prec_def)
      have "of_int kept \<le> (of_int (2 ^ man_w fmt) :: real)" using ku by (simp only: of_int_le_iff)
      also have "(of_int (2 ^ man_w fmt) :: real) = p2 (int (man_w fmt))" by simp
      also have "\<dots> < p2 (emax fmt + 1)" using lad(2) by (subst p2_less_iff) (simp add: prec_def)
      finally have hi: "of_int kept * p2 0 < p2 (emax fmt + 1)" by simp
      obtain bits where "round_pack fmt ?s kept 0 rnd = Inr (bits, 0)" "fits fmt bits" "is_finite fmt bits"
        "fval fmt bits = sg ?s * (of_int kept * p2 0)" "sgn_of fmt bits = ?s"
        by (rule round_pack_exact [OF wf kp kb fits_sgn [OF x(1)] q0 hi valid_mode_dir [OF rnd]])
      then show ?thesis using False nz
        by (intro exI [of _ bits]) (simp add: code ra kept_def [symmetric])
    qed
  qed
qed

lemma round_int_special:
  assumes "wf_fmt fmt" "fits fmt x" "valid_mode rnd"
  shows "is_inf fmt x \<or> is_zero fmt x \<Longrightarrow> round_int fmt x rnd exact = Inr (x, 0)"
    and "is_nan fmt x \<Longrightarrow> round_int fmt x rnd exact =
      Inr (qnan_bits fmt, if is_snan fmt x then FLAG_INVALID else 0)"
  using assms by (auto simp: round_int_def is_inf_def is_zero_def is_nan_kind is_snan_def nan_result_def Let_def)

section \<open>Conversions\<close>

lemma convert_finite:
  assumes "wf_fmt sfmt" "wf_fmt dfmt" and x: "fits sfmt x" "is_finite sfmt x" "fval sfmt x \<noteq> 0"
    and rnd: "valid_mode rnd"
  shows "convert sfmt dfmt x rnd = Inr (round_signed dfmt rnd (fval sfmt x))"
proof -
  note b = unpack_bounds [OF assms(1) x] and k = unpack_kinds [OF assms(1) x]
  show ?thesis
    using rnd k round_pack_signed [OF assms(2) b(1) valid_mode_dir [OF rnd] fits_sgn [OF x(1)], of "u_e (unpack sfmt x)"]
    by (simp add: convert_def Let_def u_sign_unpack [OF assms(1) x(1)] b(6) mult.assoc)
qed

text \<open>One format holds another: a wider significand, a wider exponent range.\<close>

definition holds_fmt :: "fp_format \<Rightarrow> fp_format \<Rightarrow> bool" where
  "holds_fmt d s \<longleftrightarrow> man_w s \<le> man_w d \<and> emax s \<le> emax d \<and> qmin d \<le> qmin s"

lemma convert_exact:
  assumes wf: "wf_fmt sfmt" "wf_fmt dfmt" and h: "holds_fmt dfmt sfmt"
    and x: "fits sfmt x" "is_finite sfmt x" "fval sfmt x \<noteq> 0" and rnd: "valid_mode rnd"
  obtains bits where "convert sfmt dfmt x rnd = Inr (bits, 0)" "fits dfmt bits" "is_finite dfmt bits"
    "fval dfmt bits = fval sfmt x"
proof -
  note b = unpack_bounds [OF wf(1) x]
  let ?m = "u_m (unpack sfmt x)" and ?e = "u_e (unpack sfmt x)" and ?s = "sgn_of sfmt x"
  have mb: "?m \<le> 2 ^ Suc (man_w dfmt)"
  proof -
    have "(2::int) ^ Suc (man_w sfmt) \<le> 2 ^ Suc (man_w dfmt)"
      by (rule power_increasing) (use h in \<open>simp_all add: holds_fmt_def\<close>)
    with b(2) show ?thesis by linarith
  qed
  have q: "qmin dfmt \<le> ?e" using b(3) h by (simp add: holds_fmt_def)
  have "p2 (emax sfmt + 1) \<le> p2 (emax dfmt + 1)" using h by (subst p2_mono_iff) (simp add: holds_fmt_def)
  then have hi: "of_int ?m * p2 ?e < p2 (emax dfmt + 1)" using b(4) by linarith
  obtain bits where r: "round_pack dfmt ?s ?m ?e rnd = Inr (bits, 0)" "fits dfmt bits" "is_finite dfmt bits"
    "fval dfmt bits = sg ?s * (of_int ?m * p2 ?e)"
    by (rule round_pack_exact [OF wf(2) b(1) mb fits_sgn [OF x(1)] q hi valid_mode_dir [OF rnd]])
  show ?thesis
  proof (rule that [OF _ r(2,3)])
    show "convert sfmt dfmt x rnd = Inr (bits, 0)"
      using rnd unpack_kinds [OF wf(1) x] r(1) by (simp add: convert_def Let_def u_sign_unpack [OF wf(1) x(1)])
    show "fval dfmt bits = fval sfmt x" using r(4) b(6) by simp
  qed
qed

text \<open>Widening loses nothing: converting back gives the operand, whatever the attributes.\<close>

lemma convert_inf:
  assumes "wf_fmt sfmt" "fits sfmt x" "valid_mode rnd"
  shows "is_inf sfmt x \<Longrightarrow> convert sfmt dfmt x rnd = Inr (inf_bits dfmt (sgn_of sfmt x), 0)"
    and "is_zero sfmt x \<Longrightarrow> convert sfmt dfmt x rnd = Inr (zero_bits dfmt (sgn_of sfmt x), 0)"
  using assms by (auto simp: convert_def is_inf_def is_zero_def Let_def)

lemma const_kinds:
  assumes wf: "wf_fmt fmt" and s: "s = 0 \<or> s = 1"
  shows "is_inf fmt (inf_bits fmt s)" "is_zero fmt (zero_bits fmt s)"
    "sgn_of fmt (inf_bits fmt s) = s" "sgn_of fmt (zero_bits fmt s) = s"
proof -
  have i: "0 \<le> inf_mag fmt" using inf_mag_pos [OF wf] by simp
  show "sgn_of fmt (inf_bits fmt s) = s" "sgn_of fmt (zero_bits fmt s) = s"
    using i by (simp_all add: packed wf)
  have "mag_of fmt (inf_bits fmt s) = inf_mag fmt" "mag_of fmt (zero_bits fmt s) = 0"
    using i by (simp_all add: packed wf)
  then show "is_inf fmt (inf_bits fmt s)" "is_zero fmt (zero_bits fmt s)"
    using u_kind_unpack [OF wf fits_const(5) [OF wf s]] u_kind_unpack [OF wf fits_const(3) [OF wf s]]
      kind_of_iff(4) [OF wf i] by (simp_all add: is_inf_def is_zero_def kind_of_def)
qed

lemma kind_bits:
  assumes "wf_fmt fmt" "fits fmt x"
  shows "is_inf fmt x \<Longrightarrow> x = inf_bits fmt (sgn_of fmt x)" "is_zero fmt x \<Longrightarrow> x = zero_bits fmt (sgn_of fmt x)"
  using kind_of_iff(1,4) [OF assms(1) mag_bounds(1) [of fmt x]] pack_fields [of fmt x]
  by (simp_all add: is_inf_def is_zero_def u_kind_unpack [OF assms] packed assms(1))

lemma convert_round_trip:
  assumes wf: "wf_fmt sfmt" "wf_fmt dfmt" and h: "holds_fmt dfmt sfmt"
    and x: "fits sfmt x" "\<not> is_nan sfmt x" and rnd: "valid_mode rnd" "valid_mode rnd'"
  shows "\<exists>y. convert sfmt dfmt x rnd = Inr (y, 0) \<and> convert dfmt sfmt y rnd' = Inr (x, 0)"
proof -
  consider "is_inf sfmt x" | "is_zero sfmt x" | "is_finite sfmt x" "fval sfmt x \<noteq> 0"
    using x(2) not_finite_kind [OF wf(1) x(1)] unpack_cases(2) [OF wf(1) x(1)]
    by (auto simp: is_nan_kind [OF wf(1) x(1)] is_inf_def is_zero_def)
  then show ?thesis
  proof cases
    case 1
    note s = fits_sgn [OF x(1)]
    show ?thesis
      using convert_inf(1) [OF wf(1) x(1) rnd(1) 1, of dfmt] kind_bits(1) [OF wf(1) x(1) 1]
        convert_inf(1) [OF wf(2) fits_const(5) [OF wf(2) s] rnd(2) const_kinds(1) [OF wf(2) s], of sfmt]
      by (simp add: const_kinds(3) [OF wf(2) s])
  next
    case 2
    note s = fits_sgn [OF x(1)]
    show ?thesis
      using convert_inf(2) [OF wf(1) x(1) rnd(1) 2, of dfmt] kind_bits(2) [OF wf(1) x(1) 2]
        convert_inf(2) [OF wf(2) fits_const(3) [OF wf(2) s] rnd(2) const_kinds(2) [OF wf(2) s], of sfmt]
      by (simp add: const_kinds(4) [OF wf(2) s])
  next
    case 3
    obtain y where y: "convert sfmt dfmt x rnd = Inr (y, 0)" "fits dfmt y" "is_finite dfmt y"
      "fval dfmt y = fval sfmt x"
      by (rule convert_exact [OF wf h x(1) 3 rnd(1)])
    have "fval dfmt y \<noteq> 0" using y(4) 3 by simp
    then have "convert dfmt sfmt y rnd' = Inr (x, 0)"
      using convert_finite [OF wf(2,1) y(2,3) _ rnd(2)] round_signed_exact [OF wf(1) x(1) 3] y(4) by simp
    with y(1) show ?thesis by blast
  qed
qed

lemma snan_is_nan: "wf_fmt fmt \<Longrightarrow> fits fmt x \<Longrightarrow> is_snan fmt x \<Longrightarrow> is_nan fmt x"
  by (simp add: is_snan_def is_nan_kind)

lemma qnan_quiet: "wf_fmt fmt \<Longrightarrow> is_nan fmt (qnan_bits fmt) \<and> \<not> is_snan fmt (qnan_bits fmt) \<and> fits fmt (qnan_bits fmt)"
proof -
  assume wf: "wf_fmt fmt"
  have "0 \<le> inf_mag fmt + 2 ^ (man_w fmt - 1)" using inf_mag_pos [OF wf] by simp
  from mag_of_pack [OF this qnan_bits_pack(2) [OF wf], of 0]
  have "mag_of fmt (qnan_bits fmt) = inf_mag fmt + 2 ^ (man_w fmt - 1)" unfolding qnan_bits_pack(1) [OF wf] .
  then have "\<not> signaling (unpack fmt (qnan_bits fmt))" by (simp add: unpack_fits [OF wf fits_const(1) [OF wf]])
  then show ?thesis using fits_const [OF wf] by (simp add: is_snan_def)
qed

lemma signaling_nan: "wf_fmt fmt \<Longrightarrow> fits fmt x \<Longrightarrow> u_kind (unpack fmt x) \<noteq> KNan \<Longrightarrow> \<not> signaling (unpack fmt x)"
  by (auto simp: unpack_def Let_def split: if_splits)

section \<open>Integers\<close>

lemma from_int_value:
  assumes "wf_fmt fmt" "valid_mode rnd" "v \<noteq> 0"
  shows "from_int fmt v rnd = Inr (round_signed fmt rnd (of_int v))"
proof -
  have "sg (if v < 0 then 1 else 0) * of_int (if v < 0 then - v else v) = (of_int v :: real)" by simp
  then show ?thesis
    using assms round_pack_signed [OF assms(1) _ valid_mode_dir [OF assms(2)], of "if v < 0 then - v else v" "if v < 0 then 1 else 0" 0]
    by (simp add: from_int_def)
qed

lemma from_int_exact:
  assumes wf: "wf_fmt fmt" and p: "prec fmt \<le> emax fmt" and rnd: "valid_mode rnd"
    and v: "v \<noteq> 0" "\<bar>v\<bar> \<le> 2 ^ nat (prec fmt)"
  obtains bits where "from_int fmt v rnd = Inr (bits, 0)" "fits fmt bits" "is_finite fmt bits" "fval fmt bits = of_int v"
proof -
  let ?s = "if v < 0 then 1 else 0 :: int"
  have pe: "2 ^ nat (prec fmt) = (2::int) ^ Suc (man_w fmt)" by (simp add: prec_def nat_add_distrib)
  have k: "0 < \<bar>v\<bar>" "\<bar>v\<bar> \<le> 2 ^ Suc (man_w fmt)" using v(1) v(2) [unfolded pe] by simp_all
  have q: "qmin fmt \<le> 0" using p by (simp add: qmin_def emin_def emax_def prec_def)
  have "of_int \<bar>v\<bar> \<le> (of_int (2 ^ Suc (man_w fmt)) :: real)" using k(2) by (simp only: of_int_le_iff)
  also have "\<dots> = p2 (int (Suc (man_w fmt)))" unfolding p2_of_nat by simp
  also have "\<dots> < p2 (emax fmt + 1)" using p by (subst p2_less_iff) (simp add: prec_def)
  finally have hi: "of_int \<bar>v\<bar> * p2 0 < p2 (emax fmt + 1)" by simp
  have s: "?s = 0 \<or> ?s = 1" by simp
  obtain bits where b: "round_pack fmt ?s \<bar>v\<bar> 0 rnd = Inr (bits, 0)" "fits fmt bits" "is_finite fmt bits"
    "fval fmt bits = sg ?s * (of_int \<bar>v\<bar> * p2 0)"
    by (rule round_pack_exact [OF wf k s q hi valid_mode_dir [OF rnd]])
  show ?thesis
  proof (rule that [OF _ b(2,3)])
    show "from_int fmt v rnd = Inr (bits, 0)" using b(1) v(1) rnd by (simp add: from_int_def abs_if)
    show "fval fmt bits = of_int v" using b(4) by simp
  qed
qed

text \<open>The range of the destination type, and the rounded value clamped into it.\<close>

definition int_lo :: "int \<Rightarrow> bool \<Rightarrow> int" where
  "int_lo w signed = (if signed then - (2 ^ nat (w - 1)) else 0)"

definition int_hi :: "int \<Rightarrow> bool \<Rightarrow> int" where
  "int_hi w signed = (if signed then 2 ^ nat (w - 1) - 1 else 2 ^ nat w - 1)"

definition rint_signed :: "fp_format \<Rightarrow> int \<Rightarrow> int \<Rightarrow> int" where
  "rint_signed fmt rnd x =
    (if sgn_of fmt x = 1 then - rint rnd (sgn_of fmt x) \<bar>fval fmt x\<bar> else rint rnd (sgn_of fmt x) \<bar>fval fmt x\<bar>)"

lemma to_int_finite:
  assumes wf: "wf_fmt fmt" and x: "fits fmt x" "is_finite fmt x" and rnd: "valid_mode rnd" and w: "1 \<le> w"
  shows "to_int fmt x w signed rnd exact =
    (if rint_signed fmt rnd x < int_lo w signed then Inr (int_lo w signed, FLAG_INVALID)
     else if int_hi w signed < rint_signed fmt rnd x then Inr (int_hi w signed, FLAG_INVALID)
     else Inr (rint_signed fmt rnd x, if exact \<and> \<bar>fval fmt x\<bar> \<notin> \<int> then FLAG_INEXACT else 0))"
proof (cases "fval fmt x = 0")
  case True
  have r0: "rint rnd s 0 = 0" for s using rint_of_int [of rnd s 0] by simp
  have "0 \<le> int_hi w signed" "int_lo w signed \<le> 0" by (simp_all add: int_hi_def int_lo_def)
  then show ?thesis
    using unpack_cases(2) [OF wf x(1)] x(2) rnd w True r0 by (simp add: to_int_def Let_def rint_signed_def split_beta)
next
  case False
  note b = unpack_bounds [OF wf x False] and k = unpack_kinds [OF wf x False]
  have ra: "round_at (u_m (unpack fmt x)) (u_e (unpack fmt x)) 0 (sgn_of fmt x) rnd =
    (rint rnd (sgn_of fmt x) \<bar>fval fmt x\<bar>, \<bar>fval fmt x\<bar> \<notin> \<int>)"
    using round_at_rint [OF b(1) valid_mode_dir [OF rnd], of "u_e (unpack fmt x)" 0 "sgn_of fmt x"] by (simp add: b(5))
  have t: "truthy (sgn_of fmt x) \<longleftrightarrow> sgn_of fmt x = 1" using fits_sgn [OF x(1)] by auto
  have lh: "(if signed then (- push_bit (nat (w - 1)) 1, push_bit (nat (w - 1)) 1 - 1)
    else (0, push_bit (nat w) 1 - 1)) = (int_lo w signed, int_hi w signed)" by (simp add: int_lo_def int_hi_def)
  show ?thesis
    using rnd w k unfolding to_int_def Let_def u_sign_unpack [OF wf x(1)] lh prod.case ra t rint_signed_def
    by (simp del: not_less not_le)
qed

lemma to_int_range:
  assumes "wf_fmt fmt" "fits fmt x" "valid_mode rnd" "1 \<le> w"
  shows "\<exists>v f. to_int fmt x w signed rnd exact = Inr (v, f) \<and> int_lo w signed \<le> v \<and> v \<le> int_hi w signed"
proof (cases "is_finite fmt x")
  case True
  have "int_lo w signed \<le> int_hi w signed" by (simp add: int_lo_def int_hi_def)
  then show ?thesis by (auto simp: to_int_finite [OF assms(1,2) True assms(3,4)])
next
  case False
  have "int_lo w signed \<le> int_hi w signed" by (simp add: int_lo_def int_hi_def)
  then show ?thesis
    using not_finite_kind [OF assms(1,2) False] assms(3,4)
    by (auto simp: to_int_def Let_def int_lo_def int_hi_def split_beta)
qed

text \<open>An integer the format can hold survives the round trip through it.\<close>

lemma from_to_int:
  assumes wf: "wf_fmt fmt" and p: "prec fmt \<le> emax fmt" and rnd: "valid_mode rnd" "valid_mode rnd'" and w: "1 \<le> w"
    and v: "\<bar>v\<bar> \<le> 2 ^ nat (prec fmt)" "int_lo w signed \<le> v" "v \<le> int_hi w signed"
  shows "bind_r (from_int fmt v rnd) (\<lambda>(x, f). to_int fmt x w signed rnd' exact) = Inr (v, 0)"
proof (cases "v = 0")
  case True
  have z: "is_zero fmt (zero_bits fmt 0)" by (rule const_kinds(2) [OF wf]) simp
  then show ?thesis using True rnd w by (simp add: from_int_def to_int_def is_zero_def Let_def split_beta)
next
  case False
  obtain x where x: "from_int fmt v rnd = Inr (x, 0)" "fits fmt x" "is_finite fmt x" "fval fmt x = of_int v"
    by (rule from_int_exact [OF wf p rnd(1) False v(1)])
  have a: "\<bar>fval fmt x\<bar> = of_int \<bar>v\<bar>" by (simp add: x(4))
  have nz: "fval fmt x \<noteq> 0" using x(4) False by simp
  have pos: "0 < of_int (u_m (unpack fmt x)) * p2 (u_e (unpack fmt x))"
    using unpack_bounds(1) [OF wf x(2,3) nz] by simp
  have "sgn_of fmt x = 1 \<longleftrightarrow> v < 0"
    using unpack_bounds(6) [OF wf x(2,3) nz] pos fits_sgn [OF x(2)] x(4) by auto
  then have "rint_signed fmt rnd' x = v" unfolding rint_signed_def a rint_of_int by auto
  then show ?thesis
    using to_int_finite [OF wf x(2,3) rnd(2) w, of signed exact] v(2,3) unfolding a by (simp add: x(1) del: of_int_abs)
qed

section \<open>Scaling and the exponent\<close>

lemma scaleb_finite:
  assumes wf: "wf_fmt fmt" and x: "fits fmt x" "is_finite fmt x" "fval fmt x \<noteq> 0" and rnd: "valid_mode rnd"
  shows "scaleb fmt x n rnd = Inr (round_signed fmt rnd (fval fmt x * p2 n))"
proof -
  note b = unpack_bounds [OF wf x] and k = unpack_kinds [OF wf x]
  have v: "sg (sgn_of fmt x) * of_int (u_m (unpack fmt x)) * p2 (u_e (unpack fmt x) + n) = fval fmt x * p2 n"
    unfolding b(6) p2_add by (simp only: mult.assoc)
  show ?thesis
    using rnd k round_pack_signed [OF wf b(1) valid_mode_dir [OF rnd] fits_sgn [OF x(1)], of "u_e (unpack fmt x) + n"]
    unfolding v scaleb_def Let_def u_sign_unpack [OF wf x(1)] by simp
qed

text \<open>\<open>logB\<close> is the binade of the value, exactly: every ladder format can hold it.\<close>

lemma logb_exponent:
  assumes wf: "wf_fmt fmt" and x: "fits fmt x" "is_finite fmt x" "fval fmt x \<noteq> 0"
  shows "u_e (unpack fmt x) + bit_length (u_m (unpack fmt x)) - 1 = ilog2 \<bar>fval fmt x\<bar>"
    and "qmin fmt \<le> ilog2 \<bar>fval fmt x\<bar>" "ilog2 \<bar>fval fmt x\<bar> \<le> emax fmt"
proof -
  note b = unpack_bounds [OF wf x]
  show e: "u_e (unpack fmt x) + bit_length (u_m (unpack fmt x)) - 1 = ilog2 \<bar>fval fmt x\<bar>"
    unfolding b(5) ilog2_value [OF b(1)] by simp
  show "qmin fmt \<le> ilog2 \<bar>fval fmt x\<bar>" using e b(3) bit_length_pos [OF b(1)] by linarith
  have pos: "0 < \<bar>fval fmt x\<bar>" using x(3) by simp
  show "ilog2 \<bar>fval fmt x\<bar> \<le> emax fmt"
    using ilog2_ge_iff [OF pos, of "emax fmt + 1"] b(4,5) by linarith
qed

lemma logb_finite:
  assumes lad: "ladder_fmt fmt" and x: "fits fmt x" "is_finite fmt x" "fval fmt x \<noteq> 0"
  shows "\<exists>bits. logb fmt x = Inr (bits, 0) \<and> fits fmt bits \<and> is_finite fmt bits
    \<and> fval fmt bits = of_int (ilog2 \<bar>fval fmt x\<bar>)"
proof -
  note wf = ladder_wf [OF lad]
  note k = unpack_kinds [OF wf x] and e = logb_exponent [OF wf x]
  let ?E = "ilog2 \<bar>fval fmt x\<bar>"
  have code: "logb fmt x = (if ?E = 0 then Inr (zero_bits fmt 0, 0)
     else bind_r (round_pack fmt (if ?E < 0 then 1 else 0) \<bar>?E\<bar> 0 RND_RNE) (\<lambda>(bits, packfl).
       if packfl \<noteq> 0 then Inl AssertionError else Inr (bits, 0)))"
    unfolding logb_def Let_def e(1) using k by simp
  have lp: "2 * prec fmt \<le> emax fmt" and ew: "exp_w fmt < man_w fmt" using lad by (simp_all add: ladder_fmt_def)
  show ?thesis
  proof (cases "?E = 0")
    case True
    have "fits fmt (zero_bits fmt 0)" "mag_of fmt (zero_bits fmt 0) = 0"
      using fits_const(3) [OF wf, of 0] by (simp_all add: zero_bits_pack del: pack_0)
    moreover have "fval fmt (zero_bits fmt 0) = 0"
      using fval_pack [OF wf _ _ inf_mag_pos [OF wf], of 0] by (simp add: zero_bits_pack)
    ultimately show ?thesis using True inf_mag_pos [OF wf]
      by (intro exI [of _ "zero_bits fmt 0"]) (simp add: code is_finite_def)
  next
    case False
    let ?s = "if ?E < 0 then 1 else 0 :: int"
    have "emax fmt \<le> 2 ^ man_w fmt"
    proof -
      have "(2::int) ^ (exp_w fmt - 1) \<le> 2 ^ man_w fmt" using ew by (intro power_increasing) simp_all
      then show ?thesis unfolding emax_def bias_def push_bit_of_1 by linarith
    qed
    moreover have "int (man_w fmt) \<le> 2 ^ man_w fmt" by (rule less_imp_le) (simp add: less_exp)
    ultimately have kb: "\<bar>?E\<bar> \<le> 2 ^ Suc (man_w fmt)"
      using e(2,3) unfolding qmin_def emin_def emax_def power_Suc by (intro abs_leI) linarith+
    have q: "qmin fmt \<le> 0" using lp by (simp add: qmin_def emin_def emax_def prec_def)
    have "\<bar>?E\<bar> \<le> 2 * emax fmt" using e(2,3) lp by (simp add: qmin_def emin_def emax_def prec_def)
    also have "\<dots> < 2 * 2 ^ nat (emax fmt)"
    proof -
      have "int (nat (emax fmt)) < 2 ^ nat (emax fmt)" by (simp only: of_nat_less_two_power)
      then show ?thesis by linarith
    qed
    finally have "of_int \<bar>?E\<bar> < (of_int (2 * 2 ^ nat (emax fmt)) :: real)" by (simp only: of_int_less_iff)
    also have "\<dots> = p2 (emax fmt + 1)" using lp by (simp add: p2_succ p2_nat prec_def)
    finally have hi: "of_int \<bar>?E\<bar> * p2 0 < p2 (emax fmt + 1)" by simp
    have s: "?s = 0 \<or> ?s = 1" and k0: "0 < \<bar>?E\<bar>" using False by simp_all
    obtain bits where "round_pack fmt ?s \<bar>?E\<bar> 0 RND_RNE = Inr (bits, 0)" "fits fmt bits" "is_finite fmt bits"
      "fval fmt bits = sg ?s * (of_int \<bar>?E\<bar> * p2 0)"
      by (rule round_pack_exact [OF wf k0 kb s q hi valid_mode_dir [OF valid_modes(1)]])
    then show ?thesis using False by (intro exI [of _ bits]) (simp add: code)
  qed
qed

section \<open>The neighbours\<close>

text \<open>One step up the rank, stopping at the infinity: the least encoding above.\<close>

lemma next_up_rank:
  assumes wf: "wf_fmt fmt" and x: "fits fmt x" "\<not> is_nan fmt x"
  shows "\<exists>y. next_up fmt x = (y, 0) \<and> fits fmt y \<and> rank fmt y = min (rank fmt x + 1) (inf_mag fmt)"
proof -
  let ?m = "mag_of fmt x" and ?s = "sgn_of fmt x"
  note i = inf_mag_pos [OF wf] inf_mag_less [of fmt]
  have m: "0 \<le> ?m" "?m \<le> inf_mag fmt" using x by (simp_all add: is_nan_mag [OF wf x(1)])
  have nn: "u_kind (unpack fmt x) \<noteq> KNan" using x(2) is_nan_kind [OF wf x(1)] by simp
  have ki: "u_kind (unpack fmt x) = KInf \<longleftrightarrow> ?m = inf_mag fmt"
    using kind_of_iff(4) [OF wf m(1)] by (simp add: u_kind_unpack [OF wf x(1)])
  have kz: "u_kind (unpack fmt x) = KZero \<longleftrightarrow> ?m = 0" by (rule u_zero_iff [OF wf x(1)])
  have code: "next_up fmt x =
    (if ?m = inf_mag fmt then (if truthy ?s then max_normal_bits fmt 1 else x, 0)
     else if ?m = 0 then (min_subnormal_bits fmt 0, 0)
     else if truthy ?s then (if ?m - 1 = 0 then zero_bits fmt 1 else sign_mask fmt OR (?m - 1), 0)
     else (?m + 1, 0))"
    unfolding next_up_def Let_def u_sign_unpack [OF wf x(1)] ki kz clear_sign [OF x(1)] using nn by simp
  have pk: "fits fmt (pack fmt s k)" "rank fmt (pack fmt s k) = (if truthy s then - k else k)"
    if "s = 0 \<or> s = 1" "0 \<le> k" "k \<le> inf_mag fmt" for s k
  proof -
    have "k < mag_lim fmt" using that(3) i by linarith
    then show "fits fmt (pack fmt s k)" "rank fmt (pack fmt s k) = (if truthy s then - k else k)"
      using that by (simp_all add: rank_def del: pack_0)
  qed
  have sm: "sign_mask fmt OR k = pack fmt 1 k" if "0 \<le> k" "k < mag_lim fmt" for k
    using or_disjoint [of k "exp_w fmt + man_w fmt" 1] that by (simp add: sign_mask_eq pack_def mag_lim_def)
  consider "?m = inf_mag fmt" "truthy ?s" | "?m = inf_mag fmt" "?s = 0" | "?m = 0"
    | "0 < ?m" "?m < inf_mag fmt" "truthy ?s" | "0 < ?m" "?m < inf_mag fmt" "?s = 0"
    using m by linarith
  then show ?thesis
  proof cases
    case 1
    then show ?thesis using i pk [of 1 "inf_mag fmt - 1"]
      by (intro exI [of _ "pack fmt 1 (inf_mag fmt - 1)"]) (simp add: code packed wf rank_def)
  next
    case 2
    then show ?thesis using x i by (intro exI [of _ x]) (simp add: code rank_def)
  next
    case 3
    then show ?thesis using i pk [of 0 1]
      by (intro exI [of _ "pack fmt 0 1"]) (simp add: code packed wf rank_def)
  next
    case 4
    then have "next_up fmt x = (pack fmt 1 (?m - 1), 0)"
      using sm [of "?m - 1"] i by (simp add: code zero_bits_pack)
    then show ?thesis using 4 pk [of 1 "?m - 1"] by (simp add: rank_def)
  next
    case 5
    then show ?thesis using pk [of 0 "?m + 1"] by (simp add: code rank_def)
  qed
qed

lemma rank_negate: "fits fmt x \<Longrightarrow> rank fmt (negate fmt x) = - rank fmt x"
  using fits_sgn [of fmt x] by (auto simp: rank_def)

lemma is_nan_negate [simp]: "wf_fmt fmt \<Longrightarrow> fits fmt x \<Longrightarrow> is_nan fmt (negate fmt x) = is_nan fmt x"
  by (simp add: is_nan_mag)

lemma next_down_rank:
  assumes wf: "wf_fmt fmt" and x: "fits fmt x" "\<not> is_nan fmt x"
  shows "\<exists>y. next_down fmt x = (y, 0) \<and> fits fmt y \<and> rank fmt y = max (rank fmt x - 1) (- inf_mag fmt)"
proof -
  obtain y where y: "next_up fmt (negate fmt x) = (y, 0)" "fits fmt y"
    "rank fmt y = min (rank fmt (negate fmt x) + 1) (inf_mag fmt)"
    using next_up_rank [OF wf fits_negate [OF x(1)]] x wf by auto
  have "next_down fmt x = (negate fmt y, 0)"
    using x(2) y(1) by (simp add: next_down_def Let_def is_nan_kind [OF wf x(1)])
  then show ?thesis using y(2,3) by (simp add: rank_negate x(1))
qed

text \<open>Nothing lies strictly between a value and its neighbour.\<close>

lemma next_up_least:
  assumes wf: "wf_fmt fmt" and x: "fits fmt x" "is_finite fmt x" and z: "fits fmt z" "numeric_lt fmt x z"
  shows "numeric_lt fmt x (fst (next_up fmt x))" and "\<not> numeric_lt fmt z (fst (next_up fmt x))"
proof -
  have nn: "\<not> is_nan fmt x" using x(2) by (simp add: is_nan_mag [OF wf x(1)] is_finite_def)
  obtain y where y: "next_up fmt x = (y, 0)" "fits fmt y" "rank fmt y = min (rank fmt x + 1) (inf_mag fmt)"
    using next_up_rank [OF wf x(1) nn] by blast
  have "rank fmt x < inf_mag fmt" using rank_inf(3) [OF wf x(1) nn] x(2) by simp
  then have r: "rank fmt y = rank fmt x + 1" using y(3) by simp
  show "numeric_lt fmt x (fst (next_up fmt x))" "\<not> numeric_lt fmt z (fst (next_up fmt x))"
    using z r by (simp_all add: y(1) numeric_lt_rank [OF wf] x(1) y(2))
qed

section \<open>Classes\<close>

lemma u_kind_negate: "wf_fmt fmt \<Longrightarrow> fits fmt x \<Longrightarrow> u_kind (unpack fmt (negate fmt x)) = u_kind (unpack fmt x)"
  by (simp add: u_kind_unpack)

lemma classify_negate:
  assumes "wf_fmt fmt" "fits fmt x" "\<not> is_nan fmt x"
  shows "classify fmt (negate fmt x) = 7 - classify fmt x"
  using assms fits_sgn [OF assms(2)]
  by (cases "u_kind (unpack fmt x)") (auto simp: classify_def Let_def is_nan_kind u_kind_negate class_defs)

lemma classify_range: "classify fmt x \<in> {0..9}"
  by (simp add: classify_def Let_def class_defs)

lemma classify_eq:
  assumes "wf_fmt fmt" "fits fmt x" "\<not> is_nan fmt x"
  defines "c \<equiv> (if mag_of fmt x = 0 then 4 else if mag_of fmt x < 2 ^ man_w fmt then 5
    else if mag_of fmt x < inf_mag fmt then 6 else 7)"
  shows "classify fmt x = (if truthy (sgn_of fmt x) then 7 - c else c)"
proof -
  have m: "0 \<le> mag_of fmt x" "mag_of fmt x \<le> inf_mag fmt"
    using assms(3) by (simp_all add: is_nan_mag [OF assms(1,2)])
  note i = man_less_inf [OF assms(1)]
  have k: "u_kind (unpack fmt x) = kind_of fmt (mag_of fmt x)" by (rule u_kind_unpack [OF assms(1,2)])
  show ?thesis
    unfolding classify_def Let_def u_sign_unpack [OF assms(1,2)] k c_def kind_of_def
    using m i by (simp add: class_defs)
qed

lemma mag_neg_le [simp]: "- mag_of fmt x \<le> mag_of fmt y"
  using mag_bounds(1) [of fmt x] mag_bounds(1) [of fmt y] by linarith

lemma classify_order:
  assumes "wf_fmt fmt" "fits fmt x" "fits fmt y" "\<not> is_nan fmt x" "\<not> is_nan fmt y" "classify fmt x < classify fmt y"
  shows "rank fmt x \<le> rank fmt y"
proof -
  have "0 \<le> mag_of fmt x" "0 \<le> mag_of fmt y" by simp_all
  then show ?thesis
    using assms(6) unfolding classify_eq [OF assms(1,2,4)] classify_eq [OF assms(1,3,5)] rank_def
    by (simp split: if_splits)
qed

section \<open>The total order\<close>

lemma total_order_key_eq:
  assumes "fits fmt x"
  shows "total_order_key fmt x =
    (if sgn_of fmt x = 1 then mag_lim fmt - 1 - mag_of fmt x else mag_lim fmt + mag_of fmt x)"
proof -
  let ?n = "exp_w fmt + man_w fmt"
  have x: "0 \<le> x" "x < 2 ^ Suc ?n" using fits_top [OF assms] by blast+
  have e: "x = sgn_of fmt x * 2 ^ ?n + mag_of fmt x" using pack_fields [of fmt x] by (simp add: pack_def)
  show ?thesis
  proof (cases "sgn_of fmt x = 1")
    case True
    have a: "truthy (x AND sign_mask fmt)" by (simp add: and_sign_mask [OF assms] True)
    have "(2 ^ Suc ?n - 1) XOR x = 2 ^ Suc ?n - 1 - x"
    proof -
      have "take_bit (Suc ?n) x = x" using x by (simp add: take_bit_int_eq_self)
      then have bx: "n < Suc ?n" if "bit x n" for n using that by (metis bit_take_bit_iff)
      have "mask (Suc ?n) XOR x = take_bit (Suc ?n) (NOT x)"
        by (auto simp: bit_eq_iff bit_simps dest: bx)
      also have "\<dots> = mask (Suc ?n) - x"
        using x by (simp add: take_bit_not_eq_mask_diff take_bit_int_eq_self)
      finally show ?thesis by (simp add: mask_eq_exp_minus_1)
    qed
    then have "total_order_key fmt x = 2 ^ Suc ?n - 1 - x"
      using a by (simp add: total_order_key_def width_eq)
    then show ?thesis using True e by (simp add: mag_lim_def)
  next
    case False
    then have s0: "sgn_of fmt x = 0" using fits_sgn [OF assms] by blast
    have a: "x AND sign_mask fmt = 0" by (simp add: and_sign_mask [OF assms] s0)
    have "x OR sign_mask fmt = 1 * 2 ^ ?n OR mag_of fmt x" using e s0 by (simp add: sign_mask_eq or.commute)
    also have "\<dots> = 2 ^ ?n + mag_of fmt x"
      using or_disjoint [OF mag_bounds(1) [of fmt x], of ?n 1] mag_bounds(2) [of fmt x] by (simp add: mag_lim_def)
    finally show ?thesis using a s0 by (simp add: total_order_key_def mag_lim_def)
  qed
qed

lemma total_order_key_inject:
  assumes "fits fmt x" "fits fmt y" "total_order_key fmt x = total_order_key fmt y"
  shows "x = y"
proof -
  note b = mag_bounds [of fmt x] mag_bounds [of fmt y]
  have "sgn_of fmt x = sgn_of fmt y \<and> mag_of fmt x = mag_of fmt y"
    using assms(3) b fits_sgn [OF assms(1)] fits_sgn [OF assms(2)]
    unfolding total_order_key_eq [OF assms(1)] total_order_key_eq [OF assms(2)]
    by (elim disjE) simp_all
  then have "pack fmt (sgn_of fmt x) (mag_of fmt x) = pack fmt (sgn_of fmt y) (mag_of fmt y)" by simp
  then show ?thesis by (simp only: pack_fields)
qed

text \<open>The order agrees with the numbers, and puts -0 before +0.\<close>

lemma total_order_key_rank:
  assumes "fits fmt x" "fits fmt y"
  shows "rank fmt x < rank fmt y \<Longrightarrow> total_order_key fmt x < total_order_key fmt y"
    and "rank fmt x = rank fmt y \<Longrightarrow>
      total_order_key fmt x < total_order_key fmt y \<longleftrightarrow> sgn_of fmt y < sgn_of fmt x"
proof -
  note b = mag_bounds [of fmt x] mag_bounds [of fmt y]
  note k = total_order_key_eq [OF assms(1)] total_order_key_eq [OF assms(2)]
  show "rank fmt x < rank fmt y \<Longrightarrow> total_order_key fmt x < total_order_key fmt y"
    using b fits_sgn [OF assms(1)] fits_sgn [OF assms(2)] unfolding k rank_def by (elim disjE) simp_all
  show "rank fmt x = rank fmt y \<Longrightarrow>
      total_order_key fmt x < total_order_key fmt y \<longleftrightarrow> sgn_of fmt y < sgn_of fmt x"
    using b fits_sgn [OF assms(1)] fits_sgn [OF assms(2)] unfolding k rank_def by (elim disjE) simp_all
qed

lemma total_order_iff:
  "wf_fmt fmt \<Longrightarrow> total_order fmt x y = (one_bits fmt 0, 0) \<longleftrightarrow> total_order_key fmt x \<le> total_order_key fmt y"
  using one_not_zero [of fmt] by (simp add: total_order_def)

section \<open>Signaling comparisons\<close>

lemma compare_sig_quiet:
  assumes "wf_fmt fmt" "fits fmt xa" "fits fmt xb"
  shows "fst (compare_sig fmt xa xb want) = fst (compare_quiet fmt xa xb want)"
    and "snd (compare_sig fmt xa xb want) = (if is_nan fmt xa \<or> is_nan fmt xb then FLAG_INVALID else 0)"
  using assms by (simp_all add: compare_sig_def compare_quiet_def Let_def is_nan_kind)

section \<open>The magnitude forms\<close>

lemma minmax_mag_commute:
  assumes "wf_fmt fmt" "fits fmt xa" "fits fmt xb"
  shows "minmax_mag fmt xa xb mx num = minmax_mag fmt xb xa mx num"
  using minmax_commute [OF assms, of mx num]
  by (auto simp: minmax_mag_def Let_def)

lemma minmax_mag_result:
  assumes wf: "wf_fmt fmt" and x: "fits fmt xa" "fits fmt xb" and nn: "\<not> is_nan fmt xa" "\<not> is_nan fmt xb"
  shows "minmax_mag fmt xa xb mx num \<in> {(xa, 0), (xb, 0)}"
    and "mag_of fmt (fst (minmax_mag fmt xa xb mx num)) =
      (if mx then max (mag_of fmt xa) (mag_of fmt xb) else min (mag_of fmt xa) (mag_of fmt xb))"
  using minmax_result(1) [OF wf x nn, of mx num] nn
  by (auto simp: minmax_mag_def Let_def magnitude_bits_def clear_sign x is_nan_kind [OF wf])

section \<open>The remainder\<close>

text \<open>
  \<open>n\<close> is the integer nearest \<open>x / y\<close> (ties to even) and the result is \<open>x - y n\<close> exactly: the
  quotient of the magnitudes decides both.
\<close>

lemma nearest_quotient:
  fixes X Y :: int
  assumes Y: "0 < Y"
  defines "q \<equiv> X div Y" and "r \<equiv> X mod Y"
  shows "X - (if Y < 2 * r \<or> 2 * r = Y \<and> truthy (q AND 1) then q + 1 else q) * Y =
      (if Y < 2 * r \<or> 2 * r = Y \<and> truthy (q AND 1) then r - Y else r)"
    and "rint RND_RNE s (of_int X / of_int Y) = (if Y < 2 * r \<or> 2 * r = Y \<and> truthy (q AND 1) then q + 1 else q)"
    and "2 * \<bar>if Y < 2 * r \<or> 2 * r = Y \<and> truthy (q AND 1) then r - Y else r\<bar> \<le> Y"
proof -
  have X: "X = q * Y + r" unfolding q_def r_def by (rule div_mult_mod_eq [symmetric])
  have r: "0 \<le> r" "r < Y" using Y by (simp_all add: r_def)
  show "X - (if Y < 2 * r \<or> 2 * r = Y \<and> truthy (q AND 1) then q + 1 else q) * Y =
      (if Y < 2 * r \<or> 2 * r = Y \<and> truthy (q AND 1) then r - Y else r)"
    using X by (simp add: distrib_right)
  show "2 * \<bar>if Y < 2 * r \<or> 2 * r = Y \<and> truthy (q AND 1) then r - Y else r\<bar> \<le> Y"
    using r by auto
  define f :: real where "f = of_int r / of_int Y"
  have f: "0 \<le> f" "f < 1" using r Y by (simp_all add: f_def)
  have eq: "of_int X / of_int Y = of_int q + f" using X Y by (simp add: f_def add_divide_distrib)
  have fl: "\<lfloor>of_int q + f\<rfloor> = q" using f by (simp add: floor_eq_iff)
  have h: "f < 1/2 \<longleftrightarrow> 2 * r < Y" "f = 1/2 \<longleftrightarrow> 2 * r = Y"
  proof -
    have "f < 1/2 \<longleftrightarrow> of_int (2 * r) < (of_int Y :: real)" "f = 1/2 \<longleftrightarrow> of_int (2 * r) = (of_int Y :: real)"
      using Y by (auto simp: f_def field_simps)
    then show "f < 1/2 \<longleftrightarrow> 2 * r < Y" "f = 1/2 \<longleftrightarrow> 2 * r = Y" by (simp_all only: of_int_less_iff of_int_eq_iff)
  qed
  show "rint RND_RNE s (of_int X / of_int Y) = (if Y < 2 * r \<or> 2 * r = Y \<and> truthy (q AND 1) then q + 1 else q)"
    unfolding eq rint_modes(6) fl using h by (auto simp: and_one_eq even_iff_mod_2_eq_zero)
qed

lemma remainder_finite:
  assumes wf: "wf_fmt fmt" and x: "fits fmt xa" "is_finite fmt xa" "fval fmt xa \<noteq> 0"
    and y: "fits fmt xb" "is_finite fmt xb" "fval fmt xb \<noteq> 0"
  defines "n \<equiv> rint RND_RNE 0 (\<bar>fval fmt xa\<bar> / \<bar>fval fmt xb\<bar>)"
  shows "\<exists>bits. remainder_f fmt xa xb = Inr (bits, 0) \<and> fits fmt bits \<and> is_finite fmt bits
    \<and> fval fmt bits = sg (sgn_of fmt xa) * (\<bar>fval fmt xa\<bar> - of_int n * \<bar>fval fmt xb\<bar>)
    \<and> (fval fmt bits = 0 \<longrightarrow> bits = zero_bits fmt (sgn_of fmt xa))
    \<and> 2 * \<bar>fval fmt bits\<bar> \<le> \<bar>fval fmt xb\<bar>"
proof -
  note bx = unpack_bounds [OF wf x] and kx = unpack_kinds [OF wf x]
  note by' = unpack_bounds [OF wf y] and ky = unpack_kinds [OF wf y]
  let ?ma = "u_m (unpack fmt xa)" and ?ea = "u_e (unpack fmt xa)" and ?mb = "u_m (unpack fmt xb)" and ?eb = "u_e (unpack fmt xb)"
  let ?s = "sgn_of fmt xa"
  define e0 where "e0 = min ?ea ?eb"
  define X where "X = push_bit (nat (?ea - e0)) ?ma"
  define Y where "Y = push_bit (nat (?eb - e0)) ?mb"
  define t where "t = (Y < 2 * (X mod Y) \<or> 2 * (X mod Y) = Y \<and> truthy (X div Y AND 1))"
  define rem where "rem = (if t then X mod Y - Y else X mod Y)"
  have Xv: "of_int X * p2 e0 = \<bar>fval fmt xa\<bar>" and Yv: "of_int Y * p2 e0 = \<bar>fval fmt xb\<bar>"
    unfolding bx(5) by'(5) X_def Y_def by (rule shift_value, simp add: e0_def)+
  have X0: "0 < X" and Y0: "0 < Y" using bx(1) by'(1) by (simp_all add: X_def Y_def push_bit_eq_mult)
  have "\<bar>fval fmt xa\<bar> / \<bar>fval fmt xb\<bar> = of_int X / of_int Y" unfolding Xv [symmetric] Yv [symmetric] by simp
  then have nq: "n = (if t then X div Y + 1 else X div Y)"
    unfolding n_def t_def using nearest_quotient(2) [OF Y0, where X = X and s = 0] by simp
  have remn: "rem = X - n * Y" unfolding rem_def nq t_def using nearest_quotient(1) [OF Y0, where X = X] by simp
  have half: "2 * \<bar>rem\<bar> \<le> Y" unfolding rem_def t_def by (rule nearest_quotient(3) [OF Y0])
  have remv: "of_int rem * p2 e0 = \<bar>fval fmt xa\<bar> - of_int n * \<bar>fval fmt xb\<bar>"
    unfolding remn Xv [symmetric] Yv [symmetric] by (simp add: algebra_simps)
  have hv: "2 * \<bar>of_int rem * p2 e0\<bar> \<le> \<bar>fval fmt xb\<bar>"
  proof -
    have "of_int (2 * \<bar>rem\<bar>) * p2 e0 \<le> of_int Y * p2 e0"
      using half by (intro mult_right_mono) (simp_all only: of_int_le_iff less_imp_le p2_pos)
    then show ?thesis by (simp add: Yv abs_mult)
  qed
  have code: "remainder_f fmt xa xb =
    (if rem = 0 then Inr (zero_bits fmt ?s, 0)
     else bind_r (round_pack fmt (?s XOR (if rem < 0 then 1 else 0)) \<bar>rem\<bar> e0 RND_RNE) (\<lambda>(bits, packfl).
       if packfl \<noteq> 0 then Inl AssertionError else Inr (bits, 0)))"
    unfolding remainder_f_def Let_def e0_def [symmetric] X_def [symmetric] Y_def [symmetric]
      t_def [symmetric] rem_def [symmetric] u_sign_unpack [OF wf x(1)] using kx ky by simp
  show ?thesis
  proof (cases "rem = 0")
    case True
    have "fits fmt (zero_bits fmt ?s)" "mag_of fmt (zero_bits fmt ?s) = 0"
      using fits_const(3) [OF wf fits_sgn [OF x(1)]] by (simp_all add: zero_bits_pack)
    moreover have "fval fmt (zero_bits fmt ?s) = 0"
      using fval_pack [OF wf fits_sgn [OF x(1)] _ inf_mag_pos [OF wf]] by (simp add: zero_bits_pack)
    ultimately show ?thesis using True inf_mag_pos [OF wf] remv
      by (intro exI [of _ "zero_bits fmt ?s"]) (simp add: code is_finite_def)
  next
    case False
    let ?t = "if rem < 0 then 1 else 0 :: int"
    let ?sr = "?s XOR ?t"
    have tt: "?t = 0 \<or> ?t = 1" by simp
    note sr = xor_sign [OF fits_sgn [OF x(1)] tt]
    have sr01: "?sr = 0 \<or> ?sr = 1" using sr by blast
    have k0: "0 < \<bar>rem\<bar>" using False by simp
    have kb: "\<bar>rem\<bar> \<le> 2 ^ Suc (man_w fmt)"
    proof (cases "?eb \<le> ?ea")
      case True
      then have "Y = ?mb" by (simp add: Y_def e0_def)
      then show ?thesis using half by'(2) by linarith
    next
      case False
      then have Xm: "X = ?ma" by (simp add: X_def e0_def)
      have "\<bar>rem\<bar> \<le> X"
      proof (cases "X < Y")
        case True
        then have md: "X mod Y = X" "X div Y = 0" using X0 by (simp_all add: div_pos_pos_trivial)
        show ?thesis using X0 True unfolding rem_def t_def md by auto
      next
        case False
        then show ?thesis using half by linarith
      qed
      then show ?thesis using Xm bx(2) by linarith
    qed
    have q: "qmin fmt \<le> e0" using bx(3) by'(3) by (simp add: e0_def)
    have "\<bar>of_int rem * p2 e0\<bar> = of_int \<bar>rem\<bar> * p2 e0" by (simp add: abs_mult)
    then have hi: "of_int \<bar>rem\<bar> * p2 e0 < p2 (emax fmt + 1)"
      using hv by'(4,5) abs_ge_zero [of "of_int rem * p2 e0"] by linarith
    obtain bits where b: "round_pack fmt ?sr \<bar>rem\<bar> e0 RND_RNE = Inr (bits, 0)" "fits fmt bits" "is_finite fmt bits"
      "fval fmt bits = sg ?sr * (of_int \<bar>rem\<bar> * p2 e0)"
      by (rule round_pack_exact [OF wf k0 kb sr01 q hi valid_mode_dir [OF valid_modes(1)]])
    have "sg ?sr * (of_int \<bar>rem\<bar> * p2 e0) = sg ?s * (of_int rem * p2 e0)"
    proof -
      have "sg ?sr = sg ?s * sg ?t" using sr by blast
      then show ?thesis by simp
    qed
    then have v: "fval fmt bits = sg ?s * (\<bar>fval fmt xa\<bar> - of_int n * \<bar>fval fmt xb\<bar>)"
      unfolding b(4) remv [symmetric] .
    have "\<bar>fval fmt bits\<bar> = \<bar>of_int rem * p2 e0\<bar>" unfolding v remv [symmetric] by (simp add: abs_mult)
    moreover have "fval fmt bits \<noteq> 0" unfolding v remv [symmetric] using False by (simp add: sg_def)
    moreover have "remainder_f fmt xa xb = Inr (bits, 0)" using False b(1) by (simp add: code)
    ultimately show ?thesis using b(2,3) v hv by (intro exI [of _ bits]) simp
  qed
qed

lemma remainder_special:
  assumes wf: "wf_fmt fmt" and f: "fits fmt xa" "fits fmt xb" and nn: "\<not> is_nan fmt xa" "\<not> is_nan fmt xb"
  shows "is_inf fmt xa \<or> is_zero fmt xb \<Longrightarrow> remainder_f fmt xa xb = Inr (qnan_bits fmt, FLAG_INVALID)"
    and "is_finite fmt xa \<Longrightarrow> is_inf fmt xb \<Longrightarrow> remainder_f fmt xa xb = Inr (xa, 0)"
  using nn unpack_cases(4) [OF wf f(1)]
  by (auto simp: remainder_f_def Let_def is_inf_def is_zero_def is_nan_kind [OF wf] f)

end
