(* ===== verification/Augmented.thy ===== *)
theory Augmented
  imports Clause5
begin

text \<open>
  \<^verbatim>\<open>python/cft_golden/augmented.py\<close>: the augmented operations of 754-2019 9.5, which deliver
  a rounded result and the error of the rounding. The lemmas show that the residual of an
  addition is always encodable (the \<open>assert\<close> never fires), that the pair carries the exact
  sum up to and including the midpoint beyond which the first result overflows, and when a
  product's residual is itself rounded.
\<close>

section \<open>The code\<close>

type_synonym aug = "int \<times> int \<times> int"

definition pack_exact :: "fp_format \<Rightarrow> int \<Rightarrow> int \<Rightarrow> int \<Rightarrow> int result" where
  "pack_exact fmt sign m e =
    bind_r (round_pack fmt sign m e RND_RTTZ) (\<lambda>(bits, flags).
      if truthy flags then Inl AssertionError else Inr bits)"

definition exact_pair :: "fp_format \<Rightarrow> int \<Rightarrow> int \<Rightarrow> int \<Rightarrow> bool \<Rightarrow> aug result" where
  "exact_pair fmt sign_t t e0 is_mul =
    bind_r (round_pack fmt sign_t t e0 RND_RTTZ) (\<lambda>(r_bits, r_flags).
    if truthy (r_flags AND FLAG_OVERFLOW) then
      let inf = inf_bits fmt sign_t in Inr (inf, inf, FLAG_OVERFLOW OR FLAG_INEXACT)
    else
    let ur = unpack fmt r_bits;
        (rm, re) = (if u_kind ur = KZero then (0, e0) else (u_m ur, u_e ur));
        q = min e0 re;
        diff = push_bit (nat (e0 - q)) t * (if truthy sign_t then - 1 else 1)
             - push_bit (nat (re - q)) rm * (if truthy (u_sign ur) then - 1 else 1)
    in if diff = 0 then Inr (r_bits, zero_bits fmt (u_sign ur), 0)
    else
    let sign_e = (if diff < 0 then 1 else 0);
        mag = \<bar>diff\<bar>;
        tiny = q + bit_length mag - 1 < emin fmt
    in if \<not> is_mul then
      bind_r (pack_exact fmt sign_e mag q) (\<lambda>e_bits.
        Inr (r_bits, e_bits, if tiny then FLAG_UNDERFLOW else 0))
    else
      bind_r (round_pack fmt sign_e mag q RND_RTTZ) (\<lambda>(e_bits, e_flags).
      if truthy (e_flags AND FLAG_INEXACT) then
        (if \<not> tiny then Inl AssertionError
         else Inr (r_bits, e_bits, FLAG_UNDERFLOW OR FLAG_INEXACT))
      else Inr (r_bits, e_bits, if tiny then FLAG_UNDERFLOW else 0)))"

definition specials :: "fp_format \<Rightarrow> unpacked \<Rightarrow> unpacked \<Rightarrow> bool \<Rightarrow> aug option" where
  "specials fmt ua ub invalid =
    (if u_kind ua = KNan \<or> u_kind ub = KNan then
       let q = qnan_bits fmt;
           signaling = list_ex (\<lambda>u. u_kind u = KNan \<and> signaling u) [ua, ub]
       in Some (q, q, if signaling then FLAG_INVALID else 0)
     else if invalid then let q = qnan_bits fmt in Some (q, q, FLAG_INVALID)
     else None)"

definition augmented_add :: "fp_format \<Rightarrow> int \<Rightarrow> int \<Rightarrow> aug result" where
  "augmented_add fmt xa xb =
    (let ua = unpack fmt xa; ub = unpack fmt xb;
         invalid = (u_kind ua = KInf \<and> u_kind ub = KInf \<and> u_sign ua \<noteq> u_sign ub)
     in case specials fmt ua ub invalid of
       Some special \<Rightarrow> Inr special
     | None \<Rightarrow>
       if u_kind ua = KInf \<or> u_kind ub = KInf then
         let inf = inf_bits fmt (if u_kind ua = KInf then u_sign ua else u_sign ub) in Inr (inf, inf, 0)
       else if u_kind ua = KZero \<and> u_kind ub = KZero then
         let rs = (if u_sign ua = u_sign ub then u_sign ua else 0); z = zero_bits fmt rs in Inr (z, z, 0)
       else if u_kind ua = KZero \<or> u_kind ub = KZero then
         let r_bits = (if u_kind ua = KZero then xb else xa)
         in Inr (r_bits, zero_bits fmt (drop_bit (width fmt - 1) r_bits), 0)
       else
       let e0 = min (u_e ua) (u_e ub);
           t = push_bit (nat (u_e ua - e0)) (u_m ua) * (if truthy (u_sign ua) then - 1 else 1)
             + push_bit (nat (u_e ub - e0)) (u_m ub) * (if truthy (u_sign ub) then - 1 else 1)
       in if t = 0 then let z = zero_bits fmt 0 in Inr (z, z, 0)
          else exact_pair fmt (if t < 0 then 1 else 0) \<bar>t\<bar> e0 False)"

definition augmented_sub :: "fp_format \<Rightarrow> int \<Rightarrow> int \<Rightarrow> aug result" where
  "augmented_sub fmt xa xb = augmented_add fmt xa (negate fmt xb)"

definition augmented_mul :: "fp_format \<Rightarrow> int \<Rightarrow> int \<Rightarrow> aug result" where
  "augmented_mul fmt xa xb =
    (let ua = unpack fmt xa; ub = unpack fmt xb;
         invalid = (u_kind ua = KInf \<and> u_kind ub = KZero \<or> u_kind ua = KZero \<and> u_kind ub = KInf)
     in case specials fmt ua ub invalid of
       Some special \<Rightarrow> Inr special
     | None \<Rightarrow>
       let sp = u_sign ua XOR u_sign ub in
       if u_kind ua = KInf \<or> u_kind ub = KInf then let inf = inf_bits fmt sp in Inr (inf, inf, 0)
       else if u_kind ua = KZero \<or> u_kind ub = KZero then let z = zero_bits fmt sp in Inr (z, z, 0)
       else exact_pair fmt sp (u_m ua * u_m ub) (u_e ua + u_e ub) True)"

definition AUG_IMPL :: "string \<rightharpoonup> (fp_format \<Rightarrow> int \<Rightarrow> int \<Rightarrow> aug result)" where
  "AUG_IMPL = map_of [(''augmentedAddition'', augmented_add),
    (''augmentedSubtraction'', augmented_sub), (''augmentedMultiplication'', augmented_mul)]"

definition aug_compute :: "fp_format \<Rightarrow> string \<Rightarrow> int \<Rightarrow> int \<Rightarrow> aug result" where
  "aug_compute fmt fn xa xb =
    (case AUG_IMPL fn of None \<Rightarrow> Inl ValueError | Some impl \<Rightarrow> impl fmt xa xb)"

definition exact_value :: "fp_format \<Rightarrow> int \<Rightarrow> (int \<times> int) result" where
  "exact_value fmt bits =
    (let u = unpack fmt bits
     in if u_kind u = KInf \<or> u_kind u = KNan then Inl ValueError
     else if u_kind u = KZero then Inr (0, 0)
     else Inr (if truthy (u_sign u) then - u_m u else u_m u, u_e u))"

section \<open>Short significands are exact\<close>

text \<open>
  A value with no more bits than the precision is exact when its last bit is on the
  format's grid, or when it is at least the smallest normal.
\<close>

lemma short_exact:
  assumes k: "0 < k" "k \<le> 2 ^ Suc (man_w fmt)" and q: "qmin fmt \<le> q \<or> p2 (emin fmt) \<le> of_int k * p2 q"
  shows "\<not> inexact fmt (of_int k * p2 q)"
proof -
  let ?x = "of_int k * p2 q"
  have x: "0 < ?x" using k(1) by simp
  have ix: "\<not> inexact fmt ?x" if "?x = of_int k' * p2 q'" "rq fmt ?x \<le> q'" for k' q'
  proof -
    define g where "g = rq fmt ?x"
    have pp: "p2 q' = of_int (2 ^ nat (q' - g)) * p2 g" using that(2) by (intro p2_split_int) (simp add: g_def)
    have "?x / p2 g = of_int (k' * 2 ^ nat (q' - g))" unfolding that(1) pp by simp
    then show ?thesis by (simp only: inexact_def Ints_of_int not_not g_def)
  qed
  have il: "p2 (emin fmt) \<le> ?x \<Longrightarrow> emin fmt \<le> ilog2 ?x" using ilog2_ge_iff [OF x] by simp
  show ?thesis
  proof (cases "k = 2 ^ Suc (man_w fmt)")
    case True
    then have e: "?x = of_int 1 * p2 (q + int (Suc (man_w fmt)))" by (simp add: p2_add power_int_add)
    then have "ilog2 ?x = q + int (Suc (man_w fmt))" using ilog2_value [of 1 "q + int (Suc (man_w fmt))"]
      by (simp add: bit_length_def)
    then show ?thesis using q il by (intro ix [OF e]) (auto simp: rq_def qmin_def)
  next
    case False
    then have "bit_length k \<le> int (Suc (man_w fmt))"
      using bit_length_le_iff [of k "Suc (man_w fmt)"] k by simp
    then have "rq fmt ?x \<le> q"
      using ilog2_value [OF k(1), of q] q il by (auto simp: rq_def qmin_def)
    then show ?thesis by (rule ix [OF refl])
  qed
qed

section \<open>The pair\<close>

lemma round_real_overflow_flag:
  "truthy (snd (round_real fmt rnd s x) AND FLAG_OVERFLOW) \<longleftrightarrow> inf_mag fmt \<le> rmag fmt rnd s x"
  by (simp add: round_real_def flag_defs)

lemma round_real_inexact_flag:
  "rmag fmt rnd s x < inf_mag fmt \<Longrightarrow>
    truthy (snd (round_real fmt rnd s x) AND FLAG_INEXACT) \<longleftrightarrow> inexact fmt x"
  by (simp add: round_real_def flag_defs)

text \<open>
  \<open>exact_pair\<close> over the reals: \<open>v\<close> is the exact result, \<open>r\<close> its rounding, \<open>d\<close> the residual.
\<close>

definition pair_spec :: "fp_format \<Rightarrow> int \<Rightarrow> real \<Rightarrow> bool \<Rightarrow> aug result" where
  "pair_spec fmt s v is_mul =
    (if inf_mag fmt \<le> rmag fmt RND_RTTZ s \<bar>v\<bar>
     then Inr (inf_bits fmt s, inf_bits fmt s, FLAG_OVERFLOW OR FLAG_INEXACT)
     else let r = pack fmt s (rmag fmt RND_RTTZ s \<bar>v\<bar>); d = v - fval fmt r;
              (eb, ef) = round_signed fmt RND_RTTZ d;
              tf = (if \<bar>d\<bar> < p2 (emin fmt) then FLAG_UNDERFLOW else 0)
     in if d = 0 then Inr (r, zero_bits fmt s, 0)
     else if \<not> is_mul then (if truthy ef then Inl AssertionError else Inr (r, eb, tf))
     else if truthy (ef AND FLAG_INEXACT)
     then (if \<bar>d\<bar> < p2 (emin fmt) then Inr (r, eb, FLAG_UNDERFLOW OR FLAG_INEXACT) else Inl AssertionError)
     else Inr (r, eb, tf))"

lemma exact_pair_refines:
  assumes wf: "wf_fmt fmt" and t: "0 < t" and s: "s = 0 \<or> s = 1"
  shows "exact_pair fmt s t e0 im = pair_spec fmt s (sg s * (of_int t * p2 e0)) im"
proof -
  let ?x = "of_int t * p2 e0" let ?v = "sg s * ?x"
  let ?mag = "rmag fmt RND_RTTZ s ?x" let ?r = "pack fmt s ?mag"
  have x: "0 < ?x" using t by simp
  have ax: "\<bar>?v\<bar> = ?x" using t by (simp add: abs_mult)
  have dir: "valid_dir RND_RTTZ" by simp
  note rp = round_pack_refines [OF wf t dir, of s e0]
  have mag0: "0 \<le> ?mag" by (rule rmag_nonneg [OF x])
  show ?thesis
  proof (cases "inf_mag fmt \<le> ?mag")
    case True
    then show ?thesis
      unfolding pair_spec_def ax using round_real_overflow_flag [of fmt RND_RTTZ s ?x]
      by (simp add: exact_pair_def rp split_beta Let_def)
  next
    case False
    then have fin: "?mag < inf_mag fmt" "?mag < mag_lim fmt" using inf_mag_less [of fmt] by linarith+
    have rb: "fst (round_real fmt RND_RTTZ s ?x) = ?r" using False by (simp add: round_real_def)
    have fr: "fits fmt ?r" "is_finite fmt ?r" "sgn_of fmt ?r = s"
      using s mag0 fin by (simp_all add: is_finite_def)
    note ur = unpack_cases [OF wf fr(1)]
    define rm re where "rm = (if u_kind (unpack fmt ?r) = KZero then 0 else u_m (unpack fmt ?r))"
      and "re = (if u_kind (unpack fmt ?r) = KZero then e0 else u_e (unpack fmt ?r))"
    have rv: "sg s * (of_int rm * p2 re) = fval fmt ?r"
    proof (cases "u_kind (unpack fmt ?r) = KZero")
      case True
      then show ?thesis using ur(2) by (simp add: rm_def)
    next
      case False
      then show ?thesis using wf fr by (simp add: rm_def re_def fval_unpack)
    qed
    define q where "q = min e0 re"
    define diff where "diff = push_bit (nat (e0 - q)) t * (if truthy s then - 1 else 1)
      - push_bit (nat (re - q)) rm * (if truthy s then - 1 else 1)"
    have dv: "of_int diff * p2 q = ?v - fval fmt ?r"
    proof -
      have "of_int (push_bit (nat (e0 - q)) t) * p2 q = ?x" "of_int (push_bit (nat (re - q)) rm) * p2 q = of_int rm * p2 re"
        by (rule shift_value, simp add: q_def)+
      then show ?thesis unfolding rv [symmetric] diff_def by (cases "truthy s") (simp_all add: sg_def algebra_simps)
    qed
    let ?d = "?v - fval fmt ?r"
    have d0: "diff = 0 \<longleftrightarrow> ?d = 0" unfolding dv [symmetric] by simp
    let ?se = "if diff < 0 then 1 else 0 :: int"
    have se: "?se = 0 \<or> ?se = 1" by simp
    have sd: "sg ?se * of_int \<bar>diff\<bar> * p2 q = ?d" unfolding dv [symmetric] by simp
    have rs: "round_pack fmt ?se \<bar>diff\<bar> q RND_RTTZ = Inr (round_signed fmt RND_RTTZ ?d)" if "diff \<noteq> 0"
      using round_pack_signed [OF wf _ dir se, of "\<bar>diff\<bar>" q] that unfolding sd by simp
    have tn: "q + bit_length \<bar>diff\<bar> - 1 < emin fmt \<longleftrightarrow> \<bar>?d\<bar> < p2 (emin fmt)" if "diff \<noteq> 0"
      using e_res_iff(2) [of "\<bar>diff\<bar>" q "emin fmt"] that unfolding dv [symmetric] by (simp add: abs_mult)
    have code: "exact_pair fmt s t e0 im =
      (if diff = 0 then Inr (?r, zero_bits fmt s, 0)
       else let tiny = q + bit_length \<bar>diff\<bar> - 1 < emin fmt
       in if \<not> im then bind_r (pack_exact fmt ?se \<bar>diff\<bar> q) (\<lambda>e_bits. Inr (?r, e_bits, if tiny then FLAG_UNDERFLOW else 0))
       else bind_r (round_pack fmt ?se \<bar>diff\<bar> q RND_RTTZ) (\<lambda>(e_bits, e_flags).
         if truthy (e_flags AND FLAG_INEXACT) then
           (if \<not> tiny then Inl AssertionError else Inr (?r, e_bits, FLAG_UNDERFLOW OR FLAG_INEXACT))
         else Inr (?r, e_bits, if tiny then FLAG_UNDERFLOW else 0)))"
    proof -
      have p: "(if u_kind (unpack fmt ?r) = KZero then (0, e0) else (u_m (unpack fmt ?r), u_e (unpack fmt ?r))) = (rm, re)"
        by (simp add: rm_def re_def)
      have us: "u_sign (unpack fmt ?r) = s" using wf fr by simp
      have nf: "\<not> truthy (snd (round_real fmt RND_RTTZ s ?x) AND FLAG_OVERFLOW)"
        using round_real_overflow_flag [of fmt RND_RTTZ s ?x] False by simp
      show ?thesis
        unfolding exact_pair_def rp bind_r_simps split_beta rb if_not_P [OF nf] p Let_def fst_conv snd_conv us
          q_def [symmetric] diff_def [symmetric] ..
    qed
    show ?thesis
    proof (cases "diff = 0")
      case True
      then show ?thesis unfolding pair_spec_def ax code using False d0 by (simp add: split_beta)
    next
      case nz: False
      then show ?thesis
        unfolding pair_spec_def ax code Let_def pack_exact_def rs [OF nz] tn [OF nz]
        using False d0 by (simp add: split_beta)
    qed
  qed
qed

section \<open>The residual\<close>

lemma nearer_signed:
  fixes v :: real
  assumes "0 \<le> m" "\<bar>\<bar>v\<bar> - A\<bar> \<le> \<bar>\<bar>v\<bar> - m\<bar>" "\<bar>\<bar>v\<bar> - A\<bar> \<le> \<bar>v\<bar>"
  shows "\<bar>\<bar>v\<bar> - A\<bar> \<le> \<bar>v - m\<bar>" "\<bar>\<bar>v\<bar> - A\<bar> \<le> \<bar>v + m\<bar>"
  using assms by (auto simp: abs_if split: if_splits)

text \<open>No finite operand is nearer to the exact result than its rounding.\<close>

lemma residual_le:
  assumes wf: "wf_fmt fmt" and v: "v \<noteq> 0" and z: "fits fmt z" "is_finite fmt z"
  defines "s \<equiv> if v < 0 then 1 else 0 :: int"
  shows "\<bar>\<bar>v\<bar> - mag_val fmt (rmag fmt RND_RTTZ s \<bar>v\<bar>)\<bar> \<le> \<bar>v - fval fmt z\<bar>"
proof -
  have near: "to_nearest RND_RTTZ" by (simp add: to_nearest_def)
  have pos: "0 < \<bar>v\<bar>" using v by simp
  note n = rmag_nearest [OF near pos, of _ fmt s]
  have b: "\<bar>\<bar>v\<bar> - mag_val fmt (rmag fmt RND_RTTZ s \<bar>v\<bar>)\<bar> \<le> \<bar>\<bar>v\<bar> - mag_val fmt k\<bar>" if "0 \<le> k" for k
    using n [OF that] by (simp only: abs_minus_commute)
  have vz: "fval fmt z = sg (sgn_of fmt z) * mag_val fmt (mag_of fmt z)" by (rule fval_eq [OF wf z])
  have m0: "0 \<le> mag_val fmt (mag_of fmt z)" by simp
  have b0: "\<bar>\<bar>v\<bar> - mag_val fmt (rmag fmt RND_RTTZ s \<bar>v\<bar>)\<bar> \<le> \<bar>v\<bar>" using b [of 0] by simp
  consider "fval fmt z = mag_val fmt (mag_of fmt z)" | "fval fmt z = - mag_val fmt (mag_of fmt z)"
    using vz fits_sgn [OF z(1)] by auto
  then show ?thesis
    by cases (simp_all only: nearer_signed [OF m0 b [OF mag_bounds(1) [of fmt z]] b0] diff_minus_eq_add)
qed

text \<open>A result on the grid \<open>2\<^sup>e\<close> leaves a residual on it, at most half a place of the result.\<close>

lemma residual_grid:
  assumes x: "0 < x" and T: "x = of_int T * p2 e"
    and ne: "x \<noteq> mag_val fmt (rmag fmt RND_RTTZ s x)"
  obtains D where "x - mag_val fmt (rmag fmt RND_RTTZ s x) = of_int D * p2 e" "e < rq fmt x"
    "\<bar>x - mag_val fmt (rmag fmt RND_RTTZ s x)\<bar> \<le> p2 (rq fmt x - 1)"
proof -
  define g where "g = rq fmt x"
  define K where "K = rk fmt RND_RTTZ s x"
  have mv: "mag_val fmt (rmag fmt RND_RTTZ s x) = of_int K * p2 g"
    using mag_val_rmag [OF x, of fmt RND_RTTZ s] by (simp add: g_def K_def)
  have ix: "inexact fmt x" using inexact_iff [OF x, of fmt RND_RTTZ s] ne by simp
  have lt: "e < g"
  proof (rule ccontr)
    assume "\<not> e < g"
    then have pp: "p2 e = of_int (2 ^ nat (e - g)) * p2 g" by (intro p2_split_int) simp
    have "x / p2 g = of_int (T * 2 ^ nat (e - g))" unfolding T pp by simp
    then have "x / p2 g \<in> \<int>" by (simp only: Ints_of_int)
    then show False using ix by (simp add: inexact_def g_def)
  qed
  have pp: "p2 g = of_int (2 ^ nat (g - e)) * p2 e" using lt by (intro p2_split_int) simp
  have e1: "x - of_int K * p2 g = of_int (T - K * 2 ^ nat (g - e)) * p2 e"
    unfolding T pp by (simp add: algebra_simps)
  have e2: "\<bar>x - of_int K * p2 g\<bar> \<le> p2 (g - 1)"
  proof -
    have near: "to_nearest RND_RTTZ" by (simp add: to_nearest_def)
    have "\<bar>of_int K - x / p2 g\<bar> \<le> 1/2"
      using rint_nearest [OF near, of s "x / p2 g"] by (simp add: K_def rk_def g_def)
    then have "\<bar>of_int K - x / p2 g\<bar> * p2 g \<le> 1/2 * p2 g" by (rule mult_right_mono) simp
    moreover have "\<bar>of_int K - x / p2 g\<bar> * p2 g = \<bar>x - of_int K * p2 g\<bar>"
    proof -
      have "(of_int K - x / p2 g) * p2 g = of_int K * p2 g - x" by (simp add: left_diff_distrib)
      then have "\<bar>(of_int K - x / p2 g) * p2 g\<bar> = \<bar>x - of_int K * p2 g\<bar>" by (simp only: abs_minus_commute)
      then show ?thesis by (simp add: abs_mult)
    qed
    ultimately show ?thesis by (simp add: p2_pred)
  qed
  show ?thesis
    by (rule that [of "T - K * 2 ^ nat (g - e)"]) (use e1 e2 lt in \<open>simp_all only: mv g_def\<close>)
qed

lemma residual_signed:
  assumes wf: "wf_fmt fmt" and v: "v \<noteq> 0" and fin: "rmag fmt RND_RTTZ s \<bar>v\<bar> < inf_mag fmt"
    and s: "s = (if v < 0 then 1 else 0)"
  defines "r \<equiv> pack fmt s (rmag fmt RND_RTTZ s \<bar>v\<bar>)"
  shows "v - fval fmt r = sg s * (\<bar>v\<bar> - mag_val fmt (rmag fmt RND_RTTZ s \<bar>v\<bar>))"
    and "fits fmt r" "is_finite fmt r" "sgn_of fmt r = s" "r = fst (round_signed fmt RND_RTTZ v)"
proof -
  have m0: "0 \<le> rmag fmt RND_RTTZ s \<bar>v\<bar>" using v by (intro rmag_nonneg) simp
  have lt: "rmag fmt RND_RTTZ s \<bar>v\<bar> < mag_lim fmt" using fin inf_mag_less [of fmt] by linarith
  have s01: "s = 0 \<or> s = 1" using s by simp
  have "fval fmt r = sg s * mag_val fmt (rmag fmt RND_RTTZ s \<bar>v\<bar>)"
    unfolding r_def by (rule fval_pack [OF wf s01 m0 fin])
  moreover have "v = sg s * \<bar>v\<bar>" using s by simp
  ultimately show "v - fval fmt r = sg s * (\<bar>v\<bar> - mag_val fmt (rmag fmt RND_RTTZ s \<bar>v\<bar>))"
    by (simp only: right_diff_distrib)
  show "fits fmt r" "is_finite fmt r" "sgn_of fmt r = s"
    unfolding r_def using s01 m0 lt fin by (simp_all add: is_finite_def)
  show "r = fst (round_signed fmt RND_RTTZ v)"
    using fin unfolding r_def round_signed_def s by (simp add: round_real_def)
qed

section \<open>Addition\<close>

lemma finite_grid:
  assumes wf: "wf_fmt fmt" and x: "fits fmt x" "is_finite fmt x" "fval fmt x \<noteq> 0" and e: "e \<le> u_e (unpack fmt x)"
  shows "\<exists>T. fval fmt x = of_int T * p2 e"
proof -
  note b = unpack_bounds [OF wf x]
  have "of_int (push_bit (nat (u_e (unpack fmt x) - e)) (u_m (unpack fmt x))) * p2 e
    = of_int (u_m (unpack fmt x)) * p2 (u_e (unpack fmt x))" by (rule shift_value [OF e])
  then have "fval fmt x = of_int ((if truthy (sgn_of fmt x) then - 1 else 1) *
    push_bit (nat (u_e (unpack fmt x) - e)) (u_m (unpack fmt x))) * p2 e"
    using b(6) by (simp add: sg_def)
  then show ?thesis by blast
qed

text \<open>The residual of a sum is a multiple of the finer operand's last place, no longer than it.\<close>

lemma sum_residual_exact:
  assumes wf: "wf_fmt fmt" and a: "fits fmt xa" "is_finite fmt xa" "fval fmt xa \<noteq> 0"
    and b: "fits fmt xb" "is_finite fmt xb" "fval fmt xb \<noteq> 0" and le: "u_e (unpack fmt xa) \<le> u_e (unpack fmt xb)"
    and v: "fval fmt xa + fval fmt xb = v" "v \<noteq> 0"
    and s: "s = (if v < 0 then 1 else 0)" and fin: "rmag fmt RND_RTTZ s \<bar>v\<bar> < inf_mag fmt"
  defines "d \<equiv> v - fval fmt (pack fmt s (rmag fmt RND_RTTZ s \<bar>v\<bar>))"
  assumes d: "d \<noteq> 0"
  obtains eb where "round_signed fmt RND_RTTZ d = (eb, 0)" "fits fmt eb" "is_finite fmt eb" "fval fmt eb = d"
proof -
  let ?e = "u_e (unpack fmt xa)" let ?x = "\<bar>v\<bar>"
  note ba = unpack_bounds [OF wf a]
  obtain Ta where Ta: "fval fmt xa = of_int Ta * p2 ?e" using finite_grid [OF wf a order_refl] by blast
  obtain Tb where Tb: "fval fmt xb = of_int Tb * p2 ?e" using finite_grid [OF wf b le] by blast
  have "v = of_int (Ta + Tb) * p2 ?e" using v(1) Ta Tb by (simp add: distrib_right)
  then have T: "?x = of_int \<bar>Ta + Tb\<bar> * p2 ?e" by (simp add: abs_mult)
  note r = residual_signed [OF wf v(2) fin s]
  have dd: "\<bar>d\<bar> = \<bar>?x - mag_val fmt (rmag fmt RND_RTTZ s ?x)\<bar>"
    unfolding d_def r(1) by (simp add: abs_mult)
  then have ne: "?x \<noteq> mag_val fmt (rmag fmt RND_RTTZ s ?x)" using d by auto
  have x0: "0 < ?x" using v(2) by simp
  obtain D where D: "?x - mag_val fmt (rmag fmt RND_RTTZ s ?x) = of_int D * p2 ?e"
    by (rule residual_grid [OF x0 T ne])
  have dD: "\<bar>d\<bar> = of_int \<bar>D\<bar> * p2 ?e" unfolding dd D by (simp add: abs_mult)
  have "\<bar>d\<bar> \<le> \<bar>v - fval fmt xb\<bar>" unfolding dd s by (rule residual_le [OF wf v(2) b(1,2)])
  then have da: "\<bar>d\<bar> \<le> \<bar>fval fmt xa\<bar>" using v(1) by simp
  have "of_int \<bar>D\<bar> * p2 ?e \<le> of_int (u_m (unpack fmt xa)) * p2 ?e" using da dD ba(5) by simp
  then have "\<bar>D\<bar> \<le> u_m (unpack fmt xa)" by (simp add: mult_le_cancel_right)
  then have kb: "\<bar>D\<bar> \<le> 2 ^ Suc (man_w fmt)" using ba(2) by linarith
  have k0: "0 < \<bar>D\<bar>" using d dD by (cases "D = 0") auto
  have hi: "of_int \<bar>D\<bar> * p2 ?e < p2 (emax fmt + 1)" using da dD ba(4,5) by linarith
  obtain mag where mag: "0 < mag" "mag < inf_mag fmt" "mag_val fmt mag = of_int \<bar>D\<bar> * p2 ?e"
    by (rule representable [OF wf k0 kb ba(3) hi])
  let ?t = "if d < 0 then 1 else 0 :: int"
  have lt: "mag < mag_lim fmt" using mag(2) inf_mag_less [of fmt] by linarith
  show ?thesis
  proof (rule that [of "pack fmt ?t mag"])
    show "round_signed fmt RND_RTTZ d = (pack fmt ?t mag, 0)"
      using round_real_exact [OF mag(1,2), of RND_RTTZ ?t] by (simp add: round_signed_def dD mag(3) split del: if_split)
    have t01: "?t = 0 \<or> ?t = 1" by simp
    show "fits fmt (pack fmt ?t mag)" "is_finite fmt (pack fmt ?t mag)"
      using fits_pack [OF t01] mag lt by (simp_all add: is_finite_def split del: if_split)
    have "fval fmt (pack fmt ?t mag) = sg ?t * \<bar>d\<bar>"
      using fval_pack [OF wf t01 _ mag(2)] mag(1,3) dD by simp
    then show "fval fmt (pack fmt ?t mag) = d" by simp
  qed
qed

definition tiny_flag :: "fp_format \<Rightarrow> real \<Rightarrow> int" where
  "tiny_flag fmt d = (if d \<noteq> 0 \<and> \<bar>d\<bar> < p2 (emin fmt) then FLAG_UNDERFLOW else 0)"

lemma fval_zero_bits: "wf_fmt fmt \<Longrightarrow> s = 0 \<or> s = 1 \<Longrightarrow> fval fmt (zero_bits fmt s) = 0"
  using fval_pack [of fmt s 0] inf_mag_pos [of fmt] by (simp add: zero_bits_pack)

lemma finite_zero_bits: "wf_fmt fmt \<Longrightarrow> s = 0 \<or> s = 1 \<Longrightarrow> is_finite fmt (zero_bits fmt s)"
  using inf_mag_pos [of fmt] by (simp add: zero_bits_pack is_finite_def del: pack_0)

lemma pair_spec_sum:
  assumes wf: "wf_fmt fmt" and a: "fits fmt xa" "is_finite fmt xa" "fval fmt xa \<noteq> 0"
    and b: "fits fmt xb" "is_finite fmt xb" "fval fmt xb \<noteq> 0"
    and v: "fval fmt xa + fval fmt xb = v" "v \<noteq> 0" and s: "s = (if v < 0 then 1 else 0)"
    and fin: "rmag fmt RND_RTTZ s \<bar>v\<bar> < inf_mag fmt"
  shows "\<exists>r e. pair_spec fmt s v False = Inr (r, e, tiny_flag fmt (fval fmt e)) \<and> fits fmt r \<and> fits fmt e
    \<and> is_finite fmt r \<and> is_finite fmt e \<and> fval fmt r + fval fmt e = v \<and> r = fst (round_signed fmt RND_RTTZ v)
    \<and> (fval fmt e = 0 \<longrightarrow> e = zero_bits fmt (sgn_of fmt r))"
proof -
  define r where "r = pack fmt s (rmag fmt RND_RTTZ s \<bar>v\<bar>)"
  define d where "d = v - fval fmt r"
  note rs = residual_signed [OF wf v(2) fin s, folded r_def]
  have s01: "s = 0 \<or> s = 1" using s by simp
  have code: "pair_spec fmt s v False = (let (eb, ef) = round_signed fmt RND_RTTZ d
     in if d = 0 then Inr (r, zero_bits fmt s, 0)
     else if truthy ef then Inl AssertionError else Inr (r, eb, if \<bar>d\<bar> < p2 (emin fmt) then FLAG_UNDERFLOW else 0))"
    unfolding pair_spec_def Let_def r_def d_def using fin by (simp add: split_beta)
  show ?thesis
  proof (cases "d = 0")
    case True
    then have "pair_spec fmt s v False = Inr (r, zero_bits fmt s, 0)" by (simp add: code split_beta)
    then show ?thesis
      using rs(2,3,5) True fits_const(3) [OF wf s01] finite_zero_bits [OF wf s01]
      by (intro exI [of _ r] exI [of _ "zero_bits fmt s"]) (simp add: fval_zero_bits [OF wf s01] tiny_flag_def d_def rs(4) [unfolded rs(5)])
  next
    case False
    obtain eb where e: "round_signed fmt RND_RTTZ d = (eb, 0)" "fits fmt eb" "is_finite fmt eb" "fval fmt eb = d"
    proof (cases "u_e (unpack fmt xa) \<le> u_e (unpack fmt xb)")
      case True
      show ?thesis
        by (rule sum_residual_exact [OF wf a b True v s fin False [unfolded d_def r_def]])
           (rule that, simp_all only: d_def r_def)
    next
      case le: False
      then have le': "u_e (unpack fmt xb) \<le> u_e (unpack fmt xa)" by simp
      have v': "fval fmt xb + fval fmt xa = v" using v(1) by simp
      show ?thesis
        by (rule sum_residual_exact [OF wf b a le' v' v(2) s fin False [unfolded d_def r_def]])
           (rule that, simp_all only: d_def r_def)
    qed
    then have "pair_spec fmt s v False = Inr (r, eb, tiny_flag fmt (fval fmt eb))"
      using False by (simp add: code tiny_flag_def)
    then show ?thesis using rs(2,3,5) e False by (intro exI [of _ r] exI [of _ eb]) (simp add: d_def)
  qed
qed

text \<open>
  The pair of a sum: short of an overflow it carries the exact sum, and underflow is told
  exactly when the error term is subnormal.
\<close>

lemma augmented_add_finite:
  assumes wf: "wf_fmt fmt" and a: "fits fmt xa" "is_finite fmt xa" and b: "fits fmt xb" "is_finite fmt xb"
  defines "v \<equiv> fval fmt xa + fval fmt xb"
  defines "s \<equiv> if v < 0 then 1 else 0 :: int"
  shows "v \<noteq> 0 \<and> inf_mag fmt \<le> rmag fmt RND_RTTZ s \<bar>v\<bar> \<Longrightarrow>
      augmented_add fmt xa xb = Inr (inf_bits fmt s, inf_bits fmt s, FLAG_OVERFLOW OR FLAG_INEXACT)"
    and "v = 0 \<or> rmag fmt RND_RTTZ s \<bar>v\<bar> < inf_mag fmt \<Longrightarrow>
      \<exists>r e. augmented_add fmt xa xb = Inr (r, e, tiny_flag fmt (fval fmt e)) \<and> fits fmt r \<and> fits fmt e
        \<and> is_finite fmt r \<and> is_finite fmt e \<and> fval fmt r + fval fmt e = v
        \<and> (v \<noteq> 0 \<longrightarrow> r = fst (round_signed fmt RND_RTTZ v)) \<and> (fval fmt e = 0 \<longrightarrow> e = zero_bits fmt (sgn_of fmt r))
        \<and> (v = 0 \<longrightarrow> r = zero_bits fmt (if sgn_of fmt xa = sgn_of fmt xb then sgn_of fmt xa else 0))"
proof -
  note ca = unpack_cases [OF wf a(1)] and cb = unpack_cases [OF wf b(1)]
  let ?a = "unpack fmt xa" and ?b = "unpack fmt xb"
  let ?goal = "(v \<noteq> 0 \<and> inf_mag fmt \<le> rmag fmt RND_RTTZ s \<bar>v\<bar> \<longrightarrow>
      augmented_add fmt xa xb = Inr (inf_bits fmt s, inf_bits fmt s, FLAG_OVERFLOW OR FLAG_INEXACT))
    \<and> (v = 0 \<or> rmag fmt RND_RTTZ s \<bar>v\<bar> < inf_mag fmt \<longrightarrow>
      (\<exists>r e. augmented_add fmt xa xb = Inr (r, e, tiny_flag fmt (fval fmt e)) \<and> fits fmt r \<and> fits fmt e
        \<and> is_finite fmt r \<and> is_finite fmt e \<and> fval fmt r + fval fmt e = v
        \<and> (v \<noteq> 0 \<longrightarrow> r = fst (round_signed fmt RND_RTTZ v)) \<and> (fval fmt e = 0 \<longrightarrow> e = zero_bits fmt (sgn_of fmt r))
        \<and> (v = 0 \<longrightarrow> r = zero_bits fmt (if sgn_of fmt xa = sgn_of fmt xb then sgn_of fmt xa else 0))))"
  have fin: "u_kind ?a \<noteq> KInf" "u_kind ?a \<noteq> KNan" "u_kind ?b \<noteq> KInf" "u_kind ?b \<noteq> KNan"
    using ca(4) cb(4) a(2) b(2) by simp_all
  have sp: "specials fmt ?a ?b (u_kind ?a = KInf \<and> u_kind ?b = KInf \<and> u_sign ?a \<noteq> u_sign ?b) = None"
    using fin by (simp add: specials_def)
  have zero_pair: ?goal if "augmented_add fmt xa xb = Inr (zero_bits fmt t, zero_bits fmt t, 0)" "v = 0"
    "t = (if sgn_of fmt xa = sgn_of fmt xb then sgn_of fmt xa else 0)" for t
  proof -
    have t: "t = 0 \<or> t = 1" unfolding that(3) using fits_sgn [OF a(1)] by metis
    show ?thesis
      using that(1,2) fits_const(3) [OF wf t] finite_zero_bits [OF wf t] const_kinds(4) [OF wf t]
      by (simp add: tiny_flag_def fval_zero_bits [OF wf t] that(3) [symmetric])
  qed
  have keep: ?goal if c: "augmented_add fmt xa xb = Inr (z, zero_bits fmt (sgn_of fmt z), 0)"
    and z: "fits fmt z" "is_finite fmt z" "fval fmt z = v" "v \<noteq> 0" for z
  proof -
    have e: "round_signed fmt RND_RTTZ v = (z, 0)" using round_signed_exact [OF wf z(1,2)] z(3,4) by simp
    then have "\<not> inf_mag fmt \<le> rmag fmt RND_RTTZ s \<bar>v\<bar>"
      using round_real_overflow_flag [of fmt RND_RTTZ s "\<bar>v\<bar>"] by (simp add: round_signed_def s_def)
    moreover have "fits fmt (zero_bits fmt (sgn_of fmt z))" "is_finite fmt (zero_bits fmt (sgn_of fmt z))"
      "fval fmt (zero_bits fmt (sgn_of fmt z)) = 0"
      using fits_const(3) [OF wf fits_sgn [OF z(1)]] finite_zero_bits [OF wf fits_sgn [OF z(1)]]
        fval_zero_bits [OF wf fits_sgn [OF z(1)]] by blast+
    ultimately show ?goal using c z e
      by (intro conjI impI exI [of _ z] exI [of _ "zero_bits fmt (sgn_of fmt z)"]) (simp_all add: tiny_flag_def)
  qed
  have top: "drop_bit (width fmt - 1) x = sgn_of fmt x" for x by (simp add: drop_bit_eq_div sgn_of_def)
  have ?goal
  proof (cases "u_kind ?a = KZero \<or> u_kind ?b = KZero")
    case True
    then consider "u_kind ?a = KZero" "u_kind ?b = KZero" | "u_kind ?a = KZero" "u_kind ?b \<noteq> KZero"
      | "u_kind ?a \<noteq> KZero" "u_kind ?b = KZero" by blast
    then show ?thesis
    proof cases
      case 1
      show ?thesis
        by (rule zero_pair [of "if u_sign ?a = u_sign ?b then u_sign ?a else 0"])
           (use 1 sp fin a b wf ca(1,2) cb(1,2) in \<open>simp_all add: augmented_add_def Let_def v_def\<close>)
    next
      case 2
      show ?thesis
        by (rule keep [OF _ b]) (use 2 sp fin ca(2) cb(2) b top in \<open>simp_all add: augmented_add_def Let_def v_def\<close>)
    next
      case 3
      show ?thesis
        by (rule keep [OF _ a]) (use 3 sp fin ca(2) cb(2) a top in \<open>simp_all add: augmented_add_def Let_def v_def\<close>)
    qed
  next
    case False
    then have nz: "fval fmt xa \<noteq> 0" "fval fmt xb \<noteq> 0" using ca(2) cb(2) a b by simp_all
    let ?e = "min (u_e ?a) (u_e ?b)"
    define t where "t = push_bit (nat (u_e ?a - ?e)) (u_m ?a) * (if truthy (u_sign ?a) then - 1 else 1)
      + push_bit (nat (u_e ?b - ?e)) (u_m ?b) * (if truthy (u_sign ?b) then - 1 else 1)"
    have t: "of_int t * p2 ?e = v" unfolding t_def aligned_sum v_def fval_unpack ..
    have code: "augmented_add fmt xa xb =
      (if t = 0 then Inr (zero_bits fmt 0, zero_bits fmt 0, 0)
       else exact_pair fmt (if t < 0 then 1 else 0) \<bar>t\<bar> ?e False)"
      unfolding augmented_add_def Let_def sp option.case t_def [symmetric] using fin False by simp
    show ?thesis
    proof (cases "t = 0")
      case True
      have "sg (u_sign ?a) * (of_int (u_m ?a) * p2 (u_e ?a)) + sg (u_sign ?b) * (of_int (u_m ?b) * p2 (u_e ?b)) = 0"
        using True t by (simp add: v_def fval_unpack mult.assoc)
      moreover have "0 < of_int (u_m ?a) * p2 (u_e ?a)" "0 < of_int (u_m ?b) * p2 (u_e ?b)"
        using False ca(3) [OF a(2)] cb(3) [OF b(2)] by simp_all
      ultimately have "sgn_of fmt xa \<noteq> sgn_of fmt xb"
        using sign_sum_zero [OF ca(1) cb(1)] u_sign_unpack [OF wf a(1)] u_sign_unpack [OF wf b(1)] by metis
      then show ?thesis by (intro zero_pair [of 0]) (use True code t in simp_all)
    next
      case tn: False
      have sv: "(if t < 0 then 1 else 0) = s" unfolding s_def t [symmetric] by (simp add: mult_less_0_iff)
      have s01: "s = 0 \<or> s = 1" by (simp add: s_def)
      have "sg s * (of_int \<bar>t\<bar> * p2 ?e) = v"
        unfolding t [symmetric] sv [symmetric] by simp
      then have c: "augmented_add fmt xa xb = pair_spec fmt s v False"
        using tn exact_pair_refines [OF wf _ s01, of "\<bar>t\<bar>" ?e False] unfolding code sv by simp
      have v0: "v \<noteq> 0" using t tn by auto
      have vd: "fval fmt xa + fval fmt xb = v" and sd: "s = (if v < 0 then 1 else 0)" by (simp_all add: v_def s_def)
      show ?thesis
      proof (intro conjI impI)
        assume "v \<noteq> 0 \<and> inf_mag fmt \<le> rmag fmt RND_RTTZ s \<bar>v\<bar>"
        then show "augmented_add fmt xa xb = Inr (inf_bits fmt s, inf_bits fmt s, FLAG_OVERFLOW OR FLAG_INEXACT)"
          by (simp add: c pair_spec_def)
      next
        assume "v = 0 \<or> rmag fmt RND_RTTZ s \<bar>v\<bar> < inf_mag fmt"
        then have f: "rmag fmt RND_RTTZ s \<bar>v\<bar> < inf_mag fmt" using v0 by blast
        show "\<exists>r e. augmented_add fmt xa xb = Inr (r, e, tiny_flag fmt (fval fmt e)) \<and> fits fmt r \<and> fits fmt e
          \<and> is_finite fmt r \<and> is_finite fmt e \<and> fval fmt r + fval fmt e = v
          \<and> (v \<noteq> 0 \<longrightarrow> r = fst (round_signed fmt RND_RTTZ v)) \<and> (fval fmt e = 0 \<longrightarrow> e = zero_bits fmt (sgn_of fmt r))
        \<and> (v = 0 \<longrightarrow> r = zero_bits fmt (if sgn_of fmt xa = sgn_of fmt xb then sgn_of fmt xa else 0))"
          using pair_spec_sum [OF wf a nz(1) b nz(2) vd v0 sd f] v0 unfolding c by blast
      qed
    qed
  qed
  then show "v \<noteq> 0 \<and> inf_mag fmt \<le> rmag fmt RND_RTTZ s \<bar>v\<bar> \<Longrightarrow>
      augmented_add fmt xa xb = Inr (inf_bits fmt s, inf_bits fmt s, FLAG_OVERFLOW OR FLAG_INEXACT)"
    and "v = 0 \<or> rmag fmt RND_RTTZ s \<bar>v\<bar> < inf_mag fmt \<Longrightarrow>
      \<exists>r e. augmented_add fmt xa xb = Inr (r, e, tiny_flag fmt (fval fmt e)) \<and> fits fmt r \<and> fits fmt e
        \<and> is_finite fmt r \<and> is_finite fmt e \<and> fval fmt r + fval fmt e = v
        \<and> (v \<noteq> 0 \<longrightarrow> r = fst (round_signed fmt RND_RTTZ v)) \<and> (fval fmt e = 0 \<longrightarrow> e = zero_bits fmt (sgn_of fmt r))
        \<and> (v = 0 \<longrightarrow> r = zero_bits fmt (if sgn_of fmt xa = sgn_of fmt xb then sgn_of fmt xa else 0))"
    by blast+
qed

text \<open>
  With ties toward zero a sum overflows exactly beyond the midpoint between the largest
  finite value and the next binade: the midpoint itself goes to the largest finite value.
\<close>

lemma rttz_overflow_iff:
  assumes wf: "wf_fmt fmt" and x: "0 < x"
  shows "inf_mag fmt \<le> rmag fmt RND_RTTZ s x \<longleftrightarrow> overflow_threshold fmt < x"
proof -
  let ?r = "rmag fmt RND_RTTZ s x"
  have near: "to_nearest RND_RTTZ" by (simp add: to_nearest_def)
  have mid: "z < c \<and> \<bar>a - z\<bar> \<le> \<bar>c - z\<bar>" if "b \<le> c" "a < b" "z = (a + b) / 2" for a b c z :: real
    using that by (simp add: abs_if field_simps)
  have False if at: "x = overflow_threshold fmt" and o: "inf_mag fmt \<le> ?r"
  proof -
    have t: "0 \<le> inf_mag fmt - 1" "inf_mag fmt - 1 \<noteq> ?r" using inf_mag_pos [OF wf] o by simp_all
    have "mag_val fmt (inf_mag fmt - 1) < mag_val fmt (inf_mag fmt)"
      using inf_mag_pos [OF wf] by (simp add: mag_val_less_iff)
    moreover have up: "mag_val fmt (inf_mag fmt) \<le> mag_val fmt ?r"
      using inf_mag_pos [OF wf] rmag_nonneg [OF x] o by (simp add: mag_val_le_iff)
    ultimately have "x < mag_val fmt ?r" "\<bar>mag_val fmt (inf_mag fmt - 1) - x\<bar> \<le> \<bar>mag_val fmt ?r - x\<bar>"
      using mid [OF _ _ at [unfolded overflow_threshold_def]] by blast+
    moreover have "\<bar>mag_val fmt ?r - x\<bar> \<le> \<bar>mag_val fmt (inf_mag fmt - 1) - x\<bar>"
      by (rule rmag_nearest [OF near x t(1)])
    ultimately show False using rmag_tie_zero [OF x t] by linarith
  qed
  then show ?thesis
    using no_overflow_below [OF wf near x, of s] overflow_above [OF wf near x, of s] by fastforce
qed

lemma augmented_add_rows:
  assumes "wf_fmt fmt" "fits fmt xa" "is_finite fmt xa" "fits fmt xb" "is_finite fmt xb"
    and v: "v = fval fmt xa + fval fmt xb"
  shows "if overflow_threshold fmt < \<bar>v\<bar>
    then augmented_add fmt xa xb =
      (let inf = inf_bits fmt (if v < 0 then 1 else 0) in Inr (inf, inf, FLAG_OVERFLOW OR FLAG_INEXACT))
    else \<exists>r e. augmented_add fmt xa xb = Inr (r, e, tiny_flag fmt (fval fmt e)) \<and> fits fmt r \<and> fits fmt e
      \<and> is_finite fmt r \<and> is_finite fmt e \<and> fval fmt r + fval fmt e = v
      \<and> r = (if v = 0 then zero_bits fmt (if sgn_of fmt xa = sgn_of fmt xb then sgn_of fmt xa else 0)
             else fst (round_signed fmt RND_RTTZ v))
      \<and> (fval fmt e = 0 \<longrightarrow> e = zero_bits fmt (sgn_of fmt r))"
proof (cases "v = 0")
  case True
  moreover have "0 \<le> overflow_threshold fmt"
    using inf_mag_pos [OF assms(1)] mag_val_nonneg [of "inf_mag fmt" fmt] mag_val_nonneg [of "inf_mag fmt - 1" fmt]
    by (simp add: overflow_threshold_def)
  ultimately show ?thesis using augmented_add_finite(2) [OF assms(1-5)] v by simp
next
  case False
  then have p: "0 < \<bar>v\<bar>" by simp
  show ?thesis
  proof (cases "overflow_threshold fmt < \<bar>v\<bar>")
    case True
    then show ?thesis
      using augmented_add_finite(1) [OF assms(1-5), folded v] False rttz_overflow_iff [OF assms(1) p] by (simp add: Let_def)
  next
    case le: False
    then have "rmag fmt RND_RTTZ (if v < 0 then 1 else 0) \<bar>v\<bar> < inf_mag fmt"
      using rttz_overflow_iff [OF assms(1) p] not_le by blast
    then have "v = 0 \<or> rmag fmt RND_RTTZ (if v < 0 then 1 else 0) \<bar>v\<bar> < inf_mag fmt" ..
    from augmented_add_finite(2) [OF assms(1-5), folded v, OF this] show ?thesis
      unfolding if_not_P [OF le] if_not_P [OF False] using False by blast
  qed
qed

section \<open>Multiplication\<close>

text \<open>
  The residual of a product of two short significands either has a short significand
  itself or lies below the smallest normal.
\<close>

lemma product_residual:
  assumes x: "0 < x" and T: "x = of_int T * p2 e" "0 < T" "T < 2 ^ (2 * Suc (man_w fmt))"
    and ne: "x \<noteq> mag_val fmt (rmag fmt RND_RTTZ s x)" and man: "0 < man_w fmt"
  defines "d \<equiv> \<bar>x - mag_val fmt (rmag fmt RND_RTTZ s x)\<bar>"
  shows "d < p2 (emin fmt) \<or> (\<exists>k. 0 < k \<and> k \<le> 2 ^ Suc (man_w fmt) \<and> d = of_int k * p2 e)"
proof -
  obtain D where D: "x - mag_val fmt (rmag fmt RND_RTTZ s x) = of_int D * p2 e" "e < rq fmt x"
    "d \<le> p2 (rq fmt x - 1)"
    unfolding d_def by (rule residual_grid [OF x T(1) ne])
  have dD: "d = of_int \<bar>D\<bar> * p2 e" unfolding d_def D(1) by (simp add: abs_mult)
  have k0: "0 < \<bar>D\<bar>" using ne D(1) by (cases "D = 0") auto
  show ?thesis
  proof (cases "emin fmt \<le> ilog2 x")
    case True
    have "bit_length T \<le> int (2 * Suc (man_w fmt))" using bit_length_le_iff [of T "2 * Suc (man_w fmt)"] T(2,3) by simp
    then have "ilog2 x \<le> e + int (2 * man_w fmt) + 1" using ilog2_value [OF T(2), of e] by (simp add: T(1))
    then have "rq fmt x - 1 \<le> e + int (man_w fmt)" using True by (simp add: rq_def)
    then have "p2 (rq fmt x - 1) \<le> p2 (e + int (man_w fmt))" by (subst p2_mono_iff)
    also have "\<dots> = 2 ^ man_w fmt * p2 e" by (simp add: p2_add)
    finally have le: "p2 (rq fmt x - 1) \<le> 2 ^ man_w fmt * p2 e" .
    have "d \<le> of_int (2 ^ man_w fmt) * p2 e" using order.trans [OF D(3) le] by simp
    then have "of_int \<bar>D\<bar> * p2 e \<le> of_int (2 ^ man_w fmt) * p2 e" unfolding dD .
    then have "of_int \<bar>D\<bar> \<le> (of_int (2 ^ man_w fmt) :: real)" by (rule mult_right_le_imp_le) simp
    then have "\<bar>D\<bar> \<le> 2 ^ man_w fmt" by (simp only: of_int_le_iff)
    also have "(2::int) ^ man_w fmt \<le> 2 ^ Suc (man_w fmt)" by simp
    finally show ?thesis using k0 dD by blast
  next
    case False
    then have "rq fmt x = emin fmt - int (man_w fmt)" by (simp add: rq_def)
    then have "p2 (rq fmt x - 1) < p2 (emin fmt)" using man by (subst p2_less_iff) simp
    then show ?thesis using D(3) by linarith
  qed
qed

lemma rmag_rttz_sign: "rmag fmt RND_RTTZ s x = rmag fmt RND_RTTZ s' x"
  by (simp add: rmag_def rk_def rint_modes)

text \<open>What a residual that is not told inexact stands for: itself.\<close>

lemma round_signed_quiet:
  assumes wf: "wf_fmt fmt" and d: "d \<noteq> 0" and q: "\<not> truthy (snd (round_signed fmt rnd d) AND FLAG_INEXACT)"
  shows "fits fmt (fst (round_signed fmt rnd d))" "is_finite fmt (fst (round_signed fmt rnd d))"
    and "fval fmt (fst (round_signed fmt rnd d)) = d"
proof -
  let ?t = "if d < 0 then 1 else 0 :: int" let ?m = "rmag fmt rnd ?t \<bar>d\<bar>"
  have pos: "0 < \<bar>d\<bar>" using d by simp
  have lt: "?m < inf_mag fmt"
    using q by (rule contrapos_np) (simp add: round_signed_def round_real_def flag_defs split del: if_split)
  have "\<not> inexact fmt \<bar>d\<bar>" using q round_real_inexact_flag [OF lt] by (simp add: round_signed_def)
  then have mv: "mag_val fmt ?m = \<bar>d\<bar>" using inexact_iff [OF pos, of fmt rnd ?t] by blast
  have r: "fst (round_signed fmt rnd d) = pack fmt ?t ?m"
    using lt by (simp add: round_signed_def round_real_def split del: if_split)
  have m0: "0 \<le> ?m" by (rule rmag_nonneg [OF pos])
  have ml: "?m < mag_lim fmt" using lt inf_mag_less [of fmt] by linarith
  have t01: "?t = 0 \<or> ?t = 1" by simp
  show "fits fmt (fst (round_signed fmt rnd d))" "is_finite fmt (fst (round_signed fmt rnd d))"
    unfolding r using fits_pack [OF t01 m0 ml] lt m0 ml by (simp_all add: is_finite_def split del: if_split)
  show "fval fmt (fst (round_signed fmt rnd d)) = d"
    unfolding r using fval_pack [OF wf t01 m0 lt] by (simp add: mv)
qed

lemma pair_spec_product:
  assumes wf: "wf_fmt fmt" and v: "v \<noteq> 0" and s: "s = (if v < 0 then 1 else 0)"
    and T: "\<bar>v\<bar> = of_int T * p2 e" "0 < T" "T < 2 ^ (2 * Suc (man_w fmt))"
    and fin: "rmag fmt RND_RTTZ s \<bar>v\<bar> < inf_mag fmt"
  shows "\<exists>r e f. pair_spec fmt s v True = Inr (r, e, f) \<and> fits fmt r \<and> is_finite fmt r
    \<and> r = fst (round_signed fmt RND_RTTZ v)
    \<and> (if truthy (f AND FLAG_INEXACT)
       then f = (FLAG_UNDERFLOW OR FLAG_INEXACT) \<and> \<bar>v - fval fmt r\<bar> < p2 (emin fmt)
         \<and> e = fst (round_signed fmt RND_RTTZ (v - fval fmt r))
       else fits fmt e \<and> is_finite fmt e \<and> fval fmt r + fval fmt e = v \<and> f = tiny_flag fmt (fval fmt e))"
proof -
  define r where "r = pack fmt s (rmag fmt RND_RTTZ s \<bar>v\<bar>)"
  define d where "d = v - fval fmt r"
  note rs = residual_signed [OF wf v fin s, folded r_def]
  have s01: "s = 0 \<or> s = 1" using s by simp
  let ?tf = "if \<bar>d\<bar> < p2 (emin fmt) then FLAG_UNDERFLOW else 0"
  let ?eb = "fst (round_signed fmt RND_RTTZ d)" and ?ef = "snd (round_signed fmt RND_RTTZ d)"
  have code: "pair_spec fmt s v True = (if d = 0 then Inr (r, zero_bits fmt s, 0)
     else if truthy (?ef AND FLAG_INEXACT)
     then (if \<bar>d\<bar> < p2 (emin fmt) then Inr (r, ?eb, FLAG_UNDERFLOW OR FLAG_INEXACT) else Inl AssertionError)
     else Inr (r, ?eb, ?tf))"
    unfolding pair_spec_def Let_def r_def d_def using fin by (simp add: split_beta)
  have fi: "\<not> truthy (?tf AND FLAG_INEXACT)" "truthy ((FLAG_UNDERFLOW OR FLAG_INEXACT) AND FLAG_INEXACT)"
    by (simp_all add: flag_defs)
  show ?thesis
  proof (cases "d = 0")
    case True
    then have "pair_spec fmt s v True = Inr (r, zero_bits fmt s, 0)" by (simp add: code)
    then show ?thesis
      using rs(2,3,5) True fits_const(3) [OF wf s01] finite_zero_bits [OF wf s01]
      by (intro exI [of _ r] exI [of _ "zero_bits fmt s"] exI [of _ 0])
         (simp add: fval_zero_bits [OF wf s01] tiny_flag_def d_def)
  next
    case False
    show ?thesis
    proof (cases "truthy (?ef AND FLAG_INEXACT)")
      case ix: True
      have x0: "0 < \<bar>v\<bar>" using v by simp
      have dd: "\<bar>d\<bar> = \<bar>\<bar>v\<bar> - mag_val fmt (rmag fmt RND_RTTZ s \<bar>v\<bar>)\<bar>"
        unfolding d_def rs(1) by (simp add: abs_mult)
      then have ne: "\<bar>v\<bar> \<noteq> mag_val fmt (rmag fmt RND_RTTZ s \<bar>v\<bar>)" using False by auto
      have man: "0 < man_w fmt" using wf_man_w [OF wf] by simp
      have "\<bar>d\<bar> < p2 (emin fmt)"
      proof (rule ccontr)
        assume nt: "\<not> \<bar>d\<bar> < p2 (emin fmt)"
        then obtain k where k: "0 < k" "k \<le> 2 ^ Suc (man_w fmt)" "\<bar>d\<bar> = of_int k * p2 e"
          using product_residual [OF x0 T ne man] unfolding dd by blast
        have nix: "\<not> inexact fmt \<bar>d\<bar>" unfolding k(3) using nt k(3) by (intro short_exact k(1,2)) simp
        let ?t = "if d < 0 then 1 else 0 :: int"
        have x0: "0 < \<bar>d\<bar>" using False by simp
        have "\<bar>d\<bar> \<le> \<bar>v\<bar>"
          using residual_le [OF wf v fits_const(3) [OF wf s01] finite_zero_bits [OF wf s01], folded s]
          unfolding dd by (simp add: fval_zero_bits [OF wf s01])
        then have "rmag fmt RND_RTTZ s \<bar>d\<bar> < inf_mag fmt"
          using rmag_mono [OF x0, of "\<bar>v\<bar>" fmt RND_RTTZ s] fin by linarith
        then have "rmag fmt RND_RTTZ ?t \<bar>d\<bar> < inf_mag fmt" unfolding rmag_rttz_sign [of fmt ?t _ s] .
        then show False using ix nix round_real_inexact_flag by (simp add: round_signed_def)
      qed
      then show ?thesis using False ix fi rs(2,3,5)
        by (intro exI [of _ r] exI [of _ ?eb] exI [of _ "FLAG_UNDERFLOW OR FLAG_INEXACT"]) (simp add: code d_def)
    next
      case nix: False
      note q = round_signed_quiet [OF wf False nix]
      have "?tf = tiny_flag fmt (fval fmt ?eb)" using False by (simp add: tiny_flag_def q(3))
      then show ?thesis using False nix fi(1) rs(2,3,5) q
        by (intro exI [of _ r] exI [of _ ?eb] exI [of _ ?tf]) (simp add: code d_def del: if_split)
    qed
  qed
qed

text \<open>
  The pair of a product: short of an overflow it carries the exact product, unless the
  residual has digits below the format's smallest quantum; then it is the residual rounded
  the same way, and both underflow and inexact say so.
\<close>

lemma augmented_mul_finite:
  assumes wf: "wf_fmt fmt" and a: "fits fmt xa" "is_finite fmt xa" "fval fmt xa \<noteq> 0"
    and b: "fits fmt xb" "is_finite fmt xb" "fval fmt xb \<noteq> 0"
  defines "v \<equiv> fval fmt xa * fval fmt xb"
  defines "s \<equiv> sgn_of fmt xa XOR sgn_of fmt xb"
  shows "inf_mag fmt \<le> rmag fmt RND_RTTZ s \<bar>v\<bar> \<Longrightarrow>
      augmented_mul fmt xa xb = Inr (inf_bits fmt s, inf_bits fmt s, FLAG_OVERFLOW OR FLAG_INEXACT)"
    and "rmag fmt RND_RTTZ s \<bar>v\<bar> < inf_mag fmt \<Longrightarrow>
      \<exists>r e f. augmented_mul fmt xa xb = Inr (r, e, f) \<and> fits fmt r \<and> is_finite fmt r
        \<and> r = fst (round_signed fmt RND_RTTZ v)
        \<and> (if truthy (f AND FLAG_INEXACT)
           then f = (FLAG_UNDERFLOW OR FLAG_INEXACT) \<and> \<bar>v - fval fmt r\<bar> < p2 (emin fmt)
             \<and> e = fst (round_signed fmt RND_RTTZ (v - fval fmt r))
           else fits fmt e \<and> is_finite fmt e \<and> fval fmt r + fval fmt e = v \<and> f = tiny_flag fmt (fval fmt e))"
proof -
  note ba = unpack_bounds [OF wf a] and bb = unpack_bounds [OF wf b]
  note ka = unpack_kinds [OF wf a] and kb = unpack_kinds [OF wf b]
  let ?ma = "u_m (unpack fmt xa)" and ?mb = "u_m (unpack fmt xb)"
  let ?e = "u_e (unpack fmt xa) + u_e (unpack fmt xb)"
  note sp = xor_sign [OF fits_sgn [OF a(1)] fits_sgn [OF b(1)], folded s_def]
  have s01: "s = 0 \<or> s = 1" using sp by blast
  have vs: "v = sg s * (of_int (?ma * ?mb) * p2 ?e)"
  proof -
    have "sg s = sg (sgn_of fmt xa) * sg (sgn_of fmt xb)" using sp by blast
    then show ?thesis unfolding v_def ba(6) bb(6) by (simp add: p2_add)
  qed
  have t0: "0 < ?ma * ?mb" using ba(1) bb(1) by simp
  have va: "\<bar>v\<bar> = of_int (?ma * ?mb) * p2 ?e" unfolding vs using ba(1) bb(1) by (simp add: abs_mult)
  have tl: "?ma * ?mb < 2 ^ (2 * Suc (man_w fmt))"
  proof -
    have "?ma * ?mb < 2 ^ Suc (man_w fmt) * 2 ^ Suc (man_w fmt)"
      using ba(1,2) bb(1,2) by (intro mult_strict_mono) simp_all
    then show ?thesis by (simp only: power_add [symmetric] mult_2)
  qed
  have v0: "v \<noteq> 0" using a(3) b(3) by (simp add: v_def)
  have s: "s = (if v < 0 then 1 else 0)" 
  proof -
    have "0 < of_int (?ma * ?mb) * p2 ?e" using t0 by (simp only: of_int_0_less_iff p2_pos mult_pos_pos)
    from sg_mult_less_0 [OF this s01] show ?thesis unfolding vs by simp
  qed
  have c: "augmented_mul fmt xa xb = pair_spec fmt s v True"
  proof -
    have "specials fmt (unpack fmt xa) (unpack fmt xb) (u_kind (unpack fmt xa) = KInf \<and> u_kind (unpack fmt xb) = KZero
      \<or> u_kind (unpack fmt xa) = KZero \<and> u_kind (unpack fmt xb) = KInf) = None"
      using ka kb by (simp add: specials_def)
    then have "augmented_mul fmt xa xb = exact_pair fmt s (?ma * ?mb) ?e True"
      unfolding augmented_mul_def Let_def u_sign_unpack [OF wf a(1)] u_sign_unpack [OF wf b(1)] s_def [symmetric]
      using ka kb by simp
    then show ?thesis unfolding exact_pair_refines [OF wf t0 s01] vs .
  qed
  show "inf_mag fmt \<le> rmag fmt RND_RTTZ s \<bar>v\<bar> \<Longrightarrow>
      augmented_mul fmt xa xb = Inr (inf_bits fmt s, inf_bits fmt s, FLAG_OVERFLOW OR FLAG_INEXACT)"
    by (simp add: c pair_spec_def)
  show "rmag fmt RND_RTTZ s \<bar>v\<bar> < inf_mag fmt \<Longrightarrow>
      \<exists>r e f. augmented_mul fmt xa xb = Inr (r, e, f) \<and> fits fmt r \<and> is_finite fmt r
        \<and> r = fst (round_signed fmt RND_RTTZ v)
        \<and> (if truthy (f AND FLAG_INEXACT)
           then f = (FLAG_UNDERFLOW OR FLAG_INEXACT) \<and> \<bar>v - fval fmt r\<bar> < p2 (emin fmt)
             \<and> e = fst (round_signed fmt RND_RTTZ (v - fval fmt r))
           else fits fmt e \<and> is_finite fmt e \<and> fval fmt r + fval fmt e = v \<and> f = tiny_flag fmt (fval fmt e))"
    unfolding c by (rule pair_spec_product [OF wf v0 s va t0 tl])
qed

text \<open>Without a finite sum both results are the same encoding.\<close>

lemma augmented_add_special:
  assumes wf: "wf_fmt fmt" and f: "fits fmt xa" "fits fmt xb" and nf: "\<not> (is_finite fmt xa \<and> is_finite fmt xb)"
  shows "\<exists>z fl. augmented_add fmt xa xb = Inr (z, z, fl) \<and> (z = qnan_bits fmt \<or> z = inf_bits fmt 0 \<or> z = inf_bits fmt 1)
    \<and> fl \<in> {0, FLAG_INVALID}"
proof -
  note ca = unpack_cases [OF wf f(1)] and cb = unpack_cases [OF wf f(2)]
  consider "u_kind (unpack fmt xa) = KNan \<or> u_kind (unpack fmt xb) = KNan"
    | "u_kind (unpack fmt xa) \<noteq> KNan" "u_kind (unpack fmt xb) \<noteq> KNan" "u_kind (unpack fmt xa) = KInf"
    | "u_kind (unpack fmt xa) \<noteq> KNan" "u_kind (unpack fmt xb) \<noteq> KNan" "u_kind (unpack fmt xa) \<noteq> KInf"
      "u_kind (unpack fmt xb) = KInf"
    using nf ca(4) cb(4) by blast
  then show ?thesis
  proof cases
    case 1
    then show ?thesis by (auto simp: augmented_add_def specials_def Let_def)
  next
    case 2
    then show ?thesis using ca(1) cb(1) by (auto simp: augmented_add_def specials_def Let_def)
  next
    case 3
    then show ?thesis using cb(1) by (auto simp: augmented_add_def specials_def Let_def)
  qed
qed

lemma exact_value_fval:
  assumes "wf_fmt fmt" "fits fmt x" "is_finite fmt x"
  shows "\<exists>m e. exact_value fmt x = Inr (m, e) \<and> of_int m * p2 e = fval fmt x"
proof -
  note c = unpack_cases [OF assms(1,2)]
  show ?thesis
  proof (cases "u_kind (unpack fmt x) = KZero")
    case True
    then show ?thesis using c(2) by (simp add: exact_value_def Let_def)
  next
    case False
    then show ?thesis using c(1,4) assms by (auto simp: exact_value_def Let_def fval_unpack)
  qed
qed

end
