(* ===== verification/RoundedValue.thy ===== *)
theory RoundedValue
  imports Augmented
begin

text \<open>
  What the rounding a computed result goes through promises, over operand values and not
  over the places of \<open>RoundSpec\<close>: the nearest encodable value with its tie rule, the last
  encodable value on the directed side, and when each flag is raised. The arithmetic
  theorems reduce every operation to \<open>round_signed\<close>; these lemmas say what that is.
\<close>

lemma finite_pack [simp]:
  "wf_fmt fmt \<Longrightarrow> 0 \<le> mag \<Longrightarrow> mag \<le> inf_mag fmt \<Longrightarrow> is_finite fmt (pack fmt s mag) \<longleftrightarrow> mag < inf_mag fmt"
  using order.strict_trans1 [OF _ inf_mag_less [of fmt], of mag] by (simp add: is_finite_def del: pack_0)

lemma round_signed_finite:
  assumes wf: "wf_fmt fmt" and v: "v \<noteq> 0"
    and fin: "rmag fmt rnd (if v < 0 then 1 else 0) \<bar>v\<bar> < inf_mag fmt"
  defines "s \<equiv> if v < 0 then 1 else 0 :: int"
  shows "fst (round_signed fmt rnd v) = pack fmt s (rmag fmt rnd s \<bar>v\<bar>)"
    and "fits fmt (fst (round_signed fmt rnd v))" "is_finite fmt (fst (round_signed fmt rnd v))"
    and "fval fmt (fst (round_signed fmt rnd v)) = sg s * mag_val fmt (rmag fmt rnd s \<bar>v\<bar>)"
proof -
  have s: "s = 0 \<or> s = 1" by (simp add: s_def)
  have m0: "0 \<le> rmag fmt rnd s \<bar>v\<bar>" using v by (intro rmag_nonneg) simp
  have f: "rmag fmt rnd s \<bar>v\<bar> < inf_mag fmt" using fin by (simp add: s_def)
  then have l: "rmag fmt rnd s \<bar>v\<bar> < mag_lim fmt" using inf_mag_less [of fmt] by linarith
  show e: "fst (round_signed fmt rnd v) = pack fmt s (rmag fmt rnd s \<bar>v\<bar>)"
    using f by (simp add: round_signed_def round_real_def s_def)
  show "fits fmt (fst (round_signed fmt rnd v))" unfolding e using s m0 l by simp
  show "is_finite fmt (fst (round_signed fmt rnd v))" unfolding e is_finite_def using m0 l f by simp
  show "fval fmt (fst (round_signed fmt rnd v)) = sg s * mag_val fmt (rmag fmt rnd s \<bar>v\<bar>)"
    unfolding e by (rule fval_pack [OF wf s m0 f])
qed

section \<open>The nearest value\<close>

lemma signed_distance: "v \<noteq> 0 \<Longrightarrow> \<bar>sg (if v < 0 then 1 else 0) * m - v\<bar> = \<bar>m - \<bar>v\<bar>\<bar>"
  for v m :: real
  by (simp add: abs_if)

lemma unsigned_distance:
  fixes v m :: real
  assumes "0 \<le> m"
  shows "\<bar>m - \<bar>v\<bar>\<bar> \<le> \<bar>m - v\<bar>" "\<bar>m - \<bar>v\<bar>\<bar> \<le> \<bar>- m - v\<bar>"
    and "v < 0 \<Longrightarrow> \<bar>v\<bar> \<le> \<bar>m - v\<bar>" "0 \<le> v \<Longrightarrow> \<bar>v\<bar> \<le> \<bar>- m - v\<bar>"
  using assms by linarith+

lemma fval_distance:
  assumes "wf_fmt fmt" "v \<noteq> 0" "fits fmt z" "is_finite fmt z"
  shows "\<bar>mag_val fmt (mag_of fmt z) - \<bar>v\<bar>\<bar> \<le> \<bar>fval fmt z - v\<bar>"
    and "sg (sgn_of fmt z) \<noteq> sg (if v < 0 then 1 else 0) \<Longrightarrow> \<bar>v\<bar> \<le> \<bar>fval fmt z - v\<bar>"
proof -
  have e: "fval fmt z = sg (sgn_of fmt z) * mag_val fmt (mag_of fmt z)" by (rule fval_eq [OF assms(1,3,4)])
  have m: "0 \<le> mag_val fmt (mag_of fmt z)" by simp
  show "\<bar>mag_val fmt (mag_of fmt z) - \<bar>v\<bar>\<bar> \<le> \<bar>fval fmt z - v\<bar>"
    using fits_sgn [OF assms(3)] unsigned_distance(1,2) [OF m, of v] unfolding e by (elim disjE) simp_all
  show "\<bar>v\<bar> \<le> \<bar>fval fmt z - v\<bar>" if "sg (sgn_of fmt z) \<noteq> sg (if v < 0 then 1 else 0)"
    using fits_sgn [OF assms(3)] unsigned_distance(3,4) [OF m, of v] that unfolding e
    by (elim disjE) (simp_all split: if_splits)
qed

lemma round_signed_nearest:
  assumes wf: "wf_fmt fmt" and near: "to_nearest rnd" and v: "v \<noteq> 0" "\<bar>v\<bar> < overflow_threshold fmt"
    and z: "fits fmt z" "is_finite fmt z"
  shows "\<bar>fval fmt (fst (round_signed fmt rnd v)) - v\<bar> \<le> \<bar>fval fmt z - v\<bar>"
proof -
  have p: "0 < \<bar>v\<bar>" using v by simp
  have "\<bar>fval fmt (fst (round_signed fmt rnd v)) - v\<bar> =
      \<bar>mag_val fmt (rmag fmt rnd (if v < 0 then 1 else 0) \<bar>v\<bar>) - \<bar>v\<bar>\<bar>"
    using round_signed_finite(4) [OF wf v(1) no_overflow_below [OF wf near p v(2)]]
      signed_distance [OF v(1)] by simp
  also have "\<dots> \<le> \<bar>mag_val fmt (mag_of fmt z) - \<bar>v\<bar>\<bar>" by (rule rmag_nearest [OF near p]) simp
  also have "\<dots> \<le> \<bar>fval fmt z - v\<bar>" by (rule fval_distance(1) [OF wf v(1) z])
  finally show ?thesis .
qed

text \<open>At a tie the three nearest attributes part ways.\<close>

lemma round_signed_tie:
  assumes wf: "wf_fmt fmt" and near: "to_nearest rnd" and v: "v \<noteq> 0" "\<bar>v\<bar> < overflow_threshold fmt"
    and z: "fits fmt z" "is_finite fmt z" "fval fmt z \<noteq> fval fmt (fst (round_signed fmt rnd v))"
    and tie: "\<bar>fval fmt z - v\<bar> = \<bar>fval fmt (fst (round_signed fmt rnd v)) - v\<bar>"
  shows "rnd = RND_RNE \<Longrightarrow> even (fst (round_signed fmt rnd v))"
    and "rnd = RND_RMM \<Longrightarrow> \<bar>v\<bar> < \<bar>fval fmt (fst (round_signed fmt rnd v))\<bar>"
    and "rnd = RND_RTTZ \<Longrightarrow> \<bar>fval fmt (fst (round_signed fmt rnd v))\<bar> < \<bar>v\<bar>"
proof -
  define s where "s = (if v < 0 then 1 else 0 :: int)"
  have p: "0 < \<bar>v\<bar>" using v by simp
  note fin = no_overflow_below [OF wf near p v(2)]
  note r = round_signed_finite [OF wf v(1) fin, folded s_def]
  have d: "\<bar>fval fmt (fst (round_signed fmt rnd v)) - v\<bar> = \<bar>mag_val fmt (rmag fmt rnd s \<bar>v\<bar>) - \<bar>v\<bar>\<bar>"
    using r(4) signed_distance [OF v(1)] by (simp add: s_def)
  have best: "\<bar>mag_val fmt (rmag fmt rnd s \<bar>v\<bar>) - \<bar>v\<bar>\<bar> \<le> \<bar>mag_val fmt (mag_of fmt z) - \<bar>v\<bar>\<bar>"
    by (rule rmag_nearest [OF near p]) simp
  have eq: "\<bar>mag_val fmt (mag_of fmt z) - \<bar>v\<bar>\<bar> = \<bar>mag_val fmt (rmag fmt rnd s \<bar>v\<bar>) - \<bar>v\<bar>\<bar>"
    using best fval_distance(1) [OF wf v(1) z(1,2)] tie d by linarith
  obtain mag where mag: "0 \<le> mag" "mag \<noteq> rmag fmt rnd s \<bar>v\<bar>"
    "\<bar>mag_val fmt mag - \<bar>v\<bar>\<bar> = \<bar>mag_val fmt (rmag fmt rnd s \<bar>v\<bar>) - \<bar>v\<bar>\<bar>"
  proof (cases "mag_of fmt z = rmag fmt rnd s \<bar>v\<bar>")
    case False
    show ?thesis by (rule that [OF _ False eq]) simp
  next
    case True
    have zv: "fval fmt z = sg (sgn_of fmt z) * mag_val fmt (rmag fmt rnd s \<bar>v\<bar>)"
      using fval_eq [OF wf z(1,2)] True by simp
    with z(3) r(4) have ns: "sg (sgn_of fmt z) \<noteq> sg s" and nz: "mag_val fmt (rmag fmt rnd s \<bar>v\<bar>) \<noteq> 0" by auto
    have "\<bar>v\<bar> \<le> \<bar>fval fmt z - v\<bar>" using fval_distance(2) [OF wf v(1) z(1,2)] ns by (simp add: s_def)
    moreover have "\<bar>mag_val fmt (rmag fmt rnd s \<bar>v\<bar>) - \<bar>v\<bar>\<bar> \<le> \<bar>mag_val fmt 0 - \<bar>v\<bar>\<bar>"
      by (rule rmag_nearest [OF near p]) simp
    ultimately have e0: "\<bar>mag_val fmt 0 - \<bar>v\<bar>\<bar> = \<bar>mag_val fmt (rmag fmt rnd s \<bar>v\<bar>) - \<bar>v\<bar>\<bar>"
      using tie d by simp
    have n0: "0 \<noteq> rmag fmt rnd s \<bar>v\<bar>" using nz by auto
    show ?thesis using that [of 0, OF _ n0 e0] by simp
  qed
  have m0: "0 \<le> rmag fmt rnd s \<bar>v\<bar>" by (rule rmag_nonneg [OF p])
  show "even (fst (round_signed fmt rnd v))" if "rnd = RND_RNE"
  proof -
    have "even (rmag fmt rnd s \<bar>v\<bar>)"
      using rmag_tie_even [OF wf p mag(1)] mag(2,3) that by simp
    moreover have "even ((2::int) ^ (exp_w fmt + man_w fmt))" using wf_man_w [OF wf] by simp
    ultimately show ?thesis unfolding r(1) pack_def by simp
  qed
  have a: "\<bar>fval fmt (fst (round_signed fmt rnd v))\<bar> = mag_val fmt (rmag fmt rnd s \<bar>v\<bar>)"
    using r(4) m0 by (simp add: abs_mult)
  show "\<bar>v\<bar> < \<bar>fval fmt (fst (round_signed fmt rnd v))\<bar>" if "rnd = RND_RMM"
    unfolding a using rmag_tie_away [OF p mag(1)] mag(2,3) that by simp
  show "\<bar>fval fmt (fst (round_signed fmt rnd v))\<bar> < \<bar>v\<bar>" if "rnd = RND_RTTZ"
    unfolding a using rmag_tie_zero [OF p mag(1)] mag(2,3) that by simp
qed

section \<open>The directed attributes\<close>

text \<open>
  The result is on its side of the exact value, and no other finite operand on that side is
  nearer. Overflow delivers the largest finite magnitude where the attribute forbids an
  infinity, so only an infinite result is excluded.
\<close>

lemma max_finite:
  assumes "wf_fmt fmt" "fits fmt z" "is_finite fmt z"
  shows "mag_of fmt z \<le> inf_mag fmt - 1" "\<bar>fval fmt z\<bar> \<le> mag_val fmt (inf_mag fmt - 1)"
  using assms fval_eq [OF assms] inf_mag_pos [OF assms(1)]
  by (simp_all add: is_finite_def abs_mult mag_val_le_iff)

lemma round_signed_mag:
  assumes wf: "wf_fmt fmt" and v: "v \<noteq> 0" and fin: "is_finite fmt (fst (round_signed fmt rnd v))"
  defines "s \<equiv> if v < 0 then 1 else 0 :: int"
  shows "fits fmt (fst (round_signed fmt rnd v))"
    and "fval fmt (fst (round_signed fmt rnd v)) =
      sg s * mag_val fmt (min (rmag fmt rnd s \<bar>v\<bar>) (inf_mag fmt - 1))"
proof -
  have s: "s = 0 \<or> s = 1" by (simp add: s_def)
  note i = inf_mag_pos [OF wf]
  have m0: "0 \<le> rmag fmt rnd s \<bar>v\<bar>" using v by (intro rmag_nonneg) simp
  have b: "fst (round_signed fmt rnd v) = pack fmt s (min (rmag fmt rnd s \<bar>v\<bar>) (inf_mag fmt - 1))"
  proof (cases "inf_mag fmt \<le> rmag fmt rnd s \<bar>v\<bar>")
    case True
    have "\<not> overflow_inf rnd s"
      using fin True i finite_pack [OF wf, of "inf_mag fmt" s]
      by (auto simp: round_signed_def round_real_def s_def [symmetric] simp del: finite_pack split: if_splits)
    with True show ?thesis by (simp add: round_signed_def round_real_def s_def [symmetric])
  next
    case False
    then show ?thesis by (simp add: round_signed_def round_real_def s_def [symmetric] min_def)
  qed
  have m: "0 \<le> min (rmag fmt rnd s \<bar>v\<bar>) (inf_mag fmt - 1)" "min (rmag fmt rnd s \<bar>v\<bar>) (inf_mag fmt - 1) < inf_mag fmt"
    using m0 i by simp_all
  then have l: "min (rmag fmt rnd s \<bar>v\<bar>) (inf_mag fmt - 1) < mag_lim fmt" using inf_mag_less [of fmt] by linarith
  show "fits fmt (fst (round_signed fmt rnd v))" unfolding b using s m(1) l by (rule_tac fits_pack)
  show "fval fmt (fst (round_signed fmt rnd v)) = sg s * mag_val fmt (min (rmag fmt rnd s \<bar>v\<bar>) (inf_mag fmt - 1))"
    unfolding b by (rule fval_pack [OF wf s m])
qed

lemma clamp_low:
  assumes "wf_fmt fmt" "0 < x" "0 \<le> mag" "mag < inf_mag fmt"
  shows "mag_val fmt (min (rlo fmt x) (inf_mag fmt - 1)) \<le> x"
    and "mag_val fmt mag \<le> x \<Longrightarrow> mag_val fmt mag \<le> mag_val fmt (min (rlo fmt x) (inf_mag fmt - 1))"
proof -
  note i = inf_mag_pos [OF assms(1)] and l0 = rlo_nonneg [OF assms(2), of fmt]
  show "mag_val fmt (min (rlo fmt x) (inf_mag fmt - 1)) \<le> x"
    using mag_le_rlo_iff [OF assms(2), of "min (rlo fmt x) (inf_mag fmt - 1)" fmt] i l0 by simp
  assume "mag_val fmt mag \<le> x"
  then have "mag \<le> rlo fmt x" using mag_le_rlo_iff [OF assms(2,3)] by simp
  then show "mag_val fmt mag \<le> mag_val fmt (min (rlo fmt x) (inf_mag fmt - 1))"
    using assms(3,4) i l0 by (simp add: mag_val_le_iff)
qed

text \<open>Toward zero: the largest finite magnitude not above the exact one.\<close>

lemma round_signed_rtz:
  assumes wf: "wf_fmt fmt" and v: "v \<noteq> 0" and z: "fits fmt z" "is_finite fmt z"
  shows "is_finite fmt (fst (round_signed fmt RND_RTZ v))"
    and "\<bar>fval fmt (fst (round_signed fmt RND_RTZ v))\<bar> \<le> \<bar>v\<bar>"
    and "\<bar>fval fmt z\<bar> \<le> \<bar>v\<bar> \<Longrightarrow> \<bar>fval fmt z\<bar> \<le> \<bar>fval fmt (fst (round_signed fmt RND_RTZ v))\<bar>"
proof -
  have p: "0 < \<bar>v\<bar>" using v by simp
  note i = inf_mag_pos [OF wf] and il = inf_mag_less [of fmt]
  have m0: "0 \<le> rmag fmt RND_RTZ s \<bar>v\<bar>" for s by (rule rmag_nonneg [OF p])
  show fin: "is_finite fmt (fst (round_signed fmt RND_RTZ v))"
    using m0 i wf by (simp add: round_signed_def round_real_def overflow_inf_def to_nearest_def del: pack_0)
  have b: "\<bar>fval fmt (fst (round_signed fmt RND_RTZ v))\<bar> = mag_val fmt (min (rlo fmt \<bar>v\<bar>) (inf_mag fmt - 1))"
    using round_signed_mag(2) [OF wf v fin] i rlo_nonneg [OF p] by (simp add: abs_mult rmag_directed)
  have zb: "\<bar>fval fmt z\<bar> = mag_val fmt (mag_of fmt z)" using fval_eq [OF wf z] by (simp add: abs_mult)
  have zf: "mag_of fmt z < inf_mag fmt" using z(2) by (simp add: is_finite_def)
  note c = clamp_low [OF wf p mag_bounds(1) zf]
  show "\<bar>fval fmt (fst (round_signed fmt RND_RTZ v))\<bar> \<le> \<bar>v\<bar>" using c(1) by (simp add: b)
  show "\<bar>fval fmt z\<bar> \<le> \<bar>fval fmt (fst (round_signed fmt RND_RTZ v))\<bar>" if "\<bar>fval fmt z\<bar> \<le> \<bar>v\<bar>"
    using c(2) that by (simp add: b zb)
qed

text \<open>Toward minus infinity, and by negation toward plus infinity.\<close>

lemma clamp_high:
  assumes "wf_fmt fmt" "0 < x" "0 \<le> mag" "rhi fmt x < inf_mag fmt"
  shows "x \<le> mag_val fmt (rhi fmt x)" and "x \<le> mag_val fmt mag \<Longrightarrow> mag_val fmt (rhi fmt x) \<le> mag_val fmt mag"
proof -
  have h0: "0 \<le> rhi fmt x"
    using rmag_between(1) [of fmt x RND_RNE 0] rmag_between(2) [of fmt RND_RNE 0 x] rlo_nonneg [OF assms(2), of fmt]
    by linarith
  show "x \<le> mag_val fmt (rhi fmt x)" using rhi_ge_iff [OF assms(2) h0] by simp
  show "mag_val fmt (rhi fmt x) \<le> mag_val fmt mag" if "x \<le> mag_val fmt mag"
    using that rhi_ge_iff [OF assms(2,3), of fmt] h0 assms(3) by (simp add: mag_val_le_iff)
qed

lemma signed_side:
  fixes a v r m :: real
  assumes "a = r \<or> a = - r" "0 \<le> r" "v < 0" "- v \<le> m" "- v \<le> r \<Longrightarrow> m \<le> r"
  shows "- m \<le> v" "a \<le> v \<Longrightarrow> a \<le> - m"
  using assms by auto

lemma round_signed_rdn:
  assumes wf: "wf_fmt fmt" and v: "v \<noteq> 0" and z: "fits fmt z" "is_finite fmt z"
    and fin: "is_finite fmt (fst (round_signed fmt RND_RDN v))"
  shows "fval fmt (fst (round_signed fmt RND_RDN v)) \<le> v"
    and "fval fmt z \<le> v \<Longrightarrow> fval fmt z \<le> fval fmt (fst (round_signed fmt RND_RDN v))"
proof -
  have p: "0 < \<bar>v\<bar>" using v by simp
  note i = inf_mag_pos [OF wf]
  note r = round_signed_mag(2) [OF wf v fin]
  have ze: "fval fmt z = mag_val fmt (mag_of fmt z) \<or> fval fmt z = - mag_val fmt (mag_of fmt z)"
    using fval_eq [OF wf z] fits_sgn [OF z(1)] by auto
  have zf: "mag_of fmt z < inf_mag fmt" using z(2) by (simp add: is_finite_def)
  have m: "0 \<le> mag_val fmt (mag_of fmt z)" by simp
  show "fval fmt (fst (round_signed fmt RND_RDN v)) \<le> v"
    and "fval fmt z \<le> v \<Longrightarrow> fval fmt z \<le> fval fmt (fst (round_signed fmt RND_RDN v))"
  proof (atomize (full), cases "v < 0")
    case True
    have "rhi fmt \<bar>v\<bar> < inf_mag fmt"
    proof (rule ccontr)
      assume "\<not> rhi fmt \<bar>v\<bar> < inf_mag fmt"
      then have "fst (round_signed fmt RND_RDN v) = pack fmt 1 (inf_mag fmt)"
        using True by (simp add: round_signed_def round_real_def rmag_directed overflow_inf_def)
      then show False using fin finite_pack [OF wf, of "inf_mag fmt" 1] i by simp
    qed
    note h = this clamp_high [OF wf p mag_bounds(1) this]
    have e: "fval fmt (fst (round_signed fmt RND_RDN v)) = - mag_val fmt (rhi fmt \<bar>v\<bar>)"
      using r True h(1) by (simp add: rmag_directed min_def)
    have hz: "- v \<le> mag_val fmt (mag_of fmt z) \<Longrightarrow> mag_val fmt (rhi fmt \<bar>v\<bar>) \<le> mag_val fmt (mag_of fmt z)"
      using h(3) True by simp
    have hv: "- v \<le> mag_val fmt (rhi fmt \<bar>v\<bar>)" using h(2) True by simp
    show "fval fmt (fst (round_signed fmt RND_RDN v)) \<le> v \<and>
      (fval fmt z \<le> v \<longrightarrow> fval fmt z \<le> fval fmt (fst (round_signed fmt RND_RDN v)))"
      unfolding e using signed_side [OF ze m True hv hz] by blast
  next
    case False
    have e: "fval fmt (fst (round_signed fmt RND_RDN v)) = mag_val fmt (min (rlo fmt \<bar>v\<bar>) (inf_mag fmt - 1))"
      using r False by (simp add: rmag_directed)
    have nn: "0 \<le> mag_val fmt (min (rlo fmt \<bar>v\<bar>) (inf_mag fmt - 1))" using rlo_nonneg [OF p, of fmt] i by simp
    note c = clamp_low [OF wf p mag_bounds(1) zf]
    have c1: "mag_val fmt (min (rlo fmt \<bar>v\<bar>) (inf_mag fmt - 1)) \<le> v" using c(1) False by simp
    have c2: "fval fmt z \<le> v \<Longrightarrow> fval fmt z \<le> mag_val fmt (min (rlo fmt \<bar>v\<bar>) (inf_mag fmt - 1))"
      using ze c(2) nn m False by (elim disjE) (simp, linarith)
    show "fval fmt (fst (round_signed fmt RND_RDN v)) \<le> v \<and>
      (fval fmt z \<le> v \<longrightarrow> fval fmt z \<le> fval fmt (fst (round_signed fmt RND_RDN v)))"
      unfolding e using c1 c2 by blast
  qed
qed

lemma round_signed_mirror:
  assumes wf: "wf_fmt fmt" and v: "v \<noteq> 0"
  shows "round_signed fmt RND_RUP v = (negate fmt (fst (round_signed fmt RND_RDN (- v))), snd (round_signed fmt RND_RDN (- v)))"
proof -
  define s where "s = (if v < 0 then 1 else 0 :: int)"
  have t: "(if - v < 0 then 1 else 0) = 1 - s" and s: "s = 0 \<or> s = 1" using v by (simp_all add: s_def)
  have k: "rint RND_RUP s x = rint RND_RDN (1 - s) x" for x using s by (auto simp: rint_modes)
  then have m: "rmag fmt RND_RUP s \<bar>v\<bar> = rmag fmt RND_RDN (1 - s) \<bar>v\<bar>" by (simp add: rmag_def rk_def)
  have u: "tiny fmt RND_RUP s \<bar>v\<bar> = tiny fmt RND_RDN (1 - s) \<bar>v\<bar>" by (simp add: tiny_def unbounded_def k)
  have o': "overflow_inf RND_RUP s = overflow_inf RND_RDN (1 - s)" using s by (auto simp: overflow_inf_def to_nearest_def)
  have n: "negate fmt (pack fmt (1 - s) a) = pack fmt s a" if "0 \<le> a" "a \<le> inf_mag fmt" for a
    using s that order.strict_trans1 [OF that(2) inf_mag_less] by (elim disjE) (simp_all add: negate_pack del: pack_0)
  have r0: "0 \<le> rmag fmt RND_RDN (1 - s) \<bar>v\<bar>" using v by (intro rmag_nonneg) simp
  show ?thesis
    using inf_mag_pos [OF wf] r0
    by (simp only: round_signed_def t s_def [symmetric] abs_minus_cancel round_real_def m u o')
      (simp add: n del: pack_0)
qed

lemma round_signed_rup:
  assumes wf: "wf_fmt fmt" and v: "v \<noteq> 0" and z: "fits fmt z" "is_finite fmt z"
    and fin: "is_finite fmt (fst (round_signed fmt RND_RUP v))"
  shows "v \<le> fval fmt (fst (round_signed fmt RND_RUP v))"
    and "v \<le> fval fmt z \<Longrightarrow> fval fmt (fst (round_signed fmt RND_RUP v)) \<le> fval fmt z"
proof -
  define b where "b = fst (round_signed fmt RND_RDN (- v))"
  have e: "fst (round_signed fmt RND_RUP v) = negate fmt b" by (simp add: round_signed_mirror [OF wf v] b_def)
  have v': "- v \<noteq> 0" using v by simp
  have fb: "fits fmt b"
    using round_real_bits(1) [OF wf, of "\<bar>v\<bar>" "if - v < 0 then 1 else 0" RND_RDN] v
    by (simp add: b_def round_signed_def)
  have nf: "is_finite fmt b" using fin fb by (simp add: e is_finite_def)
  have ve: "fval fmt (fst (round_signed fmt RND_RUP v)) = - fval fmt b" by (simp add: e fval_negate [OF wf fb nf])
  have zn: "fits fmt (negate fmt z)" "is_finite fmt (negate fmt z)" "fval fmt (negate fmt z) = - fval fmt z"
    using z fval_negate [OF wf z] by (simp_all add: is_finite_def)
  note d = round_signed_rdn [OF wf v' zn(1,2) nf [unfolded b_def], folded b_def]
  show "v \<le> fval fmt (fst (round_signed fmt RND_RUP v))" using d(1) by (simp add: ve)
  show "fval fmt (fst (round_signed fmt RND_RUP v)) \<le> fval fmt z" if "v \<le> fval fmt z"
    using d(2) that by (simp add: ve zn(3))
qed

section \<open>The flags\<close>

lemma round_signed_inexact:
  assumes wf: "wf_fmt fmt" and v: "v \<noteq> 0"
  shows "truthy (snd (round_signed fmt rnd v) AND FLAG_INEXACT) \<longleftrightarrow>
    \<not> (\<exists>z. fits fmt z \<and> is_finite fmt z \<and> fval fmt z = v)"
proof -
  define s where "s = (if v < 0 then 1 else 0 :: int)"
  have s: "s = 0 \<or> s = 1" by (simp add: s_def)
  have p: "0 < \<bar>v\<bar>" using v by simp
  have sv: "sg s * \<bar>v\<bar> = v" by (simp add: s_def)
  have r: "(\<exists>z. fits fmt z \<and> is_finite fmt z \<and> fval fmt z = v) \<longleftrightarrow>
      (\<exists>mag. 0 \<le> mag \<and> mag < inf_mag fmt \<and> mag_val fmt mag = \<bar>v\<bar>)"
  proof (intro iffI; elim exE conjE)
    fix z assume z: "fits fmt z" "is_finite fmt z" "fval fmt z = v"
    then show "\<exists>mag. 0 \<le> mag \<and> mag < inf_mag fmt \<and> mag_val fmt mag = \<bar>v\<bar>"
      using fval_eq [OF wf z(1,2)] by (intro exI [of _ "mag_of fmt z"]) (simp add: is_finite_def abs_mult z(3) [symmetric])
  next
    fix mag assume m: "0 \<le> mag" "mag < inf_mag fmt" "mag_val fmt mag = \<bar>v\<bar>"
    then show "\<exists>z. fits fmt z \<and> is_finite fmt z \<and> fval fmt z = v"
      using s wf fval_pack [OF wf s m(1,2)] sv order.strict_trans [OF m(2) inf_mag_less]
      by (intro exI [of _ "pack fmt s mag"]) (simp del: pack_0)
  qed
  show ?thesis
  proof (cases "inf_mag fmt \<le> rmag fmt rnd s \<bar>v\<bar>")
    case True
    have "\<not> (\<exists>mag. 0 \<le> mag \<and> mag < inf_mag fmt \<and> mag_val fmt mag = \<bar>v\<bar>)"
      using rmag_exact [of _ fmt rnd s] p True by force
    with True r show ?thesis by (simp add: round_signed_def round_real_def s_def [symmetric] flag_defs)
  next
    case False
    have "inexact fmt \<bar>v\<bar> \<longleftrightarrow> \<not> (\<exists>mag. 0 \<le> mag \<and> mag < inf_mag fmt \<and> mag_val fmt mag = \<bar>v\<bar>)"
      using inexact_iff_unencodable [OF p, of fmt] rmag_exact [of _ fmt rnd s] p False by (metis not_le)
    moreover have "truthy (snd (round_signed fmt rnd v) AND FLAG_INEXACT) \<longleftrightarrow> inexact fmt \<bar>v\<bar>"
      using round_real_inexact_flag [of fmt rnd s "\<bar>v\<bar>"] False by (simp add: round_signed_def s_def)
    ultimately show ?thesis using r by blast
  qed
qed

lemma round_signed_underflow:
  "truthy (snd (round_signed fmt rnd v) AND FLAG_UNDERFLOW) \<longleftrightarrow>
    rmag fmt rnd (if v < 0 then 1 else 0) \<bar>v\<bar> < inf_mag fmt \<and>
    tiny fmt rnd (if v < 0 then 1 else 0) \<bar>v\<bar> \<and> inexact fmt \<bar>v\<bar>"
  by (auto simp: round_signed_def round_real_def flag_defs)

lemma round_signed_overflow:
  assumes wf: "wf_fmt fmt" and near: "to_nearest rnd" and v: "v \<noteq> 0"
  shows "\<bar>v\<bar> < overflow_threshold fmt \<Longrightarrow> \<not> truthy (snd (round_signed fmt rnd v) AND FLAG_OVERFLOW)"
    and "overflow_threshold fmt < \<bar>v\<bar> \<Longrightarrow>
      round_signed fmt rnd v = (inf_bits fmt (if v < 0 then 1 else 0), FLAG_OVERFLOW OR FLAG_INEXACT)"
proof -
  have p: "0 < \<bar>v\<bar>" using v by simp
  show "\<not> truthy (snd (round_signed fmt rnd v) AND FLAG_OVERFLOW)" if "\<bar>v\<bar> < overflow_threshold fmt"
    unfolding round_signed_def round_real_overflow_flag
    using no_overflow_below [OF wf near p that] by (simp add: not_le)
  show "round_signed fmt rnd v = (inf_bits fmt (if v < 0 then 1 else 0), FLAG_OVERFLOW OR FLAG_INEXACT)"
    if "overflow_threshold fmt < \<bar>v\<bar>"
    using overflow_above [OF wf near p that] near
    by (cases "v < 0")
      (simp_all add: round_signed_def round_real_def inf_bits_pack [OF wf] overflow_inf_def del: pack_0)
qed

end
