(* ===== verification/Opcodes.thy ===== *)
theory Opcodes
  imports SimpleOps
begin

text \<open>
  The opcode view of \<^verbatim>\<open>python/cft_golden/softfloat.py\<close>: the opcode numbers, the dispatch
  table \<open>SIMPLE_IMPL\<close>, the operand steering into the one fused operation and \<open>compute\<close>.
  The lemmas show that steering changes nothing: the engine's add, subtract and multiply
  are the contract's.
\<close>

section \<open>The code\<close>

definition OP_FMA :: int where "OP_FMA = 0"
definition OP_ADD :: int where "OP_ADD = 1"
definition OP_SUB :: int where "OP_SUB = 2"
definition OP_MUL :: int where "OP_MUL = 3"
definition OP_ABS :: int where "OP_ABS = 4"
definition OP_NEG :: int where "OP_NEG = 5"
definition OP_COPYSIGN :: int where "OP_COPYSIGN = 6"
definition OP_MIN :: int where "OP_MIN = 7"
definition OP_MAX :: int where "OP_MAX = 8"
definition OP_MINNUM :: int where "OP_MINNUM = 9"
definition OP_MAXNUM :: int where "OP_MAXNUM = 10"
definition OP_SELECT :: int where "OP_SELECT = 11"
definition OP_CMPLT :: int where "OP_CMPLT = 12"
definition OP_CMPLE :: int where "OP_CMPLE = 13"
definition OP_CMPEQ :: int where "OP_CMPEQ = 14"
definition OP_IAND :: int where "OP_IAND = 16"
definition OP_IOR :: int where "OP_IOR = 17"
definition OP_IXOR :: int where "OP_IXOR = 18"
definition OP_IADD :: int where "OP_IADD = 19"
definition OP_ISUB :: int where "OP_ISUB = 20"
definition OP_ISHL :: int where "OP_ISHL = 21"
definition OP_ISHR :: int where "OP_ISHR = 22"
definition OP_ICMPLT :: int where "OP_ICMPLT = 23"
definition OP_RECIP_SEED :: int where "OP_RECIP_SEED = 26"
definition OP_RSQRT_SEED :: int where "OP_RSQRT_SEED = 27"
definition OP_IMUL :: int where "OP_IMUL = 30"

lemmas op_defs [code_defs] =
  OP_FMA_def OP_ADD_def OP_SUB_def OP_MUL_def OP_ABS_def OP_NEG_def OP_COPYSIGN_def OP_MIN_def
  OP_MAX_def OP_MINNUM_def OP_MAXNUM_def OP_SELECT_def OP_CMPLT_def OP_CMPLE_def OP_CMPEQ_def
  OP_IAND_def OP_IOR_def OP_IXOR_def OP_IADD_def OP_ISUB_def OP_ISHL_def OP_ISHR_def
  OP_ICMPLT_def OP_RECIP_SEED_def OP_RSQRT_SEED_def OP_IMUL_def

definition INT_OPS :: "int list" where
  "INT_OPS = [OP_IAND, OP_IOR, OP_IXOR, OP_IADD, OP_ISUB, OP_ISHL, OP_ISHR, OP_ICMPLT, OP_IMUL]"

definition ARITH_OPS :: "int list" where
  "ARITH_OPS = [OP_FMA, OP_ADD, OP_SUB, OP_MUL]"

definition SIMPLE_OPS :: "int list" where
  "SIMPLE_OPS = [OP_ABS, OP_NEG, OP_COPYSIGN, OP_MIN, OP_MAX, OP_MINNUM, OP_MAXNUM,
    OP_SELECT, OP_CMPLT, OP_CMPLE, OP_CMPEQ, OP_IAND, OP_IOR, OP_IXOR, OP_IADD,
    OP_ISUB, OP_ISHL, OP_ISHR, OP_ICMPLT, OP_IMUL]"

definition SEED_OPS :: "int list" where
  "SEED_OPS = [OP_RECIP_SEED, OP_RSQRT_SEED]"

text \<open>\<open>SIMPLE_IMPL\<close>: the functions take the operands they use and ignore the rest.\<close>

definition SIMPLE_IMPL :: "int \<rightharpoonup> (fp_format \<Rightarrow> int \<Rightarrow> int \<Rightarrow> int \<Rightarrow> (int \<times> int) result)" where
  "SIMPLE_IMPL = map_of [
    (OP_ABS, \<lambda>fmt a b c. Inr (fabs fmt a)),
    (OP_NEG, \<lambda>fmt a b c. Inr (neg fmt a)),
    (OP_COPYSIGN, \<lambda>fmt a b c. Inr (copysign fmt a b)),
    (OP_MIN, \<lambda>fmt a b c. Inr (fmin fmt a b)),
    (OP_MAX, \<lambda>fmt a b c. Inr (fmax fmt a b)),
    (OP_MINNUM, \<lambda>fmt a b c. Inr (fminnum fmt a b)),
    (OP_MAXNUM, \<lambda>fmt a b c. Inr (fmaxnum fmt a b)),
    (OP_SELECT, \<lambda>fmt a b c. Inr (select fmt a b c)),
    (OP_CMPLT, \<lambda>fmt a b c. Inr (cmplt fmt a b)),
    (OP_CMPLE, \<lambda>fmt a b c. Inr (cmple fmt a b)),
    (OP_CMPEQ, \<lambda>fmt a b c. Inr (cmpeq fmt a b)),
    (OP_IAND, \<lambda>fmt a b c. Inr (iand fmt a b)),
    (OP_IOR, \<lambda>fmt a b c. Inr (ior fmt a b)),
    (OP_IXOR, \<lambda>fmt a b c. Inr (ixor fmt a b)),
    (OP_IADD, \<lambda>fmt a b c. Inr (iadd fmt a b)),
    (OP_ISUB, \<lambda>fmt a b c. Inr (isub fmt a b)),
    (OP_ISHL, \<lambda>fmt a b c. Inr (ishl fmt a b)),
    (OP_ISHR, \<lambda>fmt a b c. Inr (ishr fmt a b)),
    (OP_ICMPLT, \<lambda>fmt a b c. Inr (icmplt fmt a b)),
    (OP_RECIP_SEED, \<lambda>fmt a b c. recip_seed fmt a),
    (OP_RSQRT_SEED, \<lambda>fmt a b c. rsqrt_seed fmt a),
    (OP_IMUL, \<lambda>fmt a b c. Inr (imul fmt a b))]"

definition steer :: "fp_format \<Rightarrow> int \<Rightarrow> int \<Rightarrow> int \<Rightarrow> int \<Rightarrow> (int \<times> int \<times> int) result" where
  "steer fmt op xa xb xc =
    (if op = OP_FMA then Inr (xa, xb, xc)
     else if op = OP_ADD then Inr (xa, one_bits fmt 0, xc)
     else if op = OP_SUB then Inr (xa, one_bits fmt 0, negate fmt xc)
     else if op = OP_MUL then
       let sp = (drop_bit (width fmt - 1) xa XOR drop_bit (width fmt - 1) xb) AND 1
       in Inr (xa, xb, zero_bits fmt sp)
     else Inl ValueError)"

definition compute :: "fp_format \<Rightarrow> int \<Rightarrow> int \<Rightarrow> int \<Rightarrow> int \<Rightarrow> int \<Rightarrow> (int \<times> int) result" where
  "compute fmt op xa xb xc rnd =
    (case SIMPLE_IMPL op of
       Some f \<Rightarrow> f fmt xa xb xc
     | None \<Rightarrow>
         if op \<in> set ARITH_OPS then
           bind_r (steer fmt op xa xb xc) (\<lambda>(a, b, c). fma fmt a b c rnd)
         else Inr (qnan_bits fmt, FLAG_INVALID))"

section \<open>Steering\<close>

lemma simple_impl_arith [simp]:
  "SIMPLE_IMPL OP_FMA = None" "SIMPLE_IMPL OP_ADD = None" "SIMPLE_IMPL OP_SUB = None" "SIMPLE_IMPL OP_MUL = None"
  by (simp_all add: SIMPLE_IMPL_def op_defs)

lemma dom_simple_impl: "dom SIMPLE_IMPL = set SIMPLE_OPS \<union> set SEED_OPS"
  by (simp add: SIMPLE_IMPL_def dom_map_of_conv_image_fst SIMPLE_OPS_def SEED_OPS_def) blast

text \<open>Every opcode outside the assigned ones is a defined result, not an exception.\<close>

lemma compute_unassigned:
  assumes "op \<notin> set SIMPLE_OPS" "op \<notin> set SEED_OPS" "op \<notin> set ARITH_OPS"
  shows "compute fmt op xa xb xc rnd = Inr (qnan_bits fmt, FLAG_INVALID)"
proof -
  have "SIMPLE_IMPL op = None" using dom_simple_impl assms(1,2) by blast
  then show ?thesis using assms(3) by (simp add: compute_def)
qed

lemma unpack_one:
  assumes "wf_fmt fmt"
  shows "fits fmt (one_bits fmt 0)" "is_finite fmt (one_bits fmt 0)" "fval fmt (one_bits fmt 0) = 1"
    "u_kind (unpack fmt (one_bits fmt 0)) = KNorm" "sgn_of fmt (one_bits fmt 0) = 0"
proof -
  let ?m = "bias fmt * 2 ^ man_w fmt"
  have m: "2 ^ man_w fmt \<le> ?m" "0 \<le> ?m" "?m < inf_mag fmt"
    using bias_pos [OF assms] exp_mask_bias [OF assms] by (simp_all add: inf_mag_def)
  have lt: "?m < mag_lim fmt" using m(3) inf_mag_less [of fmt] by linarith
  have one: "one_bits fmt 0 = pack fmt 0 ?m" by (rule one_bits_pack [OF assms])
  show f: "fits fmt (one_bits fmt 0)" "sgn_of fmt (one_bits fmt 0) = 0"
    unfolding one using m lt by (simp_all del: pack_0)
  have mag: "mag_of fmt (one_bits fmt 0) = ?m" unfolding one using m lt by (intro mag_of_pack)
  show "is_finite fmt (one_bits fmt 0)" using m(3) by (simp add: is_finite_def mag)
  show "fval fmt (one_bits fmt 0) = 1"
    using fval_pack [OF assms _ m(2,3), of 0] by (simp add: one mag_val_bias [OF assms])
  show "u_kind (unpack fmt (one_bits fmt 0)) = KNorm"
    using m kind_of_iff(3) [OF assms m(2)] by (simp add: u_kind_unpack [OF assms f(1)] mag)
qed

lemma fma_one_add:
  assumes wf: "wf_fmt fmt" and f: "fits fmt xa" "fits fmt xc"
  shows "fma fmt xa (one_bits fmt 0) xc rnd = add fmt xa xc rnd"
proof (cases "valid_mode rnd \<and> is_finite fmt xa \<and> is_finite fmt xc")
  case True
  then show ?thesis
    using fma_finite [OF wf f(1) _ unpack_one(1,2) [OF wf] f(2)] add_finite [OF wf f(1) _ f(2)]
    by (simp add: unpack_one [OF wf])
next
  case False
  note k = unpack_cases(4) [OF wf f(1)] unpack_cases(4) [OF wf f(2)]
  note one = unpack_one(4) [OF wf] unpack_one(5) [OF wf]
  have s1: "u_sign (unpack fmt (one_bits fmt 0)) = 0" using one wf unpack_one(1) [OF wf] by simp
  have nr: "nan_result fmt [unpack fmt xa, unpack fmt (one_bits fmt 0), unpack fmt xc] =
    nan_result fmt [unpack fmt xa, unpack fmt xc]" by (simp add: nan_result_def one)
  show ?thesis
  proof (cases "valid_mode rnd")
    case True
    with False k consider "u_kind (unpack fmt xa) = KNan" | "u_kind (unpack fmt xc) = KNan"
      | "u_kind (unpack fmt xa) = KInf" "u_kind (unpack fmt xc) \<noteq> KNan"
      | "u_kind (unpack fmt xa) \<noteq> KNan" "u_kind (unpack fmt xa) \<noteq> KInf" "u_kind (unpack fmt xc) = KInf"
      by blast
    then show ?thesis
      by cases (use True in \<open>simp_all add: fma_def add_def Let_def nr one s1\<close>)
  qed (simp add: fma_def add_def)
qed

lemma fma_zero_mul:
  assumes wf: "wf_fmt fmt" and f: "fits fmt xa" "fits fmt xb"
  shows "fma fmt xa xb (zero_bits fmt (sgn_of fmt xa XOR sgn_of fmt xb)) rnd = mul fmt xa xb rnd"
proof -
  let ?s = "sgn_of fmt xa XOR sgn_of fmt xb"
  note s = xor_sign [OF fits_sgn [OF f(1)] fits_sgn [OF f(2)], THEN conjunct1]
  note inf = inf_mag_pos [OF wf]
  have z: "fits fmt (zero_bits fmt ?s)" by (rule fits_const(3) [OF wf s])
  have zm: "mag_of fmt (zero_bits fmt ?s) = 0" "sgn_of fmt (zero_bits fmt ?s) = ?s" by (simp_all add: zero_bits_pack)
  have zf: "is_finite fmt (zero_bits fmt ?s)" using inf by (simp add: is_finite_def zm)
  have zk: "u_kind (unpack fmt (zero_bits fmt ?s)) = KZero" by (simp add: u_zero_iff [OF wf z] zm)
  have zv: "fval fmt (zero_bits fmt ?s) = 0" using unpack_cases(2) [OF wf z] zk by simp
  note k = unpack_cases(4) [OF wf f(1)] unpack_cases(4) [OF wf f(2)]
  have nr: "nan_result fmt [unpack fmt xa, unpack fmt xb, unpack fmt (zero_bits fmt ?s)] =
    nan_result fmt [unpack fmt xa, unpack fmt xb]" by (simp add: nan_result_def zk)
  show ?thesis
  proof (cases "valid_mode rnd \<and> is_finite fmt xa \<and> is_finite fmt xb")
    case True
    then show ?thesis
      using fma_finite [OF wf f(1) _ f(2) _ z zf] mul_finite [OF wf f(1) _ f(2)]
      by (simp add: sum_result_def zv zm)
  next
    case False
    show ?thesis
    proof (cases "valid_mode rnd")
      case True
      with False k consider "u_kind (unpack fmt xa) = KNan \<or> u_kind (unpack fmt xb) = KNan"
        | "u_kind (unpack fmt xa) \<noteq> KNan" "u_kind (unpack fmt xb) \<noteq> KNan"
          "u_kind (unpack fmt xa) = KInf \<or> u_kind (unpack fmt xb) = KInf"
        by blast
      then show ?thesis
      proof cases
        case 1
        then show ?thesis using True nr by (simp add: fma_def mul_def Let_def zk)
      next
        case 2
        then show ?thesis using True by (simp add: fma_def mul_def Let_def zk)
      qed
    qed (simp add: fma_def mul_def)
  qed
qed

lemma steer_simps:
  "steer fmt OP_FMA xa xb xc = Inr (xa, xb, xc)"
  "steer fmt OP_ADD xa xb xc = Inr (xa, one_bits fmt 0, xc)"
  "steer fmt OP_SUB xa xb xc = Inr (xa, one_bits fmt 0, negate fmt xc)"
  by (simp_all add: steer_def op_defs)

lemma compute_fma: "compute fmt OP_FMA xa xb xc rnd = fma fmt xa xb xc rnd"
  by (simp add: compute_def ARITH_OPS_def steer_simps)

lemma compute_add:
  assumes "wf_fmt fmt" "fits fmt xa" "fits fmt xc"
  shows "compute fmt OP_ADD xa xb xc rnd = add fmt xa xc rnd"
  using fma_one_add [OF assms] by (simp add: compute_def ARITH_OPS_def steer_simps)

lemma compute_sub:
  assumes "wf_fmt fmt" "fits fmt xa" "fits fmt xc"
  shows "compute fmt OP_SUB xa xb xc rnd = sub fmt xa xc rnd"
  using fma_one_add [OF assms(1,2) fits_negate [OF assms(3)]]
  by (simp add: compute_def ARITH_OPS_def steer_simps sub_def)

lemma compute_mul:
  assumes "wf_fmt fmt" "fits fmt xa" "fits fmt xb"
  shows "compute fmt OP_MUL xa xb xc rnd = mul fmt xa xb rnd"
proof -
  have top: "drop_bit (width fmt - 1) x = sgn_of fmt x" for x by (simp add: drop_bit_eq_div sgn_of_def)
  have "(sgn_of fmt xa XOR sgn_of fmt xb) AND 1 = sgn_of fmt xa XOR sgn_of fmt xb"
    using fits_sgn [OF assms(2)] fits_sgn [OF assms(3)] by auto
  then have "steer fmt OP_MUL xa xb xc = Inr (xa, xb, zero_bits fmt (sgn_of fmt xa XOR sgn_of fmt xb))"
    unfolding steer_def top Let_def by (simp add: op_defs)
  moreover have "OP_MUL \<in> set ARITH_OPS" by (simp add: ARITH_OPS_def)
  ultimately show ?thesis using fma_zero_mul [OF assms] by (simp add: compute_def)
qed

end
