(* ===== verification/TreeFold.thy ===== *)
theory TreeFold
  imports CftPrelude
begin

text \<open>
  The shape of a reduction, apart from what a node computes: the binary tree split at the
  largest power of two strictly inside the range, the binary counter that evaluates it one
  element at a time, and the level cuts a host partitions it by. Nothing here assumes the
  node operation associative or commutative: the counter and the cuts evaluate the same tree.
\<close>

section \<open>The split\<close>

definition half :: "nat \<Rightarrow> nat" where
  "half n = 2 ^ nat (bit_length (int n - 1) - 1)"

lemma half_bounds:
  assumes "2 \<le> n"
  shows "half n < n" "n \<le> 2 * half n" "0 < half n"
proof -
  have p: "0 < int n - 1" using assms by simp
  have b0: "0 < bit_length (int n - 1)" by (rule bit_length_pos [OF p])
  have "int (half n) \<le> int n - 1" using bit_length_bounds(1) [OF p] by (simp add: half_def)
  then show "half n < n" by linarith
  have "nat (bit_length (int n - 1)) = Suc (nat (bit_length (int n - 1) - 1))" using b0 by linarith
  then have "int n - 1 < 2 * int (half n)" using bit_length_bounds(2) [OF p] by (simp add: half_def)
  then show "n \<le> 2 * half n" by linarith
  show "0 < half n" by (simp add: half_def)
qed

lemma half_unique:
  assumes "2 ^ k < n" "n \<le> 2 * 2 ^ k"
  shows "half n = 2 ^ k"
proof -
  have "int (2 ^ k) \<le> int n - 1" "int n - 1 < int (2 * 2 ^ k)"
    using assms by linarith+
  then have "2 ^ k \<le> int n - 1" "int n - 1 < 2 ^ Suc k" by simp_all
  moreover have "0 < int n - 1" using calculation(1) zero_less_power [of "2::int" k] by linarith
  ultimately have "bit_length (int n - 1) = int k + 1" using bit_length_eq_iff by blast
  then show ?thesis by (simp add: half_def)
qed

section \<open>The tree\<close>

function tree :: "('a \<Rightarrow> 'a \<Rightarrow> 'a) \<Rightarrow> 'a list \<Rightarrow> 'a" where
  "tree f xs =
    (if length xs < 2 then hd xs
     else f (tree f (take (half (length xs)) xs)) (tree f (drop (half (length xs)) xs)))"
  by pat_completeness auto
termination
proof (relation "measure (length \<circ> snd)", simp)
  fix f :: "'a \<Rightarrow> 'a \<Rightarrow> 'a" and xs :: "'a list"
  assume a: "\<not> length xs < 2"
  then have "2 \<le> length xs" by simp
  note h = half_bounds [OF this]
  show "((f, take (half (length xs)) xs), f, xs) \<in> measure (length \<circ> snd)" using h by simp
  show "((f, drop (half (length xs)) xs), f, xs) \<in> measure (length \<circ> snd)" using h a by simp
qed

declare tree.simps [simp del]

lemma tree_single [simp]: "tree f [x] = x"
  by (simp add: tree.simps)

lemma tree_append:
  assumes "length xs = 2 ^ k" "ys \<noteq> []" "length ys \<le> 2 ^ k"
  shows "tree f (xs @ ys) = f (tree f xs) (tree f ys)"
proof -
  have "0 < length ys" using assms(2) by simp
  moreover have "0 < length xs" using assms(1) by simp
  moreover have "half (length (xs @ ys)) = length xs"
    using assms calculation by (simp add: half_unique [of k])
  moreover have "\<not> length (xs @ ys) < 2"
    using \<open>0 < length xs\<close> \<open>0 < length ys\<close> unfolding length_append by linarith
  ultimately show ?thesis by (subst tree.simps) simp
qed

section \<open>The binary counter\<close>

text \<open>
  The accumulator levels, lowest first; \<open>None\<close> is a free level. Pushing a block of a level
  carries as a ripple counter does.
\<close>

fun carry :: "('a \<Rightarrow> 'a \<Rightarrow> 'a) \<Rightarrow> 'a option list \<Rightarrow> 'a \<Rightarrow> 'a option list" where
  "carry f [] v = [Some v]"
| "carry f (None # acc) v = Some v # acc"
| "carry f (Some a # acc) v = None # carry f acc (f a v)"

fun fold_levels :: "('a \<Rightarrow> 'a \<Rightarrow> 'a) \<Rightarrow> 'a option list \<Rightarrow> 'a option \<Rightarrow> 'a option" where
  "fold_levels f [] r = r"
| "fold_levels f (None # acc) r = fold_levels f acc r"
| "fold_levels f (Some a # acc) r = fold_levels f acc (Some (case r of None \<Rightarrow> a | Some b \<Rightarrow> f a b))"

text \<open>What the levels from \<open>k\<close> up hold of the elements seen so far.\<close>

fun holds :: "('a \<Rightarrow> 'a \<Rightarrow> 'a) \<Rightarrow> nat \<Rightarrow> 'a option list \<Rightarrow> 'a list \<Rightarrow> bool" where
  "holds f k [] xs \<longleftrightarrow> xs = []"
| "holds f k (None # acc) xs \<longleftrightarrow> holds f (Suc k) acc xs"
| "holds f k (Some a # acc) xs \<longleftrightarrow>
    (\<exists>ys zs. xs = ys @ zs \<and> length zs = 2 ^ k \<and> a = tree f zs \<and> holds f (Suc k) acc ys)"

lemma holds_carry:
  "holds f k acc xs \<Longrightarrow> length zs = 2 ^ k \<Longrightarrow> holds f k (carry f acc (tree f zs)) (xs @ zs)"
proof (induction acc arbitrary: k xs zs)
  case (Cons l acc)
  show ?case
  proof (cases l)
    case (Some a)
    with Cons.prems obtain ys us where u: "xs = ys @ us" "length us = 2 ^ k" "a = tree f us"
      "holds f (Suc k) acc ys" by auto
    have "zs \<noteq> []" using Cons.prems(2) by auto
    then have "f a (tree f zs) = tree f (us @ zs)"
      using tree_append [OF u(2)] Cons.prems(2) u(3) by simp
    moreover have "holds f (Suc k) (carry f acc (tree f (us @ zs))) (ys @ us @ zs)"
      by (rule Cons.IH [OF u(4)]) (simp add: u(2) Cons.prems(2))
    ultimately show ?thesis by (simp add: Some u(1))
  qed (use Cons.prems in auto)
qed auto

lemma holds_foldl: "holds f 0 acc xs \<Longrightarrow> holds f 0 (foldl (carry f) acc ys) (xs @ ys)"
proof (induction ys arbitrary: acc xs)
  case (Cons y ys)
  have "holds f 0 (carry f acc (tree f [y])) (xs @ [y])" by (rule holds_carry [OF Cons.prems]) simp
  then show ?case using Cons.IH [of "carry f acc y" "xs @ [y]"] by simp
qed simp

lemma fold_levels_tree:
  assumes "holds f k acc xs" "length ws \<le> 2 ^ k" "r = (if ws = [] then None else Some (tree f ws))"
  shows "fold_levels f acc r = (if xs @ ws = [] then None else Some (tree f (xs @ ws)))"
  using assms
proof (induction acc arbitrary: k xs ws r)
  case (Cons l acc)
  show ?case
  proof (cases l)
    case None
    then show ?thesis using Cons.IH [of "Suc k" xs ws r] Cons.prems by simp
  next
    case (Some a)
    with Cons.prems obtain ys us where u: "xs = ys @ us" "length us = 2 ^ k" "a = tree f us"
      "holds f (Suc k) acc ys" by auto
    have ne: "us \<noteq> []" using u(2) by auto
    have "(case r of None \<Rightarrow> a | Some b \<Rightarrow> f a b) = tree f (us @ ws)"
      using Cons.prems(2,3) tree_append [OF u(2)] u(3) by (cases "ws = []") simp_all
    then show ?thesis
      using Cons.IH [OF u(4), of "us @ ws" "Some (tree f (us @ ws))"] Cons.prems(2) u(2) ne
      by (simp add: Some u(1))
  qed
qed simp

text \<open>The counter, fed the elements in order and then folded, is the tree.\<close>

theorem counter_tree:
  "xs \<noteq> [] \<Longrightarrow> fold_levels f (foldl (carry f) [] xs) None = Some (tree f xs)"
  using fold_levels_tree [OF holds_foldl [of f "[]" "[]" xs], of "[]" None] by simp

section \<open>Cutting the top levels\<close>

definition cut1 :: "'a list \<Rightarrow> 'a list list" where
  "cut1 xs = (if length xs < 2 then [xs] else [take (half (length xs)) xs, drop (half (length xs)) xs])"

fun cuts :: "nat \<Rightarrow> 'a list \<Rightarrow> 'a list list" where
  "cuts 0 xs = [xs]"
| "cuts (Suc j) xs = concat (map (cuts j) (cut1 xs))"

lemma cuts_short: "length xs < 2 \<Longrightarrow> cuts j xs = [xs]"
  by (induction j) (simp_all add: cut1_def)

lemma concat_map_concat: "concat (map f (concat xss)) = concat (map (\<lambda>xs. concat (map f xs)) xss)"
  by (induction xss) simp_all

text \<open>One more level, cut breadth first.\<close>

lemma cuts_level: "cuts (Suc j) (xs :: 'a list) = concat (map cut1 (cuts j xs))"
proof (induction j arbitrary: xs)
  case 0
  have "concat (map (cuts 0) yss) = yss" for yss :: "'a list list" by (induction yss) simp_all
  then show ?case by simp
next
  case (Suc j)
  have "cuts (Suc (Suc j)) xs = concat (map (\<lambda>ys. concat (map cut1 (cuts j ys))) (cut1 xs))"
  proof -
    have "cuts (Suc j) = (\<lambda>ys :: 'a list. concat (map cut1 (cuts j ys)))" by (intro ext Suc.IH)
    then show ?thesis by (subst cuts.simps(2)) (simp only:)
  qed
  also have "\<dots> = concat (map cut1 (cuts (Suc j) xs))" by (simp add: concat_map_concat o_def)
  finally show ?case .
qed

lemma length_cuts: "length (cuts j xs) \<le> 2 ^ j" "cuts j xs \<noteq> []"
proof (induction j arbitrary: xs)
  case (Suc j)
  {
    case 1
    show ?case using Suc(1) [of "take (half (length xs)) xs"] Suc(1) [of "drop (half (length xs)) xs"] Suc(1) [of xs]
      by (simp add: cut1_def)
  next
    case 2
    show ?case using Suc(2) by (simp add: cut1_def)
  }
qed simp_all

lemma length_cuts_le: "xs \<noteq> [] \<Longrightarrow> length (cuts j xs) \<le> length xs"
proof (induction j arbitrary: xs)
  case 0
  then show ?case by (cases xs) simp_all
next
  case (Suc j)
  show ?case
  proof (cases "length xs < 2")
    case True
    then show ?thesis using Suc by (simp add: cut1_def)
  next
    case False
    then have "2 \<le> length xs" by simp
    note h = half_bounds [OF this]
    have "take (half (length xs)) xs \<noteq> []" "drop (half (length xs)) xs \<noteq> []" using h False by auto
    from Suc.IH [OF this(1)] Suc.IH [OF this(2)] h False show ?thesis by (simp add: cut1_def)
  qed
qed

lemma length_cuts_perfect: "length xs = 2 ^ m \<Longrightarrow> length (cuts j xs) = 2 ^ min j m"
proof (induction j arbitrary: xs m)
  case (Suc j)
  show ?case
  proof (cases m)
    case 0
    then have "cuts (Suc j) xs = [xs]" using Suc.prems by (intro cuts_short) simp
    then show ?thesis by (simp only: 0) simp
  next
    case (Suc m')
    have hl: "half (length xs) = 2 ^ m'" using Suc.prems Suc by (simp add: half_unique)
    have l: "length (take (2 ^ m') xs) = 2 ^ m'" "length (drop (2 ^ m') xs) = 2 ^ m'" using Suc.prems Suc by simp_all
    have "\<not> length xs < 2" using Suc.prems Suc by simp
    then show ?thesis using Suc.IH [OF l(1)] Suc.IH [OF l(2)] hl by (simp add: cut1_def Suc)
  qed
qed simp

text \<open>The tree over the partial results of the cut pieces is the whole tree.\<close>

theorem tree_cuts: "xs \<noteq> [] \<Longrightarrow> tree f (map (tree f) (cuts j xs)) = tree f xs"
proof (induction j arbitrary: xs)
  case (Suc j)
  show ?case
  proof (cases "length xs < 2")
    case True
    then show ?thesis by (simp only: cuts_short list.map tree_single)
  next
    case False
    then have "2 \<le> length xs" by simp
    note h = half_bounds [OF this]
    let ?l = "take (half (length xs)) xs" and ?r = "drop (half (length xs)) xs"
    obtain m where m: "half (length xs) = 2 ^ m" by (simp add: half_def)
    have ll: "length ?l = 2 ^ m" using h m by simp
    have ne: "?l \<noteq> []" "?r \<noteq> []" using h False by auto
    have "length ?r \<le> 2 ^ m" using h m by simp
    then have "length (cuts j ?r) \<le> 2 ^ min j m"
      using length_cuts(1) [of j ?r] length_cuts_le [OF ne(2), of j] by (simp add: min_def)
    then have "tree f (map (tree f) (cuts j ?l) @ map (tree f) (cuts j ?r)) =
      f (tree f (map (tree f) (cuts j ?l))) (tree f (map (tree f) (cuts j ?r)))"
      by (intro tree_append) (simp_all add: length_cuts_perfect [OF ll] length_cuts(2))
    also have "\<dots> = f (tree f ?l) (tree f ?r)" by (simp only: Suc.IH [OF ne(1)] Suc.IH [OF ne(2)])
    also have "\<dots> = tree f xs" using False by (subst (3) tree.simps) simp
    finally show ?thesis using False by (simp add: cut1_def)
  qed
qed simp

end
