(* ===== verification/Reduce.thy ===== *)
theory Reduce
  imports TreeFold Augmented "HOL-Library.AList"
begin

text \<open>
  \<^verbatim>\<open>python/cft_golden/reduce.py\<close>: the reductions of clause 9.4 over a fixed tree. The
  definitions follow the file: the shape (\<open>split\<close>, \<open>tree_adds\<close>, \<open>canonical_ranges\<close>), the
  recursive sum and the streaming accumulator, the sums and dot products, the maximum, the
  segmented form and the scaled products. The lemmas show that every evaluation order the
  hardware may choose computes one tree, bits and flags alike.
\<close>

section \<open>The code: the shape\<close>

definition OP_SUM :: int where "OP_SUM = 24"
definition OP_DOT :: int where "OP_DOT = 25"
definition OP_SUMSQ :: int where "OP_SUMSQ = 28"
definition OP_SUMABS :: int where "OP_SUMABS = 29"
definition OP_MAXALL :: int where "OP_MAXALL = 31"

definition REDUCE_OPS :: "int list" where
  "REDUCE_OPS = [OP_SUM, OP_DOT, OP_SUMSQ, OP_SUMABS, OP_MAXALL]"

definition SP_PROD :: int where "SP_PROD = 0"
definition SP_PROD_SUM :: int where "SP_PROD_SUM = 1"
definition SP_PROD_DIFF :: int where "SP_PROD_DIFF = 2"

definition SCALE_MIN :: int where "SCALE_MIN = - push_bit 63 1"
definition SCALE_MAX :: int where "SCALE_MAX = push_bit 63 1 - 1"

lemmas reduce_defs [code_defs] =
  OP_SUM_def OP_DOT_def OP_SUMSQ_def OP_SUMABS_def OP_MAXALL_def REDUCE_OPS_def
  SP_PROD_def SP_PROD_SUM_def SP_PROD_DIFF_def SCALE_MIN_def SCALE_MAX_def

definition split_at :: "int \<Rightarrow> int \<Rightarrow> int result" where
  "split_at lo hi =
    (let n = hi - lo
     in if n < 2 then Inl ValueError
        else Inr (lo + push_bit (nat (bit_length (n - 1) - 1)) 1))"

lemma split_at_half:
  "2 \<le> hi - lo \<Longrightarrow> split_at lo hi = Inr (lo + int (half (nat (hi - lo))))"
  by (simp add: split_at_def Let_def half_def)

lemma split_at_between: "split_at lo hi = Inr mid \<Longrightarrow> lo < mid \<and> mid < hi"
proof -
  assume s: "split_at lo hi = Inr mid"
  then have n: "2 \<le> hi - lo" by (simp add: split_at_def Let_def split: if_splits)
  then have "2 \<le> nat (hi - lo)" by simp
  from half_bounds [OF this] show ?thesis using s n by (auto simp: split_at_half)
qed

text \<open>\<open>tree_adds\<close> appends every node after its children: the inner function \<open>walk\<close>.\<close>

function walk :: "int \<Rightarrow> int \<Rightarrow> (int \<times> int \<times> int) list \<Rightarrow> (int \<times> int \<times> int) list result" where
  "walk lo hi out =
    (if hi - lo < 2 then Inr out
     else bind_r (split_at lo hi) (\<lambda>mid.
          bind_r (walk lo mid out) (\<lambda>out1.
          bind_r (walk mid hi out1) (\<lambda>out2.
          Inr (out2 @ [(lo, mid, hi)])))))"
  by pat_completeness auto
termination
  by (relation "measure (\<lambda>(lo, hi, out). nat (hi - lo))")
    (auto dest!: split_at_between)

declare walk.simps [simp del]

definition tree_adds :: "int \<Rightarrow> (int \<times> int \<times> int) list result" where
  "tree_adds n = (if n < 0 then Inl ValueError else walk 0 n [])"

text \<open>One pass of \<open>canonical_ranges\<close>, and its loop.\<close>

definition cut_pass :: "(int \<times> int) list \<Rightarrow> (int \<times> int) list result" where
  "cut_pass ranges =
    fold_r (\<lambda>nxt (lo, hi).
      if hi - lo < 2 then Inr (nxt @ [(lo, hi)])
      else bind_r (split_at lo hi) (\<lambda>mid. Inr (nxt @ [(lo, mid)] @ [(mid, hi)]))) [] ranges"

lemma cut_pass_grows:
  "fold_r (\<lambda>nxt (lo, hi).
      if hi - lo < 2 then Inr (nxt @ [(lo, hi)])
      else bind_r (split_at lo hi) (\<lambda>mid. Inr (nxt @ [(lo, mid)] @ [(mid, hi)]))) acc ranges = Inr nxt
    \<Longrightarrow> length acc + length ranges \<le> length nxt"
proof (induction ranges arbitrary: acc)
  case (Cons r ranges)
  obtain lo hi where r: "r = (lo, hi)" by fastforce
  show ?case
  proof (cases "hi - lo < 2")
    case True
    then show ?thesis using Cons.IH [of "acc @ [(lo, hi)]"] Cons.prems r by simp
  next
    case False
    then obtain mid where m: "split_at lo hi = Inr mid" using split_at_half [where lo = lo and hi = hi] by force
    then show ?thesis
      using Cons.IH [of "acc @ [(lo, mid)] @ [(mid, hi)]"] Cons.prems r False by simp
  qed
qed simp

function cut_loop :: "(int \<times> int) list \<Rightarrow> int \<Rightarrow> (int \<times> int) list result" where
  "cut_loop ranges parts =
    (if int (length ranges) < parts then
       bind_r (cut_pass ranges) (\<lambda>nxt.
         if length nxt = length ranges then Inr ranges else cut_loop nxt parts)
     else Inr ranges)"
  by pat_completeness auto
termination
  by (relation "measure (\<lambda>(ranges, parts). nat (parts - int (length ranges)))")
    (auto simp: cut_pass_def dest!: cut_pass_grows)

declare cut_loop.simps [simp del]

definition canonical_ranges :: "int \<Rightarrow> int \<Rightarrow> (int \<times> int) list result" where
  "canonical_ranges n parts =
    (if parts < 1 \<or> parts AND (parts - 1) \<noteq> 0 then Inl ValueError
     else if n \<le> 0 then Inr []
     else cut_loop [(0, n)] parts)"

section \<open>The code: sums\<close>

function reduce_bits :: "fp_format \<Rightarrow> int list \<Rightarrow> int \<Rightarrow> int \<Rightarrow> int option \<Rightarrow> (int \<times> int) result" where
  "reduce_bits fmt xs rnd lo hi0 =
    bind_r (check_mode rnd) (\<lambda>_.
    let hi = (case hi0 of None \<Rightarrow> int (length xs) | Some h \<Rightarrow> h)
    in if hi < lo then Inl ValueError
    else if hi = lo then Inr (zero_bits fmt 0, 0)
    else if hi - lo = 1 then bind_r (py_index xs lo) (\<lambda>x. Inr (x, 0))
    else bind_r (split_at lo hi) (\<lambda>mid.
         bind_r (reduce_bits fmt xs rnd lo (Some mid)) (\<lambda>(la, lf).
         bind_r (reduce_bits fmt xs rnd mid (Some hi)) (\<lambda>(ra, rf).
         bind_r (add fmt la ra rnd) (\<lambda>(s, sf).
         Inr (s, lf OR rf OR sf))))))"
  by pat_completeness auto
termination
  by (relation "measure (\<lambda>(fmt, xs, rnd, lo, hi0).
      nat ((case hi0 of None \<Rightarrow> int (length xs) | Some h \<Rightarrow> h) - lo))")
    (auto dest!: split_at_between)

declare reduce_bits.simps [simp del]

text \<open>
  The streaming accumulator keeps its levels in a dictionary, here an association list in
  insertion order: \<open>stream_push\<close> is the inner \<open>while j in acc\<close> loop followed by
  \<open>acc[j] = v\<close>, and \<open>stream_fold\<close> the fold over \<open>sorted(acc)\<close>.
\<close>

lemma length_delete: "map_of acc j \<noteq> None \<Longrightarrow> length (AList.delete j acc) < length acc"
proof (induction acc)
  case (Cons p acc)
  from Cons show ?case by (cases p) (auto simp: AList.delete_eq le_imp_less_Suc split: if_splits)
qed simp

function stream_push :: "fp_format \<Rightarrow> int \<Rightarrow> (nat \<times> int) list \<Rightarrow> int \<Rightarrow> int \<Rightarrow> nat
    \<Rightarrow> ((nat \<times> int) list \<times> int) result" where
  "stream_push fmt rnd acc flags v j =
    (case map_of acc j of
       Some a \<Rightarrow> bind_r (add fmt a v rnd) (\<lambda>(v', f).
         stream_push fmt rnd (AList.delete j acc) (flags OR f) v' (j + 1))
     | None \<Rightarrow> Inr (acc @ [(j, v)], flags))"
  by pat_completeness auto
termination
  by (relation "measure (\<lambda>(fmt, rnd, acc, flags, v, j). length acc)")
    (auto intro!: length_delete)

declare stream_push.simps [simp del]

definition stream_fold :: "fp_format \<Rightarrow> int \<Rightarrow> (nat \<times> int) list \<Rightarrow> int \<Rightarrow> nat list \<Rightarrow> (int option \<times> int) result" where
  "stream_fold fmt rnd acc flags levels =
    fold_r (\<lambda>(r, flags) j.
      case map_of acc j of None \<Rightarrow> Inl KeyError | Some a \<Rightarrow>
      (case r of None \<Rightarrow> Inr (Some a, flags)
       | Some b \<Rightarrow> bind_r (add fmt a b rnd) (\<lambda>(s, f). Inr (Some s, flags OR f)))) (None, flags) levels"

definition stream_reduce :: "fp_format \<Rightarrow> int list \<Rightarrow> int \<Rightarrow> (int option \<times> int) result" where
  "stream_reduce fmt xs rnd =
    bind_r (check_mode rnd) (\<lambda>_.
    if xs = [] then Inr (Some (zero_bits fmt 0), 0)
    else bind_r (fold_r (\<lambda>(acc, flags) x. stream_push fmt rnd acc flags x 0) ([], 0) xs) (\<lambda>(acc, flags).
         stream_fold fmt rnd acc flags (sort (map fst acc))))"

definition combine :: "fp_format \<Rightarrow> int list \<Rightarrow> int \<Rightarrow> (int \<times> int) result" where
  "combine fmt partials rnd = reduce_bits fmt partials rnd 0 None"

definition fsum :: "fp_format \<Rightarrow> int list \<Rightarrow> int \<Rightarrow> (int \<times> int) result" where
  "fsum fmt xs rnd = reduce_bits fmt xs rnd 0 None"

definition fdot :: "fp_format \<Rightarrow> int list \<Rightarrow> int list \<Rightarrow> int \<Rightarrow> (int \<times> int) result" where
  "fdot fmt xs ys rnd =
    (if length xs \<noteq> length ys then Inl ValueError else
     bind_r (check_mode rnd) (\<lambda>_.
     bind_r (fold_r (\<lambda>(prods, flags) (a, b).
         bind_r (mul fmt a b rnd) (\<lambda>(p, pf). Inr (prods @ [p], flags OR pf))) ([], 0) (zip xs ys)) (\<lambda>(prods, flags).
     bind_r (reduce_bits fmt prods rnd 0 None) (\<lambda>(s, sf). Inr (s, flags OR sf)))))"

section \<open>The code: the other reductions\<close>

definition red_is_inf :: "fp_format \<Rightarrow> int \<Rightarrow> bool" where
  "red_is_inf fmt x \<longleftrightarrow>
    drop_bit (man_w fmt) x AND exp_mask fmt = exp_mask fmt \<and> x AND man_mask fmt = 0"

definition red_is_nan :: "fp_format \<Rightarrow> int \<Rightarrow> bool" where
  "red_is_nan fmt x \<longleftrightarrow>
    drop_bit (man_w fmt) x AND exp_mask fmt = exp_mask fmt \<and> x AND man_mask fmt \<noteq> 0"

definition red_is_snan :: "fp_format \<Rightarrow> int \<Rightarrow> bool" where
  "red_is_snan fmt x \<longleftrightarrow> red_is_nan fmt x \<and> \<not> truthy (drop_bit (man_w fmt - 1) x AND 1)"

definition red_is_zero :: "fp_format \<Rightarrow> int \<Rightarrow> bool" where
  "red_is_zero fmt x \<longleftrightarrow> x AND NOT (sign_mask fmt) = 0"

definition red_sign :: "fp_format \<Rightarrow> int \<Rightarrow> int" where
  "red_sign fmt x = drop_bit (width fmt - 1) x AND 1"

definition inf_over_nan :: "fp_format \<Rightarrow> int list \<Rightarrow> (int \<times> int) option" where
  "inf_over_nan fmt xs =
    (if \<not> list_ex (red_is_inf fmt) xs then None
     else if \<not> list_ex (red_is_nan fmt) xs then None
     else let flags = (if list_ex (red_is_snan fmt) xs then FLAG_INVALID else 0)
          in Some (inf_bits fmt 0, flags))"

definition fsumsq :: "fp_format \<Rightarrow> int list \<Rightarrow> int \<Rightarrow> (int \<times> int) result" where
  "fsumsq fmt xs rnd =
    (case inf_over_nan fmt xs of Some special \<Rightarrow> Inr special | None \<Rightarrow> fdot fmt xs xs rnd)"

definition fsumabs :: "fp_format \<Rightarrow> int list \<Rightarrow> int \<Rightarrow> (int \<times> int) result" where
  "fsumabs fmt xs rnd =
    (case inf_over_nan fmt xs of Some special \<Rightarrow> Inr special
     | None \<Rightarrow> fsum fmt (map (\<lambda>x. fst (fabs fmt x)) xs) rnd)"

definition fmaxall :: "fp_format \<Rightarrow> int list \<Rightarrow> int \<times> int" where
  "fmaxall fmt xs =
    (case xs of [] \<Rightarrow> (inf_bits fmt 1, 0)
     | x # rest \<Rightarrow> foldl (\<lambda>(acc, flags) y. let (acc', f) = fmax fmt acc y in (acc', flags OR f)) (x, 0) rest)"

definition REDUCE_FN :: "int \<rightharpoonup> (fp_format \<Rightarrow> int list \<Rightarrow> int list option \<Rightarrow> int \<Rightarrow> (int \<times> int) result)" where
  "REDUCE_FN = map_of
    [(OP_SUM, \<lambda>fmt xs ys rnd. fsum fmt xs rnd),
     (OP_DOT, \<lambda>fmt xs ys rnd. case ys of None \<Rightarrow> Inl TypeError | Some ys \<Rightarrow> fdot fmt xs ys rnd),
     (OP_SUMSQ, \<lambda>fmt xs ys rnd. fsumsq fmt xs rnd),
     (OP_SUMABS, \<lambda>fmt xs ys rnd. fsumabs fmt xs rnd),
     (OP_MAXALL, \<lambda>fmt xs ys rnd. Inr (fmaxall fmt xs))]"

definition freduce_seg :: "int \<Rightarrow> fp_format \<Rightarrow> int list \<Rightarrow> int \<Rightarrow> int \<Rightarrow> int list option \<Rightarrow> (int list \<times> int) result" where
  "freduce_seg op fmt xs seg rnd ys =
    (case REDUCE_FN op of None \<Rightarrow> Inl ValueError | Some fn \<Rightarrow>
     if seg < 1 then Inl ValueError
     else if int (length xs) mod seg \<noteq> 0 then Inl ValueError
     else fold_r (\<lambda>(out, flags) s.
       let lo = s * nat seg; hi = (s + 1) * nat seg
       in bind_r (fn fmt (slice xs lo hi) (map_option (\<lambda>ys. slice ys lo hi) ys) rnd) (\<lambda>(r, f).
          Inr (out @ [r], flags OR f))) ([], 0) [0..<length xs div nat seg])"

section \<open>The code: the scaled products\<close>

definition norm_split :: "fp_format \<Rightarrow> int \<Rightarrow> (int \<times> int) result" where
  "norm_split fmt x =
    (let u = unpack fmt x; b = bit_length (u_m u) - 1
     in if int (man_w fmt) - b < 0 then Inl ValueError
     else let frac = push_bit (nat (int (man_w fmt) - b)) (u_m u) AND man_mask fmt
     in Inr (push_bit (width fmt - 1) (u_sign u) OR push_bit (man_w fmt) (bias fmt) OR frac, u_e u + b))"

definition scale_add :: "int \<Rightarrow> int \<Rightarrow> int result" where
  "scale_add a b = (let s = a + b in if s < SCALE_MIN \<or> SCALE_MAX < s then Inl ScaleOverflow else Inr s)"

function scaled_tree :: "fp_format \<Rightarrow> int list \<Rightarrow> int \<Rightarrow> int \<Rightarrow> int \<Rightarrow> (int \<times> int \<times> int) result" where
  "scaled_tree fmt xs rnd lo hi =
    (if hi - lo = 1 then
       bind_r (py_index xs lo) (\<lambda>x. bind_r (norm_split fmt x) (\<lambda>(sig, k). Inr (sig, k, 0)))
     else bind_r (split_at lo hi) (\<lambda>mid.
       bind_r (scaled_tree fmt xs rnd lo mid) (\<lambda>(ls, lk, lf).
       bind_r (scaled_tree fmt xs rnd mid hi) (\<lambda>(rs, rk, rf).
       bind_r (mul fmt ls rs rnd) (\<lambda>(p, pf).
       bind_r (norm_split fmt p) (\<lambda>(sig, k).
       bind_r (scale_add lk rk) (\<lambda>t.
       bind_r (scale_add t k) (\<lambda>scale.
       Inr (sig, scale, lf OR rf OR pf)))))))))"
  by pat_completeness auto
termination
  by (relation "measure (\<lambda>(fmt, xs, rnd, lo, hi). nat (hi - lo))")
    (auto dest!: split_at_between)

declare scaled_tree.simps [simp del]

definition scaled_factors :: "fp_format \<Rightarrow> int list \<Rightarrow> int list option \<Rightarrow> int \<Rightarrow> int \<Rightarrow> (int list \<times> int) result" where
  "scaled_factors fmt xs ys kind rnd =
    (if kind = SP_PROD then
       (if ys \<noteq> None \<and> length (the ys) \<noteq> length xs then Inl ValueError else Inr (xs, 0))
     else if kind = SP_PROD_SUM \<or> kind = SP_PROD_DIFF then
       let ys = (case ys of None \<Rightarrow> [] | Some ys \<Rightarrow> ys)
       in if length ys \<noteq> length xs then Inl ValueError
       else let combine_leaf = (if kind = SP_PROD_SUM then add else sub)
       in fold_r (\<lambda>(factors, flags) (a, b).
            bind_r (combine_leaf fmt a b rnd) (\<lambda>(s, f). Inr (factors @ [s], flags OR f))) ([], 0) (zip xs ys)
     else Inl ValueError)"

definition scaled_prod :: "fp_format \<Rightarrow> int list \<Rightarrow> int list option \<Rightarrow> int \<Rightarrow> int \<Rightarrow> (int \<times> int \<times> int) result" where
  "scaled_prod fmt xs ys kind rnd =
    bind_r (check_mode rnd) (\<lambda>_.
    bind_r (scaled_factors fmt xs ys kind rnd) (\<lambda>(factors, flags).
    if factors = [] then Inr (one_bits fmt 0, 0, 0)
    else if list_ex (red_is_nan fmt) factors then
      let flags = (if list_ex (red_is_snan fmt) factors then flags OR FLAG_INVALID else flags)
      in Inr (qnan_bits fmt, 0, flags)
    else
    let sign = foldl (\<lambda>s v. s XOR red_sign fmt v) 0 factors;
        has_inf = list_ex (red_is_inf fmt) factors;
        has_zero = list_ex (red_is_zero fmt) factors
    in if has_inf \<and> has_zero then Inr (qnan_bits fmt, 0, flags OR FLAG_INVALID)
    else if has_inf then Inr (inf_bits fmt sign, 0, flags)
    else if has_zero then Inr (zero_bits fmt sign, 0, flags)
    else case scaled_tree fmt factors rnd 0 (int (length factors)) of
      Inr (sig, scale, tf) \<Rightarrow> Inr (sig, scale, flags OR tf)
    | Inl ScaleOverflow \<Rightarrow> Inr (qnan_bits fmt, 0, flags OR FLAG_INVALID)
    | Inl e \<Rightarrow> Inl e))"

section \<open>Nodes that cannot fail\<close>

text \<open>
  The interface of a reduction node: an operation that, for a configuration it accepts,
  always delivers a value and its flags. On value-flag pairs it is the node that ORs the
  flags of its children with its own; what a tree of such nodes delivers splits into a value
  that ignores the leaves' flags and the OR of all flags.
\<close>

definition flag_node :: "('v \<Rightarrow> 'v \<Rightarrow> ('v \<times> int) result) \<Rightarrow> 'v \<times> int \<Rightarrow> 'v \<times> int \<Rightarrow> 'v \<times> int" where
  "flag_node run x y =
    (let (s, f) = (case run (fst x) (fst y) of Inr r \<Rightarrow> r | Inl _ \<Rightarrow> (fst x, 0)) in (s, snd x OR snd y OR f))"

abbreviation leaf :: "'v \<Rightarrow> 'v \<times> int" where
  "leaf x \<equiv> (x, 0)"

definition ors :: "int list \<Rightarrow> int" where
  "ors fs = foldr (OR) fs 0"

lemma ors_simps [simp]: "ors [] = 0" "ors (f # fs) = f OR ors fs"
  by (simp_all add: ors_def)

lemma ors_append [simp]: "ors (fs @ gs) = ors fs OR ors gs"
  by (induction fs) (simp_all add: or.assoc)

lemmas or_ac = or.assoc or.commute or.left_commute

locale total_node =
  fixes run :: "'c \<Rightarrow> 'v \<Rightarrow> 'v \<Rightarrow> ('v \<times> int) result" and good :: "'c \<Rightarrow> bool"
  assumes total: "good c \<Longrightarrow> \<exists>r. run c a b = Inr r"
begin

lemma run_node:
  "good c \<Longrightarrow> run c a b = Inr (flag_node (run c) (leaf a) (leaf b))"
  using total [of c a b] by (auto simp: flag_node_def)

lemma node_split:
  "flag_node (run c) (a, f) (b, g) =
    (fst (flag_node (run c) (leaf a) (leaf b)), f OR g OR snd (flag_node (run c) (leaf a) (leaf b)))"
  by (cases "run c a b") (simp_all add: flag_node_def case_prod_beta or_ac)

lemma tree_split:
  "tree (flag_node (run c)) ps =
    (fst (tree (flag_node (run c)) (map (leaf \<circ> fst) ps)),
     (if ps = [] then snd (tree (flag_node (run c)) ps)
      else ors (map snd ps) OR snd (tree (flag_node (run c)) (map (leaf \<circ> fst) ps))))"
proof (induction "flag_node (run c)" ps rule: tree.induct)
  case (1 ps)
  show ?case
  proof (cases "length ps < 2")
    case True
    then consider "ps = []" | p where "ps = [p]" by (cases ps) (auto simp: Suc_less_eq2 less_Suc_eq)
    then show ?thesis by cases (simp_all add: tree.simps)
  next
    case False
    then have n: "2 \<le> length ps" by simp
    let ?h = "half (length ps)" and ?t = "tree (flag_node (run c))"
    have ne: "take ?h ps \<noteq> []" "drop ?h ps \<noteq> []" "ps \<noteq> []" using half_bounds [OF n] n by auto
    obtain a f where a: "?t (map (leaf \<circ> fst) (take ?h ps)) = (a, f)" by fastforce
    obtain b g where b: "?t (map (leaf \<circ> fst) (drop ?h ps)) = (b, g)" by fastforce
    have "?t (take ?h ps) = (a, ors (map snd (take ?h ps)) OR f)" "?t (drop ?h ps) = (b, ors (map snd (drop ?h ps)) OR g)"
      using "1.hyps" [OF False] ne by (simp_all add: a b)
    then have l: "?t ps = flag_node (run c) (a, ors (map snd (take ?h ps)) OR f) (b, ors (map snd (drop ?h ps)) OR g)"
      using False by (subst tree.simps) simp
    have r: "?t (map (leaf \<circ> fst) ps) = flag_node (run c) (a, f) (b, g)"
      using False a b by (subst tree.simps) (simp add: take_map drop_map)
    have o': "ors (map snd ps) = ors (map snd (take ?h ps)) OR ors (map snd (drop ?h ps))"
      by (metis append_take_drop_id map_append ors_append)
    show ?thesis unfolding l r o' using ne(3) by (subst (1 2 3) node_split) (simp add: or_ac)
  qed
qed

end

lemma unpack_m_pos: "u_kind (unpack fmt x) = KSub \<or> u_kind (unpack fmt x) = KNorm \<Longrightarrow> 0 < u_m (unpack fmt x)"
proof -
  assume k: "u_kind (unpack fmt x) = KSub \<or> u_kind (unpack fmt x) = KNorm"
  have f: "0 \<le> x AND man_mask fmt" by (simp add: man_mask_eq)
  have "0 < 2 ^ man_w fmt OR (x AND man_mask fmt)"
    using f or_greater_eq [of "x AND man_mask fmt" "2 ^ man_w fmt"] zero_less_power [of "2::int" "man_w fmt"]
    by linarith
  moreover have "x AND man_mask fmt \<noteq> 0 \<Longrightarrow> 0 < x AND man_mask fmt" using f by linarith
  ultimately show ?thesis using k
    by (auto simp: unpack_def Let_def push_bit_eq_mult or.commute split: if_splits)
qed

lemma round_pack_total: "wf_fmt fmt \<Longrightarrow> 0 < m \<Longrightarrow> valid_dir rnd \<Longrightarrow> \<exists>r. round_pack fmt s m e rnd = Inr r"
  using round_pack_refines by blast

lemma fp_kind_cases: "u_kind u = KSub \<or> u_kind u = KNorm \<or> u_kind u = KZero \<or> u_kind u = KInf \<or> u_kind u = KNan"
  by (cases "u_kind u") simp_all

lemma add_total: "wf_fmt fmt \<Longrightarrow> valid_mode rnd \<Longrightarrow> \<exists>r. add fmt xa xb rnd = Inr r"
  using round_pack_total [of fmt _ rnd] by (simp add: add_def Let_def)

lemma mul_total:
  assumes "wf_fmt fmt" "valid_mode rnd" shows "\<exists>r. mul fmt xa xb rnd = Inr r"
proof (cases "(u_kind (unpack fmt xa) = KSub \<or> u_kind (unpack fmt xa) = KNorm)
    \<and> (u_kind (unpack fmt xb) = KSub \<or> u_kind (unpack fmt xb) = KNorm)")
  case True
  then have "0 < u_m (unpack fmt xa) * u_m (unpack fmt xb)" using unpack_m_pos by simp
  from round_pack_total [OF assms(1) this valid_mode_dir [OF assms(2)]] show ?thesis
    using assms(2) by (simp add: mul_def Let_def)
next
  case False
  then show ?thesis using assms(2) fp_kind_cases [of "unpack fmt xa"] fp_kind_cases [of "unpack fmt xb"]
    by (auto simp: mul_def Let_def)
qed

interpretation add_node: total_node "\<lambda>(fmt, rnd) a b. add fmt a b rnd" "\<lambda>(fmt, rnd). wf_fmt fmt \<and> valid_mode rnd"
  by (unfold_locales, clarsimp) (metis add_total surj_pair)

interpretation mul_node: total_node "\<lambda>(fmt, rnd) a b. mul fmt a b rnd" "\<lambda>(fmt, rnd). wf_fmt fmt \<and> valid_mode rnd"
  by (unfold_locales, clarsimp) (metis mul_total surj_pair)

section \<open>The recursive sum is the tree\<close>

abbreviation add_pair :: "fp_format \<Rightarrow> int \<Rightarrow> int \<times> int \<Rightarrow> int \<times> int \<Rightarrow> int \<times> int" where
  "add_pair fmt rnd \<equiv> flag_node (\<lambda>a b. add fmt a b rnd)"

lemmas add_pair_run = add_node.run_node [of "(fmt, rnd)" for fmt rnd, simplified, OF conjI]
lemmas add_pair_split = add_node.node_split [of "(fmt, rnd)" for fmt rnd, simplified]
lemmas add_tree_split = add_node.tree_split [of "(fmt, rnd)" for fmt rnd, simplified]

text \<open>What the sum of a vector is: the tree, or plus zero for none.\<close>

definition tree_sum :: "fp_format \<Rightarrow> int \<Rightarrow> int list \<Rightarrow> int \<times> int" where
  "tree_sum fmt rnd xs = (if xs = [] then (zero_bits fmt 0, 0) else tree (add_pair fmt rnd) (map leaf xs))"

lemma slice_parts:
  assumes "lo \<le> mid" "mid \<le> hi" "hi \<le> length xs"
  shows "take (mid - lo) (slice xs lo hi) = slice xs lo mid" "drop (mid - lo) (slice xs lo hi) = slice xs mid hi"
  using assms by (simp_all add: slice_def take_drop min_def)

lemma slice_one: "lo < length xs \<Longrightarrow> slice xs lo (Suc lo) = [xs ! lo]"
  by (simp add: slice_def drop_take take_Suc_conv_app_nth Cons_nth_drop_Suc [symmetric])

lemma reduce_range_tree:
  assumes wf: "wf_fmt fmt" and rnd: "valid_mode rnd"
  shows "lo < hi \<Longrightarrow> hi \<le> length xs \<Longrightarrow>
    reduce_bits fmt xs rnd (int lo) (Some (int hi)) = Inr (tree (add_pair fmt rnd) (map leaf (slice xs lo hi)))"
proof (induction "hi - lo" arbitrary: lo hi rule: less_induct)
  case less
  show ?case
  proof (cases "hi - lo = 1")
    case True
    then have "hi = Suc lo" by simp
    then show ?thesis using less.prems rnd by (subst reduce_bits.simps) (simp add: slice_one Let_def)
  next
    case False
    then have n: "2 \<le> hi - lo" using less.prems by simp
    define mid where "mid = lo + half (hi - lo)"
    have m: "lo < mid" "mid < hi" using half_bounds [OF n] by (simp_all add: mid_def)
    have sp: "split_at (int lo) (int hi) = Inr (int mid)"
      using n less.prems by (simp add: split_at_half mid_def nat_diff_distrib')
    have L: "reduce_bits fmt xs rnd (int lo) (Some (int mid)) = Inr (tree (add_pair fmt rnd) (map leaf (slice xs lo mid)))"
      using less.hyps [of mid lo] m less.prems by simp
    have R: "reduce_bits fmt xs rnd (int mid) (Some (int hi)) = Inr (tree (add_pair fmt rnd) (map leaf (slice xs mid hi)))"
      using less.hyps [of hi mid] m less.prems by simp
    obtain a f where a: "tree (add_pair fmt rnd) (map leaf (slice xs lo mid)) = (a, f)" by fastforce
    obtain b g where b: "tree (add_pair fmt rnd) (map leaf (slice xs mid hi)) = (b, g)" by fastforce
    have le: "length (slice xs lo hi) = hi - lo" using less.prems by simp
    have h: "half (hi - lo) = mid - lo" by (simp add: mid_def)
    have T: "tree (add_pair fmt rnd) (map leaf (slice xs lo hi)) = add_pair fmt rnd (a, f) (b, g)"
      using n m less.prems a b by (subst tree.simps) (simp add: h take_map drop_map slice_parts less_imp_le)
    have "\<not> int hi < int lo" "int hi \<noteq> int lo" "int hi - int lo \<noteq> 1" using less.prems False by linarith+
    then show ?thesis
      unfolding T add_pair_split [of fmt rnd a f b g]
      using rnd add_pair_run [OF wf rnd, of a b]
      by (subst reduce_bits.simps) (simp add: sp L R a b Let_def case_prod_beta)
  qed
qed

lemma reduce_bits_tree_sum:
  assumes "wf_fmt fmt" "valid_mode rnd"
  shows "reduce_bits fmt xs rnd 0 None = Inr (tree_sum fmt rnd xs)"
proof (cases "xs = []")
  case True
  then show ?thesis using assms by (subst reduce_bits.simps) (simp add: tree_sum_def Let_def)
next
  case False
  have "reduce_bits fmt xs rnd 0 None = reduce_bits fmt xs rnd (int 0) (Some (int (length xs)))"
    unfolding of_nat_0 by (subst (1 2) reduce_bits.simps) simp
  then show ?thesis
    using reduce_range_tree [OF assms, of 0 "length xs" xs] False by (simp add: tree_sum_def slice_def)
qed

section \<open>The streaming accumulator is the same tree\<close>

text \<open>
  The dictionary of the code against the levels of the counter, from level \<open>k\<close> up: the
  same values, and the flags gathered so far are those of the levels.
\<close>

definition levels_at :: "(nat \<times> int) list \<Rightarrow> nat \<Rightarrow> (int \<times> int) option list \<Rightarrow> bool" where
  "levels_at acc k lv \<longleftrightarrow> (\<forall>i. map_of acc (k + i) = (if i < length lv then map_option fst (lv ! i) else None))"

definition level_flags :: "(int \<times> int) option list \<Rightarrow> int" where
  "level_flags lv = ors (map (\<lambda>l. case l of None \<Rightarrow> 0 | Some (a, f) \<Rightarrow> f) lv)"

lemma level_flags_simps [simp]:
  "level_flags [] = 0" "level_flags (None # lv) = level_flags lv"
  "level_flags (Some (a, f) # lv) = f OR level_flags lv" "level_flags (lv @ lv') = level_flags lv OR level_flags lv'"
  by (simp_all add: level_flags_def)

lemma levels_at_Nil: "levels_at acc k [] \<longleftrightarrow> (\<forall>i. map_of acc (k + i) = None)"
  by (simp add: levels_at_def)

lemma levels_at_Cons:
  "levels_at acc k (l # lv) \<longleftrightarrow> map_of acc k = map_option fst l \<and> levels_at acc (Suc k) lv"
proof
  assume a: "levels_at acc k (l # lv)"
  have "map_of acc (k + 0) = map_option fst l" using a unfolding levels_at_def by (elim allE [of _ 0]) simp
  moreover have "map_of acc (Suc k + i) = (if i < length lv then map_option fst (lv ! i) else None)" for i
    using a unfolding levels_at_def by (elim allE [of _ "Suc i"]) simp
  ultimately show "map_of acc k = map_option fst l \<and> levels_at acc (Suc k) lv" by (simp add: levels_at_def)
next
  assume a: "map_of acc k = map_option fst l \<and> levels_at acc (Suc k) lv"
  have "map_of acc (k + i) = (if i < length (l # lv) then map_option fst ((l # lv) ! i) else None)" for i
    using a by (cases i) (simp_all add: levels_at_def)
  then show "levels_at acc k (l # lv)" by (simp add: levels_at_def)
qed

lemma levels_at_append:
  "levels_at acc k (lv @ lv') \<longleftrightarrow> (\<forall>i<length lv. map_of acc (k + i) = map_option fst (lv ! i)) \<and> levels_at acc (k + length lv) lv'"
proof (induction lv arbitrary: k)
  case (Cons l lv)
  have "(\<forall>i<length (l # lv). map_of acc (k + i) = map_option fst ((l # lv) ! i)) \<longleftrightarrow>
      map_of acc k = map_option fst l \<and> (\<forall>i<length lv. map_of acc (Suc k + i) = map_option fst (lv ! i))"
    by (auto simp: less_Suc_eq_0_disj)
  then show ?case using Cons.IH [of "Suc k"] by (simp add: levels_at_Cons)
qed simp

lemma levels_at_same: "(\<And>j. k \<le> j \<Longrightarrow> map_of acc j = map_of acc' j) \<Longrightarrow> levels_at acc k lv = levels_at acc' k lv"
  by (simp add: levels_at_def)

lemma map_of_snoc: "map_of acc n = None \<Longrightarrow> map_of (acc @ [(n, v)]) j = (if j = n then Some v else map_of acc j)"
  by (simp add: map_add_def split: option.split)

lemma stream_push_carry:
  assumes wf: "wf_fmt fmt" and rnd: "valid_mode rnd"
  shows "levels_at acc 0 (pre @ lv) \<Longrightarrow> distinct (map fst acc) \<Longrightarrow>
      flags = (level_flags (pre @ lv) OR fv) \<Longrightarrow>
    \<exists>acc'. stream_push fmt rnd acc flags v (length pre) =
        Inr (acc', level_flags (pre @ carry (add_pair fmt rnd) lv (v, fv))) \<and>
      levels_at acc' 0 (pre @ carry (add_pair fmt rnd) lv (v, fv)) \<and> distinct (map fst acc')"
proof (induction lv arbitrary: acc flags v fv pre)
  case Nil
  have none: "map_of acc (length pre + i) = None" for i
    using Nil.prems(1) unfolding levels_at_append by (simp add: levels_at_Nil)
  note none0 = none [of 0, unfolded add_0_right]
  have L: "levels_at (acc @ [(length pre, v)]) 0 (pre @ [Some (v, fv)])"
    using Nil.prems(1) none unfolding levels_at_append
    by (simp add: levels_at_Cons levels_at_Nil map_of_snoc [OF none0] none [of "Suc i" for i, unfolded add_Suc_right]
        del: map_of_append)
  have D: "distinct (map fst (acc @ [(length pre, v)]))" using Nil.prems(2) none0 by (simp add: map_of_eq_None_iff)
  show ?case using Nil.prems(3) none0 L D by (subst stream_push.simps) simp
next
  case (Cons l lv)
  show ?case
  proof (cases l)
    case None
    have none: "map_of acc (length pre) = None" using Cons.prems(1) None by (simp add: levels_at_append levels_at_Cons)
    have L: "levels_at (acc @ [(length pre, v)]) 0 (pre @ Some (v, fv) # lv)"
      using Cons.prems(1) None levels_at_same [of "Suc (length pre)" "acc @ [(length pre, v)]" acc lv]
      by (simp add: levels_at_append levels_at_Cons map_of_snoc [OF none] del: map_of_append)
    have D: "distinct (map fst (acc @ [(length pre, v)]))"
      using Cons.prems(2) none by (simp add: map_of_eq_None_iff)
    show ?thesis using Cons.prems(3) none None L D by (subst stream_push.simps) (simp add: or_ac)
  next
    case (Some p)
    obtain a fa where p: "p = (a, fa)" by fastforce
    then have some: "map_of acc (length pre) = Some a" using Cons.prems(1) Some by (simp add: levels_at_append levels_at_Cons)
    obtain s f where s: "add_pair fmt rnd (leaf a) (leaf v) = (s, f)" by fastforce
    have n: "add_pair fmt rnd (a, fa) (v, fv) = (s, fa OR fv OR f)" by (subst add_pair_split) (simp add: s)
    have del: "map_of (AList.delete (length pre) acc) j = (if j = length pre then None else map_of acc j)" for j
      by (simp add: AList.delete_conv)
    have L: "levels_at (AList.delete (length pre) acc) 0 ((pre @ [None]) @ lv)"
      using Cons.prems(1) levels_at_same [of "Suc (length pre)" "AList.delete (length pre) acc" acc lv]
      by (simp add: levels_at_append levels_at_Cons del less_Suc_eq nth_append)
    have D: "distinct (map fst (AList.delete (length pre) acc))"
      using Cons.prems(2) by (simp add: AList.distinct_delete)
    have F: "(flags OR f) = (level_flags ((pre @ [None]) @ lv) OR (fa OR fv OR f))"
      using Cons.prems(3) Some p by (simp add: or_ac)
    show ?thesis
      using Cons.IH [OF L D F, of s] some add_pair_run [OF wf rnd, of a v] n p Some
      by (subst stream_push.simps) (simp add: s)
  qed
qed

text \<open>The occupied levels in increasing order are \<open>sorted(acc)\<close>.\<close>

fun occupied :: "nat \<Rightarrow> 'a option list \<Rightarrow> nat list" where
  "occupied k [] = []"
| "occupied k (None # lv) = occupied (Suc k) lv"
| "occupied k (Some a # lv) = k # occupied (Suc k) lv"

lemma set_occupied: "set (occupied k lv) \<subseteq> {k..}"
proof (induction k lv rule: occupied.induct)
  case (2 k lv)
  then show ?case by (auto dest: subsetD)
next
  case (3 k a lv)
  then show ?case by (auto dest: subsetD)
qed simp

lemma sorted_occupied: "sorted (occupied k lv)" "distinct (occupied k lv)"
proof (induction k lv rule: occupied.induct)
  case (3 k a lv)
  { case 1 then show ?case using 3 set_occupied [of "Suc k" lv] by (auto dest: subsetD) next
    case 2 then show ?case using 3 set_occupied [of "Suc k" lv] by (auto dest: subsetD) }
qed simp_all

lemma levels_at_keys:
  "levels_at acc k lv \<Longrightarrow> set (occupied k lv) = {j \<in> set (map fst acc). k \<le> j}"
proof (induction k lv rule: occupied.induct)
  case (1 k)
  have "j \<notin> set (map fst acc)" if "k \<le> j" for j
    using 1 [unfolded levels_at_Nil, rule_format, of "j - k"] that by (simp add: map_of_eq_None_iff)
  then show ?case by auto
next
  case (2 k lv)
  then have k: "k \<notin> set (map fst acc)" and l: "levels_at acc (Suc k) lv"
    by (simp_all add: levels_at_Cons map_of_eq_None_iff)
  show ?case unfolding occupied.simps 2(1) [OF l] using k by (metis Suc_le_eq le_less)
next
  case (3 k a lv)
  then have k: "k \<in> set (map fst acc)" and l: "levels_at acc (Suc k) lv"
    by (auto simp: levels_at_Cons dest!: map_of_SomeD intro: rev_image_eqI)
  have "insert k {j \<in> set (map fst acc). Suc k \<le> j} = {j \<in> set (map fst acc). k \<le> j}"
    using k Suc_le_eq le_less by blast
  then show ?case unfolding occupied.simps list.set 3(1) [OF l] .
qed

lemma sort_keys: "levels_at acc 0 lv \<Longrightarrow> distinct (map fst acc) \<Longrightarrow> sort (map fst acc) = occupied 0 lv"
  using levels_at_keys [of acc 0 lv] sorted_occupied [of 0 lv]
  by (intro sorted_distinct_set_unique) simp_all

lemma stream_fold_levels:
  assumes wf: "wf_fmt fmt" and rnd: "valid_mode rnd"
  shows "levels_at acc k lv \<Longrightarrow> r = map_option fst r' \<Longrightarrow>
      flags = ((case r' of None \<Rightarrow> 0 | Some p \<Rightarrow> snd p) OR level_flags lv) \<Longrightarrow>
    fold_r (\<lambda>(r, flags) j.
      case map_of acc j of None \<Rightarrow> Inl KeyError | Some a \<Rightarrow>
      (case r of None \<Rightarrow> Inr (Some a, flags)
       | Some b \<Rightarrow> bind_r (add fmt a b rnd) (\<lambda>(s, f). Inr (Some s, flags OR f)))) (r, flags) (occupied k lv) =
    Inr (map_option fst (fold_levels (add_pair fmt rnd) lv r'),
      case fold_levels (add_pair fmt rnd) lv r' of None \<Rightarrow> flags | Some p \<Rightarrow> snd p)"
proof (induction k lv arbitrary: r r' flags rule: occupied.induct)
  case (1 k)
  then show ?case by (auto split: option.split)
next
  case (2 k lv)
  show ?case using 2(1) [of r r' flags] 2(2-4) by (simp add: levels_at_Cons)
next
  case (3 k p lv)
  obtain a fa where p: "p = (a, fa)" by fastforce
  have k: "map_of acc k = Some a" and l: "levels_at acc (Suc k) lv" using 3(2) p by (simp_all add: levels_at_Cons)
  show ?case
  proof (cases r')
    case None
    have F: "flags = ((case Some (a, fa) of None \<Rightarrow> 0 | Some p \<Rightarrow> snd p) OR level_flags lv)"
      using 3(4) None p by simp
    from 3(1) [OF l _ F, of "Some a"] 3(3) None k p show ?thesis
      by (cases "fold_levels (add_pair fmt rnd) lv (Some (a, fa))") simp_all
  next
    case (Some q)
    obtain b fb where q: "q = (b, fb)" by fastforce
    obtain s f where s: "add_pair fmt rnd (leaf a) (leaf b) = (s, f)" by fastforce
    have n: "add_pair fmt rnd (a, fa) (b, fb) = (s, fa OR fb OR f)" by (subst add_pair_split) (simp add: s)
    have F: "(flags OR f) = ((case Some (s, fa OR fb OR f) of None \<Rightarrow> 0 | Some p \<Rightarrow> snd p) OR level_flags lv)"
      using 3(4) Some p q by (simp add: or_ac)
    have nn: "fold_levels (add_pair fmt rnd) lv (Some x) \<noteq> None" for x
      by (induction "add_pair fmt rnd" lv "Some x" arbitrary: x rule: fold_levels.induct) auto
    obtain w where w: "fold_levels (add_pair fmt rnd) lv (Some (s, fa OR fb OR f)) = Some w"
      using nn by blast
    from 3(1) [OF l _ F, of "Some s"] 3(3) Some k p q n add_pair_run [OF wf rnd, of a b] w show ?thesis
      by (simp add: s)
  qed
qed

lemma stream_loop_levels:
  assumes wf: "wf_fmt fmt" and rnd: "valid_mode rnd"
  shows "levels_at acc 0 lv \<Longrightarrow> distinct (map fst acc) \<Longrightarrow> flags = level_flags lv \<Longrightarrow>
    \<exists>acc'. fold_r (\<lambda>(acc, flags) x. stream_push fmt rnd acc flags x 0) (acc, flags) xs =
        Inr (acc', level_flags (foldl (carry (add_pair fmt rnd)) lv (map leaf xs))) \<and>
      levels_at acc' 0 (foldl (carry (add_pair fmt rnd)) lv (map leaf xs)) \<and> distinct (map fst acc')"
proof (induction xs arbitrary: acc lv flags)
  case (Cons x xs)
  obtain acc1 where a: "stream_push fmt rnd acc flags x 0 = Inr (acc1, level_flags (carry (add_pair fmt rnd) lv (leaf x)))"
    "levels_at acc1 0 (carry (add_pair fmt rnd) lv (leaf x))" "distinct (map fst acc1)"
    using stream_push_carry [OF wf rnd, of acc "[]" lv flags 0 x] Cons.prems by auto
  show ?case using Cons.IH [OF a(2,3) refl] a(1) by simp
qed auto

lemma stream_reduce_tree:
  assumes "wf_fmt fmt" "valid_mode rnd"
  shows "stream_reduce fmt xs rnd = Inr (Some (fst (tree_sum fmt rnd xs)), snd (tree_sum fmt rnd xs))"
proof (cases "xs = []")
  case True
  then show ?thesis using assms by (simp add: stream_reduce_def tree_sum_def)
next
  case False
  let ?lv = "foldl (carry (add_pair fmt rnd)) [] (map leaf xs)"
  obtain acc where a: "fold_r (\<lambda>(acc, flags) x. stream_push fmt rnd acc flags x 0) ([], 0) xs = Inr (acc, level_flags ?lv)"
    "levels_at acc 0 ?lv" "distinct (map fst acc)"
    using stream_loop_levels [OF assms, of "[]" "[]" 0 xs] by (auto simp: levels_at_Nil)
  have t: "fold_levels (add_pair fmt rnd) ?lv None = Some (tree (add_pair fmt rnd) (map leaf xs))"
    using counter_tree [of "map leaf xs" "add_pair fmt rnd"] False by simp
  show ?thesis
    using assms False a(1) stream_fold_levels [OF assms a(2), of None None "level_flags ?lv"] t
    by (simp add: stream_reduce_def stream_fold_def sort_keys [OF a(2,3)] tree_sum_def)
qed

section \<open>Partial results combine to the whole\<close>

definition range_slice :: "'a list \<Rightarrow> int \<times> int \<Rightarrow> 'a list" where
  "range_slice xs r = slice xs (nat (fst r)) (nat (snd r))"

definition cut_range :: "int \<times> int \<Rightarrow> (int \<times> int) list" where
  "cut_range r = (if snd r - fst r < 2 then [r]
    else [(fst r, fst r + int (half (nat (snd r - fst r)))), (fst r + int (half (nat (snd r - fst r))), snd r)])"

definition in_range :: "nat \<Rightarrow> int \<times> int \<Rightarrow> bool" where
  "in_range n r \<longleftrightarrow> 0 \<le> fst r \<and> fst r < snd r \<and> snd r \<le> int n"

lemma in_range_nat:
  assumes "in_range n r"
  obtains lo hi where "r = (int lo, int hi)" "lo < hi" "hi \<le> n"
proof (rule that [of "nat (fst r)" "nat (snd r)"])
  show "r = (int (nat (fst r)), int (nat (snd r)))" using assms by (simp add: in_range_def)
qed (use assms in \<open>auto simp: in_range_def\<close>)

lemma cut_pass_eq: "cut_pass ranges = Inr (concat (map cut_range ranges))"
proof -
  have "fold_r (\<lambda>nxt (lo, hi).
      if hi - lo < 2 then Inr (nxt @ [(lo, hi)])
      else bind_r (split_at lo hi) (\<lambda>mid. Inr (nxt @ [(lo, mid)] @ [(mid, hi)]))) acc ranges =
    Inr (acc @ concat (map cut_range ranges))" for acc
  proof (induction ranges arbitrary: acc)
    case (Cons r ranges)
    obtain lo hi where r: "r = (lo, hi)" by fastforce
    show ?case
    proof (cases "hi - lo < 2")
      case True
      then show ?thesis using Cons.IH by (simp add: r cut_range_def)
    next
      case False
      then show ?thesis using Cons.IH by (simp add: r cut_range_def split_at_half)
    qed
  qed simp
  from this [of "[]"] show ?thesis by (simp add: cut_pass_def)
qed

lemma cut_range_slice:
  assumes "in_range (length xs) r"
  shows "map (range_slice xs) (cut_range r) = cut1 (range_slice xs r)" "\<forall>r' \<in> set (cut_range r). in_range (length xs) r'"
proof -
  obtain lo hi where r: "r = (int lo, int hi)" "lo < hi" "hi \<le> length xs"
    by (rule in_range_nat [OF assms])
  have l: "length (slice xs lo hi) = hi - lo" using r by simp
  have d: "nat (int hi - int lo) = hi - lo" by simp
  have "map (range_slice xs) (cut_range r) = cut1 (range_slice xs r) \<and> (\<forall>r' \<in> set (cut_range r). in_range (length xs) r')"
  proof (cases "hi - lo < 2")
    case True
    then show ?thesis using assms r by (simp add: cut_range_def cut1_def range_slice_def)
  next
    case False
    then have n: "2 \<le> hi - lo" by simp
    define mid where "mid = lo + half (hi - lo)"
    have m: "lo < mid" "mid < hi" "half (hi - lo) = mid - lo" using half_bounds [OF n] by (simp_all add: mid_def)
    have c: "cut_range r = [(int lo, int mid), (int mid, int hi)]" using r False by (simp add: cut_range_def mid_def d)
    show ?thesis unfolding c using r m False
      by (simp add: cut1_def range_slice_def slice_parts in_range_def less_imp_le l)
  qed
  then show "map (range_slice xs) (cut_range r) = cut1 (range_slice xs r)" "\<forall>r' \<in> set (cut_range r). in_range (length xs) r'"
    by blast+
qed

lemma cut_loop_cuts:
  "\<forall>r \<in> set ranges. in_range (length xs) r \<Longrightarrow> map (range_slice xs) ranges = cuts j xs \<Longrightarrow>
    \<exists>rs j'. cut_loop ranges parts = Inr rs \<and> (\<forall>r \<in> set rs. in_range (length xs) r) \<and> map (range_slice xs) rs = cuts j' xs"
proof (induction ranges parts arbitrary: j rule: cut_loop.induct)
  case (1 ranges parts)
  let ?nxt = "concat (map cut_range ranges)"
  have n: "\<forall>r \<in> set ?nxt. in_range (length xs) r" using cut_range_slice(2) 1(2) by auto
  have "map (range_slice xs) ?nxt = concat (map (map (range_slice xs)) (map cut_range ranges))" by (simp add: map_concat)
  also have "\<dots> = concat (map cut1 (map (range_slice xs) ranges))"
    using cut_range_slice(1) [of xs] 1(2) by (auto intro!: arg_cong [where f = concat])
  also have "\<dots> = cuts (Suc j) xs" by (simp only: 1(3) cuts_level)
  finally have c: "map (range_slice xs) ?nxt = cuts (Suc j) xs" .
  show ?case
  proof (cases "int (length ranges) < parts \<and> length ?nxt \<noteq> length ranges")
    case True
    then have "cut_loop ranges parts = cut_loop ?nxt parts" by (subst cut_loop.simps) (simp add: cut_pass_eq)
    then show ?thesis using 1(1) [OF _ cut_pass_eq _ n c] True by simp
  next
    case False
    then have "cut_loop ranges parts = Inr ranges" by (subst cut_loop.simps) (auto simp: cut_pass_eq)
    then show ?thesis using 1(2,3) by blast
  qed
qed

lemma combine_canonical:
  assumes wf: "wf_fmt fmt" and rnd: "valid_mode rnd" and xs: "xs \<noteq> []"
    and parts: "1 \<le> parts" "parts AND (parts - 1) = 0"
  shows "\<exists>ranges ps b f. canonical_ranges (int (length xs)) parts = Inr ranges \<and>
    map (\<lambda>(lo, hi). reduce_bits fmt xs rnd lo (Some hi)) ranges = map Inr ps \<and>
    combine fmt (map fst ps) rnd = Inr (b, f) \<and>
    reduce_bits fmt xs rnd 0 None = Inr (b, f OR ors (map snd ps))"
proof -
  let ?n = "length xs" and ?t = "tree (add_pair fmt rnd)"
  have "\<exists>rs j. cut_loop [(0, int ?n)] parts = Inr rs \<and> (\<forall>r \<in> set rs. in_range ?n r) \<and> map (range_slice xs) rs = cuts j xs"
    by (rule cut_loop_cuts [of _ _ 0]) (use xs in \<open>simp_all add: in_range_def range_slice_def slice_def\<close>)
  then obtain rs j where rs: "cut_loop [(0, int ?n)] parts = Inr rs" "\<forall>r \<in> set rs. in_range ?n r"
    "map (range_slice xs) rs = cuts j xs" by blast
  define ps where "ps = map (\<lambda>r. ?t (map leaf (range_slice xs r))) rs"
  have p: "map (\<lambda>(lo, hi). reduce_bits fmt xs rnd lo (Some hi)) rs = map Inr ps"
  proof -
    have "(\<lambda>(lo, hi). reduce_bits fmt xs rnd lo (Some hi)) r = Inr (?t (map leaf (range_slice xs r)))" if rin: "r \<in> set rs" for r
    proof -
      obtain lo hi where r: "r = (int lo, int hi)" "lo < hi" "hi \<le> ?n"
        by (rule in_range_nat [OF rs(2) [rule_format, OF rin]])
      then show ?thesis using reduce_range_tree [OF wf rnd r(2,3)] by (simp add: range_slice_def)
    qed
    then show ?thesis by (simp add: ps_def)
  qed
  have ps: "ps = map ?t (map (map leaf) (cuts j xs))" by (simp add: ps_def rs(3) [symmetric])
  have mc: "map (map leaf) (cuts j xs) = cuts j (map leaf xs)"
    by (induction j arbitrary: xs) (simp_all add: cut1_def map_concat take_map drop_map)
  have whole: "?t ps = ?t (map leaf xs)" unfolding ps mc using xs by (intro tree_cuts) simp
  have ne: "ps \<noteq> []" using length_cuts(2) [of j xs] by (simp add: ps)
  obtain b f where bf: "?t (map leaf (map fst ps)) = (b, f)" by fastforce
  have "combine fmt (map fst ps) rnd = Inr (b, f)"
    using reduce_bits_tree_sum [OF wf rnd, of "map fst ps"] ne bf by (simp add: combine_def tree_sum_def)
  moreover have "reduce_bits fmt xs rnd 0 None = Inr (b, f OR ors (map snd ps))"
    using reduce_bits_tree_sum [OF wf rnd, of xs] xs whole add_tree_split [of fmt rnd ps] ne bf
    by (simp add: tree_sum_def or.commute)
  moreover have "canonical_ranges (int ?n) parts = Inr rs" using parts xs rs(1) by (simp add: canonical_ranges_def)
  ultimately show ?thesis using p by blast
qed

end
