(* ===== verification/ReduceRows.thy ===== *)
theory ReduceRows
  imports Reduce Clause5 RoundedValue
begin

text \<open>
  What the reductions of \<open>Reduce\<close> deliver: the dot product as the tree over rounded
  products, the rows where an infinity decides, the maximum as the greatest element in the
  total order whatever the order of the vector, and the scaled product as the real-number tree
  with an unbounded scale, the invalid NaN exactly when a sum of scales leaves 64 bits.
\<close>

section \<open>The local class tests\<close>

lemma red_classes:
  "red_is_nan fmt x \<longleftrightarrow> is_nan fmt x"
  "red_is_inf fmt x \<longleftrightarrow> is_inf fmt x"
  "red_sign fmt x = u_sign (unpack fmt x)"
  by (simp_all add: red_is_nan_def is_nan_def red_is_inf_def is_inf_def red_sign_def unpack_def Let_def)

lemma red_is_zero_iff: "wf_fmt fmt \<Longrightarrow> fits fmt x \<Longrightarrow> red_is_zero fmt x \<longleftrightarrow> is_zero fmt x"
  by (simp add: red_is_zero_def is_zero_def clear_sign u_zero_iff)

section \<open>The dot product\<close>

abbreviation mul_pair :: "fp_format \<Rightarrow> int \<Rightarrow> int \<Rightarrow> int \<Rightarrow> int \<times> int" where
  "mul_pair fmt rnd a b \<equiv> flag_node (\<lambda>a b. mul fmt a b rnd) (leaf a) (leaf b)"

lemmas mul_pair_run = mul_node.run_node [of "(fmt, rnd)" for fmt rnd, simplified, OF conjI]

lemma fdot_tree:
  assumes wf: "wf_fmt fmt" and rnd: "valid_mode rnd" and l: "length xs = length ys"
  defines "ps \<equiv> map (\<lambda>(a, b). mul_pair fmt rnd a b) (zip xs ys)"
  shows "fdot fmt xs ys rnd =
    Inr (fst (tree_sum fmt rnd (map fst ps)), ors (map snd ps) OR snd (tree_sum fmt rnd (map fst ps)))"
proof -
  have f: "fold_r (\<lambda>(prods, flags) (a, b). bind_r (mul fmt a b rnd) (\<lambda>(p, pf). Inr (prods @ [p], flags OR pf)))
      (prods, flags) zs = Inr (prods @ map (fst \<circ> (\<lambda>(a, b). mul_pair fmt rnd a b)) zs,
        flags OR ors (map (snd \<circ> (\<lambda>(a, b). mul_pair fmt rnd a b)) zs))" for prods flags zs
  proof (induction zs arbitrary: prods flags)
    case (Cons z zs)
    obtain a b where z: "z = (a, b)" by fastforce
    obtain p pf where p: "mul_pair fmt rnd a b = (p, pf)" by fastforce
    show ?case using Cons.IH [of "prods @ [p]" "flags OR pf"] mul_pair_run [OF wf rnd, of a b] by (simp add: z p or.assoc)
  qed simp
  show ?thesis
    using rnd l f [of "[]" 0 "zip xs ys"] reduce_bits_tree_sum [OF wf rnd]
    by (simp add: fdot_def ps_def case_prod_beta)
qed

section \<open>An infinity decides\<close>

text \<open>
  The terms of a sum of squares or of magnitudes are never negative, so the tree over them
  never meets opposite infinities: one infinite term makes the sum plus infinity.
\<close>

definition nonneg :: "fp_format \<Rightarrow> int \<Rightarrow> bool" where
  "nonneg fmt x \<longleftrightarrow> fits fmt x \<and> sgn_of fmt x = 0 \<and> \<not> is_nan fmt x"

lemma nonneg_const: "wf_fmt fmt \<Longrightarrow> nonneg fmt (zero_bits fmt 0) \<and> nonneg fmt (inf_bits fmt 0)"
  by (simp add: nonneg_def fits_const const_kinds)

lemma nonneg_rounded:
  assumes "wf_fmt fmt" "0 < v" shows "nonneg fmt (fst (round_signed fmt rnd v))"
  using round_real_bits [OF assms, of 0 rnd] assms(1)
  by (simp add: nonneg_def round_signed_pos [OF assms(2)] is_nan_mag)

lemma fval_nonneg: "wf_fmt fmt \<Longrightarrow> nonneg fmt x \<Longrightarrow> is_finite fmt x \<Longrightarrow> 0 \<le> fval fmt x"
  by (simp add: nonneg_def fval_eq)

lemma finite_or_inf: "wf_fmt fmt \<Longrightarrow> fits fmt x \<Longrightarrow> \<not> is_nan fmt x \<Longrightarrow> is_finite fmt x \<or> is_inf fmt x"
  by (auto simp: is_nan_mag is_finite_def is_inf_def u_kind_unpack kind_of_iff)

lemma add_nonneg:
  assumes wf: "wf_fmt fmt" and rnd: "valid_mode rnd" and n: "nonneg fmt x" "nonneg fmt y"
  shows "nonneg fmt (fst (add_pair fmt rnd (leaf x) (leaf y)))"
    and "is_inf fmt x \<or> is_inf fmt y \<Longrightarrow> fst (add_pair fmt rnd (leaf x) (leaf y)) = inf_bits fmt 0"
proof -
  note f = n [unfolded nonneg_def]
  have k: "u_kind (unpack fmt x) \<noteq> KNan" "u_kind (unpack fmt y) \<noteq> KNan" using f is_nan_kind [OF wf] by blast+
  have s: "u_sign (unpack fmt x) = 0" "u_sign (unpack fmt y) = 0" using f wf by simp_all
  note r = add_pair_run [OF wf rnd, of x y]
  show i: "fst (add_pair fmt rnd (leaf x) (leaf y)) = inf_bits fmt 0" if "is_inf fmt x \<or> is_inf fmt y"
  proof -
    have "add fmt x y rnd = Inr (inf_bits fmt 0, 0)"
      using that k s rnd by (auto simp: add_def Let_def is_inf_def)
    with r show ?thesis by (metis Inr_inject fst_conv)
  qed
  show "nonneg fmt (fst (add_pair fmt rnd (leaf x) (leaf y)))"
  proof (cases "is_inf fmt x \<or> is_inf fmt y")
    case True
    then show ?thesis using i nonneg_const [OF wf] by simp
  next
    case False
    then have fin: "is_finite fmt x" "is_finite fmt y" using finite_or_inf [OF wf] f by auto
    have "add fmt x y rnd = Inr (sum_result fmt rnd 0 0 (fval fmt x + fval fmt y))"
      using add_finite [OF wf _ fin(1) _ fin(2) rnd] f by simp
    then have e: "fst (add_pair fmt rnd (leaf x) (leaf y)) = fst (sum_result fmt rnd 0 0 (fval fmt x + fval fmt y))"
      using r by simp
    show ?thesis
    proof (cases "fval fmt x + fval fmt y = 0")
      case True
      then show ?thesis using e nonneg_const [OF wf] by (simp add: sum_result_def)
    next
      case False
      then have "0 < fval fmt x + fval fmt y" using fval_nonneg [OF wf n(1) fin(1)] fval_nonneg [OF wf n(2) fin(2)] by linarith
      then show ?thesis using e False nonneg_rounded [OF wf] by (simp add: sum_result_def)
    qed
  qed
qed

lemma tree_nonneg:
  assumes wf: "wf_fmt fmt" and rnd: "valid_mode rnd"
  shows "ps \<noteq> [] \<Longrightarrow> \<forall>p\<in>set ps. nonneg fmt (fst p) \<Longrightarrow>
    nonneg fmt (fst (tree (add_pair fmt rnd) ps)) \<and>
    ((\<exists>p\<in>set ps. is_inf fmt (fst p)) \<longrightarrow> fst (tree (add_pair fmt rnd) ps) = inf_bits fmt 0)"
proof (induction "add_pair fmt rnd" ps rule: tree.induct)
  case (1 ps)
  show ?case
  proof (cases "length ps < 2")
    case True
    then obtain p where p: "ps = [p]" using 1(3) by (cases ps) (auto simp: less_Suc_eq)
    have "fst p = inf_bits fmt 0" if "is_inf fmt (fst p)"
      using kind_bits(1) [OF wf _ that] 1(4) p by (simp add: nonneg_def)
    then show ?thesis using 1(4) p by simp
  next
    case False
    then have n: "2 \<le> length ps" by simp
    let ?h = "half (length ps)" and ?t = "tree (add_pair fmt rnd)"
    have ne: "take ?h ps \<noteq> []" "drop ?h ps \<noteq> []" using half_bounds [OF n] n by auto
    have L: "\<forall>p\<in>set (take ?h ps). nonneg fmt (fst p)" "\<forall>p\<in>set (drop ?h ps). nonneg fmt (fst p)"
      using 1(4) by (auto dest: in_set_takeD in_set_dropD)
    note l = "1.hyps"(1) [OF False ne(1) L(1)] and r = "1.hyps"(2) [OF False ne(2) L(2)]
    have e: "fst (?t ps) = fst (add_pair fmt rnd (leaf (fst (?t (take ?h ps)))) (leaf (fst (?t (drop ?h ps)))))"
      using False by (subst tree.simps) (simp, metis add_pair_split fst_conv prod.collapse)
    note a = add_nonneg [OF wf rnd l [THEN conjunct1] r [THEN conjunct1]]
    have "set ps = set (take ?h ps) \<union> set (drop ?h ps)" by (metis append_take_drop_id set_append)
    then have "fst (?t ps) = inf_bits fmt 0" if "\<exists>p\<in>set ps. is_inf fmt (fst p)"
      using that l r a(2) const_kinds(1) [OF wf, of 0] unfolding e by auto
    then show ?thesis using a(1) e by simp
  qed
qed

lemma tree_sum_inf:
  assumes "wf_fmt fmt" "valid_mode rnd" "\<forall>x\<in>set xs. nonneg fmt x" "\<exists>x\<in>set xs. is_inf fmt x"
  shows "fst (tree_sum fmt rnd xs) = inf_bits fmt 0"
  using tree_nonneg [OF assms(1,2), of "map leaf xs"] assms(3,4) by (auto simp: tree_sum_def)

lemma mul_square:
  assumes wf: "wf_fmt fmt" and rnd: "valid_mode rnd" and x: "fits fmt x" "\<not> is_nan fmt x"
  shows "nonneg fmt (fst (mul_pair fmt rnd x x))"
    and "is_inf fmt x \<Longrightarrow> is_inf fmt (fst (mul_pair fmt rnd x x))"
proof -
  have k: "u_kind (unpack fmt x) \<noteq> KNan" using x wf by (simp add: is_nan_kind)
  note r = mul_pair_run [OF wf rnd, of x x]
  show i: "is_inf fmt (fst (mul_pair fmt rnd x x))" if "is_inf fmt x"
  proof -
    have "mul fmt x x rnd = Inr (inf_bits fmt 0, 0)" using that k rnd by (simp add: mul_def Let_def is_inf_def)
    with r have "fst (mul_pair fmt rnd x x) = inf_bits fmt 0" by (metis Inr_inject fst_conv)
    then show ?thesis using const_kinds(1) [OF wf, of 0] by simp
  qed
  show "nonneg fmt (fst (mul_pair fmt rnd x x))"
  proof (cases "is_inf fmt x")
    case True
    then have "mul fmt x x rnd = Inr (inf_bits fmt 0, 0)" using k rnd by (simp add: mul_def Let_def is_inf_def)
    then show ?thesis using r nonneg_const [OF wf] by simp
  next
    case False
    then have fin: "is_finite fmt x" using finite_or_inf [OF wf x] by simp
    show ?thesis
      using mul_finite [OF wf x(1) fin x(1) fin rnd] r nonneg_const [OF wf]
        nonneg_rounded [OF wf, of "fval fmt x * fval fmt x" rnd]
      by (cases "fval fmt x = 0") (simp_all add: zero_less_mult_iff less_le)
  qed
qed

text \<open>Clause 9.4's row for both operations: any infinite element makes the result plus infinity.\<close>

lemma infinity_outranks_nan:
  assumes wf: "wf_fmt fmt" and rnd: "valid_mode rnd" and f: "\<forall>x\<in>set xs. fits fmt x" and i: "\<exists>x\<in>set xs. is_inf fmt x"
  shows "\<exists>f. fsumsq fmt xs rnd = Inr (inf_bits fmt 0, f)" "\<exists>f. fsumabs fmt xs rnd = Inr (inf_bits fmt 0, f)"
proof -
  have sp: "inf_over_nan fmt xs = (if \<exists>x\<in>set xs. is_nan fmt x
      then Some (inf_bits fmt 0, if list_ex (red_is_snan fmt) xs then FLAG_INVALID else 0) else None)"
    using i by (simp add: inf_over_nan_def list_ex_iff red_classes)
  show "\<exists>f. fsumsq fmt xs rnd = Inr (inf_bits fmt 0, f)"
  proof (cases "\<exists>x\<in>set xs. is_nan fmt x")
    case True then show ?thesis by (simp add: fsumsq_def sp)
  next
    case False
    let ?ps = "map fst (map (\<lambda>(a, b). mul_pair fmt rnd a b) (zip xs xs))"
    have ps: "?ps = map (\<lambda>x. fst (mul_pair fmt rnd x x)) xs" by (simp add: zip_same_conv_map)
    have "fst (tree_sum fmt rnd ?ps) = inf_bits fmt 0"
    proof (unfold ps, rule tree_sum_inf [OF wf rnd])
      show "\<forall>y\<in>set (map (\<lambda>x. fst (mul_pair fmt rnd x x)) xs). nonneg fmt y"
        using f False mul_square(1) [OF wf rnd] by simp
      have "\<exists>x\<in>set xs. is_inf fmt (fst (mul_pair fmt rnd x x))" using i f False mul_square(2) [OF wf rnd] by blast
      then show "\<exists>y\<in>set (map (\<lambda>x. fst (mul_pair fmt rnd x x)) xs). is_inf fmt y" by simp
    qed
    then show ?thesis using fdot_tree [OF wf rnd, of xs xs] False by (simp add: fsumsq_def sp)
  qed
  show "\<exists>f. fsumabs fmt xs rnd = Inr (inf_bits fmt 0, f)"
  proof (cases "\<exists>x\<in>set xs. is_nan fmt x")
    case True then show ?thesis by (simp add: fsumabs_def sp)
  next
    case False
    have n: "nonneg fmt (fst (fabs fmt x)) \<and> (is_inf fmt x \<longrightarrow> is_inf fmt (fst (fabs fmt x)))" if "x \<in> set xs" for x
      using that f False wf
      by (auto simp: fabs_pack nonneg_def is_nan_mag is_inf_def u_kind_unpack)
    have "fst (tree_sum fmt rnd (map (\<lambda>x. fst (fabs fmt x)) xs)) = inf_bits fmt 0"
      using n i by (intro tree_sum_inf [OF wf rnd]) auto
    then show ?thesis using False reduce_bits_tree_sum [OF wf rnd]
      by (simp add: fsumabs_def sp fsum_def) (metis prod.collapse)
  qed
qed

section \<open>The maximum\<close>

text \<open>
  On operands that are not NaN, \<open>fmax\<close> picks the greater in the total order. The fold over
  a vector therefore picks its greatest element, whichever order it takes them in; as soon
  as two elements meet, one NaN makes the result the canonical one and a signaling NaN
  raises invalid.
\<close>

lemma fmax_key:
  assumes wf: "wf_fmt fmt" and x: "fits fmt xa" "fits fmt xb" and nn: "\<not> is_nan fmt xa" "\<not> is_nan fmt xb"
  shows "fmax fmt xa xb = (if total_order_key fmt xa < total_order_key fmt xb then xb else xa, 0)"
proof -
  note r = minmax_result [OF wf x nn, of True False, folded fmax_def]
  note kr = total_order_key_rank [OF x] total_order_key_rank [OF x(2,1)]
  consider "rank fmt xa < rank fmt xb" | "rank fmt xb < rank fmt xa" | "xa = xb" | "rank fmt xa = 0" "rank fmt xb = 0" "xa \<noteq> xb"
    using rank_eq_cases [OF x] by fastforce
  then show ?thesis
  proof cases
    case 4
    have s: "sgn_of fmt xa = 0 \<or> sgn_of fmt xa = 1" "sgn_of fmt xb = 0 \<or> sgn_of fmt xb = 1"
      using fits_sgn x by blast+
    have ne: "sgn_of fmt xa \<noteq> sgn_of fmt xb" using rank_sgn_inject [OF x] 4 by metis
    have k: "total_order_key fmt xa < total_order_key fmt xb \<longleftrightarrow> sgn_of fmt xb < sgn_of fmt xa" using kr(2) 4 by simp
    show ?thesis using r(1,3) 4 s ne k by auto
  qed (use r(1,2) kr(1,3) in auto)
qed

definition invalid_if_snan :: "fp_format \<Rightarrow> int list \<Rightarrow> int" where
  "invalid_if_snan fmt xs = (if \<exists>x\<in>set xs. is_snan fmt x then FLAG_INVALID else 0)"

text \<open>The result over a set of elements in which at least two met.\<close>

definition maxall_of :: "fp_format \<Rightarrow> int set \<Rightarrow> int \<times> int \<Rightarrow> bool" where
  "maxall_of fmt S r \<longleftrightarrow>
    (if \<exists>x\<in>S. is_nan fmt x then r = (qnan_bits fmt, if \<exists>x\<in>S. is_snan fmt x then FLAG_INVALID else 0)
     else fst r \<in> S \<and> (\<forall>y\<in>S. total_order_key fmt y \<le> total_order_key fmt (fst r)) \<and> snd r = 0)"

lemma maxall_of_unique:
  assumes "\<forall>x\<in>S. fits fmt x" "maxall_of fmt S r" "maxall_of fmt S r'"
  shows "r = r'"
proof (cases "\<exists>x\<in>S. is_nan fmt x")
  case True
  then show ?thesis using assms by (simp add: maxall_of_def)
next
  case False
  then have m: "fst r \<in> S" "fst r' \<in> S" "snd r = 0" "snd r' = 0"
      "\<forall>y\<in>S. total_order_key fmt y \<le> total_order_key fmt (fst r)" "\<forall>y\<in>S. total_order_key fmt y \<le> total_order_key fmt (fst r')"
    using assms(2,3) by (simp_all add: maxall_of_def)
  then have "total_order_key fmt (fst r) = total_order_key fmt (fst r')" by (simp add: antisym)
  then have "fst r = fst r'" using total_order_key_inject assms(1) m by blast
  with m show ?thesis by (simp add: prod_eq_iff)
qed

lemma fmax_nan:
  assumes "wf_fmt fmt" "fits fmt xa" "fits fmt xb" "is_nan fmt xa \<or> is_nan fmt xb"
  shows "fmax fmt xa xb = (qnan_bits fmt, if is_snan fmt xa \<or> is_snan fmt xb then FLAG_INVALID else 0)"
  unfolding fmax_def by (rule minmax_nan(1) [OF assms])

lemma maxall_start:
  assumes wf: "wf_fmt fmt" and f: "fits fmt x" "fits fmt y"
  shows "maxall_of fmt {x, y} (fmax fmt x y)"
proof (cases "is_nan fmt x \<or> is_nan fmt y")
  case True
  then show ?thesis using fmax_nan [OF wf f] by (simp add: maxall_of_def)
next
  case False
  then show ?thesis using fmax_key [OF wf f] by (simp add: maxall_of_def)
qed

lemma maxall_step:
  assumes wf: "wf_fmt fmt" and f: "\<forall>x\<in>S. fits fmt x" "fits fmt y" and m: "maxall_of fmt S (a, fl)"
  shows "maxall_of fmt (insert y S) (fst (fmax fmt a y), fl OR snd (fmax fmt a y))"
proof (cases "\<exists>x\<in>S. is_nan fmt x")
  case True
  then have a: "a = qnan_bits fmt" "fl = (if \<exists>x\<in>S. is_snan fmt x then FLAG_INVALID else 0)"
    using m by (simp_all add: maxall_of_def)
  note q = qnan_quiet [OF wf]
  show ?thesis using True fmax_nan [OF wf _ f(2), of a] q unfolding a by (auto simp: maxall_of_def)
next
  case False
  then have a: "a \<in> S" "\<forall>y\<in>S. total_order_key fmt y \<le> total_order_key fmt a" "fl = 0"
    using m by (simp_all add: maxall_of_def)
  have fa: "fits fmt a" "\<not> is_nan fmt a" using a(1) f(1) False by blast+
  have ns: "\<not> is_snan fmt x" if "x \<in> insert a S" for x using that False a(1) f(1) snan_is_nan [OF wf] by blast
  show ?thesis
  proof (cases "is_nan fmt y")
    case True
    then show ?thesis using fmax_nan [OF wf fa(1) f(2)] ns a(3) by (auto simp: maxall_of_def)
  next
    case False
    then show ?thesis using fmax_key [OF wf fa(1) f(2) fa(2)] a \<open>\<not> (\<exists>x\<in>S. is_nan fmt x)\<close>
      by (auto simp: maxall_of_def)
  qed
qed

lemma fmaxall_maxall:
  assumes wf: "wf_fmt fmt" and f: "\<forall>x\<in>set xs. fits fmt x" and n: "2 \<le> length xs"
  shows "maxall_of fmt (set xs) (fmaxall fmt xs)"
proof -
  let ?step = "\<lambda>(acc, flags) y. let (acc', f) = fmax fmt acc y in (acc', flags OR f)"
  have loop: "maxall_of fmt (S \<union> set ys) (foldl ?step (a, fl) ys)"
    if "\<forall>x\<in>S. fits fmt x" "\<forall>y\<in>set ys. fits fmt y" "maxall_of fmt S (a, fl)" for S ys a fl
    using that
  proof (induction ys arbitrary: S a fl)
    case (Cons y ys)
    have "maxall_of fmt (insert y S) (fst (fmax fmt a y), fl OR snd (fmax fmt a y))"
      using maxall_step [OF wf] Cons.prems by simp
    then show ?case using Cons.IH [of "insert y S"] Cons.prems by (simp add: case_prod_beta Let_def)
  qed simp
  obtain x y zs where xs: "xs = x # y # zs" using n by (cases xs; cases "tl xs") auto
  have "maxall_of fmt {x, y} (fst (fmax fmt x y), snd (fmax fmt x y))" using maxall_start [OF wf] f xs by simp
  from loop [OF _ _ this, of zs] show ?thesis using f by (simp add: xs fmaxall_def case_prod_beta Let_def insert_commute)
qed

lemma fmaxall_set:
  assumes "wf_fmt fmt" "\<forall>x\<in>set xs. fits fmt x" "set xs = set ys" "2 \<le> length xs" "2 \<le> length ys"
  shows "fmaxall fmt xs = fmaxall fmt ys"
  using maxall_of_unique [OF assms(2) fmaxall_maxall [OF assms(1,2,4)]] fmaxall_maxall [OF assms(1) _ assms(5)] assms(2,3)
  by simp

section \<open>The scaled products\<close>

text \<open>An operand in \<open>\<plusminus>[1, 2)\<close>, which is what a scaled significand is.\<close>

definition unit_sig :: "fp_format \<Rightarrow> int \<Rightarrow> bool" where
  "unit_sig fmt x \<longleftrightarrow> fits fmt x \<and> is_finite fmt x \<and> 1 \<le> \<bar>fval fmt x\<bar> \<and> \<bar>fval fmt x\<bar> < 2"

lemma norm_split_exact:
  assumes wf: "wf_fmt fmt" and x: "fits fmt x" "is_finite fmt x" "fval fmt x \<noteq> 0"
  shows "\<exists>sig k. norm_split fmt x = Inr (sig, k) \<and> unit_sig fmt sig \<and> fval fmt x = fval fmt sig * p2 k"
proof -
  define m where "m = u_m (unpack fmt x)"
  define e where "e = u_e (unpack fmt x)"
  define b where "b = nat (bit_length m - 1)"
  define P where "P = (2::int) ^ man_w fmt"
  note ub = unpack_bounds [OF wf x, folded m_def e_def]
  have s: "sgn_of fmt x = 0 \<or> sgn_of fmt x = 1" by (rule fits_sgn [OF x(1)])
  have b0: "bit_length m - 1 = int b" using bit_length_pos [OF ub(1)] by (simp add: b_def)
  have "bit_length m \<le> int (Suc (man_w fmt))" using bit_length_le_iff [of m "Suc (man_w fmt)"] ub(1,2) by linarith
  then have bn: "b \<le> man_w fmt" using b0 by linarith
  have mb: "2 ^ b \<le> m" "m < 2 ^ Suc b" using bit_length_eq_iff [OF ub(1), of b] b0 by simp_all
  define K where "K = m * 2 ^ (man_w fmt - b)"
  have K: "P \<le> K" "K < 2 * P"
  proof -
    have d: "P = 2 ^ b * 2 ^ (man_w fmt - b)" unfolding P_def using bn by (simp add: power_add [symmetric])
    show "P \<le> K" unfolding d K_def using mb(1) by simp
    show "K < 2 * P" unfolding d K_def using mult_strict_right_mono [OF mb(2), of "2 ^ (man_w fmt - b)"] by simp
  qed
  have P0: "0 < P" by (simp add: P_def)
  have "K mod P = (K - P) mod P" using mod_add_self2 [of "K - P" P] by simp
  also have "\<dots> = K - P" using K by (intro mod_pos_pos_trivial) linarith+
  finally have fr: "K mod P = K - P" .
  have sh: "nat (int (man_w fmt) - int b) = man_w fmt - b" by simp
  have frac: "push_bit (nat (int (man_w fmt) - int b)) m AND man_mask fmt = K - P"
    using fr by (simp add: man_mask_eq and_exp_minus_1 push_bit_eq_mult K_def P_def nat_diff_distrib')
  define mag where "mag = bias fmt * P + (K - P)"
  have bias: "1 \<le> bias fmt" by (rule bias_pos [OF wf])
  have m0: "0 \<le> mag" using bias P0 K by (simp add: mag_def)
  have "mag < (bias fmt + 1) * P" using K by (simp add: mag_def algebra_simps)
  also have "\<dots> \<le> inf_mag fmt"
  proof -
    have "(bias fmt + 1) * P \<le> exp_mask fmt * P"
      using exp_mask_bias [OF wf] bias P0 by (intro mult_right_mono) linarith+
    then show ?thesis by (simp add: inf_mag_def P_def push_bit_eq_mult)
  qed
  finally have mi: "mag < inf_mag fmt" .
  then have ml: "mag < mag_lim fmt" using inf_mag_less [of fmt] by linarith
  have orr: "push_bit (man_w fmt) (bias fmt) OR (K - P) = mag"
    using or_disjoint [of "K - P" "man_w fmt" "bias fmt"] K by (simp add: push_bit_eq_mult mag_def P_def)
  have bits: "push_bit (width fmt - 1) (sgn_of fmt x) OR push_bit (man_w fmt) (bias fmt) OR (K - P) = pack fmt (sgn_of fmt x) mag"
    using push_or_pack [OF m0 ml] by (simp only: or.assoc orr)
  have ns: "norm_split fmt x = Inr (pack fmt (sgn_of fmt x) mag, e + int b)"
    using bn wf x(1) unfolding norm_split_def Let_def m_def [symmetric] e_def [symmetric] b0 frac
    by (simp add: bits [unfolded One_nat_def] del: width_minus_1)
  have "place fmt (- int (man_w fmt)) K = mag"
    by (simp add: place_def qmin_def emin_def mag_def P_def algebra_simps)
  moreover have "mag_val fmt (place fmt (- int (man_w fmt)) K) = of_int K * p2 (- int (man_w fmt))"
    using K P0 bias by (intro mag_val_place) (simp_all add: qmin_def emin_def P_def)
  ultimately have mv: "mag_val fmt mag = of_int K * p2 (- int (man_w fmt))" by simp
  have fv: "fval fmt (pack fmt (sgn_of fmt x) mag) = sg (sgn_of fmt x) * (of_int K * p2 (- int (man_w fmt)))"
    using fval_pack [OF wf s m0 mi] mv by simp
  have kv: "of_int K * p2 (- int (man_w fmt)) = of_int m * p2 (- int b)"
  proof -
    have "of_int K = of_int m * p2 (int (man_w fmt - b))" by (simp add: K_def)
    moreover have "p2 (int (man_w fmt - b)) * p2 (- int (man_w fmt)) = p2 (- int b)"
      using bn by (simp add: p2_add [symmetric] of_nat_diff del: p2_of_nat)
    ultimately show ?thesis by (simp add: mult.assoc del: p2_of_nat)
  qed
  have range: "1 \<le> of_int K * p2 (- int (man_w fmt))" "of_int K * p2 (- int (man_w fmt)) < 2"
  proof -
    have d: "of_int P * p2 (- int (man_w fmt)) = 1" by (simp add: P_def power_int_minus)
    show "1 \<le> of_int K * p2 (- int (man_w fmt))"
      using mult_right_mono [of "of_int P" "of_int K" "p2 (- int (man_w fmt))"] K(1) d by simp
    have "of_int K * p2 (- int (man_w fmt)) < of_int (2 * P) * p2 (- int (man_w fmt))"
      using K(2) by (intro mult_strict_right_mono) (simp only: of_int_less_iff, simp)
    then show "of_int K * p2 (- int (man_w fmt)) < 2" using d by (simp add: mult.assoc)
  qed
  have "\<bar>fval fmt (pack fmt (sgn_of fmt x) mag)\<bar> = of_int K * p2 (- int (man_w fmt))"
    unfolding fv abs_mult using K P0 by simp
  then have "unit_sig fmt (pack fmt (sgn_of fmt x) mag)"
    using s m0 ml mi range by (simp add: unit_sig_def is_finite_def del: pack_0)
  moreover have "fval fmt x = fval fmt (pack fmt (sgn_of fmt x) mag) * p2 (e + int b)"
    unfolding fv kv using ub(6) by (simp add: p2_add power_int_minus del: power_int_of_nat)
  ultimately show ?thesis using ns by blast
qed

text \<open>
  A node multiplies two significands. Their product lies in \<open>[1, 4)\<close>, far from both ends of
  the exponent range, so the rounding can only be inexact.
\<close>

lemma unbounded_ge_one:
  assumes "1 \<le> x" shows "1 \<le> unbounded fmt rnd s x"
proof -
  have p: "0 < x" using assms by simp
  have i0: "0 \<le> ilog2 x" using ilog2_ge_iff [OF p, of 0] assms by simp
  have "of_int (2 ^ man_w fmt) * p2 (ilog2 x - int (man_w fmt)) = p2 (ilog2 x)"
    by (simp add: p2_diff)
  then have d: "of_int (2 ^ man_w fmt) \<le> x / p2 (ilog2 x - int (man_w fmt))"
    using ilog2_bounds(1) [OF p] by (simp add: pos_le_divide_eq)
  have "of_int (2 ^ man_w fmt) * p2 (ilog2 x - int (man_w fmt)) \<le> unbounded fmt rnd s x"
    unfolding unbounded_def by (intro mult_right_mono) (use rint_ge [OF d] in \<open>simp_all only: of_int_le_iff, simp\<close>)
  moreover have "1 \<le> p2 (ilog2 x)" using i0 p2_mono_iff [of 0 "ilog2 x"] by simp
  ultimately show ?thesis by (simp add: p2_diff)
qed

text \<open>The value a real rounds to, and the binade it is taken out of.\<close>

definition real_round :: "fp_format \<Rightarrow> int \<Rightarrow> real \<Rightarrow> real" where
  "real_round fmt rnd v = fval fmt (fst (round_signed fmt rnd v))"

lemma unit_split:
  assumes "1 \<le> \<bar>s\<bar>" "\<bar>s\<bar> < 2" "v = s * p2 k"
  shows "ilog2 \<bar>v\<bar> = k" "v / p2 k = s"
proof -
  have "p2 k \<le> \<bar>s\<bar> * p2 k" "\<bar>s\<bar> * p2 k < 2 * p2 k" using assms(1,2) by simp_all
  moreover have "0 < \<bar>v\<bar>" using assms by (auto simp: abs_mult)
  ultimately show "ilog2 \<bar>v\<bar> = k" using assms(3) by (simp add: ilog2_eq_iff abs_mult p2_add)
  show "v / p2 k = s" using assms(3) by simp
qed

lemma mul_unit:
  assumes lad: "ladder_fmt fmt" and rnd: "valid_mode rnd" and a: "unit_sig fmt xa" and b: "unit_sig fmt xb"
  shows "\<exists>p f. mul fmt xa xb rnd = Inr (p, f) \<and> fits fmt p \<and> is_finite fmt p \<and> fval fmt p \<noteq> 0 \<and>
    fval fmt p = real_round fmt rnd (fval fmt xa * fval fmt xb) \<and> 1 \<le> \<bar>fval fmt p\<bar> \<and> \<bar>fval fmt p\<bar> \<le> 4 \<and>
    f = (if fval fmt p = fval fmt xa * fval fmt xb then 0 else FLAG_INEXACT)"
proof -
  note wf = ladder_wf [OF lad]
  define v where "v = fval fmt xa * fval fmt xb"
  define s where "s = (if v < 0 then 1 else 0 :: int)"
  have av: "1 \<le> \<bar>v\<bar>" "\<bar>v\<bar> < 4"
  proof -
    have "1 * 1 \<le> \<bar>fval fmt xa\<bar> * \<bar>fval fmt xb\<bar>" using a b by (intro mult_mono) (simp_all add: unit_sig_def)
    then show "1 \<le> \<bar>v\<bar>" by (simp add: v_def abs_mult)
    have "\<bar>fval fmt xa\<bar> * \<bar>fval fmt xb\<bar> < 2 * 2" using a b by (intro mult_strict_mono) (simp_all add: unit_sig_def)
    then show "\<bar>v\<bar> < 4" by (simp add: v_def abs_mult)
  qed
  then have v0: "v \<noteq> 0" and p: "0 < \<bar>v\<bar>" by auto
  have e: "mul fmt xa xb rnd = Inr (round_signed fmt rnd v)"
    using mul_finite [OF wf _ _ _ _ rnd, of xa xb] a b v0 by (simp add: unit_sig_def v_def)
  have em: "8 \<le> emax fmt" using lad wf_man_w [OF wf] by (simp add: ladder_fmt_def prec_def)
  have q: "qmin fmt \<le> 0" using em by (simp add: qmin_def emin_def emax_def)
  have small: "of_int k * p2 0 < p2 (emax fmt + 1)" if "k \<le> 4" for k :: int
  proof -
    have "of_int k \<le> p2 2" using that by (simp add: power_int_def)
    also have "\<dots> < p2 (emax fmt + 1)" using em by (subst p2_less_iff) simp
    finally show ?thesis by simp
  qed
  have kk: "(4::int) \<le> 2 ^ Suc (man_w fmt)" using wf_man_w [OF wf] power_increasing [of 2 "Suc (man_w fmt)" "2::int"] by simp
  obtain m1 where m1: "0 < m1" "m1 < inf_mag fmt" "mag_val fmt m1 = of_int 1 * p2 0"
    by (rule representable [OF wf, of 1 0]) (use kk q small [of 1] in simp_all)
  obtain m4 where m4: "0 < m4" "m4 < inf_mag fmt" "mag_val fmt m4 = of_int 4 * p2 0"
    by (rule representable [OF wf, of 4 0]) (use kk q small [of 4] in simp_all)
  have r1: "rmag fmt rnd s 1 = m1" using rmag_exact [of m1 fmt rnd s] m1 by simp
  have r4: "rmag fmt rnd s 4 = m4" using rmag_exact [of m4 fmt rnd s] m4 by simp
  have lo: "m1 \<le> rmag fmt rnd s \<bar>v\<bar>" using rmag_mono [of 1 "\<bar>v\<bar>" fmt rnd s] av r1 by simp
  have hi: "rmag fmt rnd s \<bar>v\<bar> < inf_mag fmt" using rmag_mono [OF p, of 4 fmt rnd s] av r4 m4 by simp
  note r = round_signed_finite [OF wf v0 hi [unfolded s_def], folded s_def]
  have "0 < mag_val fmt (rmag fmt rnd s \<bar>v\<bar>)" using lo m1(1) by (simp add: mag_val_pos_iff)
  then have nz: "fval fmt (fst (round_signed fmt rnd v)) \<noteq> 0" using r(4) by (auto simp: sg_def)
  have nt: "\<not> tiny fmt rnd s \<bar>v\<bar>"
  proof -
    have "p2 (emin fmt) < p2 0" using em by (subst p2_less_iff) (simp add: emin_def emax_def)
    then show ?thesis using unbounded_ge_one [OF av(1), of fmt rnd s] by (simp add: tiny_def)
  qed
  have f: "snd (round_signed fmt rnd v) = (if inexact fmt \<bar>v\<bar> then FLAG_INEXACT else 0)"
    using hi nt by (simp add: round_signed_def round_real_def s_def)
  have "mag_val fmt (rmag fmt rnd s \<bar>v\<bar>) = \<bar>v\<bar> \<longleftrightarrow> fval fmt (fst (round_signed fmt rnd v)) = v"
    using r(4) v0 by (auto simp: s_def)
  then have "snd (round_signed fmt rnd v) = (if fval fmt (fst (round_signed fmt rnd v)) = v then 0 else FLAG_INEXACT)"
    using f inexact_iff [OF p] by auto
  moreover have "1 \<le> \<bar>fval fmt (fst (round_signed fmt rnd v))\<bar>" "\<bar>fval fmt (fst (round_signed fmt rnd v))\<bar> \<le> 4"
  proof -
    have a: "\<bar>fval fmt (fst (round_signed fmt rnd v))\<bar> = mag_val fmt (rmag fmt rnd s \<bar>v\<bar>)"
      using r(4) \<open>0 < mag_val fmt (rmag fmt rnd s \<bar>v\<bar>)\<close> by (simp add: abs_mult)
    have "mag_val fmt m1 \<le> mag_val fmt (rmag fmt rnd s \<bar>v\<bar>)" "mag_val fmt (rmag fmt rnd s \<bar>v\<bar>) \<le> mag_val fmt m4"
      using lo m1(1) m4(1) rmag_mono [OF p, of 4 fmt rnd s] av r4 by (simp_all add: mag_val_le_iff)
    then show "1 \<le> \<bar>fval fmt (fst (round_signed fmt rnd v))\<bar>" "\<bar>fval fmt (fst (round_signed fmt rnd v))\<bar> \<le> 4"
      unfolding a m1(3) m4(3) by simp_all
  qed
  moreover obtain p g where pg: "round_signed fmt rnd v = (p, g)" by fastforce
  ultimately show ?thesis unfolding v_def [symmetric] real_round_def using e r(2,3) nz by (auto simp: pg)
qed

text \<open>
  The product the tree stands for, over the reals and with an unbounded scale: an element is taken
  apart into its significand and its binade, a node rounds the product of two significands and takes
  the binade out again. The last component lists every sum of scales a node forms, in order.
\<close>

definition scaled_leaf :: "real \<Rightarrow> real \<times> int \<times> bool \<times> int list" where
  "scaled_leaf v = (let k = ilog2 \<bar>v\<bar> in (v / p2 k, k, False, []))"

definition scaled_node ::
    "fp_format \<Rightarrow> int \<Rightarrow> real \<times> int \<times> bool \<times> int list \<Rightarrow> real \<times> int \<times> bool \<times> int list \<Rightarrow> real \<times> int \<times> bool \<times> int list" where
  "scaled_node fmt rnd = (\<lambda>(s1, k1, i1, t1) (s2, k2, i2, t2).
    let p = real_round fmt rnd (s1 * s2); k = ilog2 \<bar>p\<bar>
    in (p / p2 k, k1 + k2 + k, i1 \<or> i2 \<or> p \<noteq> s1 * s2, t1 @ t2 @ [k1 + k2, k1 + k2 + k]))"

definition scaled_ideal :: "fp_format \<Rightarrow> int \<Rightarrow> real list \<Rightarrow> real \<times> int \<times> bool \<times> int list" where
  "scaled_ideal fmt rnd vs = tree (scaled_node fmt rnd) (map scaled_leaf vs)"

definition in_int64 :: "int \<Rightarrow> bool" where
  "in_int64 e \<longleftrightarrow> - (2 ^ 63) \<le> e \<and> e < 2 ^ 63"

lemma scale_add_ideal: "scale_add a b = (if in_int64 (a + b) then Inr (a + b) else Inl ScaleOverflow)"
  by (simp add: scale_add_def in_int64_def Let_def reduce_defs push_bit_eq_mult)

lemma scaled_ideal_one: "scaled_ideal fmt rnd [v] = scaled_leaf v"
  by (simp add: scaled_ideal_def)

lemma scaled_ideal_split:
  assumes "2 \<le> length vs"
  shows "scaled_ideal fmt rnd vs = scaled_node fmt rnd (scaled_ideal fmt rnd (take (half (length vs)) vs))
    (scaled_ideal fmt rnd (drop (half (length vs)) vs))"
  unfolding scaled_ideal_def using assms by (subst tree.simps) (simp add: take_map drop_map)

text \<open>What a range of the code's tree delivers, against the product it stands for.\<close>

definition scaled_ok ::
    "fp_format \<Rightarrow> real list \<Rightarrow> (int \<times> int \<times> int) result \<Rightarrow> real \<times> int \<times> bool \<times> int list \<Rightarrow> bool" where
  "scaled_ok fmt vs res = (\<lambda>(s, k, i, ts).
    (\<exists>sig. unit_sig fmt sig \<and> fval fmt sig = s \<and>
      res = (if \<forall>e\<in>set ts. in_int64 e then Inr (sig, k, if i then FLAG_INEXACT else 0) else Inl ScaleOverflow)) \<and>
    (\<not> i \<longrightarrow> s * p2 k = prod_list vs) \<and>
    (\<forall>e\<in>set (k # ts). \<bar>e\<bar> \<le> int (length vs) * (emax fmt + prec fmt) - 2))"

lemma scaled_leaf_ok:
  assumes lad: "ladder_fmt fmt" and x: "fits fmt x" "is_finite fmt x" "fval fmt x \<noteq> 0"
  shows "scaled_ok fmt [fval fmt x] (bind_r (norm_split fmt x) (\<lambda>(sig, k). Inr (sig, k, 0))) (scaled_leaf (fval fmt x))"
proof -
  note wf = ladder_wf [OF lad]
  note b = unpack_bounds [OF wf x]
  from norm_split_exact [OF wf x] obtain sig k where
    n: "norm_split fmt x = Inr (sig, k)" "unit_sig fmt sig" "fval fmt x = fval fmt sig * p2 k" by blast
  have u: "ilog2 \<bar>fval fmt x\<bar> = k" "fval fmt x / p2 k = fval fmt sig"
    using unit_split [OF _ _ n(3)] n(2) by (simp_all add: unit_sig_def)
  have av: "\<bar>fval fmt x\<bar> = of_int (u_m (unpack fmt x)) * p2 (u_e (unpack fmt x))"
    by (rule b(5))
  have "p2 (qmin fmt) \<le> p2 (u_e (unpack fmt x))" using b(3) by simp
  also have "\<dots> \<le> of_int (u_m (unpack fmt x)) * p2 (u_e (unpack fmt x))" using b(1) by simp
  finally have "p2 (qmin fmt) \<le> \<bar>fval fmt x\<bar>" unfolding av .
  moreover have "0 < \<bar>fval fmt x\<bar>" using x(3) by simp
  ultimately have lo: "qmin fmt \<le> k" using ilog2_ge_iff u(1) by blast
  have "p2 k \<le> \<bar>fval fmt x\<bar>" using ilog2_bounds(1) [of "\<bar>fval fmt x\<bar>"] x(3) u(1) by simp
  also have "\<dots> < p2 (emax fmt + 1)" unfolding av by (rule b(4))
  finally have hi: "k \<le> emax fmt" by (simp add: p2_less_iff)
  have "\<bar>k\<bar> \<le> emax fmt + prec fmt - 2"
    using lo hi wf_man_w [OF wf] by (simp add: qmin_def emin_def prec_def abs_le_iff emax_def)
  then show ?thesis using n u by (simp add: scaled_ok_def scaled_leaf_def unit_sig_def)
qed

lemma scaled_node_ok:
  assumes lad: "ladder_fmt fmt" and rnd: "valid_mode rnd"
    and l: "scaled_ok fmt vs rl il" and r: "scaled_ok fmt ws rr ir"
  shows "scaled_ok fmt (vs @ ws)
    (bind_r rl (\<lambda>(ls, lk, lf). bind_r rr (\<lambda>(rs, rk, rf).
       bind_r (mul fmt ls rs rnd) (\<lambda>(p, pf).
       bind_r (norm_split fmt p) (\<lambda>(sig, k).
       bind_r (scale_add lk rk) (\<lambda>t.
       bind_r (scale_add t k) (\<lambda>scale.
       Inr (sig, scale, lf OR rf OR pf))))))))
    (scaled_node fmt rnd il ir)"
proof -
  note wf = ladder_wf [OF lad]
  obtain s1 k1 i1 t1 where il: "il = (s1, k1, i1, t1)" by (metis prod_cases4)
  obtain s2 k2 i2 t2 where ir: "ir = (s2, k2, i2, t2)" by (metis prod_cases4)
  from l obtain ls where ls: "unit_sig fmt ls" "fval fmt ls = s1"
    "rl = (if \<forall>e\<in>set t1. in_int64 e then Inr (ls, k1, if i1 then FLAG_INEXACT else 0) else Inl ScaleOverflow)"
    and l1: "\<not> i1 \<Longrightarrow> s1 * p2 k1 = prod_list vs"
    and l2: "\<forall>e\<in>set (k1 # t1). \<bar>e\<bar> \<le> int (length vs) * (emax fmt + prec fmt) - 2"
    unfolding il scaled_ok_def by auto
  from r obtain rs where rs: "unit_sig fmt rs" "fval fmt rs = s2"
    "rr = (if \<forall>e\<in>set t2. in_int64 e then Inr (rs, k2, if i2 then FLAG_INEXACT else 0) else Inl ScaleOverflow)"
    and r1: "\<not> i2 \<Longrightarrow> s2 * p2 k2 = prod_list ws"
    and r2: "\<forall>e\<in>set (k2 # t2). \<bar>e\<bar> \<le> int (length ws) * (emax fmt + prec fmt) - 2"
    unfolding ir scaled_ok_def by auto
  from mul_unit [OF lad rnd ls(1) rs(1)] obtain p pf where
    p: "mul fmt ls rs rnd = Inr (p, pf)" "fits fmt p" "is_finite fmt p" "fval fmt p \<noteq> 0"
      "fval fmt p = real_round fmt rnd (s1 * s2)" "1 \<le> \<bar>fval fmt p\<bar>" "\<bar>fval fmt p\<bar> \<le> 4"
      "pf = (if fval fmt p = s1 * s2 then 0 else FLAG_INEXACT)"
    unfolding ls(2) rs(2) by blast
  from norm_split_exact [OF wf p(2,3,4)] obtain sig k where
    s: "norm_split fmt p = Inr (sig, k)" "unit_sig fmt sig" "fval fmt p = fval fmt sig * p2 k" by blast
  have u: "ilog2 \<bar>fval fmt p\<bar> = k" "fval fmt p / p2 k = fval fmt sig"
    using unit_split [OF _ _ s(3)] s(2) by (simp_all add: unit_sig_def)
  have k: "0 \<le> k" "k \<le> 2"
  proof -
    show "0 \<le> k" using ilog2_ge_iff [of "\<bar>fval fmt p\<bar>" 0] p(4,6) u(1) by simp
    have "p2 k \<le> p2 2" using ilog2_bounds(1) [of "\<bar>fval fmt p\<bar>"] p(4,7) u(1) by (simp add: power_int_def)
    then show "k \<le> 2" unfolding p2_mono_iff .
  qed
  have node: "scaled_node fmt rnd il ir =
      (fval fmt sig, k1 + k2 + k, i1 \<or> i2 \<or> fval fmt p \<noteq> s1 * s2, t1 @ t2 @ [k1 + k2, k1 + k2 + k])"
    using u by (simp add: scaled_node_def il ir Let_def p(5) [symmetric])
  have code: "bind_r rl (\<lambda>(ls, lk, lf). bind_r rr (\<lambda>(rs, rk, rf).
       bind_r (mul fmt ls rs rnd) (\<lambda>(p, pf).
       bind_r (norm_split fmt p) (\<lambda>(sig, k).
       bind_r (scale_add lk rk) (\<lambda>t.
       bind_r (scale_add t k) (\<lambda>scale.
       Inr (sig, scale, lf OR rf OR pf))))))) =
    (if \<forall>e\<in>set (t1 @ t2 @ [k1 + k2, k1 + k2 + k]). in_int64 e
     then Inr (sig, k1 + k2 + k, if i1 \<or> i2 \<or> fval fmt p \<noteq> s1 * s2 then FLAG_INEXACT else 0) else Inl ScaleOverflow)"
    unfolding ls(3) rs(3) using p(1,8) s(1) by (auto simp: scale_add_ideal)
  have "fval fmt sig * p2 (k1 + k2 + k) = prod_list (vs @ ws)" if "\<not> i1" "\<not> i2" "fval fmt p = s1 * s2"
  proof -
    have "fval fmt sig * p2 (k1 + k2 + k) = (s1 * p2 k1) * (s2 * p2 k2)"
      using that(3) s(3) by (simp add: p2_add)
    then show ?thesis using that l1 r1 by simp
  qed
  moreover have "\<bar>e\<bar> \<le> int (length (vs @ ws)) * (emax fmt + prec fmt) - 2"
    if "e \<in> set ((k1 + k2 + k) # t1 @ t2 @ [k1 + k2, k1 + k2 + k])" for e
  proof -
    have "0 \<le> int (length vs) * (emax fmt + prec fmt)" "0 \<le> int (length ws) * (emax fmt + prec fmt)"
      using lad by (simp_all add: ladder_fmt_def emax_def prec_def)
    then show ?thesis using that l2 r2 k by (auto simp: distrib_right)
  qed
  ultimately show ?thesis unfolding code node scaled_ok_def using s(2) by auto
qed

lemma slice_append: "lo \<le> mid \<Longrightarrow> mid \<le> hi \<Longrightarrow> hi \<le> length xs \<Longrightarrow> slice xs lo hi = slice xs lo mid @ slice xs mid hi"
  using slice_parts [of lo mid hi xs] append_take_drop_id [of "mid - lo" "slice xs lo hi"] by simp

lemma scaled_tree_ok:
  assumes lad: "ladder_fmt fmt" and rnd: "valid_mode rnd"
    and xs: "\<forall>x\<in>set xs. fits fmt x \<and> is_finite fmt x \<and> fval fmt x \<noteq> 0"
  shows "lo < hi \<Longrightarrow> hi \<le> length xs \<Longrightarrow>
    scaled_ok fmt (map (fval fmt) (slice xs lo hi)) (scaled_tree fmt xs rnd (int lo) (int hi))
      (scaled_ideal fmt rnd (map (fval fmt) (slice xs lo hi)))"
proof (induction "hi - lo" arbitrary: lo hi rule: less_induct)
  case less
  show ?case
  proof (cases "hi - lo = 1")
    case True
    then have h: "hi = Suc lo" "lo < length xs" using less.prems by simp_all
    then have x: "fits fmt (xs ! lo)" "is_finite fmt (xs ! lo)" "fval fmt (xs ! lo) \<noteq> 0" using xs by simp_all
    show ?thesis using scaled_leaf_ok [OF lad x] h
      by (subst scaled_tree.simps) (simp add: slice_one scaled_ideal_one)
  next
    case False
    then have n: "2 \<le> hi - lo" using less.prems by simp
    define mid where "mid = lo + half (hi - lo)"
    have m: "lo < mid" "mid < hi" using half_bounds [OF n] by (simp_all add: mid_def)
    have sp: "split_at (int lo) (int hi) = Inr (int mid)"
      using n less.prems by (simp add: split_at_half mid_def nat_diff_distrib')
    have ne: "int hi - int lo \<noteq> 1" using less.prems False by linarith
    have len: "length (slice xs lo hi) = hi - lo" using less.prems by simp
    have parts: "take (half (hi - lo)) (slice xs lo hi) = slice xs lo mid" "drop (half (hi - lo)) (slice xs lo hi) = slice xs mid hi"
      using slice_parts [of lo mid hi xs] m less.prems by (simp_all add: mid_def)
    have id: "scaled_ideal fmt rnd (map (fval fmt) (slice xs lo hi)) =
      scaled_node fmt rnd (scaled_ideal fmt rnd (map (fval fmt) (slice xs lo mid)))
        (scaled_ideal fmt rnd (map (fval fmt) (slice xs mid hi)))"
      using scaled_ideal_split [of "map (fval fmt) (slice xs lo hi)" fmt rnd] n len
      by (simp add: take_map drop_map parts del: length_slice)
    have L: "scaled_ok fmt (map (fval fmt) (slice xs lo mid)) (scaled_tree fmt xs rnd (int lo) (int mid))
        (scaled_ideal fmt rnd (map (fval fmt) (slice xs lo mid)))"
      using less.hyps [of mid lo] m less.prems by simp
    have R: "scaled_ok fmt (map (fval fmt) (slice xs mid hi)) (scaled_tree fmt xs rnd (int mid) (int hi))
        (scaled_ideal fmt rnd (map (fval fmt) (slice xs mid hi)))"
      using less.hyps [of hi mid] m less.prems by simp
    have app: "map (fval fmt) (slice xs lo hi) = map (fval fmt) (slice xs lo mid) @ map (fval fmt) (slice xs mid hi)"
      using slice_append [of lo mid hi xs] m less.prems by simp
    show ?thesis
      unfolding id unfolding app using scaled_node_ok [OF lad rnd L R] ne by (subst scaled_tree.simps) (simp add: sp)
  qed
qed

lemma red_finite:
  assumes "wf_fmt fmt" "fits fmt x" "\<not> red_is_nan fmt x" "\<not> red_is_inf fmt x" "\<not> red_is_zero fmt x"
  shows "is_finite fmt x" "fval fmt x \<noteq> 0"
proof -
  show f: "is_finite fmt x" using assms finite_or_inf [OF assms(1,2)] by (auto simp: red_classes)
  show "fval fmt x \<noteq> 0"
    using assms f unpack_cases(2) [OF assms(1,2)] by (simp add: red_is_zero_iff is_zero_def)
qed

lemma scaled_prod_finite:
  assumes lad: "ladder_fmt fmt" and rnd: "valid_mode rnd" and ne: "xs \<noteq> []"
    and xs: "\<forall>x\<in>set xs. fits fmt x \<and> is_finite fmt x \<and> fval fmt x \<noteq> 0"
    and ideal: "scaled_ideal fmt rnd (map (fval fmt) xs) = (s, k, i, ts)"
  shows "\<exists>sig. unit_sig fmt sig \<and> fval fmt sig = s \<and> scaled_prod fmt xs None SP_PROD rnd =
      (if \<forall>e\<in>set ts. in_int64 e then Inr (sig, k, if i then FLAG_INEXACT else 0)
       else Inr (qnan_bits fmt, 0, FLAG_INVALID))"
    and "\<not> i \<longrightarrow> s * p2 k = prod_list (map (fval fmt) xs)"
    and "int (length xs) * (emax fmt + prec fmt) \<le> 2 ^ 63 \<Longrightarrow> \<forall>e\<in>set ts. in_int64 e"
proof -
  note wf = ladder_wf [OF lad]
  have c: "\<not> red_is_nan fmt x" "\<not> red_is_inf fmt x" "\<not> red_is_zero fmt x" if "x \<in> set xs" for x
  proof -
    have x: "fits fmt x" "is_finite fmt x" "fval fmt x \<noteq> 0" using xs that by blast+
    show "\<not> red_is_nan fmt x" "\<not> red_is_inf fmt x" "\<not> red_is_zero fmt x"
      using unpack_kinds [OF wf x] x(1) by (simp_all add: red_classes red_is_zero_iff [OF wf] is_nan_kind [OF wf] is_inf_def is_zero_def)
  qed
  have l: "\<not> list_ex (red_is_nan fmt) xs" "\<not> list_ex (red_is_inf fmt) xs" "\<not> list_ex (red_is_zero fmt) xs"
    using c by (simp_all add: list_ex_iff)
  have e: "scaled_prod fmt xs None SP_PROD rnd =
      (case scaled_tree fmt xs rnd 0 (int (length xs)) of
        Inr (sig, scale, tf) \<Rightarrow> Inr (sig, scale, 0 OR tf)
      | Inl ScaleOverflow \<Rightarrow> Inr (qnan_bits fmt, 0, 0 OR FLAG_INVALID) | Inl e \<Rightarrow> Inl e)"
    using rnd ne l by (simp add: scaled_prod_def scaled_factors_def)
  have ok: "scaled_ok fmt (map (fval fmt) xs) (scaled_tree fmt xs rnd 0 (int (length xs))) (s, k, i, ts)"
    using scaled_tree_ok [OF lad rnd xs, of 0 "length xs"] ne ideal by (simp add: slice_def)
  then show "\<exists>sig. unit_sig fmt sig \<and> fval fmt sig = s \<and> scaled_prod fmt xs None SP_PROD rnd =
      (if \<forall>e\<in>set ts. in_int64 e then Inr (sig, k, if i then FLAG_INEXACT else 0)
       else Inr (qnan_bits fmt, 0, FLAG_INVALID))"
    unfolding e scaled_ok_def by auto
  show "\<not> i \<longrightarrow> s * p2 k = prod_list (map (fval fmt) xs)" using ok by (simp add: scaled_ok_def)
  show "\<forall>e\<in>set ts. in_int64 e" if "int (length xs) * (emax fmt + prec fmt) \<le> 2 ^ 63"
    using ok that by (fastforce simp: scaled_ok_def in_int64_def abs_le_iff)
qed

end
