(* ===== verification/FormatOf.thy ===== *)
theory FormatOf
  imports Clause5
begin

text \<open>
  \<^verbatim>\<open>python/cft_golden/formatof.py\<close>: the formatOf operations of clause 5.4.1, whose operands are in
  one format and whose result is rounded once into another, the cross-format comparison, and
  the constructed operands that defeat the route which rounds twice. On finite operands each
  operation is the exact real result rounded into the destination; within one format it is
  the operation of \<open>softfloat\<close>, and into a format that holds the source it is, special operands
  included, that operation after conversions that are exact on finite operands.
\<close>

section \<open>The code\<close>

definition FN_FO_ADD :: string where "FN_FO_ADD = ''addition''"
definition FN_FO_SUB :: string where "FN_FO_SUB = ''subtraction''"
definition FN_FO_MUL :: string where "FN_FO_MUL = ''multiplication''"
definition FN_FO_DIV :: string where "FN_FO_DIV = ''division''"
definition FN_FO_SQRT :: string where "FN_FO_SQRT = ''squareRoot''"
definition FN_FO_FMA :: string where "FN_FO_FMA = ''fusedMultiplyAdd''"

definition FORMATOF_FNS :: "string list" where
  "FORMATOF_FNS = [FN_FO_ADD, FN_FO_SUB, FN_FO_MUL, FN_FO_DIV, FN_FO_SQRT, FN_FO_FMA]"

lemmas fo_names [code_defs] =
  FN_FO_ADD_def FN_FO_SUB_def FN_FO_MUL_def FN_FO_DIV_def FN_FO_SQRT_def FN_FO_FMA_def FORMATOF_FNS_def

definition FORMATOF_ARITY :: "string \<rightharpoonup> int" where
  "FORMATOF_ARITY = map_of [(FN_FO_ADD, 2), (FN_FO_SUB, 2), (FN_FO_MUL, 2),
    (FN_FO_DIV, 2), (FN_FO_SQRT, 1), (FN_FO_FMA, 3)]"

definition FORMATOF_SHORT :: "string \<rightharpoonup> string" where
  "FORMATOF_SHORT = map_of [(FN_FO_ADD, ''add''), (FN_FO_SUB, ''sub''), (FN_FO_MUL, ''mul''),
    (FN_FO_DIV, ''div''), (FN_FO_SQRT, ''sqrt''), (FN_FO_FMA, ''fma'')]"

definition nan_out :: "fp_format \<Rightarrow> unpacked list \<Rightarrow> int \<times> int" where
  "nan_out dfmt ops =
    (let invalid = list_ex (\<lambda>u. u_kind u = KNan \<and> signaling u) ops
     in (qnan_bits dfmt, if invalid then FLAG_INVALID else 0))"

definition pack_operand :: "fp_format \<Rightarrow> unpacked \<Rightarrow> int \<Rightarrow> (int \<times> int) result" where
  "pack_operand dfmt u rnd =
    (if u_kind u = KZero then Inr (zero_bits dfmt (u_sign u), 0)
     else round_pack dfmt (u_sign u) (u_m u) (u_e u) rnd)"

definition fo_fma :: "fp_format \<Rightarrow> fp_format \<Rightarrow> int \<Rightarrow> int \<Rightarrow> int \<Rightarrow> int \<Rightarrow> (int \<times> int) result" where
  "fo_fma sfmt dfmt xa xb xc rnd =
    bind_r (check_mode rnd) (\<lambda>_.
    let ua = unpack sfmt xa; ub = unpack sfmt xb; uc = unpack sfmt xc
    in if u_kind ua = KNan \<or> u_kind ub = KNan \<or> u_kind uc = KNan then Inr (nan_out dfmt [ua, ub, uc])
    else let sp = u_sign ua XOR u_sign ub in
    if u_kind ua = KInf \<or> u_kind ub = KInf then
      (if u_kind ua = KZero \<or> u_kind ub = KZero then Inr (qnan_bits dfmt, FLAG_INVALID)
       else if u_kind uc = KInf \<and> u_sign uc \<noteq> sp then Inr (qnan_bits dfmt, FLAG_INVALID)
       else Inr (inf_bits dfmt sp, 0))
    else if u_kind uc = KInf then Inr (inf_bits dfmt (u_sign uc), 0)
    else if u_kind ua = KZero \<or> u_kind ub = KZero then
      (if u_kind uc = KZero then
         let rs = (if u_sign uc = sp then u_sign uc else zero_sign_for_exact_cancellation rnd)
         in Inr (zero_bits dfmt rs, 0)
       else pack_operand dfmt uc rnd)
    else let mp = u_m ua * u_m ub; ep = u_e ua + u_e ub in
    if u_kind uc = KZero then round_pack dfmt sp mp ep rnd
    else let e0 = min ep (u_e uc);
             t = push_bit (nat (ep - e0)) mp * (if truthy sp then - 1 else 1)
               + push_bit (nat (u_e uc - e0)) (u_m uc) * (if truthy (u_sign uc) then - 1 else 1)
    in if t = 0 then Inr (zero_bits dfmt (zero_sign_for_exact_cancellation rnd), 0)
       else round_pack dfmt (if t < 0 then 1 else 0) \<bar>t\<bar> e0 rnd)"

definition fo_add :: "fp_format \<Rightarrow> fp_format \<Rightarrow> int \<Rightarrow> int \<Rightarrow> int \<Rightarrow> (int \<times> int) result" where
  "fo_add sfmt dfmt xa xb rnd =
    bind_r (check_mode rnd) (\<lambda>_.
    let ua = unpack sfmt xa; ub = unpack sfmt xb
    in if u_kind ua = KNan \<or> u_kind ub = KNan then Inr (nan_out dfmt [ua, ub])
    else if u_kind ua = KInf then
      (if u_kind ub = KInf \<and> u_sign ub \<noteq> u_sign ua then Inr (qnan_bits dfmt, FLAG_INVALID)
       else Inr (inf_bits dfmt (u_sign ua), 0))
    else if u_kind ub = KInf then Inr (inf_bits dfmt (u_sign ub), 0)
    else if u_kind ua = KZero \<and> u_kind ub = KZero then
      let rs = (if u_sign ua = u_sign ub then u_sign ua else zero_sign_for_exact_cancellation rnd)
      in Inr (zero_bits dfmt rs, 0)
    else if u_kind ua = KZero then pack_operand dfmt ub rnd
    else if u_kind ub = KZero then pack_operand dfmt ua rnd
    else let e0 = min (u_e ua) (u_e ub);
             t = push_bit (nat (u_e ua - e0)) (u_m ua) * (if truthy (u_sign ua) then - 1 else 1)
               + push_bit (nat (u_e ub - e0)) (u_m ub) * (if truthy (u_sign ub) then - 1 else 1)
    in if t = 0 then Inr (zero_bits dfmt (zero_sign_for_exact_cancellation rnd), 0)
       else round_pack dfmt (if t < 0 then 1 else 0) \<bar>t\<bar> e0 rnd)"

definition fo_sub :: "fp_format \<Rightarrow> fp_format \<Rightarrow> int \<Rightarrow> int \<Rightarrow> int \<Rightarrow> (int \<times> int) result" where
  "fo_sub sfmt dfmt xa xb rnd = fo_add sfmt dfmt xa (negate sfmt xb) rnd"

definition fo_mul :: "fp_format \<Rightarrow> fp_format \<Rightarrow> int \<Rightarrow> int \<Rightarrow> int \<Rightarrow> (int \<times> int) result" where
  "fo_mul sfmt dfmt xa xb rnd =
    bind_r (check_mode rnd) (\<lambda>_.
    let ua = unpack sfmt xa; ub = unpack sfmt xb
    in if u_kind ua = KNan \<or> u_kind ub = KNan then Inr (nan_out dfmt [ua, ub])
    else let sp = u_sign ua XOR u_sign ub in
    if u_kind ua = KInf \<or> u_kind ub = KInf then
      (if u_kind ua = KZero \<or> u_kind ub = KZero then Inr (qnan_bits dfmt, FLAG_INVALID)
       else Inr (inf_bits dfmt sp, 0))
    else if u_kind ua = KZero \<or> u_kind ub = KZero then Inr (zero_bits dfmt sp, 0)
    else round_pack dfmt sp (u_m ua * u_m ub) (u_e ua + u_e ub) rnd)"

definition fo_div :: "fp_format \<Rightarrow> fp_format \<Rightarrow> int \<Rightarrow> int \<Rightarrow> int \<Rightarrow> (int \<times> int) result" where
  "fo_div sfmt dfmt xa xb rnd =
    bind_r (check_mode rnd) (\<lambda>_.
    let ua = unpack sfmt xa; ub = unpack sfmt xb
    in if u_kind ua = KNan \<or> u_kind ub = KNan then Inr (nan_out dfmt [ua, ub])
    else let sq = u_sign ua XOR u_sign ub in
    if u_kind ua = KInf then
      (if u_kind ub = KInf then Inr (qnan_bits dfmt, FLAG_INVALID) else Inr (inf_bits dfmt sq, 0))
    else if u_kind ub = KInf then Inr (zero_bits dfmt sq, 0)
    else if u_kind ub = KZero then
      (if u_kind ua = KZero then Inr (qnan_bits dfmt, FLAG_INVALID)
       else Inr (inf_bits dfmt sq, FLAG_DIVZERO))
    else if u_kind ua = KZero then Inr (zero_bits dfmt sq, 0)
    else let p = prec dfmt;
             k0 = (p + 3) + bit_length (u_m ub) - bit_length (u_m ua) + 1;
             k = (if k0 < 0 then 0 else k0);
             q = push_bit (nat k) (u_m ua) div u_m ub;
             rem = push_bit (nat k) (u_m ua) mod u_m ub
    in if \<not> p + 3 \<le> bit_length q then Inl AssertionError
       else let m = fold_sticky q (rem \<noteq> 0);
                e = (u_e ua - u_e ub) - k - 1
            in round_pack dfmt sq m e rnd)"

definition fo_sqrt :: "fp_format \<Rightarrow> fp_format \<Rightarrow> int \<Rightarrow> int \<Rightarrow> (int \<times> int) result" where
  "fo_sqrt sfmt dfmt xa rnd =
    bind_r (check_mode rnd) (\<lambda>_.
    let ua = unpack sfmt xa
    in if u_kind ua = KNan then Inr (nan_out dfmt [ua])
    else if u_kind ua = KZero then Inr (zero_bits dfmt (u_sign ua), 0)
    else if truthy (u_sign ua) then Inr (qnan_bits dfmt, FLAG_INVALID)
    else if u_kind ua = KInf then Inr (inf_bits dfmt 0, 0)
    else let p = prec dfmt;
             t0 = 2 * (p + 3) - bit_length (u_m ua);
             t1 = (if t0 < 0 then 0 else t0);
             t = t1 + ((t1 XOR u_e ua) AND 1);
             m = push_bit (nat t) (u_m ua);
             e = u_e ua - t
    in if e AND 1 \<noteq> 0 then Inl AssertionError
       else let r = isqrt m
       in if \<not> p + 3 \<le> bit_length r then Inl AssertionError
          else let mres = fold_sticky r (r * r \<noteq> m);
                   eres = e div 2 - 1
               in round_pack dfmt 0 mres eres rnd)"

definition FORMATOF_IMPL :: "string \<rightharpoonup> (fp_format \<Rightarrow> fp_format \<Rightarrow> int \<Rightarrow> int \<Rightarrow> int \<Rightarrow> int \<Rightarrow> (int \<times> int) result)" where
  "FORMATOF_IMPL = map_of
    [(FN_FO_ADD, \<lambda>s d a b c r. fo_add s d a b r),
     (FN_FO_SUB, \<lambda>s d a b c r. fo_sub s d a b r),
     (FN_FO_MUL, \<lambda>s d a b c r. fo_mul s d a b r),
     (FN_FO_DIV, \<lambda>s d a b c r. fo_div s d a b r),
     (FN_FO_SQRT, \<lambda>s d a b c r. fo_sqrt s d a r),
     (FN_FO_FMA, fo_fma)]"

definition fo_compute :: "fp_format \<Rightarrow> fp_format \<Rightarrow> string \<Rightarrow> int \<Rightarrow> int \<Rightarrow> int \<Rightarrow> int \<Rightarrow> (int \<times> int) result" where
  "fo_compute sfmt dfmt fn xa xb xc rnd =
    (case FORMATOF_IMPL fn of None \<Rightarrow> Inl ValueError | Some impl \<Rightarrow> impl sfmt dfmt xa xb xc rnd)"

text \<open>The comparison across formats: both operands widened, then compared.\<close>

definition fo_compare :: "fp_format \<Rightarrow> fp_format \<Rightarrow> int \<Rightarrow> int \<Rightarrow> bool \<Rightarrow> ((bool \<times> bool \<times> bool) \<times> int) result" where
  "fo_compare afmt bfmt xa xb is_signaling =
    (let wide = (if prec bfmt \<le> prec afmt then afmt else bfmt)
     in bind_r (convert afmt wide xa RND_RNE) (\<lambda>(va, fa).
        bind_r (convert bfmt wide xb RND_RNE) (\<lambda>(vb, fb).
        if (fa OR fb) AND NOT FLAG_INVALID \<noteq> 0 then Inl AssertionError
        else let fl = 0 OR (fa OR fb); ua = unpack wide va; ub = unpack wide vb
        in if u_kind ua = KNan \<or> u_kind ub = KNan then
             Inr ((False, False, False), if is_signaling then fl OR FLAG_INVALID else fl)
           else Inr ((truthy (fst (cmplt wide va vb)), truthy (fst (cmpeq wide va vb)), truthy (fst (cmplt wide vb va))), fl))))"

text \<open>
  The double-rounding witnesses. Python's \<open>str\<close> of a non-negative integer names the
  intermediate format.
\<close>

fun py_digits :: "nat \<Rightarrow> string" where
  "py_digits n = (if n < 10 then [char_of (48 + n)] else py_digits (n div 10) @ [char_of (48 + n mod 10)])"

declare py_digits.simps [simp del]

definition wide_format :: "int \<Rightarrow> nat \<Rightarrow> fp_format" where
  "wide_format p ew = \<lparr>fmt_name = ''w'' @ py_digits (nat p), exp_w = ew, man_w = nat (p - 1)\<rparr>"

definition double_rounding_witness ::
    "fp_format \<Rightarrow> fp_format \<Rightarrow> string \<Rightarrow> int option \<Rightarrow> (int \<times> int \<times> int \<times> fp_format) result" where
  "double_rounding_witness sfmt dfmt fn wprec =
    (let ps = prec sfmt; pd = prec dfmt
     in if ps \<le> pd then Inl ValueError
     else let wfmt = wide_format (case wprec of None \<Rightarrow> ps | Some w \<Rightarrow> w) 24;
              M = push_bit (nat pd) 1 + 1
     in if fn = FN_FO_FMA then
          bind_r (round_pack sfmt 0 M (- pd) RND_RNE) (\<lambda>(xa, _).
          Inr (xa, one_bits sfmt 0, min_subnormal_bits sfmt 0, wfmt))
     else if fn = FN_FO_DIV then
          let Y = push_bit (nat (ps - 1)) 1 + (push_bit (nat (ps - pd)) 1 - 1)
          in if Y mod push_bit (nat pd) 1 \<noteq> push_bit (nat pd) 1 - 1 then Inl AssertionError
          else bind_r (round_pack sfmt 0 Y (1 - ps) RND_RNE) (\<lambda>(xb, fb).
          if fb \<noteq> 0 then Inl AssertionError
          else bind_r (round_pack sfmt 0 (M * Y + 1) (1 - pd - ps) RND_RNE) (\<lambda>(xa, fa).
          if fa \<noteq> 0 then Inl AssertionError
          else Inr (xa, xb, 0, wfmt)))
     else if fn = FN_FO_SQRT then
          if ps < 2 * pd + 1 then Inl ValueError
          else bind_r (round_pack sfmt 0 (M * M) (- 2 * pd) RND_RNE) (\<lambda>(xa, fa).
          if fa \<noteq> 0 then Inl AssertionError
          else Inr (xa + 1, 0, 0, wfmt))
     else Inl ValueError)"

definition composed_route ::
    "fp_format \<Rightarrow> fp_format \<Rightarrow> fp_format \<Rightarrow> string \<Rightarrow> int \<Rightarrow> int \<Rightarrow> int \<Rightarrow> int \<Rightarrow> (int \<times> int) result" where
  "composed_route sfmt dfmt wfmt fn xa xb xc rnd =
    (let uw = (if wfmt = sfmt \<or> prec wfmt = prec sfmt \<and> exp_w wfmt = exp_w sfmt then sfmt else wfmt)
     in bind_r (fo_compute sfmt uw fn xa xb xc rnd) (\<lambda>(wide, fw).
        bind_r (convert uw dfmt wide rnd) (\<lambda>(narrow, fn').
        Inr (narrow, fw OR fn'))))"

section \<open>Correct rounding into the destination\<close>

text \<open>A finite non-zero operand packs to its value rounded into the destination.\<close>

lemma pack_operand_signed:
  assumes swf: "wf_fmt sfmt" and wf: "wf_fmt dfmt" and x: "fits sfmt x" "is_finite sfmt x" and rnd: "valid_mode rnd"
  shows "pack_operand dfmt (unpack sfmt x) rnd =
    Inr (if fval sfmt x = 0 then (zero_bits dfmt (sgn_of sfmt x), 0) else round_signed dfmt rnd (fval sfmt x))"
proof -
  note c = unpack_cases [OF swf x(1)]
  show ?thesis
  proof (cases "u_kind (unpack sfmt x) = KZero")
    case True
    then show ?thesis using c(2) x swf by (simp add: pack_operand_def)
  next
    case False
    then show ?thesis
      using c(2) x round_pack_signed [OF wf c(3) [OF x(2) False] valid_mode_dir [OF rnd] c(1), of "u_e (unpack sfmt x)"]
      by (simp add: pack_operand_def fval_unpack [of sfmt x])
  qed
qed

lemma fo_add_finite:
  assumes swf: "wf_fmt sfmt" and wf: "wf_fmt dfmt" and a: "fits sfmt xa" "is_finite sfmt xa" and b: "fits sfmt xb" "is_finite sfmt xb"
    and rnd: "valid_mode rnd"
  shows "fo_add sfmt dfmt xa xb rnd =
    Inr (sum_result dfmt rnd (sgn_of sfmt xa) (sgn_of sfmt xb) (fval sfmt xa + fval sfmt xb))"
proof -
  note ca = unpack_cases [OF swf a(1)] and cb = unpack_cases [OF swf b(1)]
  let ?a = "unpack sfmt xa" and ?b = "unpack sfmt xb"
  have fin: "u_kind ?a \<noteq> KInf" "u_kind ?a \<noteq> KNan" "u_kind ?b \<noteq> KInf" "u_kind ?b \<noteq> KNan"
    using ca(4) cb(4) a(2) b(2) by simp_all
  show ?thesis
  proof (cases "u_kind ?a = KZero \<or> u_kind ?b = KZero")
    case True
    then show ?thesis using fin rnd ca(2) cb(2) a b
      by (auto simp: fo_add_def sum_result_def pack_operand_signed [OF swf wf] swf)
  next
    case False
    then have pos: "0 < u_m ?a" "0 < u_m ?b" using ca(3) cb(3) a b by simp_all
    let ?e = "min (u_e ?a) (u_e ?b)"
    let ?t = "push_bit (nat (u_e ?a - ?e)) (u_m ?a) * (if truthy (u_sign ?a) then - 1 else 1)
      + push_bit (nat (u_e ?b - ?e)) (u_m ?b) * (if truthy (u_sign ?b) then - 1 else 1)"
    have t: "of_int ?t * p2 ?e = fval sfmt xa + fval sfmt xb"
      by (simp only: aligned_sum fval_unpack)
    have ne: "u_sign ?a \<noteq> u_sign ?b" if "?t = 0"
      using sign_sum_zero [OF ca(1) cb(1), of "of_int (u_m ?a) * p2 (u_e ?a)" "of_int (u_m ?b) * p2 (u_e ?b)"]
        t that pos by (simp add: fval_unpack mult.assoc)
    have code: "fo_add sfmt dfmt xa xb rnd =
      (if ?t = 0 then Inr (zero_bits dfmt (zero_sign_for_exact_cancellation rnd), 0)
       else round_pack dfmt (if ?t < 0 then 1 else 0) \<bar>?t\<bar> ?e rnd)"
      using False fin rnd
      by (simp only: fo_add_def Let_def check_mode_iff if_True bind_r_simps
        simp_thms if_False de_Morgan_disj)
    show ?thesis
      using aligned_round_pack [OF wf valid_mode_dir [OF rnd] t ne] a b wf swf unfolding code by simp
  qed
qed

lemma fo_mul_finite:
  assumes swf: "wf_fmt sfmt" and wf: "wf_fmt dfmt" and a: "fits sfmt xa" "is_finite sfmt xa" and b: "fits sfmt xb" "is_finite sfmt xb"
    and rnd: "valid_mode rnd"
  shows "fo_mul sfmt dfmt xa xb rnd =
    Inr (if fval sfmt xa * fval sfmt xb = 0 then (zero_bits dfmt (sgn_of sfmt xa XOR sgn_of sfmt xb), 0)
         else round_signed dfmt rnd (fval sfmt xa * fval sfmt xb))"
proof -
  note ca = unpack_cases [OF swf a(1)] and cb = unpack_cases [OF swf b(1)]
  let ?a = "unpack sfmt xa" and ?b = "unpack sfmt xb"
  have fin: "u_kind ?a \<noteq> KInf" "u_kind ?a \<noteq> KNan" "u_kind ?b \<noteq> KInf" "u_kind ?b \<noteq> KNan"
    using ca(4) cb(4) a(2) b(2) by simp_all
  show ?thesis
  proof (cases "u_kind ?a = KZero \<or> u_kind ?b = KZero")
    case True
    then have "fval sfmt xa * fval sfmt xb = 0" using ca(2) cb(2) by auto
    with True fin rnd a b wf swf show ?thesis by (auto simp: fo_mul_def)
  next
    case False
    then have nz: "fval sfmt xa * fval sfmt xb \<noteq> 0" and pos: "0 < u_m ?a * u_m ?b"
      using ca(2,3) cb(2,3) a b by simp_all
    have sp: "u_sign ?a XOR u_sign ?b = 0 \<or> u_sign ?a XOR u_sign ?b = 1"
      and val: "sg (u_sign ?a XOR u_sign ?b) * of_int (u_m ?a * u_m ?b) * p2 (u_e ?a + u_e ?b)
        = fval sfmt xa * fval sfmt xb"
      using xor_sign [OF ca(1) cb(1)] by (blast, simp add: fval_unpack p2_add)
    have "round_pack dfmt (u_sign ?a XOR u_sign ?b) (u_m ?a * u_m ?b) (u_e ?a + u_e ?b) rnd
      = Inr (round_signed dfmt rnd (fval sfmt xa * fval sfmt xb))"
      using round_pack_signed [OF wf pos valid_mode_dir [OF rnd] sp, of "u_e ?a + u_e ?b"]
      unfolding val .
    with False nz fin rnd a b wf swf show ?thesis by (simp add: fo_mul_def Let_def)
  qed
qed

lemma fo_fma_finite:
  assumes swf: "wf_fmt sfmt" and wf: "wf_fmt dfmt" and a: "fits sfmt xa" "is_finite sfmt xa" and b: "fits sfmt xb" "is_finite sfmt xb"
    and c: "fits sfmt xc" "is_finite sfmt xc" and rnd: "valid_mode rnd"
  shows "fo_fma sfmt dfmt xa xb xc rnd =
    Inr (sum_result dfmt rnd (sgn_of sfmt xa XOR sgn_of sfmt xb) (sgn_of sfmt xc)
      (fval sfmt xa * fval sfmt xb + fval sfmt xc))"
proof -
  note ca = unpack_cases [OF swf a(1)] and cb = unpack_cases [OF swf b(1)] and cc = unpack_cases [OF swf c(1)]
  let ?a = "unpack sfmt xa" and ?b = "unpack sfmt xb" and ?c = "unpack sfmt xc"
  let ?sp = "u_sign ?a XOR u_sign ?b" and ?mp = "u_m ?a * u_m ?b" and ?ep = "u_e ?a + u_e ?b"
  note sp = xor_sign [OF ca(1) cb(1)]
  have fin: "u_kind ?a \<noteq> KInf" "u_kind ?a \<noteq> KNan" "u_kind ?b \<noteq> KInf" "u_kind ?b \<noteq> KNan"
    "u_kind ?c \<noteq> KInf" "u_kind ?c \<noteq> KNan"
    using ca(4) cb(4) cc(4) a(2) b(2) c(2) by simp_all
  show ?thesis
  proof (cases "u_kind ?a = KZero \<or> u_kind ?b = KZero")
    case True
    then have p0: "fval sfmt xa * fval sfmt xb = 0" using ca(2) cb(2) by auto
    have code: "fo_fma sfmt dfmt xa xb xc rnd =
      (if u_kind ?c = KZero then Inr (zero_bits dfmt (if u_sign ?c = ?sp then u_sign ?c
         else zero_sign_for_exact_cancellation rnd), 0) else pack_operand dfmt (unpack sfmt xc) rnd)"
      using True fin rnd by (simp add: fo_fma_def Let_def)
    show ?thesis
    proof (cases "u_kind ?c = KZero")
      case True
      then show ?thesis unfolding code using p0 cc(2) a b c wf swf by (simp add: sum_result_def)
    next
      case False
      then show ?thesis unfolding code sum_result_def p0
        using cc(2) c pack_operand_signed [OF swf wf c rnd] by simp
    qed
  next
    case False
    then have pos: "0 < ?mp" using ca(3) cb(3) a b by simp
    have val: "sg ?sp * of_int ?mp * p2 ?ep = fval sfmt xa * fval sfmt xb"
      using sp by (simp add: fval_unpack p2_add)
    have sp01: "?sp = 0 \<or> ?sp = 1" using sp by blast
    show ?thesis
    proof (cases "u_kind ?c = KZero")
      case True
      have "fval sfmt xa * fval sfmt xb \<noteq> 0" using False ca(2) cb(2) a b by simp
      then show ?thesis
        using True False fin rnd cc(2) val
          round_pack_signed [OF wf pos valid_mode_dir [OF rnd] sp01, of ?ep]
        by (simp add: fo_fma_def sum_result_def Let_def)
    next
      case nz: False
      then have posc: "0 < u_m ?c" using cc(3) c by simp
      let ?e = "min ?ep (u_e ?c)"
      let ?t = "push_bit (nat (?ep - ?e)) ?mp * (if truthy ?sp then - 1 else 1)
        + push_bit (nat (u_e ?c - ?e)) (u_m ?c) * (if truthy (u_sign ?c) then - 1 else 1)"
      have t: "of_int ?t * p2 ?e = fval sfmt xa * fval sfmt xb + fval sfmt xc"
        unfolding aligned_sum val by (simp add: fval_unpack)
      have ne: "?sp \<noteq> u_sign ?c" if "?t = 0"
      proof -
        have "sg ?sp * (of_int ?mp * p2 ?ep) + sg (u_sign ?c) * (of_int (u_m ?c) * p2 (u_e ?c)) = 0"
          using t that val by (simp add: fval_unpack [of sfmt xc] mult.assoc)
        moreover have "0 < of_int ?mp * p2 ?ep" "0 < of_int (u_m ?c) * p2 (u_e ?c)"
          using pos posc by (simp_all only: of_int_0_less_iff p2_pos mult_pos_pos)
        ultimately show ?thesis using sp cc(1) sign_sum_zero by blast
      qed
      have code: "fo_fma sfmt dfmt xa xb xc rnd =
        (if ?t = 0 then Inr (zero_bits dfmt (zero_sign_for_exact_cancellation rnd), 0)
         else round_pack dfmt (if ?t < 0 then 1 else 0) \<bar>?t\<bar> ?e rnd)"
        using False nz fin rnd
        by (simp only: fo_fma_def Let_def check_mode_iff if_True bind_r_simps
          simp_thms if_False de_Morgan_disj)
      show ?thesis
        using aligned_round_pack [OF wf valid_mode_dir [OF rnd] t ne] a b c wf swf unfolding code by simp
    qed
  qed
qed

text \<open>
  The rows of a product, a quotient and a root over finite operands: the sign of an exact zero,
  division by zero, the invalid rows, and otherwise one rounding of the real result.
\<close>

definition product_result :: "fp_format \<Rightarrow> int \<Rightarrow> int \<Rightarrow> real \<Rightarrow> real \<Rightarrow> int \<times> int" where
  "product_result fmt rnd s a b = (if a = 0 \<or> b = 0 then (zero_bits fmt s, 0) else round_signed fmt rnd (a * b))"

definition quotient_result :: "fp_format \<Rightarrow> int \<Rightarrow> int \<Rightarrow> real \<Rightarrow> real \<Rightarrow> int \<times> int" where
  "quotient_result fmt rnd s a b =
    (if b = 0 then (if a = 0 then (qnan_bits fmt, FLAG_INVALID) else (inf_bits fmt s, FLAG_DIVZERO))
     else if a = 0 then (zero_bits fmt s, 0) else round_signed fmt rnd (a / b))"

definition root_result :: "fp_format \<Rightarrow> int \<Rightarrow> int \<Rightarrow> real \<Rightarrow> int \<times> int" where
  "root_result fmt rnd s a =
    (if a = 0 then (zero_bits fmt s, 0) else if a < 0 then (qnan_bits fmt, FLAG_INVALID)
     else round_real fmt rnd 0 (sqrt a))"

lemma fo_div_finite:
  assumes swf: "wf_fmt sfmt" and wf: "wf_fmt dfmt" and a: "fits sfmt xa" "is_finite sfmt xa" and b: "fits sfmt xb" "is_finite sfmt xb"
    and rnd: "valid_mode rnd" and nz: "fval sfmt xa \<noteq> 0" "fval sfmt xb \<noteq> 0"
  shows "fo_div sfmt dfmt xa xb rnd = Inr (round_signed dfmt rnd (fval sfmt xa / fval sfmt xb))"
proof -
  note ca = unpack_cases [OF swf a(1)] and cb = unpack_cases [OF swf b(1)]
  let ?a = "unpack sfmt xa" and ?b = "unpack sfmt xb" let ?s = "u_sign ?a XOR u_sign ?b"
  let ?ma = "u_m ?a" and ?mb = "u_m ?b"
  have fin: "u_kind ?a \<noteq> KInf" "u_kind ?a \<noteq> KNan" "u_kind ?b \<noteq> KInf" "u_kind ?b \<noteq> KNan"
    using ca(4) cb(4) a(2) b(2) by simp_all
  have kz: "u_kind ?a \<noteq> KZero" "u_kind ?b \<noteq> KZero" using nz ca(2) cb(2) by auto
  have pos: "0 < ?ma" "0 < ?mb" using ca(3) cb(3) a b kz by simp_all
  define k0 where "k0 = (prec dfmt + 3) + bit_length ?mb - bit_length ?ma + 1"
  define k where "k = nat (if k0 < 0 then 0 else k0)"
  have kk: "(if k0 < 0 then 0 else k0) = int k" by (simp add: k_def)
  let ?q = "?ma * 2 ^ k div ?mb" and ?r = "?ma * 2 ^ k mod ?mb"
  let ?g = "u_e ?a - u_e ?b - int k"
  have len: "int (man_w dfmt + 4) + bit_length ?mb + 1 \<le> int k + bit_length ?ma"
    by (simp add: k_def k0_def prec_def)
  have ql: "2 ^ (man_w dfmt + 4) \<le> ?q" by (rule quotient_long [OF pos len])
  then have q: "prec dfmt + 3 \<le> bit_length ?q" "0 < ?q"
    using bit_length_ge_pow [OF ql] zero_less_power [of "2::int" "man_w dfmt + 4"]
    by (simp add: prec_def, linarith)
  have sp: "?s = 0 \<or> ?s = 1" and sgm: "sg ?s = sg (u_sign ?a) * sg (u_sign ?b)"
    using xor_sign [OF ca(1) cb(1)] by blast+
  have code: "fo_div sfmt dfmt xa xb rnd = round_pack dfmt ?s (fold_sticky ?q (?r \<noteq> 0)) (?g - 1) rnd"
    using fin kz rnd q
    unfolding fo_div_def Let_def k0_def [symmetric] kk push_bit_eq_mult by simp
  have m: "0 < fold_sticky ?q (?r \<noteq> 0)" using q by (simp add: fold_sticky_eq)
  have r: "0 \<le> ?r" "?r < ?mb" using pos by simp_all
  then have f: "0 \<le> of_int ?r / (of_int ?mb :: real)" "of_int ?r / (of_int ?mb :: real) < 1"
    using pos by simp_all
  let ?x = "of_int ?ma * p2 (u_e ?a) / (of_int ?mb * p2 (u_e ?b))"
  have x: "0 < ?x" using pos by simp
  have rr: "round_real dfmt rnd ?s ?x = round_real dfmt rnd ?s (of_int (fold_sticky ?q (?r \<noteq> 0)) * p2 (?g - 1))"
    unfolding div_value [OF pos(2), of ?ma "u_e ?a" "u_e ?b" k]
    using fold_sticky_round [OF _ q(2) f, of dfmt rnd ?s ?g] q(1) pos by simp
  have v: "fval sfmt xa / fval sfmt xb = sg ?s * ?x"
    by (simp add: fval_unpack sgm) (simp add: sg_def)
  have "round_signed dfmt rnd (fval sfmt xa / fval sfmt xb) = round_real dfmt rnd ?s ?x"
    unfolding round_signed_def v sg_mult_less_0 [OF x sp] using x pos by (simp add: abs_mult)
  then show ?thesis
    unfolding code rr using round_pack_refines [OF wf m valid_mode_dir [OF rnd]] by simp
qed

lemma fo_sqrt_finite:
  assumes swf: "wf_fmt sfmt" and wf: "wf_fmt dfmt" and a: "fits sfmt xa" "is_finite sfmt xa" and rnd: "valid_mode rnd"
    and pos: "0 < fval sfmt xa"
  shows "fo_sqrt sfmt dfmt xa rnd = Inr (round_real dfmt rnd 0 (sqrt (fval sfmt xa)))"
proof -
  note ca = unpack_cases [OF swf a(1)]
  let ?a = "unpack sfmt xa"
  let ?ma = "u_m ?a"
  have fin: "u_kind ?a \<noteq> KInf" "u_kind ?a \<noteq> KNan" "u_kind ?a \<noteq> KZero"
    using ca(2,4) a(2) pos by auto
  have m0: "0 < ?ma" using ca(3) a fin by simp
  have "0 < of_int ?ma * p2 (u_e ?a)" using m0 by simp
  then have s0: "u_sign ?a = 0" using ca(1) pos by (auto simp: fval_unpack)
  define t1 where "t1 = (if 2 * (prec dfmt + 3) - bit_length ?ma < 0 then 0
    else 2 * (prec dfmt + 3) - bit_length ?ma)"
  define t where "t = t1 + ((t1 XOR u_e ?a) AND 1)"
  define e where "e = u_e ?a - t"
  have par: "(t1 XOR u_e ?a) AND 1 = (if even (t1 + u_e ?a) then 0 else 1)"
    by (simp add: and_one_eq mod2_eq_if even_xor_iff)
  have t0: "0 \<le> t" "2 * (prec dfmt + 3) - bit_length ?ma \<le> t" and ev: "even e"
  proof -
    have t1: "0 \<le> t1" "2 * (prec dfmt + 3) - bit_length ?ma \<le> t1" by (simp_all add: t1_def)
    have t: "t = t1 + (if even (t1 + u_e ?a) then 0 else 1)" by (simp only: t_def par)
    show "0 \<le> t" "2 * (prec dfmt + 3) - bit_length ?ma \<le> t" using t1 by (simp_all add: t)
    show "even e" by (auto simp: e_def t)
  qed
  let ?m = "?ma * 2 ^ nat t"
  have m: "0 < ?m" using m0 by simp
  let ?r = "isqrt ?m" and ?f = "sqrt (of_int ?m) - of_int (isqrt ?m)"
  note sq = sqrt_isqrt [OF less_imp_le [OF m]]
  let ?la = "nat (bit_length ?ma)"
  have la: "bit_length ?ma = int ?la" "0 < ?la" using bit_length_pos [OF m0] by simp_all
  have "2 ^ (man_w dfmt + 3) * 2 ^ (man_w dfmt + 3) = (2::int) ^ (2 * man_w dfmt + 6)"
    by (simp add: power_add [symmetric])
  also have "\<dots> \<le> 2 ^ (?la - 1 + nat t)"
  proof (rule power_increasing)
    show "2 * man_w dfmt + 6 \<le> ?la - 1 + nat t"
      by (rule sqrt_length [OF _ la(2), of "prec dfmt"]) (use t0 la in \<open>simp_all add: prec_def\<close>)
  qed simp
  also have "\<dots> = 2 ^ (?la - 1) * 2 ^ nat t" by (simp add: power_add)
  also have "\<dots> \<le> ?m"
    using bit_length_bounds(1) [OF m0] la by (intro mult_right_mono) (simp_all add: nat_diff_distrib)
  finally have rl: "2 ^ (man_w dfmt + 3) \<le> ?r" by (intro isqrt_ge) (use m in simp_all)
  then have r: "prec dfmt + 3 \<le> bit_length ?r" "0 < ?r"
    using bit_length_ge_pow [OF rl] zero_less_power [of "2::int" "man_w dfmt + 3"]
    by (simp add: prec_def, linarith)
  have code: "fo_sqrt sfmt dfmt xa rnd = round_pack dfmt 0 (fold_sticky ?r (?r * ?r \<noteq> ?m)) (e div 2 - 1) rnd"
  proof -
    have "e AND 1 = 0" using ev by (simp add: and_one_eq even_iff_mod_2_eq_zero)
    then show ?thesis
      unfolding fo_sqrt_def Let_def t1_def [symmetric] t_def [symmetric] push_bit_eq_mult e_def [symmetric]
      using fin rnd s0 r by simp
  qed
  have mf: "0 < fold_sticky ?r (?r * ?r \<noteq> ?m)" using r by (simp add: fold_sticky_eq)
  have "of_int ?m * p2 e = fval sfmt xa"
  proof -
    have "2 ^ nat t * p2 e = p2 (u_e ?a)" using t0 by (simp add: e_def p2_diff p2_nat)
    then show ?thesis by (simp add: fval_unpack s0 mult.assoc)
  qed
  then have "sqrt (fval sfmt xa) = (of_int ?r + ?f) * p2 (e div 2)"
    using p2_half [OF ev] by (metis add.commute diff_add_cancel real_sqrt_mult)
  then have "round_real dfmt rnd 0 (sqrt (fval sfmt xa)) =
    round_real dfmt rnd 0 (of_int (fold_sticky ?r (?r * ?r \<noteq> ?m)) * p2 (e div 2 - 1))"
    using fold_sticky_round [OF _ r(2) sq(1,2), of dfmt rnd 0 "e div 2"] r(1) sq(3) by simp
  then show ?thesis
    unfolding code using round_pack_refines [OF wf mf valid_mode_dir [OF rnd]] by simp
qed

lemma fo_finite_rows:
  assumes wf: "wf_fmt sfmt" "wf_fmt dfmt" and a: "fits sfmt xa" "is_finite sfmt xa"
    and b: "fits sfmt xb" "is_finite sfmt xb" and rnd: "valid_mode rnd"
  shows "fo_mul sfmt dfmt xa xb rnd =
      Inr (product_result dfmt rnd (sgn_of sfmt xa XOR sgn_of sfmt xb) (fval sfmt xa) (fval sfmt xb))"
    and "fo_div sfmt dfmt xa xb rnd =
      Inr (quotient_result dfmt rnd (sgn_of sfmt xa XOR sgn_of sfmt xb) (fval sfmt xa) (fval sfmt xb))"
    and "fo_sqrt sfmt dfmt xa rnd = Inr (root_result dfmt rnd (sgn_of sfmt xa) (fval sfmt xa))"
proof -
  note ca = unpack_cases [OF wf(1) a(1)] and cb = unpack_cases [OF wf(1) b(1)]
  note sa = u_sign_unpack [OF wf(1) a(1)] and sb = u_sign_unpack [OF wf(1) b(1)]
  have fin: "u_kind (unpack sfmt xa) \<noteq> KInf" "u_kind (unpack sfmt xa) \<noteq> KNan"
    "u_kind (unpack sfmt xb) \<noteq> KInf" "u_kind (unpack sfmt xb) \<noteq> KNan"
    using ca(4) cb(4) a(2) b(2) by simp_all
  show "fo_mul sfmt dfmt xa xb rnd =
      Inr (product_result dfmt rnd (sgn_of sfmt xa XOR sgn_of sfmt xb) (fval sfmt xa) (fval sfmt xb))"
    using fo_mul_finite [OF wf a b rnd] by (simp add: product_result_def)
  show "fo_div sfmt dfmt xa xb rnd =
      Inr (quotient_result dfmt rnd (sgn_of sfmt xa XOR sgn_of sfmt xb) (fval sfmt xa) (fval sfmt xb))"
  proof (cases "fval sfmt xa = 0 \<or> fval sfmt xb = 0")
    case True
    then show ?thesis using fin rnd ca(2) cb(2) a(2) b(2) sa sb
      by (auto simp: fo_div_def quotient_result_def Let_def)
  next
    case False
    then show ?thesis using fo_div_finite [OF wf a b rnd] by (simp add: quotient_result_def)
  qed
  show "fo_sqrt sfmt dfmt xa rnd = Inr (root_result dfmt rnd (sgn_of sfmt xa) (fval sfmt xa))"
  proof (cases "0 < fval sfmt xa")
    case True
    then show ?thesis using fo_sqrt_finite [OF wf a rnd] by (simp add: root_result_def)
  next
    case False
    have "truthy (u_sign (unpack sfmt xa))" if "fval sfmt xa < 0"
      using fval_eq [OF wf(1) a] mag_val_nonneg [OF mag_bounds(1)] that sa
      by (auto simp: sg_def mult_less_0_iff not_less [symmetric] split: if_splits)
    then show ?thesis using False fin rnd ca(2) a(2) sa
      by (auto simp: fo_sqrt_def root_result_def Let_def)
  qed
qed

lemma fo_sub_finite:
  assumes "wf_fmt sfmt" "wf_fmt dfmt" "fits sfmt xa" "is_finite sfmt xa" "fits sfmt xb" "is_finite sfmt xb" "valid_mode rnd"
  shows "fo_sub sfmt dfmt xa xb rnd =
    Inr (sum_result dfmt rnd (sgn_of sfmt xa) (1 - sgn_of sfmt xb) (fval sfmt xa - fval sfmt xb))"
proof -
  have "is_finite sfmt (negate sfmt xb)" using assms(5,6) by (simp add: is_finite_def)
  from fo_add_finite [OF assms(1-4) fits_negate [OF assms(5)] this assms(7)] show ?thesis
    using fval_negate [OF assms(1,5,6)] assms(5) by (simp add: fo_sub_def)
qed

section \<open>Within one format\<close>

lemma pack_operand_same:
  assumes "wf_fmt fmt" "fits fmt x" "valid_mode rnd" "u_kind (unpack fmt x) = KSub \<or> u_kind (unpack fmt x) = KNorm"
  shows "pack_operand fmt (unpack fmt x) rnd = Inr (x, 0)"
proof -
  have "is_finite fmt x" using assms by (auto simp: is_finite_kind)
  then show ?thesis
    using pack_operand_signed [OF assms(1,1,2) _ assms(3)] unpack_cases(2) [OF assms(1,2)] assms
      round_signed_exact [OF assms(1,2)] by auto
qed

lemma nan_out_result: "nan_out = nan_result"
  by (intro ext) (simp add: nan_out_def nan_result_def)

lemma kinds_left:
  "k \<noteq> KNan \<Longrightarrow> k \<noteq> KInf \<Longrightarrow> k \<noteq> KZero \<Longrightarrow> k = KSub \<or> k = KNorm"
  by (cases k) simp_all

lemma fo_same_format:
  assumes wf: "wf_fmt fmt" and f: "fits fmt xa" "fits fmt xb" "fits fmt xc"
  shows "fo_add fmt fmt xa xb rnd = add fmt xa xb rnd" "fo_mul fmt fmt xa xb rnd = mul fmt xa xb rnd"
    and "fo_div fmt fmt xa xb rnd = div_f fmt xa xb rnd" "fo_sqrt fmt fmt xa rnd = sqrt_f fmt xa rnd"
    and "fo_fma fmt fmt xa xb xc rnd = fma fmt xa xb xc rnd"
proof -
  note p = pack_operand_same [OF wf f(1)] pack_operand_same [OF wf f(2)] pack_operand_same [OF wf f(3)]
  note kl = kinds_left [of "u_kind (unpack fmt xa)"] kinds_left [of "u_kind (unpack fmt xb)"]
    kinds_left [of "u_kind (unpack fmt xc)"]
  show "fo_mul fmt fmt xa xb rnd = mul fmt xa xb rnd" unfolding fo_mul_def mul_def nan_out_result ..
  show "fo_div fmt fmt xa xb rnd = div_f fmt xa xb rnd" unfolding fo_div_def div_f_def nan_out_result ..
  show "fo_add fmt fmt xa xb rnd = add fmt xa xb rnd"
  proof (cases "valid_mode rnd")
    case True
    then have pa: "u_kind (unpack fmt xa) \<noteq> KNan \<Longrightarrow> u_kind (unpack fmt xa) \<noteq> KInf \<Longrightarrow> u_kind (unpack fmt xa) \<noteq> KZero \<Longrightarrow>
        pack_operand fmt (unpack fmt xa) rnd = Inr (xa, 0)"
      and pb: "u_kind (unpack fmt xb) \<noteq> KNan \<Longrightarrow> u_kind (unpack fmt xb) \<noteq> KInf \<Longrightarrow> u_kind (unpack fmt xb) \<noteq> KZero \<Longrightarrow>
        pack_operand fmt (unpack fmt xb) rnd = Inr (xb, 0)" using p kl by blast+
    show ?thesis unfolding fo_add_def add_def Let_def nan_out_result
      by (intro arg_cong [where f = "bind_r (check_mode rnd)"] ext if_cong refl) (use pa pb in blast)+
  qed (simp add: fo_add_def add_def)
  show "fo_fma fmt fmt xa xb xc rnd = fma fmt xa xb xc rnd"
  proof (cases "valid_mode rnd")
    case True
    then have pc: "u_kind (unpack fmt xc) \<noteq> KNan \<Longrightarrow> u_kind (unpack fmt xc) \<noteq> KInf \<Longrightarrow> u_kind (unpack fmt xc) \<noteq> KZero \<Longrightarrow>
        pack_operand fmt (unpack fmt xc) rnd = Inr (xc, 0)" using p kl by blast
    show ?thesis unfolding fo_fma_def fma_def Let_def nan_out_result
      by (intro arg_cong [where f = "bind_r (check_mode rnd)"] ext if_cong refl) (use pc in blast)+
  qed (simp add: fo_fma_def fma_def)
  show "fo_sqrt fmt fmt xa rnd = sqrt_f fmt xa rnd"
  proof -
    have z: "zero_bits fmt (u_sign (unpack fmt xa)) = xa" if "u_kind (unpack fmt xa) = KZero"
      using kind_bits(2) [OF wf f(1)] that u_sign_unpack [OF wf f(1)] by (simp add: is_zero_def)
    have i: "inf_bits fmt 0 = xa" if "u_kind (unpack fmt xa) = KInf" "\<not> truthy (u_sign (unpack fmt xa))"
      using kind_bits(1) [OF wf f(1)] that u_sign_unpack [OF wf f(1)] by (simp add: is_inf_def)
    show ?thesis unfolding fo_sqrt_def sqrt_f_def Let_def nan_out_result
      by (intro arg_cong [where f = "bind_r (check_mode rnd)"] ext if_cong refl) (use z i in simp_all)
  qed
qed

lemma fo_sub_same_format:
  assumes "wf_fmt fmt" "fits fmt xa" "fits fmt xb"
  shows "fo_sub fmt fmt xa xb rnd = sub fmt xa xb rnd"
  using fo_same_format(1) [OF assms(1,2) fits_negate [OF assms(3)] assms(2)] by (simp add: fo_sub_def sub_def)

lemma unpack_negate:
  assumes "wf_fmt fmt" "fits fmt x"
  shows "u_kind (unpack fmt (negate fmt x)) = u_kind (unpack fmt x)"
    and "u_sign (unpack fmt (negate fmt x)) = 1 - u_sign (unpack fmt x)"
    and "signaling (unpack fmt (negate fmt x)) = signaling (unpack fmt x)"
  using assms by (simp_all add: unpack_fits)

section \<open>Into a format that holds the source\<close>

lemma convert_finite_exact:
  assumes wf: "wf_fmt sfmt" "wf_fmt dfmt" and h: "holds_fmt dfmt sfmt" and x: "fits sfmt x" "is_finite sfmt x"
    and rnd: "valid_mode rnd"
  obtains y where "convert sfmt dfmt x rnd = Inr (y, 0)" "fits dfmt y" "is_finite dfmt y" "fval dfmt y = fval sfmt x"
    "sgn_of dfmt y = sgn_of sfmt x"
proof (cases "fval sfmt x = 0")
  case True
  have s: "sgn_of sfmt x = 0 \<or> sgn_of sfmt x = 1" by (rule fits_sgn [OF x(1)])
  have z: "is_zero sfmt x" using True x unpack_cases(2) [OF wf(1) x(1)] by (simp add: is_zero_def)
  let ?y = "zero_bits dfmt (sgn_of sfmt x)"
  have k: "is_zero dfmt ?y" "sgn_of dfmt ?y = sgn_of sfmt x" "fits dfmt ?y" using const_kinds [OF wf(2) s] fits_const [OF wf(2)] s by blast+
  then have "is_finite dfmt ?y \<and> fval dfmt ?y = 0" using unpack_cases(2) [OF wf(2) k(3)] by (simp add: is_zero_def)
  then show ?thesis
    using that [of ?y] k(2,3) z True rnd wf x by (simp add: convert_def is_zero_def)
next
  case False
  from convert_exact [OF wf h x False rnd] obtain y where y: "convert sfmt dfmt x rnd = Inr (y, 0)" "fits dfmt y"
    "is_finite dfmt y" "fval dfmt y = fval sfmt x" by blast
  have "sg (sgn_of dfmt y) * mag_val dfmt (mag_of dfmt y) = sg (sgn_of sfmt x) * mag_val sfmt (mag_of sfmt x)"
    using y(4) fval_eq [OF wf(2) y(2,3)] fval_eq [OF wf(1) x] by simp
  moreover have "0 < mag_val dfmt (mag_of dfmt y)" "0 < mag_val sfmt (mag_of sfmt x)"
    using False y(4) fval_eq [OF wf(2) y(2,3)] fval_eq [OF wf(1) x] mag_val_nonneg [OF mag_bounds(1)]
    by (metis less_le mult_zero_right)+
  ultimately have "sgn_of dfmt y = sgn_of sfmt x"
    using fits_sgn [OF y(2)] fits_sgn [OF x(1)] by (auto simp: sg_def split: if_splits)
  with y show ?thesis by (rule that)
qed

text \<open>
  What the conversion into a wider format delivers for any operand: the flag of a signaling
  NaN and nothing else, the value of a finite operand, and the kind and sign the operations look at.
\<close>

definition carried :: "fp_format \<Rightarrow> fp_format \<Rightarrow> int \<Rightarrow> int \<Rightarrow> int \<Rightarrow> bool" where
  "carried sfmt dfmt rnd x y \<longleftrightarrow>
    convert sfmt dfmt x rnd = Inr (y, if is_snan sfmt x then FLAG_INVALID else 0) \<and> fits dfmt y \<and>
    (is_finite sfmt x \<longrightarrow> is_finite dfmt y \<and> fval dfmt y = fval sfmt x)"

definition raising :: "int \<Rightarrow> (int \<times> int) result \<Rightarrow> (int \<times> int) result" where
  "raising f r = bind_r r (\<lambda>(bits, g). Inr (bits, f OR g))"

lemma raising_simps [simp]: "raising f (Inr (b, g)) = Inr (b, f OR g)" "raising 0 r = r"
  by (cases r; simp add: raising_def split_beta)+

definition alike :: "unpacked \<Rightarrow> unpacked \<Rightarrow> bool" where
  "alike u v \<longleftrightarrow> \<not> signaling v \<and> (u_kind v = KNan \<longleftrightarrow> u_kind u = KNan) \<and> (u_kind v = KInf \<longleftrightarrow> u_kind u = KInf) \<and>
    (u_kind v = KZero \<longleftrightarrow> u_kind u = KZero) \<and> (u_kind u \<noteq> KNan \<longrightarrow> u_sign v = u_sign u)"

definition invalid_if :: "bool list \<Rightarrow> int" where
  "invalid_if bs = (if list_ex (\<lambda>b. b) bs then FLAG_INVALID else 0)"

lemma invalid_if_simps [simp]:
  "invalid_if [] = 0" "invalid_if (True # bs) = FLAG_INVALID" "invalid_if (False # bs) = invalid_if bs"
  by (simp_all add: invalid_if_def)

lemma convert_carried:
  assumes wf: "wf_fmt sfmt" "wf_fmt dfmt" and h: "holds_fmt dfmt sfmt" and x: "fits sfmt x" and rnd: "valid_mode rnd"
  obtains y where "carried sfmt dfmt rnd x y" "alike (unpack sfmt x) (unpack dfmt y)"
proof -
  note s = fits_sgn [OF x] and us = u_sign_unpack [OF wf(1) x]
  consider (nan) "u_kind (unpack sfmt x) = KNan" | (inf) "u_kind (unpack sfmt x) = KInf" | (fin) "is_finite sfmt x"
    using not_finite_kind [OF wf(1) x] by blast
  then show ?thesis
  proof cases
    case nan
    note q = qnan_quiet [OF wf(2)]
    have "u_kind (unpack dfmt (qnan_bits dfmt)) = KNan \<and> \<not> signaling (unpack dfmt (qnan_bits dfmt))"
      using q is_nan_kind [OF wf(2)] by (auto simp: is_snan_def)
    then show ?thesis
      using that [of "qnan_bits dfmt"] nan rnd q unpack_cases(4) [OF wf(1) x]
      by (simp add: carried_def alike_def convert_def is_snan_def)
  next
    case inf
    note k = const_kinds(1,3) [OF wf(2) s] and f = fits_const(5) [OF wf(2) s]
    then have "u_kind (unpack dfmt (inf_bits dfmt (sgn_of sfmt x))) = KInf"
      "u_sign (unpack dfmt (inf_bits dfmt (sgn_of sfmt x))) = sgn_of sfmt x"
      using u_sign_unpack [OF wf(2) f] by (simp_all add: is_inf_def)
    then show ?thesis
      using that [of "inf_bits dfmt (sgn_of sfmt x)"] inf rnd f us unpack_cases(4) [OF wf(1) x] signaling_nan [OF wf(2) f]
      by (simp add: carried_def alike_def convert_def is_snan_def)
  next
    case fin
    obtain y where y: "convert sfmt dfmt x rnd = Inr (y, 0)" "fits dfmt y" "is_finite dfmt y"
      "fval dfmt y = fval sfmt x" "sgn_of dfmt y = sgn_of sfmt x" by (rule convert_finite_exact [OF wf h x fin rnd])
    then show ?thesis
      using that [of y] fin us u_sign_unpack [OF wf(2) y(2)] unpack_cases(2,4) [OF wf(1) x] unpack_cases(2,4) [OF wf(2) y(2)]
        signaling_nan [OF wf(2) y(2)]
      by (simp add: carried_def alike_def is_snan_def)
  qed
qed

lemma carried_finite:
  assumes wf: "wf_fmt sfmt" "wf_fmt dfmt" and x: "fits sfmt x" and c: "carried sfmt dfmt rnd x y"
    and al: "alike (unpack sfmt x) (unpack dfmt y)" and k: "u_kind (unpack sfmt x) \<noteq> KNan" "u_kind (unpack sfmt x) \<noteq> KInf"
  shows "is_finite sfmt x" "is_finite dfmt y" "fval dfmt y = fval sfmt x" "sgn_of dfmt y = sgn_of sfmt x"
    "\<not> is_snan sfmt x"
proof -
  have y: "fits dfmt y" using c by (simp add: carried_def)
  show "is_finite sfmt x" using k unpack_cases(4) [OF wf(1) x] by simp
  then show "is_finite dfmt y" "fval dfmt y = fval sfmt x" using c by (simp_all add: carried_def)
  show "sgn_of dfmt y = sgn_of sfmt x"
    using al k u_sign_unpack [OF wf(1) x] u_sign_unpack [OF wf(2) y] by (simp add: alike_def)
  show "\<not> is_snan sfmt x" using k by (simp add: is_snan_def)
qed

lemma fo_widening:
  assumes wf: "wf_fmt sfmt" "wf_fmt dfmt" and h: "holds_fmt dfmt sfmt" and rnd: "valid_mode rnd"
    and x: "fits sfmt xa" "fits sfmt xb" "fits sfmt xc"
  obtains ya yb yc where "carried sfmt dfmt rnd xa ya" "carried sfmt dfmt rnd xb yb" "carried sfmt dfmt rnd xc yc"
    "fo_add sfmt dfmt xa xb rnd = raising (invalid_if [is_snan sfmt xa, is_snan sfmt xb]) (add dfmt ya yb rnd)"
    "fo_sub sfmt dfmt xa xb rnd = raising (invalid_if [is_snan sfmt xa, is_snan sfmt xb]) (sub dfmt ya yb rnd)"
    "fo_mul sfmt dfmt xa xb rnd = raising (invalid_if [is_snan sfmt xa, is_snan sfmt xb]) (mul dfmt ya yb rnd)"
    "fo_div sfmt dfmt xa xb rnd = raising (invalid_if [is_snan sfmt xa, is_snan sfmt xb]) (div_f dfmt ya yb rnd)"
    "fo_sqrt sfmt dfmt xa rnd = raising (invalid_if [is_snan sfmt xa]) (sqrt_f dfmt ya rnd)"
    "fo_fma sfmt dfmt xa xb xc rnd =
      raising (invalid_if [is_snan sfmt xa, is_snan sfmt xb, is_snan sfmt xc]) (fma dfmt ya yb yc rnd)"
proof -
  obtain ya where a: "carried sfmt dfmt rnd xa ya" and ka: "alike (unpack sfmt xa) (unpack dfmt ya)"
    by (rule convert_carried [OF wf h x(1) rnd])
  obtain yb where b: "carried sfmt dfmt rnd xb yb" and kb: "alike (unpack sfmt xb) (unpack dfmt yb)"
    by (rule convert_carried [OF wf h x(2) rnd])
  obtain yc where c: "carried sfmt dfmt rnd xc yc" and kc: "alike (unpack sfmt xc) (unpack dfmt yc)"
    by (rule convert_carried [OF wf h x(3) rnd])
  have y: "fits dfmt ya" "fits dfmt yb" "fits dfmt yc" using a b c by (simp_all add: carried_def)
  note same = fo_same_format [OF wf(2) y, of rnd, symmetric]
  note fa = carried_finite [OF wf x(1) a ka] and fb = carried_finite [OF wf x(2) b kb] and fc = carried_finite [OF wf x(3) c kc]
  note alk = ka [unfolded alike_def] kb [unfolded alike_def] kc [unfolded alike_def]
  let ?as = "u_kind (unpack sfmt xa) = KNan \<or> u_kind (unpack sfmt xa) = KInf"
  let ?bs = "u_kind (unpack sfmt xb) = KNan \<or> u_kind (unpack sfmt xb) = KInf"
  let ?cs = "u_kind (unpack sfmt xc) = KNan \<or> u_kind (unpack sfmt xc) = KInf"
  let ?an = "u_kind (unpack sfmt xa) = KNan" and ?bn = "u_kind (unpack sfmt xb) = KNan" and ?cn = "u_kind (unpack sfmt xc) = KNan"
  note special_defs = nan_out_def is_snan_def invalid_if_def
  show ?thesis
  proof (rule that [OF a b c])
    show "fo_add sfmt dfmt xa xb rnd = raising (invalid_if [is_snan sfmt xa, is_snan sfmt xb]) (add dfmt ya yb rnd)"
    proof (cases "?as \<or> ?bs")
      case True
      then show ?thesis unfolding same using alk(1,2) rnd
        by (cases ?an; cases ?bn; cases "u_kind (unpack sfmt xa) = KInf")
          (simp_all add: fo_add_def special_defs Let_def)
    next
      case False
      then show ?thesis unfolding same
        using fa fb fo_add_finite [OF wf x(1) _ x(2) _ rnd] fo_add_finite [OF wf(2,2) y(1) _ y(2) _ rnd] by simp
    qed
    show "fo_sub sfmt dfmt xa xb rnd = raising (invalid_if [is_snan sfmt xa, is_snan sfmt xb]) (sub dfmt ya yb rnd)"
    proof (cases "?as \<or> ?bs")
      case True
      note un = unpack_negate [OF wf(1) x(2)] unpack_negate [OF wf(2) y(2)]
      from True show ?thesis unfolding fo_sub_same_format [OF wf(2) y(1,2), symmetric] fo_sub_def using alk(1,2) rnd
        by (cases ?an; cases ?bn; cases "u_kind (unpack sfmt xa) = KInf")
          (simp_all add: fo_add_def special_defs un Let_def)
    next
      case False
      then show ?thesis unfolding fo_sub_same_format [OF wf(2) y(1,2), symmetric]
        using fa fb fo_sub_finite [OF wf x(1) _ x(2) _ rnd] fo_sub_finite [OF wf(2,2) y(1) _ y(2) _ rnd] by simp
    qed
    show "fo_mul sfmt dfmt xa xb rnd = raising (invalid_if [is_snan sfmt xa, is_snan sfmt xb]) (mul dfmt ya yb rnd)"
    proof (cases "?as \<or> ?bs")
      case True
      then show ?thesis unfolding same using alk(1,2) rnd
        by (cases ?an; cases ?bn; cases "u_kind (unpack sfmt xa) = KInf")
          (simp_all add: fo_mul_def special_defs Let_def)
    next
      case False
      then show ?thesis unfolding same
        using fa fb fo_finite_rows(1) [OF wf x(1) _ x(2) _ rnd] fo_finite_rows(1) [OF wf(2,2) y(1) _ y(2) _ rnd] by simp
    qed
    show "fo_div sfmt dfmt xa xb rnd = raising (invalid_if [is_snan sfmt xa, is_snan sfmt xb]) (div_f dfmt ya yb rnd)"
    proof (cases "?as \<or> ?bs")
      case True
      then show ?thesis unfolding same using alk(1,2) rnd
        by (cases ?an; cases ?bn; cases "u_kind (unpack sfmt xa) = KInf")
          (simp_all add: fo_div_def special_defs Let_def)
    next
      case False
      then show ?thesis unfolding same
        using fa fb fo_finite_rows(2) [OF wf x(1) _ x(2) _ rnd] fo_finite_rows(2) [OF wf(2,2) y(1) _ y(2) _ rnd] by simp
    qed
    show "fo_sqrt sfmt dfmt xa rnd = raising (invalid_if [is_snan sfmt xa]) (sqrt_f dfmt ya rnd)"
    proof (cases ?as)
      case True
      then show ?thesis unfolding same using alk(1) rnd
        by (auto simp: fo_sqrt_def nan_out_def is_snan_def invalid_if_def Let_def)
    next
      case False
      then show ?thesis unfolding same
        using fa fo_finite_rows(3) [OF wf x(1) _ x(1) _ rnd] fo_finite_rows(3) [OF wf(2,2) y(1) _ y(1) _ rnd] by simp
    qed
    show "fo_fma sfmt dfmt xa xb xc rnd =
      raising (invalid_if [is_snan sfmt xa, is_snan sfmt xb, is_snan sfmt xc]) (fma dfmt ya yb yc rnd)"
    proof (cases "?as \<or> ?bs \<or> ?cs")
      case True
      then show ?thesis unfolding same using alk rnd
        by (cases ?an; cases ?bn; cases ?cn; cases "u_kind (unpack sfmt xa) = KInf"; cases "u_kind (unpack sfmt xb) = KInf")
          (simp_all add: fo_fma_def special_defs Let_def)
    next
      case False
      then show ?thesis unfolding same
        using fa fb fc fo_fma_finite [OF wf x(1) _ x(2) _ x(3) _ rnd] fo_fma_finite [OF wf(2,2) y(1) _ y(2) _ y(3) _ rnd] by simp
    qed
  qed
qed

section \<open>Comparison across formats\<close>

lemma fo_compare_finite:
  assumes wf: "wf_fmt afmt" "wf_fmt bfmt" and h: "holds_fmt afmt bfmt \<and> prec bfmt \<le> prec afmt \<or>
      holds_fmt bfmt afmt \<and> prec afmt < prec bfmt"
    and x: "fits afmt xa" "is_finite afmt xa" "fits bfmt xb" "is_finite bfmt xb"
  shows "fo_compare afmt bfmt xa xb is_sig =
    Inr ((fval afmt xa < fval bfmt xb, fval afmt xa = fval bfmt xb, fval bfmt xb < fval afmt xa), 0)"
proof -
  define w where "w = (if prec bfmt \<le> prec afmt then afmt else bfmt)"
  have ww: "wf_fmt w" using wf by (simp add: w_def)
  have ha: "holds_fmt w afmt" "holds_fmt w bfmt" using h by (auto simp: w_def holds_fmt_def)
  have rnd: "valid_mode RND_RNE" by simp
  obtain va where a: "convert afmt w xa RND_RNE = Inr (va, 0)" "fits w va" "is_finite w va" "fval w va = fval afmt xa"
    by (rule convert_finite_exact [OF wf(1) ww ha(1) x(1,2) rnd])
  obtain vb where b: "convert bfmt w xb RND_RNE = Inr (vb, 0)" "fits w vb" "is_finite w vb" "fval w vb = fval bfmt xb"
    by (rule convert_finite_exact [OF wf(2) ww ha(2) x(3,4) rnd])
  have nn: "\<not> is_nan w va" "\<not> is_nan w vb" using a b ww by (simp_all add: is_nan_mag is_finite_def)
  have k: "u_kind (unpack w va) \<noteq> KNan" "u_kind (unpack w vb) \<noteq> KNan" using nn is_nan_kind [OF ww] a(2) b(2) by blast+
  note l = rank_less_real [OF ww a(2,3) b(2,3)] rank_less_real [OF ww b(2,3) a(2,3)]
  have e: "rank w va = rank w vb \<longleftrightarrow> fval w va = fval w vb" using l by linarith
  have z: "one_bits w 0 \<noteq> 0" "zero_bits w 0 = 0" using one_not_zero [OF ww] by (simp_all add: zero_bits_def)
  show ?thesis
    unfolding fo_compare_def Let_def w_def [symmetric] a(1) b(1)
    using k by (simp add: cmplt_def cmpeq_def compare_quiet_rank [OF ww a(2) b(2) nn] compare_quiet_rank [OF ww b(2) a(2) nn(2,1)]
        cmp_truth_def l e a(4) b(4) z)
qed

section \<open>Rounding twice is different\<close>

lemmas fo_run = code_defs fmt_defs ladder_defs bits_arith drop_bit_eq_div push_bit_eq_mult bit_length_def
  valid_dir_def valid_mode_def mk_unpacked_def

lemma wide_midpoint: "convert (wide_format 53 24) FP32 37778927359357802774528 RND_RNE = Inr (1065353216, FLAG_INEXACT)"
  by (simp add: convert_def unpack_def wide_format_def fo_run round_pack_def round_at_def round_up_def)

lemma composed_midpoint:
  assumes "fo_compute FP64 (wide_format 53 24) fn xa xb xc RND_RNE = Inr (37778927359357802774528, FLAG_INEXACT)"
  shows "composed_route FP64 FP32 (wide_format 53 24) fn xa xb xc RND_RNE = Inr (1065353216, FLAG_INEXACT)"
proof -
  have "wide_format 53 24 \<noteq> FP64" "exp_w (wide_format 53 24) \<noteq> exp_w FP64" by (simp_all add: wide_format_def FP64_def)
  then show ?thesis unfolding composed_route_def Let_def by (simp add: assms wide_midpoint)
qed

lemma div_witness:
  "double_rounding_witness FP64 FP32 FN_FO_DIV None = Inr (4607182419605323807, 4607182419336888319, 0, wide_format 53 24)"
  "fo_compute FP64 FP32 FN_FO_DIV 4607182419605323807 4607182419336888319 0 RND_RNE = Inr (1065353217, FLAG_INEXACT)"
  "fo_compute FP64 (wide_format 53 24) FN_FO_DIV 4607182419605323807 4607182419336888319 0 RND_RNE = Inr (37778927359357802774528, FLAG_INEXACT)"
proof -
  show "double_rounding_witness FP64 FP32 FN_FO_DIV None = Inr (4607182419605323807, 4607182419336888319, 0, wide_format 53 24)"
    by (simp add: double_rounding_witness_def fo_run round_pack_def round_at_def round_up_def)
  show "fo_compute FP64 FP32 FN_FO_DIV 4607182419605323807 4607182419336888319 0 RND_RNE = Inr (1065353217, FLAG_INEXACT)"
    by (simp add: fo_compute_def FORMATOF_IMPL_def fo_div_def fold_sticky_eq unpack_def fo_run round_pack_def round_at_def round_up_def)
  show "fo_compute FP64 (wide_format 53 24) FN_FO_DIV 4607182419605323807 4607182419336888319 0 RND_RNE = Inr (37778927359357802774528, FLAG_INEXACT)"
    by (simp add: fo_compute_def FORMATOF_IMPL_def fo_div_def fold_sticky_eq unpack_def wide_format_def fo_run round_pack_def round_at_def round_up_def)
qed

lemma isqrt_unique:
  assumes "0 \<le> r" "r * r \<le> n" "n < (r + 1) * (r + 1)"
  shows "isqrt n = r"
proof -
  have n: "0 \<le> n" using assms(1,2) zero_le_square [of r] by linarith
  note b = isqrt_bounds [OF n]
  have "isqrt n < r + 1"
    by (rule ccontr) (use b assms mult_mono [of "r + 1" "isqrt n" "r + 1" "isqrt n"] in simp)
  moreover have "r < isqrt n + 1"
    by (rule ccontr) (use b assms mult_mono [of "isqrt n + 1" r "isqrt n + 1" r] in simp)
  ultimately show ?thesis by linarith
qed

lemma isqrt_values: "isqrt 18014400656965700 = 134217736" "isqrt 5192297477504866870886212095180800 = 72057598332895239"
  by (rule isqrt_unique; simp)+

lemma sqrt_witness:
  "double_rounding_witness FP64 FP32 FN_FO_SQRT None = Inr (4607182419336888337, 0, 0, wide_format 53 24)"
  "fo_compute FP64 FP32 FN_FO_SQRT 4607182419336888337 0 0 RND_RNE = Inr (1065353217, FLAG_INEXACT)"
  "fo_compute FP64 (wide_format 53 24) FN_FO_SQRT 4607182419336888337 0 0 RND_RNE = Inr (37778927359357802774528, FLAG_INEXACT)"
proof -
  show "double_rounding_witness FP64 FP32 FN_FO_SQRT None = Inr (4607182419336888337, 0, 0, wide_format 53 24)"
    by (simp add: double_rounding_witness_def fo_run round_pack_def round_at_def round_up_def)
  show "fo_compute FP64 FP32 FN_FO_SQRT 4607182419336888337 0 0 RND_RNE = Inr (1065353217, FLAG_INEXACT)"
    by (simp add: fo_compute_def FORMATOF_IMPL_def fo_sqrt_def fold_sticky_eq isqrt_values unpack_def fo_run round_pack_def round_at_def round_up_def)
  show "fo_compute FP64 (wide_format 53 24) FN_FO_SQRT 4607182419336888337 0 0 RND_RNE = Inr (37778927359357802774528, FLAG_INEXACT)"
    by (simp add: fo_compute_def FORMATOF_IMPL_def fo_sqrt_def fold_sticky_eq isqrt_values unpack_def wide_format_def fo_run round_pack_def round_at_def round_up_def)
qed

end
