(* ===== verification/Chars.thy ===== *)
theory Chars
  imports FormatOf
begin

text \<open>
  Clause 5.12's character sequences and clause 9.7's payloads, \<^verbatim>\<open>python/cft_golden/chars.py\<close>: the lexer,
  the conversions between encodings and decimal or hexadecimal sequences, and the payload operations.

  A \<open>str\<close> is a list of characters of eight bits; the sequences the module accepts and writes are ASCII,
  and a wider character occurs in none of them. \<open>isinstance\<close> tests are typing here, and the interpreter's
  limit on the length of decimal conversions, which the module lifts where it is hit, is no limit here.
\<close>

section \<open>Python's text operations\<close>

definition lower_char :: "char \<Rightarrow> char" where
  "lower_char c = (if 65 \<le> (of_char c :: nat) \<and> (of_char c :: nat) \<le> 90 then char_of ((of_char c :: nat) + 32) else c)"

definition lower :: "string \<Rightarrow> string" where "lower s = map lower_char s"

text \<open>\<open>rstrip("0")\<close>, \<open>find\<close> of a character, \<open>int(text, base)\<close> on digits, and the formats \<open>%x\<close> and \<open>%d\<close>.\<close>

definition rstrip_zeros :: "string \<Rightarrow> string" where
  "rstrip_zeros s = rev (dropWhile (\<lambda>c. c = CHR ''0'') (rev s))"

definition find_char :: "char \<Rightarrow> string \<Rightarrow> nat option" where
  "find_char c s = (if c \<in> set s then Some (length (takeWhile (\<lambda>x. x \<noteq> c) s)) else None)"

definition digit_val :: "char \<Rightarrow> int" where
  "digit_val c = (let n = int (of_char c :: nat) in if n \<le> 57 then n - 48 else if 97 \<le> n then n - 87 else n - 55)"

definition int_of :: "int \<Rightarrow> string \<Rightarrow> int" where
  "int_of base text = foldl (\<lambda>a c. base * a + digit_val c) 0 text"

definition hex_digit :: "nat \<Rightarrow> char" where
  "hex_digit n = (if n < 10 then char_of (48 + n) else char_of (87 + n))"

fun hex_digits :: "nat \<Rightarrow> string" where
  "hex_digits n = (if n < 16 then [hex_digit n] else hex_digits (n div 16) @ [hex_digit (n mod 16)])"

declare hex_digits.simps [simp del]

definition zero_pad :: "nat \<Rightarrow> string \<Rightarrow> string" where
  "zero_pad w s = replicate (w - length s) (CHR ''0'') @ s"

section \<open>The code\<close>

definition int_from_digits :: "string \<Rightarrow> int" where "int_from_digits text = int_of 10 text"
definition digits_from_int :: "int \<Rightarrow> string" where "digits_from_int n = py_digits (nat n)"

function pmin_loop :: "fp_format \<Rightarrow> nat \<Rightarrow> nat" where
  "pmin_loop fmt k = (if (10::int) ^ k < push_bit (nat (prec fmt)) 1 then pmin_loop fmt (k + 1) else k)"
  by pat_completeness auto
termination
proof (relation "measure (\<lambda>(fmt, k). nat (push_bit (nat (prec fmt)) 1 - 10 ^ k))", simp)
  fix fmt :: fp_format and k :: nat
  assume "(10::int) ^ k < push_bit (nat (prec fmt)) 1"
  moreover have "(10::int) ^ k < 10 ^ (k + 1)" by simp
  ultimately show "((fmt, k + 1), fmt, k) \<in> measure (\<lambda>(fmt, k). nat (push_bit (nat (prec fmt)) 1 - 10 ^ k))" by simp
qed

declare pmin_loop.simps [simp del]

definition pmin :: "fp_format \<Rightarrow> int" where "pmin fmt = 1 + int (pmin_loop fmt 0)"

definition max_payload :: "fp_format \<Rightarrow> int" where "max_payload fmt = push_bit (man_w fmt - 1) 1"

datatype char_kind = CZero | CFinite | CInf | CNan

definition c_decode :: "fp_format \<Rightarrow> int \<Rightarrow> char_kind \<times> int \<times> int \<times> int \<times> int \<times> int" where
  "c_decode fmt bits =
    (let sign = drop_bit (width fmt - 1) bits AND 1;
         biased = drop_bit (man_w fmt) bits AND exp_mask fmt;
         frac = bits AND man_mask fmt
     in if biased = exp_mask fmt then
          (if frac = 0 then (CInf, sign, 0, 0, 0, 0)
           else let quiet = drop_bit (man_w fmt - 1) frac AND 1
                in (CNan, sign, 0, 0, frac AND (max_payload fmt - 1), if truthy quiet then 0 else 1))
        else if biased = 0 then
          (if frac = 0 then (CZero, sign, 0, 0, 0, 0)
           else (CFinite, sign, frac, emin fmt - int (man_w fmt), 0, 0))
        else (CFinite, sign, frac OR push_bit (man_w fmt) 1, biased - bias fmt - int (man_w fmt), 0, 0))"

definition nan_bits :: "fp_format \<Rightarrow> int \<Rightarrow> int \<Rightarrow> int \<Rightarrow> int result" where
  "nan_bits fmt sign payload sgnl =
    (if \<not> (0 \<le> payload \<and> payload < max_payload fmt) then Inl AssertionError
     else if \<not> (sgnl = 0 \<or> payload \<noteq> 0) then Inl AssertionError
     else let bits = push_bit (width fmt - 1) sign OR push_bit (man_w fmt) (exp_mask fmt) OR payload
     in Inr (if \<not> truthy sgnl then bits OR max_payload fmt else bits))"

text \<open>Rounding an exact rational.\<close>

definition WINDOW :: int where "WINDOW = 3"

definition round_rational :: "fp_format \<Rightarrow> int \<Rightarrow> int \<Rightarrow> int \<Rightarrow> int \<Rightarrow> (int \<times> int) result" where
  "round_rational fmt sign num den rnd =
    (if \<not> (0 < num \<and> 0 < den) then Inl AssertionError else
     let w = prec fmt + WINDOW;
         q = bit_length num - bit_length den - w;
         (m, rem) = (if 0 \<le> q then (num div push_bit (nat q) den, num mod push_bit (nat q) den)
                     else (push_bit (nat (- q)) num div den, push_bit (nat (- q)) num mod den))
     in if \<not> w \<le> bit_length m then Inl AssertionError
     else if truthy rem then round_pack fmt sign (2 * m + 1) (q - 1) rnd
     else round_pack fmt sign m q rnd)"

definition L10_LO :: int where "L10_LO = 3321928"
definition L10_HI :: int where "L10_HI = 3321929"
definition L10_DEN :: int where "L10_DEN = 1000000"

definition log2_10_bounds :: "int \<Rightarrow> int \<times> int" where
  "log2_10_bounds t =
    (if 0 \<le> t then (t * L10_LO div L10_DEN, - (- t * L10_HI div L10_DEN))
     else (t * L10_HI div L10_DEN, - (- t * L10_LO div L10_DEN)))"

definition clamped_round :: "fp_format \<Rightarrow> int \<Rightarrow> int \<Rightarrow> int \<Rightarrow> int \<Rightarrow> (int \<times> int) option result" where
  "clamped_round fmt sign e_lo e_hi rnd =
    (let w = prec fmt + WINDOW in
     if emax fmt + 1 < e_lo then
       bind_r (round_pack fmt sign (push_bit (nat w) 1 + 1) (emax fmt + 1 - w) rnd) (\<lambda>r. Inr (Some r))
     else if e_hi \<le> emin fmt - int (man_w fmt) - 2 then
       bind_r (round_pack fmt sign (push_bit (nat w) 1 + 1) (emin fmt - int (man_w fmt) - 2 - w) rnd) (\<lambda>r. Inr (Some r))
     else Inr None)"

definition round_decimal :: "fp_format \<Rightarrow> int \<Rightarrow> int \<Rightarrow> int \<Rightarrow> int \<Rightarrow> (int \<times> int) result" where
  "round_decimal fmt sign digits k rnd =
    (let b = bit_length digits; (lo, hi) = log2_10_bounds k in
     bind_r (clamped_round fmt sign (b - 2 + lo) (b + hi) rnd) (\<lambda>banded.
     case banded of Some r \<Rightarrow> Inr r
     | None \<Rightarrow> if 0 \<le> k then round_rational fmt sign (digits * 10 ^ nat k) 1 rnd
         else round_rational fmt sign digits (10 ^ nat (- k)) rnd))"

definition round_binary :: "fp_format \<Rightarrow> int \<Rightarrow> int \<Rightarrow> int \<Rightarrow> int \<Rightarrow> (int \<times> int) result" where
  "round_binary fmt sign m e rnd =
    (let lead = e + bit_length m - 1 in
     bind_r (clamped_round fmt sign lead lead rnd) (\<lambda>banded.
     case banded of Some r \<Rightarrow> Inr r | None \<Rightarrow> round_pack fmt sign m e rnd))"

text \<open>The lexer.\<close>

definition DIGITS :: string where "DIGITS = ''0123456789''"
definition HEXDIGITS :: string where "HEXDIGITS = ''0123456789abcdefABCDEF''"

fun split_sign :: "string \<Rightarrow> int \<times> string" where
  "split_sign [] = (0, [])"
| "split_sign (c # s) = (if c = CHR ''-'' then (1, s) else if c = CHR ''+'' then (0, s) else (0, c # s))"

definition lex_special :: "string \<Rightarrow> int \<Rightarrow> fp_format \<Rightarrow> int option result" where
  "lex_special body sign fmt =
    (let low = lower body in
     if low \<in> {''inf'', ''infinity''} then Inr (Some (inf_bits fmt sign)) else
     let finish = (\<lambda>head payload.
       if head \<notin> {''nan'', ''snan''} then Inr None else
       let sgnl = (if head = ''snan'' then 1 else 0);
           pl = (case payload of None \<Rightarrow> (if sgnl = 1 then 1 else 0) | Some v \<Rightarrow> v)
       in if max_payload fmt \<le> pl \<or> sgnl = 1 \<and> pl = 0 then Inl CharacterSyntaxError
       else bind_r (nan_bits fmt sign pl sgnl) (\<lambda>b. Inr (Some b)))
     in if low \<noteq> [] \<and> last low = CHR '')'' then
          (case find_char (CHR ''('') low of None \<Rightarrow> Inr None
           | Some opening \<Rightarrow>
             let head = take opening low; inner = butlast (drop (opening + 1) body) in
             if lower (take 2 inner) = ''0x'' then
               (let text = drop 2 inner in
                if text = [] \<or> list_ex (\<lambda>c. c \<notin> set HEXDIGITS) text then Inr None
                else finish head (Some (int_of 16 text)))
             else if inner = [] \<or> list_ex (\<lambda>c. c \<notin> set DIGITS) inner then Inr None
             else finish head (Some (int_from_digits inner)))
        else finish low None)"

definition lex_exponent :: "string \<Rightarrow> string \<Rightarrow> int \<times> bool" where
  "lex_exponent rest marks =
    (case rest of [] \<Rightarrow> (0, True)
     | c # rest' \<Rightarrow> if c \<notin> set marks then (0, False) else
         let (esign, body) = split_sign rest' in
         if body = [] \<or> list_ex (\<lambda>c. c \<notin> set DIGITS) body then (0, False)
         else let v = int_from_digits body in (if truthy esign then - v else v, True))"

datatype token = Special int | Finite int int int

text \<open>The scan of the significand: the integer digits, the fraction digits, and what is left.\<close>

definition scan_significand :: "string \<Rightarrow> string \<Rightarrow> string \<times> string \<times> string" where
  "scan_significand ds body =
    (let intpart = takeWhile (\<lambda>c. c \<in> set ds) body; r1 = dropWhile (\<lambda>c. c \<in> set ds) body in
     case r1 of [] \<Rightarrow> (intpart, [], [])
     | c # r2 \<Rightarrow> if c = CHR ''.'' then (intpart, takeWhile (\<lambda>c. c \<in> set ds) r2, dropWhile (\<lambda>c. c \<in> set ds) r2)
         else (intpart, [], r1))"

definition lex_decimal :: "fp_format \<Rightarrow> string \<Rightarrow> token result" where
  "lex_decimal fmt s =
    (let (sign, body) = split_sign s in
     if body = [] then Inl CharacterSyntaxError else
     bind_r (lex_special body sign fmt) (\<lambda>special.
     case special of Some b \<Rightarrow> Inr (Special b)
     | None \<Rightarrow>
       let (intpart, fracpart, rest) = scan_significand DIGITS body in
       if intpart = [] \<and> fracpart = [] then Inl CharacterSyntaxError else
       let (e, ok) = lex_exponent rest ''eE'' in
       if \<not> ok then Inl CharacterSyntaxError
       else Inr (Finite sign (int_from_digits (intpart @ fracpart)) (e - int (length fracpart)))))"

definition lex_hex :: "fp_format \<Rightarrow> string \<Rightarrow> token result" where
  "lex_hex fmt s =
    (let (sign, body) = split_sign s in
     if body = [] then Inl CharacterSyntaxError else
     bind_r (lex_special body sign fmt) (\<lambda>special.
     case special of Some b \<Rightarrow> Inr (Special b)
     | None \<Rightarrow>
       if lower (take 2 body) \<noteq> ''0x'' then Inl CharacterSyntaxError else
       let (intpart, fracpart, rest) = scan_significand HEXDIGITS (drop 2 body) in
       if intpart = [] \<and> fracpart = [] then Inl CharacterSyntaxError
       else if rest = [] then Inl CharacterSyntaxError else
       let (e, ok) = lex_exponent rest ''pP'' in
       if \<not> ok then Inl CharacterSyntaxError
       else Inr (Finite sign (int_of 16 (intpart @ fracpart)) (e - 4 * int (length fracpart)))))"

text \<open>Sequences to encodings.\<close>

definition from_decimal :: "fp_format \<Rightarrow> string \<Rightarrow> int \<Rightarrow> (int \<times> int) result" where
  "from_decimal fmt s rnd =
    bind_r (check_mode rnd) (\<lambda>_.
    bind_r (lex_decimal fmt s) (\<lambda>tok.
    case tok of Special b \<Rightarrow> Inr (b, 0)
    | Finite sign digits k \<Rightarrow>
        if digits = 0 then Inr (zero_bits fmt sign, 0) else round_decimal fmt sign digits k rnd))"

definition from_hex :: "fp_format \<Rightarrow> string \<Rightarrow> int \<Rightarrow> (int \<times> int) result" where
  "from_hex fmt s rnd =
    bind_r (check_mode rnd) (\<lambda>_.
    bind_r (lex_hex fmt s) (\<lambda>tok.
    case tok of Special b \<Rightarrow> Inr (b, 0)
    | Finite sign m e \<Rightarrow>
        if m = 0 then Inr (zero_bits fmt sign, 0) else round_binary fmt sign m e rnd))"

text \<open>Encodings to sequences.\<close>

definition exact_digits :: "int \<Rightarrow> int \<Rightarrow> string \<times> int" where
  "exact_digits m e =
    (let (txt, p10) = (if 0 \<le> e then (digits_from_int (push_bit (nat e) m), 0)
                       else (digits_from_int (m * 5 ^ nat (- e)), e))
     in (rstrip_zeros txt, int (length txt) - 1 + p10))"

definition round_digits :: "string \<Rightarrow> int \<Rightarrow> nat \<Rightarrow> int \<Rightarrow> int \<Rightarrow> string \<times> int \<times> bool" where
  "round_digits digits exp10 h sign rnd =
    (if length digits \<le> h then (digits @ replicate (h - length digits) (CHR ''0''), exp10, False) else
     let head = take h digits;
         dropped = digit_val (digits ! h);
         tail = list_ex (\<lambda>c. c \<noteq> CHR ''0'') (drop (h + 1) digits);
         guard = (if 5 \<le> dropped then 1 else 0);
         sticky = (if tail \<or> dropped \<noteq> 0 \<and> dropped \<noteq> 5 then 1 else 0)
     in if round_up rnd sign guard sticky (digit_val (last head) AND 1) then
          let carried = digits_from_int (int_from_digits head + 1) in
          if h < length carried then (take h carried, exp10 + 1, True) else (carried, exp10, True)
        else (head, exp10, True))"

definition format_finite :: "int \<Rightarrow> string \<Rightarrow> int \<Rightarrow> string" where
  "format_finite sign digits exp10 =
    (let body = (if length digits = 1 then take 1 digits else take 1 digits @ ''.'' @ drop 1 digits)
     in (if truthy sign then ''-'' else []) @ body @ ''e'' @ (if 0 \<le> exp10 then ''+'' else ''-'') @ digits_from_int \<bar>exp10\<bar>)"

definition special_text :: "fp_format \<Rightarrow> int \<Rightarrow> string option" where
  "special_text fmt bits =
    (let (kind, sign, m, e, payload, sgnl) = c_decode fmt bits; neg = (if truthy sign then ''-'' else []) in
     if kind = CInf then Some (neg @ ''inf'')
     else if kind = CNan then
       let word = (if truthy sgnl then ''snan'' else ''nan'') in
       Some (if truthy payload then neg @ word @ ''(0x'' @ hex_digits (nat payload) @ '')'' else neg @ word)
     else None)"

definition to_decimal :: "fp_format \<Rightarrow> int \<Rightarrow> int \<Rightarrow> int \<Rightarrow> (string \<times> int) result" where
  "to_decimal fmt bits digits rnd =
    bind_r (check_mode rnd) (\<lambda>_.
    if digits < 0 then Inl ValueError else
    case special_text fmt bits of Some t \<Rightarrow> Inr (t, 0)
    | None \<Rightarrow>
      let (kind, sign, m, e, _, _) = c_decode fmt bits in
      if kind = CZero then Inr (if truthy sign then ''-0'' else ''0'', 0) else
      let (ds, exp10) = exact_digits m e in
      if digits = 0 then Inr (format_finite sign ds exp10, 0)
      else let (ds, exp10, inexact) = round_digits ds exp10 (nat digits) sign rnd
      in Inr (format_finite sign ds exp10, if inexact then FLAG_INEXACT else 0))"

definition to_hex :: "fp_format \<Rightarrow> int \<Rightarrow> string" where
  "to_hex fmt bits =
    (case special_text fmt bits of Some t \<Rightarrow> t
     | None \<Rightarrow>
       let (kind, sign, m, e, _, _) = c_decode fmt bits; neg = (if truthy sign then ''-'' else []) in
       if kind = CZero then neg @ ''0x0p+0'' else
       let len = bit_length m; ex = e + len - 1; frac = m - push_bit (nat (len - 1)) 1; nib = (len + 2) div 4;
           txt = (if truthy nib then rstrip_zeros (zero_pad (nat nib) (hex_digits (nat (push_bit (nat (4 * nib - (len - 1))) frac)))) else [])
       in neg @ ''0x1'' @ (if txt \<noteq> [] then ''.'' @ txt else []) @ ''p'' @ (if 0 \<le> ex then ''+'' else ''-'') @ digits_from_int \<bar>ex\<bar>)"

text \<open>The payload operations of 9.7.\<close>

definition get_payload :: "fp_format \<Rightarrow> int \<Rightarrow> int result" where
  "get_payload fmt bits =
    (let (kind, _, _, _, payload, _) = c_decode fmt bits in
     if kind \<noteq> CNan then Inr (one_bits fmt 1)
     else if payload = 0 then Inr (zero_bits fmt 0)
     else bind_r (round_pack fmt 0 payload 0 RND_RNE) (\<lambda>(out, flags). if flags \<noteq> 0 then Inl AssertionError else Inr out))"

definition payload_operand :: "fp_format \<Rightarrow> int \<Rightarrow> int option" where
  "payload_operand fmt bits =
    (let (kind, sign, m, e, _, _) = c_decode fmt bits in
     if kind = CZero then Some 0
     else if kind \<noteq> CFinite \<or> truthy sign then None
     else if e < 0 \<and> (bit_length m \<le> - e \<or> truthy (m AND (push_bit (nat (- e)) 1 - 1))) then None
     else let v = (if e < 0 then drop_bit (nat (- e)) m else push_bit (nat e) m)
     in if max_payload fmt \<le> v then None else Some v)"

definition set_payload :: "fp_format \<Rightarrow> int \<Rightarrow> int result" where
  "set_payload fmt bits = (case payload_operand fmt bits of None \<Rightarrow> Inr (zero_bits fmt 0) | Some payload \<Rightarrow> nan_bits fmt 0 payload 0)"

definition set_payload_signaling :: "fp_format \<Rightarrow> int \<Rightarrow> int result" where
  "set_payload_signaling fmt bits =
    (case payload_operand fmt bits of None \<Rightarrow> Inr (zero_bits fmt 0)
     | Some payload \<Rightarrow> if \<not> truthy payload then Inr (zero_bits fmt 0) else nan_bits fmt 0 payload 1)"

end
