(* ===== verification/CharsRound.thy ===== *)
theory CharsRound
  imports Chars
begin

text \<open>
  Reading a sequence rounds once. The bounds on \<open>log2(10)\<close> the module carries are bounds, an answer from
  the bands is the answer the full computation gives, and so \<open>round_decimal\<close> and \<open>round_binary\<close> are the
  correctly rounded value of the sequence, flags included, whatever its length and its exponent.
\<close>

section \<open>The bounds on the logarithm of ten\<close>

lemma double_power: "(b :: real) ^ (2 * n + s) = b ^ s * (b ^ n * b ^ n)"
  by (simp add: power_add mult_2)

lemma square_lo:
  assumes "(m :: real) * 2 ^ e \<le> 5 ^ k" "0 \<le> m" "m' * 2 ^ s \<le> m * m" "e' = 2 * e + s" "k' = 2 * k"
  shows "m' * 2 ^ e' \<le> 5 ^ k'"
proof -
  have "m' * 2 ^ s * (2 ^ e * 2 ^ e) \<le> m * m * (2 ^ e * 2 ^ e)" using assms(3) by (intro mult_right_mono) simp_all
  also have "\<dots> = (m * 2 ^ e) * (m * 2 ^ e)" by simp
  also have "\<dots> \<le> 5 ^ k * 5 ^ k" using assms(1,2) by (intro mult_mono) simp_all
  finally show ?thesis unfolding assms(4,5) using double_power [of 2 e s] double_power [of 5 k 0] by simp
qed

lemma square_hi:
  assumes "5 ^ k \<le> (m :: real) * 2 ^ e" "m * m \<le> m' * 2 ^ s" "e' = 2 * e + s" "k' = 2 * k"
  shows "5 ^ k' \<le> m' * 2 ^ e'"
proof -
  have "(5 :: real) ^ k * 5 ^ k \<le> (m * 2 ^ e) * (m * 2 ^ e)"
    using assms(1) by (intro mult_mono) (simp_all add: order_trans [OF zero_le_power assms(1)])
  also have "\<dots> = m * m * (2 ^ e * 2 ^ e)" by simp
  also have "\<dots> \<le> m' * 2 ^ s * (2 ^ e * 2 ^ e)" using assms(2) by (intro mult_right_mono) simp_all
  finally show ?thesis unfolding assms(3,4) using double_power [of 2 e s] double_power [of 5 k 0] by simp
qed

lemma five_lo:
  assumes "(m :: real) * 2 ^ e \<le> 5 ^ k" "m' * 2 ^ s \<le> 5 * m" "e' = e + s" "k' = Suc k"
  shows "m' * 2 ^ e' \<le> 5 ^ k'"
proof -
  have "m' * 2 ^ s * 2 ^ e \<le> 5 * m * 2 ^ e" using assms(2) by (intro mult_right_mono) simp_all
  also have "\<dots> \<le> 5 ^ k'" using assms(1) by (simp add: assms(4))
  also have "m' * 2 ^ s * 2 ^ e = m' * 2 ^ e'" by (simp add: assms(3) power_add)
  finally show ?thesis .
qed

lemma five_hi:
  assumes "5 ^ k \<le> (m :: real) * 2 ^ e" "5 * m \<le> m' * 2 ^ s" "e' = e + s" "k' = Suc k"
  shows "5 ^ k' \<le> m' * 2 ^ e'"
proof -
  have "5 ^ k' \<le> 5 * m * 2 ^ e" using assms(1) by (simp add: assms(4))
  also have "\<dots> \<le> m' * 2 ^ s * 2 ^ e" using assms(2) by (intro mult_right_mono) simp_all
  also have "\<dots> = m' * 2 ^ e'" by (simp add: assms(3) power_add)
  finally show ?thesis .
qed

lemma pow_le_mult: "(2 :: real) ^ n \<le> m \<Longrightarrow> k = e + n \<Longrightarrow> 2 ^ k \<le> m * 2 ^ e"
  by (simp add: power_add)

lemma mult_le_pow: "m \<le> (2 :: real) ^ n \<Longrightarrow> k = e + n \<Longrightarrow> m * 2 ^ e \<le> 2 ^ k"
  by (simp add: power_add)

lemma five_pow_lo: "(2 :: real) ^ 9297 \<le> 5 ^ 4004"
proof -
  have "(25 :: real) * 2 ^ 0 \<le> 5 ^ 2" by simp
  then have "(125 :: real) * 2 ^ 0 \<le> 5 ^ 3" by (rule five_lo [where s = 0]) simp_all
  then have "(15625 :: real) * 2 ^ 0 \<le> 5 ^ 6" by (rule square_lo [where s = 0]) simp_all
  then have "(78125 :: real) * 2 ^ 0 \<le> 5 ^ 7" by (rule five_lo [where s = 0]) simp_all
  then have "(762939453 :: real) * 2 ^ 3 \<le> 5 ^ 14" by (rule square_lo [where s = 3]) simp_all
  then have "(953674316 :: real) * 2 ^ 5 \<le> 5 ^ 15" by (rule five_lo [where s = 2]) simp_all
  then have "(847032946 :: real) * 2 ^ 40 \<le> 5 ^ 30" by (rule square_lo [where s = 30]) simp_all
  then have "(1058791182 :: real) * 2 ^ 42 \<le> 5 ^ 31" by (rule five_lo [where s = 2]) simp_all
  then have "(1044048710 :: real) * 2 ^ 114 \<le> 5 ^ 62" by (rule square_lo [where s = 30]) simp_all
  then have "(1015176725 :: real) * 2 ^ 258 \<le> 5 ^ 124" by (rule square_lo [where s = 30]) simp_all
  then have "(634485453 :: real) * 2 ^ 261 \<le> 5 ^ 125" by (rule five_lo [where s = 3]) simp_all
  then have "(749848391 :: real) * 2 ^ 551 \<le> 5 ^ 250" by (rule square_lo [where s = 29]) simp_all
  then have "(1047314348 :: real) * 2 ^ 1131 \<le> 5 ^ 500" by (rule square_lo [where s = 29]) simp_all
  then have "(1021537318 :: real) * 2 ^ 2292 \<le> 5 ^ 1000" by (rule square_lo [where s = 30]) simp_all
  then have "(638460823 :: real) * 2 ^ 2295 \<le> 5 ^ 1001" by (rule five_lo [where s = 3]) simp_all
  then have "(759274181 :: real) * 2 ^ 4619 \<le> 5 ^ 2002" by (rule square_lo [where s = 29]) simp_all
  then have "(536904932 :: real) * 2 ^ 9268 \<le> 5 ^ 4004" by (rule square_lo [where s = 30]) simp_all
  moreover have "(2 :: real) ^ 9297 \<le> 536904932 * 2 ^ 9268" by (rule pow_le_mult [where n = 29]) simp_all
  ultimately show ?thesis by (rule order_trans [rotated])
qed

lemma five_pow_hi: "(5 :: real) ^ 643 \<le> 2 ^ 1493"
proof -
  have "(5 :: real) ^ 2 \<le> 25 * 2 ^ 0" by simp
  then have "(5 :: real) ^ 4 \<le> 625 * 2 ^ 0" by (rule square_hi [where s = 0]) simp_all
  then have "(5 :: real) ^ 5 \<le> 3125 * 2 ^ 0" by (rule five_hi [where s = 0]) simp_all
  then have "(5 :: real) ^ 10 \<le> 9765625 * 2 ^ 0" by (rule square_hi [where s = 0]) simp_all
  then have "(5 :: real) ^ 20 \<le> 727595762 * 2 ^ 17" by (rule square_hi [where s = 17]) simp_all
  then have "(5 :: real) ^ 40 \<le> 986076134 * 2 ^ 63" by (rule square_hi [where s = 29]) simp_all
  then have "(5 :: real) ^ 80 \<le> 905567913 * 2 ^ 156" by (rule square_hi [where s = 30]) simp_all
  then have "(5 :: real) ^ 160 \<le> 763734100 * 2 ^ 342" by (rule square_hi [where s = 30]) simp_all
  then have "(5 :: real) ^ 320 \<le> 543230936 * 2 ^ 714" by (rule square_hi [where s = 30]) simp_all
  then have "(5 :: real) ^ 321 \<le> 679038670 * 2 ^ 716" by (rule five_hi [where s = 2]) simp_all
  then have "(5 :: real) ^ 642 \<le> 858853600 * 2 ^ 1461" by (rule square_hi [where s = 29]) simp_all
  then have "(5 :: real) ^ 643 \<le> 1073567000 * 2 ^ 1463" by (rule five_hi [where s = 2]) simp_all
  moreover have "1073567000 * 2 ^ 1463 \<le> (2 :: real) ^ 1493" by (rule mult_le_pow [where n = 30]) simp_all
  ultimately show ?thesis by (rule order_trans)
qed

text \<open>\<open>13301/4004 \<le> log2(10) \<le> 2136/643\<close>, and the module's two constants are outside that interval.\<close>

lemma ten_power: "(10 :: real) ^ k = 2 ^ k * 5 ^ k"
  by (simp add: power_mult_distrib [symmetric])

lemma log_ten_ge:
  assumes "(2 :: real) ^ m \<le> 5 ^ k" "0 < k" shows "real (k + m) / real k \<le> log 2 10"
proof -
  have "(2 :: real) ^ (k + m) \<le> 10 ^ k" unfolding ten_power power_add by (intro mult_left_mono assms(1)) simp
  then have "log 2 (2 ^ (k + m)) \<le> log 2 (10 ^ k)" by (subst log_le_cancel_iff) simp_all
  then show ?thesis using assms(2) by (simp add: log_nat_power pos_divide_le_eq mult.commute del: of_nat_add)
qed

lemma log_ten_le:
  assumes "(5 :: real) ^ k \<le> 2 ^ m" "0 < k" shows "log 2 10 \<le> real (k + m) / real k"
proof -
  have "(10 :: real) ^ k \<le> 2 ^ (k + m)" unfolding ten_power power_add by (intro mult_left_mono assms(1)) simp
  then have "log 2 (10 ^ k) \<le> log 2 (2 ^ (k + m))" by (subst log_le_cancel_iff) simp_all
  then show ?thesis using assms(2) by (simp add: log_nat_power pos_le_divide_eq mult.commute del: of_nat_add)
qed

lemma log2_10: "of_int L10_LO / of_int L10_DEN \<le> log 2 10" "log 2 10 \<le> of_int L10_HI / of_int L10_DEN"
  using log_ten_ge [OF five_pow_lo] log_ten_le [OF five_pow_hi] by (simp_all add: L10_LO_def L10_HI_def L10_DEN_def)

lemma floor_quotient: "of_int (a div L10_DEN) \<le> (of_int a / of_int L10_DEN :: real)"
proof -
  have "real_of_int (a div L10_DEN) = of_int \<lfloor>of_int a / of_int L10_DEN :: real\<rfloor>"
    by (simp only: floor_divide_of_int_eq)
  then show ?thesis by (simp only: of_int_floor_le)
qed

lemma ceil_quotient: "(of_int a / of_int L10_DEN :: real) \<le> of_int (- (- a div L10_DEN))"
  using floor_quotient [of "- a"] by simp

lemma bounds_of_multiple:
  assumes "log2_10_bounds t = (lo, hi)"
  shows "of_int lo \<le> of_int t * log 2 10" "of_int t * log 2 10 \<le> of_int hi"
proof -
  note l = log2_10 [simplified of_int_eq_iff]
  have m: "of_int (t * c) / of_int L10_DEN = (of_int t * (of_int c / of_int L10_DEN) :: real)" for c by simp
  have up: "of_int t * (of_int L10_LO / of_int L10_DEN) \<le> of_int t * log 2 10"
    "of_int t * log 2 10 \<le> of_int t * (of_int L10_HI / of_int L10_DEN)" if "0 \<le> t"
    using l that by (intro mult_left_mono; simp)+
  have down: "of_int t * (of_int L10_HI / of_int L10_DEN) \<le> of_int t * log 2 10"
    "of_int t * log 2 10 \<le> of_int t * (of_int L10_LO / of_int L10_DEN)" if "t < 0"
    using l that by (intro mult_left_mono_neg; simp)+
  note f = floor_quotient [of "t * L10_LO"] floor_quotient [of "t * L10_HI"]
    ceil_quotient [of "t * L10_LO"] ceil_quotient [of "t * L10_HI"]
  have lh: "lo = (if 0 \<le> t then t * L10_LO div L10_DEN else t * L10_HI div L10_DEN)"
    "hi = - (- (t * (if 0 \<le> t then L10_HI else L10_LO)) div L10_DEN)"
    using assms by (simp_all add: log2_10_bounds_def split: if_splits)
  have c: "0 \<le> t \<or> t < 0" by linarith
  show "of_int lo \<le> of_int t * log 2 10"
    using c f(1,2) [unfolded m] up(1) down(1) unfolding lh by (auto intro: order_trans)
  show "of_int t * log 2 10 \<le> of_int hi"
    using c f(3,4) [unfolded m] up(2) down(2) unfolding lh by (auto intro: order_trans)
qed

lemma p2_log: "p2 n \<le> 10 powi t \<longleftrightarrow> of_int n \<le> of_int t * log 2 10" "10 powi t \<le> p2 n \<longleftrightarrow> of_int t * log 2 10 \<le> of_int n"
proof -
  have t: "log 2 (10 powi t) = of_int t * log 2 10" by (simp add: powr_real_of_int' [symmetric] log_powr)
  have n: "log 2 (p2 n) = of_int n" by (simp add: powr_real_of_int' [symmetric] log_powr)
  show "p2 n \<le> 10 powi t \<longleftrightarrow> of_int n \<le> of_int t * log 2 10"
    unfolding t [symmetric] n [symmetric] by (subst log_le_cancel_iff) simp_all
  show "10 powi t \<le> p2 n \<longleftrightarrow> of_int t * log 2 10 \<le> of_int n"
    unfolding t [symmetric] n [symmetric] by (subst log_le_cancel_iff) simp_all
qed

lemma bounds_hold:
  assumes "log2_10_bounds t = (lo, hi)" shows "p2 lo \<le> 10 powi t" "10 powi t \<le> p2 hi"
  using bounds_of_multiple [OF assms] by (simp_all add: p2_log)

section \<open>The two bands\<close>

text \<open>Every value past the largest binade rounds alike, and so does every value below half the smallest subnormal.\<close>

lemma band_above:
  assumes wf: "wf_fmt fmt" and x: "p2 (emax fmt + 1) \<le> x" and y: "p2 (emax fmt + 1) \<le> y"
  shows "round_real fmt rnd s x = round_real fmt rnd s y"
proof -
  have "inf_mag fmt \<le> rmag fmt rnd s z" if "p2 (emax fmt + 1) \<le> z" for z
  proof -
    have "rmag fmt rnd s (mag_val fmt (inf_mag fmt)) = inf_mag fmt"
      using inf_mag_pos [OF wf] by (intro rmag_exact) (simp_all add: mag_val_inf_mag [OF wf])
    then show ?thesis
      using rmag_mono [of "mag_val fmt (inf_mag fmt)" z fmt rnd s] that by (simp add: mag_val_inf_mag [OF wf])
  qed
  from this [OF x] this [OF y] show ?thesis by (simp add: round_real_def)
qed

lemma p2_window: "p2 (u + int n + 1) = of_int (2 ^ (n + 1)) * p2 u"
  by (simp add: p2_succ p2_add)

lemma band_below:
  assumes wf: "wf_fmt fmt" and x: "0 < x" "x < p2 (qmin fmt - 1)" and y: "0 < y" "y < p2 (qmin fmt - 1)"
  shows "round_real fmt rnd s x = round_real fmt rnd s y"
proof -
  have one: "rq fmt z = qmin fmt \<and> 0 < z / p2 (qmin fmt) \<and> z / p2 (qmin fmt) < 1/2 \<and> inexact fmt z \<and> tiny fmt rnd s z"
    if z: "0 < z" "z < p2 (qmin fmt - 1)" for z
  proof -
    have il: "ilog2 z < qmin fmt - 1" using ilog2_ge_iff [OF z(1), of "qmin fmt - 1"] z(2) by linarith
    then have q: "rq fmt z = qmin fmt" by (simp add: rq_def qmin_def)
    have r: "0 < z / p2 (qmin fmt)" "z / p2 (qmin fmt) < 1/2"
      using z by (simp_all add: p2_pred pos_divide_less_eq)
    have "z / p2 (qmin fmt) \<noteq> of_int k" for k
    proof
      assume "z / p2 (qmin fmt) = of_int k"
      with r have "0 < (of_int k :: real)" "(of_int k :: real) < 1" by simp_all
      then have "0 < k" "k < 1" by simp_all
      then show False by simp
    qed
    then have "z / p2 (qmin fmt) \<notin> \<int>" by (metis Ints_cases)
    moreover have "tiny fmt rnd s z"
    proof -
      let ?u = "ilog2 z - int (man_w fmt)"
      have "z < p2 (ilog2 z + 1)" by (rule ilog2_bounds [OF z(1)])
      also have "\<dots> = p2 (?u + int (man_w fmt) + 1)" by simp
      also have "\<dots> = of_int (2 ^ (man_w fmt + 1)) * p2 ?u" by (rule p2_window)
      finally have "z / p2 ?u \<le> of_int (2 ^ (man_w fmt + 1))" by (simp add: pos_divide_le_eq)
      then have "rint rnd s (z / p2 ?u) \<le> 2 ^ (man_w fmt + 1)" by (rule rint_le)
      then have "unbounded fmt rnd s z \<le> of_int (2 ^ (man_w fmt + 1)) * p2 ?u"
        unfolding unbounded_def by (intro mult_right_mono) (simp_all only: of_int_le_iff, simp)
      also have "\<dots> = p2 (?u + int (man_w fmt) + 1)" by (rule p2_window [symmetric])
      also have "\<dots> < p2 (emin fmt)" using il by (simp add: qmin_def)
      finally show ?thesis by (simp add: tiny_def)
    qed
    ultimately show ?thesis using q r by (simp add: inexact_def)
  qed
  note a = one [OF x] and b = one [OF y]
  have "rint rnd s (x / p2 (qmin fmt)) = rint rnd s (y / p2 (qmin fmt))"
  proof (rule rint_cong)
    fix j :: int
    have "z < of_int j / 2 \<longleftrightarrow> 0 < j" "z \<noteq> of_int j / 2" if "0 < z" "z < 1/2" for z :: real
    proof -
      have "(of_int j :: real) \<le> 0 \<or> 1 \<le> (of_int j :: real)" by (cases "j \<le> 0") simp_all
      then show "z < of_int j / 2 \<longleftrightarrow> 0 < j" "z \<noteq> of_int j / 2" using that by auto
    qed
    then show "x / p2 (qmin fmt) < of_int j / 2 \<longleftrightarrow> y / p2 (qmin fmt) < of_int j / 2"
      "x / p2 (qmin fmt) = of_int j / 2 \<longleftrightarrow> y / p2 (qmin fmt) = of_int j / 2" using a b by blast+
  qed
  then have "rmag fmt rnd s x = rmag fmt rnd s y" using a b by (simp add: rmag_def rk_def)
  then show ?thesis using a b by (simp add: round_real_def)
qed

section \<open>Rounding an exact rational\<close>

lemma bit_length_shift: "0 < m \<Longrightarrow> bit_length (m * 2 ^ n) = bit_length m + int n"
  using ilog2_value [of m "int n"] ilog2_of_int [of "m * 2 ^ n"] by simp

lemma window_quotient:
  assumes "0 < num" "0 < den" "q = bit_length num - bit_length den - (prec fmt + WINDOW)"
  shows "2 ^ (man_w fmt + 3) \<le> num * 2 ^ nat (- q) div (den * 2 ^ nat q)"
  using assms by (intro quotient_long) (simp_all add: bit_length_shift prec_def WINDOW_def)

lemma div_mod_real: "d \<noteq> 0 \<Longrightarrow> of_int (n div d) + of_int (n mod d) / of_int d = (of_int n / of_int d :: real)"
proof -
  assume d: "d \<noteq> 0"
  have "(of_int n :: real) = of_int (n div d) * of_int d + of_int (n mod d)"
    unfolding of_int_mult [symmetric] of_int_add [symmetric] by (simp only: div_mult_mod_eq)
  then show ?thesis using d by (simp add: add_divide_distrib)
qed

lemma shifted_ratio: "of_int (num * 2 ^ nat (- q)) / of_int (den * 2 ^ nat q) * p2 q = (of_int num / of_int den :: real)"
proof (cases "0 \<le> q")
  case True
  then show ?thesis by (simp add: p2_nat)
next
  case False
  then have "p2 q = 1 / 2 ^ nat (- q)" by (simp add: power_int_def inverse_eq_divide power_one_over)
  with False show ?thesis by simp
qed

lemma quotient_value:
  "0 < den \<Longrightarrow> of_int num / of_int den = (of_int (num * 2 ^ nat (- q) div (den * 2 ^ nat q))
    + of_int (num * 2 ^ nat (- q) mod (den * 2 ^ nat q)) / of_int (den * 2 ^ nat q)) * p2 q"
  by (subst div_mod_real) (simp_all only: shifted_ratio, simp)

lemma round_rational_refines:
  assumes wf: "wf_fmt fmt" and pos: "0 < num" "0 < den" and dir: "valid_dir rnd"
  shows "round_rational fmt s num den rnd = Inr (round_real fmt rnd s (of_int num / of_int den))"
proof -
  define q where "q = bit_length num - bit_length den - (prec fmt + WINDOW)"
  let ?d = "den * 2 ^ nat q"
  let ?m = "num * 2 ^ nat (- q) div ?d" and ?r = "num * 2 ^ nat (- q) mod ?d"
  have ml: "2 ^ (man_w fmt + 3) \<le> ?m" by (rule window_quotient [OF pos q_def])
  then have m: "prec fmt + WINDOW \<le> bit_length ?m" "0 < ?m"
    using bit_length_ge_pow [OF ml] zero_less_power [of "2::int" "man_w fmt + 3"]
    by (simp add: prec_def WINDOW_def, linarith)
  have f: "0 \<le> of_int ?r / (of_int ?d :: real)" "of_int ?r / (of_int ?d :: real) < 1"
    using pos by (simp_all del: of_int_mult)
  have nz: "of_int ?r / (of_int ?d :: real) \<noteq> 0 \<longleftrightarrow> ?r \<noteq> 0" using pos by simp
  have "round_rational fmt s num den rnd =
      (if ?r \<noteq> 0 then round_pack fmt s (2 * ?m + 1) (q - 1) rnd else round_pack fmt s ?m q rnd)"
  proof (cases "0 \<le> q")
    case True
    with m(1) pos show ?thesis unfolding round_rational_def Let_def q_def [symmetric]
      by (simp add: push_bit_eq_mult)
  next
    case False
    with m(1) pos show ?thesis unfolding round_rational_def Let_def q_def [symmetric]
      by (simp add: push_bit_eq_mult)
  qed
  also have "\<dots> = Inr (round_real fmt rnd s (of_int (fold_sticky ?m (?r \<noteq> 0)) * p2 (q - 1)))"
    using m(2) by (simp add: round_pack_refines [OF wf _ dir] fold_sticky_eq p2_pred)
  also have "\<dots> = Inr (round_real fmt rnd s (of_int num / of_int den))"
    unfolding quotient_value [OF pos(2), of num q]
    using fold_sticky_round [OF _ m(2) f, of fmt rnd s q] m(1) nz by (simp add: WINDOW_def)
  finally show ?thesis .
qed

section \<open>Reading a sequence\<close>

text \<open>A band's answer is the answer of any value in it.\<close>

lemma band_value:
  assumes "p2 (n - prec fmt) = u" "0 < u"
  shows "p2 n \<le> of_int (2 ^ nat (prec fmt + WINDOW) + 1) * p2 (n - (prec fmt + WINDOW))"
    "of_int (2 ^ nat (prec fmt + WINDOW) + 1) * p2 (n - (prec fmt + WINDOW)) < p2 (n + 1)"
proof -
  let ?w = "prec fmt + WINDOW"
  have w: "0 < ?w" using prec_pos [of fmt] unfolding WINDOW_def by linarith
  have "p2 n = 2 ^ nat ?w * p2 (n - ?w)" using w by (simp add: p2_diff p2_nat [symmetric])
  moreover have "(2::int) ^ nat ?w + 1 < 2 * 2 ^ nat ?w" using w by (simp add: one_less_power)
  then have "(of_int (2 ^ nat ?w + 1) :: real) < of_int (2 * 2 ^ nat ?w)" by (simp only: of_int_less_iff)
  ultimately show "p2 n \<le> of_int (2 ^ nat ?w + 1) * p2 (n - ?w)"
    "of_int (2 ^ nat ?w + 1) * p2 (n - ?w) < p2 (n + 1)"
    by (simp_all add: p2_succ distrib_right)
qed

lemma clamped_round_refines:
  assumes wf: "wf_fmt fmt" and dir: "valid_dir rnd" and x: "p2 e_lo \<le> x" "x < p2 (e_hi + 1)"
  shows "clamped_round fmt s e_lo e_hi rnd \<in> {Inr (Some (round_real fmt rnd s x)), Inr None}"
proof -
  let ?w = "prec fmt + WINDOW"
  let ?y = "\<lambda>n. of_int (2 ^ nat ?w + 1) * p2 (n - ?w)"
  have x0: "0 < x" using x(1) p2_pos [of e_lo] by linarith
  have m: "0 < (2::int) ^ nat ?w + 1" by (simp add: add_pos_pos)
  note rp = round_pack_refines [OF wf m dir]
  have qm: "emin fmt - int (man_w fmt) - 2 = qmin fmt - 2" by (simp add: qmin_def)
  have y: "p2 n \<le> ?y n" "?y n < p2 (n + 1)" for n using band_value [OF refl p2_pos] by blast+
  have hi: "round_real fmt rnd s (?y (emax fmt + 1)) = round_real fmt rnd s x" if "emax fmt + 1 < e_lo"
  proof (rule band_above [OF wf y(1)])
    have "p2 (emax fmt + 1) \<le> p2 e_lo" using that by (simp only: p2_mono_iff)
    then show "p2 (emax fmt + 1) \<le> x" using x(1) by linarith
  qed
  have lo: "round_real fmt rnd s (?y (qmin fmt - 2)) = round_real fmt rnd s x" if "e_hi \<le> qmin fmt - 2"
  proof (rule band_below [OF wf])
    show "0 < ?y (qmin fmt - 2)" using y(1) [of "qmin fmt - 2"] p2_pos [of "qmin fmt - 2"] by linarith
    show "?y (qmin fmt - 2) < p2 (qmin fmt - 1)" using y(2) [of "qmin fmt - 2"] by simp
    have "p2 (e_hi + 1) \<le> p2 (qmin fmt - 1)" using that by (simp only: p2_mono_iff)
    then show "x < p2 (qmin fmt - 1)" using x(2) by linarith
  qed (rule x0)
  show ?thesis
    using hi lo unfolding clamped_round_def Let_def push_bit_eq_mult mult_1 rp bind_r_simps qm by simp
qed

lemma clamped_bind:
  assumes "wf_fmt fmt" "valid_dir rnd" "p2 e_lo \<le> x" "x < p2 (e_hi + 1)"
    and "f None = Inr (round_real fmt rnd s x)" "\<And>r. f (Some r) = Inr r"
  shows "bind_r (clamped_round fmt s e_lo e_hi rnd) f = Inr (round_real fmt rnd s x)"
  using clamped_round_refines [OF assms(1-4), of s] assms(5) assms(6) [of "round_real fmt rnd s x"]
  by (elim insertE emptyE) (simp_all only: bind_r_simps)

lemma round_binary_refines:
  assumes wf: "wf_fmt fmt" and dir: "valid_dir rnd" and m: "0 < m"
  shows "round_binary fmt s m e rnd = Inr (round_real fmt rnd s (of_int m * p2 e))"
proof -
  have x: "0 < of_int m * p2 e" using m by simp
  have "p2 (e + bit_length m - 1) \<le> of_int m * p2 e" "of_int m * p2 e < p2 (e + bit_length m - 1 + 1)"
    using ilog2_bounds [OF x] by (simp_all add: ilog2_value [OF m] algebra_simps)
  then show ?thesis
    unfolding round_binary_def Let_def
    by (rule clamped_bind [OF wf dir]) (simp_all add: round_pack_refines [OF wf m dir])
qed

lemma round_decimal_refines:
  assumes wf: "wf_fmt fmt" and dir: "valid_dir rnd" and d: "0 < digits"
  shows "round_decimal fmt s digits k rnd = Inr (round_real fmt rnd s (of_int digits * 10 powi k))"
proof -
  obtain lo hi where b: "log2_10_bounds k = (lo, hi)" by (cases "log2_10_bounds k")
  let ?b = "bit_length digits"
  have x: "0 < (of_int digits :: real)" using d by simp
  have db: "p2 (?b - 1) \<le> of_int digits" "of_int digits < p2 ?b"
    using ilog2_bounds [OF x] by (simp_all add: ilog2_of_int [OF d])
  have t: "0 < (10 :: real) powi k" by simp
  have "p2 (?b - 2 + lo) \<le> p2 (?b - 1) * p2 lo" by (simp add: p2_add [symmetric])
  also have "\<dots> \<le> of_int digits * 10 powi k" using db(1) bounds_hold(1) [OF b] x by (intro mult_mono) simp_all
  finally have l: "p2 (?b - 2 + lo) \<le> of_int digits * 10 powi k" .
  have "of_int digits * 10 powi k < p2 ?b * 10 powi k" using db(2) t by (intro mult_strict_right_mono)
  also have "\<dots> \<le> p2 ?b * p2 hi" using bounds_hold(2) [OF b] by (intro mult_left_mono) simp_all
  also have "\<dots> \<le> p2 (?b + hi + 1)" by (simp add: p2_add [symmetric])
  finally have h: "of_int digits * 10 powi k < p2 (?b + hi + 1)" .
  show ?thesis
    unfolding round_decimal_def Let_def b prod.case
  proof (rule clamped_bind [OF wf dir l h])
    have "(of_int digits / of_int (10 ^ nat (- k)) :: real) = of_int digits * 10 powi k" if "\<not> 0 \<le> k"
      using that by (simp add: power_int_def power_one_over inverse_eq_divide)
    moreover have "of_int (digits * 10 ^ nat k) / of_int 1 = (of_int digits * 10 powi k :: real)" if "0 \<le> k"
      using that by (simp add: power_int_def)
    ultimately show "(case None of None \<Rightarrow> if 0 \<le> k then round_rational fmt s (digits * 10 ^ nat k) 1 rnd
        else round_rational fmt s digits (10 ^ nat (- k)) rnd | Some r \<Rightarrow> Inr r)
      = Inr (round_real fmt rnd s (of_int digits * 10 powi k))"
      using d by (auto simp: round_rational_refines [OF wf _ _ dir])
  qed simp
qed

end
