(* ===== verification/CharsText.thy ===== *)
theory CharsText
  imports CharsRound
begin

text \<open>
  The text layer of the character sequences: digit strings and the integers they spell, the trailing
  zeros, and the lexer on a sequence of the written form. Every sequence the module writes is of that form.
\<close>

section \<open>Digits\<close>

lemma digit_facts:
  assumes "c \<in> set DIGITS"
  shows "c \<noteq> CHR ''-''" "c \<noteq> CHR ''+''" "c \<noteq> CHR ''.''" "c \<noteq> CHR '')''" "lower_char c = c" "c \<in> set HEXDIGITS"
    "0 \<le> digit_val c" "digit_val c < 10" "c \<noteq> CHR ''i''" "c \<noteq> CHR ''n''" "c \<noteq> CHR ''s''"
  using assms by (auto simp: DIGITS_def HEXDIGITS_def lower_char_def digit_val_def)

lemma hex_facts:
  assumes "c \<in> set HEXDIGITS"
  shows "c \<noteq> CHR ''-''" "c \<noteq> CHR ''+''" "c \<noteq> CHR ''.''" "c \<noteq> CHR '')''" "c \<noteq> CHR ''p''" "c \<noteq> CHR ''P''"
    "0 \<le> digit_val c" "digit_val c < 16"
  using assms by (auto simp: HEXDIGITS_def digit_val_def)

lemma non_digits [simp]:
  "CHR ''e'' \<notin> set DIGITS" "CHR ''p'' \<notin> set HEXDIGITS" "CHR ''.'' \<notin> set DIGITS" "CHR ''.'' \<notin> set HEXDIGITS"
  "CHR ''0'' \<in> set DIGITS" "CHR ''0'' \<in> set HEXDIGITS" "CHR ''1'' \<in> set HEXDIGITS"
  by (simp_all add: DIGITS_def HEXDIGITS_def)

lemma digit_val_zero [simp]: "digit_val (CHR ''0'') = 0" "digit_val (CHR ''1'') = 1"
  by (simp_all add: digit_val_def)

lemma DIGITS_codes: "DIGITS = map char_of [48..<(58::nat)]"
  by code_simp

lemma HEXDIGITS_codes: "HEXDIGITS = map char_of ([48..<(58::nat)] @ [97..<103] @ [65..<71])"
  by code_simp

lemma char_of_zero: "CHR ''0'' = char_of (48::nat)"
  by code_simp

lemma of_char_small: "n < 256 \<Longrightarrow> of_char (char_of n :: char) = (n :: nat)"
  by simp

lemma char_of_small_eq: "n < 256 \<Longrightarrow> m < 256 \<Longrightarrow> (char_of n :: char) = char_of m \<longleftrightarrow> n = (m :: nat)"
  by (metis of_char_small)

lemma decimal_digit:
  assumes "d < 10" shows "char_of (48 + d) \<in> set DIGITS" "digit_val (char_of (48 + d)) = int d"
    "char_of (48 + d) = CHR ''0'' \<longleftrightarrow> d = 0"
proof -
  have "48 + d \<in> {48..<58}" using assms by simp
  then show "char_of (48 + d) \<in> set DIGITS" unfolding DIGITS_codes set_map set_upt by (rule imageI)
  show "digit_val (char_of (48 + d)) = int d" using assms by (simp add: digit_val_def)
  show "char_of (48 + d) = CHR ''0'' \<longleftrightarrow> d = 0" unfolding char_of_zero using assms by (subst char_of_small_eq) simp_all
qed

lemma hex_digit_facts:
  assumes "d < 16" shows "hex_digit d \<in> set HEXDIGITS" "digit_val (hex_digit d) = int d" "hex_digit d = CHR ''0'' \<longleftrightarrow> d = 0"
proof -
  define n where "n = (if d < 10 then 48 + d else 87 + d)"
  have h: "hex_digit d = char_of n" by (simp add: hex_digit_def n_def)
  have "n \<in> {48..<58} \<union> {97..<103} \<union> {65..<71}" using assms by (simp add: n_def)
  then show "hex_digit d \<in> set HEXDIGITS" unfolding HEXDIGITS_codes set_map set_upt set_append h by (intro imageI) blast
  show "digit_val (hex_digit d) = int d" using assms by (simp add: h digit_val_def n_def)
  show "hex_digit d = CHR ''0'' \<longleftrightarrow> d = 0"
    unfolding char_of_zero h using assms by (subst char_of_small_eq) (simp_all add: n_def)
qed

section \<open>The integer a digit string spells\<close>

lemma int_of_Nil [simp]: "int_of b [] = 0"
  by (simp add: int_of_def)

lemma int_of_snoc: "int_of b (xs @ [c]) = b * int_of b xs + digit_val c"
  by (simp add: int_of_def)

lemma int_of_append: "int_of b (xs @ ys) = int_of b xs * b ^ length ys + int_of b ys"
  by (induction ys rule: rev_induct) (simp_all add: int_of_snoc append_assoc [symmetric] algebra_simps del: append_assoc)

lemma int_of_single [simp]: "int_of b [c] = digit_val c"
  by (simp add: int_of_def)

lemma int_of_zeros [simp]: "int_of b (replicate n (CHR ''0'')) = 0"
  by (induction n) (simp_all add: int_of_append [of b "[CHR ''0'']", simplified])

lemma int_of_Cons: "int_of b (c # ys) = digit_val c * b ^ length ys + int_of b ys"
  using int_of_append [of b "[c]" ys] by simp

lemma int_of_bounds:
  assumes "\<And>c. c \<in> set xs \<Longrightarrow> 0 \<le> digit_val c \<and> digit_val c < b" "0 < b"
  shows "0 \<le> int_of b xs \<and> int_of b xs < b ^ length xs"
  using assms
proof (induction xs)
  case (Cons c xs)
  then have "0 \<le> int_of b xs" "int_of b xs < b ^ length xs" "0 \<le> digit_val c" "digit_val c < b" by auto
  moreover from this(4) have "(digit_val c + 1) * b ^ length xs \<le> b * b ^ length xs" using Cons.prems(2) by (intro mult_right_mono) simp_all
  ultimately show ?case using Cons.prems(2) by (simp add: int_of_Cons distrib_right)
qed simp

lemma div_mod_int: "int a * int (n div a) + int (n mod a) = int n"
  by (metis mult_div_mod_eq of_nat_add of_nat_mult)

lemmas div_mod_base = div_mod_int [of 10, simplified] div_mod_int [of 16, simplified]

lemma py_digits_facts:
  "set (py_digits n) \<subseteq> set DIGITS" "int_of 10 (py_digits n) = int n" "py_digits n \<noteq> []"
  "0 < n \<Longrightarrow> hd (py_digits n) \<noteq> CHR ''0''"
proof (induction n rule: py_digits.induct)
  case (1 n)
  note s = py_digits.simps [of n]
  { case 1 show ?case using "1.IH"(1) decimal_digit(1) [of n] decimal_digit(1) [of "n mod 10"] by (cases "n < 10") (simp_all add: s) }
  { case 2 show ?case using "1.IH"(2) decimal_digit(2) [of n] decimal_digit(2) [of "n mod 10"]
      by (cases "n < 10") (simp_all add: s int_of_snoc div_mod_base) }
  { case 3 show ?case by (simp add: s) }
  { case 4 then show ?case using "1.IH"(3,4) decimal_digit(3) [of n] by (cases "n < 10") (simp_all add: s hd_append) }
qed

lemma hex_digits_facts:
  "set (hex_digits n) \<subseteq> set HEXDIGITS" "int_of 16 (hex_digits n) = int n" "hex_digits n \<noteq> []"
  "0 < n \<Longrightarrow> hd (hex_digits n) \<noteq> CHR ''0''"
proof (induction n rule: hex_digits.induct)
  case (1 n)
  note s = hex_digits.simps [of n]
  { case 1 show ?case using "1.IH"(1) hex_digit_facts(1) [of n] hex_digit_facts(1) [of "n mod 16"] by (cases "n < 16") (simp_all add: s) }
  { case 2 show ?case using "1.IH"(2) hex_digit_facts(2) [of n] hex_digit_facts(2) [of "n mod 16"]
      by (cases "n < 16") (simp_all add: s int_of_snoc div_mod_base) }
  { case 3 show ?case by (simp add: s) }
  { case 4 then show ?case using "1.IH"(3,4) hex_digit_facts(3) [of n] by (cases "n < 16") (simp_all add: s hd_append) }
qed

section \<open>Trailing zeros\<close>

lemma rstrip_split: "\<exists>j. s = rstrip_zeros s @ replicate j (CHR ''0'')"
proof -
  let ?z = "takeWhile (\<lambda>c. c = CHR ''0'') (rev s)"
  have "rev s = ?z @ dropWhile (\<lambda>c. c = CHR ''0'') (rev s)" by (rule takeWhile_dropWhile_id [symmetric])
  then have "rev (rev s) = rev (?z @ dropWhile (\<lambda>c. c = CHR ''0'') (rev s))" by (rule arg_cong)
  then have "s = rstrip_zeros s @ rev ?z" by (simp only: rev_append rev_rev_ident rstrip_zeros_def)
  moreover have "?z = replicate (length ?z) (CHR ''0'')"
    by (rule replicate_length_same [symmetric]) (auto dest: set_takeWhileD)
  ultimately show ?thesis by (metis rev_replicate)
qed

lemma rstrip_set: "set (rstrip_zeros s) \<subseteq> set s"
  using rstrip_split [of s] by (metis set_append Un_upper1)

lemma rstrip_nonempty: "s \<noteq> [] \<Longrightarrow> hd s \<noteq> CHR ''0'' \<Longrightarrow> rstrip_zeros s \<noteq> [] \<and> hd (rstrip_zeros s) = hd s"
proof -
  assume s: "s \<noteq> []" "hd s \<noteq> CHR ''0''"
  obtain j where j: "s = rstrip_zeros s @ replicate j (CHR ''0'')" using rstrip_split by blast
  have "rstrip_zeros s \<noteq> []"
  proof
    assume "rstrip_zeros s = []"
    with j have "s = replicate j (CHR ''0'')" by simp
    with s show False by (cases j) auto
  qed
  then show ?thesis using j by (metis hd_append2)
qed

lemma rstrip_value: "int_of b s = int_of b (rstrip_zeros s) * b ^ (length s - length (rstrip_zeros s))"
proof -
  obtain j where j: "s = rstrip_zeros s @ replicate j (CHR ''0'')" using rstrip_split by blast
  then have "length s = length (rstrip_zeros s) + j" by (metis length_append length_replicate)
  moreover have "int_of b s = int_of b (rstrip_zeros s) * b ^ j"
    by (subst j) (simp add: int_of_append)
  ultimately show ?thesis by simp
qed

lemma rstrip_length: "length (rstrip_zeros s) \<le> length s"
  using rstrip_split [of s] by (metis le_add1 length_append)

section \<open>The lexer on a written sequence\<close>

definition sign_text :: "int \<Rightarrow> string" where "sign_text s = (if truthy s then ''-'' else [])"
definition exp_text :: "int \<Rightarrow> string" where "exp_text x = (if 0 \<le> x then ''+'' else ''-'') @ digits_from_int \<bar>x\<bar>"
definition frac_text :: "string \<Rightarrow> string" where "frac_text fp = (if fp = [] then [] else ''.'' @ fp)"

lemma split_sign_text:
  assumes "s = 0 \<or> s = 1" "body \<noteq> []" "hd body \<noteq> CHR ''-''" "hd body \<noteq> CHR ''+''"
  shows "split_sign (sign_text s @ body) = (s, body)"
  using assms by (cases body) (auto simp: sign_text_def)

lemma digits_from_int_facts:
  "set (digits_from_int n) \<subseteq> set DIGITS" "digits_from_int n \<noteq> []" "0 \<le> n \<Longrightarrow> int_from_digits (digits_from_int n) = n"
  "0 < n \<Longrightarrow> hd (digits_from_int n) \<noteq> CHR ''0''"
  using py_digits_facts [of "nat n"] by (simp_all add: digits_from_int_def int_from_digits_def)

lemma no_stray: "set xs \<subseteq> set D \<Longrightarrow> \<not> list_ex (\<lambda>c. c \<notin> set D) xs"
  by (auto simp: list_ex_iff)

lemma lex_exp_text:
  assumes "c \<in> set marks" shows "lex_exponent (c # exp_text x) marks = (x, True)"
proof -
  note d = digits_from_int_facts [of "\<bar>x\<bar>"]
  have "split_sign (exp_text x) = (if 0 \<le> x then 0 else 1, digits_from_int \<bar>x\<bar>)" by (simp add: exp_text_def)
  then show ?thesis using assms d(2,3) no_stray [OF d(1)] by (simp add: lex_exponent_def)
qed

lemma exp_text_last: "exp_text x \<noteq> []" "last (exp_text x) \<in> set DIGITS"
  using digits_from_int_facts(1,2) [of "\<bar>x\<bar>"] last_in_set [of "digits_from_int \<bar>x\<bar>"] by (auto simp: exp_text_def)

lemma lex_special_number:
  assumes "body \<noteq> []" "hd body \<in> set DIGITS" "last body \<in> set DIGITS"
  shows "lex_special body s fmt = Inr None"
proof -
  have low: "lower body \<noteq> []" "hd (lower body) = hd body" "last (lower body) = last body"
    using assms digit_facts(5) by (auto simp: lower_def hd_map last_map)
  have "w \<noteq> lower body" if "w \<in> {''inf'', ''infinity'', ''nan'', ''snan''}" for w
    using that low(2) digit_facts(9-11) [OF assms(2)] by auto
  moreover have "last (lower body) \<noteq> CHR '')''" using low(3) digit_facts(4) [OF assms(3)] by simp
  ultimately show ?thesis by (auto simp: lex_special_def Let_def)
qed

lemma scan_text:
  assumes "set ip \<subseteq> set D" "set fp \<subseteq> set D" "CHR ''.'' \<notin> set D" "c \<notin> set D" "c \<noteq> CHR ''.''"
  shows "scan_significand D (ip @ frac_text fp @ c # rest) = (ip, fp, c # rest)"
proof -
  have tw: "takeWhile (\<lambda>c. c \<in> set D) (xs @ y # ys) = xs" "dropWhile (\<lambda>c. c \<in> set D) (xs @ y # ys) = y # ys"
    if "set xs \<subseteq> set D" "y \<notin> set D" for xs y ys using that by (induction xs) auto
  show ?thesis
    using assms tw [OF assms(1), of "CHR ''.''" "fp @ c # rest"] tw [OF assms(1,4), of rest] tw [OF assms(2,4), of rest]
    by (cases "fp = []") (simp_all add: scan_significand_def frac_text_def)
qed

lemma lex_decimal_text:
  assumes s: "s = 0 \<or> s = 1" and ip: "ip \<noteq> []" "set ip \<subseteq> set DIGITS" and fp: "set fp \<subseteq> set DIGITS"
  shows "lex_decimal fmt (sign_text s @ ip @ frac_text fp @ ''e'' @ exp_text x) =
    Inr (Finite s (int_of 10 (ip @ fp)) (x - int (length fp)))"
proof -
  let ?body = "ip @ frac_text fp @ ''e'' @ exp_text x"
  have hd: "hd ?body \<in> set DIGITS" "?body \<noteq> []" using ip by auto
  have last: "last ?body \<in> set DIGITS" using exp_text_last [of x] by simp
  have sp: "split_sign (sign_text s @ ?body) = (s, ?body)"
    using digit_facts(1,2) [OF hd(1)] by (intro split_sign_text s hd(2))
  have sc: "scan_significand DIGITS ?body = (ip, fp, CHR ''e'' # exp_text x)"
    using scan_text [OF ip(2) fp, of "CHR ''e''" "exp_text x"] by simp
  show ?thesis
    unfolding lex_decimal_def sp Let_def prod.case lex_special_number [OF hd(2,1) last] bind_r_simps option.case sc
    using ip(1) hd(2) by (simp add: lex_exp_text int_from_digits_def)
qed

lemma lex_hex_text:
  assumes s: "s = 0 \<or> s = 1" and ip: "ip \<noteq> []" "set ip \<subseteq> set HEXDIGITS" and fp: "set fp \<subseteq> set HEXDIGITS"
  shows "lex_hex fmt (sign_text s @ ''0x'' @ ip @ frac_text fp @ ''p'' @ exp_text x) =
    Inr (Finite s (int_of 16 (ip @ fp)) (x - 4 * int (length fp)))"
proof -
  let ?body = "''0x'' @ ip @ frac_text fp @ ''p'' @ exp_text x"
  have hd: "hd ?body \<in> set DIGITS" "?body \<noteq> []" by auto
  have last: "last ?body \<in> set DIGITS" using exp_text_last [of x] by simp
  have sp: "split_sign (sign_text s @ ?body) = (s, ?body)"
    using digit_facts(1,2) [OF hd(1)] by (intro split_sign_text s hd(2))
  have sc: "scan_significand HEXDIGITS (drop 2 ?body) = (ip, fp, CHR ''p'' # exp_text x)"
    using scan_text [OF ip(2) fp, of "CHR ''p''" "exp_text x"] by simp
  have "lower (take 2 ?body) = ''0x''" by (simp add: lower_def lower_char_def)
  then show ?thesis
    unfolding lex_hex_def sp Let_def prod.case lex_special_number [OF hd(2,1) last] bind_r_simps option.case sc
    using ip(1) by (simp add: lex_exp_text)
qed

end
