(* ===== verification/CharsTrip.thy ===== *)
theory CharsTrip
  imports CharsText
begin

text \<open>
  Clause 5.12's round trips: a finite operand, an infinity and a NaN with its payload are written so that
  reading the sequence gives the encoding back, exactly and in every rounding direction; and a sequence read
  from text is the correctly rounded value it spells.
\<close>

section \<open>Reading\<close>

lemma read_finite:
  assumes wf: "wf_fmt fmt" and rnd: "valid_mode rnd" and s: "s = 0 \<or> s = 1" and d: "0 < d"
  shows "round_decimal fmt s d k rnd = Inr (round_signed fmt rnd (sg s * (of_int d * 10 powi k)))"
    and "round_binary fmt s d k rnd = Inr (round_signed fmt rnd (sg s * (of_int d * p2 k)))"
proof -
  have r: "round_real fmt rnd s x = round_signed fmt rnd (sg s * x)" if "0 < x" for x
    using sg_mult_less_0 [OF that s] that by (simp add: round_signed_def abs_mult)
  note v = valid_mode_dir [OF rnd]
  show "round_decimal fmt s d k rnd = Inr (round_signed fmt rnd (sg s * (of_int d * 10 powi k)))"
    using d by (simp add: round_decimal_refines [OF wf v] r)
  show "round_binary fmt s d k rnd = Inr (round_signed fmt rnd (sg s * (of_int d * p2 k)))"
    using d by (simp add: round_binary_refines [OF wf v] r)
qed

lemma digits_nonneg: "set xs \<subseteq> set DIGITS \<Longrightarrow> 0 \<le> int_of 10 xs"
  by (rule conjunct1 [OF int_of_bounds]) (use digit_facts(7,8) in auto)

lemma hex_nonneg: "set xs \<subseteq> set HEXDIGITS \<Longrightarrow> 0 \<le> int_of 16 xs"
  by (rule conjunct1 [OF int_of_bounds]) (use hex_facts(7,8) in auto)

lemma from_decimal_text:
  assumes wf: "wf_fmt fmt" and rnd: "valid_mode rnd" and s: "s = 0 \<or> s = 1"
    and ip: "ip \<noteq> []" "set ip \<subseteq> set DIGITS" and fp: "set fp \<subseteq> set DIGITS"
  shows "from_decimal fmt (sign_text s @ ip @ frac_text fp @ ''e'' @ exp_text x) rnd =
    Inr (if int_of 10 (ip @ fp) = 0 then (zero_bits fmt s, 0)
         else round_signed fmt rnd (sg s * (of_int (int_of 10 (ip @ fp)) * 10 powi (x - int (length fp)))))"
proof -
  have "0 \<le> int_of 10 (ip @ fp)" using ip(2) fp by (intro digits_nonneg) simp
  then show ?thesis
    using rnd by (simp only: from_decimal_def lex_decimal_text [OF s ip fp] check_mode_iff if_True bind_r_simps token.case)
      (simp add: read_finite [OF wf rnd s])
qed

lemma from_hex_text:
  assumes wf: "wf_fmt fmt" and rnd: "valid_mode rnd" and s: "s = 0 \<or> s = 1"
    and ip: "ip \<noteq> []" "set ip \<subseteq> set HEXDIGITS" and fp: "set fp \<subseteq> set HEXDIGITS"
  shows "from_hex fmt (sign_text s @ ''0x'' @ ip @ frac_text fp @ ''p'' @ exp_text x) rnd =
    Inr (if int_of 16 (ip @ fp) = 0 then (zero_bits fmt s, 0)
         else round_signed fmt rnd (sg s * (of_int (int_of 16 (ip @ fp)) * p2 (x - 4 * int (length fp)))))"
proof -
  have "0 \<le> int_of 16 (ip @ fp)" using ip(2) fp by (intro hex_nonneg) simp
  then show ?thesis
    using rnd by (simp only: from_hex_def lex_hex_text [OF s ip fp] check_mode_iff if_True bind_r_simps token.case)
      (simp add: read_finite [OF wf rnd s])
qed

section \<open>The decoder\<close>

lemma c_decode_unpack:
  "c_decode fmt x = (case u_kind (unpack fmt x) of
     KZero \<Rightarrow> (CZero, u_sign (unpack fmt x), 0, 0, 0, 0)
   | KInf \<Rightarrow> (CInf, u_sign (unpack fmt x), 0, 0, 0, 0)
   | KNan \<Rightarrow> (CNan, u_sign (unpack fmt x), 0, 0, (x AND man_mask fmt) AND (max_payload fmt - 1),
       if truthy (drop_bit (man_w fmt - 1) (x AND man_mask fmt) AND 1) then 0 else 1)
   | _ \<Rightarrow> (CFinite, u_sign (unpack fmt x), u_m (unpack fmt x), u_e (unpack fmt x), 0, 0))"
  by (simp add: c_decode_def unpack_def Let_def)

lemma c_decode_number:
  assumes wf: "wf_fmt fmt" and x: "fits fmt x" "is_finite fmt x" "fval fmt x \<noteq> 0"
  obtains m e where "c_decode fmt x = (CFinite, sgn_of fmt x, m, e, 0, 0)" "0 < m"
    "fval fmt x = sg (sgn_of fmt x) * (of_int m * p2 e)"
proof -
  note c = unpack_cases [OF wf x(1)]
  have k: "u_kind (unpack fmt x) = KSub \<or> u_kind (unpack fmt x) = KNorm"
    using c(2,4) x by (cases "u_kind (unpack fmt x)") auto
  then have "c_decode fmt x = (CFinite, sgn_of fmt x, u_m (unpack fmt x), u_e (unpack fmt x), 0, 0)"
    using wf x(1) by (auto simp: c_decode_unpack)
  moreover have "0 < u_m (unpack fmt x)" using c(3) [OF x(2)] k by auto
  moreover have "fval fmt x = sg (sgn_of fmt x) * (of_int (u_m (unpack fmt x)) * p2 (u_e (unpack fmt x)))"
    using fval_unpack [of fmt x] wf x(1) by (simp add: mult.assoc)
  ultimately show thesis by (rule that)
qed

lemma c_decode_zero:
  assumes wf: "wf_fmt fmt" and x: "fits fmt x" "is_finite fmt x" "fval fmt x = 0"
  shows "c_decode fmt x = (CZero, sgn_of fmt x, 0, 0, 0, 0)"
  using unpack_cases(2) [OF wf x(1)] x wf by (simp add: c_decode_unpack)

section \<open>NaNs and infinities\<close>

text \<open>The magnitude bits of a NaN are the infinity's, the quiet bit and the payload.\<close>

lemma nan_fields:
  assumes wf: "wf_fmt fmt" and x: "fits fmt x" "is_nan fmt x"
  obtains p q where "(x AND man_mask fmt) AND (max_payload fmt - 1) = p" "0 \<le> p" "p < max_payload fmt" "q = 0 \<or> q = 1"
    "drop_bit (man_w fmt - 1) (x AND man_mask fmt) AND 1 = q" "mag_of fmt x = inf_mag fmt + q * max_payload fmt + p" "q = 1 \<or> p \<noteq> 0"
proof -
  let ?f = "mag_of fmt x - inf_mag fmt" and ?n = "man_w fmt - 1"
  have big: "inf_mag fmt < mag_of fmt x" using x is_nan_mag [OF wf x(1)] by simp
  have mp: "max_payload fmt = 2 ^ ?n" by (simp add: max_payload_def)
  have man: "(2::int) ^ man_w fmt = 2 * 2 ^ ?n" using wf_man_w [OF wf] by (cases "man_w fmt") simp_all
  have frac: "x AND man_mask fmt = ?f"
    using raw_fields(3) [OF mag_bounds [of fmt x] fits_sgn [OF x(1)]] div_exp_mask_iff(2) [OF mag_bounds, of fmt x] big
    by (simp add: pack_fields)
  have f: "0 < ?f" "?f < 2 * 2 ^ ?n" using big mag_bounds(2) [of fmt x] mag_lim_inf [of fmt] man by linarith+
  have q: "?f div 2 ^ ?n = 0 \<or> ?f div 2 ^ ?n = 1" using f div_exp_01 [of ?f ?n] by simp
  show thesis
  proof (rule that [OF refl])
    show "0 \<le> (x AND man_mask fmt) AND (max_payload fmt - 1)" "(x AND man_mask fmt) AND (max_payload fmt - 1) < max_payload fmt"
      unfolding frac mp by (simp_all add: bits_arith)
    show "?f div 2 ^ ?n = 0 \<or> ?f div 2 ^ ?n = 1" by (rule q)
    show "drop_bit ?n (x AND man_mask fmt) AND 1 = ?f div 2 ^ ?n"
      unfolding frac using q by (auto simp: drop_bit_eq_div and_one_eq)
    have "?f = ?f div 2 ^ ?n * 2 ^ ?n + ?f mod 2 ^ ?n" by (rule div_mult_mod_eq [symmetric])
    then show "mag_of fmt x = inf_mag fmt + ?f div 2 ^ ?n * max_payload fmt + ((x AND man_mask fmt) AND (max_payload fmt - 1))"
      unfolding frac mp by (simp add: bits_arith)
    show "?f div 2 ^ ?n = 1 \<or> (x AND man_mask fmt) AND (max_payload fmt - 1) \<noteq> 0"
      unfolding frac mp using q f(1) \<open>?f = _\<close> by (auto simp: bits_arith)
  qed
qed

lemma nan_bits_pack:
  assumes wf: "wf_fmt fmt" and p: "0 \<le> p" "p < max_payload fmt" and g: "sgnl = 0 \<or> sgnl = 1 \<and> p \<noteq> 0"
  shows "nan_bits fmt s p sgnl = Inr (pack fmt s (inf_mag fmt + (if sgnl = 0 then max_payload fmt else 0) + p))"
proof -
  let ?n = "man_w fmt - 1"
  have mp: "max_payload fmt = 2 ^ ?n" by (simp add: max_payload_def)
  have man: "(2::int) ^ man_w fmt = 2 * 2 ^ ?n" using wf_man_w [OF wf] by (cases "man_w fmt") simp_all
  have inf: "push_bit (man_w fmt) (exp_mask fmt) = inf_mag fmt" by (simp add: push_bit_eq_mult inf_mag_def)
  have or: "inf_mag fmt OR z = inf_mag fmt + z" if "0 \<le> z" "z < 2 ^ man_w fmt" for z
    unfolding inf_mag_def by (rule or_disjoint [OF that])
  have "p OR max_payload fmt = max_payload fmt + p" using or_disjoint [of p ?n 1] p mp by (simp add: or.commute)
  then have b: "inf_mag fmt OR (p OR max_payload fmt) = inf_mag fmt + (max_payload fmt + p)"
    using p man mp by (simp add: or)
  have a: "inf_mag fmt OR p = inf_mag fmt + p" using p man mp by (intro or) simp_all
  have lim: "inf_mag fmt + (max_payload fmt + p) < mag_lim fmt" "inf_mag fmt + p < mag_lim fmt"
    "0 \<le> inf_mag fmt + p" "0 \<le> inf_mag fmt + (max_payload fmt + p)"
    using p mp man mag_lim_inf [of fmt] inf_mag_pos [OF wf] by linarith+
  have d: "pack fmt s (inf_mag fmt + p) OR max_payload fmt = pack fmt s (inf_mag fmt + (max_payload fmt + p))"
    using push_or_pack [OF lim(3,2), of s] push_or_pack [OF lim(4,1), of s]
    by (metis a b or.assoc)
  show ?thesis
    using p g unfolding nan_bits_def Let_def inf or.assoc a push_or_pack [OF lim(3,2)]
    by (auto simp: add.assoc d)
qed

lemma c_decode_nan:
  assumes wf: "wf_fmt fmt" and x: "fits fmt x" "is_nan fmt x"
  obtains p g where "c_decode fmt x = (CNan, sgn_of fmt x, 0, 0, p, g)" "0 \<le> p" "p < max_payload fmt"
    "g = 0 \<or> g = 1 \<and> p \<noteq> 0" "nan_bits fmt (sgn_of fmt x) p g = Inr x"
proof -
  obtain p q where f: "(x AND man_mask fmt) AND (max_payload fmt - 1) = p" "0 \<le> p" "p < max_payload fmt" "q = 0 \<or> q = 1"
    "drop_bit (man_w fmt - 1) (x AND man_mask fmt) AND 1 = q" "mag_of fmt x = inf_mag fmt + q * max_payload fmt + p" "q = 1 \<or> p \<noteq> 0"
    by (rule nan_fields [OF wf x])
  let ?g = "if truthy q then 0 else (1::int)"
  have g: "?g = 0 \<or> ?g = 1 \<and> p \<noteq> 0" using f(4,7) by auto
  have "mag_of fmt x = inf_mag fmt + (if ?g = 0 then max_payload fmt else 0) + p" using f(4,6) by auto
  then have "nan_bits fmt (sgn_of fmt x) p ?g = Inr x"
    unfolding nan_bits_pack [OF wf f(2,3) g] by (metis pack_fields)
  moreover have "u_kind (unpack fmt x) = KNan"
    using is_nan_mag [OF wf x(1)] x kind_of_iff [OF wf mag_bounds(1), of fmt x] by (simp add: u_kind_unpack [OF wf x(1)])
  then have "c_decode fmt x = (CNan, sgn_of fmt x, 0, 0, p, ?g)"
    using wf x(1) by (simp only: c_decode_unpack f(1,5) fp_kind.case u_sign_unpack)
  ultimately show thesis using f(2,3) g by (intro that)
qed

lemma c_decode_inf:
  assumes wf: "wf_fmt fmt" and x: "fits fmt x" "\<not> is_finite fmt x" "\<not> is_nan fmt x"
  shows "c_decode fmt x = (CInf, sgn_of fmt x, 0, 0, 0, 0)" "x = inf_bits fmt (sgn_of fmt x)"
proof -
  have m: "mag_of fmt x = inf_mag fmt" using x(2,3) is_nan_mag [OF wf x(1)] by (simp add: is_finite_def)
  have "u_kind (unpack fmt x) = KInf"
    using m kind_of_iff [OF wf mag_bounds(1), of fmt x] by (simp add: u_kind_unpack [OF wf x(1)])
  then show "c_decode fmt x = (CInf, sgn_of fmt x, 0, 0, 0, 0)" using wf x(1) by (simp add: c_decode_unpack)
  show "x = inf_bits fmt (sgn_of fmt x)" using pack_fields [of fmt x] by (simp add: inf_bits_pack [OF wf] m)
qed

lemma hex_digits_lower: "lower (hex_digits n) = hex_digits n"
proof (induction n rule: hex_digits.induct)
  case (1 n)
  have "lower_char (hex_digit d) = hex_digit d" if "d < 16" for d using that by (simp add: hex_digit_def lower_char_def)
  then show ?case using "1.IH" by (cases "n < 16") (simp_all add: hex_digits.simps [of n] lower_def)
qed

text \<open>The lexer on the two spellings of a NaN.\<close>

definition nan_word :: "int \<Rightarrow> string" where "nan_word g = (if truthy g then ''snan'' else ''nan'')"

lemma lex_special_words:
  "lex_special ''inf'' s fmt = Inr (Some (inf_bits fmt s))"
  by (simp add: lex_special_def lower_def lower_char_def)

lemma lex_special_nan:
  assumes wf: "wf_fmt fmt" and p: "0 < p" "p < max_payload fmt" and g: "g = 0 \<or> g = 1"
  shows "lex_special (nan_word g @ ''(0x'' @ hex_digits (nat p) @ '')'') s fmt = bind_r (nan_bits fmt s p g) (\<lambda>b. Inr (Some b))"
proof -
  let ?h = "hex_digits (nat p)" let ?body = "nan_word g @ ''(0x'' @ ?h @ '')''"
  note h = hex_digits_facts [of "nat p"]
  have low: "lower ?body = ?body" using hex_digits_lower [of "nat p"] by (simp add: lower_def nan_word_def lower_char_def)
  have w: "CHR ''('' \<notin> set (nan_word g)" by (simp add: nan_word_def)
  then have tw: "takeWhile (\<lambda>x. x \<noteq> CHR ''('') (nan_word g @ ys) = nan_word g @ takeWhile (\<lambda>x. x \<noteq> CHR ''('') ys" for ys
    by (intro takeWhile_append2) auto
  have find: "find_char (CHR ''('') ?body = Some (length (nan_word g))" by (simp add: find_char_def tw)
  have inner: "butlast (drop (length (nan_word g) + 1) ?body) = ''0x'' @ ?h" by (simp add: butlast_append)
  have head: "take (length (nan_word g)) ?body = nan_word g" by simp
  have ns: "?body \<noteq> ''inf''" "?body \<noteq> ''infinity''" "?body \<noteq> []" "last ?body = CHR '')''" by (simp_all add: nan_word_def)
  have z: "lower (take 2 (''0x'' @ ?h)) = ''0x''" "drop 2 (''0x'' @ ?h) = ?h" by (simp_all add: lower_def lower_char_def)
  have v: "\<not> max_payload fmt \<le> int_of 16 ?h" "int_of 16 ?h = p" "?h \<noteq> []" "\<not> list_ex (\<lambda>c. c \<notin> set HEXDIGITS) ?h"
    using h p no_stray [OF h(1)] by simp_all
  show ?thesis
    using g v ns p(1)
    unfolding lex_special_def Let_def low find option.case inner head z
    by (auto simp: nan_word_def)
qed

lemma lex_special_plain_nan:
  "lex_special ''nan'' s fmt = (if max_payload fmt \<le> 0 then Inl CharacterSyntaxError else bind_r (nan_bits fmt s 0 0) (\<lambda>b. Inr (Some b)))"
  by (simp add: lex_special_def lower_def lower_char_def)

section \<open>Writing\<close>

lemma exact_digits_value:
  assumes m: "0 < m" and e: "exact_digits m e = (ds, x)"
  shows "set ds \<subseteq> set DIGITS" "ds \<noteq> []" "hd ds \<noteq> CHR ''0''"
    "of_int (int_of 10 ds) * 10 powi (x - (int (length ds) - 1)) = of_int m * p2 e"
proof -
  define n where "n = (if 0 \<le> e then push_bit (nat e) m else m * 5 ^ nat (- e))"
  define p where "p = (if 0 \<le> e then 0 else e)"
  let ?t = "digits_from_int n"
  have n: "0 < n" using m by (simp add: n_def push_bit_eq_mult)
  have d: "ds = rstrip_zeros ?t" "x = int (length ?t) - 1 + p"
    using e by (simp_all add: exact_digits_def n_def p_def split: if_splits)
  note t = digits_from_int_facts [of n]
  show "set ds \<subseteq> set DIGITS" using rstrip_set [of ?t] t(1) d(1) by blast
  show "ds \<noteq> []" "hd ds \<noteq> CHR ''0''" using rstrip_nonempty [OF t(2,4)] t(4) n d(1) by auto
  have len: "length ds \<le> length ?t" using rstrip_length d(1) by simp
  have "n = int_of 10 ds * 10 ^ (length ?t - length ds)"
    using rstrip_value [of 10 ?t] t(3) n d(1) by (simp add: int_from_digits_def)
  then have v: "(of_int n :: real) = of_int (int_of 10 ds) * 10 ^ (length ?t - length ds)"
    by (metis of_int_mult of_int_numeral of_int_power)
  have "x - (int (length ds) - 1) = int (length ?t - length ds) + p" using d(2) len by simp
  then have "of_int (int_of 10 ds) * 10 powi (x - (int (length ds) - 1)) = of_int n * (10 powi p :: real)"
    unfolding v by (simp add: power_int_add)
  also have "\<dots> = of_int m * p2 e"
  proof (cases "0 \<le> e")
    case True
    then show ?thesis by (simp add: n_def p_def push_bit_eq_mult p2_nat)
  next
    case False
    have "(10 :: real) powi e = (1 / 5) ^ nat (- e) * p2 e"
      using False by (simp add: power_int_def inverse_eq_divide power_mult_distrib [symmetric])
    then show ?thesis using False by (simp add: n_def p_def power_one_over)
  qed
  finally show "of_int (int_of 10 ds) * 10 powi (x - (int (length ds) - 1)) = of_int m * p2 e" .
qed

lemma format_finite_text:
  "ds \<noteq> [] \<Longrightarrow> format_finite s ds x = sign_text s @ take 1 ds @ frac_text (drop 1 ds) @ ''e'' @ exp_text x"
  by (cases ds) (auto simp: format_finite_def sign_text_def frac_text_def exp_text_def)

text \<open>A digit string printed in scientific form reads back as the value it spells.\<close>

lemma read_scientific:
  assumes wf: "wf_fmt fmt" and rnd: "valid_mode rnd" and s: "s = 0 \<or> s = 1"
    and ds: "ds \<noteq> []" "set ds \<subseteq> set DIGITS" "int_of 10 ds \<noteq> 0"
  shows "from_decimal fmt (format_finite s ds x) rnd =
    Inr (round_signed fmt rnd (sg s * (of_int (int_of 10 ds) * 10 powi (x - (int (length ds) - 1)))))"
proof -
  have ip: "take 1 ds \<noteq> []" "set (take 1 ds) \<subseteq> set DIGITS" "set (drop 1 ds) \<subseteq> set DIGITS"
    using ds(1,2) set_take_subset [of 1 ds] set_drop_subset [of 1 ds] by auto
  have "x - int (length (drop 1 ds)) = x - (int (length ds) - 1)" using ds(1) by (cases ds) simp_all
  then show ?thesis
    using ds(3) unfolding format_finite_text [OF ds(1)] from_decimal_text [OF wf rnd s ip] by simp
qed

section \<open>The hexadecimal form\<close>

lemma hex_digits_length: "0 < k \<Longrightarrow> n < 16 ^ k \<Longrightarrow> length (hex_digits n) \<le> k"
proof (induction n arbitrary: k rule: hex_digits.induct)
  case (1 n)
  show ?case
  proof (cases "n < 16")
    case False
    then obtain j where k: "k = Suc j" "0 < j" using "1.prems" by (cases k; cases "k - 1") auto
    then have "n div 16 < 16 ^ j" using "1.prems"(2) by (simp add: div_less_iff_less_mult mult.commute)
    then show ?thesis using "1.IH" [OF False k(2)] False k(1) by (simp add: hex_digits.simps [of n])
  qed (use "1.prems" in \<open>simp add: hex_digits.simps [of n]\<close>)
qed

lemma zero_pad_facts:
  assumes "0 < k" "n < 16 ^ k"
  shows "length (zero_pad k (hex_digits n)) = k" "int_of 16 (zero_pad k (hex_digits n)) = int n"
    "set (zero_pad k (hex_digits n)) \<subseteq> set HEXDIGITS"
  using hex_digits_length [OF assms] hex_digits_facts(1,2) [of n] by (auto simp: zero_pad_def int_of_append)

definition hex_fraction :: "int \<Rightarrow> string" where
  "hex_fraction m =
    (let len = bit_length m; nib = (len + 2) div 4 in
     if truthy nib then rstrip_zeros (zero_pad (nat nib) (hex_digits (nat (push_bit (nat (4 * nib - (len - 1))) (m - push_bit (nat (len - 1)) 1)))))
     else [])"

lemma hex_fraction_value:
  assumes m: "0 < m"
  shows "set (hex_fraction m) \<subseteq> set HEXDIGITS"
    "of_int (int_of 16 (''1'' @ hex_fraction m)) * p2 (e + bit_length m - 1 - 4 * int (length (hex_fraction m))) = of_int m * p2 e"
proof -
  define len where "len = bit_length m"
  define n where "n = nat (len - 1)"
  define k where "k = nat ((len + 2) div 4)"
  have n: "len = int n + 1" using bit_length_pos [OF m] by (simp add: n_def len_def)
  have "nat (bit_length m - 1) = n" "nat (bit_length m) = Suc n" using n by (simp_all add: len_def)
  then have b: "2 ^ n \<le> m" "m < 2 * 2 ^ n" using bit_length_bounds [OF m] by simp_all
  have k: "n \<le> 4 * k" "k = 0 \<longleftrightarrow> n = 0" "(len + 2) div 4 = int k" by (simp_all add: k_def n) linarith+
  define F where "F = nat ((m - 2 ^ n) * 2 ^ (4 * k - n))"
  have sh: "4 * int k - int n = int (4 * k - n)" using k(1) by simp
  have fr: "hex_fraction m = (if k = 0 then [] else rstrip_zeros (zero_pad k (hex_digits F)))"
    unfolding hex_fraction_def len_def [symmetric] Let_def k(3) F_def
    by (simp add: n sh push_bit_eq_mult)
  have p: "(2::int) ^ (4 * k - n) * 2 ^ n = 2 ^ (4 * k)" using k(1) by (simp add: power_add [symmetric])
  have "(m - 2 ^ n) * 2 ^ (4 * k - n) < 2 ^ n * 2 ^ (4 * k - n)" using b by (intro mult_strict_right_mono) simp_all
  also have "\<dots> = 16 ^ k" using p by (simp add: power_mult mult.commute [of "2 ^ n"])
  finally have F: "int F = (m - 2 ^ n) * 2 ^ (4 * k - n)" "F < 16 ^ k" using b by (simp_all add: F_def nat_less_iff)
  let ?z = "zero_pad k (hex_digits F)"
  have main: "set (hex_fraction m) \<subseteq> set HEXDIGITS \<and> int_of 16 (''1'' @ hex_fraction m) * 16 ^ (k - length (hex_fraction m))
    = m * 2 ^ (4 * k - n) \<and> length (hex_fraction m) \<le> k"
  proof (cases "k = 0")
    case True
    then show ?thesis using k b by (simp add: fr)
  next
    case False
    then have z: "length ?z = k" "int_of 16 ?z = int F" "set ?z \<subseteq> set HEXDIGITS" using zero_pad_facts [of k F] F by simp_all
    note l = rstrip_length [of ?z]
    have "int_of 16 (''1'' @ rstrip_zeros ?z) * 16 ^ (k - length (rstrip_zeros ?z))
      = 16 ^ (length (rstrip_zeros ?z) + (k - length (rstrip_zeros ?z))) + int_of 16 ?z"
      unfolding rstrip_value [of 16 ?z] z(1) by (simp add: int_of_Cons distrib_right power_add)
    also have "\<dots> = 2 ^ (4 * k) + int F" using l z by (simp add: power_mult)
    also have "\<dots> = m * 2 ^ (4 * k - n)" unfolding F p [symmetric] by (simp add: algebra_simps)
    finally show ?thesis using False l z rstrip_set [of ?z] by (auto simp: fr)
  qed
  then show "set (hex_fraction m) \<subseteq> set HEXDIGITS" by blast
  let ?j = "length (hex_fraction m)"
  have "(of_int (int_of 16 (''1'' @ hex_fraction m)) * 2 ^ (4 * (k - ?j)) :: real) = of_int m * 2 ^ (4 * k - n)"
  proof -
    have "(of_int (int_of 16 (''1'' @ hex_fraction m) * 16 ^ (k - ?j)) :: real) = of_int (m * 2 ^ (4 * k - n))"
      using main by (simp only: of_int_eq_iff)
    then show ?thesis by (simp add: power_mult)
  qed
  then have "of_int (int_of 16 (''1'' @ hex_fraction m)) * p2 (int (4 * (k - ?j))) = (of_int m * p2 (int (4 * k - n)) :: real)"
    by (simp only: p2_of_nat)
  then have "of_int (int_of 16 (''1'' @ hex_fraction m)) * p2 (int (4 * (k - ?j))) * p2 (e - int (4 * k - n))
    = (of_int m * p2 (int (4 * k - n)) * p2 (e - int (4 * k - n)) :: real)" by simp
  moreover have "int (4 * (k - ?j)) + (e - int (4 * k - n)) = e + bit_length m - 1 - 4 * int ?j"
    using main k(1) n by (simp add: len_def)
  ultimately show "of_int (int_of 16 (''1'' @ hex_fraction m)) * p2 (e + bit_length m - 1 - 4 * int ?j) = of_int m * p2 e"
    by (simp only: mult.assoc p2_add [symmetric]) simp
qed

lemma read_hexadecimal:
  assumes wf: "wf_fmt fmt" and rnd: "valid_mode rnd" and s: "s = 0 \<or> s = 1" and m: "0 < m"
  shows "from_hex fmt (sign_text s @ ''0x'' @ ''1'' @ frac_text (hex_fraction m) @ ''p'' @ exp_text (e + bit_length m - 1)) rnd =
    Inr (round_signed fmt rnd (sg s * (of_int m * p2 e)))"
proof -
  note h = hex_fraction_value(1) [OF m] hex_fraction_value(2) [OF m, of e]
  have one: "''1'' \<noteq> []" "set ''1'' \<subseteq> set HEXDIGITS" by simp_all
  have "of_int m * p2 e \<noteq> 0" using m by simp
  then have "int_of 16 (''1'' @ hex_fraction m) \<noteq> 0" using h(2) by auto
  then show ?thesis unfolding from_hex_text [OF wf rnd s one h(1)] h(2) by simp
qed

section \<open>The round trips\<close>

lemma read_special:
  assumes "s = 0 \<or> s = 1" "w \<noteq> []" "hd w \<noteq> CHR ''-''" "hd w \<noteq> CHR ''+''"
    and "lex_special w s fmt = Inr (Some b)" "valid_mode rnd"
  shows "from_decimal fmt (sign_text s @ w) rnd = Inr (b, 0)" "from_hex fmt (sign_text s @ w) rnd = Inr (b, 0)"
  using assms(2,5,6) by (simp_all add: from_decimal_def lex_decimal_def from_hex_def lex_hex_def split_sign_text [OF assms(1-4)])

lemma special_reads_back:
  assumes wf: "wf_fmt fmt" and x: "fits fmt x" "\<not> is_finite fmt x" and rnd: "valid_mode rnd"
  obtains t where "special_text fmt x = Some t" "from_decimal fmt t rnd = Inr (x, 0)" "from_hex fmt t rnd = Inr (x, 0)"
proof -
  let ?s = "sgn_of fmt x"
  note s = fits_sgn [OF x(1)]
  have mp: "0 < max_payload fmt" by (simp add: max_payload_def)
  have read: "from_decimal fmt (sign_text ?s @ w) rnd = Inr (x, 0) \<and> from_hex fmt (sign_text ?s @ w) rnd = Inr (x, 0)"
    if "lex_special w ?s fmt = Inr (Some x)" "w \<noteq> []" "hd w \<noteq> CHR ''-''" "hd w \<noteq> CHR ''+''" for w
    using read_special [OF s that(2-4,1) rnd] by blast
  show thesis
  proof (cases "is_nan fmt x")
    case False
    note c = c_decode_inf [OF wf x False]
    have "special_text fmt x = Some (sign_text ?s @ ''inf'')" by (simp add: special_text_def c(1) sign_text_def)
    moreover have "lex_special ''inf'' ?s fmt = Inr (Some x)" using c(2) by (simp only: lex_special_words)
    ultimately show thesis using read [of "''inf''"] that by simp
  next
    case True
    obtain p g where c: "c_decode fmt x = (CNan, ?s, 0, 0, p, g)" "0 \<le> p" "p < max_payload fmt"
      "g = 0 \<or> g = 1 \<and> p \<noteq> 0" "nan_bits fmt ?s p g = Inr x" by (rule c_decode_nan [OF wf x(1) True])
    show thesis
    proof (cases "p = 0")
      case z: True
      then have "special_text fmt x = Some (sign_text ?s @ ''nan'')" using c(4) by (auto simp: special_text_def c(1) sign_text_def)
      moreover have "lex_special ''nan'' ?s fmt = Inr (Some x)" using c(4,5) z mp by (auto simp: lex_special_plain_nan)
      ultimately show thesis using read [of "''nan''"] that by simp
    next
      case nz: False
      let ?w = "nan_word g @ ''(0x'' @ hex_digits (nat p) @ '')''"
      have "special_text fmt x = Some (sign_text ?s @ ?w)"
        using nz by (simp add: special_text_def c(1) sign_text_def nan_word_def)
      moreover have "lex_special ?w ?s fmt = Inr (Some x)"
        using lex_special_nan [OF wf, of p g ?s] c nz by auto
      moreover have "?w \<noteq> []" "hd ?w \<noteq> CHR ''-''" "hd ?w \<noteq> CHR ''+''" by (simp_all add: nan_word_def)
      ultimately show thesis using read [of ?w] that by blast
    qed
  qed
qed

lemma finite_no_text:
  assumes "wf_fmt fmt" "fits fmt x" "is_finite fmt x"
  shows "special_text fmt x = None"
proof (cases "fval fmt x = 0")
  case False
  then obtain m e where "c_decode fmt x = (CFinite, sgn_of fmt x, m, e, 0, 0)" by (rule c_decode_number [OF assms])
  then show ?thesis by (simp add: special_text_def)
qed (simp add: special_text_def c_decode_zero [OF assms])

lemma zero_bits_back:
  assumes "wf_fmt fmt" "fits fmt x" "is_finite fmt x" "fval fmt x = 0" shows "zero_bits fmt (sgn_of fmt x) = x"
proof -
  have "mag_val fmt (mag_of fmt x) = 0" using fval_eq [OF assms(1-3)] assms(4) by (simp add: sg_def split: if_splits)
  then have "mag_of fmt x = 0" using mag_val_pos_iff [OF mag_bounds(1) [of fmt x], of fmt] mag_bounds(1) [of fmt x] by simp
  then show ?thesis using pack_fields [of fmt x] by (simp add: zero_bits_pack)
qed

lemma decimal_read_back:
  assumes wf: "wf_fmt fmt" and x: "fits fmt x" and rnd: "valid_mode rnd" "valid_mode rnd'"
  obtains t where "to_decimal fmt x 0 rnd = Inr (t, 0)" "from_decimal fmt t rnd' = Inr (x, 0)"
proof (cases "is_finite fmt x")
  case False
  then obtain t where "special_text fmt x = Some t" "from_decimal fmt t rnd' = Inr (x, 0)"
    by (rule special_reads_back [OF wf x _ rnd(2)])
  then show thesis using rnd by (intro that [of t]) (simp_all add: to_decimal_def)
next
  case fin: True
  note s = fits_sgn [OF x] and no = finite_no_text [OF wf x fin]
  show thesis
  proof (cases "fval fmt x = 0")
    case True
    let ?t = "sign_text (sgn_of fmt x) @ ''0''"
    have "to_decimal fmt x 0 rnd = Inr (?t, 0)"
      using rnd no c_decode_zero [OF wf x fin True] s by (auto simp: to_decimal_def sign_text_def)
    moreover have "lex_decimal fmt ?t = Inr (Finite (sgn_of fmt x) 0 0)"
    proof -
      have "lex_special ''0'' (sgn_of fmt x) fmt = Inr None" by (rule lex_special_number) simp_all
      then show ?thesis using split_sign_text [OF s, of "''0''"]
        by (simp add: lex_decimal_def scan_significand_def lex_exponent_def int_from_digits_def)
    qed
    then have "from_decimal fmt ?t rnd' = Inr (x, 0)"
      using rnd zero_bits_back [OF wf x fin True] by (simp add: from_decimal_def)
    ultimately show thesis by (rule that)
  next
    case False
    obtain m e where c: "c_decode fmt x = (CFinite, sgn_of fmt x, m, e, 0, 0)" "0 < m"
      "fval fmt x = sg (sgn_of fmt x) * (of_int m * p2 e)" by (rule c_decode_number [OF wf x fin False])
    obtain ds ex where d: "exact_digits m e = (ds, ex)" by (cases "exact_digits m e")
    note v = exact_digits_value [OF c(2) d]
    have "of_int m * p2 e \<noteq> 0" using c(2) by simp
    then have nz: "int_of 10 ds \<noteq> 0" using v(4) by auto
    have "from_decimal fmt (format_finite (sgn_of fmt x) ds ex) rnd' = Inr (round_signed fmt rnd' (fval fmt x))"
      unfolding read_scientific [OF wf rnd(2) s v(2,1) nz] v(4) c(3) ..
    moreover have "to_decimal fmt x 0 rnd = Inr (format_finite (sgn_of fmt x) ds ex, 0)"
      using rnd no c(1) d by (simp add: to_decimal_def)
    ultimately show thesis using round_signed_exact [OF wf x fin False] by (intro that) simp_all
  qed
qed

lemma hex_read_back:
  assumes wf: "wf_fmt fmt" and x: "fits fmt x" and rnd: "valid_mode rnd"
  shows "from_hex fmt (to_hex fmt x) rnd = Inr (x, 0)"
proof (cases "is_finite fmt x")
  case False
  then obtain t where "special_text fmt x = Some t" "from_hex fmt t rnd = Inr (x, 0)"
    by (rule special_reads_back [OF wf x _ rnd])
  then show ?thesis by (simp add: to_hex_def)
next
  case fin: True
  note s = fits_sgn [OF x] and no = finite_no_text [OF wf x fin]
  show ?thesis
  proof (cases "fval fmt x = 0")
    case True
    let ?s = "sgn_of fmt x"
    have "to_hex fmt x = sign_text ?s @ ''0x'' @ ''0'' @ frac_text [] @ ''p'' @ exp_text 0"
      using no c_decode_zero [OF wf x fin True]
      by (simp add: to_hex_def sign_text_def frac_text_def exp_text_def digits_from_int_def py_digits.simps [of 0] char_of_zero)
    then show ?thesis using from_hex_text [OF wf rnd s, of "''0''" "[]" 0] zero_bits_back [OF wf x fin True] by simp
  next
    case False
    obtain m e where c: "c_decode fmt x = (CFinite, sgn_of fmt x, m, e, 0, 0)" "0 < m"
      "fval fmt x = sg (sgn_of fmt x) * (of_int m * p2 e)" by (rule c_decode_number [OF wf x fin False])
    have "to_hex fmt x = sign_text (sgn_of fmt x) @ ''0x'' @ ''1'' @ frac_text (hex_fraction m) @ ''p'' @ exp_text (e + bit_length m - 1)"
      using no by (simp add: to_hex_def c(1) Let_def sign_text_def frac_text_def exp_text_def hex_fraction_def)
    then show ?thesis
      unfolding read_hexadecimal [OF wf rnd s c(2), of e] c(3) [symmetric]
      using round_signed_exact [OF wf x fin False] read_hexadecimal [OF wf rnd s c(2), of e] c(3) by simp
  qed
qed

end
