(* ===== verification/CharsDigits.thy ===== *)
theory CharsDigits
  imports CharsTrip
begin

text \<open>
  Writing a limited number of digits rounds the exact decimal expansion correctly in every direction, and in
  the nearest directions \<open>Pmin\<close> digits are enough for the reader to recover the operand.
\<close>

section \<open>Digit strings without leading zeros\<close>

lemma digit_zero_iff: "c \<in> set DIGITS \<Longrightarrow> digit_val c = 0 \<longleftrightarrow> c = CHR ''0''"
  by (auto simp: DIGITS_def digit_val_def)

lemma digits_lt: "set xs \<subseteq> set DIGITS \<Longrightarrow> int_of 10 xs < 10 ^ length xs"
  by (rule conjunct2 [OF int_of_bounds]) (use digit_facts(7,8) in auto)

lemma digits_ge:
  assumes "set xs \<subseteq> set DIGITS" "xs \<noteq> []" "hd xs \<noteq> CHR ''0''" shows "10 ^ (length xs - 1) \<le> int_of 10 xs"
proof -
  obtain c ys where xs: "xs = c # ys" using assms(2) by (cases xs) auto
  have c: "c \<in> set DIGITS" "c \<noteq> CHR ''0''" "0 \<le> int_of 10 ys" using assms digits_nonneg [of ys] by (auto simp: xs)
  then have "1 \<le> digit_val c" using digit_facts(7) [OF c(1)] digit_zero_iff [OF c(1)] by linarith
  then have "1 * 10 ^ length ys \<le> digit_val c * 10 ^ length ys" by (intro mult_right_mono) simp_all
  then show ?thesis using c(3) by (simp only: xs int_of_Cons list.size add_0_right mult_1 list.sel)
      (simp add: add_increasing2)
qed

lemma digits_zero_iff: "set xs \<subseteq> set DIGITS \<Longrightarrow> int_of 10 xs = 0 \<longleftrightarrow> \<not> list_ex (\<lambda>c. c \<noteq> CHR ''0'') xs"
proof (induction xs)
  case (Cons c xs)
  then have "0 \<le> int_of 10 xs" "0 \<le> digit_val c" "digit_val c = 0 \<longleftrightarrow> c = CHR ''0''"
    using digits_nonneg [of xs] digit_facts(7) digit_zero_iff by auto
  then show ?case using Cons by (auto simp: int_of_Cons add_nonneg_eq_0_iff)
qed simp

lemma rstrip_last:
  assumes "rstrip_zeros s \<noteq> []" shows "last (rstrip_zeros s) \<noteq> CHR ''0''"
proof -
  have "dropWhile (\<lambda>c. c = CHR ''0'') (rev s) \<noteq> []" using assms by (simp add: rstrip_zeros_def)
  then have "hd (dropWhile (\<lambda>c. c = CHR ''0'') (rev s)) \<noteq> CHR ''0''" by (rule hd_dropWhile)
  then show ?thesis by (simp only: rstrip_zeros_def last_rev not_False_eq_True)
qed

lemma exact_digits_last:
  assumes "0 < m" "exact_digits m e = (ds, x)" shows "last ds \<noteq> CHR ''0''"
  using exact_digits_value(2) [OF assms] assms(2) rstrip_last by (auto simp: exact_digits_def split: if_splits)

section \<open>Rounding a digit string\<close>

text \<open>One more digit string of the same length, or a carry out of it.\<close>

lemma carried_digits:
  assumes h: "0 < h" and H: "10 ^ (h - 1) \<le> H" "H < 10 ^ h"
  defines "c \<equiv> digits_from_int (H + 1)"
  shows "set c \<subseteq> set DIGITS" "h \<le> length c" "length c = h \<Longrightarrow> int_of 10 c = H + 1"
    "h < length c \<Longrightarrow> int_of 10 (take h c) * 10 = H + 1"
proof -
  have H0: "0 \<le> H" using H(1) zero_le_power [of "10::int" "h - 1"] by linarith
  have c: "set c \<subseteq> set DIGITS" "c \<noteq> []" "int_of 10 c = H + 1" "hd c \<noteq> CHR ''0''"
    using digits_from_int_facts [of "H + 1"] H0 by (auto simp: c_def int_from_digits_def)
  then show "set c \<subseteq> set DIGITS" "length c = h \<Longrightarrow> int_of 10 c = H + 1" by blast+
  have b: "10 ^ (length c - 1) \<le> H + 1" "H + 1 < 10 ^ length c" using digits_ge [OF c(1,2,4)] digits_lt [OF c(1)] c(3) by simp_all
  have "(10::int) ^ (h - 1) < 10 ^ length c" using H(1) b(2) by linarith
  then show l: "h \<le> length c" using h by simp
  assume more: "h < length c"
  have "(10::int) ^ (length c - 1) \<le> 10 ^ h" using b(1) H(2) by linarith
  then have len: "length c = Suc h" using more by simp
  have top: "H + 1 = 10 ^ h" using b(1) H(2) len by simp
  have d: "drop h c = [c ! h]" using len by (simp add: Cons_nth_drop_Suc [of h c, symmetric])
  have "int_of 10 (take h c @ drop h c) = H + 1" using c(3) by simp
  then have e: "int_of 10 (take h c) * 10 + digit_val (c ! h) = H + 1" by (simp only: d int_of_snoc mult.commute)
  have dv: "0 \<le> digit_val (c ! h)" "digit_val (c ! h) < 10" using digit_facts(7,8) c(1) more nth_mem by blast+
  have "10 dvd (10::int) ^ h" using h by (simp add: dvd_power)
  then have "10 dvd digit_val (c ! h)" using e top by (metis dvd_add_right_iff dvd_triv_right)
  then have "digit_val (c ! h) = 0" using dv by (metis zdvd_not_zless order_le_less)
  then show "int_of 10 (take h c) * 10 = H + 1" using e by simp
qed

lemma discarded:
  assumes "set ds \<subseteq> set DIGITS" "h < length ds" "last ds \<noteq> CHR ''0''"
  defines "R \<equiv> int_of 10 (drop h ds)" and "r \<equiv> length ds - h"
  defines "f \<equiv> (of_int R / 10 ^ r :: real)" and "d \<equiv> digit_val (ds ! h)"
  shows "0 < f" "f < 1" "int_of 10 ds = int_of 10 (take h ds) * 10 ^ r + R" "5 \<le> d \<longleftrightarrow> 1/2 \<le> f"
    "list_ex (\<lambda>c. c \<noteq> CHR ''0'') (drop (h + 1) ds) \<or> d \<noteq> 0 \<and> d \<noteq> 5 \<longleftrightarrow> f \<noteq> 1/2"
proof -
  let ?t = "drop (h + 1) ds" let ?T = "int_of 10 ?t"
  have dr: "drop h ds = ds ! h # ?t" using assms(2) by (simp add: Cons_nth_drop_Suc)
  have sub: "set ?t \<subseteq> set DIGITS" "set (drop h ds) \<subseteq> set DIGITS" "ds ! h \<in> set DIGITS"
    using assms(1) set_drop_subset nth_mem [OF assms(2)] by fast+
  have r: "r = Suc (length ?t)" "length (drop h ds) = r" using assms(2) by (simp_all add: r_def)
  have R: "R = d * 10 ^ length ?t + ?T" by (simp add: R_def dr int_of_Cons d_def)
  have T: "0 \<le> ?T" "?T < 10 ^ length ?t" using digits_nonneg [OF sub(1)] digits_lt [OF sub(1)] by blast+
  have d: "0 \<le> d" "d < 10" using digit_facts(7,8) [OF sub(3)] by (simp_all add: d_def)
  have "last (drop h ds) \<noteq> CHR ''0''" "drop h ds \<noteq> []" using assms(2,3) by simp_all
  then have "list_ex (\<lambda>c. c \<noteq> CHR ''0'') (drop h ds)" unfolding list_ex_iff by (intro bexI [where x = "last (drop h ds)"] last_in_set)
  then have R0: "0 < R" using digits_zero_iff [OF sub(2)] digits_nonneg [OF sub(2)] by (simp add: R_def order_less_le)
  have RU: "R < 10 ^ r" using digits_lt [OF sub(2)] r(2) by (simp add: R_def)
  show "0 < f" using R0 by (simp add: f_def)
  have "(of_int R :: real) < of_int (10 ^ r)" using RU by (simp only: of_int_less_iff)
  then show "f < 1" by (simp add: f_def)
  have "int_of 10 (take h ds @ drop h ds) = int_of 10 (take h ds) * 10 ^ r + R" unfolding int_of_append r(2) R_def ..
  then show "int_of 10 ds = int_of 10 (take h ds) * 10 ^ r + R" by simp
  have half: "1/2 \<le> f \<longleftrightarrow> 5 * 10 ^ length ?t \<le> R" "f = 1/2 \<longleftrightarrow> R = 5 * 10 ^ length ?t"
  proof -
    have "1/2 \<le> f \<longleftrightarrow> (of_int (5 * 10 ^ length ?t) :: real) \<le> of_int R" "f = 1/2 \<longleftrightarrow> (of_int R :: real) = of_int (5 * 10 ^ length ?t)"
      by (auto simp: f_def r(1) field_simps)
    then show "1/2 \<le> f \<longleftrightarrow> 5 * 10 ^ length ?t \<le> R" "f = 1/2 \<longleftrightarrow> R = 5 * 10 ^ length ?t"
      by (simp_all only: of_int_le_iff of_int_eq_iff)
  qed
  have cmp: "5 * 10 ^ length ?t \<le> R \<longleftrightarrow> 5 \<le> d"
  proof
    assume "5 \<le> d"
    then have "5 * 10 ^ length ?t \<le> d * 10 ^ length ?t" by (intro mult_right_mono) simp_all
    then show "5 * 10 ^ length ?t \<le> R" using R T by linarith
  next
    assume a: "5 * 10 ^ length ?t \<le> R"
    show "5 \<le> d"
    proof (rule ccontr)
      assume "\<not> 5 \<le> d"
      then have "(d + 1) * 10 ^ length ?t \<le> 5 * 10 ^ length ?t" by (intro mult_right_mono) simp_all
      then have "d * 10 ^ length ?t + 10 ^ length ?t \<le> 5 * 10 ^ length ?t" by (simp only: distrib_right mult_1)
      then show False using a R T by linarith
    qed
  qed
  then show "5 \<le> d \<longleftrightarrow> 1/2 \<le> f" using half(1) by blast
  have five: "R = 5 * 10 ^ length ?t \<longleftrightarrow> d = 5 \<and> ?T = 0"
  proof
    assume a: "R = 5 * 10 ^ length ?t"
    have "d < 6"
    proof (rule ccontr)
      assume "\<not> d < 6"
      then have "6 * 10 ^ length ?t \<le> d * 10 ^ length ?t" by (intro mult_right_mono) simp_all
      then show False using a R T by linarith
    qed
    then have "d = 5" using cmp a by simp
    then show "d = 5 \<and> ?T = 0" using R a by simp
  qed (use R in simp)
  show "list_ex (\<lambda>c. c \<noteq> CHR ''0'') (drop (h + 1) ds) \<or> d \<noteq> 0 \<and> d \<noteq> 5 \<longleftrightarrow> f \<noteq> 1/2"
    unfolding half(2) five using R R0 digits_zero_iff [OF sub(1)] by auto
qed

lemma round_digits_value:
  assumes dir: "valid_dir rnd" and h: "0 < h" and ds: "set ds \<subseteq> set DIGITS" "ds \<noteq> []" "hd ds \<noteq> CHR ''0''" "last ds \<noteq> CHR ''0''"
    and res: "round_digits ds x h s rnd = (ds', x', inx)"
  defines "g \<equiv> x - (int h - 1)" and "v \<equiv> (of_int (int_of 10 ds) * 10 powi (x - (int (length ds) - 1)) :: real)"
  shows "set ds' \<subseteq> set DIGITS" "length ds' = h"
    "of_int (int_of 10 ds') * 10 powi (x' - (int h - 1)) = of_int (rint rnd s (v / 10 powi g)) * (10 powi g :: real)"
    "inx \<longleftrightarrow> of_int (rint rnd s (v / 10 powi g)) * 10 powi g \<noteq> v" "10 ^ (h - 1) \<le> v / 10 powi g"
proof -
  have p: "10 powi g \<noteq> (0 :: real)" by simp
  have "set ds' \<subseteq> set DIGITS \<and> length ds' = h \<and> of_int (int_of 10 ds') * 10 powi (x' - (int h - 1)) = of_int (rint rnd s (v / 10 powi g)) * (10 powi g :: real)
    \<and> (inx \<longleftrightarrow> of_int (rint rnd s (v / 10 powi g)) * 10 powi g \<noteq> v) \<and> 10 ^ (h - 1) \<le> v / 10 powi g"
  proof (cases "length ds \<le> h")
    case True
    then have r: "ds' = ds @ replicate (h - length ds) (CHR ''0'')" "x' = x" "\<not> inx" using res by (simp_all add: round_digits_def)
    have "x - (int (length ds) - 1) = int (h - length ds) + g" using True by (simp add: g_def)
    then have "v / 10 powi g = of_int (int_of 10 ds) * 10 ^ (h - length ds)" by (simp add: v_def power_int_add)
    also have "\<dots> = of_int (int_of 10 ds')" by (simp add: r int_of_append)
    finally have q: "v / 10 powi g = of_int (int_of 10 ds')" .
    then have v: "v = of_int (int_of 10 ds') * 10 powi g" using p by (simp add: nonzero_divide_eq_eq)
    have s: "set ds' \<subseteq> set DIGITS" "length ds' = h" "ds' \<noteq> []" "hd ds' \<noteq> CHR ''0''" using ds(1-3) True by (auto simp: r)
    have "(of_int (10 ^ (h - 1)) :: real) \<le> of_int (int_of 10 ds')" unfolding of_int_le_iff using digits_ge [OF s(1,3,4)] s(2) by simp
    then show ?thesis using s(1,2) r(2,3) v by (simp add: q g_def)
  next
    case False
    let ?H = "int_of 10 (take h ds)" let ?c = "digits_from_int (?H + 1)"
    define R where "R = int_of 10 (drop h ds)"
    define r where "r = length ds - h"
    define f where "f = (of_int R / 10 ^ r :: real)"
    have lt: "h < length ds" using False by simp
    note dis = discarded [OF ds(1) lt ds(4), folded R_def r_def, folded f_def]
    have t: "set (take h ds) \<subseteq> set DIGITS" "take h ds \<noteq> []" "hd (take h ds) \<noteq> CHR ''0''" "length (take h ds) = h"
      using ds h lt set_take_subset by (fastforce simp: hd_take)+
    have H: "10 ^ (h - 1) \<le> ?H" "?H < 10 ^ h" using digits_ge [OF t(1-3)] digits_lt [OF t(1)] t(4) by simp_all
    have "x - (int (length ds) - 1) = g - int r" using lt by (simp add: g_def r_def)
    then have "v / 10 powi g = of_int (int_of 10 ds) / 10 ^ r" by (simp add: v_def power_int_diff)
    also have "\<dots> = of_int ?H + f" unfolding dis(3) by (simp add: f_def add_divide_distrib)
    finally have q: "v / 10 powi g = of_int ?H + f" .
    have last: "truthy (digit_val (last (take h ds)) AND 1) \<longleftrightarrow> odd ?H"
    proof -
      have "?H = 10 * int_of 10 (butlast (take h ds)) + digit_val (last (take h ds))"
        using int_of_snoc [of 10 "butlast (take h ds)" "last (take h ds)"] t(2) by simp
      then show ?thesis by (simp add: and_one_eq odd_iff_mod_2_eq_one)
    qed
    define up where "up = round_up rnd s (if 5 \<le> digit_val (ds ! h) then 1 else 0)
      (if list_ex (\<lambda>c. c \<noteq> CHR ''0'') (drop (h + 1) ds) \<or> digit_val (ds ! h) \<noteq> 0 \<and> digit_val (ds ! h) \<noteq> 5 then 1 else 0)
      (digit_val (last (take h ds)) AND 1)"
    have ri: "rint rnd s (v / 10 powi g) = (if up then ?H + 1 else ?H)"
      unfolding q up_def using dis(4,5)
      by (intro rint_round_up dir dis(1,2) last) simp_all
    have out: "(ds', x', inx) = (if up then if h < length ?c then (take h ?c, x + 1, True) else (?c, x, True) else (take h ds, x, True))"
      using res [symmetric] False unfolding round_digits_def Let_def int_from_digits_def up_def [symmetric] by (simp only: if_False)
    note c = carried_digits [OF h H]
    have ne: "of_int (rint rnd s (v / 10 powi g)) \<noteq> v / 10 powi g" unfolding q ri [unfolded q] using dis(1,2) by auto
    have "inx \<and> set ds' \<subseteq> set DIGITS \<and> length ds' = h
      \<and> of_int (int_of 10 ds') * 10 powi (x' - (int h - 1)) = of_int (rint rnd s (v / 10 powi g)) * (10 powi g :: real)"
    proof (cases "up \<and> h < length ?c")
      case True
      then have o: "ds' = take h ?c" "x' - (int h - 1) = g + 1" inx using out by (simp_all add: g_def)
      have "(of_int (int_of 10 (take h ?c)) * 10 :: real) = of_int (?H + 1)" using c(4) True by (metis of_int_mult of_int_numeral)
      moreover have "10 powi (g + 1) = (10 * 10 powi g :: real)" by (simp add: power_int_add)
      ultimately have "of_int (int_of 10 ds') * 10 powi (x' - (int h - 1)) = of_int (?H + 1) * (10 powi g :: real)"
        unfolding o by (simp only: mult.assoc [symmetric])
      then show ?thesis using True o(1,3) c(1) set_take_subset [of h ?c] by (auto simp: ri)
    next
      case no: False
      then have "length ?c = h" if up using c(2) that by simp
      moreover have "x' - (int h - 1) = g" using no out by (auto simp: g_def split: if_splits)
      ultimately show ?thesis using no out c(1,3) t by (cases up) (simp_all add: ri)
    qed
    moreover have "(10 :: real) ^ (h - 1) \<le> of_int ?H" using H(1) by (metis of_int_le_iff of_int_numeral of_int_power)
    then have "10 ^ (h - 1) \<le> v / 10 powi g" unfolding q using dis(1) by linarith
    ultimately show ?thesis using ne p by (auto simp: nonzero_eq_divide_eq)
  qed
  then show "set ds' \<subseteq> set DIGITS" "length ds' = h"
    "of_int (int_of 10 ds') * 10 powi (x' - (int h - 1)) = of_int (rint rnd s (v / 10 powi g)) * (10 powi g :: real)"
    "inx \<longleftrightarrow> of_int (rint rnd s (v / 10 powi g)) * 10 powi g \<noteq> v" "10 ^ (h - 1) \<le> v / 10 powi g" by blast+
qed

section \<open>\<open>Pmin\<close>\<close>

text \<open>Neighbouring encodings are at least a \<open>2^-p\<close>-th of either apart.\<close>

lemma mag_gap:
  assumes "0 \<le> m" "0 \<le> n" "m \<noteq> n"
  shows "mag_val fmt m \<le> 2 ^ nat (prec fmt) * \<bar>mag_val fmt n - mag_val fmt m\<bar>"
proof -
  have pe: "2 ^ nat (prec fmt) = (2::real) * 2 ^ man_w fmt" by (simp add: prec_def nat_add_distrib)
  have step: "mag_val fmt (a + 1) \<le> 2 ^ nat (prec fmt) * (mag_val fmt (a + 1) - mag_val fmt a)" if "0 \<le> a" for a
  proof -
    note p = place_of_mag [OF that, of fmt]
    have "(of_int (sig_of fmt a + 1) :: real) \<le> of_int (2 * 2 ^ man_w fmt)" using p(4) unfolding of_int_le_iff by simp
    then have "of_int (sig_of fmt a + 1) * p2 (exp_of fmt a) \<le> 2 ^ nat (prec fmt) * p2 (exp_of fmt a)"
      unfolding pe by (intro mult_right_mono) simp_all
    moreover have "mag_val fmt a = of_int (sig_of fmt a) * p2 (exp_of fmt a)" by (rule mag_val_def)
    ultimately show ?thesis unfolding mag_val_Suc [OF that] by (simp add: distrib_right)
  qed
  show ?thesis
  proof (cases "m < n")
    case True
    then have "mag_val fmt (m + 1) \<le> mag_val fmt n" "mag_val fmt m \<le> mag_val fmt (m + 1)"
      using assms by (simp_all add: mag_val_le_iff)
    then have "mag_val fmt m \<le> 2 ^ nat (prec fmt) * (mag_val fmt (m + 1) - mag_val fmt m)" "mag_val fmt (m + 1) - mag_val fmt m \<le> \<bar>mag_val fmt n - mag_val fmt m\<bar>"
      using step [OF assms(1)] by linarith+
    then show ?thesis by (meson mult_left_mono order_trans zero_le_numeral zero_le_power)
  next
    case False
    then have "mag_val fmt n \<le> mag_val fmt (m - 1)" using assms by (simp add: mag_val_le_iff)
    then have "mag_val fmt m - mag_val fmt (m - 1) \<le> \<bar>mag_val fmt n - mag_val fmt m\<bar>" by linarith
    moreover have "mag_val fmt m \<le> 2 ^ nat (prec fmt) * (mag_val fmt m - mag_val fmt (m - 1))"
      using step [of "m - 1"] False assms by simp
    ultimately show ?thesis by (meson mult_left_mono order_trans zero_le_numeral zero_le_power)
  qed
qed

lemma pmin_loop_bound: "(2::int) ^ nat (prec fmt) \<le> 10 ^ pmin_loop fmt k"
proof (induction fmt k rule: pmin_loop.induct)
  case (1 fmt k)
  then show ?case by (cases "(10::int) ^ k < push_bit (nat (prec fmt)) 1") (simp_all add: pmin_loop.simps [of fmt k] del: push_bit_of_1, simp)
qed

lemma pmin_strict:
  assumes "pmin fmt \<le> int h" shows "2 ^ nat (prec fmt) < (10 :: real) ^ (h - 1)" "0 < h"
proof -
  let ?K = "pmin_loop fmt 0"
  have p: "0 < nat (prec fmt)" by simp
  have "(2::int) ^ nat (prec fmt) \<noteq> 10 ^ ?K"
  proof
    assume e: "(2::int) ^ nat (prec fmt) = 10 ^ ?K"
    have "?K \<noteq> 0"
    proof
      assume "?K = 0"
      with e have "2 * 2 ^ man_w fmt = (1::int)" by (simp add: prec_def nat_add_distrib)
      then show False by presburger
    qed
    then have "(10::int) dvd 10 ^ ?K" by (intro dvd_power) simp
    moreover have "(5::int) dvd 10" by simp
    ultimately have "(5::int) dvd 10 ^ ?K" by (rule dvd_trans [rotated])
    then have "(5::int) dvd 2 ^ nat (prec fmt)" using e by simp
    moreover have "coprime (5::int) (2 ^ nat (prec fmt))" by (intro coprime_power_right_iff [THEN iffD2]) (simp add: coprime_iff_gcd_eq_1 gcd_non_0_int)
    ultimately show False using coprime_absorb_left [of "5::int"] by force
  qed
  then have "(2::int) ^ nat (prec fmt) < 10 ^ ?K" using pmin_loop_bound [of fmt 0] by simp
  then have "(of_int (2 ^ nat (prec fmt)) :: real) < of_int (10 ^ ?K)" by (simp only: of_int_less_iff)
  then have a: "(2 :: real) ^ nat (prec fmt) < 10 ^ ?K" by simp
  have h: "?K \<le> h - 1" "0 < h" using assms by (simp_all add: pmin_def)
  have "(10 :: real) ^ ?K \<le> 10 ^ (h - 1)" using h(1) by (intro power_increasing) simp_all
  then show "2 ^ nat (prec fmt) < (10 :: real) ^ (h - 1)" using a by linarith
  show "0 < h" by (rule h)
qed

text \<open>A value closer to an operand than a \<open>2^-(p+1)\<close>-th of it rounds to that operand in the nearest directions.\<close>

lemma closer_half: "\<bar>a - y\<bar> \<le> \<bar>x - y\<bar> \<Longrightarrow> \<bar>a - x\<bar> \<le> 2 * \<bar>y - x\<bar>" for a x y :: real
  by (simp add: abs_if split: if_splits)

lemma nearest_recovers:
  assumes wf: "wf_fmt fmt" and x: "fits fmt x" "is_finite fmt x" "fval fmt x \<noteq> 0" and near: "to_nearest rnd"
    and y: "0 < y" "2 ^ nat (prec fmt) * (2 * \<bar>y - \<bar>fval fmt x\<bar>\<bar>) < \<bar>fval fmt x\<bar>"
  shows "fst (round_signed fmt rnd (sg (sgn_of fmt x) * y)) = x"
proof -
  let ?m = "mag_of fmt x" let ?s = "sgn_of fmt x"
  note s = fits_sgn [OF x(1)]
  have v: "\<bar>fval fmt x\<bar> = mag_val fmt ?m" using fval_eq [OF wf x(1,2)] by (simp add: abs_mult)
  have r: "0 \<le> rmag fmt rnd ?s y" by (rule rmag_nonneg [OF y(1)])
  have "rmag fmt rnd ?s y = ?m"
  proof (rule ccontr)
    assume ne: "rmag fmt rnd ?s y \<noteq> ?m"
    let ?r = "mag_val fmt (rmag fmt rnd ?s y)" let ?x = "mag_val fmt ?m"
    have "\<bar>?r - y\<bar> \<le> \<bar>?x - y\<bar>" by (rule rmag_nearest [OF near y(1) mag_bounds(1)])
    then have "\<bar>?r - ?x\<bar> \<le> 2 * \<bar>y - ?x\<bar>" by (rule closer_half)
    then have "2 ^ nat (prec fmt) * \<bar>?r - ?x\<bar> \<le> 2 ^ nat (prec fmt) * (2 * \<bar>y - ?x\<bar>)" by (intro mult_left_mono) simp_all
    moreover have "?x \<le> 2 ^ nat (prec fmt) * \<bar>?r - ?x\<bar>" using ne by (intro mag_gap mag_bounds r) simp
    ultimately show False using y(2) [unfolded v] by linarith
  qed
  moreover have "?m < inf_mag fmt" using x(2) by (simp add: is_finite_def)
  ultimately show ?thesis
    using sg_mult_less_0 [OF y(1) s] y(1) by (simp add: round_signed_def round_real_def abs_mult pack_fields)
qed

section \<open>The two operations\<close>

lemma lex_scientific:
  assumes s: "s = 0 \<or> s = 1" and ds: "ds \<noteq> []" "set ds \<subseteq> set DIGITS"
  shows "lex_decimal fmt (format_finite s ds x) = Inr (Finite s (int_of 10 ds) (x - (int (length ds) - 1)))"
proof -
  have ip: "take 1 ds \<noteq> []" "set (take 1 ds) \<subseteq> set DIGITS" "set (drop 1 ds) \<subseteq> set DIGITS"
    using ds set_take_subset [of 1 ds] set_drop_subset [of 1 ds] by auto
  have "x - int (length (drop 1 ds)) = x - (int (length ds) - 1)" using ds(1) by (cases ds) simp_all
  then show ?thesis unfolding format_finite_text [OF ds(1)] lex_decimal_text [OF s ip] by simp
qed

lemma to_decimal_rounded:
  assumes wf: "wf_fmt fmt" and x: "fits fmt x" "is_finite fmt x" "fval fmt x \<noteq> 0" and rnd: "valid_mode rnd" and h: "0 < h"
  obtains ds ex fl g where "to_decimal fmt x (int h) rnd = Inr (format_finite (sgn_of fmt x) ds ex, fl)"
    "set ds \<subseteq> set DIGITS" "length ds = h"
    "10 ^ (h - 1) \<le> \<bar>fval fmt x\<bar> / 10 powi g" "\<bar>fval fmt x\<bar> / 10 powi g < 10 ^ h"
    "of_int (int_of 10 ds) * 10 powi (ex - (int h - 1)) = of_int (rint rnd (sgn_of fmt x) (\<bar>fval fmt x\<bar> / 10 powi g)) * (10 powi g :: real)"
    "fl = (if of_int (rint rnd (sgn_of fmt x) (\<bar>fval fmt x\<bar> / 10 powi g)) * 10 powi g \<noteq> \<bar>fval fmt x\<bar> then FLAG_INEXACT else 0)"
proof -
  let ?s = "sgn_of fmt x"
  obtain m e where c: "c_decode fmt x = (CFinite, ?s, m, e, 0, 0)" "0 < m" "fval fmt x = sg ?s * (of_int m * p2 e)"
    by (rule c_decode_number [OF wf x])
  obtain ds ex where d: "exact_digits m e = (ds, ex)" by (cases "exact_digits m e")
  note v = exact_digits_value [OF c(2) d]
  obtain ds' ex' inx where r: "round_digits ds ex h ?s rnd = (ds', ex', inx)" by (cases "round_digits ds ex h ?s rnd")
  let ?v = "of_int (int_of 10 ds) * 10 powi (ex - (int (length ds) - 1)) :: real" and ?g = "ex - (int h - 1)"
  note rv = round_digits_value [OF valid_mode_dir [OF rnd] h v(1-3) exact_digits_last [OF c(2) d] r]
  have abs: "?v = \<bar>fval fmt x\<bar>" using c(2) by (simp add: v(4) c(3) abs_mult)
  have top: "?v / 10 powi ?g < 10 ^ h"
  proof -
    have "(of_int (int_of 10 ds) :: real) < of_int (10 ^ length ds)" using digits_lt [OF v(1)] by (simp only: of_int_less_iff)
    then have "?v < 10 powi (int (length ds)) * 10 powi (ex - (int (length ds) - 1))" by simp
    also have "\<dots> = 10 powi (int h) * 10 powi ?g" by (simp add: power_int_add [symmetric] del: power_int_of_nat)
    finally show ?thesis by (simp add: pos_divide_less_eq)
  qed
  show thesis
  proof (rule that)
    show "to_decimal fmt x (int h) rnd = Inr (format_finite ?s ds' ex', if inx then FLAG_INEXACT else 0)"
      using rnd h r d by (simp add: to_decimal_def finite_no_text [OF wf x(1,2)] c(1))
    show "(if inx then FLAG_INEXACT else 0) = (if of_int (rint rnd ?s (\<bar>fval fmt x\<bar> / 10 powi ?g)) * 10 powi ?g \<noteq> \<bar>fval fmt x\<bar> then FLAG_INEXACT else 0)"
      using rv(4) by (simp only: abs)
  qed (use rv(1-3,5) top in \<open>simp_all only: abs\<close>)
qed

lemma pmin_reads_back:
  assumes wf: "wf_fmt fmt" and x: "fits fmt x" "is_finite fmt x" "fval fmt x \<noteq> 0" and rnd: "valid_mode rnd" "to_nearest rnd"
    and rnd': "valid_mode rnd'" "to_nearest rnd'" and h: "pmin fmt \<le> int h"
  obtains t fl fl' where "to_decimal fmt x (int h) rnd = Inr (t, fl)" "from_decimal fmt t rnd' = Inr (x, fl')"
proof -
  let ?s = "sgn_of fmt x" let ?v = "\<bar>fval fmt x\<bar>"
  note p = pmin_strict [OF h]
  obtain ds ex fl g where t: "to_decimal fmt x (int h) rnd = Inr (format_finite ?s ds ex, fl)"
    "set ds \<subseteq> set DIGITS" "length ds = h" "10 ^ (h - 1) \<le> ?v / 10 powi g" "?v / 10 powi g < 10 ^ h"
    "of_int (int_of 10 ds) * 10 powi (ex - (int h - 1)) = of_int (rint rnd ?s (?v / 10 powi g)) * (10 powi g :: real)"
    by (rule to_decimal_rounded [OF wf x rnd(1) p(2)])
  let ?y = "of_int (rint rnd ?s (?v / 10 powi g)) * (10 powi g :: real)"
  have g: "0 < (10 :: real) powi g" by simp
  have big: "10 ^ (h - 1) * 10 powi g \<le> ?v" using t(4) by (simp add: pos_le_divide_eq)
  have "10 ^ (h - 1) \<le> rint rnd ?s (?v / 10 powi g)" by (rule rint_ge) (use t(4) in simp)
  then have "0 < rint rnd ?s (?v / 10 powi g)" using zero_less_power [of "10::int" "h - 1"] by linarith
  then have y: "0 < ?y" by simp
  have "?y - ?v = (of_int (rint rnd ?s (?v / 10 powi g)) - ?v / 10 powi g) * 10 powi g" by (simp add: left_diff_distrib)
  then have "\<bar>?y - ?v\<bar> = \<bar>of_int (rint rnd ?s (?v / 10 powi g)) - ?v / 10 powi g\<bar> * 10 powi g" by (simp add: abs_mult)
  also have "\<dots> \<le> 1 / 2 * 10 powi g" by (intro mult_right_mono rint_nearest rnd) simp
  finally have "2 * \<bar>?y - ?v\<bar> \<le> 10 powi g" by simp
  then have "2 ^ nat (prec fmt) * (2 * \<bar>?y - ?v\<bar>) \<le> 2 ^ nat (prec fmt) * 10 powi g" by (intro mult_left_mono) simp_all
  also have "\<dots> < 10 ^ (h - 1) * 10 powi g" by (intro mult_strict_right_mono p(1) g)
  finally have close: "2 ^ nat (prec fmt) * (2 * \<bar>?y - ?v\<bar>) < ?v" using big by linarith
  have ds: "ds \<noteq> []" "int_of 10 ds \<noteq> 0" using t(3,6) p(2) y by auto
  have "from_decimal fmt (format_finite ?s ds ex) rnd' = Inr (round_signed fmt rnd' (sg ?s * ?y))"
    unfolding read_scientific [OF wf rnd'(1) fits_sgn [OF x(1)] ds(1) t(2) ds(2)] t(3) t(6) ..
  moreover have "fst (round_signed fmt rnd' (sg ?s * ?y)) = x" by (rule nearest_recovers [OF wf x rnd'(2) y close])
  ultimately show thesis using t(1) by (intro that [of "format_finite ?s ds ex" fl "snd (round_signed fmt rnd' (sg ?s * ?y))"]) (simp_all add: prod_eq_iff)
qed

end
