(* ===== verification/CharsPayload.thy ===== *)
theory CharsPayload
  imports CharsDigits
begin

text \<open>
  Clause 9.7's payload operations: which operands are admissible payloads, what \<open>getPayload\<close> reads, and
  that \<open>setPayload\<close> and \<open>setPayloadSignaling\<close> write back what \<open>getPayload\<close> read.
\<close>

lemma payload_operand_value:
  assumes wf: "wf_fmt fmt" and x: "fits fmt x"
  shows "payload_operand fmt x = Some p \<longleftrightarrow> is_finite fmt x \<and> fval fmt x = of_int p \<and> 0 \<le> p \<and> p < max_payload fmt"
proof -
  have mp: "0 < max_payload fmt" by (simp add: max_payload_def)
  consider "\<not> is_finite fmt x" | "is_finite fmt x" "fval fmt x = 0" | "is_finite fmt x" "fval fmt x \<noteq> 0" by blast
  then show ?thesis
  proof cases
    case 1
    have "payload_operand fmt x = None"
    proof (cases "is_nan fmt x")
      case True
      then obtain p' g where "c_decode fmt x = (CNan, sgn_of fmt x, 0, 0, p', g)" using c_decode_nan [OF wf x] by blast
      then show ?thesis by (simp add: payload_operand_def)
    next
      case False
      then show ?thesis by (simp add: payload_operand_def c_decode_inf(1) [OF wf x 1])
    qed
    then show ?thesis using 1 by simp
  next
    case 2
    then show ?thesis using c_decode_zero [OF wf x 2] mp by (auto simp: payload_operand_def)
  next
    case 3
    obtain m e where c: "c_decode fmt x = (CFinite, sgn_of fmt x, m, e, 0, 0)" "0 < m"
      "fval fmt x = sg (sgn_of fmt x) * (of_int m * p2 e)" by (rule c_decode_number [OF wf x 3])
    show ?thesis
    proof (cases "sgn_of fmt x = 0")
      case False
      then have "fval fmt x < 0" using fits_sgn [OF x] c(2,3) by auto
      then show ?thesis using False by (simp add: payload_operand_def c(1))
    next
      case sgn: True
      show ?thesis
      proof (cases "0 \<le> e")
        case True
        then have "fval fmt x = of_int (m * 2 ^ nat e)" using c(3) sgn by (simp add: p2_nat)
        then show ?thesis using True sgn 3 c(2) by (auto simp: payload_operand_def c(1) push_bit_eq_mult Let_def simp del: of_int_mult split: if_splits)
      next
        case False
        define n where "n = nat (- e)"
        have p2: "p2 e = 1 / 2 ^ n" using False by (simp add: n_def power_int_def power_one_over inverse_eq_divide)
        have len: "bit_length m \<le> - e \<Longrightarrow> m mod 2 ^ n \<noteq> 0"
          using bit_length_le_iff [of m n] c(2) False by (simp add: n_def)
        have val: "fval fmt x = of_int q \<longleftrightarrow> m = q * 2 ^ n" for q
        proof -
          have "fval fmt x = of_int q \<longleftrightarrow> of_int m = (of_int (q * 2 ^ n) :: real)" using c(3) sgn by (simp add: p2 divide_eq_eq)
          then show ?thesis by (simp only: of_int_eq_iff)
        qed
        have code: "payload_operand fmt x =
          (if m mod 2 ^ n \<noteq> 0 \<or> max_payload fmt \<le> m div 2 ^ n then None else Some (m div 2 ^ n))"
          using False len sgn by (auto simp: payload_operand_def c(1) n_def [symmetric] bits_arith drop_bit_eq_div)
        show ?thesis unfolding code val using 3 c(2) by (auto simp: pos_imp_zdiv_nonneg_iff)
      qed
    qed
  qed
qed

lemma get_payload_value:
  assumes lad: "ladder_fmt fmt" and x: "fits fmt x" "is_nan fmt x"
    and c: "c_decode fmt x = (CNan, sgn_of fmt x, 0, 0, p, g)" "0 \<le> p" "p < max_payload fmt"
  obtains y where "get_payload fmt x = Inr y" "fits fmt y" "is_finite fmt y" "fval fmt y = of_int p"
proof (cases "p = 0")
  case True
  have wf: "wf_fmt fmt" using lad by simp
  have z: "zero_bits fmt 0 = pack fmt 0 0" by (rule zero_bits_pack)
  have m: "mag_of fmt (pack fmt 0 0) = 0" "sgn_of fmt (pack fmt 0 0) = 0" by (simp_all add: mag_of_def sgn_of_def)
  have fin: "is_finite fmt (zero_bits fmt 0)" unfolding is_finite_def z m by (rule inf_mag_pos [OF wf])
  have fit: "fits fmt (zero_bits fmt 0)" unfolding z by (rule fits_pack) simp_all
  have "fval fmt (zero_bits fmt 0) = of_int p" unfolding fval_eq [OF wf fit fin] unfolding z m by (simp add: True)
  with fit fin show thesis using True by (intro that [of "zero_bits fmt 0"]) (simp_all add: get_payload_def c(1))
next
  case False
  have wf: "wf_fmt fmt" and p: "prec fmt \<le> emax fmt" using lad by (simp_all add: ladder_fmt_def prec_def)
  have "(2::int) ^ (man_w fmt - 1) \<le> 2 ^ nat (prec fmt)" by (intro power_increasing) (simp_all add: prec_def nat_add_distrib)
  then have "max_payload fmt \<le> 2 ^ nat (prec fmt)" by (simp add: max_payload_def)
  then have "p \<noteq> 0" "\<bar>p\<bar> \<le> 2 ^ nat (prec fmt)" using False c(2,3) by simp_all
  then obtain y where y: "from_int fmt p RND_RNE = Inr (y, 0)" "fits fmt y" "is_finite fmt y" "fval fmt y = of_int p"
    by (rule from_int_exact [OF wf p valid_modes(1)])
  then have "round_pack fmt 0 p 0 RND_RNE = Inr (y, 0)" using False c(2) by (simp add: from_int_def)
  then show thesis using y that False by (simp add: get_payload_def c(1))
qed

lemma c_decode_snan: "c_decode fmt x = (CNan, s, 0, 0, p, g) \<Longrightarrow> is_snan fmt x \<longleftrightarrow> g = 1"
  by (auto simp: c_decode_def unpack_def is_snan_def Let_def split: if_splits)

text \<open>Reading a payload and writing it back, as a quiet or as a signaling NaN of positive sign.\<close>

lemma payload_round_trip:
  assumes lad: "ladder_fmt fmt" and x: "fits fmt x" "is_nan fmt x"
  obtains y where "get_payload fmt x = Inr y"
    "(if is_snan fmt x then set_payload_signaling fmt y else set_payload fmt y) = Inr (mag_of fmt x)"
proof -
  have wf: "wf_fmt fmt" using lad by simp
  obtain p g where c: "c_decode fmt x = (CNan, sgn_of fmt x, 0, 0, p, g)" "0 \<le> p" "p < max_payload fmt"
    "g = 0 \<or> g = 1 \<and> p \<noteq> 0" "nan_bits fmt (sgn_of fmt x) p g = Inr x" by (rule c_decode_nan [OF wf x])
  obtain y where y: "get_payload fmt x = Inr y" "fits fmt y" "is_finite fmt y" "fval fmt y = of_int p"
    by (rule get_payload_value [OF lad x c(1-3)])
  let ?M = "inf_mag fmt + (if g = 0 then max_payload fmt else 0) + p"
  have "(2::int) ^ man_w fmt = 2 * max_payload fmt"
    using wf_man_w [OF wf] unfolding max_payload_def by (cases "man_w fmt") simp_all
  then have M: "0 \<le> ?M" "?M < mag_lim fmt" using c(2,3) mag_lim_inf [of fmt] inf_mag_pos [OF wf] by auto
  have "x = pack fmt (sgn_of fmt x) ?M" using c(5) nan_bits_pack [OF wf c(2-4)] by simp
  then have "mag_of fmt x = ?M" using mag_of_pack [OF M] by metis
  then have n: "nan_bits fmt 0 p g = Inr (mag_of fmt x)" using nan_bits_pack [OF wf c(2-4), of 0] by simp
  have po: "payload_operand fmt y = Some p" using payload_operand_value [OF wf y(2)] y(3,4) c(2,3) by simp
  have "(if is_snan fmt x then set_payload_signaling fmt y else set_payload fmt y) = Inr (mag_of fmt x)"
    using n c(4) unfolding c_decode_snan [OF c(1)] by (auto simp: set_payload_signaling_def set_payload_def po)
  with y(1) show thesis by (rule that)
qed

end
