(* ===== verification/Sequences.thy ===== *)
theory Sequences
  imports Opcodes Clause5
begin

text \<open>
  Division, square root, integral rounding and scaling as fixed sequences of the engine's opcodes,
  \<^verbatim>\<open>python/cft_golden/sequences.py\<close>. Every step is a call of \<open>compute\<close>; an assertion or a missing
  dictionary key is an exception, and the \<open>while True\<close> loop of the scaling is a partial function.
\<close>

section \<open>The code\<close>

definition NEWTON :: "int \<rightharpoonup> nat" where "NEWTON = map_of [(24, 2), (53, 3), (113, 4), (237, 5)]"

definition op_step :: "fp_format \<Rightarrow> int \<Rightarrow> int \<Rightarrow> int option \<Rightarrow> int option \<Rightarrow> int \<Rightarrow> (int \<times> int) result" where
  "op_step fmt op a b c rnd =
    (let z = zero_bits fmt 0
     in compute fmt op a (case b of None \<Rightarrow> z | Some v \<Rightarrow> v) (case c of None \<Rightarrow> z | Some v \<Rightarrow> v) rnd)"

definition v_step :: "fp_format \<Rightarrow> int \<Rightarrow> int \<Rightarrow> int option \<Rightarrow> int option \<Rightarrow> int \<Rightarrow> int result" where
  "v_step fmt op a b c rnd = bind_r (op_step fmt op a b c rnd) (\<lambda>(bits, _). Inr bits)"

definition pow2_bits :: "fp_format \<Rightarrow> int \<Rightarrow> int result" where
  "pow2_bits fmt e = (if \<not> (emin fmt \<le> e \<and> e \<le> emax fmt) then Inl AssertionError
    else Inr (push_bit (man_w fmt) (e + bias fmt)))"

text \<open>The sign bit and the exponent field, as the module reads them off an encoding.\<close>

definition sign_bit :: "fp_format \<Rightarrow> int \<Rightarrow> int" where "sign_bit fmt x = drop_bit (width fmt - 1) x AND 1"
definition exp_field :: "fp_format \<Rightarrow> int \<Rightarrow> int" where "exp_field fmt x = drop_bit (man_w fmt) x AND exp_mask fmt"

definition newton_steps :: "fp_format \<Rightarrow> nat result" where
  "newton_steps fmt = (case NEWTON (int (man_w fmt) + 1) of None \<Rightarrow> Inl KeyError | Some n \<Rightarrow> Inr n)"

subsection \<open>Square root\<close>

definition sqrt_newton :: "fp_format \<Rightarrow> int \<Rightarrow> int \<Rightarrow> int \<Rightarrow> int result" where
  "sqrt_newton fmt nah three_half y =
    bind_r (v_step fmt OP_MUL y (Some y) None RND_RNE) (\<lambda>yy.
    bind_r (v_step fmt OP_FMA nah (Some yy) (Some three_half) RND_RNE) (\<lambda>t.
    v_step fmt OP_MUL y (Some t) None RND_RNE))"

definition sqrt_residual :: "fp_format \<Rightarrow> int \<Rightarrow> int \<Rightarrow> int result" where
  "sqrt_residual fmt acen s =
    bind_r (v_step fmt OP_NEG s None None RND_RNE) (\<lambda>ns. v_step fmt OP_FMA ns (Some s) (Some acen) RND_RNE)"

fun sqrt_restore :: "fp_format \<Rightarrow> int \<Rightarrow> nat \<Rightarrow> int \<Rightarrow> int result" where
  "sqrt_restore fmt acen 0 s1 = Inr s1"
| "sqrt_restore fmt acen (Suc n) s1 =
    bind_r (sqrt_residual fmt acen s1) (\<lambda>r.
    if truthy (sign_bit fmt r) \<and> r \<noteq> zero_bits fmt 1 then sqrt_restore fmt acen n (s1 - 1)
    else bind_r (sqrt_residual fmt acen (s1 + 1)) (\<lambda>rp.
      if \<not> truthy (sign_bit fmt rp) then sqrt_restore fmt acen n (s1 + 1) else Inr s1))"

definition sqrt_guard :: "fp_format \<Rightarrow> int \<Rightarrow> int \<Rightarrow> int \<Rightarrow> (int \<times> int) result" where
  "sqrt_guard fmt s1 e r =
    (if r = zero_bits fmt 0 \<or> r = zero_bits fmt 1 then Inr (0, 0)
     else bind_r (pow2_bits fmt e) (\<lambda>u.
     bind_r (v_step fmt OP_MUL s1 (Some u) None RND_RNE) (\<lambda>su.
     bind_r (v_step fmt OP_SUB r None (Some su) RND_RNE) (\<lambda>d1.
     bind_r (pow2_bits fmt (2 * e - 2)) (\<lambda>q.
     bind_r (v_step fmt OP_SUB d1 None (Some q) RND_RNE) (\<lambda>d2.
     Inr (if truthy (sign_bit fmt d2) then 0 else 1, 1)))))))"

definition sqrt_core :: "fp_format \<Rightarrow> int \<Rightarrow> int \<Rightarrow> int \<Rightarrow> (int \<times> int) result" where
  "sqrt_core fmt acen D2 rnd =
    bind_r (pow2_bits fmt (- 1)) (\<lambda>half.
    let three_half = push_bit (man_w fmt) (bias fmt) OR push_bit (man_w fmt - 1) 1 in
    if exp_field fmt acen = 0 then Inl AssertionError else
    bind_r (v_step fmt OP_RSQRT_SEED acen None None RND_RNE) (\<lambda>y0.
    bind_r (v_step fmt OP_NEG acen None None RND_RNE) (\<lambda>na.
    bind_r (v_step fmt OP_MUL na (Some half) None RND_RNE) (\<lambda>nah.
    bind_r (newton_steps fmt) (\<lambda>n.
    bind_r (fold_r (\<lambda>y _. sqrt_newton fmt nah three_half y) y0 [0..<n]) (\<lambda>y.
    bind_r (v_step fmt OP_MUL acen (Some y) None RND_RNE) (\<lambda>s0.
    bind_r (v_step fmt OP_MUL y (Some half) None RND_RNE) (\<lambda>h0.
    bind_r (sqrt_residual fmt acen s0) (\<lambda>r0.
    bind_r (v_step fmt OP_FMA r0 (Some h0) (Some s0) RND_RNE) (\<lambda>s1.
    bind_r (sqrt_restore fmt acen 2 s1) (\<lambda>s1.
    bind_r (sqrt_residual fmt acen s1) (\<lambda>r.
    let us = unpack fmt s1 in
    bind_r (sqrt_guard fmt s1 (u_e us) r) (\<lambda>(guard, sticky).
    let m = (push_bit 2 (u_m us) OR push_bit 1 guard) OR sticky; e = u_e us - 2 + D2
    in round_pack fmt 0 m e rnd)))))))))))))"

definition sqrt_seq :: "fp_format \<Rightarrow> int \<Rightarrow> int \<Rightarrow> (int \<times> int) result" where
  "sqrt_seq fmt xa rnd =
    (let ua = unpack fmt xa in
     if u_kind ua = KNan then sqrt_f fmt xa rnd
     else if u_kind ua = KZero then Inr (xa, 0)
     else if truthy (u_sign ua) then Inr (qnan_bits fmt, FLAG_INVALID)
     else if u_kind ua = KInf then Inr (xa, 0)
     else let p = prec fmt; k2 = p + (p AND 1) in
     bind_r (if exp_field fmt xa = 0
             then bind_r (pow2_bits fmt k2) (\<lambda>s. bind_r (v_step fmt OP_MUL xa (Some s) None RND_RNE) (\<lambda>a. Inr (a, - (k2 div 2))))
             else Inr (xa, 0)) (\<lambda>(a_eff, adj).
     let biased = exp_field fmt a_eff; E = biased - bias fmt; odd = E AND 1;
         acen = (a_eff AND man_mask fmt) OR push_bit (man_w fmt) (bias fmt) in
     bind_r (if truthy odd then bind_r (pow2_bits fmt 1) (\<lambda>t. v_step fmt OP_MUL acen (Some t) None RND_RNE) else Inr acen) (\<lambda>acen.
     sqrt_core fmt acen ((E - odd) div 2 + adj) rnd)))"

subsection \<open>Division\<close>

definition recip_newton :: "fp_format \<Rightarrow> int \<Rightarrow> int \<Rightarrow> int result" where
  "recip_newton fmt nb y =
    bind_r (v_step fmt OP_FMA nb (Some y) (Some (one_bits fmt 0)) RND_RNE) (\<lambda>e.
    v_step fmt OP_FMA y (Some e) (Some y) RND_RNE)"

definition refine_recip :: "fp_format \<Rightarrow> int \<Rightarrow> int result" where
  "refine_recip fmt b_eff =
    (if exp_field fmt b_eff = 0 then Inl AssertionError else
     bind_r (v_step fmt OP_RECIP_SEED b_eff None None RND_RNE) (\<lambda>y0.
     bind_r (v_step fmt OP_NEG b_eff None None RND_RNE) (\<lambda>nb.
     bind_r (newton_steps fmt) (\<lambda>n.
     fold_r (\<lambda>y _. recip_newton fmt nb y) y0 [0..<n]))))"

definition centre :: "fp_format \<Rightarrow> int \<Rightarrow> (int \<times> int) result" where
  "centre fmt x =
    (let biased = exp_field fmt x in
     if biased = 0 \<or> biased = exp_mask fmt then Inl AssertionError
     else Inr ((x AND man_mask fmt) OR push_bit (man_w fmt) (bias fmt), biased - bias fmt))"

definition div_residual :: "fp_format \<Rightarrow> int \<Rightarrow> int \<Rightarrow> int \<Rightarrow> int result" where
  "div_residual fmt nbc ac q = v_step fmt OP_FMA nbc (Some q) (Some ac) RND_RNE"

fun div_restore :: "fp_format \<Rightarrow> int \<Rightarrow> int \<Rightarrow> nat \<Rightarrow> int \<Rightarrow> int result" where
  "div_restore fmt nbc ac 0 q2 = Inr q2"
| "div_restore fmt nbc ac (Suc n) q2 =
    bind_r (div_residual fmt nbc ac q2) (\<lambda>r2.
    if truthy (sign_bit fmt r2) \<and> r2 \<noteq> zero_bits fmt 1 then div_restore fmt nbc ac n (q2 - 1)
    else bind_r (pow2_bits fmt (u_e (unpack fmt q2))) (\<lambda>u.
      bind_r (v_step fmt OP_FMA nbc (Some u) (Some r2) RND_RNE) (\<lambda>room.
      if \<not> truthy (sign_bit fmt room) \<and> room \<noteq> zero_bits fmt 0 then div_restore fmt nbc ac n (q2 + 1)
      else Inr q2)))"

definition div_guard :: "fp_format \<Rightarrow> int \<Rightarrow> int \<Rightarrow> int \<Rightarrow> (int \<times> int) result" where
  "div_guard fmt nbc e r2 =
    (if r2 = zero_bits fmt 0 \<or> r2 = zero_bits fmt 1 then Inr (0, 0)
     else bind_r (pow2_bits fmt (e - 1)) (\<lambda>u.
     bind_r (v_step fmt OP_FMA nbc (Some u) (Some r2) RND_RNE) (\<lambda>d.
     Inr (if d = zero_bits fmt 0 \<or> d = zero_bits fmt 1 then (1, 0)
          else if truthy (sign_bit fmt d) then (0, 1) else (1, 1)))))"

text \<open>From the centred operands to the packed quotient.\<close>

definition div_core :: "fp_format \<Rightarrow> int \<Rightarrow> int \<Rightarrow> int \<Rightarrow> int \<Rightarrow> int \<Rightarrow> (int \<times> int) result" where
  "div_core fmt sq ac bc D rnd =
    bind_r (refine_recip fmt bc) (\<lambda>y.
    bind_r (v_step fmt OP_NEG bc None None RND_RNE) (\<lambda>nbc.
    bind_r (v_step fmt OP_MUL ac (Some y) None RND_RNE) (\<lambda>q02.
    bind_r (div_residual fmt nbc ac q02) (\<lambda>r0.
    bind_r (v_step fmt OP_FMA r0 (Some y) (Some q02) RND_RNE) (\<lambda>q1.
    bind_r (div_residual fmt nbc ac q1) (\<lambda>r1.
    bind_r (v_step fmt OP_FMA r1 (Some y) (Some q1) RND_RTZ) (\<lambda>q2.
    bind_r (div_restore fmt nbc ac 2 q2) (\<lambda>q2.
    bind_r (div_residual fmt nbc ac q2) (\<lambda>r2.
    let u2 = unpack fmt q2 in
    bind_r (div_guard fmt nbc (u_e u2) r2) (\<lambda>(guard, sticky).
    let m = (push_bit 2 (u_m u2) OR push_bit 1 guard) OR sticky; e = u_e u2 + D - 2
    in round_pack fmt sq m e rnd))))))))))"

definition div_prenorm :: "fp_format \<Rightarrow> int \<Rightarrow> (int \<times> int) result" where
  "div_prenorm fmt x =
    (if exp_field fmt x = 0
     then bind_r (pow2_bits fmt (prec fmt)) (\<lambda>s. bind_r (v_step fmt OP_MUL x (Some s) None RND_RNE) (\<lambda>y. Inr (y, prec fmt)))
     else Inr (x, 0))"

definition div_seq :: "fp_format \<Rightarrow> int \<Rightarrow> int \<Rightarrow> int \<Rightarrow> (int \<times> int) result" where
  "div_seq fmt xa xb rnd =
    (let ua = unpack fmt xa; ub = unpack fmt xb in
     if u_kind ua = KNan \<or> u_kind ub = KNan then div_f fmt xa xb rnd else
     let sq = u_sign ua XOR u_sign ub in
     if u_kind ua = KInf then (if u_kind ub = KInf then Inr (qnan_bits fmt, FLAG_INVALID) else Inr (inf_bits fmt sq, 0))
     else if u_kind ub = KInf then Inr (zero_bits fmt sq, 0)
     else if u_kind ub = KZero then
       (if u_kind ua = KZero then Inr (qnan_bits fmt, FLAG_INVALID) else Inr (inf_bits fmt sq, FLAG_DIVZERO))
     else if u_kind ua = KZero then Inr (zero_bits fmt sq, 0)
     else
     bind_r (div_prenorm fmt xa) (\<lambda>(a_eff, sa).
     bind_r (div_prenorm fmt xb) (\<lambda>(b_eff, sb).
     bind_r (centre fmt a_eff) (\<lambda>(ac, ea).
     bind_r (centre fmt b_eff) (\<lambda>(bc, eb).
     div_core fmt sq ac bc (ea - eb + (sb - sa)) rnd)))))"

subsection \<open>Integral rounding and scaling\<close>

definition rint_seq :: "fp_format \<Rightarrow> int \<Rightarrow> int \<Rightarrow> bool \<Rightarrow> (int \<times> int) result" where
  "rint_seq fmt xa rnd exact =
    (let ua = unpack fmt xa in
     if u_kind ua = KNan then round_int fmt xa rnd exact
     else if u_kind ua = KInf \<or> bias fmt + int (man_w fmt) \<le> exp_field fmt xa then Inr (xa, 0)
     else bind_r (pow2_bits fmt (int (man_w fmt))) (\<lambda>cbits.
     bind_r (v_step fmt OP_COPYSIGN cbits (Some xa) None RND_RNE) (\<lambda>m.
     bind_r (v_step fmt OP_ADD xa None (Some m) rnd) (\<lambda>t.
     bind_r (v_step fmt OP_SUB t None (Some m) rnd) (\<lambda>u.
     bind_r (v_step fmt OP_COPYSIGN u (Some xa) None RND_RNE) (\<lambda>r.
     Inr (r, if exact \<and> r \<noteq> xa then FLAG_INEXACT else 0)))))))"

definition scale_factor_bits :: "fp_format \<Rightarrow> int \<Rightarrow> int result" where
  "scale_factor_bits fmt e =
    (if emin fmt \<le> e then pow2_bits fmt e
     else let lo = emin fmt - int (man_w fmt)
     in if \<not> lo \<le> e then Inl AssertionError else Inr (push_bit (nat (e - lo)) 1))"

partial_function (option) scaleb_loop :: "fp_format \<Rightarrow> int \<Rightarrow> int \<Rightarrow> int \<Rightarrow> int \<Rightarrow> (int \<times> int) result option" where
  "scaleb_loop fmt rnd remaining x flags =
    (let step = min remaining (emax fmt) in
     case bind_r (scale_factor_bits fmt step) (\<lambda>f. op_step fmt OP_MUL x (Some f) None rnd) of
       Inl err \<Rightarrow> Some (Inl err)
     | Inr (x', fl) \<Rightarrow>
         if remaining - step = 0 then Some (Inr (x', flags OR fl))
         else scaleb_loop fmt rnd (remaining - step) x' (flags OR fl))"

definition scaleb_seq :: "fp_format \<Rightarrow> int \<Rightarrow> int \<Rightarrow> int \<Rightarrow> (int \<times> int) result option" where
  "scaleb_seq fmt xa n rnd =
    (let ua = unpack fmt xa in
     if u_kind ua = KNan then Some (scaleb fmt xa n rnd)
     else if u_kind ua = KInf \<or> u_kind ua = KZero then Some (Inr (xa, 0))
     else if n < emin fmt - int (man_w fmt) then Some (scaleb fmt xa n rnd)
     else scaleb_loop fmt rnd (min n (3 * emax fmt)) xa 0)"

end
