(* ===== verification/StepValues.thy ===== *)
theory StepValues
  imports Sequences RoundedValue
begin

text \<open>
  What one step of a sequence delivers, over the values of the operands. \<open>rounds\<close> collects what a correctly
  rounded result promises whatever the direction: it lies on no other side of an operand value than the exact
  result does. The error bound of the nearest directions and truncation are further conjuncts. The lemmas give
  each opcode a sequence uses its step.
\<close>

section \<open>Rounded results\<close>

definition rep :: "fp_format \<Rightarrow> real \<Rightarrow> bool" where
  "rep fmt w \<longleftrightarrow> (\<exists>x. fits fmt x \<and> is_finite fmt x \<and> fval fmt x = w)"

definition rounds :: "fp_format \<Rightarrow> int \<Rightarrow> real \<Rightarrow> int \<Rightarrow> bool" where
  "rounds fmt rnd v z \<longleftrightarrow> fits fmt z \<and> is_finite fmt z \<and>
    (\<forall>w. rep fmt w \<longrightarrow> (w \<le> v \<longrightarrow> w \<le> fval fmt z) \<and> (v \<le> w \<longrightarrow> fval fmt z \<le> w)) \<and>
    (to_nearest rnd \<longrightarrow> (\<forall>w. rep fmt w \<longrightarrow> \<bar>fval fmt z - v\<bar> \<le> \<bar>w - v\<bar>) \<and>
      \<bar>fval fmt z - v\<bar> \<le> \<bar>v\<bar> / 2 ^ nat (prec fmt) + p2 (qmin fmt - 1)) \<and>
    (rnd = RND_RTZ \<and> 0 \<le> v \<longrightarrow> fval fmt z \<le> v)"

lemma roundsD:
  assumes "rounds fmt rnd v z"
  shows "fits fmt z" "is_finite fmt z" "rep fmt w \<Longrightarrow> w \<le> v \<Longrightarrow> w \<le> fval fmt z" "rep fmt w \<Longrightarrow> v \<le> w \<Longrightarrow> fval fmt z \<le> w"
    "to_nearest rnd \<Longrightarrow> rep fmt w \<Longrightarrow> \<bar>fval fmt z - v\<bar> \<le> \<bar>w - v\<bar>"
    "to_nearest rnd \<Longrightarrow> \<bar>fval fmt z - v\<bar> \<le> \<bar>v\<bar> / 2 ^ nat (prec fmt) + p2 (qmin fmt - 1)"
    "rnd = RND_RTZ \<Longrightarrow> 0 \<le> v \<Longrightarrow> fval fmt z \<le> v"
  using assms unfolding rounds_def by blast+

lemma rounds_rep: "rounds fmt rnd v z \<Longrightarrow> rep fmt (fval fmt z)"
  by (auto simp: rounds_def rep_def)

lemma rounds_exact: "rounds fmt rnd v z \<Longrightarrow> rep fmt v \<Longrightarrow> fval fmt z = v"
  by (rule order.antisym) (auto simp: rounds_def)

lemma rep_mag:
  assumes wf: "wf_fmt fmt" and m: "0 \<le> m" "m < inf_mag fmt"
  shows "rep fmt (mag_val fmt m)" "rep fmt (- mag_val fmt m)"
proof -
  have "m < mag_lim fmt" using m(2) inf_mag_less [of fmt] by linarith
  then have "fits fmt (pack fmt s m) \<and> is_finite fmt (pack fmt s m) \<and> fval fmt (pack fmt s m) = sg s * mag_val fmt m"
    if "s = 0 \<or> s = 1" for s
    using that m fval_pack [OF wf that m] by (simp add: wf del: pack_0)
  from this [of 0] this [of 1] show "rep fmt (mag_val fmt m)" "rep fmt (- mag_val fmt m)" unfolding rep_def by (metis mult_1 mult_minus1 sg_simps(1,2))+
qed

lemma rep_mag_cases:
  assumes wf: "wf_fmt fmt" and w: "rep fmt w"
  obtains m where "0 \<le> m" "m < inf_mag fmt" "w = mag_val fmt m \<or> w = - mag_val fmt m"
proof -
  obtain x where x: "fits fmt x" "is_finite fmt x" "fval fmt x = w" using w by (auto simp: rep_def)
  have "fval fmt x = sg (sgn_of fmt x) * mag_val fmt (mag_of fmt x)" by (rule fval_eq [OF wf x(1,2)])
  then show thesis using that [of "mag_of fmt x"] x fits_sgn [OF x(1)] by (auto simp: is_finite_def)
qed

lemma rep_uminus: "wf_fmt fmt \<Longrightarrow> rep fmt (- w) \<longleftrightarrow> rep fmt w"
  using rep_mag rep_mag_cases by (metis minus_minus)

lemma rep_0: "wf_fmt fmt \<Longrightarrow> rep fmt 0"
  using rep_mag(1) [of fmt 0] inf_mag_pos by simp

lemma rep_scaled:
  assumes wf: "wf_fmt fmt" and k: "\<bar>k\<bar> \<le> 2 ^ nat (prec fmt)" and q: "qmin fmt \<le> q" "of_int \<bar>k\<bar> * p2 q < p2 (emax fmt + 1)"
  shows "rep fmt (of_int k * p2 q)"
proof (cases "k = 0")
  case False
  have "\<bar>k\<bar> \<le> 2 ^ Suc (man_w fmt)" using k by (simp add: prec_def nat_add_distrib)
  then obtain m where m: "0 < m" "m < inf_mag fmt" "mag_val fmt m = of_int \<bar>k\<bar> * p2 q"
    using representable [OF wf _ _ q] False by (metis zero_less_abs_iff)
  then show ?thesis using rep_mag [OF wf _ m(2)] by (cases "0 \<le> k") (simp_all add: m(3))
qed (simp add: rep_0 [OF wf])

lemma rep_p2: "wf_fmt fmt \<Longrightarrow> qmin fmt \<le> q \<Longrightarrow> q \<le> emax fmt \<Longrightarrow> rep fmt (p2 q)"
  using rep_scaled [of fmt 1 q] by (simp add: zle_add1_eq_le)

lemma half_place_arith: "q \<le> a \<or> q \<le> b \<Longrightarrow> a \<le> c \<Longrightarrow> 0 < d \<Longrightarrow> d = c / 2 \<Longrightarrow> b / 2 = t \<Longrightarrow> 0 < t \<Longrightarrow> q / 2 \<le> d + t"
  for a b c d q t :: real
  by linarith

lemma half_place:
  assumes "0 < x" shows "p2 (rq fmt x) / 2 \<le> x / 2 ^ nat (prec fmt) + p2 (qmin fmt - 1)"
proof -
  have pe: "2 ^ nat (prec fmt) = (2::real) * 2 ^ man_w fmt" by (simp add: prec_def nat_add_distrib)
  have "p2 (rq fmt x) \<le> p2 (ilog2 x - int (man_w fmt)) \<or> p2 (rq fmt x) \<le> p2 (qmin fmt)" by (simp add: rq_def qmin_def) linarith
  moreover have "p2 (ilog2 x - int (man_w fmt)) \<le> x / 2 ^ man_w fmt" using ilog2_bounds(1) [OF assms] by (simp add: p2_diff divide_right_mono)
  moreover have "0 < x / 2 ^ nat (prec fmt)" using assms by simp
  moreover have "x / 2 ^ nat (prec fmt) = x / 2 ^ man_w fmt / 2" by (simp add: pe)
  moreover have "p2 (qmin fmt) / 2 = p2 (qmin fmt - 1)" by (simp add: p2_pred)
  moreover have "0 < p2 (qmin fmt - 1)" by simp
  ultimately show ?thesis by (rule half_place_arith)
qed

lemma nearest_error:
  assumes "to_nearest rnd" "0 < x"
  shows "\<bar>mag_val fmt (rmag fmt rnd s x) - x\<bar> \<le> x / 2 ^ nat (prec fmt) + p2 (qmin fmt - 1)"
proof -
  let ?q = "rq fmt x"
  have "mag_val fmt (rmag fmt rnd s x) - x = (of_int (rk fmt rnd s x) - x / p2 ?q) * p2 ?q"
    by (simp add: mag_val_rmag [OF assms(2)] left_diff_distrib)
  then have "\<bar>mag_val fmt (rmag fmt rnd s x) - x\<bar> = \<bar>of_int (rk fmt rnd s x) - x / p2 ?q\<bar> * p2 ?q" by (simp add: abs_mult)
  also have "\<dots> \<le> 1 / 2 * p2 ?q" unfolding rk_def by (intro mult_right_mono rint_nearest assms(1)) simp
  also have "\<dots> = p2 ?q / 2" by simp
  also have "\<dots> \<le> x / 2 ^ nat (prec fmt) + p2 (qmin fmt - 1)" by (rule half_place [OF assms(2)])
  finally show ?thesis .
qed

lemma rounds_signed:
  assumes wf: "wf_fmt fmt" and dir: "valid_dir rnd" and v: "v \<noteq> 0" "\<bar>v\<bar> \<le> p2 (emax fmt)"
  shows "rounds fmt rnd v (fst (round_signed fmt rnd v))" "sgn_of fmt (fst (round_signed fmt rnd v)) = (if v < 0 then 1 else 0)"
proof -
  define s where "s = (if v < 0 then 1 else 0 :: int)"
  let ?r = "rmag fmt rnd s \<bar>v\<bar>" and ?z = "fst (round_signed fmt rnd v)"
  have p: "0 < \<bar>v\<bar>" using v by simp
  have r0: "0 \<le> ?r" by (rule rmag_nonneg [OF p])
  have q: "qmin fmt \<le> emax fmt" using emin_le_emax [OF wf] by (simp add: qmin_def)
  obtain t where t: "0 < t" "t < inf_mag fmt" "mag_val fmt t = p2 (emax fmt)"
  proof -
    have "(1::int) \<le> 2 ^ Suc (man_w fmt)" by (rule one_le_power) simp
    then show thesis using representable [OF wf, of 1 "emax fmt"] q that by auto
  qed
  have "?r \<le> rmag fmt rnd s (p2 (emax fmt))" by (rule rmag_mono [OF p v(2)])
  also have "\<dots> = t" using rmag_exact [of t fmt rnd s] t by simp
  finally have fin: "?r < inf_mag fmt" using t(2) by linarith
  note f = round_signed_finite [OF wf v(1) fin [unfolded s_def], folded s_def]
  have val: "fval fmt ?z = sg s * mag_val fmt ?r" by (rule f(4))
  have vs: "v = sg s * \<bar>v\<bar>" by (simp add: s_def)
  have m0: "0 \<le> mag_val fmt ?r" using r0 by simp
  have side: "mag_val fmt m \<le> \<bar>v\<bar> \<Longrightarrow> mag_val fmt m \<le> mag_val fmt ?r" "\<bar>v\<bar> \<le> mag_val fmt m \<Longrightarrow> mag_val fmt ?r \<le> mag_val fmt m" if m: "0 \<le> m" for m
    using mag_le_rlo_iff [OF p m, of fmt] rhi_ge_iff [OF p m, of fmt] rmag_between(1) [of fmt "\<bar>v\<bar>" rnd s] rmag_between(2) [of fmt rnd s "\<bar>v\<bar>"] m r0
    by (simp_all add: mag_val_le_iff)
  have b: "(w \<le> v \<longrightarrow> w \<le> fval fmt ?z) \<and> (v \<le> w \<longrightarrow> fval fmt ?z \<le> w)" if w: "rep fmt w" for w
  proof -
    obtain m where m: "0 \<le> m" "m < inf_mag fmt" "w = mag_val fmt m \<or> w = - mag_val fmt m" by (rule rep_mag_cases [OF wf w])
    have "0 \<le> mag_val fmt m" using m(1) by simp
    then show ?thesis using side [OF m(1)] m(3) m0 p unfolding val by (cases "v < 0") (auto simp: s_def)
  qed
  have dist: "\<bar>fval fmt ?z - v\<bar> = \<bar>mag_val fmt ?r - \<bar>v\<bar>\<bar>" unfolding val by (simp add: s_def abs_if)
  have near: "\<bar>fval fmt ?z - v\<bar> \<le> \<bar>w - v\<bar>" if n: "to_nearest rnd" and w: "rep fmt w" for w
  proof -
    obtain m where m: "0 \<le> m" "m < inf_mag fmt" "w = mag_val fmt m \<or> w = - mag_val fmt m" by (rule rep_mag_cases [OF wf w])
    have "\<bar>mag_val fmt ?r - \<bar>v\<bar>\<bar> \<le> \<bar>mag_val fmt m - \<bar>v\<bar>\<bar>" by (rule rmag_nearest [OF n p m(1)])
    also have "\<dots> \<le> \<bar>w - v\<bar>" using m(3) mag_val_nonneg [OF m(1), of fmt] by linarith
    finally show ?thesis unfolding dist .
  qed
  have rtz: "fval fmt ?z \<le> v" if "rnd = RND_RTZ" "0 \<le> v"
  proof -
    have "mag_val fmt (rlo fmt \<bar>v\<bar>) \<le> \<bar>v\<bar>" using mag_le_rlo_iff [OF p rlo_nonneg [OF p], of fmt] by simp
    then show ?thesis using that unfolding val by (simp add: s_def rmag_directed)
  qed
  show "rounds fmt rnd v ?z"
    using f(2,3) b near rtz nearest_error [OF _ p, of rnd fmt s] unfolding rounds_def dist by (auto simp: dist)
  have "?r < mag_lim fmt" using fin inf_mag_less [of fmt] by linarith
  then have "sgn_of fmt ?z = s" unfolding f(1) by (rule sgn_of_pack [OF r0])
  then show "sgn_of fmt ?z = (if v < 0 then 1 else 0)" by (simp only: s_def)
qed

text \<open>The exact zero, whatever its sign.\<close>

lemma rounds_zero:
  assumes wf: "wf_fmt fmt" and s: "s = 0 \<or> s = 1"
  shows "rounds fmt rnd 0 (zero_bits fmt s)" "fval fmt (zero_bits fmt s) = 0"
  using fits_const(3) [OF wf s] finite_zero_bits [OF wf s] fval_zero_bits [OF wf s] by (simp_all add: rounds_def)

section \<open>The steps\<close>

lemma rounds_sum:
  assumes wf: "wf_fmt fmt" and rnd: "valid_mode rnd" and s: "s = 0 \<or> s = 1" "t = 0 \<or> t = 1" and v: "\<bar>v\<bar> \<le> p2 (emax fmt)"
  shows "rounds fmt rnd v (fst (sum_result fmt rnd s t v))"
proof (cases "v = 0")
  case True
  have "(if s = t then t else zero_sign_for_exact_cancellation rnd) = 0 \<or> (if s = t then t else zero_sign_for_exact_cancellation rnd) = 1"
    using s by (simp add: zero_sign_for_exact_cancellation_def)
  then show ?thesis unfolding sum_result_def if_P [OF True] fst_conv unfolding True by (rule rounds_zero(1) [OF wf])
next
  case False
  then show ?thesis using rounds_signed(1) [OF wf valid_mode_dir [OF rnd] False v] by (simp add: sum_result_def)
qed

lemma op_fma_fits:
  assumes wf: "wf_fmt fmt" and rnd: "valid_mode rnd"
    and f: "fits fmt a" "is_finite fmt a" "fits fmt b" "is_finite fmt b" "fits fmt c" "is_finite fmt c"
    and v: "\<bar>fval fmt a * fval fmt b + fval fmt c\<bar> \<le> p2 (emax fmt)"
  obtains z where "v_step fmt OP_FMA a (Some b) (Some c) rnd = Inr z" "rounds fmt rnd (fval fmt a * fval fmt b + fval fmt c) z"
proof -
  let ?v = "fval fmt a * fval fmt b + fval fmt c" and ?s = "sgn_of fmt a XOR sgn_of fmt b"
  have "?s = 0 \<or> ?s = 1" using xor_sign [OF fits_sgn [OF f(1)] fits_sgn [OF f(3)]] by blast
  then have "rounds fmt rnd ?v (fst (sum_result fmt rnd ?s (sgn_of fmt c) ?v))"
    by (rule rounds_sum [OF wf rnd _ fits_sgn [OF f(5)] v])
  moreover have "v_step fmt OP_FMA a (Some b) (Some c) rnd = Inr (fst (sum_result fmt rnd ?s (sgn_of fmt c) ?v))"
    unfolding v_step_def op_step_def Let_def option.case compute_fma fma_finite [OF wf f rnd] by (simp add: split_beta)
  ultimately show thesis by (intro that)
qed

lemma op_mul_fits:
  assumes wf: "wf_fmt fmt" and rnd: "valid_mode rnd"
    and f: "fits fmt a" "is_finite fmt a" "fits fmt b" "is_finite fmt b" and v: "\<bar>fval fmt a * fval fmt b\<bar> \<le> p2 (emax fmt)"
  obtains z where "v_step fmt OP_MUL a (Some b) None rnd = Inr z" "rounds fmt rnd (fval fmt a * fval fmt b) z"
proof -
  let ?v = "fval fmt a * fval fmt b" and ?s = "sgn_of fmt a XOR sgn_of fmt b"
  have s: "?s = 0 \<or> ?s = 1" using xor_sign [OF fits_sgn [OF f(1)] fits_sgn [OF f(3)]] by blast
  let ?z = "fst (if ?v = 0 then (zero_bits fmt ?s, 0) else round_signed fmt rnd ?v)"
  have "rounds fmt rnd ?v ?z"
    using rounds_zero(1) [OF wf s, of rnd] rounds_signed(1) [OF wf valid_mode_dir [OF rnd] _ v] by (cases "?v = 0") (simp_all del: mult_eq_0_iff)
  moreover have "v_step fmt OP_MUL a (Some b) None rnd = Inr ?z"
    unfolding v_step_def op_step_def Let_def option.case compute_mul [OF wf f(1,3)] mul_finite [OF wf f rnd] by (simp add: split_beta)
  ultimately show thesis by (intro that)
qed

lemma op_add_fits:
  assumes wf: "wf_fmt fmt" and rnd: "valid_mode rnd"
    and f: "fits fmt a" "is_finite fmt a" "fits fmt c" "is_finite fmt c" and v: "\<bar>fval fmt a + fval fmt c\<bar> \<le> p2 (emax fmt)"
  obtains z where "v_step fmt OP_ADD a None (Some c) rnd = Inr z" "rounds fmt rnd (fval fmt a + fval fmt c) z"
  using rounds_sum [OF wf rnd fits_sgn [OF f(1)] fits_sgn [OF f(3)] v]
  by (intro that) (simp_all add: v_step_def op_step_def compute_add [OF wf f(1,3)] add_finite [OF wf f rnd] split_beta)

lemma op_sub_fits:
  assumes wf: "wf_fmt fmt" and rnd: "valid_mode rnd"
    and f: "fits fmt a" "is_finite fmt a" "fits fmt c" "is_finite fmt c" and v: "\<bar>fval fmt a - fval fmt c\<bar> \<le> p2 (emax fmt)"
  obtains z where "v_step fmt OP_SUB a None (Some c) rnd = Inr z" "rounds fmt rnd (fval fmt a - fval fmt c) z"
proof -
  have "1 - sgn_of fmt c = 0 \<or> 1 - sgn_of fmt c = 1" using fits_sgn [OF f(3)] by auto
  from rounds_sum [OF wf rnd fits_sgn [OF f(1)] this v] show thesis
    by (intro that) (simp_all add: v_step_def op_step_def compute_sub [OF wf f(1,3)] sub_finite [OF wf f rnd] split_beta)
qed

lemma op_neg_fits:
  assumes wf: "wf_fmt fmt" and f: "fits fmt a" "is_finite fmt a"
  obtains z where "v_step fmt OP_NEG a None None rnd = Inr z" "fits fmt z" "is_finite fmt z" "fval fmt z = - fval fmt a"
proof -
  have "v_step fmt OP_NEG a None None rnd = Inr (negate fmt a)"
    by (simp add: v_step_def op_step_def compute_def SIMPLE_IMPL_def op_defs neg_def negate_def)
  then show thesis using f fval_negate [OF wf f] by (intro that) (simp_all add: is_finite_def)
qed

text \<open>The tests on a result: its sign bit and the two zeros.\<close>

lemma sign_bit_eq: "fits fmt x \<Longrightarrow> sign_bit fmt x = sgn_of fmt x"
  using fits_sgn [of fmt x] by (auto simp: sign_bit_def drop_bit_eq_div sgn_of_def and_one_eq)

lemma exp_field_eq: "fits fmt x \<Longrightarrow> exp_field fmt x = mag_of fmt x div 2 ^ man_w fmt"
  using raw_fields(2) [OF mag_bounds [of fmt x] fits_sgn [of fmt x]] by (simp add: exp_field_def pack_fields)

lemma exp_field_zero: "fits fmt x \<Longrightarrow> exp_field fmt x = 0 \<longleftrightarrow> mag_of fmt x < 2 ^ man_w fmt"
  using div_exp_less_iff [of "mag_of fmt x" "man_w fmt" 1] mag_bounds(1) [of fmt x] pos_imp_zdiv_nonneg_iff [of "2 ^ man_w fmt" "mag_of fmt x"]
  by (auto simp: exp_field_eq)

lemma zero_test:
  assumes wf: "wf_fmt fmt" and x: "fits fmt x" "is_finite fmt x"
  shows "x = zero_bits fmt 0 \<or> x = zero_bits fmt 1 \<longleftrightarrow> fval fmt x = 0"
    "truthy (sign_bit fmt x) \<and> x \<noteq> zero_bits fmt 1 \<longleftrightarrow> fval fmt x < 0"
    "\<not> truthy (sign_bit fmt x) \<and> x \<noteq> zero_bits fmt 0 \<longleftrightarrow> 0 < fval fmt x"
proof -
  have v: "fval fmt x = sg (sgn_of fmt x) * mag_val fmt (mag_of fmt x)" by (rule fval_eq [OF wf x])
  have m: "0 < mag_val fmt (mag_of fmt x) \<longleftrightarrow> mag_of fmt x \<noteq> 0" "0 \<le> mag_val fmt (mag_of fmt x)"
    using mag_val_pos_iff [OF mag_bounds(1) [of fmt x], of fmt] mag_bounds(1) [of fmt x] by (auto simp del: mag_bounds)
  have z: "x = zero_bits fmt s \<longleftrightarrow> sgn_of fmt x = s \<and> mag_of fmt x = 0" for s
    using pack_fields [of fmt x] sgn_of_pack [of 0 fmt s] mag_of_pack [of 0 fmt s] unfolding zero_bits_pack
    by (metis mag_lim_pos order_refl)
  show "x = zero_bits fmt 0 \<or> x = zero_bits fmt 1 \<longleftrightarrow> fval fmt x = 0"
    "truthy (sign_bit fmt x) \<and> x \<noteq> zero_bits fmt 1 \<longleftrightarrow> fval fmt x < 0"
    "\<not> truthy (sign_bit fmt x) \<and> x \<noteq> zero_bits fmt 0 \<longleftrightarrow> 0 < fval fmt x"
    using fits_sgn [OF x(1)] m unfolding v z sign_bit_eq [OF x(1)] by auto
qed

lemma pow2_bits_value:
  assumes wf: "wf_fmt fmt" and e: "emin fmt \<le> e" "e \<le> emax fmt"
  obtains u where "pow2_bits fmt e = Inr u" "fits fmt u" "is_finite fmt u" "fval fmt u = p2 e" "sgn_of fmt u = 0" "mag_of fmt u = u"
proof -
  let ?m = "(e + bias fmt) * 2 ^ man_w fmt"
  have b: "1 \<le> e + bias fmt" "e + bias fmt < exp_mask fmt"
    using e exp_mask_bias [OF wf] by (simp_all add: emin_def emax_def)
  then have "1 * 2 ^ man_w fmt \<le> ?m" by (intro mult_right_mono) simp_all
  then have m: "0 \<le> ?m" "2 ^ man_w fmt \<le> ?m" by (simp_all add: order_trans [of 0 "2 ^ man_w fmt"])
  have lt: "?m < inf_mag fmt" using b(2) by (simp add: inf_mag_def)
  then have lim: "?m < mag_lim fmt" using inf_mag_less [of fmt] by linarith
  have "place fmt (e - int (man_w fmt)) (2 ^ man_w fmt) = ?m" by (simp add: place_def qmin_def emin_def algebra_simps)
  moreover have "qmin fmt \<le> e - int (man_w fmt)" using e(1) by (simp add: qmin_def)
  ultimately have v: "mag_val fmt ?m = p2 e"
    using mag_val_place [of fmt "e - int (man_w fmt)" "2 ^ man_w fmt"] by (simp add: p2_diff)
  have p: "?m = pack fmt 0 ?m" by simp
  show thesis
  proof (rule that [of ?m])
    show "pow2_bits fmt e = Inr ?m" using e by (simp add: pow2_bits_def push_bit_eq_mult)
    show "fits fmt ?m" "sgn_of fmt ?m = 0" "mag_of fmt ?m = ?m" using m lim fits_pack [of 0 ?m fmt] sgn_of_pack [of ?m fmt 0] mag_of_pack [of ?m fmt 0] by simp_all
    then show "is_finite fmt ?m" using lt by (simp add: is_finite_def)
    show "fval fmt ?m = p2 e" using fval_pack [OF wf _ m(1) lt, of 0] v by simp
  qed
qed

end
