(* ===== verification/SeqRint.thy ===== *)
theory SeqRint
  imports StepValues
begin

text \<open>
  Rounding to an integer and scaling, as sequences: the magic-constant addition is \<open>round_int\<close> and the
  staged multiplication is \<open>scaleb\<close>, bit for bit and flag for flag.
\<close>

section \<open>Rounding to an integer\<close>

lemma rint_shift: "even k \<Longrightarrow> rint rnd s (of_int k + x) = k + rint rnd s x"
proof -
  assume e: "even k"
  have f: "\<lfloor>of_int k + x\<rfloor> = k + \<lfloor>x\<rfloor>" "\<lceil>of_int k + x\<rceil> = k + \<lceil>x\<rceil>" "\<lfloor>of_int k + x + 1/2\<rfloor> = k + \<lfloor>x + 1/2\<rfloor>" "\<lceil>of_int k + x - 1/2\<rceil> = k + \<lceil>x - 1/2\<rceil>"
    by linarith+
  show ?thesis using e unfolding rint_def f by auto
qed

lemma small_value:
  assumes wf: "wf_fmt fmt" and x: "fits fmt x" "is_finite fmt x" and e: "exp_field fmt x < bias fmt + int (man_w fmt)"
  shows "\<bar>fval fmt x\<bar> < 2 ^ man_w fmt"
proof -
  let ?n = "bias fmt + int (man_w fmt)"
  have "mag_of fmt x < ?n * 2 ^ man_w fmt" using e unfolding exp_field_eq [OF x(1)] by (simp add: div_exp_less_iff)
  moreover have n: "0 \<le> ?n * 2 ^ man_w fmt" using bias_pos [OF wf] by simp
  ultimately have "mag_val fmt (mag_of fmt x) < mag_val fmt (?n * 2 ^ man_w fmt)" by (simp add: mag_val_less_iff)
  also have "?n * 2 ^ man_w fmt = place fmt 0 (2 ^ man_w fmt)" by (simp add: place_def qmin_def emin_def algebra_simps)
  also have "mag_val fmt \<dots> = 2 ^ man_w fmt"
    using mag_val_place [of fmt 0 "2 ^ man_w fmt"] bias_pos [OF wf] by (simp add: qmin_def emin_def)
  finally show ?thesis using fval_eq [OF wf x] by (simp add: abs_mult)
qed

lemma op_copysign_fits:
  assumes wf: "wf_fmt fmt" and f: "fits fmt a" "fits fmt b"
  shows "v_step fmt OP_COPYSIGN a (Some b) None rnd = Inr (pack fmt (sgn_of fmt b) (mag_of fmt a))"
  using copysign_pack [OF f] by (simp add: v_step_def op_step_def compute_def SIMPLE_IMPL_def op_defs)

lemma same_mag:
  "wf_fmt fmt \<Longrightarrow> fits fmt x \<Longrightarrow> is_finite fmt x \<Longrightarrow> fits fmt y \<Longrightarrow> is_finite fmt y \<Longrightarrow> \<bar>fval fmt x\<bar> = \<bar>fval fmt y\<bar> \<Longrightarrow> mag_of fmt x = mag_of fmt y"
  by (simp add: fval_eq abs_mult mag_val_eq_iff)

lemma magic_add:
  assumes wf: "wf_fmt fmt" and p: "prec fmt \<le> emax fmt" and x: "fits fmt x" "is_finite fmt x" "\<bar>fval fmt x\<bar> < 2 ^ man_w fmt" and rnd: "valid_mode rnd"
    and m: "fits fmt m" "is_finite fmt m" "fval fmt m = sg (sgn_of fmt x) * 2 ^ man_w fmt"
  obtains t where "v_step fmt OP_ADD x None (Some m) rnd = Inr t" "fits fmt t" "is_finite fmt t"
    "fval fmt t = sg (sgn_of fmt x) * (2 ^ man_w fmt + of_int (rint rnd (sgn_of fmt x) \<bar>fval fmt x\<bar>))"
proof -
  let ?s = "sgn_of fmt x" let ?X = "\<bar>fval fmt x\<bar>" let ?C = "2 ^ man_w fmt"
  note s = fits_sgn [OF x(1)]
  have X: "fval fmt x = sg ?s * ?X" using fval_eq [OF wf x(1,2)] by (simp add: abs_mult)
  define v where "v = ?C + ?X"
  have v: "?C \<le> v" "v < 2 * ?C" "0 < v" using x(3) by (simp_all add: v_def add_pos_nonneg)
  have sum: "fval fmt x + fval fmt m = sg ?s * v" using X m(3) by (simp add: v_def distrib_left)
  have pe: "2 * ?C = p2 (prec fmt)" by (simp add: prec_def p2_succ)
  have "p2 (prec fmt) \<le> p2 (emax fmt)" using p by simp
  then have lim: "\<bar>sg ?s * v\<bar> \<le> p2 (emax fmt)" using v pe by (simp add: abs_mult del: p2_mono_iff)
  have nz: "sg ?s * v \<noteq> 0" using v s by auto
  have il: "ilog2 v = int (man_w fmt)" using v by (subst ilog2_eq_iff) (simp_all add: p2_succ)
  have "emin fmt \<le> int (man_w fmt)" using bias_pos [OF wf] by (simp add: emin_def)
  then have q: "rq fmt v = 0" by (simp add: rq_def il)
  have ev: "even ((2::int) ^ man_w fmt)" using wf_man_w [OF wf] by simp
  have rk: "rk fmt rnd ?s v = 2 ^ man_w fmt + rint rnd ?s ?X"
    unfolding rk_def q using rint_shift [OF ev, of rnd ?s ?X] by (simp add: v_def)
  have neg: "(if sg ?s * v < 0 then 1 else 0) = ?s" using sg_mult_less_0 [OF v(3) s] .
  obtain t where t: "v_step fmt OP_ADD x None (Some m) rnd = Inr t" "rounds fmt rnd (sg ?s * v) t"
    using op_add_fits [OF wf rnd x(1,2) m(1,2)] lim unfolding sum by blast
  have "t = fst (round_signed fmt rnd (sg ?s * v))"
    using t(1) nz unfolding v_step_def op_step_def Let_def option.case compute_add [OF wf x(1) m(1)] add_finite [OF wf x(1,2) m(1,2) rnd] sum
    by (simp add: sum_result_def split_beta)
  moreover have "rmag fmt rnd (if sg ?s * v < 0 then 1 else 0) \<bar>sg ?s * v\<bar> < inf_mag fmt"
  proof -
    have "mag_val fmt (rmag fmt rnd ?s v) \<le> 2 * ?C"
    proof -
      have "rint rnd ?s (v / p2 (rq fmt v)) \<le> 2 * 2 ^ man_w fmt" using v(2) by (intro rint_le) (simp add: q)
      then have "(of_int (rk fmt rnd ?s v) :: real) \<le> of_int (2 * 2 ^ man_w fmt)" unfolding of_int_le_iff rk_def .
      then show ?thesis unfolding mag_val_rmag [OF v(3)] q by simp
    qed
    also have "\<dots> < p2 (emax fmt + 1)" unfolding pe using p by simp
    finally have "mag_val fmt (rmag fmt rnd ?s v) < mag_val fmt (inf_mag fmt)" by (simp add: mag_val_inf_mag [OF wf])
    then have "rmag fmt rnd ?s v < inf_mag fmt"
      using rmag_nonneg [OF v(3)] inf_mag_pos [OF wf] by (simp add: mag_val_less_iff)
    then show ?thesis unfolding neg using v(3) by (simp add: abs_mult)
  qed
  note f = round_signed_finite(4) [OF wf nz this, unfolded neg]
  ultimately have "fval fmt t = sg ?s * mag_val fmt (rmag fmt rnd ?s v)" using v(3) by (simp add: f abs_mult)
  then have "fval fmt t = sg ?s * (?C + of_int (rint rnd ?s ?X))" unfolding mag_val_rmag [OF v(3)] rk q by simp
  then show thesis using that t(1) roundsD(1,2) [OF t(2)] by blast
qed

lemma rint_seq_round_int:
  assumes lad: "ladder_fmt fmt" and x: "fits fmt x" and rnd: "valid_mode rnd"
  shows "rint_seq fmt x rnd exact = round_int fmt x rnd exact"
proof -
  have wf: "wf_fmt fmt" and p: "prec fmt \<le> emax fmt" using lad by (simp_all add: ladder_fmt_def prec_def)
  let ?s = "sgn_of fmt x"
  consider "u_kind (unpack fmt x) = KNan" | "u_kind (unpack fmt x) = KInf"
    | "u_kind (unpack fmt x) \<noteq> KNan" "u_kind (unpack fmt x) \<noteq> KInf" "bias fmt + int (man_w fmt) \<le> exp_field fmt x"
    | "is_finite fmt x" "exp_field fmt x < bias fmt + int (man_w fmt)"
    using is_finite_kind [OF wf x] by fastforce
  then show ?thesis
  proof cases
    case 1
    then show ?thesis by (simp add: rint_seq_def)
  next
    case 2
    then show ?thesis using rnd by (simp add: rint_seq_def round_int_def)
  next
    case 3
    then have "0 < exp_field fmt x" using bias_pos [OF wf] by linarith
    then have "u_kind (unpack fmt x) = KNorm \<and> u_e (unpack fmt x) = exp_field fmt x - bias fmt - int (man_w fmt)"
      using 3 by (auto simp: unpack_def Let_def exp_field_def split: if_splits)
    then show ?thesis using 3 rnd by (simp add: rint_seq_def round_int_def Let_def)
  next
    case 4
    note fin = 4(1)
    have k: "u_kind (unpack fmt x) \<noteq> KNan" "u_kind (unpack fmt x) \<noteq> KInf" using is_finite_kind [OF wf x] fin by simp_all
    let ?X = "\<bar>fval fmt x\<bar>" let ?R = "rint rnd ?s ?X"
    note s = fits_sgn [OF x] and small = small_value [OF wf x 4]
    have e: "emin fmt \<le> int (man_w fmt)" "int (man_w fmt) \<le> emax fmt" using bias_pos [OF wf] p by (simp_all add: emin_def prec_def)
    obtain c where c: "pow2_bits fmt (int (man_w fmt)) = Inr c" "fits fmt c" "is_finite fmt c" "fval fmt c = p2 (int (man_w fmt))"
      by (rule pow2_bits_value [OF wf e])
    define m where "m = pack fmt ?s (mag_of fmt c)"
    have m: "fits fmt m" "is_finite fmt m" "fval fmt m = sg ?s * 2 ^ man_w fmt"
    proof -
      show "fits fmt m" unfolding m_def using s by simp
      show "is_finite fmt m" using c(3) by (simp add: is_finite_def m_def)
      have "mag_val fmt (mag_of fmt c) = 2 ^ man_w fmt"
      proof -
        have "\<bar>fval fmt c\<bar> = mag_val fmt (mag_of fmt c)" using fval_eq [OF wf c(2,3)] by (simp add: abs_mult)
        then show ?thesis using c(4) by simp
      qed
      then show "fval fmt m = sg ?s * 2 ^ man_w fmt"
        unfolding m_def using fval_pack [OF wf s mag_bounds(1)] c(3) by (simp add: is_finite_def)
    qed
    obtain t where t: "v_step fmt OP_ADD x None (Some m) rnd = Inr t" "fits fmt t" "is_finite fmt t"
      "fval fmt t = sg ?s * (2 ^ man_w fmt + of_int ?R)" by (rule magic_add [OF wf p x fin small rnd m])
    have R: "0 \<le> ?R" "?R \<le> 2 ^ man_w fmt" using small by (auto intro!: rint_nonneg rint_le)
    have diff: "fval fmt t - fval fmt m = of_int (if ?s = 0 then ?R else - ?R) * p2 0" using s t(4) m(3) by auto
    have Rr: "(of_int ?R :: real) \<le> of_int (2 ^ man_w fmt)" using R(2) by (simp only: of_int_le_iff)
    have "p2 (int (man_w fmt)) \<le> p2 (emax fmt)" using e(2) by (simp only: p2_mono_iff)
    moreover have "(of_int (2 ^ man_w fmt) :: real) = p2 (int (man_w fmt))" by simp
    ultimately have le: "of_int ?R \<le> p2 (emax fmt)" using Rr by linarith
    have size: "\<bar>if ?s = 0 then ?R else - ?R\<bar> = ?R" using R(1) by (cases "?s = 0") simp_all
    have "\<bar>fval fmt t - fval fmt m\<bar> = of_int ?R" unfolding diff using R(1) by auto
    then have lim: "\<bar>fval fmt t - fval fmt m\<bar> \<le> p2 (emax fmt)" using le by linarith
    obtain u where u: "v_step fmt OP_SUB t None (Some m) rnd = Inr u" "rounds fmt rnd (fval fmt t - fval fmt m) u"
      by (rule op_sub_fits [OF wf rnd t(2,3) m(1,2) lim])
    have "rep fmt (fval fmt t - fval fmt m)" unfolding diff
    proof (rule rep_scaled [OF wf])
      have "(2::int) ^ man_w fmt \<le> 2 ^ nat (prec fmt)" by (intro power_increasing) (simp_all add: prec_def)
      then show "\<bar>if ?s = 0 then ?R else - ?R\<bar> \<le> 2 ^ nat (prec fmt)" unfolding size using R by linarith
      show "qmin fmt \<le> 0" using bias_pos [OF wf] by (simp add: qmin_def emin_def)
      have "p2 (emax fmt) < p2 (emax fmt + 1)" by simp
      moreover have "of_int ?R * p2 0 \<le> p2 (emax fmt)" using le by simp
      ultimately show "of_int \<bar>if ?s = 0 then ?R else - ?R\<bar> * p2 0 < p2 (emax fmt + 1)" unfolding size by linarith
    qed
    then have uv: "\<bar>fval fmt u\<bar> = of_int ?R" using rounds_exact [OF u(2)] R unfolding diff by auto
    note uf = roundsD(1,2) [OF u(2)]
    define r where "r = pack fmt ?s (mag_of fmt u)"
    have code: "rint_seq fmt x rnd exact = Inr (r, if exact \<and> r \<noteq> x then FLAG_INEXACT else 0)"
      using k 4(2) unfolding rint_seq_def Let_def c(1) op_copysign_fits [OF wf c(2) x] m_def [symmetric] t(1) u(1) op_copysign_fits [OF wf uf(1) x] r_def [symmetric] bind_r_simps
      by simp
    have mag: "mag_of fmt u = mag_of fmt x \<longleftrightarrow> ?X \<in> \<int>"
    proof
      assume "mag_of fmt u = mag_of fmt x"
      then have "?X = of_int ?R" using uv fval_eq [OF wf uf] fval_eq [OF wf x fin] by (simp add: abs_mult)
      then show "?X \<in> \<int>" by (metis Ints_of_int)
    next
      assume "?X \<in> \<int>"
      then obtain j where "?X = of_int j" by (elim Ints_cases)
      then have "?X = of_int ?R" by simp
      then show "mag_of fmt u = mag_of fmt x" using uv by (intro same_mag [OF wf uf x fin]) simp
    qed
    have rx: "r = x \<longleftrightarrow> ?X \<in> \<int>"
      using mag pack_fields [of fmt x] mag_of_pack [of "mag_of fmt u" fmt ?s, OF mag_bounds] unfolding r_def by metis
    show ?thesis
    proof (cases "fval fmt x = 0")
      case True
      then have "is_zero fmt x" using unpack_cases(2) [OF wf x] fin by (simp add: is_zero_def)
      then have "round_int fmt x rnd exact = Inr (x, 0)" by (intro round_int_special(1) [OF wf x rnd]) simp
      moreover have "r = x" using True by (simp add: rx)
      ultimately show ?thesis by (simp add: code)
    next
      case False
      obtain b where b: "round_int fmt x rnd exact = Inr (b, if exact \<and> ?X \<notin> \<int> then FLAG_INEXACT else 0)"
        "fits fmt b" "is_finite fmt b" "sgn_of fmt b = ?s" "fval fmt b = sg ?s * of_int ?R"
        using round_int_finite [OF wf p x fin False rnd] by metis
      have "mag_of fmt u = mag_of fmt b" using uv b(5) R by (intro same_mag [OF wf uf b(2,3)]) (simp add: abs_mult)
      then have "r = b" using pack_fields [of fmt b] by (simp add: r_def b(4))
      then show ?thesis using rx by (auto simp: code b(1))
    qed
  qed
qed

section \<open>Scaling\<close>

lemma scale_factor_value:
  assumes wf: "wf_fmt fmt" and e: "qmin fmt \<le> e" "e \<le> emax fmt"
  obtains f where "scale_factor_bits fmt e = Inr f" "fits fmt f" "is_finite fmt f" "fval fmt f = p2 e" "sgn_of fmt f = 0"
proof (cases "emin fmt \<le> e")
  case True
  then show thesis using pow2_bits_value [OF wf True e(2)] that by (auto simp: scale_factor_bits_def)
next
  case False
  let ?m = "(2::int) ^ nat (e - qmin fmt)"
  have "nat (e - qmin fmt) < man_w fmt" using False e(1) by (simp add: qmin_def)
  then have lt: "?m < 2 ^ man_w fmt" by (intro power_strict_increasing) simp_all
  have m: "0 \<le> ?m" "?m < inf_mag fmt" using less_trans [OF lt man_less_inf [OF wf]] by simp_all
  then have lim: "?m < mag_lim fmt" using inf_mag_less [of fmt] by linarith
  have v: "mag_val fmt ?m = p2 e" using lt e(1) by (simp add: mag_val_def sig_of_def exp_of_def p2_nat [symmetric] p2_add [symmetric])
  show thesis
  proof (rule that [of ?m])
    show "scale_factor_bits fmt e = Inr ?m" using False e(1) by (simp add: scale_factor_bits_def qmin_def)
    show "fits fmt ?m" "sgn_of fmt ?m = 0" using m lim fits_pack [of 0 ?m fmt] sgn_of_pack [of ?m fmt 0] by simp_all
    show "is_finite fmt ?m" using m lim mag_of_pack [of ?m fmt 0] by (simp add: is_finite_def)
    show "fval fmt ?m = p2 e" using fval_pack [OF wf _ m, of 0] v by simp
  qed
qed

text \<open>A finite operand scaled upward is exact or past the overflow bound, where every rounding is the same.\<close>

lemma scaled_up_rep:
  assumes wf: "wf_fmt fmt" and x: "fits fmt x" "is_finite fmt x" "fval fmt x \<noteq> 0" and j: "0 \<le> j" "\<bar>fval fmt x\<bar> * p2 j < p2 (emax fmt + 1)"
  shows "rep fmt (fval fmt x * p2 j)"
proof -
  note b = unpack_bounds [OF wf x]
  have e: "\<bar>fval fmt x\<bar> * p2 j = of_int (u_m (unpack fmt x)) * p2 (u_e (unpack fmt x) + j)" by (simp add: b(5) p2_add)
  have "rep fmt (of_int (u_m (unpack fmt x)) * p2 (u_e (unpack fmt x) + j))"
  proof (rule rep_scaled [OF wf])
    show "\<bar>u_m (unpack fmt x)\<bar> \<le> 2 ^ nat (prec fmt)" using b(1,2) by (simp add: prec_def nat_add_distrib)
    show "qmin fmt \<le> u_e (unpack fmt x) + j" using b(3) j(1) by simp
    show "of_int \<bar>u_m (unpack fmt x)\<bar> * p2 (u_e (unpack fmt x) + j) < p2 (emax fmt + 1)" using j(2) b(1) e by simp
  qed
  then have "rep fmt (\<bar>fval fmt x\<bar> * p2 j)" by (simp only: e)
  then show ?thesis using rep_uminus [OF wf, of "\<bar>fval fmt x\<bar> * p2 j"] by (cases "0 \<le> fval fmt x") simp_all
qed

lemma round_signed_rep:
  assumes wf: "wf_fmt fmt" and v: "rep fmt v" "v \<noteq> 0"
  obtains y where "fits fmt y" "is_finite fmt y" "fval fmt y = v" "round_signed fmt rnd v = (y, 0)"
proof -
  obtain y where y: "fits fmt y" "is_finite fmt y" "fval fmt y = v" using v(1) by (auto simp: rep_def)
  then show thesis using round_signed_exact [OF wf y(1,2)] v(2) that by metis
qed

lemma round_signed_over:
  assumes wf: "wf_fmt fmt" and v: "p2 (emax fmt + 1) \<le> \<bar>v\<bar>"
  shows "round_signed fmt rnd v = (pack fmt (if v < 0 then 1 else 0)
    (if overflow_inf rnd (if v < 0 then 1 else 0) then inf_mag fmt else inf_mag fmt - 1), FLAG_OVERFLOW OR FLAG_INEXACT)"
proof -
  let ?s = "if v < 0 then 1 else 0 :: int"
  have "rmag fmt rnd ?s (mag_val fmt (inf_mag fmt)) = inf_mag fmt"
    using inf_mag_pos [OF wf] by (intro rmag_exact) (simp_all add: mag_val_inf_mag [OF wf])
  then have "inf_mag fmt \<le> rmag fmt rnd ?s \<bar>v\<bar>"
    using rmag_mono [of "mag_val fmt (inf_mag fmt)" "\<bar>v\<bar>" fmt rnd ?s] v by (simp add: mag_val_inf_mag [OF wf])
  then show ?thesis by (simp add: round_signed_def round_real_def)
qed

lemma op_mul_result:
  assumes wf: "wf_fmt fmt" and rnd: "valid_mode rnd" and f: "fits fmt a" "is_finite fmt a" "fits fmt b" "is_finite fmt b" "fval fmt a * fval fmt b \<noteq> 0"
  shows "op_step fmt OP_MUL a (Some b) None rnd = Inr (round_signed fmt rnd (fval fmt a * fval fmt b))"
  using f(5) by (simp add: op_step_def compute_mul [OF wf f(1,3)] mul_finite [OF wf f(1-4) rnd])

text \<open>One more stage after the operand has been scaled by \<open>2^j\<close>.\<close>

lemma scale_stage:
  assumes wf: "wf_fmt fmt" and rnd: "valid_mode rnd" and x: "fits fmt x" "is_finite fmt x" "fval fmt x \<noteq> 0"
    and j: "0 \<le> j" "round_signed fmt rnd (fval fmt x * p2 j) = (y, fl)"
    and k: "0 < k" and f: "fits fmt f" "is_finite fmt f" "fval fmt f = p2 k" "sgn_of fmt f = 0"
  obtains y' fl' where "op_step fmt OP_MUL y (Some f) None rnd = Inr (y', fl')" "(y', fl OR fl') = round_signed fmt rnd (fval fmt x * p2 (j + k))"
proof (cases "\<bar>fval fmt x\<bar> * p2 j < p2 (emax fmt + 1)")
  case True
  have nz: "fval fmt x * p2 j \<noteq> 0" using x(3) by simp
  obtain z where z: "fits fmt z" "is_finite fmt z" "fval fmt z = fval fmt x * p2 j" "round_signed fmt rnd (fval fmt x * p2 j) = (z, 0)"
    by (rule round_signed_rep [OF wf scaled_up_rep [OF wf x j(1) True] nz])
  have zy: "z = y" "fl = 0" using z(4) j(2) by simp_all
  have "fval fmt y * fval fmt f = fval fmt x * p2 (j + k)" using z(3) zy f(3) by (simp add: p2_add)
  then have "op_step fmt OP_MUL y (Some f) None rnd = Inr (round_signed fmt rnd (fval fmt x * p2 (j + k)))"
    using op_mul_result [OF wf rnd, of y f] z zy f x(3) by simp
  then show thesis using that zy(2) by (cases "round_signed fmt rnd (fval fmt x * p2 (j + k))") simp
next
  case False
  define s where "s = (if fval fmt x < 0 then 1 else 0 :: int)"
  have s: "s = 0 \<or> s = 1" by (simp add: s_def)
  have sgn: "(if fval fmt x * p2 i < 0 then 1 else 0) = s" for i by (simp add: s_def mult_less_0_iff)
  have over: "p2 (emax fmt + 1) \<le> \<bar>fval fmt x * p2 j\<bar>" using False by (simp add: abs_mult)
  have "p2 j \<le> p2 (j + k)" using k by simp
  then have "\<bar>fval fmt x\<bar> * p2 j \<le> \<bar>fval fmt x\<bar> * p2 (j + k)" by (intro mult_left_mono) simp_all
  then have over': "p2 (emax fmt + 1) \<le> \<bar>fval fmt x * p2 (j + k)\<bar>" using over by (simp add: abs_mult)
  let ?m = "if overflow_inf rnd s then inf_mag fmt else inf_mag fmt - 1"
  have r: "round_signed fmt rnd (fval fmt x * p2 (j + k)) = (pack fmt s ?m, FLAG_OVERFLOW OR FLAG_INEXACT)"
    using round_signed_over [OF wf over', of rnd] unfolding sgn .
  have y: "y = pack fmt s ?m" "fl = FLAG_OVERFLOW OR FLAG_INEXACT" using round_signed_over [OF wf over, of rnd] j(2) unfolding sgn by simp_all
  have i: "0 < inf_mag fmt" "inf_mag fmt < mag_lim fmt" by (simp_all add: inf_mag_pos [OF wf])
  have m: "0 \<le> ?m" "?m < mag_lim fmt" using i inf_mag_less [of fmt] by (simp_all add: less_trans [OF _ inf_mag_less [of fmt]])
  have yf: "fits fmt y" "mag_of fmt y = ?m" "sgn_of fmt y = s"
    unfolding y using fits_pack [OF s m] mag_of_pack [OF m] sgn_of_pack [OF m] by blast+
  show thesis
  proof (cases "overflow_inf rnd s")
    case True
    then have inf: "u_kind (unpack fmt y) = KInf" using yf i kind_of_iff [OF wf, of "mag_of fmt y"] by (simp add: u_kind_unpack [OF wf yf(1)])
    have kf: "u_kind (unpack fmt f) \<noteq> KNan" "u_kind (unpack fmt f) \<noteq> KInf" "u_kind (unpack fmt f) \<noteq> KZero"
      using unpack_kinds [OF wf f(1,2)] f(3) by simp_all
    have "op_step fmt OP_MUL y (Some f) None rnd = Inr (inf_bits fmt s, 0)"
      using rnd inf kf yf(1,3) f(1,4) wf by (simp add: op_step_def compute_mul [OF wf yf(1) f(1)] mul_def Let_def)
    then show thesis using that r y(2) True by (simp add: inf_bits_pack [OF wf])
  next
    case no: False
    have fin: "is_finite fmt y" using yf(2) no by (simp add: is_finite_def)
    have top: "p2 (emax fmt) \<le> mag_val fmt (inf_mag fmt - 1)"
    proof -
      obtain t where t: "0 < t" "t < inf_mag fmt" "mag_val fmt t = p2 (emax fmt)"
      proof -
        have "(1::int) \<le> 2 ^ Suc (man_w fmt)" by (rule one_le_power) simp
        moreover have "qmin fmt \<le> emax fmt" using emin_le_emax [OF wf] by (simp add: qmin_def)
        ultimately show thesis using representable [OF wf, of 1 "emax fmt"] that by auto
      qed
      then have "mag_val fmt t \<le> mag_val fmt (inf_mag fmt - 1)" by (subst mag_val_le_iff) simp_all
      then show ?thesis using t(3) by simp
    qed
    have yv: "fval fmt y = sg s * mag_val fmt (inf_mag fmt - 1)" using fval_eq [OF wf yf(1) fin] yf(2,3) no by simp
    have "p2 1 \<le> p2 k" using k by (subst p2_mono_iff) simp
    then have "p2 (emax fmt) * p2 1 \<le> mag_val fmt (inf_mag fmt - 1) * p2 k" using top i(1) by (intro mult_mono mag_val_nonneg) simp_all
    moreover have "\<bar>mag_val fmt (inf_mag fmt - 1)\<bar> = mag_val fmt (inf_mag fmt - 1)" using i(1) by simp
    ultimately have big: "p2 (emax fmt + 1) \<le> \<bar>fval fmt y * fval fmt f\<bar>" by (simp add: yv f(3) abs_mult p2_add)
    have "0 < mag_val fmt (inf_mag fmt - 1)" using top p2_pos [of "emax fmt"] by linarith
    then have "(if fval fmt y * fval fmt f < 0 then 1 else 0) = s" "fval fmt y * fval fmt f \<noteq> 0"
      using s by (auto simp: yv f(3) mult_less_0_iff zero_less_mult_iff)
    then have "op_step fmt OP_MUL y (Some f) None rnd = Inr (pack fmt s ?m, FLAG_OVERFLOW OR FLAG_INEXACT)"
      using op_mul_result [OF wf rnd yf(1) fin f(1,2)] round_signed_over [OF wf big, of rnd] by simp
    then show thesis using that r y(2) by simp
  qed
qed

lemma scaleb_loop_value:
  assumes wf: "wf_fmt fmt" and rnd: "valid_mode rnd" and x: "fits fmt x" "is_finite fmt x" "fval fmt x \<noteq> 0"
  shows "0 \<le> j \<Longrightarrow> 0 < n \<Longrightarrow> round_signed fmt rnd (fval fmt x * p2 j) = (y, fl) \<Longrightarrow>
    scaleb_loop fmt rnd n y fl = Some (Inr (round_signed fmt rnd (fval fmt x * p2 (j + n))))"
proof (induction "nat n" arbitrary: n j y fl rule: less_induct)
  case less
  have e: "0 < emax fmt" using bias_pos [OF wf] by (simp add: emax_def)
  let ?k = "min n (emax fmt)"
  have k: "0 < ?k" "?k \<le> emax fmt" using less.prems(2) e by simp_all
  have "qmin fmt \<le> ?k" using k(1) bias_pos [OF wf] by (simp add: qmin_def emin_def)
  then obtain f where f: "scale_factor_bits fmt ?k = Inr f" "fits fmt f" "is_finite fmt f" "fval fmt f = p2 ?k" "sgn_of fmt f = 0"
    using scale_factor_value [OF wf _ k(2)] by metis
  obtain y' fl' where s: "op_step fmt OP_MUL y (Some f) None rnd = Inr (y', fl')" "(y', fl OR fl') = round_signed fmt rnd (fval fmt x * p2 (j + ?k))"
    by (rule scale_stage [OF wf rnd x less.prems(1,3) k(1) f(2-5)])
  have unf: "scaleb_loop fmt rnd n y fl = (if n - ?k = 0 then Some (Inr (y', fl OR fl')) else scaleb_loop fmt rnd (n - ?k) y' (fl OR fl'))"
    by (subst scaleb_loop.simps) (simp add: Let_def f(1) s(1))
  show ?case
  proof (cases "n - ?k = 0")
    case True
    then show ?thesis using unf s(2) by simp
  next
    case False
    then have n: "0 < n - ?k" "nat (n - ?k) < nat n" using k less.prems(2) by auto
    have "scaleb_loop fmt rnd (n - ?k) y' (fl OR fl') = Some (Inr (round_signed fmt rnd (fval fmt x * p2 (j + ?k + (n - ?k)))))"
      using less.prems(1) k(1) n(1) s(2) by (intro less.hyps [OF n(2)]) simp_all
    then show ?thesis unfolding unf if_not_P [OF False] by simp
  qed
qed

lemma scaleb_seq_scaleb:
  assumes lad: "ladder_fmt fmt" and x: "fits fmt x" and rnd: "valid_mode rnd"
  shows "scaleb_seq fmt x n rnd = Some (scaleb fmt x n rnd)"
proof (cases "u_kind (unpack fmt x) = KNan \<or> u_kind (unpack fmt x) = KInf \<or> u_kind (unpack fmt x) = KZero \<or> n < qmin fmt")
  case True
  then show ?thesis using rnd by (auto simp: scaleb_seq_def scaleb_def qmin_def Let_def)
next
  case False
  have wf: "wf_fmt fmt" using lad by simp
  have fin: "is_finite fmt x" "fval fmt x \<noteq> 0" using False unpack_cases(2,4) [OF wf x] by auto
  have code: "scaleb_seq fmt x n rnd = scaleb_loop fmt rnd (min n (3 * emax fmt)) x 0"
    using False by (simp add: scaleb_seq_def qmin_def)
  have spec: "scaleb fmt x n rnd = Inr (round_signed fmt rnd (fval fmt x * p2 n))" by (rule scaleb_finite [OF wf x fin rnd])
  have e: "0 < emax fmt" using bias_pos [OF wf] by (simp add: emax_def)
  show ?thesis
  proof (cases "0 < n")
    case True
    let ?n = "min n (3 * emax fmt)"
    have "scaleb_loop fmt rnd ?n x 0 = Some (Inr (round_signed fmt rnd (fval fmt x * p2 (0 + ?n))))"
      using True e round_signed_exact [OF wf x fin] by (intro scaleb_loop_value [OF wf rnd x fin]) simp_all
    moreover have "round_signed fmt rnd (fval fmt x * p2 ?n) = round_signed fmt rnd (fval fmt x * p2 n)"
    proof (cases "n \<le> 3 * emax fmt")
      case big: False
      note b = unpack_bounds [OF wf x fin]
      have "1 * p2 (qmin fmt) \<le> of_int (u_m (unpack fmt x)) * p2 (u_e (unpack fmt x))" using b(1,3) by (intro mult_mono) simp_all
      then have low: "p2 (qmin fmt) \<le> \<bar>fval fmt x\<bar>" by (simp add: b(5))
      have over: "p2 (emax fmt + 1) \<le> \<bar>fval fmt x * p2 i\<bar>" if "3 * emax fmt \<le> i" for i
      proof -
        have "emax fmt + 1 \<le> qmin fmt + i" using that lad by (simp add: ladder_fmt_def qmin_def emin_def emax_def prec_def)
        then have "p2 (emax fmt + 1) \<le> p2 (qmin fmt) * p2 i" by (simp add: p2_add [symmetric])
        also have "\<dots> \<le> \<bar>fval fmt x\<bar> * p2 i" using low by (intro mult_right_mono) simp_all
        finally show ?thesis by (simp add: abs_mult)
      qed
      show ?thesis
        using big round_signed_over [OF wf over [of "3 * emax fmt"], of rnd] round_signed_over [OF wf over [of n], of rnd]
        by (simp add: mult_less_0_iff)
    qed simp
    ultimately show ?thesis by (simp add: code spec)
  next
    case neg: False
    then have "min n (3 * emax fmt) = n" "min n (emax fmt) = n" using e by simp_all
    moreover obtain f where f: "scale_factor_bits fmt n = Inr f" "fits fmt f" "is_finite fmt f" "fval fmt f = p2 n"
      using scale_factor_value [OF wf, of n] False neg e by (metis linorder_not_less order_less_le_trans order_less_imp_le)
    ultimately have "scaleb_loop fmt rnd (min n (3 * emax fmt)) x 0 = Some (Inr (round_signed fmt rnd (fval fmt x * p2 n)))"
      using op_mul_result [OF wf rnd x fin(1) f(2,3)] fin(2)
      by (subst scaleb_loop.simps) (simp add: Let_def split: prod.split)
    then show ?thesis by (simp add: code spec)
  qed
qed

end
