(* ===== verification/SeqDiv.thy ===== *)
theory SeqDiv
  imports StepValues CharsDigits
begin

text \<open>
  Division as a sequence is division. The reciprocal doubles its correct bits at every Newton step, the
  quotient the sequence truncates is at most one place away from the floor, the restore step finds the floor,
  and the guard and sticky bits it measures round as the exact quotient does.
\<close>

section \<open>Error analysis over the reals\<close>

text \<open>\<open>H\<close> is the relative error of one rounding, \<open>T\<close> the absolute error near zero.\<close>

lemma abs_prod_le: "\<bar>a\<bar> \<le> A \<Longrightarrow> \<bar>b\<bar> \<le> B \<Longrightarrow> \<bar>a * b\<bar> \<le> A * B" for a b A B :: real
  unfolding abs_mult by (intro mult_mono) simp_all

lemma newton_error:
  fixes b y e y' B H T :: real
  assumes b: "1 \<le> b" "b < 2" and H: "0 < H" "H \<le> 1 / 1048576" "0 \<le> T" "T \<le> H * H" and B: "0 \<le> B" "B \<le> 1 / 256"
    and d: "\<bar>1 - b * y\<bar> \<le> B + 5 / 4 * H"
    and e: "\<bar>e - (1 - b * y)\<bar> \<le> \<bar>1 - b * y\<bar> * H + T"
    and y': "\<bar>y' - (y + y * e)\<bar> \<le> \<bar>y + y * e\<bar> * H + T"
  shows "\<bar>1 - b * y'\<bar> \<le> B * B + 5 / 4 * H"
proof -
  define D where "D = 1 - b * y"
  define e1 where "e1 = e - D"
  define e2 where "e2 = y' - (y + y * e)"
  define z where "z = b * (y + y * e)"
  have HH: "H * H \<le> H / 1048576" using mult_left_mono [OF H(2), of H] H(1) by simp
  have D: "\<bar>D\<bar> \<le> B + 5 / 4 * H" "\<bar>D\<bar> \<le> 1 / 200" using d H B by (simp_all add: D_def)
  have "\<bar>D\<bar> * H \<le> 1 / 200 * H" using D(2) H(1) by (intro mult_right_mono) simp_all
  then have e1: "\<bar>e1\<bar> \<le> H / 100" using e HH H(1,4) unfolding e1_def D_def by linarith
  have "\<bar>(1 - D) * e1\<bar> \<le> 201 / 200 * (H / 100)" using D(2) e1 by (intro abs_prod_le) linarith+
  then have p1: "\<bar>(1 - D) * e1\<bar> \<le> H / 99" using H(1) by simp
  have DD: "0 \<le> D * D" "D * D \<le> 1 / 40000" using abs_prod_le [OF D(2) D(2)] by simp_all
  have z: "z = 1 - D * D + (1 - D) * e1" by (simp add: z_def e1_def D_def algebra_simps)
  have zb: "\<bar>z\<bar> \<le> 1001 / 1000" using DD p1 H(1,2) unfolding z by linarith
  have be: "\<bar>b * e2\<bar> \<le> \<bar>z\<bar> * H + 2 * (H * H)"
  proof -
    have "\<bar>b * e2\<bar> = b * \<bar>e2\<bar>" using b by (simp add: abs_mult)
    also have "\<dots> \<le> b * (\<bar>y + y * e\<bar> * H + T)" using y' b by (intro mult_left_mono) (simp_all add: e2_def)
    also have "\<dots> = b * \<bar>y + y * e\<bar> * H + b * T" by (simp add: distrib_left mult.assoc)
    also have "b * \<bar>y + y * e\<bar> = \<bar>z\<bar>" using b unfolding z_def by (simp add: abs_mult)
    also have "b * T \<le> 2 * (H * H)" using b H by (intro mult_mono) simp_all
    finally show ?thesis by simp
  qed
  have "\<bar>z\<bar> * H \<le> 1001 / 1000 * H" using zb H(1) by (intro mult_right_mono) simp_all
  then have p2: "\<bar>b * e2\<bar> \<le> 1002 / 1000 * H" using be HH H(1) by linarith
  have "\<bar>D * D\<bar> \<le> (B + 5 / 4 * H) * (B + 5 / 4 * H)" by (rule abs_prod_le [OF D(1) D(1)])
  also have "\<dots> = B * B + 5 / 2 * (B * H) + 25 / 16 * (H * H)" by (simp add: algebra_simps)
  finally have q: "D * D \<le> B * B + 5 / 2 * (B * H) + 25 / 16 * (H * H)" by simp
  have "B * H \<le> 1 / 256 * H" using B H(1) by (intro mult_right_mono) simp_all
  then have q': "D * D \<le> B * B + H / 50" using q HH H(1) by linarith
  have "1 - b * y' = D * D - (1 - D) * e1 - b * e2" by (simp add: D_def e1_def e2_def algebra_simps)
  then have "\<bar>1 - b * y'\<bar> \<le> D * D + \<bar>(1 - D) * e1\<bar> + \<bar>b * e2\<bar>" using DD(1) by linarith
  then show ?thesis using p1 p2 q' H(1) by linarith
qed

text \<open>The quotient the first multiplication gives, and what one correction leaves.\<close>

lemma first_quotient:
  fixes a b y q x H T :: real
  assumes b: "1 \<le> b" and x: "a = b * x" "1 / 2 < x" and H: "0 < H" "H \<le> 1 / 1048576" "0 \<le> T" "T \<le> H * H"
    and y: "\<bar>1 - b * y\<bar> \<le> 4 * H" and q: "\<bar>q - a * y\<bar> \<le> \<bar>a * y\<bar> * H + T"
  shows "\<bar>q - x\<bar> \<le> 6 * H * x"
proof -
  define D where "D = 1 - b * y"
  have ay: "a * y = x - x * D" by (simp add: x(1) D_def algebra_simps)
  have "\<bar>x * D\<bar> \<le> x * (4 * H)" using y x(2) by (intro abs_prod_le) (simp_all add: D_def)
  then have d: "\<bar>x * D\<bar> \<le> 4 * (H * x)" by (simp add: mult_ac)
  have HH: "H * H \<le> H / 1048576" using mult_left_mono [OF H(2), of H] H(1) by simp
  have Hx: "H * (1 / 2) \<le> H * x" using x(2) H(1) by (intro mult_left_mono) simp_all
  have "H * x * H \<le> H * x * (1 / 1048576)" using x(2) H by (intro mult_left_mono) simp_all
  then have Hx2: "H * x * H \<le> H * x / 1048576" by simp
  have "\<bar>a * y\<bar> \<le> x + 4 * (H * x)" using d x(2) unfolding ay by linarith
  then have "\<bar>a * y\<bar> * H \<le> (x + 4 * (H * x)) * H" using H(1) by (intro mult_right_mono) simp_all
  then have "\<bar>a * y\<bar> * H \<le> H * x + 4 * (H * x * H)" by (simp add: algebra_simps)
  then have "\<bar>q - a * y\<bar> \<le> 11 / 10 * (H * x) + H * H" using q Hx2 H(1,4) Hx by linarith
  then have "\<bar>q - x\<bar> \<le> 11 / 10 * (H * x) + H * H + 4 * (H * x)" using d unfolding ay by linarith
  then show ?thesis using HH Hx by linarith
qed

lemma correction:
  fixes a b y q r x E H T :: real
  assumes b: "1 \<le> b" and x: "a = b * x" "1 / 2 < x" and H: "0 < H" "H \<le> 1 / 1048576" "0 \<le> T" "T \<le> H * H"
    and y: "\<bar>1 - b * y\<bar> \<le> 4 * H" and q: "\<bar>q - x\<bar> \<le> E" and r: "\<bar>r - (a - b * q)\<bar> \<le> \<bar>a - b * q\<bar> * H + T"
  shows "\<bar>q + r * y - x\<bar> \<le> 6 * H * E + 4 * (H * H) * x"
proof -
  define D where "D = 1 - b * y"
  define n where "n = r - (a - b * q)"
  have D: "\<bar>D\<bar> \<le> 4 * H" "\<bar>D\<bar> \<le> 1 / 1000" using y H(2) by (simp_all add: D_def)
  have yb: "b * \<bar>y\<bar> \<le> 1001 / 1000" "\<bar>y\<bar> \<le> 1001 / 1000"
  proof -
    have "b * \<bar>y\<bar> = \<bar>1 - D\<bar>" using b by (simp add: D_def abs_mult)
    then show 1: "b * \<bar>y\<bar> \<le> 1001 / 1000" using D(2) by linarith
    have "1 * \<bar>y\<bar> \<le> b * \<bar>y\<bar>" using b by (intro mult_right_mono) simp_all
    then show "\<bar>y\<bar> \<le> 1001 / 1000" using 1 by simp
  qed
  have E: "0 \<le> E" using q by linarith
  have v: "a - b * q = b * (x - q)" by (simp add: x(1) algebra_simps)
  have va: "\<bar>a - b * q\<bar> = b * \<bar>x - q\<bar>" using b unfolding v by (simp add: abs_mult)
  have "q + r * y - x = n * y - (x - q) * D" by (simp add: n_def v D_def algebra_simps)
  then have s: "\<bar>q + r * y - x\<bar> \<le> \<bar>n * y\<bar> + \<bar>(x - q) * D\<bar>" by linarith
  have "\<bar>(x - q) * D\<bar> \<le> E * (4 * H)" using q D(1) by (intro abs_prod_le) (simp_all add: abs_minus_commute)
  then have s1: "\<bar>(x - q) * D\<bar> \<le> 4 * (H * E)" by (simp add: mult_ac)
  have "\<bar>n * y\<bar> \<le> (\<bar>a - b * q\<bar> * H + T) * \<bar>y\<bar>" unfolding abs_mult using r by (intro mult_right_mono) (simp_all add: n_def)
  also have "\<dots> = b * \<bar>y\<bar> * (\<bar>x - q\<bar> * H) + T * \<bar>y\<bar>" unfolding va by (simp add: algebra_simps)
  also have "\<dots> \<le> 1001 / 1000 * (E * H) + H * H * (1001 / 1000)"
    using yb q H E by (intro add_mono mult_mono) (simp_all add: abs_minus_commute mult_nonneg_nonneg)
  finally have s2: "\<bar>n * y\<bar> \<le> 1001 / 1000 * (H * E) + 1001 / 1000 * (H * H)" by (simp add: mult_ac)
  have "H * H * (1 / 2) \<le> H * H * x" using x(2) by (intro mult_left_mono) simp_all
  then have s3: "H * H \<le> 2 * (H * H * x)" by simp
  have "0 \<le> H * E" using H(1) E by simp
  then show ?thesis using s s1 s2 s3 by (simp add: mult.assoc)
qed

section \<open>The formats the sequences serve\<close>

definition rel_err :: "fp_format \<Rightarrow> real" where "rel_err fmt = 1 / 2 ^ nat (prec fmt)"
definition abs_err :: "fp_format \<Rightarrow> real" where "abs_err fmt = p2 (qmin fmt - 1)"

definition seq_fmt :: "fp_format \<Rightarrow> nat \<Rightarrow> bool" where
  "seq_fmt fmt N \<longleftrightarrow> ladder_fmt fmt \<and> 19 < man_w fmt \<and> 2 * prec fmt < emax fmt \<and> newton_steps fmt = Inr N \<and> prec fmt \<le> 8 * 2 ^ N"

lemma seq_fmts: "seq_fmt FP32 2" "seq_fmt FP64 3" "seq_fmt FP128 4" "seq_fmt FP256 5"
  by (simp_all add: seq_fmt_def newton_steps_def NEWTON_def) (simp_all add: ladder_defs prec_def emax_def bias_def)

lemma seq_fmt_facts:
  assumes "seq_fmt fmt N"
  shows "wf_fmt fmt" "ladder_fmt fmt" "19 < man_w fmt" "emin fmt \<le> - int (man_w fmt) - 3" "int (man_w fmt) + 3 \<le> emax fmt"
    "qmin fmt \<le> - 2 * int (man_w fmt) - 4"
    "0 < rel_err fmt" "rel_err fmt \<le> 1 / 1048576" "0 \<le> abs_err fmt" "abs_err fmt \<le> rel_err fmt * rel_err fmt"
    "emin fmt \<le> - 2 * int (man_w fmt) - 2"
proof -
  show "emin fmt \<le> - 2 * int (man_w fmt) - 2" using assms by (simp add: seq_fmt_def emin_def emax_def prec_def)
  show l: "ladder_fmt fmt" "19 < man_w fmt" using assms by (simp_all add: seq_fmt_def)
  show "wf_fmt fmt" using l by simp
  have p: "2 * (int (man_w fmt) + 1) \<le> emax fmt" using l(1) by (simp add: ladder_fmt_def prec_def)
  then show "emin fmt \<le> - int (man_w fmt) - 3" "int (man_w fmt) + 3 \<le> emax fmt"
    and q: "qmin fmt \<le> - 2 * int (man_w fmt) - 4" using l(2) by (simp_all add: emin_def emax_def qmin_def)
  have h: "rel_err fmt = p2 (- prec fmt)" using l(2) by (simp add: rel_err_def power_int_def power_one_over prec_def)
  show "0 < rel_err fmt" "0 \<le> abs_err fmt" by (simp_all add: h abs_err_def)
  have "p2 (- prec fmt) \<le> p2 (- 20)" using l(2) by (subst p2_mono_iff) (simp add: prec_def)
  moreover have "p2 (- 20) = 1 / 1048576" by (simp add: power_int_def power_one_over)
  ultimately show "rel_err fmt \<le> 1 / 1048576" unfolding h by simp
  have "rel_err fmt * rel_err fmt = p2 (- prec fmt + - prec fmt)" unfolding h p2_add ..
  then show "abs_err fmt \<le> rel_err fmt * rel_err fmt" using q by (simp add: abs_err_def prec_def del: p2_add)
qed

lemma rounds_err: "rounds fmt rnd v z \<Longrightarrow> to_nearest rnd \<Longrightarrow> \<bar>fval fmt z - v\<bar> \<le> \<bar>v\<bar> * rel_err fmt + abs_err fmt"
  using roundsD(6) [of fmt rnd v z] by (simp add: rel_err_def abs_err_def)

lemma rne [simp]: "to_nearest RND_RNE" "valid_mode RND_RNE" "valid_mode RND_RTZ"
  by (simp_all add: to_nearest_def)

lemma big_enough:
  assumes "seq_fmt fmt N" "\<bar>v\<bar> \<le> 1048576" shows "\<bar>v\<bar> \<le> p2 (emax fmt)"
proof -
  have "p2 20 \<le> p2 (emax fmt)" using seq_fmt_facts(3,5) [OF assms(1)] by (subst p2_mono_iff) simp
  then show ?thesis using assms(2) by simp
qed

section \<open>Centred operands and their grid\<close>

definition centred :: "fp_format \<Rightarrow> int \<Rightarrow> int \<Rightarrow> bool" where
  "centred fmt c A \<longleftrightarrow> fits fmt c \<and> is_finite fmt c \<and> sgn_of fmt c = 0 \<and> 2 ^ man_w fmt \<le> A \<and> A < 2 * 2 ^ man_w fmt \<and>
    fval fmt c = of_int A * p2 (- int (man_w fmt))"

lemma centred_range:
  assumes "centred fmt c A" shows "1 \<le> fval fmt c" "fval fmt c < 2"
proof -
  have A: "(of_int (2 ^ man_w fmt) :: real) \<le> of_int A" "(of_int A :: real) < of_int (2 * 2 ^ man_w fmt)"
    using assms unfolding of_int_le_iff of_int_less_iff by (simp_all add: centred_def)
  have v: "fval fmt c = of_int A / 2 ^ man_w fmt" using assms by (simp add: centred_def power_int_minus divide_inverse)
  show "1 \<le> fval fmt c" "fval fmt c < 2" using A unfolding v by (simp_all add: pos_le_divide_eq pos_divide_less_eq)
qed

text \<open>The quotients in play: encodings of values from a half to below two.\<close>

definition mid :: "fp_format \<Rightarrow> int \<Rightarrow> bool" where
  "mid fmt M \<longleftrightarrow> 0 \<le> M \<and> 1 / 2 \<le> mag_val fmt M \<and> mag_val fmt M < 2"

lemma mid_facts:
  assumes sf: "seq_fmt fmt N" and m: "mid fmt M"
  shows "fits fmt M" "is_finite fmt M" "fval fmt M = mag_val fmt M" "u_m (unpack fmt M) = sig_of fmt M" "u_e (unpack fmt M) = exp_of fmt M"
    "- int (man_w fmt) - 1 \<le> exp_of fmt M" "exp_of fmt M \<le> - int (man_w fmt)" "2 ^ man_w fmt \<le> sig_of fmt M" "sig_of fmt M < 2 * 2 ^ man_w fmt"
    "mag_val fmt M = of_int (sig_of fmt M) * p2 (exp_of fmt M)" "mag_val fmt (M + 1) = mag_val fmt M + p2 (exp_of fmt M)"
    "0 < M" "M + 1 < inf_mag fmt" "2 ^ man_w fmt \<le> M"
proof -
  note f = seq_fmt_facts [OF sf] note wf = f(1)
  let ?n = "man_w fmt" let ?e = "exp_of fmt M" let ?k = "sig_of fmt M"
  have M: "0 \<le> M" "1 / 2 \<le> mag_val fmt M" "mag_val fmt M < 2" using m by (simp_all add: mid_def)
  note p = place_of_mag [OF M(1), of fmt]
  show v: "mag_val fmt M = of_int ?k * p2 ?e" by (rule mag_val_def)
  show succ: "mag_val fmt (M + 1) = mag_val fmt M + p2 ?e" by (rule mag_val_Suc [OF M(1)])
  show norm: "2 ^ ?n \<le> M"
  proof (rule ccontr)
    assume "\<not> 2 ^ ?n \<le> M"
    then have "mag_val fmt M < mag_val fmt (2 ^ ?n)" using M(1) by (simp add: mag_val_less_iff)
    also have "\<dots> = p2 (emin fmt)" by (rule mag_val_min_normal [OF wf])
    also have "\<dots> \<le> p2 (- 1)" using f(3,4) by (subst p2_mono_iff) simp
    finally show False using M(2) by (simp add: power_int_def)
  qed
  then have "(0::int) < 2 ^ ?n \<and> ?k = M mod 2 ^ ?n + 2 ^ ?n" by (simp add: sig_of_def)
  then show k: "2 ^ ?n \<le> ?k" "?k < 2 * 2 ^ ?n" using p(4) by simp_all
  have kr: "(of_int (2 ^ ?n) :: real) \<le> of_int ?k" "(of_int ?k :: real) < of_int (2 * 2 ^ ?n)" using k by (simp_all only: of_int_le_iff of_int_less_iff)
  have lo: "p2 (int ?n + ?e) \<le> mag_val fmt M"
  proof -
    have "of_int (2 ^ ?n) * p2 ?e \<le> of_int ?k * p2 ?e" using kr(1) by (intro mult_right_mono) simp_all
    then show ?thesis by (simp add: v p2_add)
  qed
  have hi: "mag_val fmt M < p2 (int ?n + 1 + ?e)"
  proof -
    have "of_int ?k * p2 ?e < of_int (2 * 2 ^ ?n) * p2 ?e" using kr(2) by (intro mult_strict_right_mono) simp_all
    then show ?thesis by (simp add: v p2_add p2_succ)
  qed
  have "p2 (int ?n + ?e) < p2 1" using lo M(3) by simp
  then show e1: "?e \<le> - int ?n" by (simp only: p2_less_iff)
  have half: "p2 (- 1) = 1 / 2" by (simp add: power_int_def)
  have "p2 (- 1) < p2 (int ?n + 1 + ?e)" using hi M(2) unfolding half by linarith
  then show "- int ?n - 1 \<le> ?e" by (simp only: p2_less_iff)
  have "p2 ?e \<le> p2 0" using e1 by (subst p2_mono_iff) simp
  then have "mag_val fmt (M + 1) < p2 2" using M(3) succ by simp
  also have "\<dots> \<le> p2 (emax fmt + 1)" using f(5) by (subst p2_mono_iff) simp
  finally have "mag_val fmt (M + 1) < mag_val fmt (inf_mag fmt)" by (simp only: mag_val_inf_mag [OF wf])
  then show i: "M + 1 < inf_mag fmt" using M(1) inf_mag_pos [OF wf] by (simp add: mag_val_less_iff)
  have lim: "M < mag_lim fmt" "M < inf_mag fmt" using i inf_mag_less [of fmt] by linarith+
  show ft: "fits fmt M" using fits_pack [of 0 M fmt] M(1) lim by simp
  have mg: "mag_of fmt M = M" "sgn_of fmt M = 0" using mag_of_pack [of M fmt 0] sgn_of_pack [of M fmt 0] M(1) lim by simp_all
  show "is_finite fmt M" using lim by (simp add: is_finite_def mg)
  show "fval fmt M = mag_val fmt M" using fval_pack [OF wf _ M(1) lim(2), of 0] by simp
  show pos: "0 < M" using norm zero_less_power [of "2::int" ?n] by linarith
  show "u_m (unpack fmt M) = ?k" "u_e (unpack fmt M) = ?e" using lim pos by (simp_all add: unpack_fits [OF wf ft] mg)
qed

section \<open>The reciprocal\<close>

lemma one_value:
  assumes wf: "wf_fmt fmt"
  shows "fits fmt (one_bits fmt 0)" "is_finite fmt (one_bits fmt 0)" "fval fmt (one_bits fmt 0) = 1"
proof -
  have e: "emin fmt \<le> 0" "0 \<le> emax fmt" using bias_pos [OF wf] by (simp_all add: emin_def emax_def)
  obtain u where u: "pow2_bits fmt 0 = Inr u" "fits fmt u" "is_finite fmt u" "fval fmt u = p2 0" by (rule pow2_bits_value [OF wf e])
  have "u = one_bits fmt 0" using u(1) e by (simp add: pow2_bits_def one_bits_def)
  then show "fits fmt (one_bits fmt 0)" "is_finite fmt (one_bits fmt 0)" "fval fmt (one_bits fmt 0) = 1" using u by simp_all
qed

lemma centred_mid:
  assumes sf: "seq_fmt fmt N" and c: "centred fmt c A"
  shows "mid fmt c" "mag_of fmt c = c" "u_kind (unpack fmt c) = KNorm" "exp_field fmt c \<noteq> 0"
proof -
  note wf = seq_fmt_facts(1) [OF sf]
  have f: "fits fmt c" "is_finite fmt c" "sgn_of fmt c = 0" using c by (simp_all add: centred_def)
  have m: "mag_of fmt c = c" using pack_fields [of fmt c] f(3) by simp
  then have "fval fmt c = mag_val fmt c" using fval_eq [OF wf f(1,2)] f(3) by simp
  then show mid: "mid fmt c" using centred_range [OF c] mag_bounds(1) [of fmt c] m by (simp add: mid_def)
  have n: "2 ^ man_w fmt \<le> c" "c < inf_mag fmt" using mid_facts(13,14) [OF sf mid] by simp_all
  then show "u_kind (unpack fmt c) = KNorm" using mid_facts(12) [OF sf mid] by (simp add: unpack_fits [OF wf f(1)] m kind_of_def)
  show "exp_field fmt c \<noteq> 0" using n(1) by (simp add: exp_field_zero [OF f(1)] m)
  show "mag_of fmt c = c" by (rule m)
qed

lemma recip_bounds:
  fixes b y e d :: real
  assumes b: "1 \<le> b" "b < 2" and d: "\<bar>1 - b * y\<bar> \<le> d" "d \<le> 1 / 100"
  shows "\<bar>y\<bar> \<le> 2" "\<bar>e - (1 - b * y)\<bar> \<le> 1 \<Longrightarrow> \<bar>y * e + y\<bar> \<le> 1048576"
proof -
  have "1 * \<bar>y\<bar> \<le> b * \<bar>y\<bar>" using b by (intro mult_right_mono) simp_all
  also have "\<dots> = \<bar>b * y\<bar>" using b by (simp add: abs_mult)
  finally show y: "\<bar>y\<bar> \<le> 2" using d by linarith
  assume "\<bar>e - (1 - b * y)\<bar> \<le> 1"
  then have "\<bar>e\<bar> \<le> 2" using d by linarith
  then have "\<bar>y * e\<bar> \<le> 2 * 2" using y by (intro abs_prod_le)
  then show "\<bar>y * e + y\<bar> \<le> 1048576" using y by linarith
qed

text \<open>One Newton step of the code squares the error, up to the roundings.\<close>

lemma recip_newton_step:
  assumes sf: "seq_fmt fmt N" and c: "centred fmt c A" and nb: "fits fmt nb" "is_finite fmt nb" "fval fmt nb = - fval fmt c"
    and y: "fits fmt y" "is_finite fmt y" and B: "0 \<le> B" "B \<le> 1 / 256"
    and d: "\<bar>1 - fval fmt c * fval fmt y\<bar> \<le> B + 5 / 4 * rel_err fmt"
  obtains y' where "recip_newton fmt nb y = Inr y'" "fits fmt y'" "is_finite fmt y'"
    "\<bar>1 - fval fmt c * fval fmt y'\<bar> \<le> B * B + 5 / 4 * rel_err fmt"
proof -
  note f = seq_fmt_facts [OF sf] note wf = f(1) note o = one_value [OF wf] note b = centred_range [OF c]
  note big = big_enough [OF sf]
  let ?b = "fval fmt c" and ?y = "fval fmt y"
  have d100: "B + 5 / 4 * rel_err fmt \<le> 1 / 100" using B(2) f(8) by linarith
  note r = recip_bounds [OF b d d100]
  have v: "fval fmt nb * ?y + fval fmt (one_bits fmt 0) = 1 - ?b * ?y" by (simp add: nb(3) o(3))
  have "\<bar>1 - ?b * ?y\<bar> \<le> 1048576" using d d100 by linarith
  from op_fma_fits [OF wf rne(2) nb(1,2) y o(1,2), unfolded v, OF big [OF this]]
  obtain e where e: "v_step fmt OP_FMA nb (Some y) (Some (one_bits fmt 0)) RND_RNE = Inr e" "rounds fmt RND_RNE (1 - ?b * ?y) e" by blast
  note er = rounds_err [OF e(2) rne(1)]
  have "\<bar>1 - ?b * ?y\<bar> * rel_err fmt \<le> 1 / 100 * 1" using d d100 f(7,8) by (intro mult_mono) linarith+
  then have "\<bar>fval fmt e - (1 - ?b * ?y)\<bar> \<le> 1" using er f(7-10) mult_mono [OF f(8) f(8)] by simp
  from op_fma_fits [OF wf rne(2) y roundsD(1,2) [OF e(2)] y big [OF r(2) [OF this]]]
  obtain y' where y': "v_step fmt OP_FMA y (Some e) (Some y) RND_RNE = Inr y'" "rounds fmt RND_RNE (?y * fval fmt e + ?y) y'" by blast
  have "\<bar>fval fmt y' - (?y + ?y * fval fmt e)\<bar> \<le> \<bar>?y + ?y * fval fmt e\<bar> * rel_err fmt + abs_err fmt"
    using rounds_err [OF y'(2) rne(1)] by (simp add: add.commute)
  from newton_error [OF b f(7-10) B d er this]
  show thesis by (intro that [of y'] roundsD(1,2) [OF y'(2)]) (simp_all add: recip_newton_def e(1) y'(1))
qed

lemma newton_fold:
  assumes sf: "seq_fmt fmt N" and c: "centred fmt c A" and nb: "fits fmt nb" "is_finite fmt nb" "fval fmt nb = - fval fmt c"
  shows "\<lbrakk>fits fmt y; is_finite fmt y; 0 \<le> B; B \<le> 1 / 256; \<bar>1 - fval fmt c * fval fmt y\<bar> \<le> B + 5 / 4 * rel_err fmt\<rbrakk> \<Longrightarrow>
    \<exists>y'. fold_r (\<lambda>y _. recip_newton fmt nb y) y ns = Inr y' \<and> fits fmt y' \<and> is_finite fmt y' \<and>
      \<bar>1 - fval fmt c * fval fmt y'\<bar> \<le> B ^ (2 ^ length ns) + 5 / 4 * rel_err fmt"
proof (induction ns arbitrary: y B)
  case (Cons n ns)
  from recip_newton_step [OF sf c nb Cons.prems] obtain z where
    z: "recip_newton fmt nb y = Inr z" "fits fmt z" "is_finite fmt z" "\<bar>1 - fval fmt c * fval fmt z\<bar> \<le> B * B + 5 / 4 * rel_err fmt" by blast
  have "B * B \<le> 1 / 256 * 1" using Cons.prems(3,4) by (intro mult_mono) simp_all
  then have BB: "0 \<le> B * B" "B * B \<le> 1 / 256" by simp_all
  have "(B * B) ^ (2 ^ length ns) = B ^ (2 ^ length (n # ns))" by (simp add: power_mult power2_eq_square)
  then show ?case using Cons.IH [OF z(2,3) BB z(4)] by (simp add: z(1))
qed auto

lemma seq_fmt_newton:
  assumes sf: "seq_fmt fmt N" shows "(1 / 256) ^ 2 ^ N \<le> rel_err fmt"
proof -
  have "(1 / 256) ^ 2 ^ N = (1 / 2 :: real) ^ (8 * 2 ^ N)" by (simp add: power_mult power_one_over)
  also have "\<dots> \<le> (1 / 2) ^ nat (prec fmt)" using sf by (intro power_decreasing) (simp_all add: nat_le_iff seq_fmt_def)
  also have "\<dots> = rel_err fmt" by (simp add: rel_err_def power_one_over)
  finally show ?thesis .
qed

lemma refine_recip_correct:
  assumes sf: "seq_fmt fmt N" and c: "centred fmt c A"
  obtains y where "refine_recip fmt c = Inr y" "fits fmt y" "is_finite fmt y" "\<bar>1 - fval fmt c * fval fmt y\<bar> \<le> 4 * rel_err fmt"
proof -
  note f = seq_fmt_facts [OF sf] note wf = f(1) note cm = centred_mid [OF sf c]
  have cf: "fits fmt c" "is_finite fmt c" using c by (simp_all add: centred_def)
  obtain y0 where y0: "recip_seed fmt c = Inr (y0, 0)" "fits fmt y0" "is_finite fmt y0" "\<bar>fval fmt y0 * fval fmt c - 1\<bar> < 1 / 512"
    using recip_seed_bound [OF wf f(3) cf(1) cm(3)] by blast
  obtain nb where nb: "v_step fmt OP_NEG c None None RND_RNE = Inr nb" "fits fmt nb" "is_finite fmt nb" "fval fmt nb = - fval fmt c"
    by (rule op_neg_fits [OF wf cf])
  have seed: "v_step fmt OP_RECIP_SEED c None None RND_RNE = Inr y0"
    by (simp add: v_step_def op_step_def compute_def SIMPLE_IMPL_def op_defs y0(1))
  have "\<bar>1 - fval fmt c * fval fmt y0\<bar> \<le> 1 / 256 + 5 / 4 * rel_err fmt" using y0(4) f(7) by (simp add: mult.commute abs_minus_commute)
  from newton_fold [OF sf c nb(2-4) y0(2,3) _ _ this, of "[0..<N]"]
  obtain y where y: "fold_r (\<lambda>y _. recip_newton fmt nb y) y0 [0..<N] = Inr y" "fits fmt y" "is_finite fmt y"
    "\<bar>1 - fval fmt c * fval fmt y\<bar> \<le> (1 / 256) ^ 2 ^ N + 5 / 4 * rel_err fmt" by auto
  have N: "newton_steps fmt = Inr N" using sf by (simp add: seq_fmt_def)
  have "\<bar>1 - fval fmt c * fval fmt y\<bar> \<le> 4 * rel_err fmt" using y(4) seq_fmt_newton [OF sf] f(7) by linarith
  then show thesis by (intro that [of y] y(2,3)) (simp_all add: refine_recip_def cm(4) seed nb(1) N y(1))
qed

section \<open>The truncated quotient\<close>

lemma quotient_range:
  fixes a b x h :: real
  assumes a: "1 \<le> a" "a \<le> 2 - h" and b: "1 \<le> b" "b \<le> 2 - h" and x: "a = b * x" and h: "0 < h" "h < 1"
  shows "1 / 2 + h / 4 \<le> x" "x \<le> 2 - h"
proof -
  show "1 / 2 + h / 4 \<le> x"
  proof (rule ccontr)
    assume "\<not> 1 / 2 + h / 4 \<le> x"
    then have "b * x < b * (1 / 2 + h / 4)" using b by simp
    also have "\<dots> \<le> (2 - h) * (1 / 2 + h / 4)" using b h by (intro mult_right_mono) simp_all
    also have "\<dots> = 1 - h * h / 4" by (simp add: field_simps)
    also have "\<dots> < 1" using h by simp
    finally show False using a x by simp
  qed
  then have "0 \<le> x" using h by simp
  then have "1 * x \<le> b * x" using b by (intro mult_right_mono) simp_all
  then show "x \<le> 2 - h" using a x by simp
qed

lemma second_quotient:
  fixes q t x H T :: real
  assumes x: "1 / 2 < x" and H: "0 < H" "H \<le> 1 / 1048576" "0 \<le> T" "T \<le> H * H"
    and t: "\<bar>t - x\<bar> \<le> 40 * (H * H) * x" and q: "\<bar>q - t\<bar> \<le> \<bar>t\<bar> * H + T"
  shows "\<bar>q - x\<bar> \<le> 2 * H * x"
proof -
  have HH: "H * H \<le> H / 1048576" using mult_left_mono [OF H(2), of H] H(1) by simp
  have s: "H * H * x \<le> H / 1048576 * x" using HH x by (intro mult_right_mono) simp_all
  have Hx: "H * (1 / 2) \<le> H * x" using x H(1) by (intro mult_left_mono) simp_all
  have u: "H * x \<le> 1 * x" using H x by (intro mult_right_mono) simp_all
  have "\<bar>t\<bar> \<le> x * (1001 / 1000)" using t s u x by linarith
  then have "\<bar>t\<bar> * H \<le> x * (1001 / 1000) * H" using H(1) by (intro mult_right_mono) simp_all
  then have "\<bar>q - x\<bar> \<le> 1001 / 1000 * (H * x) + H * H + 40 * (H * H) * x" using t q H(4) by (simp add: mult_ac)
  then show ?thesis using s HH Hx by linarith
qed

text \<open>A nearest result this close to a representable quotient is that quotient.\<close>

lemma near_rep_exact:
  assumes wf: "wf_fmt fmt" and t: "rounds fmt RND_RNE t q" and x: "rep fmt x" "0 < x" and d: "\<bar>t - x\<bar> * 2 * 2 ^ nat (prec fmt) < x"
  shows "fval fmt q = x"
proof (rule ccontr)
  assume ne: "fval fmt q \<noteq> x"
  have "\<bar>fval fmt q - t\<bar> \<le> \<bar>x - t\<bar>" by (rule roundsD(5) [OF t rne(1) x(1)])
  then have q: "\<bar>fval fmt q - x\<bar> \<le> \<bar>t - x\<bar> * 2"
    using abs_triangle_ineq [of "fval fmt q - t" "t - x"] by (simp add: abs_minus_commute [of x])
  then have "2 ^ nat (prec fmt) * \<bar>fval fmt q - x\<bar> \<le> 2 ^ nat (prec fmt) * (\<bar>t - x\<bar> * 2)" by (intro mult_left_mono) simp_all
  also have "\<dots> < x" using d by (simp add: mult_ac)
  finally have far: "2 ^ nat (prec fmt) * \<bar>fval fmt q - x\<bar> < x" .
  have "1 * \<bar>fval fmt q - x\<bar> \<le> 2 ^ nat (prec fmt) * \<bar>fval fmt q - x\<bar>" by (intro mult_right_mono) simp_all
  from order.strict_trans1 [OF this far] have "\<bar>fval fmt q - x\<bar> < x" by simp
  then have pos: "0 < fval fmt q" by (simp add: abs_less_iff)
  obtain m where m: "0 \<le> m" "x = mag_val fmt m" using rep_mag_cases [OF wf x(1)] x(2) mag_val_nonneg by (metis neg_0_less_iff_less not_less)
  obtain n where n: "0 \<le> n" "fval fmt q = mag_val fmt n"
    using rep_mag_cases [OF wf rounds_rep [OF t]] pos mag_val_nonneg by (metis neg_0_less_iff_less not_less)
  have "m \<noteq> n" using ne by (auto simp: m n)
  from mag_gap [OF m(1) n(1) this, of fmt] show False using far by (simp add: m n)
qed

lemma quotient_steps:
  assumes sf: "seq_fmt fmt N" and ca: "centred fmt ac A" and cb: "centred fmt bc B"
    and nb: "fits fmt nbc" "is_finite fmt nbc" "fval fmt nbc = - fval fmt bc"
    and y: "fits fmt y" "is_finite fmt y" "\<bar>1 - fval fmt bc * fval fmt y\<bar> \<le> 4 * rel_err fmt"
  obtains q02 r0 q1 r1 q2 t where
    "v_step fmt OP_MUL ac (Some y) None RND_RNE = Inr q02" "div_residual fmt nbc ac q02 = Inr r0"
    "v_step fmt OP_FMA r0 (Some y) (Some q02) RND_RNE = Inr q1" "div_residual fmt nbc ac q1 = Inr r1"
    "v_step fmt OP_FMA r1 (Some y) (Some q1) RND_RTZ = Inr q2" "rounds fmt RND_RTZ t q2"
    "\<bar>t - fval fmt ac / fval fmt bc\<bar> \<le> 16 * (rel_err fmt * rel_err fmt) * (fval fmt ac / fval fmt bc)"
    "rep fmt (fval fmt ac / fval fmt bc) \<Longrightarrow> t = fval fmt ac / fval fmt bc"
proof -
  note f = seq_fmt_facts [OF sf] note wf = f(1) note a = centred_range [OF ca] note b = centred_range [OF cb]
  note big = big_enough [OF sf]
  let ?a = "fval fmt ac" and ?b = "fval fmt bc" and ?y = "fval fmt y"
  let ?H = "rel_err fmt"
  define x where "x = ?a / ?b"
  have ax: "?a = ?b * x" using b by (simp add: x_def)
  have af: "fits fmt ac" "is_finite fmt ac" and bf: "fits fmt bc" "is_finite fmt bc" using ca cb by (simp_all add: centred_def)
  have x: "1 / 2 < x" "x < 2" using a b by (simp_all add: x_def pos_less_divide_eq pos_divide_less_eq)
  have small: "?H * x \<le> 1 / 500000" using mult_mono [OF f(8) less_imp_le [OF x(2)]] x(1) by simp
  have y2: "\<bar>?y\<bar> \<le> 2" by (rule recip_bounds(1) [OF b y(3)]) (use f(8) in linarith)
  have resid: "\<exists>r. div_residual fmt nbc ac q = Inr r \<and> rounds fmt RND_RNE (?a - ?b * fval fmt q) r \<and> \<bar>fval fmt r\<bar> \<le> 1000"
    if q: "fits fmt q" "is_finite fmt q" "\<bar>fval fmt q\<bar> \<le> 4" for q
  proof -
    have "\<bar>?b * fval fmt q\<bar> \<le> 2 * 4" using q(3) b by (intro abs_prod_le) simp_all
    then have s: "\<bar>?a - ?b * fval fmt q\<bar> \<le> 10" using a by linarith
    have v: "fval fmt nbc * fval fmt q + ?a = ?a - ?b * fval fmt q" by (simp add: nb(3))
    have "\<bar>?a - ?b * fval fmt q\<bar> \<le> 1048576" using s by simp
    from op_fma_fits [OF wf rne(2) nb(1,2) q(1,2) af, unfolded v, OF big [OF this]] obtain r where
      r: "v_step fmt OP_FMA nbc (Some q) (Some ac) RND_RNE = Inr r" "rounds fmt RND_RNE (?a - ?b * fval fmt q) r" by blast
    have "\<bar>?a - ?b * fval fmt q\<bar> * ?H \<le> 10 * 1" "?H * ?H \<le> 1 * 1" using s f(7,8) by (intro mult_mono; simp)+
    then have "\<bar>fval fmt r\<bar> \<le> 1000" using rounds_err [OF r(2) rne(1)] f(10) s by linarith
    then show ?thesis using r by (auto simp: div_residual_def)
  qed
  have "\<bar>?a * ?y\<bar> \<le> 2 * 2" using a y2 by (intro abs_prod_le) simp_all
  then have ay: "\<bar>?a * ?y\<bar> \<le> 1048576" by simp
  from op_mul_fits [OF wf rne(2) af y(1,2) big [OF this]] obtain q02 where
    q02: "v_step fmt OP_MUL ac (Some y) None RND_RNE = Inr q02" "rounds fmt RND_RNE (?a * ?y) q02" by blast
  have e02: "\<bar>fval fmt q02 - x\<bar> \<le> 6 * ?H * x"
    by (rule first_quotient [OF b(1) ax x(1) f(7-10) y(3) rounds_err [OF q02(2) rne(1)]])
  then have b02: "\<bar>fval fmt q02\<bar> \<le> 4" using small x by linarith
  obtain r0 where r0: "div_residual fmt nbc ac q02 = Inr r0" "rounds fmt RND_RNE (?a - ?b * fval fmt q02) r0" "\<bar>fval fmt r0\<bar> \<le> 1000"
    using resid [OF roundsD(1,2) [OF q02(2)] b02] by blast
  define t0 where "t0 = fval fmt r0 * ?y + fval fmt q02"
  have "\<bar>fval fmt q02 + fval fmt r0 * ?y - x\<bar> \<le> 6 * ?H * (6 * ?H * x) + 4 * (?H * ?H) * x"
    by (rule correction [OF b(1) ax x(1) f(7-10) y(3) e02 rounds_err [OF r0(2) rne(1)]])
  then have e0: "\<bar>t0 - x\<bar> \<le> 40 * (?H * ?H) * x" by (simp add: t0_def algebra_simps)
  have HHx: "?H * ?H * x \<le> ?H * x / 1048576" using mult_right_mono [OF f(8), of "?H * x"] f(7) x(1) by (simp add: mult_ac)
  have t0b: "\<bar>t0\<bar> \<le> 1048576" using e0 HHx small x by linarith
  from op_fma_fits [OF wf rne(2) roundsD(1,2) [OF r0(2)] y(1,2) roundsD(1,2) [OF q02(2)] big [OF t0b [unfolded t0_def]], folded t0_def]
  obtain q1 where q1: "v_step fmt OP_FMA r0 (Some y) (Some q02) RND_RNE = Inr q1" "rounds fmt RND_RNE t0 q1" by blast
  have e1: "\<bar>fval fmt q1 - x\<bar> \<le> 2 * ?H * x"
    by (rule second_quotient [OF x(1) f(7-10) e0 rounds_err [OF q1(2) rne(1)]])
  then have b1: "\<bar>fval fmt q1\<bar> \<le> 4" using small x by linarith
  obtain r1 where r1: "div_residual fmt nbc ac q1 = Inr r1" "rounds fmt RND_RNE (?a - ?b * fval fmt q1) r1" "\<bar>fval fmt r1\<bar> \<le> 1000"
    using resid [OF roundsD(1,2) [OF q1(2)] b1] by blast
  define t where "t = fval fmt r1 * ?y + fval fmt q1"
  have "\<bar>fval fmt q1 + fval fmt r1 * ?y - x\<bar> \<le> 6 * ?H * (2 * ?H * x) + 4 * (?H * ?H) * x"
    by (rule correction [OF b(1) ax x(1) f(7-10) y(3) e1 rounds_err [OF r1(2) rne(1)]])
  then have e: "\<bar>t - x\<bar> \<le> 16 * (?H * ?H) * x" by (simp add: t_def algebra_simps)
  have tb: "\<bar>t\<bar> \<le> 1048576" using e HHx small x by linarith
  from op_fma_fits [OF wf rne(3) roundsD(1,2) [OF r1(2)] y(1,2) roundsD(1,2) [OF q1(2)] big [OF tb [unfolded t_def]], folded t_def]
  obtain q2 where q2: "v_step fmt OP_FMA r1 (Some y) (Some q1) RND_RTZ = Inr q2" "rounds fmt RND_RTZ t q2" by blast
  have "t = x" if xr: "rep fmt x"
  proof -
    have "\<bar>t0 - x\<bar> * 2 * 2 ^ nat (prec fmt) \<le> (40 * (?H * ?H) * x) * 2 * 2 ^ nat (prec fmt)" using e0 by (intro mult_right_mono) simp_all
    also have "\<dots> = 80 * (?H * x) * (?H * 2 ^ nat (prec fmt))" by (simp add: mult_ac)
    also have "?H * 2 ^ nat (prec fmt) = 1" by (simp add: rel_err_def)
    also have "80 * (?H * x) * 1 < x" using small x by linarith
    finally have "fval fmt q1 = x" using x by (intro near_rep_exact [OF wf q1(2) xr]) simp_all
    moreover from this have "fval fmt r1 = 0" using rounds_exact [OF r1(2)] rep_0 [OF wf] by (simp add: ax)
    ultimately show ?thesis by (simp add: t_def)
  qed
  with e show thesis by (intro that [OF q02(1) r0(1) q1(1) r1(1) q2]) (simp_all add: x_def)
qed

section \<open>Restoring the floor\<close>

definition div_env :: "fp_format \<Rightarrow> nat \<Rightarrow> int \<Rightarrow> int \<Rightarrow> int \<Rightarrow> int \<Rightarrow> int \<Rightarrow> bool" where
  "div_env fmt N ac A bc B nbc \<longleftrightarrow> seq_fmt fmt N \<and> centred fmt ac A \<and> centred fmt bc B \<and>
    fits fmt nbc \<and> is_finite fmt nbc \<and> fval fmt nbc = - fval fmt bc"

text \<open>The exact remainder at a candidate quotient, in units of the grid.\<close>

definition left_over :: "fp_format \<Rightarrow> int \<Rightarrow> int \<Rightarrow> int \<Rightarrow> int" where
  "left_over fmt A B M = A * 2 ^ nat (- exp_of fmt M) - B * sig_of fmt M"

lemma div_envD:
  assumes "div_env fmt N ac A bc B nbc"
  shows "seq_fmt fmt N" "wf_fmt fmt" "centred fmt ac A" "centred fmt bc B" "fits fmt nbc" "is_finite fmt nbc" "fval fmt nbc = - fval fmt bc"
    "0 < B" "B \<le> 2 ^ nat (prec fmt)" "B + 1 \<le> 2 ^ nat (prec fmt)"
proof -
  show e: "seq_fmt fmt N" "centred fmt ac A" "centred fmt bc B" "fits fmt nbc" "is_finite fmt nbc" "fval fmt nbc = - fval fmt bc"
    using assms by (simp_all add: div_env_def)
  show "wf_fmt fmt" by (rule seq_fmt_facts(1) [OF e(1)])
  have B: "2 ^ man_w fmt \<le> B" "B < 2 * 2 ^ man_w fmt" using e(3) by (simp_all add: centred_def)
  then show "0 < B" by (meson less_le_trans zero_less_numeral zero_less_power)
  show "B \<le> 2 ^ nat (prec fmt)" "B + 1 \<le> 2 ^ nat (prec fmt)" using B by (simp_all add: prec_def nat_add_distrib)
qed

lemma grid_rep:
  assumes sf: "seq_fmt fmt N" and m: "mid fmt M" and i: "\<bar>i\<bar> \<le> 2 ^ nat (prec fmt)" and q: "q = exp_of fmt M - int (man_w fmt) \<or> q = exp_of fmt M - int (man_w fmt) - 1"
  shows "rep fmt (of_int i * p2 q)"
proof -
  note f = seq_fmt_facts [OF sf] note e = mid_facts(6,7) [OF sf m]
  show ?thesis
  proof (rule rep_scaled [OF f(1) i])
    show "qmin fmt \<le> q" using f(6) e q by linarith
    have "(of_int \<bar>i\<bar> :: real) \<le> of_int (2 ^ nat (prec fmt))" using i by (simp only: of_int_le_iff)
    then have "of_int \<bar>i\<bar> * p2 q \<le> 2 ^ nat (prec fmt) * p2 q" by (intro mult_right_mono) simp_all
    also have "\<dots> = p2 (prec fmt + q)" by (simp add: p2_add prec_def nat_add_distrib p2_succ)
    also have "\<dots> < p2 (emax fmt + 1)" using e q f(5) by (subst p2_less_iff) (auto simp: prec_def)
    finally show "of_int \<bar>i\<bar> * p2 q < p2 (emax fmt + 1)" .
  qed
qed

lemma left_over_facts:
  assumes env: "div_env fmt N ac A bc B nbc" and m: "mid fmt M"
  defines "G \<equiv> p2 (exp_of fmt M - int (man_w fmt))" and "j \<equiv> left_over fmt A B M" and "x \<equiv> fval fmt ac / fval fmt bc"
  shows "fval fmt ac - fval fmt bc * mag_val fmt M = of_int j * G" "fval fmt bc * p2 (exp_of fmt M) = of_int B * G"
    "x < mag_val fmt M \<longleftrightarrow> j < 0" "x < mag_val fmt (M + 1) \<longleftrightarrow> j < B" "x = mag_val fmt (M + 1) \<longleftrightarrow> j = B"
    "fval fmt bc * (x - mag_val fmt M) = of_int j * G" "0 < G"
proof -
  note d = div_envD [OF env] note f = mid_facts [OF d(1) m] note b = centred_range [OF d(4)]
  let ?n = "int (man_w fmt)" let ?e = "exp_of fmt M"
  have A: "fval fmt ac = of_int A * p2 (- ?n)" and B: "fval fmt bc = of_int B * p2 (- ?n)" using d(3,4) by (simp_all add: centred_def)
  show G: "0 < G" by (simp add: G_def)
  have "p2 (- ?n) = p2 (?e - ?n + - ?e)" by simp
  also have "\<dots> = 2 ^ nat (- ?e) * G" unfolding G_def p2_add using f(7) by (simp add: power_int_def)
  finally have u: "p2 (- ?n) = 2 ^ nat (- ?e) * G" .
  have v: "p2 (- ?n) * p2 ?e = G" unfolding G_def p2_add [symmetric] by (simp add: add.commute)
  have "fval fmt bc * mag_val fmt M = of_int (B * sig_of fmt M) * (p2 (- ?n) * p2 ?e)" by (simp add: B f(10))
  then have bm: "fval fmt bc * mag_val fmt M = of_int (B * sig_of fmt M) * G" unfolding v .
  show 1: "fval fmt ac - fval fmt bc * mag_val fmt M = of_int j * G" unfolding A u bm by (simp add: j_def left_over_def algebra_simps)
  show 2: "fval fmt bc * p2 ?e = of_int B * G" unfolding B mult.assoc v ..
  have ax: "fval fmt bc * x = fval fmt ac" using b by (simp add: x_def)
  show 6: "fval fmt bc * (x - mag_val fmt M) = of_int j * G" using 1 by (simp add: right_diff_distrib ax)
  have s: "fval fmt bc * (x - mag_val fmt (M + 1)) = of_int (j - B) * G"
    unfolding f(11) using 6 2 by (simp add: algebra_simps)
  have lt: "w < 0 \<longleftrightarrow> k < 0" "w = 0 \<longleftrightarrow> k = 0" if "fval fmt bc * w = of_int k * G" for w and k :: int
  proof -
    have "w < 0 \<longleftrightarrow> fval fmt bc * w < 0" "w = 0 \<longleftrightarrow> fval fmt bc * w = 0" using b by (auto simp: mult_less_0_iff)
    then show "w < 0 \<longleftrightarrow> k < 0" "w = 0 \<longleftrightarrow> k = 0" unfolding that using G by (auto simp: mult_less_0_iff)
  qed
  show "x < mag_val fmt M \<longleftrightarrow> j < 0" using lt(1) [OF 6] by simp
  show "x < mag_val fmt (M + 1) \<longleftrightarrow> j < B" using lt(1) [OF s] by simp
  show "x = mag_val fmt (M + 1) \<longleftrightarrow> j = B" using lt(2) [OF s] by simp
qed

lemma mid_residual:
  assumes env: "div_env fmt N ac A bc B nbc" and m: "mid fmt M"
  obtains r where "div_residual fmt nbc ac M = Inr r" "rounds fmt RND_RNE (of_int (left_over fmt A B M) * p2 (exp_of fmt M - int (man_w fmt))) r"
    "\<bar>fval fmt r\<bar> \<le> 1000"
proof -
  note d = div_envD [OF env] note f = mid_facts [OF d(1) m] note sf = seq_fmt_facts [OF d(1)]
  note a = centred_range [OF d(3)] note b = centred_range [OF d(4)]
  have af: "fits fmt ac" "is_finite fmt ac" using d(3) by (simp_all add: centred_def)
  let ?v = "of_int (left_over fmt A B M) * p2 (exp_of fmt M - int (man_w fmt))"
  have v: "fval fmt nbc * fval fmt M + fval fmt ac = ?v" using left_over_facts(1) [OF env m] by (simp add: d(7) f(3))
  have "\<bar>fval fmt bc * mag_val fmt M\<bar> \<le> 2 * 2" using b m by (intro abs_prod_le) (simp_all add: mid_def)
  then have s: "\<bar>?v\<bar> \<le> 10" unfolding left_over_facts(1) [OF env m, symmetric] using a by linarith
  then have "\<bar>?v\<bar> \<le> 1048576" by simp
  from op_fma_fits [OF d(2) rne(2) d(5,6) f(1,2) af, unfolded v, OF big_enough [OF d(1) this]] obtain r where
    r: "v_step fmt OP_FMA nbc (Some M) (Some ac) RND_RNE = Inr r" "rounds fmt RND_RNE ?v r" by blast
  have "\<bar>?v\<bar> * rel_err fmt \<le> 10 * 1" "rel_err fmt * rel_err fmt \<le> 1 * 1" using s sf(7,8) by (intro mult_mono; simp)+
  then have "\<bar>fval fmt r\<bar> \<le> 1000" using rounds_err [OF r(2) rne(1)] sf(10) s by linarith
  then show thesis using r that by (simp add: div_residual_def)
qed

text \<open>The comparison of the remainder against a multiple of the divisor, at a power of two.\<close>

lemma div_room:
  assumes env: "div_env fmt N ac A bc B nbc" and r: "fits fmt r" "is_finite fmt r" "\<bar>fval fmt r\<bar> \<le> 1000"
    and e: "e \<le> 0" "- int (man_w fmt) - 2 \<le> e"
  obtains u d where "pow2_bits fmt e = Inr u" "v_step fmt OP_FMA nbc (Some u) (Some r) RND_RNE = Inr d"
    "rounds fmt RND_RNE (fval fmt r - fval fmt bc * p2 e) d"
proof -
  note d = div_envD [OF env] note sf = seq_fmt_facts [OF d(1)] note b = centred_range [OF d(4)]
  have "emin fmt \<le> e" "e \<le> emax fmt" using e sf(4,5) by linarith+
  from pow2_bits_value [OF d(2) this] obtain u where u: "pow2_bits fmt e = Inr u" "fits fmt u" "is_finite fmt u" "fval fmt u = p2 e" by blast
  have v: "fval fmt nbc * fval fmt u + fval fmt r = fval fmt r - fval fmt bc * p2 e" by (simp add: d(7) u(4))
  have "p2 e \<le> p2 0" using e by (subst p2_mono_iff) simp
  then have "\<bar>fval fmt bc * p2 e\<bar> \<le> 2 * 1" using b by (intro abs_prod_le) simp_all
  then have "\<bar>fval fmt r - fval fmt bc * p2 e\<bar> \<le> 1048576" using r(3) by linarith
  from op_fma_fits [OF d(2) rne(2) d(5,6) u(2,3) r(1,2), unfolded v, OF big_enough [OF d(1) this]] show thesis
    using u(1) that by blast
qed

lemma exact_left_over:
  assumes env: "div_env fmt N ac A bc B nbc" and m: "mid fmt M" and j: "0 \<le> left_over fmt A B M" "left_over fmt A B M < B"
  obtains r where "div_residual fmt nbc ac M = Inr r" "fits fmt r" "is_finite fmt r"
    "fval fmt r = of_int (left_over fmt A B M) * p2 (exp_of fmt M - int (man_w fmt))" "\<bar>fval fmt r\<bar> \<le> 1000"
proof -
  note d = div_envD [OF env]
  obtain r where r: "div_residual fmt nbc ac M = Inr r" "rounds fmt RND_RNE (of_int (left_over fmt A B M) * p2 (exp_of fmt M - int (man_w fmt))) r"
    "\<bar>fval fmt r\<bar> \<le> 1000" by (rule mid_residual [OF env m])
  have "\<bar>left_over fmt A B M\<bar> \<le> 2 ^ nat (prec fmt)" using j d(9) by linarith
  from grid_rep [OF d(1) m this disjI1 [OF refl]] have "fval fmt r = of_int (left_over fmt A B M) * p2 (exp_of fmt M - int (man_w fmt))"
    by (rule rounds_exact [OF r(2)])
  then show thesis by (intro that [OF r(1) roundsD(1,2) [OF r(2)] _ r(3)])
qed

lemma restore_stop:
  assumes env: "div_env fmt N ac A bc B nbc" and m: "mid fmt M" and j: "0 \<le> left_over fmt A B M" "left_over fmt A B M < B"
  shows "div_restore fmt nbc ac n M = Inr M"
proof (cases n)
  case (Suc k)
  note d = div_envD [OF env] note f = mid_facts [OF d(1) m] note l = left_over_facts [OF env m]
  let ?j = "left_over fmt A B M" let ?G = "p2 (exp_of fmt M - int (man_w fmt))"
  obtain r where r: "div_residual fmt nbc ac M = Inr r" "fits fmt r" "is_finite fmt r" "fval fmt r = of_int ?j * ?G" "\<bar>fval fmt r\<bar> \<le> 1000"
    by (rule exact_left_over [OF env m j])
  have e: "exp_of fmt M \<le> 0" "- int (man_w fmt) - 2 \<le> exp_of fmt M" using f(6,7) by linarith+
  obtain u rm where u: "pow2_bits fmt (exp_of fmt M) = Inr u" "v_step fmt OP_FMA nbc (Some u) (Some r) RND_RNE = Inr rm"
    "rounds fmt RND_RNE (fval fmt r - fval fmt bc * p2 (exp_of fmt M)) rm" by (rule div_room [OF env r(2,3,5) e])
  have "fval fmt r - fval fmt bc * p2 (exp_of fmt M) \<le> 0"
    unfolding r(4) l(2) left_diff_distrib [symmetric] using j l(7) by (simp add: mult_le_0_iff)
  from roundsD(4) [OF u(3) rep_0 [OF d(2)] this] have "\<not> 0 < fval fmt rm" by simp
  moreover have "\<not> fval fmt r < 0" using j(1) by (simp add: r(4) mult_less_0_iff)
  ultimately show ?thesis
    using zero_test(2) [OF d(2) r(2,3)] zero_test(3) [OF d(2) roundsD(1,2) [OF u(3)]] by (auto simp: Suc r(1) f(5) u(1,2))
qed simp

lemma restore_down:
  assumes env: "div_env fmt N ac A bc B nbc" and m: "mid fmt M" and j: "left_over fmt A B M < 0"
  shows "div_restore fmt nbc ac (Suc n) M = div_restore fmt nbc ac n (M - 1)"
proof -
  note d = div_envD [OF env]
  let ?j = "left_over fmt A B M" let ?G = "p2 (exp_of fmt M - int (man_w fmt))"
  obtain r where r: "div_residual fmt nbc ac M = Inr r" "rounds fmt RND_RNE (of_int ?j * ?G) r" by (rule mid_residual [OF env m])
  have "\<bar>- 1\<bar> \<le> (2::int) ^ nat (prec fmt)" by (simp add: one_le_power)
  from grid_rep [OF d(1) m this disjI1 [OF refl]] have "rep fmt (- ?G)" by simp
  moreover have "of_int ?j * ?G \<le> of_int (- 1) * ?G" using j by (intro mult_right_mono) (simp_all only: of_int_le_iff, simp_all)
  ultimately have "fval fmt r \<le> - ?G" using roundsD(4) [OF r(2), of "- ?G"] by simp
  moreover have "0 < ?G" by simp
  ultimately have "fval fmt r < 0" by linarith
  then show ?thesis using zero_test(2) [OF d(2) roundsD(1,2) [OF r(2)]] by (simp add: r(1))
qed

lemma restore_up:
  assumes env: "div_env fmt N ac A bc B nbc" and m: "mid fmt M" and j: "B < left_over fmt A B M"
  shows "div_restore fmt nbc ac (Suc n) M = div_restore fmt nbc ac n (M + 1)"
proof -
  note d = div_envD [OF env] note f = mid_facts [OF d(1) m] note l = left_over_facts [OF env m]
  let ?j = "left_over fmt A B M" let ?G = "p2 (exp_of fmt M - int (man_w fmt))"
  obtain r where r: "div_residual fmt nbc ac M = Inr r" "rounds fmt RND_RNE (of_int ?j * ?G) r" "\<bar>fval fmt r\<bar> \<le> 1000" by (rule mid_residual [OF env m])
  have e: "exp_of fmt M \<le> 0" "- int (man_w fmt) - 2 \<le> exp_of fmt M" using f(6,7) by linarith+
  obtain u rm where u: "pow2_bits fmt (exp_of fmt M) = Inr u" "v_step fmt OP_FMA nbc (Some u) (Some r) RND_RNE = Inr rm"
    "rounds fmt RND_RNE (fval fmt r - fval fmt bc * p2 (exp_of fmt M)) rm" by (rule div_room [OF env roundsD(1,2) [OF r(2)] r(3) e])
  have "\<bar>B + 1\<bar> \<le> 2 ^ nat (prec fmt)" using d(8,10) by simp
  from grid_rep [OF d(1) m this disjI1 [OF refl]] have "rep fmt (of_int (B + 1) * ?G)" .
  moreover have "of_int (B + 1) * ?G \<le> of_int ?j * ?G" using j by (intro mult_right_mono) (simp_all only: of_int_le_iff, simp_all)
  ultimately have ge: "of_int (B + 1) * ?G \<le> fval fmt r" by (rule roundsD(3) [OF r(2)])
  then have "?G \<le> fval fmt r - fval fmt bc * p2 (exp_of fmt M)" unfolding l(2) by (simp add: distrib_right)
  moreover have "\<bar>1\<bar> \<le> (2::int) ^ nat (prec fmt)" by (simp add: one_le_power)
  from grid_rep [OF d(1) m this disjI1 [OF refl]] have "rep fmt ?G" by simp
  ultimately have "?G \<le> fval fmt rm" using roundsD(3) [OF u(3)] by blast
  then have "0 < fval fmt rm" using l(7) by linarith
  moreover have "0 \<le> of_int (B + 1) * ?G" using d(8) by simp
  then have "\<not> fval fmt r < 0" using ge by linarith
  ultimately show ?thesis
    using zero_test(2) [OF d(2) roundsD(1,2) [OF r(2)]] zero_test(3) [OF d(2) roundsD(1,2) [OF u(3)]] by (auto simp: r(1) f(5) u(1,2))
qed

section \<open>The guard bit and the sticky bit\<close>

definition measured :: "int \<Rightarrow> int \<Rightarrow> int \<times> int \<Rightarrow> bool" where
  "measured j b gs \<longleftrightarrow> (fst gs = 0 \<or> fst gs = 1) \<and> (snd gs = 0 \<or> snd gs = 1) \<and>
    (fst gs = 1 \<longleftrightarrow> b \<le> 2 * j) \<and> (snd gs = 0 \<longleftrightarrow> j = 0 \<or> 2 * j = b)"

lemma div_guard_measured:
  assumes env: "div_env fmt N ac A bc B nbc" and m: "mid fmt M" and j: "0 \<le> left_over fmt A B M" "left_over fmt A B M < B"
  obtains r gs where "div_residual fmt nbc ac M = Inr r" "div_guard fmt nbc (exp_of fmt M) r = Inr gs" "measured (left_over fmt A B M) B gs"
proof -
  note d = div_envD [OF env] note f = mid_facts [OF d(1) m] note l = left_over_facts [OF env m]
  let ?j = "left_over fmt A B M" let ?G = "p2 (exp_of fmt M - int (man_w fmt))" let ?h = "p2 (exp_of fmt M - int (man_w fmt) - 1)"
  obtain r where r: "div_residual fmt nbc ac M = Inr r" "fits fmt r" "is_finite fmt r" "fval fmt r = of_int ?j * ?G" "\<bar>fval fmt r\<bar> \<le> 1000"
    by (rule exact_left_over [OF env m j])
  have z: "r = zero_bits fmt 0 \<or> r = zero_bits fmt 1 \<longleftrightarrow> ?j = 0" unfolding zero_test(1) [OF d(2) r(2,3)] r(4) by simp
  show thesis
  proof (cases "?j = 0")
    case True
    have "div_guard fmt nbc (exp_of fmt M) r = Inr (0, 0)" using z True by (simp add: div_guard_def)
    then show thesis using True d(8) by (intro that [OF r(1)]) (auto simp: measured_def)
  next
    case False
    have e: "exp_of fmt M - 1 \<le> 0" "- int (man_w fmt) - 2 \<le> exp_of fmt M - 1" using f(6,7) by linarith+
    obtain u dd where u: "pow2_bits fmt (exp_of fmt M - 1) = Inr u" "v_step fmt OP_FMA nbc (Some u) (Some r) RND_RNE = Inr dd"
      "rounds fmt RND_RNE (fval fmt r - fval fmt bc * p2 (exp_of fmt M - 1)) dd" by (rule div_room [OF env r(2,3,5) e])
    have G: "?G = 2 * ?h" by (simp add: p2_pred)
    have "fval fmt bc * p2 (exp_of fmt M - 1) = of_int B * ?h" using l(2) by (simp add: p2_pred)
    then have v: "fval fmt r - fval fmt bc * p2 (exp_of fmt M - 1) = of_int (2 * ?j - B) * ?h" by (simp add: r(4) G left_diff_distrib)
    have "\<bar>2 * ?j - B\<bar> \<le> 2 ^ nat (prec fmt)" using j d(9) by linarith
    from grid_rep [OF d(1) m this disjI2 [OF refl]] have dv: "fval fmt dd = of_int (2 * ?j - B) * ?h"
      using rounds_exact [OF u(3)] unfolding v by blast
    have h: "0 < ?h" by simp
    note t = zero_test(1,2) [OF d(2) roundsD(1,2) [OF u(3)]]
    have t1: "dd = zero_bits fmt 0 \<or> dd = zero_bits fmt 1 \<longleftrightarrow> 2 * ?j = B" unfolding t(1) dv using of_int_eq_iff [of "2 * ?j" B, where 'a = real] by simp
    have t2: "truthy (sign_bit fmt dd) \<and> dd \<noteq> zero_bits fmt 1 \<longleftrightarrow> 2 * ?j < B" unfolding t(2) dv using h of_int_less_iff [of "2 * ?j" B, where 'a = real] by (simp add: mult_less_0_iff)
    have "div_guard fmt nbc (exp_of fmt M) r = Inr (if 2 * ?j = B then (1, 0) else if 2 * ?j < B then (0, 1) else (1, 1))"
      using z False t1 t2 by (auto simp: div_guard_def u(1,2))
    then show thesis using False by (intro that [OF r(1)]) (auto simp: measured_def split: if_splits)
  qed
qed

section \<open>One rounding\<close>

text \<open>The significand with the two measured bits lies on the same side of every half place as the quotient.\<close>

lemma same_side:
  fixes k j b i :: int
  assumes gs: "measured j b gs" and j: "0 \<le> j" "j < b"
  defines "x \<equiv> 2 * of_int k + 2 * (of_int j / of_int b) :: real" and "y \<equiv> of_int (4 * k + 2 * fst gs + snd gs) / 2 :: real"
  shows "x < of_int i \<longleftrightarrow> y < of_int i" "x = of_int i \<longleftrightarrow> y = of_int i"
proof -
  define f :: real where "f = 2 * (of_int j / of_int b)"
  have b: "0 < b" using j by simp
  have r: "(of_int (2 * j) :: real) \<le> of_int b \<longleftrightarrow> 2 * j \<le> b" "(of_int (2 * j) :: real) = of_int b \<longleftrightarrow> 2 * j = b"
    "(of_int (2 * j) :: real) < of_int b \<longleftrightarrow> 2 * j < b" "(of_int j :: real) < of_int b"
    using j by (simp_all only: of_int_le_iff of_int_eq_iff of_int_less_iff)
  have f: "f = 0 \<longleftrightarrow> j = 0" "0 \<le> f" "f < 2" "f = 1 \<longleftrightarrow> 2 * j = b" "f < 1 \<longleftrightarrow> 2 * j < b"
    using b j r by (auto simp: f_def divide_simps)
  have x: "x = 2 * of_int k + f" by (simp add: x_def f_def)
  have y: "y = 2 * of_int k + of_int (fst gs) + of_int (snd gs) / 2" by (simp add: y_def add_divide_distrib)
  have "\<exists>c :: int. (x = of_int c \<and> y = of_int c) \<or> (of_int c < x \<and> x < of_int c + 1 \<and> y = of_int c + 1 / 2)"
  proof (cases "j = 0 \<or> 2 * j = b")
    case True
    then have "snd gs = 0" "of_int (fst gs) = f" using gs f b by (auto simp: measured_def)
    then show ?thesis unfolding x y by (intro exI [of _ "2 * k + fst gs"]) simp
  next
    case False
    then have "snd gs = 1" "of_int (fst gs) < f \<and> f < of_int (fst gs) + 1" using gs f b by (auto simp: measured_def)
    then show ?thesis unfolding x y by (intro exI [of _ "2 * k + fst gs"]) simp
  qed
  then obtain c :: int where c: "(x = of_int c \<and> y = of_int c) \<or> (of_int c < x \<and> x < of_int c + 1 \<and> y = of_int c + 1 / 2)" by blast
  have "i \<le> c \<or> c + 1 \<le> i" by linarith
  then have "(of_int i :: real) \<le> of_int c \<or> of_int c + 1 \<le> (of_int i :: real)"
    using of_int_le_iff [of i c, where 'a = real] of_int_le_iff [of "c + 1" i, where 'a = real] by simp
  then show "x < of_int i \<longleftrightarrow> y < of_int i" "x = of_int i \<longleftrightarrow> y = of_int i" using c by linarith+
qed

lemma pack_bits:
  assumes gs: "g = 0 \<or> g = 1" "s = 0 \<or> s = 1"
  shows "((push_bit 2 k OR push_bit 1 g) OR s :: int) = 4 * k + 2 * g + s"
proof -
  have "k * 2 ^ 2 OR push_bit 1 g = k * 2 ^ 2 + 2 * g" using gs by (intro or_disjoint [THEN trans]) (auto simp: push_bit_eq_mult)
  moreover have "(2 * k + g) * 2 ^ 1 OR s = (2 * k + g) * 2 ^ 1 + s" using gs by (intro or_disjoint) auto
  ultimately show ?thesis by (simp add: push_bit_eq_mult algebra_simps)
qed

text \<open>A significand with two more bits rounds as any value on the same side of every half place.\<close>

lemma half_place_round:
  fixes X :: real and k g s :: int
  assumes wf: "wf_fmt fmt" and dir: "valid_dir rnd" and k: "2 ^ man_w fmt \<le> k" and gs: "g = 0 \<or> g = 1" "s = 0 \<or> s = 1" and X: "2 * of_int k \<le> X"
    and same: "\<And>i :: int. X < of_int i \<longleftrightarrow> of_int (4 * k + 2 * g + s) / 2 < (of_int i :: real)" "\<And>i :: int. X = of_int i \<longleftrightarrow> of_int (4 * k + 2 * g + s) / 2 = (of_int i :: real)"
  shows "round_pack fmt sq ((push_bit 2 k OR push_bit 1 g) OR s) (E - 1) rnd = Inr (round_real fmt rnd sq (X * p2 E))"
proof -
  define n where "n = 4 * k + 2 * g + s"
  note same' = same [folded n_def]
  have k0: "0 < k" using k by (meson less_le_trans zero_less_numeral zero_less_power)
  then have n: "0 < n" using gs by (auto simp: n_def)
  have x0: "0 < X" using X k0 by (smt (verit) of_int_0_less_iff)
  have nv: "of_int n * p2 (E - 1) = of_int n / 2 * p2 E" using p2_pred [of E] by simp
  have pg: "0 < p2 E" by simp
  have "(2 ^ man_w fmt :: real) \<le> of_int k" using k of_int_le_iff [of "2 ^ man_w fmt" k, where 'a = real] by simp
  then have "2 * 2 ^ man_w fmt \<le> X" using X by linarith
  then have "2 * 2 ^ man_w fmt * p2 E \<le> X * p2 E" by (intro mult_right_mono) simp_all
  moreover have "p2 (int (man_w fmt) + 1 + E) = 2 * 2 ^ man_w fmt * p2 E" by (simp add: p2_add p2_succ)
  ultimately have "int (man_w fmt) + 1 + E \<le> ilog2 (X * p2 E)" using x0 by (subst ilog2_ge_iff) simp_all
  then have place: "E \<le> ilog2 (X * p2 E) - int (man_w fmt) - 1" by simp
  have "round_real fmt rnd sq (X * p2 E) = round_real fmt rnd sq (of_int n * p2 (E - 1))"
  proof (rule round_real_cong [where g = E])
    show "0 < X * p2 E" "0 < of_int n * p2 (E - 1)" using x0 n by simp_all
    show "X * p2 E < of_int i * p2 E \<longleftrightarrow> of_int n * p2 (E - 1) < of_int i * p2 E"
      "X * p2 E = of_int i * p2 E \<longleftrightarrow> of_int n * p2 (E - 1) = of_int i * p2 E" for i :: int
      unfolding nv mult_less_cancel_right_pos [OF pg] mult_cancel_right same' using pg by auto
  qed (rule place)
  then show ?thesis unfolding pack_bits [OF gs] n_def [symmetric] round_pack_refines [OF wf n dir] by simp
qed

lemma bits_round:
  assumes env: "div_env fmt N ac A bc B nbc" and m: "mid fmt M" and j: "0 \<le> left_over fmt A B M" "left_over fmt A B M < B"
    and gs: "measured (left_over fmt A B M) B (g, s)" and dir: "valid_dir rnd"
  shows "round_pack fmt sq ((push_bit 2 (sig_of fmt M) OR push_bit 1 g) OR s) (exp_of fmt M + D - 2) rnd =
    Inr (round_real fmt rnd sq (fval fmt ac / fval fmt bc * p2 D))"
proof -
  note d = div_envD [OF env] note f = mid_facts [OF d(1) m] note l = left_over_facts [OF env m]
  note a = centred_range [OF d(3)] note b = centred_range [OF d(4)]
  let ?j = "left_over fmt A B M" let ?k = "sig_of fmt M" let ?e = "exp_of fmt M"
  define x where "x = fval fmt ac / fval fmt bc"
  define g' where "g' = ?e + D - 1"
  have gs': "g = 0 \<or> g = 1" "s = 0 \<or> s = 1" using gs unfolding measured_def fst_conv snd_conv by blast+
  have B: "(0::real) < of_int B" using d(8) by simp
  have "fval fmt bc * (x - mag_val fmt M) * of_int B = fval fmt bc * p2 ?e * of_int ?j"
    unfolding x_def l(6) l(2) by simp
  then have "(x - mag_val fmt M) * of_int B = p2 ?e * of_int ?j" using b by simp
  then have "x - mag_val fmt M = p2 ?e * of_int ?j / of_int B" using B by (subst nonzero_eq_divide_eq) simp_all
  then have "x = mag_val fmt M + p2 ?e * (of_int ?j / of_int B)" by simp
  then have xv: "x * p2 D = (2 * of_int ?k + 2 * (of_int ?j / of_int B)) * p2 g'"
    by (simp add: f(10) g'_def p2_pred p2_add algebra_simps)
  have le: "2 * of_int ?k \<le> 2 * of_int ?k + 2 * (of_int ?j / of_int B :: real)" using j(1) B by simp
  note ss = same_side [OF gs j, of ?k, unfolded fst_conv snd_conv]
  have e: "g' - 1 = ?e + D - 2" by (simp add: g'_def)
  show ?thesis using half_place_round [OF d(2) dir f(8) gs' le ss, of sq g'] unfolding e xv [symmetric] x_def .
qed

section \<open>The floor of the quotient\<close>

lemma positive_mag:
  assumes wf: "wf_fmt fmt" and q: "fits fmt q" "is_finite fmt q" "0 < fval fmt q"
  shows "mag_of fmt q = q" "fval fmt q = mag_val fmt q" "0 \<le> q"
proof -
  note v = fval_eq [OF wf q(1,2)]
  have m0: "0 \<le> mag_val fmt (mag_of fmt q)" by (simp add: mag_bounds)
  have "sgn_of fmt q = 0"
  proof (rule ccontr)
    assume "sgn_of fmt q \<noteq> 0"
    then have "fval fmt q = - mag_val fmt (mag_of fmt q)" using fits_sgn [OF q(1)] v by auto
    then show False using q(3) m0 by linarith
  qed
  then show "mag_of fmt q = q" "fval fmt q = mag_val fmt q" "0 \<le> q" using pack_fields [of fmt q] v mag_bounds(1) [of fmt q] by simp_all
qed

lemma trunc_mid:
  assumes sf: "seq_fmt fmt N" and q: "rounds fmt RND_RTZ t q" and t: "1 / 2 \<le> t" "t < 2"
  shows "mid fmt q" "mag_val fmt q \<le> t" "t < mag_val fmt (q + 1)"
proof -
  note f = seq_fmt_facts [OF sf] note wf = f(1)
  have "rep fmt (p2 (- 1))" using f(4-6) by (intro rep_p2 [OF wf]) linarith+
  then have "rep fmt (1 / 2)" by (simp add: power_int_def)
  then have lo: "1 / 2 \<le> fval fmt q" using t(1) by (rule roundsD(3) [OF q])
  have hi: "fval fmt q \<le> t" using q t(1) by (simp add: rounds_def)
  have p: "mag_of fmt q = q" "fval fmt q = mag_val fmt q" using positive_mag [OF wf roundsD(1,2) [OF q]] lo by simp_all
  show mid: "mid fmt q" using lo hi t(2) mag_bounds(1) [of fmt q] by (simp add: mid_def p)
  show "mag_val fmt q \<le> t" using hi by (simp add: p)
  show "t < mag_val fmt (q + 1)"
  proof (rule ccontr)
    assume "\<not> t < mag_val fmt (q + 1)"
    moreover have "rep fmt (mag_val fmt (q + 1))" using mid_facts(12,13) [OF sf mid] by (intro rep_mag(1) [OF wf]) simp_all
    ultimately have "mag_val fmt (q + 1) \<le> mag_val fmt q" using roundsD(3) [OF q] by (simp add: p(2))
    then show False using mid_facts(12) [OF sf mid] by (simp add: mag_val_le_iff)
  qed
qed

lemma centred_upper:
  assumes "centred fmt c A" shows "fval fmt c \<le> 2 - 2 * rel_err fmt"
proof -
  have A: "(of_int A :: real) \<le> 2 * 2 ^ man_w fmt - 1" using assms of_int_le_iff [of A "2 * 2 ^ man_w fmt - 1", where 'a = real] by (simp add: centred_def)
  have "2 * rel_err fmt = 1 / 2 ^ man_w fmt" by (simp add: rel_err_def prec_def nat_add_distrib)
  moreover have "fval fmt c = of_int A / 2 ^ man_w fmt" using assms by (simp add: centred_def power_int_minus divide_inverse)
  moreover have "of_int A / 2 ^ man_w fmt \<le> (2 * 2 ^ man_w fmt - 1) / (2 ^ man_w fmt :: real)" using A by (intro divide_right_mono) simp_all
  ultimately show ?thesis by (simp add: diff_divide_distrib)
qed

lemma neighbour_gap:
  assumes sf: "seq_fmt fmt N" and m: "0 \<le> m" "m < n" "1 / 2 \<le> mag_val fmt k" "k = m \<or> k = n"
  shows "rel_err fmt / 2 \<le> mag_val fmt n - mag_val fmt m"
proof -
  have lt: "mag_val fmt m < mag_val fmt n" using m by (simp add: mag_val_less_iff)
  have k: "mag_val fmt k \<le> 2 ^ nat (prec fmt) * (mag_val fmt n - mag_val fmt m)"
    using mag_gap [of m n fmt] mag_gap [of n m fmt] m lt by (auto simp: abs_minus_commute)
  then have "mag_val fmt k * rel_err fmt \<le> mag_val fmt n - mag_val fmt m" by (simp add: rel_err_def pos_divide_le_eq mult.commute)
  moreover have "1 / 2 * rel_err fmt \<le> mag_val fmt k * rel_err fmt" using m(3) seq_fmt_facts(7) [OF sf] by (intro mult_right_mono) simp_all
  ultimately show ?thesis by simp
qed

lemma no_neg_half: "mag_val fmt m * 2 = - 1 \<Longrightarrow> 0 \<le> m \<Longrightarrow> False"
  using mag_val_nonneg [of m fmt] by linarith

lemma restored_floor:
  assumes env: "div_env fmt N ac A bc B nbc" and q: "rounds fmt RND_RTZ t q"
    and t: "\<bar>t - fval fmt ac / fval fmt bc\<bar> \<le> 16 * (rel_err fmt * rel_err fmt) * (fval fmt ac / fval fmt bc)"
    and ex: "rep fmt (fval fmt ac / fval fmt bc) \<Longrightarrow> t = fval fmt ac / fval fmt bc"
  obtains M where "div_restore fmt nbc ac 2 q = Inr M" "mid fmt M" "0 \<le> left_over fmt A B M" "left_over fmt A B M < B"
proof -
  note d = div_envD [OF env] note f = seq_fmt_facts [OF d(1)] note wf = d(2)
  note a = centred_range [OF d(3)] note b = centred_range [OF d(4)]
  define x where "x = fval fmt ac / fval fmt bc"
  let ?H = "rel_err fmt"
  have ax: "fval fmt ac = fval fmt bc * x" using b by (simp add: x_def)
  have H: "0 < 2 * ?H" "2 * ?H < 1" using f(7,8) by simp_all
  note x = quotient_range [OF a(1) centred_upper [OF d(3)] b(1) centred_upper [OF d(4)] ax H]
  have "?H * ?H \<le> ?H / 1048576" using mult_left_mono [OF f(8), of ?H] f(7) by simp
  moreover have "?H * ?H * x \<le> ?H * ?H * 2" using x H by (intro mult_left_mono) simp_all
  ultimately have e: "\<bar>t - x\<bar> \<le> ?H / 4" using t [folded x_def] f(7) by linarith
  have t12: "1 / 2 \<le> t" "t < 2" using e x f(7) by linarith+
  note m = trunc_mid [OF d(1) q t12] note mf = mid_facts [OF d(1) m(1)] note l = left_over_facts(3-5) [OF env _, folded x_def]
  have q0: "0 \<le> q" "1 / 2 \<le> mag_val fmt q" using m(1) by (simp_all add: mid_def)
  have two: "(2::nat) = Suc 1" by simp
  consider "left_over fmt A B q < 0" | "0 \<le> left_over fmt A B q" "left_over fmt A B q < B" | "left_over fmt A B q = B" | "B < left_over fmt A B q"
    by linarith
  then show thesis
  proof cases
    case 1
    then have lt: "x < mag_val fmt q" using l(1) [OF m(1)] by simp
    have "rep fmt (p2 (- 1))" using f(4-6) by (intro rep_p2 [OF wf]) linarith+
    then obtain h where h: "0 \<le> h" "mag_val fmt h = 1 / 2" by (rule rep_mag_cases [OF wf]) (auto simp: power_int_def dest: no_neg_half)
    have "mag_val fmt h < mag_val fmt q" using lt x(1) f(7) unfolding h(2) by linarith
    then have "h \<le> q - 1" using h(1) q0 by (simp add: mag_val_less_iff)
    then have "1 / 2 \<le> mag_val fmt (q - 1)" "0 \<le> q - 1" using mag_val_le_iff [of h "q - 1" fmt] h by simp_all
    then have mid: "mid fmt (q - 1)" using m(1) mag_val_le_iff [of "q - 1" q fmt] by (simp add: mid_def)
    have "?H / 2 \<le> mag_val fmt q - mag_val fmt (q - 1)" using neighbour_gap [OF d(1), of "q - 1" q q] mid q0 by (simp add: mid_def)
    then have "\<not> x < mag_val fmt (q - 1)" using e m(2) f(7) by linarith
    then have j: "0 \<le> left_over fmt A B (q - 1)" "left_over fmt A B (q - 1) < B" using l(1,2) [OF mid] lt by simp_all
    show thesis using restore_down [OF env m(1) 1, of 1] restore_stop [OF env mid j] by (intro that [OF _ mid j]) (simp only: two)
  next
    case 2
    then show thesis using restore_stop [OF env m(1) 2] by (intro that [OF _ m(1) 2])
  next
    case 3
    then have "x = mag_val fmt (q + 1)" using l(3) [OF m(1)] by simp
    moreover have "rep fmt (mag_val fmt (q + 1))" using mf(12,13) by (intro rep_mag(1) [OF wf]) simp_all
    ultimately have "t = mag_val fmt (q + 1)" using ex by (simp add: x_def)
    then show thesis using m(3) by simp
  next
    case 4
    then have ge: "mag_val fmt (q + 1) \<le> x" using l(2) [OF m(1)] by simp
    have up: "mag_val fmt q \<le> mag_val fmt (q + 1)" using q0(1) by (simp add: mag_val_le_iff)
    then have mid: "mid fmt (q + 1)" using ge x(2) q0 f(7) by (simp add: mid_def)
    have "?H / 2 \<le> mag_val fmt (q + 1 + 1) - mag_val fmt (q + 1)"
      using neighbour_gap [OF d(1), of "q + 1" "q + 1 + 1" "q + 1"] mid q0 by (simp add: mid_def)
    then have "x < mag_val fmt (q + 1 + 1)" using e m(3) f(7) by linarith
    then have j: "0 \<le> left_over fmt A B (q + 1)" "left_over fmt A B (q + 1) < B" using l(1,2) [OF mid] ge by simp_all
    show thesis using restore_up [OF env m(1) 4, of 1] restore_stop [OF env mid j] by (intro that [OF _ mid j]) (simp only: two)
  qed
qed

lemma div_core_rounds:
  assumes env: "div_env fmt N ac A bc B nbc" and nb: "v_step fmt OP_NEG bc None None RND_RNE = Inr nbc" and dir: "valid_dir rnd"
  shows "div_core fmt sq ac bc D rnd = Inr (round_real fmt rnd sq (fval fmt ac / fval fmt bc * p2 D))"
proof -
  note d = div_envD [OF env]
  obtain y where y: "refine_recip fmt bc = Inr y" "fits fmt y" "is_finite fmt y" "\<bar>1 - fval fmt bc * fval fmt y\<bar> \<le> 4 * rel_err fmt"
    by (rule refine_recip_correct [OF d(1,4)])
  obtain q02 r0 q1 r1 q2 t where q: "v_step fmt OP_MUL ac (Some y) None RND_RNE = Inr q02" "div_residual fmt nbc ac q02 = Inr r0"
    "v_step fmt OP_FMA r0 (Some y) (Some q02) RND_RNE = Inr q1" "div_residual fmt nbc ac q1 = Inr r1"
    "v_step fmt OP_FMA r1 (Some y) (Some q1) RND_RTZ = Inr q2" "rounds fmt RND_RTZ t q2"
    and t: "\<bar>t - fval fmt ac / fval fmt bc\<bar> \<le> 16 * (rel_err fmt * rel_err fmt) * (fval fmt ac / fval fmt bc)"
    "rep fmt (fval fmt ac / fval fmt bc) \<Longrightarrow> t = fval fmt ac / fval fmt bc"
    by (rule quotient_steps [OF d(1,3,4) d(5-7) y(2-4)]) blast
  obtain M where M: "div_restore fmt nbc ac 2 q2 = Inr M" and m: "mid fmt M" and j: "0 \<le> left_over fmt A B M" "left_over fmt A B M < B"
    by (rule restored_floor [OF env q(6) t])
  obtain r gs where r: "div_residual fmt nbc ac M = Inr r" "div_guard fmt nbc (exp_of fmt M) r = Inr gs" "measured (left_over fmt A B M) B gs"
    by (rule div_guard_measured [OF env m j])
  obtain g s where gs: "gs = (g, s)" by force
  note u = mid_facts(4,5) [OF d(1) m]
  show ?thesis using bits_round [OF env m j r(3) [unfolded gs] dir, of sq D]
    by (simp add: div_core_def y(1) nb q(1-5) M r(1,2) u gs Let_def)
qed

section \<open>The whole routine\<close>

text \<open>Subnormal operands are scaled up exactly.\<close>

lemma scale_up:
  assumes sf: "seq_fmt fmt N" and x: "fits fmt x" "is_finite fmt x" "fval fmt x \<noteq> 0" "exp_field fmt x = 0" and p: "prec fmt \<le> p" "p \<le> prec fmt + 1"
  obtains u y where "pow2_bits fmt p = Inr u" "v_step fmt OP_MUL x (Some u) None RND_RNE = Inr y" "fits fmt y" "is_finite fmt y"
    "fval fmt y = fval fmt x * p2 p" "exp_field fmt y \<noteq> 0"
proof -
  note f = seq_fmt_facts [OF sf] note wf = f(1)
  let ?m = "mag_of fmt x"
  note v = fval_eq [OF wf x(1,2)]
  have m: "?m < 2 ^ man_w fmt" using x(4) exp_field_zero [OF x(1)] by simp
  have m0: "0 < ?m" using x(3) v by (cases "?m = 0") (simp_all add: order_less_le mag_bounds)
  have mv: "mag_val fmt ?m = of_int ?m * p2 (qmin fmt)" using m by (simp add: mag_val_def sig_of_def exp_of_def)
  have pe: "emin fmt \<le> p" "p \<le> emax fmt" using f(4,5) p by (simp_all add: prec_def)
  obtain u where u: "pow2_bits fmt p = Inr u" "fits fmt u" "is_finite fmt u" "fval fmt u = p2 p" by (rule pow2_bits_value [OF wf pe])
  let ?w = "fval fmt x * p2 p"
  have wv: "?w = of_int (if sgn_of fmt x = 0 then ?m else - ?m) * p2 (qmin fmt + p)"
    using fits_sgn [OF x(1)] by (auto simp: v mv p2_add)
  have "2 ^ nat (prec fmt) = 2 * (2 ^ man_w fmt :: int)" by (simp add: prec_def nat_add_distrib)
  then have "?m < 2 ^ nat (prec fmt)" using m m0 by linarith
  then have k: "\<bar>if sgn_of fmt x = 0 then ?m else - ?m\<bar> \<le> 2 ^ nat (prec fmt)" using m0 by simp
  have mr: "(of_int ?m :: real) < 2 ^ man_w fmt" using m of_int_less_iff [of ?m "2 ^ man_w fmt", where 'a = real] by simp
  have "of_int ?m * p2 (qmin fmt + p) \<le> 2 ^ man_w fmt * p2 (qmin fmt + p)" using mr by (intro mult_right_mono) simp_all
  also have "\<dots> = p2 (int (man_w fmt) + (qmin fmt + p))" by (simp only: p2_add) simp
  also have "\<dots> \<le> p2 1" using f(6) p by (subst p2_mono_iff) (simp add: prec_def)
  finally have lim: "of_int ?m * p2 (qmin fmt + p) \<le> p2 1" .
  also have "\<dots> < p2 (emax fmt + 1)" using f(3,5) by (subst p2_less_iff) simp
  finally have "rep fmt ?w" unfolding wv using k m0 p by (intro rep_scaled [OF wf]) (simp_all add: prec_def)
  have "\<bar>?w\<bar> \<le> 1048576" using lim m0 by (simp add: wv abs_mult)
  from op_mul_fits [OF wf rne(2) x(1,2) u(2,3), unfolded u(4), OF big_enough [OF sf this]]
  obtain y where y: "v_step fmt OP_MUL x (Some u) None RND_RNE = Inr y" "rounds fmt RND_RNE ?w y" by blast
  have yv: "fval fmt y = ?w" by (rule rounds_exact [OF y(2) \<open>rep fmt ?w\<close>])
  have "p2 (emin fmt) < \<bar>fval fmt y\<bar>"
  proof -
    have "1 * p2 (qmin fmt + p) \<le> of_int ?m * p2 (qmin fmt + p)" using m0 by (intro mult_right_mono) simp_all
    moreover have "p2 (emin fmt) < p2 (qmin fmt + p)" using p by (subst p2_less_iff) (simp add: qmin_def prec_def)
    ultimately have "p2 (emin fmt) < of_int ?m * p2 (qmin fmt + p)" by linarith
    then show ?thesis using m0 by (simp add: yv wv abs_mult)
  qed
  moreover have "\<bar>fval fmt y\<bar> = mag_val fmt (mag_of fmt y)"
    using fval_eq [OF wf roundsD(1,2) [OF y(2)]] fits_sgn [OF roundsD(1) [OF y(2)]] by (auto simp: abs_mult mag_bounds)
  ultimately have "mag_val fmt (2 ^ man_w fmt) < mag_val fmt (mag_of fmt y)" by (simp only: mag_val_min_normal [OF wf])
  then have "exp_field fmt y \<noteq> 0" unfolding exp_field_zero [OF roundsD(1) [OF y(2)]] by (simp add: mag_val_less_iff mag_bounds)
  then show thesis by (rule that [OF u(1) y(1) roundsD(1,2) [OF y(2)] yv])
qed

lemma prenorm_value:
  assumes sf: "seq_fmt fmt N" and x: "fits fmt x" "is_finite fmt x" "fval fmt x \<noteq> 0"
  obtains y s where "div_prenorm fmt x = Inr (y, s)" "fits fmt y" "is_finite fmt y" "fval fmt y = fval fmt x * p2 s" "exp_field fmt y \<noteq> 0"
proof (cases "exp_field fmt x = 0")
  case False
  then show thesis by (intro that [of x 0]) (simp_all add: div_prenorm_def x)
next
  case True
  obtain u y where u: "pow2_bits fmt (prec fmt) = Inr u" "v_step fmt OP_MUL x (Some u) None RND_RNE = Inr y" "fits fmt y" "is_finite fmt y"
    "fval fmt y = fval fmt x * p2 (prec fmt)" "exp_field fmt y \<noteq> 0" by (rule scale_up [OF sf x True]) auto
  then show thesis using True by (intro that [of y "prec fmt"]) (simp_all add: div_prenorm_def)
qed

text \<open>A significand under the biased exponent of one.\<close>

lemma centred_pack:
  assumes sf: "seq_fmt fmt N" and r: "0 \<le> f" "f < 2 ^ man_w fmt"
  shows "centred fmt (bias fmt * 2 ^ man_w fmt + f) (2 ^ man_w fmt + f)" "f OR push_bit (man_w fmt) (bias fmt) = bias fmt * 2 ^ man_w fmt + f"
proof -
  note sff = seq_fmt_facts [OF sf] note wf = sff(1)
  let ?n = "man_w fmt" let ?c = "bias fmt * 2 ^ ?n + f" let ?A = "2 ^ ?n + f"
  show "f OR push_bit ?n (bias fmt) = ?c" using or_disjoint [OF r, of "bias fmt"] by (simp add: push_bit_eq_mult or.commute)
  have "bias fmt + 1 \<le> exp_mask fmt" using exp_mask_bias [OF wf] bias_pos [OF wf] by simp
  then have "(bias fmt + 1) * 2 ^ ?n \<le> inf_mag fmt" unfolding inf_mag_def by (intro mult_right_mono) simp_all
  then have lt: "?c < inf_mag fmt" using r(2) unfolding distrib_right by linarith
  have c0: "0 \<le> ?c" using bias_pos [OF wf] r(1) by simp
  have lim: "?c < mag_lim fmt" using lt inf_mag_less [of fmt] by linarith
  have pl: "?c = place fmt (- int ?n) ?A" by (simp add: place_def qmin_def emin_def algebra_simps)
  have "mag_val fmt ?c = of_int ?A * p2 (- int ?n)" unfolding pl using sff(6) r by (intro mag_val_place) simp_all
  moreover have fields: "fits fmt ?c" "sgn_of fmt ?c = 0" "mag_of fmt ?c = ?c"
    using c0 lim fits_pack [of 0 ?c fmt] sgn_of_pack [of ?c fmt 0] mag_of_pack [of ?c fmt 0] by simp_all
  moreover have "is_finite fmt ?c" using lt by (simp only: is_finite_def fields(3))
  moreover have "fval fmt ?c = mag_val fmt ?c" using fval_pack [OF wf _ c0 lt, of 0] by simp
  ultimately show "centred fmt ?c ?A" using r by (simp add: centred_def)
qed

lemma centre_value:
  assumes sf: "seq_fmt fmt N" and x: "fits fmt x" "is_finite fmt x" "exp_field fmt x \<noteq> 0"
  obtains c e A where "centre fmt x = Inr (c, e)" "centred fmt c A" "\<bar>fval fmt x\<bar> = fval fmt c * p2 e"
proof -
  note f = seq_fmt_facts [OF sf] note wf = f(1)
  let ?n = "man_w fmt" let ?m = "mag_of fmt x"
  let ?c = "bias fmt * 2 ^ ?n + ?m mod 2 ^ ?n" and ?e = "?m div 2 ^ ?n - bias fmt"
  have m: "2 ^ ?n \<le> ?m" using x(3) exp_field_zero [OF x(1)] by simp
  have "?m < exp_mask fmt * 2 ^ ?n" using x(2) by (simp add: is_finite_def inf_mag_def)
  then have ed: "exp_field fmt x \<noteq> exp_mask fmt" using div_exp_less_iff [of ?m ?n "exp_mask fmt"] by (simp add: exp_field_eq [OF x(1)])
  have r: "0 \<le> ?m mod 2 ^ ?n" "?m mod 2 ^ ?n < 2 ^ ?n" by simp_all
  note pk = centred_pack [OF sf r]
  have "(x AND man_mask fmt) OR push_bit ?n (bias fmt) = ?c"
    using raw_fields(3) [OF mag_bounds [of fmt x] fits_sgn [OF x(1)]] pk(2) by (simp add: pack_fields)
  then have code: "centre fmt x = Inr (?c, ?e)" using x(3) ed by (simp add: centre_def exp_field_eq [OF x(1)])
  let ?A = "2 ^ ?n + ?m mod 2 ^ ?n"
  have cen: "centred fmt ?c ?A" by (rule pk(1))
  have "\<bar>fval fmt x\<bar> = mag_val fmt ?m" using fval_eq [OF wf x(1,2)] fits_sgn [OF x(1)] by (auto simp: abs_mult mag_bounds)
  also have "\<dots> = of_int ?A * p2 (- int ?n + ?e)"
  proof -
    have "exp_of fmt ?m = - int ?n + ?e" using m by (simp add: exp_of_def qmin_def emin_def)
    moreover have "sig_of fmt ?m = ?A" using m by (simp add: sig_of_def)
    ultimately show ?thesis by (simp add: mag_val_def)
  qed
  also have "\<dots> = of_int ?A * p2 (- int ?n) * p2 ?e" unfolding p2_add by simp
  also have "of_int ?A * p2 (- int ?n) = fval fmt ?c" using cen by (simp only: centred_def)
  finally show thesis by (rule that [OF code cen])
qed

theorem div_seq_div:
  assumes sf: "seq_fmt fmt N" and a: "fits fmt xa" and b: "fits fmt xb" and rnd: "valid_mode rnd"
  shows "div_seq fmt xa xb rnd = div_f fmt xa xb rnd"
proof (cases "is_finite fmt xa \<and> is_finite fmt xb \<and> fval fmt xa \<noteq> 0 \<and> fval fmt xb \<noteq> 0")
  case False
  note wf = seq_fmt_facts(1) [OF sf]
  have "u_kind (unpack fmt xa) = KNan \<or> u_kind (unpack fmt xa) = KInf \<or> u_kind (unpack fmt xa) = KZero \<or>
    u_kind (unpack fmt xb) = KNan \<or> u_kind (unpack fmt xb) = KInf \<or> u_kind (unpack fmt xb) = KZero"
    using False unpack_cases(2,4) [OF wf a] unpack_cases(2,4) [OF wf b] by blast
  then show ?thesis using rnd by (auto simp: div_seq_def div_f_def Let_def)
next
  case True
  note wf = seq_fmt_facts(1) [OF sf]
  have nk: "u_kind (unpack fmt xa) \<notin> {KNan, KInf, KZero}" "u_kind (unpack fmt xb) \<notin> {KNan, KInf, KZero}"
    using True unpack_cases(2,4) [OF wf a] unpack_cases(2,4) [OF wf b] by blast+
  obtain ya sa where ya: "div_prenorm fmt xa = Inr (ya, sa)" "fits fmt ya" "is_finite fmt ya" "fval fmt ya = fval fmt xa * p2 sa" "exp_field fmt ya \<noteq> 0"
    using prenorm_value [OF sf a] True by blast
  obtain yb sb where yb: "div_prenorm fmt xb = Inr (yb, sb)" "fits fmt yb" "is_finite fmt yb" "fval fmt yb = fval fmt xb * p2 sb" "exp_field fmt yb \<noteq> 0"
    using prenorm_value [OF sf b] True by blast
  obtain ac ea A where ac: "centre fmt ya = Inr (ac, ea)" "centred fmt ac A" "\<bar>fval fmt ya\<bar> = fval fmt ac * p2 ea"
    by (rule centre_value [OF sf ya(2,3,5)])
  obtain bc eb B where bc: "centre fmt yb = Inr (bc, eb)" "centred fmt bc B" "\<bar>fval fmt yb\<bar> = fval fmt bc * p2 eb"
    by (rule centre_value [OF sf yb(2,3,5)])
  have bf: "fits fmt bc" "is_finite fmt bc" using bc(2) by (simp_all add: centred_def)
  obtain nbc where nb: "v_step fmt OP_NEG bc None None RND_RNE = Inr nbc" "fits fmt nbc" "is_finite fmt nbc" "fval fmt nbc = - fval fmt bc"
    by (rule op_neg_fits [OF wf bf])
  let ?s = "u_sign (unpack fmt xa) XOR u_sign (unpack fmt xb)" let ?D = "ea - eb + (sb - sa)"
  have env: "div_env fmt N ac A bc B nbc" using sf ac(2) bc(2) nb(2-4) by (simp add: div_env_def)
  have code: "div_seq fmt xa xb rnd = div_core fmt ?s ac bc ?D rnd" using nk by (simp add: div_seq_def Let_def ya(1) yb(1) ac(1) bc(1))
  have va: "\<bar>fval fmt xa\<bar> = fval fmt ac * p2 ea / p2 sa" and vb: "\<bar>fval fmt xb\<bar> = fval fmt bc * p2 eb / p2 sb"
    using ac(3) bc(3) by (simp_all add: ya(4) yb(4) abs_mult nonzero_eq_divide_eq)
  let ?q = "fval fmt xa / fval fmt xb"
  have q: "\<bar>?q\<bar> = fval fmt ac / fval fmt bc * p2 ?D" unfolding abs_divide va vb by (simp add: p2_add p2_diff mult_ac)
  have s: "?s = 0 \<or> ?s = 1" and sgm: "sg ?s = sg (u_sign (unpack fmt xa)) * sg (u_sign (unpack fmt xb))"
    using xor_sign [OF unpack_cases(1) [OF wf a] unpack_cases(1) [OF wf b]] by blast+
  have q0: "0 < \<bar>?q\<bar>" using True by simp
  have "?q = sg ?s * \<bar>?q\<bar>"
  proof -
    have "fval fmt x = sg (u_sign (unpack fmt x)) * \<bar>fval fmt x\<bar>" if "fits fmt x" "is_finite fmt x" for x
      using fval_eq [OF wf that] fits_sgn [OF that(1)] wf that by (auto simp: abs_mult mag_bounds)
    from this [OF a] this [OF b] True have "?q = sg (u_sign (unpack fmt xa)) * \<bar>fval fmt xa\<bar> / (sg (u_sign (unpack fmt xb)) * \<bar>fval fmt xb\<bar>)" by simp
    then show ?thesis unfolding sgm abs_divide by (simp add: sg_def)
  qed
  from sg_mult_less_0 [OF q0 s, folded this] have signed: "round_signed fmt rnd ?q = round_real fmt rnd ?s \<bar>?q\<bar>" by (simp add: round_signed_def)
  have div: "div_f fmt xa xb rnd = Inr (round_signed fmt rnd ?q)" using True by (intro div_finite [OF wf a _ b _ rnd]) simp_all
  show ?thesis unfolding code div signed q by (rule div_core_rounds [OF env nb(1) valid_mode_dir [OF rnd]])
qed

end
