(* ===== verification/SeqSqrt.thy ===== *)
theory SeqSqrt
  imports SeqDiv
begin

text \<open>
  The square root sequence is the square root operation. The Newton steps for the reciprocal root square the
  error up to their roundings, the corrected root lies on the grid point below or above the exact one, and the
  restore step finds the floor. The residual there can need one bit more than the precision, so it is not
  always exact as the source's comments have it; its sign against the midpoint survives the rounding.
\<close>

section \<open>Error analysis over the reals\<close>

lemma root_newton_error:
  fixes a s y yy t y' u H T :: real
  assumes s: "1 \<le> s" "s < 2" "a = s * s" and H: "0 < H" "H \<le> 1 / 1048576" "0 \<le> T" "T \<le> H * H" and u: "0 \<le> u" "u \<le> 1 / 256"
    and d: "\<bar>1 - s * y\<bar> \<le> 5 / 8 * u + 4 * H"
    and e1: "\<bar>yy - y * y\<bar> \<le> \<bar>y * y\<bar> * H + T"
    and e2: "\<bar>t - (3 / 2 - a / 2 * yy)\<bar> \<le> \<bar>3 / 2 - a / 2 * yy\<bar> * H + T"
    and e3: "\<bar>y' - y * t\<bar> \<le> \<bar>y * t\<bar> * H + T"
  shows "\<bar>1 - s * y'\<bar> \<le> 5 / 8 * (u * u) + 4 * H"
proof -
  define D where "D = 1 - s * y"
  define m where "m = a * (yy - y * y)"
  define c where "c = 3 / 2 - a / 2 * yy"
  define n2 where "n2 = t - c"
  define n3 where "n3 = s * (y' - y * t)"
  have HH: "H * H \<le> H / 1048576" using mult_left_mono [OF H(2), of H] H(1) by simp
  have D: "\<bar>D\<bar> \<le> 5 / 8 * u + 4 * H" "\<bar>D\<bar> \<le> 1 / 400" using d H u by (simp_all add: D_def)
  have DD: "0 \<le> D * D" "D * D \<le> 1 / 160000" using abs_prod_le [OF D(2) D(2)] by simp_all
  have w: "s * y = 1 - D" by (simp add: D_def)
  have w2: "a * (y * y) = 1 - 2 * D + D * D" using w by (simp add: s(3) D_def algebra_simps)
  have m: "\<bar>m\<bar> \<le> 101 / 100 * H"
  proof -
    have a: "0 \<le> a" "a \<le> 4" using s mult_mono [of s 2 s 2] by simp_all
    have "\<bar>m\<bar> = a * \<bar>yy - y * y\<bar>" using a by (simp add: m_def abs_mult)
    also have "\<dots> \<le> a * (\<bar>y * y\<bar> * H + T)" using e1 a by (intro mult_left_mono) simp_all
    also have "\<dots> = a * (y * y) * H + a * T" by (simp add: algebra_simps)
    also have "a * T \<le> 4 * (H * H)" using a H by (intro mult_mono) simp_all
    also have "a * (y * y) * H \<le> 1006 / 1000 * H" using D(2) DD H(1) unfolding w2 by (intro mult_right_mono) simp_all
    finally show ?thesis using HH H(1) by linarith
  qed
  have c: "c = 1 + D - D * D / 2 - m / 2"
  proof -
    have "a * yy = a * (y * y) + m" by (simp add: m_def algebra_simps)
    then have "a * yy = 1 - 2 * D + D * D + m" unfolding w2 .
    then show ?thesis unfolding c_def by linarith
  qed
  have cb: "\<bar>c\<bar> \<le> 1003 / 1000" using D(2) DD m H(2) unfolding c by linarith
  have "\<bar>c\<bar> * H \<le> 1003 / 1000 * H" using cb H(1) by (intro mult_right_mono) simp_all
  then have n2: "\<bar>n2\<bar> \<le> 101 / 100 * H" using e2 HH H(1,4) unfolding n2_def c_def by linarith
  have tb: "\<bar>t\<bar> \<le> 1004 / 1000" using cb n2 H(2) unfolding n2_def by linarith
  have wb: "\<bar>s * y\<bar> \<le> 401 / 400" using D(2) unfolding w by linarith
  have n3: "\<bar>n3\<bar> \<le> 101 / 100 * H"
  proof -
    have "\<bar>n3\<bar> = s * \<bar>y' - y * t\<bar>" using s by (simp add: n3_def abs_mult)
    also have "\<dots> \<le> s * (\<bar>y * t\<bar> * H + T)" using e3 s by (intro mult_left_mono) simp_all
    also have "\<dots> = \<bar>s * y\<bar> * \<bar>t\<bar> * H + s * T" using s by (simp add: abs_mult algebra_simps)
    also have "s * T \<le> 2 * (H * H)" using s H by (intro mult_mono) simp_all
    also have "\<bar>s * y\<bar> * \<bar>t\<bar> * H \<le> 401 / 400 * (1004 / 1000) * H" using wb tb H(1) by (intro mult_mono) simp_all
    finally show ?thesis using HH H(1) by linarith
  qed
  have "s * y' = s * y * (c + n2) + n3" by (simp add: n2_def n3_def algebra_simps)
  then have e: "1 - s * y' = D * D * (3 / 2 - D / 2) + (1 - D) * (m / 2 - n2) - n3" unfolding w c by (simp add: algebra_simps) (simp add: field_simps)
  have "\<bar>D * D\<bar> \<le> D * D" using DD(1) by linarith
  moreover have "\<bar>3 / 2 - D / 2\<bar> \<le> 1502 / 1000" using D(2) by linarith
  ultimately have p1: "\<bar>D * D * (3 / 2 - D / 2)\<bar> \<le> D * D * (1502 / 1000)" by (rule abs_prod_le)
  have p2: "\<bar>(1 - D) * (m / 2 - n2)\<bar> \<le> 401 / 400 * (152 / 100 * H)" using D(2) m n2 H(1) by (intro abs_prod_le) linarith+
  have "\<bar>D * D\<bar> \<le> (5 / 8 * u + 4 * H) * (5 / 8 * u + 4 * H)" by (rule abs_prod_le [OF D(1) D(1)])
  also have "\<dots> = 25 / 64 * (u * u) + 5 * (u * H) + 16 * (H * H)" by (simp add: algebra_simps)
  finally have q: "D * D \<le> 25 / 64 * (u * u) + 5 * (u * H) + 16 * (H * H)" by simp
  have "u * H \<le> 1 / 256 * H" using u H(1) by (intro mult_right_mono) simp_all
  then have "D * D * (1502 / 1000) \<le> 5 / 8 * (u * u) + H / 10" using q HH H(1) zero_le_square [of u] by linarith
  then show ?thesis using p1 p2 n3 H(1) unfolding e by linarith
qed

lemma first_root:
  fixes a s y q H T :: real
  assumes s: "1 \<le> s" "s < 2" "a = s * s" and H: "0 < H" "H \<le> 1 / 1048576" "0 \<le> T" "T \<le> H * H"
    and y: "\<bar>1 - s * y\<bar> \<le> 5 * H" and q: "\<bar>q - a * y\<bar> \<le> \<bar>a * y\<bar> * H + T"
  shows "\<bar>q - s\<bar> \<le> 7 * H * s"
proof -
  define D where "D = 1 - s * y"
  have HH: "H * H \<le> H / 1048576" using mult_left_mono [OF H(2), of H] H(1) by simp
  have Hs: "H * 1 \<le> H * s" using s H(1) by (intro mult_left_mono) simp_all
  have ay: "a * y = s - s * D" by (simp add: s(3) D_def algebra_simps)
  have "\<bar>s * D\<bar> \<le> s * (5 * H)" using y s by (intro abs_prod_le) (simp_all add: D_def)
  then have d: "\<bar>s * D\<bar> \<le> 5 * (H * s)" by (simp add: mult_ac)
  have "H * s \<le> 1 / 1048576 * s" using H s by (intro mult_right_mono) simp_all
  then have "\<bar>a * y\<bar> \<le> s * (101 / 100)" using d s unfolding ay by linarith
  then have "\<bar>a * y\<bar> * H \<le> s * (101 / 100) * H" using H(1) by (intro mult_right_mono) simp_all
  then have "\<bar>a * y\<bar> * H \<le> 101 / 100 * (H * s)" by (simp add: mult_ac)
  then have "\<bar>q - s\<bar> \<le> 101 / 100 * (H * s) + H * H + 5 * (H * s)" using q d H(4) unfolding ay by linarith
  then show ?thesis using HH Hs by linarith
qed

lemma root_correction:
  fixes a s y h q r H T :: real
  assumes s: "1 \<le> s" "s < 2" "a = s * s" and H: "0 < H" "H \<le> 1 / 1048576" "0 \<le> T" "T \<le> H * H"
    and y: "\<bar>1 - s * y\<bar> \<le> 5 * H" and q: "\<bar>q - s\<bar> \<le> 7 * H * s"
    and h: "\<bar>h - y / 2\<bar> \<le> \<bar>y / 2\<bar> * H + T" and r: "\<bar>r - (a - q * q)\<bar> \<le> \<bar>a - q * q\<bar> * H + T"
  shows "\<bar>r * h + q - s\<bar> \<le> 80 * (H * H) * s"
proof -
  define E where "E = q - s"
  define n where "n = 2 * s * (h - y / 2)"
  define k where "k = r - (a - q * q)"
  define th where "th = 1 - 2 * s * h"
  have HH: "H * H \<le> H / 1048576" using mult_left_mono [OF H(2), of H] H(1) by simp
  have E: "\<bar>E\<bar> \<le> 7 * (H * s)" using q by (simp add: E_def mult.assoc)
  have Hs: "H * s \<le> 1 / 1048576 * s" "H * 1 \<le> H * s" using H s by (intro mult_right_mono mult_left_mono; simp)+
  have n: "\<bar>n\<bar> \<le> 101 / 100 * H"
  proof -
    have "\<bar>n\<bar> = 2 * s * \<bar>h - y / 2\<bar>" using s by (simp add: n_def abs_mult)
    also have "\<dots> \<le> 2 * s * (\<bar>y / 2\<bar> * H + T)" using h s by (intro mult_left_mono) simp_all
    also have "\<dots> = \<bar>s * y\<bar> * H + 2 * (s * T)" using s by (simp add: abs_mult algebra_simps)
    also have "s * T \<le> 2 * (H * H)" using s H by (intro mult_mono) simp_all
    also have "\<bar>s * y\<bar> * H \<le> 1001 / 1000 * H" using y H by (intro mult_right_mono) simp_all
    finally show ?thesis using HH H(1) by linarith
  qed
  have "th = (1 - s * y) - n" by (simp add: th_def n_def algebra_simps)
  then have th: "\<bar>th\<bar> \<le> 61 / 10 * H" using y n H(1) by linarith
  have hb: "s * \<bar>h\<bar> \<le> 501 / 1000" "\<bar>h\<bar> \<le> 501 / 1000"
  proof -
    have "2 * (s * \<bar>h\<bar>) = \<bar>1 - th\<bar>" using s by (simp add: th_def abs_mult)
    then show 1: "s * \<bar>h\<bar> \<le> 501 / 1000" using th H(2) by linarith
    have "1 * \<bar>h\<bar> \<le> s * \<bar>h\<bar>" using s by (intro mult_right_mono) simp_all
    then show "\<bar>h\<bar> \<le> 501 / 1000" using 1 by simp
  qed
  have v: "a - q * q = - (E * (2 * s + E))" by (simp add: E_def s(3) algebra_simps)
  have "\<bar>2 * s + E\<bar> \<le> 2001 / 1000 * s" using E Hs s by linarith
  with E have "\<bar>E * (2 * s + E)\<bar> \<le> 7 * (H * s) * (2001 / 1000 * s)" by (rule abs_prod_le)
  then have vb: "\<bar>a - q * q\<bar> \<le> 141 / 10 * (H * s * s)"
  proof -
    have "0 \<le> H * s * s" using H s by simp
    then show ?thesis using \<open>\<bar>E * (2 * s + E)\<bar> \<le> 7 * (H * s) * (2001 / 1000 * s)\<close> unfolding v abs_minus_cancel by simp
  qed
  have "r * h + q - s = E * th - E * E * h + k * h" by (simp add: k_def v th_def E_def algebra_simps)
  then have sum: "\<bar>r * h + q - s\<bar> \<le> \<bar>E * th\<bar> + \<bar>E * E * h\<bar> + \<bar>k * h\<bar>" by linarith
  have "\<bar>E * th\<bar> \<le> 7 * (H * s) * (61 / 10 * H)" by (rule abs_prod_le [OF E th])
  then have t1: "\<bar>E * th\<bar> \<le> 427 / 10 * (H * H * s)" by (simp add: mult_ac)
  have "\<bar>E * E\<bar> \<le> 7 * (H * s) * (7 * (H * s))" by (rule abs_prod_le [OF E E])
  then have "\<bar>E * E\<bar> * \<bar>h\<bar> \<le> 7 * (H * s) * (7 * (H * s)) * \<bar>h\<bar>" by (intro mult_right_mono) simp_all
  also have "\<dots> = 49 * (H * H * s) * (s * \<bar>h\<bar>)" by (simp add: mult_ac)
  also have "\<dots> \<le> 49 * (H * H * s) * (501 / 1000)" using hb H s by (intro mult_left_mono) simp_all
  finally have "\<bar>E * E * h\<bar> \<le> 49 * (H * H * s) * (501 / 1000)" unfolding abs_mult [of "E * E" h] .
  moreover have "0 \<le> H * H * s" using H s by simp
  ultimately have t2: "\<bar>E * E * h\<bar> \<le> 246 / 10 * (H * H * s)" by linarith
  have "\<bar>k\<bar> \<le> 141 / 10 * (H * s * s) * H + H * H"
    using r vb H mult_right_mono [OF vb, of H] unfolding k_def by linarith
  then have "\<bar>k\<bar> * \<bar>h\<bar> \<le> (141 / 10 * (H * s * s) * H + H * H) * \<bar>h\<bar>" by (intro mult_right_mono) simp_all
  also have "\<dots> = 141 / 10 * (H * H * s) * (s * \<bar>h\<bar>) + H * H * \<bar>h\<bar>" by (simp add: algebra_simps)
  also have "\<dots> \<le> 141 / 10 * (H * H * s) * (501 / 1000) + H * H * (501 / 1000)" using hb H s by (intro add_mono mult_left_mono) simp_all
  finally have "\<bar>k * h\<bar> \<le> 141 / 10 * (H * H * s) * (501 / 1000) + H * H * (501 / 1000)" unfolding abs_mult [of k h] .
  then have t3: "\<bar>k * h\<bar> \<le> 71 / 10 * (H * H * s) + H * H * (501 / 1000)" using \<open>0 \<le> H * H * s\<close> by linarith
  have "H * H * 1 \<le> H * H * s" using s H by (intro mult_left_mono) simp_all
  then show ?thesis using sum t1 t2 t3 by (simp add: mult.assoc)
qed

section \<open>The reciprocal root\<close>

text \<open>The operands of the core: values from one to below four.\<close>

definition rooted :: "fp_format \<Rightarrow> int \<Rightarrow> int \<Rightarrow> bool" where
  "rooted fmt c A \<longleftrightarrow> fits fmt c \<and> is_finite fmt c \<and> sgn_of fmt c = 0 \<and> 2 ^ man_w fmt \<le> A \<and> A < 4 * 2 ^ man_w fmt \<and>
    fval fmt c = of_int A * p2 (- int (man_w fmt))"

lemma rooted_range:
  assumes "rooted fmt c A"
  shows "1 \<le> fval fmt c" "fval fmt c < 4" "1 \<le> sqrt (fval fmt c)" "sqrt (fval fmt c) < 2" "fval fmt c = sqrt (fval fmt c) * sqrt (fval fmt c)"
proof -
  have A: "(of_int (2 ^ man_w fmt) :: real) \<le> of_int A" "(of_int A :: real) < of_int (4 * 2 ^ man_w fmt)"
    using assms unfolding of_int_le_iff of_int_less_iff by (simp_all add: rooted_def)
  have v: "fval fmt c = of_int A / 2 ^ man_w fmt" using assms by (simp add: rooted_def power_int_minus divide_inverse)
  show r: "1 \<le> fval fmt c" "fval fmt c < 4" using A unfolding v by (simp_all add: pos_le_divide_eq pos_divide_less_eq)
  show "1 \<le> sqrt (fval fmt c)" using r(1) by simp
  have "sqrt (fval fmt c) < sqrt 4" using r(2) by (intro real_sqrt_less_mono) simp
  then show "sqrt (fval fmt c) < 2" by (simp only: real_sqrt_four)
  show "fval fmt c = sqrt (fval fmt c) * sqrt (fval fmt c)" using r(1) by simp
qed

lemma normal_operand:
  assumes sf: "seq_fmt fmt N" and c: "fits fmt c" "is_finite fmt c" "sgn_of fmt c = 0" "1 \<le> fval fmt c"
  shows "2 ^ man_w fmt \<le> mag_of fmt c" "u_kind (unpack fmt c) = KNorm" "exp_field fmt c \<noteq> 0"
proof -
  note f = seq_fmt_facts [OF sf] note wf = f(1)
  show n: "2 ^ man_w fmt \<le> mag_of fmt c"
  proof (rule ccontr)
    assume "\<not> 2 ^ man_w fmt \<le> mag_of fmt c"
    then have "mag_val fmt (mag_of fmt c) < mag_val fmt (2 ^ man_w fmt)" by (simp add: mag_val_less_iff mag_bounds)
    also have "\<dots> = p2 (emin fmt)" by (rule mag_val_min_normal [OF wf])
    also have "\<dots> \<le> p2 0" using f(4) by (subst p2_mono_iff) simp
    finally show False using c(3,4) by (simp add: fval_eq [OF wf c(1,2)])
  qed
  have "0 < mag_of fmt c" using n zero_less_power [of "2::int" "man_w fmt"] by linarith
  then show "u_kind (unpack fmt c) = KNorm" using n c(2) by (simp add: unpack_fits [OF wf c(1)] kind_of_def is_finite_def)
  show "exp_field fmt c \<noteq> 0" using n by (simp add: exp_field_zero [OF c(1)])
qed

lemma half_rep:
  assumes sf: "seq_fmt fmt N" and c: "fits fmt c" "is_finite fmt c" "sgn_of fmt c = 0" "1 \<le> fval fmt c" "fval fmt c < 4"
  shows "rep fmt (fval fmt c / 2)"
proof -
  note f = seq_fmt_facts [OF sf] note wf = f(1)
  let ?m = "mag_of fmt c"
  have m0: "0 \<le> ?m" by (simp add: mag_bounds)
  have v: "fval fmt c = of_int (sig_of fmt ?m) * p2 (exp_of fmt ?m)" using c(3) by (simp add: fval_eq [OF wf c(1,2)] mag_val_def)
  note p = place_of_mag [OF m0, of fmt]
  have k: "0 \<le> sig_of fmt ?m" "sig_of fmt ?m < 2 * 2 ^ man_w fmt" using p(3,4) by simp_all
  have kr: "(of_int (sig_of fmt ?m) :: real) < 2 * 2 ^ man_w fmt" using k(2) of_int_less_iff [of "sig_of fmt ?m" "2 * 2 ^ man_w fmt", where 'a = real] by simp
  have "p2 0 \<le> of_int (sig_of fmt ?m) * p2 (exp_of fmt ?m)" using c(4) v by simp
  also have "\<dots> < 2 * 2 ^ man_w fmt * p2 (exp_of fmt ?m)" using kr by (intro mult_strict_right_mono) simp_all
  also have "\<dots> = p2 (int (man_w fmt) + 1 + exp_of fmt ?m)" by (simp add: p2_add p2_succ)
  finally have e: "0 < int (man_w fmt) + 1 + exp_of fmt ?m" by (simp only: p2_less_iff)
  have h: "fval fmt c / 2 = of_int (sig_of fmt ?m) * p2 (exp_of fmt ?m - 1)" by (simp add: v p2_pred)
  have "fval fmt c / 2 < p2 1" using c(5) by simp
  also have "\<dots> < p2 (emax fmt + 1)" using f(3,5) by (subst p2_less_iff) simp
  finally have "of_int \<bar>sig_of fmt ?m\<bar> * p2 (exp_of fmt ?m - 1) < p2 (emax fmt + 1)" using k(1) by (simp add: h)
  moreover have "2 ^ nat (prec fmt) = 2 * (2 ^ man_w fmt :: int)" by (simp add: prec_def nat_add_distrib)
  then have "\<bar>sig_of fmt ?m\<bar> \<le> 2 ^ nat (prec fmt)" using k by linarith
  ultimately show ?thesis unfolding h using e f(6) by (intro rep_scaled [OF wf]) simp_all
qed

lemma rounds_size:
  assumes sf: "seq_fmt fmt N" and r: "rounds fmt RND_RNE v z" and v: "\<bar>v\<bar> \<le> K"
  shows "\<bar>fval fmt z\<bar> \<le> 2 * K + 1"
proof -
  note f = seq_fmt_facts [OF sf]
  have "\<bar>v\<bar> * rel_err fmt \<le> K * 1" using v f(7,8) by (intro mult_mono) linarith+
  moreover have "rel_err fmt * rel_err fmt \<le> 1 * 1" using f(7,8) by (intro mult_mono) linarith+
  ultimately show ?thesis using rounds_err [OF r rne(1)] f(10) v by linarith
qed

definition root_env :: "fp_format \<Rightarrow> nat \<Rightarrow> int \<Rightarrow> int \<Rightarrow> int \<Rightarrow> int \<Rightarrow> bool" where
  "root_env fmt N c A nah th \<longleftrightarrow> seq_fmt fmt N \<and> rooted fmt c A \<and> fits fmt nah \<and> is_finite fmt nah \<and> fval fmt nah = - fval fmt c / 2 \<and>
    fits fmt th \<and> is_finite fmt th \<and> fval fmt th = 3 / 2"

lemma root_envD:
  assumes "root_env fmt N c A nah th"
  shows "seq_fmt fmt N" "wf_fmt fmt" "rooted fmt c A" "fits fmt c" "is_finite fmt c" "fits fmt nah" "is_finite fmt nah" "fval fmt nah = - fval fmt c / 2"
    "fits fmt th" "is_finite fmt th" "fval fmt th = 3 / 2"
proof -
  show e: "seq_fmt fmt N" "rooted fmt c A" "fits fmt nah" "is_finite fmt nah" "fval fmt nah = - fval fmt c / 2" "fits fmt th" "is_finite fmt th" "fval fmt th = 3 / 2"
    using assms by (simp_all add: root_env_def)
  show "wf_fmt fmt" by (rule seq_fmt_facts(1) [OF e(1)])
  show "fits fmt c" "is_finite fmt c" using e(2) by (simp_all add: rooted_def)
qed

lemma sqrt_newton_step:
  assumes env: "root_env fmt N c A nah th" and y: "fits fmt y" "is_finite fmt y" and u: "0 \<le> u" "u \<le> 1 / 256"
    and d: "\<bar>1 - sqrt (fval fmt c) * fval fmt y\<bar> \<le> 5 / 8 * u + 4 * rel_err fmt"
  obtains y' where "sqrt_newton fmt nah th y = Inr y'" "fits fmt y'" "is_finite fmt y'"
    "\<bar>1 - sqrt (fval fmt c) * fval fmt y'\<bar> \<le> 5 / 8 * (u * u) + 4 * rel_err fmt"
proof -
  note ev = root_envD [OF env] note f = seq_fmt_facts [OF ev(1)] note wf = ev(2) note s = rooted_range [OF ev(3)]
  note big = big_enough [OF ev(1)] note size = rounds_size [OF ev(1)]
  let ?a = "fval fmt c" and ?y = "fval fmt y"
  have "\<bar>sqrt ?a * ?y\<bar> \<le> 2" using d u f(8) by linarith
  moreover have "1 * \<bar>?y\<bar> \<le> sqrt ?a * \<bar>?y\<bar>" using s(3) by (intro mult_right_mono) simp_all
  moreover have "sqrt ?a * \<bar>?y\<bar> = \<bar>sqrt ?a * ?y\<bar>" using s(3) by (simp add: abs_mult)
  ultimately have yb: "\<bar>?y\<bar> \<le> 2" by linarith
  have yy4: "\<bar>?y * ?y\<bar> \<le> 2 * 2" by (rule abs_prod_le [OF yb yb])
  then have "\<bar>?y * ?y\<bar> \<le> 1048576" by linarith
  from op_mul_fits [OF wf rne(2) y y big [OF this]] obtain yy where
    yy: "v_step fmt OP_MUL y (Some y) None RND_RNE = Inr yy" "rounds fmt RND_RNE (?y * ?y) yy" by blast
  have yyb: "\<bar>fval fmt yy\<bar> \<le> 10" using size [OF yy(2) yy4] by linarith
  have v: "fval fmt nah * fval fmt yy + fval fmt th = 3 / 2 - ?a / 2 * fval fmt yy" by (simp add: ev(8,11))
  have "\<bar>?a / 2 * fval fmt yy\<bar> \<le> 2 * 10" using s(1,2) yyb by (intro abs_prod_le) simp_all
  then have tb: "\<bar>3 / 2 - ?a / 2 * fval fmt yy\<bar> \<le> 30" by linarith
  then have "\<bar>3 / 2 - ?a / 2 * fval fmt yy\<bar> \<le> 1048576" by linarith
  from op_fma_fits [OF wf rne(2) ev(6,7) roundsD(1,2) [OF yy(2)] ev(9,10), unfolded v, OF big [OF this]] obtain t where
    t: "v_step fmt OP_FMA nah (Some yy) (Some th) RND_RNE = Inr t" "rounds fmt RND_RNE (3 / 2 - ?a / 2 * fval fmt yy) t" by blast
  have "\<bar>fval fmt t\<bar> \<le> 100" using size [OF t(2) tb] by linarith
  with yb have "\<bar>?y * fval fmt t\<bar> \<le> 2 * 100" by (rule abs_prod_le)
  then have "\<bar>?y * fval fmt t\<bar> \<le> 1048576" by linarith
  from op_mul_fits [OF wf rne(2) y roundsD(1,2) [OF t(2)] big [OF this]] obtain y' where
    y': "v_step fmt OP_MUL y (Some t) None RND_RNE = Inr y'" "rounds fmt RND_RNE (?y * fval fmt t) y'" by blast
  from root_newton_error [OF s(3-5) f(7-10) u d rounds_err [OF yy(2) rne(1)] rounds_err [OF t(2) rne(1)] rounds_err [OF y'(2) rne(1)]]
  show thesis by (intro that [of y'] roundsD(1,2) [OF y'(2)]) (simp_all add: sqrt_newton_def yy(1) t(1) y'(1))
qed

lemma sqrt_newton_fold:
  assumes env: "root_env fmt N c A nah th"
  shows "\<lbrakk>fits fmt y; is_finite fmt y; 0 \<le> u; u \<le> 1 / 256; \<bar>1 - sqrt (fval fmt c) * fval fmt y\<bar> \<le> 5 / 8 * u + 4 * rel_err fmt\<rbrakk> \<Longrightarrow>
    \<exists>y'. fold_r (\<lambda>y _. sqrt_newton fmt nah th y) y ns = Inr y' \<and> fits fmt y' \<and> is_finite fmt y' \<and>
      \<bar>1 - sqrt (fval fmt c) * fval fmt y'\<bar> \<le> 5 / 8 * u ^ (2 ^ length ns) + 4 * rel_err fmt"
proof (induction ns arbitrary: y u)
  case (Cons n ns)
  from sqrt_newton_step [OF env Cons.prems] obtain z where
    z: "sqrt_newton fmt nah th y = Inr z" "fits fmt z" "is_finite fmt z" "\<bar>1 - sqrt (fval fmt c) * fval fmt z\<bar> \<le> 5 / 8 * (u * u) + 4 * rel_err fmt" by blast
  have "u * u \<le> 1 / 256 * 1" using Cons.prems(3,4) by (intro mult_mono) simp_all
  then have uu: "0 \<le> u * u" "u * u \<le> 1 / 256" by simp_all
  have "(u * u) ^ (2 ^ length ns) = u ^ (2 ^ length (n # ns))" by (simp add: power_mult power2_eq_square)
  then show ?case using Cons.IH [OF z(2,3) uu z(4)] by (simp add: z(1))
qed auto

section \<open>The corrected root\<close>

lemma root_steps:
  assumes env: "root_env fmt N c A nah th" and half: "pow2_bits fmt (- 1) = Inr half" "fits fmt half" "is_finite fmt half" "fval fmt half = p2 (- 1)"
  obtains y0 y s0 h0 r0 s1 t where "v_step fmt OP_RSQRT_SEED c None None RND_RNE = Inr y0"
    "fold_r (\<lambda>y _. sqrt_newton fmt nah th y) y0 [0..<N] = Inr y" "v_step fmt OP_MUL c (Some y) None RND_RNE = Inr s0"
    "v_step fmt OP_MUL y (Some half) None RND_RNE = Inr h0" "sqrt_residual fmt c s0 = Inr r0"
    "v_step fmt OP_FMA r0 (Some h0) (Some s0) RND_RNE = Inr s1" "rounds fmt RND_RNE t s1"
    "\<bar>t - sqrt (fval fmt c)\<bar> \<le> 80 * (rel_err fmt * rel_err fmt) * sqrt (fval fmt c)"
proof -
  note ev = root_envD [OF env] note f = seq_fmt_facts [OF ev(1)] note wf = ev(2) note s = rooted_range [OF ev(3)]
  note big = big_enough [OF ev(1)] note size = rounds_size [OF ev(1)]
  let ?a = "fval fmt c" let ?s = "sqrt ?a"
  have sg: "sgn_of fmt c = 0" using ev(3) by (simp add: rooted_def)
  obtain y0 where y0: "rsqrt_seed fmt c = Inr (y0, 0)" "fits fmt y0" "is_finite fmt y0" "\<bar>fval fmt y0 * ?s - 1\<bar> < 1 / 512"
    using rsqrt_seed_bound [OF wf f(3) ev(4) normal_operand(2) [OF ev(1,4,5) sg s(1)] sg] by blast
  have seed: "v_step fmt OP_RSQRT_SEED c None None RND_RNE = Inr y0"
    by (simp add: v_step_def op_step_def compute_def SIMPLE_IMPL_def op_defs y0(1))
  have "\<bar>1 - ?s * fval fmt y0\<bar> \<le> 5 / 8 * (1 / 256) + 4 * rel_err fmt" using y0(4) f(7) by (simp add: mult.commute abs_minus_commute)
  from sqrt_newton_fold [OF env y0(2,3) _ _ this, of "[0..<N]"] obtain y where
    y: "fold_r (\<lambda>y _. sqrt_newton fmt nah th y) y0 [0..<N] = Inr y" "fits fmt y" "is_finite fmt y"
    "\<bar>1 - ?s * fval fmt y\<bar> \<le> 5 / 8 * (1 / 256) ^ 2 ^ N + 4 * rel_err fmt" by auto
  have d: "\<bar>1 - ?s * fval fmt y\<bar> \<le> 5 * rel_err fmt" using y(4) seq_fmt_newton [OF ev(1)] f(7) by linarith
  have "\<bar>?s * fval fmt y\<bar> \<le> 2" using d f(8) by linarith
  moreover have "1 * \<bar>fval fmt y\<bar> \<le> ?s * \<bar>fval fmt y\<bar>" using s(3) by (intro mult_right_mono) simp_all
  moreover have "?s * \<bar>fval fmt y\<bar> = \<bar>?s * fval fmt y\<bar>" using s(3) by (simp add: abs_mult)
  ultimately have yb: "\<bar>fval fmt y\<bar> \<le> 2" by linarith
  have "\<bar>?a * fval fmt y\<bar> \<le> 4 * 2" using s(1,2) yb by (intro abs_prod_le) simp_all
  then have ay: "\<bar>?a * fval fmt y\<bar> \<le> 8" "\<bar>?a * fval fmt y\<bar> \<le> 1048576" by linarith+
  from op_mul_fits [OF wf rne(2) ev(4,5) y(2,3) big [OF ay(2)]] obtain s0 where
    s0: "v_step fmt OP_MUL c (Some y) None RND_RNE = Inr s0" "rounds fmt RND_RNE (?a * fval fmt y) s0" by blast
  have s0b: "\<bar>fval fmt s0\<bar> \<le> 20" using size [OF s0(2) ay(1)] by linarith
  have y2: "\<bar>fval fmt y / 2\<bar> \<le> 1" "\<bar>fval fmt y / 2\<bar> \<le> 1048576" using yb by simp_all
  have "fval fmt y * fval fmt half = fval fmt y / 2" by (simp add: half(4) power_int_def)
  from op_mul_fits [OF wf rne(2) y(2,3) half(2,3), unfolded this, OF big [OF y2(2)]] obtain h0 where
    h0: "v_step fmt OP_MUL y (Some half) None RND_RNE = Inr h0" "rounds fmt RND_RNE (fval fmt y / 2) h0" by blast
  have h0b: "\<bar>fval fmt h0\<bar> \<le> 3" using size [OF h0(2) y2(1)] by linarith
  obtain ns where ns: "v_step fmt OP_NEG s0 None None RND_RNE = Inr ns" "fits fmt ns" "is_finite fmt ns" "fval fmt ns = - fval fmt s0"
    by (rule op_neg_fits [OF wf roundsD(1,2) [OF s0(2)]])
  have "\<bar>fval fmt s0 * fval fmt s0\<bar> \<le> 20 * 20" by (rule abs_prod_le [OF s0b s0b])
  then have rb: "\<bar>?a - fval fmt s0 * fval fmt s0\<bar> \<le> 500" "\<bar>?a - fval fmt s0 * fval fmt s0\<bar> \<le> 1048576" using s(1,2) by linarith+
  have "fval fmt ns * fval fmt s0 + ?a = ?a - fval fmt s0 * fval fmt s0" by (simp add: ns(4))
  from op_fma_fits [OF wf rne(2) ns(2,3) roundsD(1,2) [OF s0(2)] ev(4,5), unfolded this, OF big [OF rb(2)]] obtain r0 where
    r0: "v_step fmt OP_FMA ns (Some s0) (Some c) RND_RNE = Inr r0" "rounds fmt RND_RNE (?a - fval fmt s0 * fval fmt s0) r0" by blast
  have "\<bar>fval fmt r0\<bar> \<le> 2000" using size [OF r0(2) rb(1)] by linarith
  then have "\<bar>fval fmt r0 * fval fmt h0\<bar> \<le> 2000 * 3" using h0b by (rule abs_prod_le)
  then have "\<bar>fval fmt r0 * fval fmt h0 + fval fmt s0\<bar> \<le> 1048576" using s0b by linarith
  from op_fma_fits [OF wf rne(2) roundsD(1,2) [OF r0(2)] roundsD(1,2) [OF h0(2)] roundsD(1,2) [OF s0(2)] big [OF this]] obtain s1 where
    s1: "v_step fmt OP_FMA r0 (Some h0) (Some s0) RND_RNE = Inr s1" "rounds fmt RND_RNE (fval fmt r0 * fval fmt h0 + fval fmt s0) s1" by blast
  have q: "\<bar>fval fmt s0 - ?s\<bar> \<le> 7 * rel_err fmt * ?s"
    by (rule first_root [OF s(3-5) f(7-10) d rounds_err [OF s0(2) rne(1)]])
  have "\<bar>fval fmt r0 * fval fmt h0 + fval fmt s0 - ?s\<bar> \<le> 80 * (rel_err fmt * rel_err fmt) * ?s"
    by (rule root_correction [OF s(3-5) f(7-10) d q rounds_err [OF h0(2) rne(1)] rounds_err [OF r0(2) rne(1)]])
  moreover have "sqrt_residual fmt c s0 = Inr r0" by (simp add: sqrt_residual_def ns(1) r0(1))
  ultimately show thesis by (intro that [OF seed y(1) s0(1) h0(1) _ s1(1,2)])
qed

section \<open>Restoring the floor\<close>

text \<open>The significand of the floor: \<open>K\<close> units of \<open>2^-n\<close>, with remainder \<open>root_over\<close> in squared units.\<close>

definition root_over :: "fp_format \<Rightarrow> int \<Rightarrow> int \<Rightarrow> int" where
  "root_over fmt A K = A * 2 ^ man_w fmt - K * K"

definition unit_at :: "fp_format \<Rightarrow> int \<Rightarrow> int" where
  "unit_at fmt K = place fmt (- int (man_w fmt)) K"

lemma unit_at_value:
  assumes sf: "seq_fmt fmt N" and k: "2 ^ man_w fmt \<le> K" "K \<le> 2 * 2 ^ man_w fmt"
  shows "fits fmt (unit_at fmt K)" "is_finite fmt (unit_at fmt K)" "fval fmt (unit_at fmt K) = of_int K * p2 (- int (man_w fmt))"
    "mag_of fmt (unit_at fmt K) = unit_at fmt K" "0 \<le> unit_at fmt K" "unit_at fmt K < inf_mag fmt"
    "mag_val fmt (unit_at fmt K) = of_int K * p2 (- int (man_w fmt))" "unit_at fmt (K + 1) = unit_at fmt K + 1"
proof -
  note f = seq_fmt_facts [OF sf] note wf = f(1)
  let ?c = "unit_at fmt K"
  show mv: "mag_val fmt ?c = of_int K * p2 (- int (man_w fmt))"
    unfolding unit_at_def using f(6) k zero_le_power [of "2::int" "man_w fmt"] by (intro mag_val_place) simp_all
  have q: "qmin fmt \<le> - int (man_w fmt)" using f(6) by simp
  have "0 \<le> (- int (man_w fmt) - qmin fmt) * 2 ^ man_w fmt" using q by simp
  then show c0: "0 \<le> ?c" using k(1) zero_le_power [of "2::int" "man_w fmt"] unfolding unit_at_def place_def by linarith
  have "(of_int K :: real) \<le> 2 * 2 ^ man_w fmt" using k(2) of_int_le_iff [of K "2 * 2 ^ man_w fmt", where 'a = real] by simp
  then have "of_int K * p2 (- int (man_w fmt)) \<le> 2 * 2 ^ man_w fmt * p2 (- int (man_w fmt))" by (intro mult_right_mono) simp_all
  also have "\<dots> = p2 1" by (simp add: power_int_minus)
  also have "\<dots> < p2 (emax fmt + 1)" using f(3,5) by (subst p2_less_iff) simp
  finally have "mag_val fmt ?c < mag_val fmt (inf_mag fmt)" by (simp only: mv mag_val_inf_mag [OF wf])
  then show lt: "?c < inf_mag fmt" using c0 inf_mag_pos [OF wf] by (simp add: mag_val_less_iff)
  have lim: "?c < mag_lim fmt" using lt inf_mag_less [of fmt] by linarith
  show fl: "fits fmt ?c" "mag_of fmt ?c = ?c" using c0 lim fits_pack [of 0 ?c fmt] mag_of_pack [of ?c fmt 0] by simp_all
  show "is_finite fmt ?c" using lt by (simp only: is_finite_def fl(2))
  show "fval fmt ?c = of_int K * p2 (- int (man_w fmt))" using fval_pack [OF wf _ c0 lt, of 0] mv by simp
  show "unit_at fmt (K + 1) = ?c + 1" by (simp add: unit_at_def place_def)
qed

lemma root_grid:
  assumes sf: "seq_fmt fmt N" and i: "\<bar>i\<bar> \<le> 2 ^ nat (prec fmt)" and q: "- 2 * int (man_w fmt) - 2 \<le> q" "q \<le> - 2 * int (man_w fmt)"
  shows "rep fmt (of_int i * p2 q)"
proof -
  note f = seq_fmt_facts [OF sf]
  show ?thesis
  proof (rule rep_scaled [OF f(1) i])
    show "qmin fmt \<le> q" using f(6) q by linarith
    have "(of_int \<bar>i\<bar> :: real) \<le> of_int (2 ^ nat (prec fmt))" using i by (simp only: of_int_le_iff)
    then have "of_int \<bar>i\<bar> * p2 q \<le> 2 ^ nat (prec fmt) * p2 q" by (intro mult_right_mono) simp_all
    also have "\<dots> = p2 (prec fmt + q)" by (simp add: p2_add prec_def nat_add_distrib p2_succ)
    also have "\<dots> < p2 (emax fmt + 1)" using q f(5) by (subst p2_less_iff) (auto simp: prec_def)
    finally show "of_int \<bar>i\<bar> * p2 q < p2 (emax fmt + 1)" .
  qed
qed

abbreviation root_unit :: "fp_format \<Rightarrow> real" where "root_unit fmt \<equiv> p2 (- 2 * int (man_w fmt))"

lemma root_residual:
  assumes env: "root_env fmt N c A nah th" and j: "2 ^ man_w fmt \<le> J" "J \<le> 2 * 2 ^ man_w fmt"
  obtains r where "sqrt_residual fmt c (unit_at fmt J) = Inr r" "rounds fmt RND_RNE (of_int (root_over fmt A J) * root_unit fmt) r"
    "root_over fmt A J < 0 \<longleftrightarrow> fval fmt r < 0" "root_over fmt A J = 0 \<longleftrightarrow> fval fmt r = 0" "\<bar>fval fmt r\<bar> \<le> 1000"
proof -
  note ev = root_envD [OF env] note f = seq_fmt_facts [OF ev(1)] note wf = ev(2) note s = rooted_range [OF ev(3)]
  let ?u = "unit_at fmt J" let ?n = "int (man_w fmt)" let ?G = "root_unit fmt" let ?i = "root_over fmt A J"
  note u = unit_at_value [OF ev(1) j]
  obtain nu where nu: "v_step fmt OP_NEG ?u None None RND_RNE = Inr nu" "fits fmt nu" "is_finite fmt nu" "fval fmt nu = - fval fmt ?u"
    by (rule op_neg_fits [OF wf u(1,2)])
  have G: "p2 (- ?n) * p2 (- ?n) = ?G" by (simp add: p2_add [symmetric])
  have n: "p2 (- ?n) = 2 ^ man_w fmt * ?G" unfolding G [symmetric] by (simp add: power_int_minus)
  have "fval fmt c = of_int A * p2 (- ?n)" using ev(3) by (simp add: rooted_def)
  then have a: "fval fmt c = of_int (A * 2 ^ man_w fmt) * ?G" unfolding n by simp
  have "fval fmt ?u * fval fmt ?u = of_int (J * J) * (p2 (- ?n) * p2 (- ?n))" by (simp add: u(3))
  then have v: "fval fmt nu * fval fmt ?u + fval fmt c = of_int ?i * ?G" unfolding nu(4) a G by (simp add: root_over_def algebra_simps)
  have "\<bar>fval fmt ?u\<bar> \<le> 2"
  proof -
    have "(of_int J :: real) \<le> 2 * 2 ^ man_w fmt" using j(2) of_int_le_iff [of J "2 * 2 ^ man_w fmt", where 'a = real] by simp
    moreover have "0 \<le> J" using j(1) zero_le_power [of "2::int" "man_w fmt"] by linarith
    ultimately show ?thesis by (simp add: u(3) abs_mult power_int_minus divide_inverse [symmetric] pos_divide_le_eq)
  qed
  then have "\<bar>fval fmt ?u * fval fmt ?u\<bar> \<le> 2 * 2" by (intro abs_prod_le)
  then have vb: "\<bar>of_int ?i * ?G\<bar> \<le> 10" "\<bar>of_int ?i * ?G\<bar> \<le> 1048576" unfolding v [symmetric] nu(4) using s(1,2) by linarith+
  from op_fma_fits [OF wf rne(2) nu(2,3) u(1,2) ev(4,5), unfolded v, OF big_enough [OF ev(1) vb(2)]] obtain r where
    r: "v_step fmt OP_FMA nu (Some ?u) (Some c) RND_RNE = Inr r" "rounds fmt RND_RNE (of_int ?i * ?G) r" by blast
  have g: "0 < ?G" by simp
  have one: "\<bar>- 1\<bar> \<le> (2::int) ^ nat (prec fmt)" "\<bar>1\<bar> \<le> (2::int) ^ nat (prec fmt)" by (simp_all add: one_le_power)
  note rp = root_grid [OF ev(1) one(1)] root_grid [OF ev(1) one(2)]
  have lt: "fval fmt r < 0" if "?i < 0"
  proof -
    have "of_int ?i * ?G \<le> of_int (- 1) * ?G" using that by (intro mult_right_mono) (simp_all only: of_int_le_iff, simp_all)
    then have "fval fmt r \<le> of_int (- 1) * ?G" by (intro roundsD(4) [OF r(2)] rp) simp_all
    from le_less_trans [OF this] show ?thesis using g by simp
  qed
  have gt: "0 < fval fmt r" if "0 < ?i"
  proof -
    have "of_int 1 * ?G \<le> of_int ?i * ?G" using that by (intro mult_right_mono) (simp_all only: of_int_le_iff, simp_all)
    then have "of_int 1 * ?G \<le> fval fmt r" by (intro roundsD(3) [OF r(2)] rp) simp_all
    from less_le_trans [OF _ this] show ?thesis using g by simp
  qed
  have eq: "fval fmt r = 0" if "?i = 0" using rounds_exact [OF r(2)] rep_0 [OF wf] that by simp
  show thesis
  proof (rule that [OF _ r(2)])
    show "sqrt_residual fmt c ?u = Inr r" by (simp add: sqrt_residual_def nu(1) r(1))
    show "?i < 0 \<longleftrightarrow> fval fmt r < 0" "?i = 0 \<longleftrightarrow> fval fmt r = 0" using lt gt eq by (cases "?i < 0"; cases "?i = 0"; force)+
    show "\<bar>fval fmt r\<bar> \<le> 1000" using rounds_size [OF ev(1) r(2) vb(1)] by linarith
  qed
qed

definition root_floor :: "fp_format \<Rightarrow> int \<Rightarrow> int \<Rightarrow> bool" where
  "root_floor fmt A K \<longleftrightarrow> 2 ^ man_w fmt \<le> K \<and> K < 2 * 2 ^ man_w fmt \<and> 0 \<le> root_over fmt A K \<and> root_over fmt A (K + 1) < 0"

lemma sqrt_restore_stop:
  assumes env: "root_env fmt N c A nah th" and k: "root_floor fmt A K"
  shows "sqrt_restore fmt c n (unit_at fmt K) = Inr (unit_at fmt K)"
proof (cases n)
  case (Suc m)
  note ev = root_envD [OF env]
  have K: "2 ^ man_w fmt \<le> K" "K \<le> 2 * 2 ^ man_w fmt" "2 ^ man_w fmt \<le> K + 1" "K + 1 \<le> 2 * 2 ^ man_w fmt"
    and o: "0 \<le> root_over fmt A K" "root_over fmt A (K + 1) < 0" using k by (simp_all add: root_floor_def)
  obtain r where r: "sqrt_residual fmt c (unit_at fmt K) = Inr r" "rounds fmt RND_RNE (of_int (root_over fmt A K) * root_unit fmt) r"
    "root_over fmt A K < 0 \<longleftrightarrow> fval fmt r < 0" by (rule root_residual [OF env K(1,2)])
  obtain rp where rp: "sqrt_residual fmt c (unit_at fmt (K + 1)) = Inr rp" "rounds fmt RND_RNE (of_int (root_over fmt A (K + 1)) * root_unit fmt) rp"
    "root_over fmt A (K + 1) < 0 \<longleftrightarrow> fval fmt rp < 0" by (rule root_residual [OF env K(3,4)])
  note u = unit_at_value(8) [OF ev(1) K(1,2)]
  show ?thesis
    using zero_test(2) [OF ev(2) roundsD(1,2) [OF r(2)]] zero_test(2) [OF ev(2) roundsD(1,2) [OF rp(2)]] r(3) rp(3) o
    by (auto simp: Suc r(1) rp(1) [unfolded u])
qed simp

lemma sqrt_restore_down:
  assumes env: "root_env fmt N c A nah th" and j: "2 ^ man_w fmt \<le> J" "J \<le> 2 * 2 ^ man_w fmt" "root_over fmt A J < 0"
  shows "sqrt_restore fmt c (Suc n) (unit_at fmt J) = sqrt_restore fmt c n (unit_at fmt J - 1)"
proof -
  obtain r where r: "sqrt_residual fmt c (unit_at fmt J) = Inr r" "rounds fmt RND_RNE (of_int (root_over fmt A J) * root_unit fmt) r"
    "root_over fmt A J < 0 \<longleftrightarrow> fval fmt r < 0" by (rule root_residual [OF env j(1,2)])
  then show ?thesis using zero_test(2) [OF root_envD(2) [OF env] roundsD(1,2) [OF r(2)]] j(3) by auto
qed

lemma root_floor_exists:
  assumes c: "rooted fmt c A"
  obtains K where "root_floor fmt A K" "of_int K * p2 (- int (man_w fmt)) \<le> sqrt (fval fmt c)" "sqrt (fval fmt c) < of_int (K + 1) * p2 (- int (man_w fmt))"
    "sqrt (of_int (A * 2 ^ man_w fmt)) = sqrt (fval fmt c) * 2 ^ man_w fmt"
proof -
  let ?p = "2 ^ man_w fmt :: real"
  note s = rooted_range [OF c]
  define x where "x = sqrt (fval fmt c) * ?p"
  define K where "K = \<lfloor>x\<rfloor>"
  have p: "0 < ?p" "p2 (- int (man_w fmt)) = 1 / ?p" by (simp_all add: power_int_minus divide_inverse)
  have fl: "of_int K \<le> x" "x < of_int (K + 1)" unfolding K_def by linarith+
  have A: "fval fmt c = of_int A / ?p" using c by (simp add: rooted_def p(2))
  have "x * x = (sqrt (fval fmt c) * sqrt (fval fmt c)) * (?p * ?p)" by (simp add: x_def mult_ac)
  also have "\<dots> = of_int A / ?p * (?p * ?p)" using s(1) A by (simp only: real_sqrt_mult_self)
  also have "\<dots> = of_int (A * 2 ^ man_w fmt)" by simp
  finally have xx: "x * x = of_int (A * 2 ^ man_w fmt)" .
  have x: "1 * ?p \<le> x" "x < 2 * ?p" unfolding x_def using s(3,4) by (intro mult_right_mono mult_strict_right_mono; simp)+
  have lo: "(2::int) ^ man_w fmt \<le> K" unfolding K_def using x(1) by (simp add: le_floor_iff)
  have hi: "K < 2 * 2 ^ man_w fmt" unfolding K_def using x(2) by (simp add: floor_less_iff)
  have x0: "0 \<le> x" using x(1) p(1) by linarith
  have K0: "(0::real) \<le> of_int K" using lo zero_le_power [of "2::int" "man_w fmt"] by linarith
  have "of_int K * of_int K \<le> x * x" by (rule mult_mono [OF fl(1) fl(1) x0 K0])
  then have "(of_int (K * K) :: real) \<le> of_int (A * 2 ^ man_w fmt)" unfolding xx [symmetric] by simp
  then have k1: "K * K \<le> A * 2 ^ man_w fmt" by (simp only: of_int_le_iff)
  have "x * x < of_int (K + 1) * of_int (K + 1)" by (rule mult_strict_mono' [OF fl(2) fl(2) x0 x0])
  then have "(of_int (A * 2 ^ man_w fmt) :: real) < of_int ((K + 1) * (K + 1))" unfolding xx [symmetric] of_int_mult [of "K + 1" "K + 1"] .
  then have k2: "A * 2 ^ man_w fmt < (K + 1) * (K + 1)" by (simp only: of_int_less_iff)
  show thesis
  proof (rule that)
    show "root_floor fmt A K" using lo hi k1 k2 by (simp add: root_floor_def root_over_def)
    show "of_int K * p2 (- int (man_w fmt)) \<le> sqrt (fval fmt c)" "sqrt (fval fmt c) < of_int (K + 1) * p2 (- int (man_w fmt))"
      using fl p(1) unfolding p(2) by (simp_all add: x_def pos_divide_le_eq pos_less_divide_eq)
    show "sqrt (of_int (A * 2 ^ man_w fmt)) = sqrt (fval fmt c) * 2 ^ man_w fmt"
      unfolding xx [symmetric] real_sqrt_abs2 abs_of_nonneg [OF x0] by (rule x_def)
  qed
qed

text \<open>The corrected root is the grid point below or above the exact root.\<close>

lemma landed_root:
  assumes env: "root_env fmt N c A nah th" and k: "root_floor fmt A K"
    and fl: "of_int K * p2 (- int (man_w fmt)) \<le> sqrt (fval fmt c)" "sqrt (fval fmt c) < of_int (K + 1) * p2 (- int (man_w fmt))"
    and r: "rounds fmt RND_RNE t z" and t: "\<bar>t - sqrt (fval fmt c)\<bar> \<le> 80 * (rel_err fmt * rel_err fmt) * sqrt (fval fmt c)"
  shows "z = unit_at fmt K \<or> z = unit_at fmt (K + 1)"
proof -
  note ev = root_envD [OF env] note f = seq_fmt_facts [OF ev(1)] note wf = ev(2) note s = rooted_range [OF ev(3)]
  let ?n = "int (man_w fmt)" let ?H = "rel_err fmt" let ?s = "sqrt (fval fmt c)"
  have K: "2 ^ man_w fmt \<le> K" "K \<le> 2 * 2 ^ man_w fmt" "2 ^ man_w fmt \<le> K + 1" "K + 1 \<le> 2 * 2 ^ man_w fmt"
    using k by (simp_all add: root_floor_def)
  note lo = unit_at_value [OF ev(1) K(1,2)] and hi = unit_at_value [OF ev(1) K(3,4)]
  let ?lo = "mag_val fmt (unit_at fmt K)" and ?hi = "mag_val fmt (unit_at fmt (K + 1))"
  have sl: "?lo \<le> ?s" "?s < ?hi" using fl unfolding lo(7) hi(7) by simp_all
  have rl: "rep fmt ?lo" "rep fmt ?hi" using lo(1-3,7) hi(1-3,7) by (auto simp: rep_def)
  have l1: "1 \<le> ?lo"
  proof -
    have "(2 ^ man_w fmt :: real) \<le> of_int K" using K(1) of_int_le_iff [of "2 ^ man_w fmt" K, where 'a = real] by simp
    then show ?thesis unfolding lo(7) by (simp add: power_int_minus divide_inverse [symmetric] pos_le_divide_eq)
  qed
  have h1: "1 \<le> ?hi" using l1 sl by linarith
  have HH: "?H * ?H \<le> ?H / 1048576" using mult_left_mono [OF f(8), of ?H] f(7) by simp
  have "80 * (?H * ?H) * ?s \<le> 80 * (?H * ?H) * 2" using s(4) by (intro mult_left_mono) simp_all
  then have t': "\<bar>t - ?s\<bar> \<le> 160 * (?H * ?H)" using t by linarith
  then have "\<bar>t - ?s\<bar> * 2 * 2 ^ nat (prec fmt) \<le> 160 * (?H * ?H) * 2 * 2 ^ nat (prec fmt)" by (intro mult_right_mono) simp_all
  also have "\<dots> = 320 * ?H * (?H * 2 ^ nat (prec fmt))" by (simp add: mult_ac)
  also have "?H * 2 ^ nat (prec fmt) = 1" by (simp add: rel_err_def)
  also have "320 * ?H * 1 < 1" using f(8) by linarith
  finally have close: "\<bar>t - ?s\<bar> * 2 * 2 ^ nat (prec fmt) < 1" .
  have near: "\<bar>t - x\<bar> * 2 * 2 ^ nat (prec fmt) < x" if "\<bar>t - x\<bar> \<le> \<bar>t - ?s\<bar>" "1 \<le> x" for x
  proof -
    have "\<bar>t - x\<bar> * 2 * 2 ^ nat (prec fmt) \<le> \<bar>t - ?s\<bar> * 2 * 2 ^ nat (prec fmt)" using that(1) by (intro mult_right_mono) simp_all
    then show ?thesis using close that(2) by linarith
  qed
  have between: "?lo \<le> fval fmt z \<and> fval fmt z \<le> ?hi"
  proof -
    consider "t < ?lo" | "?hi < t" | "?lo \<le> t" "t \<le> ?hi" by linarith
    then show ?thesis
    proof cases
      case 1
      then have "\<bar>t - ?lo\<bar> \<le> \<bar>t - ?s\<bar>" using sl by linarith
      then have "fval fmt z = ?lo" using l1 by (intro near_rep_exact [OF wf r rl(1)] near) linarith+
      then show ?thesis using sl by linarith
    next
      case 2
      then have "\<bar>t - ?hi\<bar> \<le> \<bar>t - ?s\<bar>" using sl by linarith
      then have "fval fmt z = ?hi" using h1 by (intro near_rep_exact [OF wf r rl(2)] near) linarith+
      then show ?thesis using sl by linarith
    next
      case 3
      then show ?thesis using roundsD(3) [OF r rl(1)] roundsD(4) [OF r rl(2)] by simp
    qed
  qed
  then have "0 < fval fmt z" using l1 by linarith
  note p = positive_mag [OF wf roundsD(1,2) [OF r] this]
  have "unit_at fmt K \<le> z" "z \<le> unit_at fmt (K + 1)" using between p(2,3) lo(5) hi(5) by (simp_all add: mag_val_le_iff)
  then show ?thesis unfolding lo(8) by linarith
qed

lemma restored_root:
  assumes env: "root_env fmt N c A nah th" and k: "root_floor fmt A K" and z: "z = unit_at fmt K \<or> z = unit_at fmt (K + 1)"
  shows "sqrt_restore fmt c 2 z = Inr (unit_at fmt K)"
proof -
  have two: "(2::nat) = Suc 1" by simp
  have K: "2 ^ man_w fmt \<le> K" "K \<le> 2 * 2 ^ man_w fmt" "2 ^ man_w fmt \<le> K + 1" "K + 1 \<le> 2 * 2 ^ man_w fmt" "root_over fmt A (K + 1) < 0"
    using k by (simp_all add: root_floor_def)
  from z show ?thesis
  proof
    assume "z = unit_at fmt K"
    then show ?thesis using sqrt_restore_stop [OF env k] by simp
  next
    assume "z = unit_at fmt (K + 1)"
    then show ?thesis unfolding two
      using sqrt_restore_down [OF env K(3-5), of 1] sqrt_restore_stop [OF env k, of 1] unit_at_value(8) [OF root_envD(1) [OF env] K(1,2)] by simp
  qed
qed

section \<open>The guard bit\<close>

definition root_bits :: "int \<Rightarrow> int \<Rightarrow> int \<times> int \<Rightarrow> bool" where
  "root_bits K R gs \<longleftrightarrow> gs = (if R = 0 then (0, 0) else if R \<le> K then (0, 1) else (1, 1))"

lemma sqrt_guard_bits:
  assumes env: "root_env fmt N c A nah th" and k: "root_floor fmt A K"
  obtains r gs where "sqrt_residual fmt c (unit_at fmt K) = Inr r" "sqrt_guard fmt (unit_at fmt K) (- int (man_w fmt)) r = Inr gs"
    "root_bits K (root_over fmt A K) gs"
proof -
  note ev = root_envD [OF env] note f = seq_fmt_facts [OF ev(1)] note wf = ev(2)
  let ?n = "int (man_w fmt)" let ?G = "root_unit fmt" let ?R = "root_over fmt A K" let ?P = "2 ^ nat (prec fmt) :: int"
  have K: "2 ^ man_w fmt \<le> K" "K \<le> 2 * 2 ^ man_w fmt" "K < 2 * 2 ^ man_w fmt" and R: "0 \<le> ?R" "root_over fmt A (K + 1) < 0"
    using k by (simp_all add: root_floor_def)
  have K0: "0 \<le> K" using K(1) zero_le_power [of "2::int" "man_w fmt"] by linarith
  have P: "?P = 2 * 2 ^ man_w fmt" by (simp add: prec_def nat_add_distrib)
  have R2: "?R \<le> 2 * K" using R(2) by (simp add: root_over_def algebra_simps)
  note u = unit_at_value [OF ev(1) K(1,2)]
  note rg = root_grid [OF ev(1)]
  obtain r where r: "sqrt_residual fmt c (unit_at fmt K) = Inr r" "rounds fmt RND_RNE (of_int ?R * ?G) r"
    "?R < 0 \<longleftrightarrow> fval fmt r < 0" "?R = 0 \<longleftrightarrow> fval fmt r = 0" "\<bar>fval fmt r\<bar> \<le> 1000" by (rule root_residual [OF env K(1,2)])
  have z: "r = zero_bits fmt 0 \<or> r = zero_bits fmt 1 \<longleftrightarrow> ?R = 0" using zero_test(1) [OF wf roundsD(1,2) [OF r(2)]] r(4) by simp
  show thesis
  proof (cases "?R = 0")
    case True
    then have "sqrt_guard fmt (unit_at fmt K) (- ?n) r = Inr (0, 0)" using z by (simp add: sqrt_guard_def)
    then show thesis using True by (intro that [OF r(1)]) (simp_all add: root_bits_def)
  next
    case False
    have e1: "emin fmt \<le> - ?n" "- ?n \<le> emax fmt" using f(4,5) by linarith+
    obtain w where w: "pow2_bits fmt (- ?n) = Inr w" "fits fmt w" "is_finite fmt w" "fval fmt w = p2 (- ?n)" by (rule pow2_bits_value [OF wf e1])
    have e2: "emin fmt \<le> 2 * - ?n - 2" "2 * - ?n - 2 \<le> emax fmt" using f(5,11) by linarith+
    obtain q where q: "pow2_bits fmt (2 * - ?n - 2) = Inr q" "fits fmt q" "is_finite fmt q" "fval fmt q = p2 (2 * - ?n - 2)" by (rule pow2_bits_value [OF wf e2])
    have gq: "p2 (2 * - ?n - 2) = ?G / 4" using p2_diff [of "- 2 * ?n" 2] by (simp add: mult.commute)
    have kG: "of_int K * ?G \<le> 100" "0 \<le> of_int K * ?G"
    proof -
      have "?G \<le> p2 (- ?n)" by (subst p2_mono_iff) simp
      then have "of_int K * ?G \<le> of_int K * p2 (- ?n)" using K0 by (intro mult_left_mono) simp_all
      also have "\<dots> = fval fmt (unit_at fmt K)" by (simp add: u(3))
      also have "\<dots> \<le> 2"
      proof -
        have "(of_int K :: real) \<le> 2 * 2 ^ man_w fmt" using K(2) of_int_le_iff [of K "2 * 2 ^ man_w fmt", where 'a = real] by simp
        then show ?thesis by (simp add: u(3) power_int_minus divide_inverse [symmetric] pos_divide_le_eq)
      qed
      finally show "of_int K * ?G \<le> 100" by simp
      show "0 \<le> of_int K * ?G" using K0 by simp
    qed
    have uw: "fval fmt (unit_at fmt K) * fval fmt w = of_int K * ?G" by (simp add: u(3) w(4) p2_add [symmetric])
    have "\<bar>of_int K * ?G\<bar> \<le> 1048576" using kG by linarith
    from op_mul_fits [OF wf rne(2) u(1,2) w(2,3), unfolded uw, OF big_enough [OF ev(1) this]] obtain su where
      su: "v_step fmt OP_MUL (unit_at fmt K) (Some w) None RND_RNE = Inr su" "rounds fmt RND_RNE (of_int K * ?G) su" by blast
    have "\<bar>K\<bar> \<le> ?P" using K(2) K0 P by simp
    then have suv: "fval fmt su = of_int K * ?G" by (intro rounds_exact [OF su(2)] rg) simp_all
    have d1b: "\<bar>fval fmt r - of_int K * ?G\<bar> \<le> 2000" "\<bar>fval fmt r - of_int K * ?G\<bar> \<le> 1048576" using r(5) kG by linarith+
    from op_sub_fits [OF wf rne(2) roundsD(1,2) [OF r(2)] roundsD(1,2) [OF su(2)], unfolded suv, OF big_enough [OF ev(1) d1b(2)]] obtain d1 where
      d1: "v_step fmt OP_SUB r None (Some su) RND_RNE = Inr d1" "rounds fmt RND_RNE (fval fmt r - of_int K * ?G) d1" by blast
    have g: "0 < ?G" by simp
    text \<open>The residual may have been rounded; on which side of \<open>K\<close> units it lies is kept.\<close>
    have sides: "(?R \<le> K \<longrightarrow> fval fmt d1 \<le> 0) \<and> (K < ?R \<longrightarrow> ?G \<le> fval fmt d1)"
    proof (intro conjI impI)
      assume "?R \<le> K"
      then have "\<bar>?R\<bar> \<le> ?P" using R(1) K(2) P by linarith
      then have rv: "fval fmt r = of_int ?R * ?G" by (intro rounds_exact [OF r(2)] rg) simp_all
      have "of_int ?R * ?G \<le> of_int K * ?G" using \<open>?R \<le> K\<close> by (intro mult_right_mono) simp_all
      then show "fval fmt d1 \<le> 0" unfolding rv [symmetric] using roundsD(4) [OF d1(2) rep_0 [OF wf]] by simp
    next
      assume "K < ?R"
      have "K + 1 \<le> ?P" using K(3) P by linarith
      then have "\<bar>K + 1\<bar> \<le> ?P" using K0 by simp
      then have rp: "rep fmt (of_int (K + 1) * ?G)" by (intro rg) simp_all
      have "of_int (K + 1) * ?G \<le> of_int ?R * ?G" using \<open>K < ?R\<close> by (intro mult_right_mono) (simp_all only: of_int_le_iff, simp_all)
      then have "of_int (K + 1) * ?G \<le> fval fmt r" by (rule roundsD(3) [OF r(2) rp])
      then have "?G \<le> fval fmt r - of_int K * ?G" by (simp add: distrib_right)
      moreover have "rep fmt (of_int 1 * ?G)" by (intro rg) (simp_all add: one_le_power)
      ultimately show "?G \<le> fval fmt d1" using roundsD(3) [OF d1(2), of ?G] by simp
    qed
    have "\<bar>fval fmt d1\<bar> \<le> 10000" using rounds_size [OF ev(1) d1(2) d1b(1)] by linarith
    moreover have "?G \<le> p2 0" by (subst p2_mono_iff) simp
    then have "?G \<le> 1" by simp
    ultimately have "\<bar>fval fmt d1 - ?G / 4\<bar> \<le> 1048576" using g by linarith
    from op_sub_fits [OF wf rne(2) roundsD(1,2) [OF d1(2)] q(2,3), unfolded q(4) gq, OF big_enough [OF ev(1) this]] obtain d2 where
      d2: "v_step fmt OP_SUB d1 None (Some q) RND_RNE = Inr d2" "rounds fmt RND_RNE (fval fmt d1 - ?G / 4) d2" by blast
    have half: "rep fmt (of_int 1 * p2 (- 2 * ?n - 1))" "rep fmt (of_int (- 1) * p2 (- 2 * ?n - 2))" by (intro rg; simp add: one_le_power)+
    have hv: "p2 (- 2 * ?n - 1) = ?G / 2" "p2 (- 2 * ?n - 2) = ?G / 4" using p2_diff [of "- 2 * ?n" 1] p2_diff [of "- 2 * ?n" 2] by simp_all
    have neg: "fval fmt d2 < 0" if "?R \<le> K"
    proof -
      have "fval fmt d1 - ?G / 4 \<le> of_int (- 1) * p2 (- 2 * ?n - 2)" using sides that unfolding hv by simp
      from roundsD(4) [OF d2(2) half(2) this] show ?thesis using g unfolding hv by linarith
    qed
    have pos: "0 < fval fmt d2" if "K < ?R"
    proof -
      have "of_int 1 * p2 (- 2 * ?n - 1) \<le> fval fmt d1 - ?G / 4" using sides that g unfolding hv by linarith
      from roundsD(3) [OF d2(2) half(1) this] show ?thesis using g unfolding hv by linarith
    qed
    note t = zero_test(2,3) [OF wf roundsD(1,2) [OF d2(2)]]
    have "truthy (sign_bit fmt d2) \<longleftrightarrow> ?R \<le> K" using t neg pos by force
    moreover have "pow2_bits fmt (- (2 * ?n) - 2) = Inr q" using q(1) by simp
    ultimately have "sqrt_guard fmt (unit_at fmt K) (- ?n) r = Inr (if ?R \<le> K then 0 else 1, 1)"
      using z False by (simp add: sqrt_guard_def w(1) su(1) d1(1) d2(1))
    then show thesis using False by (intro that [OF r(1)]) (simp_all add: root_bits_def)
  qed
qed

section \<open>The whole routine\<close>

lemma unit_at_fields:
  assumes sf: "seq_fmt fmt N" and k: "2 ^ man_w fmt \<le> K" "K < 2 * 2 ^ man_w fmt"
  shows "u_m (unpack fmt (unit_at fmt K)) = K" "u_e (unpack fmt (unit_at fmt K)) = - int (man_w fmt)"
proof -
  note f = seq_fmt_facts [OF sf] note wf = f(1) note u = unit_at_value [OF sf k(1) less_imp_le [OF k(2)]]
  let ?M = "unit_at fmt K" let ?n = "man_w fmt"
  have M: "?M = (- int ?n - qmin fmt + 1) * 2 ^ ?n + (K - 2 ^ ?n)" by (simp add: unit_at_def place_def algebra_simps)
  have r: "0 \<le> K - 2 ^ ?n" "K - 2 ^ ?n < 2 ^ ?n" using k by simp_all
  have "?M = 2 ^ ?n * (- int ?n - qmin fmt + 1) + (K - 2 ^ ?n)" unfolding M by (simp add: mult.commute)
  from int_div_pos_eq [OF this r] int_mod_pos_eq [OF this r]
  have dm: "?M div 2 ^ ?n = - int ?n - qmin fmt + 1" "?M mod 2 ^ ?n = K - 2 ^ ?n" .
  have "1 * 2 ^ ?n \<le> (- int ?n - qmin fmt + 1) * 2 ^ ?n" using f(6) by (intro mult_right_mono) simp_all
  then have ge: "\<not> ?M < 2 ^ ?n" unfolding M using r by linarith
  have "?M \<noteq> 0" using ge zero_less_power [of "2::int" ?n] by linarith
  then show "u_m (unpack fmt ?M) = K" "u_e (unpack fmt ?M) = - int ?n"
    using ge u(6) dm by (simp_all add: unpack_fits [OF wf u(1)] u(4) sig_of_def exp_of_def)
qed

lemma root_side:
  fixes K R i :: int and X :: real
  assumes K: "0 < K" and R: "0 \<le> R" "R \<le> 2 * K" and X: "0 \<le> X" "X * X = of_int (4 * (K * K + R))" and b: "root_bits K R (g, s)"
  shows "X < of_int i \<longleftrightarrow> of_int (4 * K + 2 * g + s) / 2 < (of_int i :: real)" "X = of_int i \<longleftrightarrow> of_int (4 * K + 2 * g + s) / 2 = (of_int i :: real)"
    "2 * of_int K \<le> X"
proof -
  have sq: "of_int i < X \<longleftrightarrow> i * i < 4 * (K * K + R)" "X < of_int i \<longleftrightarrow> 4 * (K * K + R) < i * i" if "0 \<le> i" for i :: int
  proof -
    have i: "(0::real) \<le> of_int i" using that by simp
    have "of_int i < X \<longleftrightarrow> of_int i * of_int i < X * X" "X < of_int i \<longleftrightarrow> X * X < of_int i * of_int i"
      using i X(1) by (auto intro: mult_strict_mono' simp: not_less [symmetric] dest: mult_mono' [OF _ _ X(1) X(1)] mult_mono' [OF _ _ i i]) (meson i mult_mono' not_less X(1))+
    then show "of_int i < X \<longleftrightarrow> i * i < 4 * (K * K + R)" "X < of_int i \<longleftrightarrow> 4 * (K * K + R) < i * i"
      unfolding X(2) of_int_mult [symmetric] of_int_less_iff .
  qed
  have lo: "2 * of_int K \<le> X"
    using sq(2) [of "2 * K"] K R by (simp add: not_less [symmetric])
  have hi: "X < 2 * of_int K + 2"
    using sq(2) [of "2 * K + 2"] K R by (simp add: algebra_simps)
  have mid: "X < 2 * of_int K + 1 \<longleftrightarrow> R \<le> K" "2 * of_int K + 1 < X \<longleftrightarrow> K < R" "2 * of_int K < X \<longleftrightarrow> 0 < R"
    using sq [of "2 * K + 1"] sq(1) [of "2 * K"] K R by (auto simp: algebra_simps)
  have "\<exists>c :: int. (X = of_int c \<and> of_int (4 * K + 2 * g + s) / 2 = (of_int c :: real)) \<or>
    (of_int c < X \<and> X < of_int c + 1 \<and> of_int (4 * K + 2 * g + s) / 2 = (of_int c + 1 / 2 :: real))"
  proof -
    consider "R = 0" | "0 < R" "R \<le> K" | "K < R" using R by linarith
    then show ?thesis
    proof cases
      case 1
      then have "X = 2 * of_int K" using lo mid(3) by simp
      then show ?thesis using 1 b by (intro exI [of _ "2 * K"]) (simp add: root_bits_def)
    next
      case 2
      then show ?thesis using mid b by (intro exI [of _ "2 * K"]) (simp add: root_bits_def)
    next
      case 3
      then show ?thesis using mid hi b R K by (intro exI [of _ "2 * K + 1"]) (simp add: root_bits_def)
    qed
  qed
  then obtain c :: int where c: "(X = of_int c \<and> of_int (4 * K + 2 * g + s) / 2 = (of_int c :: real)) \<or>
    (of_int c < X \<and> X < of_int c + 1 \<and> of_int (4 * K + 2 * g + s) / 2 = (of_int c + 1 / 2 :: real))" by blast
  have "i \<le> c \<or> c + 1 \<le> i" by linarith
  then have "(of_int i :: real) \<le> of_int c \<or> of_int c + 1 \<le> (of_int i :: real)"
    using of_int_le_iff [of i c, where 'a = real] of_int_le_iff [of "c + 1" i, where 'a = real] by simp
  then show "X < of_int i \<longleftrightarrow> of_int (4 * K + 2 * g + s) / 2 < (of_int i :: real)" "X = of_int i \<longleftrightarrow> of_int (4 * K + 2 * g + s) / 2 = (of_int i :: real)"
    using c by linarith+
  show "2 * of_int K \<le> X" by (rule lo)
qed

lemma sqrt_core_rounds:
  assumes sf: "seq_fmt fmt N" and c: "rooted fmt c A" and dir: "valid_dir rnd"
  shows "sqrt_core fmt c D rnd = Inr (round_real fmt rnd 0 (sqrt (fval fmt c) * p2 D))"
proof -
  note f = seq_fmt_facts [OF sf] note wf = f(1) note s = rooted_range [OF c]
  have cf: "fits fmt c" "is_finite fmt c" "sgn_of fmt c = 0" using c by (simp_all add: rooted_def)
  let ?n = "man_w fmt" let ?G = "root_unit fmt"
  have h1: "emin fmt \<le> - 1" "- 1 \<le> emax fmt" using f(4,5) by linarith+
  obtain half where half: "pow2_bits fmt (- 1) = Inr half" "fits fmt half" "is_finite fmt half" "fval fmt half = p2 (- 1)" by (rule pow2_bits_value [OF wf h1])
  define th where "th = push_bit ?n (bias fmt) OR push_bit (?n - 1) 1"
  have f2: "(0::int) \<le> 2 ^ (?n - 1)" "(2::int) ^ (?n - 1) < 2 ^ ?n" using f(3) by simp_all
  have th: "th = bias fmt * 2 ^ ?n + 2 ^ (?n - 1)" using centred_pack(2) [OF sf f2] by (simp add: th_def or.commute push_bit_eq_mult)
  have "centred fmt th (2 ^ ?n + 2 ^ (?n - 1))" unfolding th by (rule centred_pack(1) [OF sf f2])
  moreover have "2 * 2 ^ (?n - 1) = (2 ^ ?n :: real)" using f(3) by (simp add: power_eq_if)
  ultimately have thv: "fits fmt th" "is_finite fmt th" "fval fmt th = 3 / 2"
    by (simp_all add: centred_def power_int_minus divide_inverse [symmetric] add_divide_distrib)
  obtain na where na: "v_step fmt OP_NEG c None None RND_RNE = Inr na" "fits fmt na" "is_finite fmt na" "fval fmt na = - fval fmt c"
    by (rule op_neg_fits [OF wf cf(1,2)])
  have nv: "fval fmt na * fval fmt half = - (fval fmt c / 2)" by (simp add: na(4) half(4) power_int_def)
  have "\<bar>- (fval fmt c / 2)\<bar> \<le> 1048576" using s(1,2) by linarith
  from op_mul_fits [OF wf rne(2) na(2,3) half(2,3), unfolded nv, OF big_enough [OF sf this]] obtain nah where
    nah: "v_step fmt OP_MUL na (Some half) None RND_RNE = Inr nah" "rounds fmt RND_RNE (- (fval fmt c / 2)) nah" by blast
  have "fval fmt nah = - (fval fmt c / 2)"
    using half_rep [OF sf cf s(1,2)] by (intro rounds_exact [OF nah(2)]) (simp only: rep_uminus [OF wf])
  then have env: "root_env fmt N c A nah th" using sf c roundsD(1,2) [OF nah(2)] thv by (simp add: root_env_def)
  obtain y0 y s0 h0 r0 s1 t where st: "v_step fmt OP_RSQRT_SEED c None None RND_RNE = Inr y0"
    "fold_r (\<lambda>y _. sqrt_newton fmt nah th y) y0 [0..<N] = Inr y" "v_step fmt OP_MUL c (Some y) None RND_RNE = Inr s0"
    "v_step fmt OP_MUL y (Some half) None RND_RNE = Inr h0" "sqrt_residual fmt c s0 = Inr r0"
    "v_step fmt OP_FMA r0 (Some h0) (Some s0) RND_RNE = Inr s1" "rounds fmt RND_RNE t s1"
    "\<bar>t - sqrt (fval fmt c)\<bar> \<le> 80 * (rel_err fmt * rel_err fmt) * sqrt (fval fmt c)" by (rule root_steps [OF env half])
  obtain K where k: "root_floor fmt A K" "of_int K * p2 (- int ?n) \<le> sqrt (fval fmt c)" "sqrt (fval fmt c) < of_int (K + 1) * p2 (- int ?n)"
    "sqrt (of_int (A * 2 ^ ?n)) = sqrt (fval fmt c) * 2 ^ ?n" by (rule root_floor_exists [OF c])
  have K: "2 ^ ?n \<le> K" "K < 2 * 2 ^ ?n" and R: "0 \<le> root_over fmt A K" "root_over fmt A (K + 1) < 0" using k(1) by (simp_all add: root_floor_def)
  have K0: "0 < K" using K(1) by (meson less_le_trans zero_less_numeral zero_less_power)
  have R2: "root_over fmt A K \<le> 2 * K" using R(2) by (simp add: root_over_def algebra_simps)
  note re = restored_root [OF env k(1) landed_root [OF env k(1-3) st(7,8)]]
  obtain r gs where r: "sqrt_residual fmt c (unit_at fmt K) = Inr r" "sqrt_guard fmt (unit_at fmt K) (- int ?n) r = Inr gs"
    "root_bits K (root_over fmt A K) gs" by (rule sqrt_guard_bits [OF env k(1)])
  obtain g sb where gs: "gs = (g, sb)" by force
  note b = r(3) [unfolded gs]
  note u = unit_at_fields [OF sf K]
  define X where "X = 2 * (sqrt (fval fmt c) * 2 ^ ?n)"
  have A0: "0 \<le> A" using c zero_le_power [of "2::int" ?n] unfolding rooted_def by linarith
  have X: "0 \<le> X" "X * X = of_int (4 * (K * K + root_over fmt A K))"
  proof -
    show "0 \<le> X" using s(3) by (simp add: X_def)
    have "X * X = 4 * (sqrt (of_int (A * 2 ^ ?n)) * sqrt (of_int (A * 2 ^ ?n)))" unfolding k(4) X_def by simp
    also have "\<dots> = 4 * of_int (A * 2 ^ ?n)" using A0 by (subst real_sqrt_mult_self) simp
    finally show "X * X = of_int (4 * (K * K + root_over fmt A K))" by (simp add: root_over_def)
  qed
  note side = root_side [OF K0 R(1) R2 X b]
  have bits: "g = 0 \<or> g = 1" "sb = 0 \<or> sb = 1" using b by (auto simp: root_bits_def split: if_splits)
  have "p2 (- int ?n - 1 + D) = p2 D * p2 (- (int ?n + 1))" unfolding p2_add [symmetric] by (simp add: algebra_simps)
  moreover have "p2 (- (int ?n + 1)) = inverse (2 * 2 ^ ?n)" unfolding power_int_minus p2_succ by simp
  ultimately have pv: "p2 (- int ?n - 1 + D) = p2 D * inverse (2 * 2 ^ ?n)" by (simp only:)
  have Xv: "X * p2 (- int ?n - 1 + D) = sqrt (fval fmt c) * p2 D" unfolding pv by (simp add: X_def)
  have e: "- int ?n - 2 + D = - int ?n - 1 + D - 1" by simp
  have "round_pack fmt 0 ((push_bit 2 K OR push_bit 1 g) OR sb) (- int ?n - 2 + D) rnd = Inr (round_real fmt rnd 0 (sqrt (fval fmt c) * p2 D))"
    unfolding e Xv [symmetric] by (rule half_place_round [OF wf dir K(1) bits side(3,1,2)])
  moreover have "newton_steps fmt = Inr N" using sf by (simp add: seq_fmt_def)
  ultimately show ?thesis using normal_operand(3) [OF sf cf s(1)] st(2) [unfolded th_def]
    by (simp add: sqrt_core_def half(1) Let_def st(1,3-6) na(1) nah(1) re r(1,2) u gs)
qed


lemma sqrt_scaled: "0 \<le> x \<Longrightarrow> sqrt (x * p2 (2 * i)) = sqrt x * p2 i"
  using p2_half [of "2 * i"] by (simp add: real_sqrt_mult)

theorem sqrt_seq_sqrt:
  assumes sf: "seq_fmt fmt N" and x: "fits fmt xa" and rnd: "valid_mode rnd"
  shows "sqrt_seq fmt xa rnd = sqrt_f fmt xa rnd"
proof (cases "is_finite fmt xa \<and> 0 < fval fmt xa")
  case False
  note wf = seq_fmt_facts(1) [OF sf]
  have "u_kind (unpack fmt xa) = KNan \<or> u_kind (unpack fmt xa) = KInf \<or> u_kind (unpack fmt xa) = KZero \<or> truthy (u_sign (unpack fmt xa))"
  proof (cases "is_finite fmt xa \<and> fval fmt xa \<noteq> 0")
    case True
    then have "\<not> 0 < fval fmt xa" "fval fmt xa \<noteq> 0" "is_finite fmt xa" using False by blast+
    moreover have "fval fmt xa = mag_val fmt (mag_of fmt xa)" if "sgn_of fmt xa = 0" using fval_eq [OF wf x] that calculation by simp
    moreover have "0 \<le> mag_val fmt (mag_of fmt xa)" by (simp add: mag_bounds)
    ultimately have "sgn_of fmt xa \<noteq> 0" by linarith
    then show ?thesis using fits_sgn [OF x] wf x by simp
  next
    case False
    then show ?thesis using unpack_cases(2,4) [OF wf x] by blast
  qed
  then show ?thesis using rnd by (auto simp: sqrt_seq_def sqrt_f_def Let_def)
next
  case True
  note f = seq_fmt_facts [OF sf] note wf = f(1)
  have pos: "0 < fval fmt xa" and fin: "is_finite fmt xa" using True by simp_all
  have sg: "sgn_of fmt xa = 0" using positive_mag(1) [OF wf x fin pos] mag_lim_pos [of fmt] mag_bounds [of fmt xa] sgn_of_pack [of xa fmt 0] by simp
  have nk: "u_kind (unpack fmt xa) \<notin> {KNan, KInf, KZero}" "u_sign (unpack fmt xa) = 0"
    using fin pos unpack_cases(2,4) [OF wf x] sg wf x by auto
  define k2 where "k2 = prec fmt + (prec fmt AND 1)"
  have k2: "prec fmt \<le> k2" "k2 \<le> prec fmt + 1" "even k2" by (auto simp: k2_def and_one_eq)
  obtain a adj where a: "(if exp_field fmt xa = 0 then bind_r (pow2_bits fmt k2) (\<lambda>s. bind_r (v_step fmt OP_MUL xa (Some s) None RND_RNE) (\<lambda>a. Inr (a, - (k2 div 2))))
      else Inr (xa, 0)) = Inr (a, adj)" "fits fmt a" "is_finite fmt a" "exp_field fmt a \<noteq> 0" "fval fmt a * p2 (2 * adj) = fval fmt xa"
  proof (cases "exp_field fmt xa = 0")
    case True
    obtain u y where u: "pow2_bits fmt k2 = Inr u" "v_step fmt OP_MUL xa (Some u) None RND_RNE = Inr y" "fits fmt y" "is_finite fmt y"
      "fval fmt y = fval fmt xa * p2 k2" "exp_field fmt y \<noteq> 0" using scale_up [OF sf x fin _ True k2(1,2)] pos by auto
    have "2 * - (k2 div 2) = - k2" using k2(3) by simp
    then have "fval fmt y * p2 (2 * - (k2 div 2)) = fval fmt xa" by (simp add: u(5) mult.assoc p2_add [symmetric])
    then show thesis using True u by (intro that [of y "- (k2 div 2)"]) simp_all
  next
    case False
    then show thesis using x fin by (intro that [of xa 0]) simp_all
  qed
  have apos: "0 < fval fmt a"
  proof -
    have "0 < fval fmt a * p2 (2 * adj)" unfolding a(5) by (rule pos)
    then show ?thesis by (simp add: zero_less_mult_iff)
  qed
  obtain c E A where c: "centre fmt a = Inr (c, E)" "centred fmt c A" "\<bar>fval fmt a\<bar> = fval fmt c * p2 E" by (rule centre_value [OF sf a(2-4)])
  have cd: "(a AND man_mask fmt) OR push_bit (man_w fmt) (bias fmt) = c" "exp_field fmt a - bias fmt = E"
    using c(1) by (simp_all add: centre_def Let_def split: if_splits)
  have cf: "fits fmt c" "is_finite fmt c" using c(2) by (simp_all add: centred_def)
  let ?odd = "E AND 1"
  have odd: "?odd = 0 \<or> ?odd = 1" "even (E - ?odd)" by (auto simp: and_one_eq)
  obtain c' A' where c': "(if truthy ?odd then bind_r (pow2_bits fmt 1) (\<lambda>t. v_step fmt OP_MUL c (Some t) None RND_RNE) else Inr c) = Inr c'"
    "rooted fmt c' A'" "fval fmt c' = fval fmt c * p2 ?odd"
  proof (cases "?odd = 0")
    case True
    then show thesis using c(2) by (intro that [of c A]) (simp_all add: rooted_def centred_def)
  next
    case False
    then have o1: "?odd = 1" using odd by blast
    have e1: "emin fmt \<le> 1" "1 \<le> emax fmt" using f(4,5) by linarith+
    obtain t where t: "pow2_bits fmt 1 = Inr t" "fits fmt t" "is_finite fmt t" "fval fmt t = p2 1" by (rule pow2_bits_value [OF wf e1])
    note r = centred_range [OF c(2)]
    have tv: "fval fmt c * fval fmt t = fval fmt c * 2" by (simp add: t(4))
    have "\<bar>fval fmt c * 2\<bar> \<le> 1048576" using r by simp
    from op_mul_fits [OF wf rne(2) cf t(2,3), unfolded tv, OF big_enough [OF sf this]] obtain z where
      z: "v_step fmt OP_MUL c (Some t) None RND_RNE = Inr z" "rounds fmt RND_RNE (fval fmt c * 2) z" by blast
    have A: "2 ^ man_w fmt \<le> A" "A < 2 * 2 ^ man_w fmt" "fval fmt c = of_int A * p2 (- int (man_w fmt))" using c(2) by (simp_all add: centred_def)
    have v2: "fval fmt c * 2 = of_int A * p2 (- int (man_w fmt) + 1)" unfolding A(3) p2_succ by simp
    have A0: "0 \<le> A" using A(1) zero_le_power [of "2::int" "man_w fmt"] by linarith
    have "rep fmt (of_int A * p2 (- int (man_w fmt) + 1))"
    proof (rule rep_scaled [OF wf])
      show "\<bar>A\<bar> \<le> 2 ^ nat (prec fmt)" using A A0 by (simp add: prec_def nat_add_distrib)
      show "qmin fmt \<le> - int (man_w fmt) + 1" using f(6) by linarith
      have "of_int \<bar>A\<bar> * p2 (- int (man_w fmt) + 1) = fval fmt c * 2" using A0 by (simp add: v2)
      also have "\<dots> < p2 2" using r by simp
      also have "\<dots> < p2 (emax fmt + 1)" using f(3,5) by (subst p2_less_iff) simp
      finally show "of_int \<bar>A\<bar> * p2 (- int (man_w fmt) + 1) < p2 (emax fmt + 1)" .
    qed
    then have zv: "fval fmt z = fval fmt c * 2" using rounds_exact [OF z(2)] unfolding v2 by blast
    have zp: "0 < fval fmt z" using r zv by simp
    have "sgn_of fmt z = 0"
      using positive_mag(1) [OF wf roundsD(1,2) [OF z(2)] zp] mag_bounds [of fmt z] sgn_of_pack [of z fmt 0] by simp
    then have "rooted fmt z (2 * A)" using roundsD(1,2) [OF z(2)] A zv by (simp add: rooted_def)
    then show thesis using z(1) zv by (intro that [of z "2 * A"]) (simp_all add: o1 t(1))
  qed
  let ?D = "(E - ?odd) div 2 + adj"
  have root: "sqrt (fval fmt c') * p2 ?D = sqrt (fval fmt xa)"
  proof -
    have "fval fmt a = fval fmt c' * p2 (2 * ((E - ?odd) div 2))"
    proof -
      have "2 * ((E - ?odd) div 2) = E - ?odd" using odd(2) by simp
      then have "fval fmt c' * p2 (2 * ((E - ?odd) div 2)) = fval fmt c * (p2 ?odd * p2 (E - ?odd))" by (simp only: c'(3) mult.assoc)
      then show ?thesis using c(3) apos by (simp add: p2_add [symmetric])
    qed
    then have "fval fmt xa = fval fmt c' * p2 (2 * ?D)" unfolding a(5) [symmetric] by (simp add: distrib_left p2_add mult.assoc)
    moreover have "0 \<le> fval fmt c'" using rooted_range(1) [OF c'(2)] by simp
    ultimately show ?thesis using sqrt_scaled [of "fval fmt c'" ?D] by (simp only:)
  qed
  have "sqrt_seq fmt xa rnd = sqrt_core fmt c' ?D rnd"
    using nk unfolding sqrt_seq_def Let_def k2_def [symmetric] a(1) by (simp add: cd c'(1) cong: if_cong split del: if_split)
  also have "\<dots> = Inr (round_real fmt rnd 0 (sqrt (fval fmt xa)))" using sqrt_core_rounds [OF sf c'(2) valid_mode_dir [OF rnd]] by (simp add: root)
  also have "\<dots> = sqrt_f fmt xa rnd" using sqrt_finite [OF wf x fin rnd pos] by simp
  finally show ?thesis .
qed

section \<open>The residual is not always exact\<close>

text \<open>
  The root of \<open>4 - 2^-20\<close> in binary32: the restored floor is \<open>2 - 3 * 2^-23\<close> and its residual has twenty-five
  significant bits, so the fused step rounds it.
\<close>

lemma restored_residual_rounds:
  "sqrt_restore FP32 1082130428 2 1073741822 = Inr 1073741821" "sqrt_residual FP32 1082130428 1073741821 = Inr 889192444"
  "fval FP32 889192444 \<noteq> fval FP32 1082130428 - fval FP32 1073741821 * fval FP32 1073741821"
proof -
  show "sqrt_residual FP32 1082130428 1073741821 = Inr 889192444"
    by code_simp
  show "sqrt_restore FP32 1082130428 2 1073741822 = Inr 1073741821"
    by code_simp
  show "fval FP32 889192444 \<noteq> fval FP32 1082130428 - fval FP32 1073741821 * fval FP32 1073741821"
    by (simp add: fval_def unpack_def code_defs fmt_defs ladder_defs bits_arith u_val_def mk_unpacked_def sg_def
      drop_bit_eq_div push_bit_eq_mult take_bit_eq_mod power_int_def power_one_over)
qed

end
