(* ===== verification/SeqIsa.thy ===== *)
theory SeqIsa
  imports Opcodes Augmented
begin

text \<open>
  The instruction set of the orbit sequencer: \<^verbatim>\<open>python/cft_golden/seqflags.py\<close> and the encoding half of
  \<^verbatim>\<open>python/cft_golden/seq.py\<close>. An instruction word is an integer of 64 bits, a decoded instruction the
  record \<open>insn\<close> (the dictionary \<open>decode\<close> returns), and the four operand names that key the
  source's dictionaries are the datatype \<open>reg_field\<close>. The lemmas show that encoding and decoding are
  inverse, that the assembler functions build what their names say, and which bits they may set.
\<close>

section \<open>The header flags\<close>

definition FLAG_BANK_EXT :: int where "FLAG_BANK_EXT = push_bit 0 1"
definition FLAG_SCRATCH_IO :: int where "FLAG_SCRATCH_IO = push_bit 1 1"
definition FLAG_SCRATCH_STRICT :: int where "FLAG_SCRATCH_STRICT = push_bit 2 1"

definition FLAG_TABLE :: "(int \<times> string \<times> string) list" where
  "FLAG_TABLE =
    [(FLAG_BANK_EXT, ''BANK_EXT'', ''CFT_PROG_FLAG_BANK_EXT''),
     (FLAG_SCRATCH_IO, ''SCRATCH_IO'', ''CFT_PROG_FLAG_SCRATCH_IO''),
     (FLAG_SCRATCH_STRICT, ''SCRATCH_STRICT'', ''CFT_PROG_FLAG_SCRATCH_STRICT'')]"

definition FLAG_NAMES :: "(int \<times> string) list" where
  "FLAG_NAMES = map (\<lambda>(bit, name, c). (bit, name)) FLAG_TABLE"

definition FLAGS_DEFINED :: int where
  "FLAGS_DEFINED = foldl (\<lambda>acc bit. acc OR bit) 0 (map fst FLAG_NAMES)"

definition join :: "string \<Rightarrow> string list \<Rightarrow> string" where
  "join sep xs = (case xs of [] \<Rightarrow> [] | y # ys \<Rightarrow> foldl (\<lambda>acc s. acc @ sep @ s) y ys)"

definition flag_names :: "int \<Rightarrow> string" where
  "flag_names msk =
    (let have = map (\<lambda>(bit, n, c). the (map_of FLAG_NAMES bit)) (filter (\<lambda>(bit, n, c). msk AND bit \<noteq> 0) FLAG_TABLE)
     in if have = [] then ''none''
        else if length have = 1 then have ! 0
        else join '', '' (butlast have) @ '' and '' @ last have)"

definition FLAGS_KNOWN :: int where
  "FLAGS_KNOWN = FLAG_BANK_EXT OR FLAG_SCRATCH_IO OR FLAG_SCRATCH_STRICT"

section \<open>The capacities\<close>

definition MAGIC :: int where "MAGIC = 0x50544643"
definition VERSION :: int where "VERSION = 1"
definition HEADER_WORDS :: int where "HEADER_WORDS = 8"
definition INSN_BYTES :: int where "INSN_BYTES = 8"
definition NREG :: int where "NREG = 32"
definition NREG_REV1 :: int where "NREG_REV1 = 16"
definition MAX_LOOP_DEPTH :: int where "MAX_LOOP_DEPTH = 4"
definition SCRATCH_D :: int where "SCRATCH_D = 256"
definition SCRATCH_MASK :: int where "SCRATCH_MASK = SCRATCH_D - 1"
definition SCRATCH_D_MAX :: int where "SCRATCH_D_MAX = push_bit 15 1"

text \<open>The Python function also refuses what is not an integer.\<close>

definition check_scratch_depth :: "int \<Rightarrow> int result" where
  "check_scratch_depth depth =
    (if \<not> (1 \<le> depth \<and> depth \<le> SCRATCH_D_MAX) \<or> depth AND (depth - 1) \<noteq> 0 then Inl ValueError else Inr depth)"

datatype reg_field = FRd | FRa | FRb | FRc

fun REG_HI_SHIFT :: "reg_field \<Rightarrow> nat" where
  "REG_HI_SHIFT FRd = 24"
| "REG_HI_SHIFT FRa = 25"
| "REG_HI_SHIFT FRb = 26"
| "REG_HI_SHIFT FRc = 27"

definition REG_HI_MASK :: int where "REG_HI_MASK = 0x0F000000"
definition KADDR_PLAIN :: int where "KADDR_PLAIN = 16"
definition KADDR_KX8 :: int where "KADDR_KX8 = 256"
definition KADDR_KX :: int where "KADDR_KX = 512"
definition MAX_INSTRUCTIONS :: int where "MAX_INSTRUCTIONS = push_bit 40 1"
definition MAX_DEPOSITS :: int where "MAX_DEPOSITS = push_bit 20 1"

section \<open>Control codes\<close>

definition HALT :: int where "HALT = 0"
definition REPEAT :: int where "REPEAT = 1"
definition ENDREP :: int where "ENDREP = 2"
definition DEPOSIT :: int where "DEPOSIT = 3"
definition SETACT :: int where "SETACT = 4"
definition ACTALL :: int where "ACTALL = 5"
definition STL :: int where "STL = 6"
definition LDL :: int where "LDL = 7"
definition STX :: int where "STX = 8"
definition LDX :: int where "LDX = 9"
definition AUGADD :: int where "AUGADD = 10"
definition AUGERR :: int where "AUGERR = 11"
definition QUIET :: int where "QUIET = 12"
definition ENDQUIET :: int where "ENDQUIET = 13"
definition RAISE :: int where "RAISE = 14"

definition CTRL_NAMES :: "int \<rightharpoonup> string" where
  "CTRL_NAMES = map_of
    [(HALT, ''halt''), (REPEAT, ''repeat''), (ENDREP, ''endrep''), (DEPOSIT, ''deposit''),
     (SETACT, ''setact''), (ACTALL, ''actall''), (STL, ''stl''), (LDL, ''ldl''), (STX, ''stx''),
     (LDX, ''ldx''), (AUGADD, ''augadd''), (AUGERR, ''augerr''), (QUIET, ''quiet''),
     (ENDQUIET, ''endquiet''), (RAISE, ''raise'')]"

definition STEP_BITS :: nat where "STEP_BITS = 12"
definition STEP_MASK :: int where "STEP_MASK = push_bit STEP_BITS 1 - 1"
definition STEP_SIGN :: int where "STEP_SIGN = push_bit (STEP_BITS - 1) 1"
definition STEP_MIN :: int where "STEP_MIN = - STEP_SIGN"
definition STEP_MAX :: int where "STEP_MAX = STEP_SIGN - 1"
definition MAX_QUIET_DEPTH :: int where "MAX_QUIET_DEPTH = 4"
definition RAISE_FLAG_BITS :: int where "RAISE_FLAG_BITS = 0x1F"
definition RAISE_MARK :: int where "RAISE_MARK = push_bit 7 1"

definition FEAT_AUGADD :: int where "FEAT_AUGADD = push_bit 15 1"
definition FEAT_SCRATCH_STEP :: int where "FEAT_SCRATCH_STEP = push_bit 16 1"
definition FEAT_LANE_FLAGS :: int where "FEAT_LANE_FLAGS = push_bit 17 1"
definition FEAT_FLAG_CONTROL :: int where "FEAT_FLAG_CONTROL = push_bit 18 1"

definition SCRATCH_SLOT_MASK :: int where "SCRATCH_SLOT_MASK = 0x00FFFFFF"

definition IMM_ALLOWED :: "int \<rightharpoonup> int" where
  "IMM_ALLOWED = map_of
    [(HALT, 0), (REPEAT, 0xFFFFFFFF), (ENDREP, 0),
     (DEPOSIT, push_bit (REG_HI_SHIFT FRa) 1),
     (SETACT, push_bit (REG_HI_SHIFT FRa) 1),
     (ACTALL, 0),
     (STL, SCRATCH_SLOT_MASK OR push_bit (REG_HI_SHIFT FRa) 1),
     (LDL, SCRATCH_SLOT_MASK OR push_bit (REG_HI_SHIFT FRd) 1),
     (STX, push_bit (REG_HI_SHIFT FRa) 1 OR push_bit (REG_HI_SHIFT FRb) 1 OR STEP_MASK),
     (LDX, push_bit (REG_HI_SHIFT FRd) 1 OR push_bit (REG_HI_SHIFT FRb) 1 OR STEP_MASK),
     (AUGADD, push_bit (REG_HI_SHIFT FRd) 1 OR push_bit (REG_HI_SHIFT FRa) 1 OR push_bit (REG_HI_SHIFT FRb) 1),
     (AUGERR, push_bit (REG_HI_SHIFT FRd) 1 OR push_bit (REG_HI_SHIFT FRa) 1 OR push_bit (REG_HI_SHIFT FRb) 1),
     (QUIET, 0), (ENDQUIET, 0),
     (RAISE, push_bit (REG_HI_SHIFT FRa) 1)]"

definition STATUS_DEPOSIT_OVERFLOW :: int where "STATUS_DEPOSIT_OVERFLOW = push_bit 4 1"
definition STATUS_SCRATCH_RANGE :: int where "STATUS_SCRATCH_RANGE = push_bit 5 1"
definition STATUS_MARKED :: int where "STATUS_MARKED = push_bit 6 1"
definition LANE_FLAGS_IEEE :: int where "LANE_FLAGS_IEEE = 0x1F"
definition LANE_DEPOSIT_OVERFLOW :: int where "LANE_DEPOSIT_OVERFLOW = push_bit 5 1"
definition LANE_SCRATCH_RANGE :: int where "LANE_SCRATCH_RANGE = push_bit 6 1"
definition LANE_MARKED :: int where "LANE_MARKED = push_bit 7 1"

lemmas ctrl_defs [code_defs] =
  HALT_def REPEAT_def ENDREP_def DEPOSIT_def SETACT_def ACTALL_def STL_def LDL_def STX_def LDX_def
  AUGADD_def AUGERR_def QUIET_def ENDQUIET_def RAISE_def

lemmas seq_defs [code_defs] =
  FLAG_BANK_EXT_def FLAG_SCRATCH_IO_def FLAG_SCRATCH_STRICT_def FLAG_TABLE_def FLAG_NAMES_def
  FLAGS_DEFINED_def FLAGS_KNOWN_def MAGIC_def VERSION_def HEADER_WORDS_def INSN_BYTES_def NREG_def NREG_REV1_def
  MAX_LOOP_DEPTH_def SCRATCH_D_def SCRATCH_MASK_def SCRATCH_D_MAX_def REG_HI_MASK_def KADDR_PLAIN_def
  KADDR_KX8_def KADDR_KX_def MAX_INSTRUCTIONS_def MAX_DEPOSITS_def STEP_BITS_def STEP_MASK_def
  STEP_SIGN_def STEP_MIN_def STEP_MAX_def MAX_QUIET_DEPTH_def RAISE_FLAG_BITS_def RAISE_MARK_def
  FEAT_AUGADD_def FEAT_SCRATCH_STEP_def FEAT_LANE_FLAGS_def FEAT_FLAG_CONTROL_def SCRATCH_SLOT_MASK_def
  STATUS_DEPOSIT_OVERFLOW_def STATUS_SCRATCH_RANGE_def STATUS_MARKED_def LANE_FLAGS_IEEE_def
  LANE_DEPOSIT_OVERFLOW_def LANE_SCRATCH_RANGE_def LANE_MARKED_def

section \<open>Encoding and decoding\<close>

definition of_flag :: "bool \<Rightarrow> int" where
  "of_flag b = (if b then 1 else 0)"

definition encode :: "int \<Rightarrow> int \<Rightarrow> int \<Rightarrow> int \<Rightarrow> int \<Rightarrow> int \<Rightarrow> bool \<Rightarrow> bool \<Rightarrow> bool \<Rightarrow> bool \<Rightarrow> int \<Rightarrow> bool \<Rightarrow> int result" where
  "encode op rd ra rb rc rnd ka kb kc ctrl imm kx =
    (if \<not> list_all (\<lambda>v. 0 \<le> v \<and> v < NREG) [rd, ra, rb, rc] then Inl ProgramError
     else if \<not> (0 \<le> op \<and> op < 256) then Inl ProgramError
     else if \<not> (0 \<le> rnd \<and> rnd \<le> 4) then Inl ProgramError
     else if \<not> (0 \<le> imm \<and> imm < push_bit 32 1) then Inl ProgramError
     else let imm = imm OR (push_bit (REG_HI_SHIFT FRd) (drop_bit 4 rd AND 1)
                OR push_bit (REG_HI_SHIFT FRa) (drop_bit 4 ra AND 1)
                OR push_bit (REG_HI_SHIFT FRb) (drop_bit 4 rb AND 1)
                OR push_bit (REG_HI_SHIFT FRc) (drop_bit 4 rc AND 1))
     in Inr (op OR push_bit 8 (rd AND 0xF) OR push_bit 12 (ra AND 0xF)
          OR push_bit 16 (rb AND 0xF) OR push_bit 20 (rc AND 0xF)
          OR push_bit 24 rnd OR push_bit 27 (of_flag ka) OR push_bit 28 (of_flag kb)
          OR push_bit 29 (of_flag kc) OR push_bit 30 (of_flag kx)
          OR push_bit 31 (of_flag ctrl) OR push_bit 32 imm))"

record insn =
  i_op :: int
  i_rd :: int
  i_ra :: int
  i_rb :: int
  i_rc :: int
  i_rnd :: int
  i_ka :: bool
  i_kb :: bool
  i_kc :: bool
  i_kx :: bool
  i_ctrl :: bool
  i_imm :: int

definition decode :: "int \<Rightarrow> insn" where
  "decode word =
    (let imm = drop_bit 32 word AND 0xFFFFFFFF in
     \<lparr>i_op = word AND 0xFF,
      i_rd = (drop_bit 8 word AND 0xF) OR push_bit 4 (drop_bit (REG_HI_SHIFT FRd) imm AND 1),
      i_ra = (drop_bit 12 word AND 0xF) OR push_bit 4 (drop_bit (REG_HI_SHIFT FRa) imm AND 1),
      i_rb = (drop_bit 16 word AND 0xF) OR push_bit 4 (drop_bit (REG_HI_SHIFT FRb) imm AND 1),
      i_rc = (drop_bit 20 word AND 0xF) OR push_bit 4 (drop_bit (REG_HI_SHIFT FRc) imm AND 1),
      i_rnd = drop_bit 24 word AND 0x7,
      i_ka = truthy (drop_bit 27 word AND 1),
      i_kb = truthy (drop_bit 28 word AND 1),
      i_kc = truthy (drop_bit 29 word AND 1),
      i_kx = truthy (drop_bit 30 word AND 1),
      i_ctrl = truthy (drop_bit 31 word AND 1),
      i_imm = imm\<rparr>)"

fun raw_shift :: "reg_field \<Rightarrow> nat" where
  "raw_shift FRd = 8"
| "raw_shift FRa = 12"
| "raw_shift FRb = 16"
| "raw_shift FRc = 20"

definition decode_raw :: "int \<Rightarrow> reg_field \<Rightarrow> int" where
  "decode_raw word f = drop_bit (raw_shift f) word AND 0xF"

fun KX_SHIFT :: "reg_field \<Rightarrow> nat" where
  "KX_SHIFT FRa = 0"
| "KX_SHIFT FRb = 8"
| "KX_SHIFT FRc = 16"
| "KX_SHIFT FRd = 0"

fun KX9_SHIFT :: "reg_field \<Rightarrow> nat" where
  "KX9_SHIFT FRa = 28"
| "KX9_SHIFT FRb = 29"
| "KX9_SHIFT FRc = 30"
| "KX9_SHIFT FRd = 0"

definition KX9_MASK :: int where "KX9_MASK = 0x70000000"
definition KX_RESERVED :: int where "KX_RESERVED = 0x80000000"

lemmas kx_defs [code_defs] = KX9_MASK_def KX_RESERVED_def

text \<open>The dictionary look-ups \<open>d[field]\<close> and \<open>d[flag]\<close> of the loops over the operands.\<close>

fun reg_of :: "insn \<Rightarrow> reg_field \<Rightarrow> int" where
  "reg_of d FRd = i_rd d"
| "reg_of d FRa = i_ra d"
| "reg_of d FRb = i_rb d"
| "reg_of d FRc = i_rc d"

fun k_of :: "insn \<Rightarrow> reg_field \<Rightarrow> bool" where
  "k_of d FRa = i_ka d"
| "k_of d FRb = i_kb d"
| "k_of d FRc = i_kc d"
| "k_of d FRd = False"

definition sources :: "insn \<Rightarrow> (int \<times> bool) list" where
  "sources d = map (\<lambda>f.
     if k_of d f then
       (if i_kx d
        then ((drop_bit (KX_SHIFT f) (i_imm d) AND 0xFF) OR push_bit 8 (drop_bit (KX9_SHIFT f) (i_imm d) AND 1), True)
        else (reg_of d f, True))
     else (reg_of d f, False)) [FRa, FRb, FRc]"

section \<open>The assembler functions\<close>

definition alu :: "int \<Rightarrow> int \<Rightarrow> int \<Rightarrow> int \<Rightarrow> int \<Rightarrow> int \<Rightarrow> bool \<Rightarrow> bool \<Rightarrow> bool \<Rightarrow> bool \<Rightarrow> int result" where
  "alu op rd ra rb rc rnd ka kb kc kx =
    (if list_ex (\<lambda>(v, flag). flag \<and> \<not> kx \<and> \<not> (0 \<le> v \<and> v < KADDR_PLAIN)) [(ra, ka), (rb, kb), (rc, kc)]
     then Inl ProgramError
     else if \<not> kx then encode op rd ra rb rc rnd ka kb kc False 0 False
     else bind_r (fold_r (\<lambda>(imm, fields) (v, flag, f).
            if flag then
              if \<not> (0 \<le> v \<and> v < KADDR_KX) then Inl ProgramError
              else Inr (imm OR push_bit (KX_SHIFT f) (v AND 0xFF) OR push_bit (KX9_SHIFT f) (drop_bit 8 v AND 1), fields @ [0])
            else Inr (imm, fields @ [v])) (0, []) [(ra, ka, FRa), (rb, kb, FRb), (rc, kc, FRc)])
          (\<lambda>(imm, fields). encode op rd (fields ! 0) (fields ! 1) (fields ! 2) rnd ka kb kc False imm True))"

text \<open>A control instruction names what it reads; the other arguments of \<open>encode\<close> are its defaults.\<close>

definition ctrl_word :: "int \<Rightarrow> int \<Rightarrow> int \<Rightarrow> int \<Rightarrow> int \<Rightarrow> int result" where
  "ctrl_word op rd ra rb imm = encode op rd ra rb 0 RND_RNE False False False True imm False"

definition halt :: "int result" where "halt = ctrl_word HALT 0 0 0 0"

definition repeat :: "int \<Rightarrow> int result" where
  "repeat trip = (if trip < 1 then Inl ProgramError else ctrl_word REPEAT 0 0 0 trip)"

definition endrep :: "int result" where "endrep = ctrl_word ENDREP 0 0 0 0"
definition deposit :: "int \<Rightarrow> int result" where "deposit ra = ctrl_word DEPOSIT 0 ra 0 0"
definition setact :: "int \<Rightarrow> int result" where "setact ra = ctrl_word SETACT 0 ra 0 0"
definition actall :: "int result" where "actall = ctrl_word ACTALL 0 0 0 0"

definition check_slot :: "int \<Rightarrow> int \<Rightarrow> int result" where
  "check_slot slot scratch_depth =
    bind_r (check_scratch_depth scratch_depth) (\<lambda>_.
    if \<not> (0 \<le> slot \<and> slot < scratch_depth) then Inl ProgramError else Inr slot)"

definition stl :: "int \<Rightarrow> int \<Rightarrow> int \<Rightarrow> int result" where
  "stl ra slot scratch_depth = bind_r (check_slot slot scratch_depth) (\<lambda>_. ctrl_word STL 0 ra 0 slot)"

definition ldl :: "int \<Rightarrow> int \<Rightarrow> int \<Rightarrow> int result" where
  "ldl rd slot scratch_depth = bind_r (check_slot slot scratch_depth) (\<lambda>_. ctrl_word LDL rd 0 0 slot)"

definition step_imm :: "int \<Rightarrow> int result" where
  "step_imm step = (if \<not> (STEP_MIN \<le> step \<and> step \<le> STEP_MAX) then Inl ProgramError else Inr (step AND STEP_MASK))"

definition stx :: "int \<Rightarrow> int \<Rightarrow> int \<Rightarrow> int result" where
  "stx ra rb step = bind_r (step_imm step) (\<lambda>imm. ctrl_word STX 0 ra rb imm)"

definition ldx :: "int \<Rightarrow> int \<Rightarrow> int \<Rightarrow> int result" where
  "ldx rd rb step = bind_r (step_imm step) (\<lambda>imm. ctrl_word LDX rd 0 rb imm)"

definition augadd :: "int \<Rightarrow> int \<Rightarrow> int \<Rightarrow> int result" where "augadd rd ra rb = ctrl_word AUGADD rd ra rb 0"
definition augerr :: "int \<Rightarrow> int \<Rightarrow> int \<Rightarrow> int result" where "augerr rd ra rb = ctrl_word AUGERR rd ra rb 0"
definition quiet :: "int result" where "quiet = ctrl_word QUIET 0 0 0 0"
definition endquiet :: "int result" where "endquiet = ctrl_word ENDQUIET 0 0 0 0"
definition raise :: "int \<Rightarrow> int result" where "raise ra = ctrl_word RAISE 0 ra 0 0"

definition index_step :: "insn \<Rightarrow> int" where
  "index_step d =
    (if \<not> i_ctrl d \<or> i_op d \<notin> {STX, LDX} then 0
     else let s = i_imm d AND STEP_MASK in if s AND STEP_SIGN \<noteq> 0 then s - push_bit STEP_BITS 1 else s)"

definition features_rev8 :: "int list \<Rightarrow> int" where
  "features_rev8 insns = foldl (\<lambda>need word.
     let d = decode word in
     if \<not> i_ctrl d then need
     else if i_op d \<in> {AUGADD, AUGERR} then need OR FEAT_AUGADD
     else if i_op d \<in> {QUIET, ENDQUIET, RAISE} then need OR FEAT_FLAG_CONTROL
     else if index_step d \<noteq> 0 then need OR FEAT_SCRATCH_STEP
     else need) 0 insns"

definition static_scratch_reach :: "int list \<Rightarrow> int" where
  "static_scratch_reach insns = foldl (\<lambda>reach word.
     let d = decode word in
     if i_ctrl d \<and> i_op d \<in> {STL, LDL} then max reach ((i_imm d AND SCRATCH_SLOT_MASK) + 1) else reach) 0 insns"

section \<open>Bit fields\<close>

lemma masks:
  fixes x :: int
  shows "x AND 0xFF = take_bit 8 x" "x AND 0xF = take_bit 4 x" "x AND 0x7 = take_bit 3 x" "x AND 1 = take_bit 1 x"
    "x AND 0xFFFFFFFF = take_bit 32 x" "x AND 0x00FFFFFF = take_bit 24 x" "x AND 0xFFF = take_bit 12 x"
  by (simp_all only: take_bit_eq_mask mask_eq_exp_minus_1) simp_all

lemma join_fields: "take_bit m w OR push_bit m (take_bit k (drop_bit m w)) = take_bit (m + k) w" for w :: int
  by (rule bit_eqI) (auto simp: bit_simps)

lemma take_bit_nonneg_small: "0 \<le> x \<Longrightarrow> x < 2 ^ n \<Longrightarrow> take_bit n x = x" for x :: int
  by (simp add: take_bit_int_eq_self_iff)

lemma take_bit_1_iff: "take_bit 1 x = of_flag (bit x 0)" for x :: int
  by (simp add: of_flag_def take_bit_Suc odd_iff_mod_2_eq_one bit_0)

lemma drop_push_le: "n \<le> m \<Longrightarrow> drop_bit m (push_bit n a) = drop_bit (m - n) a"
  and drop_push_ge: "m \<le> n \<Longrightarrow> drop_bit m (push_bit n a) = push_bit (n - m) a" for a :: int
  by (simp_all add: drop_bit_push_bit)

lemmas field_simps_bit = take_bit_or drop_bit_or drop_push_le drop_push_ge take_bit_push_bit take_bit_take_bit drop_bit_take_bit
  drop_bit_drop_bit

lemma bit_hi_mask: "bit REG_HI_MASK n \<longleftrightarrow> 24 \<le> n \<and> n < 28"
proof -
  have "REG_HI_MASK = push_bit 24 (mask 4)" by (simp add: REG_HI_MASK_def mask_eq_exp_minus_1 push_bit_eq_mult)
  moreover have "bit (push_bit 24 (mask 4) :: int) n \<longleftrightarrow> 24 \<le> n \<and> n < 28" unfolding bit_push_bit_iff bit_mask_iff by auto
  ultimately show ?thesis by simp
qed

lemma hi_mask_iff: "imm AND REG_HI_MASK = 0 \<longleftrightarrow> (\<forall>n. 24 \<le> n \<and> n < 28 \<longrightarrow> \<not> bit imm n)"
  by (simp add: bit_eq_iff bit_and_iff bit_hi_mask) blast

lemma hi_mask_bits: "imm AND REG_HI_MASK = 0 \<Longrightarrow> 24 \<le> k \<Longrightarrow> k \<le> 27 \<Longrightarrow> \<not> bit imm k"
  by (simp add: hi_mask_iff)

text \<open>What the high bits of the four register fields add to the immediate.\<close>

definition reg_hi :: "int \<Rightarrow> int \<Rightarrow> int \<Rightarrow> int \<Rightarrow> int" where
  "reg_hi rd ra rb rc = (push_bit 24 (take_bit 1 (drop_bit 4 rd)) OR push_bit 25 (take_bit 1 (drop_bit 4 ra))
     OR push_bit 26 (take_bit 1 (drop_bit 4 rb)) OR push_bit 27 (take_bit 1 (drop_bit 4 rc)))"

lemma encode_cases:
  "encode op rd ra rb rc rnd ka kb kc ctrl imm kx = Inr w \<longleftrightarrow>
    rd \<in> {0..<32} \<and> ra \<in> {0..<32} \<and> rb \<in> {0..<32} \<and> rc \<in> {0..<32} \<and> op \<in> {0..<256} \<and> rnd \<in> {0..4} \<and> imm \<in> {0..<2 ^ 32} \<and>
    w = (op OR push_bit 8 (take_bit 4 rd) OR push_bit 12 (take_bit 4 ra)
          OR push_bit 16 (take_bit 4 rb) OR push_bit 20 (take_bit 4 rc)
          OR push_bit 24 rnd OR push_bit 27 (of_flag ka) OR push_bit 28 (of_flag kb)
          OR push_bit 29 (of_flag kc) OR push_bit 30 (of_flag kx)
          OR push_bit 31 (of_flag ctrl) OR push_bit 32 (imm OR reg_hi rd ra rb rc))"
proof -
  have p: "push_bit 32 1 = (2 ^ 32 :: int)" by (simp add: push_bit_eq_mult)
  have h: "(push_bit (REG_HI_SHIFT FRd) (drop_bit 4 rd AND 1) OR push_bit (REG_HI_SHIFT FRa) (drop_bit 4 ra AND 1)
      OR push_bit (REG_HI_SHIFT FRb) (drop_bit 4 rb AND 1) OR push_bit (REG_HI_SHIFT FRc) (drop_bit 4 rc AND 1))
    = reg_hi rd ra rb rc" by (simp only: reg_hi_def masks REG_HI_SHIFT.simps)
  show ?thesis
    unfolding encode_def Let_def h p masks(2) NREG_def by auto
qed


lemma reg_split: "take_bit 4 r OR push_bit 4 (take_bit 1 (drop_bit 4 r)) = take_bit 5 r" for r :: int
  using join_fields [of 4 r 1] by simp

lemma decode_encode:
  assumes "encode op rd ra rb rc rnd ka kb kc ctrl imm kx = Inr w"
  shows "i_op (decode w) = op" "i_rnd (decode w) = rnd" "i_ka (decode w) = ka" "i_kb (decode w) = kb" "i_kc (decode w) = kc"
    "i_kx (decode w) = kx" "i_ctrl (decode w) = ctrl" "i_imm (decode w) = (imm OR reg_hi rd ra rb rc)"
    "decode_raw w FRd = take_bit 4 rd" "decode_raw w FRa = take_bit 4 ra" "decode_raw w FRb = take_bit 4 rb" "decode_raw w FRc = take_bit 4 rc"
    "0 \<le> w" "w < 2 ^ 64"
    "imm AND REG_HI_MASK = 0 \<Longrightarrow> i_rd (decode w) = rd \<and> i_ra (decode w) = ra \<and> i_rb (decode w) = rb \<and> i_rc (decode w) = rc"
proof -
  let ?hi = "reg_hi rd ra rb rc"
  have r: "take_bit 5 rd = rd" "take_bit 5 ra = ra" "take_bit 5 rb = rb" "take_bit 5 rc = rc" "take_bit 8 op = op" "take_bit 3 rnd = rnd"
    "take_bit 32 imm = imm"
    using assms unfolding encode_cases by (auto intro!: take_bit_nonneg_small)
  have hi: "take_bit 32 ?hi = ?hi" by (simp only: reg_hi_def field_simps_bit)
  have f: "take_bit 1 (of_flag b) = of_flag b" for b by (simp add: of_flag_def)
  have w: "w = (take_bit 8 op OR push_bit 8 (take_bit 4 rd) OR push_bit 12 (take_bit 4 ra)
          OR push_bit 16 (take_bit 4 rb) OR push_bit 20 (take_bit 4 rc)
          OR push_bit 24 (take_bit 3 rnd) OR push_bit 27 (take_bit 1 (of_flag ka)) OR push_bit 28 (take_bit 1 (of_flag kb))
          OR push_bit 29 (take_bit 1 (of_flag kc)) OR push_bit 30 (take_bit 1 (of_flag kx))
          OR push_bit 31 (take_bit 1 (of_flag ctrl)) OR push_bit 32 (take_bit 32 (imm OR ?hi)))"
    using assms unfolding encode_cases f r take_bit_or hi by blast
  have pos: "of_flag b \<noteq> 0 \<longleftrightarrow> b" for b by (simp add: of_flag_def)
  have z: "0 < k \<Longrightarrow> drop_bit k (x mod 2) = 0" for k and x :: int by (cases "even x") (simp_all add: even_iff_mod_2_eq_zero odd_iff_mod_2_eq_one drop_bit_eq_div)
  have d: "i_op (decode w) = take_bit 8 op" "i_rnd (decode w) = take_bit 3 rnd"
    "i_imm (decode w) = take_bit 32 (imm OR ?hi)"
    "decode_raw w FRd = take_bit 4 rd" "decode_raw w FRa = take_bit 4 ra" "decode_raw w FRb = take_bit 4 rb" "decode_raw w FRc = take_bit 4 rc"
    unfolding decode_def decode_raw_def Let_def insn.simps masks w raw_shift.simps by (simp_all add: field_simps_bit z)
  show "i_ka (decode w) = ka" "i_kb (decode w) = kb" "i_kc (decode w) = kc" "i_kx (decode w) = kx" "i_ctrl (decode w) = ctrl"
    unfolding decode_def Let_def insn.simps masks w by (simp_all add: field_simps_bit z) (simp_all add: of_flag_def)
  show "i_op (decode w) = op" "i_rnd (decode w) = rnd" "i_imm (decode w) = (imm OR ?hi)"
    "decode_raw w FRd = take_bit 4 rd" "decode_raw w FRa = take_bit 4 ra" "decode_raw w FRb = take_bit 4 rb" "decode_raw w FRc = take_bit 4 rc"
    by (simp_all only: d r take_bit_or hi)
  have t: "0 < k \<Longrightarrow> take_bit k (of_flag b mod 2) = of_flag b mod 2" for k b by (simp add: of_flag_def)
  have "take_bit 64 w = w" unfolding w by (simp add: field_simps_bit t)
  then show "0 \<le> w" "w < 2 ^ 64" using take_bit_nonnegative [of 64 w] take_bit_int_less_exp [of 64 w] by simp_all
  assume h: "imm AND REG_HI_MASK = 0"
  note hb = hi_mask_bits [OF h]
  have ib: "take_bit 1 (drop_bit k imm) = 0" if "24 \<le> k" "k \<le> 27" for k
    using hb [OF that] by (simp only: take_bit_1_iff of_flag_def bit_drop_bit_eq o_def add_0_right if_False)
  have hd: "take_bit 1 (drop_bit 24 ?hi) = take_bit 1 (drop_bit 4 rd)" "take_bit 1 (drop_bit 25 ?hi) = take_bit 1 (drop_bit 4 ra)"
    "take_bit 1 (drop_bit 26 ?hi) = take_bit 1 (drop_bit 4 rb)" "take_bit 1 (drop_bit 27 ?hi) = take_bit 1 (drop_bit 4 rc)"
    unfolding reg_hi_def by (simp_all add: field_simps_bit z)
  have dd: "i_rd (decode w) = (decode_raw w FRd OR push_bit 4 (take_bit 1 (drop_bit 24 (i_imm (decode w)))))"
    "i_ra (decode w) = (decode_raw w FRa OR push_bit 4 (take_bit 1 (drop_bit 25 (i_imm (decode w)))))"
    "i_rb (decode w) = (decode_raw w FRb OR push_bit 4 (take_bit 1 (drop_bit 26 (i_imm (decode w)))))"
    "i_rc (decode w) = (decode_raw w FRc OR push_bit 4 (take_bit 1 (drop_bit 27 (i_imm (decode w)))))"
    by (simp_all only: decode_def Let_def insn.simps masks decode_raw_def raw_shift.simps REG_HI_SHIFT.simps)
  have di: "i_imm (decode w) = (imm OR ?hi)" by (simp only: d r take_bit_or hi)
  show "i_rd (decode w) = rd \<and> i_ra (decode w) = ra \<and> i_rb (decode w) = rb \<and> i_rc (decode w) = rc"
    unfolding dd di drop_bit_or take_bit_or hd ib d(4-7)
    by (simp add: ib r(1-4) reg_split del: One_nat_def)
qed

lemma decode_ranges:
  "0 \<le> i_rd (decode w) \<and> i_rd (decode w) < 32" "0 \<le> i_ra (decode w) \<and> i_ra (decode w) < 32"
  "0 \<le> i_rb (decode w) \<and> i_rb (decode w) < 32" "0 \<le> i_rc (decode w) \<and> i_rc (decode w) < 32"
  "0 \<le> i_op (decode w) \<and> i_op (decode w) < 256" "0 \<le> i_rnd (decode w) \<and> i_rnd (decode w) < 8"
  "0 \<le> i_imm (decode w) \<and> i_imm (decode w) < 2 ^ 32"
proof -
  have five: "0 \<le> (take_bit 4 a OR push_bit 4 (take_bit 1 b)) \<and> (take_bit 4 a OR push_bit 4 (take_bit 1 b)) < 32" for a b :: int
  proof -
    have "take_bit 5 (take_bit 4 a OR push_bit 4 (take_bit 1 b)) = (take_bit 4 a OR push_bit 4 (take_bit 1 b))"
      by (simp only: take_bit_or take_bit_push_bit take_bit_take_bit) simp
    then show ?thesis using take_bit_nonnegative [of 5 "take_bit 4 a OR push_bit 4 (take_bit 1 b)"]
        take_bit_int_less_exp [of 5 "take_bit 4 a OR push_bit 4 (take_bit 1 b)"] by simp
  qed
  show "0 \<le> i_rd (decode w) \<and> i_rd (decode w) < 32" "0 \<le> i_ra (decode w) \<and> i_ra (decode w) < 32"
    "0 \<le> i_rb (decode w) \<and> i_rb (decode w) < 32" "0 \<le> i_rc (decode w) \<and> i_rc (decode w) < 32"
    unfolding decode_def Let_def insn.simps masks by (rule five)+
  show "0 \<le> i_op (decode w) \<and> i_op (decode w) < 256" "0 \<le> i_rnd (decode w) \<and> i_rnd (decode w) < 8"
    "0 \<le> i_imm (decode w) \<and> i_imm (decode w) < 2 ^ 32"
    unfolding decode_def Let_def insn.simps masks
    using take_bit_int_less_exp [of 8 w] take_bit_int_less_exp [of 3 "drop_bit 24 w"] take_bit_int_less_exp [of 32 "drop_bit 32 w"]
    by simp_all
qed

lemma encode_decode:
  assumes "0 \<le> w" "w < 2 ^ 64" "i_rnd (decode w) \<le> 4"
  defines "d \<equiv> decode w"
  shows "encode (i_op d) (i_rd d) (i_ra d) (i_rb d) (i_rc d) (i_rnd d) (i_ka d) (i_kb d) (i_kc d) (i_ctrl d) (i_imm d) (i_kx d) = Inr w"
proof -
  have d: "i_op d = take_bit 8 w" "i_rnd d = take_bit 3 (drop_bit 24 w)" "i_imm d = take_bit 32 (drop_bit 32 w)"
    "i_rd d = (take_bit 4 (drop_bit 8 w) OR push_bit 4 (take_bit 1 (drop_bit 24 (i_imm d))))"
    "i_ra d = (take_bit 4 (drop_bit 12 w) OR push_bit 4 (take_bit 1 (drop_bit 25 (i_imm d))))"
    "i_rb d = (take_bit 4 (drop_bit 16 w) OR push_bit 4 (take_bit 1 (drop_bit 26 (i_imm d))))"
    "i_rc d = (take_bit 4 (drop_bit 20 w) OR push_bit 4 (take_bit 1 (drop_bit 27 (i_imm d))))"
    by (simp_all only: d_def decode_def Let_def insn.simps masks REG_HI_SHIFT.simps)
  have lo: "take_bit 4 (take_bit 4 a OR push_bit 4 (take_bit 1 b)) = take_bit 4 a" for a b :: int
    by (simp only: field_simps_bit) simp
  have hi: "take_bit 1 (drop_bit 4 (take_bit 4 a OR push_bit 4 (take_bit 1 b))) = take_bit 1 b" for a b :: int
    by (simp add: field_simps_bit)
  have fl: "of_flag (take_bit 1 (drop_bit k w) \<noteq> 0) = take_bit 1 (drop_bit k w)" for k
    by (simp only: take_bit_1_iff) (simp add: of_flag_def)
  have k: "of_flag (i_ka d) = take_bit 1 (drop_bit 27 w)" "of_flag (i_kb d) = take_bit 1 (drop_bit 28 w)"
    "of_flag (i_kc d) = take_bit 1 (drop_bit 29 w)" "of_flag (i_kx d) = take_bit 1 (drop_bit 30 w)"
    "of_flag (i_ctrl d) = take_bit 1 (drop_bit 31 w)"
    unfolding d_def decode_def Let_def insn.simps masks by (rule fl)+
  have own: "(i_imm d OR reg_hi (i_rd d) (i_ra d) (i_rb d) (i_rc d)) = i_imm d"
  proof (rule bit_eqI)
    fix n
    have "bit (push_bit k (take_bit 1 (drop_bit k (i_imm d)))) n \<Longrightarrow> bit (i_imm d) n" for k
      by (auto simp add: bit_push_bit_iff bit_take_bit_iff bit_drop_bit_eq simp del: take_bit_Suc_0)
    then show "bit (i_imm d OR reg_hi (i_rd d) (i_ra d) (i_rb d) (i_rc d)) n = bit (i_imm d) n"
      unfolding reg_hi_def d(4-7) hi by (auto simp only: bit_or_iff)
  qed
  have w: "take_bit 64 w = w" using assms(1,2) by (intro take_bit_nonneg_small)
  have j: "take_bit 8 w OR push_bit 8 (take_bit 4 (drop_bit 8 w)) = take_bit 12 w"
    "take_bit 12 w OR push_bit 12 (take_bit 4 (drop_bit 12 w)) = take_bit 16 w"
    "take_bit 16 w OR push_bit 16 (take_bit 4 (drop_bit 16 w)) = take_bit 20 w"
    "take_bit 20 w OR push_bit 20 (take_bit 4 (drop_bit 20 w)) = take_bit 24 w"
    "take_bit 24 w OR push_bit 24 (take_bit 3 (drop_bit 24 w)) = take_bit 27 w"
    "take_bit 27 w OR push_bit 27 (take_bit 1 (drop_bit 27 w)) = take_bit 28 w"
    "take_bit 28 w OR push_bit 28 (take_bit 1 (drop_bit 28 w)) = take_bit 29 w"
    "take_bit 29 w OR push_bit 29 (take_bit 1 (drop_bit 29 w)) = take_bit 30 w"
    "take_bit 30 w OR push_bit 30 (take_bit 1 (drop_bit 30 w)) = take_bit 31 w"
    "take_bit 31 w OR push_bit 31 (take_bit 1 (drop_bit 31 w)) = take_bit 32 w"
    "take_bit 32 w OR push_bit 32 (take_bit 32 (drop_bit 32 w)) = take_bit 64 w"
    unfolding join_fields by simp_all
  have "w = (i_op d OR push_bit 8 (take_bit 4 (i_rd d)) OR push_bit 12 (take_bit 4 (i_ra d))
          OR push_bit 16 (take_bit 4 (i_rb d)) OR push_bit 20 (take_bit 4 (i_rc d))
          OR push_bit 24 (i_rnd d) OR push_bit 27 (of_flag (i_ka d)) OR push_bit 28 (of_flag (i_kb d))
          OR push_bit 29 (of_flag (i_kc d)) OR push_bit 30 (of_flag (i_kx d))
          OR push_bit 31 (of_flag (i_ctrl d)) OR push_bit 32 (i_imm d))"
    by (simp only: d(1,2,4-7) lo k d(3) or.assoc [symmetric] j w)
  then show ?thesis
    unfolding encode_cases own using decode_ranges [of w] assms(3) unfolding d_def by simp
qed

section \<open>The assembler's words\<close>

text \<open>Where \<open>alu\<close> puts one operand's constant index under \<open>kx\<close>.\<close>

definition kx_imm :: "reg_field \<Rightarrow> bool \<Rightarrow> int \<Rightarrow> int" where
  "kx_imm f flag v = (if flag then push_bit (KX_SHIFT f) (take_bit 8 v) OR push_bit (KX9_SHIFT f) (take_bit 1 (drop_bit 8 v)) else 0)"

definition operand_ok :: "bool \<Rightarrow> bool \<Rightarrow> int \<Rightarrow> bool" where
  "operand_ok kx flag v \<longleftrightarrow> 0 \<le> v \<and> v < (if flag then if kx then KADDR_KX else KADDR_PLAIN else NREG)"

lemma alu_kx:
  assumes "operand_ok True ka ra" "operand_ok True kb rb" "operand_ok True kc rc"
  shows "alu op rd ra rb rc rnd ka kb kc True =
    encode op rd (if ka then 0 else ra) (if kb then 0 else rb) (if kc then 0 else rc) rnd ka kb kc False
      (kx_imm FRa ka ra OR kx_imm FRb kb rb OR kx_imm FRc kc rc) True"
proof -
  have k: "ka \<Longrightarrow> 0 \<le> ra \<and> ra < KADDR_KX" "kb \<Longrightarrow> 0 \<le> rb \<and> rb < KADDR_KX" "kc \<Longrightarrow> 0 \<le> rc \<and> rc < KADDR_KX"
    using assms by (auto simp: operand_ok_def)
  show ?thesis
    unfolding alu_def kx_imm_def masks using k
    by (cases ka; cases kb; cases kc) (simp_all add: or.assoc)
qed

lemma nine_bits: "0 \<le> v \<Longrightarrow> v < 512 \<Longrightarrow> take_bit 8 v OR push_bit 8 (take_bit 1 (drop_bit 8 v)) = v" for v :: int
  unfolding join_fields by (rule take_bit_nonneg_small) simp_all

lemma kx_imm_bounds: "take_bit 32 (kx_imm f flag v) = kx_imm f flag v"
proof -
  have "take_bit 32 (push_bit (KX_SHIFT f) (take_bit 8 v) OR push_bit (KX9_SHIFT f) (take_bit 1 (drop_bit 8 v))) =
      push_bit (KX_SHIFT f) (take_bit 8 v) OR push_bit (KX9_SHIFT f) (take_bit 1 (drop_bit 8 v))"
  proof -
    have "min (32 - KX_SHIFT f) 8 = 8" "min (32 - KX9_SHIFT f) 1 = 1" by (cases f; simp)+
    then show ?thesis by (simp only: take_bit_or take_bit_push_bit take_bit_take_bit)
  qed
  then show ?thesis by (simp add: kx_imm_def del: take_bit_or)
qed

lemma kx_imm_hi: "kx_imm FRa ka ra OR kx_imm FRb kb rb OR kx_imm FRc kc rc = imm \<Longrightarrow> imm AND REG_HI_MASK = 0"
proof -
  assume i: "kx_imm FRa ka ra OR kx_imm FRb kb rb OR kx_imm FRc kc rc = imm"
  have "\<not> bit imm n" if "24 \<le> n" "n < 28" for n
    using that unfolding i [symmetric] kx_imm_def
    by (auto simp: bit_or_iff bit_push_bit_iff bit_take_bit_iff simp del: take_bit_Suc_0 split: if_splits)
  then show ?thesis by (simp add: hi_mask_iff)
qed

lemma alu_sources:
  assumes "0 \<le> op" "op < 256" "0 \<le> rd" "rd < NREG" "0 \<le> rnd" "rnd \<le> 4"
    and k: "operand_ok kx ka ra" "operand_ok kx kb rb" "operand_ok kx kc rc"
  obtains w where "alu op rd ra rb rc rnd ka kb kc kx = Inr w" "sources (decode w) = [(ra, ka), (rb, kb), (rc, kc)]"
    "i_op (decode w) = op" "i_rd (decode w) = rd" "i_rnd (decode w) = rnd" "\<not> i_ctrl (decode w)" "0 \<le> w" "w < 2 ^ 64"
proof (cases kx)
  case False
  have r: "0 \<le> ra \<and> ra < 32" "0 \<le> rb \<and> rb < 32" "0 \<le> rc \<and> rc < 32"
    using k False by (auto simp: operand_ok_def NREG_def KADDR_PLAIN_def split: if_splits)
  have a: "alu op rd ra rb rc rnd ka kb kc kx = encode op rd ra rb rc rnd ka kb kc False 0 False"
    using k False by (auto simp: alu_def operand_ok_def)
  have "\<exists>w. encode op rd ra rb rc rnd ka kb kc False 0 False = Inr w"
    unfolding encode_cases using r assms by (simp add: NREG_def)
  then obtain w where w: "encode op rd ra rb rc rnd ka kb kc False 0 False = Inr w" by blast
  note d = decode_encode [OF w]
  show ?thesis by (rule that [OF a [THEN trans, OF w]]) (use d in \<open>simp_all add: sources_def\<close>)
next
  case True
  note a = alu_kx [OF k [unfolded True [THEN eqTrueI]], of op rd rnd]
  define imm where "imm = (kx_imm FRa ka ra OR kx_imm FRb kb rb OR kx_imm FRc kc rc)"
  have im: "0 \<le> imm" "imm < 2 ^ 32" and hi: "imm AND REG_HI_MASK = 0"
  proof -
    have "take_bit 32 imm = imm" by (simp only: imm_def take_bit_or kx_imm_bounds)
    then show "0 \<le> imm" "imm < 2 ^ 32" using take_bit_nonnegative [of 32 imm] take_bit_int_less_exp [of 32 imm] by simp_all
    show "imm AND REG_HI_MASK = 0" by (rule kx_imm_hi [OF imm_def [symmetric]])
  qed
  have r: "flag \<Longrightarrow> 0 \<le> v \<and> v < 512" "0 \<le> (if flag then 0 else v) \<and> (if flag then 0 else v) < 32" if "operand_ok kx flag v" for flag v
    using that True by (auto simp: operand_ok_def NREG_def KADDR_KX_def split: if_splits)
  have "\<exists>w. encode op rd (if ka then 0 else ra) (if kb then 0 else rb) (if kc then 0 else rc) rnd ka kb kc False imm True = Inr w"
    unfolding encode_cases using r [OF k(1)] r [OF k(2)] r [OF k(3)] assms im by (simp add: NREG_def)
  then obtain w where w: "encode op rd (if ka then 0 else ra) (if kb then 0 else rb) (if kc then 0 else rc) rnd ka kb kc False imm True = Inr w" by blast
  note d = decode_encode [OF w]
  let ?im = "imm OR reg_hi rd (if ka then 0 else ra) (if kb then 0 else rb) (if kc then 0 else rc)"
  define I where "I = ?im"
  note bits = bit_or_iff bit_push_bit_iff bit_take_bit_iff bit_drop_bit_eq
  have ra: "ka \<Longrightarrow> take_bit 8 (drop_bit 0 I) = take_bit 8 ra" "ka \<Longrightarrow> take_bit 1 (drop_bit 28 I) = take_bit 1 (drop_bit 8 ra)"
    by (rule bit_eqI; auto simp: I_def imm_def kx_imm_def reg_hi_def bits simp del: take_bit_Suc_0)+
  have rb: "kb \<Longrightarrow> take_bit 8 (drop_bit 8 I) = take_bit 8 rb" "kb \<Longrightarrow> take_bit 1 (drop_bit 29 I) = take_bit 1 (drop_bit 8 rb)"
    by (rule bit_eqI; auto simp: I_def imm_def kx_imm_def reg_hi_def bits simp del: take_bit_Suc_0)+
  have rc: "kc \<Longrightarrow> take_bit 8 (drop_bit 16 I) = take_bit 8 rc" "kc \<Longrightarrow> take_bit 1 (drop_bit 30 I) = take_bit 1 (drop_bit 8 rc)"
    by (rule bit_eqI; auto simp: I_def imm_def kx_imm_def reg_hi_def bits simp del: take_bit_Suc_0)+
  have x: "ka \<Longrightarrow> (take_bit 8 (drop_bit 0 I) OR push_bit 8 (take_bit 1 (drop_bit 28 I)), True) = (ra, ka)"
    "kb \<Longrightarrow> (take_bit 8 (drop_bit 8 I) OR push_bit 8 (take_bit 1 (drop_bit 29 I)), True) = (rb, kb)"
    "kc \<Longrightarrow> (take_bit 8 (drop_bit 16 I) OR push_bit 8 (take_bit 1 (drop_bit 30 I)), True) = (rc, kc)"
    using r [OF k(1)] r [OF k(2)] r [OF k(3)] by (simp_all only: ra rb rc nine_bits simp_thms)
  have y: "(if ka then (take_bit 8 (drop_bit 0 I) OR push_bit 8 (take_bit 1 (drop_bit 28 I)), True) else (if ka then 0 else ra, False)) = (ra, ka)"
    "(if kb then (take_bit 8 (drop_bit 8 I) OR push_bit 8 (take_bit 1 (drop_bit 29 I)), True) else (if kb then 0 else rb, False)) = (rb, kb)"
    "(if kc then (take_bit 8 (drop_bit 16 I) OR push_bit 8 (take_bit 1 (drop_bit 30 I)), True) else (if kc then 0 else rc, False)) = (rc, kc)"
    using x by (cases ka; cases kb; cases kc; simp only: if_True if_False simp_thms)+
  have "sources (decode w) = [(ra, ka), (rb, kb), (rc, kc)]"
    unfolding sources_def masks list.map KX_SHIFT.simps KX9_SHIFT.simps reg_of.simps k_of.simps d(3-6,8) I_def [symmetric] if_True
    using d(15) [OF hi] by (simp only: y)
  show ?thesis
    by (rule that [OF a [folded imm_def, THEN trans, OF w, folded True [THEN eqTrueI]]]) (use d hi \<open>sources (decode w) = _\<close> in simp_all)
qed

lemma ctrl_word_decode:
  assumes "0 \<le> op" "op < 256" "rd \<in> {0..<NREG}" "ra \<in> {0..<NREG}" "rb \<in> {0..<NREG}" "0 \<le> imm" "imm < 2 ^ 32"
    and h: "imm AND REG_HI_MASK = 0"
  obtains w where "ctrl_word op rd ra rb imm = Inr w" "i_ctrl (decode w)" "i_op (decode w) = op" "i_rd (decode w) = rd"
    "i_ra (decode w) = ra" "i_rb (decode w) = rb" "i_rc (decode w) = 0" "take_bit 24 (i_imm (decode w)) = take_bit 24 imm"
    "0 \<le> w" "w < 2 ^ 64"
proof -
  have "\<exists>w. encode op rd ra rb 0 RND_RNE False False False True imm False = Inr w"
    unfolding encode_cases using assms by (simp add: NREG_def rnd_defs)
  then obtain w where w: "encode op rd ra rb 0 RND_RNE False False False True imm False = Inr w" by blast
  note d = decode_encode [OF w]
  have "take_bit 24 (reg_hi rd ra rb 0) = 0" by (simp add: reg_hi_def field_simps_bit)
  then show ?thesis using that [of w] w d h by (simp add: ctrl_word_def take_bit_or)
qed

lemma step_field:
  assumes "step_imm step = Inr imm"
  shows "imm = take_bit 12 step" "imm AND REG_HI_MASK = 0" "0 \<le> imm" "imm < 2 ^ 32"
    and "take_bit 24 i = take_bit 24 imm \<Longrightarrow> (let s = i AND STEP_MASK in if s AND STEP_SIGN \<noteq> 0 then s - push_bit STEP_BITS 1 else s) = step"
proof -
  have c: "STEP_MASK = 4095" "STEP_SIGN = 2 ^ 11" "push_bit STEP_BITS 1 = (4096 :: int)"
    by (simp_all add: STEP_MASK_def STEP_SIGN_def STEP_BITS_def push_bit_eq_mult)
  have s: "- 2048 \<le> step" "step \<le> 2047" and i: "imm = take_bit 12 step"
    using assms masks(7) [of step] by (auto simp: step_imm_def c STEP_MIN_def STEP_MAX_def split: if_splits)
  show "imm = take_bit 12 step" by (rule i)
  have l: "imm < 2 ^ 12" "0 \<le> imm" using take_bit_int_less_exp [of 12 step] i by simp_all
  then show "0 \<le> imm" "imm < 2 ^ 32" by simp_all
  show "imm AND REG_HI_MASK = 0" by (simp add: hi_mask_iff i bit_take_bit_iff)
  assume "take_bit 24 i = take_bit 24 imm"
  then have "take_bit 12 (take_bit 24 i) = take_bit 12 (take_bit 24 imm)" by simp
  then have t: "i AND STEP_MASK = take_bit 12 step" unfolding c masks by (simp add: i)
  have v: "take_bit 12 step = (if step < 0 then step + 4096 else step)"
  proof (cases "step < 0")
    case True
    have "step mod 4096 = (step + 4096) mod 4096" by simp
    also have "\<dots> = step + 4096" using s True by (intro mod_pos_pos_trivial) simp_all
    finally show ?thesis using True by (simp add: take_bit_eq_mod)
  qed (use s in \<open>simp add: take_bit_eq_mod\<close>)
  have b: "0 \<le> x \<Longrightarrow> x < 2 ^ 12 \<Longrightarrow> (x AND STEP_SIGN \<noteq> 0) = (2 ^ 11 \<le> x)" for x
    using and_top [of x 11] unfolding c by simp
  show "(let s = i AND STEP_MASK in if s AND STEP_SIGN \<noteq> 0 then s - push_bit STEP_BITS 1 else s) = step"
    unfolding Let_def t c(3) using b [of "take_bit 12 step"] l s v by (simp add: i)
qed

lemma stx_decode:
  assumes "ra \<in> {0..<NREG}" "rb \<in> {0..<NREG}" "STEP_MIN \<le> step" "step \<le> STEP_MAX"
  obtains w where "stx ra rb step = Inr w" "i_ctrl (decode w)" "i_op (decode w) = STX" "i_ra (decode w) = ra" "i_rb (decode w) = rb"
    "index_step (decode w) = step" "0 \<le> w" "w < 2 ^ 64"
proof -
  obtain imm where i: "step_imm step = Inr imm" using assms by (simp add: step_imm_def)
  note f = step_field [OF i]
  obtain w where w: "ctrl_word STX 0 ra rb imm = Inr w" "i_ctrl (decode w)" "i_op (decode w) = STX" "i_ra (decode w) = ra" "i_rb (decode w) = rb"
    "take_bit 24 (i_imm (decode w)) = take_bit 24 imm" "0 \<le> w" "w < 2 ^ 64"
    by (rule ctrl_word_decode [of STX 0 ra rb imm]) (use assms f in \<open>simp_all add: STX_def NREG_def\<close>)
  have "index_step (decode w) = step" unfolding index_step_def using w(2,3) f(5) [OF w(6)] by simp
  then show ?thesis using that [of w] w i by (simp add: stx_def)
qed

lemma ldx_decode:
  assumes "rd \<in> {0..<NREG}" "rb \<in> {0..<NREG}" "STEP_MIN \<le> step" "step \<le> STEP_MAX"
  obtains w where "ldx rd rb step = Inr w" "i_ctrl (decode w)" "i_op (decode w) = LDX" "i_rd (decode w) = rd" "i_rb (decode w) = rb"
    "index_step (decode w) = step" "0 \<le> w" "w < 2 ^ 64"
proof -
  obtain imm where i: "step_imm step = Inr imm" using assms by (simp add: step_imm_def)
  note f = step_field [OF i]
  obtain w where w: "ctrl_word LDX rd 0 rb imm = Inr w" "i_ctrl (decode w)" "i_op (decode w) = LDX" "i_rd (decode w) = rd" "i_rb (decode w) = rb"
    "take_bit 24 (i_imm (decode w)) = take_bit 24 imm" "0 \<le> w" "w < 2 ^ 64"
    by (rule ctrl_word_decode [of LDX rd 0 rb imm]) (use assms f in \<open>simp_all add: LDX_def NREG_def\<close>)
  have "index_step (decode w) = step" unfolding index_step_def using w(2,3) f(5) [OF w(6)] by simp
  then show ?thesis using that [of w] w i by (simp add: ldx_def)
qed

end
