(* ===== verification/SeqProgram.thy ===== *)
theory SeqProgram
  imports SeqIsa
begin

text \<open>
  The class \<open>Program\<close> of \<^verbatim>\<open>python/cft_golden/seq.py\<close>: the header, the constant bank and the instruction
  stream, the loader's validation, and the byte image. A program object is the record \<open>program\<close>;
  the constructor, which validates, is \<open>mk_program\<close>, and every method that may raise returns a
  \<open>result\<close>. The lemmas say what validation guarantees (a bracket structure in which loops and quiet
  regions nest, operands inside the bank, a bound on the instructions a run executes) and that an
  image read back is the program it was written from.
\<close>

section \<open>The program object\<close>

record program =
  p_fmt :: fp_format
  p_insns :: "int list"
  p_consts :: "int list"
  p_max_deposits :: int
  p_flags :: int
  p_n_scratch_in :: int
  p_n_scratch_out :: int
  p_scratch_depth :: int
  p_n_consts :: int

definition n_consts :: "program \<Rightarrow> int" where "n_consts p = p_n_consts p"
definition bank_ext :: "program \<Rightarrow> bool" where "bank_ext p \<longleftrightarrow> truthy (p_flags p AND FLAG_BANK_EXT)"
definition scratch_io :: "program \<Rightarrow> bool" where "scratch_io p \<longleftrightarrow> truthy (p_flags p AND FLAG_SCRATCH_IO)"

definition scratch_io_word :: "program \<Rightarrow> int" where
  "scratch_io_word p = (p_n_scratch_in p AND 0xFFFF) OR push_bit 16 (p_n_scratch_out p AND 0xFFFF)"

section \<open>Validation\<close>

definition check_operands :: "program \<Rightarrow> insn \<Rightarrow> unit result" where
  "check_operands p d =
    (if i_kx d \<and> \<not> (i_ka d \<or> i_kb d \<or> i_kc d) then Inl ProgramError
     else if truthy (i_imm d AND KX_RESERVED) then Inl ProgramError
     else if \<not> i_kx d \<and> truthy (i_imm d AND NOT REG_HI_MASK AND 0xFFFFFFFF) then Inl ProgramError
     else bind_r (fold_r (\<lambda>_ key.
            if k_of d key \<and> truthy (drop_bit (REG_HI_SHIFT key) (i_imm d) AND 1) then Inl ProgramError else Inr ())
            () [FRa, FRb, FRc]) (\<lambda>_.
     fold_r (\<lambda>_ key.
       let byte = drop_bit (KX_SHIFT key) (i_imm d) AND 0xFF; hi9 = drop_bit (KX9_SHIFT key) (i_imm d) AND 1 in
       if i_kx d \<and> k_of d key then
         (if truthy (reg_of d key) then Inl ProgramError
          else if n_consts p \<le> (byte OR push_bit 8 hi9) then Inl ProgramError else Inr ())
       else if i_kx d then
         (if truthy byte then Inl ProgramError else if truthy hi9 then Inl ProgramError else Inr ())
       else if k_of d key then
         (if n_consts p \<le> reg_of d key then Inl ProgramError else Inr ())
       else Inr ()) () [FRa, FRb, FRc]))"

text \<open>The register fields each control code reads (the trip count of \<open>REPEAT\<close> is not one).\<close>

definition used_fields :: "int \<rightharpoonup> reg_field list" where
  "used_fields = map_of
    [(HALT, []), (REPEAT, []), (ENDREP, []), (DEPOSIT, [FRa]), (SETACT, [FRa]), (ACTALL, []),
     (STL, [FRa]), (LDL, [FRd]), (STX, [FRa, FRb]), (LDX, [FRd, FRb]),
     (AUGADD, [FRd, FRa, FRb]), (AUGERR, [FRd, FRa, FRb]), (QUIET, []), (ENDQUIET, []), (RAISE, [FRa])]"

text \<open>The fields of a control instruction: what it does not read must be zero, and a static slot is in range.\<close>

definition check_control :: "program \<Rightarrow> int \<Rightarrow> unit result" where
  "check_control p word =
    (let d = decode word; code = i_op d in
     if CTRL_NAMES code = None then Inl ProgramError
     else case used_fields code of None \<Rightarrow> Inl KeyError | Some used \<Rightarrow>
     if list_ex (\<lambda>f. f \<notin> set used \<and> truthy (decode_raw word f)) [FRd, FRa, FRb, FRc] then Inl ProgramError
     else if truthy (i_rnd d) \<or> i_ka d \<or> i_kb d \<or> i_kc d \<or> i_kx d then Inl ProgramError
     else case IMM_ALLOWED code of None \<Rightarrow> Inl KeyError | Some allowed \<Rightarrow>
     if truthy (i_imm d AND NOT allowed AND 0xFFFFFFFF) then Inl ProgramError
     else if code \<in> {STL, LDL} \<and> p_scratch_depth p \<le> i_imm d AND SCRATCH_SLOT_MASK then Inl ProgramError
     else Inr ())"

text \<open>
  The scan's variables: the loops and the quiet regions open, the brackets open with their
  addresses, innermost last, the multiplicity of the current nesting level, and the worst-case count.
\<close>

record vstate =
  v_depth :: int
  v_qdepth :: int
  v_brackets :: "(int \<times> nat) list"
  v_mult :: "int list"
  v_worst :: int

definition vstart :: vstate where
  "vstart = \<lparr>v_depth = 0, v_qdepth = 0, v_brackets = [], v_mult = [1], v_worst = 0\<rparr>"

definition check_nesting :: "nat \<Rightarrow> insn \<Rightarrow> vstate \<Rightarrow> vstate result" where
  "check_nesting pc d v =
    (let code = i_op d in
     if code = REPEAT then
       (if i_imm d = 0 then Inl ProgramError
        else if MAX_LOOP_DEPTH < v_depth v + 1 then Inl ProgramError
        else Inr (v\<lparr>v_depth := v_depth v + 1, v_mult := v_mult v @ [last (v_mult v) * i_imm d],
                   v_brackets := v_brackets v @ [(REPEAT, pc)]\<rparr>))
     else if code = ENDREP then
       (if v_depth v - 1 < 0 then Inl ProgramError
        else if v_brackets v = [] then Inl IndexError
        else if fst (last (v_brackets v)) \<noteq> REPEAT then Inl ProgramError
        else Inr (v\<lparr>v_depth := v_depth v - 1, v_brackets := butlast (v_brackets v), v_mult := butlast (v_mult v)\<rparr>))
     else if code = QUIET then
       (if MAX_QUIET_DEPTH < v_qdepth v + 1 then Inl ProgramError
        else Inr (v\<lparr>v_qdepth := v_qdepth v + 1, v_brackets := v_brackets v @ [(QUIET, pc)]\<rparr>))
     else if code = ENDQUIET then
       (if v_qdepth v = 0 then Inl ProgramError
        else if v_brackets v = [] then Inl IndexError
        else if fst (last (v_brackets v)) \<noteq> QUIET then Inl ProgramError
        else Inr (v\<lparr>v_qdepth := v_qdepth v - 1, v_brackets := butlast (v_brackets v)\<rparr>))
     else if code = ACTALL \<and> 0 < v_depth v then Inl ProgramError
     else if code = HALT \<and> 0 < v_depth v then Inl ProgramError
     else Inr v)"

definition validate_insn :: "program \<Rightarrow> vstate \<Rightarrow> nat \<times> int \<Rightarrow> vstate result" where
  "validate_insn p v = (\<lambda>(pc, word).
    let d = decode word; v1 = v\<lparr>v_worst := v_worst v + last (v_mult v)\<rparr> in
    if \<not> i_ctrl d then
      bind_r (check_operands p d) (\<lambda>_. if 4 < i_rnd d then Inl ProgramError else Inr v1)
    else bind_r (check_control p word) (\<lambda>_.
      bind_r (check_nesting pc d v1) (\<lambda>v2.
      if i_op d = HALT \<and> truthy (v_qdepth v2) then Inl ProgramError
      else if MAX_INSTRUCTIONS < v_worst v2 then Inl ProgramError
      else Inr v2)))"

definition check_header :: "program \<Rightarrow> unit result" where
  "check_header p =
    (if \<not> (0 \<le> p_max_deposits p \<and> p_max_deposits p \<le> MAX_DEPOSITS) then Inl ProgramError
     else if KADDR_KX < n_consts p then Inl ProgramError
     else if list_ex (\<lambda>k. \<not> (0 \<le> k \<and> k < push_bit (width (p_fmt p)) 1)) (p_consts p) then Inl ProgramError
     else if truthy (p_flags p AND NOT FLAGS_KNOWN AND 0xFFFFFFFF) then Inl ProgramError
     else fold_r (\<lambda>_ v.
       if \<not> (0 \<le> v \<and> v \<le> 0xFFFF) then Inl ProgramError
       else if \<not> scratch_io p then (if truthy v then Inl ProgramError else Inr ())
       else if p_scratch_depth p < v then Inl ProgramError
       else Inr ()) () [p_n_scratch_in p, p_n_scratch_out p])"

definition validate :: "program \<Rightarrow> unit result" where
  "validate p =
    bind_r (check_header p) (\<lambda>_.
    bind_r (fold_r (validate_insn p) vstart (enumerate 0 (p_insns p))) (\<lambda>v.
    if v_depth v \<noteq> 0 then Inl ProgramError
    else if v_qdepth v \<noteq> 0 then Inl ProgramError
    else if MAX_INSTRUCTIONS < v_worst v then Inl ProgramError
    else Inr ()))"

definition mk_program ::
    "fp_format \<Rightarrow> int list \<Rightarrow> int list \<Rightarrow> int \<Rightarrow> int \<Rightarrow> int option \<Rightarrow> int \<Rightarrow> int \<Rightarrow> int \<Rightarrow> program result" where
  "mk_program fmt insns consts max_deposits flags nc n_scratch_in n_scratch_out scratch_depth =
    bind_r (check_scratch_depth scratch_depth) (\<lambda>depth.
    let p = \<lparr>p_fmt = fmt, p_insns = insns, p_consts = consts, p_max_deposits = max_deposits, p_flags = flags,
             p_n_scratch_in = n_scratch_in, p_n_scratch_out = n_scratch_out, p_scratch_depth = depth, p_n_consts = 0\<rparr>
    in bind_r (if truthy (flags AND FLAG_BANK_EXT) then
                 (if consts \<noteq> [] then Inl ProgramError
                  else Inr (p\<lparr>p_n_consts := (case nc of None \<Rightarrow> 0 | Some c \<Rightarrow> c)\<rparr>))
               else (if nc \<noteq> None \<and> the nc \<noteq> int (length consts) then Inl ProgramError
                  else Inr (p\<lparr>p_n_consts := int (length consts)\<rparr>)))
      (\<lambda>p. bind_r (validate p) (\<lambda>_. Inr p)))"

section \<open>Bytes\<close>

text \<open>Python's \<open>int.to_bytes\<close> and \<open>int.from_bytes\<close>, little-endian, and the \<open>struct\<close> formats \<open><I\<close> and \<open><Q\<close>.\<close>

primrec le_bytes :: "nat \<Rightarrow> int \<Rightarrow> int list" where
  "le_bytes 0 v = []"
| "le_bytes (Suc n) v = (v AND 0xFF) # le_bytes n (drop_bit 8 v)"

definition to_bytes_le :: "int \<Rightarrow> nat \<Rightarrow> int list result" where
  "to_bytes_le v n = (if 0 \<le> v \<and> v < push_bit (8 * n) 1 then Inr (le_bytes n v) else Inl OverflowError)"

definition from_bytes_le :: "int list \<Rightarrow> int" where
  "from_bytes_le bs = foldr (\<lambda>b acc. b + push_bit 8 acc) bs 0"

definition pack_uint :: "nat \<Rightarrow> int \<Rightarrow> int list result" where
  "pack_uint n v = (if 0 \<le> v \<and> v < push_bit (8 * n) 1 then Inr (le_bytes n v) else Inl StructError)"

definition join_r :: "int list result list \<Rightarrow> int list result" where
  "join_r rs = fold_r (\<lambda>out r. bind_r r (\<lambda>b. Inr (out @ b))) [] rs"

definition check_bank :: "program \<Rightarrow> int list option \<Rightarrow> unit result" where
  "check_bank p bank =
    (if \<not> bank_ext p then (if bank \<noteq> None then Inl ProgramError else Inr ())
     else case bank of None \<Rightarrow> Inl ProgramError
     | Some ks \<Rightarrow> if int (length ks) \<noteq> n_consts p then Inl ProgramError
         else if list_ex (\<lambda>k. \<not> (0 \<le> k \<and> k < push_bit (width (p_fmt p)) 1)) ks then Inl ProgramError
         else Inr ())"

definition bank_bytes :: "program \<Rightarrow> int list option \<Rightarrow> int list result" where
  "bank_bytes p bank =
    bind_r (check_bank p bank) (\<lambda>_.
    case bank of None \<Rightarrow> Inl TypeError
    | Some ks \<Rightarrow> join_r (map (\<lambda>k. to_bytes_le k (width (p_fmt p) div 8)) ks))"

definition scratch_bytes :: "program \<Rightarrow> int list \<Rightarrow> int list result" where
  "scratch_bytes p vs = join_r (map (\<lambda>v. to_bytes_le v (width (p_fmt p) div 8)) vs)"

definition check_scratch_in :: "program \<Rightarrow> int list option \<Rightarrow> int \<Rightarrow> unit result" where
  "check_scratch_in p scratch_in n =
    (let want = (if scratch_io p then p_n_scratch_in p else 0) * n in
     if \<not> truthy want then (if scratch_in \<noteq> None then Inl ProgramError else Inr ())
     else case scratch_in of None \<Rightarrow> Inl ProgramError
     | Some vs \<Rightarrow> if int (length vs) \<noteq> want then Inl ProgramError
         else if list_ex (\<lambda>v. \<not> (0 \<le> v \<and> v < push_bit (width (p_fmt p)) 1)) vs then Inl ProgramError
         else Inr ())"

definition to_bytes :: "program \<Rightarrow> int list result" where
  "to_bytes p =
    (let ebytes = width (p_fmt p) div 8 in
     case PREC_CODE (fmt_name (p_fmt p)) of None \<Rightarrow> Inl KeyError | Some code \<Rightarrow>
     bind_r (join_r (map (pack_uint 4) [MAGIC, VERSION, int (length (p_insns p)), n_consts p, p_max_deposits p,
                                       code, p_flags p, scratch_io_word p])) (\<lambda>header.
     bind_r (join_r (map (\<lambda>k. to_bytes_le k ebytes) (p_consts p))) (\<lambda>cs.
     bind_r (join_r (map (pack_uint 8) (p_insns p))) (\<lambda>ws.
     Inr (header @ cs @ ws)))))"

text \<open>
  The hash of \<open>digest\<close> is the library's SHA-256 in hexadecimal, here the parameter \<open>sha256\<close> of the
  bytes: updating a hash twice is hashing the concatenation.
\<close>

definition digest :: "(int list \<Rightarrow> string) \<Rightarrow> program \<Rightarrow> int list option \<Rightarrow> string result" where
  "digest sha256 p bank =
    bind_r (to_bytes p) (\<lambda>image.
    case bank of None \<Rightarrow> Inr (sha256 image)
    | Some ks \<Rightarrow> bind_r (bank_bytes p (Some ks)) (\<lambda>b. Inr (sha256 (image @ b))))"

definition from_bytes :: "int list \<Rightarrow> int \<Rightarrow> program result" where
  "from_bytes data scratch_depth =
    (if int (length data) < HEADER_WORDS * 4 then Inl ProgramError
     else let word = (\<lambda>i. from_bytes_le (slice data (4 * i) (4 * i + 4)));
              magic = word 0; ver = word 1; n_insns = word 2; nc = word 3; maxdep = word 4;
              prec = word 5; flags = word 6; word7 = word 7
     in if magic \<noteq> MAGIC then Inl ProgramError
     else if ver \<noteq> VERSION then Inl ProgramError
     else if truthy (flags AND NOT FLAGS_KNOWN AND 0xFFFFFFFF) then Inl ProgramError
     else if \<not> truthy (flags AND FLAG_SCRATCH_IO) \<and> truthy word7 then Inl ProgramError
     else case find (\<lambda>(k, v). v = prec) PREC_ITEMS of None \<Rightarrow> Inl ProgramError | Some (name, _) \<Rightarrow>
     case FORMATS name of None \<Rightarrow> Inl KeyError | Some fmt \<Rightarrow>
     let ebytes = width fmt div 8;
         off = nat (HEADER_WORDS * 4);
         n_stored = (if truthy (flags AND FLAG_BANK_EXT) then 0 else nc);
         want = int off + n_stored * int ebytes + n_insns * INSN_BYTES
     in if int (length data) \<noteq> want then Inl ProgramError
     else let consts = map (\<lambda>i. from_bytes_le (slice data (off + i * ebytes) (off + (i + 1) * ebytes))) [0..<nat n_stored];
              off2 = off + nat n_stored * ebytes;
              insns = map (\<lambda>i. from_bytes_le (slice data (off2 + i * nat INSN_BYTES) (off2 + (i + 1) * nat INSN_BYTES)))
                        [0..<nat n_insns]
     in mk_program fmt insns consts maxdep flags (Some nc) (word7 AND 0xFFFF) (drop_bit 16 word7 AND 0xFFFF) scratch_depth)"

section \<open>An image read back is its program\<close>

lemma length_le_bytes [simp]: "length (le_bytes n v) = n"
  by (induction n arbitrary: v) simp_all

lemma from_le_bytes: "from_bytes_le (le_bytes n v) = take_bit (8 * n) v"
proof (induction n arbitrary: v)
  case (Suc n)
  have "from_bytes_le (le_bytes (Suc n) v) = take_bit 8 v + push_bit 8 (take_bit (8 * n) (drop_bit 8 v))"
    using Suc by (simp add: from_bytes_le_def masks)
  also have "\<dots> = take_bit 8 v OR push_bit 8 (take_bit (8 * n) (drop_bit 8 v))"
    by (rule disjunctive_add) (simp add: bit_take_bit_iff bit_push_bit_iff)
  also have "\<dots> = take_bit (8 * Suc n) v" unfolding join_fields by simp
  finally show ?case .
qed (simp add: from_bytes_le_def)

lemma from_le_bytes_fit: "0 \<le> v \<Longrightarrow> v < 2 ^ (8 * n) \<Longrightarrow> from_bytes_le (le_bytes n v) = v"
  by (simp add: from_le_bytes take_bit_nonneg_small)

lemma join_r_map:
  "(\<And>x. x \<in> set xs \<Longrightarrow> f x = Inr (g x)) \<Longrightarrow> join_r (map f xs) = Inr (concat (map g xs))"
proof -
  assume f: "\<And>x. x \<in> set xs \<Longrightarrow> f x = Inr (g x)"
  have "fold_r (\<lambda>out r. bind_r r (\<lambda>b. Inr (out @ b))) out (map f xs) = Inr (out @ concat (map g xs))" for out
    using f by (induction xs arbitrary: out) simp_all
  from this [of "[]"] show ?thesis by (simp add: join_r_def)
qed

lemma pack_uint_ok: "0 \<le> v \<Longrightarrow> v < 2 ^ (8 * n) \<Longrightarrow> pack_uint n v = Inr (le_bytes n v)"
  and to_bytes_le_ok: "0 \<le> v \<Longrightarrow> v < 2 ^ (8 * n) \<Longrightarrow> to_bytes_le v n = Inr (le_bytes n v)"
  by (simp_all add: pack_uint_def to_bytes_le_def push_bit_eq_mult)

lemma length_blocks: "(\<And>x. length (g x) = k) \<Longrightarrow> length (concat (map g xs)) = length xs * k"
  by (induction xs) simp_all

lemma slice_block:
  assumes k: "\<And>x. length (g x) = k" and i: "i < length xs" and l: "length pre = off"
  shows "slice (pre @ concat (map g xs) @ post) (off + i * k) (off + (i + 1) * k) = g (xs ! i)"
proof -
  have "xs = take i xs @ xs ! i # drop (Suc i) xs" using i by (simp add: id_take_nth_drop)
  then have c: "concat (map g xs) = concat (map g (take i xs)) @ g (xs ! i) @ concat (map g (drop (Suc i) xs))"
    by (metis concat.simps(2) concat_append list.simps(9) map_append)
  have n: "length (concat (map g (take i xs))) = i * k" using i by (simp add: length_blocks [of g, OF k])
  show ?thesis unfolding c slice_def using n l k by (simp add: take_drop [symmetric])
qed

lemma slices_back:
  assumes "\<And>x. length (g x) = k" "length pre = off" "\<And>x. x \<in> set xs \<Longrightarrow> h (g x) = x"
  shows "map (\<lambda>i. h (slice (pre @ concat (map g xs) @ post) (off + i * k) (off + (i + 1) * k))) [0..<length xs] = xs"
  using assms(3) by (intro nth_equalityI) (simp_all add: slice_block [OF assms(1) _ assms(2), simplified])

lemma check_header_facts:
  assumes "check_header p = Inr ()"
  shows "0 \<le> p_max_deposits p" "p_max_deposits p \<le> MAX_DEPOSITS" "n_consts p \<le> KADDR_KX"
    "k \<in> set (p_consts p) \<Longrightarrow> 0 \<le> k \<and> k < 2 ^ width (p_fmt p)"
    "p_flags p AND NOT FLAGS_KNOWN AND 0xFFFFFFFF = 0"
    "0 \<le> p_n_scratch_in p \<and> p_n_scratch_in p \<le> 0xFFFF" "0 \<le> p_n_scratch_out p \<and> p_n_scratch_out p \<le> 0xFFFF"
    "\<not> scratch_io p \<Longrightarrow> p_n_scratch_in p = 0 \<and> p_n_scratch_out p = 0"
    "scratch_io p \<Longrightarrow> p_n_scratch_in p \<le> p_scratch_depth p \<and> p_n_scratch_out p \<le> p_scratch_depth p"
  using assms unfolding check_header_def list_ex_iff by (auto simp: push_bit_eq_mult split: if_splits)

lemma mk_program_cases:
  assumes "mk_program fmt insns consts md fl nc nin nout depth = Inr p"
  shows "validate p = Inr ()" "p_fmt p = fmt" "p_insns p = insns" "p_consts p = consts" "p_max_deposits p = md" "p_flags p = fl"
    "p_n_scratch_in p = nin" "p_n_scratch_out p = nout" "p_scratch_depth p = depth" "check_scratch_depth depth = Inr depth"
    "bank_ext p \<Longrightarrow> consts = []" "\<not> bank_ext p \<Longrightarrow> n_consts p = int (length consts)"
    "mk_program fmt insns consts md fl (Some (n_consts p)) nin nout depth = Inr p"
  using assms unfolding mk_program_def
  by (auto simp: bind_r_eq_Inr check_scratch_depth_def bank_ext_def n_consts_def Let_def split: if_splits)

lemma validate_header: "validate p = Inr () \<Longrightarrow> check_header p = Inr ()"
  by (auto simp: validate_def bind_r_eq_Inr)

lemma scratch_io_halves:
  fixes a b :: int
  assumes "0 \<le> a" "a \<le> 0xFFFF" "0 \<le> b" "b \<le> 0xFFFF"
  defines "w \<equiv> (a AND 0xFFFF) OR push_bit 16 (b AND 0xFFFF)"
  shows "w AND 0xFFFF = a" "drop_bit 16 w AND 0xFFFF = b" "0 \<le> w" "w < 2 ^ 32"
proof -
  have m: "x AND 0xFFFF = take_bit 16 x" for x :: int by (simp only: take_bit_eq_mask mask_eq_exp_minus_1) simp
  have t: "take_bit 16 a = a" "take_bit 16 b = b" using assms(1-4) by (simp_all add: take_bit_nonneg_small)
  have w: "w = take_bit 16 a OR push_bit 16 (take_bit 16 b)" by (simp add: w_def m)
  have "w AND 0xFFFF = take_bit 16 a" "drop_bit 16 w AND 0xFFFF = take_bit 16 b" unfolding m w by (simp_all add: field_simps_bit)
  then show "w AND 0xFFFF = a" "drop_bit 16 w AND 0xFFFF = b" unfolding t .
  have "take_bit 32 w = w" unfolding w by (simp add: field_simps_bit)
  then show "0 \<le> w" "w < 2 ^ 32" using take_bit_nonnegative [of 32 w] take_bit_int_less_exp [of 32 w] by simp_all
qed

definition header_of :: "program \<Rightarrow> int \<Rightarrow> int list" where
  "header_of p code = [MAGIC, VERSION, int (length (p_insns p)), n_consts p, p_max_deposits p, code, p_flags p, scratch_io_word p]"

definition image_ok :: "program \<Rightarrow> bool" where
  "image_ok p \<longleftrightarrow> FORMATS (fmt_name (p_fmt p)) = Some (p_fmt p) \<and> 0 \<le> p_flags p \<and> p_flags p < 2 ^ 32 \<and>
    0 \<le> n_consts p \<and> length (p_insns p) < 2 ^ 32 \<and> (\<forall>w \<in> set (p_insns p). 0 \<le> w \<and> w < 2 ^ 64)"

lemma ladder_code:
  assumes "FORMATS (fmt_name fmt) = Some fmt"
  obtains code where "PREC_CODE (fmt_name fmt) = Some code" "0 \<le> code" "code < 4"
    "find (\<lambda>(k, v). v = code) PREC_ITEMS = Some (fmt_name fmt, code)" "width fmt = 8 * (width fmt div 8)"
proof -
  have "fmt \<in> {FP32, FP64, FP128, FP256}" using assms by (auto simp: FORMATS_def split: if_splits)
  then show ?thesis
    using that [of 0] that [of 1] that [of 2] that [of 3] by (auto simp: PREC_CODE_def PREC_ITEMS_def ladder_defs width_def)
qed

lemma to_bytes_image:
  assumes v: "check_header p = Inr ()" and ok: "image_ok p" and c: "PREC_CODE (fmt_name (p_fmt p)) = Some code" "0 \<le> code" "code < 4"
  shows "to_bytes p = Inr (concat (map (le_bytes 4) (header_of p code)) @
    concat (map (le_bytes (width (p_fmt p) div 8)) (p_consts p)) @ concat (map (le_bytes 8) (p_insns p)))"
    and "\<forall>v \<in> set (header_of p code). 0 \<le> v \<and> v < 2 ^ 32"
proof -
  note h = check_header_facts [OF v]
  note s = scratch_io_halves [of "p_n_scratch_in p" "p_n_scratch_out p", folded scratch_io_word_def]
  show hd: "\<forall>v \<in> set (header_of p code). 0 \<le> v \<and> v < 2 ^ 32"
    unfolding header_of_def using h(1-3,6,7) s c(2,3) ok
    by (auto simp: image_ok_def MAGIC_def VERSION_def MAX_DEPOSITS_def KADDR_KX_def push_bit_eq_mult)
  have w8: "width (p_fmt p) = 8 * (width (p_fmt p) div 8)" using ladder_code [of "p_fmt p"] ok unfolding image_ok_def by metis
  have 1: "join_r (map (pack_uint 4) (header_of p code)) = Inr (concat (map (le_bytes 4) (header_of p code)))"
    using hd by (intro join_r_map pack_uint_ok) simp_all
  have 2: "join_r (map (\<lambda>k. to_bytes_le k (width (p_fmt p) div 8)) (p_consts p)) = Inr (concat (map (le_bytes (width (p_fmt p) div 8)) (p_consts p)))"
    using h(4) w8 by (intro join_r_map to_bytes_le_ok) metis+
  have 3: "join_r (map (pack_uint 8) (p_insns p)) = Inr (concat (map (le_bytes 8) (p_insns p)))"
    using ok by (intro join_r_map pack_uint_ok) (simp_all add: image_ok_def)
  show "to_bytes p = Inr (concat (map (le_bytes 4) (header_of p code)) @
    concat (map (le_bytes (width (p_fmt p) div 8)) (p_consts p)) @ concat (map (le_bytes 8) (p_insns p)))"
    unfolding to_bytes_def Let_def c(1) using 1 2 3 by (simp add: header_of_def)
qed

lemma from_bytes_image:
  assumes mk: "mk_program fmt insns consts md fl nc nin nout depth = Inr p" and ok: "image_ok p"
    and bs: "to_bytes p = Inr bs"
  shows "from_bytes bs depth = Inr p"
proof -
  note m = mk_program_cases [OF mk]
  note ch = validate_header [OF m(1)]
  note h = check_header_facts [OF ch]
  have fm: "FORMATS (fmt_name (p_fmt p)) = Some (p_fmt p)" using ok by (simp add: image_ok_def)
  obtain code where c: "PREC_CODE (fmt_name (p_fmt p)) = Some code" "0 \<le> code" "code < 4"
    "find (\<lambda>(k, v). v = code) PREC_ITEMS = Some (fmt_name (p_fmt p), code)" "width (p_fmt p) = 8 * (width (p_fmt p) div 8)"
    by (rule ladder_code [OF fm])
  define eb where "eb = width (p_fmt p) div 8"
  define H where "H = concat (map (le_bytes 4) (header_of p code))"
  define C where "C = concat (map (le_bytes eb) (p_consts p))"
  define I where "I = concat (map (le_bytes 8) (p_insns p))"
  have data: "bs = H @ C @ I" using to_bytes_image(1) [OF ch ok c(1-3)] bs by (simp add: H_def C_def I_def eb_def)
  note hv = to_bytes_image(2) [OF ch ok c(1-3)]
  have lH: "length H = 32" by (simp add: H_def length_blocks header_of_def)
  have lC: "length C = length (p_consts p) * eb" and lI: "length I = length (p_insns p) * 8"
    by (simp_all add: C_def I_def length_blocks)
  have wd: "from_bytes_le (slice bs (4 * i) (4 * i + 4)) = header_of p code ! i" if "i < 8" for i
  proof -
    have l: "i < length (header_of p code)" using that by (simp add: header_of_def)
    have "slice bs (4 * i) (4 * i + 4) = le_bytes 4 (header_of p code ! i)"
      using slice_block [of "le_bytes 4" 4 i "header_of p code" "[]" 0 "C @ I"] l
      by (simp add: data H_def mult.commute add.commute)
    then show ?thesis using hv l by (simp add: from_le_bytes_fit)
  qed
  have w: "header_of p code ! 0 = MAGIC" "header_of p code ! 1 = VERSION" "header_of p code ! 2 = int (length (p_insns p))"
    "header_of p code ! 3 = n_consts p" "header_of p code ! 4 = p_max_deposits p" "header_of p code ! 5 = code"
    "header_of p code ! 6 = p_flags p" "header_of p code ! 7 = scratch_io_word p"
    by (simp_all add: header_of_def)
  have lt: "(0::nat) < 8" "(1::nat) < 8" "(2::nat) < 8" "(3::nat) < 8" "(4::nat) < 8" "(5::nat) < 8" "(6::nat) < 8" "(7::nat) < 8"
    by simp_all
  note wd8 = lt [THEN wd, unfolded w]
  have w7: "\<not> truthy (p_flags p AND FLAG_SCRATCH_IO) \<Longrightarrow> scratch_io_word p = 0"
    using h(8) by (simp add: scratch_io_def scratch_io_word_def)
  note sw = scratch_io_halves [of "p_n_scratch_in p" "p_n_scratch_out p", folded scratch_io_word_def]
  have st: "(if truthy (p_flags p AND FLAG_BANK_EXT) then 0 else n_consts p) = int (length (p_consts p))"
    using m(4,11,12) by (auto simp: bank_ext_def)
  have w7': "(\<not> truthy (p_flags p AND FLAG_SCRATCH_IO) \<and> truthy (scratch_io_word p)) = False" using w7 by blast
  have off: "nat 8 = 8" "nat (HEADER_WORDS * 4) = 32" "nat INSN_BYTES = 8" "INSN_BYTES = 8" by (simp_all add: HEADER_WORDS_def INSN_BYTES_def)
  have len: "int (length bs) = int 32 + int (length (p_consts p)) * int eb + int (length (p_insns p)) * 8"
    by (simp add: data lH lC lI)
  have cs: "map (\<lambda>i. from_bytes_le (slice bs (32 + i * eb) (32 + (i + 1) * eb))) [0..<length (p_consts p)] = p_consts p"
    unfolding data C_def
  proof (rule slices_back [where g = "le_bytes eb"])
    show "from_bytes_le (le_bytes eb x) = x" if "x \<in> set (p_consts p)" for x
      using h(4) [OF that] c(5) by (simp add: from_le_bytes_fit eb_def)
  qed (simp_all add: lH)
  have ws: "map (\<lambda>i. from_bytes_le (slice bs (32 + length (p_consts p) * eb + i * 8) (32 + length (p_consts p) * eb + (i + 1) * 8)))
      [0..<length (p_insns p)] = p_insns p"
  proof -
    have "bs = (H @ C) @ I @ []" by (simp add: data)
    then show ?thesis unfolding I_def
    proof (simp only:, rule_tac slices_back [where g = "le_bytes 8"])
      show "from_bytes_le (le_bytes 8 x) = x" if "x \<in> set (p_insns p)" for x
        using ok that by (simp add: from_le_bytes_fit image_ok_def)
    qed (simp_all add: lH lC)
  qed
  have long: "\<not> int (length bs) < HEADER_WORDS * 4" by (simp add: data lH HEADER_WORDS_def)
  have "from_bytes bs depth = mk_program (p_fmt p) (p_insns p) (p_consts p) (p_max_deposits p) (p_flags p)
      (Some (n_consts p)) (scratch_io_word p AND 0xFFFF) (drop_bit 16 (scratch_io_word p) AND 0xFFFF) depth"
    unfolding from_bytes_def Let_def wd8 w7' st c(4) option.case prod.case fm off eb_def [symmetric] nat_int cs ws
    using long h(5) len by (simp only: if_False simp_thms)
  then show ?thesis using sw h(6,7) m(2-9,13) by simp
qed

end
