(* ===== verification/SeqRun.thy ===== *)
theory SeqRun
  imports SeqProgram
begin

text \<open>
  The execution of a program, \<open>run\<close> of \<^verbatim>\<open>python/cft_golden/seq.py\<close>. The local variables of the Python
  function are the record \<open>mach\<close> (the arrays the lanes own and the sticky words) and the control
  part \<open>ctl\<close> (the program counter, the loop stack, innermost frame first, and the instructions
  executed); what does not change during a run is the record \<open>renv\<close>. A loop over the lanes is a
  fold over their indices, and the instruction loop, which need not end for a program that was not
  validated, is the partial function \<open>exec\<close>.

  Register numbers come from \<open>decode\<close>, so they are below 32, the length of every register file;
  indices that the source may find out of range go through \<open>py_index\<close> and \<open>py_set\<close>.
\<close>

section \<open>The state\<close>

record mach =
  m_regs :: "int list list"
  m_scratch :: "int list list"
  m_active :: "bool list"
  m_counts :: "int list"
  m_deposits :: "int list"
  m_flags :: int
  m_status :: int
  m_lane_fl :: "int list"
  m_qdepth :: int

record renv =
  e_prog :: program
  e_consts :: "int list"
  e_keep :: "bool list"
  e_depth :: int
  e_early :: bool
  e_budget :: "int option"

record ctl =
  c_pc :: nat
  c_stack :: "(nat \<times> int) list"
  c_executed :: int

definition n_lanes :: "renv \<Rightarrow> nat" where "n_lanes env = length (e_keep env)"

abbreviation e_fmt :: "renv \<Rightarrow> fp_format" where "e_fmt env \<equiv> p_fmt (e_prog env)"

text \<open>\<open>any(active)\<close>.\<close>

definition any_active :: "mach \<Rightarrow> bool" where "any_active m \<longleftrightarrow> list_ex (\<lambda>a. a) (m_active m)"

text \<open>\<open>regs[i][r]\<close>, read and written, and \<open>lane_fl[i] |= fl\<close>.\<close>

definition reg :: "mach \<Rightarrow> nat \<Rightarrow> int \<Rightarrow> int" where "reg m i r = m_regs m ! i ! nat r"

definition set_reg :: "nat \<Rightarrow> int \<Rightarrow> int \<Rightarrow> mach \<Rightarrow> mach" where
  "set_reg i r v m = m\<lparr>m_regs := (m_regs m)[i := (m_regs m ! i)[nat r := v]]\<rparr>"

definition or_lane :: "nat \<Rightarrow> int \<Rightarrow> mach \<Rightarrow> mach" where
  "or_lane i fl m = m\<lparr>m_lane_fl := (m_lane_fl m)[i := m_lane_fl m ! i OR fl]\<rparr>"

definition or_flags :: "int \<Rightarrow> mach \<Rightarrow> mach" where "or_flags fl m = m\<lparr>m_flags := m_flags m OR fl\<rparr>"
definition or_status :: "int \<Rightarrow> mach \<Rightarrow> mach" where "or_status st m = m\<lparr>m_status := m_status m OR st\<rparr>"

text \<open>\<open>for i in range(n): if not active[i]: continue; ...\<close>\<close>

definition each_active :: "renv \<Rightarrow> (nat \<Rightarrow> mach \<Rightarrow> mach result) \<Rightarrow> mach \<Rightarrow> mach result" where
  "each_active env f m = fold_r (\<lambda>m i. if m_active m ! i then f i m else Inr m) m [0..<n_lanes env]"

section \<open>The lanes' instructions\<close>

definition src :: "renv \<Rightarrow> mach \<Rightarrow> nat \<Rightarrow> int \<times> bool \<Rightarrow> int result" where
  "src env m lane = (\<lambda>(idx, is_const). if is_const then py_index (e_consts env) idx else Inr (reg m lane idx))"

definition alu_lane :: "renv \<Rightarrow> insn \<Rightarrow> nat \<Rightarrow> mach \<Rightarrow> mach result" where
  "alu_lane env d i m =
    (case sources d of [sa, sb, sc] \<Rightarrow>
       bind_r (src env m i sa) (\<lambda>a. bind_r (src env m i sb) (\<lambda>b. bind_r (src env m i sc) (\<lambda>c.
       bind_r (compute (e_fmt env) (i_op d) a b c (i_rnd d)) (\<lambda>(res, fl).
       let m1 = set_reg i (i_rd d) res m in
       Inr (if m_qdepth m1 = 0 then or_lane i fl (or_flags fl m1) else m1)))))
     | _ \<Rightarrow> Inl ValueError)"

definition deposit_lane :: "renv \<Rightarrow> insn \<Rightarrow> nat \<Rightarrow> mach \<Rightarrow> mach result" where
  "deposit_lane env d i m =
    (let md = p_max_deposits (e_prog env) in
     if md \<le> m_counts m ! i then Inr (or_lane i LANE_DEPOSIT_OVERFLOW (or_status STATUS_DEPOSIT_OVERFLOW m))
     else Inr (m\<lparr>m_deposits := (m_deposits m)[nat (int i * md + m_counts m ! i) := reg m i (i_ra d)],
                 m_counts := (m_counts m)[i := m_counts m ! i + 1]\<rparr>))"

definition setact_lane :: "renv \<Rightarrow> insn \<Rightarrow> nat \<Rightarrow> mach \<Rightarrow> mach result" where
  "setact_lane env d i m =
    (let mag = reg m i (i_ra d) AND NOT (sign_mask (e_fmt env))
     in Inr (m\<lparr>m_active := (m_active m)[i := mag \<noteq> 0]\<rparr>))"

text \<open>
  \<open>_augmented_half\<close> returns what it raised, for the caller to \<open>OR\<close> into the flags: here the
  loop's state is the machine and that word.
\<close>

definition augmented_lane :: "renv \<Rightarrow> insn \<Rightarrow> bool \<Rightarrow> nat \<Rightarrow> mach \<Rightarrow> (mach \<times> int) result" where
  "augmented_lane env d loud i m =
    bind_r (augmented_add (e_fmt env) (reg m i (i_ra d)) (reg m i (i_rb d))) (\<lambda>(r, e, fl).
    let m1 = set_reg i (i_rd d) (if i_op d = AUGERR then e else r) m in
    Inr (if loud then (or_lane i fl m1, fl) else (m1, 0)))"

definition augmented_half :: "renv \<Rightarrow> insn \<Rightarrow> bool \<Rightarrow> mach \<Rightarrow> (mach \<times> int) result" where
  "augmented_half env d loud m =
    fold_r (\<lambda>(m, raised) i.
      if \<not> m_active m ! i then Inr (m, raised)
      else bind_r (augmented_lane env d loud i m) (\<lambda>(m1, fl). Inr (m1, raised OR fl))) (m, 0) [0..<n_lanes env]"

definition raise_lane :: "renv \<Rightarrow> insn \<Rightarrow> nat \<Rightarrow> mach \<Rightarrow> mach result" where
  "raise_lane env d i m =
    (let v = reg m i (i_ra d);
         m1 = (if m_qdepth m = 0 then or_lane i (v AND RAISE_FLAG_BITS) (or_flags (v AND RAISE_FLAG_BITS) m) else m);
         m2 = (if truthy (v AND RAISE_MARK) then or_lane i LANE_MARKED (or_status STATUS_MARKED m1) else m1)
     in Inr m2)"

definition is_strict :: "renv \<Rightarrow> bool" where
  "is_strict env \<longleftrightarrow> truthy (p_flags (e_prog env) AND FLAG_SCRATCH_STRICT)"

definition memory_lane :: "renv \<Rightarrow> insn \<Rightarrow> nat \<Rightarrow> mach \<Rightarrow> mach result" where
  "memory_lane env d i m =
    (let is_static = i_op d \<in> {STL, LDL}; idx = reg m i (i_rb d) in
     if \<not> is_static \<and> is_strict env \<and> e_depth env \<le> idx then
       (let m1 = or_lane i LANE_SCRATCH_RANGE (or_status STATUS_SCRATCH_RANGE m)
        in Inr (if i_op d = LDX then set_reg i (i_rd d) (zero_bits (e_fmt env) 0) m1 else m1))
     else let slot = (if is_static then i_imm d AND SCRATCH_SLOT_MASK else idx AND (e_depth env - 1)) in
     if i_op d \<in> {STL, STX} then
       bind_r (py_set (m_scratch m ! i) slot (reg m i (i_ra d))) (\<lambda>sc. Inr (m\<lparr>m_scratch := (m_scratch m)[i := sc]\<rparr>))
     else bind_r (py_index (m_scratch m ! i) slot) (\<lambda>v. Inr (set_reg i (i_rd d) v m)))"

definition step_lane :: "renv \<Rightarrow> insn \<Rightarrow> int \<Rightarrow> nat \<Rightarrow> mach \<Rightarrow> mach result" where
  "step_lane env d inc i m = Inr (set_reg i (i_rb d) (fst (iadd (e_fmt env) (reg m i (i_rb d)) inc)) m)"

definition post_step :: "renv \<Rightarrow> insn \<Rightarrow> mach \<Rightarrow> mach result" where
  "post_step env d m =
    (let step = index_step d in
     if step = 0 \<or> i_op d = LDX \<and> i_rd d = i_rb d then Inr m
     else let inc = step AND (push_bit (width (e_fmt env)) 1 - 1) in
     each_active env (step_lane env d inc) m)"

text \<open>Every instruction that does not move the program counter elsewhere.\<close>

definition lane_step :: "renv \<Rightarrow> insn \<Rightarrow> mach \<Rightarrow> mach result" where
  "lane_step env d m =
    (if \<not> i_ctrl d then each_active env (alu_lane env d) m
     else if i_op d = DEPOSIT then each_active env (deposit_lane env d) m
     else if i_op d = SETACT then each_active env (setact_lane env d) m
     else if i_op d = ACTALL then Inr (m\<lparr>m_active := e_keep env\<rparr>)
     else if i_op d \<in> {AUGADD, AUGERR} then
       bind_r (augmented_half env d (m_qdepth m = 0) m) (\<lambda>(m, raised). Inr (or_flags raised m))
     else if i_op d = QUIET then Inr (m\<lparr>m_qdepth := m_qdepth m + 1\<rparr>)
     else if i_op d = ENDQUIET then Inr (m\<lparr>m_qdepth := m_qdepth m - 1\<rparr>)
     else if i_op d = RAISE then each_active env (raise_lane env d) m
     else if i_op d \<in> {STL, LDL, STX, LDX} then
       bind_r (each_active env (memory_lane env d) m) (post_step env d)
     else Inl ProgramError)"

section \<open>The instruction loop\<close>

text \<open>\<open>_matching_endrep\<close> over the instructions from \<open>pc\<close> on, with their addresses.\<close>

fun matching_endrep :: "int list \<Rightarrow> int \<Rightarrow> nat \<Rightarrow> nat result" where
  "matching_endrep [] depth j = Inl ProgramError"
| "matching_endrep (w # ws) depth j =
    (let d = decode w in
     if \<not> i_ctrl d then matching_endrep ws depth (Suc j)
     else if i_op d = REPEAT then matching_endrep ws (depth + 1) (Suc j)
     else if i_op d = ENDREP then
       (if depth - 1 = 0 then Inr j else matching_endrep ws (depth - 1) (Suc j))
     else matching_endrep ws depth (Suc j))"

text \<open>One turn of the loop; the Boolean says whether the loop goes on.\<close>

definition exec_insn :: "renv \<Rightarrow> ctl \<Rightarrow> mach \<Rightarrow> (ctl \<times> mach \<times> bool) result" where
  "exec_insn env c0 m =
    (let insns = p_insns (e_prog env); pc = c_pc c0; d = decode (insns ! pc);
         c = c0\<lparr>c_executed := c_executed c0 + 1\<rparr>; idle = e_early env \<and> \<not> any_active m in
     if i_ctrl d \<and> i_op d = HALT then Inr (c, m, False)
     else if i_ctrl d \<and> i_op d = REPEAT then
       (if i_imm d = 0 \<or> idle then
          bind_r (matching_endrep (drop pc insns) 0 pc) (\<lambda>j. Inr (c\<lparr>c_pc := j + 1\<rparr>, m, True))
        else Inr (c\<lparr>c_stack := (pc + 1, i_imm d) # c_stack c, c_pc := pc + 1\<rparr>, m, True))
     else if i_ctrl d \<and> i_op d = ENDREP then
       (case c_stack c of [] \<Rightarrow> Inl IndexError
        | (body, left) # rest \<Rightarrow>
            if 0 < left - 1 \<and> \<not> idle then Inr (c\<lparr>c_stack := (body, left - 1) # rest, c_pc := body\<rparr>, m, True)
            else Inr (c\<lparr>c_stack := rest, c_pc := pc + 1\<rparr>, m, True))
     else bind_r (lane_step env d m) (\<lambda>m'. Inr (c\<lparr>c_pc := pc + 1\<rparr>, m', True)))"

partial_function (option) exec :: "renv \<Rightarrow> ctl \<Rightarrow> mach \<Rightarrow> (ctl \<times> mach) result option" where
  "exec env c m =
    (if c_pc c < length (p_insns (e_prog env)) then
       if (case e_budget env of None \<Rightarrow> False | Some b \<Rightarrow> b \<le> c_executed c) then Some (Inl RuntimeError)
       else (case exec_insn env c m of
           Inl e \<Rightarrow> Some (Inl e)
         | Inr (c', m', go) \<Rightarrow> if go then exec env c' m' else Some (Inr (c', m')))
     else Some (Inr (c, m)))"

section \<open>The run\<close>

definition IDX_NONE :: int where "IDX_NONE = 0xFFFFFFFF"

definition gather :: "int list \<Rightarrow> int list \<Rightarrow> fp_format \<Rightarrow> int list result" where
  "gather source table fmt =
    fold_r (\<lambda>out ix.
      if ix = IDX_NONE then Inr (out @ [zero_bits fmt 0])
      else if \<not> (0 \<le> ix \<and> ix < int (length source)) then Inl ProgramError
      else bind_r (py_index source ix) (\<lambda>v. Inr (out @ [v AND (push_bit (width fmt) 1 - 1)]))) [] table"

text \<open>The keyword arguments of \<open>run\<close>, with their defaults \<open>dense\<close>.\<close>

record run_args =
  r_a :: "int list"
  r_b :: "int list"
  r_c :: "int list option"
  r_bank :: "int list option"
  r_scratch_in :: "int list option"
  r_early :: bool
  r_budget :: "int option"
  r_n_active :: "int option"
  r_idx_a :: "int list option"
  r_idx_b :: "int list option"
  r_idx_c :: "int list option"
  r_idx_scratch_in :: "int list option"
  r_lane_mask :: "bool list option"
  r_depth :: int

definition dense :: "int list \<Rightarrow> int list \<Rightarrow> int list option \<Rightarrow> run_args" where
  "dense a b c = \<lparr>r_a = a, r_b = b, r_c = c, r_bank = None, r_scratch_in = None, r_early = True, r_budget = None,
    r_n_active = None, r_idx_a = None, r_idx_b = None, r_idx_c = None, r_idx_scratch_in = None, r_lane_mask = None,
    r_depth = SCRATCH_D\<rparr>"

record run_result =
  s_deposits :: "int list"
  s_flags :: int
  s_status :: int
  s_regs :: "int list list"
  s_active :: "bool list"
  s_counts :: "int list"
  s_insns_executed :: int
  s_scratch :: "int list list"
  s_scratch_out :: "int list"
  s_lane_flags :: "int list"

definition result_state ::
    "run_result \<Rightarrow> int list \<times> int \<times> int \<times> int list list \<times> bool list \<times> int list \<times> int list list \<times> int list \<times> int list" where
  "result_state r = (s_deposits r, s_flags r, s_status r, s_regs r, s_active r, s_counts r, s_scratch r,
     s_scratch_out r, s_lane_flags r)"

text \<open>What \<open>run\<close> refuses before it looks at the streams: the program against this run's depth.\<close>

definition check_run_depth :: "program \<Rightarrow> int \<Rightarrow> int result" where
  "check_run_depth p scratch_depth =
    bind_r (check_scratch_depth scratch_depth) (\<lambda>depth.
    if depth < static_scratch_reach (p_insns p) then Inl ProgramError
    else if scratch_io p \<and> list_ex (\<lambda>v. depth < v) [p_n_scratch_in p, p_n_scratch_out p] then Inl ProgramError
    else Inr depth)"

text \<open>The streams: tables resolved, lengths checked, a missing third stream zero.\<close>

definition resolve_stream :: "fp_format \<Rightarrow> int list \<Rightarrow> int list option \<Rightarrow> int list result" where
  "resolve_stream fmt strm tbl = (case tbl of None \<Rightarrow> Inr strm | Some t \<Rightarrow> gather strm t fmt)"

definition resolve_streams :: "program \<Rightarrow> run_args \<Rightarrow> (nat \<times> int list \<times> int list \<times> int list) result" where
  "resolve_streams p r =
    (let n = (case r_idx_a r of None \<Rightarrow> length (r_a r) | Some t \<Rightarrow> length t) in
     if r_idx_c r \<noteq> None \<and> r_c r = None then Inl ValueError
     else if list_ex (\<lambda>tbl. case tbl of None \<Rightarrow> False | Some t \<Rightarrow> length t \<noteq> n) [r_idx_a r, r_idx_b r, r_idx_c r]
     then Inl ValueError
     else bind_r (resolve_stream (p_fmt p) (r_a r) (r_idx_a r)) (\<lambda>a.
          bind_r (resolve_stream (p_fmt p) (r_b r) (r_idx_b r)) (\<lambda>b.
          bind_r (case r_c r of None \<Rightarrow> Inr None
                  | Some c \<Rightarrow> bind_r (resolve_stream (p_fmt p) c (r_idx_c r)) (\<lambda>c. Inr (Some c))) (\<lambda>c.
          if length a \<noteq> n \<or> length b \<noteq> n \<or> (c \<noteq> None \<and> length (the c) \<noteq> n) then Inl ValueError
          else Inr (n, a, b, case c of None \<Rightarrow> replicate n 0 | Some c \<Rightarrow> c)))))"

definition resolve_lanes :: "run_args \<Rightarrow> nat \<Rightarrow> (int \<times> bool list) result" where
  "resolve_lanes r n =
    (let n_active = (case r_n_active r of None \<Rightarrow> int n | Some k \<Rightarrow> k) in
     if \<not> (0 \<le> n_active \<and> n_active \<le> int n) then Inl ValueError
     else case r_lane_mask r of None \<Rightarrow> Inr (n_active, replicate n True)
     | Some keep \<Rightarrow> if length keep \<noteq> n then Inl ValueError else Inr (n_active, keep))"

definition resolve_scratch :: "program \<Rightarrow> run_args \<Rightarrow> nat \<Rightarrow> int list option result" where
  "resolve_scratch p r n =
    bind_r (case r_idx_scratch_in r of None \<Rightarrow> Inr (r_scratch_in r)
      | Some t \<Rightarrow>
          let want = (if scratch_io p then p_n_scratch_in p else 0) * int n in
          if \<not> truthy want then Inl ProgramError
          else case r_scratch_in r of None \<Rightarrow> Inl ProgramError
          | Some pool \<Rightarrow> if int (length t) \<noteq> want then Inl ProgramError
              else bind_r (gather pool t (p_fmt p)) (\<lambda>v. Inr (Some v))) (\<lambda>scratch_in.
    bind_r (check_scratch_in p scratch_in (int n)) (\<lambda>_. Inr scratch_in))"

definition init_lane_scratch :: "program \<Rightarrow> int \<Rightarrow> int \<Rightarrow> int list option \<Rightarrow> nat \<Rightarrow> int list" where
  "init_lane_scratch p depth n_active scratch_in i =
    (let nsin = nat (if scratch_io p then p_n_scratch_in p else 0);
         msk = push_bit (width (p_fmt p)) 1 - 1 in
     map (\<lambda>s. if int i < n_active \<and> s < nsin then (the scratch_in) ! (i * nsin + s) AND msk
              else zero_bits (p_fmt p) 0) [0..<nat depth])"

definition init_mach ::
    "program \<Rightarrow> int \<Rightarrow> int \<Rightarrow> bool list \<Rightarrow> int list option \<Rightarrow> nat \<Rightarrow> int list \<Rightarrow> int list \<Rightarrow> int list \<Rightarrow> mach" where
  "init_mach p depth n_active keep scratch_in n a b c =
    (let zero = zero_bits (p_fmt p) 0; msk = push_bit (width (p_fmt p)) 1 - 1 in
     \<lparr>m_regs = map (\<lambda>i. [a ! i AND msk, b ! i AND msk, c ! i AND msk] @ replicate (nat NREG - 3) zero) [0..<n],
      m_scratch = map (init_lane_scratch p depth n_active scratch_in) [0..<n],
      m_active = map (\<lambda>i. int i < n_active \<and> keep ! i) [0..<n],
      m_counts = replicate n 0,
      m_deposits = replicate (n * nat (p_max_deposits p)) zero,
      m_flags = 0, m_status = 0, m_lane_fl = replicate n 0, m_qdepth = 0\<rparr>)"

definition scratch_out_block :: "program \<Rightarrow> int \<Rightarrow> bool list \<Rightarrow> nat \<Rightarrow> mach \<Rightarrow> int list" where
  "scratch_out_block p n_active keep n m =
    (let nsout = nat (if scratch_io p then p_n_scratch_out p else 0) in
     concat (map (\<lambda>i. map (\<lambda>s. if int i < n_active \<and> keep ! i then m_scratch m ! i ! s else zero_bits (p_fmt p) 0) [0..<nsout])
       [0..<n]))"

definition finish_run :: "program \<Rightarrow> int \<Rightarrow> bool list \<Rightarrow> nat \<Rightarrow> ctl \<Rightarrow> mach \<Rightarrow> run_result" where
  "finish_run p n_active keep n c m =
    \<lparr>s_deposits = m_deposits m, s_flags = m_flags m, s_status = m_status m, s_regs = m_regs m,
     s_active = m_active m, s_counts = m_counts m, s_insns_executed = c_executed c, s_scratch = m_scratch m,
     s_scratch_out = scratch_out_block p n_active keep n m,
     s_lane_flags = map (\<lambda>i. if int i < n_active \<and> keep ! i then m_lane_fl m ! i else 0) [0..<n]\<rparr>"

definition start_run :: "program \<Rightarrow> run_args \<Rightarrow> (renv \<times> mach \<times> int \<times> nat) result" where
  "start_run p r =
    bind_r (check_run_depth p (r_depth r)) (\<lambda>depth.
    bind_r (check_bank p (r_bank r)) (\<lambda>_.
    bind_r (resolve_streams p r) (\<lambda>(n, a, b, c).
    bind_r (resolve_lanes r n) (\<lambda>(n_active, keep).
    bind_r (resolve_scratch p r n) (\<lambda>scratch_in.
    Inr (\<lparr>e_prog = p, e_consts = (if bank_ext p then the (r_bank r) else p_consts p), e_keep = keep, e_depth = depth,
          e_early = r_early r, e_budget = r_budget r\<rparr>,
         init_mach p depth n_active keep scratch_in n a b c, n_active, n))))))"

definition run :: "program \<Rightarrow> run_args \<Rightarrow> run_result result option" where
  "run p r =
    (case start_run p r of Inl e \<Rightarrow> Some (Inl e)
     | Inr (env, m, n_active, n) \<Rightarrow>
         (case exec env \<lparr>c_pc = 0, c_stack = [], c_executed = 0\<rparr> m of None \<Rightarrow> None
          | Some (Inl e) \<Rightarrow> Some (Inl e)
          | Some (Inr (c, m)) \<Rightarrow> Some (Inr (finish_run p n_active (e_keep env) n c m))))"

end
