(* ===== verification/SeqBlocks.thy ===== *)
theory SeqBlocks
  imports SeqRun
begin

text \<open>
  The structure validation finds in an instruction stream. A \<open>block\<close> is one instruction or a loop with
  its two bracket words and its body; \<open>flatten\<close> gives the stream back. The lemmas read the loader's
  scan as a parser: a program it accepts is the flattening of blocks in which loops hold no \<open>HALT\<close> and
  no \<open>ACTALL\<close>, quiet regions close in the body that opened them, every word passed its own check, and
  the scan's worst-case count is the cost of the blocks.
\<close>

datatype block = Ins int | Loop int int "block list"

fun flatten :: "block list \<Rightarrow> int list" where
  "flatten [] = []"
| "flatten (Ins w # bs) = w # flatten bs"
| "flatten (Loop r e body # bs) = r # flatten body @ e # flatten bs"

lemma flatten_append [simp]: "flatten (bs @ cs) = flatten bs @ flatten cs"
  by (induction bs rule: flatten.induct) simp_all

definition is_ctrl :: "int \<Rightarrow> int \<Rightarrow> bool" where
  "is_ctrl code w \<longleftrightarrow> i_ctrl (decode w) \<and> i_op (decode w) = code"

definition trip :: "int \<Rightarrow> int" where "trip w = i_imm (decode w)"

text \<open>The instructions a run of blocks executes at most, and the quiet regions they leave open.\<close>

fun cost :: "block list \<Rightarrow> int" where
  "cost [] = 0"
| "cost (Ins w # bs) = 1 + cost bs"
| "cost (Loop r e body # bs) = 1 + trip r * (cost body + 1) + cost bs"

fun quiets :: "block list \<Rightarrow> int" where
  "quiets [] = 0"
| "quiets (Ins w # bs) = (if is_ctrl QUIET w then 1 else if is_ctrl ENDQUIET w then - 1 else 0) + quiets bs"
| "quiets (Loop r e body # bs) = quiets bs"

lemma cost_append [simp]: "cost (bs @ cs) = cost bs + cost cs"
  by (induction bs rule: cost.induct) simp_all

lemma quiets_append [simp]: "quiets (bs @ cs) = quiets bs + quiets cs"
  by (induction bs rule: quiets.induct) simp_all

text \<open>Blocks as they may stand in a loop body (\<open>inner\<close>) or at the top level.\<close>

fun wf_blocks :: "bool \<Rightarrow> block list \<Rightarrow> bool" where
  "wf_blocks inner [] = True"
| "wf_blocks inner (Ins w # bs) =
    (\<not> is_ctrl REPEAT w \<and> \<not> is_ctrl ENDREP w \<and> (inner \<longrightarrow> \<not> is_ctrl HALT w \<and> \<not> is_ctrl ACTALL w) \<and> wf_blocks inner bs)"
| "wf_blocks inner (Loop r e body # bs) =
    (is_ctrl REPEAT r \<and> is_ctrl ENDREP e \<and> 0 < trip r \<and> quiets body = 0 \<and> wf_blocks True body \<and> wf_blocks inner bs)"

lemma wf_blocks_append [simp]: "wf_blocks inner (bs @ cs) \<longleftrightarrow> wf_blocks inner bs \<and> wf_blocks inner cs"
  by (induction inner bs rule: wf_blocks.induct) auto

lemma cost_nonneg: "wf_blocks inner bs \<Longrightarrow> 0 \<le> cost bs"
  by (induction inner bs rule: wf_blocks.induct) simp_all

lemma trip_nonneg [simp]: "0 \<le> trip w"
  using decode_ranges(7) [of w] by (simp add: trip_def)

section \<open>The scan is a parser\<close>

text \<open>
  An open loop is its \<open>REPEAT\<close> word and the blocks before it at its own level; the innermost is first.
\<close>

type_synonym frames = "(int \<times> block list) list"

fun opened :: "frames \<Rightarrow> block list \<Rightarrow> int list" where
  "opened [] cur = flatten cur"
| "opened ((r, before) # fs) cur = opened fs before @ r # flatten cur"

fun open_brackets :: "frames \<Rightarrow> block list \<Rightarrow> int list" where
  "open_brackets [] cur = replicate (nat (quiets cur)) QUIET"
| "open_brackets ((r, before) # fs) cur = open_brackets fs before @ REPEAT # replicate (nat (quiets cur)) QUIET"

fun open_quiets :: "frames \<Rightarrow> block list \<Rightarrow> int" where
  "open_quiets [] cur = quiets cur"
| "open_quiets ((r, before) # fs) cur = open_quiets fs before + quiets cur"

fun mults :: "frames \<Rightarrow> int list" where
  "mults [] = [1]"
| "mults ((r, before) # fs) = mults fs @ [last (mults fs) * trip r]"

fun open_cost :: "frames \<Rightarrow> block list \<Rightarrow> int" where
  "open_cost [] cur = cost cur"
| "open_cost ((r, before) # fs) cur = open_cost fs before + last (mults fs) * (1 + trip r * cost cur)"

fun wf_open :: "frames \<Rightarrow> block list \<Rightarrow> bool" where
  "wf_open [] cur \<longleftrightarrow> wf_blocks False cur \<and> 0 \<le> quiets cur"
| "wf_open ((r, before) # fs) cur \<longleftrightarrow> is_ctrl REPEAT r \<and> 0 < trip r \<and> wf_blocks True cur \<and> 0 \<le> quiets cur \<and> wf_open fs before"

text \<open>The scan's state after a prefix of the stream.\<close>

definition scanned :: "vstate \<Rightarrow> frames \<Rightarrow> block list \<Rightarrow> bool" where
  "scanned v fs cur \<longleftrightarrow> v_depth v = int (length fs) \<and> v_qdepth v = open_quiets fs cur \<and>
    map fst (v_brackets v) = open_brackets fs cur \<and> v_mult v = mults fs \<and> v_worst v = open_cost fs cur \<and> wf_open fs cur"

lemma mults_nonempty [simp]: "mults fs \<noteq> []"
  by (cases fs rule: mults.cases) simp_all

lemma open_snoc:
  "opened fs (cur @ bs) = opened fs cur @ flatten bs"
  "open_quiets fs (cur @ bs) = open_quiets fs cur + quiets bs"
  "open_cost fs (cur @ bs) = open_cost fs cur + last (mults fs) * cost bs"
  by (cases fs rule: mults.cases; simp add: algebra_simps)+

lemma open_brackets_quiet:
  assumes "0 \<le> quiets cur"
  shows "quiets bs = 0 \<Longrightarrow> open_brackets fs (cur @ bs) = open_brackets fs cur"
    and "quiets bs = 1 \<Longrightarrow> open_brackets fs (cur @ bs) = open_brackets fs cur @ [QUIET]"
  using assms by (cases fs rule: mults.cases; simp add: nat_add_distrib replicate_append_same [symmetric])+

lemma open_brackets_endquiet:
  assumes "0 < quiets cur" "quiets bs = - 1"
  shows "open_brackets fs (cur @ bs) = butlast (open_brackets fs cur)"
proof -
  have "nat (quiets cur) = Suc (nat (quiets cur - 1))" using assms by simp
  then show ?thesis using assms(2) by (cases fs rule: mults.cases) (simp_all add: butlast_append replicate_append_same [symmetric])
qed

lemma open_brackets_last:
  assumes "open_brackets fs cur \<noteq> []" "0 \<le> quiets cur"
  shows "last (open_brackets fs cur) = (if quiets cur = 0 then REPEAT else QUIET)"
  using assms by (cases fs rule: mults.cases) (auto simp: last_replicate)

lemma wf_open_quiets: "wf_open fs cur \<Longrightarrow> 0 \<le> quiets cur"
  by (cases fs rule: mults.cases) simp_all

lemma wf_open_snoc:
  "wf_open fs cur \<Longrightarrow> wf_blocks (fs \<noteq> []) bs \<Longrightarrow> 0 \<le> quiets cur + quiets bs \<Longrightarrow> wf_open fs (cur @ bs)"
  by (cases fs rule: mults.cases) simp_all

definition insn_ok :: "program \<Rightarrow> int \<Rightarrow> bool" where
  "insn_ok p w \<longleftrightarrow> (if i_ctrl (decode w) then check_control p w = Inr ()
    else check_operands p (decode w) = Inr () \<and> i_rnd (decode w) \<le> 4)"

lemma scan_plain:
  assumes s: "scanned v fs cur" and w: "wf_blocks (fs \<noteq> []) [Ins w]" and q: "quiets [Ins w] = 0"
  shows "scanned (v\<lparr>v_worst := v_worst v + last (v_mult v)\<rparr>) fs (cur @ [Ins w])"
  using s wf_open_snoc [of fs cur "[Ins w]"] open_brackets_quiet(1) [of cur "[Ins w]" fs] w q wf_open_quiets [of fs cur]
  by (simp add: scanned_def open_snoc del: wf_blocks.simps quiets.simps)

lemma scan_quiet:
  assumes s: "scanned v fs cur" and w: "is_ctrl QUIET w"
  shows "scanned (v\<lparr>v_worst := v_worst v + last (v_mult v), v_qdepth := v_qdepth v + 1,
    v_brackets := v_brackets v @ [(QUIET, pc)]\<rparr>) fs (cur @ [Ins w])"
proof -
  have "wf_blocks (fs \<noteq> []) [Ins w]" "quiets [Ins w] = 1" using w by (auto simp: is_ctrl_def ctrl_defs)
  then show ?thesis
    using s wf_open_snoc [of fs cur "[Ins w]"] open_brackets_quiet(2) [of cur "[Ins w]" fs] wf_open_quiets [of fs cur]
    by (simp add: scanned_def open_snoc del: wf_blocks.simps quiets.simps)
qed

lemma scan_endquiet:
  assumes s: "scanned v fs cur" and w: "is_ctrl ENDQUIET w" and b: "v_brackets v \<noteq> []" "fst (last (v_brackets v)) = QUIET"
  shows "scanned (v\<lparr>v_worst := v_worst v + last (v_mult v), v_qdepth := v_qdepth v - 1,
    v_brackets := butlast (v_brackets v)\<rparr>) fs (cur @ [Ins w])"
proof -
  have i: "wf_blocks (fs \<noteq> []) [Ins w]" "quiets [Ins w] = - 1" using w by (auto simp: is_ctrl_def ctrl_defs)
  have ne: "open_brackets fs cur \<noteq> []" using s b(1) by (auto simp: scanned_def)
  have "last (open_brackets fs cur) = QUIET" using s b last_map [of "v_brackets v" fst] by (simp add: scanned_def)
  moreover have q0: "0 \<le> quiets cur" using s wf_open_quiets [of fs cur] by (simp add: scanned_def)
  ultimately have "(if quiets cur = 0 then REPEAT else QUIET) = QUIET" using open_brackets_last [OF ne] by simp
  then have q: "0 < quiets cur" using q0 by (simp add: REPEAT_def QUIET_def split: if_splits)
  show ?thesis
    using s i wf_open_snoc [of fs cur "[Ins w]"] open_brackets_endquiet [OF q i(2), of fs] q
    by (simp add: scanned_def open_snoc map_butlast del: wf_blocks.simps quiets.simps)
qed

lemma scan_repeat:
  assumes s: "scanned v fs cur" and w: "is_ctrl REPEAT w" "trip w \<noteq> 0"
  shows "scanned (v\<lparr>v_worst := v_worst v + last (v_mult v), v_depth := v_depth v + 1,
    v_mult := v_mult v @ [last (v_mult v) * trip w], v_brackets := v_brackets v @ [(REPEAT, pc)]\<rparr>) ((w, cur) # fs) []"
proof -
  have "0 < trip w" using w(2) trip_nonneg [of w] by linarith
  then show ?thesis using s w by (simp add: scanned_def)
qed

lemma scan_endrep:
  assumes s: "scanned v fs cur" and w: "is_ctrl ENDREP w" and d: "0 < v_depth v" and b: "v_brackets v \<noteq> []" "fst (last (v_brackets v)) = REPEAT"
  obtains gs before r where "fs = (r, before) # gs"
    "scanned (v\<lparr>v_worst := v_worst v + last (v_mult v), v_depth := v_depth v - 1,
      v_brackets := butlast (v_brackets v), v_mult := butlast (v_mult v)\<rparr>) gs (before @ [Loop r w cur])"
proof -
  have ne: "open_brackets fs cur \<noteq> []" using s b(1) by (auto simp: scanned_def)
  have "last (open_brackets fs cur) = REPEAT" using s b last_map [of "v_brackets v" fst] by (simp add: scanned_def)
  moreover have q0: "0 \<le> quiets cur" using s wf_open_quiets [of fs cur] by (simp add: scanned_def)
  ultimately have "(if quiets cur = 0 then REPEAT else QUIET) = REPEAT" using open_brackets_last [OF ne] by simp
  then have q: "quiets cur = 0" using q0 by (simp add: REPEAT_def QUIET_def split: if_splits)
  obtain r before gs where fs: "fs = (r, before) # gs" using s d by (cases fs rule: mults.cases) (auto simp: scanned_def)
  have "wf_open gs (before @ [Loop r w cur])"
    using s fs w q by (intro wf_open_snoc) (auto simp: scanned_def wf_open_quiets)
  then have "scanned (v\<lparr>v_worst := v_worst v + last (v_mult v), v_depth := v_depth v - 1,
      v_brackets := butlast (v_brackets v), v_mult := butlast (v_mult v)\<rparr>) gs (before @ [Loop r w cur])"
    using s fs q open_brackets_quiet(1) [of before "[Loop r w cur]" gs] wf_open_quiets [of gs before]
    by (simp add: scanned_def open_snoc map_butlast butlast_append algebra_simps)
  then show ?thesis by (rule that [OF fs])
qed

lemma scan_step:
  assumes s: "scanned v fs cur" and v: "validate_insn p v (pc, w) = Inr v'"
  obtains fs' cur' where "scanned v' fs' cur'" "opened fs' cur' = opened fs cur @ [w]" "insn_ok p w"
proof (cases "i_ctrl (decode w)")
  case False
  then have "v' = v\<lparr>v_worst := v_worst v + last (v_mult v)\<rparr>" "insn_ok p w"
    using v by (auto simp: validate_insn_def insn_ok_def bind_r_eq_Inr Let_def split: if_splits)
  then show ?thesis using that [of fs "cur @ [Ins w]"] scan_plain [OF s, of w] False by (simp add: open_snoc is_ctrl_def)
next
  case True
  let ?v = "v\<lparr>v_worst := v_worst v + last (v_mult v)\<rparr>"
  have ok: "insn_ok p w" and n: "check_nesting pc (decode w) ?v = Inr v'"
    using v True by (auto simp: validate_insn_def insn_ok_def bind_r_eq_Inr Let_def split: if_splits)
  have c: "is_ctrl code w \<longleftrightarrow> i_op (decode w) = code" for code using True by (simp add: is_ctrl_def)
  consider "is_ctrl REPEAT w" | "is_ctrl ENDREP w" | "is_ctrl QUIET w" | "is_ctrl ENDQUIET w" |
    "\<not> is_ctrl REPEAT w" "\<not> is_ctrl ENDREP w" "\<not> is_ctrl QUIET w" "\<not> is_ctrl ENDQUIET w" by blast
  then show ?thesis
  proof cases
    case 1
    have "trip w \<noteq> 0" and "v' = ?v\<lparr>v_depth := v_depth ?v + 1, v_mult := v_mult ?v @ [last (v_mult ?v) * trip w],
        v_brackets := v_brackets ?v @ [(REPEAT, pc)]\<rparr>"
      using n 1 by (auto simp: check_nesting_def c trip_def Let_def split: if_splits)
    then show ?thesis using that [of "(w, cur) # fs" "[]"] scan_repeat [OF s 1, of pc] ok by simp
  next
    case 2
    have v': "0 < v_depth v" "v_brackets v \<noteq> []" "fst (last (v_brackets v)) = REPEAT"
      "v' = ?v\<lparr>v_depth := v_depth v - 1, v_brackets := butlast (v_brackets v), v_mult := butlast (v_mult v)\<rparr>"
      using n 2 unfolding check_nesting_def Let_def c by (simp_all add: ctrl_defs split: if_splits)
    obtain gs before r where "fs = (r, before) # gs" "scanned v' gs (before @ [Loop r w cur])"
      by (rule scan_endrep [OF s 2 v'(1-3)]) (simp add: v'(4))
    then show ?thesis using that [of gs "before @ [Loop r w cur]"] ok by (simp add: open_snoc)
  next
    case 3
    have "v' = ?v\<lparr>v_qdepth := v_qdepth v + 1, v_brackets := v_brackets v @ [(QUIET, pc)]\<rparr>"
      using n 3 unfolding check_nesting_def Let_def c by (simp add: ctrl_defs split: if_splits)
    then show ?thesis using that [of fs "cur @ [Ins w]"] scan_quiet [OF s 3, of pc] ok by (simp add: open_snoc)
  next
    case 4
    have v': "v_brackets v \<noteq> []" "fst (last (v_brackets v)) = QUIET"
      "v' = ?v\<lparr>v_qdepth := v_qdepth v - 1, v_brackets := butlast (v_brackets v)\<rparr>"
      using n 4 unfolding check_nesting_def Let_def c by (simp_all add: ctrl_defs split: if_splits)
    then show ?thesis using that [of fs "cur @ [Ins w]"] scan_endquiet [OF s 4 v'(1,2)] ok by (simp add: open_snoc)
  next
    case 5
    then have "v' = ?v" "fs \<noteq> [] \<longrightarrow> \<not> is_ctrl HALT w \<and> \<not> is_ctrl ACTALL w"
      using n s unfolding check_nesting_def Let_def c by (auto simp: scanned_def split: if_splits)
    then show ?thesis using that [of fs "cur @ [Ins w]"] scan_plain [OF s, of w] ok 5 by (simp add: open_snoc)
  qed
qed

lemma scan_all:
  "fold_r (validate_insn p) v (enumerate k ws) = Inr v' \<Longrightarrow> scanned v fs cur \<Longrightarrow>
    \<exists>fs' cur'. scanned v' fs' cur' \<and> opened fs' cur' = opened fs cur @ ws \<and> (\<forall>w \<in> set ws. insn_ok p w)"
proof (induction ws arbitrary: k v fs cur)
  case (Cons w ws)
  from Cons.prems(1) obtain v1 where v1: "validate_insn p v (k, w) = Inr v1"
    "fold_r (validate_insn p) v1 (enumerate (Suc k) ws) = Inr v'" by (auto simp: bind_r_eq_Inr)
  from scan_step [OF Cons.prems(2) v1(1)] obtain fs1 cur1 where
    s1: "scanned v1 fs1 cur1" "opened fs1 cur1 = opened fs cur @ [w]" "insn_ok p w" by blast
  from Cons.IH [OF v1(2) s1(1)] show ?case using s1(2,3) by auto
qed auto

theorem validate_blocks:
  assumes "validate p = Inr ()"
  obtains bs where "p_insns p = flatten bs" "wf_blocks False bs" "quiets bs = 0" "cost bs \<le> MAX_INSTRUCTIONS"
    "\<forall>w \<in> set (p_insns p). insn_ok p w"
proof -
  from assms obtain v where v: "fold_r (validate_insn p) vstart (enumerate 0 (p_insns p)) = Inr v"
    "v_depth v = 0" "v_qdepth v = 0" "v_worst v \<le> MAX_INSTRUCTIONS"
    by (auto simp: validate_def bind_r_eq_Inr split: if_splits)
  have "scanned vstart [] []" by (simp add: scanned_def vstart_def)
  from scan_all [OF v(1) this] obtain fs bs where
    s: "scanned v fs bs" "opened fs bs = p_insns p" "\<forall>w \<in> set (p_insns p). insn_ok p w" by auto
  then have "fs = []" using v(2) by (simp add: scanned_def)
  then show ?thesis using that [of bs] s v by (simp add: scanned_def)
qed

end
