(* ===== verification/SeqExec.thy ===== *)
theory SeqExec
  imports SeqBlocks
begin

text \<open>
  The instruction loop against the block structure. \<open>xblocks\<close> executes blocks by recursion, without a
  program counter or a stack; the refinement lemma says that the flat loop \<open>exec\<close>, started at the
  address of a sequence of blocks, does exactly that and arrives behind it. With it a validated program
  is shown to end within its worst-case count, and the early exit to change nothing but that count.
\<close>

section \<open>Executing blocks\<close>

definition idle :: "renv \<Rightarrow> mach \<Rightarrow> bool" where
  "idle env m \<longleftrightarrow> e_early env \<and> \<not> any_active m"

type_synonym xstate = "mach \<times> int"

primrec iter_loop :: "(xstate \<Rightarrow> xstate result) \<Rightarrow> (mach \<Rightarrow> bool) \<Rightarrow> nat \<Rightarrow> xstate \<Rightarrow> xstate result" where
  "iter_loop body stop 0 s = Inr s"
| "iter_loop body stop (Suc k) s = bind_r (body s) (\<lambda>(m, x).
     if k = 0 \<or> stop m then Inr (m, x + 1) else iter_loop body stop k (m, x + 1))"

fun xblocks :: "renv \<Rightarrow> block list \<Rightarrow> xstate \<Rightarrow> xstate result" where
  "xblocks env [] s = Inr s"
| "xblocks env (Ins w # bs) s = bind_r (lane_step env (decode w) (fst s)) (\<lambda>m. xblocks env bs (m, snd s + 1))"
| "xblocks env (Loop r e body # bs) s =
    bind_r (if idle env (fst s) then Inr (fst s, snd s + 1)
            else iter_loop (\<lambda>s. xblocks env body s) (idle env) (nat (trip r)) (fst s, snd s + 1)) (\<lambda>s. xblocks env bs s)"

lemma xblocks_append: "xblocks env (bs @ cs) s = bind_r (xblocks env bs s) (xblocks env cs)"
  by (induction bs arbitrary: s rule: flatten.induct) (simp_all add: bind_r_assoc fun_eq_iff cong: bind_r_cong)

fun is_halt :: "block \<Rightarrow> bool" where
  "is_halt (Ins w) = is_ctrl HALT w"
| "is_halt (Loop r e body) = False"

fun xtop :: "renv \<Rightarrow> block list \<Rightarrow> xstate \<Rightarrow> xstate result" where
  "xtop env [] s = Inr s"
| "xtop env (b # bs) s = (if is_halt b then Inr (fst s, snd s + 1) else bind_r (xblocks env [b] s) (xtop env bs))"

section \<open>One turn of the flat loop\<close>

definition run_from :: "renv \<Rightarrow> nat \<Rightarrow> (nat \<times> int) list \<Rightarrow> xstate \<Rightarrow> (ctl \<times> mach) result option" where
  "run_from env pc st s = exec env \<lparr>c_pc = pc, c_stack = st, c_executed = snd s\<rparr> (fst s)"

definition at_word :: "renv \<Rightarrow> nat \<Rightarrow> int \<Rightarrow> bool" where
  "at_word env pc w \<longleftrightarrow> e_budget env = None \<and> pc < length (p_insns (e_prog env)) \<and> p_insns (e_prog env) ! pc = w"

lemma at_wordI: "e_budget env = None \<Longrightarrow> p_insns (e_prog env) = pre @ w # post \<Longrightarrow> at_word env (length pre) w"
  by (simp add: at_word_def)

lemma turn:
  assumes "at_word env pc w"
  shows "run_from env pc st s =
    (case exec_insn env \<lparr>c_pc = pc, c_stack = st, c_executed = snd s\<rparr> (fst s) of
       Inl e \<Rightarrow> Some (Inl e)
     | Inr (c', m', go) \<Rightarrow> if go then exec env c' m' else Some (Inr (c', m')))"
  unfolding run_from_def using assms by (subst exec.simps) (simp add: at_word_def)

lemma turn_halt: "at_word env pc w \<Longrightarrow> is_ctrl HALT w \<Longrightarrow>
    run_from env pc st s = Some (Inr (\<lparr>c_pc = pc, c_stack = st, c_executed = snd s + 1\<rparr>, fst s))"
  by (subst turn, assumption) (simp add: exec_insn_def Let_def at_word_def is_ctrl_def)

lemma turn_plain:
  assumes "at_word env pc w" "\<not> is_ctrl HALT w" "\<not> is_ctrl REPEAT w" "\<not> is_ctrl ENDREP w"
  shows "run_from env pc st s = (case lane_step env (decode w) (fst s) of
      Inl e \<Rightarrow> Some (Inl e) | Inr m \<Rightarrow> run_from env (Suc pc) st (m, snd s + 1))"
  unfolding turn [OF assms(1)] using assms
  by (auto simp: exec_insn_def Let_def at_word_def is_ctrl_def run_from_def split: sum.split)

lemma turn_enter:
  assumes "at_word env pc w" "is_ctrl REPEAT w" "trip w \<noteq> 0" "\<not> idle env (fst s)"
  shows "run_from env pc st s = run_from env (Suc pc) ((Suc pc, trip w) # st) (fst s, snd s + 1)"
  unfolding turn [OF assms(1)] using assms
  by (auto simp: exec_insn_def Let_def at_word_def is_ctrl_def run_from_def trip_def idle_def ctrl_defs)

lemma turn_skip:
  assumes "at_word env pc w" "is_ctrl REPEAT w" "idle env (fst s)" "matching_endrep (drop pc (p_insns (e_prog env))) 0 pc = Inr j"
  shows "run_from env pc st s = run_from env (Suc j) st (fst s, snd s + 1)"
  unfolding turn [OF assms(1)] using assms
  by (simp add: exec_insn_def Let_def at_word_def is_ctrl_def run_from_def idle_def ctrl_defs)

lemma turn_endrep:
  assumes "at_word env pc w" "is_ctrl ENDREP w"
  shows "run_from env pc ((b, l) # st) s =
    (if 0 < l - 1 \<and> \<not> idle env (fst s) then run_from env b ((b, l - 1) # st) (fst s, snd s + 1)
     else run_from env (Suc pc) st (fst s, snd s + 1))"
  unfolding turn [OF assms(1)] using assms
  by (auto simp: exec_insn_def Let_def at_word_def is_ctrl_def run_from_def idle_def ctrl_defs)

section \<open>The refinement\<close>

lemma matching_body:
  "wf_blocks inner bs \<Longrightarrow> 0 < d \<Longrightarrow> matching_endrep (flatten bs @ ws) d j = matching_endrep ws d (j + length (flatten bs))"
proof (induction bs arbitrary: j d ws inner rule: flatten.induct)
  case (2 w bs)
  then show ?case by (auto simp: is_ctrl_def Let_def)
next
  case (3 r e body bs)
  then have "matching_endrep (flatten (Loop r e body # bs) @ ws) d j
      = matching_endrep (flatten body @ e # flatten bs @ ws) (d + 1) (Suc j)" by (simp add: is_ctrl_def Let_def)
  also have "\<dots> = matching_endrep (e # flatten bs @ ws) (d + 1) (Suc j + length (flatten body))"
    using 3 by (intro "3.IH"(1)) auto
  also have "\<dots> = matching_endrep (flatten bs @ ws) d (Suc (Suc j + length (flatten body)))"
    using 3 by (simp add: is_ctrl_def Let_def ctrl_defs)
  also have "\<dots> = matching_endrep ws d (Suc (Suc j + length (flatten body)) + length (flatten bs))"
    using 3 by (intro "3.IH"(2)) auto
  also have "Suc (Suc j + length (flatten body)) + length (flatten bs) = j + length (flatten (Loop r e body # bs))" by simp
  finally show ?case .
qed simp

lemma matching_loop:
  "is_ctrl REPEAT r \<Longrightarrow> is_ctrl ENDREP e \<Longrightarrow> wf_blocks True body \<Longrightarrow>
    matching_endrep (r # flatten body @ e # ws) 0 j = Inr (Suc j + length (flatten body))"
  using matching_body [of True body 1 "e # ws" "Suc j"] by (simp add: is_ctrl_def Let_def ctrl_defs)

definition arrive :: "renv \<Rightarrow> nat \<Rightarrow> (nat \<times> int) list \<Rightarrow> xstate result \<Rightarrow> (ctl \<times> mach) result option" where
  "arrive env pc st r = (case r of Inl e \<Rightarrow> Some (Inl e) | Inr s \<Rightarrow> run_from env pc st s)"

lemma arrive_simps [simp]:
  "arrive env pc st (Inl e) = Some (Inl e)" "arrive env pc st (Inr s) = run_from env pc st s"
  by (simp_all add: arrive_def)

lemma arrive_bind:
  "(\<And>s. run_from env pc st s = arrive env pc' st' (f s)) \<Longrightarrow> arrive env pc st r = arrive env pc' st' (bind_r r f)"
  by (cases r) simp_all

lemma wf_inner_not_halt: "wf_blocks True bs \<Longrightarrow> \<forall>b \<in> set bs. \<not> is_halt b"
  by (induction "True" bs rule: wf_blocks.induct) auto

lemma iter_refines:
  assumes body: "\<And>st s. run_from env b st s = arrive env pc st (f s)"
    and e: "at_word env pc e" "is_ctrl ENDREP e"
  shows "0 < k \<Longrightarrow> run_from env b ((b, int k) # st) s = arrive env (Suc pc) st (iter_loop f (idle env) k s)"
proof (induction k arbitrary: s)
  case (Suc k)
  show ?case
  proof (cases "f s")
    case (Inr t)
    obtain m x where t: "t = (m, x)" by fastforce
    have "run_from env b ((b, int (Suc k)) # st) s = run_from env pc ((b, int (Suc k)) # st) (m, x)"
      using body [of "(b, int (Suc k)) # st" s] Inr t by simp
    then show ?thesis
      using turn_endrep [OF e, of b "int (Suc k)" st "(m, x)"] Suc.IH [of "(m, x + 1)"] Inr t
      by (cases "0 < k \<and> \<not> idle env m") auto
  qed (use body in simp)
qed simp

lemma exec_blocks:
  assumes b: "e_budget env = None"
  shows "p_insns (e_prog env) = pre @ flatten bs @ post \<Longrightarrow> wf_blocks inner bs \<Longrightarrow> \<forall>b \<in> set bs. \<not> is_halt b \<Longrightarrow>
    run_from env (length pre) st s = arrive env (length pre + length (flatten bs)) st (xblocks env bs s)"
proof (induction bs arbitrary: pre post st s inner rule: flatten.induct)
  case (2 w bs)
  have a: "at_word env (length pre) w" by (rule at_wordI [OF b]) (use 2 in simp)
  have "run_from env (Suc (length pre)) st t = arrive env (Suc (length pre) + length (flatten bs)) st (xblocks env bs t)" for t
    using "2.IH" [of "pre @ [w]" post inner st t] 2 by simp
  then show ?case using turn_plain [OF a, of st s] 2 by (auto split: sum.split)
next
  case (3 r e body bs)
  let ?n = "length pre" and ?k = "length (flatten body)"
  have w: "is_ctrl REPEAT r" "is_ctrl ENDREP e" "0 < trip r" "wf_blocks True body" "wf_blocks inner bs" using 3 by simp_all
  have ar: "at_word env ?n r" by (rule at_wordI [OF b]) (use 3 in simp)
  have ae: "at_word env (Suc ?n + ?k) e" using at_wordI [OF b, of "pre @ r # flatten body" e "flatten bs @ post"] 3 by simp
  have rest: "run_from env (Suc (Suc ?n + ?k)) st t = arrive env (?n + length (flatten (Loop r e body # bs))) st (xblocks env bs t)" for t
    using "3.IH"(2) [of "pre @ r # flatten body @ [e]" post inner st t] 3 by (simp add: algebra_simps)
  show ?case
  proof (cases "idle env (fst s)")
    case True
    have "matching_endrep (drop ?n (p_insns (e_prog env))) 0 ?n = Inr (Suc ?n + ?k)"
      using matching_loop [OF w(1,2,4), of "flatten bs @ post" ?n] 3 by simp
    then show ?thesis using turn_skip [OF ar w(1) True] rest [of "(fst s, snd s + 1)"] True by simp
  next
    case False
    have body: "run_from env (Suc ?n) st' t = arrive env (Suc ?n + ?k) st' (xblocks env body t)" for st' t
      using "3.IH"(1) [of "pre @ [r]" "e # flatten bs @ post" True st' t] wf_inner_not_halt [OF w(4)] w 3 by simp
    have "run_from env ?n st s = run_from env (Suc ?n) ((Suc ?n, int (nat (trip r))) # st) (fst s, snd s + 1)"
      using turn_enter [OF ar w(1) _ False] w(3) by simp
    also have "\<dots> = arrive env (Suc (Suc ?n + ?k)) st (iter_loop (xblocks env body) (idle env) (nat (trip r)) (fst s, snd s + 1))"
      by (rule iter_refines [OF body ae w(2)]) (use w(3) in simp)
    also have "\<dots> = arrive env (?n + length (flatten (Loop r e body # bs))) st (xblocks env (Loop r e body # bs) s)"
      unfolding xblocks.simps using False by (simp only: if_False) (rule arrive_bind [OF rest])
    finally show ?thesis .
  qed
qed (simp split: sum.split)

lemma exec_top:
  assumes b: "e_budget env = None"
  shows "p_insns (e_prog env) = pre @ flatten bs \<Longrightarrow> wf_blocks False bs \<Longrightarrow>
    (case xtop env bs s of Inl e \<Rightarrow> run_from env (length pre) st s = Some (Inl e)
     | Inr t \<Rightarrow> \<exists>c. run_from env (length pre) st s = Some (Inr (c, fst t)) \<and> c_executed c = snd t)"
proof (induction bs arbitrary: pre s)
  case Nil
  then show ?case unfolding run_from_def by (subst exec.simps) simp
next
  case (Cons b bs)
  have w: "wf_blocks False [b]" "wf_blocks False bs" and f: "flatten (b # bs) = flatten [b] @ flatten bs"
    using Cons.prems(2) wf_blocks_append [of False "[b]" bs] flatten_append [of "[b]" bs] by simp_all
  show ?case
  proof (cases "is_halt b")
    case True
    then obtain w where bw: "b = Ins w" "is_ctrl HALT w" by (cases b) simp_all
    have "at_word env (length pre) w" by (rule at_wordI [OF b]) (use Cons.prems bw in simp)
    from turn_halt [OF this bw(2)] show ?thesis using True by simp
  next
    case False
    have e: "run_from env (length pre) st s = arrive env (length pre + length (flatten [b])) st (xblocks env [b] s)"
      by (rule exec_blocks [OF b _ w(1), where post = "flatten bs"]) (use Cons.prems f False in simp_all)
    show ?thesis
    proof (cases "xblocks env [b] s")
      case (Inr t)
      have "p_insns (e_prog env) = (pre @ flatten [b]) @ flatten bs" using Cons.prems(1) f by simp
      note ih = Cons.IH [OF this w(2), of t]
      have l: "run_from env (length pre) st s = run_from env (length (pre @ flatten [b])) st t"
        using e by (simp only: Inr arrive_simps length_append)
      show ?thesis unfolding l xtop.simps using ih False by (simp only: if_False Inr bind_r_simps)
    qed (use e False in \<open>simp del: xblocks.simps\<close>)
  qed
qed

section \<open>Lanes that are off\<close>

definition sized :: "renv \<Rightarrow> mach \<Rightarrow> bool" where
  "sized env m \<longleftrightarrow> length (m_active m) = n_lanes env"

lemma fold_r_inv:
  "(\<And>s x s'. P s \<Longrightarrow> f s x = Inr s' \<Longrightarrow> P s') \<Longrightarrow> P s \<Longrightarrow> fold_r f s xs = Inr s' \<Longrightarrow> P s'"
  by (induction xs arbitrary: s) (auto simp: bind_r_eq_Inr)

lemma each_active_inv:
  assumes "each_active env f m = Inr m'" "P m" "\<And>i m m'. P m \<Longrightarrow> f i m = Inr m' \<Longrightarrow> P m'"
  shows "P m'"
  by (rule fold_r_inv [where P = P, OF _ assms(2) assms(1) [unfolded each_active_def]]) (use assms(3) in \<open>auto split: if_splits\<close>)

lemma each_active_idle: "sized env m \<Longrightarrow> \<not> any_active m \<Longrightarrow> each_active env f m = Inr m"
proof -
  assume a: "sized env m" "\<not> any_active m"
  have off: "\<not> m_active m ! i" if "i < n_lanes env" for i
    using a that by (auto simp: any_active_def sized_def list_ex_length)
  have "fold_r (\<lambda>m i. if m_active m ! i then f i m else Inr m) m is = Inr m" if "set is \<subseteq> {..<n_lanes env}" for "is"
    using that off by (induction "is") auto
  then show ?thesis by (simp add: each_active_def atLeast_upt)
qed

lemmas lane_ops = set_reg_def or_lane_def or_flags_def or_status_def

lemma sized_lane:
  "alu_lane env d i m = Inr m' \<Longrightarrow> m_active m' = m_active m"
  "deposit_lane env d i m = Inr m' \<Longrightarrow> m_active m' = m_active m"
  "raise_lane env d i m = Inr m' \<Longrightarrow> m_active m' = m_active m"
  "memory_lane env d i m = Inr m' \<Longrightarrow> m_active m' = m_active m"
  "setact_lane env d i m = Inr m' \<Longrightarrow> length (m_active m') = length (m_active m)"
  by (auto simp: alu_lane_def bind_r_eq_Inr lane_ops Let_def split: list.splits if_splits)
    (auto simp: deposit_lane_def raise_lane_def memory_lane_def setact_lane_def bind_r_eq_Inr lane_ops Let_def split: if_splits)

lemma sized_each:
  assumes "each_active env f m = Inr m'" "sized env m" "\<And>i m m'. f i m = Inr m' \<Longrightarrow> length (m_active m') = length (m_active m)"
  shows "sized env m'"
  by (rule each_active_inv [OF assms(1), where P = "sized env", OF assms(2)]) (use assms(3) in \<open>simp add: sized_def\<close>)

lemma augmented_inv:
  assumes a: "augmented_half env d loud m = Inr (m', raised)" and p: "P m"
    and l: "\<And>i m m' fl. P m \<Longrightarrow> augmented_lane env d loud i m = Inr (m', fl) \<Longrightarrow> P m'"
  shows "P m'"
proof -
  have "P (fst (m', raised))"
    by (rule fold_r_inv [where P = "\<lambda>s. P (fst s)", OF _ _ a [unfolded augmented_half_def]])
      (use p l in \<open>auto simp: bind_r_eq_Inr split: if_splits\<close>)
  then show ?thesis by simp
qed

lemma augmented_lane_active: "augmented_lane env d loud i m = Inr (m', fl) \<Longrightarrow> m_active m' = m_active m"
  by (auto simp: augmented_lane_def bind_r_eq_Inr lane_ops Let_def split: if_splits)

lemma sized_augmented: "augmented_half env d loud m = Inr (m', raised) \<Longrightarrow> sized env m \<Longrightarrow> sized env m'"
  by (erule augmented_inv) (auto simp: sized_def dest: augmented_lane_active)

lemma post_step_cases:
  assumes "post_step env d m = Inr m'"
  obtains (still) "index_step d = 0 \<or> i_op d = LDX \<and> i_rd d = i_rb d" "m' = m"
    | (steps) inc where "\<not> (index_step d = 0 \<or> i_op d = LDX \<and> i_rd d = i_rb d)"
        "inc = (index_step d AND (push_bit (width (e_fmt env)) 1 - 1))" "each_active env (step_lane env d inc) m = Inr m'"
proof (cases "index_step d = 0 \<or> i_op d = LDX \<and> i_rd d = i_rb d")
  case True
  show ?thesis by (rule still [OF True]) (use assms True in \<open>auto simp: post_step_def Let_def\<close>)
next
  case False
  show ?thesis by (rule steps [OF False refl]) (use assms False in \<open>simp add: post_step_def Let_def\<close>)
qed

text \<open>One equation per instruction, and the cases of a step that succeeds.\<close>

lemma lane_step_codes:
  "\<not> i_ctrl d \<Longrightarrow> lane_step env d m = each_active env (alu_lane env d) m"
  "i_ctrl d \<Longrightarrow> i_op d = DEPOSIT \<Longrightarrow> lane_step env d m = each_active env (deposit_lane env d) m"
  "i_ctrl d \<Longrightarrow> i_op d = SETACT \<Longrightarrow> lane_step env d m = each_active env (setact_lane env d) m"
  "i_ctrl d \<Longrightarrow> i_op d = ACTALL \<Longrightarrow> lane_step env d m = Inr (m\<lparr>m_active := e_keep env\<rparr>)"
  "i_ctrl d \<Longrightarrow> i_op d = AUGADD \<or> i_op d = AUGERR \<Longrightarrow> lane_step env d m =
    bind_r (augmented_half env d (m_qdepth m = 0) m) (\<lambda>(m, raised). Inr (or_flags raised m))"
  "i_ctrl d \<Longrightarrow> i_op d = QUIET \<Longrightarrow> lane_step env d m = Inr (m\<lparr>m_qdepth := m_qdepth m + 1\<rparr>)"
  "i_ctrl d \<Longrightarrow> i_op d = ENDQUIET \<Longrightarrow> lane_step env d m = Inr (m\<lparr>m_qdepth := m_qdepth m - 1\<rparr>)"
  "i_ctrl d \<Longrightarrow> i_op d = RAISE \<Longrightarrow> lane_step env d m = each_active env (raise_lane env d) m"
  "i_ctrl d \<Longrightarrow> i_op d \<in> {STL, LDL, STX, LDX} \<Longrightarrow> lane_step env d m =
    bind_r (each_active env (memory_lane env d) m) (post_step env d)"
  "i_ctrl d \<Longrightarrow> i_op d \<notin> {DEPOSIT, SETACT, ACTALL, AUGADD, AUGERR, QUIET, ENDQUIET, RAISE, STL, LDL, STX, LDX} \<Longrightarrow>
    lane_step env d m = Inl ProgramError"
  by (auto simp: lane_step_def ctrl_defs)

lemma lane_step_cases:
  assumes r: "lane_step env d m = Inr m'"
  obtains (alu) "\<not> i_ctrl d" "each_active env (alu_lane env d) m = Inr m'"
    | (deposit) "i_ctrl d" "i_op d = DEPOSIT" "each_active env (deposit_lane env d) m = Inr m'"
    | (setact) "i_ctrl d" "i_op d = SETACT" "each_active env (setact_lane env d) m = Inr m'"
    | (actall) "i_ctrl d" "i_op d = ACTALL" "m' = m\<lparr>m_active := e_keep env\<rparr>"
    | (augmented) m1 raised where "i_ctrl d" "i_op d = AUGADD \<or> i_op d = AUGERR"
        "augmented_half env d (m_qdepth m = 0) m = Inr (m1, raised)" "m' = or_flags raised m1"
    | (quiet) "i_ctrl d" "i_op d = QUIET" "m' = m\<lparr>m_qdepth := m_qdepth m + 1\<rparr>"
    | (endquiet) "i_ctrl d" "i_op d = ENDQUIET" "m' = m\<lparr>m_qdepth := m_qdepth m - 1\<rparr>"
    | (raise) "i_ctrl d" "i_op d = RAISE" "each_active env (raise_lane env d) m = Inr m'"
    | (memory) m1 where "i_ctrl d" "i_op d \<in> {STL, LDL, STX, LDX}" "each_active env (memory_lane env d) m = Inr m1"
        "post_step env d m1 = Inr m'"
proof (cases "i_ctrl d")
  case False
  then show ?thesis using alu r by (simp add: lane_step_codes)
next
  case True
  note c = lane_step_codes(2-) [OF True]
  consider "i_op d = DEPOSIT" | "i_op d = SETACT" | "i_op d = ACTALL" | "i_op d = AUGADD \<or> i_op d = AUGERR" | "i_op d = QUIET"
    | "i_op d = ENDQUIET" | "i_op d = RAISE" | "i_op d \<in> {STL, LDL, STX, LDX}"
    | "i_op d \<notin> {DEPOSIT, SETACT, ACTALL, AUGADD, AUGERR, QUIET, ENDQUIET, RAISE, STL, LDL, STX, LDX}" by blast
  then show ?thesis
  proof cases
    case 1 show ?thesis by (rule deposit [OF True 1]) (use r c(1) [OF 1] in simp)
  next case 2 show ?thesis by (rule setact [OF True 2]) (use r c(2) [OF 2] in simp)
  next case 3 show ?thesis by (rule actall [OF True 3]) (use r c(3) [OF 3] in simp)
  next case 4 show ?thesis using r augmented [OF True 4] unfolding c(4) [OF 4] by (auto simp: bind_r_eq_Inr)
  next case 5 show ?thesis by (rule quiet [OF True 5]) (use r c(5) [OF 5] in simp)
  next case 6 show ?thesis by (rule endquiet [OF True 6]) (use r c(6) [OF 6] in simp)
  next case 7 show ?thesis by (rule raise [OF True 7]) (use r c(7) [OF 7] in simp)
  next case 8 show ?thesis using r memory [OF True 8] unfolding c(8) [OF 8] by (auto simp: bind_r_eq_Inr)
  next case 9 show ?thesis using r unfolding c(9) [OF 9] by simp
  qed
qed

lemma sized_post_step: "post_step env d m = Inr m' \<Longrightarrow> sized env m \<Longrightarrow> sized env m'"
proof (erule post_step_cases)
  fix inc assume "each_active env (step_lane env d inc) m = Inr m'" "sized env m"
  then show "sized env m'" by (rule sized_each) (auto simp: step_lane_def set_reg_def)
qed simp

lemma sized_step:
  assumes s: "sized env m" and r: "lane_step env d m = Inr m'"
  shows "sized env m'"
  using r
proof (cases rule: lane_step_cases)
  case (memory m1)
  then show ?thesis using sized_post_step sized_each [OF memory(3) s] sized_lane(4) by metis
next
  case (augmented m1 raised)
  then show ?thesis using sized_augmented [OF augmented(3) s] by (simp add: sized_def or_flags_def)
next
  case alu then show ?thesis using sized_each [OF alu(2) s] sized_lane(1) by metis
next
  case deposit then show ?thesis using sized_each [OF deposit(3) s] sized_lane(2) by metis
next
  case setact then show ?thesis using sized_each [OF setact(3) s] sized_lane(5) by metis
next
  case raise then show ?thesis using sized_each [OF raise(3) s] sized_lane(3) by metis
qed (use s in \<open>simp_all add: sized_def n_lanes_def\<close>)

definition known_word :: "int \<Rightarrow> bool" where
  "known_word w \<longleftrightarrow> (i_ctrl (decode w) \<longrightarrow> CTRL_NAMES (i_op (decode w)) \<noteq> None)"

lemma known_code: "CTRL_NAMES c \<noteq> None \<Longrightarrow> c \<in> {HALT, REPEAT, ENDREP, DEPOSIT, SETACT, ACTALL, STL, LDL, STX, LDX, AUGADD, AUGERR, QUIET, ENDQUIET, RAISE}"
  by (auto simp: CTRL_NAMES_def split: if_splits)

lemma augmented_idle: "sized env m \<Longrightarrow> \<not> any_active m \<Longrightarrow> augmented_half env d loud m = Inr (m, 0)"
proof -
  assume a: "sized env m" "\<not> any_active m"
  have off: "\<not> m_active m ! i" if "i < n_lanes env" for i
    using a that by (auto simp: any_active_def sized_def list_ex_length)
  have "fold_r (\<lambda>(m, raised) i. if \<not> m_active m ! i then Inr (m, raised)
      else bind_r (augmented_lane env d loud i m) (\<lambda>(m1, fl). Inr (m1, raised OR fl))) (m, 0) is = Inr (m, 0)"
    if "set is \<subseteq> {..<n_lanes env}" for "is"
    using that off by (induction "is") auto
  then show ?thesis by (simp add: augmented_half_def atLeast_upt)
qed

lemma lane_step_idle:
  assumes "sized env m" "\<not> any_active m" "known_word w" "wf_blocks True [Ins w]"
  shows "lane_step env (decode w) m = Inr (m\<lparr>m_qdepth := m_qdepth m + quiets [Ins w]\<rparr>)"
proof (cases "i_ctrl (decode w)")
  case False
  then show ?thesis using assms by (simp add: lane_step_def each_active_idle is_ctrl_def)
next
  case True
  have k: "i_op (decode w) \<in> {DEPOSIT, SETACT, STL, LDL, STX, LDX, AUGADD, AUGERR, QUIET, ENDQUIET, RAISE}"
    using known_code [of "i_op (decode w)"] assms(3,4) True by (auto simp: known_word_def is_ctrl_def)
  note d = each_active_idle [OF assms(1,2)] augmented_idle [OF assms(1,2)]
  have p: "post_step env (decode w) m = Inr m" by (simp add: post_step_def d Let_def)
  have q: "quiets [Ins w] = (if i_op (decode w) = QUIET then 1 else if i_op (decode w) = ENDQUIET then - 1 else 0)"
    using True by (simp add: is_ctrl_def)
  have u: "m\<lparr>m_qdepth := m_qdepth m\<rparr> = m" "or_flags 0 m = m" by (simp_all add: or_flags_def)
  from k consider "i_op (decode w) \<in> {STL, LDL, STX, LDX}" | "i_op (decode w) \<in> {DEPOSIT, SETACT, RAISE}"
    | "i_op (decode w) = AUGADD \<or> i_op (decode w) = AUGERR" | "i_op (decode w) = QUIET" | "i_op (decode w) = ENDQUIET" by blast
  then show ?thesis
  proof cases
    case 1 show ?thesis using 1 unfolding q lane_step_codes(9) [OF True 1] d by (auto simp: p ctrl_defs)
  next case 2 then show ?thesis unfolding q using True by (auto simp: lane_step_codes d ctrl_defs)
  next case 3 then show ?thesis unfolding q lane_step_codes(5) [OF True 3] d by (auto simp: u ctrl_defs)
  next case 4 then show ?thesis unfolding q lane_step_codes(6) [OF True 4] by simp
  next case 5 then show ?thesis unfolding q lane_step_codes(7) [OF True 5] by (simp add: ctrl_defs)
  qed
qed

section \<open>The count, and the early exit\<close>

definition spends :: "int \<Rightarrow> int \<Rightarrow> xstate result \<Rightarrow> bool" where
  "spends x y r \<longleftrightarrow> (case r of Inl e \<Rightarrow> True | Inr s \<Rightarrow> x \<le> snd s \<and> snd s \<le> y)"

lemma spends_simps [simp]: "spends x y (Inl e)" "spends x y (Inr s) \<longleftrightarrow> x \<le> snd s \<and> snd s \<le> y"
  by (simp_all add: spends_def)

lemma spends_bind:
  "spends x y r \<Longrightarrow> (\<And>s. x \<le> snd s \<Longrightarrow> snd s \<le> y \<Longrightarrow> spends x z (f s)) \<Longrightarrow> spends x z (bind_r r f)"
  by (cases r) simp_all

lemma spends_mono: "spends x y r \<Longrightarrow> x' \<le> x \<Longrightarrow> y \<le> y' \<Longrightarrow> spends x' y' r"
  by (cases r) simp_all

lemma iter_spends:
  fixes f :: "xstate \<Rightarrow> xstate result"
  assumes body: "\<And>s. spends (snd s) (snd s + c) (f s)" and c: "0 \<le> c"
  shows "spends (snd s) (snd s + int k * (c + 1)) (iter_loop f stop k s)"
proof (induction k arbitrary: s)
  case (Suc k)
  have "0 \<le> int k * (c + 1)" using c by simp
  show ?case unfolding iter_loop.simps
  proof (rule spends_bind [OF body])
    fix t :: xstate assume t: "snd s \<le> snd t" "snd t \<le> snd s + c"
    obtain m x where mx: "t = (m, x)" by fastforce
    have "spends (snd s) (snd s + int (Suc k) * (c + 1)) (iter_loop f stop k (m, x + 1))"
      by (rule spends_mono [OF Suc.IH]) (use t mx in \<open>simp_all add: algebra_simps\<close>)
    moreover have "snd s \<le> x + 1 \<and> x + 1 \<le> snd s + int (Suc k) * (c + 1)"
    proof -
      have "int (Suc k) * (c + 1) = c * int k + int k + c + 1" by (simp add: algebra_simps)
      moreover have "0 \<le> c * int k" using c by simp
      ultimately show ?thesis using t unfolding mx snd_conv by linarith
    qed
    ultimately show "spends (snd s) (snd s + int (Suc k) * (c + 1))
        (case t of (m, x) \<Rightarrow> if k = 0 \<or> stop m then Inr (m, x + 1) else iter_loop f stop k (m, x + 1))"
      using mx by simp
  qed
qed simp

lemma xblocks_spends: "wf_blocks inner bs \<Longrightarrow> spends (snd s) (snd s + cost bs) (xblocks env bs s)"
proof (induction bs arbitrary: s inner rule: flatten.induct)
  case (2 w bs)
  have "spends (snd s + 1) (snd s + 1 + cost bs) (xblocks env bs (m, snd s + 1))" for m
    using "2.IH" [of inner "(m, snd s + 1)"] "2.prems" by simp
  then have "spends (snd s) (snd s + (1 + cost bs)) (xblocks env bs (m, snd s + 1))" for m by (rule spends_mono) simp_all
  then show ?case by (cases "lane_step env (decode w) (fst s)") simp_all
next
  case (3 r e body bs)
  have c: "0 \<le> cost body" and t: "0 < trip r" and w: "wf_blocks True body" "wf_blocks inner bs"
    using "3.prems" cost_nonneg [of True body] by simp_all
  have "spends (snd s + 1) (snd s + 1 + int (nat (trip r)) * (cost body + 1))
      (iter_loop (xblocks env body) (idle env) (nat (trip r)) (fst s, snd s + 1))"
    using iter_spends [where f = "xblocks env body", OF "3.IH"(1) [OF w(1)] c, of "(fst s, snd s + 1)" "nat (trip r)"] by simp
  then have "spends (snd s) (snd s + 1 + trip r * (cost body + 1))
      (if idle env (fst s) then Inr (fst s, snd s + 1)
       else iter_loop (xblocks env body) (idle env) (nat (trip r)) (fst s, snd s + 1))"
    using t c by (auto intro: spends_mono)
  then show ?case unfolding xblocks.simps
  proof (rule spends_bind)
    fix u :: xstate assume u: "snd s \<le> snd u" "snd u \<le> snd s + 1 + trip r * (cost body + 1)"
    then show "spends (snd s) (snd s + cost (Loop r e body # bs)) (xblocks env bs u)"
      by (intro spends_mono [OF "3.IH"(2) [OF w(2)]]) simp_all
  qed
qed simp

lemma xtop_spends: "wf_blocks False bs \<Longrightarrow> spends (snd s) (snd s + cost bs) (xtop env bs s)"
proof (induction bs arbitrary: s)
  case (Cons b bs)
  have w: "wf_blocks False [b]" "wf_blocks False bs" and c: "cost (b # bs) = cost [b] + cost bs"
    using Cons.prems wf_blocks_append [of False "[b]" bs] cost_append [of "[b]" bs] by simp_all
  have h: "is_halt b \<Longrightarrow> cost [b] = 1" by (cases b) simp_all
  have "spends (snd s) (snd s + cost (b # bs)) (bind_r (xblocks env [b] s) (xtop env bs))"
    by (rule spends_bind [OF xblocks_spends [OF w(1)]], rule spends_mono [OF Cons.IH [OF w(2)]]) (simp_all add: c)
  then show ?case using h cost_nonneg [OF w(2)] by (auto simp: c)
qed simp

lemma sized_blocks: "xblocks env bs s = Inr t \<Longrightarrow> sized env (fst s) \<Longrightarrow> sized env (fst t)"
proof (induction bs arbitrary: s t rule: flatten.induct)
  case (2 w bs)
  from "2.prems"(1) obtain m1 where m1: "lane_step env (decode w) (fst s) = Inr m1" "xblocks env bs (m1, snd s + 1) = Inr t"
    by (auto simp: bind_r_eq_Inr)
  show ?case by (rule "2.IH" [OF m1(2)]) (use sized_step [OF "2.prems"(2) m1(1)] in simp)
next
  case (3 r e body bs)
  have iter: "iter_loop (xblocks env body) stop k u = Inr v \<Longrightarrow> sized env (fst u) \<Longrightarrow> sized env (fst v)" for stop k u v
  proof (induction k arbitrary: u)
    case (Suc k)
    then obtain m x where b: "xblocks env body u = Inr (m, x)" by (auto simp: bind_r_eq_Inr)
    from "3.IH"(1) [OF b Suc.prems(2)] Suc.IH [of "(m, x + 1)"] Suc.prems(1) b show ?case by (auto split: if_splits)
  qed simp
  from "3.prems"(1) obtain u where u: "xblocks env bs u = Inr t"
    "(if idle env (fst s) then Inr (fst s, snd s + 1)
      else iter_loop (xblocks env body) (idle env) (nat (trip r)) (fst s, snd s + 1)) = Inr u"
    by (auto simp: bind_r_eq_Inr simp del: iter_loop.simps)
  have "sized env (fst u)" using u(2) iter [of "idle env" "nat (trip r)" "(fst s, snd s + 1)" u] "3.prems"(2) by (auto split: if_splits)
  then show ?case by (rule "3.IH"(2) [OF u(1)])
qed simp

text \<open>A body of which no lane is active moves nothing but the quiet count, and its loop not even that.\<close>

lemma iter_idle:
  assumes "\<And>x. \<exists>y. f (m, x) = Inr (m, y)"
  shows "\<exists>y. iter_loop f stop k (m, x) = Inr (m, y)"
proof (induction k arbitrary: x)
  case (Suc k)
  from assms [of x] obtain y where "f (m, x) = Inr (m, y)" by blast
  then show ?case using Suc.IH [of "y + 1"] by simp
qed simp

lemma blocks_idle:
  "sized env m \<Longrightarrow> \<not> any_active m \<Longrightarrow> wf_blocks True bs \<Longrightarrow> \<forall>w \<in> set (flatten bs). known_word w \<Longrightarrow>
    \<exists>y. xblocks env bs (m, x) = Inr (m\<lparr>m_qdepth := m_qdepth m + quiets bs\<rparr>, y)"
proof (induction bs arbitrary: m x rule: flatten.induct)
  case (2 w bs)
  let ?m = "m\<lparr>m_qdepth := m_qdepth m + quiets [Ins w]\<rparr>"
  have q: "quiets (Ins w # bs) = quiets [Ins w] + quiets bs" by simp
  have "\<exists>y. xblocks env bs (?m, x + 1) = Inr (?m\<lparr>m_qdepth := m_qdepth ?m + quiets bs\<rparr>, y)"
    by (rule "2.IH") (use "2.prems" in \<open>simp_all add: sized_def any_active_def\<close>)
  moreover have "lane_step env (decode w) m = Inr ?m" using "2.prems" by (intro lane_step_idle) simp_all
  ultimately show ?case unfolding q by (simp del: quiets.simps add: add.assoc)
next
  case (3 r e body bs)
  have body: "\<exists>y. xblocks env body (m, x) = Inr (m, y)" for x
    using "3.IH"(1) [of m x] "3.prems" by simp
  obtain y where y: "(if idle env m then Inr (m, x + 1)
      else iter_loop (xblocks env body) (idle env) (nat (trip r)) (m, x + 1)) = Inr (m, y)"
    using iter_idle [where f = "xblocks env body", OF body, of "idle env" "nat (trip r)" "x + 1"]
    by (cases "idle env m") auto
  have "\<exists>z. xblocks env bs (m, y) = Inr (m\<lparr>m_qdepth := m_qdepth m + quiets bs\<rparr>, z)"
    using "3.IH"(2) [of m y] "3.prems" by simp
  then show ?case unfolding xblocks.simps fst_conv snd_conv y bind_r_simps quiets.simps .
qed simp

lemma early_irrelevant: "lane_step (env\<lparr>e_early := b\<rparr>) d m = lane_step env d m"
proof -
  have e: "each_active (env\<lparr>e_early := b\<rparr>) f = each_active env f" for f
    by (simp add: each_active_def n_lanes_def fun_eq_iff)
  have r: "e_prog (env\<lparr>e_early := b\<rparr>) = e_prog env" "e_depth (env\<lparr>e_early := b\<rparr>) = e_depth env"
    "n_lanes (env\<lparr>e_early := b\<rparr>) = n_lanes env" by (simp_all add: n_lanes_def)
  have a: "augmented_lane (env\<lparr>e_early := b\<rparr>) = augmented_lane env" "src (env\<lparr>e_early := b\<rparr>) = src env"
    "is_strict (env\<lparr>e_early := b\<rparr>) = is_strict env"
    by (simp_all add: augmented_lane_def src_def is_strict_def fun_eq_iff)
  have "alu_lane (env\<lparr>e_early := b\<rparr>) d = alu_lane env d" by (intro ext) (simp only: alu_lane_def a r)
  moreover have "deposit_lane (env\<lparr>e_early := b\<rparr>) d = deposit_lane env d" by (intro ext) (simp only: deposit_lane_def a r)
  moreover have "setact_lane (env\<lparr>e_early := b\<rparr>) d = setact_lane env d" by (intro ext) (simp only: setact_lane_def a r)
  moreover have "raise_lane (env\<lparr>e_early := b\<rparr>) d = raise_lane env d" by (intro ext) (simp only: raise_lane_def a r)
  moreover have "memory_lane (env\<lparr>e_early := b\<rparr>) d = memory_lane env d" by (intro ext) (simp only: memory_lane_def a r)
  moreover have "post_step (env\<lparr>e_early := b\<rparr>) d = post_step env d" by (intro ext) (simp only: post_step_def step_lane_def [abs_def] a r e)
  moreover have "augmented_half (env\<lparr>e_early := b\<rparr>) d = augmented_half env d" by (intro ext) (simp only: augmented_half_def a r)
  ultimately show ?thesis by (simp add: lane_step_def e)
qed

text \<open>The same machine, and no more instructions.\<close>

definition sooner :: "xstate result \<Rightarrow> xstate result \<Rightarrow> bool" where
  "sooner r r' \<longleftrightarrow> (case r of Inl e \<Rightarrow> r' = Inl e | Inr s \<Rightarrow> \<exists>y. r' = Inr (fst s, y) \<and> snd s \<le> y)"

lemma sooner_simps [simp]:
  "sooner (Inl e) r \<longleftrightarrow> r = Inl e" "sooner (Inr (m, x)) r \<longleftrightarrow> (\<exists>y. r = Inr (m, y) \<and> x \<le> y)"
  by (simp_all add: sooner_def)

lemma sooner_bind:
  "sooner r r' \<Longrightarrow> (\<And>m x y. r = Inr (m, x) \<Longrightarrow> x \<le> y \<Longrightarrow> sooner (f (m, x)) (g (m, y))) \<Longrightarrow> sooner (bind_r r f) (bind_r r' g)"
  by (cases r) auto

lemma iter_sooner:
  assumes body: "\<And>m x y. x \<le> y \<Longrightarrow> sized env m \<Longrightarrow> sooner (f (m, x)) (g (m, y))"
    and sz: "\<And>s t. f s = Inr t \<Longrightarrow> sized env (fst s) \<Longrightarrow> sized env (fst t)"
    and off: "\<And>m x. sized env m \<Longrightarrow> \<not> any_active m \<Longrightarrow> \<exists>y. g (m, x) = Inr (m, y)"
    and up: "\<And>m x. spends x (x + c) (g (m, x))" and c: "0 \<le> c"
  shows "x \<le> y \<Longrightarrow> sized env m \<Longrightarrow>
    sooner (iter_loop f (\<lambda>m. \<not> any_active m) k (m, x)) (iter_loop g (\<lambda>m. False) k (m, y))"
proof (induction k arbitrary: m x y)
  case (Suc k)
  show ?case unfolding iter_loop.simps
  proof (rule sooner_bind [OF body [OF Suc.prems]])
    fix m1 x1 y1 assume r: "f (m, x) = Inr (m1, x1)" "x1 \<le> y1"
    have s1: "sized env m1" using sz [OF r(1)] Suc.prems(2) by simp
    show "sooner (case (m1, x1) of (m, x) \<Rightarrow> if k = 0 \<or> \<not> any_active m then Inr (m, x + 1) else iter_loop f (\<lambda>m. \<not> any_active m) k (m, x + 1))
        (case (m1, y1) of (m, y) \<Rightarrow> if k = 0 \<or> False then Inr (m, y + 1) else iter_loop g (\<lambda>m. False) k (m, y + 1))"
    proof (cases "k = 0 \<or> any_active m1")
      case True
      then show ?thesis using Suc.IH [of "x1 + 1" "y1 + 1" m1] r(2) s1 by auto
    next
      case False
      obtain z where z: "iter_loop g (\<lambda>m. False) k (m1, y1 + 1) = Inr (m1, z)"
        using iter_idle [where f = g and m = m1, OF off [OF s1]] False by blast
      have "y1 + 1 \<le> z"
        using iter_spends [where f = g and c = c, OF _ c, of "(m1, y1 + 1)" k "\<lambda>m. False"] up z by (auto simp: split_paired_all)
      then show ?thesis using False z r(2) by simp
    qed
  qed
qed simp

lemma blocks_sooner:
  "wf_blocks inner bs \<Longrightarrow> \<forall>w \<in> set (flatten bs). known_word w \<Longrightarrow> sized env m \<Longrightarrow> x \<le> y \<Longrightarrow>
    sooner (xblocks (env\<lparr>e_early := True\<rparr>) bs (m, x)) (xblocks (env\<lparr>e_early := False\<rparr>) bs (m, y))"
proof (induction bs arbitrary: inner m x y rule: flatten.induct)
  case (2 w bs)
  show ?case unfolding xblocks.simps early_irrelevant fst_conv snd_conv
  proof (cases "lane_step env (decode w) m")
    case (Inr m1)
    have "sooner (xblocks (env\<lparr>e_early := True\<rparr>) bs (m1, x + 1)) (xblocks (env\<lparr>e_early := False\<rparr>) bs (m1, y + 1))"
      by (rule "2.IH") (use "2.prems" sized_step [OF _ Inr] in auto)
    then show "sooner (bind_r (lane_step env (decode w) m) (\<lambda>m. xblocks (env\<lparr>e_early := True\<rparr>) bs (m, x + 1)))
        (bind_r (lane_step env (decode w) m) (\<lambda>m. xblocks (env\<lparr>e_early := False\<rparr>) bs (m, y + 1)))" using Inr by simp
  qed simp
next
  case (3 r e body bs)
  let ?E = "env\<lparr>e_early := True\<rparr>" and ?F = "env\<lparr>e_early := False\<rparr>"
  have w: "wf_blocks True body" "wf_blocks inner bs" "quiets body = 0" using "3.prems" by simp_all
  have kw: "\<forall>w \<in> set (flatten body). known_word w" "\<forall>w \<in> set (flatten bs). known_word w" using "3.prems" by simp_all
  have sz: "sized (env\<lparr>e_early := b\<rparr>) m \<longleftrightarrow> sized env m" for b m by (simp add: sized_def n_lanes_def)
  have id: "idle ?E = (\<lambda>m. \<not> any_active m)" "idle ?F = (\<lambda>m. False)" by (simp_all add: idle_def fun_eq_iff)
  have off: "\<exists>y. xblocks ?F body (m, x) = Inr (m, y)" if "sized env m" "\<not> any_active m" for m x
    using blocks_idle [of ?F m body x] that w kw sz by simp
  have up: "spends x (x + cost body) (xblocks ?F body (m, x))" for m x using xblocks_spends [OF w(1), of "(m, x)" ?F] by simp
  have s: "xblocks ?E body s = Inr t \<Longrightarrow> sized env (fst s) \<Longrightarrow> sized env (fst t)" for s t
    using sized_blocks [of ?E body s t] sz by simp
  have c: "0 \<le> cost body" by (rule cost_nonneg [OF w(1)])
  note it = iter_sooner [where f = "xblocks ?E body" and g = "xblocks ?F body", OF "3.IH"(1) [OF w(1) kw(1)] s off up c]
  have "sooner (if \<not> any_active m then Inr (m, x + 1) else iter_loop (xblocks ?E body) (\<lambda>m. \<not> any_active m) (nat (trip r)) (m, x + 1))
      (iter_loop (xblocks ?F body) (\<lambda>m. False) (nat (trip r)) (m, y + 1))"
  proof (cases "any_active m")
    case True
    then show ?thesis using it [where x = "x + 1" and y = "y + 1" and m = m and k = "nat (trip r)"] "3.prems" by simp
  next
    case False
    obtain z where z: "iter_loop (xblocks ?F body) (\<lambda>m. False) (nat (trip r)) (m, y + 1) = Inr (m, z)"
      using iter_idle [where f = "xblocks ?F body" and m = m, OF off [OF "3.prems"(3) False]] by blast
    have "y + 1 \<le> z"
      using iter_spends [where f = "xblocks ?F body" and c = "cost body", OF _ c, of "(m, y + 1)" "nat (trip r)" "\<lambda>m. False"] up z
      by (auto simp: split_paired_all)
    then show ?thesis using False z "3.prems" by simp
  qed
  then show ?case unfolding xblocks.simps id fst_conv snd_conv if_False
  proof (rule sooner_bind)
    fix m1 x1 y1
    assume r: "(if \<not> any_active m then Inr (m, x + 1) else iter_loop (xblocks ?E body) (\<lambda>m. \<not> any_active m) (nat (trip r)) (m, x + 1)) = Inr (m1, x1)"
      and l: "x1 \<le> y1"
    have "xblocks ?E [Loop r e body] (m, x) = Inr (m1, x1)" unfolding xblocks.simps id fst_conv snd_conv r bind_r_simps ..
    then have "sized env m1" using sized_blocks [of ?E "[Loop r e body]" "(m, x)" "(m1, x1)"] "3.prems"(3) sz by simp
    then show "sooner (xblocks ?E bs (m1, x1)) (xblocks ?F bs (m1, y1))" by (rule "3.IH"(2) [OF w(2) kw(2) _ l])
  qed
qed simp

lemma xtop_sooner:
  "wf_blocks False bs \<Longrightarrow> \<forall>w \<in> set (flatten bs). known_word w \<Longrightarrow> sized env m \<Longrightarrow> x \<le> y \<Longrightarrow>
    sooner (xtop (env\<lparr>e_early := True\<rparr>) bs (m, x)) (xtop (env\<lparr>e_early := False\<rparr>) bs (m, y))"
proof (induction bs arbitrary: m x y)
  case (Cons b bs)
  let ?E = "env\<lparr>e_early := True\<rparr>" and ?F = "env\<lparr>e_early := False\<rparr>"
  have w: "wf_blocks False [b]" "wf_blocks False bs" and f: "flatten (b # bs) = flatten [b] @ flatten bs"
    using Cons.prems(1) wf_blocks_append [of False "[b]" bs] flatten_append [of "[b]" bs] by simp_all
  have kw: "\<forall>w \<in> set (flatten [b]). known_word w" "\<forall>w \<in> set (flatten bs). known_word w"
    using Cons.prems(2) f by simp_all
  have sz: "sized (env\<lparr>e_early := b\<rparr>) m \<longleftrightarrow> sized env m" for b m by (simp add: sized_def n_lanes_def)
  have "sooner (bind_r (xblocks ?E [b] (m, x)) (xtop ?E bs)) (bind_r (xblocks ?F [b] (m, y)) (xtop ?F bs))"
  proof (rule sooner_bind [OF blocks_sooner [OF w(1) kw(1) Cons.prems(3,4)]])
    fix m1 x1 y1 assume r: "xblocks ?E [b] (m, x) = Inr (m1, x1)" and l: "x1 \<le> y1"
    have "sized env m1" using sized_blocks [OF r] Cons.prems(3) sz by simp
    then show "sooner (xtop ?E bs (m1, x1)) (xtop ?F bs (m1, y1))" by (rule Cons.IH [OF w(2) kw(2) _ l])
  qed
  then show ?case using Cons.prems(4) by simp
qed simp

section \<open>The run\<close>

lemma start_run_early:
  "start_run p (r\<lparr>r_early := b\<rparr>) = bind_r (start_run p r) (\<lambda>(env, rest). Inr (env\<lparr>e_early := b\<rparr>, rest))"
proof -
  have g: "r_a (r\<lparr>r_early := b\<rparr>) = r_a r" "r_b (r\<lparr>r_early := b\<rparr>) = r_b r" "r_c (r\<lparr>r_early := b\<rparr>) = r_c r" "r_bank (r\<lparr>r_early := b\<rparr>) = r_bank r" "r_scratch_in (r\<lparr>r_early := b\<rparr>) = r_scratch_in r" "r_budget (r\<lparr>r_early := b\<rparr>) = r_budget r" "r_n_active (r\<lparr>r_early := b\<rparr>) = r_n_active r" "r_idx_a (r\<lparr>r_early := b\<rparr>) = r_idx_a r" "r_idx_b (r\<lparr>r_early := b\<rparr>) = r_idx_b r" "r_idx_c (r\<lparr>r_early := b\<rparr>) = r_idx_c r" "r_idx_scratch_in (r\<lparr>r_early := b\<rparr>) = r_idx_scratch_in r" "r_lane_mask (r\<lparr>r_early := b\<rparr>) = r_lane_mask r" "r_depth (r\<lparr>r_early := b\<rparr>) = r_depth r" by simp_all
  have s: "resolve_streams p (r\<lparr>r_early := b\<rparr>) = resolve_streams p r" by (simp only: resolve_streams_def g)
  have l: "resolve_lanes (r\<lparr>r_early := b\<rparr>) n = resolve_lanes r n" for n by (simp only: resolve_lanes_def g)
  have c: "resolve_scratch p (r\<lparr>r_early := b\<rparr>) n = resolve_scratch p r n" for n by (simp only: resolve_scratch_def g)
  show ?thesis unfolding start_run_def s l c bind_r_assoc g
    by (auto simp: fun_eq_iff bind_r_assoc intro!: bind_r_cong split: prod.splits)
qed

lemma start_run_sized: "start_run p r = Inr (env, m, na, n) \<Longrightarrow> sized env m \<and> e_prog env = p \<and> e_budget env = r_budget r \<and> e_early env = r_early r"
  by (auto simp: start_run_def bind_r_eq_Inr sized_def n_lanes_def init_mach_def resolve_lanes_def Let_def split: option.splits if_splits)

lemma insn_ok_known: "insn_ok p w \<Longrightarrow> known_word w"
  by (auto simp: insn_ok_def known_word_def check_control_def Let_def split: if_splits)

theorem run_early_exit:
  assumes v: "validate p = Inr ()" and b: "r_budget r = None"
  shows "(\<exists>e. \<forall>early. run p (r\<lparr>r_early := early\<rparr>) = Some (Inl e)) \<or>
    (\<exists>u v. run p (r\<lparr>r_early := True\<rparr>) = Some (Inr u) \<and> run p (r\<lparr>r_early := False\<rparr>) = Some (Inr v) \<and>
      result_state u = result_state v \<and> s_insns_executed u \<le> s_insns_executed v \<and> s_insns_executed v \<le> MAX_INSTRUCTIONS)"
proof (cases "start_run p r")
  case (Inl e)
  then show ?thesis by (simp add: run_def start_run_early)
next
  case (Inr s)
  obtain env m na n where s: "s = (env, m, na, n)" by (cases s) auto
  note sr = start_run_sized [OF Inr [unfolded s]]
  obtain bs where bs: "p_insns p = flatten bs" "wf_blocks False bs" "cost bs \<le> MAX_INSTRUCTIONS" "\<forall>w \<in> set (p_insns p). insn_ok p w"
    by (rule validate_blocks [OF v])
  define x where "x b = xtop (env\<lparr>e_early := b\<rparr>) bs (m, 0)" for b
  have k: "e_keep (env\<lparr>e_early := b\<rparr>) = e_keep env" for b by simp
  have run: "run p (r\<lparr>r_early := b\<rparr>) = (case run_from (env\<lparr>e_early := b\<rparr>) 0 [] (m, 0) of None \<Rightarrow> None
      | Some (Inl e) \<Rightarrow> Some (Inl e) | Some (Inr (c, m)) \<Rightarrow> Some (Inr (finish_run p na (e_keep env) n c m)))" for b
    unfolding run_def start_run_early Inr s bind_r_simps prod.case sum.case run_from_def fst_conv snd_conv k ..
  have top: "case x b of Inl e \<Rightarrow> run_from (env\<lparr>e_early := b\<rparr>) 0 [] (m, 0) = Some (Inl e)
     | Inr t \<Rightarrow> \<exists>c. run_from (env\<lparr>e_early := b\<rparr>) 0 [] (m, 0) = Some (Inr (c, fst t)) \<and> c_executed c = snd t" for b
    unfolding x_def
    by (rule exec_top [where pre = "[]", unfolded list.size append_Nil]) (use sr bs assms(2) in simp_all)
  have "sooner (x True) (x False)"
    unfolding x_def using xtop_sooner [OF bs(2), of env m 0 0] bs(1,4) insn_ok_known sr by auto
  moreover have "spends 0 (cost bs) (x False)" unfolding x_def using xtop_spends [OF bs(2), of "(m, 0)"] by simp
  ultimately show ?thesis
  proof (cases "x True")
    case (Inl e)
    then have "x b = Inl e" for b using \<open>sooner (x True) (x False)\<close> by (cases b) simp_all
    then show ?thesis using top by (simp add: run)
  next
    case (Inr t)
    obtain m1 x1 where t: "t = (m1, x1)" by fastforce
    obtain y1 where y: "x False = Inr (m1, y1)" "x1 \<le> y1" using \<open>sooner (x True) (x False)\<close> Inr t by auto
    obtain c where c: "run_from (env\<lparr>e_early := True\<rparr>) 0 [] (m, 0) = Some (Inr (c, m1))" "c_executed c = x1"
      using top [of True] Inr t by auto
    obtain c' where c': "run_from (env\<lparr>e_early := False\<rparr>) 0 [] (m, 0) = Some (Inr (c', m1))" "c_executed c' = y1"
      using top [of False] y by auto
    have "y1 \<le> MAX_INSTRUCTIONS" using \<open>spends 0 (cost bs) (x False)\<close> y(1) bs(3) by simp
    then show ?thesis using c c' y(2) by (simp add: run finish_run_def result_state_def)
  qed
qed

end
