(* ===== verification/SeqLanes.thy ===== *)
theory SeqLanes
  imports SeqExec
begin

text \<open>
  Lanes do not see each other. \<open>beside\<close> puts two machines next to each other, one's lanes after the
  other's; the locale \<open>lane_op\<close> is the contract of an operation on one lane (it does on the joined
  machine what it does on its own part, and leaves the other part alone), every per-lane operation of the
  sequencer is an instance of it, and so a run over the lanes of two runs is the two runs side by side,
  with their flags and their status joined.
\<close>

section \<open>Machines side by side\<close>

definition beside :: "mach \<Rightarrow> mach \<Rightarrow> mach" where
  "beside m n = \<lparr>m_regs = m_regs m @ m_regs n, m_scratch = m_scratch m @ m_scratch n, m_active = m_active m @ m_active n,
    m_counts = m_counts m @ m_counts n, m_deposits = m_deposits m @ m_deposits n, m_flags = m_flags m OR m_flags n,
    m_status = m_status m OR m_status n, m_lane_fl = m_lane_fl m @ m_lane_fl n, m_qdepth = m_qdepth m\<rparr>"

lemma beside_fields [simp]:
  "m_regs (beside m n) = m_regs m @ m_regs n" "m_scratch (beside m n) = m_scratch m @ m_scratch n"
  "m_active (beside m n) = m_active m @ m_active n" "m_counts (beside m n) = m_counts m @ m_counts n"
  "m_deposits (beside m n) = m_deposits m @ m_deposits n" "m_flags (beside m n) = (m_flags m OR m_flags n)"
  "m_status (beside m n) = (m_status m OR m_status n)" "m_lane_fl (beside m n) = m_lane_fl m @ m_lane_fl n"
  "m_qdepth (beside m n) = m_qdepth m"
  by (simp_all add: beside_def)

text \<open>The arrays have one entry a lane, and a count never exceeds what its lane may deposit.\<close>

definition fit :: "renv \<Rightarrow> mach \<Rightarrow> bool" where
  "fit env m \<longleftrightarrow> length (m_regs m) = n_lanes env \<and> length (m_scratch m) = n_lanes env \<and> length (m_active m) = n_lanes env \<and>
    length (m_counts m) = n_lanes env \<and> length (m_lane_fl m) = n_lanes env \<and>
    length (m_deposits m) = n_lanes env * nat (p_max_deposits (e_prog env)) \<and>
    (\<forall>i < n_lanes env. 0 \<le> m_counts m ! i)"

definition splits :: "renv \<Rightarrow> renv \<Rightarrow> renv \<Rightarrow> bool" where
  "splits env env1 env2 \<longleftrightarrow> e_prog env1 = e_prog env \<and> e_prog env2 = e_prog env \<and> e_consts env1 = e_consts env \<and>
    e_consts env2 = e_consts env \<and> e_depth env1 = e_depth env \<and> e_depth env2 = e_depth env \<and>
    e_keep env = e_keep env1 @ e_keep env2"

definition paired :: "renv \<Rightarrow> renv \<Rightarrow> mach \<Rightarrow> mach \<Rightarrow> bool" where
  "paired env1 env2 m n \<longleftrightarrow> fit env1 m \<and> fit env2 n \<and> m_qdepth m = m_qdepth n"

lemma splits_lanes: "splits env env1 env2 \<Longrightarrow> n_lanes env = n_lanes env1 + n_lanes env2"
  by (simp add: splits_def n_lanes_def)

text \<open>The accessors on either part.\<close>

lemma beside_left:
  assumes "fit env1 m" "i < n_lanes env1"
  shows "reg (beside m n) i r = reg m i r" "set_reg i r v (beside m n) = beside (set_reg i r v m) n"
    "or_lane i fl (beside m n) = beside (or_lane i fl m) n" "or_flags fl (beside m n) = beside (or_flags fl m) n"
    "or_status fl (beside m n) = beside (or_status fl m) n"
  using assms by (simp_all add: fit_def reg_def lane_ops beside_def nth_append list_update_append or.assoc or.commute or.left_commute)

lemma beside_right:
  assumes "fit env1 m" "fit env2 n" "i < n_lanes env2"
  shows "reg (beside m n) (n_lanes env1 + i) r = reg n i r"
    "set_reg (n_lanes env1 + i) r v (beside m n) = beside m (set_reg i r v n)"
    "or_lane (n_lanes env1 + i) fl (beside m n) = beside m (or_lane i fl n)"
    "or_flags fl (beside m n) = beside m (or_flags fl n)" "or_status fl (beside m n) = beside m (or_status fl n)"
  using assms by (simp_all add: fit_def reg_def lane_ops beside_def nth_append list_update_append or.assoc)

lemma lane_fields:
  "m_qdepth (set_reg i r v m) = m_qdepth m" "m_qdepth (or_lane i fl m) = m_qdepth m" "m_qdepth (or_flags fl m) = m_qdepth m"
  "m_qdepth (or_status fl m) = m_qdepth m"
  "fit env (set_reg i r v m) \<longleftrightarrow> fit env m" "fit env (or_lane i fl m) \<longleftrightarrow> fit env m" "fit env (or_flags fl m) \<longleftrightarrow> fit env m"
  "fit env (or_status fl m) \<longleftrightarrow> fit env m"
  by (simp_all add: lane_ops fit_def)

section \<open>The contract of a lane operation\<close>

lemma paired_fit: "paired env1 env2 m n \<Longrightarrow> fit env1 m" "paired env1 env2 m n \<Longrightarrow> fit env2 n" "paired env1 env2 m n \<Longrightarrow> m_qdepth n = m_qdepth m"
  by (simp_all add: paired_def)

lemma upt_two: "[0..<a + b] = [0..<a] @ map ((+) a) [0..<b]"
  by (induction b) simp_all

locale lane_op =
  fixes f :: "renv \<Rightarrow> nat \<Rightarrow> mach \<Rightarrow> mach result"
  assumes left: "splits env env1 env2 \<Longrightarrow> paired env1 env2 m n \<Longrightarrow> i < n_lanes env1 \<Longrightarrow>
      f env i (beside m n) = bind_r (f env1 i m) (\<lambda>m'. Inr (beside m' n))"
    and right: "splits env env1 env2 \<Longrightarrow> paired env1 env2 m n \<Longrightarrow> i < n_lanes env2 \<Longrightarrow>
      f env (n_lanes env1 + i) (beside m n) = bind_r (f env2 i n) (\<lambda>n'. Inr (beside m n'))"
    and keeps: "fit env m \<Longrightarrow> i < n_lanes env \<Longrightarrow> f env i m = Inr m' \<Longrightarrow> fit env m' \<and> m_qdepth m' = m_qdepth m"
begin

abbreviation turn_of :: "renv \<Rightarrow> mach \<Rightarrow> nat \<Rightarrow> mach result" where
  "turn_of env m i \<equiv> if m_active m ! i then f env i m else Inr m"

lemma turn_keeps: "fit env m \<Longrightarrow> i < n_lanes env \<Longrightarrow> turn_of env m i = Inr m' \<Longrightarrow> fit env m' \<and> m_qdepth m' = m_qdepth m"
  using keeps [of env m i m'] by (auto split: if_splits)

lemma fold_keeps:
  "set is \<subseteq> {..<n_lanes env} \<Longrightarrow> fit env m \<Longrightarrow> fold_r (turn_of env) m is = Inr m' \<Longrightarrow> fit env m' \<and> m_qdepth m' = m_qdepth m"
proof (induction "is" arbitrary: m)
  case (Cons i "is")
  from Cons.prems(3) obtain m1 where m1: "turn_of env m i = Inr m1" "fold_r (turn_of env) m1 is = Inr m'"
    by (auto simp: bind_r_eq_Inr)
  then show ?case using Cons.IH [of m1] turn_keeps [of env m i m1] Cons.prems(1,2) by simp
qed simp

lemma each_keeps: "fit env m \<Longrightarrow> each_active env (f env) m = Inr m' \<Longrightarrow> fit env m' \<and> m_qdepth m' = m_qdepth m"
  unfolding each_active_def by (rule fold_keeps) (simp_all add: atLeast_upt)

lemma fold_left:
  assumes s: "splits env env1 env2"
  shows "set is \<subseteq> {..<n_lanes env1} \<Longrightarrow> paired env1 env2 m n \<Longrightarrow>
    fold_r (turn_of env) (beside m n) is = bind_r (fold_r (turn_of env1) m is) (\<lambda>m'. Inr (beside m' n))"
proof (induction "is" arbitrary: m)
  case (Cons i "is")
  have i: "i < n_lanes env1" "m_active (beside m n) ! i = m_active m ! i"
    using Cons.prems by (simp_all add: paired_def fit_def nth_append)
  have "turn_of env (beside m n) i = bind_r (turn_of env1 m i) (\<lambda>m'. Inr (beside m' n))"
    unfolding i(2) using left [OF s Cons.prems(2) i(1)] by simp
  moreover have "paired env1 env2 m1 n" if "turn_of env1 m i = Inr m1" for m1
    using turn_keeps [OF _ i(1) that] Cons.prems(2) by (simp add: paired_def)
  ultimately show ?case using Cons.IH Cons.prems(1) unfolding fold_r.simps by (cases "turn_of env1 m i") simp_all
qed simp

lemma fold_right:
  assumes s: "splits env env1 env2"
  shows "set is \<subseteq> {..<n_lanes env2} \<Longrightarrow> paired env1 env2 m n \<Longrightarrow>
    fold_r (turn_of env) (beside m n) (map ((+) (n_lanes env1)) is) = bind_r (fold_r (turn_of env2) n is) (\<lambda>n'. Inr (beside m n'))"
proof (induction "is" arbitrary: n)
  case (Cons i "is")
  have i: "i < n_lanes env2" "m_active (beside m n) ! (n_lanes env1 + i) = m_active n ! i"
    using Cons.prems by (simp_all add: paired_def fit_def nth_append)
  have "turn_of env (beside m n) (n_lanes env1 + i) = bind_r (turn_of env2 n i) (\<lambda>n'. Inr (beside m n'))"
    unfolding i(2) using right [OF s Cons.prems(2) i(1)] by simp
  moreover have "paired env1 env2 m n1" if "turn_of env2 n i = Inr n1" for n1
    using turn_keeps [OF _ i(1) that] Cons.prems(2) by (simp add: paired_def)
  ultimately show ?case using Cons.IH Cons.prems(1) unfolding fold_r.simps list.map by (cases "turn_of env2 n i") simp_all
qed simp

lemma each_beside:
  assumes s: "splits env env1 env2" and p: "paired env1 env2 m n"
    and m: "each_active env1 (f env1) m = Inr m'" and n: "each_active env2 (f env2) n = Inr n'"
  shows "each_active env (f env) (beside m n) = Inr (beside m' n') \<and> paired env1 env2 m' n'"
proof -
  have k: "paired env1 env2 m' n" "paired env1 env2 m' n'"
    using each_keeps [OF _ m] each_keeps [OF _ n] p by (simp_all add: paired_def)
  have u: "[0..<n_lanes env] = [0..<n_lanes env1] @ map ((+) (n_lanes env1)) [0..<n_lanes env2]"
    by (simp add: splits_lanes [OF s] upt_two)
  have "fold_r (turn_of env) (beside m n) [0..<n_lanes env1] = Inr (beside m' n)"
    using fold_left [OF s _ p, of "[0..<n_lanes env1]"] m by (simp add: each_active_def atLeast_upt)
  moreover have "fold_r (turn_of env) (beside m' n) (map ((+) (n_lanes env1)) [0..<n_lanes env2]) = Inr (beside m' n')"
    using fold_right [OF s _ k(1), of "[0..<n_lanes env2]"] n by (simp add: each_active_def atLeast_upt)
  ultimately show ?thesis using k unfolding each_active_def u fold_r_append by simp
qed

end

section \<open>The sequencer's lane operations\<close>

lemma splits_env:
  assumes "splits env env1 env2"
  shows "e_prog env1 = e_prog env" "e_prog env2 = e_prog env" "e_consts env1 = e_consts env" "e_consts env2 = e_consts env"
    "e_depth env1 = e_depth env" "e_depth env2 = e_depth env" "is_strict env1 = is_strict env" "is_strict env2 = is_strict env"
  using assms by (simp_all add: splits_def is_strict_def)

lemma src_beside:
  assumes s: "splits env env1 env2" and p: "paired env1 env2 m n"
  shows "i < n_lanes env1 \<Longrightarrow> src env (beside m n) i spec = src env1 m i spec"
    and "i < n_lanes env2 \<Longrightarrow> src env (beside m n) (n_lanes env1 + i) spec = src env2 n i spec"
  by (cases spec; simp add: src_def splits_env [OF s] beside_left(1) [OF paired_fit(1) [OF p]]
      beside_right(1) [OF paired_fit(1,2) [OF p]])+

lemma alu_lane_code:
  "alu_lane env d i m = (let ops = sources d in
    bind_r (src env m i (ops ! 0)) (\<lambda>a. bind_r (src env m i (ops ! 1)) (\<lambda>b. bind_r (src env m i (ops ! 2)) (\<lambda>c.
    bind_r (compute (e_fmt env) (i_op d) a b c (i_rnd d)) (\<lambda>(res, fl). Inr (if m_qdepth m = 0
      then or_lane i fl (or_flags fl (set_reg i (i_rd d) res m)) else set_reg i (i_rd d) res m))))))"
  by (simp add: alu_lane_def sources_def Let_def lane_fields)

interpretation alu: lane_op "\<lambda>env. alu_lane env d" for d
proof (standard, goal_cases)
  case (1 env env1 env2 m n i)
  note p = paired_fit [OF 1(2)]
  note b = beside_left(2-) [where n = n and i = i and ?env1.0 = env1, OF _ 1(3)]
  show ?case unfolding alu_lane_code Let_def
    by (cases "m_qdepth m = 0"; simp add: src_beside(1) [OF 1] splits_env [OF 1(1)] b p lane_fields bind_r_assoc split_def cong: bind_r_cong)
next
  case (2 env env1 env2 m n i)
  note p = paired_fit [OF 2(2)]
  note b = beside_right(2-) [where m = m and i = i and ?env1.0 = env1 and ?env2.0 = env2, OF _ _ 2(3)]
  show ?case unfolding alu_lane_code Let_def
    by (cases "m_qdepth m = 0"; simp add: src_beside(2) [OF 2] splits_env [OF 2(1)] b p lane_fields bind_r_assoc split_def cong: bind_r_cong)
next
  case (3 env m i m')
  then show ?case unfolding alu_lane_code Let_def by (auto simp: lane_fields bind_r_eq_Inr)
qed

text \<open>The arrays the accessors do not name: what a lane reads and where it writes.\<close>

lemma fit_lengths:
  assumes "fit env m"
  shows "length (m_regs m) = n_lanes env" "length (m_scratch m) = n_lanes env" "length (m_active m) = n_lanes env"
    "length (m_counts m) = n_lanes env" "length (m_lane_fl m) = n_lanes env"
    "length (m_deposits m) = n_lanes env * nat (p_max_deposits (e_prog env))"
    "i < n_lanes env \<Longrightarrow> 0 \<le> m_counts m ! i"
  using assms by (simp_all add: fit_def)

lemma slot_bound: "i < n \<Longrightarrow> 0 \<le> c \<Longrightarrow> c < md \<Longrightarrow> nat (int i * md + c) < n * nat md"
proof -
  assume a: "i < n" "0 \<le> c" "c < md"
  have "int i * md + c < (int i + 1) * md" using a by (simp add: algebra_simps)
  also have "\<dots> \<le> int n * md" using a by (intro mult_right_mono) simp_all
  finally show ?thesis using a by (simp add: nat_less_iff)
qed

lemma slot_shift: "0 \<le> c \<Longrightarrow> c < md \<Longrightarrow> nat (int (k + i) * md + c) = k * nat md + nat (int i * md + c)"
  by (cases "0 \<le> md") (simp_all add: distrib_right nat_add_distrib nat_mult_distrib)

lemma beside_upd:
  "beside m n\<lparr>m_active := xs @ m_active n\<rparr> = beside (m\<lparr>m_active := xs\<rparr>) n"
  "beside m n\<lparr>m_active := m_active m @ ys\<rparr> = beside m (n\<lparr>m_active := ys\<rparr>)"
  "beside m n\<lparr>m_deposits := ds @ m_deposits n\<rparr> = beside (m\<lparr>m_deposits := ds\<rparr>) n"
  "beside m n\<lparr>m_deposits := m_deposits m @ es\<rparr> = beside m (n\<lparr>m_deposits := es\<rparr>)"
  "beside m n\<lparr>m_counts := cs @ m_counts n\<rparr> = beside (m\<lparr>m_counts := cs\<rparr>) n"
  "beside m n\<lparr>m_counts := m_counts m @ ks\<rparr> = beside m (n\<lparr>m_counts := ks\<rparr>)"
  "beside m n\<lparr>m_scratch := ss @ m_scratch n\<rparr> = beside (m\<lparr>m_scratch := ss\<rparr>) n"
  "beside m n\<lparr>m_scratch := m_scratch m @ ts\<rparr> = beside m (n\<lparr>m_scratch := ts\<rparr>)"
  by (simp_all add: beside_def)

interpretation deposit: lane_op "\<lambda>env. deposit_lane env d" for d
proof (standard, goal_cases)
  case (1 env env1 env2 m n i)
  note p = paired_fit [OF 1(2)]
  note b = beside_left [where n = n and i = i and ?env1.0 = env1, OF _ 1(3)]
  have c: "(m_counts m @ m_counts n) ! i = m_counts m ! i" using 1(3) fit_lengths(4) [OF p(1)] by (simp add: nth_append)
  note e = splits_env [OF 1(1)]
  show ?case
  proof (cases "p_max_deposits (e_prog env) \<le> m_counts m ! i")
    case True
    then show ?thesis by (simp add: deposit_lane_def Let_def c e b p lane_fields)
  next
    case False
    then show ?thesis using 1(3) fit_lengths [OF p(1)] slot_bound [of i "n_lanes env1" "m_counts m ! i" "p_max_deposits (e_prog env)"]
      by (simp add: deposit_lane_def Let_def c e b p beside_upd list_update_append)
  qed
next
  case (2 env env1 env2 m n i)
  note p = paired_fit [OF 2(2)]
  note b = beside_right [where m = m and i = i and ?env1.0 = env1 and ?env2.0 = env2, OF _ _ 2(3)]
  have c: "(m_counts m @ m_counts n) ! (n_lanes env1 + i) = m_counts n ! i" using 2(3) fit_lengths(4) [OF p(1)] by (simp add: nth_append)
  note e = splits_env [OF 2(1)]
  show ?case
  proof (cases "p_max_deposits (e_prog env) \<le> m_counts n ! i")
    case True
    then show ?thesis by (simp add: deposit_lane_def Let_def c e b p lane_fields)
  next
    case False
    then show ?thesis using 2(3) fit_lengths [OF p(1)] fit_lengths(7) [OF p(2) 2(3)]
        slot_shift [of "m_counts n ! i" "p_max_deposits (e_prog env)" "n_lanes env1" i]
      by (simp add: deposit_lane_def Let_def c e b p beside_upd list_update_append)
  qed
next
  case (3 env m i m')
  then show ?case by (auto simp: deposit_lane_def Let_def lane_fields fit_def lane_ops nth_list_update split: if_splits)
qed

interpretation setact: lane_op "\<lambda>env. setact_lane env d" for d
proof (standard, goal_cases)
  case (1 env env1 env2 m n i)
  note p = paired_fit [OF 1(2)]
  show ?case using 1(3) fit_lengths [OF p(1)]
    by (simp add: setact_lane_def Let_def splits_env [OF 1(1)] beside_left [OF p(1) 1(3)] beside_upd list_update_append)
next
  case (2 env env1 env2 m n i)
  note p = paired_fit [OF 2(2)]
  show ?case using 2(3) fit_lengths [OF p(1)]
    by (simp add: setact_lane_def Let_def splits_env [OF 2(1)] beside_right [OF p(1,2) 2(3)] beside_upd list_update_append)
next
  case (3 env m i m')
  then show ?case by (auto simp: setact_lane_def Let_def fit_def)
qed

interpretation raising: lane_op "\<lambda>env. raise_lane env d" for d
proof (standard, goal_cases)
  case (1 env env1 env2 m n i)
  note p = paired_fit [OF 1(2)]
  note b = beside_left [where n = n and i = i and ?env1.0 = env1, OF _ 1(3)]
  show ?case by (simp add: raise_lane_def Let_def b p lane_fields)
next
  case (2 env env1 env2 m n i)
  note p = paired_fit [OF 2(2)]
  note b = beside_right [where m = m and i = i and ?env1.0 = env1 and ?env2.0 = env2, OF _ _ 2(3)]
  show ?case by (simp add: raise_lane_def Let_def b p lane_fields)
next
  case (3 env m i m')
  then show ?case by (auto simp: raise_lane_def Let_def lane_fields split: if_splits)
qed

interpretation memory: lane_op "\<lambda>env. memory_lane env d" for d
proof (standard, goal_cases)
  case (1 env env1 env2 m n i)
  note p = paired_fit [OF 1(2)]
  note b = beside_left [where n = n and i = i and ?env1.0 = env1, OF _ 1(3)]
  show ?case using 1(3) fit_lengths [OF p(1)]
    by (simp add: memory_lane_def Let_def splits_env [OF 1(1)] b p lane_fields nth_append list_update_append beside_upd bind_r_assoc cong: bind_r_cong)
next
  case (2 env env1 env2 m n i)
  note p = paired_fit [OF 2(2)]
  note b = beside_right [where m = m and i = i and ?env1.0 = env1 and ?env2.0 = env2, OF _ _ 2(3)]
  show ?case using 2(3) fit_lengths [OF p(1)]
    by (simp add: memory_lane_def Let_def splits_env [OF 2(1)] b p lane_fields nth_append list_update_append beside_upd bind_r_assoc cong: bind_r_cong)
next
  case (3 env m i m')
  then show ?case by (auto simp: memory_lane_def Let_def bind_r_eq_Inr fit_def lane_ops split: if_splits)
qed

interpretation stepping: lane_op "\<lambda>env. step_lane env d inc" for d inc
proof (standard, goal_cases)
  case (1 env env1 env2 m n i)
  note p = paired_fit [OF 1(2)]
  note b = beside_left [where n = n and i = i and ?env1.0 = env1, OF _ 1(3)]
  show ?case by (simp add: step_lane_def splits_env [OF 1(1)] b p)
next
  case (2 env env1 env2 m n i)
  note p = paired_fit [OF 2(2)]
  note b = beside_right [where m = m and i = i and ?env1.0 = env1 and ?env2.0 = env2, OF _ _ 2(3)]
  show ?case by (simp add: step_lane_def splits_env [OF 2(1)] b p)
next
  case (3 env m i m')
  then show ?case by (auto simp: step_lane_def lane_fields)
qed

text \<open>
  \<open>_augmented_half\<close> hands back what it raised; since a lane never reads the flags, raising them lane by
  lane is the same.
\<close>

definition augmented_flat :: "renv \<Rightarrow> insn \<Rightarrow> bool \<Rightarrow> nat \<Rightarrow> mach \<Rightarrow> mach result" where
  "augmented_flat env d loud i m = bind_r (augmented_lane env d loud i m) (\<lambda>(m', fl). Inr (or_flags fl m'))"

lemma or_flags_fields [simp]:
  "m_active (or_flags fl m) = m_active m" "reg (or_flags fl m) i r = reg m i r" "or_flags 0 m = m"
  "or_flags a (or_flags b m) = or_flags (b OR a) m"
  "set_reg i r v (or_flags fl m) = or_flags fl (set_reg i r v m)" "or_lane i st (or_flags fl m) = or_flags fl (or_lane i st m)"
  by (simp_all add: lane_ops reg_def or.assoc)

lemma augmented_lane_flags:
  "augmented_lane env d loud i (or_flags raised m) = bind_r (augmented_lane env d loud i m) (\<lambda>(m', fl). Inr (or_flags raised m', fl))"
  by (cases loud) (simp_all add: augmented_lane_def Let_def split_def bind_r_assoc)

lemma augmented_half_flat:
  "bind_r (augmented_half env d loud m) (\<lambda>(m', raised). Inr (or_flags raised m')) = each_active env (augmented_flat env d loud) m"
proof -
  have "bind_r (fold_r (\<lambda>(m, raised) i. if \<not> m_active m ! i then Inr (m, raised)
      else bind_r (augmented_lane env d loud i m) (\<lambda>(m1, fl). Inr (m1, raised OR fl))) (m, raised) is) (\<lambda>(m', raised). Inr (or_flags raised m'))
    = fold_r (\<lambda>m i. if m_active m ! i then augmented_flat env d loud i m else Inr m) (or_flags raised m) is" for raised "is"
  proof (induction "is" arbitrary: m raised)
    case (Cons i "is")
    then show ?case
      by (cases "augmented_lane env d loud i m") (auto simp: augmented_flat_def augmented_lane_flags split_def or.commute)
  qed simp
  from this [of 0] show ?thesis by (simp add: augmented_half_def each_active_def)
qed

interpretation augmented: lane_op "\<lambda>env. augmented_flat env d loud" for d loud
proof (standard, goal_cases)
  case (1 env env1 env2 m n i)
  note p = paired_fit [OF 1(2)]
  note b = beside_left [where n = n and i = i and ?env1.0 = env1, OF _ 1(3)]
  show ?case by (cases loud; simp add: augmented_flat_def augmented_lane_def Let_def splits_env [OF 1(1)] b p lane_fields bind_r_assoc split_def)
next
  case (2 env env1 env2 m n i)
  note p = paired_fit [OF 2(2)]
  note b = beside_right [where m = m and i = i and ?env1.0 = env1 and ?env2.0 = env2, OF _ _ 2(3)]
  show ?case by (cases loud; simp add: augmented_flat_def augmented_lane_def Let_def splits_env [OF 2(1)] b p lane_fields bind_r_assoc split_def)
next
  case (3 env m i m')
  then show ?case by (auto simp: augmented_flat_def augmented_lane_def Let_def lane_fields bind_r_eq_Inr split: if_splits)
qed

section \<open>Instructions and blocks\<close>

lemma post_step_beside:
  assumes s: "splits env env1 env2" and p: "paired env1 env2 m n"
    and m: "post_step env1 d m = Inr m'" and n: "post_step env2 d n = Inr n'"
  shows "post_step env d (beside m n) = Inr (beside m' n') \<and> paired env1 env2 m' n'"
proof (cases "index_step d = 0 \<or> i_op d = LDX \<and> i_rd d = i_rb d")
  case True
  then show ?thesis using m n p by (auto simp: post_step_def Let_def)
next
  case False
  then have e: "post_step env d m = each_active env (step_lane env d (index_step d AND (push_bit (width (e_fmt env)) 1 - 1))) m" for env m
    by (simp only: post_step_def Let_def if_False)
  show ?thesis using stepping.each_beside [OF s p] m n unfolding e splits_env [OF s] by blast
qed

lemma lane_step_beside:
  assumes s: "splits env env1 env2" and p: "paired env1 env2 m n"
    and m: "lane_step env1 d m = Inr m'" and n: "lane_step env2 d n = Inr n'"
  shows "lane_step env d (beside m n) = Inr (beside m' n') \<and> paired env1 env2 m' n'"
  using m
proof (cases rule: lane_step_cases)
  case alu
  show ?thesis using alu.each_beside [OF s p alu(2)] n alu(1) by (simp add: lane_step_codes)
next
  case deposit
  show ?thesis using deposit.each_beside [OF s p deposit(3)] n deposit(1,2) by (simp add: lane_step_codes)
next
  case setact
  show ?thesis using setact.each_beside [OF s p setact(3)] n setact(1,2) by (simp add: lane_step_codes)
next
  case actall
  have "n' = n\<lparr>m_active := e_keep env2\<rparr>" using n lane_step_codes(4) [OF actall(1,2)] by simp
  then show ?thesis using s p lane_step_codes(4) [OF actall(1,2)] actall(3)
    by (simp add: beside_def splits_def paired_def fit_def n_lanes_def)
next
  case (augmented m1 raised)
  note c = lane_step_codes(5) [OF augmented(1,2), unfolded augmented_half_flat]
  show ?thesis using augmented.each_beside [OF s p, of d "m_qdepth m = 0" m' n'] m n unfolding c by (simp add: paired_fit(3) [OF p])
next
  case quiet
  have "n' = n\<lparr>m_qdepth := m_qdepth n + 1\<rparr>" using n lane_step_codes(6) [OF quiet(1,2)] by simp
  then show ?thesis using p lane_step_codes(6) [OF quiet(1,2)] quiet(3) by (simp add: beside_def paired_def fit_def)
next
  case endquiet
  have "n' = n\<lparr>m_qdepth := m_qdepth n - 1\<rparr>" using n lane_step_codes(7) [OF endquiet(1,2)] by simp
  then show ?thesis using p lane_step_codes(7) [OF endquiet(1,2)] endquiet(3) by (simp add: beside_def paired_def fit_def)
next
  case raise
  show ?thesis using raising.each_beside [OF s p raise(3)] n raise(1,2) by (simp add: lane_step_codes)
next
  case (memory m1)
  obtain n1 where n1: "each_active env2 (memory_lane env2 d) n = Inr n1" "post_step env2 d n1 = Inr n'"
    using n unfolding lane_step_codes(9) [OF memory(1,2)] by (auto simp: bind_r_eq_Inr)
  have "each_active env (memory_lane env d) (beside m n) = Inr (beside m1 n1)" "paired env1 env2 m1 n1"
    using memory.each_beside [OF s p memory(3) n1(1)] by simp_all
  then show ?thesis using post_step_beside [OF s _ memory(4) n1(2)] unfolding lane_step_codes(9) [OF memory(1,2)] by simp
qed

text \<open>Two results and the result of the joined run.\<close>

definition joins :: "renv \<Rightarrow> renv \<Rightarrow> xstate result \<Rightarrow> xstate result \<Rightarrow> xstate result \<Rightarrow> bool" where
  "joins env1 env2 r1 r2 r \<longleftrightarrow> (\<forall>m n x y. r1 = Inr (m, x) \<longrightarrow> r2 = Inr (n, y) \<longrightarrow>
    x = y \<and> r = Inr (beside m n, x) \<and> paired env1 env2 m n)"

lemma joins_Inr: "paired env1 env2 m n \<Longrightarrow> joins env1 env2 (Inr (m, x)) (Inr (n, x)) (Inr (beside m n, x))"
  by (simp add: joins_def)

lemma joins_bind:
  assumes "joins env1 env2 r1 r2 r"
    and "\<And>m n x. paired env1 env2 m n \<Longrightarrow> joins env1 env2 (f1 (m, x)) (f2 (n, x)) (f (beside m n, x))"
  shows "joins env1 env2 (bind_r r1 f1) (bind_r r2 f2) (bind_r r f)"
proof (cases "\<exists>m n x y. r1 = Inr (m, x) \<and> r2 = Inr (n, y)")
  case True
  then obtain m n x where "r1 = Inr (m, x)" "r2 = Inr (n, x)" "r = Inr (beside m n, x)" "paired env1 env2 m n"
    using assms(1) unfolding joins_def by blast
  then show ?thesis using assms(2) [of m n x] by simp
next
  case False
  then have "(\<exists>e. r1 = Inl e) \<or> (\<exists>e. r2 = Inl e)" by (cases r1; cases r2) auto
  then show ?thesis by (auto simp: joins_def)
qed

lemma iter_joins:
  assumes body: "\<And>m n x. paired env1 env2 m n \<Longrightarrow> joins env1 env2 (f1 (m, x)) (f2 (n, x)) (f (beside m n, x))"
  shows "paired env1 env2 m n \<Longrightarrow>
    joins env1 env2 (iter_loop f1 (\<lambda>m. False) k (m, x)) (iter_loop f2 (\<lambda>m. False) k (n, x)) (iter_loop f (\<lambda>m. False) k (beside m n, x))"
proof (induction k arbitrary: m n x)
  case 0
  then show ?case by (simp add: joins_Inr)
next
  case (Suc k)
  show ?case unfolding iter_loop.simps
    by (rule joins_bind [OF body [OF Suc.prems]]) (use Suc.IH joins_Inr in \<open>auto simp: paired_def\<close>)
qed

lemma blocks_joins:
  assumes s: "splits env env1 env2" and late: "\<not> e_early env" "\<not> e_early env1" "\<not> e_early env2"
  shows "paired env1 env2 m n \<Longrightarrow> joins env1 env2 (xblocks env1 bs (m, x)) (xblocks env2 bs (n, x)) (xblocks env bs (beside m n, x))"
proof (induction bs arbitrary: m n x rule: flatten.induct)
  case 1
  then show ?case by (simp add: joins_Inr)
next
  case (2 w bs)
  let ?d = "decode w"
  show ?case
  proof (cases "\<exists>m' n'. lane_step env1 ?d m = Inr m' \<and> lane_step env2 ?d n = Inr n'")
    case True
    then obtain m' n' where mn: "lane_step env1 ?d m = Inr m'" "lane_step env2 ?d n = Inr n'" by blast
    then show ?thesis using lane_step_beside [OF s 2(2) mn] "2.IH" by simp
  next
    case False
    then have "(\<exists>e. lane_step env1 ?d m = Inl e) \<or> (\<exists>e. lane_step env2 ?d n = Inl e)"
      by (cases "lane_step env1 ?d m"; cases "lane_step env2 ?d n") auto
    then show ?thesis by (auto simp: joins_def)
  qed
next
  case (3 r e body bs)
  have i: "idle env = (\<lambda>m. False)" "idle env1 = (\<lambda>m. False)" "idle env2 = (\<lambda>m. False)"
    using late by (simp_all add: idle_def fun_eq_iff)
  show ?case unfolding xblocks.simps i if_False fst_conv snd_conv
    by (rule joins_bind [where ?f1.0 = "xblocks env1 bs" and ?f2.0 = "xblocks env2 bs" and f = "xblocks env bs",
          OF iter_joins [where ?f1.0 = "xblocks env1 body" and ?f2.0 = "xblocks env2 body" and f = "xblocks env body"]])
      (use 3 in simp_all)
qed

lemma top_joins:
  assumes s: "splits env env1 env2" and late: "\<not> e_early env" "\<not> e_early env1" "\<not> e_early env2"
  shows "paired env1 env2 m n \<Longrightarrow> joins env1 env2 (xtop env1 bs (m, x)) (xtop env2 bs (n, x)) (xtop env bs (beside m n, x))"
proof (induction bs arbitrary: m n x)
  case Nil
  then show ?case by (simp add: joins_Inr)
next
  case (Cons b bs)
  show ?case
  proof (cases "is_halt b")
    case True
    then show ?thesis using Cons.prems by (simp add: joins_Inr)
  next
    case False
    have "joins env1 env2 (bind_r (xblocks env1 [b] (m, x)) (xtop env1 bs)) (bind_r (xblocks env2 [b] (n, x)) (xtop env2 bs))
        (bind_r (xblocks env [b] (beside m n, x)) (xtop env bs))"
      by (rule joins_bind [OF blocks_joins [OF s late Cons.prems]]) (rule Cons.IH)
    then show ?thesis using False by simp
  qed
qed

section \<open>Runs side by side\<close>

definition plain :: "run_args \<Rightarrow> bool" where
  "plain r \<longleftrightarrow> r_budget r = None \<and> r_n_active r = None \<and> r_idx_a r = None \<and> r_idx_b r = None \<and> r_idx_c r = None \<and>
    r_idx_scratch_in r = None"

definition alike :: "run_args \<Rightarrow> run_args \<Rightarrow> bool" where
  "alike r s \<longleftrightarrow> plain r \<and> plain s \<and> (r_c r = None \<longleftrightarrow> r_c s = None) \<and> (r_lane_mask r = None \<longleftrightarrow> r_lane_mask s = None) \<and>
    r_bank r = r_bank s \<and> r_depth r = r_depth s"

fun append_opt :: "'a list option \<Rightarrow> 'a list option \<Rightarrow> 'a list option" where
  "append_opt None ys = ys"
| "append_opt (Some xs) None = Some xs"
| "append_opt (Some xs) (Some ys) = Some (xs @ ys)"

definition side_by_side :: "run_args \<Rightarrow> run_args \<Rightarrow> run_args" where
  "side_by_side r s = r\<lparr>r_a := r_a r @ r_a s, r_b := r_b r @ r_b s, r_c := append_opt (r_c r) (r_c s),
    r_scratch_in := append_opt (r_scratch_in r) (r_scratch_in s), r_lane_mask := append_opt (r_lane_mask r) (r_lane_mask s)\<rparr>"

lemma side_by_side_simps [simp]:
  "r_a (side_by_side r s) = r_a r @ r_a s" "r_b (side_by_side r s) = r_b r @ r_b s"
  "r_c (side_by_side r s) = append_opt (r_c r) (r_c s)" "r_scratch_in (side_by_side r s) = append_opt (r_scratch_in r) (r_scratch_in s)"
  "r_lane_mask (side_by_side r s) = append_opt (r_lane_mask r) (r_lane_mask s)" "r_bank (side_by_side r s) = r_bank r"
  "r_depth (side_by_side r s) = r_depth r" "r_early (side_by_side r s) = r_early r" "plain (side_by_side r s) = plain r"
  "r_early_update (\<lambda>_. b) (side_by_side r s) = side_by_side (r\<lparr>r_early := b\<rparr>) s"
  "side_by_side r (s\<lparr>r_early := b\<rparr>) = side_by_side r s"
  by (simp_all add: side_by_side_def plain_def)

definition lanes_c :: "run_args \<Rightarrow> int list" where
  "lanes_c r = (case r_c r of None \<Rightarrow> replicate (length (r_a r)) 0 | Some c \<Rightarrow> c)"

definition lanes_keep :: "run_args \<Rightarrow> bool list" where
  "lanes_keep r = (case r_lane_mask r of None \<Rightarrow> replicate (length (r_a r)) True | Some k \<Rightarrow> k)"

text \<open>A run without tables starts when its depth, bank, streams and scratch block are in order.\<close>

definition startable :: "program \<Rightarrow> run_args \<Rightarrow> bool" where
  "startable p r \<longleftrightarrow> check_run_depth p (r_depth r) = Inr (r_depth r) \<and> check_bank p (r_bank r) = Inr () \<and>
    length (r_b r) = length (r_a r) \<and> length (lanes_c r) = length (r_a r) \<and> length (lanes_keep r) = length (r_a r) \<and>
    check_scratch_in p (r_scratch_in r) (int (length (r_a r))) = Inr ()"

definition env_of :: "program \<Rightarrow> run_args \<Rightarrow> renv" where
  "env_of p r = \<lparr>e_prog = p, e_consts = (if bank_ext p then the (r_bank r) else p_consts p), e_keep = lanes_keep r,
    e_depth = r_depth r, e_early = r_early r, e_budget = None\<rparr>"

definition mach_of :: "program \<Rightarrow> run_args \<Rightarrow> mach" where
  "mach_of p r = init_mach p (r_depth r) (int (length (r_a r))) (lanes_keep r) (r_scratch_in r) (length (r_a r)) (r_a r) (r_b r) (lanes_c r)"

lemma check_run_depth_same: "check_run_depth p d = Inr d' \<Longrightarrow> d' = d"
  by (auto simp: check_run_depth_def check_scratch_depth_def bind_r_eq_Inr Let_def split: if_splits)

lemma start_plain:
  assumes "plain r"
  shows "start_run p r = Inr s \<longleftrightarrow> startable p r \<and> s = (env_of p r, mach_of p r, int (length (r_a r)), length (r_a r))"
proof -
  note a = assms [unfolded plain_def]
  have st: "resolve_streams p r = (if length (r_b r) = length (r_a r) \<and> length (lanes_c r) = length (r_a r)
      then Inr (length (r_a r), r_a r, r_b r, lanes_c r) else Inl ValueError)"
    using a by (cases "r_c r") (auto simp: resolve_streams_def resolve_stream_def lanes_c_def Let_def)
  have la: "resolve_lanes r (length (r_a r)) = (if length (lanes_keep r) = length (r_a r)
      then Inr (int (length (r_a r)), lanes_keep r) else Inl ValueError)"
    using a by (auto simp: resolve_lanes_def lanes_keep_def Let_def split: option.splits)
  have sc: "resolve_scratch p r n = bind_r (check_scratch_in p (r_scratch_in r) (int n)) (\<lambda>_. Inr (r_scratch_in r))" for n
    using a by (simp add: resolve_scratch_def)
  show ?thesis
  proof (cases "check_run_depth p (r_depth r)")
    case (Inl e)
    then show ?thesis by (simp add: start_run_def startable_def)
  next
    case (Inr d)
    then have d: "check_run_depth p (r_depth r) = Inr (r_depth r)" using check_run_depth_same by fastforce
    have s: "startable p r \<longleftrightarrow> check_bank p (r_bank r) = Inr () \<and> length (r_b r) = length (r_a r) \<and> length (lanes_c r) = length (r_a r) \<and>
        length (lanes_keep r) = length (r_a r) \<and> check_scratch_in p (r_scratch_in r) (int (length (r_a r))) = Inr ()"
      by (simp add: startable_def d)
    show ?thesis unfolding start_run_def d s st sc bind_r_simps
      by (cases "check_bank p (r_bank r)"; cases "check_scratch_in p (r_scratch_in r) (int (length (r_a r)))")
        (use a in \<open>auto simp: la env_of_def mach_of_def\<close>)
  qed
qed

abbreviation words_in :: "program \<Rightarrow> int" where
  "words_in p \<equiv> (if scratch_io p then p_n_scratch_in p else 0)"

definition block_of :: "'a list option \<Rightarrow> 'a list" where
  "block_of x = (case x of None \<Rightarrow> [] | Some v \<Rightarrow> v)"

lemma block_of_simps [simp]: "block_of None = []" "block_of (Some v) = v" "block_of (append_opt x y) = block_of x @ block_of y"
  by (simp_all add: block_of_def split: option.split)

lemma append_opt_None [simp]: "append_opt x y = None \<longleftrightarrow> x = None \<and> y = None"
  by (cases x; cases y) simp_all

lemma check_scratch_in_iff:
  "check_scratch_in p x n = Inr () \<longleftrightarrow> (x = None \<longleftrightarrow> words_in p * n = 0) \<and> int (length (block_of x)) = words_in p * n \<and>
    (\<forall>v \<in> set (block_of x). 0 \<le> v \<and> v < 2 ^ width (p_fmt p))"
  by (cases x) (auto simp: check_scratch_in_def Let_def list_ex_iff  push_bit_eq_mult)

lemma lane_words:
  assumes "check_scratch_in p x (int n) = Inr ()" "i < n" "s < nat (words_in p)"
  shows "i * nat (words_in p) + s < length (block_of x)" "the x = block_of x"
proof -
  have w: "0 < words_in p" using assms(3) by simp
  have l: "int (length (block_of x)) = words_in p * int n" and "x \<noteq> None" using assms(1,2) w unfolding check_scratch_in_iff by auto
  then show "the x = block_of x" by auto
  have "length (block_of x) = n * nat (words_in p)" using arg_cong [OF l, of nat] w by (simp add: nat_mult_distrib)
  moreover have "Suc i * nat (words_in p) \<le> n * nat (words_in p)" using assms(2) by (intro mult_right_mono) simp_all
  ultimately show "i * nat (words_in p) + s < length (block_of x)" using assms(3) by simp
qed

lemma block_length:
  "check_scratch_in p x (int n) = Inr () \<Longrightarrow> 0 \<le> words_in p \<Longrightarrow> length (block_of x) = n * nat (words_in p)"
  unfolding check_scratch_in_iff by (metis nat_int nat_mult_distrib mult.commute)

lemma init_lane_scratch_block:
  assumes "check_scratch_in p x (int n) = Inr ()" "i < n"
  shows "init_lane_scratch p depth (int n) x i = map (\<lambda>s. if s < nat (words_in p)
    then block_of x ! (i * nat (words_in p) + s) AND (push_bit (width (p_fmt p)) 1 - 1) else zero_bits (p_fmt p) 0) [0..<nat depth]"
  unfolding init_lane_scratch_def Let_def using assms(2) lane_words(2) [OF assms] by simp

lemma init_lane_scratch_beside:
  assumes x: "check_scratch_in p x (int n) = Inr ()" and y: "check_scratch_in p y (int k) = Inr ()"
    and xy: "check_scratch_in p (append_opt x y) (int (n + k)) = Inr ()" and w: "0 \<le> words_in p"
  shows "i < n \<Longrightarrow> init_lane_scratch p depth (int (n + k)) (append_opt x y) i = init_lane_scratch p depth (int n) x i"
    and "i < k \<Longrightarrow> init_lane_scratch p depth (int (n + k)) (append_opt x y) (n + i) = init_lane_scratch p depth (int k) y i"
proof -
  assume i: "i < n"
  have b: "(block_of x @ block_of y) ! (i * nat (words_in p) + s) = block_of x ! (i * nat (words_in p) + s)" if "s < nat (words_in p)" for s
    using lane_words(1) [OF x i that] by (simp add: nth_append)
  show "init_lane_scratch p depth (int (n + k)) (append_opt x y) i = init_lane_scratch p depth (int n) x i"
    unfolding init_lane_scratch_block [OF x i] init_lane_scratch_block [OF xy trans_less_add1 [OF i]] block_of_simps
    by (intro map_cong if_cong refl) (simp only: b)
next
  assume i: "i < k"
  have b: "(block_of x @ block_of y) ! ((n + i) * nat (words_in p) + s) = block_of y ! (i * nat (words_in p) + s)" for s
    using block_length [OF x w] by (simp add: nth_append distrib_right)
  show "init_lane_scratch p depth (int (n + k)) (append_opt x y) (n + i) = init_lane_scratch p depth (int k) y i"
    unfolding init_lane_scratch_block [OF y i] init_lane_scratch_block [OF xy add_strict_left_mono [OF i]] block_of_simps b ..
qed

lemma check_scratch_in_append:
  assumes "check_scratch_in p x (int n) = Inr ()" "check_scratch_in p y (int k) = Inr ()"
  shows "check_scratch_in p (append_opt x y) (int (n + k)) = Inr ()"
proof -
  have z: "words_in p * int (n + k) = 0 \<longleftrightarrow> words_in p * int n = 0 \<and> words_in p * int k = 0" by auto
  have d: "words_in p * int (n + k) = words_in p * int n + words_in p * int k" by (simp only: of_nat_add distrib_left)
  have "append_opt x y = None \<longleftrightarrow> words_in p * int (n + k) = 0"
    using assms unfolding check_scratch_in_iff z append_opt_None by argo
  moreover have "int (length (block_of (append_opt x y))) = words_in p * int (n + k)"
    using assms unfolding check_scratch_in_iff d by (simp only: block_of_simps length_append of_nat_add)
  moreover have "\<forall>v \<in> set (block_of (append_opt x y)). 0 \<le> v \<and> v < 2 ^ width (p_fmt p)"
    using assms unfolding check_scratch_in_iff unfolding block_of_simps set_append ball_Un by (elim conjE) (intro conjI)
  ultimately show ?thesis unfolding check_scratch_in_iff by (intro conjI)
qed

lemma lanes_beside:
  assumes "alike r s" "length (lanes_c r) = length (r_a r)" "length (lanes_keep r) = length (r_a r)"
  shows "lanes_c (side_by_side r s) = lanes_c r @ lanes_c s" "lanes_keep (side_by_side r s) = lanes_keep r @ lanes_keep s"
  using assms by (cases "r_c r"; cases "r_c s"; simp add: alike_def lanes_c_def replicate_add)
    (use assms in \<open>cases "r_lane_mask r"; cases "r_lane_mask s"; simp add: alike_def lanes_keep_def replicate_add\<close>)

lemma startable_beside:
  assumes a: "alike r s" and r: "startable p r" and s: "startable p s"
  shows "startable p (side_by_side r s)"
proof -
  have c: "check_scratch_in p (r_scratch_in r) (int (length (r_a r))) = Inr ()"
    "check_scratch_in p (r_scratch_in s) (int (length (r_a s))) = Inr ()" using r s by (simp_all add: startable_def)
  have "check_scratch_in p (append_opt (r_scratch_in r) (r_scratch_in s)) (int (length (r_a r) + length (r_a s))) = Inr ()"
    by (rule check_scratch_in_append [OF c])
  then show ?thesis using r s lanes_beside [OF a] by (simp add: startable_def)
qed

lemma mach_of_beside:
  assumes a: "alike r s" and r: "startable p r" and s: "startable p s" and w: "0 \<le> words_in p"
  shows "mach_of p (side_by_side r s) = beside (mach_of p r) (mach_of p s)"
proof -
  note l = lanes_beside [OF a]
  have len: "length (lanes_c r) = length (r_a r)" "length (lanes_keep r) = length (r_a r)" "length (r_b r) = length (r_a r)"
    "r_depth s = r_depth r" using a r by (simp_all add: startable_def alike_def)
  have c: "check_scratch_in p (r_scratch_in r) (int (length (r_a r))) = Inr ()"
    "check_scratch_in p (r_scratch_in s) (int (length (r_a s))) = Inr ()"
    "check_scratch_in p (append_opt (r_scratch_in r) (r_scratch_in s)) (int (length (r_a r) + length (r_a s))) = Inr ()"
    using r s startable_beside [OF a r s] by (simp_all add: startable_def)
  note sc = init_lane_scratch_beside [OF c w, unfolded of_nat_add]
  show ?thesis
    unfolding mach_of_def init_mach_def Let_def beside_def mach.simps side_by_side_simps l(1) [OF len(1,2)] l(2) [OF len(1,2)]
      length_append len(4) upt_two map_append map_map
    by (rule mach.equality) (simp_all add: sc len nth_append replicate_add distrib_right)
qed

lemma start_beside:
  assumes a: "alike r s" and r: "startable p r" and s: "startable p s"
  shows "splits (env_of p (side_by_side r s)) (env_of p r) (env_of p s)" "paired (env_of p r) (env_of p s) (mach_of p r) (mach_of p s)"
proof -
  have len: "length (lanes_c r) = length (r_a r)" "length (lanes_keep r) = length (r_a r)" "length (lanes_keep s) = length (r_a s)"
    using a r s by (simp_all add: startable_def)
  show "splits (env_of p (side_by_side r s)) (env_of p r) (env_of p s)"
    using a lanes_beside [OF a len(1,2)] by (simp add: splits_def env_of_def alike_def)
  show "paired (env_of p r) (env_of p s) (mach_of p r) (mach_of p s)"
    using len by (simp add: paired_def fit_def n_lanes_def env_of_def mach_of_def init_mach_def Let_def)
qed

text \<open>A run of a validated program without tables, by its blocks.\<close>

definition finish :: "program \<Rightarrow> run_args \<Rightarrow> mach \<Rightarrow> int \<Rightarrow> run_result" where
  "finish p r m x = finish_run p (int (length (r_a r))) (lanes_keep r) (length (r_a r)) \<lparr>c_pc = 0, c_stack = [], c_executed = x\<rparr> m"

lemma run_top:
  assumes bs: "p_insns p = flatten bs" "wf_blocks False bs" and r: "plain r" "startable p r"
  shows "run p r = Some (bind_r (xtop (env_of p r) bs (mach_of p r, 0)) (\<lambda>(m, x). Inr (finish p r m x)))"
proof -
  have s: "start_run p r = Inr (env_of p r, mach_of p r, int (length (r_a r)), length (r_a r))"
    using start_plain [OF r(1)] r(2) by simp
  have e: "e_budget (env_of p r) = None" "e_prog (env_of p r) = p" "e_keep (env_of p r) = lanes_keep r" by (simp_all add: env_of_def)
  have run: "run p r = (case run_from (env_of p r) 0 [] (mach_of p r, 0) of None \<Rightarrow> None | Some (Inl e) \<Rightarrow> Some (Inl e)
      | Some (Inr (c, m)) \<Rightarrow> Some (Inr (finish_run p (int (length (r_a r))) (lanes_keep r) (length (r_a r)) c m)))"
    unfolding run_def s sum.case prod.case e(3) run_from_def fst_conv snd_conv ..
  have top: "case xtop (env_of p r) bs (mach_of p r, 0) of Inl e \<Rightarrow> run_from (env_of p r) 0 [] (mach_of p r, 0) = Some (Inl e)
     | Inr t \<Rightarrow> \<exists>c. run_from (env_of p r) 0 [] (mach_of p r, 0) = Some (Inr (c, fst t)) \<and> c_executed c = snd t"
    by (rule exec_top [where pre = "[]", unfolded list.size append_Nil, OF e(1)]) (use e bs in simp_all)
  show ?thesis
  proof (cases "xtop (env_of p r) bs (mach_of p r, 0)")
    case (Inl e)
    then show ?thesis using top by (simp add: run)
  next
    case (Inr t)
    obtain c where c: "run_from (env_of p r) 0 [] (mach_of p r, 0) = Some (Inr (c, fst t))" "c_executed c = snd t"
      using top Inr by auto
    then show ?thesis by (cases t) (simp add: run Inr finish_def finish_run_def)
  qed
qed

definition results_beside :: "run_result \<Rightarrow> run_result \<Rightarrow> run_result \<Rightarrow> bool" where
  "results_beside u v w \<longleftrightarrow> s_deposits w = s_deposits u @ s_deposits v \<and> s_flags w = (s_flags u OR s_flags v) \<and>
    s_status w = (s_status u OR s_status v) \<and> s_regs w = s_regs u @ s_regs v \<and> s_active w = s_active u @ s_active v \<and>
    s_counts w = s_counts u @ s_counts v \<and> s_scratch w = s_scratch u @ s_scratch v \<and>
    s_scratch_out w = s_scratch_out u @ s_scratch_out v \<and> s_lane_flags w = s_lane_flags u @ s_lane_flags v"

lemma results_beside_state:
  "results_beside u v w \<Longrightarrow> result_state u = result_state u' \<Longrightarrow> result_state v = result_state v' \<Longrightarrow> result_state w = result_state w' \<Longrightarrow>
    results_beside u' v' w'"
  by (simp add: results_beside_def result_state_def)

lemma scratch_out_beside:
  assumes "length (m_scratch m) = k" "length kr = k"
  shows "scratch_out_block p (int (k + l)) (kr @ ks) (k + l) (beside m n) = scratch_out_block p (int k) kr k m @ scratch_out_block p (int l) ks l n"
  unfolding scratch_out_block_def Let_def upt_two map_append concat_append map_map o_def beside_fields
  by (intro arg_cong2 [where f = "(@)"] arg_cong [where f = concat] map_cong refl) (simp_all add: assms nth_append)

lemma finish_beside:
  assumes a: "alike r s" and len: "length (lanes_c r) = length (r_a r)" "length (lanes_keep r) = length (r_a r)" "length (r_a r) = n_lanes e1"
    and p: "paired e1 e2 m n"
  shows "results_beside (finish p r m x) (finish p s n y) (finish p (side_by_side r s) (beside m n) z)"
proof -
  have l: "length (m_scratch m) = length (r_a r)" "length (m_lane_fl m) = length (r_a r)"
    using p len(3) by (simp_all add: paired_def fit_def)
  have k: "lanes_keep (side_by_side r s) = lanes_keep r @ lanes_keep s" by (rule lanes_beside [OF a len(1,2)])
  have "s_scratch_out (finish p (side_by_side r s) (beside m n) z) = s_scratch_out (finish p r m x) @ s_scratch_out (finish p s n y)"
    using scratch_out_beside [OF l(1) len(2), of p "length (r_a s)" "lanes_keep s" n] by (simp add: finish_def finish_run_def k)
  then show ?thesis unfolding results_beside_def
    by (simp add: finish_def finish_run_def k upt_two nth_append len(2) l o_def)
qed

lemma run_startable: "plain r \<Longrightarrow> run p r = Some (Inr u) \<Longrightarrow> startable p r"
proof -
  assume "plain r" "run p r = Some (Inr u)"
  moreover from this(2) obtain x where "start_run p r = Inr x" by (cases "start_run p r") (simp_all add: run_def)
  ultimately show ?thesis using start_plain by simp
qed

lemma with_early: "r\<lparr>r_early := b\<rparr> = r \<longleftrightarrow> r_early r = b"
  by (cases r) auto

lemma plain_early: "plain r \<Longrightarrow> plain (r\<lparr>r_early := b\<rparr>)"
  by (simp add: plain_def)

lemma run_late:
  assumes val: "validate p = Inr ()" and r: "plain r"
  shows "run p r = Some (Inr u) \<Longrightarrow> \<exists>u'. run p (r\<lparr>r_early := b\<rparr>) = Some (Inr u') \<and> result_state u' = result_state u"
proof -
  assume u: "run p r = Some (Inr u)"
  have "r_budget r = None" using r by (simp add: plain_def)
  note e = run_early_exit [OF val this]
  have "run p (r\<lparr>r_early := r_early r\<rparr>) = Some (Inr u)" using u with_early [where r = r] by simp
  then show ?thesis using e by (cases "r_early r"; cases b) auto
qed

lemma run_beside_late:
  assumes bs: "p_insns p = flatten bs" "wf_blocks False bs" and w: "0 \<le> words_in p" and a: "alike r s"
    and late: "\<not> r_early r" "\<not> r_early s" and u: "run p r = Some (Inr u)" and v: "run p s = Some (Inr v)"
  shows "\<exists>w. run p (side_by_side r s) = Some (Inr w) \<and> results_beside u v w"
proof -
  have pl: "plain r" "plain s" using a by (simp_all add: alike_def)
  have st: "startable p r" "startable p s"
    using run_startable [OF pl(1) u] run_startable [OF pl(2) v] .
  note sb = start_beside [OF a st]
  obtain m x where m: "xtop (env_of p r) bs (mach_of p r, 0) = Inr (m, x)" "u = finish p r m x"
    using u run_top [OF bs pl(1) st(1)] by (auto simp: bind_r_eq_Inr)
  obtain n y where n: "xtop (env_of p s) bs (mach_of p s, 0) = Inr (n, y)" "v = finish p s n y"
    using v run_top [OF bs pl(2) st(2)] by (auto simp: bind_r_eq_Inr)
  have "joins (env_of p r) (env_of p s) (Inr (m, x)) (Inr (n, y)) (xtop (env_of p (side_by_side r s)) bs (beside (mach_of p r) (mach_of p s), 0))"
    using top_joins [OF sb(1) _ _ _ sb(2), of bs 0] late unfolding m n by (simp add: env_of_def)
  then have j: "xtop (env_of p (side_by_side r s)) bs (mach_of p (side_by_side r s), 0) = Inr (beside m n, x)" "paired (env_of p r) (env_of p s) m n"
    by (simp_all add: joins_def mach_of_beside [OF a st w])
  have "run p (side_by_side r s) = Some (Inr (finish p (side_by_side r s) (beside m n) x))"
    using run_top [OF bs _ startable_beside [OF a st]] pl j(1) by simp
  moreover have "results_beside u v (finish p (side_by_side r s) (beside m n) x)"
    unfolding m n by (rule finish_beside [OF a _ _ _ j(2)]) (use st in \<open>simp_all add: startable_def n_lanes_def env_of_def\<close>)
  ultimately show ?thesis by blast
qed

theorem run_beside:
  assumes val: "validate p = Inr ()" and a: "alike r s" and u: "run p r = Some (Inr u)" and v: "run p s = Some (Inr v)"
  shows "\<exists>w. run p (side_by_side r s) = Some (Inr w) \<and> results_beside u v w"
proof -
  obtain bs where bs: "p_insns p = flatten bs" "wf_blocks False bs" by (rule validate_blocks [OF val])
  have w: "0 \<le> words_in p" using check_header_facts(6) [OF validate_header [OF val]] by simp
  have pl: "plain r" "plain s" "plain (side_by_side r s)" using a by (simp_all add: alike_def)
  obtain u' where u': "run p (r\<lparr>r_early := False\<rparr>) = Some (Inr u')" "result_state u' = result_state u" using run_late [OF val pl(1) u] by blast
  obtain v' where v': "run p (s\<lparr>r_early := False\<rparr>) = Some (Inr v')" "result_state v' = result_state v" using run_late [OF val pl(2) v] by blast
  have a': "alike (r\<lparr>r_early := False\<rparr>) (s\<lparr>r_early := False\<rparr>)" using a by (simp add: alike_def plain_def)
  obtain w' where w': "run p (side_by_side r s\<lparr>r_early := False\<rparr>) = Some (Inr w')" "results_beside u' v' w'"
    using run_beside_late [OF bs w a' _ _ u'(1) v'(1)] by auto
  have "run p (side_by_side r s\<lparr>r_early := False\<rparr>\<lparr>r_early := r_early r\<rparr>) = run p (side_by_side r s)"
    using with_early [where r = "side_by_side r s" and b = "r_early r"] by simp
  then obtain w where "run p (side_by_side r s) = Some (Inr w)" "result_state w' = result_state w"
    using run_late [OF val plain_early [OF pl(3)] w'(1), of "r_early r"] pl(3) by auto
  then show ?thesis using results_beside_state [OF w'(2) u'(2) v'(2)] by blast
qed

end
