(* ===== verification/SeqSafe.thy ===== *)
theory SeqSafe
  imports SeqLanes
begin

text \<open>
  A run does not go wrong. Every opcode returns an encoding of the format and flags of the five IEEE bits;
  a lane operation on a machine whose words are all encodings returns such a machine; and so a program that
  was validated, started on arguments the run accepts, returns a result whose words are all encodings.
\<close>

section \<open>Every opcode returns a word\<close>

definition word_result :: "fp_format \<Rightarrow> (int \<times> int) result \<Rightarrow> bool" where
  "word_result fmt r \<longleftrightarrow> (\<exists>b fl. r = Inr (b, fl) \<and> fits fmt b \<and> fl AND 0x1F = fl)"

lemma word_result_Inr [simp]: "word_result fmt (Inr (b, fl)) \<longleftrightarrow> fits fmt b \<and> fl AND 0x1F = fl"
  by (simp add: word_result_def)

lemma fits_take_bit: "fits fmt x \<longleftrightarrow> take_bit (width fmt) x = x"
  by (metis fits_def take_bit_int_eq_self_iff)

lemma fits_bits:
  assumes "fits fmt a"
  shows "fits fmt (a AND b)" "fits fmt (b AND a)" "fits fmt b \<Longrightarrow> fits fmt (a OR b)" "fits fmt b \<Longrightarrow> fits fmt (a XOR b)"
    "fits fmt (drop_bit n a)"
proof -
  have t: "take_bit (width fmt) a = a" using assms by (simp add: fits_take_bit)
  have "(a AND b) AND mask (width fmt) = (a AND mask (width fmt)) AND b" by (simp only: and.assoc and.commute [of b])
  then show l: "fits fmt (a AND b)" using t by (simp only: fits_take_bit take_bit_eq_mask)
  then show "fits fmt (b AND a)" by (simp only: and.commute)
  show "fits fmt b \<Longrightarrow> fits fmt (a OR b)" "fits fmt b \<Longrightarrow> fits fmt (a XOR b)" using t by (simp_all add: fits_take_bit)
  have "drop_bit n a \<le> a" using assms zdiv_mono2 [of a 1 "2 ^ n"] by (simp add: fits_def drop_bit_eq_div)
  then show "fits fmt (drop_bit n a)" using assms by (simp add: fits_def)
qed

lemma fits_mask_f [simp]: "fits fmt (mask_f fmt v)"
  by (simp add: fits_take_bit mask_f_def push_bit_eq_mult flip: take_bit_eq_mask mask_eq_exp_minus_1)

lemma fits_masks:
  assumes "wf_fmt fmt"
  shows "fits fmt (sign_mask fmt)" "fits fmt (one_bits fmt 0)" "fits fmt (zero_bits fmt 0)" "fits fmt (zero_bits fmt 1)" "fits fmt (qnan_bits fmt)"
    "fits fmt (inf_bits fmt 0)" "fits fmt (inf_bits fmt 1)"
  using unpack_one(1) [OF assms] fits_const [OF assms] by (simp_all add: fits_def sign_mask_def width_def push_bit_eq_mult)

lemma fits_minmax: "fits fmt a \<Longrightarrow> fits fmt b \<Longrightarrow> wf_fmt fmt \<Longrightarrow> word_result fmt (Inr (minmax fmt a b mx nm))"
  by (simp add: minmax_def Let_def fits_masks flag_defs)

lemma fits_compare: "wf_fmt fmt \<Longrightarrow> word_result fmt (Inr (compare_quiet fmt a b want))"
  by (simp add: compare_quiet_def Let_def fits_masks flag_defs)

lemma round_real_word:
  assumes "wf_fmt fmt" "0 < x" "s = 0 \<or> s = 1"
  shows "word_result fmt (Inr (round_real fmt rnd s x))"
proof -
  obtain b f where e: "round_real fmt rnd s x = (b, f)" by fastforce
  then show ?thesis using round_real_bits(1) [OF assms, of rnd] round_real_flags [of fmt rnd s x] by (auto simp: flag_defs)
qed

lemma seed_pack_word:
  assumes "wf_fmt fmt" "0 < m" "s = 0 \<or> s = 1"
  shows "\<exists>bits. seed_pack fmt s m e = Inr bits \<and> fits fmt bits"
proof -
  have "word_result fmt (round_pack fmt s m e RND_RNE)"
    using round_real_word [OF assms(1) _ assms(3)] round_pack_refines [OF assms(1,2), of RND_RNE s e] assms(2) by simp
  then show ?thesis by (auto simp: seed_pack_def word_result_def)
qed


lemma low_nine: "0 \<le> x AND (SEED_TABLE_SIZE - 1) \<and> x AND (SEED_TABLE_SIZE - 1) < 512"
proof -
  have "x AND (SEED_TABLE_SIZE - 1) = take_bit 9 x" by (simp add: take_bit_eq_mask mask_eq_exp_minus_1)
  then show ?thesis using take_bit_int_less_exp [of 9 x] by simp
qed

lemma recip_seed_word:
  assumes wf: "wf_fmt fmt" and x: "fits fmt xa"
  shows "word_result fmt (recip_seed fmt xa)"
proof -
  have s: "u_sign (unpack fmt xa) = 0 \<or> u_sign (unpack fmt xa) = 1" by (rule unpack_cases(1) [OF wf x])
  have "0 < seed_recip_entry (drop_bit (man_w fmt - SEED_INDEX_BITS) xa AND (SEED_TABLE_SIZE - 1))"
    using seed_recip_nearest(2) low_nine by (metis less_trans zero_less_power zero_less_numeral)
  from seed_pack_word [OF wf this s] have p: "\<exists>bits. seed_pack fmt (u_sign (unpack fmt xa))
      (seed_recip_entry (drop_bit (man_w fmt - SEED_INDEX_BITS) xa AND (SEED_TABLE_SIZE - 1))) e = Inr bits \<and> fits fmt bits" for e .
  obtain bits where "seed_pack fmt (u_sign (unpack fmt xa))
      (seed_recip_entry (drop_bit (man_w fmt - SEED_INDEX_BITS) xa AND (SEED_TABLE_SIZE - 1)))
      (- ((drop_bit (man_w fmt) xa AND exp_mask fmt) - bias fmt) - 18) = Inr bits" "fits fmt bits" using p by blast
  then show ?thesis using s fits_const [OF wf] unfolding recip_seed_def Let_def by simp
qed

lemma rsqrt_seed_word:
  assumes wf: "wf_fmt fmt" and x: "fits fmt xa"
  shows "word_result fmt (rsqrt_seed fmt xa)"
proof -
  have s: "u_sign (unpack fmt xa) = 0 \<or> u_sign (unpack fmt xa) = 1" by (rule unpack_cases(1) [OF wf x])
  define i where "i = (drop_bit (man_w fmt - SEED_INDEX_BITS) xa AND (SEED_TABLE_SIZE - 1))"
  define E where "E = (drop_bit (man_w fmt) xa AND exp_mask fmt) - bias fmt"
  define od where "od = (E AND 1)"
  have i: "0 \<le> i" "i < 512" using low_nine by (simp_all add: i_def)
  have od: "od = 0 \<or> od = 1" unfolding od_def by (simp add: and_one_eq) linarith
  have "push_bit SEED_INDEX_BITS od OR i = od * 512 + i"
  proof -
    have "take_bit 9 i = i" using i by (simp add: take_bit_int_eq_self_iff)
    then have "push_bit 9 od OR i = push_bit 9 od + i" by (intro disjunctive_add [symmetric]) (metis bit_push_bit_iff bit_take_bit_iff linorder_not_le)
    then show ?thesis by (simp add: SEED_INDEX_BITS_def push_bit_eq_mult)
  qed
  then have "0 < seed_rsqrt_entry (push_bit SEED_INDEX_BITS od OR i)" using seed_rsqrt_nearest(3) [OF i od] by simp
  from seed_pack_word [OF wf this, of 0 "- ((E - od) div 2) - 17"] obtain bits where
    "seed_pack fmt 0 (seed_rsqrt_entry (push_bit SEED_INDEX_BITS od OR i)) (- ((E - od) div 2) - 17) = Inr bits" "fits fmt bits" by auto
  then show ?thesis using s fits_const [OF wf] unfolding rsqrt_seed_def Let_def od_def i_def E_def by simp
qed

lemma sum_result_word:
  assumes wf: "wf_fmt fmt" and t: "t = 0 \<or> t = 1"
  shows "word_result fmt (Inr (sum_result fmt rnd s t v))"
proof (cases "v = 0")
  case True
  then show ?thesis using fits_const(3) [OF wf] t cancellation_sign [of rnd] by (auto simp: sum_result_def)
next
  case False
  then show ?thesis using round_real_word [OF wf, of "\<bar>v\<bar>" _ rnd] by (simp add: sum_result_def round_signed_def)
qed

lemma nan_result_word: "wf_fmt fmt \<Longrightarrow> word_result fmt (Inr (nan_result fmt us))"
  by (simp add: nan_result_def Let_def fits_masks flag_defs)

lemma fma_word:
  assumes wf: "wf_fmt fmt" and f: "fits fmt xa" "fits fmt xb" "fits fmt xc" and rnd: "valid_mode rnd"
  shows "word_result fmt (fma fmt xa xb xc rnd)"
proof (cases "is_finite fmt xa \<and> is_finite fmt xb \<and> is_finite fmt xc")
  case True
  then show ?thesis using fma_finite [OF wf f(1) _ f(2) _ f(3) _ rnd] sum_result_word [OF wf fits_sgn [OF f(3)]] by simp
next
  case False
  let ?ua = "unpack fmt xa" and ?ub = "unpack fmt xb" and ?uc = "unpack fmt xc"
  have s: "u_sign ?ua XOR u_sign ?ub = 0 \<or> u_sign ?ua XOR u_sign ?ub = 1" "u_sign ?uc = 0 \<or> u_sign ?uc = 1"
    by (rule xor_sign [OF unpack_cases(1) [OF wf f(1)] unpack_cases(1) [OF wf f(2)], THEN conjunct1], rule unpack_cases(1) [OF wf f(3)])
  have c: "u_kind ?ua = KInf \<or> u_kind ?ua = KNan \<or> u_kind ?ub = KInf \<or> u_kind ?ub = KNan \<or> u_kind ?uc = KInf \<or> u_kind ?uc = KNan"
    using False unpack_cases(4) [OF wf f(1)] unpack_cases(4) [OF wf f(2)] unpack_cases(4) [OF wf f(3)] by blast
  note i = fits_const(5) [OF wf s(1)] fits_const(5) [OF wf s(2)] fits_const(1) [OF wf]
  show ?thesis
  proof (cases "u_kind ?ua = KNan \<or> u_kind ?ub = KNan \<or> u_kind ?uc = KNan")
    case True
    then have "fma fmt xa xb xc rnd = Inr (nan_result fmt [?ua, ?ub, ?uc])"
      using rnd by (elim disjE) (simp_all add: fma_def Let_def)
    then show ?thesis using nan_result_word [OF wf] by simp
  next
    case no: False
    show ?thesis
    proof (cases "u_kind ?ua = KInf \<or> u_kind ?ub = KInf")
      case True
      then show ?thesis using no i rnd unfolding fma_def Let_def by (elim disjE) (simp_all add: flag_defs)
    next
      case False
      then have "u_kind ?uc = KInf" using no c by blast
      then show ?thesis using no False i rnd by (simp add: fma_def Let_def)
    qed
  qed
qed

lemma steer_fits:
  assumes wf: "wf_fmt fmt" and f: "fits fmt xa" "fits fmt xb" "fits fmt xc" and op: "op \<in> set ARITH_OPS"
  shows "\<exists>a b c. steer fmt op xa xb xc = Inr (a, b, c) \<and> fits fmt a \<and> fits fmt b \<and> fits fmt c"
proof -
  have n: "fits fmt (negate fmt xc)" using fits_bits(4) [OF f(3) fits_masks(1) [OF wf]] by (simp add: negate_def)
  have z: "fits fmt (zero_bits fmt (x AND 1))" for x :: int
    using fits_const(3) [OF wf, of "x AND 1"] by (simp add: and_one_eq) (metis mod2_eq_if)
  show ?thesis using op f n z fits_masks(2) [OF wf]
    by (auto simp: ARITH_OPS_def steer_def Let_def op_defs)
qed

lemma simple_word:
  assumes wf: "wf_fmt fmt" and w: "32 \<le> width fmt" and f: "fits fmt a" "fits fmt b" "fits fmt c" and i: "SIMPLE_IMPL op = Some g"
  shows "word_result fmt (g fmt a b c)"
proof -
  note n = fits_minmax [OF f(1,2) wf] fits_compare [OF wf] fits_bits [OF f(1)] f(1,2) fits_masks [OF wf]
  have "x AND 0xFFFFFFFF = take_bit 32 x" for x :: int by (rule masks(5))
  then have m: "fits fmt (x AND 0xFFFFFFFF)" for x
    using w by (simp add: fits_take_bit min_def)
  have s: "fits fmt (b AND x)" for x by (rule fits_bits(1) [OF f(2)])
  show ?thesis
    using map_of_SomeD [OF i [unfolded SIMPLE_IMPL_def]]
    by (auto simp: fabs_def neg_def copysign_def fmin_def fmax_def fminnum_def fmaxnum_def select_def cmplt_def cmple_def
        cmpeq_def iand_def ior_def ixor_def iadd_def isub_def ishl_def ishr_def icmplt_def imul_def Let_def
        n m s fits_bits(3) [OF fits_bits(1) [OF f(1)]] recip_seed_word [OF wf f(1)] rsqrt_seed_word [OF wf f(1)])
qed

lemma compute_word:
  assumes wf: "wf_fmt fmt" and w: "32 \<le> width fmt" and f: "fits fmt a" "fits fmt b" "fits fmt c" and rnd: "valid_mode rnd"
  shows "word_result fmt (compute fmt op a b c rnd)"
proof (cases "SIMPLE_IMPL op")
  case None
  show ?thesis
  proof (cases "op \<in> set ARITH_OPS")
    case True
    obtain x y z where "steer fmt op a b c = Inr (x, y, z)" "fits fmt x" "fits fmt y" "fits fmt z"
      using steer_fits [OF wf f True] by blast
    then show ?thesis using None True fma_word [OF wf _ _ _ rnd] by (simp add: compute_def)
  next
    case False
    then show ?thesis using None fits_masks(5) [OF wf] by (simp add: compute_def flag_defs)
  qed
next
  case (Some g)
  then show ?thesis using simple_word [OF wf w f Some] by (simp add: compute_def)
qed

lemma augmented_word:
  assumes wf: "wf_fmt fmt" and f: "fits fmt xa" "fits fmt xb"
  shows "\<exists>r e fl. augmented_add fmt xa xb = Inr (r, e, fl) \<and> fits fmt r \<and> fits fmt e \<and> fl AND 0x1F = fl"
proof (cases "is_finite fmt xa \<and> is_finite fmt xb")
  case True
  then have fin: "is_finite fmt xa" "is_finite fmt xb" by simp_all
  let ?v = "fval fmt xa + fval fmt xb" let ?s = "if ?v < 0 then 1 else 0 :: int"
  show ?thesis
  proof (cases "?v = 0 \<or> rmag fmt RND_RTTZ ?s \<bar>?v\<bar> < inf_mag fmt")
    case True
    then obtain r e where "augmented_add fmt xa xb = Inr (r, e, tiny_flag fmt (fval fmt e))" "fits fmt r" "fits fmt e"
      using augmented_add_finite(2) [OF wf f(1) fin(1) f(2) fin(2)] by metis
    then show ?thesis by (simp add: tiny_flag_def flag_defs)
  next
    case False
    then show ?thesis using augmented_add_finite(1) [OF wf f(1) fin(1) f(2) fin(2)] fits_masks [OF wf] by (simp add: flag_defs)
  qed
next
  case False
  then show ?thesis using augmented_add_special [OF wf f] fits_masks [OF wf] by (auto simp: flag_defs)
qed

section \<open>Machines of words\<close>

text \<open>Every array has its lanes, every register and every slot holds an encoding, and only the lanes the mask keeps run.\<close>

definition row_ok :: "fp_format \<Rightarrow> nat \<Rightarrow> int list \<Rightarrow> bool" where
  "row_ok fmt k xs \<longleftrightarrow> length xs = k \<and> (\<forall>x \<in> set xs. fits fmt x)"

definition sound :: "renv \<Rightarrow> mach \<Rightarrow> bool" where
  "sound env m \<longleftrightarrow> fit env m \<and> (\<forall>i < n_lanes env. row_ok (e_fmt env) (nat NREG) (m_regs m ! i)) \<and>
    (\<forall>i < n_lanes env. row_ok (e_fmt env) (nat (e_depth env)) (m_scratch m ! i)) \<and>
    (\<forall>x \<in> set (m_deposits m). fits (e_fmt env) x)"

lemma row_ok_nth: "row_ok fmt k xs \<Longrightarrow> i < k \<Longrightarrow> fits fmt (xs ! i)"
  by (simp add: row_ok_def)

lemma row_ok_upd: "row_ok fmt k xs \<Longrightarrow> fits fmt v \<Longrightarrow> row_ok fmt k (xs[i := v])"
  by (auto simp: row_ok_def dest: set_update_subset_insert [THEN subsetD])

lemma sound_reg: "sound env m \<Longrightarrow> i < n_lanes env \<Longrightarrow> 0 \<le> r \<Longrightarrow> r < 32 \<Longrightarrow> fits (e_fmt env) (reg m i r)"
  using row_ok_nth [of "e_fmt env" "nat NREG" "m_regs m ! i" "nat r"] by (simp add: sound_def reg_def NREG_def)

lemma sound_set_reg: "sound env m \<Longrightarrow> i < n_lanes env \<Longrightarrow> fits (e_fmt env) v \<Longrightarrow> sound env (set_reg i r v m)"
  by (auto simp: sound_def set_reg_def fit_def nth_list_update row_ok_upd)

lemma sound_marks:
  "sound env (or_lane i fl m) \<longleftrightarrow> sound env m" "sound env (or_flags fl m) \<longleftrightarrow> sound env m" "sound env (or_status fl m) \<longleftrightarrow> sound env m"
  by (simp_all add: sound_def lane_ops fit_def)

definition env_ok :: "renv \<Rightarrow> bool" where
  "env_ok env \<longleftrightarrow> ladder_fmt (e_fmt env) \<and> 32 \<le> width (e_fmt env) \<and> 1 \<le> e_depth env \<and> int (length (e_consts env)) = n_consts (e_prog env) \<and>
    (\<forall>k \<in> set (e_consts env). fits (e_fmt env) k) \<and> 0 \<le> p_max_deposits (e_prog env) \<and>
    (\<forall>w \<in> set (p_insns (e_prog env)). insn_ok (e_prog env) w) \<and> static_scratch_reach (p_insns (e_prog env)) \<le> e_depth env"

lemma env_ok_wf: "env_ok env \<Longrightarrow> wf_fmt (e_fmt env)"
  by (simp add: env_ok_def)

text \<open>A loop over the lanes whose turns succeed.\<close>

lemma each_active_total:
  assumes "\<And>i m. P m \<Longrightarrow> i < n_lanes env \<Longrightarrow> m_active m ! i \<Longrightarrow> \<exists>m'. f i m = Inr m' \<and> P m'" and "P m"
  shows "\<exists>m'. each_active env f m = Inr m' \<and> P m'"
proof -
  have "\<exists>m'. fold_r (\<lambda>m i. if m_active m ! i then f i m else Inr m) m is = Inr m' \<and> P m'" if "set is \<subseteq> {..<n_lanes env}" "P m" for "is" m
    using that
  proof (induction "is" arbitrary: m)
    case (Cons i "is")
    obtain m1 where m1: "(if m_active m ! i then f i m else Inr m) = Inr m1" "P m1"
      using assms(1) [of m i] Cons.prems by (cases "m_active m ! i") auto
    then show ?case using Cons.IH [of m1] Cons.prems(1) by simp
  qed simp
  then show ?thesis using assms(2) by (simp add: each_active_def atLeast_upt)
qed

section \<open>The sticky words are the lanes' bytes\<close>

definition orr :: "int list \<Rightarrow> int" where
  "orr xs = foldr (\<lambda>x acc. x OR acc) xs 0"

lemma orr_simps [simp]: "orr [] = 0" "orr (x # xs) = (x OR orr xs)"
  by (simp_all add: orr_def)

lemma orr_upd: "i < length xs \<Longrightarrow> orr (xs[i := xs ! i OR v]) = (orr xs OR v)"
proof (induction xs arbitrary: i)
  case (Cons x xs)
  then show ?case by (cases i) (simp_all add: or.assoc or.commute or.left_commute)
qed simp

lemma orr_zero: "\<forall>x \<in> set xs. x = 0 \<Longrightarrow> orr xs = 0"
  by (induction xs) auto

definition ieee_part :: "int \<Rightarrow> int" where "ieee_part b = b AND LANE_FLAGS_IEEE"
definition status_part :: "int \<Rightarrow> int" where "status_part b = drop_bit 1 (b AND 0xE0)"

lemma part_or: "ieee_part (a OR b) = (ieee_part a OR ieee_part b)" "status_part (a OR b) = (status_part a OR status_part b)"
  by (simp_all add: ieee_part_def status_part_def drop_bit_or bit.conj_disj_distrib2)

definition accounted :: "renv \<Rightarrow> mach \<Rightarrow> bool" where
  "accounted env m \<longleftrightarrow> length (m_lane_fl m) = n_lanes env \<and> length (m_active m) = n_lanes env \<and>
    (\<forall>b \<in> set (m_lane_fl m). b AND 0xFF = b) \<and> m_flags m = orr (map ieee_part (m_lane_fl m)) \<and>
    m_status m = orr (map status_part (m_lane_fl m)) \<and>
    (\<forall>i < n_lanes env. \<not> e_keep env ! i \<longrightarrow> \<not> m_active m ! i \<and> m_lane_fl m ! i = 0)"

lemma accounted_same:
  "m_lane_fl m' = m_lane_fl m \<Longrightarrow> m_active m' = m_active m \<Longrightarrow> m_flags m' = m_flags m \<Longrightarrow> m_status m' = m_status m \<Longrightarrow>
    accounted env m' \<longleftrightarrow> accounted env m"
  by (simp add: accounted_def)

lemma accounted_mark:
  assumes a: "accounted env m" and i: "i < n_lanes env" "m_active m ! i" and y: "y AND 0xFF = y"
  shows "accounted env (or_lane i y (or_flags (ieee_part y) (or_status (status_part y) m)))"
proof -
  have k: "e_keep env ! i" using a i by (auto simp: accounted_def)
  have l: "length (m_lane_fl m) = n_lanes env" using a by (simp add: accounted_def)
  have b: "b AND 0xFF = b" if "b \<in> set ((m_lane_fl m)[i := m_lane_fl m ! i OR y])" for b
  proof -
    have m: "m_lane_fl m ! i AND 0xFF = m_lane_fl m ! i" using a i(1) l by (simp add: accounted_def)
    have "(m_lane_fl m ! i OR y) AND 0xFF = m_lane_fl m ! i OR y" using m y by (simp add: bit.conj_disj_distrib2)
    moreover have "b = m_lane_fl m ! i OR y \<or> b \<in> set (m_lane_fl m)"
      using set_update_subset_insert [of "m_lane_fl m" i "m_lane_fl m ! i OR y"] that by blast
    ultimately show ?thesis using a by (auto simp: accounted_def)
  qed
  have "orr (map g ((m_lane_fl m)[i := m_lane_fl m ! i OR y])) = orr (map g (m_lane_fl m)) OR g y"
    if "\<And>a b. g (a OR b) = (g a OR g b)" for g
    using that orr_upd [of i "map g (m_lane_fl m)" "g y"] i(1) l by (simp add: map_update)
  note g = this [OF part_or(1)] this [OF part_or(2)]
  have z: "(m_lane_fl m)[i := m_lane_fl m ! i OR y] ! j = 0" if "j < n_lanes env" "\<not> e_keep env ! j" for j
    using a that k by (cases "j = i") (simp_all add: accounted_def)
  show ?thesis using a b z by (auto simp: accounted_def lane_ops g)
qed

lemma accounted_ieee:
  assumes "accounted env m" "i < n_lanes env" "m_active m ! i" "fl AND 0x1F = fl"
  shows "accounted env (or_lane i fl (or_flags fl m))"
proof -
  have e: "ieee_part fl = fl" using assms(4) by (simp add: ieee_part_def LANE_FLAGS_IEEE_def)
  have "fl AND 0xFF = fl AND (0x1F AND 0xFF)" using assms(4) by (simp only: and.assoc [symmetric])
  then have b: "fl AND 0xFF = fl" using assms(4) by simp
  have "fl AND 0xE0 = fl AND (0x1F AND 0xE0)" using assms(4) by (simp only: and.assoc [symmetric])
  then have "status_part fl = 0" by (simp add: status_part_def)
  then show ?thesis using accounted_mark [OF assms(1-3) b] e by (simp add: or_status_def)
qed

lemma accounted_status:
  assumes "accounted env m" "i < n_lanes env" "m_active m ! i"
  shows "accounted env (or_lane i LANE_DEPOSIT_OVERFLOW (or_status STATUS_DEPOSIT_OVERFLOW m))"
    "accounted env (or_lane i LANE_SCRATCH_RANGE (or_status STATUS_SCRATCH_RANGE m))"
    "accounted env (or_lane i LANE_MARKED (or_status STATUS_MARKED m))"
  using accounted_mark [OF assms, of LANE_DEPOSIT_OVERFLOW] accounted_mark [OF assms, of LANE_SCRATCH_RANGE]
    accounted_mark [OF assms, of LANE_MARKED]
  by (simp_all add: ieee_part_def status_part_def LANE_FLAGS_IEEE_def LANE_DEPOSIT_OVERFLOW_def LANE_SCRATCH_RANGE_def LANE_MARKED_def
      STATUS_DEPOSIT_OVERFLOW_def STATUS_SCRATCH_RANGE_def STATUS_MARKED_def)

definition good :: "renv \<Rightarrow> mach \<Rightarrow> bool" where
  "good env m \<longleftrightarrow> sound env m \<and> accounted env m"

lemma good_set_reg: "good env m \<Longrightarrow> i < n_lanes env \<Longrightarrow> fits (e_fmt env) v \<Longrightarrow> good env (set_reg i r v m)"
  using accounted_same [of "set_reg i r v m" m env] sound_set_reg [of env m i v r] unfolding good_def by (simp add: set_reg_def)

lemma good_fit: "good env m \<Longrightarrow> fit env m"
  by (simp add: good_def sound_def)

section \<open>The lane operations of a validated program\<close>

lemma checked_sources:
  assumes c: "check_operands p (decode w) = Inr ()" and s: "spec \<in> set (sources (decode w))"
  shows "snd spec \<Longrightarrow> 0 \<le> fst spec \<and> fst spec < n_consts p" "\<not> snd spec \<Longrightarrow> 0 \<le> fst spec \<and> fst spec < 32"
proof -
  let ?d = "decode w"
  obtain f where f: "f \<in> {FRa, FRb, FRc}" and sp: "spec = (if k_of ?d f then (if i_kx ?d
      then ((drop_bit (KX_SHIFT f) (i_imm ?d) AND 0xFF) OR push_bit 8 (drop_bit (KX9_SHIFT f) (i_imm ?d) AND 1), True)
      else (reg_of ?d f, True)) else (reg_of ?d f, False))" using s unfolding sources_def set_map image_iff list.set by blast
  have r: "0 \<le> reg_of ?d f \<and> reg_of ?d f < 32" using f decode_ranges [of w] by auto
  show "\<not> snd spec \<Longrightarrow> 0 \<le> fst spec \<and> fst spec < 32" using sp r by (auto split: if_splits)
  have k: "0 \<le> ((x AND 0xFF) OR push_bit 8 (y AND 1))" for x y :: int by simp
  have n: "k_of ?d f \<Longrightarrow> (if i_kx ?d then (drop_bit (KX_SHIFT f) (i_imm ?d) AND 0xFF) OR push_bit 8 (drop_bit (KX9_SHIFT f) (i_imm ?d) AND 1)
      else reg_of ?d f) < n_consts p"
    using c f unfolding check_operands_def Let_def by (auto simp: bind_r_eq_Inr split: if_splits)
  show "snd spec \<Longrightarrow> 0 \<le> fst spec \<and> fst spec < n_consts p" using sp r k n by (auto split: if_splits)
qed

lemma src_good:
  assumes e: "env_ok env" and g: "sound env m" and i: "i < n_lanes env"
    and c: "check_operands (e_prog env) (decode w) = Inr ()" and s: "spec \<in> set (sources (decode w))"
  shows "\<exists>v. src env m i spec = Inr v \<and> fits (e_fmt env) v"
proof (cases "snd spec")
  case True
  have "0 \<le> fst spec" "fst spec < int (length (e_consts env))" using checked_sources(1) [OF c s True] e by (simp_all add: env_ok_def)
  moreover from this have "fits (e_fmt env) (e_consts env ! nat (fst spec))" using e by (simp add: env_ok_def nat_less_iff)
  ultimately show ?thesis using True by (cases spec) (simp add: src_def py_index_def)
next
  case False
  then show ?thesis using sound_reg [OF g i] checked_sources(2) [OF c s False] by (cases spec) (simp add: src_def)
qed

lemma alu_good:
  assumes e: "env_ok env" and g: "good env m" and i: "i < n_lanes env" "m_active m ! i"
    and w: "insn_ok (e_prog env) w" "\<not> i_ctrl (decode w)"
  shows "\<exists>m'. alu_lane env (decode w) i m = Inr m' \<and> good env m'"
proof -
  let ?d = "decode w"
  have c: "check_operands (e_prog env) ?d = Inr ()" "i_rnd ?d \<le> 4" using w by (simp_all add: insn_ok_def)
  have rnd: "valid_mode (i_rnd ?d)" using c(2) decode_ranges(6) [of w] by (simp add: valid_mode_def RND_MODES_def rnd_defs) linarith
  note s = src_good [OF e _ i(1) c(1)]
  have three: "sources ?d ! 0 \<in> set (sources ?d)" "sources ?d ! 1 \<in> set (sources ?d)" "sources ?d ! 2 \<in> set (sources ?d)"
    by (simp_all add: sources_def)
  obtain a b v where src: "src env m i (sources ?d ! 0) = Inr a" "src env m i (sources ?d ! 1) = Inr b" "src env m i (sources ?d ! 2) = Inr v"
    and f: "fits (e_fmt env) a" "fits (e_fmt env) b" "fits (e_fmt env) v"
    using s [OF _ three(1)] s [OF _ three(2)] s [OF _ three(3)] g unfolding good_def by blast
  obtain res fl where r: "compute (e_fmt env) (i_op ?d) a b v (i_rnd ?d) = Inr (res, fl)" "fits (e_fmt env) res" "fl AND 0x1F = fl"
    using compute_word [OF env_ok_wf [OF e] _ f rnd, of "i_op ?d"] e by (auto simp: word_result_def env_ok_def)
  have g1: "good env (set_reg i (i_rd ?d) res m)" by (rule good_set_reg [OF g i(1) r(2)])
  have "good env (or_lane i fl (or_flags fl (set_reg i (i_rd ?d) res m)))"
    using g1 accounted_ieee [of env "set_reg i (i_rd ?d) res m", OF _ i(1) _ r(3)] i(2)
    by (simp add: good_def sound_marks) (simp add: set_reg_def)
  then show ?thesis using src r(1) g1 by (auto simp: alu_lane_code Let_def)
qed

lemma deposit_good:
  assumes e: "env_ok env" and g: "good env m" and i: "i < n_lanes env" "m_active m ! i"
  shows "\<exists>m'. deposit_lane env (decode w) i m = Inr m' \<and> good env m'"
proof -
  let ?d = "decode w"
  have f: "fits (e_fmt env) (reg m i (i_ra ?d))" using sound_reg [of env m i "i_ra ?d"] g i decode_ranges(2) [of w] by (simp add: good_def)
  obtain m' where m': "deposit_lane env ?d i m = Inr m'"
    by (cases "p_max_deposits (e_prog env) \<le> m_counts m ! i") (simp_all add: deposit_lane_def Let_def)
  have fit: "fit env m'" using deposit.keeps [OF good_fit [OF g] i(1) m'] by simp
  show ?thesis
  proof (cases "p_max_deposits (e_prog env) \<le> m_counts m ! i")
    case True
    then show ?thesis using accounted_status(1) [OF _ i] g by (simp add: deposit_lane_def Let_def good_def sound_marks)
  next
    case False
    then have d: "m' = m\<lparr>m_deposits := (m_deposits m)[nat (int i * p_max_deposits (e_prog env) + m_counts m ! i) := reg m i (i_ra ?d)],
        m_counts := (m_counts m)[i := m_counts m ! i + 1]\<rparr>" using m' by (simp add: deposit_lane_def Let_def)
    have "\<forall>x \<in> set (m_deposits m'). fits (e_fmt env) x"
      using g f unfolding d by (auto simp: good_def sound_def dest: set_update_subset_insert [THEN subsetD])
    moreover have "m_regs m' = m_regs m" "m_scratch m' = m_scratch m" by (simp_all add: d)
    moreover have "accounted env m'" using accounted_same [of m' m env] g by (simp add: good_def d)
    ultimately show ?thesis using g fit m' by (simp add: good_def sound_def)
  qed
qed

lemma setact_good:
  assumes g: "good env m" and i: "i < n_lanes env" "m_active m ! i"
  shows "\<exists>m'. setact_lane env d i m = Inr m' \<and> good env m'"
  using assms by (auto simp: setact_lane_def Let_def good_def sound_def fit_def accounted_def nth_list_update)

lemma static_reach:
  assumes "w \<in> set ws" "i_ctrl (decode w)" "i_op (decode w) \<in> {STL, LDL}"
  shows "(i_imm (decode w) AND SCRATCH_SLOT_MASK) + 1 \<le> static_scratch_reach ws"
proof -
  let ?f = "\<lambda>reach word. let d = decode word in
     if i_ctrl d \<and> i_op d \<in> {STL, LDL} then max reach ((i_imm d AND SCRATCH_SLOT_MASK) + 1) else reach"
  have up: "r \<le> foldl ?f r us" for r us
  proof (induction us arbitrary: r)
    case (Cons u us)
    have "r \<le> ?f r u" by (simp add: Let_def)
    then show ?case using Cons.IH [of "?f r u"] by (simp only: foldl_Cons)
  qed simp
  obtain us vs where ws: "ws = us @ w # vs" using assms(1) by (meson split_list)
  have "(i_imm (decode w) AND SCRATCH_SLOT_MASK) + 1 \<le> ?f (foldl ?f 0 us) w" using assms(2,3) by (simp add: Let_def)
  also have "\<dots> \<le> foldl ?f (?f (foldl ?f 0 us) w) vs" by (rule up)
  finally show ?thesis unfolding static_scratch_reach_def ws by (simp only: foldl_append foldl_Cons)
qed

lemma raise_good:
  assumes g: "good env m" and i: "i < n_lanes env" "m_active m ! i"
  shows "\<exists>m'. raise_lane env d i m = Inr m' \<and> good env m'"
proof -
  let ?v = "reg m i (i_ra d)"
  let ?m = "if m_qdepth m = 0 then or_lane i (?v AND RAISE_FLAG_BITS) (or_flags (?v AND RAISE_FLAG_BITS) m) else m"
  have "(?v AND RAISE_FLAG_BITS) AND 0x1F = ?v AND RAISE_FLAG_BITS" by (simp add: RAISE_FLAG_BITS_def and.assoc)
  then have g1: "good env ?m" using accounted_ieee [OF _ i] g by (simp add: good_def sound_marks)
  have a: "m_active ?m ! i" using i(2) by (simp add: lane_ops)
  have "good env (or_lane i LANE_MARKED (or_status STATUS_MARKED ?m))"
    using accounted_status(3) [OF _ i(1) a] g1 by (simp add: good_def sound_marks)
  then show ?thesis using g1 by (simp add: raise_lane_def Let_def)
qed

lemma scratch_good:
  assumes g: "good env m" and i: "i < n_lanes env" and s: "0 \<le> slot" "slot < e_depth env"
  shows "fits (e_fmt env) (m_scratch m ! i ! nat slot)" "py_index (m_scratch m ! i) slot = Inr (m_scratch m ! i ! nat slot)"
    and "fits (e_fmt env) v \<Longrightarrow> py_set (m_scratch m ! i) slot v = Inr ((m_scratch m ! i)[nat slot := v]) \<and>
      good env (m\<lparr>m_scratch := (m_scratch m)[i := (m_scratch m ! i)[nat slot := v]]\<rparr>)"
proof -
  have r: "row_ok (e_fmt env) (nat (e_depth env)) (m_scratch m ! i)" using g i by (simp add: good_def sound_def)
  then have l: "length (m_scratch m ! i) = nat (e_depth env)" by (simp add: row_ok_def)
  show "fits (e_fmt env) (m_scratch m ! i ! nat slot)" using row_ok_nth [OF r] s by (simp add: nat_less_iff)
  show "py_index (m_scratch m ! i) slot = Inr (m_scratch m ! i ! nat slot)" using s l by (simp add: py_index_def)
  assume v: "fits (e_fmt env) v"
  let ?m = "m\<lparr>m_scratch := (m_scratch m)[i := (m_scratch m ! i)[nat slot := v]]\<rparr>"
  have "accounted env ?m" using accounted_same [of ?m m env] g by (simp add: good_def)
  moreover have "sound env ?m" using g i row_ok_upd [OF r v, of "nat slot"] by (auto simp: good_def sound_def fit_def nth_list_update)
  ultimately show "py_set (m_scratch m ! i) slot v = Inr ((m_scratch m ! i)[nat slot := v]) \<and> good env ?m"
    using s l by (simp add: py_set_def good_def)
qed

lemma memory_good:
  assumes e: "env_ok env" and g: "good env m" and i: "i < n_lanes env" "m_active m ! i"
    and w: "w \<in> set (p_insns (e_prog env))" "i_ctrl (decode w)" "i_op (decode w) \<in> {STL, LDL, STX, LDX}"
  shows "\<exists>m'. memory_lane env (decode w) i m = Inr m' \<and> good env m'"
proof -
  let ?d = "decode w" and ?idx = "reg m i (i_rb (decode w))"
  let ?static = "i_op ?d \<in> {STL, LDL}"
  have ra: "fits (e_fmt env) (reg m i (i_ra ?d))" using sound_reg [of env m i "i_ra ?d"] g i decode_ranges(2) [of w] by (simp add: good_def)
  show ?thesis
  proof (cases "\<not> ?static \<and> is_strict env \<and> e_depth env \<le> ?idx")
    case True
    have "good env (or_lane i LANE_SCRATCH_RANGE (or_status STATUS_SCRATCH_RANGE m))"
      using accounted_status(2) [OF _ i] g by (simp add: good_def sound_marks)
    then show ?thesis using True good_set_reg [OF _ i(1) fits_masks(3) [OF env_ok_wf [OF e]]]
      unfolding memory_lane_def Let_def by simp
  next
    case False
    define slot where "slot = (if ?static then i_imm ?d AND SCRATCH_SLOT_MASK else ?idx AND (e_depth env - 1))"
    have d: "1 \<le> e_depth env" using e by (simp add: env_ok_def)
    have s: "0 \<le> slot" "slot < e_depth env"
    proof -
      have "0 \<le> ?idx AND (e_depth env - 1)" "?idx AND (e_depth env - 1) \<le> e_depth env - 1" using d by (simp_all add: AND_upper2)
      moreover have "0 \<le> i_imm ?d AND SCRATCH_SLOT_MASK" by (simp add: SCRATCH_SLOT_MASK_def)
      moreover have "?static \<Longrightarrow> (i_imm ?d AND SCRATCH_SLOT_MASK) + 1 \<le> e_depth env"
        using static_reach [OF w(1,2)] e by (simp add: env_ok_def)
      ultimately show "0 \<le> slot" "slot < e_depth env" by (auto simp: slot_def)
    qed
    have "memory_lane env ?d i m = (if i_op ?d \<in> {STL, STX}
        then bind_r (py_set (m_scratch m ! i) slot (reg m i (i_ra ?d))) (\<lambda>sc. Inr (m\<lparr>m_scratch := (m_scratch m)[i := sc]\<rparr>))
        else bind_r (py_index (m_scratch m ! i) slot) (\<lambda>v. Inr (set_reg i (i_rd ?d) v m)))"
      unfolding memory_lane_def Let_def slot_def if_not_P [OF False] ..
    then show ?thesis using scratch_good [OF g i(1) s] ra good_set_reg [OF g i(1)] by simp
  qed
qed

lemma step_good: "good env m \<Longrightarrow> i < n_lanes env \<Longrightarrow> \<exists>m'. step_lane env d inc i m = Inr m' \<and> good env m'"
  using good_set_reg [of env m i] by (simp add: step_lane_def iadd_def)

lemma good_ieee:
  assumes "good env m" "i < n_lanes env" "m_active m ! i" "fl AND 0x1F = fl"
  shows "good env (or_lane i fl (or_flags fl m))"
  using assms accounted_ieee [OF _ assms(2-4)] by (simp add: good_def sound_marks)

lemma augmented_good:
  assumes e: "env_ok env" and g: "good env m" and i: "i < n_lanes env" "m_active m ! i"
  shows "\<exists>m'. augmented_flat env (decode w) loud i m = Inr m' \<and> good env m'"
proof -
  let ?d = "decode w"
  have f: "fits (e_fmt env) (reg m i (i_ra ?d))" "fits (e_fmt env) (reg m i (i_rb ?d))"
    using sound_reg [of env m i] g i decode_ranges(2,3) [of w] by (simp_all add: good_def)
  obtain r x fl where r: "augmented_add (e_fmt env) (reg m i (i_ra ?d)) (reg m i (i_rb ?d)) = Inr (r, x, fl)"
    "fits (e_fmt env) r" "fits (e_fmt env) x" "fl AND 0x1F = fl"
    using augmented_word [OF env_ok_wf [OF e] f] by blast
  define y where "y = (if i_op ?d = AUGERR then x else r)"
  let ?m = "set_reg i (i_rd ?d) y m"
  have g1: "good env ?m" using good_set_reg [OF g i(1)] r(2,3) by (simp add: y_def)
  have "m_active ?m ! i" using i(2) by (simp add: set_reg_def)
  from good_ieee [OF g1 i(1) this r(4)] show ?thesis using g1 r(1) unfolding augmented_flat_def augmented_lane_def Let_def
    by (cases loud; cases "i_op ?d = AUGERR") (simp_all add: y_def)
qed

section \<open>The run of a validated program\<close>

lemma lane_step_good:
  assumes e: "env_ok env" and g: "good env m" and w: "w \<in> set (p_insns (e_prog env))"
    and n: "\<not> is_ctrl HALT w" "\<not> is_ctrl REPEAT w" "\<not> is_ctrl ENDREP w"
  shows "\<exists>m'. lane_step env (decode w) m = Inr m' \<and> good env m'"
proof (cases "i_ctrl (decode w)")
  case False
  have "insn_ok (e_prog env) w" using e w by (simp add: env_ok_def)
  then show ?thesis
    using each_active_total [where P = "good env" and f = "alu_lane env (decode w)"] alu_good [OF e _ _ _ _ False] g
    unfolding lane_step_codes(1) [OF False] by blast
next
  case True
  let ?d = "decode w"
  note c = lane_step_codes(2-9) [OF True]
  note t = each_active_total [where P = "good env" and env = env]
  have "known_word w" using insn_ok_known [of "e_prog env" w] e w by (simp add: env_ok_def)
  then have k: "i_op ?d \<in> {DEPOSIT, SETACT, ACTALL, STL, LDL, STX, LDX, AUGADD, AUGERR, QUIET, ENDQUIET, RAISE}"
    using known_code [of "i_op ?d"] n True by (auto simp: known_word_def is_ctrl_def)
  have same: "good env (m\<lparr>m_qdepth := q\<rparr>)" for q
    using g accounted_same [of "m\<lparr>m_qdepth := q\<rparr>" m env] by (simp add: good_def sound_def fit_def)
  from k consider "i_op ?d = DEPOSIT" | "i_op ?d = SETACT" | "i_op ?d = ACTALL" | "i_op ?d = AUGADD \<or> i_op ?d = AUGERR" | "i_op ?d = QUIET"
    | "i_op ?d = ENDQUIET" | "i_op ?d = RAISE" | "i_op ?d \<in> {STL, LDL, STX, LDX}" by blast
  then show ?thesis
  proof cases
    case 1 show ?thesis unfolding c(1) [OF 1] using t deposit_good [OF e] g by blast
  next case 2 show ?thesis unfolding c(2) [OF 2] using t setact_good g by blast
  next
    case 3
    have "good env (m\<lparr>m_active := e_keep env\<rparr>)" using g by (auto simp: good_def sound_def fit_def accounted_def n_lanes_def)
    then show ?thesis unfolding c(3) [OF 3] by blast
  next case 4 show ?thesis unfolding c(4) [OF 4] augmented_half_flat using t augmented_good [OF e] g by blast
  next case 5 show ?thesis unfolding c(5) [OF 5] using same by blast
  next case 6 show ?thesis unfolding c(6) [OF 6] using same by blast
  next case 7 show ?thesis unfolding c(7) [OF 7] using t raise_good g by blast
  next
    case 8
    obtain m1 where m1: "each_active env (memory_lane env ?d) m = Inr m1" "good env m1"
      using t [where f = "memory_lane env ?d"] memory_good [OF e _ _ _ w True 8] g by blast
    have "\<exists>m'. post_step env ?d m1 = Inr m' \<and> good env m'"
    proof (cases "index_step ?d = 0 \<or> i_op ?d = LDX \<and> i_rd ?d = i_rb ?d")
      case True
      have "post_step env ?d m1 = Inr m1" unfolding post_step_def Let_def if_P [OF True] ..
      then show ?thesis using m1(2) by blast
    next
      case False
      have "post_step env ?d m1 = each_active env (step_lane env ?d (index_step ?d AND (push_bit (width (e_fmt env)) 1 - 1))) m1"
        unfolding post_step_def Let_def if_not_P [OF False] ..
      then show ?thesis using t [where f = "step_lane env ?d (index_step ?d AND (push_bit (width (e_fmt env)) 1 - 1))"] step_good m1(2) by metis
    qed
    then show ?thesis unfolding c(8) [OF 8] m1(1) by simp
  qed
qed

definition good_result :: "renv \<Rightarrow> xstate result \<Rightarrow> bool" where
  "good_result env r \<longleftrightarrow> (\<exists>m x. r = Inr (m, x) \<and> good env m)"

lemma good_result_bind:
  "good_result env r \<Longrightarrow> (\<And>m x. good env m \<Longrightarrow> good_result env (f (m, x))) \<Longrightarrow> good_result env (bind_r r f)"
  by (auto simp: good_result_def)

lemma iter_good:
  assumes body: "\<And>m x. good env m \<Longrightarrow> good_result env (f (m, x))"
  shows "good env m \<Longrightarrow> good_result env (iter_loop f stop k (m, x))"
proof (induction k arbitrary: m x)
  case 0
  then show ?case by (simp add: good_result_def)
next
  case (Suc k)
  show ?case unfolding iter_loop.simps
    by (rule good_result_bind [OF body [OF Suc.prems]]) (use Suc.IH in \<open>auto simp: good_result_def\<close>)
qed

lemma blocks_good:
  assumes e: "env_ok env"
  shows "wf_blocks inner bs \<Longrightarrow> \<forall>b \<in> set bs. \<not> is_halt b \<Longrightarrow> set (flatten bs) \<subseteq> set (p_insns (e_prog env)) \<Longrightarrow> good env m \<Longrightarrow>
    good_result env (xblocks env bs (m, x))"
proof (induction bs arbitrary: inner m x rule: flatten.induct)
  case 1
  then show ?case by (simp add: good_result_def)
next
  case (2 w bs)
  have w: "w \<in> set (p_insns (e_prog env))" "\<not> is_ctrl HALT w" "\<not> is_ctrl REPEAT w" "\<not> is_ctrl ENDREP w"
    using "2.prems" by simp_all
  obtain m' where "lane_step env (decode w) m = Inr m'" "good env m'" using lane_step_good [OF e "2.prems"(4) w] by blast
  then show ?case using "2.IH" [of inner m' "x + 1"] "2.prems" by simp
next
  case (3 r e body bs)
  have w: "wf_blocks True body" "wf_blocks inner bs" using "3.prems" by simp_all
  have body: "good_result env (xblocks env body (m, x))" if "good env m" for m x
    by (rule "3.IH"(1) [OF w(1) wf_inner_not_halt [OF w(1)] _ that]) (use "3.prems" in simp)
  have bs: "good_result env (xblocks env bs (m, x))" if "good env m" for m x
    by (rule "3.IH"(2) [OF w(2) _ _ that]) (use "3.prems" in simp_all)
  have "good_result env (if idle env m then Inr (m, x + 1) else iter_loop (xblocks env body) (idle env) (nat (trip r)) (m, x + 1))"
    using "3.prems"(4) iter_good [where f = "xblocks env body", OF body "3.prems"(4)] by (simp add: good_result_def)
  then show ?case unfolding xblocks.simps fst_conv snd_conv by (rule good_result_bind) (rule bs)
qed

lemma top_good:
  assumes e: "env_ok env"
  shows "wf_blocks False bs \<Longrightarrow> set (flatten bs) \<subseteq> set (p_insns (e_prog env)) \<Longrightarrow> good env m \<Longrightarrow> good_result env (xtop env bs (m, x))"
proof (induction bs arbitrary: m x)
  case Nil
  then show ?case by (simp add: good_result_def)
next
  case (Cons b bs)
  have w: "wf_blocks False [b]" "wf_blocks False bs" and f: "flatten (b # bs) = flatten [b] @ flatten bs"
    using Cons.prems(1) wf_blocks_append [of False "[b]" bs] flatten_append [of "[b]" bs] by simp_all
  show ?case
  proof (cases "is_halt b")
    case True
    then show ?thesis using Cons.prems by (simp add: good_result_def)
  next
    case False
    have s: "set (flatten [b]) \<subseteq> set (p_insns (e_prog env))" "set (flatten bs) \<subseteq> set (p_insns (e_prog env))"
      using Cons.prems(2) unfolding f set_append by blast+
    have "good_result env (bind_r (xblocks env [b] (m, x)) (xtop env bs))"
      by (rule good_result_bind [OF blocks_good [OF e w(1) _ s(1) Cons.prems(3)]]) (use False Cons.IH [OF w(2) s(2)] in simp_all)
    then show ?thesis using False by simp
  qed
qed

lemma fits_masked: "fits fmt (x AND (push_bit (width fmt) 1 - 1))"
  using fits_mask_f [of fmt x] by (simp add: mask_f_def)

lemma start_good:
  assumes p: "mk_program fmt insns kons md fl nc nin nout depth = Inr p" and fmt: "ladder_fmt fmt" "32 \<le> width fmt"
    and s: "start_run p r = Inr (env, m, na, n)"
  shows "env_ok env" "good env m" "n_lanes env = n" "e_prog env = p" "e_budget env = r_budget r"
proof -
  note mk = mk_program_cases [OF p]
  note h = check_header_facts [OF validate_header [OF mk(1)]]
  obtain d a b c si where st: "check_run_depth p (r_depth r) = Inr d" "check_bank p (r_bank r) = Inr ()"
      "resolve_streams p r = Inr (n, a, b, c)" "resolve_lanes r n = Inr (na, e_keep env)"
    and env: "env = \<lparr>e_prog = p, e_consts = (if bank_ext p then the (r_bank r) else p_consts p), e_keep = e_keep env, e_depth = d,
          e_early = r_early r, e_budget = r_budget r\<rparr>" "m = init_mach p d na (e_keep env) si n a b c"
    using s unfolding start_run_def by (auto simp: bind_r_eq_Inr)
  have "resolve_lanes r n = Inr (x, y) \<Longrightarrow> length y = n" for x y
    by (auto simp: resolve_lanes_def Let_def split: option.splits if_splits)
  from this [OF st(4)] have k: "length (e_keep env) = n" .
  have dp: "1 \<le> d" "static_scratch_reach (p_insns p) \<le> d"
    using st(1) by (auto simp: check_run_depth_def check_scratch_depth_def bind_r_eq_Inr Let_def split: if_splits)
  have f: "e_consts env = (if bank_ext p then the (r_bank r) else p_consts p)" "e_prog env = p" "e_depth env = d" "e_budget env = r_budget r"
    by (subst env(1), simp)+
  have wf: "wf_fmt (p_fmt p)" using fmt(1) by (simp add: mk(2))
  have ks: "int (length (e_consts env)) = n_consts p \<and> (\<forall>x \<in> set (e_consts env). fits (p_fmt p) x)"
  proof (cases "bank_ext p")
    case True
    then show ?thesis using st(2) by (auto simp: f check_bank_def fits_def push_bit_eq_mult list_ex_iff not_le split: option.splits if_splits)
  next
    case False
    then show ?thesis using h(4) mk(4,12) by (simp add: f fits_def)
  qed
  obtain bs where ok: "\<forall>w \<in> set (p_insns p). insn_ok p w" using validate_blocks [OF mk(1)] by blast
  show nl: "n_lanes env = n" by (simp add: n_lanes_def k)
  show "e_prog env = p" "e_budget env = r_budget r" by (rule f)+
  show "env_ok env" using fmt ks ok dp h(1) by (simp add: env_ok_def f mk(2))
  have row: "row_ok (p_fmt p) (nat d) (init_lane_scratch p d na si i)" for i
    by (auto simp: row_ok_def init_lane_scratch_def Let_def fits_masked [simplified] fits_masks(3) [OF wf])
  show "good env m"
    using fits_masks(3) [OF wf] row
    by (auto simp: good_def sound_def accounted_def fit_def nl f env(2) init_mach_def Let_def NREG_def row_ok_def fits_masked [simplified] ieee_part_def status_part_def intro!: orr_zero)
qed

theorem run_returns:
  assumes p: "mk_program fmt insns kons md fl nc nin nout depth = Inr p" and fmt: "ladder_fmt fmt" "32 \<le> width fmt"
    and s: "start_run p r = Inr (env, m, na, n)" and b: "r_budget r = None"
  obtains m' c where "run p r = Some (Inr (finish_run p na (e_keep env) n c m'))" "good env m'" "c_executed c \<le> MAX_INSTRUCTIONS" "n_lanes env = n"
    "env_ok env" "e_prog env = p"
proof -
  note g = start_good [OF p fmt s]
  obtain bs where bs: "p_insns p = flatten bs" "wf_blocks False bs" "cost bs \<le> MAX_INSTRUCTIONS"
    by (rule validate_blocks [OF mk_program_cases(1) [OF p]])
  obtain m' x where t: "xtop env bs (m, 0) = Inr (m', x)" "good env m'"
    using top_good [OF g(1) bs(2) _ g(2), of 0] bs(1) g(4) by (auto simp: good_result_def)
  have x: "x \<le> MAX_INSTRUCTIONS" using xtop_spends [OF bs(2), of "(m, 0)" env] t(1) bs(3) by simp
  have "case xtop env bs (m, 0) of Inl e \<Rightarrow> run_from env 0 [] (m, 0) = Some (Inl e)
     | Inr t \<Rightarrow> \<exists>c. run_from env 0 [] (m, 0) = Some (Inr (c, fst t)) \<and> c_executed c = snd t"
    by (rule exec_top [where pre = "[]", unfolded list.size append_Nil]) (use g b bs in simp_all)
  then obtain c where c: "run_from env 0 [] (m, 0) = Some (Inr (c, m'))" "c_executed c = x" using t by auto
  then have "run p r = Some (Inr (finish_run p na (e_keep env) n c m'))" by (simp add: run_def s run_from_def)
  then show ?thesis using that t(2) c(2) x g by blast
qed

end
