(* ===== verification/LangConst.thy ===== *)
theory LangConst
  imports CharsText CharsRound
begin

text \<open>
  The exact constants of the language (\<^verbatim>\<open>cft_golden/lang/constants.py\<close>). A \<open>Fraction\<close> is a \<open>rat\<close>, its
  numerator and denominator the components of \<open>quotient_of\<close>. Rounding a constant once, the bound within
  which one may be held, exact square roots, the value of an encoding, and the spelling \<open>p\<close> or \<open>p/q\<close> the step
  graph writes, with its reader.
\<close>

section \<open>Python's Fraction\<close>

definition numerator :: "rat \<Rightarrow> int" where "numerator v = fst (quotient_of v)"
definition denominator :: "rat \<Rightarrow> int" where "denominator v = snd (quotient_of v)"

lemma denominator_pos [simp]: "0 < denominator v"
  using quotient_of_denom_pos' by (simp add: denominator_def)

lemma coprime_fraction: "coprime (numerator v) (denominator v)"
  by (rule quotient_of_coprime [of v]) (simp add: numerator_def denominator_def)

lemma fraction_eq: "v = of_int (numerator v) / of_int (denominator v)"
  by (rule quotient_of_div) (simp add: numerator_def denominator_def)

lemma numerator_sign: "numerator v < 0 \<longleftrightarrow> v < 0" "numerator v = 0 \<longleftrightarrow> v = 0" "0 < numerator v \<longleftrightarrow> 0 < v"
proof -
  have d: "0 < (of_int (denominator v) :: rat)" by simp
  show "numerator v < 0 \<longleftrightarrow> v < 0" "numerator v = 0 \<longleftrightarrow> v = 0" "0 < numerator v \<longleftrightarrow> 0 < v"
    using d fraction_eq [of v] by (metis divide_less_0_iff of_int_less_0_iff less_asym)
      (metis fraction_eq divide_eq_0_iff of_int_eq_0_iff denominator_pos less_irrefl,
       metis d fraction_eq of_int_0_less_iff zero_less_divide_iff less_asym)
qed

section \<open>The code\<close>

definition LIMIT_LOG2 :: int where "LIMIT_LOG2 = push_bit 20 1"

definition log2_bounds :: "rat \<Rightarrow> int \<times> int" where
  "log2_bounds value =
    (let n = \<bar>numerator value\<bar>; d = denominator value
     in (bit_length n - bit_length d - 1, bit_length n - bit_length d + 1))"

definition const_in_range :: "rat \<Rightarrow> bool" where
  "const_in_range value =
    (if value = 0 then True
     else let (lo, hi) = log2_bounds value in - LIMIT_LOG2 \<le> lo \<and> hi \<le> LIMIT_LOG2)"

definition rational_sqrt :: "rat \<Rightarrow> rat option" where
  "rational_sqrt value =
    (if value < 0 then None
     else let n = numerator value; d = denominator value; rn = isqrt n; rd = isqrt d
       in if rn * rn \<noteq> n \<or> rd * rd \<noteq> d then None else Some (of_int rn / of_int rd))"

definition round_once :: "fp_format \<Rightarrow> int \<Rightarrow> rat \<Rightarrow> (int \<times> int) result" where
  "round_once fmt rnd value =
    (if value = 0 then Inr (zero_bits fmt 0, 0)
     else let sign = (if value < 0 then 1 else 0);
              v = (if truthy sign then - value else value)
       in round_rational fmt sign (numerator v) (denominator v) rnd)"

definition overflowed :: "int \<Rightarrow> bool" where
  "overflowed flags \<longleftrightarrow> truthy (flags AND FLAG_OVERFLOW)"

definition rounded_to_zero :: "fp_format \<Rightarrow> rat \<Rightarrow> int \<Rightarrow> bool" where
  "rounded_to_zero fmt value bits \<longleftrightarrow> value \<noteq> 0 \<and> bits AND NOT (sign_mask fmt) = 0"

definition value_of :: "fp_format \<Rightarrow> int \<Rightarrow> rat result" where
  "value_of fmt bits =
    (let u = unpack fmt bits in
     if u_kind u = KInf \<or> u_kind u = KNan then Inl ValueError
     else if u_kind u = KZero then Inr 0
     else let m = of_int (u_m u) * 2 powi u_e u in Inr (if truthy (u_sign u) then - m else m))"

definition relative_error :: "fp_format \<Rightarrow> int \<Rightarrow> rat \<Rightarrow> rat result" where
  "relative_error fmt bits value =
    (if value = 0 then Inr 0
     else bind_r (value_of fmt bits) (\<lambda>v. Inr ((v - value) / value)))"

definition fraction_text :: "rat \<Rightarrow> string" where
  "fraction_text value =
    (let sign = (if value < 0 then ''-'' else []);
         num = digits_from_int \<bar>numerator value\<bar>
     in if denominator value = 1 then sign @ num
        else sign @ num @ ''/'' @ digits_from_int (denominator value))"

definition const_frac_text :: "rat \<Rightarrow> string" where
  "const_frac_text value = fraction_text value"

definition isdigit :: "string \<Rightarrow> bool" where
  "isdigit s \<longleftrightarrow> s \<noteq> [] \<and> list_all (\<lambda>c. c \<in> set DIGITS) s"

text \<open>\<open>text.partition(sep)\<close> for a separator of one character.\<close>

definition partition_at :: "char \<Rightarrow> string \<Rightarrow> string \<times> bool \<times> string" where
  "partition_at c s =
    (case dropWhile (\<lambda>x. x \<noteq> c) s of
       [] \<Rightarrow> (s, False, [])
     | _ # rest \<Rightarrow> (takeWhile (\<lambda>x. x \<noteq> c) s, True, rest))"

definition parse_frac :: "string \<Rightarrow> rat result" where
  "parse_frac text =
    (if text = [] then Inl ValueError else
     let sign = (if hd text = CHR ''-'' then - 1 else 1);
         body = (if sign < 0 then tl text else text);
         (num, slash, den) = partition_at (CHR ''/'') body
     in if \<not> isdigit num \<or> (slash \<and> \<not> isdigit den) \<or> (slash \<and> hd den = CHR ''0'')
          \<or> (1 < length num \<and> hd num = CHR ''0'') then Inl ValueError
        else let n = int_from_digits num;
                 q = (if slash then int_from_digits den else 1);
                 value = of_int (sign * n) / of_int q
          in if const_frac_text value \<noteq> text then Inl ValueError else Inr value)"

definition bits_hex :: "fp_format \<Rightarrow> int \<Rightarrow> string" where
  "bits_hex fmt bits = ''0x'' @ zero_pad (width fmt div 4) (hex_digits (nat bits))"

section \<open>The spelling of an exact value\<close>

lemma quotient_of_sign_ratio:
  assumes "0 < q" "coprime n q"
  shows "quotient_of (of_int n / of_int q) = (n, q)"
proof -
  have "quotient_of (Fract n q) = (n, q)" using assms by (simp add: quotient_of_Fract normalize_def coprime_iff_gcd_eq_1)
  then show ?thesis by (simp add: Fract_of_int_quotient)
qed

lemma signed_numerator: "(if v < 0 then - 1 else 1) * \<bar>numerator v\<bar> = numerator v"
  using numerator_sign(1,3) [of v] by (cases "v < 0") auto

lemma digits_slash: "c \<in> set (digits_from_int n) \<Longrightarrow> c \<in> set DIGITS"
  using digits_from_int_facts(1) by blast

lemma slash_not_digit: "CHR ''/'' \<notin> set DIGITS" "CHR ''-'' \<notin> set DIGITS"
  by (simp_all add: DIGITS_def)

lemma partition_digits:
  "set ds \<subseteq> set DIGITS \<Longrightarrow> partition_at (CHR ''/'') ds = (ds, False, [])"
  "set ds \<subseteq> set DIGITS \<Longrightarrow> partition_at (CHR ''/'') (ds @ CHR ''/'' # rest) = (ds, True, rest)"
proof -
  assume s: "set ds \<subseteq> set DIGITS"
  then have n: "x \<noteq> CHR ''/''" if "x \<in> set ds" for x using slash_not_digit that by blast
  then have d: "dropWhile (\<lambda>x. x \<noteq> CHR ''/'') ds = []" unfolding dropWhile_eq_Nil_conv by blast
  show "partition_at (CHR ''/'') ds = (ds, False, [])" unfolding partition_at_def d by simp
  show "partition_at (CHR ''/'') (ds @ CHR ''/'' # rest) = (ds, True, rest)"
    unfolding partition_at_def using n by (simp add: dropWhile_append2 takeWhile_append2)
qed

lemma isdigit_digits: "isdigit (digits_from_int n)"
  using digits_from_int_facts(1,2) [of n] by (auto simp: isdigit_def list_all_iff)

lemma digits_lead: "0 \<le> n \<Longrightarrow> \<not> (1 < length (digits_from_int n) \<and> hd (digits_from_int n) = CHR ''0'')"
proof (cases "n = 0")
  case True
  then show ?thesis by (simp add: digits_from_int_def py_digits.simps [of 0])
next
  case False
  moreover assume "0 \<le> n"
  ultimately show ?thesis using digits_from_int_facts(4) [of n] by simp
qed

lemma parse_frac_parts:
  assumes "text = (if ng then ''-'' else []) @ body" "body \<noteq> []" "hd body \<noteq> CHR ''-''"
    "partition_at (CHR ''/'') body = (num, slash, den)"
    "isdigit num" "\<not> (1 < length num \<and> hd num = CHR ''0'')" "slash \<Longrightarrow> isdigit den \<and> hd den \<noteq> CHR ''0''"
    "of_int ((if ng then - 1 else 1) * int_from_digits num) / of_int (if slash then int_from_digits den else 1) = v"
    "const_frac_text v = text"
  shows "parse_frac text = Inr v"
proof -
  have sg: "(if hd text = CHR ''-'' then - 1 else (1::int)) = (if ng then - 1 else 1)"
    "(if (if ng then - 1 else (1::int)) < 0 then tl text else text) = body" "text \<noteq> []"
    using assms(1-3) by simp_all
  show ?thesis using assms(5-7) sg(3)
    unfolding parse_frac_def Let_def sg(1) sg(2) assms(4) split assms(8) by (auto simp: assms(9))
qed

theorem parse_frac_text: "parse_frac (const_frac_text v) = Inr v"
proof -
  let ?n = "digits_from_int \<bar>numerator v\<bar>" and ?d = "digits_from_int (denominator v)"
  let ?t = "if denominator v = 1 then [] else CHR ''/'' # ?d"
  have t: "const_frac_text v = (if v < 0 then ''-'' else []) @ ?n @ ?t"
    by (simp add: const_frac_text_def fraction_text_def Let_def)
  have h: "hd ?n \<noteq> CHR ''-''" using digits_from_int_facts(1,2) [of "\<bar>numerator v\<bar>"] slash_not_digit(2)
    by (metis hd_in_set subsetD)
  have p: "partition_at (CHR ''/'') (?n @ ?t) = (?n, denominator v \<noteq> 1, if denominator v = 1 then [] else ?d)"
    using partition_digits [OF digits_from_int_facts(1)] by simp
  have nd: "int_from_digits ?n = \<bar>numerator v\<bar>" "int_from_digits ?d = denominator v"
    using digits_from_int_facts(3) [of "\<bar>numerator v\<bar>"] digits_from_int_facts(3) [of "denominator v"] denominator_pos [of v]
    by simp_all
  have val: "of_int ((if v < 0 then - 1 else 1) * \<bar>numerator v\<bar>) / of_int (if denominator v \<noteq> 1 then denominator v else 1) = v"
    unfolding signed_numerator using fraction_eq [of v] by (cases "denominator v = 1") simp_all
  have val': "of_int ((if v < 0 then - 1 else 1) * int_from_digits ?n)
      / of_int (if denominator v \<noteq> 1 then int_from_digits (if denominator v = 1 then [] else ?d) else 1) = v"
    unfolding nd(1) using val nd(2) by (cases "denominator v = 1") simp_all
  have ne: "?n @ ?t \<noteq> []" using digits_from_int_facts(2) [of "\<bar>numerator v\<bar>"] by simp
  have lead: "\<not> (1 < length ?n \<and> hd ?n = CHR ''0'')" by (rule digits_lead) simp
  have dl: "hd ?d \<noteq> CHR ''0''" using digits_from_int_facts(4) [of "denominator v"] by simp
  show ?thesis
    by (rule parse_frac_parts [OF t ne _ p isdigit_digits lead _ val' refl])
      (use h digits_from_int_facts(2) [of "\<bar>numerator v\<bar>"] isdigit_digits dl in \<open>simp_all add: hd_append\<close>)
qed

lemma parse_frac_only: "parse_frac t = Inr v \<Longrightarrow> t = const_frac_text v"
  by (auto simp: parse_frac_def Let_def split: if_splits prod.splits)

section \<open>Exact square roots\<close>

lemma square_coprime_quotient:
  assumes "0 < d" "coprime n d" "r * r = (of_int n / of_int d :: rat)"
  shows "numerator r * numerator r = n" "denominator r * denominator r = d"
proof -
  have "r * r = of_int (numerator r * numerator r) / of_int (denominator r * denominator r)"
    using fraction_eq [of r] by (metis of_int_mult times_divide_times_eq)
  moreover have "coprime (numerator r * numerator r) (denominator r * denominator r)"
    using coprime_fraction [of r] by simp
  moreover have "0 < denominator r * denominator r" by simp
  ultimately have "quotient_of (r * r) = (numerator r * numerator r, denominator r * denominator r)"
    by (simp only: quotient_of_sign_ratio)
  with assms show "numerator r * numerator r = n" "denominator r * denominator r = d"
    by (simp_all add: quotient_of_sign_ratio)
qed

theorem rational_sqrt_exact: "rational_sqrt v = Some r \<longleftrightarrow> 0 \<le> r \<and> r * r = v"
proof
  assume s: "rational_sqrt v = Some r"
  then have v: "0 \<le> numerator v" using numerator_sign(1) [of v] by (auto simp: rational_sqrt_def split: if_splits)
  let ?n = "isqrt (numerator v)" and ?d = "isqrt (denominator v)"
  have e: "?n * ?n = numerator v" "?d * ?d = denominator v" "r = of_int ?n / of_int ?d"
    using s by (auto simp: rational_sqrt_def Let_def split: if_splits)
  have "r * r = of_int (?n * ?n) / of_int (?d * ?d)" by (simp add: e(3))
  then have "r * r = v" unfolding e(1,2) using fraction_eq [of v] by simp
  moreover have "0 \<le> r" unfolding e(3)
    using isqrt_bounds(1) [OF v] isqrt_bounds(1) [of "denominator v"] denominator_pos [of v] by simp
  ultimately show "0 \<le> r \<and> r * r = v" by simp
next
  assume r: "0 \<le> r \<and> r * r = v"
  then have q: "numerator r * numerator r = numerator v" "denominator r * denominator r = denominator v"
    using square_coprime_quotient [OF denominator_pos coprime_fraction] fraction_eq [of v] by metis+
  have nn: "0 \<le> numerator r" using r numerator_sign(1) [of r] by linarith
  have sq: "isqrt (k * k) = k" if "0 \<le> k" for k
    using isqrt_bounds [of "k * k"] that by (smt (verit) mult_mono zero_le_square mult_strict_mono')
  have "isqrt (numerator v) = numerator r" "isqrt (denominator v) = denominator r"
    using sq [of "numerator r"] sq [of "denominator r"] nn denominator_pos [of r] q by simp_all
  moreover have "\<not> v < 0" using r by (simp add: not_less) (metis zero_le_square)
  ultimately show "rational_sqrt v = Some r" using q fraction_eq [of r] by (simp add: rational_sqrt_def Let_def)
qed

section \<open>One rounding, and the value of an encoding\<close>

lemma of_rat_fraction: "real_of_rat v = of_int (numerator v) / of_int (denominator v)"
  by (subst fraction_eq [of v]) (simp only: of_rat_divide of_rat_of_int_eq)

theorem round_once_rounds:
  assumes "wf_fmt fmt" "valid_dir rnd" "v \<noteq> 0"
  shows "round_once fmt rnd v = Inr (round_real fmt rnd (b2i (v < 0)) \<bar>of_rat v\<bar>)"
proof -
  let ?s = "if v < 0 then 1 else (0::int)"
  let ?v = "if truthy ?s then - v else v"
  have "0 < ?v" using assms(3) by simp
  then have "round_rational fmt ?s (numerator ?v) (denominator ?v) rnd = Inr (round_real fmt rnd ?s (of_rat ?v))"
    by (simp only: round_rational_refines [OF assms(1) _ denominator_pos assms(2)] numerator_sign of_rat_fraction)
  moreover have "real_of_rat ?v = \<bar>of_rat v\<bar>" using assms(3) by (simp add: of_rat_minus)
  ultimately show ?thesis using assms(3) unfolding round_once_def Let_def by simp
qed

lemma of_rat_powi: "(of_rat (a powi n) :: real) = of_rat a powi n"
  by (simp add: power_int_def of_rat_power of_rat_inverse)

lemma value_of_finite:
  assumes "value_of fmt x = Inr v"
  shows "real_of_rat v = fval fmt x" "u_kind (unpack fmt x) \<noteq> KInf" "u_kind (unpack fmt x) \<noteq> KNan"
proof -
  have z: "u_m (unpack fmt x) = 0" if "u_kind (unpack fmt x) = KZero"
    using that by (auto simp: unpack_def Let_def mk_unpacked_def split: if_splits)
  show "real_of_rat v = fval fmt x" "u_kind (unpack fmt x) \<noteq> KInf" "u_kind (unpack fmt x) \<noteq> KNan"
    using assms z by (auto simp: value_of_def Let_def fval_def u_val_def sg_def of_rat_mult of_rat_minus of_rat_powi split: if_splits)
qed

text \<open>A constant that may be held lies between two to the bounds.\<close>

lemma log2_bounds_bound:
  assumes "v \<noteq> 0" "log2_bounds v = (lo, hi)"
  shows "2 powi lo < \<bar>v\<bar> \<and> \<bar>v\<bar> < 2 powi hi"
proof -
  let ?n = "\<bar>numerator v\<bar>" and ?d = "denominator v"
  have n: "0 < ?n" using assms(1) numerator_sign(2) by simp
  define a where "a = nat (bit_length ?n - 1)"
  define b where "b = nat (bit_length ?d - 1)"
  have ab: "bit_length ?n = int a + 1" "bit_length ?d = int b + 1"
    using bit_length_pos [OF n] bit_length_pos [OF denominator_pos [of v]] by (simp_all add: a_def b_def)
  have bn: "2 ^ a \<le> ?n" "?n < 2 ^ Suc a" "2 ^ b \<le> ?d" "?d < 2 ^ Suc b"
    using ab bit_length_eq_iff [OF n] bit_length_eq_iff [OF denominator_pos] by blast+
  have lh: "lo = int a - int b - 1" "hi = int a - int b + 1" using assms(2) ab by (auto simp: log2_bounds_def Let_def)
  have v: "\<bar>v\<bar> = of_int ?n / of_int ?d"
    using denominator_pos [of v] by (subst fraction_eq [of v]) (simp add: abs_of_pos del: denominator_pos)
  have p: "(2::rat) powi lo = 2 ^ a / 2 ^ Suc b" "(2::rat) powi hi = 2 ^ Suc a / 2 ^ b"
    unfolding lh by (simp_all add: power_int_diff power_int_add)
  have r: "(2::rat) ^ a \<le> of_int ?n" "of_int ?n < (2::rat) ^ Suc a" "(2::rat) ^ b \<le> of_int ?d" "of_int ?d < (2::rat) ^ Suc b"
    using bn by (metis of_int_le_iff of_int_less_iff of_int_numeral of_int_power)+
  have d: "(0::rat) < of_int ?d" by simp
  have "(2::rat) ^ a / 2 ^ Suc b < of_int ?n / of_int ?d"
    using r d by (intro frac_less2) simp_all
  moreover have "of_int ?n / of_int ?d < (2::rat) ^ Suc a / 2 ^ b"
    using r d n by (intro frac_less) simp_all
  ultimately show ?thesis unfolding p v by simp
qed

end
