(* ===== verification/StepGraph.thy ===== *)
theory StepGraph
  imports LangConst "HOL-Library.Product_Lexorder"
begin

text \<open>
  The step graph: the operations a node may be, references, and the two readers of a graph's published form,
  the language's own (\<^verbatim>\<open>StepGraph._from_obj\<close> and \<^verbatim>\<open>StepGraph.problem\<close> of \<^verbatim>\<open>cft_golden/lang/graph.py\<close>) and the
  compiler's (\<^verbatim>\<open>cftc/ir.py\<close>). Both start from the JSON object, here a record of the fields they read; a
  reference is text until a reader splits it into its letter and its index, and a number is text until it is
  read. JSON itself is a library.
\<close>

section \<open>Python's int of a text\<close>

definition py_space :: "char \<Rightarrow> bool" where
  "py_space c \<longleftrightarrow> (of_char c :: nat) \<in> {9, 10, 11, 12, 13, 28, 29, 30, 31, 32, 133, 160}"

definition strip :: "string \<Rightarrow> string" where
  "strip s = rev (dropWhile py_space (rev (dropWhile py_space s)))"

fun split_on :: "char \<Rightarrow> string \<Rightarrow> string list" where
  "split_on c [] = [[]]"
| "split_on c (x # xs) = (if x = c then [] # split_on c xs
     else case split_on c xs of [] \<Rightarrow> [[x]] | y # ys \<Rightarrow> (x # y) # ys)"

definition base_digits :: "int \<Rightarrow> string" where
  "base_digits base = (if base = 16 then HEXDIGITS else DIGITS)"

text \<open>\<open>int(text, base)\<close> for the bases 10 and 16: spaces around, a sign, the prefix \<open>0x\<close>, single underscores.\<close>

definition py_int :: "int \<Rightarrow> string \<Rightarrow> int result" where
  "py_int base text =
    (let s = strip text;
         ng = (s \<noteq> [] \<and> hd s = CHR ''-'');
         b = (if s \<noteq> [] \<and> hd s \<in> {CHR ''-'', CHR ''+''} then tl s else s);
         p = (base = 16 \<and> take 2 b \<in> {''0x'', ''0X''});
         b' = (if p then drop 2 b else b);
         b'' = (if p \<and> b' \<noteq> [] \<and> hd b' = CHR ''_'' then tl b' else b');
         parts = split_on (CHR ''_'') b''
     in if list_ex (\<lambda>t. t = [] \<or> list_ex (\<lambda>c. c \<notin> set (base_digits base)) t) parts then Inl ValueError
        else Inr ((if ng then - 1 else 1) * int_of base (concat parts)))"

section \<open>Operations and references\<close>

datatype gop = O_fma | O_add | O_sub | O_mul | O_div | O_sqrt
  | O_exp | O_expm1 | O_exp2 | O_log | O_log1p | O_log2 | O_sin | O_cos | O_tan
  | O_neg | O_abs | O_copysign | O_min | O_max | O_minnum | O_maxnum | O_cmplt | O_cmple | O_cmpeq | O_select

definition ARITY_ITEMS :: "(string \<times> gop \<times> nat) list" where
  "ARITY_ITEMS =
    [(''fma'', O_fma, 3), (''add'', O_add, 2), (''sub'', O_sub, 2), (''mul'', O_mul, 2), (''div'', O_div, 2), (''sqrt'', O_sqrt, 1),
     (''exp'', O_exp, 1), (''expm1'', O_expm1, 1), (''exp2'', O_exp2, 1), (''log'', O_log, 1), (''log1p'', O_log1p, 1),
     (''log2'', O_log2, 1), (''sin'', O_sin, 1), (''cos'', O_cos, 1), (''tan'', O_tan, 1),
     (''neg'', O_neg, 1), (''abs'', O_abs, 1), (''copysign'', O_copysign, 2), (''min'', O_min, 2), (''max'', O_max, 2),
     (''minnum'', O_minnum, 2), (''maxnum'', O_maxnum, 2), (''cmplt'', O_cmplt, 2), (''cmple'', O_cmple, 2),
     (''cmpeq'', O_cmpeq, 2), (''select'', O_select, 3)]"

text \<open>The dictionary of operand counts: an operation the dictionary lacks is no operation.\<close>

definition OPS :: "string \<rightharpoonup> gop" where
  "OPS = map_of (map (\<lambda>(name, op, k). (name, op)) ARITY_ITEMS)"

fun ARITY :: "gop \<Rightarrow> nat" where
  "ARITY O_fma = 3" | "ARITY O_select = 3"
| "ARITY O_add = 2" | "ARITY O_sub = 2" | "ARITY O_mul = 2" | "ARITY O_div = 2" | "ARITY O_copysign = 2"
| "ARITY O_min = 2" | "ARITY O_max = 2" | "ARITY O_minnum = 2" | "ARITY O_maxnum = 2"
| "ARITY O_cmplt = 2" | "ARITY O_cmple = 2" | "ARITY O_cmpeq = 2"
| "ARITY _ = 1"

lemma ARITY_items: "(name, op, k) \<in> set ARITY_ITEMS \<Longrightarrow> ARITY op = k"
  by (auto simp: ARITY_ITEMS_def)

definition ROUNDED :: "gop list" where
  "ROUNDED = [O_fma, O_add, O_sub, O_mul]"

definition TRANSCEND :: "gop list" where
  "TRANSCEND = [O_exp, O_expm1, O_exp2, O_log, O_log1p, O_log2, O_sin, O_cos, O_tan]"

definition ROUTINES :: "gop list" where
  "ROUTINES = [O_div, O_sqrt] @ TRANSCEND"

text \<open>The letters of references, in the order their texts compare in.\<close>

datatype rkind = KC | KD | KF | KL | KN | KP | KS | KT | KW

fun kind_pos :: "rkind \<Rightarrow> nat" where
  "kind_pos KC = 0" | "kind_pos KD = 1" | "kind_pos KF = 2" | "kind_pos KL = 3" | "kind_pos KN = 4"
| "kind_pos KP = 5" | "kind_pos KS = 6" | "kind_pos KT = 7" | "kind_pos KW = 8"

lemma kind_pos_inject [simp]: "kind_pos a = kind_pos b \<longleftrightarrow> a = b"
  by (cases a; cases b) simp_all

instantiation rkind :: linorder
begin

definition less_eq_rkind :: "rkind \<Rightarrow> rkind \<Rightarrow> bool" where
  "less_eq_rkind a b \<longleftrightarrow> kind_pos a \<le> kind_pos b"

definition less_rkind :: "rkind \<Rightarrow> rkind \<Rightarrow> bool" where
  "less_rkind a b \<longleftrightarrow> kind_pos a < kind_pos b"

instance
  by standard (auto simp: less_eq_rkind_def less_rkind_def antisym)

end

type_synonym gref = "rkind \<times> nat"

definition kind_of_letter :: "char \<Rightarrow> rkind option" where
  "kind_of_letter c = map_of [(CHR ''s'', KS), (CHR ''l'', KL), (CHR ''p'', KP), (CHR ''c'', KC), (CHR ''n'', KN),
     (CHR ''t'', KT), (CHR ''d'', KD)] c"

section \<open>The published object\<close>

record obj_section =
  o_out :: "string list"
  o_nodes :: "(string \<times> string list \<times> string option) list"

record graph_obj =
  j_version :: int
  j_system :: string
  j_format :: string
  j_round :: string
  j_state :: "(string \<times> int option) list"
  j_lane :: "(string \<times> string option \<times> string option) list"
  j_param :: "(string \<times> string \<times> string \<times> int) list"
  j_integrator :: "string \<times> string option"
  j_const :: "(string \<times> string option \<times> string \<times> int) list"
  j_field :: "obj_section option"
  j_step :: "obj_section option"
  j_tangent :: "string list option"
  j_tangent_field :: "obj_section option"
  j_tangent_step :: "obj_section option"

definition RND_NAME_ITEMS :: "(string \<times> int) list" where
  "RND_NAME_ITEMS = [(''rne'', RND_RNE), (''rtz'', RND_RTZ), (''rdn'', RND_RDN), (''rup'', RND_RUP), (''rmm'', RND_RMM)]"

definition RND_BY_NAME :: "string \<rightharpoonup> int" where
  "RND_BY_NAME = map_of RND_NAME_ITEMS"

text \<open>A loop that builds a list and may raise, and the lookup \<open>d[k]\<close>.\<close>

fun map_r :: "('a \<Rightarrow> 'e + 'b) \<Rightarrow> 'a list \<Rightarrow> 'e + 'b list" where
  "map_r f [] = Inr []"
| "map_r f (x # xs) = bind_r (f x) (\<lambda>y. bind_r (map_r f xs) (\<lambda>ys. Inr (y # ys)))"

lemma map_r_Inr: "map_r f xs = Inr ys \<longleftrightarrow> length ys = length xs \<and> (\<forall>i < length xs. f (xs ! i) = Inr (ys ! i))"
proof (induction xs arbitrary: ys)
  case (Cons x xs)
  show ?case
  proof (cases ys)
    case (Cons y zs)
    then show ?thesis using Cons.IH [of zs] by (auto simp: bind_r_eq_Inr less_Suc_eq_0_disj)
  qed (simp add: bind_r_eq_Inr)
qed auto

lemma map_r_append: "map_r f (xs @ ys) = bind_r (map_r f xs) (\<lambda>as. bind_r (map_r f ys) (\<lambda>bs. Inr (as @ bs)))"
  by (induction xs) (simp_all add: bind_r_assoc)

lemma map_r_cong [fundef_cong]:
  "xs = ys \<Longrightarrow> (\<And>x. x \<in> set ys \<Longrightarrow> f x = g x) \<Longrightarrow> map_r f xs = map_r g ys"
proof -
  assume "xs = ys" and "\<And>x. x \<in> set ys \<Longrightarrow> f x = g x"
  then show ?thesis by (induction ys arbitrary: xs) auto
qed

definition dict_get :: "('k \<rightharpoonup> 'v) \<Rightarrow> 'k \<Rightarrow> 'v result" where
  "dict_get d k = (case d k of None \<Rightarrow> Inl KeyError | Some v \<Rightarrow> Inr v)"

fun opt_r :: "('a \<Rightarrow> 'e + 'b) \<Rightarrow> 'a option \<Rightarrow> 'e + 'b option" where
  "opt_r f None = Inr None"
| "opt_r f (Some x) = bind_r (f x) (\<lambda>y. Inr (Some y))"

section \<open>The compiler's reader\<close>

record cgraph =
  g_version :: int
  g_fmt :: fp_format
  g_rnd :: int
  g_components :: "string list"
  g_tangent :: "string list"
  g_n_primal :: nat
  g_n_state :: nat
  g_lane :: "(string \<times> rat option \<times> int option) list"
  g_param :: "(string \<times> rat \<times> int \<times> int) list"
  g_integrator :: "string \<times> rat option"
  g_const :: "(rat \<times> rat option \<times> int \<times> int) list"
  g_nodes :: "(gop \<times> gref list \<times> string option) list"
  g_outs :: "gref list"
  g_primal_step_nodes :: nat

definition parse_ref :: "string \<Rightarrow> gref result" where
  "parse_ref text =
    (let digits = drop 1 text
     in case (if text = [] then None else kind_of_letter (hd text)) of
          Some k \<Rightarrow> if k \<in> {KS, KL, KP, KC, KN} \<and> isdigit digits then Inr (k, nat (int_of 10 digits)) else Inl InternalError
        | None \<Rightarrow> Inl InternalError)"

definition check_ref :: "cgraph \<Rightarrow> gref \<Rightarrow> nat \<Rightarrow> unit result" where
  "check_ref g r before =
    (let limit = (case fst r of KS \<Rightarrow> g_n_state g | KL \<Rightarrow> length (g_lane g) | KP \<Rightarrow> length (g_param g)
                   | KC \<Rightarrow> length (g_const g) | _ \<Rightarrow> before)
     in if \<not> snd r < limit then Inl InternalError else Inr ())"

text \<open>The names of the state's components: an array's by index.\<close>

definition primal_names :: "(string \<times> int option) list \<Rightarrow> string list" where
  "primal_names state = concat (map (\<lambda>(name, len). case len of None \<Rightarrow> [name]
     | Some l \<Rightarrow> map (\<lambda>k. name @ ''['' @ py_digits k @ '']'') [0 ..< nat l]) state)"

definition read_exact :: "string option \<Rightarrow> rat option result" where
  "read_exact t = opt_r parse_frac t"

definition read_bits :: "string option \<Rightarrow> int option result" where
  "read_bits t = opt_r (py_int 16) t"

definition read_lane :: "string \<times> string option \<times> string option \<Rightarrow> (string \<times> rat option \<times> int option) result" where
  "read_lane = (\<lambda>(n, d, b). bind_r (read_exact d) (\<lambda>d'. bind_r (read_bits b) (\<lambda>b'. Inr (n, d', b'))))"

definition read_param :: "string \<times> string \<times> string \<times> int \<Rightarrow> (string \<times> rat \<times> int \<times> int) result" where
  "read_param = (\<lambda>(n, d, b, f). bind_r (parse_frac d) (\<lambda>d'. bind_r (py_int 16 b) (\<lambda>b'. Inr (n, d', b', f))))"

definition read_const :: "string \<times> string option \<times> string \<times> int \<Rightarrow> (rat \<times> rat option \<times> int \<times> int) result" where
  "read_const = (\<lambda>(v, fa, b, f).
    bind_r (parse_frac v) (\<lambda>v'. bind_r (read_exact fa) (\<lambda>fa'. bind_r (py_int 16 b) (\<lambda>b'. Inr (v', fa', b', f)))))"

text \<open>One node of the step: its operation is in the table, with its count of operands, each an earlier value.\<close>

definition read_node :: "cgraph \<Rightarrow> nat \<Rightarrow> string \<times> string list \<times> string option \<Rightarrow> (gop \<times> gref list \<times> string option) result" where
  "read_node g k = (\<lambda>(op, args, label).
    case OPS op of None \<Rightarrow> Inl InternalError
    | Some opn \<Rightarrow>
        if length args \<noteq> ARITY opn then Inl InternalError
        else bind_r (map_r parse_ref args) (\<lambda>refs.
             bind_r (map_r (\<lambda>r. check_ref g r k) refs) (\<lambda>_. Inr (opn, refs, label))))"

definition append_node :: "cgraph \<Rightarrow> string \<times> string list \<times> string option \<Rightarrow> cgraph result" where
  "append_node g nd = bind_r (read_node g (length (g_nodes g)) nd) (\<lambda>x. Inr (g\<lparr>g_nodes := g_nodes g @ [x]\<rparr>))"

definition read_outs :: "cgraph \<Rightarrow> string list \<Rightarrow> cgraph result" where
  "read_outs g out =
    bind_r (map_r parse_ref out) (\<lambda>outs.
    if length outs \<noteq> g_n_primal g then Inl InternalError
    else bind_r (map_r (\<lambda>r. check_ref g r (length (g_nodes g))) outs) (\<lambda>_.
      Inr (g\<lparr>g_outs := outs, g_primal_step_nodes := length (g_nodes g)\<rparr>)))"

text \<open>
  A reference of the tangent section, for the copy of vector \<open>k\<close> whose nodes begin at \<open>base\<close>: an input \<open>t\<close> is
  the state's component of that vector, a \<open>d\<close> a node of the copy, an \<open>n\<close> a node of the primal step.
\<close>

definition tangent_ref :: "cgraph \<Rightarrow> nat \<Rightarrow> nat \<Rightarrow> string \<Rightarrow> nat \<Rightarrow> gref result" where
  "tangent_ref g k base text before =
    (let digits = drop 1 text
     in case (if text = [] then None else kind_of_letter (hd text)) of
          None \<Rightarrow> Inl InternalError
        | Some kind \<Rightarrow>
          if \<not> isdigit digits then Inl InternalError
          else let i = nat (int_of 10 digits) in
          case kind of
            KT \<Rightarrow> if g_n_primal g \<le> i then Inl InternalError else Inr (KS, g_n_primal g * (k + 1) + i)
          | KD \<Rightarrow> if before \<le> i then Inl InternalError else Inr (KN, base + i)
          | KN \<Rightarrow> if g_primal_step_nodes g \<le> i then Inl InternalError else Inr (KN, i)
          | _ \<Rightarrow> bind_r (check_ref g (kind, i) 0) (\<lambda>_. Inr (kind, i)))"

definition tangent_node ::
  "nat \<Rightarrow> nat \<Rightarrow> cgraph \<Rightarrow> nat \<times> string \<times> string list \<times> string option \<Rightarrow> cgraph result" where
  "tangent_node k base g = (\<lambda>(j, op, args, label).
    case OPS op of None \<Rightarrow> Inl InternalError
    | Some opn \<Rightarrow>
        if length args \<noteq> ARITY opn then Inl InternalError
        else bind_r (map_r (\<lambda>a. tangent_ref g k base a j) args) (\<lambda>refs.
          Inr (g\<lparr>g_nodes := g_nodes g @ [(opn, refs, map_option (\<lambda>l. g_tangent g ! k @ ''.'' @ l) label)]\<rparr>)))"

definition tangent_copy :: "obj_section \<Rightarrow> cgraph \<Rightarrow> nat \<Rightarrow> cgraph result" where
  "tangent_copy tstep g k =
    (let base = length (g_nodes g)
     in bind_r (fold_r (tangent_node k base) g (enumerate 0 (o_nodes tstep))) (\<lambda>g1.
        bind_r (map_r (\<lambda>a. tangent_ref g1 k base a (length (o_nodes tstep))) (o_out tstep)) (\<lambda>outs.
        if length outs \<noteq> g_n_primal g then Inl InternalError
        else Inr (g1\<lparr>g_outs := g_outs g1 @ outs\<rparr>))))"

definition cftc_tangent :: "cgraph \<Rightarrow> obj_section \<Rightarrow> cgraph result" where
  "cftc_tangent g tstep = fold_r (tangent_copy tstep) g [0 ..< length (g_tangent g)]"

definition section_of :: "obj_section option \<Rightarrow> obj_section result" where
  "section_of x = (case x of None \<Rightarrow> Inl TypeError | Some s \<Rightarrow> Inr s)"

definition Graph :: "graph_obj \<Rightarrow> cgraph result" where
  "Graph obj =
    (if j_version obj \<noteq> 1 \<and> j_version obj \<noteq> 2 then Inl InternalError else
     bind_r (dict_get FORMATS (j_format obj)) (\<lambda>fmt.
     bind_r (dict_get RND_BY_NAME (j_round obj)) (\<lambda>rnd.
     let primal = primal_names (j_state obj) in
     bind_r (if j_version obj = 2 then (case j_tangent obj of None \<Rightarrow> Inl KeyError | Some t \<Rightarrow> Inr t) else Inr []) (\<lambda>tangent.
     if j_version obj = 2 \<and> tangent = [] then Inl InternalError else
     let components = primal @ concat (map (\<lambda>vec. map (\<lambda>c. vec @ ''.'' @ c) primal) tangent) in
     bind_r (map_r read_lane (j_lane obj)) (\<lambda>lane.
     bind_r (map_r read_param (j_param obj)) (\<lambda>param.
     bind_r (read_exact (snd (j_integrator obj))) (\<lambda>h.
     bind_r (map_r read_const (j_const obj)) (\<lambda>cs.
     bind_r (section_of (j_step obj)) (\<lambda>step.
     let g0 = \<lparr>g_version = j_version obj, g_fmt = fmt, g_rnd = rnd, g_components = components, g_tangent = tangent,
               g_n_primal = length primal, g_n_state = length components, g_lane = lane, g_param = param,
               g_integrator = (fst (j_integrator obj), h), g_const = cs, g_nodes = [], g_outs = [],
               g_primal_step_nodes = 0\<rparr> in
     bind_r (fold_r append_node g0 (o_nodes step)) (\<lambda>g1.
     bind_r (read_outs g1 (o_out step)) (\<lambda>g2.
     if tangent \<noteq> [] then bind_r (section_of (j_tangent_step obj)) (cftc_tangent g2) else Inr g2)))))))))))"

definition op_counts :: "cgraph \<Rightarrow> (gop \<times> nat) list" where
  "op_counts g = filter (\<lambda>(op, n). n \<noteq> 0)
     (map (\<lambda>(name, op, k). (op, length (filter (\<lambda>(opn, a, l). opn = op) (g_nodes g)))) ARITY_ITEMS)"

section \<open>The language's reader\<close>

text \<open>
  The checked form keeps references as texts; a node is its operation's name, the references of its operands and
  its label. The integrator's options are carried and never read here.
\<close>

record lsection =
  s_out :: "string list"
  s_nodes :: "(string \<times> string list \<times> string option) list"

record lgraph =
  l_system :: string
  l_fmt :: fp_format
  l_rnd :: int
  l_state :: "(string \<times> int option) list"
  l_lane :: "(string \<times> rat option \<times> int option) list"
  l_param :: "(string \<times> rat \<times> int \<times> int) list"
  l_integrator :: "string \<times> rat option"
  l_const :: "(rat \<times> rat option \<times> int \<times> int) list"
  l_field :: "lsection option"
  l_step :: "lsection option"
  l_tangent :: "string list"
  l_tangent_field :: "lsection option"
  l_tangent_step :: "lsection option"

definition l_section :: "obj_section option \<Rightarrow> lsection option" where
  "l_section x = map_option (\<lambda>s. \<lparr>s_out = o_out s, s_nodes = o_nodes s\<rparr>) x"

text \<open>The number of state components.\<close>

definition n_state :: "lgraph \<Rightarrow> int" where
  "n_state g = sum_list (map (\<lambda>(n, ln). case ln of None \<Rightarrow> 1 | Some k \<Rightarrow> k) (l_state g))"

definition from_obj :: "graph_obj \<Rightarrow> lgraph result" where
  "from_obj obj =
    (if j_version obj \<noteq> 1 \<and> j_version obj \<noteq> 2 then Inl ValueError else
     bind_r (dict_get FORMATS (j_format obj)) (\<lambda>fmt.
     bind_r (dict_get RND_BY_NAME (j_round obj)) (\<lambda>rnd.
     bind_r (map_r read_lane (j_lane obj)) (\<lambda>lane.
     bind_r (map_r read_param (j_param obj)) (\<lambda>param.
     bind_r (map_r read_const (j_const obj)) (\<lambda>cs.
     bind_r (if j_version obj = 2 then
               (case j_tangent obj of None \<Rightarrow> Inl KeyError
                | Some t \<Rightarrow> if t = [] then Inl ValueError
                    else Inr (t, l_section (j_tangent_field obj), l_section (j_tangent_step obj)))
             else Inr ([], None, None)) (\<lambda>(tangent, tfield, tstep).
     bind_r (read_exact (snd (j_integrator obj))) (\<lambda>h.
     Inr \<lparr>l_system = j_system obj, l_fmt = fmt, l_rnd = rnd, l_state = j_state obj, l_lane = lane, l_param = param,
          l_integrator = (fst (j_integrator obj), h), l_const = cs, l_field = l_section (j_field obj),
          l_step = l_section (j_step obj), l_tangent = tangent, l_tangent_field = tfield,
          l_tangent_step = tstep\<rparr>))))))))"

text \<open>\<open>limits\<close>: how many of each kind of leaf there are.\<close>

definition limits :: "lgraph \<Rightarrow> rkind \<Rightarrow> int" where
  "limits g k = (case k of KS \<Rightarrow> n_state g | KL \<Rightarrow> int (length (l_lane g)) | KP \<Rightarrow> int (length (l_param g))
     | _ \<Rightarrow> int (length (l_const g)))"

text \<open>
  The tests of \<^verbatim>\<open>problem\<close>: true where there is a sentence to say. A test that may raise is a result.
\<close>

definition ref_problem :: "string \<Rightarrow> lgraph \<Rightarrow> nat \<Rightarrow> bool" where
  "ref_problem ref g before =
    (case (if ref = [] then None else kind_of_letter (hd ref)) of
       None \<Rightarrow> True
     | Some kind \<Rightarrow>
         if kind \<notin> {KS, KL, KP, KC, KN} \<or> \<not> isdigit (tl ref) then True
         else let i = int_of 10 (tl ref) in
         if kind = KN then \<not> i < int before else \<not> i < limits g kind)"

definition tangent_ref_problem :: "string \<Rightarrow> lgraph \<Rightarrow> nat \<Rightarrow> lsection \<Rightarrow> bool" where
  "tangent_ref_problem ref g before primal =
    (case (if ref = [] then None else kind_of_letter (hd ref)) of
       None \<Rightarrow> True
     | Some kind \<Rightarrow>
         if \<not> isdigit (tl ref) then True
         else let i = int_of 10 (tl ref) in
         case kind of
           KD \<Rightarrow> \<not> i < int before
         | KT \<Rightarrow> \<not> i < n_state g
         | KN \<Rightarrow> (if int (length (s_nodes primal)) \<le> i then True
                  else snd (snd (s_nodes primal ! nat i)) = None)
         | _ \<Rightarrow> \<not> i < limits g kind)"

definition node_problem :: "(string \<Rightarrow> nat \<Rightarrow> bool) \<Rightarrow> nat \<times> string \<times> string list \<times> string option \<Rightarrow> bool" where
  "node_problem bad = (\<lambda>(k, op, args, label).
    case OPS op of None \<Rightarrow> True
    | Some opn \<Rightarrow> length args \<noteq> ARITY opn \<or> list_ex (\<lambda>a. bad a k) args)"

definition section_problem :: "lgraph \<Rightarrow> (string \<Rightarrow> nat \<Rightarrow> bool) \<Rightarrow> lsection \<Rightarrow> bool" where
  "section_problem g bad sec \<longleftrightarrow>
    int (length (s_out sec)) \<noteq> n_state g \<or> list_ex (node_problem bad) (enumerate 0 (s_nodes sec))
    \<or> list_ex (\<lambda>r. bad r (length (s_nodes sec))) (s_out sec)"

text \<open>An exact value rounded once is the encoding and the flags beside it.\<close>

definition const_problem :: "lgraph \<Rightarrow> rat \<times> rat option \<times> int \<times> int \<Rightarrow> bool result" where
  "const_problem g = (\<lambda>(value, factor, bits, flags).
    (case (factor, snd (l_integrator g)) of
       (Some f, Some h) \<Rightarrow>
         if value \<noteq> f * h then Inr True
         else bind_r (round_once (l_fmt g) (l_rnd g) value) (\<lambda>want. Inr (want \<noteq> (bits, flags)))
     | _ \<Rightarrow> bind_r (round_once (l_fmt g) (l_rnd g) value) (\<lambda>want. Inr (want \<noteq> (bits, flags)))))"

definition param_problem :: "lgraph \<Rightarrow> string \<times> rat \<times> int \<times> int \<Rightarrow> bool result" where
  "param_problem g = (\<lambda>(name, value, bits, flags).
    bind_r (round_once (l_fmt g) (l_rnd g) value) (\<lambda>want. Inr (want \<noteq> (bits, flags))))"

definition lane_problem :: "lgraph \<Rightarrow> string \<times> rat option \<times> int option \<Rightarrow> bool result" where
  "lane_problem g = (\<lambda>(name, value, bits).
    case value of None \<Rightarrow> Inr False
    | Some v \<Rightarrow> bind_r (round_once (l_fmt g) (l_rnd g) v) (\<lambda>want. Inr (Some (fst want) \<noteq> bits)))"

fun any_problem :: "('a \<Rightarrow> bool result) \<Rightarrow> 'a list \<Rightarrow> bool result" where
  "any_problem f [] = Inr False"
| "any_problem f (x # xs) = bind_r (f x) (\<lambda>b. if b then Inr True else any_problem f xs)"

definition tangent_section_problem :: "lgraph \<Rightarrow> lsection option \<Rightarrow> lsection option \<Rightarrow> bool" where
  "tangent_section_problem g sec prim =
    (if (sec = None) \<noteq> (prim = None) then True
     else case (sec, prim) of
       (Some s, Some p) \<Rightarrow>
         section_problem g (\<lambda>r k. tangent_ref_problem r g k p) s
         \<or> list_ex (\<lambda>r. hd r \<notin> {CHR ''t'', CHR ''d'', CHR ''c''}) (s_out s)
     | _ \<Rightarrow> False)"

definition problem :: "lgraph \<Rightarrow> bool result" where
  "problem g =
    bind_r (any_problem (const_problem g) (l_const g)) (\<lambda>b. if b then Inr True else
    bind_r (any_problem (param_problem g) (l_param g)) (\<lambda>b. if b then Inr True else
    bind_r (any_problem (lane_problem g) (l_lane g)) (\<lambda>b. if b then Inr True else
    let bad = (\<lambda>r k. ref_problem r g k) in
    if (case l_field g of None \<Rightarrow> False | Some s \<Rightarrow> section_problem g bad s) then Inr True
    else if (case l_step g of None \<Rightarrow> True | Some s \<Rightarrow> section_problem g bad s) then Inr True
    else if l_tangent g = [] then Inr (l_tangent_field g \<noteq> None \<or> l_tangent_step g \<noteq> None)
    else if \<not> distinct (l_tangent g) then Inr True
    else Inr (tangent_section_problem g (l_tangent_field g) (l_field g)
          \<or> tangent_section_problem g (l_tangent_step g) (l_step g)))))"

end
