(* ===== verification/Interp.thy ===== *)
theory Interp
  imports StepGraph SimpleOps
begin

text \<open>
  The reference interpreter of the language (\<^verbatim>\<open>cft_golden/lang/interp.py\<close>): the table of golden functions, the
  program of slots a graph becomes, and a run of lanes over steps with its sticky flags. The nine
  transcendental functions are decided by \<^verbatim>\<open>transcend.py\<close> through the library \<open>mpmath\<close>: they are the parameter
  \<open>tr\<close>, a function of the format, the operation, the operand and the attribute, and whether the library is there
  is the parameter \<open>mp\<close>. Arguments arrive with their types, so the \<open>isinstance\<close> tests have no counterpart, and a
  run value is given as its exact rational.
\<close>

type_synonym transcendental = "fp_format \<Rightarrow> gop \<Rightarrow> int \<Rightarrow> int \<Rightarrow> (int \<times> int) result"

section \<open>The operation table\<close>

text \<open>A golden function applied to a list of operands: another count of them is Python's \<open>TypeError\<close>.\<close>

definition call1 :: "('a \<Rightarrow> 'b result) \<Rightarrow> 'a list \<Rightarrow> 'b result" where
  "call1 f xs = (case xs of [a] \<Rightarrow> f a | _ \<Rightarrow> Inl TypeError)"

definition call2 :: "('a \<Rightarrow> 'a \<Rightarrow> 'b result) \<Rightarrow> 'a list \<Rightarrow> 'b result" where
  "call2 f xs = (case xs of [a, b] \<Rightarrow> f a b | _ \<Rightarrow> Inl TypeError)"

definition call3 :: "('a \<Rightarrow> 'a \<Rightarrow> 'a \<Rightarrow> 'b result) \<Rightarrow> 'a list \<Rightarrow> 'b result" where
  "call3 f xs = (case xs of [a, b, c] \<Rightarrow> f a b c | _ \<Rightarrow> Inl TypeError)"

lemma call_simps [simp]: "call1 f [a] = f a" "call2 g [a, b] = g a b" "call3 h [a, b, c] = h a b c"
  by (simp_all add: call1_def call2_def call3_def)

lemma call_Inr:
  "call1 f xs = Inr y \<longleftrightarrow> (\<exists>a. xs = [a] \<and> f a = Inr y)"
  "call2 g xs = Inr y \<longleftrightarrow> (\<exists>a b. xs = [a, b] \<and> g a b = Inr y)"
  "call3 h xs = Inr y \<longleftrightarrow> (\<exists>a b c. xs = [a, b, c] \<and> h a b c = Inr y)"
  by (auto simp: call1_def call2_def call3_def split: list.splits)

text \<open>\<open>_ops\<close>: the golden function of each operation.\<close>

definition ops :: "transcendental \<Rightarrow> fp_format \<Rightarrow> int \<Rightarrow> gop \<Rightarrow> int list \<Rightarrow> (int \<times> int) result" where
  "ops tr fmt rnd opn = (case opn of
     O_fma \<Rightarrow> call3 (\<lambda>a b c. fma fmt a b c rnd)
   | O_add \<Rightarrow> call2 (\<lambda>a b. add fmt a b rnd)
   | O_sub \<Rightarrow> call2 (\<lambda>a b. sub fmt a b rnd)
   | O_mul \<Rightarrow> call2 (\<lambda>a b. mul fmt a b rnd)
   | O_div \<Rightarrow> call2 (\<lambda>a b. div_f fmt a b rnd)
   | O_sqrt \<Rightarrow> call1 (\<lambda>a. sqrt_f fmt a rnd)
   | O_neg \<Rightarrow> call1 (\<lambda>a. Inr (neg fmt a))
   | O_abs \<Rightarrow> call1 (\<lambda>a. Inr (fabs fmt a))
   | O_copysign \<Rightarrow> call2 (\<lambda>a b. Inr (copysign fmt a b))
   | O_min \<Rightarrow> call2 (\<lambda>a b. Inr (fmin fmt a b))
   | O_max \<Rightarrow> call2 (\<lambda>a b. Inr (fmax fmt a b))
   | O_minnum \<Rightarrow> call2 (\<lambda>a b. Inr (fminnum fmt a b))
   | O_maxnum \<Rightarrow> call2 (\<lambda>a b. Inr (fmaxnum fmt a b))
   | O_cmplt \<Rightarrow> call2 (\<lambda>a b. Inr (cmplt fmt a b))
   | O_cmple \<Rightarrow> call2 (\<lambda>a b. Inr (cmple fmt a b))
   | O_cmpeq \<Rightarrow> call2 (\<lambda>a b. Inr (cmpeq fmt a b))
   | O_select \<Rightarrow> call3 (\<lambda>a b c. Inr (select fmt a b c))
   | _ \<Rightarrow> call1 (\<lambda>a. tr fmt opn a rnd))"

section \<open>The program of a graph\<close>

text \<open>Where the slots of a lane begin: inputs, lane params, params, constants, nodes, tangent inputs, tangent nodes.\<close>

record slot_map =
  b_lane :: int
  b_param :: int
  b_const :: int
  b_node :: int
  b_tangent :: int
  b_own :: int

definition ref_index :: "string \<Rightarrow> int result" where
  "ref_index ref = py_int 10 (tl ref)"

definition slot :: "slot_map \<Rightarrow> string \<Rightarrow> int result" where
  "slot sm ref =
    (if ref = [] then Inl IndexError else
     bind_r (ref_index ref) (\<lambda>i.
     case kind_of_letter (hd ref) of
       Some KN \<Rightarrow> Inr (b_node sm + i)
     | Some KS \<Rightarrow> Inr i
     | Some KL \<Rightarrow> Inr (b_lane sm + i)
     | Some KP \<Rightarrow> Inr (b_param sm + i)
     | Some KC \<Rightarrow> Inr (b_const sm + i)
     | _ \<Rightarrow> Inl KeyError))"

definition tslot :: "slot_map \<Rightarrow> string \<Rightarrow> int result" where
  "tslot sm ref =
    (if ref = [] then Inl IndexError else
     bind_r (ref_index ref) (\<lambda>i.
     case kind_of_letter (hd ref) of
       Some KT \<Rightarrow> Inr (b_tangent sm + i)
     | Some KD \<Rightarrow> Inr (b_own sm + i)
     | _ \<Rightarrow> slot sm ref))"

type_synonym code = "(gop \<times> int list) list"

definition slot_program :: "(string \<Rightarrow> int result) \<Rightarrow> lsection \<Rightarrow> code result" where
  "slot_program sl sec = map_r (\<lambda>(op, args, label).
     bind_r (dict_get OPS op) (\<lambda>f. bind_r (map_r sl args) (\<lambda>ss. Inr (f, ss)))) (s_nodes sec)"

section \<open>Running\<close>

text \<open>\<open>execute\<close>: one operation per node into consecutive slots from \<open>k\<close>, its flags gathered.\<close>

definition operands :: "int list \<Rightarrow> int list \<Rightarrow> int list result" where
  "operands v args =
    (if length args = 2 \<or> length args = 3 then map_r (py_index v) args
     else bind_r (py_index args 0) (\<lambda>a. bind_r (py_index v a) (\<lambda>x. Inr [x])))"

fun execute :: "(gop \<Rightarrow> int list \<Rightarrow> (int \<times> int) result) \<Rightarrow> code \<Rightarrow> int list \<Rightarrow> int \<Rightarrow> int \<Rightarrow> (int list \<times> int) result" where
  "execute fns [] v k fl = Inr (v, fl)"
| "execute fns ((f, args) # code) v k fl =
    bind_r (operands v args) (\<lambda>xs.
    bind_r (fns f xs) (\<lambda>(res, fl1).
    bind_r (py_set v k res) (\<lambda>v'. execute fns code v' (k + 1) (fl OR fl1))))"

definition set_slice :: "'a list \<Rightarrow> nat \<Rightarrow> nat \<Rightarrow> 'a list \<Rightarrow> 'a list" where
  "set_slice v lo hi xs = take lo v @ xs @ drop hi v"

record lane_prog =
  q_map :: slot_map
  q_code :: code
  q_outs :: "int list"
  q_tcode :: code
  q_touts :: "int list"
  q_n :: nat

text \<open>One vector of one step: its inputs in, its nodes, its outputs.\<close>

definition tangent_pass ::
  "(gop \<Rightarrow> int list \<Rightarrow> (int \<times> int) result) \<Rightarrow> lane_prog \<Rightarrow> int list \<times> int list list \<times> int \<Rightarrow> int list
    \<Rightarrow> (int list \<times> int list list \<times> int) result" where
  "tangent_pass fns q = (\<lambda>(v, done, fl) cur.
    let tb = nat (b_tangent (q_map q)); v1 = set_slice v tb (tb + q_n q) cur in
    bind_r (execute fns (q_tcode q) v1 (b_own (q_map q)) 0) (\<lambda>(v2, fl2).
    bind_r (map_r (py_index v2) (q_touts q)) (\<lambda>out. Inr (v2, done @ [out], fl OR fl2))))"

record lane_state =
  w_v :: "int list"
  w_cur :: "int list list"
  w_flags :: int
  w_pflags :: int

text \<open>One step of one lane: the primal nodes, each vector's, and only then the state moves.\<close>

definition lane_once :: "(gop \<Rightarrow> int list \<Rightarrow> (int \<times> int) result) \<Rightarrow> lane_prog \<Rightarrow> lane_state \<Rightarrow> lane_state result" where
  "lane_once fns q w =
    bind_r (execute fns (q_code q) (w_v w) (b_node (q_map q)) 0) (\<lambda>(v1, fl).
    bind_r (map_r (py_index v1) (q_outs q)) (\<lambda>nxt.
    bind_r (fold_r (tangent_pass fns q) (v1, [], w_flags w) (w_cur w)) (\<lambda>(v2, cur', fl2).
    Inr \<lparr>w_v = set_slice v2 0 (q_n q) nxt, w_cur = cur', w_flags = fl2, w_pflags = w_pflags w OR fl\<rparr>)))"

text \<open>What a run records at its checkpoints: the dictionaries \<open>at_states\<close>, \<open>at_flags\<close> and \<open>at_t\<close>.\<close>

record marks =
  at_states :: "int \<Rightarrow> int list list"
  at_flags :: "int \<Rightarrow> int"
  at_t :: "int \<Rightarrow> int list list list"

definition record_mark :: "nat \<Rightarrow> int \<Rightarrow> lane_state \<Rightarrow> marks \<Rightarrow> marks" where
  "record_mark n s w m =
    m\<lparr>at_states := (at_states m)(s := at_states m s @ [take n (w_v w)]),
      at_flags := (at_flags m)(s := at_flags m s OR (w_flags w OR w_pflags w)),
      at_t := (at_t m)(s := at_t m s @ [w_cur w])\<rparr>"

definition lane_step_at ::
  "(gop \<Rightarrow> int list \<Rightarrow> (int \<times> int) result) \<Rightarrow> lane_prog \<Rightarrow> int list \<Rightarrow> lane_state \<times> marks \<Rightarrow> int \<Rightarrow> (lane_state \<times> marks) result" where
  "lane_step_at fns q ats = (\<lambda>(w, m) s.
    bind_r (lane_once fns q w) (\<lambda>w'. Inr (w', if s \<in> set ats then record_mark (q_n q) s w' m else m)))"

record run_state =
  x_states :: "int list list"
  x_tangents :: "int list list list"
  x_flags :: int
  x_pflags :: int
  x_marks :: marks

definition lane_run ::
  "(gop \<Rightarrow> int list \<Rightarrow> (int \<times> int) result) \<Rightarrow> lane_prog \<Rightarrow> int list \<Rightarrow> int \<Rightarrow> run_state \<Rightarrow> int list \<times> int list list
    \<Rightarrow> run_state result" where
  "lane_run fns q ats steps x = (\<lambda>(v0, cur0).
    let w0 = \<lparr>w_v = v0, w_cur = cur0, w_flags = 0, w_pflags = 0\<rparr>;
        m0 = (if 0 \<in> set ats then record_mark (q_n q) 0 w0 (x_marks x) else x_marks x)
    in bind_r (fold_r (lane_step_at fns q ats) (w0, m0) [1 .. steps]) (\<lambda>(w, m).
       Inr \<lparr>x_states = x_states x @ [take (q_n q) (w_v w)], x_tangents = x_tangents x @ [w_cur w],
            x_flags = x_flags x OR (w_flags w OR w_pflags w), x_pflags = x_pflags x OR w_pflags w, x_marks = m\<rparr>))"

section \<open>A run's arguments\<close>

record lang_args =
  a_states :: "int list list"
  a_steps :: int
  a_lane_params :: "int list list option"
  a_params :: "(string \<times> rat) list"
  a_param_bits :: "(string \<times> int) list"
  a_h :: "rat option"
  a_at :: "int list"
  a_tangents :: "int list list list option"

definition transcendentals :: "lgraph \<Rightarrow> gop list" where
  "transcendentals g =
    (let held = concat (map (\<lambda>sec. case sec of None \<Rightarrow> [] | Some s \<Rightarrow> map (\<lambda>(op, a, l). op) (s_nodes s))
       [l_field g, l_step g, l_tangent_field g, l_tangent_step g])
     in filter (\<lambda>fn. list_ex (\<lambda>name. OPS name = Some fn) held) TRANSCEND)"

definition need_mpmath :: "bool \<Rightarrow> lgraph \<Rightarrow> unit result" where
  "need_mpmath mp g = (if transcendentals g \<noteq> [] \<and> \<not> mp then Inl ZivEscalation else Inr ())"

definition exact_run_value :: "rat \<Rightarrow> rat result" where
  "exact_run_value v = (if \<not> const_in_range v then Inl (Refusal ''constant-range'') else Inr v)"

definition round_run :: "lgraph \<Rightarrow> rat \<Rightarrow> int result" where
  "round_run g value =
    bind_r (round_once (l_fmt g) (l_rnd g) value) (\<lambda>(bits, flags).
    if overflowed flags then Inl (Refusal ''constant-overflow'')
    else if rounded_to_zero (l_fmt g) value bits then Inl (Refusal ''constant-rounds-to-zero'')
    else Inr bits)"

text \<open>A lane's values: their count, and each an encoding.\<close>

definition check_lane :: "nat \<Rightarrow> int \<Rightarrow> int option list \<Rightarrow> int list result" where
  "check_lane n bound st =
    (if length st \<noteq> n then Inl (Refusal ''lane-shape'')
     else map_r (\<lambda>x. case x of None \<Rightarrow> Inl (Refusal ''lane-value'')
       | Some v \<Rightarrow> if \<not> (0 \<le> v \<and> v < bound) then Inl (Refusal ''lane-value'') else Inr v) st)"

definition check_lanes :: "nat \<Rightarrow> int \<Rightarrow> int list list \<Rightarrow> int list list result" where
  "check_lanes n bound sts = map_r (\<lambda>st. check_lane n bound (map Some st)) sts"

definition check_steps :: "int \<Rightarrow> int list \<Rightarrow> unit result" where
  "check_steps steps ats =
    (if steps < 0 \<or> list_ex (\<lambda>s. s < 0 \<or> steps < s) ats then Inl (Refusal ''step-count'') else Inr ())"

definition resolve_lane_params :: "lgraph \<Rightarrow> lang_args \<Rightarrow> int list list result" where
  "resolve_lane_params g a =
    (let m = length (l_lane g); bound = push_bit (width (l_fmt g)) 1
     in bind_r (case a_lane_params a of
          Some lps \<Rightarrow> Inr (map (map Some) lps)
        | None \<Rightarrow> if list_ex (\<lambda>(nm, d, b). d = None) (l_lane g) then Inl (Refusal ''lane-shape'')
            else Inr (map (\<lambda>_. map (\<lambda>(n, d, b). b) (l_lane g)) (a_states a))) (\<lambda>lps.
        if length lps \<noteq> length (a_states a) then Inl (Refusal ''lane-shape'')
        else map_r (check_lane m bound) lps))"

definition resolve_tangents :: "lgraph \<Rightarrow> nat \<Rightarrow> lang_args \<Rightarrow> int list list list result" where
  "resolve_tangents g n a =
    (let T = length (l_tangent g); bound = push_bit (width (l_fmt g)) 1
     in case a_tangents a of
          None \<Rightarrow> if T = 0 then Inr (map (\<lambda>_. []) (a_states a)) else Inl (Refusal ''lane-shape'')
        | Some ts \<Rightarrow>
            if T = 0 then Inl (Refusal ''lane-shape'')
            else if length ts \<noteq> length (a_states a) then Inl (Refusal ''lane-shape'')
            else map_r (\<lambda>lt. if length lt \<noteq> T then Inl (Refusal ''lane-shape'') else check_lanes n bound lt) ts)"

text \<open>The index of a name among the params, as \<open>names.index(name)\<close>.\<close>

definition name_index :: "lgraph \<Rightarrow> string \<Rightarrow> int result" where
  "name_index g name =
    (let names = map fst (l_param g)
     in if name \<notin> set names then Inl (Refusal ''unknown-param'')
        else Inr (int (length (takeWhile (\<lambda>x. x \<noteq> name) names))))"

definition param_value :: "lgraph \<Rightarrow> int list \<Rightarrow> string \<times> rat \<Rightarrow> int list result" where
  "param_value g pbits = (\<lambda>(name, value).
    bind_r (name_index g name) (\<lambda>i.
    bind_r (exact_run_value value) (\<lambda>v.
    bind_r (round_run g v) (\<lambda>bits. py_set pbits i bits))))"

definition param_encoding :: "lgraph \<Rightarrow> int list \<Rightarrow> string \<times> int \<Rightarrow> int list result" where
  "param_encoding g pbits = (\<lambda>(name, value).
    bind_r (name_index g name) (\<lambda>i.
    if \<not> (0 \<le> value \<and> value < push_bit (width (l_fmt g)) 1) then Inl (Refusal ''param-value'')
    else py_set pbits i value))"

definition resolve_params :: "lgraph \<Rightarrow> lang_args \<Rightarrow> int list result" where
  "resolve_params g a =
    (if list_ex (\<lambda>(name, v). name \<in> set (map fst (a_param_bits a))) (a_params a) then Inl (Refusal ''param-value'')
     else bind_r (fold_r (param_value g) (map (\<lambda>(n, v, b, f). b) (l_param g)) (a_params a)) (\<lambda>pbits.
       fold_r (param_encoding g) pbits (a_param_bits a)))"

definition resolve_consts :: "lgraph \<Rightarrow> lang_args \<Rightarrow> int list result" where
  "resolve_consts g a =
    (case a_h a of
       None \<Rightarrow> Inr (map (\<lambda>(v, fa, b, f). b) (l_const g))
     | Some h \<Rightarrow>
        (case snd (l_integrator g) of
           None \<Rightarrow> Inl (Refusal ''unknown-param'')
         | Some h0 \<Rightarrow>
             bind_r (exact_run_value h) (\<lambda>hv.
             if hv = 0 then Inl (Refusal ''step-size-zero'')
             else if (hv < 0) \<noteq> (h0 < 0) then Inl (Refusal ''step-size-sign'')
             else map_r (\<lambda>(v, fa, b, f). case fa of None \<Rightarrow> Inr b | Some k \<Rightarrow> round_run g (k * hv)) (l_const g))))"

section \<open>A run\<close>

record run_out =
  r_states :: "int list list"
  r_flags :: int
  r_at :: "(int \<times> int list list \<times> int) list"
  r_tangents :: "int list list list option"
  r_primal_flags :: int
  r_at_tangents :: "(int \<times> int list list list) list"

text \<open>The program's slots, from the counts of what a lane holds.\<close>

definition slots_of :: "lgraph \<Rightarrow> nat \<Rightarrow> nat \<Rightarrow> slot_map" where
  "slots_of g n steps_nodes =
    (let bl = int n; bp = bl + int (length (l_lane g)); bc = bp + int (length (l_param g));
         bn = bc + int (length (l_const g)); bt = bn + int steps_nodes
     in \<lparr>b_lane = bl, b_param = bp, b_const = bc, b_node = bn, b_tangent = bt, b_own = bt + int n\<rparr>)"

definition make_prog :: "lgraph \<Rightarrow> nat \<Rightarrow> lane_prog result" where
  "make_prog g n =
    (case l_step g of None \<Rightarrow> Inl AttributeError
     | Some step \<Rightarrow>
       let sm = slots_of g n (length (s_nodes step)) in
       bind_r (slot_program (slot sm) step) (\<lambda>prog.
       bind_r (map_r (slot sm) (s_out step)) (\<lambda>outs.
       if l_tangent g = [] then
         Inr \<lparr>q_map = sm, q_code = prog, q_outs = outs, q_tcode = [], q_touts = [], q_n = n\<rparr>
       else case l_tangent_step g of None \<Rightarrow> Inl AttributeError
         | Some ts \<Rightarrow>
           bind_r (slot_program (tslot sm) ts) (\<lambda>tprog.
           bind_r (map_r (tslot sm) (s_out ts)) (\<lambda>touts.
           Inr \<lparr>q_map = sm, q_code = prog, q_outs = outs, q_tcode = tprog, q_touts = touts, q_n = n\<rparr>)))))"

text \<open>A lane's slots at the start: its state, its lane params, the params and the constants, and zeros.\<close>

definition lane_slots :: "lane_prog \<Rightarrow> int list \<Rightarrow> int list \<Rightarrow> int list \<Rightarrow> int list \<Rightarrow> int list" where
  "lane_slots q st lp pbits cbits =
    st @ lp @ pbits @ cbits @ replicate (nat (b_own (q_map q)) + length (q_tcode q) - length (st @ lp @ pbits @ cbits)) 0"

definition no_marks :: marks where
  "no_marks = \<lparr>at_states = (\<lambda>_. []), at_flags = (\<lambda>_. 0), at_t = (\<lambda>_. [])\<rparr>"

definition lang_run :: "transcendental \<Rightarrow> bool \<Rightarrow> lgraph \<Rightarrow> lang_args \<Rightarrow> run_out result" where
  "lang_run tr mp g a =
    (let n = nat (n_state g); bound = push_bit (width (l_fmt g)) 1 in
     bind_r (check_steps (a_steps a) (a_at a)) (\<lambda>_.
     bind_r (check_lanes n bound (a_states a)) (\<lambda>states.
     bind_r (resolve_lane_params g a) (\<lambda>lps.
     bind_r (resolve_tangents g n a) (\<lambda>tangents.
     bind_r (resolve_params g a) (\<lambda>pbits.
     bind_r (resolve_consts g a) (\<lambda>cbits.
     bind_r (need_mpmath mp g) (\<lambda>_.
     bind_r (make_prog g n) (\<lambda>q.
     bind_r (fold_r (lane_run (ops tr (l_fmt g) (l_rnd g)) q (a_at a) (a_steps a))
        \<lparr>x_states = [], x_tangents = [], x_flags = 0, x_pflags = 0, x_marks = no_marks\<rparr>
        (map (\<lambda>(st, lp, cur). (lane_slots q st lp pbits cbits, cur)) (zip states (zip lps tangents)))) (\<lambda>x.
     let at_all = map (\<lambda>s. (s, at_states (x_marks x) s, at_flags (x_marks x) s)) (a_at a) in
     Inr (if l_tangent g = []
       then \<lparr>r_states = x_states x, r_flags = x_flags x, r_at = at_all, r_tangents = None,
             r_primal_flags = x_flags x, r_at_tangents = []\<rparr>
       else \<lparr>r_states = x_states x, r_flags = x_flags x, r_at = at_all, r_tangents = Some (x_tangents x),
             r_primal_flags = x_pflags x,
             r_at_tangents = map (\<lambda>s. (s, at_t (x_marks x) s)) (a_at a)\<rparr>)))))))))))"

end
