(* ===== verification/StepEval.thy ===== *)
theory StepEval
  imports StepGraph
begin

text \<open>
  What a step graph means, whatever the order its nodes are computed in. A valuation gives each node its value
  and its flags; it is unique where every node reads earlier nodes, and evaluating the nodes one after the other,
  in the graph's order or in any other that respects the dependences, finds it or fails where none exists. The
  gathered flags depend on the set of nodes alone.
\<close>

type_synonym node_sem = "gop \<Rightarrow> int list \<Rightarrow> (int \<times> int) result"
type_synonym gnode = "gop \<times> gref list"

section \<open>Gathered flags\<close>

definition or_all :: "int list \<Rightarrow> int" where
  "or_all xs = foldr (OR) xs 0"

lemma or_all_simps [simp]: "or_all [] = 0" "or_all (x # xs) = x OR or_all xs"
  by (simp_all add: or_all_def)

lemma bit_or_all: "bit (or_all xs) k \<longleftrightarrow> (\<exists>x \<in> set xs. bit x k)"
  by (induction xs) (auto simp: bit_or_iff)

lemma or_all_cong: "set xs = set ys \<Longrightarrow> or_all xs = or_all ys"
  by (rule bit_eqI) (simp add: bit_or_all)

lemma or_all_append [simp]: "or_all (xs @ ys) = or_all xs OR or_all ys"
  by (induction xs) (simp_all add: or.assoc)

lemma or_all_zeros:
  assumes "\<And>x. x \<in> set xs \<Longrightarrow> x \<in> set ys \<or> x = 0" "set ys \<subseteq> set xs"
  shows "or_all xs = or_all ys"
proof (rule bit_eqI)
  fix k
  have "x \<in> set ys" if "x \<in> set xs" "bit x k" for x using assms(1) [OF that(1)] that(2) by auto
  then show "bit (or_all xs) k = bit (or_all ys) k" using assms(2) by (auto simp: bit_or_all)
qed

section \<open>Valuations\<close>

definition ref_val :: "(gref \<Rightarrow> int) \<Rightarrow> (nat \<Rightarrow> int) \<Rightarrow> gref \<Rightarrow> int" where
  "ref_val leaf vs r = (if fst r = KN then vs (snd r) else leaf r)"

lemma ref_val_simps [simp]:
  "ref_val leaf vs (KN, i) = vs i" "k \<noteq> KN \<Longrightarrow> ref_val leaf vs (k, i) = leaf (k, i)"
  by (simp_all add: ref_val_def)

definition evals :: "node_sem \<Rightarrow> (gref \<Rightarrow> int) \<Rightarrow> gnode list \<Rightarrow> (nat \<Rightarrow> int) \<Rightarrow> (nat \<Rightarrow> int) \<Rightarrow> bool" where
  "evals sem leaf nodes vs fs \<longleftrightarrow>
    (\<forall>j < length nodes. sem (fst (nodes ! j)) (map (ref_val leaf vs) (snd (nodes ! j))) = Inr (vs j, fs j))"

definition node_reads :: "gref list \<Rightarrow> nat set" where
  "node_reads args = {i. (KN, i) \<in> set args}"

lemma node_reads_simps [simp]: "i \<in> node_reads args \<longleftrightarrow> (KN, i) \<in> set args"
  by (simp add: node_reads_def)

text \<open>Every node reads earlier nodes.\<close>

definition topo :: "gnode list \<Rightarrow> bool" where
  "topo nodes \<longleftrightarrow> (\<forall>j < length nodes. \<forall>i. (KN, i) \<in> set (snd (nodes ! j)) \<longrightarrow> i < j)"

lemma topo_nth: "topo nodes \<Longrightarrow> j < length nodes \<Longrightarrow> (KN, i) \<in> set (snd (nodes ! j)) \<Longrightarrow> i < j"
  by (auto simp: topo_def)

lemma ref_val_cong:
  "(\<And>i. (KN, i) \<in> set args \<Longrightarrow> vs i = vs' i) \<Longrightarrow> map (ref_val leaf vs) args = map (ref_val leaf vs') args"
  by (auto simp: ref_val_def)

lemma evals_unique:
  assumes "topo nodes" "evals sem leaf nodes vs fs" "evals sem leaf nodes vs' fs'" "j < length nodes"
  shows "vs j = vs' j \<and> fs j = fs' j"
  using assms(4)
proof (induction j rule: less_induct)
  case (less j)
  have "map (ref_val leaf vs) (snd (nodes ! j)) = map (ref_val leaf vs') (snd (nodes ! j))"
    using less topo_nth [OF assms(1) less.prems] by (intro ref_val_cong) fastforce
  then have "Inr (vs j, fs j) = (Inr (vs' j, fs' j) :: _ result)"
    using assms(2,3) less.prems unfolding evals_def by metis
  then show ?case by simp
qed

section \<open>Evaluating in an order\<close>

text \<open>
  The specification of an execution order: the nodes one after the other, each reading what has been computed. A
  node that is not there yet is no value.
\<close>

fun read_ref :: "(gref \<Rightarrow> int) \<Rightarrow> (nat \<Rightarrow> int option) \<Rightarrow> gref \<Rightarrow> int result" where
  "read_ref leaf st (k, i) = (if k = KN then (case st i of None \<Rightarrow> Inl IndexError | Some v \<Rightarrow> Inr v) else Inr (leaf (k, i)))"

fun exec_order ::
  "node_sem \<Rightarrow> (gref \<Rightarrow> int) \<Rightarrow> gnode list \<Rightarrow> nat list \<Rightarrow> (nat \<Rightarrow> int option) \<Rightarrow> int \<Rightarrow> ((nat \<Rightarrow> int option) \<times> int) result" where
  "exec_order sem leaf nodes [] st fl = Inr (st, fl)"
| "exec_order sem leaf nodes (j # js) st fl =
    bind_r (map_r (read_ref leaf st) (snd (nodes ! j))) (\<lambda>xs.
    bind_r (sem (fst (nodes ! j)) xs) (\<lambda>(v, f).
    exec_order sem leaf nodes js (st(j \<mapsto> v)) (fl OR f)))"

text \<open>An order respects the dependences: each node once, after the nodes it reads.\<close>

definition valid_order :: "gnode list \<Rightarrow> nat list \<Rightarrow> bool" where
  "valid_order nodes js \<longleftrightarrow> distinct js \<and> set js = {..< length nodes}
    \<and> (\<forall>p < length js. \<forall>i. (KN, i) \<in> set (snd (nodes ! (js ! p))) \<longrightarrow> i \<in> set (take p js))"

definition order_result ::
  "node_sem \<Rightarrow> (gref \<Rightarrow> int) \<Rightarrow> gnode list \<Rightarrow> gref list \<Rightarrow> nat list \<Rightarrow> (int list \<times> int) result" where
  "order_result sem leaf nodes outs js =
    bind_r (exec_order sem leaf nodes js (\<lambda>_. None) 0) (\<lambda>(st, fl).
    bind_r (map_r (read_ref leaf st) outs) (\<lambda>ys. Inr (ys, fl)))"

text \<open>The meaning of a step: literal evaluation in the graph's own order.\<close>

definition step_result :: "node_sem \<Rightarrow> (gref \<Rightarrow> int) \<Rightarrow> gnode list \<Rightarrow> gref list \<Rightarrow> (int list \<times> int) result" where
  "step_result sem leaf nodes outs = order_result sem leaf nodes outs [0 ..< length nodes]"

lemma map_r_read:
  assumes "\<And>i. (KN, i) \<in> set rs \<Longrightarrow> st i = Some (vs i)"
  shows "map_r (read_ref leaf st) rs = Inr (map (ref_val leaf vs) rs)"
  using assms
proof (induction rs)
  case (Cons r rs)
  have "read_ref leaf st r = Inr (ref_val leaf vs r)"
    using Cons.prems [of "snd r"] by (cases r) (auto simp: ref_val_def)
  with Cons show ?case by simp
qed simp

lemma map_r_read_Inr:
  assumes "map_r (read_ref leaf st) rs = Inr ys" "(KN, i) \<in> set rs"
  shows "st i \<noteq> None"
  using assms by (induction rs arbitrary: ys) (auto simp: bind_r_eq_Inr split: option.splits)

lemma exec_order_evals:
  assumes "evals sem leaf nodes vs fs" "set js \<subseteq> {..< length nodes}"
    "\<forall>p < length js. \<forall>i. (KN, i) \<in> set (snd (nodes ! (js ! p))) \<longrightarrow> i \<in> done \<union> set (take p js)"
    "\<forall>i \<in> done. st i = Some (vs i)"
  shows "exec_order sem leaf nodes js st fl
    = Inr (\<lambda>i. if i \<in> set js then Some (vs i) else st i, fl OR or_all (map fs js))"
  using assms(2-)
proof (induction js arbitrary: st fl "done")
  case (Cons j js)
  have j: "j < length nodes" using Cons.prems by simp
  have "\<forall>i. (KN, i) \<in> set (snd (nodes ! j)) \<longrightarrow> i \<in> done" using Cons.prems(2) by force
  then have r: "map_r (read_ref leaf st) (snd (nodes ! j)) = Inr (map (ref_val leaf vs) (snd (nodes ! j)))"
    using Cons.prems(3) by (intro map_r_read) auto
  have s: "sem (fst (nodes ! j)) (map (ref_val leaf vs) (snd (nodes ! j))) = Inr (vs j, fs j)"
    using assms(1) j by (simp add: evals_def)
  have d: "\<forall>p < length js. \<forall>i. (KN, i) \<in> set (snd (nodes ! (js ! p))) \<longrightarrow> i \<in> insert j done \<union> set (take p js)"
  proof (intro allI impI)
    fix p i assume "p < length js" "(KN, i) \<in> set (snd (nodes ! (js ! p)))"
    then show "i \<in> insert j done \<union> set (take p js)" using Cons.prems(2) [rule_format, of "Suc p" i] by auto
  qed
  have "exec_order sem leaf nodes js (st(j \<mapsto> vs j)) (fl OR fs j)
    = Inr (\<lambda>i. if i \<in> set js then Some (vs i) else (st(j \<mapsto> vs j)) i, (fl OR fs j) OR or_all (map fs js))"
    by (rule Cons.IH [OF _ d]) (use Cons.prems in auto)
  then show ?case by (auto simp: r s or.assoc fun_eq_iff)
qed simp

lemma exec_order_only:
  assumes "exec_order sem leaf nodes js st fl = Inr (st', fl')" "distinct js" "\<forall>j \<in> set js. st j = None"
  shows "(\<forall>i. i \<notin> set js \<longrightarrow> st' i = st i) \<and> (\<forall>j \<in> set js. \<exists>v f. st' j = Some v
    \<and> sem (fst (nodes ! j)) (map (ref_val leaf (\<lambda>i. the (st' i))) (snd (nodes ! j))) = Inr (v, f)
    \<and> (\<forall>i. (KN, i) \<in> set (snd (nodes ! j)) \<longrightarrow> st' i \<noteq> None))"
  using assms
proof (induction js arbitrary: st fl)
  case (Cons j js)
  obtain xs v f where x: "map_r (read_ref leaf st) (snd (nodes ! j)) = Inr xs" "sem (fst (nodes ! j)) xs = Inr (v, f)"
    "exec_order sem leaf nodes js (st(j \<mapsto> v)) (fl OR f) = Inr (st', fl')"
    using Cons.prems(1) by (auto simp: bind_r_eq_Inr)
  have p: "distinct js" "\<forall>k \<in> set js. (st(j \<mapsto> v)) k = None" using Cons.prems by auto
  note ih = Cons.IH [OF x(3) p]
  have same: "st' i = st i" if "(KN, i) \<in> set (snd (nodes ! j))" for i
  proof -
    have "st i \<noteq> None" by (rule map_r_read_Inr [OF x(1) that])
    moreover have "st j = None" "\<forall>k \<in> set js. st k = None" using Cons.prems(3) by auto
    ultimately have "i \<noteq> j" "i \<notin> set js" by auto
    then show ?thesis using ih by simp
  qed
  have "map_r (read_ref leaf st) (snd (nodes ! j)) = Inr (map (ref_val leaf (\<lambda>i. the (st' i))) (snd (nodes ! j)))"
    using same map_r_read_Inr [OF x(1)] by (intro map_r_read) fastforce
  then have "sem (fst (nodes ! j)) (map (ref_val leaf (\<lambda>i. the (st' i))) (snd (nodes ! j))) = Inr (v, f)" using x by simp
  moreover have "st' j = Some v" using ih Cons.prems(2) by simp
  moreover have "st' i \<noteq> None" if "(KN, i) \<in> set (snd (nodes ! j))" for i
    using same [OF that] map_r_read_Inr [OF x(1) that] by simp
  ultimately show ?case using ih by auto
qed simp

lemma exec_order_finds:
  assumes "exec_order sem leaf nodes js (\<lambda>_. None) fl = Inr (st, fl')" "distinct js" "set js = {..< length nodes}"
  shows "\<exists>vs fs. evals sem leaf nodes vs fs"
proof -
  let ?v = "\<lambda>i. the (st i)"
  note o = exec_order_only [OF assms(1,2)]
  have "\<forall>j < length nodes. \<exists>f. sem (fst (nodes ! j)) (map (ref_val leaf ?v) (snd (nodes ! j))) = Inr (?v j, f)"
    using o assms(3) by (auto simp: Ball_def)
  then show ?thesis unfolding evals_def by metis
qed


text \<open>
  Any order that respects the dependences finds what the graph's own finds: the same values and the same flags,
  or no value at all.
\<close>

definition out_refs_ok :: "gnode list \<Rightarrow> gref list \<Rightarrow> bool" where
  "out_refs_ok nodes outs \<longleftrightarrow> (\<forall>i. (KN, i) \<in> set outs \<longrightarrow> i < length nodes)"

lemma order_result_evals:
  assumes "evals sem leaf nodes vs fs" "valid_order nodes js" "out_refs_ok nodes outs"
  shows "order_result sem leaf nodes outs js
    = Inr (map (ref_val leaf vs) outs, or_all (map fs [0 ..< length nodes]))"
proof -
  have v: "set js = {..< length nodes}"
    "\<forall>p < length js. \<forall>i. (KN, i) \<in> set (snd (nodes ! (js ! p))) \<longrightarrow> i \<in> {} \<union> set (take p js)"
    using assms(2) by (auto simp: valid_order_def)
  have e: "exec_order sem leaf nodes js (\<lambda>_. None) 0
      = Inr (\<lambda>i. if i \<in> set js then Some (vs i) else None, 0 OR or_all (map fs js))"
    by (rule exec_order_evals [OF assms(1) _ v(2)]) (simp_all add: v(1))
  have "map_r (read_ref leaf (\<lambda>i. if i \<in> set js then Some (vs i) else None)) outs = Inr (map (ref_val leaf vs) outs)"
    using assms(3) by (intro map_r_read) (simp add: v(1) out_refs_ok_def)
  moreover have "or_all (map fs js) = or_all (map fs [0 ..< length nodes])"
    by (rule or_all_cong) (auto simp: v(1) atLeast0LessThan)
  ultimately show ?thesis by (simp add: order_result_def e)
qed

lemma order_result_iff:
  assumes "valid_order nodes js" "out_refs_ok nodes outs"
  shows "order_result sem leaf nodes outs js = Inr y
    \<longleftrightarrow> (\<exists>vs fs. evals sem leaf nodes vs fs \<and> y = (map (ref_val leaf vs) outs, or_all (map fs [0 ..< length nodes])))"
proof
  assume r: "order_result sem leaf nodes outs js = Inr y"
  then obtain st fl where "exec_order sem leaf nodes js (\<lambda>_. None) 0 = Inr (st, fl)"
    by (auto simp: order_result_def bind_r_eq_Inr)
  then obtain vs fs where e: "evals sem leaf nodes vs fs"
    using exec_order_finds assms(1) by (metis valid_order_def)
  then show "\<exists>vs fs. evals sem leaf nodes vs fs \<and> y = (map (ref_val leaf vs) outs, or_all (map fs [0 ..< length nodes]))"
    using order_result_evals [OF e assms] r by auto
qed (use order_result_evals [OF _ assms] in auto)

lemma graph_order_valid: "topo nodes \<Longrightarrow> valid_order nodes [0 ..< length nodes]"
  by (auto simp: valid_order_def atLeast0LessThan dest: topo_nth)

lemma step_result_iff:
  "topo nodes \<Longrightarrow> out_refs_ok nodes outs \<Longrightarrow> step_result sem leaf nodes outs = Inr y
    \<longleftrightarrow> (\<exists>vs fs. evals sem leaf nodes vs fs \<and> y = (map (ref_val leaf vs) outs, or_all (map fs [0 ..< length nodes])))"
  unfolding step_result_def by (rule order_result_iff [OF graph_order_valid])

theorem any_order_same:
  assumes "topo nodes" "valid_order nodes js" "out_refs_ok nodes outs"
  shows "order_result sem leaf nodes outs js = Inr y \<longleftrightarrow> step_result sem leaf nodes outs = Inr y"
  by (simp only: order_result_iff [OF assms(2,3)] step_result_iff [OF assms(1,3)])

end
