(* ===== verification/Lower.thy ===== *)
theory Lower
  imports StepEval Arith
begin

text \<open>
  The lowering of a step graph (\<^verbatim>\<open>cftc/lower.py\<close>): nodes shared by hash-consing, the one fold of a negation into a
  flipped constant, and the layout of the constant bank with its halved copy. The words of the routines a step
  inlines come from the golden model's fragments, which \<^verbatim>\<open>cft_golden/routines.py\<close> generates: they are the parameter
  \<open>fragment_words\<close>, a function of the operation, the format and the attribute. Python's dictionaries are maps, its
  sets lists without repetition, and the tuples it sorts are compared lexicographically.
\<close>

section \<open>The lowered step\<close>

definition BANK_MAX :: nat where "BANK_MAX = 512"

record lnode =
  n_op :: gop
  n_args :: "gref list"
  n_labels :: "string list"
  n_origin :: "nat list"

datatype slot_kind = SConst | SFlip | SParam | SWord

record bank_slot =
  s_kind :: slot_kind
  s_index :: nat
  s_exact :: rat
  s_factor :: "rat option"
  s_bits :: int
  s_raised :: int
  s_default :: bool
  s_names :: "(string \<times> string) list"

record fold_info =
  f_neg_origin :: nat
  f_consts :: "nat list"
  f_uses :: nat
  f_labels :: "string list"
  f_slots :: "nat list"

record lowered =
  w_graph :: cgraph
  w_nodes :: "lnode list"
  w_outs :: "gref list"
  w_slots :: "bank_slot list"
  w_shared :: nat
  w_folds :: "fold_info list"
  w_slot_of :: "gref \<rightharpoonup> nat"
  w_h_slots :: "nat list"
  w_routines :: "gop list"

definition skeleton :: "lnode list \<Rightarrow> gnode list" where
  "skeleton ns = map (\<lambda>nd. (n_op nd, n_args nd)) ns"

definition graph_skeleton :: "cgraph \<Rightarrow> gnode list" where
  "graph_skeleton g = map (\<lambda>(op, args, label). (op, args)) (g_nodes g)"

section \<open>Sharing\<close>

definition canon :: "gop \<Rightarrow> gref list \<Rightarrow> gref list" where
  "canon op args =
    (if op = O_add \<or> op = O_mul then sort args
     else if op = O_fma then sort (take 2 args) @ drop 2 args
     else args)"

record share_state =
  h_nodes :: "lnode list"
  h_keyed :: "gop \<times> gref list \<rightharpoonup> nat"
  h_remap :: "gref list"
  h_merged :: nat

definition remap_ref :: "gref list \<Rightarrow> gref \<Rightarrow> gref result" where
  "remap_ref remap r = (if fst r = KN then (if snd r < length remap then Inr (remap ! snd r) else Inl KeyError) else Inr r)"

text \<open>One node of the graph: a key seen before keeps the first node, which gains an origin and a label.\<close>

definition share_node :: "share_state \<Rightarrow> nat \<times> gop \<times> gref list \<times> string option \<Rightarrow> share_state result" where
  "share_node s = (\<lambda>(k, op, args, label).
    bind_r (map_r (remap_ref (h_remap s)) args) (\<lambda>a.
    let key = (op, canon op a); labels = (case label of None \<Rightarrow> [] | Some l \<Rightarrow> if l = [] then [] else [l])
    in case h_keyed s key of
      None \<Rightarrow>
        let j = length (h_nodes s) in
        Inr (s\<lparr>h_keyed := (h_keyed s)(key \<mapsto> j),
               h_nodes := h_nodes s @ [\<lparr>n_op = op, n_args = a, n_labels = labels, n_origin = [k]\<rparr>],
               h_remap := h_remap s @ [(KN, j)]\<rparr>)
    | Some j \<Rightarrow>
        Inr (s\<lparr>h_merged := h_merged s + 1,
               h_nodes := (h_nodes s)[j := (h_nodes s ! j)\<lparr>n_origin := n_origin (h_nodes s ! j) @ [k],
                  n_labels := n_labels (h_nodes s ! j) @ labels\<rparr>],
               h_remap := h_remap s @ [(KN, j)]\<rparr>)))"

definition share :: "cgraph \<Rightarrow> (lnode list \<times> gref list \<times> nat) result" where
  "share g =
    bind_r (fold_r share_node \<lparr>h_nodes = [], h_keyed = (\<lambda>_. None), h_remap = [], h_merged = 0\<rparr> (enumerate 0 (g_nodes g))) (\<lambda>s.
    bind_r (map_r (remap_ref (h_remap s)) (g_outs g)) (\<lambda>outs. Inr (h_nodes s, outs, h_merged s)))"

section \<open>The one fold\<close>

text \<open>Who reads a node, and at which operand.\<close>

definition users_of :: "lnode list \<Rightarrow> nat \<Rightarrow> (nat \<times> nat) list" where
  "users_of ns j = concat (map (\<lambda>(c, nd). map (\<lambda>(pos, r). (c, pos)) (filter (\<lambda>(pos, r). r = (KN, j)) (enumerate 0 (n_args nd))))
     (enumerate 0 ns))"

text \<open>How often the const entry \<open>i\<close> is read.\<close>

definition const_uses :: "lnode list \<Rightarrow> gref list \<Rightarrow> nat \<Rightarrow> int" where
  "const_uses ns outs i = int (length (filter (\<lambda>r. r = (KC, i)) (concat (map n_args ns) @ outs)))"

text \<open>The use sites of a negation, where each is a multiplicand whose other multiplicand is a const entry.\<close>

fun fold_sites :: "lnode list \<Rightarrow> (nat \<times> nat) list \<Rightarrow> (nat \<times> nat \<times> nat) list option" where
  "fold_sites ns [] = Some []"
| "fold_sites ns ((c, pos) # us) =
    (let cn = ns ! c in
     if n_op cn \<notin> {O_fma, O_mul} \<or> pos \<notin> {0, 1} then None
     else let other = n_args cn ! (1 - pos) in
       if fst other \<noteq> KC then None
       else map_option (\<lambda>ss. (c, pos, snd other) # ss) (fold_sites ns us))"

record fold_state =
  d_nodes :: "lnode list"
  d_cuse :: "int list"
  d_fuse :: "int list"
  d_dead :: "nat list"
  d_folds :: "(nat \<times> nat list \<times> nat \<times> string list) list"

definition bank_size :: "nat \<Rightarrow> nat \<Rightarrow> int list \<Rightarrow> int list \<Rightarrow> nat" where
  "bank_size n_param n_words cuse fuse =
    n_param + n_words + length (filter (\<lambda>u. u \<noteq> 0) cuse) + length (filter (\<lambda>u. u \<noteq> 0) fuse)"

definition bump :: "int \<Rightarrow> int list \<Rightarrow> nat \<Rightarrow> int list" where
  "bump d xs i = xs[i := xs ! i + d]"

definition apply_site :: "gref \<Rightarrow> lnode list \<Rightarrow> nat \<times> nat \<times> nat \<Rightarrow> lnode list" where
  "apply_site t ns = (\<lambda>(c, pos, i). ns[c := (ns ! c)\<lparr>n_args := ((n_args (ns ! c))[pos := t])[1 - pos := (KF, i)]\<rparr>])"

definition fold_node ::
  "nat \<Rightarrow> nat \<Rightarrow> (nat \<Rightarrow> (nat \<times> nat) list) \<Rightarrow> gref list \<Rightarrow> fold_state \<Rightarrow> nat \<Rightarrow> fold_state" where
  "fold_node n_param n_words users outs s j =
    (let nd = d_nodes s ! j in
     if n_op nd \<noteq> O_neg \<or> (KN, j) \<in> set outs \<or> users j = [] then s
     else case fold_sites (d_nodes s) (users j) of
       None \<Rightarrow> s
     | Some sites \<Rightarrow>
         let cuse = foldl (bump (- 1)) (d_cuse s) (map (\<lambda>(c, p, i). i) sites);
             fuse = foldl (bump 1) (d_fuse s) (map (\<lambda>(c, p, i). i) sites)
         in if BANK_MAX < bank_size n_param n_words cuse fuse then s
            else s\<lparr>d_nodes := foldl (apply_site (n_args nd ! 0)) (d_nodes s) sites, d_cuse := cuse, d_fuse := fuse,
                   d_dead := d_dead s @ [j],
                   d_folds := d_folds s @ [(j, sort (remdups (map (\<lambda>(c, p, i). i) sites)), length sites, n_labels nd)]\<rparr>)"

text \<open>A node's number once the dead ones are gone.\<close>

definition renum :: "nat list \<Rightarrow> nat \<Rightarrow> nat" where
  "renum dead j = length (filter (\<lambda>i. i \<notin> set dead) [0 ..< j])"

definition renum_ref :: "nat list \<Rightarrow> gref \<Rightarrow> gref result" where
  "renum_ref dead r = (if fst r = KN then (if snd r \<in> set dead then Inl KeyError else Inr (KN, renum dead (snd r))) else Inr r)"

definition renum_node :: "nat list \<Rightarrow> lnode \<Rightarrow> lnode result" where
  "renum_node dead nd = bind_r (map_r (renum_ref dead) (n_args nd)) (\<lambda>a. Inr (nd\<lparr>n_args := a\<rparr>))"

definition fold_f :: "cgraph \<Rightarrow> lnode list \<Rightarrow> gref list \<Rightarrow> nat \<Rightarrow> (lnode list \<times> gref list \<times> fold_info list) result" where
  "fold_f g ns outs n_words =
    (let s = foldl (fold_node (length (g_param g)) n_words (users_of ns) outs)
           \<lparr>d_nodes = ns, d_cuse = map (const_uses ns outs) [0 ..< length (g_const g)],
            d_fuse = map (\<lambda>_. 0) (g_const g), d_dead = [], d_folds = []\<rparr> [0 ..< length ns]
     in if d_dead s = [] then Inr (ns, outs, [])
        else
          bind_r (map_r (renum_node (d_dead s)) (map ((!) (d_nodes s)) (filter (\<lambda>j. j \<notin> set (d_dead s)) [0 ..< length ns]))) (\<lambda>kept.
          bind_r (map_r (renum_ref (d_dead s)) outs) (\<lambda>outs'.
          Inr (kept, outs', map (\<lambda>(j, cs, uses, labels). \<lparr>f_neg_origin = hd (n_origin (d_nodes s ! j)), f_consts = cs,
             f_uses = uses, f_labels = labels, f_slots = []\<rparr>) (d_folds s)))))"

section \<open>The bank\<close>

definition used_refs :: "rkind \<Rightarrow> gref list \<Rightarrow> nat list" where
  "used_refs k rs = sort (remdups (map snd (filter (\<lambda>r. fst r = k) rs)))"

definition const_slot :: "cgraph \<Rightarrow> nat \<Rightarrow> bank_slot" where
  "const_slot g i = (let (exact, factor, bits, flags) = g_const g ! i in
     \<lparr>s_kind = SConst, s_index = i, s_exact = exact, s_factor = factor, s_bits = bits, s_raised = flags,
      s_default = True, s_names = []\<rparr>)"

definition flip_slot :: "cgraph \<Rightarrow> nat \<Rightarrow> bank_slot" where
  "flip_slot g i = (let (exact, factor, bits, flags) = g_const g ! i in
     \<lparr>s_kind = SFlip, s_index = i, s_exact = - exact, s_factor = map_option uminus factor,
      s_bits = bits XOR sign_mask (g_fmt g), s_raised = flags, s_default = True, s_names = []\<rparr>)"

definition param_slot :: "cgraph \<Rightarrow> (nat \<rightharpoonup> int \<times> int \<times> rat) \<Rightarrow> nat \<Rightarrow> bank_slot" where
  "param_slot g param_bits i = (let (name, exact, bits, flags) = g_param g ! i in
     case param_bits i of
       Some (b, fl, ex) \<Rightarrow> \<lparr>s_kind = SParam, s_index = i, s_exact = ex, s_factor = None, s_bits = b, s_raised = fl,
          s_default = False, s_names = []\<rparr>
     | None \<Rightarrow> \<lparr>s_kind = SParam, s_index = i, s_exact = exact, s_factor = None, s_bits = bits, s_raised = flags,
          s_default = True, s_names = []\<rparr>)"

definition h_scaled :: "bank_slot \<Rightarrow> bool" where
  "h_scaled s \<longleftrightarrow> s_factor s \<noteq> None \<and> s_factor s \<noteq> Some 0"

definition slot_rank :: "bank_slot \<Rightarrow> nat" where
  "slot_rank s = (if s_kind s = SConst then 0 else 1)"

definition layout ::
  "cgraph \<Rightarrow> lnode list \<Rightarrow> gref list \<Rightarrow> (nat \<rightharpoonup> int \<times> int \<times> rat) \<Rightarrow> bank_slot list \<Rightarrow> bank_slot list result" where
  "layout g ns outs param_bits words =
    (let refs = concat (map n_args ns);
         entries = map (const_slot g) (used_refs KC (refs @ outs)) @ map (flip_slot g) (used_refs KF refs);
         hs = sort_key (\<lambda>s. (- the (s_factor s), slot_rank s, s_index s)) (filter h_scaled entries);
         plain = sort_key (\<lambda>s. (s_exact s, slot_rank s, s_index s)) (filter (\<lambda>s. \<not> h_scaled s) entries);
         slots = hs @ plain @ map (param_slot g param_bits) [0 ..< length (g_param g)] @ words
     in if BANK_MAX < length slots then Inl InternalError else Inr slots)"

definition slot_key :: "bank_slot \<Rightarrow> gref" where
  "slot_key s = (case s_kind s of SWord \<Rightarrow> (KW, nat (s_bits s)) | SConst \<Rightarrow> (KC, s_index s) | SFlip \<Rightarrow> (KF, s_index s)
     | SParam \<Rightarrow> (KP, s_index s))"

text \<open>The dictionary from references to slots: a later slot of one key stands.\<close>

definition slot_map_of :: "bank_slot list \<Rightarrow> gref \<rightharpoonup> nat" where
  "slot_map_of slots = map_of (rev (map (\<lambda>(k, s). (slot_key s, k)) (enumerate 0 slots)))"

definition routines_of :: "lnode list \<Rightarrow> gop list" where
  "routines_of ns = filter (\<lambda>opn. opn \<in> n_op ` set ns) ROUTINES"

section \<open>The words of routines\<close>

type_synonym fragments = "gop \<Rightarrow> fp_format \<Rightarrow> int \<Rightarrow> (string \<times> int) list result"

definition op_name :: "gop \<Rightarrow> string" where
  "op_name opn = (case filter (\<lambda>(name, x, k). x = opn) ARITY_ITEMS of (name, x, k) # _ \<Rightarrow> name | [] \<Rightarrow> [])"

text \<open>One slot for each bit pattern, naming every word it is.\<close>

definition add_word :: "string \<Rightarrow> bank_slot list \<Rightarrow> string \<times> int \<Rightarrow> bank_slot list" where
  "add_word op slots = (\<lambda>(name, bits).
    if bits \<in> s_bits ` set slots
    then map (\<lambda>s. if s_bits s = bits then s\<lparr>s_names := s_names s @ [(op, name)]\<rparr> else s) slots
    else slots @ [\<lparr>s_kind = SWord, s_index = 0, s_exact = 0, s_factor = None, s_bits = bits, s_raised = 0,
        s_default = True, s_names = [(op, name)]\<rparr>])"

definition routine_words :: "fragments \<Rightarrow> cgraph \<Rightarrow> lnode list \<Rightarrow> (string \<times> int) list \<Rightarrow> bank_slot list result" where
  "routine_words fragment_words g ns loop_words =
    bind_r (fold_r (\<lambda>slots opn. bind_r (fragment_words opn (g_fmt g) (g_rnd g)) (\<lambda>ws. Inr (foldl (add_word (op_name opn)) slots ws)))
      [] (routines_of ns)) (\<lambda>slots. Inr (foldl (add_word ''loop'') slots loop_words))"

section \<open>The halved bank, and the whole\<close>

definition lower_f ::
  "fragments \<Rightarrow> cgraph \<Rightarrow> (nat \<rightharpoonup> int \<times> int \<times> rat) \<Rightarrow> (string \<times> int) list \<Rightarrow> lowered result" where
  "lower_f fragment_words g param_bits loop_words =
    bind_r (share g) (\<lambda>(ns, outs, merged).
    bind_r (routine_words fragment_words g ns loop_words) (\<lambda>words.
    let used = used_refs KC (concat (map n_args ns) @ outs);
        need = length (g_param g) + length used + length words
    in if words \<noteq> [] \<and> BANK_MAX < need then Inl (Refusal ''bank-capacity'')
    else bind_r (fold_f g ns outs (length words)) (\<lambda>(ns', outs', folds).
    bind_r (layout g ns' outs' param_bits words) (\<lambda>slots.
    let slot_of = slot_map_of slots in
    bind_r (map_r (\<lambda>f. bind_r (map_r (\<lambda>i. dict_get slot_of (KF, i)) (f_consts f)) (\<lambda>ks. Inr (f\<lparr>f_slots := ks\<rparr>))) folds) (\<lambda>folds'.
    Inr \<lparr>w_graph = g, w_nodes = ns', w_outs = outs', w_slots = slots, w_shared = merged, w_folds = folds',
         w_slot_of = slot_of, w_h_slots = map fst (filter (\<lambda>(k, s). h_scaled s) (enumerate 0 slots)),
         w_routines = routines_of ns'\<rparr>)))))"

definition bank_values :: "lowered \<Rightarrow> int list" where
  "bank_values low = map s_bits (w_slots low)"

definition halve :: "lowered \<Rightarrow> int list result" where
  "halve low =
    (let fmt = g_fmt (w_graph low) in
     bind_r (round_rational fmt 0 1 2 RND_RNE) (\<lambda>(half, _).
     fold_r (\<lambda>out k. bind_r (mul fmt (out ! k) half RND_RNE) (\<lambda>(res, fl).
       if truthy fl then Inl (Refusal ''halving-underflow'') else Inr (out[k := res])))
       (bank_values low) (w_h_slots low)))"

end
