(* ===== verification/ShareRight.thy ===== *)
theory ShareRight
  imports Lower
begin

text \<open>
  Sharing is invisible. An operation set whose additions, multiplications and multiplicands commute is the
  interface; the shared step then has the values and the gathered flags of the step it comes from, and has a value
  only where that one has.
\<close>

locale commuting_ops =
  fixes sem :: node_sem
  assumes add_commutes: "sem O_add [a, b] = sem O_add [b, a]"
    and mul_commutes: "sem O_mul [a, b] = sem O_mul [b, a]"
    and multiplicands_commute: "sem O_fma [a, b, c] = sem O_fma [b, a, c]"

section \<open>Canonical operands\<close>

definition arity_ok :: "gnode list \<Rightarrow> bool" where
  "arity_ok nodes \<longleftrightarrow> (\<forall>nd \<in> set nodes. length (snd nd) = ARITY (fst nd))"

lemma arity_nth: "arity_ok nodes \<Longrightarrow> j < length nodes \<Longrightarrow> length (snd (nodes ! j)) = ARITY (fst (nodes ! j))"
  by (simp add: arity_ok_def)

lemma set_canon [simp]: "set (canon op args) = set args"
proof -
  have "set (take 2 args) \<union> set (drop 2 args) = set args" by (metis append_take_drop_id set_append)
  then show ?thesis by (simp add: canon_def)
qed

lemma sort_two: "sort [a, b] = (if a \<le> b then [a, b] else [b, a])"
  by simp

lemma canon_two:
  "canon op [a, b] = canon op [a', b'] \<Longrightarrow> op \<noteq> O_fma \<Longrightarrow> [a', b'] = [a, b] \<or> (op \<in> {O_add, O_mul} \<and> [a', b'] = [b, a])"
  by (auto simp: canon_def split: if_splits)

lemma canon_three:
  "canon O_fma [a, b, c] = canon O_fma [a', b', c'] \<Longrightarrow> c' = c \<and> (a' = a \<and> b' = b \<or> a' = b \<and> b' = a)"
  by (auto simp: canon_def numeral_2_eq_2 split: if_splits)

lemma canon_other: "op \<notin> {O_add, O_mul, O_fma} \<Longrightarrow> canon op args = args"
  by (simp add: canon_def)

context commuting_ops
begin

lemma canon_same:
  assumes "canon op as = canon op bs" "length as = ARITY op" "length bs = ARITY op"
  shows "sem op (map f as) = sem op (map f bs)"
proof (cases "op \<in> {O_add, O_mul, O_fma}")
  case False
  then show ?thesis using assms(1) by (simp add: canon_other)
next
  case True
  show ?thesis
  proof (cases "op = O_fma")
    case True
    obtain a b c where a: "as = [a, b, c]" using assms(2) True by (auto simp: length_Suc_conv numeral_3_eq_3)
    obtain a' b' c' where b: "bs = [a', b', c']" using assms(3) True by (auto simp: length_Suc_conv numeral_3_eq_3)
    show ?thesis using canon_three [of a b c a' b' c'] assms(1) multiplicands_commute
      unfolding a b True by auto
  next
    case False
    obtain a b where a: "as = [a, b]" using assms(2) True False by (auto simp: length_Suc_conv numeral_2_eq_2)
    obtain a' b' where b: "bs = [a', b']" using assms(3) True False by (auto simp: length_Suc_conv numeral_2_eq_2)
    show ?thesis using canon_two [of op a b a' b'] assms(1) False add_commutes mul_commutes
      unfolding a b by auto
  qed
qed

end

section \<open>The loop\<close>

definition rm :: "gref list \<Rightarrow> gref \<Rightarrow> gref" where
  "rm remap r = (if fst r = KN then remap ! snd r else r)"

lemma remap_refs:
  assumes "\<And>i. (KN, i) \<in> set rs \<Longrightarrow> i < length remap"
  shows "map_r (remap_ref remap) rs = Inr (map (rm remap) rs)"
  using assms by (induction rs) (auto simp: remap_ref_def rm_def)

lemma rm_append: "(\<And>i. (KN, i) \<in> set rs \<Longrightarrow> i < length remap) \<Longrightarrow> map (rm (remap @ xs)) rs = map (rm remap) rs"
  by (auto simp: rm_def nth_append)

text \<open>
  After \<open>k\<close> nodes: each is numbered by a kept node of its key, each kept node is the copy of one of them, and the
  dictionary holds the kept nodes' keys.
\<close>

definition share_inv :: "gnode list \<Rightarrow> nat \<Rightarrow> share_state \<Rightarrow> bool" where
  "share_inv nodes k s \<longleftrightarrow>
    length (h_remap s) = k
    \<and> (\<forall>i < k. \<exists>j < length (h_nodes s). h_remap s ! i = (KN, j) \<and> n_op (h_nodes s ! j) = fst (nodes ! i)
        \<and> canon (fst (nodes ! i)) (n_args (h_nodes s ! j)) = canon (fst (nodes ! i)) (map (rm (h_remap s)) (snd (nodes ! i))))
    \<and> (\<forall>j < length (h_nodes s). \<exists>i < k. h_remap s ! i = (KN, j) \<and> n_op (h_nodes s ! j) = fst (nodes ! i)
        \<and> n_args (h_nodes s ! j) = map (rm (h_remap s)) (snd (nodes ! i)))
    \<and> (\<forall>key j. h_keyed s key = Some j \<longrightarrow> j < length (h_nodes s)
        \<and> key = (n_op (h_nodes s ! j), canon (n_op (h_nodes s ! j)) (n_args (h_nodes s ! j))))
    \<and> topo (skeleton (h_nodes s))"

lemma length_skeleton [simp]: "length (skeleton ns) = length ns"
  by (simp add: skeleton_def)

lemma skeleton_nth [simp]: "j < length ns \<Longrightarrow> skeleton ns ! j = (n_op (ns ! j), n_args (ns ! j))"
  by (simp add: skeleton_def)

lemma share_node_inv:
  assumes inv: "share_inv nodes k s" and t: "topo nodes" and k: "k < length nodes"
    and nd: "(op, args) = nodes ! k"
  shows "\<exists>s'. share_node s (k, op, args, label) = Inr s' \<and> share_inv nodes (Suc k) s'"
proof -
  let ?R = "h_remap s" and ?N = "h_nodes s"
  have len: "length ?R = k" using inv by (simp add: share_inv_def)
  have kn: "i < k" if "(KN, i) \<in> set args" for i using topo_nth [OF t k] that nd [symmetric] by simp
  let ?a = "map (rm ?R) args"
  have a: "map_r (remap_ref ?R) args = Inr ?a" by (rule remap_refs) (simp add: kn len)
  have old: "map (rm (?R @ [x])) (snd (nodes ! i)) = map (rm ?R) (snd (nodes ! i))" if "i \<le> k" for i x
    using topo_nth [OF t, of i] that k len by (intro rm_append) fastforce
  have j1: "\<exists>j < length ?N. ?R ! i = (KN, j) \<and> n_op (?N ! j) = fst (nodes ! i)
      \<and> canon (fst (nodes ! i)) (n_args (?N ! j)) = canon (fst (nodes ! i)) (map (rm ?R) (snd (nodes ! i)))" if "i < k" for i
    using inv that by (simp add: share_inv_def)
  have j2: "\<exists>i < k. ?R ! i = (KN, j) \<and> n_op (?N ! j) = fst (nodes ! i) \<and> n_args (?N ! j) = map (rm ?R) (snd (nodes ! i))"
    if "j < length ?N" for j using inv that by (simp add: share_inv_def)
  have j3: "j < length ?N \<and> key = (n_op (?N ! j), canon (n_op (?N ! j)) (n_args (?N ! j)))" if "h_keyed s key = Some j" for key j
    using inv that unfolding share_inv_def by blast
  have j4: "topo (skeleton ?N)" using inv by (simp add: share_inv_def)
  let ?lab = "case label of None \<Rightarrow> [] | Some l \<Rightarrow> if l = [] then [] else [l]"
  show ?thesis
  proof (cases "h_keyed s (op, canon op ?a)")
    case None
    let ?new = "\<lparr>n_op = op, n_args = ?a, n_labels = ?lab, n_origin = [k]\<rparr>"
    let ?s = "s\<lparr>h_keyed := (h_keyed s)((op, canon op ?a) \<mapsto> length ?N), h_nodes := ?N @ [?new], h_remap := ?R @ [(KN, length ?N)]\<rparr>"
    have "share_inv nodes (Suc k) ?s"
      unfolding share_inv_def
    proof (intro conjI allI impI)
      fix i assume "i < Suc k"
      then consider "i < k" | "i = k" by linarith
      then show "\<exists>j < length (h_nodes ?s). h_remap ?s ! i = (KN, j) \<and> n_op (h_nodes ?s ! j) = fst (nodes ! i)
        \<and> canon (fst (nodes ! i)) (n_args (h_nodes ?s ! j)) = canon (fst (nodes ! i)) (map (rm (h_remap ?s)) (snd (nodes ! i)))"
      proof cases
        case 1
        with j1 [of i] obtain j where j: "j < length ?N" "?R ! i = (KN, j)" "n_op (?N ! j) = fst (nodes ! i)"
          "canon (fst (nodes ! i)) (n_args (?N ! j)) = canon (fst (nodes ! i)) (map (rm ?R) (snd (nodes ! i)))" by blast
        show ?thesis by (rule exI [of _ j]) (use j 1 old [of i] len in \<open>simp add: nth_append del: map_eq_conv\<close>)
      next
        case 2
        show ?thesis by (rule exI [of _ "length ?N"]) (use 2 old [of k] len in \<open>simp add: nth_append nd [symmetric] del: map_eq_conv\<close>)
      qed
    next
      fix j assume "j < length (h_nodes ?s)"
      then consider "j < length ?N" | "j = length ?N" by fastforce
      then show "\<exists>i < Suc k. h_remap ?s ! i = (KN, j) \<and> n_op (h_nodes ?s ! j) = fst (nodes ! i)
        \<and> n_args (h_nodes ?s ! j) = map (rm (h_remap ?s)) (snd (nodes ! i))"
      proof cases
        case 1
        with j2 [of j] obtain i where i: "i < k" "?R ! i = (KN, j)" "n_op (?N ! j) = fst (nodes ! i)"
          "n_args (?N ! j) = map (rm ?R) (snd (nodes ! i))" by blast
        show ?thesis by (rule exI [of _ i]) (use i 1 old [of i] len in \<open>simp add: nth_append del: map_eq_conv\<close>)
      next
        case 2
        show ?thesis by (rule exI [of _ k]) (use 2 old [of k] len in \<open>simp add: nth_append nd [symmetric] del: map_eq_conv\<close>)
      qed
    next
      show "topo (skeleton (h_nodes ?s))"
        unfolding topo_def
      proof (intro allI impI)
        fix j i assume j: "j < length (skeleton (h_nodes ?s))" "(KN, i) \<in> set (snd (skeleton (h_nodes ?s) ! j))"
        show "i < j"
        proof (cases "j < length ?N")
          case True
          then show ?thesis using j topo_nth [OF j4, of j i] by (simp add: nth_append)
        next
          case False
          then have e: "j = length ?N" using j(1) by simp
          then have "(KN, i) \<in> set ?a" using j(2) by (simp add: nth_append)
          then obtain r where r: "r \<in> set args" "rm ?R r = (KN, i)" by auto
          then have "fst r = KN" by (auto simp: rm_def split: if_splits)
          then have "snd r < k" using kn [of "snd r"] r(1) by (cases r) simp
          then show ?thesis using j1 [of "snd r"] r(2) \<open>fst r = KN\<close> e by (auto simp: rm_def)
        qed
      qed
    next
      fix key j assume k: "h_keyed ?s key = Some j"
      have "j < length (h_nodes ?s) \<and> key = (n_op (h_nodes ?s ! j), canon (n_op (h_nodes ?s ! j)) (n_args (h_nodes ?s ! j)))"
      proof (cases "key = (op, canon op ?a)")
        case True
        then show ?thesis using k by (simp add: nth_append)
      next
        case False
        then have "h_keyed s key = Some j" using k by simp
        from j3 [OF this] show ?thesis by (simp add: nth_append)
      qed
      then show "j < length (h_nodes ?s)" "key = (n_op (h_nodes ?s ! j), canon (n_op (h_nodes ?s ! j)) (n_args (h_nodes ?s ! j)))"
        by blast+
    qed (use len in simp)
    then show ?thesis by (simp add: share_node_def a None Let_def)
  next
    case (Some j)
    let ?s = "s\<lparr>h_merged := h_merged s + 1,
      h_nodes := ?N[j := (?N ! j)\<lparr>n_origin := n_origin (?N ! j) @ [k], n_labels := n_labels (?N ! j) @ ?lab\<rparr>],
      h_remap := ?R @ [(KN, j)]\<rparr>"
    have jl: "j < length ?N" "n_op (?N ! j) = op" "canon op (n_args (?N ! j)) = canon op ?a" using j3 [OF Some] by auto
    have same: "n_op (h_nodes ?s ! i) = n_op (?N ! i)" "n_args (h_nodes ?s ! i) = n_args (?N ! i)" if "i < length ?N" for i
      using that jl(1) by (simp_all add: nth_list_update)
    have sk: "skeleton (h_nodes ?s) = skeleton ?N" using jl(1) by (intro nth_equalityI) (simp_all add: nth_list_update)
    have "share_inv nodes (Suc k) ?s"
      unfolding share_inv_def sk
    proof (intro conjI allI impI)
      fix i assume "i < Suc k"
      then consider "i < k" | "i = k" by linarith
      then show "\<exists>j < length (h_nodes ?s). h_remap ?s ! i = (KN, j) \<and> n_op (h_nodes ?s ! j) = fst (nodes ! i)
        \<and> canon (fst (nodes ! i)) (n_args (h_nodes ?s ! j)) = canon (fst (nodes ! i)) (map (rm (h_remap ?s)) (snd (nodes ! i)))"
      proof cases
        case 1
        with j1 [of i] obtain j where j: "j < length ?N" "?R ! i = (KN, j)" "n_op (?N ! j) = fst (nodes ! i)"
          "canon (fst (nodes ! i)) (n_args (?N ! j)) = canon (fst (nodes ! i)) (map (rm ?R) (snd (nodes ! i)))" by blast
        show ?thesis by (rule exI [of _ j]) (use j 1 old [of i] len same [of j] in \<open>simp add: nth_append del: map_eq_conv\<close>)
      next
        case 2
        show ?thesis by (rule exI [of _ j]) (use 2 old [of k] len jl same [of j] in \<open>simp add: nth_append nd [symmetric] del: map_eq_conv\<close>)
      qed
    next
      fix j' assume "j' < length (h_nodes ?s)"
      then have l: "j' < length ?N" by simp
      with j2 [of j'] obtain i where i: "i < k" "?R ! i = (KN, j')" "n_op (?N ! j') = fst (nodes ! i)"
        "n_args (?N ! j') = map (rm ?R) (snd (nodes ! i))" by blast
      show "\<exists>i < Suc k. h_remap ?s ! i = (KN, j') \<and> n_op (h_nodes ?s ! j') = fst (nodes ! i)
        \<and> n_args (h_nodes ?s ! j') = map (rm (h_remap ?s)) (snd (nodes ! i))"
        by (rule exI [of _ i]) (use i l old [of i] len same [of j'] in \<open>simp add: nth_append del: map_eq_conv\<close>)
    next
      fix key j' assume "h_keyed ?s key = Some j'"
      then have "h_keyed s key = Some j'" by simp
      from j3 [OF this] show "j' < length (h_nodes ?s)"
        "key = (n_op (h_nodes ?s ! j'), canon (n_op (h_nodes ?s ! j')) (n_args (h_nodes ?s ! j')))"
        using same [of j'] by simp_all
    qed (use len j4 in simp_all)
    then show ?thesis by (simp add: share_node_def a Some Let_def)
  qed
qed


lemma enumerate_graph:
  "j < length (g_nodes g) \<Longrightarrow> (fst (g_nodes g ! j), fst (snd (g_nodes g ! j))) = graph_skeleton g ! j"
  by (simp add: graph_skeleton_def case_prod_beta)

lemma length_graph_skeleton [simp]: "length (graph_skeleton g) = length (g_nodes g)"
  by (simp add: graph_skeleton_def)

lemma share_loop:
  assumes t: "topo (graph_skeleton g)"
  shows "k \<le> length (g_nodes g) \<Longrightarrow> \<exists>s. fold_r share_node \<lparr>h_nodes = [], h_keyed = (\<lambda>_. None), h_remap = [], h_merged = 0\<rparr>
    (enumerate 0 (take k (g_nodes g))) = Inr s \<and> share_inv (graph_skeleton g) k s"
proof (induction k)
  case 0
  show ?case by (simp add: share_inv_def topo_def)
next
  case (Suc k)
  then obtain s where s: "fold_r share_node \<lparr>h_nodes = [], h_keyed = (\<lambda>_. None), h_remap = [], h_merged = 0\<rparr>
    (enumerate 0 (take k (g_nodes g))) = Inr s" "share_inv (graph_skeleton g) k s" by auto
  have k: "k < length (g_nodes g)" using Suc.prems by simp
  obtain op args label where n: "g_nodes g ! k = (op, args, label)" using prod_cases3 by blast
  have e: "enumerate 0 (take (Suc k) (g_nodes g)) = enumerate 0 (take k (g_nodes g)) @ [(k, op, args, label)]"
    using k by (simp add: take_Suc_conv_app_nth enumerate_append_eq n)
  have "(op, args) = graph_skeleton g ! k" using enumerate_graph [OF k] n by simp
  from share_node_inv [OF s(2) t _ this, of label] k show ?case
    by (auto simp: e fold_r_append s(1))
qed

lemma share_total:
  assumes "topo (graph_skeleton g)" "out_refs_ok (graph_skeleton g) (g_outs g)"
  obtains s where "share_inv (graph_skeleton g) (length (g_nodes g)) s"
    "share g = Inr (h_nodes s, map (rm (h_remap s)) (g_outs g), h_merged s)"
proof -
  obtain s where s: "fold_r share_node \<lparr>h_nodes = [], h_keyed = (\<lambda>_. None), h_remap = [], h_merged = 0\<rparr>
    (enumerate 0 (g_nodes g)) = Inr s" "share_inv (graph_skeleton g) (length (g_nodes g)) s"
    using share_loop [OF assms(1), of "length (g_nodes g)"] by auto
  have "map_r (remap_ref (h_remap s)) (g_outs g) = Inr (map (rm (h_remap s)) (g_outs g))"
    using assms(2) s(2) by (intro remap_refs) (simp add: out_refs_ok_def share_inv_def)
  then show ?thesis using that [OF s(2)] s(1) by (simp add: share_def)
qed

section \<open>The shared step\<close>

lemma ref_val_rm:
  assumes "\<And>i. (KN, i) \<in> set args \<Longrightarrow> \<exists>j. remap ! i = (KN, j) \<and> vs' j = vs i"
  shows "map (ref_val leaf vs') (map (rm remap) args) = map (ref_val leaf vs) args"
  using assms by (fastforce simp: ref_val_def rm_def)

lemma share_arity:
  assumes "share_inv nodes (length nodes) s" "arity_ok nodes"
  shows "arity_ok (skeleton (h_nodes s))"
  unfolding arity_ok_def
proof
  fix nd assume "nd \<in> set (skeleton (h_nodes s))"
  then obtain j where j: "j < length (h_nodes s)" "nd = (n_op (h_nodes s ! j), n_args (h_nodes s ! j))"
    by (auto simp: in_set_conv_nth)
  then obtain i where "i < length nodes" "n_op (h_nodes s ! j) = fst (nodes ! i)"
    "n_args (h_nodes s ! j) = map (rm (h_remap s)) (snd (nodes ! i))" using assms(1) unfolding share_inv_def by blast
  then show "length (snd nd) = ARITY (fst nd)" using arity_nth [OF assms(2)] j(2) by simp
qed

context commuting_ops
begin

text \<open>A valuation of the shared nodes values the graph's.\<close>

lemma shared_gives_graph:
  assumes inv: "share_inv nodes (length nodes) s" and t: "topo nodes" and ar: "arity_ok nodes"
    and e: "evals sem leaf (skeleton (h_nodes s)) vs fs"
  shows "evals sem leaf nodes (\<lambda>i. vs (snd (h_remap s ! i))) (\<lambda>i. fs (snd (h_remap s ! i)))"
  unfolding evals_def
proof (intro allI impI)
  let ?R = "h_remap s" and ?N = "h_nodes s"
  fix i assume i: "i < length nodes"
  then obtain j where j: "j < length ?N" "?R ! i = (KN, j)" "n_op (?N ! j) = fst (nodes ! i)"
    "canon (fst (nodes ! i)) (n_args (?N ! j)) = canon (fst (nodes ! i)) (map (rm ?R) (snd (nodes ! i)))"
    using inv unfolding share_inv_def by blast
  have r: "\<exists>j. ?R ! i' = (KN, j) \<and> vs j = vs (snd (?R ! i'))" if "(KN, i') \<in> set (snd (nodes ! i))" for i'
  proof -
    have "i' < length nodes" using topo_nth [OF t i that] i by simp
    then show ?thesis using inv unfolding share_inv_def by fastforce
  qed
  have "sem (fst (nodes ! i)) (map (ref_val leaf (\<lambda>i. vs (snd (?R ! i)))) (snd (nodes ! i)))
      = sem (fst (nodes ! i)) (map (ref_val leaf vs) (map (rm ?R) (snd (nodes ! i))))"
    by (simp only: ref_val_rm [of "snd (nodes ! i)" ?R vs "\<lambda>i. vs (snd (?R ! i))" leaf, OF r])
  also have "\<dots> = sem (fst (nodes ! i)) (map (ref_val leaf vs) (n_args (?N ! j)))"
    by (rule canon_same [OF j(4) [symmetric]])
      (use arity_nth [OF ar i] arity_nth [OF share_arity [OF inv ar], of j] j in simp_all)
  also have "\<dots> = Inr (vs j, fs j)" using e j by (simp add: evals_def j(3) [symmetric])
  finally show "sem (fst (nodes ! i)) (map (ref_val leaf (\<lambda>i. vs (snd (?R ! i)))) (snd (nodes ! i)))
    = Inr (vs (snd (?R ! i)), fs (snd (?R ! i)))" by (simp add: j(2))
qed

text \<open>Nodes of one number have one value, so a valuation of the graph's nodes values the shared ones.\<close>

lemma same_number_same_value:
  assumes inv: "share_inv nodes (length nodes) s" and t: "topo nodes" and ar: "arity_ok nodes"
    and e: "evals sem leaf nodes vs fs" and j: "j < length (h_nodes s)"
  shows "\<exists>v f. sem (n_op (h_nodes s ! j)) (map (ref_val leaf (\<lambda>j. vs (SOME i. i < length nodes \<and> h_remap s ! i = (KN, j)))) (n_args (h_nodes s ! j))) = Inr (v, f)
    \<and> (\<forall>i < length nodes. h_remap s ! i = (KN, j) \<longrightarrow> vs i = v \<and> fs i = f)"
  using j
proof (induction j rule: less_induct)
  case (less j)
  let ?R = "h_remap s" and ?N = "h_nodes s"
  let ?o = "\<lambda>j. SOME i. i < length nodes \<and> ?R ! i = (KN, j)"
  have org: "\<exists>i. i < length nodes \<and> ?R ! i = (KN, k)" if "k < length ?N" for k
    using inv that unfolding share_inv_def by blast
  have tN: "topo (skeleton ?N)" using inv unfolding share_inv_def by blast
  have *: "Inr (vs i, fs i) = sem (n_op (?N ! j)) (map (ref_val leaf (\<lambda>j. vs (?o j))) (n_args (?N ! j)))"
    if i: "i < length nodes" "?R ! i = (KN, j)" for i
  proof -
    have c: "n_op (?N ! j) = fst (nodes ! i)"
      "canon (fst (nodes ! i)) (n_args (?N ! j)) = canon (fst (nodes ! i)) (map (rm ?R) (snd (nodes ! i)))"
      using inv i unfolding share_inv_def by (metis prod.inject)+
    then have st: "set (n_args (?N ! j)) = set (map (rm ?R) (snd (nodes ! i)))" by (metis set_canon)
    have r: "\<exists>j'. ?R ! i' = (KN, j') \<and> vs (?o j') = vs i'" if a: "(KN, i') \<in> set (snd (nodes ! i))" for i'
    proof -
      have i': "i' < length nodes" using topo_nth [OF t i(1) a] i(1) by simp
      then obtain j' where j': "j' < length ?N" "?R ! i' = (KN, j')" using inv unfolding share_inv_def by blast
      have "(KN, j') \<in> set (n_args (?N ! j))" unfolding st using a j'(2) by (force simp: rm_def)
      then have "j' < j" using topo_nth [OF tN, of j j'] less.prems by simp
      then obtain v f where v: "\<forall>i < length nodes. ?R ! i = (KN, j') \<longrightarrow> vs i = v \<and> fs i = f"
        using less.IH [of j'] j'(1) by blast
      have "?o j' < length nodes \<and> ?R ! (?o j') = (KN, j')" by (rule someI_ex [OF org [OF j'(1)]])
      then have "vs (?o j') = vs i'" using v i' j'(2) by metis
      then show ?thesis using j'(2) by blast
    qed
    have "Inr (vs i, fs i) = sem (fst (nodes ! i)) (map (ref_val leaf vs) (snd (nodes ! i)))" using e i(1) by (simp add: evals_def)
    also have "\<dots> = sem (fst (nodes ! i)) (map (ref_val leaf (\<lambda>j. vs (?o j))) (map (rm ?R) (snd (nodes ! i))))"
      by (simp only: ref_val_rm [of "snd (nodes ! i)" ?R "\<lambda>j. vs (?o j)" vs leaf, OF r])
    also have "\<dots> = sem (fst (nodes ! i)) (map (ref_val leaf (\<lambda>j. vs (?o j))) (n_args (?N ! j)))"
      by (rule canon_same [OF c(2) [symmetric]])
        (use arity_nth [OF ar i(1)] arity_nth [OF share_arity [OF inv ar], of j] less.prems c(1) in simp_all)
    finally show ?thesis by (simp add: c(1))
  qed
  obtain i0 where i0: "i0 < length nodes" "?R ! i0 = (KN, j)" using org [OF less.prems] by blast
  have s0: "sem (n_op (?N ! j)) (map (ref_val leaf (\<lambda>j. vs (?o j))) (n_args (?N ! j))) = Inr (vs i0, fs i0)"
    by (rule * [OF i0, symmetric])
  have "vs i = vs i0 \<and> fs i = fs i0" if "i < length nodes" "?R ! i = (KN, j)" for i
    using * [OF that] unfolding s0 by simp
  then show ?case using s0 by blast
qed

lemma graph_gives_shared:
  assumes inv: "share_inv nodes (length nodes) s" and t: "topo nodes" and ar: "arity_ok nodes"
    and e: "evals sem leaf nodes vs fs"
  obtains vs' fs' where "evals sem leaf (skeleton (h_nodes s)) vs' fs'"
    "\<And>i j. i < length nodes \<Longrightarrow> h_remap s ! i = (KN, j) \<Longrightarrow> vs' j = vs i \<and> fs' j = fs i"
proof -
  let ?o = "\<lambda>j. SOME i. i < length nodes \<and> h_remap s ! i = (KN, j)"
  have org: "?o k < length nodes \<and> h_remap s ! (?o k) = (KN, k)" if "k < length (h_nodes s)" for k
    by (rule someI_ex) (use inv that in \<open>unfold share_inv_def, blast\<close>)
  have "evals sem leaf (skeleton (h_nodes s)) (\<lambda>j. vs (?o j)) (\<lambda>j. fs (?o j))"
    unfolding evals_def
  proof (intro allI impI)
    fix j assume "j < length (skeleton (h_nodes s))"
    then have j: "j < length (h_nodes s)" by simp
    from same_number_same_value [OF inv t ar e j] org [OF j]
    show "sem (fst (skeleton (h_nodes s) ! j)) (map (ref_val leaf (\<lambda>j. vs (?o j))) (snd (skeleton (h_nodes s) ! j))) = Inr (vs (?o j), fs (?o j))"
      using j by auto
  qed
  moreover have "vs (?o j) = vs i \<and> fs (?o j) = fs i" if i: "i < length nodes" "h_remap s ! i = (KN, j)" for i j
  proof -
    obtain j' where "j' < length (h_nodes s)" "h_remap s ! i = (KN, j')" using inv i(1) unfolding share_inv_def by blast
    then have j: "j < length (h_nodes s)" using i(2) by simp
    from same_number_same_value [OF inv t ar e j] obtain v f
      where v: "\<forall>i < length nodes. h_remap s ! i = (KN, j) \<longrightarrow> vs i = v \<and> fs i = f" by blast
    have "vs (?o j) = v \<and> fs (?o j) = f" using v org [OF j] by blast
    then show ?thesis using v i by simp
  qed
  ultimately show ?thesis using that by blast
qed

theorem share_invisible:
  assumes t: "topo (graph_skeleton g)" and ar: "arity_ok (graph_skeleton g)" and o: "out_refs_ok (graph_skeleton g) (g_outs g)"
    and s: "share g = Inr (ns, outs, merged)"
  shows "step_result sem leaf (skeleton ns) outs = Inr y \<longleftrightarrow> step_result sem leaf (graph_skeleton g) (g_outs g) = Inr y"
    and "topo (skeleton ns)" "arity_ok (skeleton ns)" "out_refs_ok (skeleton ns) outs"
proof -
  obtain st where inv: "share_inv (graph_skeleton g) (length (graph_skeleton g)) st"
    and e: "ns = h_nodes st" "outs = map (rm (h_remap st)) (g_outs g)"
    using share_total [OF t o] s by (metis Inr_inject length_graph_skeleton prod.inject)
  let ?G = "graph_skeleton g" and ?R = "h_remap st"
  show tN: "topo (skeleton ns)" using inv unfolding share_inv_def e by blast
  show "arity_ok (skeleton ns)" unfolding e by (rule share_arity [OF inv ar])
  have num: "\<exists>j < length ns. ?R ! i = (KN, j)" if "i < length ?G" for i using inv that unfolding share_inv_def e by blast
  have src: "\<exists>i < length ?G. ?R ! i = (KN, j)" if "j < length ns" for j using inv that unfolding share_inv_def e by blast
  show oN: "out_refs_ok (skeleton ns) outs"
    unfolding out_refs_ok_def
  proof (intro allI impI)
    fix j assume "(KN, j) \<in> set outs"
    then obtain r where r: "r \<in> set (g_outs g)" "rm ?R r = (KN, j)" unfolding e by auto
    then have f: "fst r = KN" by (auto simp: rm_def split: if_splits)
    then have "snd r < length ?G" using o r(1) unfolding out_refs_ok_def by (cases r) simp
    from num [OF this] show "j < length (skeleton ns)" using r(2) f by (auto simp: rm_def)
  qed
  have flags: "or_all (map fs' [0 ..< length ns]) = or_all (map fs [0 ..< length ?G])"
    if "\<And>i j. i < length ?G \<Longrightarrow> ?R ! i = (KN, j) \<Longrightarrow> fs' j = fs i" for fs fs'
  proof (rule or_all_cong)
    show "set (map fs' [0 ..< length ns]) = set (map fs [0 ..< length ?G])"
      using that num src by (auto simp: image_iff) (metis atLeastLessThan_iff le0)+
  qed
  have vals: "map (ref_val leaf vs') outs = map (ref_val leaf vs) (g_outs g)"
    if v: "\<And>i j. i < length ?G \<Longrightarrow> ?R ! i = (KN, j) \<Longrightarrow> vs' j = vs i" for vs vs'
    unfolding e
  proof (rule ref_val_rm)
    fix i assume "(KN, i) \<in> set (g_outs g)"
    then have "i < length ?G" using o by (simp add: out_refs_ok_def)
    then show "\<exists>j. ?R ! i = (KN, j) \<and> vs' j = vs i" using num v by blast
  qed
  show "step_result sem leaf (skeleton ns) outs = Inr y \<longleftrightarrow> step_result sem leaf ?G (g_outs g) = Inr y"
  proof
    assume "step_result sem leaf (skeleton ns) outs = Inr y"
    then obtain vs fs where v: "evals sem leaf (skeleton ns) vs fs"
      "y = (map (ref_val leaf vs) outs, or_all (map fs [0 ..< length ns]))"
      unfolding step_result_iff [OF tN oN] by auto
    have "evals sem leaf ?G (\<lambda>i. vs (snd (?R ! i))) (\<lambda>i. fs (snd (?R ! i)))"
      by (rule shared_gives_graph [OF inv t ar v(1) [unfolded e]])
    moreover have "y = (map (ref_val leaf (\<lambda>i. vs (snd (?R ! i)))) (g_outs g), or_all (map (\<lambda>i. fs (snd (?R ! i))) [0 ..< length ?G]))"
      unfolding v(2) using vals [of vs "\<lambda>i. vs (snd (?R ! i))"] flags [of fs "\<lambda>i. fs (snd (?R ! i))"] by simp
    ultimately show "step_result sem leaf ?G (g_outs g) = Inr y" unfolding step_result_iff [OF t o] by blast
  next
    assume "step_result sem leaf ?G (g_outs g) = Inr y"
    then obtain vs fs where v: "evals sem leaf ?G vs fs" "y = (map (ref_val leaf vs) (g_outs g), or_all (map fs [0 ..< length ?G]))"
      unfolding step_result_iff [OF t o] by blast
    obtain vs' fs' where v': "evals sem leaf (skeleton (h_nodes st)) vs' fs'"
      "\<And>i j. i < length ?G \<Longrightarrow> ?R ! i = (KN, j) \<Longrightarrow> vs' j = vs i \<and> fs' j = fs i"
      by (rule graph_gives_shared [OF inv t ar v(1)]) blast
    have "y = (map (ref_val leaf vs') outs, or_all (map fs' [0 ..< length (skeleton ns)]))"
      unfolding v(2) using vals [of vs' vs] flags [of fs' fs] v'(2) by simp
    then show "step_result sem leaf (skeleton ns) outs = Inr y" unfolding step_result_iff [OF tN oN] using v'(1) e by blast
  qed
qed

end

end
