(* ===== verification/FoldRight.thy ===== *)
theory FoldRight
  imports ShareRight
begin

text \<open>
  The one fold is invisible. The interface adds to commuting operations a negation that raises nothing and moves
  from one multiplicand to the other. The nodes after the loop are the image of the nodes before it under the set
  of negations removed, each of which only multiplicands beside a const entry read; the image has the valuations
  the nodes had, and dropping the removed negations leaves values and gathered flags as they were.
\<close>

locale flipping_ops = commuting_ops +
  fixes flip :: "int \<Rightarrow> int"
  assumes neg_flips: "sem O_neg [a] = Inr (flip a, 0)"
    and flip_moves: "sem O_mul [flip a, b] = sem O_mul [a, flip b]"
    and flip_moves_fma: "sem O_fma [flip a, b, c] = sem O_fma [a, flip b, c]"

section \<open>The image under a set of removed negations\<close>

definition dead_ref :: "nat set \<Rightarrow> gref \<Rightarrow> bool" where
  "dead_ref D r \<longleftrightarrow> fst r = KN \<and> snd r \<in> D"

definition neg_arg :: "lnode list \<Rightarrow> gref \<Rightarrow> gref" where
  "neg_arg ns r = n_args (ns ! snd r) ! 0"

definition fold_args :: "lnode list \<Rightarrow> nat set \<Rightarrow> lnode \<Rightarrow> gref list" where
  "fold_args ns D nd =
    (let a = n_args nd ! 0; b = n_args nd ! 1 in
     if n_op nd \<notin> {O_fma, O_mul} then n_args nd
     else if dead_ref D a then (n_args nd)[0 := neg_arg ns a, 1 := (KF, snd b)]
     else if dead_ref D b then (n_args nd)[1 := neg_arg ns b, 0 := (KF, snd a)]
     else n_args nd)"

definition fold_image :: "lnode list \<Rightarrow> nat set \<Rightarrow> lnode list" where
  "fold_image ns D = map (\<lambda>nd. nd\<lparr>n_args := fold_args ns D nd\<rparr>) ns"

text \<open>The removed negations: read only as a multiplicand beside a const entry, and no output.\<close>

definition removable :: "lnode list \<Rightarrow> gref list \<Rightarrow> nat \<Rightarrow> bool" where
  "removable ns outs d \<longleftrightarrow> d < length ns \<and> n_op (ns ! d) = O_neg \<and> (KN, d) \<notin> set outs
    \<and> (\<forall>c < length ns. \<forall>p < length (n_args (ns ! c)). n_args (ns ! c) ! p = (KN, d)
        \<longrightarrow> n_op (ns ! c) \<in> {O_fma, O_mul} \<and> p \<in> {0, 1} \<and> fst (n_args (ns ! c) ! (1 - p)) = KC)"

lemma length_fold_image [simp]: "length (fold_image ns D) = length ns"
  by (simp add: fold_image_def)

lemma fold_image_nth:
  "c < length ns \<Longrightarrow> fold_image ns D ! c = (ns ! c)\<lparr>n_args := fold_args ns D (ns ! c)\<rparr>"
  by (simp add: fold_image_def)

lemma length_fold_args [simp]: "length (fold_args ns D nd) = length (n_args nd)"
  by (simp add: fold_args_def Let_def)

lemma fold_image_empty [simp]: "fold_image ns {} = ns"
proof -
  have "fold_args ns {} nd = n_args nd" for nd by (simp add: fold_args_def dead_ref_def Let_def)
  then show ?thesis by (simp add: fold_image_def)
qed

lemma mult_args:
  assumes "arity_ok (skeleton ns)" "c < length ns" "n_op (ns ! c) \<in> {O_fma, O_mul}"
  shows "\<exists>a b rest. n_args (ns ! c) = a # b # rest \<and> (n_op (ns ! c) = O_mul \<longrightarrow> rest = []) \<and> (n_op (ns ! c) = O_fma \<longrightarrow> (\<exists>x. rest = [x]))"
proof -
  have "length (n_args (ns ! c)) = ARITY (n_op (ns ! c))" using arity_nth [OF assms(1), of c] assms(2) by simp
  then show ?thesis using assms(3)
    by (auto simp: numeral_2_eq_2 numeral_3_eq_3 length_Suc_conv)
qed

lemma neg_args:
  assumes "arity_ok (skeleton ns)" "d < length ns" "n_op (ns ! d) = O_neg"
  shows "n_args (ns ! d) = [neg_arg ns (KN, d)]"
proof -
  have "length (n_args (ns ! d)) = 1" using arity_nth [OF assms(1), of d] assms(2,3) by simp
  then show ?thesis by (cases "n_args (ns ! d)") (auto simp: neg_arg_def)
qed

text \<open>What the image of a node is.\<close>

lemma fold_args_cases:
  assumes ar: "arity_ok (skeleton ns)" and c: "c < length ns" and D: "\<forall>d \<in> D. removable ns outs d"
  obtains (same) "fold_args ns D (ns ! c) = n_args (ns ! c)" "\<And>d. d \<in> D \<Longrightarrow> (KN, d) \<notin> set (n_args (ns ! c))"
  | (left) d i rest where "d \<in> D" "n_op (ns ! c) \<in> {O_fma, O_mul}" "n_args (ns ! c) = (KN, d) # (KC, i) # rest"
      "fold_args ns D (ns ! c) = neg_arg ns (KN, d) # (KF, i) # rest" "\<And>d. d \<in> D \<Longrightarrow> (KN, d) \<notin> set rest"
  | (right) d i rest where "d \<in> D" "n_op (ns ! c) \<in> {O_fma, O_mul}" "n_args (ns ! c) = (KC, i) # (KN, d) # rest"
      "fold_args ns D (ns ! c) = (KF, i) # neg_arg ns (KN, d) # rest" "\<And>d. d \<in> D \<Longrightarrow> (KN, d) \<notin> set rest"
proof (cases "\<exists>d \<in> D. (KN, d) \<in> set (n_args (ns ! c))")
  case False
  have "fold_args ns D (ns ! c) = n_args (ns ! c)"
  proof (cases "n_op (ns ! c) \<in> {O_fma, O_mul}")
    case True
    then show ?thesis using mult_args [OF ar c True] False by (auto simp: fold_args_def dead_ref_def Let_def)
  qed (simp add: fold_args_def)
  then show ?thesis using same False by blast
next
  case True
  then obtain d p where d: "d \<in> D" "p < length (n_args (ns ! c))" "n_args (ns ! c) ! p = (KN, d)"
    by (auto simp: in_set_conv_nth)
  have r: "n_op (ns ! c) \<in> {O_fma, O_mul} \<and> q \<in> {0, 1} \<and> fst (n_args (ns ! c) ! (1 - q)) = KC"
    if "d' \<in> D" "q < length (n_args (ns ! c))" "n_args (ns ! c) ! q = (KN, d')" for d' q
    using bspec [OF D that(1)] c that(2,3) unfolding removable_def by blast
  have m: "n_op (ns ! c) \<in> {O_fma, O_mul}" "p \<in> {0, 1}" "fst (n_args (ns ! c) ! (1 - p)) = KC" using r [OF d] by auto
  obtain a b rest where args: "n_args (ns ! c) = a # b # rest" using mult_args [OF ar c m(1)] by blast
  have rest: "(KN, d') \<notin> set rest" if "d' \<in> D" for d'
  proof
    assume "(KN, d') \<in> set rest"
    then obtain q where "q < length rest" "rest ! q = (KN, d')" by (auto simp: in_set_conv_nth)
    then show False using r [OF that, of "q + 2"] args by simp
  qed
  show ?thesis
  proof (cases "p = 0")
    case True
    then have "a = (KN, d)" "fst b = KC" using d(3) m(3) args by simp_all
    then show ?thesis using left [of d "snd b" rest] d(1) m(1) args rest
      by (cases b) (auto simp: fold_args_def dead_ref_def Let_def)
  next
    case False
    then have p: "p = 1" using m(2) by simp
    then have b: "b = (KN, d)" "fst a = KC" using d(3) m(3) args by simp_all
    then show ?thesis using right [of d "snd a" rest] d(1) m(1) args rest
      by (cases a) (auto simp: fold_args_def dead_ref_def Let_def)
  qed
qed

context flipping_ops
begin

lemma image_evals:
  assumes ar: "arity_ok (skeleton ns)" and D: "\<forall>d \<in> D. removable ns outs d"
    and flips: "\<And>i. leaf (KF, i) = flip (leaf (KC, i))"
    and v: "\<And>d. d \<in> D \<Longrightarrow> vs d = flip (ref_val leaf vs (neg_arg ns (KN, d)))" and c: "c < length ns"
  shows "sem (n_op (ns ! c)) (map (ref_val leaf vs) (fold_args ns D (ns ! c)))
    = sem (n_op (ns ! c)) (map (ref_val leaf vs) (n_args (ns ! c)))"
proof (cases rule: fold_args_cases [OF ar c D, case_names same left right])
  case (left d i rest)
  obtain x where "n_op (ns ! c) = O_mul \<and> rest = [] \<or> n_op (ns ! c) = O_fma \<and> rest = [x]"
    using mult_args [OF ar c left(2)] left(2,3) by auto
  then show ?thesis using left v [OF left(1)] flips flip_moves flip_moves_fma by auto
next
  case (right d i rest)
  obtain x where "n_op (ns ! c) = O_mul \<and> rest = [] \<or> n_op (ns ! c) = O_fma \<and> rest = [x]"
    using mult_args [OF ar c right(2)] right(2,3) by auto
  then show ?thesis using right v [OF right(1)] flips flip_moves flip_moves_fma by auto
qed simp

text \<open>The image has the valuations the nodes have.\<close>

lemma image_same_valuations:
  assumes ar: "arity_ok (skeleton ns)" and D: "\<forall>d \<in> D. removable ns outs d"
    and flips: "\<And>i. leaf (KF, i) = flip (leaf (KC, i))"
  shows "evals sem leaf (skeleton (fold_image ns D)) vs fs \<longleftrightarrow> evals sem leaf (skeleton ns) vs fs"
proof -
  have op: "n_op (fold_image ns D ! c) = n_op (ns ! c)" "n_args (fold_image ns D ! c) = fold_args ns D (ns ! c)"
    if "c < length ns" for c using that by (simp_all add: fold_image_nth)
  have dn: "d < length ns" "n_op (ns ! d) = O_neg" if "d \<in> D" for d using bspec [OF D that] by (auto simp: removable_def)
  have fd: "fold_args ns D (ns ! d) = [neg_arg ns (KN, d)]" "n_args (ns ! d) = [neg_arg ns (KN, d)]" if "d \<in> D" for d
    using neg_args [OF ar dn [OF that]] dn [OF that] by (simp_all add: fold_args_def)
  have v: "vs d = flip (ref_val leaf vs (neg_arg ns (KN, d)))"
    if "d \<in> D" "evals sem leaf (skeleton ns) vs fs \<or> evals sem leaf (skeleton (fold_image ns D)) vs fs" for d
    using that(2) fd [OF that(1)] dn [OF that(1)] op [of d] by (auto simp: evals_def neg_flips dest!: spec [of _ d])
  show ?thesis (is "?L \<longleftrightarrow> ?R")
  proof -
    have "(sem (fst (skeleton (fold_image ns D) ! c)) (map (ref_val leaf vs) (snd (skeleton (fold_image ns D) ! c))) = Inr (vs c, fs c))
      \<longleftrightarrow> (sem (fst (skeleton ns ! c)) (map (ref_val leaf vs) (snd (skeleton ns ! c))) = Inr (vs c, fs c))"
      if "c < length ns" "?L \<or> ?R" for c
    proof -
      have w: "\<And>d. d \<in> D \<Longrightarrow> vs d = flip (ref_val leaf vs (neg_arg ns (KN, d)))" using v that(2) by blast
      show ?thesis using image_evals [OF ar D flips w that(1)] that(1) op [OF that(1)] by simp
    qed
    then show ?thesis unfolding evals_def length_skeleton length_fold_image by blast
  qed
qed

end

section \<open>The loop builds the image\<close>

lemma set_users_of:
  "(c, p) \<in> set (users_of ns j) \<longleftrightarrow> c < length ns \<and> p < length (n_args (ns ! c)) \<and> n_args (ns ! c) ! p = (KN, j)"
proof
  assume "(c, p) \<in> set (users_of ns j)"
  then show "c < length ns \<and> p < length (n_args (ns ! c)) \<and> n_args (ns ! c) ! p = (KN, j)"
    by (auto simp: users_of_def in_set_enumerate_eq)
next
  assume "c < length ns \<and> p < length (n_args (ns ! c)) \<and> n_args (ns ! c) ! p = (KN, j)"
  then have "(c, ns ! c) \<in> set (enumerate 0 ns)" "(p, (KN, j)) \<in> set (enumerate 0 (n_args (ns ! c)))"
    by (simp_all add: in_set_enumerate_eq)
  then show "(c, p) \<in> set (users_of ns j)" unfolding users_of_def by force
qed

lemma distinct_users_of: "distinct (users_of ns j)"
proof -
  have one: "distinct (map (\<lambda>(p, r). (c, p)) (filter Q (enumerate k xs)))" for c k Q and xs :: "gref list"
    by (induction xs arbitrary: k) (auto simp: in_set_enumerate_eq)
  have "distinct (concat (map (\<lambda>(c, nd). map (\<lambda>(p, r). (c, p)) (filter (\<lambda>(p, r). r = (KN, j)) (enumerate 0 (n_args nd)))) (enumerate k xs)))"
    for k and xs :: "lnode list"
    by (induction xs arbitrary: k) (use one in \<open>auto simp: in_set_enumerate_eq\<close>)
  then show ?thesis by (simp add: users_of_def)
qed

lemma fold_sites_Some:
  "fold_sites ns us = Some sites \<Longrightarrow> map (\<lambda>(c, p, i). (c, p)) sites = us
    \<and> (\<forall>(c, p, i) \<in> set sites. n_op (ns ! c) \<in> {O_fma, O_mul} \<and> p \<in> {0, 1} \<and> n_args (ns ! c) ! (1 - p) = (KC, i))"
proof (induction us arbitrary: sites)
  case (Cons u us)
  obtain c p where u: "u = (c, p)" by (cases u)
  let ?x = "n_args (ns ! c) ! (1 - p)"
  have o: "n_op (ns ! c) \<in> {O_fma, O_mul}" "p \<in> {0, 1}" "fst ?x = KC"
    using Cons.prems unfolding u by (auto simp: Let_def split: if_splits)
  then obtain ss where s: "fold_sites ns us = Some ss" "sites = (c, p, snd ?x) # ss"
    using Cons.prems unfolding u by (auto simp: Let_def split: if_splits)
  have "?x = (KC, snd ?x)" using o(3) by (cases ?x) simp
  then show ?case using Cons.IH [OF s(1)] s(2) o u by auto
qed simp

lemma apply_sites:
  assumes "distinct (map fst sites)"
  shows "length (foldl (apply_site t) ns sites) = length ns"
    "c < length ns \<Longrightarrow> foldl (apply_site t) ns sites ! c = (case map_of sites c of None \<Rightarrow> ns ! c
      | Some (p, i) \<Rightarrow> (ns ! c)\<lparr>n_args := ((n_args (ns ! c))[p := t])[1 - p := (KF, i)]\<rparr>)"
  using assms
proof (induction sites arbitrary: ns)
  case (Cons x sites)
  obtain a p i where x: "x = (a, p, i)" by (cases x)
  {
    case 1
    then show ?case using Cons.IH(1) by (simp add: x apply_site_def)
  next
    case 2
    have n: "map_of sites a = None" using 2(2) x by (simp add: map_of_eq_None_iff)
    let ?ns = "apply_site t ns x"
    have "foldl (apply_site t) ?ns sites ! c = (case map_of sites c of None \<Rightarrow> ?ns ! c
      | Some (p, i) \<Rightarrow> (?ns ! c)\<lparr>n_args := ((n_args (?ns ! c))[p := t])[1 - p := (KF, i)]\<rparr>)"
      by (rule Cons.IH(2)) (use 2 in \<open>simp_all add: x apply_site_def\<close>)
    moreover have "?ns ! c = (if c = a then (ns ! c)\<lparr>n_args := ((n_args (ns ! c))[p := t])[1 - p := (KF, i)]\<rparr> else ns ! c)"
      using 2(1) by (simp add: x apply_site_def nth_list_update)
    ultimately show ?case using n by (cases "c = a") (auto simp: x split: option.split)
  }
qed simp_all

definition fold_inv :: "lnode list \<Rightarrow> gref list \<Rightarrow> nat \<Rightarrow> fold_state \<Rightarrow> bool" where
  "fold_inv ns outs j s \<longleftrightarrow> d_nodes s = fold_image ns (set (d_dead s))
    \<and> (\<forall>d \<in> set (d_dead s). removable ns outs d \<and> d < j)"

lemma fold_node_image:
  assumes ar: "arity_ok (skeleton ns)" and inv: "fold_inv ns outs j s" and j: "j < length ns"
    and neg: "n_op (ns ! j) = O_neg" "(KN, j) \<notin> set outs"
    and sites: "fold_sites (d_nodes s) (users_of ns j) = Some sites"
  shows "foldl (apply_site (n_args (d_nodes s ! j) ! 0)) (d_nodes s) sites = fold_image ns (insert j (set (d_dead s)))"
    "removable ns outs j" "distinct (map fst sites)"
    "\<forall>(c, p, i) \<in> set sites. n_args (d_nodes s ! c) = n_args (ns ! c)"
proof -
  let ?D = "set (d_dead s)" and ?N = "d_nodes s"
  have D: "\<forall>d \<in> ?D. removable ns outs d" and dj: "j \<notin> ?D" and N: "?N = fold_image ns ?D"
    using inv by (auto simp: fold_inv_def)
  have us: "map (\<lambda>(c, p, i). (c, p)) sites = users_of ns j"
    and so: "\<And>c p i. (c, p, i) \<in> set sites \<Longrightarrow> n_op (?N ! c) \<in> {O_fma, O_mul} \<and> p \<in> {0, 1} \<and> n_args (?N ! c) ! (1 - p) = (KC, i)"
    using fold_sites_Some [OF sites] by blast+
  have site: "c < length ns \<and> p < length (n_args (ns ! c)) \<and> n_args (ns ! c) ! p = (KN, j)" if "(c, p, i) \<in> set sites" for c p i
  proof -
    have "(c, p) \<in> set (users_of ns j)" unfolding us [symmetric] using that by force
    then show ?thesis by (simp add: set_users_of)
  qed
  have op: "n_op (?N ! c) = n_op (ns ! c)" "n_args (?N ! c) = fold_args ns ?D (ns ! c)" if "c < length ns" for c
    using that by (simp_all add: N fold_image_nth)
  have same: "fold_args ns ?D (ns ! c) = n_args (ns ! c)" if "(c, p, i) \<in> set sites" for c p i
  proof -
    have c: "c < length ns" "n_args (ns ! c) ! p = (KN, j)" "p < length (n_args (ns ! c))" using site [OF that] by auto
    have f: "n_args (?N ! c) ! (1 - p) = (KC, i)" "p \<in> {0, 1}" using so [OF that] by auto
    show ?thesis
    proof (cases rule: fold_args_cases [OF ar c(1) D, case_names same left right])
      case (left d k rest)
      then show ?thesis using f c dj op [OF c(1)] by auto
    next
      case (right d k rest)
      then show ?thesis using f c dj op [OF c(1)] by auto
    qed
  qed
  then show "\<forall>(c, p, i) \<in> set sites. n_args (?N ! c) = n_args (ns ! c)" using op site by fastforce
  have orig: "n_op (ns ! c) \<in> {O_fma, O_mul} \<and> p \<in> {0, 1} \<and> n_args (ns ! c) ! (1 - p) = (KC, i)" if "(c, p, i) \<in> set sites" for c p i
    using so [OF that] same [OF that] op site [OF that] by simp
  have one: "p = p'" if "(c, p, i) \<in> set sites" "(c, p', i') \<in> set sites" for c p p' i i'
  proof (rule ccontr)
    assume "p \<noteq> p'"
    then have "1 - p = p'" using orig [OF that(1)] orig [OF that(2)] by auto
    then show False using orig [OF that(1)] site [OF that(2)] by simp
  qed
  have "distinct sites" using distinct_users_of [of ns j] unfolding us [symmetric] by (simp add: distinct_map)
  moreover have "inj_on fst (set sites)"
  proof (rule inj_onI)
    fix x y assume xy: "x \<in> set sites" "y \<in> set sites" "fst x = fst y"
    obtain c p i c' p' i' where e: "x = (c, p, i)" "y = (c', p', i')" by (cases x, cases y)
    have "c' = c" "p = p'" using xy one [of c p i p' i'] by (auto simp: e)
    then show "x = y" using orig [of c p i] orig [of c p i'] xy by (auto simp: e)
  qed
  ultimately show dis: "distinct (map fst sites)" by (simp add: distinct_map)
  have reads: "\<exists>i. (c, p, i) \<in> set sites" if "c < length ns" "p < length (n_args (ns ! c))" "n_args (ns ! c) ! p = (KN, j)" for c p
  proof -
    have "(c, p) \<in> set (map (\<lambda>(c, p, i). (c, p)) sites)" unfolding us using that by (simp add: set_users_of)
    then show ?thesis by auto
  qed
  show "removable ns outs j" unfolding removable_def using j neg reads orig by fastforce
  show "foldl (apply_site (n_args (?N ! j) ! 0)) ?N sites = fold_image ns (insert j ?D)"
  proof (rule nth_equalityI)
    fix c assume "c < length (foldl (apply_site (n_args (?N ! j) ! 0)) ?N sites)"
    then have c: "c < length ns" by (simp add: apply_sites [OF dis] N)
    have nj: "n_args (?N ! j) ! 0 = neg_arg ns (KN, j)" using op [OF j] neg(1) by (simp add: neg_arg_def fold_args_def)
    show "foldl (apply_site (n_args (?N ! j) ! 0)) ?N sites ! c = fold_image ns (insert j ?D) ! c"
    proof (cases "map_of sites c")
      case None
      then have "(KN, j) \<noteq> n_args (ns ! c) ! p" if "p < length (n_args (ns ! c))" for p
        using reads [OF c that] by (force simp: map_of_eq_None_iff)
      then have nj': "(KN, j) \<notin> set (n_args (ns ! c))" unfolding in_set_conv_nth by metis
      have "fold_args ns (insert j ?D) (ns ! c) = fold_args ns ?D (ns ! c)"
      proof (cases "n_op (ns ! c) \<in> {O_fma, O_mul}")
        case True
        have "dead_ref (insert j ?D) r = dead_ref ?D r" if "r \<in> set (n_args (ns ! c))" for r
        proof -
          have "r \<noteq> (KN, j)" using that nj' by blast
          then show ?thesis by (cases r) (auto simp: dead_ref_def)
        qed
        then show ?thesis using mult_args [OF ar c True] by (auto simp: fold_args_def Let_def)
      qed (simp add: fold_args_def)
      then show ?thesis using c None by (simp add: apply_sites [OF dis] fold_image_nth N)
    next
      case (Some pi)
      obtain p i where pi: "pi = (p, i)" by (cases pi)
      have m: "(c, p, i) \<in> set sites" using Some pi by (auto dest: map_of_SomeD)
      note s = site [OF m] orig [OF m]
      obtain a b rest where args: "n_args (ns ! c) = a # b # rest" using mult_args [OF ar c] s(2) by blast
      have "fold_args ns (insert j ?D) (ns ! c) = ((n_args (ns ! c))[p := neg_arg ns (KN, j)])[1 - p := (KF, i)]"
        using s args by (auto simp: fold_args_def dead_ref_def Let_def)
      then show ?thesis using c Some same [OF m] by (simp add: apply_sites [OF dis] fold_image_nth N pi nj nj [unfolded N])
    qed
  qed (simp add: apply_sites [OF dis] N)
qed

lemma fold_node_inv:
  assumes ar: "arity_ok (skeleton ns)" and inv: "fold_inv ns outs j s" and j: "j < length ns"
  shows "fold_inv ns outs (Suc j) (fold_node np nw (users_of ns) outs s j)"
proof -
  have op: "n_op (d_nodes s ! j) = n_op (ns ! j)" using inv j by (simp add: fold_inv_def fold_image_nth)
  have keep: "fold_inv ns outs (Suc j) s" using inv by (auto simp: fold_inv_def)
  show ?thesis
  proof (cases "n_op (ns ! j) \<noteq> O_neg \<or> (KN, j) \<in> set outs \<or> users_of ns j = [] \<or> fold_sites (d_nodes s) (users_of ns j) = None")
    case True
    then show ?thesis using keep by (auto simp: fold_node_def Let_def op)
  next
    case False
    then obtain sites where s: "fold_sites (d_nodes s) (users_of ns j) = Some sites" by auto
    note i = fold_node_image [OF ar inv j _ _ s]
    show ?thesis using keep inv False i(1,2) s by (auto simp: fold_node_def Let_def op fold_inv_def)
  qed
qed

lemma fold_loop_inv:
  assumes ar: "arity_ok (skeleton ns)"
  shows "j \<le> length ns \<Longrightarrow> fold_inv ns outs j (foldl (fold_node np nw (users_of ns) outs)
    \<lparr>d_nodes = ns, d_cuse = cu, d_fuse = fu, d_dead = [], d_folds = []\<rparr> [0 ..< j])"
proof (induction j)
  case (Suc j)
  then show ?case using fold_node_inv [OF ar, of outs j _ np nw] by simp
qed (simp add: fold_inv_def)

section \<open>Renumbering\<close>

definition kept_indices :: "nat list \<Rightarrow> nat \<Rightarrow> nat list" where
  "kept_indices dead n = filter (\<lambda>j. j \<notin> set dead) [0 ..< n]"

lemma kept_nth:
  assumes "j < n" "j \<notin> set dead"
  shows "kept_indices dead n ! renum dead j = j" "renum dead j < length (kept_indices dead n)"
proof -
  have "[0 ..< n] = [0 ..< j] @ j # [Suc j ..< n]"
    using assms(1) upt_add_eq_append [of 0 j "n - j"] upt_conv_Cons [of j n] by simp
  then have "kept_indices dead n = filter (\<lambda>i. i \<notin> set dead) [0 ..< j] @ j # filter (\<lambda>i. i \<notin> set dead) [Suc j ..< n]"
    using assms(2) by (simp add: kept_indices_def)
  then show "kept_indices dead n ! renum dead j = j" "renum dead j < length (kept_indices dead n)"
    by (simp_all add: renum_def nth_append)
qed

lemma kept_member: "q < length (kept_indices dead n) \<Longrightarrow> kept_indices dead n ! q < n \<and> kept_indices dead n ! q \<notin> set dead"
  using nth_mem [of q "kept_indices dead n"] by (auto simp: kept_indices_def)

lemma kept_renum:
  assumes "q < length (kept_indices dead n)"
  shows "renum dead (kept_indices dead n ! q) = q"
proof -
  have "distinct (kept_indices dead n)" by (simp add: kept_indices_def)
  moreover note kept_nth [of "kept_indices dead n ! q" n dead] kept_member [OF assms]
  ultimately show ?thesis using assms nth_eq_iff_index_eq by blast
qed

lemma renum_less: "i < j \<Longrightarrow> i \<notin> set dead \<Longrightarrow> renum dead i < renum dead j"
  using kept_nth(2) [of i j dead] by (simp add: renum_def kept_indices_def)

definition rn :: "nat list \<Rightarrow> gref \<Rightarrow> gref" where
  "rn dead r = (if fst r = KN then (KN, renum dead (snd r)) else r)"

lemma renum_refs:
  assumes "\<And>d. d \<in> set dead \<Longrightarrow> (KN, d) \<notin> set rs"
  shows "map_r (renum_ref dead) rs = Inr (map (rn dead) rs)"
  using assms
proof (induction rs)
  case (Cons r rs)
  have "renum_ref dead r = Inr (rn dead r)" using Cons.prems [of "snd r"] by (cases r) (auto simp: renum_ref_def rn_def)
  then show ?case using Cons by simp
qed simp

lemma map_r_total: "(\<And>x. x \<in> set xs \<Longrightarrow> f x = Inr (h x)) \<Longrightarrow> map_r f xs = Inr (map h xs)"
  by (induction xs) simp_all

lemma ref_val_rn:
  assumes "\<And>i. (KN, i) \<in> set rs \<Longrightarrow> vs' (renum dead i) = vs i"
  shows "map (ref_val leaf vs') (map (rn dead) rs) = map (ref_val leaf vs) rs"
  using assms by (auto simp: ref_val_def rn_def)

text \<open>What the image reads: no removed negation, and only earlier nodes.\<close>

lemma image_reads:
  assumes t: "topo (skeleton ns)" and ar: "arity_ok (skeleton ns)" and D: "\<forall>d \<in> D. removable ns outs d" and c: "c < length ns"
    and r: "(KN, i) \<in> set (fold_args ns D (ns ! c))"
  shows "i < c" "i \<notin> D"
proof -
  have tc: "k < c'" if "c' < length ns" "(KN, k) \<in> set (n_args (ns ! c'))" for k c'
    using topo_nth [OF t, of c' k] that by simp
  have na: "k < d \<and> k \<notin> D" if d: "d \<in> D" "neg_arg ns (KN, d) = (KN, k)" for d k
  proof -
    have dl: "d < length ns" "n_op (ns ! d) = O_neg" using D d(1) by (auto simp: removable_def)
    have a: "n_args (ns ! d) = [(KN, k)]" using neg_args [OF ar dl] d(2) by simp
    have "k \<notin> D"
    proof
      assume "k \<in> D"
      then have "removable ns outs k" using D by blast
      then have "n_op (ns ! d) \<in> {O_fma, O_mul}" using dl(1) a by (force simp: removable_def)
      then show False using dl(2) by simp
    qed
    then show ?thesis using tc [OF dl(1), of k] a by simp
  qed
  have "i < c \<and> i \<notin> D"
  proof (cases rule: fold_args_cases [OF ar c D, case_names same left right])
    case same
    then show ?thesis using r tc [OF c] by auto
  next
    case (left d k rest)
    then show ?thesis using r tc [OF c] na [OF left(1), of i] by fastforce
  next
    case (right d k rest)
    then show ?thesis using r tc [OF c] na [OF right(1), of i] by fastforce
  qed
  then show "i < c" "i \<notin> D" by auto
qed

text \<open>The nodes that stay, renumbered.\<close>

definition kept_nodes :: "lnode list \<Rightarrow> nat list \<Rightarrow> lnode list" where
  "kept_nodes ns dead = map (\<lambda>j. (ns ! j)\<lparr>n_args := map (rn dead) (fold_args ns (set dead) (ns ! j))\<rparr>) (kept_indices dead (length ns))"

lemma length_kept_nodes [simp]: "length (kept_nodes ns dead) = length (kept_indices dead (length ns))"
  by (simp add: kept_nodes_def)

lemma kept_nodes_nth:
  assumes "q < length (kept_indices dead (length ns))"
  shows "n_op (kept_nodes ns dead ! q) = n_op (ns ! (kept_indices dead (length ns) ! q))"
    "n_args (kept_nodes ns dead ! q) = map (rn dead) (fold_args ns (set dead) (ns ! (kept_indices dead (length ns) ! q)))"
  using assms by (simp_all add: kept_nodes_def)

lemma kept_nodes_wf:
  assumes t: "topo (skeleton ns)" and ar: "arity_ok (skeleton ns)" and D: "\<forall>d \<in> set dead. removable ns outs d"
    and o: "out_refs_ok (skeleton ns) outs"
  shows "topo (skeleton (kept_nodes ns dead))" "arity_ok (skeleton (kept_nodes ns dead))"
    "out_refs_ok (skeleton (kept_nodes ns dead)) (map (rn dead) outs)"
proof -
  let ?K = "kept_indices dead (length ns)"
  show "topo (skeleton (kept_nodes ns dead))"
    unfolding topo_def
  proof (intro allI impI)
    fix q i assume q: "q < length (skeleton (kept_nodes ns dead))" "(KN, i) \<in> set (snd (skeleton (kept_nodes ns dead) ! q))"
    then have ql: "q < length ?K" by simp
    note k = kept_member [OF ql]
    obtain i' where i': "(KN, i') \<in> set (fold_args ns (set dead) (ns ! (?K ! q)))" "i = renum dead i'"
      using q(2) ql by (auto simp: kept_nodes_nth rn_def split: if_splits)
    show "i < q" using renum_less [OF image_reads [OF t ar D _ i'(1)]] k kept_renum [OF ql] i'(2) by simp
  qed
  show "arity_ok (skeleton (kept_nodes ns dead))"
    unfolding arity_ok_def
  proof
    fix nd assume "nd \<in> set (skeleton (kept_nodes ns dead))"
    then obtain q where q: "q < length ?K" "nd = (n_op (kept_nodes ns dead ! q), n_args (kept_nodes ns dead ! q))"
      by (auto simp: in_set_conv_nth)
    then show "length (snd nd) = ARITY (fst nd)"
      using kept_member [OF q(1)] arity_nth [OF ar, of "?K ! q"] by (simp add: kept_nodes_nth)
  qed
  show "out_refs_ok (skeleton (kept_nodes ns dead)) (map (rn dead) outs)"
    unfolding out_refs_ok_def
  proof (intro allI impI)
    fix i assume "(KN, i) \<in> set (map (rn dead) outs)"
    then obtain k where k: "(KN, k) \<in> set outs" "i = renum dead k" by (auto simp: rn_def split: if_splits)
    then have "k < length ns" "k \<notin> set dead" using o D by (auto simp: out_refs_ok_def removable_def)
    from kept_nth(2) [OF this] show "i < length (skeleton (kept_nodes ns dead))" using k(2) by simp
  qed
qed

lemma rn_nil: "rn [] = (\<lambda>r. r)"
  by (rule ext) (auto simp: rn_def renum_def)

lemma kept_all: "kept_nodes ns [] = ns"
  by (rule nth_equalityI) (simp_all add: kept_nodes_def kept_indices_def rn_nil fold_args_def dead_ref_def Let_def)

lemma fold_f_result:
  assumes t: "topo (skeleton ns)" and ar: "arity_ok (skeleton ns)" and o: "out_refs_ok (skeleton ns) outs"
  obtains dead folds where "\<forall>d \<in> set dead. removable ns outs d"
    "fold_f g ns outs w = Inr (kept_nodes ns dead, map (rn dead) outs, folds)"
proof -
  let ?s = "foldl (fold_node (length (g_param g)) w (users_of ns) outs)
     \<lparr>d_nodes = ns, d_cuse = map (const_uses ns outs) [0 ..< length (g_const g)],
      d_fuse = map (\<lambda>_. 0) (g_const g), d_dead = [], d_folds = []\<rparr> [0 ..< length ns]"
  let ?d = "d_dead ?s"
  have inv: "fold_inv ns outs (length ns) ?s" by (rule fold_loop_inv [OF ar]) simp
  then have D: "\<forall>d \<in> set ?d. removable ns outs d" and N: "d_nodes ?s = fold_image ns (set ?d)" by (auto simp: fold_inv_def)
  show ?thesis
  proof (cases "?d = []")
    case True
    then show ?thesis using that [of "[]" "[]"] True by (simp add: fold_f_def Let_def kept_all rn_nil)
  next
    case False
    have "map_r (renum_node ?d) (map ((!) (d_nodes ?s)) (kept_indices ?d (length ns))) = Inr (kept_nodes ns ?d)"
    proof -
      have "renum_node ?d (d_nodes ?s ! j) = Inr ((ns ! j)\<lparr>n_args := map (rn ?d) (fold_args ns (set ?d) (ns ! j))\<rparr>)"
        if "j < length ns" for j
      proof -
        have "map_r (renum_ref ?d) (fold_args ns (set ?d) (ns ! j)) = Inr (map (rn ?d) (fold_args ns (set ?d) (ns ! j)))"
          using image_reads(2) [OF t ar D that] by (intro renum_refs) blast
        then show ?thesis using that by (simp add: renum_node_def N fold_image_nth)
      qed
      then show ?thesis unfolding kept_nodes_def map_map o_def [symmetric]
        by (subst map_r_total [where h = "\<lambda>nd. nd\<lparr>n_args := map (rn ?d) (n_args nd)\<rparr>"])
          (auto simp: kept_indices_def N fold_image_nth)
    qed
    moreover have "map_r (renum_ref ?d) outs = Inr (map (rn ?d) outs)"
      using D by (intro renum_refs) (auto simp: removable_def)
    ultimately show ?thesis using that [OF D] False by (simp add: fold_f_def Let_def kept_indices_def)
  qed
qed

context flipping_ops
begin

lemma kept_valuation:
  assumes t: "topo (skeleton ns)" and ar: "arity_ok (skeleton ns)" and D: "\<forall>d \<in> set dead. removable ns outs d"
    and e: "evals sem leaf (skeleton (fold_image ns (set dead))) vs fs"
  shows "evals sem leaf (skeleton (kept_nodes ns dead)) (\<lambda>q. vs (kept_indices dead (length ns) ! q)) (\<lambda>q. fs (kept_indices dead (length ns) ! q))"
  unfolding evals_def
proof (intro allI impI)
  let ?K = "kept_indices dead (length ns)"
  fix q assume "q < length (skeleton (kept_nodes ns dead))"
  then have q: "q < length ?K" by simp
  note k = kept_member [OF q]
  have m: "map (ref_val leaf (\<lambda>q. vs (?K ! q))) (map (rn dead) (fold_args ns (set dead) (ns ! (?K ! q))))
    = map (ref_val leaf vs) (fold_args ns (set dead) (ns ! (?K ! q)))"
  proof (rule ref_val_rn)
    fix i assume i: "(KN, i) \<in> set (fold_args ns (set dead) (ns ! (?K ! q)))"
    have "i < length ns" "i \<notin> set dead" using image_reads [OF t ar D _ i] k by auto
    then show "vs (?K ! renum dead i) = vs i" by (simp add: kept_nth)
  qed
  show "sem (fst (skeleton (kept_nodes ns dead) ! q)) (map (ref_val leaf (\<lambda>q. vs (?K ! q))) (snd (skeleton (kept_nodes ns dead) ! q)))
    = Inr (vs (?K ! q), fs (?K ! q))"
    using e k q by (simp add: evals_def kept_nodes_nth fold_image_nth m del: map_map)
qed

lemma image_valuation:
  assumes t: "topo (skeleton ns)" and ar: "arity_ok (skeleton ns)" and D: "\<forall>d \<in> set dead. removable ns outs d"
    and e: "evals sem leaf (skeleton (kept_nodes ns dead)) vs fs"
  defines "vs1 \<equiv> \<lambda>j. if j \<in> set dead then flip (ref_val leaf (\<lambda>j. vs (renum dead j)) (neg_arg ns (KN, j))) else vs (renum dead j)"
    and "fs1 \<equiv> \<lambda>j. if j \<in> set dead then 0 else fs (renum dead j)"
  shows "evals sem leaf (skeleton (fold_image ns (set dead))) vs1 fs1"
  unfolding evals_def
proof (intro allI impI)
  let ?K = "kept_indices dead (length ns)"
  fix j assume "j < length (skeleton (fold_image ns (set dead)))"
  then have j: "j < length ns" by simp
  let ?a = "fold_args ns (set dead) (ns ! j)"
  have alive: "i \<notin> set dead" if "(KN, i) \<in> set ?a" for i by (rule image_reads(2) [OF t ar D j that])
  have m: "map (ref_val leaf vs) (map (rn dead) ?a) = map (ref_val leaf vs1) ?a"
    by (rule ref_val_rn) (simp add: vs1_def alive)
  have "sem (n_op (ns ! j)) (map (ref_val leaf vs1) ?a) = Inr (vs1 j, fs1 j)"
  proof (cases "j \<in> set dead")
    case True
    then have r: "n_op (ns ! j) = O_neg" using D by (auto simp: removable_def)
    then have a: "?a = [neg_arg ns (KN, j)]" using neg_args [OF ar j] by (simp add: fold_args_def)
    have "ref_val leaf vs1 (neg_arg ns (KN, j)) = ref_val leaf (\<lambda>j. vs (renum dead j)) (neg_arg ns (KN, j))"
      using alive [of "snd (neg_arg ns (KN, j))"] a by (cases "neg_arg ns (KN, j)") (auto simp: ref_val_def vs1_def)
    then show ?thesis using True by (simp add: r a neg_flips vs1_def fs1_def)
  next
    case False
    note k = kept_nth [OF j False]
    have "sem (n_op (ns ! j)) (map (ref_val leaf vs) (map (rn dead) ?a)) = Inr (vs (renum dead j), fs (renum dead j))"
      using e [unfolded evals_def, rule_format, of "renum dead j"] k by (simp add: kept_nodes_nth del: map_map)
    then show ?thesis using False by (simp add: m vs1_def fs1_def del: map_map)
  qed
  then show "sem (fst (skeleton (fold_image ns (set dead)) ! j)) (map (ref_val leaf vs1) (snd (skeleton (fold_image ns (set dead)) ! j)))
    = Inr (vs1 j, fs1 j)" using j by (simp add: fold_image_nth)
qed

theorem fold_invisible:
  assumes t: "topo (skeleton ns)" and ar: "arity_ok (skeleton ns)" and o: "out_refs_ok (skeleton ns) outs"
    and flips: "\<And>i. leaf (KF, i) = flip (leaf (KC, i))"
    and f: "fold_f g ns outs w = Inr (ns', outs', folds)"
  shows "step_result sem leaf (skeleton ns') outs' = Inr y \<longleftrightarrow> step_result sem leaf (skeleton ns) outs = Inr y"
    and "topo (skeleton ns')" "arity_ok (skeleton ns')" "out_refs_ok (skeleton ns') outs'"
proof -
  obtain dead where D: "\<forall>d \<in> set dead. removable ns outs d" and e: "ns' = kept_nodes ns dead" "outs' = map (rn dead) outs"
    using fold_f_result [OF t ar o, of g w] f by (metis Inr_inject prod.inject)
  note wf = kept_nodes_wf [OF t ar D o]
  then show "topo (skeleton ns')" "arity_ok (skeleton ns')" "out_refs_ok (skeleton ns') outs'" by (simp_all add: e)
  let ?K = "kept_indices dead (length ns)" and ?n = "length ns"
  have alive: "i < ?n \<and> i \<notin> set dead" if "(KN, i) \<in> set outs" for i
    using o D that by (auto simp: out_refs_ok_def removable_def)
  note same = image_same_valuations [OF ar D flips]
  show "step_result sem leaf (skeleton ns') outs' = Inr y \<longleftrightarrow> step_result sem leaf (skeleton ns) outs = Inr y"
  proof
    assume "step_result sem leaf (skeleton ns') outs' = Inr y"
    then obtain vs fs where v: "evals sem leaf (skeleton (kept_nodes ns dead)) vs fs"
      "y = (map (ref_val leaf vs) (map (rn dead) outs), or_all (map fs [0 ..< length ?K]))"
      unfolding e step_result_iff [OF wf(1,3)] by auto
    let ?v = "\<lambda>j. if j \<in> set dead then flip (ref_val leaf (\<lambda>j. vs (renum dead j)) (neg_arg ns (KN, j))) else vs (renum dead j)"
    let ?f = "\<lambda>j. if j \<in> set dead then 0 else fs (renum dead j)"
    have ev: "evals sem leaf (skeleton ns) ?v ?f" using image_valuation [OF t ar D v(1)] same by blast
    have "map (ref_val leaf vs) (map (rn dead) outs) = map (ref_val leaf ?v) outs"
      by (rule ref_val_rn) (simp add: alive)
    moreover have "or_all (map fs [0 ..< length ?K]) = or_all (map ?f [0 ..< ?n])"
    proof (rule or_all_zeros [symmetric])
      show "set (map fs [0 ..< length ?K]) \<subseteq> set (map ?f [0 ..< ?n])"
      proof
        fix x assume "x \<in> set (map fs [0 ..< length ?K])"
        then obtain q where "q < length ?K" "x = fs q" by auto
        then show "x \<in> set (map ?f [0 ..< ?n])"
          using kept_member [of q dead ?n] kept_renum [of q dead ?n] by (auto intro!: image_eqI [of _ _ "?K ! q"])
      qed
    next
      fix x assume "x \<in> set (map ?f [0 ..< ?n])"
      then obtain j where j: "j < ?n" "x = ?f j" by auto
      then show "x \<in> set (map fs [0 ..< length ?K]) \<or> x = 0" using kept_nth(2) [of j ?n dead] by auto
    qed
    ultimately show "step_result sem leaf (skeleton ns) outs = Inr y" using ev v(2) unfolding step_result_iff [OF t o] by auto
  next
    assume "step_result sem leaf (skeleton ns) outs = Inr y"
    then obtain vs fs where v: "evals sem leaf (skeleton ns) vs fs" "y = (map (ref_val leaf vs) outs, or_all (map fs [0 ..< ?n]))"
      unfolding step_result_iff [OF t o] by auto
    have ev: "evals sem leaf (skeleton (kept_nodes ns dead)) (\<lambda>q. vs (?K ! q)) (\<lambda>q. fs (?K ! q))"
      by (rule kept_valuation [OF t ar D]) (use v(1) same in blast)
    have "map (ref_val leaf (\<lambda>q. vs (?K ! q))) (map (rn dead) outs) = map (ref_val leaf vs) outs"
      by (rule ref_val_rn) (simp add: kept_nth(1) [of _ ?n dead] alive)
    moreover have "or_all (map (\<lambda>q. fs (?K ! q)) [0 ..< length ?K]) = or_all (map fs [0 ..< ?n])"
    proof (rule or_all_zeros [symmetric])
      show "set (map (\<lambda>q. fs (?K ! q)) [0 ..< length ?K]) \<subseteq> set (map fs [0 ..< ?n])"
        using kept_member [of _ dead ?n] by auto
    next
      fix x assume "x \<in> set (map fs [0 ..< ?n])"
      then obtain j where j: "j < ?n" "x = fs j" by auto
      show "x \<in> set (map (\<lambda>q. fs (?K ! q)) [0 ..< length ?K]) \<or> x = 0"
      proof (cases "j \<in> set dead")
        case True
        then have r: "n_op (ns ! j) = O_neg" using D by (auto simp: removable_def)
        then have "x = 0" using v(1) j neg_args [OF ar j(1) r] by (auto simp: evals_def neg_flips dest!: spec [of _ j])
        then show ?thesis ..
      next
        case False
        then show ?thesis using kept_nth [OF j(1) False] j(2) by (auto intro!: image_eqI [of _ _ "renum dead j"])
      qed
    qed
    ultimately have y: "y = (map (ref_val leaf (\<lambda>q. vs (?K ! q))) outs', or_all (map (\<lambda>q. fs (?K ! q)) [0 ..< length (skeleton ns')]))"
      using v(2) unfolding e by simp
    have "evals sem leaf (skeleton ns') (\<lambda>q. vs (?K ! q)) (\<lambda>q. fs (?K ! q)) \<and> y = (map (ref_val leaf (\<lambda>q. vs (?K ! q))) outs', or_all (map (\<lambda>q. fs (?K ! q)) [0 ..< length (skeleton ns')]))"
      using ev y by (simp add: e)
    then show "step_result sem leaf (skeleton ns') outs' = Inr y" unfolding step_result_iff [OF wf(1,3) [folded e]] by blast
  qed
qed

end

end
