(* ===== verification/GraphRight.thy ===== *)
theory GraphRight
  imports ShareRight
begin

text \<open>
  What the compiler's reader accepts is a graph: every operation has its count of operands, every node reads leaves
  that exist and earlier nodes, and there is one output for each component of the extended state.
\<close>

definition ref_in :: "cgraph \<Rightarrow> nat \<Rightarrow> gref \<Rightarrow> bool" where
  "ref_in g before r \<longleftrightarrow>
    (case fst r of KS \<Rightarrow> snd r < g_n_state g | KL \<Rightarrow> snd r < length (g_lane g) | KP \<Rightarrow> snd r < length (g_param g)
     | KC \<Rightarrow> snd r < length (g_const g) | KN \<Rightarrow> snd r < before | _ \<Rightarrow> False)"

definition nodes_ok :: "cgraph \<Rightarrow> bool" where
  "nodes_ok g \<longleftrightarrow> (\<forall>k < length (g_nodes g). case g_nodes g ! k of (op, args, label) \<Rightarrow>
     length args = ARITY op \<and> (\<forall>r \<in> set args. ref_in g k r))"

definition graph_ok :: "cgraph \<Rightarrow> bool" where
  "graph_ok g \<longleftrightarrow> nodes_ok g \<and> (\<forall>r \<in> set (g_outs g). ref_in g (length (g_nodes g)) r)
    \<and> g_n_state g = g_n_primal g * (length (g_tangent g) + 1)
    \<and> length (g_outs g) = g_n_primal g * (length (g_tangent g) + 1)"

text \<open>What one graph shares with another it was extended to.\<close>

definition same_tables :: "cgraph \<Rightarrow> cgraph \<Rightarrow> bool" where
  "same_tables g g' \<longleftrightarrow> g_n_state g' = g_n_state g \<and> g_lane g' = g_lane g \<and> g_param g' = g_param g \<and> g_const g' = g_const g
    \<and> g_n_primal g' = g_n_primal g \<and> g_tangent g' = g_tangent g \<and> g_fmt g' = g_fmt g \<and> g_rnd g' = g_rnd g"

lemma same_tables_refl [simp]: "same_tables g g" and same_tables_trans: "same_tables g h \<Longrightarrow> same_tables h k \<Longrightarrow> same_tables g k"
  by (simp_all add: same_tables_def)

lemma ref_in_tables: "same_tables g g' \<Longrightarrow> ref_in g' b r = ref_in g b r"
  by (auto simp: ref_in_def same_tables_def split: rkind.split)

lemma ref_in_mono: "ref_in g b r \<Longrightarrow> b \<le> b' \<Longrightarrow> ref_in g b' r"
  by (auto simp: ref_in_def split: rkind.splits)

lemma parse_ref_kind: "parse_ref t = Inr r \<Longrightarrow> fst r \<in> {KS, KL, KP, KC, KN}"
  by (auto simp: parse_ref_def Let_def split: option.splits if_splits)

lemma check_ref_in: "check_ref g r b = Inr u \<Longrightarrow> fst r \<in> {KS, KL, KP, KC, KN} \<Longrightarrow> ref_in g b r"
  by (auto simp: check_ref_def ref_in_def Let_def split: if_splits)

lemma map_r_set: "map_r f xs = Inr ys \<Longrightarrow> y \<in> set ys \<Longrightarrow> \<exists>x \<in> set xs. f x = Inr y"
  by (induction xs arbitrary: ys) (auto simp: bind_r_eq_Inr)

lemma map_r_all: "map_r f xs = Inr ys \<Longrightarrow> x \<in> set xs \<Longrightarrow> \<exists>y. f x = Inr y"
  by (induction xs arbitrary: ys) (auto simp: bind_r_eq_Inr)

lemma map_r_length: "map_r f xs = Inr ys \<Longrightarrow> length ys = length xs"
  by (simp add: map_r_Inr)

lemma read_refs_in:
  assumes "map_r parse_ref ts = Inr refs" "map_r (\<lambda>r. check_ref g r b) refs = Inr us" "r \<in> set refs"
  shows "ref_in g b r"
proof -
  obtain t where "parse_ref t = Inr r" using map_r_set [OF assms(1,3)] by blast
  moreover obtain u where "check_ref g r b = Inr u" using map_r_all [OF assms(2,3)] by blast
  ultimately show ?thesis by (intro check_ref_in parse_ref_kind)
qed

lemma nodes_ok_snoc:
  assumes "nodes_ok g" "same_tables g g'" "g_nodes g' = g_nodes g @ [(op, args, label)]" "length args = ARITY op"
    "\<And>r. r \<in> set args \<Longrightarrow> ref_in g (length (g_nodes g)) r"
  shows "nodes_ok g'"
  using assms by (auto simp: nodes_ok_def nth_append less_Suc_eq ref_in_tables)

text \<open>The primal step.\<close>

lemma append_node_ok:
  assumes "append_node g nd = Inr g'" "nodes_ok g"
  shows "nodes_ok g' \<and> same_tables g g' \<and> g_outs g' = g_outs g \<and> length (g_nodes g') = Suc (length (g_nodes g))"
proof -
  obtain op args label where nd: "nd = (op, args, label)" by (cases nd)
  obtain opn refs us where r: "length args = ARITY opn" "map_r parse_ref args = Inr refs"
    "map_r (\<lambda>r. check_ref g r (length (g_nodes g))) refs = Inr us" "g' = g\<lparr>g_nodes := g_nodes g @ [(opn, refs, label)]\<rparr>"
    using assms(1) by (auto simp: append_node_def read_node_def nd bind_r_eq_Inr split: option.splits if_splits)
  have s: "same_tables g g'" by (simp add: r(4) same_tables_def)
  have "nodes_ok g'"
    by (rule nodes_ok_snoc [OF assms(2) s, of opn refs label])
      (use r map_r_length [OF r(2)] read_refs_in [OF r(2,3)] in auto)
  then show ?thesis using s by (simp add: r(4))
qed

lemma append_nodes_ok:
  "fold_r append_node g nds = Inr g' \<Longrightarrow> nodes_ok g
    \<Longrightarrow> nodes_ok g' \<and> same_tables g g' \<and> g_outs g' = g_outs g \<and> length (g_nodes g') = length (g_nodes g) + length nds"
proof (induction nds arbitrary: g)
  case (Cons nd nds)
  then obtain h where h: "append_node g nd = Inr h" "fold_r append_node h nds = Inr g'" by (auto simp: bind_r_eq_Inr)
  have "nodes_ok h \<and> same_tables g h \<and> g_outs h = g_outs g \<and> length (g_nodes h) = Suc (length (g_nodes g))"
    by (rule append_node_ok [OF h(1) Cons.prems(2)])
  then show ?case using Cons.IH [OF h(2)] same_tables_trans by auto
qed simp

lemma read_outs_ok:
  assumes "read_outs g out = Inr g'" "nodes_ok g"
  shows "nodes_ok g' \<and> same_tables g g' \<and> g_nodes g' = g_nodes g \<and> g_primal_step_nodes g' = length (g_nodes g)
    \<and> length (g_outs g') = g_n_primal g \<and> (\<forall>r \<in> set (g_outs g'). ref_in g (length (g_nodes g)) r)"
proof -
  obtain outs us where r: "map_r parse_ref out = Inr outs" "length outs = g_n_primal g"
    "map_r (\<lambda>r. check_ref g r (length (g_nodes g))) outs = Inr us"
    "g' = g\<lparr>g_outs := outs, g_primal_step_nodes := length (g_nodes g)\<rparr>"
    using assms(1) by (auto simp: read_outs_def bind_r_eq_Inr split: if_splits)
  have s: "same_tables g g'" by (simp add: r(4) same_tables_def)
  have "nodes_ok g'" using assms(2) ref_in_tables [OF s] by (simp add: r(4) nodes_ok_def)
  then show ?thesis using read_refs_in [OF r(1,3)] r(2) s by (auto simp: r(4))
qed

text \<open>The tangent copies.\<close>

definition growing :: "cgraph \<Rightarrow> bool" where
  "growing g \<longleftrightarrow> nodes_ok g \<and> (\<forall>r \<in> set (g_outs g). ref_in g (length (g_nodes g)) r)
    \<and> g_n_state g = g_n_primal g * (length (g_tangent g) + 1) \<and> g_primal_step_nodes g \<le> length (g_nodes g)"

lemma tangent_ref_in:
  assumes "tangent_ref g k base t before = Inr r" "k < length (g_tangent g)"
    "g_n_state g = g_n_primal g * (length (g_tangent g) + 1)" "g_primal_step_nodes g \<le> base"
  shows "ref_in g (base + before) r"
proof -
  obtain kind where kd: "t \<noteq> []" "kind_of_letter (hd t) = Some kind" "kind \<in> {KS, KL, KP, KC, KN, KT, KD}"
    using assms(1) by (auto simp: tangent_ref_def Let_def kind_of_letter_def split: option.splits if_splits)
  have sn: "g_n_primal g * (k + 1) + i < g_n_state g" if "i < g_n_primal g" for i
  proof -
    have "g_n_primal g * (k + 1) + i < g_n_primal g * (k + 2)" using that by simp
    also have "\<dots> \<le> g_n_primal g * (length (g_tangent g) + 1)" using assms(2) by (intro mult_le_mono) simp_all
    finally show ?thesis by (simp add: assms(3))
  qed
  have leaf: "ref_in g (base + before) (kd, i)" if "check_ref g (kd, i) 0 = Inr u" "kd \<in> {KS, KL, KP, KC}" for kd i u
    using check_ref_in [OF that(1)] that(2) by (auto simp: ref_in_def)
  define i where "i = nat (int_of 10 (drop 1 t))"
  have e: "(case kind of
            KT \<Rightarrow> if g_n_primal g \<le> i then Inl InternalError else Inr (KS, g_n_primal g * (k + 1) + i)
          | KD \<Rightarrow> if before \<le> i then Inl InternalError else Inr (KN, base + i)
          | KN \<Rightarrow> if g_primal_step_nodes g \<le> i then Inl InternalError else Inr (KN, i)
          | _ \<Rightarrow> bind_r (check_ref g (kind, i) 0) (\<lambda>_. Inr (kind, i))) = Inr r"
  proof -
    have "isdigit (drop 1 t)" using assms(1) kd by (auto simp: tangent_ref_def Let_def split: if_splits)
    then show ?thesis using assms(1) kd(1,2) unfolding tangent_ref_def Let_def i_def [symmetric] by simp
  qed
  show ?thesis
  proof (cases kind)
    case KT
    then show ?thesis using e sn [of i] by (auto simp: ref_in_def split: if_splits)
  next
    case KD
    then show ?thesis using e by (auto simp: ref_in_def split: if_splits)
  next
    case KN
    then show ?thesis using e assms(4) by (auto simp: ref_in_def split: if_splits)
  qed (use e kd(3) leaf in \<open>auto simp: bind_r_eq_Inr\<close>)
qed

lemma tangent_node_ok:
  assumes "tangent_node k base g (j, op, args, label) = Inr g'" "growing g" "k < length (g_tangent g)"
    "length (g_nodes g) = base + j" "g_primal_step_nodes g \<le> base"
  shows "growing g' \<and> same_tables g g' \<and> g_outs g' = g_outs g \<and> length (g_nodes g') = base + Suc j
    \<and> g_primal_step_nodes g' = g_primal_step_nodes g"
proof -
  obtain opn refs where r: "length args = ARITY opn" "map_r (\<lambda>a. tangent_ref g k base a j) args = Inr refs"
    "g' = g\<lparr>g_nodes := g_nodes g @ [(opn, refs, map_option (\<lambda>l. g_tangent g ! k @ ''.'' @ l) label)]\<rparr>"
    using assms(1) by (auto simp: tangent_node_def bind_r_eq_Inr split: option.splits if_splits)
  have s: "same_tables g g'" by (simp add: r(3) same_tables_def)
  have "nodes_ok g'"
  proof (rule nodes_ok_snoc [OF _ s, of opn refs])
    fix x assume "x \<in> set refs"
    then obtain t where "tangent_ref g k base t j = Inr x" using map_r_set [OF r(2)] by blast
    from tangent_ref_in [OF this assms(3) _ assms(5)] assms(2,4) show "ref_in g (length (g_nodes g)) x" by (simp add: growing_def)
  qed (use r map_r_length [OF r(2)] assms(2) in \<open>auto simp: growing_def\<close>)
  moreover have "\<forall>x \<in> set (g_outs g). ref_in g (length (g_nodes g')) x"
    using assms(2) ref_in_mono by (fastforce simp: growing_def r(3))
  ultimately show ?thesis using assms(2,4) s ref_in_tables [OF s] by (simp add: growing_def r(3) same_tables_def)
qed

lemma tangent_nodes_ok:
  "fold_r (tangent_node k base) g (enumerate j nds) = Inr g' \<Longrightarrow> growing g \<Longrightarrow> k < length (g_tangent g)
    \<Longrightarrow> length (g_nodes g) = base + j \<Longrightarrow> g_primal_step_nodes g \<le> base
    \<Longrightarrow> growing g' \<and> same_tables g g' \<and> g_outs g' = g_outs g \<and> length (g_nodes g') = base + j + length nds
      \<and> g_primal_step_nodes g' = g_primal_step_nodes g"
proof (induction nds arbitrary: g j)
  case (Cons nd nds)
  obtain op args label where nd: "nd = (op, args, label)" by (cases nd)
  obtain h where h: "tangent_node k base g (j, op, args, label) = Inr h" "fold_r (tangent_node k base) h (enumerate (Suc j) nds) = Inr g'"
    using Cons.prems(1) by (auto simp: bind_r_eq_Inr nd)
  have o: "growing h \<and> same_tables g h \<and> g_outs h = g_outs g \<and> length (g_nodes h) = base + Suc j
    \<and> g_primal_step_nodes h = g_primal_step_nodes g" by (rule tangent_node_ok [OF h(1) Cons.prems(2-5)])
  then have "k < length (g_tangent h)" using Cons.prems(3) by (simp add: same_tables_def)
  from Cons.IH [OF h(2) _ this] o Cons.prems(5) show ?case using same_tables_trans by auto
qed simp

lemma tangent_copy_ok:
  assumes "tangent_copy ts g k = Inr g'" "growing g" "k < length (g_tangent g)"
  shows "growing g' \<and> same_tables g g' \<and> length (g_outs g') = length (g_outs g) + g_n_primal g"
proof -
  let ?b = "length (g_nodes g)"
  obtain h outs where h: "fold_r (tangent_node k ?b) g (enumerate 0 (o_nodes ts)) = Inr h"
    "map_r (\<lambda>a. tangent_ref h k ?b a (length (o_nodes ts))) (o_out ts) = Inr outs" "length outs = g_n_primal g"
    "g' = h\<lparr>g_outs := g_outs h @ outs\<rparr>"
    using assms(1) by (auto simp: tangent_copy_def Let_def bind_r_eq_Inr split: if_splits)
  have o: "growing h \<and> same_tables g h \<and> g_outs h = g_outs g \<and> length (g_nodes h) = ?b + length (o_nodes ts)
      \<and> g_primal_step_nodes h = g_primal_step_nodes g"
    using tangent_nodes_ok [OF h(1) assms(2,3)] assms(2) by (auto simp: growing_def)
  have "ref_in h (length (g_nodes h)) r" if r: "r \<in> set outs" for r
  proof -
    obtain t where "tangent_ref h k ?b t (length (o_nodes ts)) = Inr r" using map_r_set [OF h(2) r] by blast
    from tangent_ref_in [OF this] o assms(2,3) show ?thesis by (simp add: growing_def same_tables_def)
  qed
  moreover have t: "same_tables h g'" by (simp add: h(4) same_tables_def)
  ultimately show ?thesis using o h(3) same_tables_trans [of g h g'] ref_in_tables [OF t]
    by (auto simp: h(4) growing_def nodes_ok_def same_tables_def)
qed

lemma tangent_copies_ok:
  "fold_r (tangent_copy ts) g ks = Inr g' \<Longrightarrow> growing g \<Longrightarrow> \<forall>k \<in> set ks. k < length (g_tangent g)
    \<Longrightarrow> growing g' \<and> same_tables g g' \<and> length (g_outs g') = length (g_outs g) + length ks * g_n_primal g"
proof (induction ks arbitrary: g)
  case (Cons k ks)
  then obtain h where h: "tangent_copy ts g k = Inr h" "fold_r (tangent_copy ts) h ks = Inr g'" by (auto simp: bind_r_eq_Inr)
  have o: "growing h \<and> same_tables g h \<and> length (g_outs h) = length (g_outs g) + g_n_primal g"
    using tangent_copy_ok [OF h(1) Cons.prems(2)] Cons.prems(3) by simp
  then have "\<forall>k \<in> set ks. k < length (g_tangent h)" using Cons.prems(3) by (simp add: same_tables_def)
  from Cons.IH [OF h(2) _ this] o show ?case using same_tables_trans by (auto simp: same_tables_def)
qed simp

lemma if_Inl_Inr: "(if b then Inl e else x) = Inr y \<longleftrightarrow> \<not> b \<and> x = Inr y"
  by simp

theorem reader_accepts_graphs:
  assumes "Graph obj = Inr g"
  shows "graph_ok g"
proof -
  let ?p = "primal_names (j_state obj)"
  obtain fmt rnd tangent lane param h cs g1 g2 and stp :: obj_section where
    g1: "fold_r append_node \<lparr>g_version = j_version obj, g_fmt = fmt, g_rnd = rnd,
        g_components = ?p @ concat (map (\<lambda>vec. map (\<lambda>c. vec @ ''.'' @ c) ?p) tangent),
        g_tangent = tangent, g_n_primal = length ?p,
        g_n_state = length (?p @ concat (map (\<lambda>vec. map (\<lambda>c. vec @ ''.'' @ c) ?p) tangent)),
        g_lane = lane, g_param = param, g_integrator = (fst (j_integrator obj), h), g_const = cs, g_nodes = [], g_outs = [],
        g_primal_step_nodes = 0\<rparr> (o_nodes stp) = Inr g1"
    and g2: "read_outs g1 (o_out stp) = Inr g2"
    and fin: "(if tangent \<noteq> [] then bind_r (section_of (j_tangent_step obj)) (cftc_tangent g2) else Inr g2) = Inr g"
    using assms unfolding Graph_def Let_def if_Inl_Inr bind_r_eq_Inr by (elim exE conjE) (rule that, assumption+)
  let ?c = "?p @ concat (map (\<lambda>vec. map (\<lambda>c. vec @ ''.'' @ c) ?p) tangent)"
  let ?g0 = "\<lparr>g_version = j_version obj, g_fmt = fmt, g_rnd = rnd, g_components = ?c, g_tangent = tangent, g_n_primal = length ?p,
        g_n_state = length ?c, g_lane = lane, g_param = param, g_integrator = (fst (j_integrator obj), h), g_const = cs,
        g_nodes = [], g_outs = [], g_primal_step_nodes = 0\<rparr>"
  have lc: "length ?c = length ?p * (length tangent + 1)" by (induction tangent) simp_all
  have o1: "nodes_ok g1 \<and> same_tables ?g0 g1 \<and> g_outs g1 = g_outs ?g0 \<and> length (g_nodes g1) = length (g_nodes ?g0) + length (o_nodes stp)"
    by (rule append_nodes_ok [OF g1]) (simp add: nodes_ok_def)
  then have o2: "nodes_ok g2 \<and> same_tables g1 g2 \<and> g_nodes g2 = g_nodes g1 \<and> g_primal_step_nodes g2 = length (g_nodes g1)
    \<and> length (g_outs g2) = g_n_primal g1 \<and> (\<forall>r \<in> set (g_outs g2). ref_in g1 (length (g_nodes g1)) r)"
    by (intro read_outs_ok [OF g2]) simp
  have tb: "same_tables ?g0 g2" using o1 o2 same_tables_trans by blast
  have tg: "g_tangent g2 = tangent" "g_n_primal g2 = length ?p" "g_n_state g2 = length ?p * (length tangent + 1)"
    using tb lc by (simp_all add: same_tables_def)
  have "same_tables g1 g2" using o2 by blast
  note rt = ref_in_tables [OF this]
  have gr: "growing g2" using o2 tg unfolding growing_def rt by simp
  show ?thesis
  proof (cases "tangent = []")
    case True
    then have "g = g2" using fin by simp
    then show ?thesis using gr o2 tg True o1 by (simp add: graph_ok_def growing_def same_tables_def)
  next
    case False
    then obtain ts where "fold_r (tangent_copy ts) g2 [0 ..< length (g_tangent g2)] = Inr g"
      using fin by (auto simp: bind_r_eq_Inr cftc_tangent_def)
    from tangent_copies_ok [OF this gr] have "growing g \<and> same_tables g2 g
      \<and> length (g_outs g) = length (g_outs g2) + length (g_tangent g2) * g_n_primal g2" by simp
    then show ?thesis using o2 o1 tg by (auto simp: graph_ok_def growing_def same_tables_def)
  qed
qed

section \<open>The graph as nodes\<close>

lemma graph_topo: "graph_ok g \<Longrightarrow> topo (graph_skeleton g)"
  unfolding topo_def graph_skeleton_def graph_ok_def nodes_ok_def
  by (fastforce simp: case_prod_beta ref_in_def)

lemma graph_arity: "graph_ok g \<Longrightarrow> arity_ok (graph_skeleton g)"
  unfolding arity_ok_def graph_skeleton_def graph_ok_def nodes_ok_def
  by (auto simp: in_set_conv_nth) (metis (mono_tags, lifting) case_prod_conv)

lemma graph_outs: "graph_ok g \<Longrightarrow> out_refs_ok (graph_skeleton g) (g_outs g)"
  unfolding out_refs_ok_def graph_ok_def by (fastforce simp: ref_in_def)

end
