(* ===== verification/StepAgree.thy ===== *)
theory StepAgree
  imports Interp FoldRight GraphRight CharsTrip
begin

text \<open>
  The reference interpreter and the compiler's graph agree. The interpreter numbers slots and runs a program of
  them, once for the primal step and once for each tangent vector over the same slots; the compiler writes the
  vectors out as copies of the tangent section. One step of a lane is the step of the graph the compiler read.
\<close>

section \<open>The program of a section, run\<close>

text \<open>Code over slots that are natural numbers.\<close>

definition int_code :: "(gop \<times> nat list) list \<Rightarrow> code" where
  "int_code nc = map (\<lambda>(f, ss). (f, map int ss)) nc"

text \<open>Every node reads slots that exist and are not written by a later node of the code.\<close>

definition slots_ok :: "(gop \<times> nat list) list \<Rightarrow> nat \<Rightarrow> nat \<Rightarrow> bool" where
  "slots_ok nc k L \<longleftrightarrow> k + length nc \<le> L \<and>
    (\<forall>j < length nc. length (snd (nc ! j)) \<in> {1, 2, 3} \<and> (\<forall>s \<in> set (snd (nc ! j)). s < L \<and> (s < k + j \<or> k + length nc \<le> s)))"

lemma map_r_py_index:
  "\<forall>s \<in> set ss. s < length v \<Longrightarrow> map_r (py_index v) (map int ss) = Inr (map ((!) v) ss)"
  by (induction ss) simp_all

lemma operands_slots:
  assumes "length ss \<in> {1, 2, 3}" "\<forall>s \<in> set ss. s < length v"
  shows "operands v (map int ss) = Inr (map ((!) v) ss)"
proof (cases "length ss = 1")
  case True
  then obtain s where s: "ss = [s]" by (auto simp: length_Suc_conv)
  have "py_index [int s] 0 = Inr (int s)" by (simp add: py_index_def)
  then show ?thesis using assms(2) by (simp add: operands_def s)
next
  case False
  then show ?thesis using assms map_r_py_index by (auto simp: operands_def)
qed

lemma slots_ok_Cons:
  assumes "slots_ok ((f, ss) # nc) k L"
  shows "slots_ok nc (Suc k) L" "k < L" "length ss \<in> {1, 2, 3}" "\<forall>s \<in> set ss. s < L \<and> (s < k \<or> Suc (k + length nc) \<le> s)"
proof -
  have a: "Suc (k + length nc) \<le> L"
    "\<And>j. j < Suc (length nc) \<Longrightarrow> length (snd (((f, ss) # nc) ! j)) \<in> {1, 2, 3} \<and>
      (\<forall>s \<in> set (snd (((f, ss) # nc) ! j)). s < L \<and> (s < k + j \<or> Suc (k + length nc) \<le> s))"
    using assms by (simp_all add: slots_ok_def)
  show "k < L" using a(1) by simp
  show "length ss \<in> {1, 2, 3}" "\<forall>s \<in> set ss. s < L \<and> (s < k \<or> Suc (k + length nc) \<le> s)" using a(2) [of 0] by simp_all
  have "length (snd (nc ! j)) \<in> {1, 2, 3} \<and> (\<forall>s \<in> set (snd (nc ! j)). s < L \<and> (s < Suc k + j \<or> Suc k + length nc \<le> s))"
    if "j < length nc" for j using a(2) [of "Suc j"] that by simp
  then show "slots_ok nc (Suc k) L" using a(1) by (simp add: slots_ok_def)
qed

lemma py_set_nat: "k < length v \<Longrightarrow> py_set v (int k) x = Inr (v[k := x])"
  by (simp add: py_set_def)

text \<open>What a run of the code leaves: each node's value in its slot, the other slots as they were.\<close>

definition code_leaves ::
  "node_sem \<Rightarrow> (gop \<times> nat list) list \<Rightarrow> nat \<Rightarrow> int list \<Rightarrow> int list \<Rightarrow> int list \<Rightarrow> bool" where
  "code_leaves fns nc k v v' fs \<longleftrightarrow> length v' = length v \<and> length fs = length nc \<and>
    (\<forall>s < length v. s < k \<or> k + length nc \<le> s \<longrightarrow> v' ! s = v ! s) \<and>
    (\<forall>j < length nc. fns (fst (nc ! j)) (map ((!) v') (snd (nc ! j))) = Inr (v' ! (k + j), fs ! j))"

lemma code_leaves_frame:
  assumes "code_leaves fns nc k v v' fs" "s < length v" "s < k \<or> k + length nc \<le> s"
  shows "v' ! s = v ! s"
  using assms unfolding code_leaves_def by (elim conjE) auto

lemma code_leaves_node:
  assumes "code_leaves fns nc k v v' fs" "j < length nc"
  shows "fns (fst (nc ! j)) (map ((!) v') (snd (nc ! j))) = Inr (v' ! (k + j), fs ! j)"
  using assms unfolding code_leaves_def by (elim conjE) auto

lemma code_leaves_Cons:
  assumes k: "k < length v" and ss: "\<forall>s \<in> set ss. s < length v \<and> (s < k \<or> Suc (k + length nc) \<le> s)"
  shows "code_leaves fns ((f, ss) # nc) k v v' fs \<longleftrightarrow>
    (\<exists>r fl1 fs'. fs = fl1 # fs' \<and> fns f (map ((!) v) ss) = Inr (r, fl1) \<and> code_leaves fns nc (Suc k) (v[k := r]) v' fs')"
    (is "?L \<longleftrightarrow> ?R")
proof
  assume l: ?L
  then obtain fl1 fs' where fs: "fs = fl1 # fs'" by (cases fs) (auto simp: code_leaves_def)
  have fr: "\<And>s. s < length v \<Longrightarrow> s < k \<or> Suc (k + length nc) \<le> s \<Longrightarrow> v' ! s = v ! s" using l unfolding code_leaves_def by (elim conjE) auto
  then have m: "map ((!) v') ss = map ((!) v) ss" using ss by simp
  have "fns f (map ((!) v') ss) = Inr (v' ! k, fl1)" using l fs unfolding code_leaves_def by (elim conjE) (drule spec [of _ 0], simp)
  moreover have "code_leaves fns nc (Suc k) (v[k := v' ! k]) v' fs'"
  proof -
    have n: "fns (fst (nc ! j)) (map ((!) v') (snd (nc ! j))) = Inr (v' ! (Suc k + j), fs' ! j)" if "j < length nc" for j
      using l fs that unfolding code_leaves_def by (elim conjE) (drule spec [of _ "Suc j"], simp)
    have "v' ! s = v[k := v' ! k] ! s" if "s < length v" "s < Suc k \<or> Suc k + length nc \<le> s" for s
      using fr [OF that(1)] that by (cases "s = k") auto
    moreover have "length v' = length v" "length fs' = length nc" using l fs by (simp_all add: code_leaves_def)
    ultimately show ?thesis using n unfolding code_leaves_def by simp
  qed
  ultimately show ?R using fs m by auto
next
  assume ?R
  then obtain r fl1 fs' where r: "fs = fl1 # fs'" "fns f (map ((!) v) ss) = Inr (r, fl1)" "code_leaves fns nc (Suc k) (v[k := r]) v' fs'"
    by blast
  have fr: "v' ! s = v[k := r] ! s" if "s < length v" "s < Suc k \<or> Suc (k + length nc) \<le> s" for s
    using code_leaves_frame [OF r(3), of s] that by simp
  have m: "map ((!) v') ss = map ((!) v) ss" using ss fr by (auto simp: nth_list_update)
  have vk: "v' ! k = r" using fr [OF k] k by simp
  have "fns (fst (((f, ss) # nc) ! j)) (map ((!) v') (snd (((f, ss) # nc) ! j))) = Inr (v' ! (k + j), fs ! j)"
    if "j < Suc (length nc)" for j
  proof (cases j)
    case 0
    then show ?thesis using r(1,2) vk by (simp add: m del: map_eq_conv)
  next
    case (Suc i)
    then show ?thesis using code_leaves_node [OF r(3), of i] r(1) that by simp
  qed
  moreover have "v' ! s = v ! s" if "s < length v" "s < k \<or> Suc (k + length nc) \<le> s" for s
    using fr [OF that(1)] that(2) by (auto simp: nth_list_update)
  ultimately show ?L using r(1,3) by (simp add: code_leaves_def)
qed

lemma execute_iff:
  assumes "slots_ok nc k (length v)"
  shows "execute fns (int_code nc) v (int k) fl = Inr (v', fl') \<longleftrightarrow> (\<exists>fs. code_leaves fns nc k v v' fs \<and> fl' = fl OR or_all fs)"
  using assms
proof (induction nc arbitrary: v k fl)
  case Nil
  have "v' = v" if "length v' = length v" "\<forall>s < length v. v' ! s = v ! s" using that by (simp add: nth_equalityI)
  moreover have "(s < k \<or> k \<le> s)" for s by auto
  ultimately show ?case by (auto simp: int_code_def code_leaves_def)
next
  case (Cons c nc)
  obtain f ss where c: "c = (f, ss)" by (cases c)
  note S = slots_ok_Cons [OF Cons.prems [unfolded c]]
  have op: "operands v (map int ss) = Inr (map ((!) v) ss)" using S(3,4) by (intro operands_slots) auto
  have "execute fns (int_code (c # nc)) v (int k) fl = Inr (v', fl') \<longleftrightarrow>
    (\<exists>r fl1. fns f (map ((!) v) ss) = Inr (r, fl1) \<and> execute fns (int_code nc) (v[k := r]) (int (Suc k)) (fl OR fl1) = Inr (v', fl'))"
    using S(2) by (auto simp: c int_code_def op bind_r_eq_Inr py_set_nat add.commute)
  also have "\<dots> \<longleftrightarrow> (\<exists>r fl1. fns f (map ((!) v) ss) = Inr (r, fl1) \<and>
      (\<exists>fs'. code_leaves fns nc (Suc k) (v[k := r]) v' fs' \<and> fl' = (fl OR fl1) OR or_all fs'))"
  proof -
    have "execute fns (int_code nc) (v[k := r]) (int (Suc k)) (fl OR fl1) = Inr (v', fl') \<longleftrightarrow>
      (\<exists>fs'. code_leaves fns nc (Suc k) (v[k := r]) v' fs' \<and> fl' = (fl OR fl1) OR or_all fs')" for r fl1
      by (rule Cons.IH) (simp add: S(1))
    then show ?thesis by (simp only:)
  qed
  also have "\<dots> \<longleftrightarrow> (\<exists>fs. code_leaves fns (c # nc) k v v' fs \<and> fl' = fl OR or_all fs)"
    unfolding c code_leaves_Cons [OF S(2,4)] or.assoc by (metis or_all_simps(2))
  finally show ?case .
qed

section \<open>References and slots\<close>

text \<open>A reference's text read as its letter and its number, where it has both.\<close>

definition cref :: "string \<Rightarrow> gref" where
  "cref t = (the (kind_of_letter (hd t)), nat (int_of 10 (tl t)))"

text \<open>The slot of a reference, in a lane of \<open>n\<close> components whose step has \<open>N\<close> nodes.\<close>

definition node_base :: "lgraph \<Rightarrow> nat \<Rightarrow> nat" where
  "node_base lg n = n + length (l_lane lg) + length (l_param lg) + length (l_const lg)"

definition loc :: "lgraph \<Rightarrow> nat \<Rightarrow> nat \<Rightarrow> gref \<Rightarrow> nat" where
  "loc lg n N r = (case fst r of
     KS \<Rightarrow> snd r
   | KL \<Rightarrow> n + snd r
   | KP \<Rightarrow> n + length (l_lane lg) + snd r
   | KC \<Rightarrow> n + length (l_lane lg) + length (l_param lg) + snd r
   | KN \<Rightarrow> node_base lg n + snd r
   | KT \<Rightarrow> node_base lg n + N + snd r
   | _ \<Rightarrow> node_base lg n + N + n + snd r)"

text \<open>The leaves there are, and the references a primal and a tangent node may make.\<close>

definition leaf_in :: "lgraph \<Rightarrow> nat \<Rightarrow> gref \<Rightarrow> bool" where
  "leaf_in lg n r \<longleftrightarrow> (case fst r of
     KS \<Rightarrow> snd r < n | KL \<Rightarrow> snd r < length (l_lane lg) | KP \<Rightarrow> snd r < length (l_param lg) | KC \<Rightarrow> snd r < length (l_const lg)
   | _ \<Rightarrow> False)"

definition primal_in :: "lgraph \<Rightarrow> nat \<Rightarrow> nat \<Rightarrow> gref \<Rightarrow> bool" where
  "primal_in lg n before r \<longleftrightarrow> fst r = KN \<and> snd r < before \<or> leaf_in lg n r"

definition tangent_in :: "lgraph \<Rightarrow> nat \<Rightarrow> nat \<Rightarrow> nat \<Rightarrow> gref \<Rightarrow> bool" where
  "tangent_in lg n N before r \<longleftrightarrow>
    fst r = KD \<and> snd r < before \<or> fst r = KT \<and> snd r < n \<or> fst r = KN \<and> snd r < N \<or> leaf_in lg n r"

lemma digit_chars:
  assumes "isdigit s"
  shows "s \<noteq> []" "set s \<subseteq> set DIGITS"
  using assms by (auto simp: isdigit_def list_all_iff)

lemma strip_id: "s \<noteq> [] \<Longrightarrow> \<not> py_space (hd s) \<Longrightarrow> \<not> py_space (last s) \<Longrightarrow> strip s = s"
proof -
  assume a: "s \<noteq> []" "\<not> py_space (hd s)" "\<not> py_space (last s)"
  have "dropWhile py_space s = s" using a(1,2) by (cases s) auto
  moreover have "dropWhile py_space (rev s) = rev s" using a(1,3) by (cases "rev s") (auto simp: last_rev hd_rev [symmetric])
  ultimately show ?thesis by (simp add: strip_def)
qed

lemma split_on_none: "c \<notin> set s \<Longrightarrow> split_on c s = [s]"
  by (induction s) auto

text \<open>\<open>int\<close> of ASCII digits is the number they write.\<close>

lemma py_int_digits:
  assumes "isdigit s"
  shows "py_int 10 s = Inr (int_of 10 s)"
proof -
  note d = digit_chars [OF assms]
  have no: "\<not> py_space c" "c \<noteq> CHR ''-''" "c \<noteq> CHR ''+''" "c \<noteq> CHR ''_''" if "c \<in> set DIGITS" for c
    using that by (auto simp: DIGITS_def py_space_def)
  have m: "hd s \<in> set DIGITS" "last s \<in> set DIGITS" using d hd_in_set last_in_set by blast+
  have st: "strip s = s" using d(1) no(1) m by (intro strip_id)
  have sp: "split_on (CHR ''_'') s = [s]" using d(2) no(4) by (intro split_on_none) blast
  have hd: "hd s \<noteq> CHR ''-''" "hd s \<noteq> CHR ''+''" using no m by blast+
  have ok: "\<not> list_ex (\<lambda>c. c \<notin> set (base_digits 10)) s" using d(2) by (auto simp: list_ex_iff base_digits_def)
  show ?thesis using d(1) ok by (simp add: py_int_def Let_def st sp hd)
qed

lemma ref_index_digits: "isdigit (tl t) \<Longrightarrow> ref_index t = Inr (int_of 10 (tl t))"
  by (simp add: ref_index_def py_int_digits)


lemma digits_nat: "isdigit s \<Longrightarrow> 0 \<le> int_of 10 s"
  by (rule digits_nonneg) (rule digit_chars)

text \<open>The tests of the language put every reference in its slot.\<close>

lemma slot_of_leaf:
  assumes "n_state lg = int n" "isdigit (tl t)" "t \<noteq> []" "kind_of_letter (hd t) = Some kind" "kind \<in> {KS, KL, KP, KC}"
    "int_of 10 (tl t) < limits lg kind"
  shows "slot (slots_of lg n N) t = Inr (int (loc lg n N (cref t)))" "leaf_in lg n (cref t)"
  using assms ref_index_digits [OF assms(2)] digits_nat [OF assms(2)]
  by (auto simp: slot_def slots_of_def Let_def loc_def cref_def leaf_in_def limits_def)

lemma slot_loc:
  assumes n: "n_state lg = int n" and t: "\<not> ref_problem t lg before"
  shows "slot (slots_of lg n N) t = Inr (int (loc lg n N (cref t)))" "primal_in lg n before (cref t)"
proof -
  obtain kind where k: "t \<noteq> []" "kind_of_letter (hd t) = Some kind" "kind \<in> {KS, KL, KP, KC, KN}" "isdigit (tl t)"
    "if kind = KN then int_of 10 (tl t) < int before else int_of 10 (tl t) < limits lg kind"
    using t by (auto simp: ref_problem_def Let_def split: option.splits if_splits)
  have "slot (slots_of lg n N) t = Inr (int (loc lg n N (cref t))) \<and> primal_in lg n before (cref t)"
  proof (cases "kind = KN")
    case True
    then show ?thesis using k ref_index_digits [OF k(4)] digits_nat [OF k(4)]
      by (auto simp: slot_def slots_of_def Let_def loc_def cref_def primal_in_def node_base_def)
  next
    case False
    then show ?thesis using k(3,5) slot_of_leaf [OF n k(4,1,2)] by (auto simp: primal_in_def)
  qed
  then show "slot (slots_of lg n N) t = Inr (int (loc lg n N (cref t)))" "primal_in lg n before (cref t)" by blast+
qed

lemma tslot_loc:
  assumes n: "n_state lg = int n" and t: "\<not> tangent_ref_problem t lg before prim"
  shows "tslot (slots_of lg n (length (s_nodes prim))) t = Inr (int (loc lg n (length (s_nodes prim)) (cref t)))"
    "tangent_in lg n (length (s_nodes prim)) before (cref t)"
proof -
  let ?N = "length (s_nodes prim)" and ?i = "int_of 10 (tl t)"
  obtain kind where k: "t \<noteq> []" "kind_of_letter (hd t) = Some kind" "isdigit (tl t)"
    using t by (auto simp: tangent_ref_problem_def Let_def split: option.splits if_splits)
  have kd: "kind \<in> {KS, KL, KP, KC, KN, KT, KD}" using k(2) by (auto simp: kind_of_letter_def split: if_splits)
  have lim: "\<not> (case kind of KD \<Rightarrow> \<not> ?i < int before | KT \<Rightarrow> \<not> ?i < n_state lg
      | KN \<Rightarrow> (if int ?N \<le> ?i then True else snd (snd (s_nodes prim ! nat ?i)) = None) | _ \<Rightarrow> \<not> ?i < limits lg kind)"
    using t k by (simp add: tangent_ref_problem_def Let_def)
  have "tslot (slots_of lg n ?N) t = Inr (int (loc lg n ?N (cref t))) \<and> tangent_in lg n ?N before (cref t)"
  proof (cases "kind \<in> {KS, KL, KP, KC}")
    case True
    then have "tslot (slots_of lg n ?N) t = slot (slots_of lg n ?N) t" using k ref_index_digits [OF k(3)] by (auto simp: tslot_def)
    moreover have "?i < limits lg kind" using lim True by auto
    ultimately show ?thesis using slot_of_leaf [OF n k(3,1,2) True] by (simp add: tangent_in_def)
  next
    case False
    then consider "kind = KN" | "kind = KT" | "kind = KD" using kd by blast
    then show ?thesis
      using k lim n ref_index_digits [OF k(3)] digits_nat [OF k(3)]
      by cases (auto simp: tslot_def slot_def slots_of_def Let_def loc_def cref_def tangent_in_def node_base_def split: if_splits)
  qed
  then show "tslot (slots_of lg n ?N) t = Inr (int (loc lg n ?N (cref t)))" "tangent_in lg n ?N before (cref t)" by blast+
qed

text \<open>What the compiler makes of them.\<close>

definition copy_ref :: "nat \<Rightarrow> nat \<Rightarrow> nat \<Rightarrow> gref \<Rightarrow> gref" where
  "copy_ref n k base r = (case fst r of KT \<Rightarrow> (KS, n * (k + 1) + snd r) | KD \<Rightarrow> (KN, base + snd r) | _ \<Rightarrow> r)"

lemma parse_ref_is: "parse_ref t = Inr r \<Longrightarrow> r = cref t"
  by (auto simp: parse_ref_def cref_def Let_def drop_Suc split: option.splits if_splits)

lemma tangent_ref_is:
  assumes "tangent_ref g k base t before = Inr r"
  shows "r = copy_ref (g_n_primal g) k base (cref t)"
proof -
  obtain kind where "t \<noteq> []" "kind_of_letter (hd t) = Some kind"
    using assms by (auto simp: tangent_ref_def Let_def split: option.splits if_splits)
  then show ?thesis using assms
    by (cases kind) (auto simp: tangent_ref_def cref_def copy_ref_def Let_def drop_Suc bind_r_eq_Inr split: if_splits)
qed

section \<open>The compiler's nodes\<close>

definition node_at :: "(string \<Rightarrow> 'r) \<Rightarrow> string \<times> string list \<times> string option \<Rightarrow> gop \<times> 'r list" where
  "node_at h = (\<lambda>(op, args, label). (the (OPS op), map h args))"

lemma map_r_is:
  assumes "map_r f xs = Inr ys" "\<And>x y. x \<in> set xs \<Longrightarrow> f x = Inr y \<Longrightarrow> y = h x"
  shows "ys = map h xs"
  using assms by (induction xs arbitrary: ys) (auto simp: bind_r_eq_Inr)

lemma append_nodes_are:
  "fold_r append_node g nds = Inr g' \<Longrightarrow>
    graph_skeleton g' = graph_skeleton g @ map (node_at cref) nds \<and> same_tables g g' \<and> g_outs g' = g_outs g"
proof (induction nds arbitrary: g)
  case (Cons nd nds)
  then obtain h where h: "append_node g nd = Inr h" "fold_r append_node h nds = Inr g'" by (auto simp: bind_r_eq_Inr)
  obtain op args label where nd: "nd = (op, args, label)" by (cases nd)
  obtain opn refs where r: "OPS op = Some opn" "map_r parse_ref args = Inr refs" "h = g\<lparr>g_nodes := g_nodes g @ [(opn, refs, label)]\<rparr>"
    using h(1) by (auto simp: append_node_def read_node_def nd bind_r_eq_Inr split: option.splits if_splits)
  have "refs = map cref args" using map_r_is [OF r(2), of cref] parse_ref_is by blast
  then have "graph_skeleton h = graph_skeleton g @ [node_at cref nd]" "same_tables g h" "g_outs h = g_outs g"
    using r by (simp_all add: graph_skeleton_def node_at_def nd same_tables_def)
  then show ?case using Cons.IH [OF h(2)] same_tables_trans by auto
qed simp

lemma tangent_nodes_are:
  "fold_r (tangent_node k base) g (enumerate j nds) = Inr g' \<Longrightarrow>
    graph_skeleton g' = graph_skeleton g @ map (node_at (copy_ref (g_n_primal g) k base \<circ> cref)) nds
    \<and> same_tables g g' \<and> g_outs g' = g_outs g"
proof (induction nds arbitrary: g j)
  case (Cons nd nds)
  then obtain h where h: "tangent_node k base g (j, nd) = Inr h" "fold_r (tangent_node k base) h (enumerate (Suc j) nds) = Inr g'"
    by (auto simp: bind_r_eq_Inr)
  obtain op args label where nd: "nd = (op, args, label)" by (cases nd)
  obtain opn refs where r: "OPS op = Some opn" "map_r (\<lambda>a. tangent_ref g k base a j) args = Inr refs"
    "h = g\<lparr>g_nodes := g_nodes g @ [(opn, refs, map_option (\<lambda>l. g_tangent g ! k @ ''.'' @ l) label)]\<rparr>"
    using h(1) by (auto simp: tangent_node_def nd bind_r_eq_Inr split: option.splits if_splits)
  have "refs = map (copy_ref (g_n_primal g) k base \<circ> cref) args"
    using map_r_is [OF r(2), of "copy_ref (g_n_primal g) k base \<circ> cref"] tangent_ref_is by (metis comp_apply)
  then have e: "graph_skeleton h = graph_skeleton g @ [node_at (copy_ref (g_n_primal g) k base \<circ> cref) nd]" "same_tables g h"
    "g_outs h = g_outs g"
    using r by (simp_all add: graph_skeleton_def node_at_def nd same_tables_def)
  then have "g_n_primal h = g_n_primal g" by (simp add: same_tables_def)
  then show ?case using Cons.IH [OF h(2)] e same_tables_trans by (auto simp: comp_def)
qed simp

text \<open>The copies of the tangent section, one after the other, and their outputs.\<close>

definition copies :: "nat \<Rightarrow> nat \<Rightarrow> obj_section \<Rightarrow> nat list \<Rightarrow> gnode list" where
  "copies n N ts ks = concat (map (\<lambda>k. map (node_at (copy_ref n k (N + k * length (o_nodes ts)) \<circ> cref)) (o_nodes ts)) ks)"

definition copy_outs :: "nat \<Rightarrow> nat \<Rightarrow> obj_section \<Rightarrow> nat list \<Rightarrow> gref list" where
  "copy_outs n N ts ks = concat (map (\<lambda>k. map (copy_ref n k (N + k * length (o_nodes ts)) \<circ> cref) (o_out ts)) ks)"

lemma tangent_copies_are:
  "fold_r (tangent_copy ts) g [k0 ..< K] = Inr g' \<Longrightarrow> length (g_nodes g) = N + k0 * length (o_nodes ts) \<Longrightarrow>
    graph_skeleton g' = graph_skeleton g @ copies (g_n_primal g) N ts [k0 ..< K]
    \<and> same_tables g g' \<and> g_outs g' = g_outs g @ copy_outs (g_n_primal g) N ts [k0 ..< K]"
proof (induction "K - k0" arbitrary: g k0)
  case 0
  then show ?case by (simp add: copies_def copy_outs_def)
next
  case (Suc d)
  then have u: "[k0 ..< K] = k0 # [Suc k0 ..< K]" by (simp add: upt_conv_Cons)
  let ?b = "length (g_nodes g)" let ?c = "copy_ref (g_n_primal g) k0 ?b \<circ> cref"
  obtain g1 where g1: "tangent_copy ts g k0 = Inr g1" "fold_r (tangent_copy ts) g1 [Suc k0 ..< K] = Inr g'"
    using Suc.prems(1) by (auto simp: u bind_r_eq_Inr)
  obtain h outs where h: "fold_r (tangent_node k0 ?b) g (enumerate 0 (o_nodes ts)) = Inr h"
    "map_r (\<lambda>a. tangent_ref h k0 ?b a (length (o_nodes ts))) (o_out ts) = Inr outs" "g1 = h\<lparr>g_outs := g_outs h @ outs\<rparr>"
    using g1(1) by (auto simp: tangent_copy_def Let_def bind_r_eq_Inr split: if_splits)
  note H = tangent_nodes_are [OF h(1)]
  have np: "g_n_primal h = g_n_primal g" using H by (simp add: same_tables_def)
  then have "outs = map ?c (o_out ts)" using map_r_is [OF h(2), of ?c] tangent_ref_is by (metis comp_apply)
  then have e: "graph_skeleton g1 = graph_skeleton g @ map (node_at ?c) (o_nodes ts)" "same_tables g g1"
    "g_outs g1 = g_outs g @ map ?c (o_out ts)" "g_n_primal g1 = g_n_primal g"
    using H np by (simp_all add: h(3) graph_skeleton_def same_tables_def)
  then have "length (g_nodes g1) = N + Suc k0 * length (o_nodes ts)"
    using Suc.prems(2) length_graph_skeleton [of g1] by simp
  from Suc.hyps(1) [OF _ g1(2) this] Suc.hyps(2) e show ?case
    using same_tables_trans by (auto simp: u copies_def copy_outs_def Suc.prems(2))
qed

text \<open>The whole graph.\<close>

lemma graph_shape:
  assumes "Graph obj = Inr cg" "j_step obj = Some stp" "g_tangent cg \<noteq> [] \<Longrightarrow> j_tangent_step obj = Some ts"
  defines "n \<equiv> length (primal_names (j_state obj))" and "N \<equiv> length (o_nodes stp)" and "T \<equiv> length (g_tangent cg)"
  shows "graph_skeleton cg = map (node_at cref) (o_nodes stp) @ copies n N ts [0 ..< T]"
    "g_outs cg = map cref (o_out stp) @ copy_outs n N ts [0 ..< T]" "g_n_primal cg = n"
proof -
  let ?p = "primal_names (j_state obj)"
  obtain fmt rnd tangent lane param h cs g1 g2 and stp' :: obj_section where
    g1: "fold_r append_node \<lparr>g_version = j_version obj, g_fmt = fmt, g_rnd = rnd,
        g_components = ?p @ concat (map (\<lambda>vec. map (\<lambda>c. vec @ ''.'' @ c) ?p) tangent),
        g_tangent = tangent, g_n_primal = length ?p,
        g_n_state = length (?p @ concat (map (\<lambda>vec. map (\<lambda>c. vec @ ''.'' @ c) ?p) tangent)),
        g_lane = lane, g_param = param, g_integrator = (fst (j_integrator obj), h), g_const = cs, g_nodes = [], g_outs = [],
        g_primal_step_nodes = 0\<rparr> (o_nodes stp') = Inr g1"
    and sec: "section_of (j_step obj) = Inr stp'"
    and g2: "read_outs g1 (o_out stp') = Inr g2"
    and fin: "(if tangent \<noteq> [] then bind_r (section_of (j_tangent_step obj)) (cftc_tangent g2) else Inr g2) = Inr cg"
    using assms(1) unfolding Graph_def Let_def if_Inl_Inr bind_r_eq_Inr by (elim exE conjE) (rule that, assumption+)
  have "stp' = stp" using sec assms(2) by (simp add: section_of_def)
  note A = append_nodes_are [OF g1 [unfolded this]]
  obtain outs where r: "map_r parse_ref (o_out stp) = Inr outs" "g2 = g1\<lparr>g_outs := outs, g_primal_step_nodes := length (g_nodes g1)\<rparr>"
    using g2 by (auto simp: read_outs_def bind_r_eq_Inr \<open>stp' = stp\<close> split: if_splits)
  have "outs = map cref (o_out stp)" using map_r_is [OF r(1), of cref] parse_ref_is by blast
  then have e: "graph_skeleton g2 = map (node_at cref) (o_nodes stp)" "g_outs g2 = map cref (o_out stp)" "g_n_primal g2 = n"
    "g_tangent g2 = tangent"
    using A r(2) by (auto simp: graph_skeleton_def same_tables_def n_def)
  have "graph_skeleton cg = map (node_at cref) (o_nodes stp) @ copies n N ts [0 ..< T]
    \<and> g_outs cg = map cref (o_out stp) @ copy_outs n N ts [0 ..< T] \<and> g_n_primal cg = n"
  proof (cases "tangent = []")
    case True
    then have "cg = g2" using fin by simp
    then show ?thesis using e True by (simp add: T_def copies_def copy_outs_def)
  next
    case False
    then obtain ts' where t: "section_of (j_tangent_step obj) = Inr ts'" "fold_r (tangent_copy ts') g2 [0 ..< length (g_tangent g2)] = Inr cg"
      using fin by (auto simp: bind_r_eq_Inr cftc_tangent_def)
    have "length (g_nodes g2) = N + 0 * length (o_nodes ts')" using e(1) length_graph_skeleton [of g2] by (simp add: N_def)
    note C = tangent_copies_are [OF t(2) this]
    then have tt: "g_tangent cg = tangent" using e(4) by (simp add: same_tables_def)
    then have "ts' = ts" using assms(3) False t(1) by (simp add: section_of_def)
    then show ?thesis using C e tt by (simp add: T_def same_tables_def)
  qed
  then show "graph_skeleton cg = map (node_at cref) (o_nodes stp) @ copies n N ts [0 ..< T]"
    "g_outs cg = map cref (o_out stp) @ copy_outs n N ts [0 ..< T]" "g_n_primal cg = n" by blast+
qed

section \<open>The lane's program\<close>

text \<open>What the language's tests say of a section's nodes and outputs.\<close>

definition nodes_read :: "(nat \<Rightarrow> gref \<Rightarrow> bool) \<Rightarrow> (string \<times> string list \<times> string option) list \<Rightarrow> string list \<Rightarrow> bool" where
  "nodes_read ok nds out \<longleftrightarrow>
    (\<forall>k < length nds. case nds ! k of (op, args, label) \<Rightarrow>
       OPS op \<noteq> None \<and> length args = ARITY (the (OPS op)) \<and> (\<forall>a \<in> set args. ok k (cref a)))
    \<and> (\<forall>a \<in> set out. ok (length nds) (cref a))"

lemma ARITY_range: "ARITY opn \<in> {1, 2, 3}"
  by (cases opn) simp_all

lemma section_reads:
  assumes "\<not> section_problem lg bad sec" "\<And>a k. \<not> bad a k \<Longrightarrow> sl a = Inr (int (lc a)) \<and> ok k (cref a)"
  shows "nodes_read ok (s_nodes sec) (s_out sec)" "int (length (s_out sec)) = n_state lg"
    "slot_program sl sec = Inr (int_code (map (node_at lc) (s_nodes sec)))" "map_r sl (s_out sec) = Inr (map (int \<circ> lc) (s_out sec))"
proof -
  have nd: "OPS op \<noteq> None \<and> length args = ARITY (the (OPS op)) \<and> (\<forall>a \<in> set args. \<not> bad a k)"
    if "k < length (s_nodes sec)" "s_nodes sec ! k = (op, args, label)" for k op args label
  proof -
    have "(k, op, args, label) \<in> set (enumerate 0 (s_nodes sec))" using that by (simp add: in_set_enumerate_eq)
    then have "\<not> node_problem bad (k, op, args, label)" using assms(1) by (auto simp: section_problem_def list_ex_iff)
    then show ?thesis by (auto simp: node_problem_def list_ex_iff split: option.splits)
  qed
  have o: "\<not> bad a (length (s_nodes sec))" if "a \<in> set (s_out sec)" for a
    using assms(1) that by (auto simp: section_problem_def list_ex_iff)
  show "nodes_read ok (s_nodes sec) (s_out sec)"
    unfolding nodes_read_def using nd o assms(2) by (fastforce split: prod.split)
  show "int (length (s_out sec)) = n_state lg" using assms(1) by (simp add: section_problem_def)
  have sl: "map_r sl args = Inr (map (int \<circ> lc) args)" if "\<And>a. a \<in> set args \<Longrightarrow> \<exists>k. \<not> bad a k" for args
    using that
  proof (induction args)
    case (Cons a args)
    then have "sl a = Inr (int (lc a))" using assms(2) by fastforce
    then show ?case using Cons by simp
  qed simp
  then show "map_r sl (s_out sec) = Inr (map (int \<circ> lc) (s_out sec))" using o by blast
  have "bind_r (dict_get OPS op) (\<lambda>f. bind_r (map_r sl args) (\<lambda>ss. Inr (f, ss))) = Inr (the (OPS op), map (int \<circ> lc) args)"
    if i: "(op, args, label) \<in> set (s_nodes sec)" for op args label
  proof -
    obtain k where "k < length (s_nodes sec)" "s_nodes sec ! k = (op, args, label)" using i by (auto simp: in_set_conv_nth)
    from nd [OF this] obtain f where f: "OPS op = Some f" "\<forall>a \<in> set args. \<not> bad a k" by auto
    have "map_r sl args = Inr (map (int \<circ> lc) args)" by (rule sl) (use f(2) in blast)
    then show ?thesis using f(1) by (simp add: dict_get_def)
  qed
  then have "map_r (\<lambda>(op, args, label). bind_r (dict_get OPS op) (\<lambda>f. bind_r (map_r sl args) (\<lambda>ss. Inr (f, ss)))) (s_nodes sec)
    = Inr (map (\<lambda>(op, args, label). (the (OPS op), map (int \<circ> lc) args)) (s_nodes sec))"
    by (intro map_r_total) auto
  then show "slot_program sl sec = Inr (int_code (map (node_at lc) (s_nodes sec)))"
    by (simp add: slot_program_def int_code_def node_at_def case_prod_beta comp_def)
qed

text \<open>The tangent section of a graph, empty where there is none.\<close>

definition tangent_of :: "lgraph \<Rightarrow> lsection" where
  "tangent_of lg = (case l_tangent_step lg of None \<Rightarrow> \<lparr>s_out = [], s_nodes = []\<rparr> | Some s \<Rightarrow> s)"

definition prog_of :: "lgraph \<Rightarrow> nat \<Rightarrow> lsection \<Rightarrow> lane_prog" where
  "prog_of lg n stp =
    (let lc = loc lg n (length (s_nodes stp)) \<circ> cref
     in \<lparr>q_map = slots_of lg n (length (s_nodes stp)), q_code = int_code (map (node_at lc) (s_nodes stp)),
         q_outs = map (int \<circ> lc) (s_out stp), q_tcode = int_code (map (node_at lc) (s_nodes (tangent_of lg))),
         q_touts = map (int \<circ> lc) (s_out (tangent_of lg)), q_n = n\<rparr>)"

text \<open>A graph the language accepts, of \<open>n\<close> components.\<close>

lemma accepted_prog:
  assumes p: "problem lg = Inr False" and n: "n_state lg = int n"
  obtains stp where "l_step lg = Some stp" "make_prog lg n = Inr (prog_of lg n stp)"
    "nodes_read (primal_in lg n) (s_nodes stp) (s_out stp)" "length (s_out stp) = n"
    "nodes_read (tangent_in lg n (length (s_nodes stp))) (s_nodes (tangent_of lg)) (s_out (tangent_of lg))"
    "l_tangent lg \<noteq> [] \<Longrightarrow> length (s_out (tangent_of lg)) = n" "(l_tangent lg = []) = (l_tangent_step lg = None)"
proof -
  obtain stp where s: "l_step lg = Some stp" "\<not> section_problem lg (\<lambda>r k. ref_problem r lg k) stp"
    and t: "if l_tangent lg = [] then l_tangent_step lg = None
      else \<exists>ts. l_tangent_step lg = Some ts \<and> \<not> section_problem lg (\<lambda>r k. tangent_ref_problem r lg k stp) ts"
    using p unfolding problem_def tangent_section_problem_def Let_def
    by (auto simp: bind_r_eq_Inr split: if_splits option.splits)
  let ?lc = "loc lg n (length (s_nodes stp)) \<circ> cref" let ?sm = "slots_of lg n (length (s_nodes stp))"
  have sl: "\<not> ref_problem a lg k \<Longrightarrow> slot ?sm a = Inr (int (?lc a)) \<and> primal_in lg n k (cref a)" for a k
    using slot_loc [OF n] by simp
  note P = section_reads [OF s(2), of "slot ?sm" ?lc "primal_in lg n", OF sl]
  have lo: "length (s_out stp) = n" using P(2) n by simp
  show ?thesis
  proof (cases "l_tangent lg = []")
    case True
    then have ts: "l_tangent_step lg = None" using t by simp
    then have "make_prog lg n = Inr (prog_of lg n stp)"
      using s(1) True P(3,4) by (simp add: make_prog_def prog_of_def Let_def tangent_of_def int_code_def)
    then show ?thesis using that [OF s(1)] P(1) lo ts True by (simp add: tangent_of_def nodes_read_def)
  next
    case False
    then obtain ts where ts: "l_tangent_step lg = Some ts" "\<not> section_problem lg (\<lambda>r k. tangent_ref_problem r lg k stp) ts"
      using t by auto
    have tl: "\<not> tangent_ref_problem a lg k stp \<Longrightarrow>
      tslot ?sm a = Inr (int (?lc a)) \<and> tangent_in lg n (length (s_nodes stp)) k (cref a)" for a k
      using tslot_loc [OF n] by simp
    note Q = section_reads [OF ts(2), of "tslot ?sm" ?lc "tangent_in lg n (length (s_nodes stp))", OF tl]
    have "make_prog lg n = Inr (prog_of lg n stp)"
      using s(1) False P(3,4) Q(3,4) ts(1) by (simp add: make_prog_def prog_of_def Let_def tangent_of_def)
    then show ?thesis using that [OF s(1)] P(1) Q(1,2) lo ts(1) n False by (simp add: tangent_of_def)
  qed
qed

section \<open>The passes of a step\<close>

fun all3 :: "('a \<Rightarrow> 'b \<Rightarrow> 'c \<Rightarrow> bool) \<Rightarrow> 'a list \<Rightarrow> 'b list \<Rightarrow> 'c list \<Rightarrow> bool" where
  "all3 P [] [] [] = True"
| "all3 P (x # xs) (y # ys) (z # zs) = (P x y z \<and> all3 P xs ys zs)"
| "all3 P _ _ _ = False"

lemma all3_nth:
  "all3 P xs ys zs \<longleftrightarrow> length ys = length xs \<and> length zs = length xs \<and> (\<forall>k < length xs. P (xs ! k) (ys ! k) (zs ! k))"
  by (induction P xs ys zs rule: all3.induct) (auto simp: less_Suc_eq_0_disj)

lemma all3_Cons: "all3 P (x # xs) b c \<longleftrightarrow> (\<exists>y ys z zs. b = y # ys \<and> c = z # zs \<and> P x y z \<and> all3 P xs ys zs)"
  by (cases b; cases c) auto

lemma length_set_slice: "lo + length xs = hi \<Longrightarrow> hi \<le> length v \<Longrightarrow> length (set_slice v lo hi xs) = length v"
  by (simp add: set_slice_def)

lemma nth_set_slice:
  assumes "lo + length xs = hi" "hi \<le> length v"
  shows "s < lo \<Longrightarrow> set_slice v lo hi xs ! s = v ! s" "i < length xs \<Longrightarrow> set_slice v lo hi xs ! (lo + i) = xs ! i"
  using assms by (simp_all add: set_slice_def nth_append)

text \<open>A pass depends on the lane below the tangent inputs alone.\<close>

lemma code_leaves_below:
  assumes "length u = own + length nc" "length v = own + length nc" "b + length c = own" "take b u = take b v"
  shows "code_leaves fns nc own (set_slice u b own c) x fs \<longleftrightarrow> code_leaves fns nc own (set_slice v b own c) x fs"
proof -
  have l: "length (set_slice u b own c) = own + length nc" "length (set_slice v b own c) = own + length nc"
    using assms by (simp_all add: length_set_slice)
  have "set_slice u b own c ! s = set_slice v b own c ! s" if "s < own" for s
  proof -
    have "set_slice w b own c ! s = (take b w @ c) ! s" if "length w = own + length nc" for w
      using that assms(3) \<open>s < own\<close> by (auto simp: set_slice_def nth_append)
    then show ?thesis using assms by simp
  qed
  then show ?thesis unfolding code_leaves_def l by auto
qed

lemma passes_iff:
  assumes tc: "q_tcode q = int_code nc" "q_touts q = map int touts" "b_own (q_map q) = int own" "b_tangent (q_map q) = int b" "q_n q = n"
    and ok: "slots_ok nc own (own + length nc)" "b + n = own" "\<forall>s \<in> set touts. s < own + length nc"
    and v: "length v = own + length nc"
  shows "\<forall>c \<in> set curs. length c = n \<Longrightarrow> length u = own + length nc \<Longrightarrow> take b u = take b v \<Longrightarrow>
    fold_r (tangent_pass fns q) (u, dn, fl) curs = Inr (u', dn', fl') \<longleftrightarrow>
    (\<exists>ws fss. all3 (\<lambda>c x fs. code_leaves fns nc own (set_slice v b own c) x fs) curs ws fss \<and> u' = last (u # ws)
      \<and> dn' = dn @ map (\<lambda>x. map ((!) x) touts) ws \<and> fl' = fl OR or_all (concat fss))"
proof (induction curs arbitrary: u dn fl)
  case Nil
  have "all3 P [] ws fss \<longleftrightarrow> ws = [] \<and> fss = []" for P :: "int list \<Rightarrow> int list \<Rightarrow> int list \<Rightarrow> bool" and ws fss
    by (cases ws; cases fss) auto
  then show ?case by auto
next
  case (Cons c curs)
  let ?C = "\<lambda>c x fs. code_leaves fns nc own (set_slice v b own c) x fs"
  have c: "length c = n" "\<forall>c \<in> set curs. length c = n" using Cons.prems(1) by auto
  have l: "length (set_slice u b own c) = own + length nc" using Cons.prems(2) ok(2) c(1) by (simp add: length_set_slice)
  have ex: "execute fns (q_tcode q) (set_slice u (nat (b_tangent (q_map q))) (nat (b_tangent (q_map q)) + q_n q) c) (b_own (q_map q)) 0
      = Inr (x, f) \<longleftrightarrow> (\<exists>fs. ?C c x fs \<and> f = or_all fs)" for x f
    using execute_iff [of nc own "set_slice u b own c" fns 0 x f] ok(1,2) l
      code_leaves_below [OF Cons.prems(2) v _ Cons.prems(3), of c fns x] c(1) by (simp add: tc)
  have outs: "map_r (py_index x) (q_touts q) = Inr (map ((!) x) touts)" if "length x = own + length nc" for x :: "int list"
    unfolding tc(2) using ok(3) that by (intro map_r_py_index) simp
  have cl: "length x = own + length nc" "take b x = take b v" if "?C c x fs" for x fs
  proof -
    have lv: "length (set_slice v b own c) = own + length nc" using v ok(2) c(1) by (simp add: length_set_slice)
    show x: "length x = own + length nc" using that lv by (simp add: code_leaves_def)
    have "x ! s = v ! s" if s: "s < b" for s
      using code_leaves_frame [OF \<open>?C c x fs\<close>, of s] s ok(2) lv v c(1) by (simp add: nth_set_slice)
    then show "take b x = take b v" using x v ok(2) by (intro nth_equalityI) auto
  qed
  have pass: "tangent_pass fns q (u, dn, fl) c = Inr (x, d, f) \<longleftrightarrow>
      (\<exists>fs. ?C c x fs \<and> d = dn @ [map ((!) x) touts] \<and> f = fl OR or_all fs)" for x d f
  proof
    assume "tangent_pass fns q (u, dn, fl) c = Inr (x, d, f)"
    then obtain g out where g: "execute fns (q_tcode q) (set_slice u (nat (b_tangent (q_map q))) (nat (b_tangent (q_map q)) + q_n q) c)
        (b_own (q_map q)) 0 = Inr (x, g)" "map_r (py_index x) (q_touts q) = Inr out" "d = dn @ [out]" "f = fl OR g"
      by (auto simp: tangent_pass_def Let_def bind_r_eq_Inr)
    from g(1) obtain fs where fs: "?C c x fs" "g = or_all fs" unfolding ex by blast
    then show "\<exists>fs. ?C c x fs \<and> d = dn @ [map ((!) x) touts] \<and> f = fl OR or_all fs" using g(2-4) outs [OF cl(1)] by auto
  next
    assume "\<exists>fs. ?C c x fs \<and> d = dn @ [map ((!) x) touts] \<and> f = fl OR or_all fs"
    then obtain fs where fs: "?C c x fs" "d = dn @ [map ((!) x) touts]" "f = fl OR or_all fs" by blast
    then have "execute fns (q_tcode q) (set_slice u (nat (b_tangent (q_map q))) (nat (b_tangent (q_map q)) + q_n q) c)
        (b_own (q_map q)) 0 = Inr (x, or_all fs)" unfolding ex by blast
    then show "tangent_pass fns q (u, dn, fl) c = Inr (x, d, f)"
      using outs [OF cl(1) [OF fs(1)]] fs(2,3) by (simp add: tangent_pass_def Let_def)
  qed
  have "fold_r (tangent_pass fns q) (u, dn, fl) (c # curs) = Inr (u', dn', fl') \<longleftrightarrow>
    (\<exists>x fs. ?C c x fs \<and> fold_r (tangent_pass fns q) (x, dn @ [map ((!) x) touts], fl OR or_all fs) curs = Inr (u', dn', fl'))"
    by (auto simp: bind_r_eq_Inr pass)
  also have "\<dots> \<longleftrightarrow> (\<exists>x fs. ?C c x fs \<and> (\<exists>ws fss. all3 ?C curs ws fss \<and> u' = last (x # ws)
      \<and> dn' = (dn @ [map ((!) x) touts]) @ map (\<lambda>x. map ((!) x) touts) ws \<and> fl' = (fl OR or_all fs) OR or_all (concat fss)))"
    using Cons.IH [OF c(2) cl] by blast
  also have "\<dots> \<longleftrightarrow> (\<exists>ws fss. all3 ?C (c # curs) ws fss \<and> u' = last (u # ws)
      \<and> dn' = dn @ map (\<lambda>x. map ((!) x) touts) ws \<and> fl' = fl OR or_all (concat fss))" (is "?A \<longleftrightarrow> ?B")
  proof
    assume ?A
    then obtain x fs ws fss where a: "?C c x fs" "all3 ?C curs ws fss" "u' = last (x # ws)"
      "dn' = (dn @ [map ((!) x) touts]) @ map (\<lambda>x. map ((!) x) touts) ws" "fl' = (fl OR or_all fs) OR or_all (concat fss)" by blast
    then have "all3 ?C (c # curs) (x # ws) (fs # fss) \<and> u' = last (u # x # ws)
      \<and> dn' = dn @ map (\<lambda>x. map ((!) x) touts) (x # ws) \<and> fl' = fl OR or_all (concat (fs # fss))"
      by (simp add: or.assoc)
    then show ?B by blast
  next
    assume ?B
    then obtain ws fss where b: "all3 ?C (c # curs) ws fss" "u' = last (u # ws)" "dn' = dn @ map (\<lambda>x. map ((!) x) touts) ws"
      "fl' = fl OR or_all (concat fss)" by blast
    from b(1) obtain x ws' fs fss' where "ws = x # ws'" "fss = fs # fss'" "?C c x fs" "all3 ?C curs ws' fss'"
      unfolding all3_Cons by blast
    then have "?C c x fs \<and> all3 ?C curs ws' fss' \<and> u' = last (x # ws')
      \<and> dn' = (dn @ [map ((!) x) touts]) @ map (\<lambda>x. map ((!) x) touts) ws' \<and> fl' = (fl OR or_all fs) OR or_all (concat fss')"
      using b(2-4) by (simp add: or.assoc)
    then show ?A by blast
  qed
  finally show ?case .
qed

section \<open>One step of a lane\<close>

lemma concat_blocks:
  assumes "\<forall>xs \<in> set xss. length xs = M"
  shows "length (concat xss) = length xss * M"
    "k < length xss \<Longrightarrow> j < M \<Longrightarrow> concat xss ! (k * M + j) = xss ! k ! j"
  using assms
proof (induction xss arbitrary: k)
  case (Cons xs xss)
  {
    case 1
    then show ?case using Cons.IH(1) by simp
  next
    case 2
    then show ?case using Cons.IH(2) by (cases k) (auto simp: nth_append)
  }
qed simp_all

text \<open>The leaves of a lane: the state with its tangents after it, and what the other slots hold.\<close>

definition lane_leaf :: "lgraph \<Rightarrow> nat \<Rightarrow> nat \<Rightarrow> int list \<Rightarrow> int list list \<Rightarrow> gref \<Rightarrow> int" where
  "lane_leaf lg n N v curs r = (if fst r = KS then (take n v @ concat curs) ! snd r else v ! loc lg n N r)"

text \<open>The values \<open>VS\<close> of the graph's nodes, as the slots of the passes hold them.\<close>

definition lane_holds :: "lgraph \<Rightarrow> nat \<Rightarrow> nat \<Rightarrow> nat \<Rightarrow> int list \<Rightarrow> int list list \<Rightarrow> int list \<Rightarrow> int list list \<Rightarrow> int list \<Rightarrow> bool" where
  "lane_holds lg n N M v curs v1 ws VS \<longleftrightarrow>
    (\<forall>s < node_base lg n. v1 ! s = v ! s) \<and> (\<forall>i < N. v1 ! (node_base lg n + i) = VS ! i) \<and>
    (\<forall>k < length curs. (\<forall>s < node_base lg n + N. ws ! k ! s = v1 ! s)
      \<and> (\<forall>i < n. ws ! k ! (node_base lg n + N + i) = curs ! k ! i)
      \<and> (\<forall>j < M. ws ! k ! (node_base lg n + N + n + j) = VS ! (N + k * M + j)))"

lemma leaf_in_below: "leaf_in lg n r \<Longrightarrow> loc lg n N r < node_base lg n"
  by (auto simp: leaf_in_def loc_def node_base_def split: rkind.splits)

lemma leaf_reads:
  assumes "leaf_in lg n r" "n \<le> length v"
  shows "ref_val (lane_leaf lg n N v curs) vs r = v ! loc lg n N r"
proof -
  have "loc lg n N r < length (take n v) \<and> loc lg n N r = snd r" if "fst r = KS" using assms that by (simp add: leaf_in_def loc_def)
  moreover have "fst r \<noteq> KN" using assms(1) by (auto simp: leaf_in_def)
  ultimately show ?thesis by (auto simp: ref_val_def lane_leaf_def nth_append)
qed

lemma primal_reads:
  assumes h: "lane_holds lg n N M v curs v1 ws VS" and r: "primal_in lg n j r" "j \<le> N" and v: "n \<le> length v"
  shows "ref_val (lane_leaf lg n N v curs) ((!) VS) r = v1 ! loc lg n N r"
proof (cases "leaf_in lg n r")
  case True
  then show ?thesis using leaf_reads [OF True v, of N curs] leaf_in_below [OF True, of N] h by (simp add: lane_holds_def)
next
  case False
  then obtain i where "r = (KN, i)" "i < N" using r by (cases r) (auto simp: primal_in_def)
  moreover have "v1 ! (node_base lg n + i) = VS ! i" if "i < N" for i using h that by (simp add: lane_holds_def)
  ultimately show ?thesis by (simp add: loc_def)
qed

lemma tangent_reads:
  assumes h: "lane_holds lg n N M v curs v1 ws VS" and r: "tangent_in lg n N j r" "j \<le> M" and v: "n \<le> length v"
    and k: "k < length curs" and c: "\<forall>c \<in> set curs. length c = n"
  shows "ref_val (lane_leaf lg n N v curs) ((!) VS) (copy_ref n k (N + k * M) r) = ws ! k ! loc lg n N r"
proof -
  have w: "\<And>s. s < node_base lg n + N \<Longrightarrow> ws ! k ! s = v1 ! s" "\<And>i. i < n \<Longrightarrow> ws ! k ! (node_base lg n + N + i) = curs ! k ! i"
    "\<And>j. j < M \<Longrightarrow> ws ! k ! (node_base lg n + N + n + j) = VS ! (N + k * M + j)" using h k by (auto simp: lane_holds_def)
  obtain kd i where ri: "r = (kd, i)" by (cases r)
  consider "kd = KD" "i < j" | "kd = KT" "i < n" | "kd = KN" "i < N" | "leaf_in lg n r" "kd \<noteq> KT" "kd \<noteq> KD"
    using r(1) unfolding tangent_in_def ri by (cases kd) (auto simp: leaf_in_def)
  then show ?thesis
  proof cases
    case 1
    then show ?thesis using w(3) [of i] r(2) by (simp add: ri copy_ref_def loc_def)
  next
    case 2
    have "concat curs ! (k * n + i) = curs ! k ! i" using concat_blocks(2) [OF c k 2(2)] .
    moreover have "(take n v @ concat curs) ! (n * (k + 1) + i) = concat curs ! (k * n + i)"
      using v by (simp add: nth_append mult.commute)
    ultimately show ?thesis using 2 w(2) [of i] by (simp add: ri copy_ref_def loc_def lane_leaf_def)
  next
    case 3
    then have "ws ! k ! (node_base lg n + i) = VS ! i" using w(1) [of "node_base lg n + i"] h by (simp add: lane_holds_def)
    then show ?thesis using 3 by (simp add: ri copy_ref_def loc_def)
  next
    case 4
    have "copy_ref n k (N + k * M) r = r" using 4(2,3) by (cases kd) (simp_all add: ri copy_ref_def)
    then show ?thesis using leaf_reads [OF 4(1) v, of N curs] leaf_in_below [OF 4(1), of N] w(1) h by (simp add: lane_holds_def)
  qed
qed

text \<open>A node of the program computes what the graph's node computes.\<close>

lemma node_computes:
  assumes "nodes_read ok nds out" "j < length nds" "\<And>r. ok j r \<Longrightarrow> rv (h r) = x ! lc r"
  shows "fns (fst (map (node_at (lc \<circ> cref)) nds ! j)) (map ((!) x) (snd (map (node_at (lc \<circ> cref)) nds ! j)))
    = fns (fst (map (node_at (h \<circ> cref)) nds ! j)) (map rv (snd (map (node_at (h \<circ> cref)) nds ! j)))"
proof -
  obtain op args label where nd: "nds ! j = (op, args, label)" by (cases "nds ! j")
  then have "\<forall>a \<in> set args. ok j (cref a)" using assms(1,2) by (auto simp: nodes_read_def)
  then have "map ((!) x \<circ> (lc \<circ> cref)) args = map (rv \<circ> (h \<circ> cref)) args" using assms(3) by auto
  then show ?thesis using assms(2) by (simp add: nd node_at_def del: map_eq_conv)
qed

lemma outs_compute:
  assumes "nodes_read ok nds out" "\<And>r. ok (length nds) r \<Longrightarrow> rv (h r) = x ! lc r"
  shows "map rv (map (h \<circ> cref) out) = map ((!) x) (map (lc \<circ> cref) out)"
  using assms by (auto simp: nodes_read_def)

lemma blocks_all:
  "(\<forall>i < (N :: nat) + T * M. P i) \<longleftrightarrow> (\<forall>j < N. P j) \<and> (\<forall>k < T. \<forall>j < M. P (N + k * M + j))"
proof (intro iffI conjI allI impI)
  fix k j assume a: "\<forall>i < N + T * M. P i" "k < T" "j < M"
  have "k * M + j < (k + 1) * M" using a(3) by simp
  also have "\<dots> \<le> T * M" using a(2) by (intro mult_le_mono) auto
  finally show "P (N + k * M + j)" using a(1) by simp
next
  fix i assume a: "(\<forall>j < N. P j) \<and> (\<forall>k < T. \<forall>j < M. P (N + k * M + j))" "i < N + T * M"
  show "P i"
  proof (cases "i < N")
    case False
    then have d: "i - N < T * M" using a(2) by simp
    then have "0 < M" by (cases M) auto
    have "(i - N) div M < T" using d by (rule less_mult_imp_div_less)
    then have "P (N + (i - N) div M * M + (i - N) mod M)" using a(1) mod_less_divisor [OF \<open>0 < M\<close>] by blast
    moreover have "N + (i - N) div M * M + (i - N) mod M = i" using False by (simp add: add.assoc del: add_diff_assoc)
    ultimately show ?thesis by simp
  qed (use a in blast)
qed auto

lemma step_nodes_nth:
  assumes "length pn = N" "length (o_nodes ts) = M"
  shows "length (map (node_at cref) pn @ copies n N ts [0 ..< T]) = N + T * M"
    "j < N \<Longrightarrow> (map (node_at cref) pn @ copies n N ts [0 ..< T]) ! j = node_at cref (pn ! j)"
    "k < T \<Longrightarrow> j < M \<Longrightarrow> (map (node_at cref) pn @ copies n N ts [0 ..< T]) ! (N + k * M + j)
      = map (node_at (copy_ref n k (N + k * M) \<circ> cref)) (o_nodes ts) ! j"
proof -
  let ?B = "map (\<lambda>k. map (node_at (copy_ref n k (N + k * length (o_nodes ts)) \<circ> cref)) (o_nodes ts)) [0 ..< T]"
  have b: "\<forall>xs \<in> set ?B. length xs = M" using assms(2) by simp
  show "length (map (node_at cref) pn @ copies n N ts [0 ..< T]) = N + T * M"
    using concat_blocks(1) [OF b] assms(1) by (simp add: copies_def)
  show "j < N \<Longrightarrow> (map (node_at cref) pn @ copies n N ts [0 ..< T]) ! j = node_at cref (pn ! j)"
    using assms(1) by (simp add: nth_append)
  assume "k < T" "j < M"
  then have "concat ?B ! (k * M + j) = ?B ! k ! j" by (intro concat_blocks(2) [OF b]) simp_all
  then show "(map (node_at cref) pn @ copies n N ts [0 ..< T]) ! (N + k * M + j)
      = map (node_at (copy_ref n k (N + k * M) \<circ> cref)) (o_nodes ts) ! j"
    using assms \<open>k < T\<close> by (simp add: copies_def nth_append add.assoc)
qed

lemma values_evals:
  assumes pr: "nodes_read (primal_in lg n) pn po" and tr: "nodes_read (tangent_in lg n N) (o_nodes ts) to"
    and N: "length pn = N" and M: "length (o_nodes ts) = M" and v: "n \<le> length v" and c: "\<forall>c \<in> set curs. length c = n"
    and h: "lane_holds lg n N M v curs v1 ws VS"
  defines "pc \<equiv> map (node_at (loc lg n N \<circ> cref)) pn" and "tc \<equiv> map (node_at (loc lg n N \<circ> cref)) (o_nodes ts)"
  shows "evals fns (lane_leaf lg n N v curs) (map (node_at cref) pn @ copies n N ts [0 ..< length curs]) ((!) VS) ((!) FS) \<longleftrightarrow>
    (\<forall>j < N. fns (fst (pc ! j)) (map ((!) v1) (snd (pc ! j))) = Inr (v1 ! (node_base lg n + j), FS ! j)) \<and>
    (\<forall>k < length curs. \<forall>j < M. fns (fst (tc ! j)) (map ((!) (ws ! k)) (snd (tc ! j)))
      = Inr (ws ! k ! (node_base lg n + N + n + j), FS ! (N + k * M + j)))"
proof -
  let ?rv = "ref_val (lane_leaf lg n N v curs) ((!) VS)"
  note S = step_nodes_nth [OF N M]
  have p: "fns (fst (pc ! j)) (map ((!) v1) (snd (pc ! j))) = fns (fst (node_at cref (pn ! j))) (map ?rv (snd (node_at cref (pn ! j))))"
    if "j < N" for j
    using node_computes [OF pr, of j ?rv "\<lambda>r. r" v1 "loc lg n N" fns] primal_reads [OF h _ _ v] that N
    by (simp add: pc_def comp_def)
  have t: "fns (fst (tc ! j)) (map ((!) (ws ! k)) (snd (tc ! j)))
      = fns (fst (map (node_at (copy_ref n k (N + k * M) \<circ> cref)) (o_nodes ts) ! j))
        (map ?rv (snd (map (node_at (copy_ref n k (N + k * M) \<circ> cref)) (o_nodes ts) ! j)))"
    if "k < length curs" "j < M" for k j
    unfolding tc_def by (rule node_computes [OF tr]) (use that M tangent_reads [OF h _ _ v that(1) c] in auto)
  have vs: "v1 ! (node_base lg n + j) = VS ! j" if "j < N" for j using h that by (simp add: lane_holds_def)
  have ws: "ws ! k ! (node_base lg n + N + n + j) = VS ! (N + k * M + j)" if "k < length curs" "j < M" for k j
    using h that by (simp add: lane_holds_def)
  show ?thesis
    unfolding evals_def S(1) blocks_all using p t S(2,3) [where n = n and T = "length curs"] vs ws by auto
qed

lemma nodes_read_nth:
  assumes "nodes_read ok nds out" "j < length nds" "nds ! j = (op, args, label)"
  shows "OPS op \<noteq> None" "length args = ARITY (the (OPS op))" "\<And>a. a \<in> set args \<Longrightarrow> ok j (cref a)"
  using assms by (auto simp: nodes_read_def)

lemma nodes_read_outs: "nodes_read ok nds out \<Longrightarrow> a \<in> set out \<Longrightarrow> ok (length nds) (cref a)"
  by (simp add: nodes_read_def)

lemma primal_slots_ok:
  assumes "nodes_read (primal_in lg n) nds out" "node_base lg n + length nds \<le> L"
  shows "slots_ok (map (node_at (loc lg n N \<circ> cref)) nds) (node_base lg n) L"
    "\<forall>s \<in> set (map (loc lg n N \<circ> cref) out). s < L"
proof -
  have l: "loc lg n N r < node_base lg n + j" if "primal_in lg n j r" for r j
    using that leaf_in_below [of lg n r N] by (cases r) (auto simp: primal_in_def loc_def)
  have "length args = ARITY (the (OPS op)) \<and> (\<forall>a \<in> set args. loc lg n N (cref a) < node_base lg n + j)"
    if "j < length nds" "nds ! j = (op, args, label)" for j op args label
    using nodes_read_nth [OF assms(1) that] l by blast
  then show "slots_ok (map (node_at (loc lg n N \<circ> cref)) nds) (node_base lg n) L"
    using assms(2) ARITY_range by (fastforce simp: slots_ok_def node_at_def split: prod.split)
  show "\<forall>s \<in> set (map (loc lg n N \<circ> cref) out). s < L"
  proof
    fix s assume "s \<in> set (map (loc lg n N \<circ> cref) out)"
    then obtain a where a: "a \<in> set out" "s = loc lg n N (cref a)" by auto
    from l [OF nodes_read_outs [OF assms(1) a(1)]] show "s < L" using a(2) assms(2) by simp
  qed
qed

lemma tangent_slots_ok:
  assumes "nodes_read (tangent_in lg n N) nds out" "L = node_base lg n + N + n + length nds"
  shows "slots_ok (map (node_at (loc lg n N \<circ> cref)) nds) (node_base lg n + N + n) L"
    "\<forall>s \<in> set (map (loc lg n N \<circ> cref) out). s < L"
proof -
  have l: "loc lg n N r < node_base lg n + N + n + j" if "tangent_in lg n N j r" for r j
    using that leaf_in_below [of lg n r N] by (cases r) (auto simp: tangent_in_def loc_def)
  have "length args = ARITY (the (OPS op)) \<and> (\<forall>a \<in> set args. loc lg n N (cref a) < node_base lg n + N + n + j)"
    if "j < length nds" "nds ! j = (op, args, label)" for j op args label
    using nodes_read_nth [OF assms(1) that] l by blast
  then show "slots_ok (map (node_at (loc lg n N \<circ> cref)) nds) (node_base lg n + N + n) L"
    using assms(2) ARITY_range by (fastforce simp: slots_ok_def node_at_def split: prod.split)
  show "\<forall>s \<in> set (map (loc lg n N \<circ> cref) out). s < L"
  proof
    fix s assume "s \<in> set (map (loc lg n N \<circ> cref) out)"
    then obtain a where a: "a \<in> set out" "s = loc lg n N (cref a)" by auto
    from l [OF nodes_read_outs [OF assms(1) a(1)]] show "s < L" using a(2) assms(2) by simp
  qed
qed

text \<open>A lane: as many slots as the program has, and the vectors of the tangents.\<close>

definition lane_ok :: "lgraph \<Rightarrow> nat \<Rightarrow> lsection \<Rightarrow> nat \<Rightarrow> lane_state \<Rightarrow> bool" where
  "lane_ok lg n stp T w \<longleftrightarrow>
    length (w_v w) = node_base lg n + length (s_nodes stp) + n + length (s_nodes (tangent_of lg))
    \<and> length (w_cur w) = T \<and> (\<forall>c \<in> set (w_cur w). length c = n)"

lemma lane_once_iff:
  assumes pr: "nodes_read (primal_in lg n) (s_nodes stp) (s_out stp)"
    and tr: "nodes_read (tangent_in lg n (length (s_nodes stp))) (s_nodes (tangent_of lg)) (s_out (tangent_of lg))"
    and ok: "lane_ok lg n stp T w"
  defines "lc \<equiv> loc lg n (length (s_nodes stp)) \<circ> cref" and "b \<equiv> node_base lg n + length (s_nodes stp)"
  shows "lane_once fns (prog_of lg n stp) w = Inr w' \<longleftrightarrow>
    (\<exists>v1 fs ws fss. code_leaves fns (map (node_at lc) (s_nodes stp)) (node_base lg n) (w_v w) v1 fs
      \<and> all3 (\<lambda>c x fs. code_leaves fns (map (node_at lc) (s_nodes (tangent_of lg))) (b + n) (set_slice v1 b (b + n) c) x fs)
          (w_cur w) ws fss
      \<and> w' = \<lparr>w_v = set_slice (last (v1 # ws)) 0 n (map ((!) v1) (map lc (s_out stp))),
              w_cur = map (\<lambda>x. map ((!) x) (map lc (s_out (tangent_of lg)))) ws,
              w_flags = w_flags w OR or_all (concat fss), w_pflags = w_pflags w OR or_all fs\<rparr>)"
proof -
  let ?q = "prog_of lg n stp" and ?N = "length (s_nodes stp)" and ?M = "length (s_nodes (tangent_of lg))"
  let ?pc = "map (node_at lc) (s_nodes stp)" and ?tc = "map (node_at lc) (s_nodes (tangent_of lg))"
  let ?L = "b + n + ?M"
  have q: "q_code ?q = int_code ?pc" "b_node (q_map ?q) = int (node_base lg n)" "q_outs ?q = map int (map lc (s_out stp))"
    "q_tcode ?q = int_code ?tc" "q_touts ?q = map int (map lc (s_out (tangent_of lg)))" "b_own (q_map ?q) = int (b + n)"
    "b_tangent (q_map ?q) = int b" "q_n ?q = n"
    by (simp_all add: prog_of_def Let_def slots_of_def node_base_def lc_def b_def comp_def)
  have L: "length (w_v w) = ?L" "\<forall>c \<in> set (w_cur w). length c = n" using ok by (simp_all add: lane_ok_def b_def)
  have P: "slots_ok ?pc (node_base lg n) (length (w_v w))" "\<forall>s \<in> set (map lc (s_out stp)). s < ?L"
    using primal_slots_ok [OF pr, of ?L] L(1) by (simp_all add: lc_def b_def)
  have Tg: "slots_ok ?tc (b + n) (b + n + length ?tc)" "\<forall>s \<in> set (map lc (s_out (tangent_of lg))). s < b + n + length ?tc"
    using tangent_slots_ok [OF tr, of ?L] by (simp_all add: lc_def b_def)
  have ex: "execute fns (q_code ?q) (w_v w) (b_node (q_map ?q)) 0 = Inr (v1, f) \<longleftrightarrow>
      (\<exists>fs. code_leaves fns ?pc (node_base lg n) (w_v w) v1 fs \<and> f = or_all fs)" for v1 f
    unfolding q(1,2) using execute_iff [OF P(1), of fns 0] by simp
  have outs: "map_r (py_index v1) (q_outs ?q) = Inr (map ((!) v1) (map lc (s_out stp)))" if "length v1 = ?L" for v1 :: "int list"
    unfolding q(3) using P(2) that by (intro map_r_py_index) simp
  have tp: "fold_r (tangent_pass fns ?q) (v1, [], w_flags w) (w_cur w) = Inr (v2, cur', f) \<longleftrightarrow>
      (\<exists>ws fss. all3 (\<lambda>c x fs. code_leaves fns ?tc (b + n) (set_slice v1 b (b + n) c) x fs) (w_cur w) ws fss
        \<and> v2 = last (v1 # ws) \<and> cur' = [] @ map (\<lambda>x. map ((!) x) (map lc (s_out (tangent_of lg)))) ws
        \<and> f = w_flags w OR or_all (concat fss))" if "length v1 = ?L" for v1 v2 cur' f
    by (rule passes_iff [OF q(4,5,6,7,8) Tg(1) refl Tg(2) _ L(2)]) (use that in auto)
  have len: "length v1 = ?L" if "code_leaves fns ?pc (node_base lg n) (w_v w) v1 fs" for v1 fs
    using that L(1) by (simp add: code_leaves_def)
  show ?thesis (is "?l \<longleftrightarrow> ?r")
  proof
    assume ?l
    then obtain v1 f nxt v2 cur' f2 where a: "execute fns (q_code ?q) (w_v w) (b_node (q_map ?q)) 0 = Inr (v1, f)"
      "map_r (py_index v1) (q_outs ?q) = Inr nxt" "fold_r (tangent_pass fns ?q) (v1, [], w_flags w) (w_cur w) = Inr (v2, cur', f2)"
      "w' = \<lparr>w_v = set_slice v2 0 (q_n ?q) nxt, w_cur = cur', w_flags = f2, w_pflags = w_pflags w OR f\<rparr>"
      by (auto simp: lane_once_def bind_r_eq_Inr)
    obtain fs where fs: "code_leaves fns ?pc (node_base lg n) (w_v w) v1 fs" "f = or_all fs" using a(1) unfolding ex by blast
    note l = len [OF fs(1)]
    obtain ws fss where ws: "all3 (\<lambda>c x fs. code_leaves fns ?tc (b + n) (set_slice v1 b (b + n) c) x fs) (w_cur w) ws fss"
      "v2 = last (v1 # ws)" "cur' = map (\<lambda>x. map ((!) x) (map lc (s_out (tangent_of lg)))) ws" "f2 = w_flags w OR or_all (concat fss)"
      using a(3) unfolding tp [OF l] append_Nil by blast
    have "nxt = map ((!) v1) (map lc (s_out stp))" using a(2) outs [OF l] by (simp only: sum.inject)
    then have "w' = \<lparr>w_v = set_slice (last (v1 # ws)) 0 n (map ((!) v1) (map lc (s_out stp))),
        w_cur = map (\<lambda>x. map ((!) x) (map lc (s_out (tangent_of lg)))) ws,
        w_flags = w_flags w OR or_all (concat fss), w_pflags = w_pflags w OR or_all fs\<rparr>"
      using fs(2) ws(2-4) a(4) q(8) by simp
    then show ?r using fs(1) ws(1) by blast
  next
    assume ?r
    then obtain v1 fs ws fss where r: "code_leaves fns ?pc (node_base lg n) (w_v w) v1 fs"
      "all3 (\<lambda>c x fs. code_leaves fns ?tc (b + n) (set_slice v1 b (b + n) c) x fs) (w_cur w) ws fss"
      "w' = \<lparr>w_v = set_slice (last (v1 # ws)) 0 n (map ((!) v1) (map lc (s_out stp))),
             w_cur = map (\<lambda>x. map ((!) x) (map lc (s_out (tangent_of lg)))) ws,
             w_flags = w_flags w OR or_all (concat fss), w_pflags = w_pflags w OR or_all fs\<rparr>" by blast
    note l = len [OF r(1)]
    have "execute fns (q_code ?q) (w_v w) (b_node (q_map ?q)) 0 = Inr (v1, or_all fs)" using r(1) unfolding ex by blast
    moreover have "fold_r (tangent_pass fns ?q) (v1, [], w_flags w) (w_cur w)
        = Inr (last (v1 # ws), map (\<lambda>x. map ((!) x) (map lc (s_out (tangent_of lg)))) ws, w_flags w OR or_all (concat fss))"
      unfolding tp [OF l] using r(2) by auto
    ultimately show ?l using outs [OF l] q(8) r(3) by (simp add: lane_once_def)
  qed
qed

lemma evals_prefix: "evals sem leaf (as @ bs) vs fs \<Longrightarrow> evals sem leaf as vs fs"
  unfolding evals_def
proof (intro allI impI)
  fix j assume a: "\<forall>j < length (as @ bs). sem (fst ((as @ bs) ! j)) (map (ref_val leaf vs) (snd ((as @ bs) ! j))) = Inr (vs j, fs j)"
    and j: "j < length as"
  show "sem (fst (as ! j)) (map (ref_val leaf vs) (snd (as ! j))) = Inr (vs j, fs j)"
    using a [rule_format, of j] j by (simp add: nth_append)
qed

lemma topo_prefix: "topo (as @ bs) \<Longrightarrow> topo as"
  unfolding topo_def
proof (intro allI impI)
  fix j i assume a: "\<forall>j < length (as @ bs). \<forall>i. (KN, i) \<in> set (snd ((as @ bs) ! j)) \<longrightarrow> i < j" "j < length as" "(KN, i) \<in> set (snd (as ! j))"
  show "i < j" using a(1) [rule_format, of j i] a(2,3) by (simp add: nth_append)
qed

text \<open>The passes' slots hold a valuation of the graph.\<close>

lemma passes_hold:
  assumes L: "length v = b + n + M" and b: "b = node_base lg n + N" and c: "\<forall>c \<in> set curs. length c = n"
    and pc: "length pc = N" "code_leaves fns pc (node_base lg n) v v1 fs" and tc: "length tc = M"
    and a: "all3 (\<lambda>c x fs. code_leaves fns tc (b + n) (set_slice v1 b (b + n) c) x fs) curs ws fss"
  shows "lane_holds lg n N M v curs v1 ws (take N (drop (node_base lg n) v1) @ concat (map (drop (b + n)) ws))"
    "\<And>k s. k < length curs \<Longrightarrow> s < b \<Longrightarrow> ws ! k ! s = v1 ! s" "\<And>k. k < length curs \<Longrightarrow> length (ws ! k) = b + n + M"
proof -
  have l1: "length v1 = b + n + M" using pc(2) L by (simp add: code_leaves_def)
  have A: "length ws = length curs" "\<And>k. k < length curs \<Longrightarrow> code_leaves fns tc (b + n) (set_slice v1 b (b + n) (curs ! k)) (ws ! k) (fss ! k)"
    using a unfolding all3_nth by blast+
  have lc: "length (curs ! k) = n" if "k < length curs" for k using c that by simp
  have ls: "length (set_slice v1 b (b + n) (curs ! k)) = b + n + M" if "k < length curs" for k
    using lc [OF that] l1 by (simp add: length_set_slice)
  show lw: "length (ws ! k) = b + n + M" if "k < length curs" for k using A(2) [OF that] ls [OF that] by (simp add: code_leaves_def)
  have fr: "ws ! k ! s = set_slice v1 b (b + n) (curs ! k) ! s" if "k < length curs" "s < b + n" for k s
    using code_leaves_frame [OF A(2) [OF that(1)], of s] that ls by simp
  show below: "ws ! k ! s = v1 ! s" if "k < length curs" "s < b" for k s
    using fr [OF that(1), of s] that lc l1 by (simp add: nth_set_slice)
  have inp: "ws ! k ! (b + i) = curs ! k ! i" if "k < length curs" "i < n" for k i
    using fr [OF that(1), of "b + i"] that lc l1 by (simp add: nth_set_slice)
  let ?B = "map (drop (b + n)) ws"
  have blk: "\<forall>xs \<in> set ?B. length xs = M" using lw A(1) by (auto simp: in_set_conv_nth)
  have nd: "ws ! k ! (b + n + j) = concat ?B ! (k * M + j)" if "k < length curs" "j < M" for k j
    using concat_blocks(2) [OF blk, of k j] that A(1) lw by simp
  have lt: "length (take N (drop (node_base lg n) v1)) = N" using l1 b by simp
  show "lane_holds lg n N M v curs v1 ws (take N (drop (node_base lg n) v1) @ concat ?B)"
    unfolding lane_holds_def
  proof (intro conjI allI impI)
    fix s assume "s < node_base lg n"
    then show "v1 ! s = v ! s" using code_leaves_frame [OF pc(2), of s] L b by simp
  next
    fix i assume "i < N"
    then show "v1 ! (node_base lg n + i) = (take N (drop (node_base lg n) v1) @ concat ?B) ! i" using l1 b by (simp add: nth_append)
  next
    fix k s assume "k < length curs" "s < node_base lg n + N"
    then show "ws ! k ! s = v1 ! s" using below b by simp
  next
    fix k i assume "k < length curs" "i < n"
    then show "ws ! k ! (node_base lg n + N + i) = curs ! k ! i" using inp b by simp
  next
    fix k j assume "k < length curs" "j < M"
    then show "ws ! k ! (node_base lg n + N + n + j) = (take N (drop (node_base lg n) v1) @ concat ?B) ! (N + k * M + j)"
      using nd b lt by (simp add: nth_append add.assoc)
  qed
qed

text \<open>
  The nodes and the outputs of the graph that goes with a lane's program: the primal step, and a copy of the
  tangent section for each vector.
\<close>

definition wide_nodes :: "lgraph \<Rightarrow> nat \<Rightarrow> lsection \<Rightarrow> nat \<Rightarrow> gnode list" where
  "wide_nodes lg n stp T = map (node_at cref) (s_nodes stp)
    @ copies n (length (s_nodes stp)) \<lparr>o_out = s_out (tangent_of lg), o_nodes = s_nodes (tangent_of lg)\<rparr> [0 ..< T]"

definition wide_outs :: "lgraph \<Rightarrow> nat \<Rightarrow> lsection \<Rightarrow> nat \<Rightarrow> gref list" where
  "wide_outs lg n stp T = map cref (s_out stp)
    @ copy_outs n (length (s_nodes stp)) \<lparr>o_out = s_out (tangent_of lg), o_nodes = s_nodes (tangent_of lg)\<rparr> [0 ..< T]"

lemma step_of_lane:
  assumes pr: "nodes_read (primal_in lg n) (s_nodes stp) (s_out stp)" and lo: "length (s_out stp) = n"
    and tr: "nodes_read (tangent_in lg n (length (s_nodes stp))) (s_nodes (tangent_of lg)) (s_out (tangent_of lg))"
    and to: "T \<noteq> 0 \<Longrightarrow> length (s_out (tangent_of lg)) = n" and ok: "lane_ok lg n stp T w"
    and wf: "topo (wide_nodes lg n stp T)" "out_refs_ok (wide_nodes lg n stp T) (wide_outs lg n stp T)"
      "out_refs_ok (map (node_at cref) (s_nodes stp)) (map cref (s_out stp))"
    and once: "lane_once fns (prog_of lg n stp) w = Inr w'"
  defines "leaf \<equiv> lane_leaf lg n (length (s_nodes stp)) (w_v w) (w_cur w)"
  shows "\<exists>fp ft. step_result fns leaf (wide_nodes lg n stp T) (wide_outs lg n stp T) = Inr (take n (w_v w') @ concat (w_cur w'), fp OR ft)
      \<and> step_result fns leaf (map (node_at cref) (s_nodes stp)) (map cref (s_out stp)) = Inr (take n (w_v w'), fp)
      \<and> w_flags w' = w_flags w OR ft \<and> w_pflags w' = w_pflags w OR fp \<and> lane_ok lg n stp T w'
      \<and> (\<forall>s. n \<le> s \<longrightarrow> s < node_base lg n \<longrightarrow> w_v w' ! s = w_v w ! s)"
proof -
  let ?N = "length (s_nodes stp)" and ?M = "length (s_nodes (tangent_of lg))" and ?bn = "node_base lg n"
  let ?b = "?bn + ?N" and ?lc = "loc lg n ?N \<circ> cref"
  let ?pc = "map (node_at ?lc) (s_nodes stp)" and ?tc = "map (node_at ?lc) (s_nodes (tangent_of lg))"
  let ?ts = "\<lparr>o_out = s_out (tangent_of lg), o_nodes = s_nodes (tangent_of lg)\<rparr>"
  have L: "length (w_v w) = ?b + n + ?M" "length (w_cur w) = T" "\<forall>c \<in> set (w_cur w). length c = n"
    using ok by (simp_all add: lane_ok_def)
  obtain v1 fs ws fss where r: "code_leaves fns ?pc ?bn (w_v w) v1 fs"
    "all3 (\<lambda>c x fs. code_leaves fns ?tc (?b + n) (set_slice v1 ?b (?b + n) c) x fs) (w_cur w) ws fss"
    "w' = \<lparr>w_v = set_slice (last (v1 # ws)) 0 n (map ((!) v1) (map ?lc (s_out stp))),
           w_cur = map (\<lambda>x. map ((!) x) (map ?lc (s_out (tangent_of lg)))) ws,
           w_flags = w_flags w OR or_all (concat fss), w_pflags = w_pflags w OR or_all fs\<rparr>"
    using once unfolding lane_once_iff [OF pr tr ok] by blast
  let ?VS = "take ?N (drop ?bn v1) @ concat (map (drop (?b + n)) ws)" let ?FS = "fs @ concat fss"
  note H = passes_hold [OF L(1) refl L(3) _ r(1) _ r(2)]
  have h: "lane_holds lg n ?N ?M (w_v w) (w_cur w) v1 ws ?VS" by (rule H(1)) simp_all
  have below: "\<And>k s. k < T \<Longrightarrow> s < ?b \<Longrightarrow> ws ! k ! s = v1 ! s" and lw: "\<And>k. k < T \<Longrightarrow> length (ws ! k) = ?b + n + ?M"
    using H(2,3) L(2) by simp_all
  have A: "length ws = T" "length fss = T"
    "\<And>k. k < T \<Longrightarrow> code_leaves fns ?tc (?b + n) (set_slice v1 ?b (?b + n) (w_cur w ! k)) (ws ! k) (fss ! k)"
    using r(2) L(2) unfolding all3_nth by simp_all
  have lf: "length fs = ?N" using r(1) by (simp add: code_leaves_def)
  have bf: "\<forall>xs \<in> set fss. length xs = ?M" using A(2,3) by (auto simp: in_set_conv_nth code_leaves_def)
  have lv: "n \<le> length (w_v w)" using L(1) by simp
  have ev: "evals fns leaf (wide_nodes lg n stp T) ((!) ?VS) ((!) ?FS)"
  proof -
    have "fns (fst (?pc ! j)) (map ((!) v1) (snd (?pc ! j))) = Inr (v1 ! (?bn + j), ?FS ! j)" if "j < ?N" for j
      using code_leaves_node [OF r(1), of j] that lf by (simp add: nth_append)
    moreover have "fns (fst (?tc ! j)) (map ((!) (ws ! k)) (snd (?tc ! j))) = Inr (ws ! k ! (?bn + ?N + n + j), ?FS ! (?N + k * ?M + j))"
      if "k < T" "j < ?M" for k j
      using code_leaves_node [OF A(3) [OF that(1)], of j] concat_blocks(2) [OF bf, of k j] that A(2) lf
      by (simp add: nth_append add.assoc)
    ultimately show ?thesis
      using values_evals [where ts = ?ts and to = "s_out (tangent_of lg)", OF pr _ refl _ lv L(3) h] tr
      by (simp add: wide_nodes_def leaf_def L(2))
  qed
  let ?rv = "ref_val leaf ((!) ?VS)"
  have op: "map ?rv (map cref (s_out stp)) = map ((!) v1) (map ?lc (s_out stp))"
    using outs_compute [OF pr, of ?rv "\<lambda>r. r" v1 "loc lg n ?N"] primal_reads [OF h _ _ lv]
    by (simp add: leaf_def comp_def del: map_eq_conv)
  have ot: "map ?rv (copy_outs n ?N ?ts [0 ..< T]) = concat (map (\<lambda>x. map ((!) x) (map ?lc (s_out (tangent_of lg)))) ws)"
  proof -
    have k: "map ?rv (map (copy_ref n k (?N + k * ?M) \<circ> cref) (s_out (tangent_of lg))) = map ((!) (ws ! k)) (map ?lc (s_out (tangent_of lg)))"
      if "k < T" for k
      by (rule outs_compute [OF tr]) (use tangent_reads [OF h _ _ lv _ L(3)] that L(2) in \<open>simp add: leaf_def\<close>)
    have "map ?rv (copy_outs n ?N ?ts [0 ..< T])
        = concat (map (\<lambda>k. map ?rv (map (copy_ref n k (?N + k * ?M) \<circ> cref) (s_out (tangent_of lg)))) [0 ..< T])"
      by (simp add: copy_outs_def map_concat comp_def)
    also have "\<dots> = concat (map (\<lambda>k. map ((!) (ws ! k)) (map ?lc (s_out (tangent_of lg)))) [0 ..< T])"
      using k by (intro arg_cong [where f = concat] map_cong refl) (simp del: map_map)
    also have "\<dots> = concat (map (\<lambda>x. map ((!) x) (map ?lc (s_out (tangent_of lg)))) (map ((!) ws) [0 ..< T]))" by (simp add: comp_def)
    also have "map ((!) ws) [0 ..< T] = ws" using A(1) map_nth by blast
    finally show ?thesis .
  qed
  have lst: "T = 0 \<and> last (v1 # ws) = v1 \<or> T - 1 < T \<and> last (v1 # ws) = ws ! (T - 1)"
    using A(1) by (cases "T = 0") (auto simp: last_conv_nth)
  have ll: "length (last (v1 # ws)) = ?b + n + ?M" using lst lw [of "T - 1"] r(1) L(1) by (auto simp: code_leaves_def)
  have lnxt: "length (map ((!) v1) (map ?lc (s_out stp))) = n" using lo by simp
  have w': "take n (w_v w') = map ((!) v1) (map ?lc (s_out stp))" "w_cur w' = map (\<lambda>x. map ((!) x) (map ?lc (s_out (tangent_of lg)))) ws"
    using lnxt by (simp_all add: r(3) set_slice_def)
  have lS: "length (wide_nodes lg n stp T) = ?N + T * ?M"
    using step_nodes_nth(1) [of "s_nodes stp" ?N ?ts ?M n T] by (simp add: wide_nodes_def)
  have "length ?FS = ?N + T * ?M" using lf concat_blocks(1) [OF bf] A(2) by simp
  then have "map ((!) ?FS) [0 ..< length (wide_nodes lg n stp T)] = ?FS" by (metis lS map_nth)
  then have fl: "or_all (map ((!) ?FS) [0 ..< length (wide_nodes lg n stp T)]) = or_all fs OR or_all (concat fss)"
    by (simp only: or_all_append)
  have "step_result fns leaf (wide_nodes lg n stp T) (wide_outs lg n stp T)
      = Inr (take n (w_v w') @ concat (w_cur w'), or_all fs OR or_all (concat fss))"
  proof -
    have "map ?rv (wide_outs lg n stp T) = take n (w_v w') @ concat (w_cur w')" using op ot w' unfolding wide_outs_def map_append by presburger
    then show ?thesis unfolding step_result_iff [OF wf(1,2)] using ev fl by (intro exI [of _ "(!) ?VS"] exI [of _ "(!) ?FS"]) simp
  qed
  moreover have "step_result fns leaf (map (node_at cref) (s_nodes stp)) (map cref (s_out stp)) = Inr (take n (w_v w'), or_all fs)"
  proof -
    have "map ((!) ?FS) [0 ..< ?N] = fs" using lf by (intro nth_equalityI) (simp_all add: nth_append)
    moreover have "evals fns leaf (map (node_at cref) (s_nodes stp)) ((!) ?VS) ((!) ?FS)"
      using ev unfolding wide_nodes_def by (rule evals_prefix)
    ultimately show ?thesis
      unfolding step_result_iff [OF topo_prefix [OF wf(1) [unfolded wide_nodes_def]] wf(3)] using op w'(1) by (metis length_map)
  qed
  moreover have "lane_ok lg n stp T w'"
  proof -
    have "\<forall>c \<in> set (w_cur w'). length c = n" using to A(1) w'(2) by (cases "T = 0") auto
    then show ?thesis using lnxt ll A(1) by (simp add: lane_ok_def r(3) length_set_slice)
  qed
  moreover have "w_v w' ! s = w_v w ! s" if s: "n \<le> s" "s < ?bn" for s
  proof -
    have "last (v1 # ws) ! s = v1 ! s"
      using lst below [of "T - 1" s] s by auto
    moreover have "v1 ! s = w_v w ! s" using h s by (simp add: lane_holds_def)
    moreover have "w_v w' ! s = last (v1 # ws) ! s"
      using s lnxt ll by (simp add: r(3) set_slice_def nth_append)
    ultimately show ?thesis by simp
  qed
  ultimately show ?thesis by (intro exI [of _ "or_all fs"] exI [of _ "or_all (concat fss)"]) (simp add: r(3))
qed

text \<open>And a valuation of the graph is held by the slots of passes.\<close>

lemma lane_of_step:
  assumes pr: "nodes_read (primal_in lg n) (s_nodes stp) (s_out stp)"
    and tr: "nodes_read (tangent_in lg n (length (s_nodes stp))) (s_nodes (tangent_of lg)) (s_out (tangent_of lg))"
    and ok: "lane_ok lg n stp T w"
    and wf: "topo (wide_nodes lg n stp T)" "out_refs_ok (wide_nodes lg n stp T) (wide_outs lg n stp T)"
    and step: "step_result fns (lane_leaf lg n (length (s_nodes stp)) (w_v w) (w_cur w)) (wide_nodes lg n stp T) (wide_outs lg n stp T) = Inr y"
  shows "\<exists>w'. lane_once fns (prog_of lg n stp) w = Inr w'"
proof -
  let ?N = "length (s_nodes stp)" and ?M = "length (s_nodes (tangent_of lg))" and ?bn = "node_base lg n"
  let ?b = "?bn + ?N" and ?lc = "loc lg n ?N \<circ> cref" and ?v = "w_v w" and ?curs = "w_cur w"
  let ?pc = "map (node_at ?lc) (s_nodes stp)" and ?tc = "map (node_at ?lc) (s_nodes (tangent_of lg))"
  let ?ts = "\<lparr>o_out = s_out (tangent_of lg), o_nodes = s_nodes (tangent_of lg)\<rparr>" and ?nodes = "wide_nodes lg n stp T"
  have L: "length ?v = ?b + n + ?M" "length ?curs = T" "\<forall>c \<in> set ?curs. length c = n" using ok by (simp_all add: lane_ok_def)
  obtain vf ff where ev0: "evals fns (lane_leaf lg n ?N ?v ?curs) ?nodes vf ff" using step unfolding step_result_iff [OF wf] by blast
  let ?VS = "map vf [0 ..< ?N + T * ?M]" and ?FS = "map ff [0 ..< ?N + T * ?M]"
  have lS: "length ?nodes = ?N + T * ?M"
    using step_nodes_nth(1) [of "s_nodes stp" ?N ?ts ?M n T] by (simp add: wide_nodes_def)
  have ev: "evals fns (lane_leaf lg n ?N ?v ?curs) ?nodes ((!) ?VS) ((!) ?FS)"
    unfolding evals_def lS
  proof (intro allI impI)
    fix j assume j: "j < ?N + T * ?M"
    have "i < ?N + T * ?M" if "(KN, i) \<in> set (snd (?nodes ! j))" for i
      using topo_nth [OF wf(1) _ that] j lS by simp
    then have "map (ref_val (lane_leaf lg n ?N ?v ?curs) ((!) ?VS)) (snd (?nodes ! j))
        = map (ref_val (lane_leaf lg n ?N ?v ?curs) vf) (snd (?nodes ! j))"
      by (intro ref_val_cong) simp
    then show "fns (fst (?nodes ! j)) (map (ref_val (lane_leaf lg n ?N ?v ?curs) ((!) ?VS)) (snd (?nodes ! j))) = Inr (?VS ! j, ?FS ! j)"
      using ev0 j lS by (simp add: evals_def del: map_eq_conv)
  qed
  define v1 where "v1 = take ?bn ?v @ take ?N ?VS @ drop ?b ?v"
  define ws where "ws = map (\<lambda>k. take ?b v1 @ ?curs ! k @ map (\<lambda>j. ?VS ! (?N + k * ?M + j)) [0 ..< ?M]) [0 ..< T]"
  define fss where "fss = map (\<lambda>k. map (\<lambda>j. ?FS ! (?N + k * ?M + j)) [0 ..< ?M]) [0 ..< T]"
  have l1: "length v1 = ?b + n + ?M" using L(1) by (simp add: v1_def)
  have lc: "length (?curs ! k) = n" if "k < T" for k using L(2,3) that by simp
  have w: "ws ! k = take ?b v1 @ ?curs ! k @ map (\<lambda>j. ?VS ! (?N + k * ?M + j)) [0 ..< ?M]" if "k < T" for k
    using that by (simp add: ws_def)
  have w1: "v1 ! s = ?v ! s" if "s < ?bn" for s using that L(1) by (simp add: v1_def nth_append)
  have w1': "v1 ! s = ?v ! s" if "?b \<le> s" for s using that L(1) by (auto simp: v1_def nth_append)
  have w2: "v1 ! (?bn + i) = ?VS ! i" if "i < ?N" for i using that L(1) by (simp add: v1_def nth_append)
  have w3: "ws ! k ! s = v1 ! s" if "k < T" "s < ?b" for k s using that l1 w by (simp add: nth_append)
  have w4: "ws ! k ! (?b + i) = ?curs ! k ! i" if "k < T" "i < n" for k i using that l1 w lc by (simp add: nth_append)
  have w5: "ws ! k ! (?b + n + j) = ?VS ! (?N + k * ?M + j)" if "k < T" "j < ?M" for k j
    using that l1 w lc by (simp add: nth_append)
  have h: "lane_holds lg n ?N ?M ?v ?curs v1 ws ?VS" using w1 w2 w3 w4 w5 L(2) by (simp add: lane_holds_def del: nth_map)
  have nv: "n \<le> length ?v" using L(1) by simp
  have tr': "nodes_read (tangent_in lg n ?N) (o_nodes ?ts) (s_out (tangent_of lg))" using tr by simp
  have E: "(\<forall>j < ?N. fns (fst (?pc ! j)) (map ((!) v1) (snd (?pc ! j))) = Inr (v1 ! (?bn + j), ?FS ! j)) \<and>
    (\<forall>k < T. \<forall>j < ?M. fns (fst (?tc ! j)) (map ((!) (ws ! k)) (snd (?tc ! j))) = Inr (ws ! k ! (?bn + ?N + n + j), ?FS ! (?N + k * ?M + j)))"
    using values_evals [where fns = fns and FS = ?FS, OF pr tr' refl _ nv L(3) h] ev unfolding wide_nodes_def L(2) by simp
  have cl1: "code_leaves fns ?pc ?bn ?v v1 (take ?N ?FS)"
    unfolding code_leaves_def
  proof (intro conjI allI impI)
    fix s assume "s < length ?v" "s < ?bn \<or> ?bn + length ?pc \<le> s"
    then show "v1 ! s = ?v ! s" using w1 w1' by auto
  next
    fix j assume "j < length ?pc"
    then show "fns (fst (?pc ! j)) (map ((!) v1) (snd (?pc ! j))) = Inr (v1 ! (?bn + j), take ?N ?FS ! j)" using E by simp
  qed (use L(1) l1 in simp_all)
  have cl2: "code_leaves fns ?tc (?b + n) (set_slice v1 ?b (?b + n) (?curs ! k)) (ws ! k) (fss ! k)" if k: "k < T" for k
  proof -
    have ls: "length (set_slice v1 ?b (?b + n) (?curs ! k)) = ?b + n + ?M" using lc [OF k] l1 by (simp add: length_set_slice)
    have lw: "length (ws ! k) = ?b + n + ?M" using w [OF k] l1 lc [OF k] by simp
    have fr: "ws ! k ! s = set_slice v1 ?b (?b + n) (?curs ! k) ! s" if "s < ?b + n" for s
      using that k lc [OF k] l1 w [OF k] by (auto simp: set_slice_def nth_append)
    show ?thesis
      unfolding code_leaves_def
    proof (intro conjI allI impI)
      fix s assume "s < length (set_slice v1 ?b (?b + n) (?curs ! k))" "s < ?b + n \<or> ?b + n + length ?tc \<le> s"
      then show "ws ! k ! s = set_slice v1 ?b (?b + n) (?curs ! k) ! s" using fr ls by auto
    next
      fix j assume j: "j < length ?tc"
      then have "fss ! k ! j = ?FS ! (?N + k * ?M + j)" using k by (simp add: fss_def)
      then show "fns (fst (?tc ! j)) (map ((!) (ws ! k)) (snd (?tc ! j))) = Inr (ws ! k ! (?b + n + j), fss ! k ! j)"
        using E k j by simp
    qed (use ls lw k in \<open>simp_all add: fss_def\<close>)
  qed
  have "all3 (\<lambda>c x fs. code_leaves fns ?tc (?b + n) (set_slice v1 ?b (?b + n) c) x fs) ?curs ws fss"
    unfolding all3_nth using cl2 L(2) by (simp add: ws_def fss_def)
  then show ?thesis unfolding lane_once_iff [OF pr tr ok] using cl1 by blast
qed

end
