(* ===== verification/OpsLaws.thy ===== *)
theory OpsLaws
  imports Interp FoldRight
begin

text \<open>
  The golden operations keep the laws the lowering relies on: additions, multiplications and the multiplicands of
  a fused multiply-add commute bit for bit and flag for flag, NaN operands included, and a sign change moves from
  one multiplicand to the other.
\<close>

lemma nan_result_swap: "nan_result fmt [u, v] = nan_result fmt [v, u]" "nan_result fmt [u, v, w] = nan_result fmt [v, u, w]"
  by (simp_all add: nan_result_def disj_ac)

lemma add_commute: "add fmt a b rnd = add fmt b a rnd"
  by (cases "u_kind (unpack fmt a)"; cases "u_kind (unpack fmt b)")
    (simp_all add: add_def Let_def nan_result_swap min.commute add.commute eq_commute [of "u_sign (unpack fmt b)" "u_sign (unpack fmt a)"])

lemma mul_commute: "mul fmt a b rnd = mul fmt b a rnd"
  by (simp add: mul_def Let_def nan_result_swap [of fmt "unpack fmt a"] xor.commute mult.commute add.commute disj_commute)

lemma fma_commute: "fma fmt a b c rnd = fma fmt b a c rnd"
  by (simp add: fma_def Let_def nan_result_swap(2) [of fmt "unpack fmt a"] xor.commute mult.commute add.commute disj_ac)

lemma masked_xor:
  "(x XOR sign_mask fmt) AND man_mask fmt = x AND man_mask fmt"
  "drop_bit (man_w fmt) (x XOR sign_mask fmt) AND exp_mask fmt = drop_bit (man_w fmt) x AND exp_mask fmt"
proof -
  show "(x XOR sign_mask fmt) AND man_mask fmt = x AND man_mask fmt"
    by (rule bit_eqI) (auto simp: bit_and_iff bit_xor_iff sign_mask_eq man_mask_eq bit_exp_iff mask_eq_exp_minus_1 [symmetric] bit_mask_iff)
  show "drop_bit (man_w fmt) (x XOR sign_mask fmt) AND exp_mask fmt = drop_bit (man_w fmt) x AND exp_mask fmt"
    by (rule bit_eqI) (auto simp: bit_and_iff bit_xor_iff sign_mask_eq exp_mask_eq bit_exp_iff bit_drop_bit_eq
      mask_eq_exp_minus_1 [symmetric] bit_mask_iff)
qed

lemma sign_xor:
  "drop_bit (width fmt - 1) (x XOR sign_mask fmt) AND 1 = 1 - (drop_bit (width fmt - 1) x AND 1)"
proof -
  let ?n = "exp_w fmt + man_w fmt"
  have b: "drop_bit ?n y AND 1 = (if bit y ?n then 1 else 0)" for y :: int
    by (rule bit_eqI) (auto simp: bit_and_iff bit_drop_bit_eq bit_1_iff intro: gr0I)
  show ?thesis unfolding width_minus_1 [unfolded One_nat_def [symmetric]] b by (simp add: bit_xor_iff sign_mask_eq bit_exp_iff)
qed

lemma unpack_flip: "unpack fmt (x XOR sign_mask fmt) = (unpack fmt x)\<lparr>u_sign := 1 - u_sign (unpack fmt x)\<rparr>"
  unfolding unpack_def Let_def masked_xor sign_xor by (simp add: mk_unpacked_def)

lemma unpack_sign: "u_sign (unpack fmt x) = 0 \<or> u_sign (unpack fmt x) = 1"
  by (auto simp: unpack_def Let_def and_one_eq)

lemma sign_moves: "(1 - u_sign (unpack fmt a)) XOR u_sign (unpack fmt b) = u_sign (unpack fmt a) XOR (1 - u_sign (unpack fmt b))"
  using unpack_sign [of fmt a] unpack_sign [of fmt b] by auto

lemma nan_result_flip:
  "nan_result fmt (map (\<lambda>u. u\<lparr>u_sign := s u\<rparr>) us) = nan_result fmt us"
  by (simp add: nan_result_def list_ex_iff)

lemma mul_flip: "mul fmt (a XOR sign_mask fmt) b rnd = mul fmt a (b XOR sign_mask fmt) rnd"
  by (simp add: mul_def Let_def unpack_flip sign_moves nan_result_def)

lemma fma_flip: "fma fmt (a XOR sign_mask fmt) b c rnd = fma fmt a (b XOR sign_mask fmt) c rnd"
  by (simp add: fma_def Let_def unpack_flip sign_moves nan_result_def)

interpretation golden: flipping_ops "ops tr fmt rnd" "\<lambda>x. x XOR sign_mask fmt"
proof
  fix a b c :: int
  show "ops tr fmt rnd O_add [a, b] = ops tr fmt rnd O_add [b, a]" by (simp add: ops_def add_commute)
  show "ops tr fmt rnd O_mul [a, b] = ops tr fmt rnd O_mul [b, a]" by (simp add: ops_def mul_commute)
  show "ops tr fmt rnd O_fma [a, b, c] = ops tr fmt rnd O_fma [b, a, c]" by (simp add: ops_def fma_commute)
  show "ops tr fmt rnd O_neg [a] = Inr (a XOR sign_mask fmt, 0)" by (simp add: ops_def neg_def)
  show "ops tr fmt rnd O_mul [a XOR sign_mask fmt, b] = ops tr fmt rnd O_mul [a, b XOR sign_mask fmt]"
    by (simp add: ops_def mul_flip)
  show "ops tr fmt rnd O_fma [a XOR sign_mask fmt, b, c] = ops tr fmt rnd O_fma [a, b XOR sign_mask fmt, c]"
    by (simp add: ops_def fma_flip)
qed

end
