(* ===== verification/Schedule.thy ===== *)
theory Schedule
  imports Lower
begin

text \<open>
  The orders a step's operations are computed in and what an order costs (\<^verbatim>\<open>cftc/schedule.py\<close>). The two loops that
  need not end on an arbitrary graph, the walk from the outputs and the list scheduler, are partial functions; the
  scheduler's state keeps Python's names. A dictionary read that may miss is a \<open>KeyError\<close>. The instructions of a
  body (\<^verbatim>\<open>regalloc.Ins\<close>) are here too, with the cost model that reads them.
\<close>

section \<open>Candidates\<close>

definition LAT :: nat where "LAT = 17"
definition FAST_LOAD :: nat where "FAST_LOAD = 3"
definition LANDED :: nat where "LANDED = 3"

definition CANDIDATES :: "(string \<times> nat) list" where
  "CANDIDATES = [(''graph'', 0), (''pressure'', 0), (''latency'', 0), (''integrated'', 2), (''integrated'', 4), (''integrated'', 8)]"

definition TANGENT_CANDIDATES :: "(string \<times> nat) list" where
  "TANGENT_CANDIDATES = [(''interleaved'', 0)]"

definition sched_candidates :: "lowered \<Rightarrow> (string \<times> nat) list" where
  "sched_candidates low = CANDIDATES @ (if g_tangent (w_graph low) \<noteq> [] then TANGENT_CANDIDATES else [])"

section \<open>The walk from the outputs\<close>

definition walk_roots :: "lowered \<Rightarrow> gref list" where
  "walk_roots low =
    (let n = g_n_primal (w_graph low); T = length (g_tangent (w_graph low))
     in concat (map (\<lambda>i. w_outs low ! i # map (\<lambda>k. w_outs low ! (n * (k + 1) + i)) [0 ..< T]) [0 ..< n]))"

text \<open>
  The inner loop: the top frame advances over its operands, a node not yet seen is pushed, a node whose operands
  are through is left. The value is what has been seen, in the order it was left.
\<close>

partial_function (option) walk_from :: "lnode list \<Rightarrow> nat list \<Rightarrow> (nat \<times> nat) list \<Rightarrow> nat list option" where
  "walk_from nodes out stack =
    (case stack of
       [] \<Rightarrow> Some out
     | (j, a) # rest \<Rightarrow>
         if a < length (n_args (nodes ! j)) then
           let r = n_args (nodes ! j) ! a in
           if fst r = KN \<and> snd r \<notin> set out then walk_from nodes out ((snd r, 0) # (j, a + 1) # rest)
           else walk_from nodes out ((j, a + 1) # rest)
         else walk_from nodes (if j \<notin> set out then out @ [j] else out) rest)"

fun walk_all :: "lnode list \<Rightarrow> nat list \<Rightarrow> gref list \<Rightarrow> nat list option" where
  "walk_all nodes out [] = Some out"
| "walk_all nodes out (r # rs) =
    (if fst r \<noteq> KN \<or> snd r \<in> set out then walk_all nodes out rs
     else case walk_from nodes out [(snd r, 0)] of None \<Rightarrow> None | Some out' \<Rightarrow> walk_all nodes out' rs)"

definition interleaved :: "lowered \<Rightarrow> nat list option" where
  "interleaved low =
    (case walk_all (w_nodes low) [] (walk_roots low) of
       None \<Rightarrow> None
     | Some out \<Rightarrow> Some (out @ filter (\<lambda>j. j \<notin> set out) [0 ..< length (w_nodes low)]))"

section \<open>The dependence graph\<close>

text \<open>The nodes that read a node, once for each operand, and the height of the critical path from it.\<close>

definition dag_succ :: "lnode list \<Rightarrow> nat \<Rightarrow> nat list" where
  "dag_succ nodes i = concat (map (\<lambda>(j, nd). map (\<lambda>r. j) (filter (\<lambda>r. r = (KN, i)) (n_args nd))) (enumerate 0 nodes))"

definition dag_height :: "lnode list \<Rightarrow> nat list" where
  "dag_height nodes =
    foldl (\<lambda>h j. h[j := LAT + Max (insert 0 ((\<lambda>s. h ! s) ` set (dag_succ nodes j)))])
      (replicate (length nodes) 0) (rev [0 ..< length nodes])"

section \<open>The list scheduler\<close>

definition min_key :: "('a \<Rightarrow> 'b::linorder) \<Rightarrow> 'a list \<Rightarrow> 'a" where
  "min_key key xs = foldl (\<lambda>b x. if key x < key b then x else b) (hd xs) (tl xs)"

definition is_value :: "gref \<Rightarrow> bool" where
  "is_value r \<longleftrightarrow> fst r = KS \<or> fst r = KL \<or> fst r = KN"

definition is_input :: "gref \<Rightarrow> bool" where
  "is_input r \<longleftrightarrow> fst r = KS \<or> fst r = KL"

record sched =
  c_indeg :: "nat list"
  c_remaining :: "gref \<rightharpoonup> nat"
  c_live :: "gref list"
  c_ready :: "nat list"
  c_issued :: "nat \<rightharpoonup> nat"
  c_t :: nat
  c_out :: "nat list"

record sched_env =
  e_nodes :: "lnode list"
  e_height :: "nat list"
  e_pinned :: "gref list"

text \<open>When a node's operands have landed.\<close>

definition landed_at :: "sched_env \<Rightarrow> sched \<Rightarrow> nat \<Rightarrow> nat result" where
  "landed_at e s j =
    bind_r (map_r (\<lambda>r. bind_r (dict_get (c_issued s) (snd r)) (\<lambda>t. Inr (t + LAT)))
       (filter (\<lambda>r. fst r = KN) (n_args (e_nodes e ! j)))) (\<lambda>ts. Inr (Max (insert 0 (set ts))))"

definition pick_latency :: "sched_env \<Rightarrow> sched \<Rightarrow> (nat \<times> nat) result" where
  "pick_latency e s =
    bind_r (map_r (\<lambda>j. bind_r (landed_at e s j) (\<lambda>l. Inr (j, l))) (c_ready s)) (\<lambda>lands.
    let cands = filter (\<lambda>(j, l). l \<le> c_t s) lands
    in if cands \<noteq> [] then Inr (fst (min_key (\<lambda>(j, l). (- int (e_height e ! j), j)) cands), c_t s)
       else Inr (min_key (\<lambda>(j, l). (l, - int (e_height e ! j), j)) lands))"

text \<open>Whether a node is the last use of an operand and needs no state or lane value not yet in use.\<close>

definition relieves :: "sched_env \<Rightarrow> sched \<Rightarrow> nat \<Rightarrow> bool" where
  "relieves e s j =
    (let rs = filter is_value (n_args (e_nodes e ! j)); uniq = remdups rs;
         kills = length (filter (\<lambda>r. r \<in> set (c_live s)
            \<and> (case c_remaining s r of None \<Rightarrow> 0 | Some k \<Rightarrow> k) = count_list rs r \<and> r \<notin> set (e_pinned e)) uniq);
         new = length (filter (\<lambda>r. is_input r \<and> r \<notin> set (c_live s)) uniq)
     in kills \<noteq> 0 \<and> new = 0)"

definition pick_pressure :: "sched_env \<Rightarrow> sched \<Rightarrow> nat \<times> nat" where
  "pick_pressure e s =
    (let good = filter (relieves e s) (c_ready s)
     in (if good = [] then min_key id (c_ready s) else min_key id good, c_t s))"

definition sched_pick :: "string \<Rightarrow> nat \<Rightarrow> nat \<Rightarrow> sched_env \<Rightarrow> sched \<Rightarrow> (nat \<times> nat) result" where
  "sched_pick name margin budget e s =
    (if name = ''latency'' then pick_latency e s
     else if name = ''pressure'' then Inr (pick_pressure e s)
     else if int (length (c_live s)) < int budget - int margin then pick_latency e s
     else Inr (pick_pressure e s))"

text \<open>An operand used: one use fewer, and a state or lane value is live.\<close>

definition use_operand :: "sched \<Rightarrow> gref \<Rightarrow> sched result" where
  "use_operand s r =
    (if is_value r then
       bind_r (dict_get (c_remaining s) r) (\<lambda>k.
       Inr (s\<lparr>c_remaining := (c_remaining s)(r \<mapsto> k - 1),
              c_live := (if is_input r then List.insert r (c_live s) else c_live s)\<rparr>))
     else Inr s)"

definition drop_operand :: "sched_env \<Rightarrow> sched \<Rightarrow> gref \<Rightarrow> sched result" where
  "drop_operand e s r =
    (if is_value r then
       bind_r (dict_get (c_remaining s) r) (\<lambda>k.
       Inr (if k = 0 \<and> r \<notin> set (e_pinned e) then s\<lparr>c_live := removeAll r (c_live s)\<rparr> else s))
     else Inr s)"

definition release_succ :: "nat list \<times> nat list \<Rightarrow> nat \<Rightarrow> nat list \<times> nat list" where
  "release_succ = (\<lambda>(indeg, ready) s.
    let k = indeg ! s - 1 in (indeg[s := k], if k = 0 then ready @ [s] else ready))"

definition sched_issue :: "sched_env \<Rightarrow> sched \<Rightarrow> nat \<Rightarrow> nat \<Rightarrow> sched result" where
  "sched_issue e s j t =
    (let args = n_args (e_nodes e ! j);
         s1 = s\<lparr>c_ready := remove1 j (c_ready s), c_out := c_out s @ [j], c_issued := (c_issued s)(j \<mapsto> t), c_t := t + 1\<rparr> in
     bind_r (fold_r use_operand s1 args) (\<lambda>s2.
     bind_r (fold_r (drop_operand e) s2 (remdups args)) (\<lambda>s3.
     let live = (case c_remaining s3 (KN, j) of Some k \<Rightarrow> if k \<noteq> 0 then List.insert (KN, j) (c_live s3) else c_live s3
                 | None \<Rightarrow> c_live s3);
         (indeg, ready) = foldl release_succ (c_indeg s3, c_ready s3) (dag_succ (e_nodes e) j)
     in Inr (s3\<lparr>c_live := live, c_indeg := indeg, c_ready := ready\<rparr>))))"

partial_function (option) sched_loop :: "string \<Rightarrow> nat \<Rightarrow> nat \<Rightarrow> sched_env \<Rightarrow> sched \<Rightarrow> nat list result option" where
  "sched_loop name margin budget e s =
    (if c_ready s = [] then Some (Inr (c_out s))
     else case sched_pick name margin budget e s of
       Inl err \<Rightarrow> Some (Inl err)
     | Inr (j, t) \<Rightarrow>
        (case sched_issue e s j t of
           Inl err \<Rightarrow> Some (Inl err)
         | Inr s' \<Rightarrow> sched_loop name margin budget e s'))"

definition operand_counts :: "lnode list \<Rightarrow> gref \<rightharpoonup> nat" where
  "operand_counts nodes =
    (let rs = filter is_value (concat (map n_args nodes))
     in (\<lambda>r. if r \<in> set rs then Some (count_list rs r) else None))"

definition sched_order :: "lowered \<Rightarrow> string \<Rightarrow> nat \<Rightarrow> gref list \<Rightarrow> nat \<Rightarrow> nat list result option" where
  "sched_order low name margin pinned budget =
    (let nodes = w_nodes low; n = length nodes in
     if name = ''graph'' then Some (Inr [0 ..< n])
     else if name = ''interleaved'' then map_option Inr (interleaved low)
     else
       let indeg = map (\<lambda>nd. length (filter (\<lambda>r. fst r = KN) (n_args nd))) nodes;
           s0 = \<lparr>c_indeg = indeg, c_remaining = operand_counts nodes, c_live = remdups pinned,
                 c_ready = filter (\<lambda>j. indeg ! j = 0) [0 ..< n], c_issued = (\<lambda>_. None), c_t = 0, c_out = []\<rparr>;
           e = \<lparr>e_nodes = nodes, e_height = dag_height nodes, e_pinned = remdups pinned\<rparr>
       in case sched_loop name margin budget e s0 of
            None \<Rightarrow> None
          | Some (Inl err) \<Rightarrow> Some (Inl err)
          | Some (Inr out) \<Rightarrow> Some (if length out \<noteq> n then Inl AssertionError else Inr out))"

section \<open>The cost of a body\<close>

datatype ins_kind = I_alu | I_copy | I_ldl | I_stl | I_quiet | I_endquiet | I_raise | I_index | I_repeat | I_endrep | I_ldx | I_stx

datatype ins_src = InReg nat | InBank nat | InBase nat

record ins =
  y_kind :: ins_kind
  y_rd :: nat
  y_srcs :: "ins_src list"
  y_slot :: nat

definition ins_reads :: "ins \<Rightarrow> nat list" where
  "ins_reads i = concat (map (\<lambda>s. case s of InReg r \<Rightarrow> [r] | _ \<Rightarrow> []) (y_srcs i))"

text \<open>A body as it executes: a call loop's body once a call. A loop that is not closed runs off the list.\<close>

function (sequential) unrolled :: "ins list \<Rightarrow> ins list result" where
  "unrolled [] = Inr []"
| "unrolled (i # is) =
    (if y_kind i \<noteq> I_repeat then bind_r (unrolled is) (\<lambda>xs. Inr (i # xs))
     else case dropWhile (\<lambda>x. y_kind x \<noteq> I_endrep) is of
       [] \<Rightarrow> Inl IndexError
     | e # rest \<Rightarrow>
         bind_r (unrolled rest) (\<lambda>xs.
         Inr (i # concat (replicate (y_slot i) (takeWhile (\<lambda>x. y_kind x \<noteq> I_endrep) is @ [e])) @ xs)))"
  by pat_completeness auto

termination
proof (relation "measure length")
  fix i and js :: "ins list" and e rest
  assume "dropWhile (\<lambda>x. y_kind x \<noteq> I_endrep) js = e # rest"
  then have "length (e # rest) \<le> length js" by (metis length_dropWhile_le)
  then show "(rest, i # js) \<in> measure length" by simp
qed simp_all

record cost_state =
  k_ready :: "nat \<rightharpoonup> nat"
  k_land :: nat
  k_t :: nat
  k_store :: bool
  k_ldx :: bool

definition ready_at :: "cost_state \<Rightarrow> nat \<Rightarrow> nat" where
  "ready_at c r = (case k_ready c r of None \<Rightarrow> 0 | Some t \<Rightarrow> t)"

definition cost_ins :: "nat \<Rightarrow> cost_state \<Rightarrow> ins \<Rightarrow> cost_state" where
  "cost_ins beats c i =
    (if y_kind i \<in> {I_quiet, I_endquiet, I_repeat, I_endrep} then c\<lparr>k_t := k_t c + 1, k_store := False, k_ldx := False\<rparr>
     else
       let s0 = foldl (\<lambda>st (k, r).
              let landed = y_kind i = I_raise \<or> y_kind i = I_ldx \<or> (y_kind i = I_stx \<and> k = 1)
              in max st (ready_at c r + (if landed then LANDED else 0))) (k_t c) (enumerate 0 (ins_reads i));
           s1 = (if y_kind i = I_ldl \<and> k_store c then max s0 (k_t c + 2) else s0);
           start = (if y_kind i \<noteq> I_ldx \<and> k_ldx c then max s1 (k_t c + 2) else s1);
           c1 = (if y_kind i \<in> {I_alu, I_copy, I_index} then
                   c\<lparr>k_ready := (k_ready c)(y_rd i \<mapsto> start + LAT), k_land := max (k_land c) (start + LAT)\<rparr>
                 else if y_kind i \<in> {I_ldl, I_ldx} then
                   c\<lparr>k_ready := (k_ready c)(y_rd i \<mapsto> start + (if start < k_land c then LAT else FAST_LOAD)
                      + (if y_kind i = I_ldx then 2 else 0))\<rparr>
                 else c)
       in c1\<lparr>k_t := start + beats, k_store := y_kind i \<in> {I_stl, I_stx}, k_ldx := y_kind i = I_ldx\<rparr>)"

text \<open>Three steps from a cold start; the last one's length is the steady state's.\<close>

definition cycles :: "ins list \<Rightarrow> nat \<Rightarrow> int result" where
  "cycles body beats =
    bind_r (unrolled body) (\<lambda>steps.
    let once = (\<lambda>c. let c' = foldl (cost_ins beats) c steps in c'\<lparr>k_t := k_t c' + 1\<rparr>);
        c2 = once (once \<lparr>k_ready = (\<lambda>_. None), k_land = 0, k_t = 0, k_store = False, k_ldx = False\<rparr>);
        c3 = once c2
    in Inr (int (k_t c3) - int (k_t c2)))"

end
