(* ===== verification/ScheduleRight.thy ===== *)
theory ScheduleRight
  imports Schedule ShareRight
begin

text \<open>
  Every candidate order of a step is there and respects its dependences: the walk and the list scheduler end on a
  step whose nodes read earlier nodes, raise nothing, lose no node, and place each node once, after the nodes it
  reads.
\<close>

section \<open>Prefixes of an order\<close>

definition order_prefix :: "gnode list \<Rightarrow> nat list \<Rightarrow> bool" where
  "order_prefix nodes js \<longleftrightarrow> distinct js \<and> set js \<subseteq> {..< length nodes}
    \<and> (\<forall>p < length js. \<forall>i. (KN, i) \<in> set (snd (nodes ! (js ! p))) \<longrightarrow> i \<in> set (take p js))"

lemma order_prefix_Nil [simp]: "order_prefix nodes []"
  by (simp add: order_prefix_def)

lemma order_prefix_snoc:
  assumes "order_prefix nodes js" "j < length nodes" "j \<notin> set js" "\<And>i. (KN, i) \<in> set (snd (nodes ! j)) \<Longrightarrow> i \<in> set js"
  shows "order_prefix nodes (js @ [j])"
  using assms by (auto simp: order_prefix_def nth_append less_Suc_eq)

lemma order_prefix_valid: "order_prefix nodes js \<Longrightarrow> {..< length nodes} \<subseteq> set js \<Longrightarrow> valid_order nodes js"
  by (auto simp: order_prefix_def valid_order_def)

lemma order_prefix_reads:
  assumes "order_prefix nodes js" "j \<in> set js" "(KN, i) \<in> set (snd (nodes ! j))"
  shows "i \<in> set js"
proof -
  obtain p where "p < length js" "js ! p = j" using assms(2) by (auto simp: in_set_conv_nth)
  then have "i \<in> set (take p js)" using assms(1,3) by (auto simp: order_prefix_def)
  then show ?thesis by (rule in_set_takeD)
qed

section \<open>The walk\<close>

text \<open>The steps a node's subtree takes when nothing has been seen: what the walk uses up.\<close>

function walk_cost :: "lnode list \<Rightarrow> nat \<Rightarrow> nat" where
  "walk_cost nodes j =
    1 + sum_list (map (\<lambda>r. 1 + (if fst r = KN \<and> snd r < j then walk_cost nodes (snd r) else 0)) (n_args (nodes ! j)))"
  by pat_completeness auto
termination by (relation "measure snd") auto

declare walk_cost.simps [simp del]

definition ref_cost :: "lnode list \<Rightarrow> nat \<Rightarrow> gref \<Rightarrow> nat" where
  "ref_cost nodes j r = 1 + (if fst r = KN \<and> snd r < j then walk_cost nodes (snd r) else 0)"

definition frame_cost :: "lnode list \<Rightarrow> nat \<times> nat \<Rightarrow> nat" where
  "frame_cost nodes = (\<lambda>(j, a). 1 + sum_list (map (ref_cost nodes j) (drop a (n_args (nodes ! j)))))"

definition stack_cost :: "lnode list \<Rightarrow> (nat \<times> nat) list \<Rightarrow> nat" where
  "stack_cost nodes st = sum_list (map (frame_cost nodes) st)"

lemma frame_cost_new: "frame_cost nodes (j, 0) = walk_cost nodes j"
  by (subst walk_cost.simps) (simp add: frame_cost_def ref_cost_def [abs_def])

lemma frame_cost_step:
  "a < length (n_args (nodes ! j)) \<Longrightarrow> frame_cost nodes (j, a) = ref_cost nodes j (n_args (nodes ! j) ! a) + frame_cost nodes (j, a + 1)"
  by (simp add: frame_cost_def Cons_nth_drop_Suc [symmetric])

text \<open>The operands before the frame's position have been seen; the frame below waits for the one above.\<close>

definition seen_upto :: "lnode list \<Rightarrow> nat set \<Rightarrow> nat \<Rightarrow> nat \<Rightarrow> bool" where
  "seen_upto nodes seen j a \<longleftrightarrow> (\<forall>q < a. fst (n_args (nodes ! j) ! q) = KN \<longrightarrow> snd (n_args (nodes ! j) ! q) \<in> seen)"

fun waits_for :: "lnode list \<Rightarrow> nat set \<Rightarrow> nat \<Rightarrow> (nat \<times> nat) list \<Rightarrow> bool" where
  "waits_for nodes seen child [] = True"
| "waits_for nodes seen child ((j, a) # st) \<longleftrightarrow> j < length nodes \<and> 0 < a \<and> a \<le> length (n_args (nodes ! j))
    \<and> n_args (nodes ! j) ! (a - 1) = (KN, child) \<and> seen_upto nodes seen j (a - 1) \<and> waits_for nodes seen j st"

fun stack_ok :: "lnode list \<Rightarrow> nat set \<Rightarrow> (nat \<times> nat) list \<Rightarrow> bool" where
  "stack_ok nodes seen [] = True"
| "stack_ok nodes seen ((j, a) # st) \<longleftrightarrow> j < length nodes \<and> a \<le> length (n_args (nodes ! j))
    \<and> seen_upto nodes seen j a \<and> waits_for nodes seen j st"

lemma seen_upto_mono: "seen_upto nodes seen j a \<Longrightarrow> seen \<subseteq> seen' \<Longrightarrow> seen_upto nodes seen' j a"
  by (auto simp: seen_upto_def)

lemma waits_for_mono: "waits_for nodes seen child st \<Longrightarrow> seen \<subseteq> seen' \<Longrightarrow> waits_for nodes seen' child st"
proof (induction st arbitrary: child)
  case (Cons f st)
  then show ?case by (cases f) (auto intro: seen_upto_mono)
qed simp

lemma pop_stack_ok:
  assumes "waits_for nodes seen child st" "seen \<subseteq> seen'" "child \<in> seen'"
  shows "stack_ok nodes seen' st"
proof (cases st)
  case (Cons f rest)
  obtain j a where f: "f = (j, a)" by (cases f)
  have w: "j < length nodes" "0 < a" "a \<le> length (n_args (nodes ! j))" "n_args (nodes ! j) ! (a - 1) = (KN, child)"
    "seen_upto nodes seen j (a - 1)" "waits_for nodes seen j rest" using assms(1) by (auto simp: Cons f)
  have "seen_upto nodes seen' j a"
    unfolding seen_upto_def
  proof (intro allI impI)
    fix q assume q: "q < a" "fst (n_args (nodes ! j) ! q) = KN"
    show "snd (n_args (nodes ! j) ! q) \<in> seen'"
    proof (cases "q = a - 1")
      case True
      then show ?thesis using w(4) assms(3) by simp
    next
      case False
      then have "q < a - 1" using q(1) by simp
      then show ?thesis using w(5) assms(2) q(2) unfolding seen_upto_def by blast
    qed
  qed
  then show ?thesis using w waits_for_mono [OF w(6) assms(2)] by (simp add: Cons f)
qed simp

lemma walk_returns:
  assumes t: "topo (skeleton nodes)"
  shows "stack_ok nodes (set out) st \<Longrightarrow> order_prefix (skeleton nodes) out
    \<Longrightarrow> \<exists>out'. walk_from nodes out st = Some out' \<and> order_prefix (skeleton nodes) out'"
proof (induction "stack_cost nodes st" arbitrary: out st rule: less_induct)
  case less
  show ?case
  proof (cases st)
    case Nil
    then show ?thesis using less.prems by (subst walk_from.simps) simp
  next
    case (Cons f rest)
    obtain j a where f: "f = (j, a)" by (cases f)
    have j: "j < length nodes" "a \<le> length (n_args (nodes ! j))" "seen_upto nodes (set out) j a" "waits_for nodes (set out) j rest"
      using less.prems(1) by (auto simp: Cons f)
    let ?r = "n_args (nodes ! j) ! a"
    show ?thesis
    proof (cases "a < length (n_args (nodes ! j))")
      case True
      have rj: "snd ?r < j" if "fst ?r = KN"
      proof -
        have "?r = (KN, snd ?r)" using that by (cases ?r) simp
        then have "(KN, snd ?r) \<in> set (n_args (nodes ! j))" using nth_mem [OF True] by simp
        then show ?thesis using topo_nth [OF t, of j "snd ?r"] j(1) by simp
      qed
      show ?thesis
      proof (cases "fst ?r = KN \<and> snd ?r \<notin> set out")
        case push: True
        let ?st = "(snd ?r, 0) # (j, a + 1) # rest"
        have "?r = (KN, snd ?r)" using push by (cases ?r) simp
        then have "stack_ok nodes (set out) ?st" using j True rj push by (simp add: seen_upto_def)
        moreover have "stack_cost nodes ?st < stack_cost nodes st"
          using frame_cost_step [OF True] push rj by (simp add: stack_cost_def Cons f frame_cost_new ref_cost_def)
        ultimately obtain out' where "walk_from nodes out ?st = Some out'" "order_prefix (skeleton nodes) out'"
          using less.hyps less.prems(2) by blast
        then show ?thesis using True push by (subst walk_from.simps) (simp add: Cons f Let_def)
      next
        case skip: False
        let ?st = "(j, a + 1) # rest"
        have "seen_upto nodes (set out) j (a + 1)" using j(3) skip by (auto simp: seen_upto_def less_Suc_eq)
        then have "stack_ok nodes (set out) ?st" using j True by simp
        moreover have "stack_cost nodes ?st < stack_cost nodes st"
          using frame_cost_step [OF True] by (simp add: stack_cost_def Cons f ref_cost_def)
        ultimately obtain out' where "walk_from nodes out ?st = Some out'" "order_prefix (skeleton nodes) out'"
          using less.hyps less.prems(2) by blast
        then show ?thesis using True skip by (subst walk_from.simps) (auto simp: Cons f Let_def)
      qed
    next
      case False
      let ?out = "if j \<notin> set out then out @ [j] else out"
      have "a = length (n_args (nodes ! j))" using False j(2) by simp
      then have reads: "i \<in> set out" if "(KN, i) \<in> set (n_args (nodes ! j))" for i
        using j(3) that by (auto simp: seen_upto_def in_set_conv_nth) (metis fst_conv snd_conv)
      have "order_prefix (skeleton nodes) ?out"
        using order_prefix_snoc [OF less.prems(2), of j] j(1) reads less.prems(2) by auto
      moreover have "stack_ok nodes (set ?out) rest" by (rule pop_stack_ok [OF j(4)]) auto
      moreover have "stack_cost nodes rest < stack_cost nodes st" by (simp add: stack_cost_def Cons f frame_cost_def)
      ultimately obtain out' where "walk_from nodes ?out rest = Some out'" "order_prefix (skeleton nodes) out'"
        using less.hyps by blast
      then show ?thesis using False by (subst walk_from.simps) (simp add: Cons f)
    qed
  qed
qed

lemma walk_all_returns:
  assumes t: "topo (skeleton nodes)"
  shows "order_prefix (skeleton nodes) out \<Longrightarrow> (\<And>i. (KN, i) \<in> set rs \<Longrightarrow> i < length nodes)
    \<Longrightarrow> \<exists>out'. walk_all nodes out rs = Some out' \<and> order_prefix (skeleton nodes) out'"
proof (induction rs arbitrary: out)
  case (Cons r rs)
  have rl: "snd r < length nodes" if "fst r = KN" using Cons.prems(2) [of "snd r"] that by (cases r) auto
  show ?case
  proof (cases "fst r \<noteq> KN \<or> snd r \<in> set out")
    case True
    then show ?thesis using Cons by auto
  next
    case False
    then have "stack_ok nodes (set out) [(snd r, 0)]" using rl by (simp add: seen_upto_def)
    from walk_returns [OF t this Cons.prems(1)] obtain out1 where
      "walk_from nodes out [(snd r, 0)] = Some out1" "order_prefix (skeleton nodes) out1" by blast
    then show ?thesis using False Cons.IH [of out1] Cons.prems(2) by auto
  qed
qed simp

text \<open>The nodes the walk did not meet, in the graph's order.\<close>

lemma leftovers_prefix:
  assumes t: "topo nodes" and p: "order_prefix nodes out" and n: "n \<le> length nodes"
  shows "order_prefix nodes (out @ filter (\<lambda>j. j \<notin> set out) [0 ..< n])"
  using n
proof (induction n)
  case (Suc n)
  then have ih: "order_prefix nodes (out @ filter (\<lambda>j. j \<notin> set out) [0 ..< n])" by simp
  show ?case
  proof (cases "n \<in> set out")
    case False
    have "order_prefix nodes ((out @ filter (\<lambda>j. j \<notin> set out) [0 ..< n]) @ [n])"
    proof (rule order_prefix_snoc [OF ih])
      fix i assume "(KN, i) \<in> set (snd (nodes ! n))"
      then have "i < n" using topo_nth [OF t, of n i] Suc.prems by simp
      then show "i \<in> set (out @ filter (\<lambda>j. j \<notin> set out) [0 ..< n])" by auto
    qed (use Suc.prems False in auto)
    then show ?thesis using False by simp
  qed (use ih in simp)
qed (use p in simp)

lemma interleaved_valid:
  assumes t: "topo (skeleton (w_nodes low))" and r: "\<And>i. (KN, i) \<in> set (walk_roots low) \<Longrightarrow> i < length (w_nodes low)"
  shows "\<exists>js. interleaved low = Some js \<and> valid_order (skeleton (w_nodes low)) js"
proof -
  obtain out where o: "walk_all (w_nodes low) [] (walk_roots low) = Some out" "order_prefix (skeleton (w_nodes low)) out"
    using walk_all_returns [OF t order_prefix_Nil r] by blast
  have "order_prefix (skeleton (w_nodes low)) (out @ filter (\<lambda>j. j \<notin> set out) [0 ..< length (w_nodes low)])"
    by (rule leftovers_prefix [OF t o(2)]) simp
  then have "valid_order (skeleton (w_nodes low)) (out @ filter (\<lambda>j. j \<notin> set out) [0 ..< length (w_nodes low)])"
    by (rule order_prefix_valid) auto
  then show ?thesis by (simp add: interleaved_def o(1))
qed

section \<open>The list scheduler\<close>

lemma min_key_in: "xs \<noteq> [] \<Longrightarrow> min_key key xs \<in> set xs"
proof -
  have "foldl (\<lambda>b x. if key x < key b then x else b) b ys \<in> insert b (set ys)" for b ys
    by (induction ys arbitrary: b) auto
  then show "xs \<noteq> [] \<Longrightarrow> min_key key xs \<in> set xs" by (cases xs) (auto simp: min_key_def)
qed

definition waiting :: "lnode list \<Rightarrow> nat set \<Rightarrow> nat \<Rightarrow> nat" where
  "waiting nodes done j = length (filter (\<lambda>r. fst r = KN \<and> snd r \<notin> done) (n_args (nodes ! j)))"

definition sched_inv :: "lnode list \<Rightarrow> sched \<Rightarrow> bool" where
  "sched_inv nodes s \<longleftrightarrow> order_prefix (skeleton nodes) (c_out s)
    \<and> distinct (c_ready s) \<and> set (c_ready s) = {j. j < length nodes \<and> j \<notin> set (c_out s) \<and> waiting nodes (set (c_out s)) j = 0}
    \<and> length (c_indeg s) = length nodes \<and> (\<forall>j < length nodes. c_indeg s ! j = waiting nodes (set (c_out s)) j)
    \<and> (\<forall>j \<in> set (c_out s). c_issued s j \<noteq> None)
    \<and> (\<forall>nd \<in> set nodes. \<forall>r \<in> set (n_args nd). is_value r \<longrightarrow> c_remaining s r \<noteq> None)"

lemma waiting_zero: "waiting nodes done j = 0 \<longleftrightarrow> (\<forall>i. (KN, i) \<in> set (n_args (nodes ! j)) \<longrightarrow> i \<in> done)"
  by (auto simp: waiting_def filter_empty_conv)

lemma landed_at_total:
  assumes "\<And>i. (KN, i) \<in> set (n_args (e_nodes e ! j)) \<Longrightarrow> c_issued s i \<noteq> None"
  shows "\<exists>l. landed_at e s j = Inr l"
proof -
  have "map_r (\<lambda>r. bind_r (dict_get (c_issued s) (snd r)) (\<lambda>t. Inr (t + LAT))) (filter (\<lambda>r. fst r = KN) (n_args (e_nodes e ! j)))
    = Inr (map (\<lambda>r. the (c_issued s (snd r)) + LAT) (filter (\<lambda>r. fst r = KN) (n_args (e_nodes e ! j))))"
  proof (rule map_r_Inr [THEN iffD2], intro conjI allI impI)
    fix p assume p: "p < length (filter (\<lambda>r. fst r = KN) (n_args (e_nodes e ! j)))"
    let ?r = "filter (\<lambda>r. fst r = KN) (n_args (e_nodes e ! j)) ! p"
    have "?r \<in> set (n_args (e_nodes e ! j))" "fst ?r = KN" using nth_mem [OF p] by auto
    then have "c_issued s (snd ?r) \<noteq> None" using assms by (metis prod.collapse)
    then show "bind_r (dict_get (c_issued s) (snd ?r)) (\<lambda>t. Inr (t + LAT))
        = Inr (map (\<lambda>r. the (c_issued s (snd r)) + LAT) (filter (\<lambda>r. fst r = KN) (n_args (e_nodes e ! j))) ! p)"
      using p by (auto simp: dict_get_def)
  qed simp
  then show ?thesis by (simp add: landed_at_def)
qed

lemma pick_latency_ready:
  assumes "c_ready s \<noteq> []" "\<And>j. j \<in> set (c_ready s) \<Longrightarrow> \<exists>l. landed_at e s j = Inr l"
  shows "\<exists>j t. pick_latency e s = Inr (j, t) \<and> j \<in> set (c_ready s)"
proof -
  define land where "land = (\<lambda>j. projr (landed_at e s j))"
  have l: "landed_at e s j = Inr (land j)" if "j \<in> set (c_ready s)" for j using assms(2) [OF that] by (auto simp: land_def)
  let ?ls = "map (\<lambda>j. (j, land j)) (c_ready s)"
  have m: "map_r (\<lambda>j. bind_r (landed_at e s j) (\<lambda>l. Inr (j, l))) (c_ready s) = Inr ?ls"
    by (rule map_r_Inr [THEN iffD2]) (simp add: l)
  let ?c = "filter (\<lambda>(j, l). l \<le> c_t s) ?ls"
  have ls: "?ls \<noteq> []" using assms(1) by simp
  show ?thesis
  proof (cases "?c = []")
    case True
    have "min_key (\<lambda>(j, l). (l, - int (e_height e ! j), j)) ?ls \<in> set ?ls" by (rule min_key_in [OF ls])
    moreover have "pick_latency e s = Inr (min_key (\<lambda>(j, l). (l, - int (e_height e ! j), j)) ?ls)"
      using True by (simp add: pick_latency_def m Let_def)
    ultimately show ?thesis by auto
  next
    case False
    have "min_key (\<lambda>(j, l). (- int (e_height e ! j), j)) ?c \<in> set ?c" by (rule min_key_in [OF False])
    moreover have "pick_latency e s = Inr (fst (min_key (\<lambda>(j, l). (- int (e_height e ! j), j)) ?c), c_t s)"
      using False by (simp add: pick_latency_def m Let_def)
    ultimately show ?thesis by auto
  qed
qed

lemma pick_pressure_ready: "c_ready s \<noteq> [] \<Longrightarrow> fst (pick_pressure e s) \<in> set (c_ready s)"
  using min_key_in [of "c_ready s" id] min_key_in [of "filter (relieves e s) (c_ready s)" id]
  by (auto simp: pick_pressure_def Let_def)

lemma sched_pick_ready:
  assumes "c_ready s \<noteq> []" "\<And>j. j \<in> set (c_ready s) \<Longrightarrow> \<exists>l. landed_at e s j = Inr l"
  shows "\<exists>j t. sched_pick name margin budget e s = Inr (j, t) \<and> j \<in> set (c_ready s)"
  using pick_latency_ready [OF assms] pick_pressure_ready [OF assms(1), of e]
  by (auto simp: sched_pick_def) (metis prod.collapse)+

text \<open>The bookkeeping of uses keeps everything but the uses and the live values.\<close>

definition same_frame :: "sched \<Rightarrow> sched \<Rightarrow> bool" where
  "same_frame s s' \<longleftrightarrow> c_indeg s' = c_indeg s \<and> c_ready s' = c_ready s \<and> c_issued s' = c_issued s \<and> c_out s' = c_out s
    \<and> dom (c_remaining s') = dom (c_remaining s)"

lemma use_operands:
  assumes "\<And>r. r \<in> set rs \<Longrightarrow> is_value r \<Longrightarrow> c_remaining s r \<noteq> None"
  shows "\<exists>s'. fold_r use_operand s rs = Inr s' \<and> same_frame s s'"
  using assms
proof (induction rs arbitrary: s)
  case (Cons r rs)
  obtain s1 where s1: "use_operand s r = Inr s1" "same_frame s s1"
    using Cons.prems [of r] by (cases "is_value r") (auto simp: use_operand_def dict_get_def same_frame_def insert_absorb domI)
  have "\<exists>s'. fold_r use_operand s1 rs = Inr s' \<and> same_frame s1 s'"
    using Cons.prems s1(2) by (intro Cons.IH) (auto simp: same_frame_def dom_def)
  then show ?case using s1 by (auto simp: same_frame_def)
qed (simp add: same_frame_def)

lemma drop_operands:
  assumes "\<And>r. r \<in> set rs \<Longrightarrow> is_value r \<Longrightarrow> c_remaining s r \<noteq> None"
  shows "\<exists>s'. fold_r (drop_operand e) s rs = Inr s' \<and> same_frame s s'"
  using assms
proof (induction rs arbitrary: s)
  case (Cons r rs)
  obtain s1 where s1: "drop_operand e s r = Inr s1" "same_frame s s1"
    using Cons.prems [of r] by (cases "is_value r") (auto simp: drop_operand_def dict_get_def same_frame_def)
  have "\<exists>s'. fold_r (drop_operand e) s1 rs = Inr s' \<and> same_frame s1 s'"
    using Cons.prems s1(2) by (intro Cons.IH) (auto simp: same_frame_def dom_def)
  then show ?case using s1 by (auto simp: same_frame_def)
qed (simp add: same_frame_def)

lemma release_succs:
  assumes "distinct ready" "\<And>x. x \<in> set ss \<Longrightarrow> x < length indeg \<and> count_list ss x \<le> indeg ! x \<and> x \<notin> set ready"
  shows "\<exists>indeg' ready'. foldl release_succ (indeg, ready) ss = (indeg', ready') \<and> length indeg' = length indeg
    \<and> (\<forall>x < length indeg. indeg' ! x = indeg ! x - count_list ss x) \<and> distinct ready'
    \<and> set ready' = set ready \<union> {x \<in> set ss. indeg ! x = count_list ss x}"
  using assms
proof (induction ss arbitrary: indeg ready)
  case (Cons y ss)
  let ?k = "indeg ! y - 1"
  let ?i = "indeg[y := ?k]" and ?r = "if ?k = 0 then ready @ [y] else ready"
  have y: "y < length indeg" "Suc (count_list ss y) \<le> indeg ! y" "y \<notin> set ready" using Cons.prems(2) [of y] by auto
  have z: "y \<notin> set ss" if "?k = 0" using that y(2) by (simp add: count_list_0_iff [symmetric])
  have p: "x < length ?i \<and> count_list ss x \<le> ?i ! x \<and> x \<notin> set ?r" if x: "x \<in> set ss" for x
    using Cons.prems(2) [of x] x y z by (cases "x = y") (auto simp: nth_list_update)
  have d: "distinct ?r" using Cons.prems(1) y by simp
  from Cons.IH [OF d p] obtain indeg' ready' where r: "foldl release_succ (?i, ?r) ss = (indeg', ready')" "length indeg' = length indeg"
    "\<forall>x < length indeg. indeg' ! x = ?i ! x - count_list ss x" "distinct ready'"
    "set ready' = set ?r \<union> {x \<in> set ss. ?i ! x = count_list ss x}" by auto
  have "set ready' = set ready \<union> {x \<in> set (y # ss). indeg ! x = count_list (y # ss) x}"
  proof (cases "?k = 0")
    case True
    then have "indeg ! y = 1" "count_list ss y = 0" using y(2) z [OF True] by (simp_all add: count_list_0_iff)
    then show ?thesis using r(5) True z [OF True] y(1) by (auto simp: nth_list_update)
  next
    case False
    have "indeg ! y = Suc (count_list ss y) \<Longrightarrow> y \<in> set ss" using False by (metis count_list_0_iff diff_Suc_1)
    moreover have "?i ! x = (if x = y then indeg ! y - 1 else indeg ! x)" if "x < length indeg" for x
      using that by (simp add: nth_list_update)
    ultimately have "x \<in> {x \<in> set ss. ?i ! x = count_list ss x} \<longleftrightarrow> x \<in> {x \<in> set (y # ss). indeg ! x = count_list (y # ss) x}" for x
      using y(1,2) Cons.prems(2) [of x] by (cases "x = y") auto
    then show ?thesis using r(5) False by auto
  qed
  moreover have "release_succ (indeg, ready) y = (?i, ?r)" by (simp add: release_succ_def Let_def)
  ultimately show ?case using r y(1) by (auto simp: nth_list_update)
qed simp

lemma set_dag_succ: "x \<in> set (dag_succ nodes i) \<longleftrightarrow> x < length nodes \<and> (KN, i) \<in> set (n_args (nodes ! x))"
proof
  assume "x \<in> set (dag_succ nodes i)"
  then show "x < length nodes \<and> (KN, i) \<in> set (n_args (nodes ! x))" by (auto simp: dag_succ_def in_set_enumerate_eq)
next
  assume "x < length nodes \<and> (KN, i) \<in> set (n_args (nodes ! x))"
  then have "(x, nodes ! x) \<in> set (enumerate 0 nodes)" "(KN, i) \<in> set (filter (\<lambda>r. r = (KN, i)) (n_args (nodes ! x)))"
    by (simp_all add: in_set_enumerate_eq)
  then show "x \<in> set (dag_succ nodes i)" unfolding dag_succ_def by force
qed

lemma count_dag_succ:
  assumes "x < length nodes"
  shows "count_list (dag_succ nodes i) x = length (filter (\<lambda>r. r = (KN, i)) (n_args (nodes ! x)))"
proof -
  have one: "count_list (map (\<lambda>r. j) (filter Q ys)) z = (if j = z then length (filter Q ys) else 0)" for j z Q and ys :: "gref list"
    by (induction ys) auto
  have "count_list (concat (map (\<lambda>(j, nd). map (\<lambda>r. j) (filter (\<lambda>r. r = (KN, i)) (n_args nd))) (enumerate k xs))) x
      = (if k \<le> x \<and> x < k + length xs then length (filter (\<lambda>r. r = (KN, i)) (n_args (xs ! (x - k)))) else 0)" for k and xs :: "lnode list"
  proof (induction xs arbitrary: k)
    case (Cons y ys)
    consider "x < k" | "x = k" | "k < x" by linarith
    then show ?case
    proof cases
      case 2
      then show ?thesis using Cons.IH [of "Suc k"] one [of k] by simp
    qed (simp_all add: Cons.IH one count_list_append nth_Cons')
  qed auto
  from this [of 0 nodes] show ?thesis using assms by (simp add: dag_succ_def)
qed

lemma waiting_insert:
  assumes "j \<notin> done"
  shows "waiting nodes (insert j done) x = waiting nodes done x - length (filter (\<lambda>r. r = (KN, j)) (n_args (nodes ! x)))"
    "length (filter (\<lambda>r. r = (KN, j)) (n_args (nodes ! x))) \<le> waiting nodes done x"
proof -
  have "waiting nodes done x = waiting nodes (insert j done) x + length (filter (\<lambda>r. r = (KN, j)) (n_args (nodes ! x)))"
  proof -
    have "length (filter (\<lambda>r. fst r = KN \<and> snd r \<notin> done) rs)
      = length (filter (\<lambda>r. fst r = KN \<and> snd r \<notin> insert j done) rs) + length (filter (\<lambda>r. r = (KN, j)) rs)" for rs :: "gref list"
      using assms by (induction rs) (auto simp: prod_eq_iff)
    then show ?thesis by (simp add: waiting_def)
  qed
  then show "waiting nodes (insert j done) x = waiting nodes done x - length (filter (\<lambda>r. r = (KN, j)) (n_args (nodes ! x)))"
    "length (filter (\<lambda>r. r = (KN, j)) (n_args (nodes ! x))) \<le> waiting nodes done x" by simp_all
qed

lemma sched_issue_inv:
  assumes t: "topo (skeleton nodes)" and inv: "sched_inv nodes s" and e: "e_nodes e = nodes" and j: "j \<in> set (c_ready s)"
  shows "\<exists>s'. sched_issue e s j tm = Inr s' \<and> sched_inv nodes s' \<and> c_out s' = c_out s @ [j]"
proof -
  let ?O = "set (c_out s)" and ?args = "n_args (nodes ! j)"
  have P: "order_prefix (skeleton nodes) (c_out s)" and dr: "distinct (c_ready s)"
    and R: "set (c_ready s) = {j. j < length nodes \<and> j \<notin> ?O \<and> waiting nodes ?O j = 0}"
    and len: "length (c_indeg s) = length nodes" and I: "\<And>x. x < length nodes \<Longrightarrow> c_indeg s ! x = waiting nodes ?O x"
    and iss: "\<forall>x \<in> ?O. c_issued s x \<noteq> None"
    and rem: "\<forall>nd \<in> set nodes. \<forall>r \<in> set (n_args nd). is_value r \<longrightarrow> c_remaining s r \<noteq> None"
    using inv by (auto simp: sched_inv_def)
  have jn: "j < length nodes" "j \<notin> ?O" "waiting nodes ?O j = 0" using j R by auto
  let ?s1 = "s\<lparr>c_ready := remove1 j (c_ready s), c_out := c_out s @ [j], c_issued := (c_issued s)(j \<mapsto> tm), c_t := tm + 1\<rparr>"
  have "\<exists>s2. fold_r use_operand ?s1 ?args = Inr s2 \<and> same_frame ?s1 s2"
    using rem jn(1) by (intro use_operands) auto
  then obtain s2 where s2: "fold_r use_operand ?s1 ?args = Inr s2" "same_frame ?s1 s2" by blast
  have "\<exists>s3. fold_r (drop_operand e) s2 (remdups ?args) = Inr s3 \<and> same_frame s2 s3"
  proof (rule drop_operands)
    fix r assume "r \<in> set (remdups ?args)" "is_value r"
    then have "c_remaining s r \<noteq> None" using bspec [OF rem nth_mem [OF jn(1)]] by simp
    moreover have "dom (c_remaining s2) = dom (c_remaining s)" using s2(2) by (simp add: same_frame_def)
    ultimately show "c_remaining s2 r \<noteq> None" by blast
  qed
  then obtain s3 where s3: "fold_r (drop_operand e) s2 (remdups ?args) = Inr s3" "same_frame s2 s3" by blast
  have fr: "c_indeg s3 = c_indeg s" "c_ready s3 = remove1 j (c_ready s)" "c_out s3 = c_out s @ [j]"
    "c_issued s3 = (c_issued s)(j \<mapsto> tm)" "dom (c_remaining s3) = dom (c_remaining s)"
    using s2(2) s3(2) by (simp_all add: same_frame_def)
  let ?ss = "dag_succ nodes j"
  have ss: "x < length (c_indeg s3) \<and> count_list ?ss x \<le> c_indeg s3 ! x \<and> x \<notin> set (c_ready s3)" if x: "x \<in> set ?ss" for x
  proof -
    have xn: "x < length nodes" "(KN, j) \<in> set (n_args (nodes ! x))" using x by (simp_all add: set_dag_succ)
    have "waiting nodes ?O x \<noteq> 0" using xn(2) jn(2) unfolding waiting_zero by blast
    then have "x \<notin> set (remove1 j (c_ready s))" using R set_remove1_subset [of j "c_ready s"] by auto
    then show ?thesis using waiting_insert(2) [OF jn(2), of nodes x] xn I len by (simp add: fr count_dag_succ)
  qed
  obtain indeg' ready' where r: "foldl release_succ (c_indeg s3, c_ready s3) ?ss = (indeg', ready')" "length indeg' = length (c_indeg s3)"
    "\<forall>x < length (c_indeg s3). indeg' ! x = c_indeg s3 ! x - count_list ?ss x" "distinct ready'"
    "set ready' = set (c_ready s3) \<union> {x \<in> set ?ss. c_indeg s3 ! x = count_list ?ss x}"
    using release_succs [of "c_ready s3" ?ss "c_indeg s3", OF _ ss] dr fr(2) by auto
  have I': "indeg' ! x = waiting nodes (insert j ?O) x" if "x < length nodes" for x
    using r(3) that I [OF that] waiting_insert(1) [OF jn(2), of nodes x] len by (simp add: fr count_dag_succ)
  have R': "set ready' = {x. x < length nodes \<and> x \<notin> insert j ?O \<and> waiting nodes (insert j ?O) x = 0}"
  proof (rule set_eqI)
    fix x
    have w: "waiting nodes (insert j ?O) x = 0 \<longleftrightarrow> waiting nodes ?O x = length (filter (\<lambda>r. r = (KN, j)) (n_args (nodes ! x)))"
      using waiting_insert [OF jn(2), of nodes x] by linarith
    have rd: "x \<in> set (c_ready s3) \<longleftrightarrow> x \<in> set (c_ready s) \<and> x \<noteq> j" using dr by (simp add: fr(2))
    show "x \<in> set ready' \<longleftrightarrow> x \<in> {x. x < length nodes \<and> x \<notin> insert j ?O \<and> waiting nodes (insert j ?O) x = 0}"
    proof (cases "x \<in> set ?ss")
      case True
      then have xn: "x < length nodes" "(KN, j) \<in> set (n_args (nodes ! x))" by (simp_all add: set_dag_succ)
      have "x \<noteq> j" using topo_nth [OF t, of x j] xn by auto
      moreover have "x \<notin> ?O"
      proof
        assume "x \<in> ?O"
        then have "j \<in> ?O" using order_prefix_reads [OF P, of x j] xn by simp
        then show False using jn(2) by simp
      qed
      ultimately show ?thesis using True ss [OF True] xn w I [OF xn(1)] by (simp add: r(5) fr count_dag_succ)
    next
      case False
      have "x < length nodes \<Longrightarrow> filter (\<lambda>r. r = (KN, j)) (n_args (nodes ! x)) = []"
        using False by (auto simp: set_dag_succ filter_empty_conv)
      then have w0: "x < length nodes \<Longrightarrow> waiting nodes (insert j ?O) x = 0 \<longleftrightarrow> waiting nodes ?O x = 0" using w by simp
      have "x \<in> set ready' \<longleftrightarrow> x \<in> set (c_ready s) \<and> x \<noteq> j" using False rd unfolding r(5) by blast
      also have "\<dots> \<longleftrightarrow> x < length nodes \<and> x \<notin> ?O \<and> waiting nodes ?O x = 0 \<and> x \<noteq> j" unfolding R by blast
      also have "\<dots> \<longleftrightarrow> x < length nodes \<and> x \<notin> insert j ?O \<and> waiting nodes (insert j ?O) x = 0" using w0 by blast
      finally show ?thesis by simp
    qed
  qed
  have P': "order_prefix (skeleton nodes) (c_out s @ [j])"
    using order_prefix_snoc [OF P, of j] jn by (simp add: waiting_zero)
  have rem': "\<forall>nd \<in> set nodes. \<forall>r \<in> set (n_args nd). is_value r \<longrightarrow> c_remaining s3 r \<noteq> None"
    using rem fr(5) by (metis domIff)
  let ?live = "case c_remaining s3 (KN, j) of Some k \<Rightarrow> if k \<noteq> 0 then List.insert (KN, j) (c_live s3) else c_live s3
                 | None \<Rightarrow> c_live s3"
  have "sched_issue e s j tm = Inr (s3\<lparr>c_live := ?live, c_indeg := indeg', c_ready := ready'\<rparr>)"
    unfolding sched_issue_def Let_def e s2(1) bind_r_simps s3(1) r(1) by simp
  moreover have "sched_inv nodes (s3\<lparr>c_live := ?live, c_indeg := indeg', c_ready := ready'\<rparr>)"
    unfolding sched_inv_def using P' r(2,4) R' I' iss rem' len by (simp add: fr)
  ultimately show ?thesis by (simp add: fr)
qed

lemma ready_empty_complete:
  assumes t: "topo (skeleton nodes)" and inv: "sched_inv nodes s" and "c_ready s = []"
  shows "valid_order (skeleton nodes) (c_out s)"
proof (rule order_prefix_valid)
  show "order_prefix (skeleton nodes) (c_out s)" using inv by (simp add: sched_inv_def)
  have "j < length nodes \<Longrightarrow> j \<in> set (c_out s)" for j
  proof (induction j rule: less_induct)
    case (less j)
    have "waiting nodes (set (c_out s)) j = 0"
      unfolding waiting_zero
    proof (intro allI impI)
      fix i assume "(KN, i) \<in> set (n_args (nodes ! j))"
      then have "i < j" using topo_nth [OF t, of j i] less.prems by simp
      then show "i \<in> set (c_out s)" using less by simp
    qed
    moreover have "set (c_ready s) = {j. j < length nodes \<and> j \<notin> set (c_out s) \<and> waiting nodes (set (c_out s)) j = 0}"
      using inv by (simp add: sched_inv_def)
    ultimately show ?case using assms(3) less.prems by auto
  qed
  then show "{..< length (skeleton nodes)} \<subseteq> set (c_out s)" by auto
qed

lemma sched_loop_returns:
  assumes t: "topo (skeleton nodes)" and e: "e_nodes e = nodes"
  shows "sched_inv nodes s \<Longrightarrow> \<exists>js. sched_loop name margin budget e s = Some (Inr js) \<and> valid_order (skeleton nodes) js"
proof (induction "length nodes - length (c_out s)" arbitrary: s rule: less_induct)
  case less
  show ?case
  proof (cases "c_ready s = []")
    case True
    then show ?thesis using ready_empty_complete [OF t less.prems] by (subst sched_loop.simps) simp
  next
    case False
    have land: "\<exists>l. landed_at e s j = Inr l" if "j \<in> set (c_ready s)" for j
    proof (rule landed_at_total)
      fix i assume "(KN, i) \<in> set (n_args (e_nodes e ! j))"
      moreover have "waiting nodes (set (c_out s)) j = 0" using less.prems that by (auto simp: sched_inv_def)
      ultimately have "i \<in> set (c_out s)" by (simp add: waiting_zero e)
      then show "c_issued s i \<noteq> None" using less.prems by (simp add: sched_inv_def)
    qed
    obtain j tm where p: "sched_pick name margin budget e s = Inr (j, tm)" "j \<in> set (c_ready s)"
      using sched_pick_ready [OF False land, of name margin budget] by blast
    obtain s' where s': "sched_issue e s j tm = Inr s'" "sched_inv nodes s'" "c_out s' = c_out s @ [j]"
      using sched_issue_inv [OF t less.prems e p(2)] by blast
    have "order_prefix (skeleton nodes) (c_out s')" using s'(2) by (simp add: sched_inv_def)
    then have "length (c_out s') \<le> length nodes"
      by (metis card_lessThan card_mono distinct_card finite_lessThan length_skeleton order_prefix_def)
    then have "length nodes - length (c_out s') < length nodes - length (c_out s)" using s'(3) by simp
    from less.hyps [OF this s'(2)] show ?thesis using False p s' by (subst sched_loop.simps) simp
  qed
qed

theorem sched_order_valid:
  assumes t: "topo (skeleton (w_nodes low))"
    and r: "\<And>i. (KN, i) \<in> set (walk_roots low) \<Longrightarrow> i < length (w_nodes low)"
  shows "\<exists>js. sched_order low name margin pinned budget = Some (Inr js) \<and> valid_order (skeleton (w_nodes low)) js"
proof -
  let ?nodes = "w_nodes low" let ?n = "length ?nodes"
  consider "name = ''graph''" | "name = ''interleaved''" | "name \<noteq> ''graph''" "name \<noteq> ''interleaved''" by blast
  then show ?thesis
  proof cases
    case 1
    then show ?thesis using graph_order_valid [OF t] by (simp add: sched_order_def)
  next
    case 2
    then show ?thesis using interleaved_valid [OF t r] by (auto simp: sched_order_def)
  next
    case 3
    let ?indeg = "map (\<lambda>nd. length (filter (\<lambda>r. fst r = KN) (n_args nd))) ?nodes"
    let ?s0 = "\<lparr>c_indeg = ?indeg, c_remaining = operand_counts ?nodes, c_live = remdups pinned,
                 c_ready = filter (\<lambda>j. ?indeg ! j = 0) [0 ..< ?n], c_issued = (\<lambda>_. None), c_t = 0, c_out = []\<rparr>"
    let ?e = "\<lparr>e_nodes = ?nodes, e_height = dag_height ?nodes, e_pinned = remdups pinned\<rparr>"
    have "sched_inv ?nodes ?s0"
      by (auto simp: sched_inv_def waiting_def operand_counts_def Let_def)
    from sched_loop_returns [OF t _ this, of ?e name margin budget] obtain js where
      j: "sched_loop name margin budget ?e ?s0 = Some (Inr js)" "valid_order (skeleton ?nodes) js" by auto
    have "length js = ?n"
      using j(2) by (metis card_lessThan distinct_card length_skeleton valid_order_def)
    then show ?thesis using j 3 by (simp add: sched_order_def Let_def)
  qed
qed

end
