(* ===== verification/LowerRight.thy ===== *)
theory LowerRight
  imports OpsLaws ScheduleRight GraphRight
begin

text \<open>
  The lowering as a whole. The bank holds the encoding each instruction means to read, in a slot the map from
  references finds; so the lowered step, read from its bank and in any candidate order, has the values and the
  flags of the graph it came from.
\<close>

section \<open>Leaves\<close>

text \<open>An evaluation depends on the leaves that are read.\<close>

definition same_leaves :: "gnode list \<Rightarrow> gref list \<Rightarrow> (gref \<Rightarrow> int) \<Rightarrow> (gref \<Rightarrow> int) \<Rightarrow> bool" where
  "same_leaves nodes outs leaf leaf' \<longleftrightarrow>
    (\<forall>r. fst r \<noteq> KN \<longrightarrow> r \<in> set outs \<or> (\<exists>nd \<in> set nodes. r \<in> set (snd nd)) \<longrightarrow> leaf r = leaf' r)"

lemma read_ref_leaf: "fst r = KN \<or> leaf r = leaf' r \<Longrightarrow> read_ref leaf st r = read_ref leaf' st r"
  by (cases r) auto

lemma exec_order_leaves:
  assumes "same_leaves nodes outs leaf leaf'" "set js \<subseteq> {..< length nodes}"
  shows "exec_order sem leaf nodes js st fl = exec_order sem leaf' nodes js st fl"
  using assms(2)
proof (induction js arbitrary: st fl)
  case (Cons j js)
  have "map_r (read_ref leaf st) (snd (nodes ! j)) = map_r (read_ref leaf' st) (snd (nodes ! j))"
  proof (rule map_r_cong [OF refl])
    fix r assume r: "r \<in> set (snd (nodes ! j))"
    have "nodes ! j \<in> set nodes" using Cons.prems by simp
    then show "read_ref leaf st r = read_ref leaf' st r"
      using assms(1) r unfolding same_leaves_def by (intro read_ref_leaf) blast
  qed
  then show ?case using Cons by (simp cong: bind_r_cong)
qed simp

lemma order_result_leaves:
  assumes "same_leaves nodes outs leaf leaf'" "set js \<subseteq> {..< length nodes}"
  shows "order_result sem leaf nodes outs js = order_result sem leaf' nodes outs js"
proof -
  have "map_r (read_ref leaf st) outs = map_r (read_ref leaf' st) outs" for st
    using assms(1) unfolding same_leaves_def by (intro map_r_cong [OF refl] read_ref_leaf) blast
  then show ?thesis by (simp add: order_result_def exec_order_leaves [OF assms])
qed

text \<open>The leaves of a graph: inputs from outside, the constants' encodings and their flips, the params' encodings.\<close>

definition param_bits_of :: "cgraph \<Rightarrow> (nat \<rightharpoonup> int \<times> int \<times> rat) \<Rightarrow> nat \<Rightarrow> int" where
  "param_bits_of g pb i = (case pb i of Some (b, fl, ex) \<Rightarrow> b | None \<Rightarrow> (case g_param g ! i of (n, d, b, f) \<Rightarrow> b))"

definition const_bits :: "cgraph \<Rightarrow> nat \<Rightarrow> int" where
  "const_bits g i = (case g_const g ! i of (v, fa, b, f) \<Rightarrow> b)"

definition graph_leaf :: "cgraph \<Rightarrow> (nat \<rightharpoonup> int \<times> int \<times> rat) \<Rightarrow> (gref \<Rightarrow> int) \<Rightarrow> gref \<Rightarrow> int" where
  "graph_leaf g pb inputs r =
    (case fst r of KC \<Rightarrow> const_bits g (snd r) | KF \<Rightarrow> const_bits g (snd r) XOR sign_mask (g_fmt g)
     | KP \<Rightarrow> param_bits_of g pb (snd r) | _ \<Rightarrow> inputs r)"

text \<open>The leaves of the lowered step: inputs from outside, everything else through the map to the bank's slots.\<close>

definition bank_leaf :: "lowered \<Rightarrow> (gref \<Rightarrow> int) \<Rightarrow> gref \<Rightarrow> int" where
  "bank_leaf low inputs r =
    (if fst r \<in> {KC, KF, KP} then bank_values low ! the (w_slot_of low r) else inputs r)"

lemma graph_leaf_flips: "graph_leaf g pb inputs (KF, i) = graph_leaf g pb inputs (KC, i) XOR sign_mask (g_fmt g)"
  by (simp add: graph_leaf_def)

section \<open>The bank\<close>

lemma slot_map_of_Some:
  assumes "slot_map_of slots r = Some k"
  shows "k < length slots \<and> slot_key (slots ! k) = r"
proof -
  have "(r, k) \<in> set (map (\<lambda>(k, s). (slot_key s, k)) (enumerate 0 slots))"
    using map_of_SomeD [OF assms [unfolded slot_map_of_def]] by simp
  then show ?thesis by (auto simp: in_set_enumerate_eq)
qed

lemma slot_map_of_total:
  assumes "s \<in> set slots"
  shows "\<exists>k. slot_map_of slots (slot_key s) = Some k"
proof -
  obtain k where "k < length slots" "slots ! k = s" using assms by (auto simp: in_set_conv_nth)
  then have "(k, s) \<in> set (enumerate 0 slots)" by (simp add: in_set_enumerate_eq)
  then have "slot_key s \<in> fst ` set (rev (map (\<lambda>(k, s). (slot_key s, k)) (enumerate 0 slots)))" by force
  then have "slot_map_of slots (slot_key s) \<noteq> None" unfolding slot_map_of_def by (simp only: map_of_eq_None_iff not_not)
  then show ?thesis by blast
qed

lemma slot_kinds [simp]:
  "s_kind (const_slot g i) = SConst" "s_index (const_slot g i) = i" "s_bits (const_slot g i) = const_bits g i"
  "s_kind (flip_slot g i) = SFlip" "s_index (flip_slot g i) = i" "s_bits (flip_slot g i) = const_bits g i XOR sign_mask (g_fmt g)"
  "s_kind (param_slot g pb i) = SParam" "s_index (param_slot g pb i) = i" "s_bits (param_slot g pb i) = param_bits_of g pb i"
  by (auto simp: const_slot_def flip_slot_def param_slot_def const_bits_def param_bits_of_def Let_def split: prod.split option.split)

definition words_only :: "bank_slot list \<Rightarrow> bool" where
  "words_only ws \<longleftrightarrow> (\<forall>s \<in> set ws. s_kind s = SWord)"

lemma add_word_only: "words_only ws \<Longrightarrow> words_only (add_word op ws x)"
  by (auto simp: words_only_def add_word_def split: prod.split)

lemma add_words_only: "words_only ws \<Longrightarrow> words_only (foldl (add_word op) ws xs)"
  by (induction xs arbitrary: ws) (simp_all add: add_word_only)

lemma routine_words_only:
  assumes "routine_words fw g ns lw = Inr ws"
  shows "words_only ws"
proof -
  have "fold_r (\<lambda>slots opn. bind_r (fw opn (g_fmt g) (g_rnd g)) (\<lambda>ws. Inr (foldl (add_word (op_name opn)) slots ws))) ss ops = Inr ss'
    \<Longrightarrow> words_only ss \<Longrightarrow> words_only ss'" for ss ss' ops
    by (induction ops arbitrary: ss) (auto simp: bind_r_eq_Inr add_words_only)
  moreover have "words_only []" by (simp add: words_only_def)
  ultimately show ?thesis using assms by (auto simp: routine_words_def bind_r_eq_Inr intro!: add_words_only)
qed

lemma set_used_refs: "set (used_refs k rs) = {i. (k, i) \<in> set rs}"
  by (force simp: used_refs_def)

lemma layout_slots:
  assumes "layout g ns outs pb ws = Inr slots"
  shows "set slots = const_slot g ` {i. (KC, i) \<in> set (concat (map n_args ns) @ outs)}
    \<union> flip_slot g ` {i. (KF, i) \<in> set (concat (map n_args ns))} \<union> param_slot g pb ` {..< length (g_param g)} \<union> set ws"
    "length slots \<le> BANK_MAX"
proof -
  let ?refs = "concat (map n_args ns)"
  let ?e = "map (const_slot g) (used_refs KC (?refs @ outs)) @ map (flip_slot g) (used_refs KF ?refs)"
  have s: "slots = sort_key (\<lambda>s. (- the (s_factor s), slot_rank s, s_index s)) (filter h_scaled ?e)
    @ sort_key (\<lambda>s. (s_exact s, slot_rank s, s_index s)) (filter (\<lambda>s. \<not> h_scaled s) ?e)
    @ map (param_slot g pb) [0 ..< length (g_param g)] @ ws" "length slots \<le> BANK_MAX"
    using assms by (auto simp: layout_def Let_def split: if_splits)
  have e: "set ?e = const_slot g ` {i. (KC, i) \<in> set (?refs @ outs)} \<union> flip_slot g ` {i. (KF, i) \<in> set ?refs}"
    by (simp only: set_append set_map set_used_refs)
  have "set slots = set ?e \<union> param_slot g pb ` {..< length (g_param g)} \<union> set ws"
    unfolding s(1) by (auto simp: atLeast0LessThan)
  then show "set slots = const_slot g ` {i. (KC, i) \<in> set (concat (map n_args ns) @ outs)}
    \<union> flip_slot g ` {i. (KF, i) \<in> set (concat (map n_args ns))} \<union> param_slot g pb ` {..< length (g_param g)} \<union> set ws"
    unfolding e by blast
  show "length slots \<le> BANK_MAX" by (rule s(2))
qed

text \<open>Every constant, flip and param an instruction names is in its slot.\<close>

lemma bank_holds:
  assumes l: "layout g ns outs pb ws = Inr slots" and w: "words_only ws"
    and r: "r \<in> set (concat (map n_args ns) @ outs)" "fst r \<in> {KC, KF, KP}" "fst r = KF \<Longrightarrow> r \<in> set (concat (map n_args ns))"
    and p: "fst r = KP \<Longrightarrow> snd r < length (g_param g)"
  shows "\<exists>k. slot_map_of slots r = Some k \<and> k < length slots \<and> s_bits (slots ! k) = graph_leaf g pb inputs r"
proof -
  note L = layout_slots(1) [OF l]
  have "\<exists>s \<in> set slots. slot_key s = r"
  proof (cases r)
    case (Pair kd i)
    then consider "kd = KC" | "kd = KF" | "kd = KP" using r(2) by auto
    then show ?thesis
    proof cases
      case 1
      then have "const_slot g i \<in> set slots" using r(1) Pair unfolding L by blast
      then show ?thesis using Pair 1 by (force simp: slot_key_def)
    next
      case 2
      then have "flip_slot g i \<in> set slots" using r(3) Pair unfolding L by auto
      then show ?thesis using Pair 2 by (force simp: slot_key_def)
    next
      case 3
      then have "param_slot g pb i \<in> set slots" using p Pair unfolding L by auto
      then show ?thesis using Pair 3 by (force simp: slot_key_def)
    qed
  qed
  then obtain k where k: "slot_map_of slots r = Some k" using slot_map_of_total by blast
  note kk = slot_map_of_Some [OF k]
  have "slots ! k \<in> set slots" using kk by simp
  then have "s_bits (slots ! k) = graph_leaf g pb inputs r"
    using kk w r(2) unfolding L by (auto simp: slot_key_def graph_leaf_def words_only_def)
  then show ?thesis using k kk by blast
qed

section \<open>The leaves the lowered step reads\<close>

definition node_leaves :: "lnode list \<Rightarrow> gref set" where
  "node_leaves ns = {r. fst r \<noteq> KN \<and> (\<exists>nd \<in> set ns. r \<in> set (n_args nd))}"

lemma bex_nth: "(\<exists>x \<in> set xs. P x) \<longleftrightarrow> (\<exists>j < length xs. P (xs ! j))"
  by (auto simp: set_conv_nth)

lemma remap_is_node:
  assumes "share_inv nodes (length nodes) s" "i < length nodes"
  shows "fst (h_remap s ! i) = KN"
  using assms unfolding share_inv_def by fastforce

lemma share_leaves:
  assumes inv: "share_inv nodes (length nodes) s" and t: "topo nodes" and r: "r \<in> node_leaves (h_nodes s)"
  shows "\<exists>nd \<in> set nodes. r \<in> set (snd nd)"
proof -
  obtain j where j: "j < length (h_nodes s)" "r \<in> set (n_args (h_nodes s ! j))" "fst r \<noteq> KN"
    using r by (auto simp: node_leaves_def bex_nth)
  then obtain i where i: "i < length nodes" "n_args (h_nodes s ! j) = map (rm (h_remap s)) (snd (nodes ! i))"
    using inv unfolding share_inv_def by blast
  then obtain r' where r': "r' \<in> set (snd (nodes ! i))" "r = rm (h_remap s) r'" using j(2) by auto
  have "fst r' \<noteq> KN"
  proof
    assume k: "fst r' = KN"
    then have "snd r' < length nodes" using topo_nth [OF t i(1), of "snd r'"] r'(1) i(1) by (cases r') auto
    then show False using remap_is_node [OF inv] j(3) r'(2) k by (simp add: rm_def)
  qed
  then show ?thesis using r' i(1) by (auto simp: rm_def)
qed

lemma share_out_leaves:
  assumes inv: "share_inv nodes (length nodes) s" and o: "out_refs_ok nodes outs"
    and r: "r \<in> set (map (rm (h_remap s)) outs)" "fst r \<noteq> KN"
  shows "r \<in> set outs"
proof -
  obtain r' where r': "r' \<in> set outs" "r = rm (h_remap s) r'" using r(1) by auto
  have "fst r' \<noteq> KN"
  proof
    assume k: "fst r' = KN"
    then have "snd r' < length nodes" using o r'(1) unfolding out_refs_ok_def by (cases r') auto
    then show False using remap_is_node [OF inv] r(2) r'(2) k by (simp add: rm_def)
  qed
  then show ?thesis using r' by (simp add: rm_def)
qed

lemma rn_leaf: "fst (rn dead r) \<noteq> KN \<Longrightarrow> rn dead r = r"
  by (auto simp: rn_def)

lemma fold_leaves:
  assumes ar: "arity_ok (skeleton ns)" and D: "\<forall>d \<in> set dead. removable ns outs d" and r: "r \<in> node_leaves (kept_nodes ns dead)"
  shows "r \<in> node_leaves ns \<or> fst r = KF"
proof -
  obtain q where q: "q < length (kept_indices dead (length ns))" "r \<in> set (n_args (kept_nodes ns dead ! q))" "fst r \<noteq> KN"
    using r by (auto simp: node_leaves_def bex_nth)
  let ?c = "kept_indices dead (length ns) ! q"
  have c: "?c < length ns" using kept_member [OF q(1)] by blast
  obtain r' where r': "r' \<in> set (fold_args ns (set dead) (ns ! ?c))" "r = rn dead r'" using q(1,2) by (auto simp: kept_nodes_nth)
  then have rr: "r \<in> set (fold_args ns (set dead) (ns ! ?c))" using rn_leaf [of dead r'] q(3) by simp
  have m: "r \<in> node_leaves ns" if "r \<in> set (n_args (ns ! ?c))" using that c q(3) by (auto simp: node_leaves_def)
  have ng: "r \<in> node_leaves ns" if "d \<in> set dead" "r = neg_arg ns (KN, d)" for d
  proof -
    have d: "d < length ns" "n_op (ns ! d) = O_neg" using D that(1) by (auto simp: removable_def)
    show ?thesis using neg_args [OF ar d] that(2) d(1) q(3) unfolding node_leaves_def bex_nth by (auto intro!: exI [of _ d])
  qed
  show ?thesis
  proof (cases rule: fold_args_cases [OF ar c D, case_names same left right])
    case same
    then show ?thesis using rr m by simp
  next
    case (left d i rest)
    then show ?thesis using rr m ng [OF left(1)] by auto
  next
    case (right d i rest)
    then show ?thesis using rr m ng [OF right(1)] by auto
  qed
qed

lemma graph_leaves:
  assumes "graph_ok g" "fst r \<noteq> KN" "r \<in> set (g_outs g) \<or> (\<exists>nd \<in> set (graph_skeleton g). r \<in> set (snd nd))"
  shows "ref_in g 0 r"
proof -
  have "\<exists>b. ref_in g b r"
    using assms(3)
  proof
    assume "r \<in> set (g_outs g)"
    then show ?thesis using assms(1) by (auto simp: graph_ok_def)
  next
    assume "\<exists>nd \<in> set (graph_skeleton g). r \<in> set (snd nd)"
    then obtain k where k: "k < length (g_nodes g)" "r \<in> set (snd (graph_skeleton g ! k))" by (auto simp: bex_nth)
    obtain op args label where n: "g_nodes g ! k = (op, args, label)" using prod_cases3 by blast
    then have "r \<in> set args" using k by (simp add: graph_skeleton_def)
    then show ?thesis using assms(1) k(1) n by (force simp: graph_ok_def nodes_ok_def)
  qed
  then show ?thesis using assms(2) by (auto simp: ref_in_def split: rkind.splits)
qed

section \<open>The lowering\<close>

lemma lower_parts:
  assumes "lower_f fw g pb lw = Inr low"
  obtains ns outs merged ws folds where "share g = Inr (ns, outs, merged)" "routine_words fw g ns lw = Inr ws"
    "fold_f g ns outs (length ws) = Inr (w_nodes low, w_outs low, folds)"
    "layout g (w_nodes low) (w_outs low) pb ws = Inr (w_slots low)" "w_slot_of low = slot_map_of (w_slots low)" "w_graph low = g"
    "w_h_slots low = map fst (filter (\<lambda>(k, s). h_scaled s) (enumerate 0 (w_slots low)))"
  using assms unfolding lower_f_def Let_def
  by (auto simp: bind_r_eq_Inr if_Inl_Inr split: prod.splits)


lemma lowered_roots:
  assumes "length (w_outs low) = g_n_primal (w_graph low) * (length (g_tangent (w_graph low)) + 1)"
  shows "set (walk_roots low) \<subseteq> set (w_outs low)"
proof -
  let ?n = "g_n_primal (w_graph low)" and ?T = "length (g_tangent (w_graph low))"
  have "?n * k + i < length (w_outs low)" if "i < ?n" "k \<le> ?T" for i k
  proof -
    have "?n * k + i < ?n * (k + 1)" using that(1) by simp
    also have "\<dots> \<le> ?n * (?T + 1)" using that(2) by (intro mult_le_mono) auto
    finally show ?thesis by (simp add: assms)
  qed
  then have "w_outs low ! (?n * k + i) \<in> set (w_outs low)" if "i < ?n" "k \<le> ?T" for i k using that by simp
  then show ?thesis
    unfolding walk_roots_def Let_def
    by (force simp del: mult_Suc_right)
qed

text \<open>
  What lowering preserves: the lowered nodes form a step of their own, whose leaves in the bank are the graph's
  leaves, and which has the graph's values and flags.
\<close>

lemma lowered_step:
  assumes g: "graph_ok g" and l: "lower_f fw g pb lw = Inr low"
  shows "topo (skeleton (w_nodes low))" "arity_ok (skeleton (w_nodes low))" "out_refs_ok (skeleton (w_nodes low)) (w_outs low)"
    "length (w_outs low) = length (g_outs g)" "w_graph low = g"
    "same_leaves (skeleton (w_nodes low)) (w_outs low) (bank_leaf low inputs) (graph_leaf g pb inputs)"
    "step_result (ops tr (g_fmt g) rnd) (graph_leaf g pb inputs) (skeleton (w_nodes low)) (w_outs low) = Inr y
      \<longleftrightarrow> step_result (ops tr (g_fmt g) rnd) (graph_leaf g pb inputs) (graph_skeleton g) (g_outs g) = Inr y"
proof -
  obtain ns outs merged ws folds where p: "share g = Inr (ns, outs, merged)" "routine_words fw g ns lw = Inr ws"
    "fold_f g ns outs (length ws) = Inr (w_nodes low, w_outs low, folds)"
    "layout g (w_nodes low) (w_outs low) pb ws = Inr (w_slots low)" "w_slot_of low = slot_map_of (w_slots low)" "w_graph low = g"
    using l by (rule lower_parts)
  note G = graph_topo [OF g] graph_arity [OF g] graph_outs [OF g]
  note S = golden.share_invisible [OF G p(1)]
  have flips: "\<And>i. graph_leaf g pb inputs (KF, i) = graph_leaf g pb inputs (KC, i) XOR sign_mask (g_fmt g)"
    by (rule graph_leaf_flips)
  note F = golden.fold_invisible [where leaf = "graph_leaf g pb inputs" and fmt = "g_fmt g", OF S(2-4) flips p(3)]
  show "topo (skeleton (w_nodes low))" "arity_ok (skeleton (w_nodes low))" "out_refs_ok (skeleton (w_nodes low)) (w_outs low)"
    by (rule F)+
  show "w_graph low = g" by (rule p(6))
  show "step_result (ops tr (g_fmt g) rnd) (graph_leaf g pb inputs) (skeleton (w_nodes low)) (w_outs low) = Inr y
      \<longleftrightarrow> step_result (ops tr (g_fmt g) rnd) (graph_leaf g pb inputs) (graph_skeleton g) (g_outs g) = Inr y"
    using F(1) S(1) by metis
  obtain s where s: "share_inv (graph_skeleton g) (length (g_nodes g)) s"
    "share g = Inr (h_nodes s, map (rm (h_remap s)) (g_outs g), h_merged s)"
    using G(1,3) by (rule share_total)
  then have e: "ns = h_nodes s" "outs = map (rm (h_remap s)) (g_outs g)" using p(1) by simp_all
  obtain dead folds' where D: "\<forall>d \<in> set dead. removable ns outs d"
    and f: "fold_f g ns outs (length ws) = Inr (kept_nodes ns dead, map (rn dead) outs, folds')"
    using S(2-4) by (rule fold_f_result)
  have k: "w_nodes low = kept_nodes ns dead" "w_outs low = map (rn dead) outs" using p(3) f by simp_all
  show "length (w_outs low) = length (g_outs g)" by (simp add: k e)
  have inv: "share_inv (graph_skeleton g) (length (graph_skeleton g)) s" using s(1) by simp
  have from_graph: "ref_in g 0 r" if "r \<in> set outs \<or> r \<in> node_leaves ns" "fst r \<noteq> KN" for r
    using graph_leaves [OF g that(2)] share_leaves [OF inv G(1), of r] share_out_leaves [OF inv G(3), of r] that e by blast
  show "same_leaves (skeleton (w_nodes low)) (w_outs low) (bank_leaf low inputs) (graph_leaf g pb inputs)"
    unfolding same_leaves_def
  proof (intro allI impI)
    fix r assume n: "fst r \<noteq> KN" and r: "r \<in> set (w_outs low) \<or> (\<exists>nd \<in> set (skeleton (w_nodes low)). r \<in> set (snd nd))"
    have nl: "r \<in> set (concat (map n_args (w_nodes low))) \<longleftrightarrow> r \<in> node_leaves (w_nodes low)"
      "(\<exists>nd \<in> set (skeleton (w_nodes low)). r \<in> set (snd nd)) \<longleftrightarrow> r \<in> node_leaves (w_nodes low)"
      using n by (auto simp: node_leaves_def skeleton_def)
    have o: "ref_in g 0 r" if "r \<in> set (w_outs low)" using that n rn_leaf [of dead] from_graph unfolding k by fastforce
    have m: "ref_in g 0 r \<or> fst r = KF" if "r \<in> node_leaves (w_nodes low)"
      using that fold_leaves [OF S(3) D] n from_graph unfolding k by blast
    show "bank_leaf low inputs r = graph_leaf g pb inputs r"
    proof (cases "fst r \<in> {KC, KF, KP}")
      case True
      have "\<exists>j. slot_map_of (w_slots low) r = Some j \<and> j < length (w_slots low) \<and> s_bits (w_slots low ! j) = graph_leaf g pb inputs r"
      proof (rule bank_holds [OF p(4) routine_words_only [OF p(2)]])
        show "r \<in> set (concat (map n_args (w_nodes low)) @ w_outs low)" using r nl by auto
        show "fst r \<in> {KC, KF, KP}" by (rule True)
        show "r \<in> set (concat (map n_args (w_nodes low)))" if "fst r = KF" using that r o nl by (auto simp: ref_in_def)
        show "snd r < length (g_param g)" if "fst r = KP" using that r o m nl by (auto simp: ref_in_def)
      qed
      then show ?thesis using True by (auto simp: bank_leaf_def p(5) bank_values_def)
    next
      case False
      then show ?thesis by (auto simp: bank_leaf_def graph_leaf_def split: rkind.split)
    qed
  qed
qed

text \<open>The scheduler's orders of a lowered graph.\<close>

lemma lowered_order:
  assumes g: "graph_ok g" and l: "lower_f fw g pb lw = Inr low"
  shows "\<exists>js. sched_order low name margin pinned budget = Some (Inr js) \<and> valid_order (skeleton (w_nodes low)) js"
proof -
  note L = lowered_step [OF g l]
  have "length (w_outs low) = g_n_primal (w_graph low) * (length (g_tangent (w_graph low)) + 1)"
    using g L(4,5) by (simp add: graph_ok_def)
  then have "\<And>i. (KN, i) \<in> set (walk_roots low) \<Longrightarrow> i < length (w_nodes low)"
    using lowered_roots L(3) by (fastforce simp: out_refs_ok_def)
  then show ?thesis using sched_order_valid [OF L(1)] by blast
qed

text \<open>And so in every candidate order, read from the bank.\<close>

lemma lowered_any_order:
  assumes g: "graph_ok g" and l: "lower_f fw g pb lw = Inr low"
  shows "\<exists>js. sched_order low name margin pinned budget = Some (Inr js) \<and>
    (\<forall>y. order_result (ops tr (g_fmt g) rnd) (bank_leaf low inputs) (skeleton (w_nodes low)) (w_outs low) js = Inr y
      \<longleftrightarrow> step_result (ops tr (g_fmt g) rnd) (graph_leaf g pb inputs) (graph_skeleton g) (g_outs g) = Inr y)"
proof -
  note L = lowered_step [OF g l]
  obtain js where js: "sched_order low name margin pinned budget = Some (Inr js)" "valid_order (skeleton (w_nodes low)) js"
    using lowered_order [OF g l] by blast
  have "set js \<subseteq> {..< length (skeleton (w_nodes low))}" using js(2) by (simp add: valid_order_def)
  then show ?thesis
    using js(1) any_order_same [OF L(1) js(2) L(3)] L(7) order_result_leaves [OF L(6)] by auto
qed

end
