(* ===== verification/RunAgree.thy ===== *)
theory RunAgree
  imports StepAgree LowerRight
begin

text \<open>
  A run. The reference interpreter's run of a lane is the compiler's graph applied as often as there are steps,
  its flags the flags of all of them; and the primal part of a run with tangents is the run without.
\<close>

section \<open>The two readers of one object\<close>

text \<open>Arrays are declared with lengths that are not negative.\<close>

definition lengths_ok :: "graph_obj \<Rightarrow> bool" where
  "lengths_ok obj \<longleftrightarrow> (\<forall>(name, len) \<in> set (j_state obj). case len of None \<Rightarrow> True | Some l \<Rightarrow> 0 \<le> l)"

lemma n_state_names:
  assumes "\<forall>(name, len) \<in> set (l_state lg). case len of None \<Rightarrow> True | Some l \<Rightarrow> 0 \<le> l"
  shows "n_state lg = int (length (primal_names (l_state lg)))"
proof -
  have "sum_list (map (\<lambda>(n, ln). case ln of None \<Rightarrow> 1 | Some k \<Rightarrow> k) xs) = int (length (primal_names xs))"
    if "\<forall>(name, len) \<in> set xs. case len of None \<Rightarrow> True | Some l \<Rightarrow> 0 \<le> l" for xs :: "(string \<times> int option) list"
    using that by (induction xs) (auto simp: primal_names_def split: option.splits)
  then show ?thesis using assms by (simp add: n_state_def)
qed

text \<open>What both readers take from the object.\<close>

lemma from_obj_fields:
  assumes "from_obj obj = Inr lg"
  shows "l_state lg = j_state obj" "l_step lg = l_section (j_step obj)"
    "dict_get FORMATS (j_format obj) = Inr (l_fmt lg)" "dict_get RND_BY_NAME (j_round obj) = Inr (l_rnd lg)"
    "map_r read_lane (j_lane obj) = Inr (l_lane lg)" "map_r read_param (j_param obj) = Inr (l_param lg)"
    "map_r read_const (j_const obj) = Inr (l_const lg)"
    "j_version obj = 2 \<Longrightarrow> j_tangent obj = Some (l_tangent lg) \<and> l_tangent_step lg = l_section (j_tangent_step obj)"
    "j_version obj \<noteq> 2 \<Longrightarrow> l_tangent lg = [] \<and> l_tangent_step lg = None"
proof -
  obtain fmt rnd lane param cs tangent tfield tstep h where
    "dict_get FORMATS (j_format obj) = Inr fmt" "dict_get RND_BY_NAME (j_round obj) = Inr rnd"
    "map_r read_lane (j_lane obj) = Inr lane" "map_r read_param (j_param obj) = Inr param" "map_r read_const (j_const obj) = Inr cs"
    "(if j_version obj = 2 then
               (case j_tangent obj of None \<Rightarrow> Inl KeyError
                | Some t \<Rightarrow> if t = [] then Inl ValueError
                    else Inr (t, l_section (j_tangent_field obj), l_section (j_tangent_step obj)))
             else Inr ([], None, None)) = Inr (tangent, tfield, tstep)"
    "lg = \<lparr>l_system = j_system obj, l_fmt = fmt, l_rnd = rnd, l_state = j_state obj, l_lane = lane, l_param = param,
          l_integrator = (fst (j_integrator obj), h), l_const = cs, l_field = l_section (j_field obj),
          l_step = l_section (j_step obj), l_tangent = tangent, l_tangent_field = tfield,
          l_tangent_step = tstep\<rparr>"
    using assms unfolding from_obj_def if_Inl_Inr bind_r_eq_Inr by (auto simp: bind_r_eq_Inr)
  then show "l_state lg = j_state obj" "l_step lg = l_section (j_step obj)"
    "dict_get FORMATS (j_format obj) = Inr (l_fmt lg)" "dict_get RND_BY_NAME (j_round obj) = Inr (l_rnd lg)"
    "map_r read_lane (j_lane obj) = Inr (l_lane lg)" "map_r read_param (j_param obj) = Inr (l_param lg)"
    "map_r read_const (j_const obj) = Inr (l_const lg)"
    "j_version obj = 2 \<Longrightarrow> j_tangent obj = Some (l_tangent lg) \<and> l_tangent_step lg = l_section (j_tangent_step obj)"
    "j_version obj \<noteq> 2 \<Longrightarrow> l_tangent lg = [] \<and> l_tangent_step lg = None"
    by (auto split: option.splits if_splits)
qed

lemma Graph_fields:
  assumes "Graph obj = Inr cg"
  shows "dict_get FORMATS (j_format obj) = Inr (g_fmt cg)" "dict_get RND_BY_NAME (j_round obj) = Inr (g_rnd cg)"
    "map_r read_lane (j_lane obj) = Inr (g_lane cg)" "map_r read_param (j_param obj) = Inr (g_param cg)"
    "map_r read_const (j_const obj) = Inr (g_const cg)"
    "j_version obj = 2 \<Longrightarrow> j_tangent obj = Some (g_tangent cg) \<and> g_tangent cg \<noteq> []"
    "j_version obj \<noteq> 2 \<Longrightarrow> g_tangent cg = []"
proof -
  let ?p = "primal_names (j_state obj)"
  obtain fmt rnd tangent lane param h cs g1 g2 and stp' :: obj_section where
    rd: "dict_get FORMATS (j_format obj) = Inr fmt" "dict_get RND_BY_NAME (j_round obj) = Inr rnd"
    "map_r read_lane (j_lane obj) = Inr lane" "map_r read_param (j_param obj) = Inr param" "map_r read_const (j_const obj) = Inr cs"
    and tn: "(if j_version obj = 2 then (case j_tangent obj of None \<Rightarrow> Inl KeyError | Some t \<Rightarrow> Inr t) else Inr []) = Inr tangent"
      "\<not> (j_version obj = 2 \<and> tangent = [])"
    and g1: "fold_r append_node \<lparr>g_version = j_version obj, g_fmt = fmt, g_rnd = rnd,
        g_components = ?p @ concat (map (\<lambda>vec. map (\<lambda>c. vec @ ''.'' @ c) ?p) tangent),
        g_tangent = tangent, g_n_primal = length ?p,
        g_n_state = length (?p @ concat (map (\<lambda>vec. map (\<lambda>c. vec @ ''.'' @ c) ?p) tangent)),
        g_lane = lane, g_param = param, g_integrator = (fst (j_integrator obj), h), g_const = cs, g_nodes = [], g_outs = [],
        g_primal_step_nodes = 0\<rparr> (o_nodes stp') = Inr g1"
    and g2: "read_outs g1 (o_out stp') = Inr g2"
    and fin: "(if tangent \<noteq> [] then bind_r (section_of (j_tangent_step obj)) (cftc_tangent g2) else Inr g2) = Inr cg"
    using assms(1) unfolding Graph_def Let_def if_Inl_Inr bind_r_eq_Inr by (elim exE conjE) (rule that, assumption+)
  note A = append_nodes_are [OF g1]
  have s2: "same_tables g1 g2" using g2 by (auto simp: read_outs_def bind_r_eq_Inr same_tables_def split: if_splits)
  have "same_tables g2 cg"
  proof (cases "tangent = []")
    case False
    then obtain ts where t: "fold_r (tangent_copy ts) g2 [0 ..< length (g_tangent g2)] = Inr cg"
      using fin by (auto simp: bind_r_eq_Inr cftc_tangent_def)
    from tangent_copies_are [OF t, of "length (g_nodes g2)"] show ?thesis by simp
  qed (use fin in simp)
  then have "g_fmt cg = fmt" "g_rnd cg = rnd" "g_lane cg = lane" "g_param cg = param" "g_const cg = cs" "g_tangent cg = tangent"
    using A s2 by (auto simp: same_tables_def)
  then show "dict_get FORMATS (j_format obj) = Inr (g_fmt cg)" "dict_get RND_BY_NAME (j_round obj) = Inr (g_rnd cg)"
    "map_r read_lane (j_lane obj) = Inr (g_lane cg)" "map_r read_param (j_param obj) = Inr (g_param cg)"
    "map_r read_const (j_const obj) = Inr (g_const cg)"
    "j_version obj = 2 \<Longrightarrow> j_tangent obj = Some (g_tangent cg) \<and> g_tangent cg \<noteq> []"
    "j_version obj \<noteq> 2 \<Longrightarrow> g_tangent cg = []"
    using rd tn by (auto split: option.splits)
qed

text \<open>An object both readers take, with the language's tests passed.\<close>

definition both_read :: "graph_obj \<Rightarrow> lgraph \<Rightarrow> cgraph \<Rightarrow> bool" where
  "both_read obj lg cg \<longleftrightarrow> from_obj obj = Inr lg \<and> problem lg = Inr False \<and> lengths_ok obj \<and> Graph obj = Inr cg"

lemma both_graphs:
  assumes "both_read obj lg cg"
  obtains stp where "l_step lg = Some stp" "make_prog lg (g_n_primal cg) = Inr (prog_of lg (g_n_primal cg) stp)"
    "nodes_read (primal_in lg (g_n_primal cg)) (s_nodes stp) (s_out stp)" "length (s_out stp) = g_n_primal cg"
    "nodes_read (tangent_in lg (g_n_primal cg) (length (s_nodes stp))) (s_nodes (tangent_of lg)) (s_out (tangent_of lg))"
    "length (g_tangent cg) \<noteq> 0 \<Longrightarrow> length (s_out (tangent_of lg)) = g_n_primal cg"
    "graph_skeleton cg = wide_nodes lg (g_n_primal cg) stp (length (g_tangent cg))"
    "g_outs cg = wide_outs lg (g_n_primal cg) stp (length (g_tangent cg))"
    "n_state lg = int (g_n_primal cg)"
    "l_fmt lg = g_fmt cg" "l_rnd lg = g_rnd cg" "l_lane lg = g_lane cg" "l_param lg = g_param cg" "l_const lg = g_const cg"
    "l_tangent lg = g_tangent cg"
proof -
  have f: "from_obj obj = Inr lg" and p: "problem lg = Inr False" and G: "Graph obj = Inr cg" and len: "lengths_ok obj"
    using assms by (simp_all add: both_read_def)
  note F = from_obj_fields [OF f] and GF = Graph_fields [OF G]
  have tables: "l_fmt lg = g_fmt cg" "l_rnd lg = g_rnd cg" "l_lane lg = g_lane cg" "l_param lg = g_param cg" "l_const lg = g_const cg"
    using F(3-7) GF(1-5) by simp_all
  have tg: "l_tangent lg = g_tangent cg" using F(8,9) GF(6,7) by (cases "j_version obj = 2") auto
  let ?n = "length (primal_names (j_state obj))"
  have n: "n_state lg = int ?n" using n_state_names [of lg] len F(1) by (simp add: lengths_ok_def)
  obtain stp where s: "l_step lg = Some stp" "make_prog lg ?n = Inr (prog_of lg ?n stp)"
    "nodes_read (primal_in lg ?n) (s_nodes stp) (s_out stp)" "length (s_out stp) = ?n"
    "nodes_read (tangent_in lg ?n (length (s_nodes stp))) (s_nodes (tangent_of lg)) (s_out (tangent_of lg))"
    "l_tangent lg \<noteq> [] \<Longrightarrow> length (s_out (tangent_of lg)) = ?n" "(l_tangent lg = []) = (l_tangent_step lg = None)"
    using accepted_prog [OF p n] by metis
  obtain ostp where os: "j_step obj = Some ostp" "stp = \<lparr>s_out = o_out ostp, s_nodes = o_nodes ostp\<rparr>"
    using s(1) F(2) by (auto simp: l_section_def)
  let ?ts = "\<lparr>o_out = s_out (tangent_of lg), o_nodes = s_nodes (tangent_of lg)\<rparr>"
  have ts: "j_tangent_step obj = Some ?ts" if "g_tangent cg \<noteq> []"
  proof -
    have "j_version obj = 2" using that GF(7) by blast
    then have "l_tangent_step lg = l_section (j_tangent_step obj)" "l_tangent_step lg \<noteq> None" using F(8) s(7) tg that by auto
    then show ?thesis by (auto simp: l_section_def tangent_of_def)
  qed
  note S = graph_shape [OF G os(1) ts]
  have np: "g_n_primal cg = ?n" using S(3) by simp
  have sk: "graph_skeleton cg = wide_nodes lg (g_n_primal cg) stp (length (g_tangent cg))"
    "g_outs cg = wide_outs lg (g_n_primal cg) stp (length (g_tangent cg))"
    using S(1,2) np by (simp_all add: wide_nodes_def wide_outs_def os(2))
  show ?thesis
    by (rule that [of stp]) (use s np sk n tables tg in auto)
qed

section \<open>Steps\<close>

text \<open>The step of a graph applied again and again: the outputs are the next state, the flags gather.\<close>

fun steps_from ::
  "node_sem \<Rightarrow> (int list \<Rightarrow> gref \<Rightarrow> int) \<Rightarrow> gnode list \<Rightarrow> gref list \<Rightarrow> nat \<Rightarrow> int list \<times> int \<Rightarrow> (int list \<times> int) result" where
  "steps_from sem leaf nodes outs 0 xf = Inr xf"
| "steps_from sem leaf nodes outs (Suc s) xf =
    bind_r (step_result sem (leaf (fst xf)) nodes outs) (\<lambda>(ys, f). steps_from sem leaf nodes outs s (ys, snd xf OR f))"

text \<open>The leaves of a run: the state, and what the lane, the params and the constants hold.\<close>

definition run_leaf :: "int list \<Rightarrow> int list \<Rightarrow> int list \<Rightarrow> int list \<Rightarrow> gref \<Rightarrow> int" where
  "run_leaf lp pbits cbits xs r =
    (case fst r of KS \<Rightarrow> xs ! snd r | KL \<Rightarrow> lp ! snd r | KP \<Rightarrow> pbits ! snd r | KC \<Rightarrow> cbits ! snd r | _ \<Rightarrow> 0)"

text \<open>A lane that holds them.\<close>

definition lane_has :: "lgraph \<Rightarrow> nat \<Rightarrow> int list \<Rightarrow> int list \<Rightarrow> int list \<Rightarrow> lane_state \<Rightarrow> bool" where
  "lane_has lg n lp pbits cbits w \<longleftrightarrow>
    (\<forall>s. n \<le> s \<longrightarrow> s < node_base lg n \<longrightarrow> w_v w ! s = (lp @ pbits @ cbits) ! (s - n))"

lemma run_leaf_lane:
  assumes h: "lane_has lg n lp pbits cbits w" and l: "length lp = length (l_lane lg)" "length pbits = length (l_param lg)"
    and r: "fst r = KS \<or> leaf_in lg n r" and v: "n \<le> length (w_v w)"
  shows "lane_leaf lg n N (w_v w) (w_cur w) r = run_leaf lp pbits cbits (take n (w_v w) @ concat (w_cur w)) r"
proof (cases "fst r = KS")
  case False
  then have li: "leaf_in lg n r" using r by blast
  have "n \<le> loc lg n N r" "loc lg n N r < node_base lg n" using leaf_in_below [OF li] li False
    by (auto simp: leaf_in_def loc_def split: rkind.splits)
  then have "w_v w ! loc lg n N r = (lp @ pbits @ cbits) ! (loc lg n N r - n)" using h by (simp add: lane_has_def)
  also have "\<dots> = run_leaf lp pbits cbits (take n (w_v w) @ concat (w_cur w)) r"
    using li l False by (cases "fst r") (auto simp: leaf_in_def loc_def run_leaf_def nth_append)
  finally show ?thesis using False by (simp add: lane_leaf_def)
qed (simp add: lane_leaf_def run_leaf_def)

text \<open>One step of the lane, read as the step of the run.\<close>

lemma step_leaves:
  assumes b: "both_read obj lg cg" and h: "lane_has lg (g_n_primal cg) lp pbits cbits w"
    and l: "length lp = length (l_lane lg)" "length pbits = length (l_param lg)"
    and ok: "lane_ok lg (g_n_primal cg) stp T w"
  shows "step_result fns (lane_leaf lg (g_n_primal cg) N (w_v w) (w_cur w)) (graph_skeleton cg) (g_outs cg)
    = step_result fns (run_leaf lp pbits cbits (take (g_n_primal cg) (w_v w) @ concat (w_cur w))) (graph_skeleton cg) (g_outs cg)"
proof -
  have v: "g_n_primal cg \<le> length (w_v w)" using ok by (simp add: lane_ok_def)
  have g: "graph_ok cg" using b reader_accepts_graphs [of obj cg] by (simp add: both_read_def)
  have t: "l_lane lg = g_lane cg" "l_param lg = g_param cg" "l_const lg = g_const cg"
    using both_graphs [OF b] by metis+
  have "lane_leaf lg (g_n_primal cg) N (w_v w) (w_cur w) r = run_leaf lp pbits cbits (take (g_n_primal cg) (w_v w) @ concat (w_cur w)) r"
    if "ref_in cg 0 r" for r
    using that t by (intro run_leaf_lane [OF h l _ v]) (auto simp: ref_in_def leaf_in_def split: rkind.splits)
  then have "same_leaves (graph_skeleton cg) (g_outs cg) (lane_leaf lg (g_n_primal cg) N (w_v w) (w_cur w))
      (run_leaf lp pbits cbits (take (g_n_primal cg) (w_v w) @ concat (w_cur w)))"
    unfolding same_leaves_def using graph_leaves [OF g] by blast
  then show ?thesis unfolding step_result_def by (rule order_result_leaves) auto
qed

lemma primal_wf:
  assumes "nodes_read (primal_in lg n) nds out"
  shows "topo (map (node_at cref) nds)" "out_refs_ok (map (node_at cref) nds) (map cref out)"
    "r \<in> set (map cref out) \<or> (\<exists>nd \<in> set (map (node_at cref) nds). r \<in> set (snd nd)) \<Longrightarrow> fst r \<noteq> KN \<Longrightarrow> leaf_in lg n r"
proof -
  have a: "\<exists>j < length nds. primal_in lg n j r" if q: "nd \<in> set (map (node_at cref) nds)" "r \<in> set (snd nd)" for nd r
  proof -
    obtain x where x: "x \<in> set nds" "nd = node_at cref x" using q(1) unfolding set_map by blast
    from x(1) obtain j where jx: "j < length nds" "nds ! j = x" unfolding in_set_conv_nth by blast
    have j: "j < length nds" "nd = node_at cref (nds ! j)" using x(2) jx by simp_all
    obtain op args label where n: "nds ! j = (op, args, label)" by (cases "nds ! j")
    then obtain a where "a \<in> set args" "r = cref a" using q(2) j(2) by (auto simp: node_at_def)
    then show ?thesis using nodes_read_nth(3) [OF assms j(1) n] j(1) by blast
  qed
  show "topo (map (node_at cref) nds)"
    unfolding topo_def
  proof (intro allI impI)
    fix j i assume j: "j < length (map (node_at cref) nds)" "(KN, i) \<in> set (snd (map (node_at cref) nds ! j))"
    obtain op args label where n: "nds ! j = (op, args, label)" by (cases "nds ! j")
    then obtain a where "a \<in> set args" "(KN, i) = cref a" using j by (auto simp: node_at_def)
    then have "primal_in lg n j (KN, i)" using nodes_read_nth(3) [OF assms _ n] j(1) by simp
    then show "i < j" by (simp add: primal_in_def leaf_in_def)
  qed
  have o: "primal_in lg n (length nds) r" if "r \<in> set (map cref out)" for r using that nodes_read_outs [OF assms] by auto
  show "out_refs_ok (map (node_at cref) nds) (map cref out)"
    unfolding out_refs_ok_def using o by (fastforce simp: primal_in_def leaf_in_def)
  show "leaf_in lg n r" if "r \<in> set (map cref out) \<or> (\<exists>nd \<in> set (map (node_at cref) nds). r \<in> set (snd nd))" "fst r \<noteq> KN"
    using that(1)
  proof
    assume "r \<in> set (map cref out)"
    then show ?thesis using o that(2) unfolding primal_in_def by blast
  next
    assume "\<exists>nd \<in> set (map (node_at cref) nds). r \<in> set (snd nd)"
    then show ?thesis using a that(2) unfolding primal_in_def by blast
  qed
qed

lemma primal_leaves:
  assumes p: "nodes_read (primal_in lg n) nds out" and h: "lane_has lg n lp pbits cbits w"
    and l: "length lp = length (l_lane lg)" "length pbits = length (l_param lg)" and v: "n \<le> length (w_v w)"
  shows "step_result fns (lane_leaf lg n N (w_v w) (w_cur w)) (map (node_at cref) nds) (map cref out)
    = step_result fns (run_leaf lp pbits cbits (take n (w_v w))) (map (node_at cref) nds) (map cref out)"
proof -
  have "lane_leaf lg n N (w_v w) (w_cur w) r = run_leaf lp pbits cbits (take n (w_v w)) r" if "leaf_in lg n r" for r
  proof -
    have "run_leaf lp pbits cbits (take n (w_v w) @ concat (w_cur w)) r = run_leaf lp pbits cbits (take n (w_v w)) r"
      using that v by (auto simp: run_leaf_def leaf_in_def nth_append split: rkind.splits)
    then show ?thesis using run_leaf_lane [OF h l _ v, of r N] that by simp
  qed
  then have "same_leaves (map (node_at cref) nds) (map cref out) (lane_leaf lg n N (w_v w) (w_cur w)) (run_leaf lp pbits cbits (take n (w_v w)))"
    unfolding same_leaves_def using primal_wf(3) [OF p] by blast
  then show ?thesis unfolding step_result_def by (rule order_result_leaves) auto
qed

section \<open>Runs of a lane\<close>

text \<open>The state with its tangents, and the flags so far.\<close>

definition wide_state :: "nat \<Rightarrow> lane_state \<Rightarrow> int list \<times> int" where
  "wide_state n w = (take n (w_v w) @ concat (w_cur w), w_flags w OR w_pflags w)"

lemma lane_step_once:
  assumes b: "both_read obj lg cg" and s: "l_step lg = Some stp"
    and l: "length lp = length (l_lane lg)" "length pbits = length (l_param lg)"
    and ok: "lane_ok lg (g_n_primal cg) stp (length (g_tangent cg)) w" and h: "lane_has lg (g_n_primal cg) lp pbits cbits w"
    and once: "lane_once fns (prog_of lg (g_n_primal cg) stp) w = Inr w'"
  shows "lane_ok lg (g_n_primal cg) stp (length (g_tangent cg)) w' \<and> lane_has lg (g_n_primal cg) lp pbits cbits w'"
    "steps_from fns (run_leaf lp pbits cbits) (graph_skeleton cg) (g_outs cg) (Suc k) (wide_state (g_n_primal cg) w)
      = steps_from fns (run_leaf lp pbits cbits) (graph_skeleton cg) (g_outs cg) k (wide_state (g_n_primal cg) w')"
    "steps_from fns (run_leaf lp pbits cbits) (map (node_at cref) (s_nodes stp)) (map cref (s_out stp)) (Suc k)
        (take (g_n_primal cg) (w_v w), w_pflags w)
      = steps_from fns (run_leaf lp pbits cbits) (map (node_at cref) (s_nodes stp)) (map cref (s_out stp)) k
        (take (g_n_primal cg) (w_v w'), w_pflags w')"
proof -
  let ?n = "g_n_primal cg" and ?T = "length (g_tangent cg)" and ?leaf = "lane_leaf lg (g_n_primal cg) (length (s_nodes stp)) (w_v w) (w_cur w)"
  obtain stp' where S: "l_step lg = Some stp'"
    "nodes_read (primal_in lg ?n) (s_nodes stp') (s_out stp')" "length (s_out stp') = ?n"
    "nodes_read (tangent_in lg ?n (length (s_nodes stp'))) (s_nodes (tangent_of lg)) (s_out (tangent_of lg))"
    "?T \<noteq> 0 \<Longrightarrow> length (s_out (tangent_of lg)) = ?n"
    "graph_skeleton cg = wide_nodes lg ?n stp' ?T" "g_outs cg = wide_outs lg ?n stp' ?T"
    using both_graphs [OF b] by metis
  have e: "stp' = stp" using S(1) s by simp
  note S = S(2-) [unfolded e]
  have g: "graph_ok cg" using b reader_accepts_graphs [of obj cg] by (simp add: both_read_def)
  obtain fp ft where F: "step_result fns ?leaf (wide_nodes lg ?n stp ?T) (wide_outs lg ?n stp ?T) = Inr (take ?n (w_v w') @ concat (w_cur w'), fp OR ft)"
    "step_result fns ?leaf (map (node_at cref) (s_nodes stp)) (map cref (s_out stp)) = Inr (take ?n (w_v w'), fp)"
    "w_flags w' = w_flags w OR ft" "w_pflags w' = w_pflags w OR fp" "lane_ok lg ?n stp ?T w'"
    "\<forall>s. ?n \<le> s \<longrightarrow> s < node_base lg ?n \<longrightarrow> w_v w' ! s = w_v w ! s"
    using step_of_lane [OF S(1,2,3,4) ok graph_topo [OF g, unfolded S(5)] graph_outs [OF g, unfolded S(5,6)]
      primal_wf(2) [OF S(1)] once] by blast
  show "lane_ok lg ?n stp ?T w' \<and> lane_has lg ?n lp pbits cbits w'" using F(5,6) h by (simp add: lane_has_def)
  have fl: "w_flags w' OR w_pflags w' = (w_flags w OR w_pflags w) OR (fp OR ft)" by (simp add: F(3,4) or.assoc or.left_commute or.commute)
  have v: "?n \<le> length (w_v w)" using ok by (simp add: lane_ok_def)
  show "steps_from fns (run_leaf lp pbits cbits) (graph_skeleton cg) (g_outs cg) (Suc k) (wide_state ?n w)
      = steps_from fns (run_leaf lp pbits cbits) (graph_skeleton cg) (g_outs cg) k (wide_state ?n w')"
  proof -
    have "step_result fns (run_leaf lp pbits cbits (take ?n (w_v w) @ concat (w_cur w))) (graph_skeleton cg) (g_outs cg)
        = Inr (take ?n (w_v w') @ concat (w_cur w'), fp OR ft)"
      using F(1) step_leaves [OF b h l ok, of fns "length (s_nodes stp)"] by (simp add: S(5,6))
    then show ?thesis using fl by (simp add: wide_state_def)
  qed
  show "steps_from fns (run_leaf lp pbits cbits) (map (node_at cref) (s_nodes stp)) (map cref (s_out stp)) (Suc k)
        (take ?n (w_v w), w_pflags w)
      = steps_from fns (run_leaf lp pbits cbits) (map (node_at cref) (s_nodes stp)) (map cref (s_out stp)) k (take ?n (w_v w'), w_pflags w')"
  proof -
    have "step_result fns (run_leaf lp pbits cbits (take ?n (w_v w))) (map (node_at cref) (s_nodes stp)) (map cref (s_out stp))
        = Inr (take ?n (w_v w'), fp)"
      using F(2) primal_leaves [OF S(1) h l v, of fns "length (s_nodes stp)"] by simp
    then show ?thesis using F(4) by simp
  qed
qed

lemma no_tangents_once: "w_cur w = [] \<Longrightarrow> lane_once fns q w = Inr w' \<Longrightarrow> w_flags w' = w_flags w \<and> w_cur w' = []"
  by (auto simp: lane_once_def bind_r_eq_Inr)

text \<open>Steps taken one after the other.\<close>

lemma prog_width: "q_n (prog_of lg n stp) = n"
  by (simp add: prog_of_def Let_def)

lemma lane_step_at_simp:
  "lane_step_at fns q ats (w, m) s = bind_r (lane_once fns q w) (\<lambda>w'. Inr (w', if s \<in> set ats then record_mark (q_n q) s w' m else m))"
  by (simp add: lane_step_at_def)

lemma lane_steps:
  assumes b: "both_read obj lg cg" and s: "l_step lg = Some stp"
    and l: "length lp = length (l_lane lg)" "length pbits = length (l_param lg)"
  defines "n \<equiv> g_n_primal cg"
  shows "fold_r (lane_step_at fns (prog_of lg n stp) ats) (w, m) ss = Inr (w', m') \<Longrightarrow>
    lane_ok lg n stp (length (g_tangent cg)) w \<Longrightarrow> lane_has lg n lp pbits cbits w \<Longrightarrow>
    lane_ok lg n stp (length (g_tangent cg)) w'
    \<and> steps_from fns (run_leaf lp pbits cbits) (graph_skeleton cg) (g_outs cg) (length ss) (wide_state n w) = Inr (wide_state n w')
    \<and> steps_from fns (run_leaf lp pbits cbits) (map (node_at cref) (s_nodes stp)) (map cref (s_out stp)) (length ss)
        (take n (w_v w), w_pflags w) = Inr (take n (w_v w'), w_pflags w')
    \<and> (g_tangent cg = [] \<longrightarrow> w_flags w' = w_flags w)"
proof (induction ss arbitrary: w m)
  case (Cons k ss)
  obtain w1 where w1: "lane_once fns (prog_of lg n stp) w = Inr w1"
    "fold_r (lane_step_at fns (prog_of lg n stp) ats) (w1, if k \<in> set ats then record_mark (q_n (prog_of lg n stp)) k w1 m else m) ss = Inr (w', m')"
    using Cons.prems(1) by (auto simp: bind_r_eq_Inr lane_step_at_simp)
  note O = lane_step_once [OF b s l Cons.prems(2,3) [unfolded n_def] w1(1) [unfolded n_def], folded n_def]
  have o1: "lane_ok lg n stp (length (g_tangent cg)) w1" "lane_has lg n lp pbits cbits w1" using O(1) by blast+
  have f: "g_tangent cg = [] \<Longrightarrow> w_flags w1 = w_flags w"
    using no_tangents_once [OF _ w1(1)] Cons.prems(2) by (simp add: lane_ok_def)
  show ?case using Cons.IH [OF w1(2) o1] O(2,3) [of "length ss"] f by simp
qed simp

lemma lane_steps_exist:
  assumes b: "both_read obj lg cg" and s: "l_step lg = Some stp"
    and l: "length lp = length (l_lane lg)" "length pbits = length (l_param lg)"
  defines "n \<equiv> g_n_primal cg"
  shows "steps_from fns (run_leaf lp pbits cbits) (graph_skeleton cg) (g_outs cg) (length ss) (wide_state n w) = Inr y \<Longrightarrow>
    lane_ok lg n stp (length (g_tangent cg)) w \<Longrightarrow> lane_has lg n lp pbits cbits w \<Longrightarrow>
    \<exists>w' m'. fold_r (lane_step_at fns (prog_of lg n stp) ats) (w, m) ss = Inr (w', m')"
proof (induction ss arbitrary: w m)
  case (Cons k ss)
  obtain stp' where S: "l_step lg = Some stp'"
    "nodes_read (primal_in lg n) (s_nodes stp') (s_out stp')"
    "nodes_read (tangent_in lg n (length (s_nodes stp'))) (s_nodes (tangent_of lg)) (s_out (tangent_of lg))"
    "graph_skeleton cg = wide_nodes lg n stp' (length (g_tangent cg))" "g_outs cg = wide_outs lg n stp' (length (g_tangent cg))"
    using both_graphs [OF b] unfolding n_def by metis
  have e: "stp' = stp" using S(1) s by simp
  note S = S(2-) [unfolded e]
  have g: "graph_ok cg" using b reader_accepts_graphs [of obj cg] by (simp add: both_read_def)
  obtain ys where "step_result fns (run_leaf lp pbits cbits (take n (w_v w) @ concat (w_cur w))) (graph_skeleton cg) (g_outs cg) = Inr ys"
    using Cons.prems(1) by (auto simp: bind_r_eq_Inr wide_state_def)
  then have "step_result fns (lane_leaf lg n (length (s_nodes stp)) (w_v w) (w_cur w)) (wide_nodes lg n stp (length (g_tangent cg)))
      (wide_outs lg n stp (length (g_tangent cg))) = Inr ys"
    using step_leaves [OF b Cons.prems(3) [unfolded n_def] l Cons.prems(2) [unfolded n_def], of fns "length (s_nodes stp)", folded n_def]
    by (simp add: S(3,4))
  then obtain w1 where w1: "lane_once fns (prog_of lg n stp) w = Inr w1"
    using lane_of_step [OF S(1,2) Cons.prems(2) graph_topo [OF g, unfolded S(3)] graph_outs [OF g, unfolded S(3,4)]] by blast
  note O = lane_step_once [OF b s l Cons.prems(2,3) [unfolded n_def] w1 [unfolded n_def], folded n_def]
  have "steps_from fns (run_leaf lp pbits cbits) (graph_skeleton cg) (g_outs cg) (length ss) (wide_state n w1) = Inr y"
    using O(2) [of "length ss"] Cons.prems(1) by simp
  then obtain w' m' where "fold_r (lane_step_at fns (prog_of lg n stp) ats)
      (w1, if k \<in> set ats then record_mark (q_n (prog_of lg n stp)) k w1 m else m) ss = Inr (w', m')"
    using Cons.IH [of w1] O(1) by blast
  then show ?case using w1 by (auto simp: lane_step_at_simp)
qed simp

text \<open>The lane at the start.\<close>

lemma lane_start:
  assumes l: "length st = n" "length lp = length (l_lane lg)" "length pbits = length (l_param lg)" "length cbits = length (l_const lg)"
    and c: "length cur = T" "\<forall>c \<in> set cur. length c = n"
  shows "lane_ok lg n stp T \<lparr>w_v = lane_slots (prog_of lg n stp) st lp pbits cbits, w_cur = cur, w_flags = f, w_pflags = p\<rparr>"
    "lane_has lg n lp pbits cbits \<lparr>w_v = lane_slots (prog_of lg n stp) st lp pbits cbits, w_cur = cur, w_flags = f, w_pflags = p\<rparr>"
    "take n (lane_slots (prog_of lg n stp) st lp pbits cbits) = st"
proof -
  have o: "b_own (q_map (prog_of lg n stp)) = int (node_base lg n + length (s_nodes stp) + n)"
    "length (q_tcode (prog_of lg n stp)) = length (s_nodes (tangent_of lg))"
    by (simp_all add: prog_of_def Let_def slots_of_def node_base_def int_code_def)
  then show "lane_ok lg n stp T \<lparr>w_v = lane_slots (prog_of lg n stp) st lp pbits cbits, w_cur = cur, w_flags = f, w_pflags = p\<rparr>"
    using l c by (simp add: lane_ok_def lane_slots_def node_base_def)
  show "lane_has lg n lp pbits cbits \<lparr>w_v = lane_slots (prog_of lg n stp) st lp pbits cbits, w_cur = cur, w_flags = f, w_pflags = p\<rparr>"
    using l by (auto simp: lane_has_def lane_slots_def node_base_def nth_append)
  show "take n (lane_slots (prog_of lg n stp) st lp pbits cbits) = st" using l(1) by (simp add: lane_slots_def)
qed

section \<open>A run of all lanes\<close>

lemma check_lane_same: "check_lane n bound (map Some st) = Inr st' \<Longrightarrow> st' = st \<and> length st = n"
proof -
  assume a: "check_lane n bound (map Some st) = Inr st'"
  have "map_r (\<lambda>x. case x of None \<Rightarrow> Inl (Refusal ''lane-value'')
       | Some v \<Rightarrow> if \<not> (0 \<le> v \<and> v < bound) then Inl (Refusal ''lane-value'') else Inr v) (map Some xs) = Inr ys \<Longrightarrow> ys = xs" for xs ys
    by (induction xs arbitrary: ys) (auto simp: bind_r_eq_Inr split: if_splits)
  then show ?thesis using a by (auto simp: check_lane_def split: if_splits)
qed

lemma check_lane_length: "check_lane n bound xs = Inr ys \<Longrightarrow> length ys = n"
  by (auto simp: check_lane_def map_r_length split: if_splits)

lemma check_lanes_same: "check_lanes n bound sts = Inr sts' \<Longrightarrow> sts' = sts \<and> (\<forall>st \<in> set sts. length st = n)"
proof (induction sts arbitrary: sts')
  case (Cons st sts)
  then obtain x xs where x: "check_lane n bound (map Some st) = Inr x" "check_lanes n bound sts = Inr xs" "sts' = x # xs"
    by (auto simp: check_lanes_def bind_r_eq_Inr)
  then show ?case using Cons.IH [OF x(2)] check_lane_same [OF x(1)] by simp
qed (simp add: check_lanes_def)

lemma lane_params_shape:
  assumes "resolve_lane_params lg a = Inr lps"
  shows "length lps = length (a_states a)" "\<forall>lp \<in> set lps. length lp = length (l_lane lg)"
proof -
  obtain ls where l: "length ls = length (a_states a)" "map_r (check_lane (length (l_lane lg)) (push_bit (width (l_fmt lg)) 1)) ls = Inr lps"
    using assms by (auto simp: resolve_lane_params_def Let_def bind_r_eq_Inr split: if_splits)
  then show "length lps = length (a_states a)" by (simp add: map_r_length)
  show "\<forall>lp \<in> set lps. length lp = length (l_lane lg)" using map_r_set [OF l(2)] check_lane_length by blast
qed

lemma tangents_shape:
  assumes "resolve_tangents lg n a = Inr ts"
  shows "length ts = length (a_states a)" "\<forall>t \<in> set ts. length t = length (l_tangent lg) \<and> (\<forall>c \<in> set t. length c = n)"
    "ts = (case a_tangents a of None \<Rightarrow> map (\<lambda>_. []) (a_states a) | Some t \<Rightarrow> t)"
proof -
  have "length ts = length (a_states a) \<and> (\<forall>t \<in> set ts. length t = length (l_tangent lg) \<and> (\<forall>c \<in> set t. length c = n))
    \<and> ts = (case a_tangents a of None \<Rightarrow> map (\<lambda>_. []) (a_states a) | Some t \<Rightarrow> t)"
  proof (cases "a_tangents a")
    case None
    then show ?thesis using assms by (auto simp: resolve_tangents_def Let_def split: if_splits)
  next
    case (Some xs)
    define f where "f lt = (if length lt \<noteq> length (l_tangent lg) then Inl (Refusal ''lane-shape'')
        else check_lanes n (push_bit (width (l_fmt lg)) 1) lt)" for lt
    have r: "map_r f xs = Inr ts" "length xs = length (a_states a)"
      using assms Some unfolding resolve_tangents_def Let_def f_def by (auto split: if_splits)
    have f: "t' = t \<and> length t = length (l_tangent lg) \<and> (\<forall>c \<in> set t. length c = n)" if "f t = Inr t'" for t t'
      using that check_lanes_same unfolding f_def by (metis Inl_Inr_False)
    have "ts = map id xs" by (rule map_r_is [OF r(1)]) (simp add: f)
    then have e: "ts = xs" by simp
    have "length t = length (l_tangent lg) \<and> (\<forall>c \<in> set t. length c = n)" if "t \<in> set ts" for t
      using map_r_all [OF r(1)] that f unfolding e by blast
    then show ?thesis using r(2) Some e by simp
  qed
  then show "length ts = length (a_states a)" "\<forall>t \<in> set ts. length t = length (l_tangent lg) \<and> (\<forall>c \<in> set t. length c = n)"
    "ts = (case a_tangents a of None \<Rightarrow> map (\<lambda>_. []) (a_states a) | Some t \<Rightarrow> t)" by blast+
qed

lemma py_set_length: "py_set xs i v = Inr ys \<Longrightarrow> length ys = length xs"
  by (auto simp: py_set_def split: if_splits)

lemma params_shape: "resolve_params lg a = Inr pbits \<Longrightarrow> length pbits = length (l_param lg)"
proof -
  assume r: "resolve_params lg a = Inr pbits"
  have v: "length q = length p" if "fold_r (param_value lg) p xs = Inr q" for p q xs
    using that by (induction xs arbitrary: p) (auto simp: bind_r_eq_Inr param_value_def py_set_length)
  have e: "length q = length p" if "fold_r (param_encoding lg) p xs = Inr q" for p q xs
    using that by (induction xs arbitrary: p) (auto simp: bind_r_eq_Inr param_encoding_def py_set_length split: if_splits)
  show "length pbits = length (l_param lg)" using r v e by (force simp: resolve_params_def bind_r_eq_Inr split: if_splits)
qed

lemma consts_shape: "resolve_consts lg a = Inr cbits \<Longrightarrow> length cbits = length (l_const lg)"
  by (auto simp: resolve_consts_def bind_r_eq_Inr map_r_length split: option.splits if_splits)

text \<open>The lanes one after the other: what each ends with, and the flags of all.\<close>

definition lane_begin :: "int list \<times> int list list \<Rightarrow> lane_state" where
  "lane_begin vc = \<lparr>w_v = fst vc, w_cur = snd vc, w_flags = 0, w_pflags = 0\<rparr>"

lemma lanes_run:
  "fold_r (lane_run fns q ats steps) x lanes = Inr x' \<Longrightarrow>
    \<exists>ws. length ws = length lanes
      \<and> (\<forall>i < length lanes. \<exists>m m'. fold_r (lane_step_at fns q ats) (lane_begin (lanes ! i), m) [1 .. steps] = Inr (ws ! i, m'))
      \<and> x_states x' = x_states x @ map (\<lambda>w. take (q_n q) (w_v w)) ws \<and> x_tangents x' = x_tangents x @ map w_cur ws
      \<and> x_flags x' = x_flags x OR or_all (map (\<lambda>w. w_flags w OR w_pflags w) ws)
      \<and> x_pflags x' = x_pflags x OR or_all (map w_pflags ws)"
proof (induction lanes arbitrary: x)
  case (Cons c lanes)
  obtain x1 where x1: "lane_run fns q ats steps x c = Inr x1" "fold_r (lane_run fns q ats steps) x1 lanes = Inr x'"
    using Cons.prems by (auto simp: bind_r_eq_Inr)
  obtain w m m' where w: "fold_r (lane_step_at fns q ats) (lane_begin c, m) [1 .. steps] = Inr (w, m')"
    "x_states x1 = x_states x @ [take (q_n q) (w_v w)]" "x_tangents x1 = x_tangents x @ [w_cur w]"
    "x_flags x1 = x_flags x OR (w_flags w OR w_pflags w)" "x_pflags x1 = x_pflags x OR w_pflags w"
    using x1(1) by (auto simp: lane_run_def lane_begin_def bind_r_eq_Inr Let_def split: prod.splits)
  obtain ws where ws: "length ws = length lanes"
    "\<forall>i < length lanes. \<exists>m m'. fold_r (lane_step_at fns q ats) (lane_begin (lanes ! i), m) [1 .. steps] = Inr (ws ! i, m')"
    "x_states x' = x_states x1 @ map (\<lambda>w. take (q_n q) (w_v w)) ws" "x_tangents x' = x_tangents x1 @ map w_cur ws"
    "x_flags x' = x_flags x1 OR or_all (map (\<lambda>w. w_flags w OR w_pflags w) ws)" "x_pflags x' = x_pflags x1 OR or_all (map w_pflags ws)"
    using Cons.IH [OF x1(2)] by blast
  have "\<exists>m m'. fold_r (lane_step_at fns q ats) (lane_begin ((c # lanes) ! i), m) [1 .. steps] = Inr ((w # ws) ! i, m')"
    if "i < length (c # lanes)" for i
    using that w(1) ws(2) by (cases i) auto
  then show ?case using ws w by (intro exI [of _ "w # ws"]) (simp add: or.assoc)
qed simp

text \<open>
  The run of the reference interpreter, lane by lane: the compiled step applied as often as there are steps, on
  the state with its tangents; and the primal step alone on the state alone.
\<close>

definition tangents_in :: "lang_args \<Rightarrow> nat \<Rightarrow> int list list" where
  "tangents_in a i = (case a_tangents a of None \<Rightarrow> [] | Some ts \<Rightarrow> ts ! i)"

definition tangents_out :: "run_out \<Rightarrow> nat \<Rightarrow> int list list" where
  "tangents_out out i = (case r_tangents out of None \<Rightarrow> [] | Some ts \<Rightarrow> ts ! i)"

lemma lang_run_steps:
  assumes b: "both_read obj lg cg" and s: "l_step lg = Some stp" and run: "lang_run tr mp lg a = Inr out"
  shows "\<exists>lps pbits cbits fls pls. resolve_lane_params lg a = Inr lps \<and> resolve_params lg a = Inr pbits
    \<and> resolve_consts lg a = Inr cbits \<and> length (r_states out) = length (a_states a)
    \<and> length fls = length (a_states a) \<and> length pls = length (a_states a) \<and> r_flags out = or_all fls \<and> r_primal_flags out = or_all pls
    \<and> (\<forall>i < length (a_states a).
        steps_from (ops tr (g_fmt cg) (g_rnd cg)) (run_leaf (lps ! i) pbits cbits) (graph_skeleton cg) (g_outs cg)
          (nat (a_steps a)) (a_states a ! i @ concat (tangents_in a i), 0)
        = Inr (r_states out ! i @ concat (tangents_out out i), fls ! i)
      \<and> steps_from (ops tr (g_fmt cg) (g_rnd cg)) (run_leaf (lps ! i) pbits cbits) (map (node_at cref) (s_nodes stp))
          (map cref (s_out stp)) (nat (a_steps a)) (a_states a ! i, 0)
        = Inr (r_states out ! i, pls ! i))"
proof -
  let ?n = "g_n_primal cg" and ?T = "length (g_tangent cg)" and ?fns = "ops tr (g_fmt cg) (g_rnd cg)"
  obtain stp' where S: "l_step lg = Some stp'" "make_prog lg ?n = Inr (prog_of lg ?n stp')" "n_state lg = int ?n"
    "l_fmt lg = g_fmt cg" "l_rnd lg = g_rnd cg" "l_tangent lg = g_tangent cg"
    using both_graphs [OF b] by metis
  have e: "stp' = stp" using S(1) s by simp
  let ?q = "prog_of lg ?n stp"
  obtain states lps ts pbits cbits q x where r: "check_lanes ?n (push_bit (width (l_fmt lg)) 1) (a_states a) = Inr states"
    "resolve_lane_params lg a = Inr lps" "resolve_tangents lg ?n a = Inr ts" "resolve_params lg a = Inr pbits"
    "resolve_consts lg a = Inr cbits" "make_prog lg ?n = Inr q"
    "fold_r (lane_run (ops tr (l_fmt lg) (l_rnd lg)) q (a_at a) (a_steps a))
        \<lparr>x_states = [], x_tangents = [], x_flags = 0, x_pflags = 0, x_marks = no_marks\<rparr>
        (map (\<lambda>(st, lp, cur). (lane_slots q st lp pbits cbits, cur)) (zip states (zip lps ts))) = Inr x"
    "out = (let at_all = map (\<lambda>s. (s, at_states (x_marks x) s, at_flags (x_marks x) s)) (a_at a) in
       if l_tangent lg = []
       then \<lparr>r_states = x_states x, r_flags = x_flags x, r_at = at_all, r_tangents = None,
             r_primal_flags = x_flags x, r_at_tangents = []\<rparr>
       else \<lparr>r_states = x_states x, r_flags = x_flags x, r_at = at_all, r_tangents = Some (x_tangents x),
             r_primal_flags = x_pflags x,
             r_at_tangents = map (\<lambda>s. (s, at_t (x_marks x) s)) (a_at a)\<rparr>)"
    using run S(3) unfolding lang_run_def Let_def bind_r_eq_Inr by auto
  have q: "q = ?q" using r(6) S(2) e by simp
  have st: "states = a_states a" "\<forall>v \<in> set (a_states a). length v = ?n" using check_lanes_same [OF r(1)] by auto
  note lp = lane_params_shape [OF r(2)] and tn = tangents_shape [OF r(3)]
  note pb = params_shape [OF r(4)] and cb = consts_shape [OF r(5)]
  let ?K = "length (a_states a)"
  define lanes where "lanes = map (\<lambda>(st, lp, cur). (lane_slots ?q st lp pbits cbits, cur)) (zip (a_states a) (zip lps ts))"
  have ll: "length lanes = ?K" using lp(1) tn(1) by (simp add: lanes_def)
  have li: "lanes ! i = (lane_slots ?q (a_states a ! i) (lps ! i) pbits cbits, ts ! i)" if "i < ?K" for i
    using that lp(1) tn(1) by (simp add: lanes_def)
  obtain ws where ws: "length ws = ?K"
    "\<forall>i < ?K. \<exists>m m'. fold_r (lane_step_at ?fns ?q (a_at a)) (lane_begin (lanes ! i), m) [1 .. a_steps a] = Inr (ws ! i, m')"
    "x_states x = map (\<lambda>w. take ?n (w_v w)) ws" "x_tangents x = map w_cur ws"
    "x_flags x = or_all (map (\<lambda>w. w_flags w OR w_pflags w) ws)" "x_pflags x = or_all (map w_pflags ws)"
    using lanes_run [OF r(7) [unfolded q st(1) S(4,5), folded lanes_def]]
    unfolding ll prog_width run_state.simps append_Nil or.left_neutral by blast
  have lane: "steps_from ?fns (run_leaf (lps ! i) pbits cbits) (graph_skeleton cg) (g_outs cg) (nat (a_steps a))
        (a_states a ! i @ concat (ts ! i), 0) = Inr (take ?n (w_v (ws ! i)) @ concat (w_cur (ws ! i)), w_flags (ws ! i) OR w_pflags (ws ! i))"
    "steps_from ?fns (run_leaf (lps ! i) pbits cbits) (map (node_at cref) (s_nodes stp)) (map cref (s_out stp)) (nat (a_steps a))
        (a_states a ! i, 0) = Inr (take ?n (w_v (ws ! i)), w_pflags (ws ! i))"
    "?T = 0 \<Longrightarrow> w_flags (ws ! i) = 0 \<and> w_cur (ws ! i) = []" if i: "i < ?K" for i
  proof -
    have l: "length (a_states a ! i) = ?n" "length (lps ! i) = length (l_lane lg)" "length (ts ! i) = ?T" "\<forall>c \<in> set (ts ! i). length c = ?n"
    proof -
      have "ts ! i \<in> set ts" using i tn(1) by simp
      then show "length (ts ! i) = ?T" "\<forall>c \<in> set (ts ! i). length c = ?n" using tn(2) S(6) by auto
      show "length (a_states a ! i) = ?n" "length (lps ! i) = length (l_lane lg)" using i st(2) lp by simp_all
    qed
    note L = lane_start [OF l(1,2) pb cb l(3,4), where stp = stp]
    obtain m m' where f: "fold_r (lane_step_at ?fns ?q (a_at a)) (lane_begin (lanes ! i), m) [1 .. a_steps a] = Inr (ws ! i, m')"
      using ws(2) i by blast
    have begin_is: "lane_begin (lanes ! i) = \<lparr>w_v = lane_slots ?q (a_states a ! i) (lps ! i) pbits cbits, w_cur = ts ! i, w_flags = 0, w_pflags = 0\<rparr>"
      using li [OF i] by (simp add: lane_begin_def)
    have R: "lane_ok lg ?n stp ?T (ws ! i)
      \<and> steps_from ?fns (run_leaf (lps ! i) pbits cbits) (graph_skeleton cg) (g_outs cg) (length [1 .. a_steps a])
          (wide_state ?n (lane_begin (lanes ! i))) = Inr (wide_state ?n (ws ! i))
      \<and> steps_from ?fns (run_leaf (lps ! i) pbits cbits) (map (node_at cref) (s_nodes stp)) (map cref (s_out stp)) (length [1 .. a_steps a])
          (take ?n (w_v (lane_begin (lanes ! i))), w_pflags (lane_begin (lanes ! i))) = Inr (take ?n (w_v (ws ! i)), w_pflags (ws ! i))
      \<and> (g_tangent cg = [] \<longrightarrow> w_flags (ws ! i) = w_flags (lane_begin (lanes ! i)))"
      by (rule lane_steps [OF b s l(2) pb f]) (use L(1,2) begin_is in simp_all)
    have w0: "take ?n (w_v (lane_begin (lanes ! i))) = a_states a ! i" "w_cur (lane_begin (lanes ! i)) = ts ! i"
      "w_flags (lane_begin (lanes ! i)) = 0" "w_pflags (lane_begin (lanes ! i)) = 0"
      using L(3) unfolding begin_is by simp_all
    have k: "length [1 .. a_steps a] = nat (a_steps a)" by simp
    show "steps_from ?fns (run_leaf (lps ! i) pbits cbits) (graph_skeleton cg) (g_outs cg) (nat (a_steps a))
        (a_states a ! i @ concat (ts ! i), 0) = Inr (take ?n (w_v (ws ! i)) @ concat (w_cur (ws ! i)), w_flags (ws ! i) OR w_pflags (ws ! i))"
      using R unfolding wide_state_def w0 k by simp
    show "steps_from ?fns (run_leaf (lps ! i) pbits cbits) (map (node_at cref) (s_nodes stp)) (map cref (s_out stp)) (nat (a_steps a))
        (a_states a ! i, 0) = Inr (take ?n (w_v (ws ! i)), w_pflags (ws ! i))"
      using R unfolding w0 k by simp
    show "w_flags (ws ! i) = 0 \<and> w_cur (ws ! i) = []" if "?T = 0"
      using R that unfolding w0 by (simp add: lane_ok_def)
  qed
  have tin: "tangents_in a i = ts ! i" if "i < ?K" for i
    using tn(3) that by (simp add: tangents_in_def split: option.splits)
  have outs: "r_states out = x_states x" "r_flags out = x_flags x"
    "r_primal_flags out = or_all (map w_pflags ws)" "\<And>i. i < ?K \<Longrightarrow> tangents_out out i = w_cur (ws ! i)"
  proof -
    show "r_states out = x_states x" "r_flags out = x_flags x" by (simp_all add: r(8) Let_def)
    have "or_all (map (\<lambda>w. w_flags w OR w_pflags w) ws) = or_all (map w_pflags ws)" if "?T = 0"
    proof -
      have "map (\<lambda>w. w_flags w OR w_pflags w) ws = map w_pflags ws"
        using lane(3) that ws(1) by (intro nth_equalityI) simp_all
      then show ?thesis by (simp only:)
    qed
    then show "r_primal_flags out = or_all (map w_pflags ws)"
      using ws(5,6) S(6) by (simp add: r(8) Let_def)
    show "tangents_out out i = w_cur (ws ! i)" if "i < ?K" for i
      using that lane(3) [OF that] ws(1,4) S(6) by (simp add: tangents_out_def r(8) Let_def)
  qed
  show ?thesis
  proof (intro exI conjI allI impI)
    show "resolve_lane_params lg a = Inr lps" "resolve_params lg a = Inr pbits" "resolve_consts lg a = Inr cbits"
      by (rule r)+
    show "length (r_states out) = ?K" using outs(1) ws(1,3) by simp
    show "r_flags out = or_all (map (\<lambda>w. w_flags w OR w_pflags w) ws)" using outs(2) ws(5) by simp
    show "r_primal_flags out = or_all (map w_pflags ws)" by (rule outs(3))
    fix i assume i: "i < ?K"
    show "steps_from ?fns (run_leaf (lps ! i) pbits cbits) (graph_skeleton cg) (g_outs cg) (nat (a_steps a))
        (a_states a ! i @ concat (tangents_in a i), 0)
      = Inr (r_states out ! i @ concat (tangents_out out i), map (\<lambda>w. w_flags w OR w_pflags w) ws ! i)"
      using lane(1) [OF i] outs(1,4) ws(1,3) i tin by simp
    show "steps_from ?fns (run_leaf (lps ! i) pbits cbits) (map (node_at cref) (s_nodes stp)) (map cref (s_out stp)) (nat (a_steps a))
        (a_states a ! i, 0) = Inr (r_states out ! i, map w_pflags ws ! i)"
      using lane(2) [OF i] outs(1) ws(1,3) i by simp
  qed (use ws(1) in simp_all)
qed

section \<open>The compiled step, run\<close>

text \<open>The lowered nodes executed in an order, again and again, their leaves read from the bank.\<close>

fun order_steps ::
  "node_sem \<Rightarrow> (int list \<Rightarrow> gref \<Rightarrow> int) \<Rightarrow> gnode list \<Rightarrow> gref list \<Rightarrow> nat list \<Rightarrow> nat \<Rightarrow> int list \<times> int \<Rightarrow> (int list \<times> int) result" where
  "order_steps sem leaf nodes outs js 0 xf = Inr xf"
| "order_steps sem leaf nodes outs js (Suc s) xf =
    bind_r (order_result sem (leaf (fst xf)) nodes outs js) (\<lambda>(ys, f). order_steps sem leaf nodes outs js s (ys, snd xf OR f))"

lemma order_steps_same:
  assumes "\<And>xs y. order_result sem (leaf xs) nodes outs js = Inr y \<longleftrightarrow> step_result sem (leaf' xs) nodes' outs' = Inr y"
  shows "order_steps sem leaf nodes outs js k xf = Inr y \<longleftrightarrow> steps_from sem leaf' nodes' outs' k xf = Inr y"
  by (induction k arbitrary: xf) (simp_all add: bind_r_eq_Inr assms)

text \<open>What comes from outside: the state and the lane's params.\<close>

definition lane_inputs :: "int list \<Rightarrow> int list \<Rightarrow> gref \<Rightarrow> int" where
  "lane_inputs lp xs r = (if fst r = KS then xs ! snd r else lp ! snd r)"

lemma run_leaf_graph:
  assumes g: "graph_ok cg" and c: "\<And>i. i < length (g_const cg) \<Longrightarrow> cbits ! i = const_bits cg i"
    and p: "\<And>i. i < length (g_param cg) \<Longrightarrow> pbits ! i = param_bits_of cg pb i"
  shows "step_result sem (graph_leaf cg pb (lane_inputs lp xs)) (graph_skeleton cg) (g_outs cg)
    = step_result sem (run_leaf lp pbits cbits xs) (graph_skeleton cg) (g_outs cg)"
proof -
  have "graph_leaf cg pb (lane_inputs lp xs) r = run_leaf lp pbits cbits xs r" if "ref_in cg 0 r" for r
    using that c p by (cases r) (auto simp: ref_in_def graph_leaf_def run_leaf_def lane_inputs_def split: rkind.splits)
  then have "same_leaves (graph_skeleton cg) (g_outs cg) (graph_leaf cg pb (lane_inputs lp xs)) (run_leaf lp pbits cbits xs)"
    unfolding same_leaves_def using graph_leaves [OF g] by blast
  then show ?thesis unfolding step_result_def by (rule order_result_leaves) auto
qed

lemma default_consts:
  assumes "resolve_consts lg a = Inr cbits" "a_h a = None" "l_const lg = g_const cg" "i < length (g_const cg)"
  shows "cbits ! i = const_bits cg i"
  using assms by (auto simp: resolve_consts_def const_bits_def split: prod.split)

text \<open>The run of the reference interpreter is the run of the lowered step, in every order the scheduler gives.\<close>

lemma compiled_run:
  assumes b: "both_read obj lg cg" and run: "lang_run tr mp lg a = Inr out" and h: "a_h a = None"
    and rp: "resolve_params lg a = Inr pbits" and rl: "resolve_lane_params lg a = Inr lps"
    and p: "\<forall>i < length (g_param cg). param_bits_of cg pb i = pbits ! i"
    and low: "lower_f fw cg pb lw = Inr low"
  shows "\<exists>js fls. sched_order low name margin pinned budget = Some (Inr js) \<and> length fls = length (a_states a) \<and> r_flags out = or_all fls
    \<and> (\<forall>i < length (a_states a).
        order_steps (ops tr (g_fmt cg) (g_rnd cg)) (\<lambda>xs. bank_leaf low (lane_inputs (lps ! i) xs)) (skeleton (w_nodes low)) (w_outs low) js
          (nat (a_steps a)) (a_states a ! i @ concat (tangents_in a i), 0)
        = Inr (r_states out ! i @ concat (tangents_out out i), fls ! i))"
proof -
  have g: "graph_ok cg" using b reader_accepts_graphs [of obj cg] by (simp add: both_read_def)
  obtain stp where s: "l_step lg = Some stp" "l_const lg = g_const cg" using both_graphs [OF b] by metis
  obtain cbits fls where R: "resolve_consts lg a = Inr cbits" "length fls = length (a_states a)" "r_flags out = or_all fls"
    "\<forall>i < length (a_states a). steps_from (ops tr (g_fmt cg) (g_rnd cg)) (run_leaf (lps ! i) pbits cbits) (graph_skeleton cg) (g_outs cg)
          (nat (a_steps a)) (a_states a ! i @ concat (tangents_in a i), 0) = Inr (r_states out ! i @ concat (tangents_out out i), fls ! i)"
    using lang_run_steps [OF b s(1) run] rp rl by auto
  note L = lowered_step [OF g low]
  obtain js where js: "sched_order low name margin pinned budget = Some (Inr js)" "valid_order (skeleton (w_nodes low)) js"
    using lowered_order [OF g low] by blast
  have sub: "set js \<subseteq> {..< length (skeleton (w_nodes low))}" using js(2) by (simp add: valid_order_def)
  have "order_result (ops tr (g_fmt cg) (g_rnd cg)) (bank_leaf low (lane_inputs lp xs)) (skeleton (w_nodes low)) (w_outs low) js = Inr y
      \<longleftrightarrow> step_result (ops tr (g_fmt cg) (g_rnd cg)) (run_leaf lp pbits cbits xs) (graph_skeleton cg) (g_outs cg) = Inr y" for lp xs y
    unfolding order_result_leaves [OF L(6) sub] any_order_same [OF L(1) js(2) L(3)] L(7)
    using run_leaf_graph [OF g default_consts [OF R(1) h s(2)], of pbits pb] p by simp
  then have "order_steps (ops tr (g_fmt cg) (g_rnd cg)) (\<lambda>xs. bank_leaf low (lane_inputs lp xs)) (skeleton (w_nodes low)) (w_outs low) js k xf = Inr y
      \<longleftrightarrow> steps_from (ops tr (g_fmt cg) (g_rnd cg)) (run_leaf lp pbits cbits) (graph_skeleton cg) (g_outs cg) k xf = Inr y" for lp k xf y
    by (rule order_steps_same)
  then show ?thesis using js(1) R by blast
qed

section \<open>A run without its tangents\<close>

text \<open>A version-1 graph is the version-2 graph without its tangents.\<close>

definition no_tangents :: "lgraph \<Rightarrow> lgraph" where
  "no_tangents lg = lg\<lparr>l_tangent := [], l_tangent_field := None, l_tangent_step := None\<rparr>"

lemma plain_graph:
  assumes "from_obj obj = Inr lg" "from_obj (obj\<lparr>j_version := 1\<rparr>) = Inr lg'"
  shows "lg' = no_tangents lg"
  using assms unfolding from_obj_def if_Inl_Inr bind_r_eq_Inr by (auto simp: bind_r_eq_Inr no_tangents_def)

lemma no_tangents_fields:
  "l_fmt (no_tangents lg) = l_fmt lg" "l_rnd (no_tangents lg) = l_rnd lg" "l_param (no_tangents lg) = l_param lg"
  "l_lane (no_tangents lg) = l_lane lg" "l_const (no_tangents lg) = l_const lg" "l_integrator (no_tangents lg) = l_integrator lg"
  "l_step (no_tangents lg) = l_step lg" "l_tangent (no_tangents lg) = []"
  by (simp_all add: no_tangents_def)

lemma no_tangents_resolve:
  fixes lg :: lgraph and a :: lang_args
  defines "a0 \<equiv> a\<lparr>a_tangents := None\<rparr>"
  shows "resolve_lane_params (no_tangents lg) a0 = resolve_lane_params lg a" "resolve_params (no_tangents lg) a0 = resolve_params lg a"
    "resolve_consts (no_tangents lg) a0 = resolve_consts lg a"
proof -
  have r: "round_run (no_tangents lg) = round_run lg" "name_index (no_tangents lg) = name_index lg"
    unfolding round_run_def name_index_def no_tangents_fields fun_eq_iff by simp_all
  have v: "param_value (no_tangents lg) = param_value lg" "param_encoding (no_tangents lg) = param_encoding lg"
    unfolding param_value_def param_encoding_def r no_tangents_fields fun_eq_iff by simp_all
  have a: "a_states a0 = a_states a" "a_lane_params a0 = a_lane_params a" "a_params a0 = a_params a" "a_param_bits a0 = a_param_bits a"
    "a_h a0 = a_h a" by (simp_all add: a0_def)
  show "resolve_lane_params (no_tangents lg) a0 = resolve_lane_params lg a"
    unfolding resolve_lane_params_def no_tangents_fields a ..
  show "resolve_params (no_tangents lg) a0 = resolve_params lg a"
    unfolding resolve_params_def v no_tangents_fields a ..
  show "resolve_consts (no_tangents lg) a0 = resolve_consts lg a"
    unfolding resolve_consts_def r no_tangents_fields a ..
qed

lemma plain_run_flags: "lang_run tr mp lg a = Inr out \<Longrightarrow> l_tangent lg = [] \<Longrightarrow> r_primal_flags out = r_flags out"
  by (auto simp: lang_run_def Let_def bind_r_eq_Inr)

lemma primal_of_run:
  assumes b: "both_read obj lg cg" "both_read (obj\<lparr>j_version := 1\<rparr>) lg' cg'"
    and run: "lang_run tr mp lg a = Inr out" "lang_run tr mp lg' (a\<lparr>a_tangents := None\<rparr>) = Inr out'"
  shows "r_states out' = r_states out \<and> r_flags out' = r_primal_flags out"
proof -
  have lg': "lg' = no_tangents lg" using plain_graph [of obj lg lg'] b by (simp add: both_read_def)
  obtain stp where s: "l_step lg = Some stp" "l_fmt lg = g_fmt cg" "l_rnd lg = g_rnd cg" using both_graphs [OF b(1)] by metis
  have s': "l_step lg' = Some stp" "l_tangent lg' = []" using s(1) by (simp_all add: lg' no_tangents_def)
  have "l_fmt lg' = g_fmt cg'" "l_rnd lg' = g_rnd cg'" using both_graphs [OF b(2)] by metis+
  then have t': "g_fmt cg' = g_fmt cg" "g_rnd cg' = g_rnd cg" using s(2,3) by (simp_all add: lg' no_tangents_def)
  have same: "a_states (a\<lparr>a_tangents := None\<rparr>) = a_states a" "a_steps (a\<lparr>a_tangents := None\<rparr>) = a_steps a" by simp_all
  let ?K = "length (a_states a)"
  let ?step = "\<lambda>lp pbits cbits i. steps_from (ops tr (g_fmt cg) (g_rnd cg)) (run_leaf lp pbits cbits) (map (node_at cref) (s_nodes stp))
          (map cref (s_out stp)) (nat (a_steps a)) (a_states a ! i, 0)"
  obtain lps pbits cbits pls where R: "resolve_lane_params lg a = Inr lps" "resolve_params lg a = Inr pbits"
    "resolve_consts lg a = Inr cbits" "length (r_states out) = ?K" "length pls = ?K" "r_primal_flags out = or_all pls"
    "\<forall>i < ?K. ?step (lps ! i) pbits cbits i = Inr (r_states out ! i, pls ! i)"
    using lang_run_steps [OF b(1) s(1) run(1)] by blast
  obtain lps' pbits' cbits' pls' where R': "resolve_lane_params lg' (a\<lparr>a_tangents := None\<rparr>) = Inr lps'"
    "resolve_params lg' (a\<lparr>a_tangents := None\<rparr>) = Inr pbits'" "resolve_consts lg' (a\<lparr>a_tangents := None\<rparr>) = Inr cbits'"
    "length (r_states out') = ?K" "length pls' = ?K" "r_primal_flags out' = or_all pls'"
    "\<forall>i < ?K. ?step (lps' ! i) pbits' cbits' i = Inr (r_states out' ! i, pls' ! i)"
    using lang_run_steps [OF b(2) s'(1) run(2)] unfolding t' same by blast
  have e: "lps' = lps" "pbits' = pbits" "cbits' = cbits" using R(1-3) R'(1-3) no_tangents_resolve [of lg a] by (simp_all add: lg')
  have "r_states out' ! i = r_states out ! i \<and> pls' ! i = pls ! i" if "i < ?K" for i
    using R(7) R'(7) that unfolding e by auto
  then have "r_states out' = r_states out" "pls' = pls" using R(4,5) R'(4,5) by (auto intro: nth_equalityI)
  then show ?thesis using R(6) R'(6) plain_run_flags [OF run(2) s'(2)] by simp
qed

text \<open>Params at their defaults.\<close>

lemma default_params:
  assumes "resolve_params lg a = Inr pbits" "a_params a = []" "a_param_bits a = []" "l_param lg = g_param cg" "i < length (g_param cg)"
  shows "param_bits_of cg (\<lambda>_. None) i = pbits ! i"
  using assms by (auto simp: resolve_params_def param_bits_of_def split: prod.split)

end
