(* ===== verification/Spec2Isabelle.thy ===== *)
theory Spec2Isabelle
  imports IntWords RoundedValue Opcodes ReduceRows FormatOf CharsPayload SeqRint SeqSqrt SeqSafe RunAgree
begin

text \<open>
  The cft-fp256 golden model. The repository describes a floating-point tile for four binary formats (32, 64,
  128 and 256 bits) and a sequencer that runs programs on it. Its Python package
  \<^verbatim>\<open>src/python/cft_golden\<close> is the reference the hardware and the C library are held to. This development
  models the part of that package that defines results and proves what makes each result right.

  Correspondence. Every Python function is one definition of the same name (a leading underscore dropped, a
  suffix \<open>_f\<close> where the name belongs to HOL). Python integers are \<open>int\<close>, encodings are integers whose
  range is the predicate \<open>fits\<close>, a flag word is an integer built with \<open>OR\<close>, a raised exception or a failed
  \<open>assert\<close> is a value \<open>Inl\<close> of the result type, a \<open>while\<close> loop is a function with its measure, and a loop
  that need not end is a \<open>partial_function\<close> whose value \<open>None\<close> means that it does not return.

  The theories, from the bottom:

  \<^item> \<open>CftPrelude\<close>: \<open>result\<close> with its bind, loops over ranges, \<open>bit_length\<close>, powers of two, bit identities.
  \<^item> \<open>Formats\<close> (\<^verbatim>\<open>formats.py\<close>) and \<open>Encoding\<close>: the format record, the ladder, unpacking, the packed
    constants, and the value \<open>fval\<close> of an encoding.
  \<^item> \<open>RoundSpec\<close>: the abstract specification. \<open>round_real\<close> and \<open>round_signed\<close> round an exact real into a
    format and name its flags; the lemmas show they are the nearest or the directed neighbour.
  \<^item> \<open>Rounding\<close>, \<open>Arith\<close>, \<open>Seeds\<close>, \<open>SimpleOps\<close>, \<open>Opcodes\<close>, \<open>Clause5\<close> (\<^verbatim>\<open>softfloat.py\<close>): the
    normaliser \<open>round_pack\<close> refines the specification; the arithmetic, the seed tables, comparisons, minimum
    and maximum, the integer group, the opcode dispatch and clause 5's other operations. \<open>IntWords\<close> reads the
    integer group as machine words; \<open>RoundedValue\<close> collects what the rounded value satisfies.
  \<^item> \<open>Augmented\<close> (\<^verbatim>\<open>augmented.py\<close>): the error-free pairs.
  \<^item> \<open>TreeFold\<close>, \<open>Reduce\<close>, \<open>ReduceRows\<close> (\<^verbatim>\<open>reduce.py\<close>): a locale for reductions over the canonical tree, with
    an interpretation for each reduction, the streaming form, the partial sums and the special rows.
  \<^item> \<open>FormatOf\<close> (\<^verbatim>\<open>formatof.py\<close>): operations that round once into another format.
  \<^item> \<open>Chars\<close> and \<open>CharsRound\<close>, \<open>CharsText\<close>, \<open>CharsTrip\<close>, \<open>CharsDigits\<close>, \<open>CharsPayload\<close>
    (\<^verbatim>\<open>chars.py\<close>): the lexer, the readers, the writers and the payload operations; the bounds on \<open>log2(10)\<close>
    and the bands; the text layer; the round trips; rounding to a number of digits and \<open>Pmin\<close>.
  \<^item> \<open>Sequences\<close> and \<open>StepValues\<close>, \<open>SeqRint\<close>, \<open>SeqDiv\<close>, \<open>SeqSqrt\<close> (\<^verbatim>\<open>sequences.py\<close>): division, square root,
    integral rounding and scaling as fixed sequences of opcodes; what one step promises; the proofs that a
    sequence delivers the bits and flags of the operation it stands for, for division and root with the error
    analysis of their Newton steps and the restored floor.
  \<^item> \<open>SeqIsa\<close>, \<open>SeqProgram\<close>, \<open>SeqRun\<close> (\<^verbatim>\<open>seq.py\<close>, \<^verbatim>\<open>seqflags.py\<close>): instruction words, the program object with
    its validation and its byte image, and execution. \<open>SeqBlocks\<close> and \<open>SeqExec\<close> show that a validated body is
    a tree of blocks and that execution is the fold over that tree; \<open>SeqLanes\<close> is a locale of the operations
    one lane performs, interpreted for every class of instruction, from which lane independence follows;
    \<open>SeqSafe\<close> shows that a validated program runs without an exception.
  \<^item> \<open>LangConst\<close>, \<open>StepGraph\<close>, \<open>Interp\<close> (\<^verbatim>\<open>lang/constants.py\<close>, \<^verbatim>\<open>lang/graph.py\<close>, \<^verbatim>\<open>lang/interp.py\<close>, \<^verbatim>\<open>cftc/ir.py\<close>): the
    expression language's exact values and their texts; the step graph with the language's reader and tests and
    the compiler's reader, which writes the tangent section out once for each vector; the reference interpreter
    with its slots, lanes, checkpoints and resolved arguments.
  \<^item> \<open>StepEval\<close>: the meaning of a step graph, a valuation of its nodes, and that every order that respects the
    dependences finds it. \<open>GraphRight\<close>: what the compiler's reader makes is such a graph.
  \<^item> \<open>Lower\<close> and \<open>ShareRight\<close>, \<open>FoldRight\<close>, \<open>OpsLaws\<close>, \<open>LowerRight\<close> (\<^verbatim>\<open>cftc/lower.py\<close>): hash-consing, the fold
    of negations into flipped constants and the constant bank. The two rewritings are proved in locales of the
    laws they rest on (commuting operands, a negation that moves across a product), interpreted on the golden
    operations in \<open>OpsLaws\<close>; \<open>LowerRight\<close> adds that the bank holds what each instruction means to read.
  \<^item> \<open>Schedule\<close>, \<open>ScheduleRight\<close> (\<^verbatim>\<open>cftc/schedule.py\<close>): the candidate orders and the cost of a body; every
    candidate returns, each node once and after what it reads.
  \<^item> \<open>StepAgree\<close>, \<open>RunAgree\<close>: a step of the interpreter's lane is the step of the compiler's graph, and a run of
    the interpreter is the run of the lowered step in any order the scheduler gives.
  \<^item> this theory: concrete operands for the witnesses and the properties, each over the definitions.

  How they interact. Every arithmetic result passes through \<open>round_pack\<close>; \<open>compute\<close> steers an opcode's
  operands into \<open>fma\<close>, and reductions, augmented halves and the sequencer call \<open>compute\<close> or the operations
  above it. The sequencer is the only part with state: the machine record of \<open>SeqRun\<close> holds registers, lane
  flags, status, scratch memory and deposits, one list entry for each lane.

  Bounds and fuel. \<open>exec\<close> is a partial function because an unvalidated program may loop for ever; for a
  validated one \<open>MAX_INSTRUCTIONS\<close> bounds the cost, nesting is bounded by the depth check, and
  \<open>early_exit_is_invisible\<close> and \<open>validated_runs_return\<close> state that the run returns. Every other loop has a
  measure. Theorems hold for every well-formed format unless \<open>ladder_fmt\<close> is named, which the four formats
  satisfy and which states what the source's comments assume of them.

  The compiler's walk from the outputs and its list scheduler are partial functions too, since on a graph with a
  cycle they need not end; on every graph the reader accepts they do (\<open>scheduler_returns_an_order\<close>).

  Parameters. The hash of the program digest is an argument of the definition that uses it. The nine elementary
  functions of the language, which \<^verbatim>\<open>transcend.py\<close> decides with the library \<open>mpmath\<close>, are the parameter \<open>tr\<close> of the
  interpreter and of the compiled step alike, and whether that library is installed is the parameter \<open>mp\<close>; the
  constant words of inlined routines are the parameter \<open>fragment_words\<close>. The theorems hold for all of them.

  Not modelled. The generated elementary functions (\<^verbatim>\<open>mathlib.py\<close>, \<^verbatim>\<open>transcend.py\<close>, \<^verbatim>\<open>routines.py\<close>), whose
  content is tables and instruction listings; the signature scheme and the assembler; of the expression language
  its parser, checker, tangent construction and rendering, and of its compiler the register allocation, the
  emission of instruction words and the symbolic check of the result, so that the theorems end at the order of
  the lowered nodes; certificates, test vectors, bindings, drivers and scripts, which are files, processes and
  reports around the modelled results. Within the modelled files: English diagnostics of exceptions, the
  dictionaries that only name operations, and the generator of random programs. A key that a graph's object
  lacks is read as a null and only ASCII digits are digits, so on such malformed objects the model may raise
  another exception than the code; both reject them.
\<close>

section \<open>Concrete operands for the witnesses\<close>

text \<open>
  Binary32 patterns: \<open>1065353216\<close> is 1, \<open>1073741824\<close> is 2, \<open>1077936128\<close> is 3,
  \<open>2139095040\<close> is plus infinity and \<open>2143289344\<close> the canonical NaN.
\<close>

lemmas concrete = fits_def width_def is_finite_def mag_of_def sgn_of_def inf_mag_def exp_mask_def FP32_def

lemma fp32_patterns [simp]:
  "fits FP32 1065353216" "is_finite FP32 1065353216" "sgn_of FP32 1065353216 = 0"
  "fits FP32 1073741824" "is_finite FP32 1073741824" "sgn_of FP32 1073741824 = 0"
  "fits FP32 1077936128" "is_finite FP32 1077936128" "sgn_of FP32 1077936128 = 0"
  "fits FP32 3212836864" "is_finite FP32 3212836864" "sgn_of FP32 3212836864 = 1"
  "fits FP32 2139095040" "fits FP32 2143289344" "fits FP32 0" "fits FP32 1" "is_finite FP32 1"
  by (simp_all add: concrete)

lemma fp32_values [simp]:
  "fval FP32 1065353216 = 1" "fval FP32 1073741824 = 2" "fval FP32 1077936128 = 3" "fval FP32 3212836864 = - 1"
  by (simp_all add: fval_def unpack_def code_defs fmt_defs ladder_defs bits_arith u_val_def mk_unpacked_def sg_def
      drop_bit_eq_div push_bit_eq_mult take_bit_eq_mod)

lemmas run_defs = code_defs fmt_defs ladder_defs bits_arith drop_bit_eq_div push_bit_eq_mult bit_length_def
  valid_dir_def valid_mode_def mk_unpacked_def

lemma sg_nonzero [simp]: "sg s \<noteq> 0"
  by (simp add: sg_def)

section \<open>Rounding\<close>

text \<open>C1. The normaliser at the bottom of every rounding operation, \<open>_round_pack\<close>, implements the
  rounding function of the standard: for a positive significand and any rounding direction it
  delivers the encoding and the flags of the exact signed value rounded into the format.\<close>

theorem round_pack_implements_rounding:
  assumes "wf_fmt fmt" "0 < m" "valid_dir rnd" "s = 0 \<or> s = 1"
  shows "round_pack fmt s m e rnd = Inr (round_signed fmt rnd (sg s * of_int m * p2 e))"
  by (rule round_pack_signed [OF assms])

theorem round_pack_implements_rounding_witness:
  "round_pack FP32 1 5 (- 1) RND_RNE = Inr (round_signed FP32 RND_RNE (sg 1 * of_int 5 * p2 (- 1)))"
  by (rule round_pack_implements_rounding) simp_all

text \<open>In the nearest directions, below the overflow threshold, no finite operand of the format is
  closer to the exact value than the delivered one.\<close>

theorem round_pack_nearest:
  assumes "wf_fmt fmt" "0 < m" "valid_dir rnd" "to_nearest rnd" "s = 0 \<or> s = 1"
    and "of_int m * p2 e < overflow_threshold fmt" "fits fmt z" "is_finite fmt z"
  shows "\<exists>bits flags. round_pack fmt s m e rnd = Inr (bits, flags) \<and> fits fmt bits \<and> is_finite fmt bits \<and>
    \<bar>fval fmt bits - sg s * of_int m * p2 e\<bar> \<le> \<bar>fval fmt z - sg s * of_int m * p2 e\<bar>"
proof -
  let ?v = "sg s * of_int m * p2 e"
  have v: "?v \<noteq> 0" "\<bar>?v\<bar> < overflow_threshold fmt" using assms by (auto simp: abs_mult)
  have p: "0 < \<bar>?v\<bar>" using v(1) by simp
  note f = round_signed_finite [OF assms(1) v(1) no_overflow_below [OF assms(1,4) p v(2)]]
  show ?thesis
    using round_pack_signed [OF assms(1,2,3,5), of e] f(2,3)
      round_signed_nearest [OF assms(1,4) v assms(7,8)]
    by (intro exI [of _ "fst (round_signed fmt rnd ?v)"] exI [of _ "snd (round_signed fmt rnd ?v)"]) simp
qed

lemma below_threshold:
  assumes "wf_fmt fmt" "x < p2 (emax fmt)"
  shows "x < overflow_threshold fmt"
proof -
  have "0 \<le> mag_val fmt (inf_mag fmt - 1)" using inf_mag_pos [OF assms(1)] by simp
  then show ?thesis
    using assms(2) mag_val_inf_mag [OF assms(1)] by (simp add: overflow_threshold_def p2_succ del: power_int_add_1)
qed

lemma fp32_threshold [simp]: "x < 2 ^ 127 \<Longrightarrow> x < overflow_threshold FP32"
  by (rule below_threshold) (simp, simp add: emax_def bias_def FP32_def)

theorem round_pack_nearest_witness:
  "\<exists>bits flags. round_pack FP32 0 16777217 0 RND_RNE = Inr (bits, flags) \<and> fits FP32 bits \<and> is_finite FP32 bits \<and>
    \<bar>fval FP32 bits - sg 0 * of_int 16777217 * p2 0\<bar> \<le> \<bar>fval FP32 1073741824 - sg 0 * of_int 16777217 * p2 0\<bar>"
  by (rule round_pack_nearest) (simp_all add: to_nearest_def)

text \<open>When another finite operand is exactly as close as the delivered one, the three nearest
  directions choose as the standard says: an even encoding for roundTiesToEven, the larger magnitude
  for roundTiesToAway, the smaller for roundTiesTowardZero.\<close>

theorem round_pack_ties:
  assumes "wf_fmt fmt" "0 < m" "valid_dir rnd" "to_nearest rnd" "s = 0 \<or> s = 1"
    and "of_int m * p2 e < overflow_threshold fmt" "fits fmt z" "is_finite fmt z"
    and "round_pack fmt s m e rnd = Inr (bits, flags)" "fval fmt z \<noteq> fval fmt bits"
    and "\<bar>fval fmt z - sg s * of_int m * p2 e\<bar> = \<bar>fval fmt bits - sg s * of_int m * p2 e\<bar>"
  shows "(rnd = RND_RNE \<longrightarrow> even bits) \<and> (rnd = RND_RMM \<longrightarrow> of_int m * p2 e < \<bar>fval fmt bits\<bar>) \<and>
    (rnd = RND_RTTZ \<longrightarrow> \<bar>fval fmt bits\<bar> < of_int m * p2 e)"
proof -
  let ?v = "sg s * of_int m * p2 e"
  have v: "?v \<noteq> 0" "\<bar>?v\<bar> = of_int m * p2 e" using assms by (simp_all add: abs_mult)
  have b: "bits = fst (round_signed fmt rnd ?v)"
    using round_pack_signed [OF assms(1,2,3,5), of e] assms(9) by (metis Inr_inject fst_conv)
  have l: "\<bar>?v\<bar> < overflow_threshold fmt" using assms(6) v(2) by simp
  show ?thesis
    using round_signed_tie [OF assms(1,4) v(1) l assms(7,8) assms(10,11) [unfolded b]] unfolding b v(2) by blast
qed

theorem round_pack_ties_witness:
  "even (1266679808 :: int) \<and> round_pack FP32 0 16777217 0 RND_RNE = Inr (1266679808, FLAG_INEXACT)"
proof -
  have r: "round_pack FP32 0 16777217 0 RND_RNE = Inr (1266679808, FLAG_INEXACT)"
    by (simp add: round_pack_def round_at_def round_up_def run_defs)
  have v: "fval FP32 1266679808 = 16777216" "fval FP32 1266679809 = 16777218"
    by (simp_all add: fval_def unpack_def code_defs fmt_defs ladder_defs bits_arith u_val_def mk_unpacked_def sg_def
      drop_bit_eq_div push_bit_eq_mult take_bit_eq_mod)
  have f: "fits FP32 1266679809" "is_finite FP32 1266679809" by (simp_all add: concrete)
  have "(RND_RNE = RND_RNE \<longrightarrow> even (1266679808 :: int)) \<and>
    (RND_RNE = RND_RMM \<longrightarrow> of_int 16777217 * p2 0 < \<bar>fval FP32 1266679808\<bar>) \<and>
    (RND_RNE = RND_RTTZ \<longrightarrow> \<bar>fval FP32 1266679808\<bar> < of_int 16777217 * p2 0)"
    by (rule round_pack_ties [where z = 1266679809 and s = 0, OF _ _ _ _ _ _ f r]) (simp_all add: to_nearest_def v)
  with r show ?thesis by simp
qed

text \<open>The directed attributes deliver the last finite operand on their side of the exact value:
  toward zero it is the largest magnitude not above it, toward minus infinity the largest value not
  above it, toward plus infinity the least value not below it (overflow to an infinity aside).\<close>

theorem round_pack_directed:
  assumes "wf_fmt fmt" "0 < m" "s = 0 \<or> s = 1" "fits fmt z" "is_finite fmt z"
    and "rnd \<in> {RND_RTZ, RND_RDN, RND_RUP}"
    and "round_pack fmt s m e rnd = Inr (bits, flags)" "v = sg s * of_int m * p2 e"
  shows "(rnd = RND_RTZ \<longrightarrow> is_finite fmt bits \<and> \<bar>fval fmt bits\<bar> \<le> \<bar>v\<bar> \<and>
      (\<bar>fval fmt z\<bar> \<le> \<bar>v\<bar> \<longrightarrow> \<bar>fval fmt z\<bar> \<le> \<bar>fval fmt bits\<bar>)) \<and>
    (rnd = RND_RDN \<and> is_finite fmt bits \<longrightarrow> fval fmt bits \<le> v \<and> (fval fmt z \<le> v \<longrightarrow> fval fmt z \<le> fval fmt bits)) \<and>
    (rnd = RND_RUP \<and> is_finite fmt bits \<longrightarrow> v \<le> fval fmt bits \<and> (v \<le> fval fmt z \<longrightarrow> fval fmt bits \<le> fval fmt z))"
proof -
  have v: "v \<noteq> 0" using assms(2,3,8) by auto
  have "valid_dir rnd" using assms(6) by auto
  then have b: "bits = fst (round_signed fmt rnd v)"
    using round_pack_signed [OF assms(1,2) _ assms(3), of rnd e] assms(7,8) by (metis Inr_inject fst_conv)
  show ?thesis
    using round_signed_rtz [OF assms(1) v assms(4,5)] round_signed_rdn [OF assms(1) v assms(4,5)]
      round_signed_rup [OF assms(1) v assms(4,5)]
    by (auto simp: b)
qed

theorem round_pack_directed_witness:
  "fval FP32 (fst (round_signed FP32 RND_RDN (sg 0 * of_int 16777217 * p2 0))) \<le> 16777217"
proof -
  let ?v = "sg 0 * of_int 16777217 * p2 0 :: real"
  let ?b = "fst (round_signed FP32 RND_RDN ?v)" and ?f = "snd (round_signed FP32 RND_RDN ?v)"
  have r: "round_pack FP32 0 16777217 0 RND_RDN = Inr (?b, ?f)"
    by (subst round_pack_signed) simp_all
  have fin: "is_finite FP32 ?b"
  proof -
    have "round_pack FP32 0 16777217 0 RND_RDN = Inr (1266679808, FLAG_INEXACT)"
      by (simp add: round_pack_def round_at_def round_up_def run_defs)
    with r have "?b = 1266679808" by (metis Inr_inject fst_conv)
    then show ?thesis by (simp add: concrete del: fp32_patterns)
  qed
  have "RND_RDN = RND_RDN \<and> is_finite FP32 ?b \<longrightarrow> fval FP32 ?b \<le> ?v \<and> (fval FP32 1 \<le> ?v \<longrightarrow> fval FP32 1 \<le> fval FP32 ?b)"
    using round_pack_directed [OF _ _ _ _ _ _ r refl, of 1] by simp
  with fin show ?thesis by simp
qed

text \<open>C2. The flags: inexact exactly when no finite operand has the exact value; in the nearest
  directions no overflow below the threshold, and above it the infinity of the sign with overflow and
  inexact.\<close>

theorem round_pack_flags:
  assumes "wf_fmt fmt" "0 < m" "valid_dir rnd" "s = 0 \<or> s = 1"
    and "round_pack fmt s m e rnd = Inr (bits, flags)"
  shows "(truthy (flags AND FLAG_INEXACT) \<longleftrightarrow>
      \<not> (\<exists>z. fits fmt z \<and> is_finite fmt z \<and> fval fmt z = sg s * of_int m * p2 e)) \<and>
    (to_nearest rnd \<longrightarrow>
      (of_int m * p2 e < overflow_threshold fmt \<longrightarrow> \<not> truthy (flags AND FLAG_OVERFLOW)) \<and>
      (overflow_threshold fmt < of_int m * p2 e \<longrightarrow>
        bits = inf_bits fmt s \<and> flags = (FLAG_OVERFLOW OR FLAG_INEXACT)))"
proof -
  let ?v = "sg s * of_int m * p2 e"
  have v: "?v \<noteq> 0" "\<bar>?v\<bar> = of_int m * p2 e" "(if ?v < 0 then 1 else 0) = s"
    using assms(2) sg_mult_less_0 [of "of_int m * p2 e" s] assms(4) by (simp_all add: abs_mult mult.assoc)
  have b: "(bits, flags) = round_signed fmt rnd ?v"
    using round_pack_signed [OF assms(1,2,3,4), of e] assms(5) by (metis Inr_inject)
  then have f: "flags = snd (round_signed fmt rnd ?v)" by (metis snd_conv)
  have o': "bits = inf_bits fmt s \<and> flags = (FLAG_OVERFLOW OR FLAG_INEXACT)"
    if "to_nearest rnd" "overflow_threshold fmt < of_int m * p2 e"
    using round_signed_overflow(2) [OF assms(1) that(1) v(1)] that(2) b unfolding v(2,3) by (metis prod.inject)
  show ?thesis
    using round_signed_inexact [OF assms(1) v(1), of rnd] round_signed_overflow(1) [OF assms(1) _ v(1), of rnd] o'
    unfolding f v(2) by blast
qed

theorem round_pack_flags_witness:
  "\<not> (\<exists>z. fits FP32 z \<and> is_finite FP32 z \<and> fval FP32 z = 16777217)"
proof -
  have r: "round_pack FP32 0 16777217 0 RND_RNE = Inr (1266679808, FLAG_INEXACT)"
    by (simp add: round_pack_def round_at_def round_up_def run_defs)
  show ?thesis using round_pack_flags [OF _ _ _ _ r] by (simp add: flag_defs)
qed

section \<open>Arithmetic\<close>

text \<open>C3. Fused multiply-add is correctly rounded: on finite operands \<open>fma\<close> is the exact real
  \<open>a * b + c\<close> rounded once, with the sign of an exact zero decided by the attribute.\<close>

theorem fma_correctly_rounded:
  assumes "wf_fmt fmt" "fits fmt xa" "is_finite fmt xa" "fits fmt xb" "is_finite fmt xb"
    and "fits fmt xc" "is_finite fmt xc" "valid_mode rnd"
  shows "fma fmt xa xb xc rnd =
    Inr (sum_result fmt rnd (sgn_of fmt xa XOR sgn_of fmt xb) (sgn_of fmt xc)
      (fval fmt xa * fval fmt xb + fval fmt xc))"
  by (rule fma_finite [OF assms])

theorem fma_correctly_rounded_witness:
  "fma FP32 1073741824 1077936128 3212836864 RND_RNE =
    Inr (sum_result FP32 RND_RNE (sgn_of FP32 1073741824 XOR sgn_of FP32 1077936128) (sgn_of FP32 3212836864)
      (fval FP32 1073741824 * fval FP32 1077936128 + fval FP32 3212836864))"
  by (rule fma_correctly_rounded) simp_all

text \<open>C4. Addition, subtraction and multiplication are correctly rounded on finite operands.\<close>

theorem add_sub_mul_correctly_rounded:
  assumes "wf_fmt fmt" "fits fmt xa" "is_finite fmt xa" "fits fmt xb" "is_finite fmt xb" "valid_mode rnd"
  shows "add fmt xa xb rnd = Inr (sum_result fmt rnd (sgn_of fmt xa) (sgn_of fmt xb) (fval fmt xa + fval fmt xb)) \<and>
    sub fmt xa xb rnd = Inr (sum_result fmt rnd (sgn_of fmt xa) (1 - sgn_of fmt xb) (fval fmt xa - fval fmt xb)) \<and>
    mul fmt xa xb rnd =
      Inr (if fval fmt xa * fval fmt xb = 0 then (zero_bits fmt (sgn_of fmt xa XOR sgn_of fmt xb), 0)
           else round_signed fmt rnd (fval fmt xa * fval fmt xb))"
  using add_finite [OF assms] sub_finite [OF assms] mul_finite [OF assms] by blast

theorem add_sub_mul_correctly_rounded_witness:
  "mul FP32 1073741824 1077936128 RND_RTZ = Inr (round_signed FP32 RND_RTZ 6)"
  using add_sub_mul_correctly_rounded [of FP32 1073741824 1077936128 RND_RTZ] by simp

text \<open>C5. Division and square root are correctly rounded: the quotient and the root, computed to a few
  guard bits with a sticky bit, round as the exact real does.\<close>

theorem div_sqrt_correctly_rounded:
  assumes "wf_fmt fmt" "fits fmt xa" "is_finite fmt xa" "fits fmt xb" "is_finite fmt xb" "valid_mode rnd"
    and "fval fmt xa \<noteq> 0" "fval fmt xb \<noteq> 0"
  shows "div_f fmt xa xb rnd = Inr (round_signed fmt rnd (fval fmt xa / fval fmt xb)) \<and>
    (0 < fval fmt xa \<longrightarrow> sqrt_f fmt xa rnd = Inr (round_real fmt rnd 0 (sqrt (fval fmt xa))))"
  using div_finite [OF assms] sqrt_finite [OF assms(1,2,3,6)] by blast

theorem div_sqrt_correctly_rounded_witness:
  "div_f FP32 1065353216 1077936128 RND_RNE = Inr (round_signed FP32 RND_RNE (1 / 3))"
  using div_sqrt_correctly_rounded [of FP32 1065353216 1077936128 RND_RNE] by simp

text \<open>C6. The special rows of fused multiply-add: it never fails, the result fits, a NaN result is the
  canonical one and occurs exactly for a NaN operand, infinity times zero, and infinities that cancel.
  NaN operands are tested first: with one, invalid is raised exactly when some operand is a signaling NaN,
  even over infinity times zero; without one, exactly for such an operation.\<close>

theorem fma_special_rows:
  assumes "wf_fmt fmt" "fits fmt xa" "fits fmt xb" "fits fmt xc" "valid_mode rnd"
  shows "outcome fmt (fma fmt xa xb xc rnd)
    (is_nan fmt xa \<or> is_nan fmt xb \<or> is_nan fmt xc
      \<or> is_inf fmt xa \<and> is_zero fmt xb \<or> is_zero fmt xa \<and> is_inf fmt xb
      \<or> (is_inf fmt xa \<or> is_inf fmt xb) \<and> is_inf fmt xc \<and> sgn_of fmt xc \<noteq> sgn_of fmt xa XOR sgn_of fmt xb)
    (if is_nan fmt xa \<or> is_nan fmt xb \<or> is_nan fmt xc
     then is_snan fmt xa \<or> is_snan fmt xb \<or> is_snan fmt xc
     else is_inf fmt xa \<and> is_zero fmt xb \<or> is_zero fmt xa \<and> is_inf fmt xb
      \<or> (is_inf fmt xa \<or> is_inf fmt xb) \<and> is_inf fmt xc \<and> sgn_of fmt xc \<noteq> sgn_of fmt xa XOR sgn_of fmt xb)"
  by (rule fma_outcome [OF assms])

theorem fma_special_rows_witness:
  "outcome FP32 (fma FP32 2139095040 0 1065353216 RND_RNE) True True"
proof -
  have k: "is_nan FP32 2139095040 = False" "is_nan FP32 0 = False" "is_nan FP32 1065353216 = False"
    "is_inf FP32 2139095040" "is_zero FP32 0"
    by (simp_all add: is_nan_def is_inf_def is_zero_def unpack_def run_defs)
  show ?thesis using fma_special_rows [of FP32 2139095040 0 1065353216 RND_RNE] by (simp add: k)
qed

text \<open>The same for division and square root.\<close>

theorem div_sqrt_special_rows:
  assumes "wf_fmt fmt" "fits fmt xa" "fits fmt xb" "valid_mode rnd"
  shows "outcome fmt (div_f fmt xa xb rnd)
      (is_nan fmt xa \<or> is_nan fmt xb \<or> is_inf fmt xa \<and> is_inf fmt xb \<or> is_zero fmt xa \<and> is_zero fmt xb)
      (if is_nan fmt xa \<or> is_nan fmt xb then is_snan fmt xa \<or> is_snan fmt xb
       else is_inf fmt xa \<and> is_inf fmt xb \<or> is_zero fmt xa \<and> is_zero fmt xb) \<and>
    outcome fmt (sqrt_f fmt xa rnd)
      (is_nan fmt xa \<or> sgn_of fmt xa = 1 \<and> \<not> is_zero fmt xa)
      (if is_nan fmt xa then is_snan fmt xa else sgn_of fmt xa = 1 \<and> \<not> is_zero fmt xa)"
  using div_outcome [OF assms] sqrt_outcome [OF assms(1,2,4)] by blast

theorem div_sqrt_special_rows_witness:
  "outcome FP32 (sqrt_f FP32 3212836864 RND_RNE) True True"
proof -
  have k: "is_nan FP32 3212836864 = False" "is_zero FP32 3212836864 = False"
    by (simp_all add: is_nan_def is_zero_def unpack_def run_defs)
  show ?thesis using div_sqrt_special_rows [of FP32 3212836864 1065353216 RND_RNE] by (simp add: k)
qed

text \<open>C7. One datapath serves four opcodes: steering add, sub and mul through the fused multiply-add
  delivers, for every pair of operands and NaNs included, what the three operations deliver.\<close>

theorem steering_is_faithful:
  assumes "wf_fmt fmt" "fits fmt xa" "fits fmt xb" "fits fmt xc"
  shows "compute fmt OP_FMA xa xb xc rnd = fma fmt xa xb xc rnd \<and>
    compute fmt OP_ADD xa xb xc rnd = add fmt xa xc rnd \<and>
    compute fmt OP_SUB xa xb xc rnd = sub fmt xa xc rnd \<and>
    compute fmt OP_MUL xa xb xc rnd = mul fmt xa xb rnd"
  using compute_fma compute_add [OF assms(1,2,4)] compute_sub [OF assms(1,2,4)] compute_mul [OF assms(1,2,3)]
  by blast

theorem steering_is_faithful_witness:
  "compute FP32 OP_SUB 1073741824 0 1077936128 RND_RNE = sub FP32 1073741824 1077936128 RND_RNE"
  using steering_is_faithful [of FP32 1073741824 0 1077936128 RND_RNE] by simp

section \<open>The seed tables\<close>

text \<open>C8. The Newton seeds: for every normal operand of a format with more than 19 fraction bits, the
  reciprocal seed is exact to within one part in 512, and so is the reciprocal square root seed of a
  positive one; both are finite and raise nothing.\<close>

theorem seeds_are_close:
  assumes "wf_fmt fmt" "19 < man_w fmt" "fits fmt xa" "u_kind (unpack fmt xa) = KNorm"
  shows "(\<exists>bits. recip_seed fmt xa = Inr (bits, 0) \<and> fits fmt bits \<and> is_finite fmt bits \<and>
      \<bar>fval fmt bits * fval fmt xa - 1\<bar> < 1 / 512) \<and>
    (sgn_of fmt xa = 0 \<longrightarrow> (\<exists>bits. rsqrt_seed fmt xa = Inr (bits, 0) \<and> fits fmt bits \<and> is_finite fmt bits \<and>
      \<bar>fval fmt bits * sqrt (fval fmt xa) - 1\<bar> < 1 / 512))"
  using recip_seed_bound [OF assms] rsqrt_seed_bound [OF assms] by blast

theorem seeds_are_close_witness:
  "\<exists>bits. recip_seed FP32 1077936128 = Inr (bits, 0) \<and> fits FP32 bits \<and> is_finite FP32 bits \<and>
    \<bar>fval FP32 bits * 3 - 1\<bar> < 1 / 512"
proof -
  have "u_kind (unpack FP32 1077936128) = KNorm" by (simp add: unpack_def run_defs)
  then show ?thesis using seeds_are_close [of FP32 1077936128] by (simp add: FP32_def [symmetric]) (simp add: FP32_def)
qed

section \<open>Comparison, minimum and maximum, the integer group\<close>

text \<open>The quiet comparisons on finite operands are the comparisons of their values, and
  deliver 1 or plus zero without flags.\<close>

theorem comparisons_are_of_values:
  assumes "wf_fmt fmt" "fits fmt xa" "is_finite fmt xa" "fits fmt xb" "is_finite fmt xb"
  shows "cmplt fmt xa xb = (if fval fmt xa < fval fmt xb then one_bits fmt 0 else zero_bits fmt 0, 0) \<and>
    cmple fmt xa xb = (if fval fmt xa \<le> fval fmt xb then one_bits fmt 0 else zero_bits fmt 0, 0) \<and>
    cmpeq fmt xa xb = (if fval fmt xa = fval fmt xb then one_bits fmt 0 else zero_bits fmt 0, 0)"
proof -
  have nn: "\<not> is_nan fmt xa" "\<not> is_nan fmt xb"
    using assms by (simp_all add: is_nan_mag is_finite_def)
  note l = rank_less_real [OF assms(1-5)] rank_less_real [OF assms(1,4,5,2,3)]
  have e: "rank fmt xa = rank fmt xb \<longleftrightarrow> fval fmt xa = fval fmt xb" using l by linarith
  note c = compare_quiet_rank [OF assms(1,2,4) nn]
  show ?thesis
    unfolding cmplt_def cmple_def cmpeq_def c cmp_truth_def e l(1) using l(1) by (auto simp: le_less)
qed

theorem comparisons_are_of_values_witness:
  "cmplt FP32 3212836864 1065353216 = (one_bits FP32 0, 0)"
  using comparisons_are_of_values [of FP32 3212836864 1065353216] by simp

text \<open>Minimum and maximum do not depend on the order of their operands, flags and NaN results
  included; on operands that are not NaN they deliver one of the two, the one of the lesser or greater
  rank.\<close>

theorem minmax_order_independent:
  assumes "wf_fmt fmt" "fits fmt xa" "fits fmt xb"
  shows "fmin fmt xa xb = fmin fmt xb xa \<and> fmax fmt xa xb = fmax fmt xb xa \<and>
    fminnum fmt xa xb = fminnum fmt xb xa \<and> fmaxnum fmt xa xb = fmaxnum fmt xb xa \<and>
    (\<not> is_nan fmt xa \<and> \<not> is_nan fmt xb \<longrightarrow>
      fmax fmt xa xb \<in> {(xa, 0), (xb, 0)} \<and> fmin fmt xa xb \<in> {(xa, 0), (xb, 0)} \<and>
      rank fmt (fst (fmax fmt xa xb)) = max (rank fmt xa) (rank fmt xb) \<and>
      rank fmt (fst (fmin fmt xa xb)) = min (rank fmt xa) (rank fmt xb))"
  using minmax_commute [OF assms] minmax_result [OF assms]
  by (simp add: fmin_def fmax_def fminnum_def fmaxnum_def)

theorem minmax_order_independent_witness: "fmax FP32 2143289344 1065353216 = fmax FP32 1065353216 2143289344"
  using minmax_order_independent [of FP32 2143289344 1065353216] by simp

text \<open>C9. The integer group on a word of the format's width is machine arithmetic: bitwise operations,
  wrapping addition and subtraction, shifts modulo the width, the unsigned comparison, and the 32-bit
  product.\<close>

theorem integer_group_is_word_arithmetic:
  fixes a b :: "'w::len word"
  assumes "LENGTH('w) = width fmt" "width fmt = 2 ^ k"
  shows "iand fmt (uint a) (uint b) = (uint (a AND b), 0) \<and> ior fmt (uint a) (uint b) = (uint (a OR b), 0) \<and>
    ixor fmt (uint a) (uint b) = (uint (a XOR b), 0) \<and>
    iadd fmt (uint a) (uint b) = (uint (a + b), 0) \<and> isub fmt (uint a) (uint b) = (uint (a - b), 0) \<and>
    ishl fmt (uint a) (uint b) = (uint (push_bit (unat b mod width fmt) a), 0) \<and>
    ishr fmt (uint a) (uint b) = (uint (drop_bit (unat b mod width fmt) a), 0) \<and>
    icmplt fmt (uint a) (uint b) = (if a < b then one_bits fmt 0 else zero_bits fmt 0, 0) \<and>
    imul fmt xa xb = (uint (word_of_int xa * word_of_int xb :: 32 word), 0)"
  by (intro conjI bitwise_word additive_word [OF assms(1)] shift_word [OF assms] icmplt_word imul_word)

theorem integer_group_is_word_arithmetic_witness:
  "isub FP32 (uint (0 :: 32 word)) (uint (1 :: 32 word)) = (uint (0 - 1 :: 32 word), 0)"
proof -
  have w: "LENGTH(32) = width FP32" "width FP32 = 2 ^ 5" by (simp_all add: width_def FP32_def)
  show ?thesis using integer_group_is_word_arithmetic [OF w, of 0 1 0 0] by blast
qed

section \<open>Clause 5\<close>

text \<open>C10. Widening and narrowing back is the identity: an operand that is not a NaN, converted to a
  format that holds its own and back, in any two attributes, is unchanged, and neither conversion raises
  a flag.\<close>

theorem convert_there_and_back:
  assumes "wf_fmt sfmt" "wf_fmt dfmt" "holds_fmt dfmt sfmt" "fits sfmt x" "\<not> is_nan sfmt x"
    and "valid_mode rnd" "valid_mode rnd'"
  shows "\<exists>y. convert sfmt dfmt x rnd = Inr (y, 0) \<and> convert dfmt sfmt y rnd' = Inr (x, 0)"
  by (rule convert_round_trip [OF assms])

theorem convert_there_and_back_witness:
  "\<exists>y. convert FP32 FP256 1 RND_RUP = Inr (y, 0) \<and> convert FP256 FP32 y RND_RDN = Inr (1, 0)"
proof -
  have "holds_fmt FP256 FP32" by (simp add: holds_fmt_def emax_def qmin_def emin_def bias_def FP32_def FP256_def)
  moreover have "\<not> is_nan FP32 1" by (simp add: is_nan_def run_defs)
  ultimately show ?thesis by (intro convert_there_and_back) simp_all
qed

text \<open>An integer of at most the precision's magnitude that a two's-complement or unsigned type holds
  survives the trip through the format, exactly and silently.\<close>

theorem int_there_and_back:
  assumes "wf_fmt fmt" "prec fmt \<le> emax fmt" "valid_mode rnd" "valid_mode rnd'" "1 \<le> w"
    and "\<bar>v\<bar> \<le> 2 ^ nat (prec fmt)" "int_lo w is_signed \<le> v" "v \<le> int_hi w is_signed"
  shows "bind_r (from_int fmt v rnd) (\<lambda>(x, f). to_int fmt x w is_signed rnd' exact) = Inr (v, 0)"
  by (rule from_to_int [OF assms])

theorem int_there_and_back_witness:
  "bind_r (from_int FP32 (- 16777216) RND_RNE) (\<lambda>(x, f). to_int FP32 x 32 True RND_RTZ True) = Inr (- 16777216, 0)"
  by (rule int_there_and_back)
    (simp_all add: prec_def emax_def bias_def FP32_def [THEN arg_cong, of man_w] FP32_def [THEN arg_cong, of exp_w]
      int_lo_def int_hi_def)

text \<open>C11. Conversion to an integer never fails and stays in the range of its type, whatever the operand;
  on a finite one it is the rounded value, or the nearer end of the range with invalid raised.\<close>

theorem to_int_saturates:
  assumes "wf_fmt fmt" "fits fmt x" "valid_mode rnd" "1 \<le> w"
  shows "(\<exists>v f. to_int fmt x w is_signed rnd exact = Inr (v, f) \<and> int_lo w is_signed \<le> v \<and> v \<le> int_hi w is_signed) \<and>
    (is_finite fmt x \<longrightarrow> to_int fmt x w is_signed rnd exact =
      (if rint_signed fmt rnd x < int_lo w is_signed then Inr (int_lo w is_signed, FLAG_INVALID)
       else if int_hi w is_signed < rint_signed fmt rnd x then Inr (int_hi w is_signed, FLAG_INVALID)
       else Inr (rint_signed fmt rnd x, if exact \<and> \<bar>fval fmt x\<bar> \<notin> \<int> then FLAG_INEXACT else 0)))"
  using to_int_range [OF assms] to_int_finite [OF assms(1,2) _ assms(3,4)] by blast

theorem to_int_saturates_witness:
  "\<exists>v f. to_int FP32 2139095040 8 True RND_RNE True = Inr (v, f) \<and> int_lo 8 True \<le> v \<and> v \<le> int_hi 8 True"
  using to_int_saturates [of FP32 2139095040 RND_RNE 8 True True] by simp

text \<open>C12. The remainder of finite non-zero operands is exact, whatever the exponents: x minus n times y
  with n the integer nearest to the quotient, ties to even; it is at most half the divisor, and an exact
  zero has the sign of x.\<close>

theorem remainder_exact:
  assumes "wf_fmt fmt" "fits fmt xa" "is_finite fmt xa" "fval fmt xa \<noteq> 0"
    and "fits fmt xb" "is_finite fmt xb" "fval fmt xb \<noteq> 0"
  shows "\<exists>bits. remainder_f fmt xa xb = Inr (bits, 0) \<and> fits fmt bits \<and> is_finite fmt bits
    \<and> fval fmt bits = sg (sgn_of fmt xa) *
        (\<bar>fval fmt xa\<bar> - of_int (rint RND_RNE 0 (\<bar>fval fmt xa\<bar> / \<bar>fval fmt xb\<bar>)) * \<bar>fval fmt xb\<bar>)
    \<and> (fval fmt bits = 0 \<longrightarrow> bits = zero_bits fmt (sgn_of fmt xa))
    \<and> 2 * \<bar>fval fmt bits\<bar> \<le> \<bar>fval fmt xb\<bar>"
  by (rule remainder_finite [OF assms])

theorem remainder_exact_witness:
  "\<exists>bits. remainder_f FP32 1077936128 1073741824 = Inr (bits, 0) \<and> 2 * \<bar>fval FP32 bits\<bar> \<le> 2"
  using remainder_exact [of FP32 1077936128 1073741824] by auto

text \<open>\<open>nextUp\<close> of a finite operand compares above it, and no operand compares strictly between
  the two.\<close>

theorem next_up_is_least_above:
  assumes "wf_fmt fmt" "fits fmt x" "is_finite fmt x" "fits fmt z" "numeric_lt fmt x z"
  shows "numeric_lt fmt x (fst (next_up fmt x)) \<and> \<not> numeric_lt fmt z (fst (next_up fmt x))"
  using next_up_least [OF assms] by blast

theorem next_up_is_least_above_witness:
  "numeric_lt FP32 1065353216 (fst (next_up FP32 1065353216)) \<and>
    \<not> numeric_lt FP32 1073741824 (fst (next_up FP32 1065353216))"
proof -
  have "numeric_lt FP32 1065353216 1073741824" by (simp add: numeric_lt_real)
  then show ?thesis by (intro next_up_is_least_above) simp_all
qed

text \<open>C13. The total order is antisymmetric and refines the numeric one: its key separates any two
  encodings, NaNs included, and where two operands compare less so do their keys.\<close>

theorem total_order_is_total:
  assumes "wf_fmt fmt" "fits fmt xa" "fits fmt xb"
  shows "(total_order fmt xa xb = (one_bits fmt 0, 0) \<and> total_order fmt xb xa = (one_bits fmt 0, 0) \<longrightarrow> xa = xb) \<and>
    (total_order fmt xa xb = (one_bits fmt 0, 0) \<or> total_order fmt xb xa = (one_bits fmt 0, 0)) \<and>
    (numeric_lt fmt xa xb \<longrightarrow> total_order fmt xb xa \<noteq> (one_bits fmt 0, 0))"
  unfolding total_order_iff [OF assms(1)] numeric_lt_rank [OF assms]
  using total_order_key_inject [OF assms(2,3)] total_order_key_rank(1) [OF assms(2,3)] by (auto intro: antisym)

theorem total_order_is_total_witness:
  "total_order FP32 1073741824 1065353216 \<noteq> (one_bits FP32 0, 0)"
proof -
  have "numeric_lt FP32 1065353216 1073741824" by (simp add: numeric_lt_real)
  then show ?thesis using total_order_is_total [of FP32 1065353216 1073741824] by simp
qed

text \<open>\<open>scaleB\<close> is multiplication by a power of two rounded once, and \<open>logB\<close> the exponent of
  the binade, exact in every format of the ladder.\<close>

theorem scaleb_and_logb:
  assumes "ladder_fmt fmt" "fits fmt x" "is_finite fmt x" "fval fmt x \<noteq> 0" "valid_mode rnd"
  shows "scaleb fmt x n rnd = Inr (round_signed fmt rnd (fval fmt x * p2 n)) \<and>
    (\<exists>bits. logb fmt x = Inr (bits, 0) \<and> fits fmt bits \<and> is_finite fmt bits \<and>
      fval fmt bits = of_int (ilog2 \<bar>fval fmt x\<bar>))"
  using scaleb_finite [OF ladder_wf [OF assms(1)] assms(2-5)] logb_finite [OF assms(1-4)] by blast

theorem scaleb_and_logb_witness:
  "scaleb FP32 1077936128 (- 200) RND_RNE = Inr (round_signed FP32 RND_RNE (3 * p2 (- 200)))"
  using scaleb_and_logb [of FP32 1077936128 RND_RNE "- 200"] by simp

text \<open>Rounding to an integral value delivers the attribute's integer as an operand of the same
  format, keeps the sign, and signals inexact only in the exact form.\<close>

theorem round_int_is_integral:
  assumes "wf_fmt fmt" "prec fmt \<le> emax fmt" "fits fmt x" "is_finite fmt x" "fval fmt x \<noteq> 0" "valid_mode rnd"
  shows "\<exists>bits. round_int fmt x rnd exact = Inr (bits, if exact \<and> \<bar>fval fmt x\<bar> \<notin> \<int> then FLAG_INEXACT else 0)
    \<and> fits fmt bits \<and> is_finite fmt bits \<and> sgn_of fmt bits = sgn_of fmt x
    \<and> fval fmt bits = sg (sgn_of fmt x) * of_int (rint rnd (sgn_of fmt x) \<bar>fval fmt x\<bar>)"
  by (rule round_int_finite [OF assms])

theorem round_int_is_integral_witness:
  "\<exists>bits. round_int FP32 1077936128 RND_RNE True = Inr (bits, 0) \<and> fval FP32 bits = 3"
proof -
  have p: "prec FP32 \<le> emax FP32" by (simp add: prec_def emax_def bias_def FP32_def)
  have i: "rint RND_RNE 0 (3::real) = 3" using rint_of_int [of RND_RNE 0 3] by simp
  show ?thesis
    using round_int_is_integral [of FP32 1077936128 RND_RNE True] p i by auto
qed

section \<open>Augmented arithmetic\<close>

text \<open>C14. Augmented addition of finite operands is error free: a sum beyond the midpoint after the largest
  finite value gives two infinities of its sign with overflow and inexact, and every other sum, the midpoint
  included, is the exact sum of the two results. The first is the sum rounded to nearest with ties toward
  zero, or for a zero sum the zero of the operands' common sign and otherwise the positive one; the second is
  a zero of the first's sign when nothing is left. Underflow is raised exactly for a subnormal second result,
  and nothing else is.\<close>

theorem augmented_add_error_free:
  assumes "wf_fmt fmt" "fits fmt xa" "is_finite fmt xa" "fits fmt xb" "is_finite fmt xb"
  shows "let v = fval fmt xa + fval fmt xb in
    if overflow_threshold fmt < \<bar>v\<bar>
    then augmented_add fmt xa xb =
      (let inf = inf_bits fmt (if v < 0 then 1 else 0) in Inr (inf, inf, FLAG_OVERFLOW OR FLAG_INEXACT))
    else \<exists>r e. augmented_add fmt xa xb = Inr (r, e, tiny_flag fmt (fval fmt e)) \<and> fits fmt r \<and> fits fmt e
      \<and> is_finite fmt r \<and> is_finite fmt e \<and> fval fmt r + fval fmt e = v
      \<and> r = (if v = 0 then zero_bits fmt (if sgn_of fmt xa = sgn_of fmt xb then sgn_of fmt xa else 0)
             else fst (round_signed fmt RND_RTTZ v))
      \<and> (e = zero_bits fmt (sgn_of fmt r) \<or> fval fmt e \<noteq> 0)"
  using augmented_add_rows [OF assms refl] unfolding Let_def by (auto split: if_splits)

theorem augmented_add_error_free_witness:
  "(\<exists>r e. augmented_add FP32 1065353216 1 = Inr (r, e, tiny_flag FP32 (fval FP32 e)) \<and>
      fval FP32 r + fval FP32 e = fval FP32 1065353216 + fval FP32 1) \<and>
    (\<exists>e. augmented_add FP32 1065353216 3212836864 = Inr (zero_bits FP32 0, e, tiny_flag FP32 (fval FP32 e)))"
proof
  have t: "2 < overflow_threshold FP32" by simp
  have f: "fval FP32 1 = p2 (- 149)"
    by (simp add: fval_def unpack_def run_defs u_val_def sg_def take_bit_eq_mod)
  have "0 < fval FP32 1" "fval FP32 1 < 1" unfolding f using p2_less_iff [of "- 149" 0] by simp_all
  then have "\<not> overflow_threshold FP32 < \<bar>1 + fval FP32 1\<bar>" using t by linarith
  then show "\<exists>r e. augmented_add FP32 1065353216 1 = Inr (r, e, tiny_flag FP32 (fval FP32 e)) \<and>
      fval FP32 r + fval FP32 e = fval FP32 1065353216 + fval FP32 1"
    using augmented_add_error_free [of FP32 1065353216 1] by (auto simp: Let_def)
  have "sgn_of FP32 1065353216 = 0" "sgn_of FP32 3212836864 = 1" by (simp_all add: sgn_of_def width_def FP32_def)
  moreover have "\<not> overflow_threshold FP32 < 0" using t by linarith
  ultimately show "\<exists>e. augmented_add FP32 1065353216 3212836864 = Inr (zero_bits FP32 0, e, tiny_flag FP32 (fval FP32 e))"
    using augmented_add_error_free [of FP32 1065353216 3212836864] by (auto simp: Let_def)
qed

text \<open>Augmented multiplication of finite non-zero operands: unless the product overflows, the first
  result is the product rounded to nearest with ties toward zero; the second is the exact residual when
  no inexact is raised, and otherwise the residual was too small for the format and is the rounded
  one.\<close>

theorem augmented_mul_residual:
  assumes "wf_fmt fmt" "fits fmt xa" "is_finite fmt xa" "fval fmt xa \<noteq> 0"
    and "fits fmt xb" "is_finite fmt xb" "fval fmt xb \<noteq> 0"
    and "\<bar>fval fmt xa * fval fmt xb\<bar> < overflow_threshold fmt"
  shows "\<exists>r e f. augmented_mul fmt xa xb = Inr (r, e, f) \<and> fits fmt r \<and> is_finite fmt r
    \<and> r = fst (round_signed fmt RND_RTTZ (fval fmt xa * fval fmt xb))
    \<and> (if truthy (f AND FLAG_INEXACT)
       then f = (FLAG_UNDERFLOW OR FLAG_INEXACT) \<and> \<bar>fval fmt xa * fval fmt xb - fval fmt r\<bar> < p2 (emin fmt)
         \<and> e = fst (round_signed fmt RND_RTTZ (fval fmt xa * fval fmt xb - fval fmt r))
       else fits fmt e \<and> is_finite fmt e \<and> fval fmt r + fval fmt e = fval fmt xa * fval fmt xb
         \<and> f = tiny_flag fmt (fval fmt e))"
proof -
  have n: "to_nearest RND_RTTZ" "0 < \<bar>fval fmt xa * fval fmt xb\<bar>" using assms(4,7) by (simp_all add: to_nearest_def)
  show ?thesis
    by (rule augmented_mul_finite(2) [OF assms(1-7) no_overflow_below [OF assms(1) n assms(8)]])
qed

theorem augmented_mul_residual_witness:
  "\<exists>r e f. augmented_mul FP32 1077936128 1073741824 = Inr (r, e, f) \<and> is_finite FP32 r"
  using augmented_mul_residual [of FP32 1077936128 1073741824] by auto

section \<open>Reductions\<close>

text \<open>C15. The recursive sum and the streaming accumulator, which holds one partial result per
  level and never the whole list, are the same function: in every attribute they return, and return
  the same bits and the same flags, for every list of operands.\<close>

theorem streaming_is_the_recursive_sum:
  assumes "wf_fmt fmt" "valid_mode rnd"
  shows "\<exists>b f. fsum fmt xs rnd = Inr (b, f) \<and> stream_reduce fmt xs rnd = Inr (Some b, f)"
  using stream_reduce_tree [OF assms, of xs] reduce_bits_tree_sum [OF assms, of xs]
  by (cases "tree_sum fmt rnd xs") (simp add: fsum_def)

theorem streaming_is_the_recursive_sum_witness:
  "\<exists>b f. fsum FP32 [1065353216, 1, 1077936128] RND_RUP = Inr (b, f) \<and>
    stream_reduce FP32 [1065353216, 1, 1077936128] RND_RUP = Inr (Some b, f)"
  by (rule streaming_is_the_recursive_sum) simp_all

text \<open>C16. A reduction may be cut over any power of two of units: the canonical ranges exist, each
  unit's partial sum succeeds, and the partial results, combined in order, give the bits of the whole
  sum; its flags are those of the combination and of the partial sums together.\<close>

theorem partial_sums_combine:
  assumes "wf_fmt fmt" "valid_mode rnd" "xs \<noteq> []" "1 \<le> parts" "parts AND (parts - 1) = 0"
  shows "\<exists>ranges ps b f. canonical_ranges (int (length xs)) parts = Inr ranges \<and>
    map (\<lambda>(lo, hi). reduce_bits fmt xs rnd lo (Some hi)) ranges = map Inr ps \<and>
    combine fmt (map fst ps) rnd = Inr (b, f) \<and>
    fsum fmt xs rnd = Inr (b, f OR ors (map snd ps))"
  unfolding fsum_def by (rule combine_canonical [OF assms])

theorem partial_sums_combine_witness:
  "\<exists>ranges ps b f. canonical_ranges 3 2 = Inr ranges \<and>
    map (\<lambda>(lo, hi). reduce_bits FP32 [1065353216, 1, 1077936128] RND_RNE lo (Some hi)) ranges = map Inr ps \<and>
    combine FP32 (map fst ps) RND_RNE = Inr (b, f) \<and>
    fsum FP32 [1065353216, 1, 1077936128] RND_RNE = Inr (b, f OR ors (map snd ps))"
  using partial_sums_combine [of FP32 RND_RNE "[1065353216, 1, 1077936128]" 2] by simp

text \<open>In the sum of squares and the sum of magnitudes an infinite operand wins over everything,
  NaNs included: the result is plus infinity, whatever the other operands and their order.\<close>

theorem infinity_wins_the_sums:
  assumes "wf_fmt fmt" "valid_mode rnd" "\<forall>x\<in>set xs. fits fmt x" "\<exists>x\<in>set xs. is_inf fmt x"
  shows "(\<exists>f. fsumsq fmt xs rnd = Inr (inf_bits fmt 0, f)) \<and> (\<exists>f. fsumabs fmt xs rnd = Inr (inf_bits fmt 0, f))"
  using infinity_outranks_nan [OF assms] by blast

theorem infinity_wins_the_sums_witness:
  "\<exists>f. fsumabs FP32 [2143289344, 1, 2139095040] RND_RNE = Inr (inf_bits FP32 0, f)"
proof -
  have "is_inf FP32 2139095040" by (simp add: is_inf_def unpack_def run_defs)
  then show ?thesis using infinity_wins_the_sums [of FP32 RND_RNE "[2143289344, 1, 2139095040]"] by simp
qed

text \<open>C17. The maximum of two or more operands depends only on which operands occur, not on their
  order or number; on operands without a NaN it is the one that is last in the total order, without
  flags, and a NaN anywhere gives the canonical NaN, with invalid exactly when one signals.\<close>

theorem maximum_is_of_a_set:
  assumes "wf_fmt fmt" "\<forall>x\<in>set xs. fits fmt x" "2 \<le> length xs"
  shows "(set ys = set xs \<and> 2 \<le> length ys \<longrightarrow> fmaxall fmt ys = fmaxall fmt xs) \<and>
    (if \<exists>x\<in>set xs. is_nan fmt x
     then fmaxall fmt xs = (qnan_bits fmt, if \<exists>x\<in>set xs. is_snan fmt x then FLAG_INVALID else 0)
     else fst (fmaxall fmt xs) \<in> set xs \<and> snd (fmaxall fmt xs) = 0 \<and>
       (\<forall>y\<in>set xs. total_order_key fmt y \<le> total_order_key fmt (fst (fmaxall fmt xs))))"
  using fmaxall_set [OF assms(1), of ys xs] fmaxall_maxall [OF assms] assms(2,3) by (auto simp: maxall_of_def)

theorem maximum_is_of_a_set_witness:
  "fmaxall FP32 [1, 1065353216, 1] = fmaxall FP32 [1065353216, 1]"
  using maximum_is_of_a_set [of FP32 "[1065353216, 1]" "[1, 1065353216, 1]"] by auto

text \<open>C18. The scaled product of finite non-zero operands is that of the real-number tree, whatever its size:
  a significand in [1, 2) and a separate scale, with inexact raised exactly when a node rounds, and the
  exact product when none does. Only when a sum of scales formed at a node leaves 64 bits is the result the
  invalid NaN, and at most \<open>2 ^ 63 / (emax + p)\<close> operands never reach that.\<close>

theorem scaled_product_keeps_its_scale:
  assumes "ladder_fmt fmt" "valid_mode rnd" "xs \<noteq> []"
    and "\<forall>x\<in>set xs. fits fmt x \<and> is_finite fmt x \<and> fval fmt x \<noteq> 0"
  shows "let (s, k, i, ts) = scaled_ideal fmt rnd (map (fval fmt) xs) in
    (\<exists>sig. fits fmt sig \<and> is_finite fmt sig \<and> fval fmt sig = s \<and> 1 \<le> \<bar>s\<bar> \<and> \<bar>s\<bar> < 2 \<and>
      scaled_prod fmt xs None SP_PROD rnd =
        (if \<forall>e\<in>set ts. in_int64 e then Inr (sig, k, if i then FLAG_INEXACT else 0)
         else Inr (qnan_bits fmt, 0, FLAG_INVALID))) \<and>
    (\<not> i \<longrightarrow> s * p2 k = prod_list (map (fval fmt) xs)) \<and>
    (int (length xs) * (emax fmt + prec fmt) \<le> 2 ^ 63 \<longrightarrow> (\<forall>e\<in>set ts. in_int64 e))"
proof -
  obtain s k i ts where e: "scaled_ideal fmt rnd (map (fval fmt) xs) = (s, k, i, ts)" by (metis prod_cases4)
  note ok = scaled_prod_finite [OF assms e]
  show ?thesis unfolding e Let_def prod.case
  proof (intro conjI impI)
    show "\<exists>sig. fits fmt sig \<and> is_finite fmt sig \<and> fval fmt sig = s \<and> 1 \<le> \<bar>s\<bar> \<and> \<bar>s\<bar> < 2 \<and>
      scaled_prod fmt xs None SP_PROD rnd =
        (if \<forall>e\<in>set ts. in_int64 e then Inr (sig, k, if i then FLAG_INEXACT else 0)
         else Inr (qnan_bits fmt, 0, FLAG_INVALID))"
      using ok(1) unfolding unit_sig_def by blast
  qed (use ok(2,3) in blast)+
qed

theorem scaled_product_keeps_its_scale_witness:
  "\<exists>sig k i. scaled_prod FP32 [1073741824, 3212836864] None SP_PROD RND_RNE = Inr (sig, k, if i then FLAG_INEXACT else 0) \<and>
    1 \<le> \<bar>fval FP32 sig\<bar> \<and> \<bar>fval FP32 sig\<bar> < 2 \<and> (\<not> i \<longrightarrow> fval FP32 sig * p2 k = - 2)"
proof -
  let ?r = "scaled_prod FP32 [1073741824, 3212836864] None SP_PROD RND_RNE"
  obtain s k i ts where e: "scaled_ideal FP32 RND_RNE [2, - 1] = (s, k, i, ts)" by (metis prod_cases4)
  have "emax FP32 + prec FP32 = 151" by (simp add: emax_def bias_def prec_def FP32_def)
  then obtain sig where "?r = Inr (sig, k, if i then FLAG_INEXACT else 0)" "fval FP32 sig = s" "1 \<le> \<bar>s\<bar>" "\<bar>s\<bar> < 2"
    "\<not> i \<longrightarrow> s * p2 k = - 2"
    using scaled_product_keeps_its_scale [of FP32 RND_RNE "[1073741824, 3212836864]"] e by (auto simp del: if_split)
  then show ?thesis by blast
qed

section \<open>The formatOf operations\<close>

text \<open>C19. Each formatOf operation rounds once: on finite operands of the source format it is the exact
  real sum, product, quotient, root or fused result rounded into the destination, whatever the two
  formats are. The rows with zeros are told too: an exact zero takes its sign from the operands, or from
  the attribute where a sum cancels; a zero divisor gives the signed infinity with divideByZero, zero over
  zero and the root of a negative operand the invalid NaN.\<close>

theorem format_of_rounds_once:
  assumes "wf_fmt sfmt" "wf_fmt dfmt" "valid_mode rnd"
    and "fits sfmt xa" "is_finite sfmt xa" "fits sfmt xb" "is_finite sfmt xb" "fits sfmt xc" "is_finite sfmt xc"
  shows "fo_compute sfmt dfmt FN_FO_ADD xa xb xc rnd =
      Inr (sum_result dfmt rnd (sgn_of sfmt xa) (sgn_of sfmt xb) (fval sfmt xa + fval sfmt xb)) \<and>
    fo_compute sfmt dfmt FN_FO_SUB xa xb xc rnd =
      Inr (sum_result dfmt rnd (sgn_of sfmt xa) (1 - sgn_of sfmt xb) (fval sfmt xa - fval sfmt xb)) \<and>
    fo_compute sfmt dfmt FN_FO_FMA xa xb xc rnd =
      Inr (sum_result dfmt rnd (sgn_of sfmt xa XOR sgn_of sfmt xb) (sgn_of sfmt xc)
        (fval sfmt xa * fval sfmt xb + fval sfmt xc)) \<and>
    fo_compute sfmt dfmt FN_FO_MUL xa xb xc rnd =
      Inr (product_result dfmt rnd (sgn_of sfmt xa XOR sgn_of sfmt xb) (fval sfmt xa) (fval sfmt xb)) \<and>
    fo_compute sfmt dfmt FN_FO_DIV xa xb xc rnd =
      Inr (quotient_result dfmt rnd (sgn_of sfmt xa XOR sgn_of sfmt xb) (fval sfmt xa) (fval sfmt xb)) \<and>
    fo_compute sfmt dfmt FN_FO_SQRT xa xb xc rnd =
      Inr (root_result dfmt rnd (sgn_of sfmt xa) (fval sfmt xa))"
  using fo_add_finite [OF assms(1,2,4-7,3)] fo_sub_finite [OF assms(1,2,4-7,3)] fo_fma_finite [OF assms(1,2,4-9,3)]
    fo_finite_rows [OF assms(1,2,4-7,3)]
  by (simp add: fo_compute_def FORMATOF_IMPL_def fo_names)

theorem format_of_rounds_once_witness:
  "fo_compute FP32 (wide_format 11 5) FN_FO_DIV 1065353216 1077936128 1 RND_RNE =
      Inr (round_signed (wide_format 11 5) RND_RNE (1 / 3)) \<and>
    fo_compute FP32 (wide_format 11 5) FN_FO_DIV 3212836864 0 1 RND_RNE =
      Inr (inf_bits (wide_format 11 5) 1, FLAG_DIVZERO)"
proof -
  have "wf_fmt (wide_format 11 5)" by (simp add: wide_format_def wf_fmt_def)
  moreover have "fval FP32 0 = 0" "is_finite FP32 0"
    by (simp_all add: fval_def unpack_def run_defs u_val_def is_finite_def mag_of_def inf_mag_def)
  moreover have "sgn_of FP32 3212836864 = 1" "sgn_of FP32 0 = 0" by (simp_all add: sgn_of_def width_def FP32_def)
  ultimately show ?thesis
    using format_of_rounds_once [of FP32 "wide_format 11 5" RND_RNE 1065353216 1077936128 1]
      format_of_rounds_once [of FP32 "wide_format 11 5" RND_RNE 3212836864 0 1] by (simp add: quotient_result_def)
qed

text \<open>C20. Within one format the formatOf operations are the operations of the format themselves, special
  operands and flags included. Into a format that holds the source they are its operations on the operands
  converted, for every operand: the conversion is exact on finite ones, and the result raises what the
  operation raises, and invalid for a signaling NaN that the conversion has quieted.\<close>

theorem format_of_extends_the_formats:
  assumes "wf_fmt sfmt" "wf_fmt dfmt" "valid_mode rnd" "fits sfmt xa" "fits sfmt xb" "fits sfmt xc"
  shows "fo_add sfmt sfmt xa xb rnd = add sfmt xa xb rnd \<and> fo_sub sfmt sfmt xa xb rnd = sub sfmt xa xb rnd \<and>
    fo_mul sfmt sfmt xa xb rnd = mul sfmt xa xb rnd \<and> fo_div sfmt sfmt xa xb rnd = div_f sfmt xa xb rnd \<and>
    fo_sqrt sfmt sfmt xa rnd = sqrt_f sfmt xa rnd \<and> fo_fma sfmt sfmt xa xb xc rnd = fma sfmt xa xb xc rnd \<and>
    (holds_fmt dfmt sfmt \<longrightarrow> (let inv2 = invalid_if [is_snan sfmt xa, is_snan sfmt xb] in
      \<exists>ya yb yc. carried sfmt dfmt rnd xa ya \<and> carried sfmt dfmt rnd xb yb \<and> carried sfmt dfmt rnd xc yc \<and>
        fo_add sfmt dfmt xa xb rnd = raising inv2 (add dfmt ya yb rnd) \<and>
        fo_sub sfmt dfmt xa xb rnd = raising inv2 (sub dfmt ya yb rnd) \<and>
        fo_mul sfmt dfmt xa xb rnd = raising inv2 (mul dfmt ya yb rnd) \<and>
        fo_div sfmt dfmt xa xb rnd = raising inv2 (div_f dfmt ya yb rnd) \<and>
        fo_sqrt sfmt dfmt xa rnd = raising (invalid_if [is_snan sfmt xa]) (sqrt_f dfmt ya rnd) \<and>
        fo_fma sfmt dfmt xa xb xc rnd =
          raising (invalid_if [is_snan sfmt xa, is_snan sfmt xb, is_snan sfmt xc]) (fma dfmt ya yb yc rnd)))"
  unfolding Let_def
proof (intro conjI impI)
  show "\<exists>ya yb yc. carried sfmt dfmt rnd xa ya \<and> carried sfmt dfmt rnd xb yb \<and> carried sfmt dfmt rnd xc yc \<and>
      fo_add sfmt dfmt xa xb rnd = raising (invalid_if [is_snan sfmt xa, is_snan sfmt xb]) (add dfmt ya yb rnd) \<and>
      fo_sub sfmt dfmt xa xb rnd = raising (invalid_if [is_snan sfmt xa, is_snan sfmt xb]) (sub dfmt ya yb rnd) \<and>
      fo_mul sfmt dfmt xa xb rnd = raising (invalid_if [is_snan sfmt xa, is_snan sfmt xb]) (mul dfmt ya yb rnd) \<and>
      fo_div sfmt dfmt xa xb rnd = raising (invalid_if [is_snan sfmt xa, is_snan sfmt xb]) (div_f dfmt ya yb rnd) \<and>
      fo_sqrt sfmt dfmt xa rnd = raising (invalid_if [is_snan sfmt xa]) (sqrt_f dfmt ya rnd) \<and>
      fo_fma sfmt dfmt xa xb xc rnd =
        raising (invalid_if [is_snan sfmt xa, is_snan sfmt xb, is_snan sfmt xc]) (fma dfmt ya yb yc rnd)"
    if "holds_fmt dfmt sfmt"
    by (rule fo_widening [OF assms(1,2) that assms(3-6)]) blast
qed (use fo_same_format [OF assms(1,4-6)] fo_sub_same_format [OF assms(1,4,5)] in blast)+

theorem format_of_extends_the_formats_witness:
  "fo_fma FP32 FP32 2143289344 2139095040 1 RND_RDN = fma FP32 2143289344 2139095040 1 RND_RDN \<and>
    (\<exists>ya yb. carried FP32 FP256 RND_RDN 1065353216 ya \<and> carried FP32 FP256 RND_RDN 2139095040 yb \<and>
      fo_div FP32 FP256 1065353216 2139095040 RND_RDN = div_f FP256 ya yb RND_RDN)"
proof -
  have h: "holds_fmt FP256 FP32" by (simp add: holds_fmt_def emax_def qmin_def emin_def bias_def FP32_def FP256_def)
  have s: "\<not> is_snan FP32 1065353216" "\<not> is_snan FP32 2139095040"
    by (simp_all add: is_snan_def unpack_def run_defs take_bit_eq_mod)
  show ?thesis
    using format_of_extends_the_formats [of FP32 FP32 RND_RDN 2143289344 2139095040 1]
      format_of_extends_the_formats [of FP32 FP256 RND_RDN 1065353216 2139095040 1] h s by (simp add: Let_def) blast
qed

text \<open>Rounding twice is not rounding once: for division and for the square root the constructor
  of adversarial operands returns binary64 operands on which the formatOf operation into binary32 and
  the composed route, through an intermediate format of the source's precision, give different
  results.\<close>

theorem rounding_twice_differs:
  "(\<exists>xa xb r. double_rounding_witness FP64 FP32 FN_FO_DIV None = Inr (xa, xb, 0, wide_format 53 24) \<and>
    fo_compute FP64 FP32 FN_FO_DIV xa xb 0 RND_RNE = Inr (r + 1, FLAG_INEXACT) \<and>
    composed_route FP64 FP32 (wide_format 53 24) FN_FO_DIV xa xb 0 RND_RNE = Inr (r, FLAG_INEXACT)) \<and>
    (\<exists>xa r. double_rounding_witness FP64 FP32 FN_FO_SQRT None = Inr (xa, 0, 0, wide_format 53 24) \<and>
    fo_compute FP64 FP32 FN_FO_SQRT xa 0 0 RND_RNE = Inr (r + 1, FLAG_INEXACT) \<and>
    composed_route FP64 FP32 (wide_format 53 24) FN_FO_SQRT xa 0 0 RND_RNE = Inr (r, FLAG_INEXACT))"
proof
  show "\<exists>xa xb r. double_rounding_witness FP64 FP32 FN_FO_DIV None = Inr (xa, xb, 0, wide_format 53 24) \<and>
      fo_compute FP64 FP32 FN_FO_DIV xa xb 0 RND_RNE = Inr (r + 1, FLAG_INEXACT) \<and>
      composed_route FP64 FP32 (wide_format 53 24) FN_FO_DIV xa xb 0 RND_RNE = Inr (r, FLAG_INEXACT)"
    using div_witness(1,2) composed_midpoint [OF div_witness(3)]
    by (intro exI [of _ 4607182419605323807] exI [of _ 4607182419336888319] exI [of _ 1065353216]) simp
  show "\<exists>xa r. double_rounding_witness FP64 FP32 FN_FO_SQRT None = Inr (xa, 0, 0, wide_format 53 24) \<and>
      fo_compute FP64 FP32 FN_FO_SQRT xa 0 0 RND_RNE = Inr (r + 1, FLAG_INEXACT) \<and>
      composed_route FP64 FP32 (wide_format 53 24) FN_FO_SQRT xa 0 0 RND_RNE = Inr (r, FLAG_INEXACT)"
    using sqrt_witness(1,2) composed_midpoint [OF sqrt_witness(3)]
    by (intro exI [of _ 4607182419336888337] exI [of _ 1065353216]) simp
qed

section \<open>Character sequences\<close>

text \<open>C21. Reading a decimal sequence rounds once: a sequence with an optional minus sign, integer digits,
  fraction digits and an exponent of any size gives the exact decimal value it spells, rounded into the
  format in the caller's direction, flags included; the bands that answer huge and tiny exponents without
  computing the power of ten never change the result. The same holds of hexadecimal sequences.\<close>

theorem sequences_read_correctly_rounded:
  assumes "wf_fmt fmt" "valid_mode rnd" "s = 0 \<or> s = 1" "ip \<noteq> []"
  shows "(set ip \<subseteq> set DIGITS \<and> set fp \<subseteq> set DIGITS \<longrightarrow>
      from_decimal fmt (sign_text s @ ip @ frac_text fp @ ''e'' @ exp_text x) rnd =
        Inr (if int_of 10 (ip @ fp) = 0 then (zero_bits fmt s, 0)
             else round_signed fmt rnd (sg s * (of_int (int_of 10 (ip @ fp)) * 10 powi (x - int (length fp)))))) \<and>
    (set ip \<subseteq> set HEXDIGITS \<and> set fp \<subseteq> set HEXDIGITS \<longrightarrow>
      from_hex fmt (sign_text s @ ''0x'' @ ip @ frac_text fp @ ''p'' @ exp_text x) rnd =
        Inr (if int_of 16 (ip @ fp) = 0 then (zero_bits fmt s, 0)
             else round_signed fmt rnd (sg s * (of_int (int_of 16 (ip @ fp)) * p2 (x - 4 * int (length fp))))))"
  using from_decimal_text [OF assms(1-4), of fp x] from_hex_text [OF assms(1-4), of fp x] by blast

theorem sequences_read_correctly_rounded_witness:
  "from_decimal FP32 (sign_text 1 @ ''0'' @ frac_text ''1'' @ ''e'' @ exp_text 3) RND_RDN =
    Inr (round_signed FP32 RND_RDN (- 100))"
proof -
  have "int_of 10 (''0'' @ ''1'') = 1" by (simp add: int_of_def digit_val_def)
  moreover have "set ''0'' \<subseteq> set DIGITS" "set ''1'' \<subseteq> set DIGITS" by (simp_all add: DIGITS_def)
  ultimately show ?thesis
    using sequences_read_correctly_rounded [of FP32 RND_RDN 1 "''0''" "''1''" 3] by simp
qed

text \<open>C22. The exact sequences give the operand back: writing any encoding, zeros of either sign, infinities and
  NaNs with their signaling bit and payload included, as an exact decimal or as a hexadecimal sequence and
  reading it in any rounding direction returns the encoding with no flag raised.\<close>

theorem exact_sequences_round_trip:
  assumes "wf_fmt fmt" "fits fmt x" "valid_mode rnd" "valid_mode rnd'"
  shows "(\<exists>t. to_decimal fmt x 0 rnd = Inr (t, 0) \<and> from_decimal fmt t rnd' = Inr (x, 0)) \<and>
    from_hex fmt (to_hex fmt x) rnd' = Inr (x, 0)"
  using decimal_read_back [OF assms(1-4)] hex_read_back [OF assms(1,2,4)] by metis

theorem exact_sequences_round_trip_witness:
  "from_hex FP32 (to_hex FP32 2143289345) RND_RTZ = Inr (2143289345, 0)"
proof -
  have "fits FP32 2143289345" by (simp add: concrete)
  then show ?thesis using exact_sequences_round_trip [of FP32 2143289345 RND_RNE RND_RTZ] by simp
qed

text \<open>C23. Writing \<open>h\<close> digits rounds the exact decimal expansion once: the text names the integer nearest, in the
  sense of the rounding direction, to the operand over the power of ten that leaves \<open>h\<close> digits before the
  point, a carry out of the last digit included, and inexact is raised exactly when the text is not the
  operand itself.\<close>

theorem digits_written_correctly_rounded:
  assumes "wf_fmt fmt" "fits fmt x" "is_finite fmt x" "fval fmt x \<noteq> 0" "valid_mode rnd" "0 < h"
  shows "\<exists>t d k g. to_decimal fmt x (int h) rnd =
      Inr (t, if of_int d * 10 powi k \<noteq> \<bar>fval fmt x\<bar> then FLAG_INEXACT else 0) \<and>
    lex_decimal fmt t = Inr (Finite (sgn_of fmt x) d k) \<and>
    10 ^ (h - 1) \<le> \<bar>fval fmt x\<bar> / 10 powi g \<and> \<bar>fval fmt x\<bar> / 10 powi g < 10 ^ h \<and>
    of_int d * 10 powi k = of_int (rint rnd (sgn_of fmt x) (\<bar>fval fmt x\<bar> / 10 powi g)) * (10 powi g :: real)"
proof -
  obtain ds ex fl g where t: "to_decimal fmt x (int h) rnd = Inr (format_finite (sgn_of fmt x) ds ex, fl)"
    "set ds \<subseteq> set DIGITS" "length ds = h"
    "10 ^ (h - 1) \<le> \<bar>fval fmt x\<bar> / 10 powi g" "\<bar>fval fmt x\<bar> / 10 powi g < 10 ^ h"
    "of_int (int_of 10 ds) * 10 powi (ex - (int h - 1)) =
      of_int (rint rnd (sgn_of fmt x) (\<bar>fval fmt x\<bar> / 10 powi g)) * (10 powi g :: real)"
    "fl = (if of_int (rint rnd (sgn_of fmt x) (\<bar>fval fmt x\<bar> / 10 powi g)) * 10 powi g \<noteq> \<bar>fval fmt x\<bar> then FLAG_INEXACT else 0)"
    by (rule to_decimal_rounded [OF assms])
  have "ds \<noteq> []" using t(3) assms(6) by auto
  then have "lex_decimal fmt (format_finite (sgn_of fmt x) ds ex) = Inr (Finite (sgn_of fmt x) (int_of 10 ds) (ex - (int h - 1)))"
    using lex_scientific [OF fits_sgn [OF assms(2)] _ t(2)] t(3) by simp
  moreover have "to_decimal fmt x (int h) rnd = Inr (format_finite (sgn_of fmt x) ds ex,
      if of_int (int_of 10 ds) * 10 powi (ex - (int h - 1)) \<noteq> \<bar>fval fmt x\<bar> then FLAG_INEXACT else 0)"
    unfolding t(1) t(6) t(7) ..
  ultimately show ?thesis using t(4-6) by blast
qed

theorem digits_written_correctly_rounded_witness:
  "\<exists>t d k. to_decimal FP32 1077936128 1 RND_RNE = Inr (t, if of_int d * 10 powi k \<noteq> (3 :: real) then FLAG_INEXACT else 0) \<and>
    lex_decimal FP32 t = Inr (Finite 0 d k)"
proof -
  obtain t d k where t: "to_decimal FP32 1077936128 (int 1) RND_RNE =
      Inr (t, if of_int d * 10 powi k \<noteq> \<bar>fval FP32 1077936128\<bar> then FLAG_INEXACT else 0)"
    "lex_decimal FP32 t = Inr (Finite (sgn_of FP32 1077936128) d k)"
    using digits_written_correctly_rounded [of FP32 1077936128 RND_RNE 1] by auto
  show ?thesis by (intro exI [of _ t] exI [of _ d] exI [of _ k] conjI) (use t in simp_all)
qed

text \<open>C24. \<open>Pmin\<close> digits identify the operand: a finite nonzero operand written in a nearest direction with at
  least \<open>Pmin\<close> digits and read back in a nearest direction is the operand again.\<close>

theorem pmin_digits_recover:
  assumes "wf_fmt fmt" "fits fmt x" "is_finite fmt x" "fval fmt x \<noteq> 0"
    and "valid_mode rnd" "to_nearest rnd" "valid_mode rnd'" "to_nearest rnd'" "pmin fmt \<le> int h"
  shows "\<exists>t fl fl'. to_decimal fmt x (int h) rnd = Inr (t, fl) \<and> from_decimal fmt t rnd' = Inr (x, fl')"
  using pmin_reads_back [OF assms] by metis

theorem pmin_digits_recover_witness:
  "\<exists>t fl fl'. to_decimal FP32 1077936128 9 RND_RNE = Inr (t, fl) \<and> from_decimal FP32 t RND_RMM = Inr (1077936128, fl')"
proof -
  have "pmin FP32 \<le> int 9" by (simp add: pmin_def pmin_loop.simps run_defs)
  then show ?thesis using pmin_digits_recover [of FP32 1077936128 RND_RNE RND_RMM 9] by (simp add: to_nearest_def)
qed

text \<open>C25. The payload operations: \<open>getPayload\<close> of any NaN returns without a flag, and \<open>setPayload\<close> of that number, or
  \<open>setPayloadSignaling\<close> where the NaN was signaling, rebuilds the NaN with its sign cleared.\<close>

theorem payloads_round_trip:
  assumes "ladder_fmt fmt" "fits fmt x" "is_nan fmt x"
  shows "\<exists>y. get_payload fmt x = Inr y \<and>
    (if is_snan fmt x then set_payload_signaling fmt y else set_payload fmt y) = Inr (mag_of fmt x)"
  using payload_round_trip [OF assms] by metis

theorem payloads_round_trip_witness:
  "\<exists>y. get_payload FP32 4290772999 = Inr y \<and>
    (if is_snan FP32 4290772999 then set_payload_signaling FP32 y else set_payload FP32 y) = Inr 2143289351"
proof -
  have "fits FP32 4290772999" "is_nan FP32 4290772999" "mag_of FP32 4290772999 = 2143289351"
    by (simp_all add: fits_def is_nan_def mag_of_def run_defs)
  then show ?thesis using payloads_round_trip [of FP32 4290772999] by simp
qed

section \<open>Operations as sequences of opcodes\<close>

text \<open>C26. Division as a sequence of multiplications, fused additions and two conditional steps on the
  encoding, \<open>div_seq\<close>, delivers the bits and the flags of the division operation for every pair of
  operands, specials and subnormals included, in every rounding direction, and no assertion of the sequence
  fails. The number of Newton steps the table gives must reach the precision from the seed's eight bits.\<close>

theorem division_sequence_is_division:
  assumes "seq_fmt fmt N" "fits fmt xa" "fits fmt xb" "valid_mode rnd"
  shows "div_seq fmt xa xb rnd = div_f fmt xa xb rnd"
  by (rule div_seq_div [OF assms])

theorem division_sequence_is_division_witness:
  "div_seq FP32 1065353216 1077936128 RND_RUP = Inr (round_signed FP32 RND_RUP (1 / 3))"
  using division_sequence_is_division [OF seq_fmts(1), of 1065353216 1077936128 RND_RUP]
    div_finite [of FP32 1065353216 1077936128 RND_RUP] by simp

text \<open>C27. The square root as a sequence, \<open>sqrt_seq\<close>, delivers the bits and the flags of the square root
  operation for every operand in every rounding direction. At the restored floor the residual may need one bit
  more than the precision and be rounded; the guard bit measured from it is right all the same.\<close>

theorem root_sequence_is_root:
  assumes "seq_fmt fmt N" "fits fmt xa" "valid_mode rnd"
  shows "sqrt_seq fmt xa rnd = sqrt_f fmt xa rnd"
  by (rule sqrt_seq_sqrt [OF assms])

theorem root_sequence_is_root_witness:
  "sqrt_seq FP32 1073741824 RND_RDN = Inr (round_real FP32 RND_RDN 0 (sqrt 2))"
  using root_sequence_is_root [OF seq_fmts(1), of 1073741824 RND_RDN] sqrt_finite [of FP32 1073741824 RND_RDN] by simp

text \<open>C28. Rounding to an integer by adding and subtracting a power of two, \<open>rint_seq\<close>, delivers the bits
  and the flags of the operation in every direction, and the staged multiplication \<open>scaleb_seq\<close> returns,
  whatever the exponent, with the bits and the flags of the single scaling.\<close>

theorem rint_and_scaling_sequences:
  assumes "ladder_fmt fmt" "fits fmt x" "valid_mode rnd"
  shows "rint_seq fmt x rnd exact = round_int fmt x rnd exact \<and> scaleb_seq fmt x n rnd = Some (scaleb fmt x n rnd)"
  using rint_seq_round_int [OF assms] scaleb_seq_scaleb [OF assms] by simp

theorem rint_and_scaling_sequences_witness:
  "rint_seq FP32 1077936128 RND_RDN True = round_int FP32 1077936128 RND_RDN True \<and>
    scaleb_seq FP32 1077936128 (- 150) RND_RNE = Some (scaleb FP32 1077936128 (- 150) RND_RNE)"
  using rint_and_scaling_sequences [of FP32 1077936128] by simp

section \<open>The sequencer\<close>

text \<open>A small program for the witnesses: three times, add the constant to register 0, move it, compare and
  drop the lanes that are done; then deposit the register.\<close>

definition demo_insns :: "int list" where
  "demo_insns = [15032385537, 536870913, 536875266, 2147487748, 2147483650, 2147483651]"

definition demo :: program where
  "demo = \<lparr>p_fmt = FP32, p_insns = demo_insns, p_consts = [1065353216], p_max_deposits = 2, p_flags = 0,
    p_n_scratch_in = 0, p_n_scratch_out = 0, p_scratch_depth = 256, p_n_consts = 1\<rparr>"

lemma demo_made: "mk_program FP32 demo_insns [1065353216] 2 0 None 0 0 256 = Inr demo"
  by (simp add: demo_def demo_insns_def mk_program_def check_scratch_depth_def n_consts_def bank_ext_def scratch_io_def Let_def SCRATCH_D_MAX_def
      validate_def check_header_def seq_defs ctrl_defs code_defs push_bit_eq_mult bits_arith validate_insn_def decode_def check_operands_def
      check_control_def check_nesting_def FP32_def width_def vstart_def drop_bit_eq_div CTRL_NAMES_def used_fields_def IMM_ALLOWED_def
      decode_raw_def)

lemma demo_valid: "validate demo = Inr ()"
  by (rule mk_program_cases(1) [OF demo_made])
lemma demo_starts:
  "length b = length a \<Longrightarrow> start_run demo (dense a b None) = Inr (env_of demo (dense a b None), mach_of demo (dense a b None), int (length a), length a)"
proof -
  assume "length b = length a"
  then have "startable demo (dense a b None)"
    by (simp add: startable_def dense_def demo_def demo_insns_def check_run_depth_def check_scratch_depth_def static_scratch_reach_def decode_def
        scratch_io_def check_bank_def bank_ext_def check_scratch_in_def lanes_c_def lanes_keep_def Let_def seq_defs ctrl_defs)
  moreover have "plain (dense a b None)" by (simp add: plain_def dense_def)
  ultimately show ?thesis using start_plain [of "dense a b None"] by (simp add: dense_def)
qed

text \<open>C29. Instruction words: \<open>encode\<close> of the decoded fields gives back every word of 64 bits whose
  rounding attribute is one of the five, so a word has one reading; and \<open>alu\<close> puts each operand where
  \<open>sources\<close> finds it, register or constant, in the plain and in the extended constant addressing.\<close>

theorem instruction_words_round_trip:
  assumes "0 \<le> op" "op < 256" "0 \<le> rd" "rd < NREG" "0 \<le> rnd" "rnd \<le> 4"
    and "operand_ok kx ka ra" "operand_ok kx kb rb" "operand_ok kx kc rc"
  shows "(\<forall>w. 0 \<le> w \<and> w < 2 ^ 64 \<and> i_rnd (decode w) \<le> 4 \<longrightarrow> (let d = decode w in
      encode (i_op d) (i_rd d) (i_ra d) (i_rb d) (i_rc d) (i_rnd d) (i_ka d) (i_kb d) (i_kc d) (i_ctrl d) (i_imm d) (i_kx d) = Inr w))
    \<and> (\<exists>w. alu op rd ra rb rc rnd ka kb kc kx = Inr w \<and> sources (decode w) = [(ra, ka), (rb, kb), (rc, kc)] \<and>
      i_op (decode w) = op \<and> i_rd (decode w) = rd \<and> i_rnd (decode w) = rnd \<and> \<not> i_ctrl (decode w))"
  using alu_sources [OF assms] encode_decode unfolding Let_def by metis

theorem instruction_words_round_trip_witness:
  "\<exists>w. alu 1 5 300 2 31 0 True False False True = Inr w \<and> sources (decode w) = [(300, True), (2, False), (31, False)]"
  using instruction_words_round_trip [of 1 5 0 True True 300 False 2 False 31] by (auto simp: operand_ok_def NREG_def KADDR_KX_def)

text \<open>C30. A program that the constructor accepts, of a format of the ladder, with constants and flags of
  their width and header counts that are not negative and fit their words, has an image, and loading the
  image at the same scratch depth gives back that program.\<close>

theorem program_image_round_trip:
  assumes "mk_program fmt insns kons md fl nc nin nout depth = Inr p" "image_ok p"
  shows "\<exists>bs. to_bytes p = Inr bs \<and> from_bytes bs depth = Inr p"
proof -
  have ok: "FORMATS (fmt_name (p_fmt p)) = Some (p_fmt p)" using assms(2) by (simp add: image_ok_def)
  obtain code where c: "PREC_CODE (fmt_name (p_fmt p)) = Some code" "0 \<le> code" "code < 4" by (rule ladder_code [OF ok])
  from to_bytes_image(1) [OF validate_header [OF mk_program_cases(1) [OF assms(1)]] assms(2) c] show ?thesis
    using from_bytes_image [OF assms] by blast
qed

theorem program_image_round_trip_witness:
  "\<exists>bs. to_bytes demo = Inr bs \<and> from_bytes bs 256 = Inr demo"
  by (rule program_image_round_trip [OF demo_made])
    (simp add: image_ok_def demo_def demo_insns_def n_consts_def FORMATS_def FP32_def)

text \<open>C31. The early exit changes nothing but the count: with it and without it a validated program
  without an instruction budget gives the same error or ends with the same result (deposits, flags, status,
  registers, active bits, counts, scratch memory, scratch block and lane flags), after at most the
  worst-case number of instructions that validation bounds.\<close>

theorem early_exit_is_invisible:
  assumes "validate p = Inr ()" "r_budget r = None"
  shows "(\<exists>e. \<forall>early. run p (r\<lparr>r_early := early\<rparr>) = Some (Inl e)) \<or>
    (\<exists>u v. run p (r\<lparr>r_early := True\<rparr>) = Some (Inr u) \<and> run p (r\<lparr>r_early := False\<rparr>) = Some (Inr v) \<and>
      result_state u = result_state v \<and> s_insns_executed u \<le> s_insns_executed v \<and> s_insns_executed v \<le> MAX_INSTRUCTIONS)"
  by (rule run_early_exit [OF assms])

theorem early_exit_is_invisible_witness:
  "run demo (dense [1065353216] [0] None\<lparr>r_early := False\<rparr>) \<noteq> None"
  using early_exit_is_invisible [OF demo_valid, of "dense [1065353216] [0] None"] by (auto simp: dense_def)

text \<open>C32. Lanes do not see each other: a run over the lanes of two runs (both dense, with the same bank
  and depth) returns the two results side by side, lane after lane, with the flags and the status
  joined. So the blocking of lanes into tiles cannot change a result.\<close>

theorem lanes_are_independent:
  assumes "validate p = Inr ()" "alike r s" "run p r = Some (Inr u)" "run p s = Some (Inr v)"
  shows "\<exists>w. run p (side_by_side r s) = Some (Inr w) \<and> s_deposits w = s_deposits u @ s_deposits v \<and>
    s_flags w = (s_flags u OR s_flags v) \<and> s_status w = (s_status u OR s_status v) \<and> s_regs w = s_regs u @ s_regs v \<and>
    s_active w = s_active u @ s_active v \<and> s_counts w = s_counts u @ s_counts v \<and> s_scratch w = s_scratch u @ s_scratch v \<and>
    s_scratch_out w = s_scratch_out u @ s_scratch_out v \<and> s_lane_flags w = s_lane_flags u @ s_lane_flags v"
  using run_beside [OF assms] by (simp add: results_beside_def)

lemma demo_format: "ladder_fmt FP32" "32 \<le> width FP32" "r_budget (dense a b c) = None"
  by simp_all (simp_all add: FP32_def width_def dense_def)

lemma demo_returns: "length b = length a \<Longrightarrow> \<exists>u. run demo (dense a b None) = Some (Inr u)"
proof -
  assume l: "length b = length a"
  from run_returns [OF demo_made demo_format(1,2) demo_starts [OF l] demo_format(3)] show ?thesis by blast
qed

theorem lanes_are_independent_witness:
  "\<exists>u v w. run demo (dense [1065353216] [0] None) = Some (Inr u) \<and> run demo (dense [0, 5] [7, 8] None) = Some (Inr v) \<and>
    run demo (side_by_side (dense [1065353216] [0] None) (dense [0, 5] [7, 8] None)) = Some (Inr w) \<and> s_regs w = s_regs u @ s_regs v"
proof -
  obtain u v where uv: "run demo (dense [1065353216] [0] None) = Some (Inr u)" "run demo (dense [0, 5] [7, 8] None) = Some (Inr v)"
    using demo_returns [of "[0]" "[1065353216]"] demo_returns [of "[7, 8]" "[0, 5]"] by auto
  have "alike (dense [1065353216] [0] None) (dense [0, 5] [7, 8] None)" by (simp add: alike_def plain_def dense_def)
  from lanes_are_independent [OF demo_valid this uv] uv show ?thesis by blast
qed

text \<open>C33. A validated program does not go wrong: once a run without an instruction budget has accepted its
  arguments it returns a result within the worst-case count, no instruction raises whatever the operands, and every register,
  deposit and scratch word of the result is an encoding of the format, in arrays of the sizes told.\<close>

theorem validated_runs_return:
  assumes "mk_program fmt insns kons md fl nc nin nout depth = Inr p" "ladder_fmt fmt" "32 \<le> width fmt"
    and "start_run p r = Inr (env, m, na, n)" "r_budget r = None"
  shows "\<exists>u. run p r = Some (Inr u) \<and> s_insns_executed u \<le> MAX_INSTRUCTIONS \<and> length (s_regs u) = n \<and>
    (\<forall>row \<in> set (s_regs u). length row = nat NREG \<and> (\<forall>x \<in> set row. fits fmt x)) \<and>
    length (s_deposits u) = n * nat md \<and> (\<forall>x \<in> set (s_deposits u). fits fmt x) \<and>
    length (s_scratch u) = n \<and> (\<forall>row \<in> set (s_scratch u). \<forall>x \<in> set row. fits fmt x)"
proof -
  obtain m' c where r: "run p r = Some (Inr (finish_run p na (e_keep env) n c m'))" "good env m'" "c_executed c \<le> MAX_INSTRUCTIONS"
    "n_lanes env = n" "env_ok env" "e_prog env = p" by (rule run_returns [OF assms])
  have "p_fmt p = fmt" "p_max_deposits p = md" using mk_program_cases [OF assms(1)] by simp_all
  then show ?thesis using r unfolding good_def sound_def fit_def
    by (auto simp: finish_run_def row_ok_def all_set_conv_all_nth)
qed

theorem validated_runs_return_witness:
  "\<exists>u. run demo (dense [1065353216, 0] [5, 6] None) = Some (Inr u) \<and> length (s_regs u) = 2"
  using validated_runs_return [OF demo_made demo_format(1,2) demo_starts demo_format(3), of "[5, 6]" "[1065353216, 0]"] by force

text \<open>C34. The sticky words are the lanes' bytes: in a run without an instruction budget whose every lane
  belongs to the caller, \<open>FLAGS\<close> is the
  union of the low five bits of the lane flags, the status is the union of their high three bits one
  place down, and a lane the mask excludes has an empty byte.\<close>

theorem sticky_words_are_lane_bytes:
  assumes "mk_program fmt insns kons md fl nc nin nout depth = Inr p" "ladder_fmt fmt" "32 \<le> width fmt"
    and "start_run p r = Inr (env, m, na, n)" "r_budget r = None" "na = int n"
  shows "\<exists>u. run p r = Some (Inr u) \<and> s_flags u = orr (map ieee_part (s_lane_flags u)) \<and>
    s_status u = orr (map status_part (s_lane_flags u)) \<and> (\<forall>i < n. \<not> e_keep env ! i \<longrightarrow> s_lane_flags u ! i = 0)"
proof -
  obtain m' c where r: "run p r = Some (Inr (finish_run p na (e_keep env) n c m'))" "good env m'" "n_lanes env = n"
    by (rule run_returns [OF assms(1-5)])
  have a: "accounted env m'" using r(2) by (simp add: good_def)
  have "map (\<lambda>i. if int i < na \<and> e_keep env ! i then m_lane_fl m' ! i else 0) [0..<n] = m_lane_fl m'"
    using a r(3) assms(6) by (intro nth_equalityI) (simp_all add: accounted_def)
  then show ?thesis using a r(1,3) by (auto simp: finish_run_def accounted_def)
qed

theorem sticky_words_are_lane_bytes_witness:
  "\<exists>u. run demo (dense [1065353216, 0] [5, 6] None) = Some (Inr u) \<and> s_flags u = orr (map ieee_part (s_lane_flags u))"
  using sticky_words_are_lane_bytes [OF demo_made demo_format(1,2) demo_starts demo_format(3), of "[5, 6]" "[1065353216, 0]"] by force

section \<open>The expression language and its compiler\<close>

text \<open>
  A graph in its published form, for the witnesses: one component, one param, one constant, a step in which one
  product appears twice and a negation is multiplied by the constant, and one tangent vector.
\<close>

definition small_obj :: graph_obj where
  "small_obj = \<lparr>j_version = 2, j_system = ''small'', j_format = ''fp32'', j_round = ''rne'', j_state = [(''x'', None)],
    j_lane = [], j_param = [(''k'', ''1/2'', ''3f000000'', 0)], j_integrator = (''euler'', Some ''1/4''),
    j_const = [(''3'', None, ''40400000'', 0)], j_field = None,
    j_step = Some \<lparr>o_out = [''n4''], o_nodes = [(''mul'', [''s0'', ''c0''], Some ''a''), (''mul'', [''c0'', ''s0''], None),
       (''neg'', [''s0''], None), (''fma'', [''n2'', ''c0'', ''n1''], None), (''add'', [''n3'', ''p0''], None)]\<rparr>,
    j_tangent = Some [''v''], j_tangent_field = None,
    j_tangent_step = Some \<lparr>o_out = [''d1''], o_nodes = [(''mul'', [''n0'', ''t0''], None), (''add'', [''d0'', ''t0''], None)]\<rparr>\<rparr>"

definition small_plain :: graph_obj where "small_plain = small_obj\<lparr>j_version := 1\<rparr>"

definition small_run :: lang_args where
  "small_run = \<lparr>a_states = [[1065353216]], a_steps = 1, a_lane_params = None, a_params = [], a_param_bits = [], a_h = None,
    a_at = [1], a_tangents = Some [[[1065353216]]]\<rparr>"

definition plain_run :: lang_args where "plain_run = small_run\<lparr>a_tangents := None\<rparr>"

definition no_routines :: transcendental where "no_routines fmt op x rnd = Inl InternalError"
definition no_words :: fragments where "no_words op fmt rnd = Inr []"

definition succeeds :: "'a result \<Rightarrow> bool" where
  "succeeds x = (case x of Inr y \<Rightarrow> True | Inl e \<Rightarrow> False)"

lemma succeeds_Inr: "succeeds x \<longleftrightarrow> (\<exists>y. x = Inr y)"
  by (cases x) (simp_all add: succeeds_def)

definition got :: "'a result \<Rightarrow> 'a" where
  "got x = (case x of Inr y \<Rightarrow> y)"

lemma got_Inr [simp]: "got (Inr y) = y"
  by (simp add: got_def)

lemma small_read: "succeeds (Graph small_obj)"
  by code_simp

lemma small_compiles: "succeeds (lower_f no_words (got (Graph small_plain)) (\<lambda>_. None) [])"
  by code_simp

lemma small_taken: "succeeds (from_obj small_obj)"
  by code_simp

lemma small_accepted: "problem (got (from_obj small_obj)) = Inr False"
  by code_simp

lemma small_runs: "succeeds (lang_run no_routines False (got (from_obj small_obj)) small_run)"
  by code_simp

lemma small_plain_read: "succeeds (Graph small_plain)"
  by code_simp

lemma small_plain_taken: "succeeds (from_obj small_plain)"
  by code_simp

lemma small_plain_accepted: "problem (got (from_obj small_plain)) = Inr False"
  by code_simp

lemma small_runs_plain: "succeeds (lang_run no_routines False (got (from_obj small_plain)) plain_run)"
  by code_simp

lemma small_lengths: "lengths_ok small_obj" "lengths_ok small_plain"
  by (simp_all add: lengths_ok_def small_obj_def small_plain_def)

lemma small_both:
  obtains lg cg out where "both_read small_obj lg cg" "lang_run no_routines False lg small_run = Inr out" "Graph small_obj = Inr cg"
proof -
  obtain cg where c: "Graph small_obj = Inr cg" using small_read unfolding succeeds_Inr by blast
  obtain lg out where l: "from_obj small_obj = Inr lg" "lang_run no_routines False lg small_run = Inr out"
    using small_taken small_runs unfolding succeeds_Inr by auto
  moreover have "problem lg = Inr False" using small_accepted l(1) by simp
  ultimately show ?thesis using that [of lg cg out] c small_lengths(1) by (simp add: both_read_def)
qed

lemma plain_both:
  obtains lg cg out low where "both_read small_plain lg cg" "lang_run no_routines False lg plain_run = Inr out"
    "Graph small_plain = Inr cg" "lower_f no_words cg (\<lambda>_. None) [] = Inr low"
proof -
  obtain cg low where c: "Graph small_plain = Inr cg" "lower_f no_words cg (\<lambda>_. None) [] = Inr low"
    using small_plain_read small_compiles unfolding succeeds_Inr by auto
  obtain lg out where l: "from_obj small_plain = Inr lg" "lang_run no_routines False lg plain_run = Inr out"
    using small_plain_taken small_runs_plain unfolding succeeds_Inr by auto
  moreover have "problem lg = Inr False" using small_plain_accepted l(1) by simp
  ultimately show ?thesis using that [of lg cg out low] c small_lengths(2) by (simp add: both_read_def)
qed

text \<open>C35. An exact value written as the step graph writes it, \<open>p\<close> or \<open>p/q\<close> in lowest terms with its sign, is read
  back as itself; and the reader accepts no other text for it.\<close>

theorem exact_texts_round_trip:
  "parse_frac (const_frac_text v) = Inr v \<and> (parse_frac t = Inr v \<longleftrightarrow> t = const_frac_text v)"
  using parse_frac_text parse_frac_only by blast

text \<open>C36. What the compiler's reader makes of a published object is a graph: every node has its operation's count
  of operands, each a leaf that exists or an earlier node, in the primal step and in every copy of the tangent
  section; and there is one output for each component of the state with its tangents.\<close>

theorem reader_makes_graphs:
  assumes "Graph obj = Inr g"
  shows "(\<forall>k < length (g_nodes g). case g_nodes g ! k of (op, args, label) \<Rightarrow>
      length args = ARITY op \<and> (\<forall>r \<in> set args. ref_in g k r))
    \<and> (\<forall>r \<in> set (g_outs g). ref_in g (length (g_nodes g)) r) \<and> g_n_state g = g_n_primal g * (length (g_tangent g) + 1)
    \<and> length (g_outs g) = g_n_state g"
  using reader_accepts_graphs [OF assms] by (simp add: graph_ok_def nodes_ok_def)

theorem reader_makes_graphs_witness: "\<exists>g. Graph small_obj = Inr g \<and> length (g_outs g) = g_n_state g"
proof -
  obtain g where g: "Graph small_obj = Inr g" by (rule small_both)
  then show ?thesis using reader_makes_graphs [OF g] by blast
qed

text \<open>C37. The scheduler returns, for every candidate and every pinning, with each lowered node once and after the
  nodes it reads.\<close>

theorem scheduler_returns_an_order:
  assumes "Graph obj = Inr g" and "lower_f fw g pb lw = Inr low"
  shows "\<exists>js. sched_order low name margin pinned budget = Some (Inr js)
    \<and> distinct js \<and> set js = {..< length (w_nodes low)}
    \<and> (\<forall>p < length js. \<forall>i. (KN, i) \<in> set (n_args (w_nodes low ! (js ! p))) \<longrightarrow> i \<in> set (take p js))"
proof -
  obtain js where js: "sched_order low name margin pinned budget = Some (Inr js)" "valid_order (skeleton (w_nodes low)) js"
    using lowered_order [OF reader_accepts_graphs [OF assms(1)] assms(2)] by blast
  have "js ! p < length (w_nodes low)" if "p < length js" for p using js(2) that nth_mem [OF that] by (auto simp: valid_order_def)
  then show ?thesis using js by (simp add: valid_order_def)
qed

theorem scheduler_returns_an_order_witness:
  "\<exists>g low js. Graph small_plain = Inr g \<and> lower_f no_words g (\<lambda>_. None) [] = Inr low
    \<and> sched_order low ''latency'' 0 [] 29 = Some (Inr js) \<and> distinct js \<and> set js = {..< length (w_nodes low)}"
proof -
  obtain g low where g: "Graph small_plain = Inr g" "lower_f no_words g (\<lambda>_. None) [] = Inr low"
    by (rule plain_both)
  then show ?thesis using scheduler_returns_an_order [OF g, of "''latency''" 0 "[]" 29] by blast
qed

text \<open>C38. Lowering is invisible: sharing equal nodes, folding negations into flipped constants, and reading every
  constant, flip and param from its slot of the bank leave the values and the flags of the step as they were,
  whatever the operations outside the model return, in every order the scheduler gives.\<close>

theorem lowering_keeps_the_step:
  assumes "Graph obj = Inr g" and "lower_f fw g pb lw = Inr low"
    and "sched_order low name margin pinned budget = Some (Inr js)"
  shows "order_result (ops tr (g_fmt g) rnd) (bank_leaf low inputs) (skeleton (w_nodes low)) (w_outs low) js = Inr y
    \<longleftrightarrow> step_result (ops tr (g_fmt g) rnd) (graph_leaf g pb inputs) (graph_skeleton g) (g_outs g) = Inr y"
proof -
  obtain js' where j: "sched_order low name margin pinned budget = Some (Inr js')"
    "\<forall>y. order_result (ops tr (g_fmt g) rnd) (bank_leaf low inputs) (skeleton (w_nodes low)) (w_outs low) js' = Inr y
      \<longleftrightarrow> step_result (ops tr (g_fmt g) rnd) (graph_leaf g pb inputs) (graph_skeleton g) (g_outs g) = Inr y"
    using lowered_any_order [OF reader_accepts_graphs [OF assms(1)] assms(2)] by blast
  have "js' = js" using j(1) assms(3) by simp
  then show ?thesis using j(2) by blast
qed

theorem lowering_keeps_the_step_witness:
  "\<exists>g low. Graph small_plain = Inr g \<and> lower_f no_words g (\<lambda>_. None) [] = Inr low
    \<and> (\<forall>y. order_result (ops no_routines (g_fmt g) 0) (bank_leaf low (\<lambda>_. 1065353216)) (skeleton (w_nodes low)) (w_outs low)
            [0 ..< length (w_nodes low)] = Inr y
        \<longleftrightarrow> step_result (ops no_routines (g_fmt g) 0) (graph_leaf g (\<lambda>_. None) (\<lambda>_. 1065353216)) (graph_skeleton g) (g_outs g) = Inr y)"
proof -
  obtain g low where g: "Graph small_plain = Inr g" "lower_f no_words g (\<lambda>_. None) [] = Inr low"
    by (rule plain_both)
  have "sched_order low ''graph'' 0 [] 29 = Some (Inr [0 ..< length (w_nodes low)])" by (simp add: sched_order_def)
  from lowering_keeps_the_step [OF g this] g show ?thesis by blast
qed

text \<open>C39. The compiled step computes the language's runs. For a graph the language accepts and the compiler reads,
  a run of the reference interpreter at the graph's own step size, with the params the bank holds, ends, in every lane, with the states, the tangents and the flags that come
  from executing the lowered nodes, in any order the scheduler gives and with their constants read from the bank,
  once for each step.\<close>

theorem compiled_step_computes_the_run:
  assumes "both_read obj lg cg" and "lang_run tr mp lg a = Inr out" and "a_h a = None"
    and "resolve_params lg a = Inr pbits" and "resolve_lane_params lg a = Inr lps"
    and "\<forall>i < length (g_param cg). param_bits_of cg pb i = pbits ! i" and "lower_f fw cg pb lw = Inr low"
  shows "\<exists>js fls. sched_order low name margin pinned budget = Some (Inr js) \<and> length fls = length (a_states a)
    \<and> r_flags out = or_all fls \<and> (\<forall>i < length (a_states a).
        order_steps (ops tr (g_fmt cg) (g_rnd cg)) (\<lambda>xs. bank_leaf low (lane_inputs (lps ! i) xs)) (skeleton (w_nodes low)) (w_outs low) js
          (nat (a_steps a)) (a_states a ! i @ concat (tangents_in a i), 0)
        = Inr (r_states out ! i @ concat (tangents_out out i), fls ! i))"
  by (rule compiled_run [OF assms])

theorem compiled_step_computes_the_run_witness:
  "\<exists>lg (cg :: cgraph) out low js fls lp. lang_run no_routines False lg plain_run = Inr out
    \<and> sched_order low ''pressure'' 0 [] 29 = Some (Inr js) \<and> r_flags out = or_all fls
    \<and> order_steps (ops no_routines (g_fmt cg) (g_rnd cg)) (\<lambda>xs. bank_leaf low (lane_inputs lp xs)) (skeleton (w_nodes low)) (w_outs low) js
        1 ([1065353216], 0) = Inr (r_states out ! 0 @ concat (tangents_out out 0), fls ! 0)"
proof -
  obtain lg cg out low where s: "both_read small_plain lg cg" "lang_run no_routines False lg plain_run = Inr out"
    "lower_f no_words cg (\<lambda>_. None) [] = Inr low" by (rule plain_both)
  obtain stp where t: "l_step lg = Some stp" "l_param lg = g_param cg" using both_graphs [OF s(1)] by metis
  obtain pbits lps where r: "resolve_params lg plain_run = Inr pbits" "resolve_lane_params lg plain_run = Inr lps"
    using lang_run_steps [OF s(1) t(1) s(2)] by blast
  have p: "\<forall>i < length (g_param cg). param_bits_of cg (\<lambda>_. None) i = pbits ! i"
    using default_params [OF r(1) _ _ t(2)] by (simp add: plain_run_def small_run_def)
  have h: "a_h plain_run = None" by (simp add: plain_run_def small_run_def)
  note W = compiled_step_computes_the_run [OF s(1,2) h r p s(3), of "''pressure''" 0 "[]" 29]
  have a: "a_states plain_run = [[1065353216]]" "a_steps plain_run = 1" "tangents_in plain_run 0 = []"
    by (simp_all add: plain_run_def small_run_def tangents_in_def)
  obtain js fls where w: "sched_order low ''pressure'' 0 [] 29 = Some (Inr js)" "r_flags out = or_all fls"
    "\<forall>i < length (a_states plain_run). order_steps (ops no_routines (g_fmt cg) (g_rnd cg)) (\<lambda>xs. bank_leaf low (lane_inputs (lps ! i) xs))
      (skeleton (w_nodes low)) (w_outs low) js (nat (a_steps plain_run)) (a_states plain_run ! i @ concat (tangents_in plain_run i), 0)
      = Inr (r_states out ! i @ concat (tangents_out out i), fls ! i)"
    using W by blast
  have o: "order_steps (ops no_routines (g_fmt cg) (g_rnd cg)) (\<lambda>xs. bank_leaf low (lane_inputs (lps ! 0) xs)) (skeleton (w_nodes low))
      (w_outs low) js 1 ([1065353216], 0) = Inr (r_states out ! 0 @ concat (tangents_out out 0), fls ! 0)"
    using w(3) [rule_format, of 0] unfolding a by simp
  show ?thesis
    by (rule exI [of _ lg], rule exI [of _ cg], rule exI [of _ out], rule exI [of _ low], rule exI [of _ js], rule exI [of _ fls],
      rule exI [of _ "lps ! 0"]) (intro conjI s(2) w(1,2) o)
qed

text \<open>C40. Tangents do not change what they follow: the states of a run with tangents, and its primal flags, are the
  states and the flags of the run of the same graph without its tangent sections.\<close>

theorem tangents_leave_the_run:
  assumes "both_read obj lg cg" and "both_read (obj\<lparr>j_version := 1\<rparr>) lg0 cg0"
    and "lang_run tr mp lg a = Inr out" and "lang_run tr mp lg0 (a\<lparr>a_tangents := None\<rparr>) = Inr out0"
  shows "r_states out0 = r_states out \<and> r_flags out0 = r_primal_flags out"
  by (rule primal_of_run [OF assms])

theorem tangents_leave_the_run_witness:
  "\<exists>lg lg0 out out0. lang_run no_routines False lg small_run = Inr out
    \<and> lang_run no_routines False lg0 (small_run\<lparr>a_tangents := None\<rparr>) = Inr out0 \<and> r_states out0 = r_states out"
proof -
  obtain lg cg out where s: "both_read small_obj lg cg" "lang_run no_routines False lg small_run = Inr out" by (rule small_both)
  obtain lg0 cg0 out0 where t: "both_read (small_obj\<lparr>j_version := 1\<rparr>) lg0 cg0"
    "lang_run no_routines False lg0 (small_run\<lparr>a_tangents := None\<rparr>) = Inr out0"
    by (rule plain_both [unfolded small_plain_def plain_run_def])
  show ?thesis using tangents_leave_the_run [OF s(1) t(1) s(2) t(2)] s(2) t(2) by blast
qed

end
